(* ===== verification/Prelude.thy ===== *)
theory Prelude
  imports Main "HOL-Library.Word" "HOL-Library.Multiset"
begin

text \<open>
  What every component of the development shares: bytes and buffers, the sum type that stands for
  "returns or throws", the parser type that stands for "reads from a moving pointer", the theorem
  collections, and the generic list lemmas the component proofs use.
\<close>

section \<open>Bytes, results, parsers\<close>

type_synonym byte = "8 word"
type_synonym bytes = "byte list"

text \<open>
  The ways the modelled code does not return a value. The first group are the exceptions it throws,
  the second the \<open>std::abort\<close> calls and the situations in which C++ gives the code no meaning
  (a read or a write outside a buffer, \<open>bit_cast\<close> of a byte other than 0 and 1 to \<open>bool\<close>,
  overflow of a signed tick count, an object whose type does not fit its descriptor, a second release of
  a binary semaphore, a null pointer, a shift by the width of the type or more,
  an object constructed twice or destroyed when it is not there, an algorithm of the standard library on a
  range that is not what it requires).
\<close>

datatype error =
    Corrupted_format
  | Bad_version_control
  | Bad_format
  | Length_error
  | Invalid_argument
  | Abort
  | Out_of_bounds
  | Invalid_bool
  | Signed_overflow
  | Type_mismatch
  | Semaphore_overflow
  | Null_pointer
  | Bad_shift
  | Bad_lifetime
  | Bad_range

type_synonym 'a result = "error + 'a"
type_synonym 'a parser = "bytes \<Rightarrow> error + ('a \<times> bytes)"

text \<open>Sequencing of code that may throw, and of code that reads from a moving pointer.\<close>

definition bindR :: "'a result \<Rightarrow> ('a \<Rightarrow> 'b result) \<Rightarrow> 'b result" where
  "bindR m f = (case m of Inl e \<Rightarrow> Inl e | Inr x \<Rightarrow> f x)"

definition bindP :: "'a parser \<Rightarrow> ('a \<Rightarrow> 'b parser) \<Rightarrow> 'b parser" where
  "bindP p f = (\<lambda>bs. case p bs of Inl e \<Rightarrow> Inl e | Inr (x, bs') \<Rightarrow> f x bs')"

definition returnP :: "'a \<Rightarrow> 'a parser" where
  "returnP x = (\<lambda>bs. Inr (x, bs))"

definition failP :: "error \<Rightarrow> 'a parser" where
  "failP e = (\<lambda>bs. Inl e)"

lemma bindR_simps [simp]:
  "bindR (Inl e) f = Inl e"
  "bindR (Inr x) f = f x"
  by (simp_all add: bindR_def)

lemma bindR_assoc: "bindR (bindR m f) g = bindR m (\<lambda>x. bindR (f x) g)"
  by (cases m) (simp_all add: bindR_def)

lemma bindR_eq_Inr: "bindR m f = Inr y \<longleftrightarrow> (\<exists>x. m = Inr x \<and> f x = Inr y)"
  by (cases m) auto

lemma bindR_eq_Inl: "bindR m f = Inl e \<longleftrightarrow> m = Inl e \<or> (\<exists>x. m = Inr x \<and> f x = Inl e)"
  by (cases m) auto

lemma returnP_apply [simp]: "returnP x bs = Inr (x, bs)"
  by (simp add: returnP_def)

lemma failP_apply [simp]: "failP e bs = Inl e"
  by (simp add: failP_def)

lemma bindP_Inr [simp]: "p bs = Inr (x, bs') \<Longrightarrow> bindP p f bs = f x bs'"
  by (simp add: bindP_def)

lemma bindP_Inl [simp]: "p bs = Inl e \<Longrightarrow> bindP p f bs = Inl e"
  by (simp add: bindP_def)

lemma bindP_eq_Inr:
  "bindP p f bs = Inr r \<longleftrightarrow> (\<exists>x bs'. p bs = Inr (x, bs') \<and> f x bs' = Inr r)"
  by (auto simp: bindP_def split: sum.splits)

lemma bindP_eq_Inl:
  "bindP p f bs = Inl e \<longleftrightarrow> p bs = Inl e \<or> (\<exists>x bs'. p bs = Inr (x, bs') \<and> f x bs' = Inl e)"
  by (auto simp: bindP_def split: sum.splits)

section \<open>Properties of parsers that are proved compositionally\<close>

text \<open>
  \<^item> \<open>consumes p\<close>: what \<open>p\<close> leaves is a suffix of what it was given (the pointer only advances);
  \<^item> \<open>only_throws p\<close>: \<open>p\<close> fails only by one of the exceptions of the source or by
    reading an invalid \<open>bool\<close>, a tick count that overflows: never by leaving the buffer;
  \<^item> \<open>refines_but e p q\<close>: wherever \<open>p\<close> succeeds, \<open>q\<close> gives the same result or fails with \<open>e\<close>.
\<close>

named_theorems consumes_intros "the pointer of a composed parser only advances"
named_theorems safe_intros "a composed parser never leaves its buffer"
named_theorems refines_intros "a composed parser refines its composed counterpart"

definition consumes :: "'a parser \<Rightarrow> bool" where
  "consumes p \<longleftrightarrow> (\<forall>bs x bs'. p bs = Inr (x, bs') \<longrightarrow> (\<exists>used. bs = used @ bs'))"

definition in_bounds :: "'a parser \<Rightarrow> bool" where
  "in_bounds p \<longleftrightarrow> (\<forall>bs. p bs \<noteq> Inl Out_of_bounds)"

definition refines_but :: "error \<Rightarrow> 'a parser \<Rightarrow> 'a parser \<Rightarrow> bool" where
  "refines_but e p q \<longleftrightarrow> (\<forall>bs r. p bs = Inr r \<longrightarrow> q bs = Inr r \<or> q bs = Inl e)"

definition suffix_of :: "'a list \<Rightarrow> 'a list \<Rightarrow> bool" where
  "suffix_of rest bs \<longleftrightarrow> (\<exists>used. bs = used @ rest)"

lemma consumesD: "consumes p \<Longrightarrow> p bs = Inr (x, bs') \<Longrightarrow> \<exists>used. bs = used @ bs'"
  by (auto simp: consumes_def)

lemma consumes_length: "consumes p \<Longrightarrow> p bs = Inr (x, bs') \<Longrightarrow> length bs' \<le> length bs"
  by (auto dest: consumesD)

lemma in_boundsD: "in_bounds p \<Longrightarrow> p bs = Inl Out_of_bounds \<Longrightarrow> False"
  by (auto simp: in_bounds_def)

lemma refines_butD: "refines_but e p q \<Longrightarrow> p bs = Inr r \<Longrightarrow> q bs = Inr r \<or> q bs = Inl e"
  unfolding refines_but_def by blast

lemma consumes_returnP [consumes_intros]: "consumes (returnP x)"
  by (auto simp: consumes_def)

lemma consumes_failP [consumes_intros]: "consumes (failP e)"
  by (auto simp: consumes_def)

lemma consumes_lambda [consumes_intros]:
  "consumes (\<lambda>bs. Inl e)"
  "consumes (\<lambda>bs. Inr (x, bs))"
  by (auto simp: consumes_def)

lemma consumes_bindP [consumes_intros]:
  assumes "consumes p" and "\<And>x. consumes (f x)"
  shows "consumes (bindP p f)"
  unfolding consumes_def
proof (intro allI impI)
  fix bs y bs''
  assume "bindP p f bs = Inr (y, bs'')"
  then obtain x bs' where "p bs = Inr (x, bs')" and "f x bs' = Inr (y, bs'')"
    by (auto simp: bindP_eq_Inr)
  then obtain u u' where "bs = u @ bs'" and "bs' = u' @ bs''"
    using assms consumesD by metis
  then have "bs = (u @ u') @ bs''" by simp
  then show "\<exists>used. bs = used @ bs''" ..
qed

lemma consumes_if [consumes_intros]:
  "consumes p \<Longrightarrow> consumes q \<Longrightarrow> consumes (if b then p else q)"
  by simp

lemma in_bounds_returnP [safe_intros]: "in_bounds (returnP x)"
  by (simp add: in_bounds_def)

lemma in_bounds_failP [safe_intros]: "e \<noteq> Out_of_bounds \<Longrightarrow> in_bounds (failP e)"
  by (simp add: in_bounds_def)

lemma in_bounds_lambda [safe_intros]:
  "e \<noteq> Out_of_bounds \<Longrightarrow> in_bounds (\<lambda>bs. Inl e)"
  "in_bounds (\<lambda>bs. Inr (x, bs))"
  by (simp_all add: in_bounds_def)

lemma in_bounds_bindP [safe_intros]:
  "in_bounds p \<Longrightarrow> (\<And>x. in_bounds (f x)) \<Longrightarrow> in_bounds (bindP p f)"
  by (auto simp: in_bounds_def bindP_eq_Inl)

lemma in_bounds_if [safe_intros]:
  "in_bounds p \<Longrightarrow> in_bounds q \<Longrightarrow> in_bounds (if b then p else q)"
  by simp

lemma refines_but_refl [refines_intros]: "refines_but e p p"
  by (simp add: refines_but_def)

lemma refines_but_failP [refines_intros]: "refines_but e (failP e') q"
  by (simp add: refines_but_def)

lemma refines_but_lambda [refines_intros]:
  "refines_but e (\<lambda>bs. Inl e') q"
  by (simp add: refines_but_def)

lemma refines_but_bindP [refines_intros]:
  assumes "refines_but e p q" and "\<And>x. refines_but e (f x) (g x)"
  shows "refines_but e (bindP p f) (bindP q g)"
  unfolding refines_but_def
proof (intro allI impI)
  fix bs r
  assume "bindP p f bs = Inr r"
  then obtain x bs' where p: "p bs = Inr (x, bs')" and f: "f x bs' = Inr r"
    by (auto simp: bindP_eq_Inr)
  show "bindP q g bs = Inr r \<or> bindP q g bs = Inl e"
    using refines_butD [OF assms(1) p] refines_butD [OF assms(2) f]
    by (auto simp: bindP_eq_Inr bindP_eq_Inl)
qed

lemma refines_but_if [refines_intros]:
  "refines_but e p p' \<Longrightarrow> refines_but e q q'
   \<Longrightarrow> refines_but e (if b then p else q) (if b then p' else q')"
  by simp

section \<open>Lists\<close>

lemma take_length_append [simp]: "take (length xs) (xs @ ys) = xs"
  by simp

lemma drop_length_append [simp]: "drop (length xs) (xs @ ys) = ys"
  by simp

lemma distinct_map_fst_append:
  "distinct (map fst (xs @ [p])) \<Longrightarrow> fst p \<notin> fst ` set xs"
  by auto

text \<open>A range of a buffer overwritten in place.\<close>

definition overwrite :: "'a list \<Rightarrow> nat \<Rightarrow> 'a list \<Rightarrow> 'a list" where
  "overwrite buf pos xs = take pos buf @ xs @ drop (pos + length xs) buf"

lemma length_overwrite [simp]:
  "pos + length xs \<le> length buf \<Longrightarrow> length (overwrite buf pos xs) = length buf"
  by (simp add: overwrite_def)

lemma overwrite_Nil [simp]: "overwrite buf pos [] = buf"
  by (simp add: overwrite_def)

lemma take_drop_overwrite:
  "pos + length xs \<le> length buf \<Longrightarrow> take (length xs) (drop pos (overwrite buf pos xs)) = xs"
  by (simp add: overwrite_def)

lemma overwrite_append:
  assumes "pos + length xs + length ys \<le> length buf"
  shows "overwrite (overwrite buf pos xs) (pos + length xs) ys = overwrite buf pos (xs @ ys)"
proof -
  have "drop (pos + length xs + length ys) (overwrite buf pos xs)
      = drop (pos + length xs + length ys) buf"
    using assms by (simp add: overwrite_def add.commute add.left_commute)
  moreover have "take (pos + length xs) (overwrite buf pos xs) = take pos buf @ xs"
    using assms by (simp add: overwrite_def)
  ultimately show ?thesis
    by (simp add: overwrite_def add.assoc)
qed

lemma nth_overwrite:
  assumes "pos + length xs \<le> length buf" and "i < length buf"
  shows "overwrite buf pos xs ! i =
    (if pos \<le> i \<and> i < pos + length xs then xs ! (i - pos) else buf ! i)"
  using assms by (auto simp: overwrite_def nth_append)

end
