(* ===== verification/Serial_Types.thy ===== *)
theory Serial_Types
  imports Prelude
begin

text \<open>
  The data model the serializers work on (\<open>serializer/compact_serializer.h\<close>,
  \<open>serializer/trivial_serializer.h\<close>). The C++ code is a family of overloads selected by the static
  type of the object, so a static type is a value of \<open>ty\<close> here and an object a value of \<open>val\<close>;
  \<open>has_type\<close> says which objects a static type has. Also here: \<open>SyncedEndiannessService\<close> (the
  object representation of an arithmetic value and its byte order), the conversion of tick counts
  (\<open>safe_duration_cast\<close>) and the insertion of elements into the standard containers
  (\<open>get_inserter\<close>).
\<close>

section \<open>Static types and objects\<close>

text \<open>
  An arithmetic type with its \<open>sizeof\<close>: \<open>uintN_t\<close>, \<open>intN_t\<close> and \<open>char\<close>, \<open>bool\<close>, the IEEE types
  (whose objects are their bit patterns).
\<close>

datatype arith = UInt nat | SInt nat | Bool | Float nat

datatype container_kind = Vector | Basic_String | Map | Unordered_Map | Set | Unordered_Set

text \<open>
  \<open>TContainer k t\<close> is a standard container with elements of type \<open>t\<close> (for the maps a pair);
  \<open>TDuration k\<close> an integral \<open>std::chrono::duration\<close> of \<open>k\<close> nanoseconds per tick;
  \<open>TReflect\<close> a struct with a \<open>dg_reflect\<close> over its members; \<open>TWrap w k t\<close> the
  \<open>ContainerWrapper\<close> of a container whose size field has \<open>w\<close> bytes.
\<close>

datatype ty =
    TArith arith
  | TUniquePtr ty
  | TOptional ty
  | TVariant "ty list"
  | TExpected ty ty
  | TTimepoint
  | TDuration int
  | TTuple "ty list"
  | TContainer container_kind ty
  | TReflect "ty list"
  | TWrap nat container_kind ty

text \<open>
  Objects. \<open>VValueless\<close> is a variant whose \<open>index()\<close> is \<open>variant_npos\<close>. A container is the list of
  its elements in iteration order.
\<close>

datatype val =
    VInt int
  | VBool bool
  | VFloat int
  | VNone
  | VSome val
  | VAlt nat val
  | VValueless
  | VOk val
  | VErr val
  | VTuple "val list"
  | VSeq "val list"

fun arith_size :: "arith \<Rightarrow> nat" where
  "arith_size (UInt n) = n"
| "arith_size (SInt n) = n"
| "arith_size Bool = 1"
| "arith_size (Float n) = n"

fun arith_typed :: "arith \<Rightarrow> val \<Rightarrow> bool" where
  "arith_typed (UInt n) (VInt x) \<longleftrightarrow> 0 \<le> x \<and> x < 256 ^ n"
| "arith_typed (SInt n) (VInt x) \<longleftrightarrow> 0 < n \<and> - (256 ^ n) \<le> 2 * x \<and> 2 * x < 256 ^ n"
| "arith_typed Bool (VBool b) \<longleftrightarrow> True"
| "arith_typed (Float n) (VFloat x) \<longleftrightarrow> 0 \<le> x \<and> x < 256 ^ n"
| "arith_typed _ _ \<longleftrightarrow> False"

section \<open>Byte order: SyncedEndiannessService\<close>

datatype endian = Little | Big

text \<open>\<open>constants::endianness\<close>: the byte order of the wire format.\<close>

definition endianness :: endian where
  "endianness = Little"

primrec le_bytes :: "nat \<Rightarrow> int \<Rightarrow> bytes" where
  "le_bytes 0 x = []"
| "le_bytes (Suc n) x = word_of_int x # le_bytes n (x div 256)"

primrec le_uint :: "bytes \<Rightarrow> int" where
  "le_uint [] = 0"
| "le_uint (b # bs) = uint b + 256 * le_uint bs"

text \<open>\<open>std::bit_cast\<close> between an \<open>n\<close>-byte integer and its bytes on a machine of the given order.\<close>

definition bit_cast_bytes :: "endian \<Rightarrow> nat \<Rightarrow> int \<Rightarrow> bytes" where
  "bit_cast_bytes native n x = (case native of Little \<Rightarrow> le_bytes n x | Big \<Rightarrow> rev (le_bytes n x))"

definition bit_cast_int :: "endian \<Rightarrow> bytes \<Rightarrow> int" where
  "bit_cast_int native bs = (case native of Little \<Rightarrow> le_uint bs | Big \<Rightarrow> le_uint (rev bs))"

definition bswap :: "endian \<Rightarrow> nat \<Rightarrow> int \<Rightarrow> int" where
  "bswap native n x = bit_cast_int native (rev (bit_cast_bytes native n x))"

text \<open>The value representation of an arithmetic object, and the object of a value representation.\<close>

fun to_bits :: "arith \<Rightarrow> val \<Rightarrow> int result" where
  "to_bits (UInt n) (VInt x) = Inr x"
| "to_bits (SInt n) (VInt x) = Inr x"
| "to_bits Bool (VBool b) = Inr (if b then 1 else 0)"
| "to_bits (Float n) (VFloat x) = Inr x"
| "to_bits _ _ = Inl Type_mismatch"

fun of_bits :: "arith \<Rightarrow> int \<Rightarrow> val result" where
  "of_bits (UInt n) u = Inr (VInt u)"
| "of_bits (SInt n) u = Inr (VInt (if 2 * u < 256 ^ n then u else u - 256 ^ n))"
| "of_bits Bool u = (if u = 0 then Inr (VBool False) else if u = 1 then Inr (VBool True) else Inl Invalid_bool)"
| "of_bits (Float n) u = Inr (VFloat u)"

definition dump :: "endian \<Rightarrow> arith \<Rightarrow> val \<Rightarrow> bytes result" where
  "dump native a v = bindR (to_bits a v) (\<lambda>data.
     let data' = (if native \<noteq> endianness then bswap native (arith_size a) data else data)
     in Inr (bit_cast_bytes native (arith_size a) data'))"

definition load :: "endian \<Rightarrow> arith \<Rightarrow> bytes \<Rightarrow> val result" where
  "load native a src =
     (if length src < arith_size a then Inl Out_of_bounds
      else let tmp = take (arith_size a) src; rs = bit_cast_int native tmp;
               rs' = (if native \<noteq> endianness then bswap native (arith_size a) rs else rs)
           in of_bits a rs')"

lemma length_le_bytes [simp]: "length (le_bytes n x) = n"
  by (induction n arbitrary: x) auto

lemma le_bytes_numeral:
  "le_bytes (numeral k) x = word_of_int x # le_bytes (pred_numeral k) (x div 256)"
  by (simp add: numeral_eq_Suc)

lemma le_uint_nonneg [simp]: "0 \<le> le_uint bs"
  by (induction bs) auto

lemma le_uint_less: "le_uint bs < 256 ^ length bs"
proof (induction bs)
  case Nil
  then show ?case by simp
next
  case (Cons b bs)
  have "uint b < 256" using uint_lt2p [of b] by simp
  moreover have "256 * le_uint bs \<le> 256 * (256 ^ length bs - 1)"
    using Cons.IH by simp
  ultimately show ?case by (simp add: algebra_simps)
qed

lemma uint_word_of_int_byte: "uint (word_of_int x :: byte) = x mod 256"
  by (simp add: uint_word_of_int)

lemma le_uint_le_bytes: "le_uint (le_bytes n x) = x mod 256 ^ n"
proof (induction n arbitrary: x)
  case 0
  then show ?case by simp
next
  case (Suc n)
  then show ?case
    by (simp add: uint_word_of_int_byte zmod_zmult2_eq add.commute)
qed

lemma le_bytes_le_uint: "le_bytes (length bs) (le_uint bs) = bs"
proof (induction bs)
  case Nil
  then show ?case by simp
next
  case (Cons b bs)
  have b: "uint b < 256" using uint_lt2p [of b] by simp
  have "uint (word_of_int (uint b + 256 * le_uint bs) :: byte) = (uint b + 256 * le_uint bs) mod 256"
    by (rule uint_word_of_int_byte)
  also have "\<dots> = uint b"
    using b by simp
  finally have "word_of_int (uint b + 256 * le_uint bs) = b"
    by (rule word_uint_eqI)
  moreover have "(uint b + 256 * le_uint bs) div 256 = le_uint bs"
    using b by simp
  ultimately show ?case using Cons.IH by simp
qed

lemma le_bytes_mod: "le_bytes n (x mod 256 ^ n) = le_bytes n x"
  by (metis le_bytes_le_uint le_uint_le_bytes length_le_bytes)

lemma length_bit_cast_bytes [simp]: "length (bit_cast_bytes native n x) = n"
  by (simp add: bit_cast_bytes_def split: endian.split)

text \<open>
  The wire format does not depend on the machine: both branches of \<open>dump\<close> store the little-endian
  bytes, and both branches of \<open>load\<close> read them.
\<close>

lemma dump_eq: "dump native a v = bindR (to_bits a v) (\<lambda>x. Inr (le_bytes (arith_size a) x))"
proof (cases native)
  case Big
  have "rev (le_bytes n (le_uint (le_bytes n x))) = rev (le_bytes n x)" for n x
    by (simp add: le_uint_le_bytes le_bytes_mod)
  then have "rev (le_bytes n (le_uint (rev (rev (rev (le_bytes n x)))))) = le_bytes n x" for n x
    using le_bytes_le_uint [of "rev (le_bytes n x)"] by simp
  with Big show ?thesis
    by (simp add: dump_def endianness_def bswap_def bit_cast_bytes_def bit_cast_int_def)
qed (simp add: dump_def endianness_def bit_cast_bytes_def)

lemma load_eq:
  assumes "arith_size a \<le> length src"
  shows "load native a src = of_bits a (le_uint (take (arith_size a) src))"
proof (cases native)
  case Big
  have len: "\<not> length src < arith_size a" using assms by simp
  let ?tmp = "take (arith_size a) src"
  have "le_bytes (arith_size a) (le_uint (rev ?tmp)) = rev ?tmp"
    using le_bytes_le_uint [of "rev ?tmp"] assms by simp
  then have "bswap Big (arith_size a) (bit_cast_int Big ?tmp) = le_uint ?tmp"
    by (simp add: bswap_def bit_cast_bytes_def bit_cast_int_def)
  with Big len show ?thesis
    by (simp add: load_def endianness_def)
qed (use assms in \<open>simp add: load_def endianness_def bit_cast_int_def\<close>)

lemma of_bits_to_bits:
  "arith_typed a v \<Longrightarrow> to_bits a v = Inr x \<Longrightarrow> of_bits a (x mod 256 ^ arith_size a) = Inr v"
proof (cases "(a, v)" rule: arith_typed.cases)
  case (2 n y)
  assume typed: "arith_typed a v" and bits: "to_bits a v = Inr x"
  have x: "x = y" and rng: "- (256 ^ n) \<le> 2 * y" "2 * y < 256 ^ n"
    using 2 typed bits by auto
  show ?thesis
  proof (cases "0 \<le> y")
    case True
    then show ?thesis using 2 x rng by (simp add: mod_pos_pos_trivial)
  next
    case False
    have "y mod 256 ^ n = y + 256 ^ n"
      using False rng by (intro mod_pos_pos_trivial [THEN trans [OF mod_add_self2 [symmetric]]]) auto
    then show ?thesis using 2 x rng False by simp
  qed
qed (auto split: if_splits)

lemma to_bits_typed: "arith_typed a v \<Longrightarrow> \<exists>x. to_bits a v = Inr x"
  by (cases "(a, v)" rule: arith_typed.cases) auto

lemma dump_length: "dump native a v = Inr bs \<Longrightarrow> length bs = arith_size a"
  by (auto simp: dump_eq bindR_eq_Inr)

lemma dump_typed: "arith_typed a v \<Longrightarrow> \<exists>bs. dump native a v = Inr bs"
  by (auto simp: dump_eq dest!: to_bits_typed)

lemma load_dump:
  assumes "arith_typed a v" and "dump native a v = Inr bs"
  shows "load native' a (bs @ rest) = Inr v"
proof -
  obtain x where x: "to_bits a v = Inr x" and bs: "bs = le_bytes (arith_size a) x"
    using assms(2) by (auto simp: dump_eq bindR_eq_Inr)
  have "load native' a (bs @ rest) = of_bits a (le_uint bs)"
    by (simp add: load_eq bs)
  then show ?thesis
    using of_bits_to_bits [OF assms(1) x] by (simp add: bs le_uint_le_bytes)
qed

lemma of_bits_typed:
  assumes "of_bits a u = Inr v" and "0 \<le> u" and "u < 256 ^ arith_size a" and "0 < arith_size a"
  shows "arith_typed a v"
  using assms by (cases a) (auto split: if_splits)

section \<open>Tick counts: safe_duration_cast\<close>

text \<open>
  \<open>utility::safe_duration_cast\<close> at integral representations: the conversion to and from the
  serializable duration (nanoseconds in an \<open>int64_t\<close>). The two \<open>isnan\<close> tests never fire for an
  integer; a product that leaves \<open>int64_t\<close> has no meaning in C++, and the conversion to a coarser
  period truncates towards zero.
\<close>

definition int64_ok :: "int \<Rightarrow> bool" where
  "int64_ok x \<longleftrightarrow> - (2 ^ 63) \<le> x \<and> x < 2 ^ 63"

definition safe_duration_cast_in :: "int \<Rightarrow> val \<Rightarrow> val result" where
  "safe_duration_cast_in period v = (case v of
     VInt ticks \<Rightarrow> if int64_ok (ticks * period) then Inr (VInt (ticks * period)) else Inl Signed_overflow
   | _ \<Rightarrow> Inl Type_mismatch)"

definition safe_duration_cast_out :: "int \<Rightarrow> val \<Rightarrow> val result" where
  "safe_duration_cast_out period v = (case v of
     VInt nanos \<Rightarrow> Inr (VInt (sgn nanos * (\<bar>nanos\<bar> div period)))
   | _ \<Rightarrow> Inl Type_mismatch)"

lemma safe_duration_cast_roundtrip:
  assumes "0 < period" and "int64_ok (ticks * period)"
  shows "safe_duration_cast_in period (VInt ticks) = Inr (VInt (ticks * period))"
    and "safe_duration_cast_out period (VInt (ticks * period)) = Inr (VInt ticks)"
  using assms
  by (auto simp: safe_duration_cast_in_def safe_duration_cast_out_def abs_mult sgn_mult
      mult_sgn_abs)

section \<open>Keys of the ordered and the unordered containers\<close>

fun lex_less :: "('a \<Rightarrow> 'a \<Rightarrow> bool) \<Rightarrow> 'a list \<Rightarrow> 'a list \<Rightarrow> bool" where
  "lex_less lt [] [] \<longleftrightarrow> False"
| "lex_less lt [] (y # ys) \<longleftrightarrow> True"
| "lex_less lt (x # xs) [] \<longleftrightarrow> False"
| "lex_less lt (x # xs) (y # ys) \<longleftrightarrow> lt x y \<or> (\<not> lt y x \<and> lex_less lt xs ys)"

text \<open>
  \<open>std::less\<close> at the key types modelled. \<open>std::string\<close> compares its characters as
  \<open>unsigned char\<close> (\<open>char_traits<char>\<close>), every other container by the order of its elements.
\<close>

definition char_less :: "val \<Rightarrow> val \<Rightarrow> bool" where
  "char_less v w = (case (v, w) of (VInt a, VInt b) \<Rightarrow> a mod 256 < b mod 256 | _ \<Rightarrow> False)"

definition arith_less :: "val \<Rightarrow> val \<Rightarrow> bool" where
  "arith_less v w = (case (v, w) of
     (VInt a, VInt b) \<Rightarrow> a < b
   | (VBool a, VBool b) \<Rightarrow> \<not> a \<and> b
   | _ \<Rightarrow> False)"

definition optional_less :: "(val \<Rightarrow> val \<Rightarrow> bool) \<Rightarrow> val \<Rightarrow> val \<Rightarrow> bool" where
  "optional_less lt v w = (case (v, w) of
     (VNone, VSome b) \<Rightarrow> True
   | (VSome a, VSome b) \<Rightarrow> lt a b
   | _ \<Rightarrow> False)"

definition seq_less :: "(val \<Rightarrow> val \<Rightarrow> bool) \<Rightarrow> val \<Rightarrow> val \<Rightarrow> bool" where
  "seq_less lt v w = (case (v, w) of (VSeq xs, VSeq ys) \<Rightarrow> lex_less lt xs ys | _ \<Rightarrow> False)"

fun tuple_less :: "(val \<Rightarrow> val \<Rightarrow> bool) list \<Rightarrow> val list \<Rightarrow> val list \<Rightarrow> bool" where
  "tuple_less (lt # lts) (x # xs) (y # ys) \<longleftrightarrow> lt x y \<or> (\<not> lt y x \<and> tuple_less lts xs ys)"
| "tuple_less _ _ _ \<longleftrightarrow> False"

fun key_less :: "ty \<Rightarrow> val \<Rightarrow> val \<Rightarrow> bool" where
  "key_less (TArith a) = arith_less"
| "key_less (TOptional t) = optional_less (key_less t)"
| "key_less (TTuple ts) = (\<lambda>v w. case (v, w) of
     (VTuple xs, VTuple ys) \<Rightarrow> tuple_less (map key_less ts) xs ys | _ \<Rightarrow> False)"
| "key_less (TContainer k t) =
     seq_less (if k = Basic_String \<and> t = TArith (SInt 1) then char_less else key_less t)"
| "key_less _ = (\<lambda>v w. False)"

definition asymmetric :: "('a \<Rightarrow> 'a \<Rightarrow> bool) \<Rightarrow> bool" where
  "asymmetric lt \<longleftrightarrow> (\<forall>x y. lt x y \<longrightarrow> \<not> lt y x)"

lemma lex_less_asymmetric: "asymmetric lt \<Longrightarrow> asymmetric (lex_less lt)"
proof -
  assume lt: "asymmetric lt"
  have "lex_less lt xs ys \<Longrightarrow> \<not> lex_less lt ys xs" for xs ys
    using lt by (induction lt xs ys rule: lex_less.induct) (auto simp: asymmetric_def)
  then show ?thesis by (simp add: asymmetric_def)
qed

lemma tuple_less_asymmetric:
  "\<forall>lt \<in> set lts. asymmetric lt \<Longrightarrow> asymmetric (tuple_less lts)"
proof -
  assume lts: "\<forall>lt \<in> set lts. asymmetric lt"
  have "tuple_less lts xs ys \<Longrightarrow> \<not> tuple_less lts ys xs" for xs ys
    using lts by (induction lts xs ys rule: tuple_less.induct) (auto simp: asymmetric_def)
  then show ?thesis by (simp add: asymmetric_def)
qed

lemma key_less_asymmetric: "asymmetric (key_less t)"
proof (induction t)
  case (TTuple ts)
  then have "\<forall>lt \<in> set (map key_less ts). asymmetric lt" by simp
  then have "asymmetric (tuple_less (map key_less ts))" by (rule tuple_less_asymmetric)
  then show ?case
    by (auto simp: asymmetric_def split: val.splits)
next
  case (TContainer k t)
  have "asymmetric char_less"
    by (auto simp: asymmetric_def char_less_def split: val.splits)
  then have "asymmetric (lex_less (if k = Basic_String \<and> t = TArith (SInt 1) then char_less else key_less t))"
    using TContainer.IH by (auto intro: lex_less_asymmetric)
  then show ?case
    by (auto simp: asymmetric_def seq_less_def split: val.splits)
qed (auto simp: asymmetric_def arith_less_def optional_less_def split: val.splits)

text \<open>The key types whose standard comparison and equality are the ones modelled.\<close>

fun key_type :: "ty \<Rightarrow> bool" where
  "key_type (TArith a) \<longleftrightarrow> (\<forall>n. a \<noteq> Float n)"
| "key_type (TOptional t) \<longleftrightarrow> key_type t"
| "key_type (TTuple ts) \<longleftrightarrow> list_all key_type ts"
| "key_type (TContainer k t) \<longleftrightarrow> k \<noteq> Unordered_Map \<and> k \<noteq> Unordered_Set \<and> key_type t"
| "key_type _ \<longleftrightarrow> False"

section \<open>Inserting an element: get_inserter\<close>

definition is_map_kind :: "container_kind \<Rightarrow> bool" where
  "is_map_kind k \<longleftrightarrow> k = Map \<or> k = Unordered_Map"

definition is_linear :: "container_kind \<Rightarrow> bool" where
  "is_linear k \<longleftrightarrow> k = Vector \<or> k = Basic_String"

definition elem_key :: "container_kind \<Rightarrow> val \<Rightarrow> val" where
  "elem_key k v = (if is_map_kind k then (case v of VTuple (x # _) \<Rightarrow> x | _ \<Rightarrow> v) else v)"

definition elem_key_type :: "container_kind \<Rightarrow> ty \<Rightarrow> ty" where
  "elem_key_type k t = (if is_map_kind k then (case t of TTuple (x # _) \<Rightarrow> x | _ \<Rightarrow> t) else t)"

definition elem_less :: "container_kind \<Rightarrow> ty \<Rightarrow> val \<Rightarrow> val \<Rightarrow> bool" where
  "elem_less k t v w = key_less (elem_key_type k t) (elem_key k v) (elem_key k w)"

fun insert_ordered :: "(val \<Rightarrow> val \<Rightarrow> bool) \<Rightarrow> val list \<Rightarrow> val \<Rightarrow> val list" where
  "insert_ordered lt [] e = [e]"
| "insert_ordered lt (x # xs) e =
     (if lt e x then e # x # xs else if lt x e then x # insert_ordered lt xs e else x # xs)"

definition insert_unordered :: "container_kind \<Rightarrow> val list \<Rightarrow> val \<Rightarrow> val list" where
  "insert_unordered k xs e = (if elem_key k e \<in> set (map (elem_key k) xs) then xs else xs @ [e])"

definition get_inserter :: "container_kind \<Rightarrow> ty \<Rightarrow> val list \<Rightarrow> val \<Rightarrow> val list" where
  "get_inserter k t xs e =
     (if is_linear k then xs @ [e]
      else if k = Map \<or> k = Set then insert_ordered (elem_less k t) xs e
      else insert_unordered k xs e)"

text \<open>What the iteration order of a container of each kind looks like.\<close>

definition content_ok :: "container_kind \<Rightarrow> ty \<Rightarrow> val list \<Rightarrow> bool" where
  "content_ok k t vs \<longleftrightarrow>
     (if is_linear k then True
      else if k = Map \<or> k = Set then sorted_wrt (elem_less k t) vs
      else distinct (map (elem_key k) vs))"

lemma insert_ordered_last:
  assumes "asymmetric lt" and "sorted_wrt lt (xs @ [e])"
  shows "insert_ordered lt xs e = xs @ [e]"
  using assms(2)
proof (induction xs)
  case (Cons x xs)
  then have "lt x e" by simp
  moreover from this have "\<not> lt e x" using assms(1) by (auto simp: asymmetric_def)
  ultimately show ?case using Cons by simp
qed simp

lemma elem_less_asymmetric: "asymmetric (elem_less k t)"
  using key_less_asymmetric by (auto simp: asymmetric_def elem_less_def)

lemma get_inserter_last:
  "content_ok k t (xs @ [e]) \<Longrightarrow> get_inserter k t xs e = xs @ [e]"
  by (auto simp: content_ok_def get_inserter_def insert_unordered_def
      intro!: insert_ordered_last elem_less_asymmetric split: if_splits)

lemma content_ok_appendD: "content_ok k t (xs @ ys) \<Longrightarrow> content_ok k t xs"
  by (auto simp: content_ok_def sorted_wrt_append split: if_splits)

section \<open>Objects of a static type\<close>

text \<open>
  The objects a static type has that the serializers can store: alternatives selected by a one-byte
  index, tick counts that fit the serializable duration, containers within \<open>max_size()\<close>.
\<close>

definition max_bytes :: nat where
  "max_bytes = 2 ^ 63 - 1"

definition elem_width :: "ty \<Rightarrow> nat" where
  "elem_width t = (case t of TArith a \<Rightarrow> arith_size a | _ \<Rightarrow> 1)"

fun has_type :: "ty \<Rightarrow> val \<Rightarrow> bool"
  and have_types :: "ty list \<Rightarrow> val list \<Rightarrow> bool"
  and alt_has_type :: "ty list \<Rightarrow> nat \<Rightarrow> val \<Rightarrow> bool" where
  "has_type (TArith a) v \<longleftrightarrow> arith_typed a v \<and> 0 < arith_size a"
| "has_type (TUniquePtr t) v \<longleftrightarrow> (case v of VNone \<Rightarrow> True | VSome w \<Rightarrow> has_type t w | _ \<Rightarrow> False)"
| "has_type (TOptional t) v \<longleftrightarrow> (case v of VNone \<Rightarrow> True | VSome w \<Rightarrow> has_type t w | _ \<Rightarrow> False)"
| "has_type (TVariant ts) v \<longleftrightarrow>
     (case v of VAlt i w \<Rightarrow> length ts \<le> 256 \<and> alt_has_type ts i w | _ \<Rightarrow> False)"
| "has_type (TExpected t u) v \<longleftrightarrow>
     (case v of VOk w \<Rightarrow> has_type t w | VErr w \<Rightarrow> has_type u w | _ \<Rightarrow> False)"
| "has_type TTimepoint v \<longleftrightarrow> (case v of VInt x \<Rightarrow> int64_ok x | _ \<Rightarrow> False)"
| "has_type (TDuration p) v \<longleftrightarrow> (case v of VInt x \<Rightarrow> 0 < p \<and> int64_ok (x * p) | _ \<Rightarrow> False)"
| "has_type (TTuple ts) v \<longleftrightarrow> (case v of VTuple vs \<Rightarrow> have_types ts vs | _ \<Rightarrow> False)"
| "has_type (TReflect ts) v \<longleftrightarrow> (case v of VTuple vs \<Rightarrow> have_types ts vs | _ \<Rightarrow> False)"
| "has_type (TContainer k t) v \<longleftrightarrow>
     (case v of VSeq vs \<Rightarrow> content_ok k t vs \<and> length vs * elem_width t \<le> max_bytes
        \<and> length vs \<le> max_bytes \<and> (\<forall>w \<in> set vs. has_type t w)
      | _ \<Rightarrow> False)"
| "has_type (TWrap w k t) v \<longleftrightarrow>
     (case v of VSeq vs \<Rightarrow> content_ok k t vs \<and> 0 < w \<and> w \<le> 8 \<and> int (length vs) < 256 ^ w
        \<and> length vs \<le> max_bytes \<and> (\<forall>u \<in> set vs. has_type t u)
      | _ \<Rightarrow> False)"
| "have_types [] vs \<longleftrightarrow> vs = []"
| "have_types (t # ts) vs \<longleftrightarrow> (case vs of [] \<Rightarrow> False | w # ws \<Rightarrow> has_type t w \<and> have_types ts ws)"
| "alt_has_type [] i v \<longleftrightarrow> False"
| "alt_has_type (t # ts) i v \<longleftrightarrow> (case i of 0 \<Rightarrow> has_type t v | Suc j \<Rightarrow> alt_has_type ts j v)"

text \<open>The types the plain archive has overloads for: it has none for the \<open>ContainerWrapper\<close>.\<close>

fun wrap_free :: "ty \<Rightarrow> bool" where
  "wrap_free (TArith a) \<longleftrightarrow> True"
| "wrap_free (TUniquePtr t) \<longleftrightarrow> wrap_free t"
| "wrap_free (TOptional t) \<longleftrightarrow> wrap_free t"
| "wrap_free (TVariant ts) \<longleftrightarrow> list_all wrap_free ts"
| "wrap_free (TExpected t u) \<longleftrightarrow> wrap_free t \<and> wrap_free u"
| "wrap_free TTimepoint \<longleftrightarrow> True"
| "wrap_free (TDuration p) \<longleftrightarrow> True"
| "wrap_free (TTuple ts) \<longleftrightarrow> list_all wrap_free ts"
| "wrap_free (TReflect ts) \<longleftrightarrow> list_all wrap_free ts"
| "wrap_free (TContainer k t) \<longleftrightarrow> wrap_free t"
| "wrap_free (TWrap w k t) \<longleftrightarrow> False"

lemma alt_has_type_index: "alt_has_type ts i v \<Longrightarrow> i < length ts"
  by (induction ts arbitrary: i) (auto split: nat.splits)

end
