(* ===== verification/Safe_Cast.thy ===== *)
theory Safe_Cast
  imports Serial_Types
begin

text \<open>
  The integer conversions of \<open>serializer/compact_serializer.h\<close>: \<open>is_safe_integer_castable\<close>,
  \<open>safe_integer_cast\<close> and the test on the index of a variant. An integer type is its signedness and
  its size in bytes, a value the mathematical integer it denotes.
\<close>

type_synonym int_type = "bool \<times> nat"

definition int_min :: "int_type \<Rightarrow> int" where
  "int_min t = (case t of (sgd, n) \<Rightarrow> if sgd then - (2 ^ (8 * n - 1)) else 0)"

definition int_max :: "int_type \<Rightarrow> int" where
  "int_max t = (case t of (sgd, n) \<Rightarrow> if sgd then 2 ^ (8 * n - 1) - 1 else 2 ^ (8 * n) - 1)"

definition in_int_type :: "int_type \<Rightarrow> int \<Rightarrow> bool" where
  "in_int_type t x \<longleftrightarrow> int_min t \<le> x \<and> x \<le> int_max t"

text \<open>
  \<open>is_safe_integer_castable<T1, T>\<close>, \<open>src\<close> being \<open>T\<close> and \<open>dst\<close> being \<open>T1\<close>: the branches
  are chosen by signedness and size at compile time, and the mixed ones that return early never
  compare values of different signedness.
\<close>

definition is_safe_integer_castable :: "int_type \<Rightarrow> int_type \<Rightarrow> int \<Rightarrow> bool" where
  "is_safe_integer_castable dst src x =
     (let range_test = (if x > int_max dst then False else if x < int_min dst then False else True) in
      if \<not> fst src \<and> \<not> fst dst then range_test
      else if fst src \<and> fst dst then range_test
      else if fst src then
        (if snd src > snd dst then range_test else if x < 0 then False else True)
      else
        (if snd dst > snd src then range_test else if x > int_max dst then False else True))"

definition safe_integer_cast :: "int_type \<Rightarrow> int_type \<Rightarrow> int \<Rightarrow> int result" where
  "safe_integer_cast dst src x =
     (let range_test = (if x > int_max dst then Inl Abort else if x < int_min dst then Inl Abort else Inr x) in
      if \<not> fst src \<and> \<not> fst dst then range_test
      else if fst src \<and> fst dst then range_test
      else if fst src then
        (if snd src > snd dst then range_test else if x < 0 then Inl Abort else Inr x)
      else
        (if snd dst > snd src then range_test else if x > int_max dst then Inl Abort else Inr x))"

abbreviation size_t :: int_type where "size_t \<equiv> (False, 8)"
abbreviation uint64_t :: int_type where "uint64_t \<equiv> (False, 8)"
abbreviation uint8_t :: int_type where "uint8_t \<equiv> (False, 1)"

text \<open>\<open>std::variant_npos\<close> and \<open>index()\<close>.\<close>

definition variant_npos :: int where
  "variant_npos = 2 ^ 64 - 1"

definition is_met_variant_index_requirements :: "int \<Rightarrow> bool" where
  "is_met_variant_index_requirements idx \<longleftrightarrow>
     idx \<noteq> variant_npos
     \<and> is_safe_integer_castable uint8_t size_t idx
     \<and> bindR (safe_integer_cast uint8_t size_t idx) (safe_integer_cast size_t uint8_t) = Inr idx"

section \<open>The conversions are exact\<close>

lemma pow_mono: "m \<le> n \<Longrightarrow> (2::int) ^ m \<le> 2 ^ n"
  by (rule power_increasing) auto

text \<open>
  \<open>is_safe_integer_castable\<close> decides representability: for a value of the source type, it
  returns true exactly when the value lies in the destination type, for every combination of
  signedness and width.
\<close>

theorem is_safe_integer_castable_iff:
  assumes "in_int_type src x"
  shows "is_safe_integer_castable dst src x \<longleftrightarrow> in_int_type dst x"
proof -
  obtain s n where src: "src = (s, n)" by (cases src)
  obtain d m where dst: "dst = (d, m)" by (cases dst)
  have pos: "(0::int) < 2 ^ k" for k by simp
  have *: "x < 2 ^ (8 * m)" if "s" "\<not> d" "n \<le> m"
  proof -
    have "x < 2 ^ (8 * n - 1)"
      using assms that src by (simp add: in_int_type_def int_max_def)
    also have "(2::int) ^ (8 * n - 1) \<le> 2 ^ (8 * m)"
      using that by (intro pow_mono) simp
    finally show ?thesis .
  qed
  show ?thesis
    using assms * pos [of "8 * m - 1"] unfolding src dst
    by (auto simp: is_safe_integer_castable_def in_int_type_def int_min_def int_max_def Let_def
        split: if_splits)
qed

theorem is_safe_integer_castable_iff_witness:
  "\<not> is_safe_integer_castable (True, 1) (False, 8) 200 \<and> \<not> in_int_type (True, 1) 200
   \<and> in_int_type (False, 8) 200"
proof -
  have h: "in_int_type (False, 8) 200"
    by (simp add: in_int_type_def int_min_def int_max_def)
  show ?thesis
    using h is_safe_integer_castable_iff [OF h, of "(True, 1)"]
    by (simp add: in_int_type_def int_min_def int_max_def)
qed

lemma safe_integer_cast_castable:
  "safe_integer_cast dst src x = (if is_safe_integer_castable dst src x then Inr x else Inl Abort)"
  by (simp add: safe_integer_cast_def is_safe_integer_castable_def Let_def)

lemma castable_size_t_u64 [simp]:
  "is_safe_integer_castable uint64_t size_t x \<longleftrightarrow> 0 \<le> x \<and> x < 2 ^ 64"
  by (auto simp: is_safe_integer_castable_def int_max_def int_min_def)

lemma variant_index_ok: "i < 256 \<Longrightarrow> is_met_variant_index_requirements (int i)"
  by (simp add: is_met_variant_index_requirements_def variant_npos_def safe_integer_cast_castable
      is_safe_integer_castable_def int_max_def int_min_def)

lemma variant_index_bad: "is_met_variant_index_requirements (int i) \<Longrightarrow> i < 256"
  by (simp add: is_met_variant_index_requirements_def
      is_safe_integer_castable_def int_max_def int_min_def split: if_splits)

lemma variant_npos_bad: "\<not> is_met_variant_index_requirements variant_npos"
  by (simp add: is_met_variant_index_requirements_def)

end
