(* ===== verification/Compact_Forward.thy ===== *)
theory Compact_Forward
  imports Serial_Types Safe_Cast
begin

text \<open>
  The writing half of the plain archive of \<open>serializer/compact_serializer.h\<close>: \<open>archive::Counter\<close>
  (how many bytes an object needs) and \<open>archive::Forward\<close> (the bytes it becomes). Each template
  overload is one definition whose recursive calls are arguments; the recursive functions
  \<open>Counter_count\<close> and \<open>Forward_put\<close> select the overload by the static type. A \<open>put\<close> moves its
  \<open>char *&\<close> forward over the bytes it stores, so it is modelled by the list of these bytes.
\<close>

section \<open>Overload selection for the containers\<close>

text \<open>
  \<open>is_cpyable_linear_container_v\<close>: a vector or string of one-byte integers, or of any standard integer
  when the machine has the byte order of the wire; its elements are copied with \<open>memcpy\<close>.
\<close>

fun has_unique_serializable_representations :: "ty \<Rightarrow> bool" where
  "has_unique_serializable_representations (TArith (UInt n)) \<longleftrightarrow> n = 1"
| "has_unique_serializable_representations (TArith (SInt n)) \<longleftrightarrow> n = 1"
| "has_unique_serializable_representations _ \<longleftrightarrow> False"

fun has_unique_serializable_sameendian_representations :: "ty \<Rightarrow> bool" where
  "has_unique_serializable_sameendian_representations (TArith (UInt n)) \<longleftrightarrow> n \<in> {1, 2, 4, 8}"
| "has_unique_serializable_sameendian_representations (TArith (SInt n)) \<longleftrightarrow> n \<in> {1, 2, 4, 8}"
| "has_unique_serializable_sameendian_representations _ \<longleftrightarrow> False"

definition is_cpyable_linear_container :: "endian \<Rightarrow> container_kind \<Rightarrow> ty \<Rightarrow> bool" where
  "is_cpyable_linear_container native k t \<longleftrightarrow>
     is_linear k \<and> (has_unique_serializable_representations t
       \<or> has_unique_serializable_sameendian_representations t \<and> native = endianness)"

text \<open>The elements of a copyable container as they lie in the memory of the machine.\<close>

definition element_arith :: "ty \<Rightarrow> arith" where
  "element_arith t = (case t of TArith a \<Rightarrow> a | _ \<Rightarrow> UInt 0)"

fun memory_image :: "endian \<Rightarrow> arith \<Rightarrow> val list \<Rightarrow> bytes result" where
  "memory_image native a [] = Inr []"
| "memory_image native a (v # vs) = bindR (to_bits a v) (\<lambda>x.
     bindR (memory_image native a vs) (\<lambda>bs. Inr (bit_cast_bytes native (arith_size a) x @ bs)))"

section \<open>Counter\<close>

definition Counter_arithmetic :: "arith \<Rightarrow> nat result" where
  "Counter_arithmetic a = Inr (arith_size a)"

definition Counter_unique_ptr :: "(val \<Rightarrow> nat result) \<Rightarrow> val \<Rightarrow> nat result" where
  "Counter_unique_ptr cnt data = bindR (Counter_arithmetic Bool) (\<lambda>rs.
     case data of
       VNone \<Rightarrow> Inr rs
     | VSome obj \<Rightarrow> bindR (cnt obj) (\<lambda>n. Inr (rs + n))
     | _ \<Rightarrow> Inl Type_mismatch)"

definition Counter_optional :: "(val \<Rightarrow> nat result) \<Rightarrow> val \<Rightarrow> nat result" where
  "Counter_optional cnt data = bindR (Counter_arithmetic Bool) (\<lambda>rs.
     case data of
       VNone \<Rightarrow> Inr rs
     | VSome obj \<Rightarrow> bindR (cnt obj) (\<lambda>n. Inr (rs + n))
     | _ \<Rightarrow> Inl Type_mismatch)"

definition variant_index :: "val \<Rightarrow> int" where
  "variant_index data = (case data of VAlt i _ \<Rightarrow> int i | _ \<Rightarrow> variant_npos)"

definition Counter_variant :: "(nat \<Rightarrow> val \<Rightarrow> nat result) \<Rightarrow> val \<Rightarrow> nat result" where
  "Counter_variant count_alt data =
     (if \<not> is_met_variant_index_requirements (variant_index data) then Inl Bad_format
      else bindR (Counter_arithmetic (UInt 1)) (\<lambda>rs.
        case data of
          VAlt i arg \<Rightarrow> bindR (count_alt i arg) (\<lambda>n. Inr (rs + n))
        | _ \<Rightarrow> Inl Type_mismatch))"

definition Counter_expected :: "(val \<Rightarrow> nat result) \<Rightarrow> (val \<Rightarrow> nat result) \<Rightarrow> val \<Rightarrow> nat result" where
  "Counter_expected count_value count_error data = bindR (Counter_arithmetic Bool) (\<lambda>rs.
     case data of
       VOk obj \<Rightarrow> bindR (count_value obj) (\<lambda>n. Inr (rs + n))
     | VErr obj \<Rightarrow> bindR (count_error obj) (\<lambda>n. Inr (rs + n))
     | _ \<Rightarrow> Inl Type_mismatch)"

definition Counter_timepoint :: "val \<Rightarrow> nat result" where
  "Counter_timepoint data =
     bindR (safe_duration_cast_in 1 data) (\<lambda>storable. Counter_arithmetic (SInt 8))"

definition Counter_duration :: "int \<Rightarrow> val \<Rightarrow> nat result" where
  "Counter_duration period data =
     bindR (safe_duration_cast_in period data) (\<lambda>storable. Counter_arithmetic (SInt 8))"

definition Counter_tuple :: "(val list \<Rightarrow> nat result) \<Rightarrow> val \<Rightarrow> nat result" where
  "Counter_tuple count_all data = (case data of VTuple vs \<Rightarrow> count_all vs | _ \<Rightarrow> Inl Type_mismatch)"

fun count_elements :: "(val \<Rightarrow> nat result) \<Rightarrow> nat \<Rightarrow> val list \<Rightarrow> nat result" where
  "count_elements cnt rs [] = Inr rs"
| "count_elements cnt rs (e # es) = bindR (cnt e) (\<lambda>n. count_elements cnt (rs + n) es)"

definition Counter_noncpyable_container :: "(val \<Rightarrow> nat result) \<Rightarrow> val \<Rightarrow> nat result" where
  "Counter_noncpyable_container cnt data = (case data of
     VSeq vs \<Rightarrow>
       (if \<not> is_safe_integer_castable uint64_t size_t (int (length vs)) then Inl Bad_format
        else bindR (Counter_arithmetic (UInt 8)) (\<lambda>rs. count_elements cnt rs vs))
   | _ \<Rightarrow> Inl Type_mismatch)"

definition Counter_cpyable_container :: "ty \<Rightarrow> val \<Rightarrow> nat result" where
  "Counter_cpyable_container elem data = (case data of
     VSeq vs \<Rightarrow>
       (if \<not> is_safe_integer_castable uint64_t size_t (int (length vs)) then Inl Bad_format
        else bindR (Counter_arithmetic (UInt 8)) (\<lambda>rs.
          Inr (rs + length vs * arith_size (element_arith elem))))
   | _ \<Rightarrow> Inl Type_mismatch)"

definition Counter_reflectible :: "(val list \<Rightarrow> nat result) \<Rightarrow> val \<Rightarrow> nat result" where
  "Counter_reflectible count_all data = (case data of VTuple vs \<Rightarrow> count_all vs | _ \<Rightarrow> Inl Type_mismatch)"

fun Counter_count :: "endian \<Rightarrow> ty \<Rightarrow> val \<Rightarrow> nat result"
  and Counter_count_all :: "endian \<Rightarrow> ty list \<Rightarrow> val list \<Rightarrow> nat result"
  and Counter_count_alt :: "endian \<Rightarrow> ty list \<Rightarrow> nat \<Rightarrow> val \<Rightarrow> nat result" where
  "Counter_count nt (TArith a) v = Counter_arithmetic a"
| "Counter_count nt (TUniquePtr t) v = Counter_unique_ptr (\<lambda>w. Counter_count nt t w) v"
| "Counter_count nt (TOptional t) v = Counter_optional (\<lambda>w. Counter_count nt t w) v"
| "Counter_count nt (TVariant ts) v = Counter_variant (\<lambda>i w. Counter_count_alt nt ts i w) v"
| "Counter_count nt (TExpected t u) v =
     Counter_expected (\<lambda>w. Counter_count nt t w) (\<lambda>w. Counter_count nt u w) v"
| "Counter_count nt TTimepoint v = Counter_timepoint v"
| "Counter_count nt (TDuration p) v = Counter_duration p v"
| "Counter_count nt (TTuple ts) v = Counter_tuple (\<lambda>vs. Counter_count_all nt ts vs) v"
| "Counter_count nt (TReflect ts) v = Counter_reflectible (\<lambda>vs. Counter_count_all nt ts vs) v"
| "Counter_count nt (TContainer k t) v =
     (if is_cpyable_linear_container nt k t then Counter_cpyable_container t v
      else Counter_noncpyable_container (\<lambda>w. Counter_count nt t w) v)"
| "Counter_count nt (TWrap w k t) v = Inl Type_mismatch"
| "Counter_count_all nt [] vs = (if vs = [] then Inr 0 else Inl Type_mismatch)"
| "Counter_count_all nt (t # ts) vs = (case vs of
     [] \<Rightarrow> Inl Type_mismatch
   | v # vs' \<Rightarrow> bindR (Counter_count nt t v) (\<lambda>n.
       bindR (Counter_count_all nt ts vs') (\<lambda>m. Inr (n + m))))"
| "Counter_count_alt nt [] i v = Inl Type_mismatch"
| "Counter_count_alt nt (t # ts) i v = (case i of
     0 \<Rightarrow> Counter_count nt t v | Suc j \<Rightarrow> Counter_count_alt nt ts j v)"

section \<open>Forward\<close>

definition Forward_arithmetic :: "endian \<Rightarrow> arith \<Rightarrow> val \<Rightarrow> bytes result" where
  "Forward_arithmetic nt a data = dump nt a data"

definition Forward_unique_ptr :: "endian \<Rightarrow> (val \<Rightarrow> bytes result) \<Rightarrow> val \<Rightarrow> bytes result" where
  "Forward_unique_ptr nt put data = (case data of
     VNone \<Rightarrow> Forward_arithmetic nt Bool (VBool False)
   | VSome obj \<Rightarrow> bindR (Forward_arithmetic nt Bool (VBool True)) (\<lambda>b.
       bindR (put obj) (\<lambda>bs. Inr (b @ bs)))
   | _ \<Rightarrow> Inl Type_mismatch)"

definition Forward_optional :: "endian \<Rightarrow> (val \<Rightarrow> bytes result) \<Rightarrow> val \<Rightarrow> bytes result" where
  "Forward_optional nt put data = (case data of
     VNone \<Rightarrow> Forward_arithmetic nt Bool (VBool False)
   | VSome obj \<Rightarrow> bindR (Forward_arithmetic nt Bool (VBool True)) (\<lambda>b.
       bindR (put obj) (\<lambda>bs. Inr (b @ bs)))
   | _ \<Rightarrow> Inl Type_mismatch)"

definition Forward_variant :: "endian \<Rightarrow> (nat \<Rightarrow> val \<Rightarrow> bytes result) \<Rightarrow> val \<Rightarrow> bytes result" where
  "Forward_variant nt put_alt data =
     (if \<not> is_met_variant_index_requirements (variant_index data) then Inl Bad_format
      else bindR (safe_integer_cast uint8_t size_t (variant_index data)) (\<lambda>demoted.
        bindR (Forward_arithmetic nt (UInt 1) (VInt demoted)) (\<lambda>h.
          case data of
            VAlt i arg \<Rightarrow> bindR (put_alt i arg) (\<lambda>bs. Inr (h @ bs))
          | _ \<Rightarrow> Inl Type_mismatch)))"

definition Forward_expected ::
  "endian \<Rightarrow> (val \<Rightarrow> bytes result) \<Rightarrow> (val \<Rightarrow> bytes result) \<Rightarrow> val \<Rightarrow> bytes result" where
  "Forward_expected nt put_value put_error data = (case data of
     VOk obj \<Rightarrow> bindR (Forward_arithmetic nt Bool (VBool True)) (\<lambda>b.
       bindR (put_value obj) (\<lambda>bs. Inr (b @ bs)))
   | VErr obj \<Rightarrow> bindR (Forward_arithmetic nt Bool (VBool False)) (\<lambda>b.
       bindR (put_error obj) (\<lambda>bs. Inr (b @ bs)))
   | _ \<Rightarrow> Inl Type_mismatch)"

definition Forward_timepoint :: "endian \<Rightarrow> val \<Rightarrow> bytes result" where
  "Forward_timepoint nt data = bindR (safe_duration_cast_in 1 data) (Forward_arithmetic nt (SInt 8))"

definition Forward_duration :: "endian \<Rightarrow> int \<Rightarrow> val \<Rightarrow> bytes result" where
  "Forward_duration nt period data =
     bindR (safe_duration_cast_in period data) (Forward_arithmetic nt (SInt 8))"

definition Forward_tuple :: "(val list \<Rightarrow> bytes result) \<Rightarrow> val \<Rightarrow> bytes result" where
  "Forward_tuple put_all data = (case data of VTuple vs \<Rightarrow> put_all vs | _ \<Rightarrow> Inl Type_mismatch)"

fun put_elements :: "(val \<Rightarrow> bytes result) \<Rightarrow> val list \<Rightarrow> bytes result" where
  "put_elements put [] = Inr []"
| "put_elements put (e # es) =
     bindR (put e) (\<lambda>b. bindR (put_elements put es) (\<lambda>bs. Inr (b @ bs)))"

definition Forward_size :: "endian \<Rightarrow> nat \<Rightarrow> bytes result" where
  "Forward_size nt n =
     (if \<not> is_safe_integer_castable uint64_t size_t (int n) then Inl Bad_format
      else bindR (safe_integer_cast uint64_t size_t (int n)) (\<lambda>x. Forward_arithmetic nt (UInt 8) (VInt x)))"

definition Forward_noncpyable_container :: "endian \<Rightarrow> (val \<Rightarrow> bytes result) \<Rightarrow> val \<Rightarrow> bytes result" where
  "Forward_noncpyable_container nt put data = (case data of
     VSeq vs \<Rightarrow> bindR (Forward_size nt (length vs)) (\<lambda>h.
       bindR (put_elements put vs) (\<lambda>bs. Inr (h @ bs)))
   | _ \<Rightarrow> Inl Type_mismatch)"

definition Forward_cpyable_container :: "endian \<Rightarrow> ty \<Rightarrow> val \<Rightarrow> bytes result" where
  "Forward_cpyable_container nt elem data = (case data of
     VSeq vs \<Rightarrow> bindR (Forward_size nt (length vs)) (\<lambda>h.
       bindR (memory_image nt (element_arith elem) vs) (\<lambda>bs. Inr (h @ bs)))
   | _ \<Rightarrow> Inl Type_mismatch)"

definition Forward_reflectible :: "(val list \<Rightarrow> bytes result) \<Rightarrow> val \<Rightarrow> bytes result" where
  "Forward_reflectible put_all data = (case data of VTuple vs \<Rightarrow> put_all vs | _ \<Rightarrow> Inl Type_mismatch)"

fun Forward_put :: "endian \<Rightarrow> ty \<Rightarrow> val \<Rightarrow> bytes result"
  and Forward_put_all :: "endian \<Rightarrow> ty list \<Rightarrow> val list \<Rightarrow> bytes result"
  and Forward_put_alt :: "endian \<Rightarrow> ty list \<Rightarrow> nat \<Rightarrow> val \<Rightarrow> bytes result" where
  "Forward_put nt (TArith a) v = Forward_arithmetic nt a v"
| "Forward_put nt (TUniquePtr t) v = Forward_unique_ptr nt (\<lambda>w. Forward_put nt t w) v"
| "Forward_put nt (TOptional t) v = Forward_optional nt (\<lambda>w. Forward_put nt t w) v"
| "Forward_put nt (TVariant ts) v = Forward_variant nt (\<lambda>i w. Forward_put_alt nt ts i w) v"
| "Forward_put nt (TExpected t u) v =
     Forward_expected nt (\<lambda>w. Forward_put nt t w) (\<lambda>w. Forward_put nt u w) v"
| "Forward_put nt TTimepoint v = Forward_timepoint nt v"
| "Forward_put nt (TDuration p) v = Forward_duration nt p v"
| "Forward_put nt (TTuple ts) v = Forward_tuple (\<lambda>vs. Forward_put_all nt ts vs) v"
| "Forward_put nt (TReflect ts) v = Forward_reflectible (\<lambda>vs. Forward_put_all nt ts vs) v"
| "Forward_put nt (TContainer k t) v =
     (if is_cpyable_linear_container nt k t then Forward_cpyable_container nt t v
      else Forward_noncpyable_container nt (\<lambda>w. Forward_put nt t w) v)"
| "Forward_put nt (TWrap w k t) v = Inl Type_mismatch"
| "Forward_put_all nt [] vs = (if vs = [] then Inr [] else Inl Type_mismatch)"
| "Forward_put_all nt (t # ts) vs = (case vs of
     [] \<Rightarrow> Inl Type_mismatch
   | v # vs' \<Rightarrow> bindR (Forward_put nt t v) (\<lambda>b.
       bindR (Forward_put_all nt ts vs') (\<lambda>bs. Inr (b @ bs))))"
| "Forward_put_alt nt [] i v = Inl Type_mismatch"
| "Forward_put_alt nt (t # ts) i v = (case i of
     0 \<Rightarrow> Forward_put nt t v | Suc j \<Rightarrow> Forward_put_alt nt ts j v)"

section \<open>Counter and Forward agree\<close>

named_theorems counter_defs "the overloads of Counter"
named_theorems forward_defs "the overloads of Forward"

lemmas [counter_defs] = Counter_arithmetic_def Counter_unique_ptr_def Counter_optional_def
  Counter_variant_def Counter_expected_def Counter_timepoint_def Counter_duration_def
  Counter_tuple_def Counter_noncpyable_container_def Counter_cpyable_container_def
  Counter_reflectible_def

lemmas [forward_defs] = Forward_arithmetic_def Forward_unique_ptr_def Forward_optional_def
  Forward_variant_def Forward_expected_def Forward_timepoint_def Forward_duration_def
  Forward_tuple_def Forward_noncpyable_container_def Forward_cpyable_container_def
  Forward_reflectible_def Forward_size_def

lemma put_elements_counted:
  assumes "\<And>v bs. put v = Inr bs \<Longrightarrow> cnt v = Inr (length bs)"
  shows "put_elements put vs = Inr bs \<Longrightarrow> count_elements cnt n vs = Inr (n + length bs)"
proof (induction vs arbitrary: n bs)
  case (Cons v vs)
  then obtain b bs' where "put v = Inr b" and "put_elements put vs = Inr bs'" and "bs = b @ bs'"
    by (auto simp: bindR_eq_Inr)
  then show ?case using Cons.IH assms by (simp add: add.assoc)
qed simp

lemma memory_image_length:
  "memory_image nt a vs = Inr bs \<Longrightarrow> length bs = length vs * arith_size a"
  by (induction vs arbitrary: bs) (auto simp: bindR_eq_Inr)

lemma Forward_Counter_all:
  shows "Forward_put nt t v = Inr bs \<Longrightarrow> Counter_count nt t v = Inr (length bs)"
    and "Forward_put_all nt ts vs = Inr bs \<Longrightarrow> Counter_count_all nt ts vs = Inr (length bs)"
    and "Forward_put_alt nt ts i v = Inr bs \<Longrightarrow> Counter_count_alt nt ts i v = Inr (length bs)"
proof (induction nt t v and nt ts vs and nt ts i v arbitrary: bs and bs and bs
    rule: Forward_put_Forward_put_all_Forward_put_alt.induct)
  case (10 nt k t v)
  then show ?case
    by (auto simp: counter_defs forward_defs bindR_eq_Inr memory_image_length
        dest!: dump_length intro!: put_elements_counted split: val.splits if_splits)
qed (auto simp: counter_defs forward_defs bindR_eq_Inr dest!: dump_length
    split: val.splits if_splits list.splits nat.splits)

section \<open>Forward is total on the objects of a type\<close>

lemma put_elements_total:
  "\<forall>v \<in> set vs. \<exists>bs. put v = Inr bs \<Longrightarrow> \<exists>bs. put_elements put vs = Inr bs"
  by (induction vs) (auto simp: bindR_eq_Inr)

lemma memory_image_total:
  "\<forall>v \<in> set vs. arith_typed a v \<Longrightarrow> \<exists>bs. memory_image nt a vs = Inr bs"
  by (induction vs) (auto dest!: to_bits_typed)

lemma Forward_size_total:
  "n \<le> max_bytes \<Longrightarrow> \<exists>bs. Forward_size nt n = Inr bs"
  by (auto simp: Forward_size_def max_bytes_def safe_integer_cast_castable Forward_arithmetic_def
      dump_eq)

lemma is_cpyable_arith:
  "is_cpyable_linear_container nt k t \<Longrightarrow> \<exists>a. t = TArith a \<and> 0 < arith_size a \<and> element_arith t = a"
  unfolding is_cpyable_linear_container_def
  by (cases t rule: has_unique_serializable_representations.cases) (auto simp: element_arith_def)

lemma demoted_index:
  "i < 256 \<Longrightarrow> safe_integer_cast uint8_t size_t (int i) = Inr (int i)"
  by (simp add: safe_integer_cast_castable is_safe_integer_castable_def int_max_def int_min_def)

lemma Forward_total_all:
  shows "has_type t v \<Longrightarrow> wrap_free t \<Longrightarrow> \<exists>bs. Forward_put nt t v = Inr bs"
    and "have_types ts vs \<Longrightarrow> list_all wrap_free ts \<Longrightarrow> \<exists>bs. Forward_put_all nt ts vs = Inr bs"
    and "alt_has_type ts i v \<Longrightarrow> list_all wrap_free ts \<Longrightarrow> \<exists>bs. Forward_put_alt nt ts i v = Inr bs"
proof (induction nt t v and nt ts vs and nt ts i v
    rule: Forward_put_Forward_put_all_Forward_put_alt.induct)
  case (4 nt ts v)
  then obtain i w where v: "v = VAlt i w" and len: "length ts \<le> 256" and alt: "alt_has_type ts i w"
    by (auto split: val.splits)
  then have "i < 256" using alt_has_type_index by fastforce
  moreover obtain bs where "Forward_put_alt nt ts i w = Inr bs"
    using 4 v alt by auto
  ultimately show ?case
    by (auto simp: v forward_defs variant_index_def variant_index_ok
        demoted_index [unfolded One_nat_def] dump_eq)
next
  case (10 nt k t v)
  then obtain vs where v: "v = VSeq vs" and len: "length vs \<le> max_bytes"
    and typed: "\<forall>w \<in> set vs. has_type t w" by (auto split: val.splits)
  obtain h where h: "Forward_size nt (length vs) = Inr h"
    using Forward_size_total [OF len] by blast
  show ?case
  proof (cases "is_cpyable_linear_container nt k t")
    case True
    then obtain a where a: "t = TArith a" "element_arith t = a" using is_cpyable_arith by blast
    then obtain bs where "memory_image nt a vs = Inr bs"
      using typed memory_image_total [of vs a] by auto
    then show ?thesis using True v h a by (simp add: Forward_cpyable_container_def)
  next
    case False
    have "\<forall>w \<in> set vs. \<exists>bs. Forward_put nt t w = Inr bs"
      using 10 False typed by auto
    then obtain bs where "put_elements (\<lambda>w. Forward_put nt t w) vs = Inr bs"
      using put_elements_total by blast
    then show ?thesis using False v h by (simp add: Forward_noncpyable_container_def)
  qed
next
  case (7 nt p v)
  then show ?case
    by (auto simp: forward_defs dump_eq safe_duration_cast_in_def split: val.splits)
qed (fastforce simp: forward_defs dump_eq safe_duration_cast_in_def dest: to_bits_typed
    split: val.splits list.splits nat.splits)+

section \<open>The wire format does not depend on the machine\<close>

lemma memory_image_dump:
  assumes "nt = Little \<or> arith_size a = 1"
  shows "memory_image nt a vs = put_elements (dump nt a) vs"
proof -
  have "bit_cast_bytes nt (arith_size a) x = le_bytes (arith_size a) x" for x
    using assms by (auto simp: bit_cast_bytes_def split: endian.split)
  then show ?thesis
    by (induction vs) (auto simp: dump_eq bindR_def split: sum.splits)
qed

lemma is_cpyable_image:
  "is_cpyable_linear_container nt k t \<Longrightarrow> nt = Little \<or> arith_size (element_arith t) = 1"
  unfolding is_cpyable_linear_container_def endianness_def
  by (cases t rule: has_unique_serializable_representations.cases) (auto simp: element_arith_def)

lemma cpyable_eq_noncpyable:
  assumes "is_cpyable_linear_container nt k t"
  shows "Forward_cpyable_container nt t v = Forward_noncpyable_container nt (\<lambda>w. Forward_put nt t w) v"
proof -
  obtain a where a: "t = TArith a" "element_arith t = a" using is_cpyable_arith assms by blast
  have "memory_image nt a vs = put_elements (\<lambda>w. Forward_put nt t w) vs" for vs
    using is_cpyable_image [OF assms] a by (simp add: memory_image_dump Forward_arithmetic_def)
  then show ?thesis
    using a by (simp add: Forward_cpyable_container_def Forward_noncpyable_container_def split: val.splits)
qed

lemma Forward_put_container:
  "Forward_put nt (TContainer k t) v = Forward_noncpyable_container nt (\<lambda>w. Forward_put nt t w) v"
  by (simp add: cpyable_eq_noncpyable)

lemma dump_native: "dump nt a v = dump nt' a v"
  by (simp add: dump_eq)

lemma Forward_arithmetic_eq:
  "Forward_arithmetic nt a = (\<lambda>v. bindR (to_bits a v) (\<lambda>x. Inr (le_bytes (arith_size a) x)))"
  by (rule ext) (simp add: Forward_arithmetic_def dump_eq)

lemma Forward_native_all:
  shows "Forward_put nt t v = Forward_put nt' t v"
    and "Forward_put_all nt ts vs = Forward_put_all nt' ts vs"
    and "Forward_put_alt nt ts i v = Forward_put_alt nt' ts i v"
proof (induction nt t v and nt ts vs and nt ts i v
    rule: Forward_put_Forward_put_all_Forward_put_alt.induct)
  case (10 nt k t v)
  have "Forward_put nt t w = Forward_put nt' t w" for w
  proof (cases "is_cpyable_linear_container nt k t")
    case True
    then obtain a where "t = TArith a" using is_cpyable_arith by blast
    then show ?thesis by (simp add: Forward_arithmetic_def dump_native [of nt _ _ nt'])
  qed (use 10 in simp)
  then have "Forward_put nt t = Forward_put nt' t" by (rule ext)
  then show ?case
    unfolding Forward_put_container
    by (simp add: forward_defs dump_eq split: val.splits)
next
  case (4 nt ts v)
  then show ?case by (cases v) (simp_all add: Forward_variant_def Forward_arithmetic_eq)
next
  case (6 nt v)
  then show ?case by (simp add: Forward_timepoint_def Forward_arithmetic_eq)
next
  case (7 nt p v)
  then show ?case by (simp add: Forward_duration_def Forward_arithmetic_eq)
qed (simp_all add: forward_defs dump_eq split: val.splits list.splits nat.splits)

end
