(* ===== verification/Compact_Backward.thy ===== *)
theory Compact_Backward
  imports Compact_Forward
begin

text \<open>
  The reading half of the plain archive of \<open>serializer/compact_serializer.h\<close>: \<open>archive::Backward\<close>,
  which trusts its input, and \<open>archive::SafeBackward\<close>, which is told how many bytes there are and
  throws \<open>corrupted_format\<close> rather than read past them. A \<open>put\<close> reads from a moving
  \<open>const char *&\<close>, so it is a parser: it takes the rest of the buffer and returns the object and what
  is left. Leaving the buffer is the outcome \<open>Out_of_bounds\<close>.
\<close>

section \<open>Steps the overloads share\<close>

fun as_nat :: "val \<Rightarrow> nat" where
  "as_nat (VInt x) = nat x"
| "as_nat _ = 0"

definition liftP :: "'a result \<Rightarrow> 'a parser" where
  "liftP r = (\<lambda>bs. bindR r (\<lambda>x. Inr (x, bs)))"

definition available :: "nat parser" where
  "available = (\<lambda>buf. Inr (length buf, buf))"

text \<open>
  The loop \<open>for (size_t i = 0; i < sz; ++i) { elem_type e; put(buf, e); isrter(data, e); }\<close>.
\<close>

fun insert_loop :: "val parser \<Rightarrow> (val list \<Rightarrow> val \<Rightarrow> val list) \<Rightarrow> nat \<Rightarrow> val list \<Rightarrow> val list parser" where
  "insert_loop put isrter 0 data = returnP data"
| "insert_loop put isrter (Suc n) data = bindP put (\<lambda>e. insert_loop put isrter n (isrter data e))"

text \<open>
  \<open>reserve\<close> and \<open>resize\<close> throw \<open>length_error\<close> beyond \<open>max_size()\<close> (\<open>PTRDIFF_MAX\<close> bytes);
  \<open>std::map\<close> and \<open>std::set\<close> have no \<open>reserve\<close>.
\<close>

definition loose_reserve_if_possible :: "container_kind \<Rightarrow> nat \<Rightarrow> unit parser" where
  "loose_reserve_if_possible k sz =
     (if k \<noteq> Map \<and> k \<noteq> Set \<and> sz > max_bytes then failP Length_error else returnP ())"

definition resize_check :: "nat \<Rightarrow> nat \<Rightarrow> unit parser" where
  "resize_check sz width = (if sz * width > max_bytes then failP Length_error else returnP ())"

text \<open>\<open>memcpy\<close> of \<open>sz\<close> elements out of the buffer, and the elements their bytes denote.\<close>

fun elements_of_image :: "endian \<Rightarrow> arith \<Rightarrow> nat \<Rightarrow> bytes \<Rightarrow> val list result" where
  "elements_of_image nt a 0 bs = Inr []"
| "elements_of_image nt a (Suc n) bs =
     bindR (of_bits a (bit_cast_int nt (take (arith_size a) bs))) (\<lambda>v.
       bindR (elements_of_image nt a n (drop (arith_size a) bs)) (\<lambda>vs. Inr (v # vs)))"

definition memcpy_elements :: "endian \<Rightarrow> arith \<Rightarrow> nat \<Rightarrow> val list parser" where
  "memcpy_elements nt a sz = (\<lambda>buf.
     if length buf < sz * arith_size a then Inl Out_of_bounds
     else bindR (elements_of_image nt a sz (take (sz * arith_size a) buf)) (\<lambda>vs.
       Inr (vs, drop (sz * arith_size a) buf)))"

text \<open>The object a value-initialisation makes (members without an initialiser of their own).\<close>

fun value_init :: "ty \<Rightarrow> val" where
  "value_init (TArith Bool) = VBool False"
| "value_init (TArith (Float n)) = VFloat 0"
| "value_init (TArith _) = VInt 0"
| "value_init (TUniquePtr t) = VNone"
| "value_init (TOptional t) = VNone"
| "value_init (TVariant ts) = (case map value_init ts of [] \<Rightarrow> VValueless | v # _ \<Rightarrow> VAlt 0 v)"
| "value_init (TExpected t u) = VOk (value_init t)"
| "value_init TTimepoint = VInt 0"
| "value_init (TDuration p) = VInt 0"
| "value_init (TTuple ts) = VTuple (map value_init ts)"
| "value_init (TReflect ts) = VTuple (map value_init ts)"
| "value_init (TContainer k t) = VSeq []"
| "value_init (TWrap w k t) = VSeq []"

section \<open>Backward\<close>

definition Backward_arithmetic :: "endian \<Rightarrow> arith \<Rightarrow> val parser" where
  "Backward_arithmetic nt a = (\<lambda>buf. bindR (load nt a buf) (\<lambda>data. Inr (data, drop (arith_size a) buf)))"

definition Backward_unique_ptr :: "endian \<Rightarrow> val parser \<Rightarrow> val parser" where
  "Backward_unique_ptr nt put =
     bindP (Backward_arithmetic nt Bool) (\<lambda>status.
       if status = VBool True then bindP put (\<lambda>obj. returnP (VSome obj)) else returnP VNone)"

definition Backward_optional :: "endian \<Rightarrow> val parser \<Rightarrow> val parser" where
  "Backward_optional nt put =
     bindP (Backward_arithmetic nt Bool) (\<lambda>status.
       if status = VBool True then bindP put (\<lambda>obj. returnP (VSome obj)) else returnP VNone)"

text \<open>
  The unchecked variant compares the index with every alternative; when none matches, the object
  keeps the content it was constructed with.
\<close>

definition Backward_variant :: "endian \<Rightarrow> nat \<Rightarrow> val \<Rightarrow> (nat \<Rightarrow> val parser) \<Rightarrow> val parser" where
  "Backward_variant nt variant_count constructed put_alt =
     bindP (Backward_arithmetic nt (UInt 1)) (\<lambda>variant_idx.
       if as_nat variant_idx < variant_count
       then bindP (put_alt (as_nat variant_idx)) (\<lambda>containee.
         returnP (VAlt (as_nat variant_idx) containee))
       else returnP constructed)"

definition Backward_expected :: "endian \<Rightarrow> val parser \<Rightarrow> val parser \<Rightarrow> val parser" where
  "Backward_expected nt put_value put_error =
     bindP (Backward_arithmetic nt Bool) (\<lambda>status.
       if status = VBool True then bindP put_value (\<lambda>obj. returnP (VOk obj))
       else bindP put_error (\<lambda>obj. returnP (VErr obj)))"

definition Backward_timepoint :: "endian \<Rightarrow> val parser" where
  "Backward_timepoint nt =
     bindP (Backward_arithmetic nt (SInt 8)) (\<lambda>tick. liftP (safe_duration_cast_out 1 tick))"

definition Backward_duration :: "endian \<Rightarrow> int \<Rightarrow> val parser" where
  "Backward_duration nt period =
     bindP (Backward_arithmetic nt (SInt 8)) (\<lambda>tick. liftP (safe_duration_cast_out period tick))"

definition Backward_tuple :: "val list parser \<Rightarrow> val parser" where
  "Backward_tuple put_all = bindP put_all (\<lambda>vs. returnP (VTuple vs))"

definition Backward_noncpyable_container :: "endian \<Rightarrow> container_kind \<Rightarrow> ty \<Rightarrow> val parser \<Rightarrow> val parser" where
  "Backward_noncpyable_container nt k elem put =
     bindP (Backward_arithmetic nt (UInt 8)) (\<lambda>sz.
       bindP (loose_reserve_if_possible k (as_nat sz)) (\<lambda>_.
         bindP (insert_loop put (get_inserter k elem) (as_nat sz) []) (\<lambda>data. returnP (VSeq data))))"

definition Backward_cpyable_container :: "endian \<Rightarrow> ty \<Rightarrow> val parser" where
  "Backward_cpyable_container nt elem =
     bindP (Backward_arithmetic nt (UInt 8)) (\<lambda>sz.
       bindP (resize_check (as_nat sz) (arith_size (element_arith elem))) (\<lambda>_.
         bindP (memcpy_elements nt (element_arith elem) (as_nat sz)) (\<lambda>data. returnP (VSeq data))))"

definition Backward_reflectible :: "val list parser \<Rightarrow> val parser" where
  "Backward_reflectible put_all = bindP put_all (\<lambda>vs. returnP (VTuple vs))"

fun Backward_put :: "endian \<Rightarrow> ty \<Rightarrow> val parser"
  and Backward_put_all :: "endian \<Rightarrow> ty list \<Rightarrow> val list parser"
  and Backward_put_alt :: "endian \<Rightarrow> ty list \<Rightarrow> nat \<Rightarrow> val parser" where
  "Backward_put nt (TArith a) = Backward_arithmetic nt a"
| "Backward_put nt (TUniquePtr t) = Backward_unique_ptr nt (Backward_put nt t)"
| "Backward_put nt (TOptional t) = Backward_optional nt (Backward_put nt t)"
| "Backward_put nt (TVariant ts) = Backward_variant nt (length ts) (value_init (TVariant ts)) (Backward_put_alt nt ts)"
| "Backward_put nt (TExpected t u) = Backward_expected nt (Backward_put nt t) (Backward_put nt u)"
| "Backward_put nt TTimepoint = Backward_timepoint nt"
| "Backward_put nt (TDuration p) = Backward_duration nt p"
| "Backward_put nt (TTuple ts) = Backward_tuple (Backward_put_all nt ts)"
| "Backward_put nt (TReflect ts) = Backward_reflectible (Backward_put_all nt ts)"
| "Backward_put nt (TContainer k t) =
     (if is_cpyable_linear_container nt k t then Backward_cpyable_container nt t
      else Backward_noncpyable_container nt k t (Backward_put nt t))"
| "Backward_put nt (TWrap w k t) = failP Type_mismatch"
| "Backward_put_all nt [] = returnP []"
| "Backward_put_all nt (t # ts) =
     bindP (Backward_put nt t) (\<lambda>v. bindP (Backward_put_all nt ts) (\<lambda>vs. returnP (v # vs)))"
| "Backward_put_alt nt [] i = failP Type_mismatch"
| "Backward_put_alt nt (t # ts) i = (case i of 0 \<Rightarrow> Backward_put nt t | Suc j \<Rightarrow> Backward_put_alt nt ts j)"

section \<open>SafeBackward\<close>

definition SafeBackward_arithmetic :: "endian \<Rightarrow> arith \<Rightarrow> val parser" where
  "SafeBackward_arithmetic nt a = (\<lambda>buf.
     if length buf < arith_size a then Inl Corrupted_format
     else bindR (load nt a buf) (\<lambda>data. Inr (data, drop (arith_size a) buf)))"

definition SafeBackward_unique_ptr :: "endian \<Rightarrow> val parser \<Rightarrow> val parser" where
  "SafeBackward_unique_ptr nt put =
     bindP (SafeBackward_arithmetic nt Bool) (\<lambda>status.
       if status = VBool True then bindP put (\<lambda>obj. returnP (VSome obj)) else returnP VNone)"

definition SafeBackward_optional :: "endian \<Rightarrow> val parser \<Rightarrow> val parser" where
  "SafeBackward_optional nt put =
     bindP (SafeBackward_arithmetic nt Bool) (\<lambda>status.
       if status = VBool True then bindP put (\<lambda>obj. returnP (VSome obj)) else returnP VNone)"

definition SafeBackward_variant :: "endian \<Rightarrow> nat \<Rightarrow> (nat \<Rightarrow> val parser) \<Rightarrow> val parser" where
  "SafeBackward_variant nt variant_count put_alt =
     bindP (SafeBackward_arithmetic nt (UInt 1)) (\<lambda>variant_idx.
       if as_nat variant_idx \<ge> variant_count then failP Corrupted_format
       else bindP (put_alt (as_nat variant_idx)) (\<lambda>containee.
         returnP (VAlt (as_nat variant_idx) containee)))"

definition SafeBackward_expected :: "endian \<Rightarrow> val parser \<Rightarrow> val parser \<Rightarrow> val parser" where
  "SafeBackward_expected nt put_value put_error =
     bindP (SafeBackward_arithmetic nt Bool) (\<lambda>status.
       if status = VBool True then bindP put_value (\<lambda>obj. returnP (VOk obj))
       else bindP put_error (\<lambda>obj. returnP (VErr obj)))"

definition SafeBackward_timepoint :: "endian \<Rightarrow> val parser" where
  "SafeBackward_timepoint nt =
     bindP (SafeBackward_arithmetic nt (SInt 8)) (\<lambda>tick. liftP (safe_duration_cast_out 1 tick))"

definition SafeBackward_duration :: "endian \<Rightarrow> int \<Rightarrow> val parser" where
  "SafeBackward_duration nt period =
     bindP (SafeBackward_arithmetic nt (SInt 8)) (\<lambda>tick. liftP (safe_duration_cast_out period tick))"

definition SafeBackward_tuple :: "val list parser \<Rightarrow> val parser" where
  "SafeBackward_tuple put_all = bindP put_all (\<lambda>vs. returnP (VTuple vs))"

definition SafeBackward_noncpyable_container :: "endian \<Rightarrow> container_kind \<Rightarrow> ty \<Rightarrow> val parser \<Rightarrow> val parser" where
  "SafeBackward_noncpyable_container nt k elem put =
     bindP (SafeBackward_arithmetic nt (UInt 8)) (\<lambda>sz.
       bindP (insert_loop put (get_inserter k elem) (as_nat sz) []) (\<lambda>data. returnP (VSeq data)))"

text \<open>\<open>cpy_sz\<close> is a \<open>size_t\<close> product and wraps; \<open>resize\<close> throws beyond \<open>max_size()\<close>.\<close>

definition SafeBackward_cpyable_container :: "endian \<Rightarrow> ty \<Rightarrow> val parser" where
  "SafeBackward_cpyable_container nt elem =
     bindP (SafeBackward_arithmetic nt (UInt 8)) (\<lambda>sz.
       let width = arith_size (element_arith elem); cpy_sz = as_nat sz * width mod 2 ^ 64 in
       bindP available (\<lambda>buf_sz.
         if buf_sz < cpy_sz then failP Corrupted_format
         else bindP (resize_check (as_nat sz) width) (\<lambda>_.
           bindP (memcpy_elements nt (element_arith elem) (as_nat sz)) (\<lambda>data. returnP (VSeq data)))))"

definition SafeBackward_reflectible :: "val list parser \<Rightarrow> val parser" where
  "SafeBackward_reflectible put_all = bindP put_all (\<lambda>vs. returnP (VTuple vs))"

fun SafeBackward_put :: "endian \<Rightarrow> ty \<Rightarrow> val parser"
  and SafeBackward_put_all :: "endian \<Rightarrow> ty list \<Rightarrow> val list parser"
  and SafeBackward_put_alt :: "endian \<Rightarrow> ty list \<Rightarrow> nat \<Rightarrow> val parser" where
  "SafeBackward_put nt (TArith a) = SafeBackward_arithmetic nt a"
| "SafeBackward_put nt (TUniquePtr t) = SafeBackward_unique_ptr nt (SafeBackward_put nt t)"
| "SafeBackward_put nt (TOptional t) = SafeBackward_optional nt (SafeBackward_put nt t)"
| "SafeBackward_put nt (TVariant ts) = SafeBackward_variant nt (length ts) (SafeBackward_put_alt nt ts)"
| "SafeBackward_put nt (TExpected t u) = SafeBackward_expected nt (SafeBackward_put nt t) (SafeBackward_put nt u)"
| "SafeBackward_put nt TTimepoint = SafeBackward_timepoint nt"
| "SafeBackward_put nt (TDuration p) = SafeBackward_duration nt p"
| "SafeBackward_put nt (TTuple ts) = SafeBackward_tuple (SafeBackward_put_all nt ts)"
| "SafeBackward_put nt (TReflect ts) = SafeBackward_reflectible (SafeBackward_put_all nt ts)"
| "SafeBackward_put nt (TContainer k t) =
     (if is_cpyable_linear_container nt k t then SafeBackward_cpyable_container nt t
      else SafeBackward_noncpyable_container nt k t (SafeBackward_put nt t))"
| "SafeBackward_put nt (TWrap w k t) = failP Type_mismatch"
| "SafeBackward_put_all nt [] = returnP []"
| "SafeBackward_put_all nt (t # ts) =
     bindP (SafeBackward_put nt t) (\<lambda>v. bindP (SafeBackward_put_all nt ts) (\<lambda>vs. returnP (v # vs)))"
| "SafeBackward_put_alt nt [] i = failP Type_mismatch"
| "SafeBackward_put_alt nt (t # ts) i = (case i of 0 \<Rightarrow> SafeBackward_put nt t | Suc j \<Rightarrow> SafeBackward_put_alt nt ts j)"

section \<open>Reading back what Forward wrote\<close>

lemma insert_loop_put_elements:
  assumes "\<And>v bs rest. v \<in> set vs \<Longrightarrow> put v = Inr bs \<Longrightarrow> get (bs @ rest) = Inr (v, rest)"
    and "content_ok k t (data @ vs)" and "put_elements put vs = Inr bs"
  shows "insert_loop get (get_inserter k t) (length vs) data (bs @ rest) = Inr (data @ vs, rest)"
  using assms
proof (induction vs arbitrary: data bs)
  case (Cons v vs)
  then obtain b bs' where b: "put v = Inr b" and bs': "put_elements put vs = Inr bs'" and bs: "bs = b @ bs'"
    by (auto simp: bindR_eq_Inr)
  have "content_ok k t ((data @ [v]) @ vs)" using Cons.prems(2) by simp
  then have ins: "get_inserter k t data v = data @ [v]"
    by (intro get_inserter_last) (rule content_ok_appendD)
  have "insert_loop get (get_inserter k t) (length vs) (data @ [v]) (bs' @ rest) = Inr ((data @ [v]) @ vs, rest)"
    using Cons.prems bs' by (intro Cons.IH) auto
  then show ?case using Cons.prems(1) [of v b] b ins bs by (simp add: bindP_def)
qed simp

lemma bit_cast_roundtrip: "bit_cast_int nt (bit_cast_bytes nt n x) = x mod 256 ^ n"
  by (simp add: bit_cast_int_def bit_cast_bytes_def le_uint_le_bytes split: endian.split)

lemma elements_of_memory_image:
  "\<forall>v \<in> set vs. arith_typed a v \<Longrightarrow> memory_image nt a vs = Inr bs
   \<Longrightarrow> elements_of_image nt a (length vs) bs = Inr vs"
proof (induction vs arbitrary: bs)
  case (Cons v vs)
  then obtain x bs' where x: "to_bits a v = Inr x" and bs': "memory_image nt a vs = Inr bs'"
    and bs: "bs = bit_cast_bytes nt (arith_size a) x @ bs'" by (auto simp: bindR_eq_Inr)
  have "of_bits a (x mod 256 ^ arith_size a) = Inr v"
    using Cons.prems(1) x by (intro of_bits_to_bits) auto
  moreover have "elements_of_image nt a (length vs) bs' = Inr vs"
    using Cons.prems(1) bs' by (intro Cons.IH) auto
  ultimately show ?case by (simp add: bs bit_cast_roundtrip)
qed simp

lemma memcpy_image:
  assumes "\<forall>v \<in> set vs. arith_typed a v" and "memory_image nt a vs = Inr bs"
  shows "memcpy_elements nt a (length vs) (bs @ rest) = Inr (vs, rest)"
  using assms by (simp add: memcpy_elements_def memory_image_length elements_of_memory_image)

lemma int64_ok_typed: "int64_ok x \<Longrightarrow> arith_typed (SInt 8) (VInt x)"
  by (simp add: int64_ok_def)

lemma SafeBackward_arithmetic_dump:
  "arith_typed a v \<Longrightarrow> dump nt a v = Inr bs \<Longrightarrow> SafeBackward_arithmetic nt a (bs @ rest) = Inr (v, rest)"
  by (auto simp: SafeBackward_arithmetic_def load_dump dest: dump_length)

lemma SafeBackward_status:
  "dump nt Bool (VBool b) = Inr bs
   \<Longrightarrow> \<forall>rest. SafeBackward_arithmetic nt Bool (bs @ rest) = Inr (VBool b, rest)"
  by (simp add: SafeBackward_arithmetic_dump)

lemma SafeBackward_size:
  assumes "n \<le> max_bytes" and "Forward_size nt n = Inr h"
  shows "SafeBackward_arithmetic nt (UInt 8) (h @ rest) = Inr (VInt (int n), rest)"
proof -
  have "dump nt (UInt 8) (VInt (int n)) = Inr h"
    using assms by (auto simp: Forward_size_def safe_integer_cast_castable Forward_arithmetic_def
        split: if_splits)
  then show ?thesis
    using assms(1) by (intro SafeBackward_arithmetic_dump) (simp_all add: max_bytes_def)
qed

lemma SafeBackward_Forward_all:
  shows "has_type t v \<Longrightarrow> Forward_put nt t v = Inr bs \<Longrightarrow> SafeBackward_put nt t (bs @ rest) = Inr (v, rest)"
    and "have_types ts vs \<Longrightarrow> Forward_put_all nt ts vs = Inr bs
      \<Longrightarrow> SafeBackward_put_all nt ts (bs @ rest) = Inr (vs, rest)"
    and "alt_has_type ts i v \<Longrightarrow> Forward_put_alt nt ts i v = Inr bs
      \<Longrightarrow> SafeBackward_put_alt nt ts i (bs @ rest) = Inr (v, rest)"
proof (induction nt t v and nt ts vs and nt ts i v arbitrary: bs rest and bs rest and bs rest
    rule: Forward_put_Forward_put_all_Forward_put_alt.induct)
  case (4 nt ts v)
  then obtain i w where v: "v = VAlt i w" and len: "length ts \<le> 256" and alt: "alt_has_type ts i w"
    by (auto split: val.splits)
  then have i: "i < length ts" "i < 256" using alt_has_type_index by fastforce+
  then obtain h bs' where h: "dump nt (UInt 1) (VInt (int i)) = Inr h"
    and bs': "Forward_put_alt nt ts i w = Inr bs'" and bs: "bs = h @ bs'"
    using 4(3) v by (auto simp: forward_defs variant_index_def variant_index_ok
        demoted_index demoted_index [unfolded One_nat_def] bindR_eq_Inr split: if_splits)
  have "SafeBackward_arithmetic nt (UInt 1) (h @ (bs' @ rest)) = Inr (VInt (int i), bs' @ rest)"
    using i by (intro SafeBackward_arithmetic_dump [OF _ h]) simp
  moreover have "SafeBackward_put_alt nt ts i (bs' @ rest) = Inr (w, rest)"
    using 4 v i alt bs' by (auto simp: variant_index_def variant_index_ok)
  ultimately show ?case
    using i by (simp add: v bs SafeBackward_variant_def bindP_def)
next
  case (10 nt k t v)
  then obtain vs where v: "v = VSeq vs" and len: "length vs \<le> max_bytes"
    and width: "length vs * elem_width t \<le> max_bytes" and content: "content_ok k t ([] @ vs)"
    and typed: "\<forall>w \<in> set vs. has_type t w" by (auto split: val.splits)
  show ?case
  proof (cases "is_cpyable_linear_container nt k t")
    case True
    then obtain a where a: "t = TArith a" "element_arith t = a" using is_cpyable_arith by blast
    obtain h bs' where h: "Forward_size nt (length vs) = Inr h"
      and bs': "memory_image nt a vs = Inr bs'" and bs: "bs = h @ bs'"
      using 10 v True a by (auto simp: Forward_cpyable_container_def bindR_eq_Inr)
    show ?thesis
      using True v a len width typed h bs bs'
      by (simp add: SafeBackward_cpyable_container_def SafeBackward_size bindP_def Let_def available_def
          resize_check_def memcpy_image elem_width_def memory_image_length max_bytes_def)
  next
    case False
    obtain h bs' where h: "Forward_size nt (length vs) = Inr h"
      and bs': "put_elements (\<lambda>w. Forward_put nt t w) vs = Inr bs'" and bs: "bs = h @ bs'"
      using 10 v False by (auto simp: Forward_noncpyable_container_def bindR_eq_Inr)
    have loop: "insert_loop (SafeBackward_put nt t) (get_inserter k t) (length vs) [] (bs' @ rest) = Inr ([] @ vs, rest)"
      using 10 False typed by (intro insert_loop_put_elements [OF _ content bs']) auto
    then show ?thesis
      using False v len h bs
      by (simp add: SafeBackward_noncpyable_container_def SafeBackward_size bindP_def loose_reserve_if_possible_def)
  qed
next
  case (6 nt v)
  then obtain x where v: "v = VInt x" and x: "int64_ok (x * 1)" by (auto split: val.splits)
  have bs: "dump nt (SInt 8) (VInt x) = Inr bs"
    using 6 v x by (auto simp: forward_defs safe_duration_cast_roundtrip bindR_eq_Inr safe_duration_cast_in_def)
  have "SafeBackward_arithmetic nt (SInt 8) (bs @ rest) = Inr (VInt x, rest)"
    using x by (intro SafeBackward_arithmetic_dump [OF _ bs] int64_ok_typed) simp
  then show ?case
    using x safe_duration_cast_roundtrip(2) [of 1 x]
    by (simp add: v SafeBackward_timepoint_def liftP_def)
next
  case (7 nt p v)
  then obtain x where v: "v = VInt x" and p: "0 < p" and x: "int64_ok (x * p)" by (auto split: val.splits)
  have bs: "dump nt (SInt 8) (VInt (x * p)) = Inr bs"
    using 7 v p x by (auto simp: forward_defs safe_duration_cast_roundtrip bindR_eq_Inr safe_duration_cast_in_def)
  have "SafeBackward_arithmetic nt (SInt 8) (bs @ rest) = Inr (VInt (x * p), rest)"
    using x by (intro SafeBackward_arithmetic_dump [OF _ bs] int64_ok_typed)
  then show ?case
    using p x by (simp add: v SafeBackward_duration_def liftP_def safe_duration_cast_roundtrip(2))
qed (auto simp: forward_defs bindR_eq_Inr SafeBackward_unique_ptr_def SafeBackward_optional_def SafeBackward_expected_def
    SafeBackward_tuple_def SafeBackward_reflectible_def bindP_def
    intro!: SafeBackward_arithmetic_dump dest!: SafeBackward_status split: val.splits list.splits nat.splits if_splits)

lemma Backward_arithmetic_dump:
  "arith_typed a v \<Longrightarrow> dump nt a v = Inr bs \<Longrightarrow> Backward_arithmetic nt a (bs @ rest) = Inr (v, rest)"
  by (auto simp: Backward_arithmetic_def load_dump dest: dump_length)

lemma Backward_status:
  "dump nt Bool (VBool b) = Inr bs
   \<Longrightarrow> \<forall>rest. Backward_arithmetic nt Bool (bs @ rest) = Inr (VBool b, rest)"
  by (simp add: Backward_arithmetic_dump)

lemma Backward_size:
  assumes "n \<le> max_bytes" and "Forward_size nt n = Inr h"
  shows "Backward_arithmetic nt (UInt 8) (h @ rest) = Inr (VInt (int n), rest)"
proof -
  have "dump nt (UInt 8) (VInt (int n)) = Inr h"
    using assms by (auto simp: Forward_size_def safe_integer_cast_castable Forward_arithmetic_def
        split: if_splits)
  then show ?thesis
    using assms(1) by (intro Backward_arithmetic_dump) (simp_all add: max_bytes_def)
qed

lemma Backward_Forward_all:
  shows "has_type t v \<Longrightarrow> Forward_put nt t v = Inr bs \<Longrightarrow> Backward_put nt t (bs @ rest) = Inr (v, rest)"
    and "have_types ts vs \<Longrightarrow> Forward_put_all nt ts vs = Inr bs
      \<Longrightarrow> Backward_put_all nt ts (bs @ rest) = Inr (vs, rest)"
    and "alt_has_type ts i v \<Longrightarrow> Forward_put_alt nt ts i v = Inr bs
      \<Longrightarrow> Backward_put_alt nt ts i (bs @ rest) = Inr (v, rest)"
proof (induction nt t v and nt ts vs and nt ts i v arbitrary: bs rest and bs rest and bs rest
    rule: Forward_put_Forward_put_all_Forward_put_alt.induct)
  case (4 nt ts v)
  then obtain i w where v: "v = VAlt i w" and len: "length ts \<le> 256" and alt: "alt_has_type ts i w"
    by (auto split: val.splits)
  then have i: "i < length ts" "i < 256" using alt_has_type_index by fastforce+
  then obtain h bs' where h: "dump nt (UInt 1) (VInt (int i)) = Inr h"
    and bs': "Forward_put_alt nt ts i w = Inr bs'" and bs: "bs = h @ bs'"
    using 4(3) v by (auto simp: forward_defs variant_index_def variant_index_ok
        demoted_index demoted_index [unfolded One_nat_def] bindR_eq_Inr split: if_splits)
  have "Backward_arithmetic nt (UInt 1) (h @ (bs' @ rest)) = Inr (VInt (int i), bs' @ rest)"
    using i by (intro Backward_arithmetic_dump [OF _ h]) simp
  moreover have "Backward_put_alt nt ts i (bs' @ rest) = Inr (w, rest)"
    using 4 v i alt bs' by (auto simp: variant_index_def variant_index_ok)
  ultimately show ?case
    using i by (simp add: v bs Backward_variant_def bindP_def)
next
  case (10 nt k t v)
  then obtain vs where v: "v = VSeq vs" and len: "length vs \<le> max_bytes"
    and width: "length vs * elem_width t \<le> max_bytes" and content: "content_ok k t ([] @ vs)"
    and typed: "\<forall>w \<in> set vs. has_type t w" by (auto split: val.splits)
  show ?case
  proof (cases "is_cpyable_linear_container nt k t")
    case True
    then obtain a where a: "t = TArith a" "element_arith t = a" using is_cpyable_arith by blast
    obtain h bs' where h: "Forward_size nt (length vs) = Inr h"
      and bs': "memory_image nt a vs = Inr bs'" and bs: "bs = h @ bs'"
      using 10 v True a by (auto simp: Forward_cpyable_container_def bindR_eq_Inr)
    show ?thesis
      using True v a len width typed h bs bs'
      by (simp add: Backward_cpyable_container_def Backward_size bindP_def Let_def available_def
          resize_check_def memcpy_image elem_width_def memory_image_length max_bytes_def)
  next
    case False
    obtain h bs' where h: "Forward_size nt (length vs) = Inr h"
      and bs': "put_elements (\<lambda>w. Forward_put nt t w) vs = Inr bs'" and bs: "bs = h @ bs'"
      using 10 v False by (auto simp: Forward_noncpyable_container_def bindR_eq_Inr)
    have loop: "insert_loop (Backward_put nt t) (get_inserter k t) (length vs) [] (bs' @ rest) = Inr ([] @ vs, rest)"
      using 10 False typed by (intro insert_loop_put_elements [OF _ content bs']) auto
    then show ?thesis
      using False v len h bs
      by (simp add: Backward_noncpyable_container_def Backward_size bindP_def loose_reserve_if_possible_def)
  qed
next
  case (6 nt v)
  then obtain x where v: "v = VInt x" and x: "int64_ok (x * 1)" by (auto split: val.splits)
  have bs: "dump nt (SInt 8) (VInt x) = Inr bs"
    using 6 v x by (auto simp: forward_defs safe_duration_cast_roundtrip bindR_eq_Inr safe_duration_cast_in_def)
  have "Backward_arithmetic nt (SInt 8) (bs @ rest) = Inr (VInt x, rest)"
    using x by (intro Backward_arithmetic_dump [OF _ bs] int64_ok_typed) simp
  then show ?case
    using x safe_duration_cast_roundtrip(2) [of 1 x]
    by (simp add: v Backward_timepoint_def liftP_def)
next
  case (7 nt p v)
  then obtain x where v: "v = VInt x" and p: "0 < p" and x: "int64_ok (x * p)" by (auto split: val.splits)
  have bs: "dump nt (SInt 8) (VInt (x * p)) = Inr bs"
    using 7 v p x by (auto simp: forward_defs safe_duration_cast_roundtrip bindR_eq_Inr safe_duration_cast_in_def)
  have "Backward_arithmetic nt (SInt 8) (bs @ rest) = Inr (VInt (x * p), rest)"
    using x by (intro Backward_arithmetic_dump [OF _ bs] int64_ok_typed)
  then show ?case
    using p x by (simp add: v Backward_duration_def liftP_def safe_duration_cast_roundtrip(2))
qed (auto simp: forward_defs bindR_eq_Inr Backward_unique_ptr_def Backward_optional_def Backward_expected_def
    Backward_tuple_def Backward_reflectible_def bindP_def
    intro!: Backward_arithmetic_dump dest!: Backward_status split: val.splits list.splits nat.splits if_splits)

section \<open>What a reader does with arbitrary bytes\<close>

named_theorems backward_defs "the overloads of Backward"
named_theorems safe_backward_defs "the overloads of SafeBackward"

lemmas [backward_defs] = Backward_unique_ptr_def Backward_optional_def Backward_expected_def
  Backward_timepoint_def Backward_duration_def Backward_tuple_def Backward_reflectible_def
  Backward_variant_def Backward_noncpyable_container_def Backward_cpyable_container_def

lemmas [safe_backward_defs] = SafeBackward_unique_ptr_def SafeBackward_optional_def
  SafeBackward_expected_def SafeBackward_timepoint_def SafeBackward_duration_def
  SafeBackward_tuple_def SafeBackward_reflectible_def SafeBackward_variant_def
  SafeBackward_noncpyable_container_def

lemma of_bits_in_bounds: "of_bits a u \<noteq> Inl Out_of_bounds"
  by (cases a) auto

lemma elements_of_image_in_bounds: "elements_of_image nt a n bs \<noteq> Inl Out_of_bounds"
  by (induction n arbitrary: bs) (auto simp: bindR_eq_Inl of_bits_in_bounds)

lemma SafeBackward_arithmetic_in_bounds [safe_intros]: "in_bounds (SafeBackward_arithmetic nt a)"
  by (auto simp: in_bounds_def SafeBackward_arithmetic_def bindR_eq_Inl load_eq of_bits_in_bounds)

lemma liftP_cast_in_bounds [safe_intros]: "in_bounds (liftP (safe_duration_cast_out p v))"
  by (auto simp: in_bounds_def liftP_def bindR_eq_Inl safe_duration_cast_out_def split: val.splits)

lemma insert_loop_in_bounds [safe_intros]:
  "in_bounds put \<Longrightarrow> in_bounds (insert_loop put isrter n data)"
  by (induction n arbitrary: data) (auto intro: safe_intros)

lemma no_wrap: "\<not> max_bytes < n \<Longrightarrow> n mod 18446744073709551616 = n"
  by (simp add: max_bytes_def)

lemma checked_memcpy_in_bounds:
  "in_bounds (bindP available (\<lambda>buf_sz.
     if buf_sz < n * arith_size a mod 2 ^ 64 then failP Corrupted_format
     else bindP (resize_check n (arith_size a)) (\<lambda>_.
       bindP (memcpy_elements nt a n) (\<lambda>data. returnP (VSeq data)))))"
  by (auto simp: in_bounds_def bindP_eq_Inl available_def resize_check_def memcpy_elements_def
      bindR_eq_Inl elements_of_image_in_bounds no_wrap split: if_splits)

lemma SafeBackward_cpyable_in_bounds [safe_intros]: "in_bounds (SafeBackward_cpyable_container nt t)"
  unfolding SafeBackward_cpyable_container_def Let_def
  by (rule in_bounds_bindP [OF SafeBackward_arithmetic_in_bounds] checked_memcpy_in_bounds)+

lemma SafeBackward_in_bounds_all:
  shows "in_bounds (SafeBackward_put nt t)"
    and "in_bounds (SafeBackward_put_all nt ts)"
    and "in_bounds (SafeBackward_put_alt nt ts i)"
proof (induction nt t and nt ts and nt ts i
    rule: SafeBackward_put_SafeBackward_put_all_SafeBackward_put_alt.induct)
  case (15 nt t ts i)
  then show ?case by (cases i) auto
qed (auto simp: safe_backward_defs intro!: safe_intros split: val.splits)

lemma consumes_drop: "\<exists>used. bs = used @ drop n bs"
  using append_take_drop_id [of n bs] by metis

lemma Backward_arithmetic_consumes [consumes_intros]: "consumes (Backward_arithmetic nt a)"
  by (auto simp: consumes_def Backward_arithmetic_def bindR_eq_Inr consumes_drop split: if_splits)

lemma SafeBackward_arithmetic_consumes [consumes_intros]: "consumes (SafeBackward_arithmetic nt a)"
  by (auto simp: consumes_def SafeBackward_arithmetic_def bindR_eq_Inr consumes_drop split: if_splits)

lemma liftP_consumes [consumes_intros]: "consumes (liftP r)"
  by (auto simp: consumes_def liftP_def bindR_eq_Inr)

lemma available_consumes [consumes_intros]: "consumes available"
  by (simp add: consumes_def available_def)

lemma memcpy_elements_consumes [consumes_intros]: "consumes (memcpy_elements nt a n)"
  by (auto simp: consumes_def memcpy_elements_def bindR_eq_Inr consumes_drop split: if_splits)

lemma insert_loop_consumes [consumes_intros]:
  "consumes put \<Longrightarrow> consumes (insert_loop put isrter n data)"
  by (induction n arbitrary: data) (auto intro: consumes_intros)

lemma SafeBackward_consumes_all:
  shows "consumes (SafeBackward_put nt t)"
    and "consumes (SafeBackward_put_all nt ts)"
    and "consumes (SafeBackward_put_alt nt ts i)"
proof (induction nt t and nt ts and nt ts i
    rule: SafeBackward_put_SafeBackward_put_all_SafeBackward_put_alt.induct)
  case (15 nt t ts i)
  then show ?case by (cases i) auto
qed (auto simp: safe_backward_defs SafeBackward_cpyable_container_def Let_def resize_check_def
    intro!: consumes_intros split: val.splits)

lemma arithmetic_refines [refines_intros]:
  "refines_but e (SafeBackward_arithmetic nt a) (Backward_arithmetic nt a)"
  by (auto simp: refines_but_def SafeBackward_arithmetic_def Backward_arithmetic_def)

lemma insert_loop_refines [refines_intros]:
  "refines_but e p q \<Longrightarrow> refines_but e (insert_loop p isrter n data) (insert_loop q isrter n data)"
  by (induction n arbitrary: data) (auto intro: refines_intros)

lemma reserve_refines:
  "refines_but Length_error p q
   \<Longrightarrow> refines_but Length_error p (bindP (loose_reserve_if_possible k n) (\<lambda>_. q))"
  by (auto simp: refines_but_def bindP_def loose_reserve_if_possible_def)

lemma cpyable_refines [refines_intros]:
  "refines_but e (SafeBackward_cpyable_container nt t) (Backward_cpyable_container nt t)"
proof -
  have "refines_but e (bindP available (\<lambda>buf_sz. if buf_sz < n then failP Corrupted_format else p)) p"
    for n and p :: "val parser"
    by (auto simp: refines_but_def bindP_def available_def split: if_splits)
  then show ?thesis
    unfolding SafeBackward_cpyable_container_def Backward_cpyable_container_def Let_def
    by (intro refines_intros)
qed

lemma SafeBackward_refines_all:
  shows "refines_but Length_error (SafeBackward_put nt t) (Backward_put nt t)"
    and "refines_but Length_error (SafeBackward_put_all nt ts) (Backward_put_all nt ts)"
    and "refines_but Length_error (SafeBackward_put_alt nt ts i) (Backward_put_alt nt ts i)"
proof (induction nt t and nt ts and nt ts i
    rule: SafeBackward_put_SafeBackward_put_all_SafeBackward_put_alt.induct)
  case (4 nt ts)
  have "refines_but Length_error (if n \<ge> c then failP e else p) (if n < c then q else returnP d)"
    if "refines_but Length_error p q" for n c :: nat and e d and p q :: "val parser"
    using that by (auto simp: refines_but_def)
  then show ?case
    using 4 unfolding SafeBackward_put.simps Backward_put.simps
      SafeBackward_variant_def Backward_variant_def
    by (intro refines_intros) (auto intro!: refines_intros)
next
  case (10 nt k t)
  then show ?case
    by (auto simp: SafeBackward_noncpyable_container_def Backward_noncpyable_container_def
        intro!: refines_intros reserve_refines)
next
  case (15 nt t ts i)
  then show ?case by (cases i) auto
qed (auto simp: safe_backward_defs backward_defs intro!: refines_intros)

end
