(* ===== verification/Dgstd_Archive.thy ===== *)
theory Dgstd_Archive
  imports Compact_Backward
begin

text \<open>
  The self-describing archive of \<open>serializer/compact_serializer.h\<close>: \<open>archive::DgStdCounter\<close>,
  \<open>archive::DgStdForward\<close>, \<open>archive::DgStdBackward\<close>. Every value is preceded by the one-byte header of
  its static type, and the reader throws \<open>corrupted_format\<close> when a header is not the expected one.
  The header of a composite type and every size field are themselves arithmetic objects, so they
  carry a header of their own. As in the plain archive, one definition per overload.
\<close>

section \<open>Headers\<close>

text \<open>\<open>get_dgstd_serialization_header<T>()\<close>; a size the code has no branch for fails a \<open>static_assert\<close>.\<close>

fun get_dgstd_serialization_header :: "ty \<Rightarrow> int result" where
  "get_dgstd_serialization_header (TArith (SInt n)) =
     (if n = 1 then Inr 201 else if n = 2 then Inr 202 else if n = 4 then Inr 203
      else if n = 8 then Inr 204 else if n = 16 then Inr 205 else if n = 32 then Inr 206
      else Inl Type_mismatch)"
| "get_dgstd_serialization_header (TArith (UInt n)) =
     (if n = 1 then Inr 207 else if n = 2 then Inr 208 else if n = 4 then Inr 209
      else if n = 8 then Inr 210 else if n = 16 then Inr 211 else if n = 32 then Inr 212
      else Inl Type_mismatch)"
| "get_dgstd_serialization_header (TArith Bool) = Inr 207"
| "get_dgstd_serialization_header (TArith (Float n)) =
     (if n = 1 then Inr 213 else if n = 2 then Inr 214 else if n = 4 then Inr 215
      else if n = 8 then Inr 216 else if n = 16 then Inr 217 else if n = 32 then Inr 218
      else if n = 64 then Inr 219 else Inl Type_mismatch)"
| "get_dgstd_serialization_header (TContainer Vector t) = Inr 220"
| "get_dgstd_serialization_header (TContainer Basic_String t) = Inr 221"
| "get_dgstd_serialization_header (TContainer Map t) = Inr 222"
| "get_dgstd_serialization_header (TContainer Unordered_Map t) = Inr 223"
| "get_dgstd_serialization_header (TContainer Set t) = Inr 224"
| "get_dgstd_serialization_header (TContainer Unordered_Set t) = Inr 225"
| "get_dgstd_serialization_header (TTuple ts) = Inr 226"
| "get_dgstd_serialization_header (TUniquePtr t) = Inr 227"
| "get_dgstd_serialization_header (TOptional t) = Inr 228"
| "get_dgstd_serialization_header (TReflect ts) = Inr 229"
| "get_dgstd_serialization_header (TVariant ts) = Inr 230"
| "get_dgstd_serialization_header TTimepoint = Inr 231"
| "get_dgstd_serialization_header (TDuration p) = Inr 232"
| "get_dgstd_serialization_header (TWrap w k t) = Inr 233"
| "get_dgstd_serialization_header (TExpected t u) = Inr 234"

section \<open>DgStdCounter\<close>

definition DgStdCounter_arithmetic :: "arith \<Rightarrow> nat result" where
  "DgStdCounter_arithmetic a = Inr (1 + arith_size a)"

definition DgStdCounter_header :: "nat result" where
  "DgStdCounter_header = DgStdCounter_arithmetic (UInt 1)"

definition addR :: "nat result \<Rightarrow> nat result \<Rightarrow> nat result" where
  "addR x y = bindR x (\<lambda>n. bindR y (\<lambda>m. Inr (n + m)))"

definition DgStdCounter_unique_ptr :: "(val \<Rightarrow> nat result) \<Rightarrow> val \<Rightarrow> nat result" where
  "DgStdCounter_unique_ptr cnt data =
     bindR (addR DgStdCounter_header (DgStdCounter_arithmetic Bool)) (\<lambda>rs. case data of
       VNone \<Rightarrow> Inr rs
     | VSome obj \<Rightarrow> bindR (cnt obj) (\<lambda>n. Inr (rs + n))
     | _ \<Rightarrow> Inl Type_mismatch)"

definition DgStdCounter_optional :: "(val \<Rightarrow> nat result) \<Rightarrow> val \<Rightarrow> nat result" where
  "DgStdCounter_optional cnt data =
     bindR (addR DgStdCounter_header (DgStdCounter_arithmetic Bool)) (\<lambda>rs. case data of
       VNone \<Rightarrow> Inr rs
     | VSome obj \<Rightarrow> bindR (cnt obj) (\<lambda>n. Inr (rs + n))
     | _ \<Rightarrow> Inl Type_mismatch)"

definition DgStdCounter_variant :: "(nat \<Rightarrow> val \<Rightarrow> nat result) \<Rightarrow> val \<Rightarrow> nat result" where
  "DgStdCounter_variant count_alt data =
     (if \<not> is_met_variant_index_requirements (variant_index data) then Inl Bad_format
      else bindR (addR DgStdCounter_header (DgStdCounter_arithmetic (UInt 1))) (\<lambda>rs.
        case data of
          VAlt i arg \<Rightarrow> bindR (count_alt i arg) (\<lambda>n. Inr (rs + n))
        | _ \<Rightarrow> Inl Type_mismatch))"

definition DgStdCounter_expected :: "(val \<Rightarrow> nat result) \<Rightarrow> (val \<Rightarrow> nat result) \<Rightarrow> val \<Rightarrow> nat result" where
  "DgStdCounter_expected count_value count_error data =
     bindR (addR DgStdCounter_header (DgStdCounter_arithmetic Bool)) (\<lambda>rs. case data of
       VOk obj \<Rightarrow> bindR (count_value obj) (\<lambda>n. Inr (rs + n))
     | VErr obj \<Rightarrow> bindR (count_error obj) (\<lambda>n. Inr (rs + n))
     | _ \<Rightarrow> Inl Type_mismatch)"

definition DgStdCounter_timepoint :: "val \<Rightarrow> nat result" where
  "DgStdCounter_timepoint data = bindR (safe_duration_cast_in 1 data) (\<lambda>storable.
     addR DgStdCounter_header (DgStdCounter_arithmetic (SInt 8)))"

definition DgStdCounter_duration :: "int \<Rightarrow> val \<Rightarrow> nat result" where
  "DgStdCounter_duration period data = bindR (safe_duration_cast_in period data) (\<lambda>storable.
     addR DgStdCounter_header (DgStdCounter_arithmetic (SInt 8)))"

definition DgStdCounter_tuple :: "(val list \<Rightarrow> nat result) \<Rightarrow> val \<Rightarrow> nat result" where
  "DgStdCounter_tuple count_all data = (case data of
     VTuple vs \<Rightarrow> addR DgStdCounter_header (count_all vs) | _ \<Rightarrow> Inl Type_mismatch)"

definition DgStdCounter_noncpyable_container :: "(val \<Rightarrow> nat result) \<Rightarrow> val \<Rightarrow> nat result" where
  "DgStdCounter_noncpyable_container cnt data = (case data of
     VSeq vs \<Rightarrow>
       (if \<not> is_safe_integer_castable uint64_t size_t (int (length vs)) then Inl Bad_format
        else bindR (addR DgStdCounter_header (DgStdCounter_arithmetic (UInt 8))) (\<lambda>rs.
          count_elements cnt rs vs))
   | _ \<Rightarrow> Inl Type_mismatch)"

definition DgStdCounter_cpyable_container :: "ty \<Rightarrow> val \<Rightarrow> nat result" where
  "DgStdCounter_cpyable_container elem data = (case data of
     VSeq vs \<Rightarrow>
       (if \<not> is_safe_integer_castable uint64_t size_t (int (length vs)) then Inl Bad_format
        else addR (addR (addR DgStdCounter_header DgStdCounter_header) (DgStdCounter_arithmetic (UInt 8)))
               (Inr (length vs * arith_size (element_arith elem))))
   | _ \<Rightarrow> Inl Type_mismatch)"

definition DgStdCounter_reflectible :: "(val list \<Rightarrow> nat result) \<Rightarrow> val \<Rightarrow> nat result" where
  "DgStdCounter_reflectible count_all data = (case data of
     VTuple vs \<Rightarrow> addR DgStdCounter_header (count_all vs) | _ \<Rightarrow> Inl Type_mismatch)"

definition DgStdCounter_wrapper :: "nat \<Rightarrow> (val \<Rightarrow> nat result) \<Rightarrow> val \<Rightarrow> nat result" where
  "DgStdCounter_wrapper w cnt data = (case data of
     VSeq vs \<Rightarrow>
       (if \<not> is_safe_integer_castable (False, w) size_t (int (length vs)) then Inl Bad_format
        else bindR (addR DgStdCounter_header (DgStdCounter_arithmetic (UInt w))) (\<lambda>rs.
          count_elements cnt rs vs))
   | _ \<Rightarrow> Inl Type_mismatch)"

fun DgStdCounter_count :: "endian \<Rightarrow> ty \<Rightarrow> val \<Rightarrow> nat result"
  and DgStdCounter_count_all :: "endian \<Rightarrow> ty list \<Rightarrow> val list \<Rightarrow> nat result"
  and DgStdCounter_count_alt :: "endian \<Rightarrow> ty list \<Rightarrow> nat \<Rightarrow> val \<Rightarrow> nat result" where
  "DgStdCounter_count nt (TArith a) v = DgStdCounter_arithmetic a"
| "DgStdCounter_count nt (TUniquePtr t) v = DgStdCounter_unique_ptr (\<lambda>w. DgStdCounter_count nt t w) v"
| "DgStdCounter_count nt (TOptional t) v = DgStdCounter_optional (\<lambda>w. DgStdCounter_count nt t w) v"
| "DgStdCounter_count nt (TVariant ts) v =
     DgStdCounter_variant (\<lambda>i w. DgStdCounter_count_alt nt ts i w) v"
| "DgStdCounter_count nt (TExpected t u) v =
     DgStdCounter_expected (\<lambda>w. DgStdCounter_count nt t w) (\<lambda>w. DgStdCounter_count nt u w) v"
| "DgStdCounter_count nt TTimepoint v = DgStdCounter_timepoint v"
| "DgStdCounter_count nt (TDuration p) v = DgStdCounter_duration p v"
| "DgStdCounter_count nt (TTuple ts) v = DgStdCounter_tuple (\<lambda>vs. DgStdCounter_count_all nt ts vs) v"
| "DgStdCounter_count nt (TReflect ts) v =
     DgStdCounter_reflectible (\<lambda>vs. DgStdCounter_count_all nt ts vs) v"
| "DgStdCounter_count nt (TContainer k t) v =
     (if is_cpyable_linear_container nt k t then DgStdCounter_cpyable_container t v
      else DgStdCounter_noncpyable_container (\<lambda>w. DgStdCounter_count nt t w) v)"
| "DgStdCounter_count nt (TWrap w k t) v = DgStdCounter_wrapper w (\<lambda>u. DgStdCounter_count nt t u) v"
| "DgStdCounter_count_all nt [] vs = (if vs = [] then Inr 0 else Inl Type_mismatch)"
| "DgStdCounter_count_all nt (t # ts) vs = (case vs of
     [] \<Rightarrow> Inl Type_mismatch
   | v # vs' \<Rightarrow> addR (DgStdCounter_count nt t v) (DgStdCounter_count_all nt ts vs'))"
| "DgStdCounter_count_alt nt [] i v = Inl Type_mismatch"
| "DgStdCounter_count_alt nt (t # ts) i v = (case i of
     0 \<Rightarrow> DgStdCounter_count nt t v | Suc j \<Rightarrow> DgStdCounter_count_alt nt ts j v)"

section \<open>DgStdForward\<close>

definition DgStdForward_arithmetic :: "endian \<Rightarrow> arith \<Rightarrow> val \<Rightarrow> bytes result" where
  "DgStdForward_arithmetic nt a data =
     bindR (get_dgstd_serialization_header (TArith a)) (\<lambda>header.
       bindR (dump nt (UInt 1) (VInt header)) (\<lambda>h.
         bindR (dump nt a data) (\<lambda>bs. Inr (h @ bs))))"

definition appendR :: "bytes result \<Rightarrow> bytes result \<Rightarrow> bytes result" where
  "appendR x y = bindR x (\<lambda>b. bindR y (\<lambda>bs. Inr (b @ bs)))"

definition DgStdForward_header :: "endian \<Rightarrow> ty \<Rightarrow> bytes result" where
  "DgStdForward_header nt t = bindR (get_dgstd_serialization_header t) (\<lambda>header.
     DgStdForward_arithmetic nt (UInt 1) (VInt header))"

definition DgStdForward_unique_ptr :: "endian \<Rightarrow> ty \<Rightarrow> (val \<Rightarrow> bytes result) \<Rightarrow> val \<Rightarrow> bytes result" where
  "DgStdForward_unique_ptr nt self put data = appendR (DgStdForward_header nt self) (case data of
     VNone \<Rightarrow> DgStdForward_arithmetic nt Bool (VBool False)
   | VSome obj \<Rightarrow> appendR (DgStdForward_arithmetic nt Bool (VBool True)) (put obj)
   | _ \<Rightarrow> Inl Type_mismatch)"

definition DgStdForward_optional :: "endian \<Rightarrow> ty \<Rightarrow> (val \<Rightarrow> bytes result) \<Rightarrow> val \<Rightarrow> bytes result" where
  "DgStdForward_optional nt self put data = appendR (DgStdForward_header nt self) (case data of
     VNone \<Rightarrow> DgStdForward_arithmetic nt Bool (VBool False)
   | VSome obj \<Rightarrow> appendR (DgStdForward_arithmetic nt Bool (VBool True)) (put obj)
   | _ \<Rightarrow> Inl Type_mismatch)"

definition DgStdForward_variant ::
  "endian \<Rightarrow> ty \<Rightarrow> (nat \<Rightarrow> val \<Rightarrow> bytes result) \<Rightarrow> val \<Rightarrow> bytes result" where
  "DgStdForward_variant nt self put_alt data =
     (if \<not> is_met_variant_index_requirements (variant_index data) then Inl Bad_format
      else bindR (safe_integer_cast uint8_t size_t (variant_index data)) (\<lambda>demoted.
        appendR (appendR (DgStdForward_header nt self) (DgStdForward_arithmetic nt (UInt 1) (VInt demoted)))
          (case data of VAlt i arg \<Rightarrow> put_alt i arg | _ \<Rightarrow> Inl Type_mismatch)))"

definition DgStdForward_expected ::
  "endian \<Rightarrow> ty \<Rightarrow> (val \<Rightarrow> bytes result) \<Rightarrow> (val \<Rightarrow> bytes result) \<Rightarrow> val \<Rightarrow> bytes result" where
  "DgStdForward_expected nt self put_value put_error data =
     appendR (DgStdForward_header nt self) (case data of
       VOk obj \<Rightarrow> appendR (DgStdForward_arithmetic nt Bool (VBool True)) (put_value obj)
     | VErr obj \<Rightarrow> appendR (DgStdForward_arithmetic nt Bool (VBool False)) (put_error obj)
     | _ \<Rightarrow> Inl Type_mismatch)"

definition DgStdForward_timepoint :: "endian \<Rightarrow> val \<Rightarrow> bytes result" where
  "DgStdForward_timepoint nt data = appendR (DgStdForward_header nt TTimepoint)
     (bindR (safe_duration_cast_in 1 data) (DgStdForward_arithmetic nt (SInt 8)))"

definition DgStdForward_duration :: "endian \<Rightarrow> int \<Rightarrow> val \<Rightarrow> bytes result" where
  "DgStdForward_duration nt period data = appendR (DgStdForward_header nt (TDuration period))
     (bindR (safe_duration_cast_in period data) (DgStdForward_arithmetic nt (SInt 8)))"

definition DgStdForward_tuple :: "endian \<Rightarrow> ty \<Rightarrow> (val list \<Rightarrow> bytes result) \<Rightarrow> val \<Rightarrow> bytes result" where
  "DgStdForward_tuple nt self put_all data = appendR (DgStdForward_header nt self)
     (case data of VTuple vs \<Rightarrow> put_all vs | _ \<Rightarrow> Inl Type_mismatch)"

definition DgStdForward_size :: "endian \<Rightarrow> nat \<Rightarrow> nat \<Rightarrow> bytes result" where
  "DgStdForward_size nt w n =
     bindR (safe_integer_cast (False, w) size_t (int n)) (\<lambda>x. DgStdForward_arithmetic nt (UInt w) (VInt x))"

definition DgStdForward_noncpyable_container ::
  "endian \<Rightarrow> ty \<Rightarrow> (val \<Rightarrow> bytes result) \<Rightarrow> val \<Rightarrow> bytes result" where
  "DgStdForward_noncpyable_container nt self put data = (case data of
     VSeq vs \<Rightarrow>
       (if \<not> is_safe_integer_castable uint64_t size_t (int (length vs)) then Inl Bad_format
        else appendR (appendR (DgStdForward_header nt self) (DgStdForward_size nt 8 (length vs)))
               (put_elements put vs))
   | _ \<Rightarrow> Inl Type_mismatch)"

definition DgStdForward_cpyable_container :: "endian \<Rightarrow> ty \<Rightarrow> ty \<Rightarrow> val \<Rightarrow> bytes result" where
  "DgStdForward_cpyable_container nt self elem data = (case data of
     VSeq vs \<Rightarrow>
       (if \<not> is_safe_integer_castable uint64_t size_t (int (length vs)) then Inl Bad_format
        else appendR (appendR (appendR (DgStdForward_header nt self) (DgStdForward_header nt elem))
                 (DgStdForward_size nt 8 (length vs)))
               (memory_image nt (element_arith elem) vs))
   | _ \<Rightarrow> Inl Type_mismatch)"

definition DgStdForward_wrapper ::
  "endian \<Rightarrow> nat \<Rightarrow> ty \<Rightarrow> (val \<Rightarrow> bytes result) \<Rightarrow> val \<Rightarrow> bytes result" where
  "DgStdForward_wrapper nt w self put data = (case data of
     VSeq vs \<Rightarrow>
       (if \<not> is_safe_integer_castable (False, w) size_t (int (length vs)) then Inl Bad_format
        else appendR (appendR (DgStdForward_header nt self) (DgStdForward_size nt w (length vs)))
               (put_elements put vs))
   | _ \<Rightarrow> Inl Type_mismatch)"

definition DgStdForward_reflectible ::
  "endian \<Rightarrow> ty \<Rightarrow> (val list \<Rightarrow> bytes result) \<Rightarrow> val \<Rightarrow> bytes result" where
  "DgStdForward_reflectible nt self put_all data = appendR (DgStdForward_header nt self)
     (case data of VTuple vs \<Rightarrow> put_all vs | _ \<Rightarrow> Inl Type_mismatch)"

fun DgStdForward_put :: "endian \<Rightarrow> ty \<Rightarrow> val \<Rightarrow> bytes result"
  and DgStdForward_put_all :: "endian \<Rightarrow> ty list \<Rightarrow> val list \<Rightarrow> bytes result"
  and DgStdForward_put_alt :: "endian \<Rightarrow> ty list \<Rightarrow> nat \<Rightarrow> val \<Rightarrow> bytes result" where
  "DgStdForward_put nt (TArith a) v = DgStdForward_arithmetic nt a v"
| "DgStdForward_put nt (TUniquePtr t) v =
     DgStdForward_unique_ptr nt (TUniquePtr t) (\<lambda>w. DgStdForward_put nt t w) v"
| "DgStdForward_put nt (TOptional t) v =
     DgStdForward_optional nt (TOptional t) (\<lambda>w. DgStdForward_put nt t w) v"
| "DgStdForward_put nt (TVariant ts) v =
     DgStdForward_variant nt (TVariant ts) (\<lambda>i w. DgStdForward_put_alt nt ts i w) v"
| "DgStdForward_put nt (TExpected t u) v =
     DgStdForward_expected nt (TExpected t u) (\<lambda>w. DgStdForward_put nt t w) (\<lambda>w. DgStdForward_put nt u w) v"
| "DgStdForward_put nt TTimepoint v = DgStdForward_timepoint nt v"
| "DgStdForward_put nt (TDuration p) v = DgStdForward_duration nt p v"
| "DgStdForward_put nt (TTuple ts) v =
     DgStdForward_tuple nt (TTuple ts) (\<lambda>vs. DgStdForward_put_all nt ts vs) v"
| "DgStdForward_put nt (TReflect ts) v =
     DgStdForward_reflectible nt (TReflect ts) (\<lambda>vs. DgStdForward_put_all nt ts vs) v"
| "DgStdForward_put nt (TContainer k t) v =
     (if is_cpyable_linear_container nt k t
      then DgStdForward_cpyable_container nt (TContainer k t) t v
      else DgStdForward_noncpyable_container nt (TContainer k t) (\<lambda>w. DgStdForward_put nt t w) v)"
| "DgStdForward_put nt (TWrap w k t) v =
     DgStdForward_wrapper nt w (TWrap w k t) (\<lambda>u. DgStdForward_put nt t u) v"
| "DgStdForward_put_all nt [] vs = (if vs = [] then Inr [] else Inl Type_mismatch)"
| "DgStdForward_put_all nt (t # ts) vs = (case vs of
     [] \<Rightarrow> Inl Type_mismatch
   | v # vs' \<Rightarrow> appendR (DgStdForward_put nt t v) (DgStdForward_put_all nt ts vs'))"
| "DgStdForward_put_alt nt [] i v = Inl Type_mismatch"
| "DgStdForward_put_alt nt (t # ts) i v = (case i of
     0 \<Rightarrow> DgStdForward_put nt t v | Suc j \<Rightarrow> DgStdForward_put_alt nt ts j v)"

section \<open>DgStdBackward\<close>

definition DgStdBackward_arithmetic :: "endian \<Rightarrow> arith \<Rightarrow> val parser" where
  "DgStdBackward_arithmetic nt a = (\<lambda>buf.
     if length buf < arith_size a + 1 then Inl Corrupted_format
     else bindR (load nt (UInt 1) buf) (\<lambda>expected_header.
       bindR (get_dgstd_serialization_header (TArith a)) (\<lambda>header.
         if VInt header \<noteq> expected_header then Inl Corrupted_format
         else bindR (load nt a (drop 1 buf)) (\<lambda>data.
           Inr (data, drop (arith_size a) (drop 1 buf))))))"

definition DgStdBackward_header :: "endian \<Rightarrow> ty \<Rightarrow> unit parser" where
  "DgStdBackward_header nt t = bindP (DgStdBackward_arithmetic nt (UInt 1)) (\<lambda>expected_header.
     bindP (liftP (get_dgstd_serialization_header t)) (\<lambda>header.
       if VInt header \<noteq> expected_header then failP Corrupted_format else returnP ()))"

definition DgStdBackward_unique_ptr :: "endian \<Rightarrow> ty \<Rightarrow> val parser \<Rightarrow> val parser" where
  "DgStdBackward_unique_ptr nt self put = bindP (DgStdBackward_header nt self) (\<lambda>_.
     bindP (DgStdBackward_arithmetic nt Bool) (\<lambda>status.
       if status = VBool True then bindP put (\<lambda>obj. returnP (VSome obj)) else returnP VNone))"

definition DgStdBackward_optional :: "endian \<Rightarrow> ty \<Rightarrow> val parser \<Rightarrow> val parser" where
  "DgStdBackward_optional nt self put = bindP (DgStdBackward_header nt self) (\<lambda>_.
     bindP (DgStdBackward_arithmetic nt Bool) (\<lambda>status.
       if status = VBool True then bindP put (\<lambda>obj. returnP (VSome obj)) else returnP VNone))"

definition DgStdBackward_variant :: "endian \<Rightarrow> ty \<Rightarrow> nat \<Rightarrow> (nat \<Rightarrow> val parser) \<Rightarrow> val parser" where
  "DgStdBackward_variant nt self variant_count put_alt = bindP (DgStdBackward_header nt self) (\<lambda>_.
     bindP (DgStdBackward_arithmetic nt (UInt 1)) (\<lambda>variant_idx.
       if as_nat variant_idx \<ge> variant_count then failP Corrupted_format
       else bindP (put_alt (as_nat variant_idx)) (\<lambda>containee.
         returnP (VAlt (as_nat variant_idx) containee))))"

definition DgStdBackward_expected :: "endian \<Rightarrow> ty \<Rightarrow> val parser \<Rightarrow> val parser \<Rightarrow> val parser" where
  "DgStdBackward_expected nt self put_value put_error = bindP (DgStdBackward_header nt self) (\<lambda>_.
     bindP (DgStdBackward_arithmetic nt Bool) (\<lambda>status.
       if status = VBool True then bindP put_value (\<lambda>obj. returnP (VOk obj))
       else bindP put_error (\<lambda>obj. returnP (VErr obj))))"

definition DgStdBackward_timepoint :: "endian \<Rightarrow> val parser" where
  "DgStdBackward_timepoint nt = bindP (DgStdBackward_header nt TTimepoint) (\<lambda>_.
     bindP (DgStdBackward_arithmetic nt (SInt 8)) (\<lambda>tick. liftP (safe_duration_cast_out 1 tick)))"

definition DgStdBackward_duration :: "endian \<Rightarrow> int \<Rightarrow> val parser" where
  "DgStdBackward_duration nt period = bindP (DgStdBackward_header nt (TDuration period)) (\<lambda>_.
     bindP (DgStdBackward_arithmetic nt (SInt 8)) (\<lambda>tick. liftP (safe_duration_cast_out period tick)))"

definition DgStdBackward_tuple :: "endian \<Rightarrow> ty \<Rightarrow> val list parser \<Rightarrow> val parser" where
  "DgStdBackward_tuple nt self put_all = bindP (DgStdBackward_header nt self) (\<lambda>_.
     bindP put_all (\<lambda>vs. returnP (VTuple vs)))"

definition DgStdBackward_noncpyable_container ::
  "endian \<Rightarrow> container_kind \<Rightarrow> ty \<Rightarrow> val parser \<Rightarrow> val parser" where
  "DgStdBackward_noncpyable_container nt k elem put =
     bindP (DgStdBackward_header nt (TContainer k elem)) (\<lambda>_.
       bindP (DgStdBackward_arithmetic nt (UInt 8)) (\<lambda>sz.
         bindP (insert_loop put (get_inserter k elem) (as_nat sz) []) (\<lambda>data. returnP (VSeq data))))"

definition DgStdBackward_cpyable_container :: "endian \<Rightarrow> container_kind \<Rightarrow> ty \<Rightarrow> val parser" where
  "DgStdBackward_cpyable_container nt k elem =
     bindP (DgStdBackward_header nt (TContainer k elem)) (\<lambda>_.
       bindP (DgStdBackward_header nt elem) (\<lambda>_.
         bindP (DgStdBackward_arithmetic nt (UInt 8)) (\<lambda>sz.
           let width = arith_size (element_arith elem); cpy_sz = as_nat sz * width mod 2 ^ 64 in
           bindP available (\<lambda>buf_sz.
             if buf_sz < cpy_sz then failP Corrupted_format
             else bindP (resize_check (as_nat sz) width) (\<lambda>_.
               bindP (memcpy_elements nt (element_arith elem) (as_nat sz)) (\<lambda>data.
                 returnP (VSeq data)))))))"

definition DgStdBackward_wrapper ::
  "endian \<Rightarrow> nat \<Rightarrow> container_kind \<Rightarrow> ty \<Rightarrow> val parser \<Rightarrow> val parser" where
  "DgStdBackward_wrapper nt w k elem put =
     bindP (DgStdBackward_header nt (TWrap w k elem)) (\<lambda>_.
       bindP (DgStdBackward_arithmetic nt (UInt w)) (\<lambda>sz.
         bindP (insert_loop put (get_inserter k elem) (as_nat sz) []) (\<lambda>data. returnP (VSeq data))))"

definition DgStdBackward_reflectible :: "endian \<Rightarrow> ty \<Rightarrow> val list parser \<Rightarrow> val parser" where
  "DgStdBackward_reflectible nt self put_all = bindP (DgStdBackward_header nt self) (\<lambda>_.
     bindP put_all (\<lambda>vs. returnP (VTuple vs)))"

fun DgStdBackward_put :: "endian \<Rightarrow> ty \<Rightarrow> val parser"
  and DgStdBackward_put_all :: "endian \<Rightarrow> ty list \<Rightarrow> val list parser"
  and DgStdBackward_put_alt :: "endian \<Rightarrow> ty list \<Rightarrow> nat \<Rightarrow> val parser" where
  "DgStdBackward_put nt (TArith a) = DgStdBackward_arithmetic nt a"
| "DgStdBackward_put nt (TUniquePtr t) =
     DgStdBackward_unique_ptr nt (TUniquePtr t) (DgStdBackward_put nt t)"
| "DgStdBackward_put nt (TOptional t) =
     DgStdBackward_optional nt (TOptional t) (DgStdBackward_put nt t)"
| "DgStdBackward_put nt (TVariant ts) =
     DgStdBackward_variant nt (TVariant ts) (length ts) (DgStdBackward_put_alt nt ts)"
| "DgStdBackward_put nt (TExpected t u) =
     DgStdBackward_expected nt (TExpected t u) (DgStdBackward_put nt t) (DgStdBackward_put nt u)"
| "DgStdBackward_put nt TTimepoint = DgStdBackward_timepoint nt"
| "DgStdBackward_put nt (TDuration p) = DgStdBackward_duration nt p"
| "DgStdBackward_put nt (TTuple ts) = DgStdBackward_tuple nt (TTuple ts) (DgStdBackward_put_all nt ts)"
| "DgStdBackward_put nt (TReflect ts) =
     DgStdBackward_reflectible nt (TReflect ts) (DgStdBackward_put_all nt ts)"
| "DgStdBackward_put nt (TContainer k t) =
     (if is_cpyable_linear_container nt k t then DgStdBackward_cpyable_container nt k t
      else DgStdBackward_noncpyable_container nt k t (DgStdBackward_put nt t))"
| "DgStdBackward_put nt (TWrap w k t) = DgStdBackward_wrapper nt w k t (DgStdBackward_put nt t)"
| "DgStdBackward_put_all nt [] = returnP []"
| "DgStdBackward_put_all nt (t # ts) =
     bindP (DgStdBackward_put nt t) (\<lambda>v. bindP (DgStdBackward_put_all nt ts) (\<lambda>vs. returnP (v # vs)))"
| "DgStdBackward_put_alt nt [] i = failP Type_mismatch"
| "DgStdBackward_put_alt nt (t # ts) i = (case i of
     0 \<Rightarrow> DgStdBackward_put nt t | Suc j \<Rightarrow> DgStdBackward_put_alt nt ts j)"

section \<open>DgStdCounter and DgStdForward agree\<close>

named_theorems dgcounter_defs "the overloads of DgStdCounter"
named_theorems dgforward_defs "the overloads of DgStdForward"
named_theorems dgbackward_defs "the overloads of DgStdBackward"

lemmas [dgcounter_defs] = DgStdCounter_arithmetic_def DgStdCounter_header_def addR_def
  DgStdCounter_unique_ptr_def DgStdCounter_optional_def DgStdCounter_variant_def
  DgStdCounter_expected_def DgStdCounter_timepoint_def DgStdCounter_duration_def
  DgStdCounter_tuple_def DgStdCounter_noncpyable_container_def DgStdCounter_cpyable_container_def
  DgStdCounter_reflectible_def DgStdCounter_wrapper_def

lemmas [dgforward_defs] = DgStdForward_unique_ptr_def DgStdForward_optional_def
  DgStdForward_variant_def DgStdForward_expected_def DgStdForward_timepoint_def
  DgStdForward_duration_def DgStdForward_tuple_def DgStdForward_noncpyable_container_def
  DgStdForward_cpyable_container_def DgStdForward_reflectible_def DgStdForward_wrapper_def

lemmas [dgbackward_defs] = DgStdBackward_unique_ptr_def DgStdBackward_optional_def
  DgStdBackward_variant_def DgStdBackward_expected_def DgStdBackward_timepoint_def
  DgStdBackward_duration_def DgStdBackward_tuple_def DgStdBackward_noncpyable_container_def
  DgStdBackward_reflectible_def DgStdBackward_wrapper_def

lemma appendR_eq_Inr: "appendR x y = Inr bs \<longleftrightarrow> (\<exists>b b'. x = Inr b \<and> y = Inr b' \<and> bs = b @ b')"
  by (auto simp: appendR_def bindR_eq_Inr)

lemma DgStdForward_arithmetic_length:
  "DgStdForward_arithmetic nt a v = Inr bs \<Longrightarrow> length bs = 1 + arith_size a"
  by (auto simp: DgStdForward_arithmetic_def bindR_eq_Inr dest!: dump_length)

lemma DgStdForward_header_length: "DgStdForward_header nt t = Inr bs \<Longrightarrow> length bs = 2"
  by (auto simp: DgStdForward_header_def bindR_eq_Inr dest: DgStdForward_arithmetic_length)

lemma DgStdForward_size_length: "DgStdForward_size nt w n = Inr bs \<Longrightarrow> length bs = 1 + w"
  by (auto simp: DgStdForward_size_def bindR_eq_Inr dest: DgStdForward_arithmetic_length)

lemmas dg_lengths = DgStdForward_arithmetic_length DgStdForward_header_length
  DgStdForward_size_length memory_image_length

lemma DgStdForward_Counter_all:
  shows "DgStdForward_put nt t v = Inr bs \<Longrightarrow> DgStdCounter_count nt t v = Inr (length bs)"
    and "DgStdForward_put_all nt ts vs = Inr bs \<Longrightarrow> DgStdCounter_count_all nt ts vs = Inr (length bs)"
    and "DgStdForward_put_alt nt ts i v = Inr bs \<Longrightarrow> DgStdCounter_count_alt nt ts i v = Inr (length bs)"
proof (induction nt t v and nt ts vs and nt ts i v arbitrary: bs and bs and bs
    rule: DgStdForward_put_DgStdForward_put_all_DgStdForward_put_alt.induct)
  case (10 nt k t v)
  have *: "put_elements (\<lambda>w. DgStdForward_put nt t w) vs = Inr b
      \<Longrightarrow> \<forall>n. count_elements (\<lambda>w. DgStdCounter_count nt t w) n vs = Inr (n + length b)"
    if "\<not> is_cpyable_linear_container nt k t" for vs b
    using 10 that by (intro allI put_elements_counted) auto
  show ?case
    using 10(2) by (auto simp: dgcounter_defs dgforward_defs appendR_eq_Inr dest!: dg_lengths *
        split: val.splits if_splits)
next
  case (11 nt w k t v)
  have *: "put_elements (\<lambda>w. DgStdForward_put nt t w) vs = Inr b
      \<Longrightarrow> \<forall>n. count_elements (\<lambda>w. DgStdCounter_count nt t w) n vs = Inr (n + length b)" for vs b
    using 11 by (intro allI put_elements_counted) auto
  show ?case
    using 11(2) by (auto simp: dgcounter_defs dgforward_defs appendR_eq_Inr dest!: dg_lengths *
        split: val.splits if_splits)
qed (auto simp: dgcounter_defs dgforward_defs appendR_eq_Inr bindR_eq_Inr dest!: dg_lengths
    split: val.splits if_splits list.splits nat.splits)

section \<open>DgStdForward is total\<close>

text \<open>The types whose headers the code can compute.\<close>

fun dgstd_type :: "ty \<Rightarrow> bool" where
  "dgstd_type (TArith a) \<longleftrightarrow> (\<exists>h. get_dgstd_serialization_header (TArith a) = Inr h)"
| "dgstd_type (TUniquePtr t) \<longleftrightarrow> dgstd_type t"
| "dgstd_type (TOptional t) \<longleftrightarrow> dgstd_type t"
| "dgstd_type (TVariant ts) \<longleftrightarrow> list_all dgstd_type ts"
| "dgstd_type (TExpected t u) \<longleftrightarrow> dgstd_type t \<and> dgstd_type u"
| "dgstd_type TTimepoint \<longleftrightarrow> True"
| "dgstd_type (TDuration p) \<longleftrightarrow> True"
| "dgstd_type (TTuple ts) \<longleftrightarrow> list_all dgstd_type ts"
| "dgstd_type (TReflect ts) \<longleftrightarrow> list_all dgstd_type ts"
| "dgstd_type (TContainer k t) \<longleftrightarrow> dgstd_type t"
| "dgstd_type (TWrap w k t) \<longleftrightarrow> w \<in> {1, 2, 4, 8} \<and> dgstd_type t"

lemma header_cases:
  "(\<exists>a. t = TArith a) \<or> (\<exists>h. get_dgstd_serialization_header t = Inr h \<and> 220 \<le> h \<and> h \<le> 234)"
  by (cases t rule: get_dgstd_serialization_header.cases) auto

lemma header_range:
  "get_dgstd_serialization_header t = Inr h \<Longrightarrow> 201 \<le> h \<and> h \<le> 234"
  by (cases t rule: get_dgstd_serialization_header.cases) (auto split: if_splits)

lemma DgStdForward_arithmetic_total:
  assumes "arith_typed a v" and "dgstd_type (TArith a)"
  shows "\<exists>bs. DgStdForward_arithmetic nt a v = Inr bs"
  using assms to_bits_typed [OF assms(1)]
  by (auto simp: DgStdForward_arithmetic_def dump_eq)

lemma DgStdForward_header_total: "dgstd_type t \<Longrightarrow> \<exists>bs. DgStdForward_header nt t = Inr bs"
proof -
  assume "dgstd_type t"
  then obtain h where h: "get_dgstd_serialization_header t = Inr h"
    using header_cases [of t] by auto
  then have "arith_typed (UInt 1) (VInt h)" using header_range by fastforce
  then obtain bs where "DgStdForward_arithmetic nt (UInt 1) (VInt h) = Inr bs"
    using DgStdForward_arithmetic_total by fastforce
  with h show ?thesis by (simp add: DgStdForward_header_def)
qed

lemma size_castable:
  "n \<le> max_bytes \<Longrightarrow> int n < 256 ^ w \<Longrightarrow> is_safe_integer_castable (False, w) size_t (int n)"
  by (simp add: is_safe_integer_castable_def int_max_def int_min_def power_mult
      del: of_nat_less_numeral_power_cancel_iff)

lemma DgStdForward_size_total:
  assumes "n \<le> max_bytes" and "int n < 256 ^ w" and "w \<in> {1, 2, 4, 8}"
  shows "\<exists>bs. DgStdForward_size nt w n = Inr bs"
proof -
  have "\<exists>bs. DgStdForward_arithmetic nt (UInt w) (VInt (int n)) = Inr bs"
    using assms by (intro DgStdForward_arithmetic_total) auto
  then show ?thesis
    using size_castable [OF assms(1,2)] by (simp add: DgStdForward_size_def safe_integer_cast_castable)
qed

lemma max_bytes_size: "n \<le> max_bytes \<Longrightarrow> int n < 256 ^ 8"
  by (simp add: max_bytes_def)

lemma appendR_total:
  "\<exists>bs. x = Inr bs \<Longrightarrow> \<exists>bs. y = Inr bs \<Longrightarrow> \<exists>bs. appendR x y = Inr bs"
  by (auto simp: appendR_def)

lemma DgStdForward_total_all:
  shows "has_type t v \<Longrightarrow> dgstd_type t \<Longrightarrow> \<exists>bs. DgStdForward_put nt t v = Inr bs"
    and "have_types ts vs \<Longrightarrow> list_all dgstd_type ts \<Longrightarrow> \<exists>bs. DgStdForward_put_all nt ts vs = Inr bs"
    and "alt_has_type ts i v \<Longrightarrow> list_all dgstd_type ts \<Longrightarrow> \<exists>bs. DgStdForward_put_alt nt ts i v = Inr bs"
proof (induction nt t v and nt ts vs and nt ts i v
    rule: DgStdForward_put_DgStdForward_put_all_DgStdForward_put_alt.induct)
  case (1 nt a v)
  then show ?case by (simp add: DgStdForward_arithmetic_total)
next
  case (4 nt ts v)
  then obtain i w where v: "v = VAlt i w" and len: "length ts \<le> 256" and alt: "alt_has_type ts i w"
    by (auto split: val.splits)
  then have i: "i < 256" using alt_has_type_index by fastforce
  have "\<exists>bs. DgStdForward_put_alt nt ts i w = Inr bs" using 4 v alt i
    by (auto simp: variant_index_def variant_index_ok)
  moreover have "\<exists>bs. DgStdForward_arithmetic nt (UInt 1) (VInt (int i)) = Inr bs"
    using i by (intro DgStdForward_arithmetic_total) auto
  ultimately show ?case
    using i DgStdForward_header_total [OF 4(3)]
    by (auto simp: v DgStdForward_variant_def variant_index_def variant_index_ok
        demoted_index [unfolded One_nat_def] demoted_index intro!: appendR_total)
next
  case (6 nt v)
  then obtain x where v: "v = VInt x" and x: "int64_ok x" by (auto split: val.splits)
  have "\<exists>bs. DgStdForward_arithmetic nt (SInt 8) (VInt x) = Inr bs"
    using x by (intro DgStdForward_arithmetic_total int64_ok_typed) auto
  then show ?case
    using x DgStdForward_header_total [OF 6(2)]
    by (auto simp: v DgStdForward_timepoint_def safe_duration_cast_in_def intro!: appendR_total)
next
  case (7 nt p v)
  then obtain x where v: "v = VInt x" and x: "int64_ok (x * p)" by (auto split: val.splits)
  have "\<exists>bs. DgStdForward_arithmetic nt (SInt 8) (VInt (x * p)) = Inr bs"
    using x by (intro DgStdForward_arithmetic_total int64_ok_typed) auto
  then show ?case
    using x DgStdForward_header_total [OF 7(2)]
    by (auto simp: v DgStdForward_duration_def safe_duration_cast_in_def intro!: appendR_total)
next
  case (10 nt k t v)
  then obtain vs where v: "v = VSeq vs" and len: "length vs \<le> max_bytes"
    and typed: "\<forall>w \<in> set vs. has_type t w" by (auto split: val.splits)
  have castable: "is_safe_integer_castable uint64_t size_t (int (length vs))"
    using len by (simp add: max_bytes_def)
  have size: "\<exists>bs. DgStdForward_size nt 8 (length vs) = Inr bs"
    using len by (intro DgStdForward_size_total max_bytes_size) auto
  show ?case
  proof (cases "is_cpyable_linear_container nt k t")
    case True
    then obtain a where a: "t = TArith a" "element_arith t = a" using is_cpyable_arith by blast
    then have "\<exists>bs. memory_image nt a vs = Inr bs" using typed by (intro memory_image_total) auto
    then show ?thesis
      using True castable size a DgStdForward_header_total [OF 10(3), of nt]
        DgStdForward_header_total [of t nt] 10(3)
      by (auto simp: v DgStdForward_cpyable_container_def intro!: appendR_total)
  next
    case False
    have "\<exists>bs. put_elements (\<lambda>w. DgStdForward_put nt t w) vs = Inr bs"
      using 10 False typed by (intro put_elements_total) auto
    then show ?thesis
      using False castable size DgStdForward_header_total [OF 10(3)]
      by (auto simp: v DgStdForward_noncpyable_container_def intro!: appendR_total)
  qed
next
  case (11 nt w k t v)
  then obtain vs where v: "v = VSeq vs" and len: "length vs \<le> max_bytes"
    and w: "int (length vs) < 256 ^ w" and typed: "\<forall>u \<in> set vs. has_type t u" by (auto split: val.splits)
  have "\<exists>bs. put_elements (\<lambda>w. DgStdForward_put nt t w) vs = Inr bs"
    using 11 typed by (intro put_elements_total) auto
  moreover have "\<exists>bs. DgStdForward_size nt w (length vs) = Inr bs"
    using len w 11(3) by (intro DgStdForward_size_total) auto
  ultimately show ?case
    using size_castable [OF len w] DgStdForward_header_total [OF 11(3)]
    by (auto simp: v DgStdForward_wrapper_def intro!: appendR_total)
qed (auto simp: dgforward_defs intro!: appendR_total DgStdForward_header_total
    DgStdForward_arithmetic_total split: val.splits list.splits nat.splits)

end
