(* ===== verification/Dgstd_Reading.thy ===== *)
theory Dgstd_Reading
  imports Dgstd_Archive
begin

text \<open>
  What \<open>archive::DgStdBackward\<close> does: it reads back what \<open>DgStdForward\<close> wrote, it stays inside the
  buffer on arbitrary bytes, and it refuses a stream whose header is not the one of the type read.
\<close>

section \<open>Round trip\<close>

lemma DgStdBackward_arithmetic_put:
  assumes "arith_typed a v" and "DgStdForward_arithmetic nt a v = Inr bs"
  shows "DgStdBackward_arithmetic nt a (bs @ rest) = Inr (v, rest)"
proof -
  obtain header h b where header: "get_dgstd_serialization_header (TArith a) = Inr header"
    and h: "dump nt (UInt 1) (VInt header) = Inr h" and b: "dump nt a v = Inr b" and bs: "bs = h @ b"
    using assms(2) by (auto simp: DgStdForward_arithmetic_def bindR_eq_Inr)
  have "arith_typed (UInt 1) (VInt header)" using header_range [OF header] by simp
  then have "load nt (UInt 1) (h @ (b @ rest)) = Inr (VInt header)"
    using h by (rule load_dump)
  moreover have "length h = 1" and "length b = arith_size a"
    using h b by (auto dest: dump_length)
  moreover have "load nt a (b @ rest) = Inr v"
    using assms(1) b by (rule load_dump)
  ultimately show ?thesis
    by (simp add: DgStdBackward_arithmetic_def bs header)
qed

lemma DgStdBackward_header_put:
  assumes "DgStdForward_header nt t = Inr bs"
  shows "DgStdBackward_header nt t (bs @ rest) = Inr ((), rest)"
proof -
  obtain header where header: "get_dgstd_serialization_header t = Inr header"
    and bs: "DgStdForward_arithmetic nt (UInt 1) (VInt header) = Inr bs"
    using assms by (auto simp: DgStdForward_header_def bindR_eq_Inr)
  have "arith_typed (UInt 1) (VInt header)" using header_range [OF header] by simp
  then show ?thesis
    using header DgStdBackward_arithmetic_put [OF _ bs]
    by (simp add: DgStdBackward_header_def liftP_def bindP_def)
qed

lemma DgStdBackward_status:
  "DgStdForward_arithmetic nt Bool (VBool b) = Inr bs
   \<Longrightarrow> \<forall>rest. DgStdBackward_arithmetic nt Bool (bs @ rest) = Inr (VBool b, rest)"
  by (simp add: DgStdBackward_arithmetic_put)

lemma DgStdBackward_header_all:
  "DgStdForward_header nt t = Inr bs
   \<Longrightarrow> \<forall>rest. DgStdBackward_header nt t (bs @ rest) = Inr ((), rest)"
  by (simp add: DgStdBackward_header_put)

lemma DgStdBackward_size_put:
  assumes "n \<le> max_bytes" and "int n < 256 ^ w" and "DgStdForward_size nt w n = Inr bs"
  shows "DgStdBackward_arithmetic nt (UInt w) (bs @ rest) = Inr (VInt (int n), rest)"
proof -
  have "DgStdForward_arithmetic nt (UInt w) (VInt (int n)) = Inr bs"
    using assms size_castable [OF assms(1,2)]
    by (simp add: DgStdForward_size_def safe_integer_cast_castable)
  then show ?thesis
    using assms(2) by (intro DgStdBackward_arithmetic_put) auto
qed

lemma DgStdBackward_Forward_all:
  shows "has_type t v \<Longrightarrow> DgStdForward_put nt t v = Inr bs
      \<Longrightarrow> DgStdBackward_put nt t (bs @ rest) = Inr (v, rest)"
    and "have_types ts vs \<Longrightarrow> DgStdForward_put_all nt ts vs = Inr bs
      \<Longrightarrow> DgStdBackward_put_all nt ts (bs @ rest) = Inr (vs, rest)"
    and "alt_has_type ts i v \<Longrightarrow> DgStdForward_put_alt nt ts i v = Inr bs
      \<Longrightarrow> DgStdBackward_put_alt nt ts i (bs @ rest) = Inr (v, rest)"
proof (induction nt t v and nt ts vs and nt ts i v arbitrary: bs rest and bs rest and bs rest
    rule: DgStdForward_put_DgStdForward_put_all_DgStdForward_put_alt.induct)
  case (4 nt ts v)
  then obtain i w where v: "v = VAlt i w" and len: "length ts \<le> 256" and alt: "alt_has_type ts i w"
    by (auto split: val.splits)
  then have i: "i < length ts" "i < 256" using alt_has_type_index by fastforce+
  then obtain h x bs' where h: "DgStdForward_header nt (TVariant ts) = Inr h"
    and x: "DgStdForward_arithmetic nt (UInt 1) (VInt (int i)) = Inr x"
    and bs': "DgStdForward_put_alt nt ts i w = Inr bs'" and bs: "bs = h @ x @ bs'"
    using 4(3) v by (auto simp: DgStdForward_variant_def variant_index_def variant_index_ok
        demoted_index demoted_index [unfolded One_nat_def] appendR_eq_Inr split: if_splits)
  have "DgStdBackward_arithmetic nt (UInt 1) (x @ (bs' @ rest)) = Inr (VInt (int i), bs' @ rest)"
    using i by (intro DgStdBackward_arithmetic_put [OF _ x]) simp
  moreover have "DgStdBackward_put_alt nt ts i (bs' @ rest) = Inr (w, rest)"
    using 4 v i alt bs' by (auto simp: variant_index_def variant_index_ok)
  ultimately show ?case
    using i DgStdBackward_header_put [OF h] by (simp add: v bs DgStdBackward_variant_def bindP_def)
next
  case (10 nt k t v)
  then obtain vs where v: "v = VSeq vs" and len: "length vs \<le> max_bytes"
    and width: "length vs * elem_width t \<le> max_bytes" and content: "content_ok k t ([] @ vs)"
    and typed: "\<forall>w \<in> set vs. has_type t w" by (auto split: val.splits)
  note size = DgStdBackward_size_put [OF len max_bytes_size [OF len]]
  show ?case
  proof (cases "is_cpyable_linear_container nt k t")
    case True
    then obtain a where a: "t = TArith a" "element_arith t = a" using is_cpyable_arith by blast
    obtain h h' n bs' where h: "DgStdForward_header nt (TContainer k t) = Inr h"
      and h': "DgStdForward_header nt t = Inr h'"
      and n: "DgStdForward_size nt 8 (length vs) = Inr n"
      and bs': "memory_image nt a vs = Inr bs'" and bs: "bs = h @ h' @ n @ bs'"
      using 10 v True a
      by (auto simp: DgStdForward_cpyable_container_def appendR_eq_Inr split: if_splits)
    show ?thesis
      using True v a len width typed bs DgStdBackward_header_put [OF h] DgStdBackward_header_put [OF h']
        size [OF n] bs'
      by (simp add: DgStdBackward_cpyable_container_def bindP_def Let_def available_def
          resize_check_def memcpy_image elem_width_def memory_image_length max_bytes_def)
  next
    case False
    obtain h n bs' where h: "DgStdForward_header nt (TContainer k t) = Inr h"
      and n: "DgStdForward_size nt 8 (length vs) = Inr n"
      and bs': "put_elements (\<lambda>w. DgStdForward_put nt t w) vs = Inr bs'" and bs: "bs = h @ n @ bs'"
      using 10 v False
      by (auto simp: DgStdForward_noncpyable_container_def appendR_eq_Inr split: if_splits)
    have "insert_loop (DgStdBackward_put nt t) (get_inserter k t) (length vs) [] (bs' @ rest)
        = Inr ([] @ vs, rest)"
      using 10 False typed by (intro insert_loop_put_elements [OF _ content bs']) auto
    then show ?thesis
      using False v bs DgStdBackward_header_put [OF h] size [OF n]
      by (simp add: DgStdBackward_noncpyable_container_def bindP_def)
  qed
next
  case (11 nt w k t v)
  then obtain vs where v: "v = VSeq vs" and len: "length vs \<le> max_bytes"
    and w: "int (length vs) < 256 ^ w" and content: "content_ok k t ([] @ vs)"
    and typed: "\<forall>u \<in> set vs. has_type t u" by (auto split: val.splits)
  obtain h n bs' where h: "DgStdForward_header nt (TWrap w k t) = Inr h"
    and n: "DgStdForward_size nt w (length vs) = Inr n"
    and bs': "put_elements (\<lambda>u. DgStdForward_put nt t u) vs = Inr bs'" and bs: "bs = h @ n @ bs'"
    using 11 v by (auto simp: DgStdForward_wrapper_def appendR_eq_Inr split: if_splits)
  have "insert_loop (DgStdBackward_put nt t) (get_inserter k t) (length vs) [] (bs' @ rest)
      = Inr ([] @ vs, rest)"
    using 11 typed by (intro insert_loop_put_elements [OF _ content bs']) auto
  then show ?case
    using v bs DgStdBackward_header_put [OF h] DgStdBackward_size_put [OF len w n]
    by (simp add: DgStdBackward_wrapper_def bindP_def)
next
  case (6 nt v)
  then obtain x where v: "v = VInt x" and x: "int64_ok (x * 1)" by (auto split: val.splits)
  obtain h b where h: "DgStdForward_header nt TTimepoint = Inr h"
    and b: "DgStdForward_arithmetic nt (SInt 8) (VInt x) = Inr b" and bs: "bs = h @ b"
    using 6 v x by (auto simp: DgStdForward_timepoint_def safe_duration_cast_in_def appendR_eq_Inr)
  have "DgStdBackward_arithmetic nt (SInt 8) (b @ rest) = Inr (VInt x, rest)"
    using x by (intro DgStdBackward_arithmetic_put [OF _ b] int64_ok_typed) simp
  then show ?case
    using x safe_duration_cast_roundtrip(2) [of 1 x] DgStdBackward_header_put [OF h]
    by (simp add: v bs DgStdBackward_timepoint_def liftP_def bindP_def)
next
  case (7 nt p v)
  then obtain x where v: "v = VInt x" and p: "0 < p" and x: "int64_ok (x * p)" by (auto split: val.splits)
  obtain h b where h: "DgStdForward_header nt (TDuration p) = Inr h"
    and b: "DgStdForward_arithmetic nt (SInt 8) (VInt (x * p)) = Inr b" and bs: "bs = h @ b"
    using 7 v x by (auto simp: DgStdForward_duration_def safe_duration_cast_in_def appendR_eq_Inr)
  have "DgStdBackward_arithmetic nt (SInt 8) (b @ rest) = Inr (VInt (x * p), rest)"
    using x by (intro DgStdBackward_arithmetic_put [OF _ b] int64_ok_typed)
  then show ?case
    using p x DgStdBackward_header_put [OF h]
    by (simp add: v bs DgStdBackward_duration_def liftP_def bindP_def safe_duration_cast_roundtrip(2))
qed (auto simp: dgforward_defs appendR_eq_Inr dgbackward_defs bindP_def
    intro!: DgStdBackward_arithmetic_put dest!: DgStdBackward_status DgStdBackward_header_all
    split: val.splits list.splits nat.splits if_splits)

section \<open>Arbitrary bytes\<close>

lemma header_in_bounds: "get_dgstd_serialization_header t \<noteq> Inl Out_of_bounds"
  by (cases t rule: get_dgstd_serialization_header.cases) auto

lemma DgStdBackward_arithmetic_in_bounds [safe_intros]: "in_bounds (DgStdBackward_arithmetic nt a)"
  by (auto simp: in_bounds_def DgStdBackward_arithmetic_def bindR_eq_Inl load_eq of_bits_in_bounds
      header_in_bounds)

lemma liftP_header_in_bounds [safe_intros]: "in_bounds (liftP (get_dgstd_serialization_header t))"
  by (auto simp: in_bounds_def liftP_def bindR_eq_Inl header_in_bounds)

lemma DgStdBackward_header_in_bounds [safe_intros]: "in_bounds (DgStdBackward_header nt t)"
  unfolding DgStdBackward_header_def by (intro safe_intros) auto

lemma DgStdBackward_cpyable_in_bounds [safe_intros]:
  "in_bounds (DgStdBackward_cpyable_container nt k t)"
  unfolding DgStdBackward_cpyable_container_def Let_def
  by (rule in_bounds_bindP [OF DgStdBackward_header_in_bounds]
      in_bounds_bindP [OF DgStdBackward_arithmetic_in_bounds] checked_memcpy_in_bounds)+

lemma DgStdBackward_in_bounds_all:
  shows "in_bounds (DgStdBackward_put nt t)"
    and "in_bounds (DgStdBackward_put_all nt ts)"
    and "in_bounds (DgStdBackward_put_alt nt ts i)"
proof (induction nt t and nt ts and nt ts i
    rule: DgStdBackward_put_DgStdBackward_put_all_DgStdBackward_put_alt.induct)
  case (15 nt t ts i)
  then show ?case by (cases i) auto
qed (auto simp: dgbackward_defs intro!: safe_intros split: val.splits)

lemma DgStdBackward_arithmetic_consumes [consumes_intros]: "consumes (DgStdBackward_arithmetic nt a)"
proof -
  have "drop n (drop 1 bs) = drop (n + 1) bs" for n and bs :: bytes by simp
  then show ?thesis
    unfolding consumes_def DgStdBackward_arithmetic_def
    by (auto simp: bindR_eq_Inr consumes_drop simp del: drop_drop split: if_splits)
qed

lemma DgStdBackward_header_consumes [consumes_intros]: "consumes (DgStdBackward_header nt t)"
  unfolding DgStdBackward_header_def by (intro consumes_intros)

lemma DgStdBackward_consumes_all:
  shows "consumes (DgStdBackward_put nt t)"
    and "consumes (DgStdBackward_put_all nt ts)"
    and "consumes (DgStdBackward_put_alt nt ts i)"
proof (induction nt t and nt ts and nt ts i
    rule: DgStdBackward_put_DgStdBackward_put_all_DgStdBackward_put_alt.induct)
  case (15 nt t ts i)
  then show ?case by (cases i) auto
qed (auto simp: dgbackward_defs DgStdBackward_cpyable_container_def Let_def resize_check_def
    intro!: consumes_intros split: val.splits)

section \<open>Headers that differ\<close>

lemma DgStdForward_put_header:
  assumes "\<nexists>a. t = TArith a" and "DgStdForward_put nt t v = Inr bs"
  obtains h bs' where "DgStdForward_header nt t = Inr h" and "bs = h @ bs'"
proof (cases t)
  case (TArith a)
  then show ?thesis using assms(1) by blast
qed (use assms(2) that in \<open>auto simp: dgforward_defs appendR_eq_Inr bindR_eq_Inr split: if_splits val.splits\<close>)

lemma DgStdBackward_put_header:
  assumes "\<nexists>a. t = TArith a" and "DgStdBackward_header nt t bs = Inl e"
  shows "DgStdBackward_put nt t bs = Inl e"
proof (cases t)
  case (TArith a)
  then show ?thesis using assms(1) by blast
qed (use assms(2) in \<open>auto simp: dgbackward_defs DgStdBackward_cpyable_container_def\<close>)

lemma DgStdBackward_header_mismatch:
  assumes h: "DgStdForward_header nt t = Inr h"
    and differ: "get_dgstd_serialization_header t \<noteq> get_dgstd_serialization_header u"
    and u: "get_dgstd_serialization_header u = Inr x"
  shows "DgStdBackward_header nt u (h @ rest) = Inl Corrupted_format"
proof -
  obtain y where y: "get_dgstd_serialization_header t = Inr y"
    and bs: "DgStdForward_arithmetic nt (UInt 1) (VInt y) = Inr h"
    using h by (auto simp: DgStdForward_header_def bindR_eq_Inr)
  have "arith_typed (UInt 1) (VInt y)" using header_range [OF y] by simp
  then have "DgStdBackward_arithmetic nt (UInt 1) (h @ rest) = Inr (VInt y, rest)"
    using bs by (rule DgStdBackward_arithmetic_put)
  moreover have "x \<noteq> y" using differ y u by auto
  ultimately show ?thesis
    by (simp add: DgStdBackward_header_def liftP_def bindP_def u)
qed

end
