(* ===== verification/Archive_Interface.thy ===== *)
theory Archive_Interface
  imports Prelude
begin

text \<open>
  The contracts the rest of the program relies on when it serializes. \<open>archive\<close> is the contract
  between a counter, a writer and a reader of objects of a static type; \<open>safe_archive\<close> adds what a
  bounds-checked reader promises on arbitrary bytes; \<open>stream_codec\<close> is the contract of a routine
  that turns a whole object into a stream and back. The lemmas here are proved once for every
  archive and codec of the program.
\<close>

text \<open>
  \<open>Stream stream{}; stream.resize(n); write_into(stream.data(), ...)\<close>: the bytes written overwrite
  the beginning of a zeroed buffer of \<open>n\<close> bytes.
\<close>

definition fill :: "nat \<Rightarrow> bytes \<Rightarrow> bytes result" where
  "fill n bs = (if length bs \<le> n then Inr (overwrite (replicate n 0) 0 bs) else Inl Out_of_bounds)"

text \<open>
  \<open>put(iterating_ptr, deserializing_sz, obj); if (deserializing_sz != 0u) throw corrupted_format();\<close>
\<close>

definition read_exactly :: "'a parser \<Rightarrow> bytes \<Rightarrow> 'a result" where
  "read_exactly put content = bindR (put content) (\<lambda>(obj, rest).
     if length rest \<noteq> 0 then Inl Corrupted_format else Inr obj)"

lemma fill_exact: "fill (length bs) bs = Inr bs"
  by (simp add: fill_def overwrite_def)

locale archive =
  fixes wf :: "'t \<Rightarrow> 'v \<Rightarrow> bool"
    and size_of :: "'t \<Rightarrow> 'v \<Rightarrow> nat result"
    and put :: "'t \<Rightarrow> 'v \<Rightarrow> bytes result"
    and get :: "'t \<Rightarrow> 'v parser"
  assumes put_total: "wf t v \<Longrightarrow> \<exists>bs. put t v = Inr bs"
    and size_of_put: "put t v = Inr bs \<Longrightarrow> size_of t v = Inr (length bs)"
    and get_put: "wf t v \<Longrightarrow> put t v = Inr bs \<Longrightarrow> get t (bs @ rest) = Inr (v, rest)"
begin

lemma put_prefix_free:
  assumes "wf t v" and "wf t w" and "put t v = Inr bs" and "put t w = Inr bs'"
    and "bs @ rest = bs' @ rest'"
  shows "v = w \<and> bs = bs' \<and> rest = rest'"
proof -
  have "Inr (v, rest) = (Inr (w, rest') :: error + 'v \<times> bytes)"
    using assms get_put by metis
  with assms(3,4) show ?thesis by auto
qed

lemma get_whole: "wf t v \<Longrightarrow> put t v = Inr bs \<Longrightarrow> get t bs = Inr (v, [])"
  using get_put [of t v bs "[]"] by simp

lemma read_exactly_put: "wf t v \<Longrightarrow> put t v = Inr bs \<Longrightarrow> read_exactly (get t) bs = Inr v"
  by (simp add: read_exactly_def get_whole)

lemma read_exactly_longer:
  "wf t v \<Longrightarrow> put t v = Inr bs \<Longrightarrow> rest \<noteq> [] \<Longrightarrow> read_exactly (get t) (bs @ rest) = Inl Corrupted_format"
  by (simp add: read_exactly_def get_put)

lemma fill_put:
  assumes "put t v = Inr bs"
  shows "bindR (size_of t v) (\<lambda>n. fill n bs) = Inr bs"
  using size_of_put [OF assms] by (simp add: fill_exact)

end

locale safe_archive = archive +
  assumes get_in_bounds: "in_bounds (get t)"
    and get_consumes: "consumes (get t)"
begin

lemma read_exactly_in_bounds: "read_exactly (get t) bs \<noteq> Inl Out_of_bounds"
  using get_in_bounds [of t]
  by (auto simp: read_exactly_def in_bounds_def bindR_def split: sum.splits)

lemma truncated_not_accepted:
  assumes "wf t v" and "put t v = Inr (bs @ rest)" and "rest \<noteq> []"
    and "get t bs = Inr (w, [])" and "wf t w" and "put t w = Inr bs"
  shows False
  using put_prefix_free [OF assms(1,5,2,6), of "[]" rest] assms(3) by auto

end

locale stream_codec =
  fixes ok :: "'v \<Rightarrow> bool"
    and enc :: "'v \<Rightarrow> bytes result"
    and dec :: "bytes \<Rightarrow> 'v result"
  assumes dec_enc: "ok v \<Longrightarrow> \<exists>bs. enc v = Inr bs \<and> dec bs = Inr v"
begin

lemma enc_injective: "ok v \<Longrightarrow> ok w \<Longrightarrow> enc v = enc w \<Longrightarrow> v = w"
  using dec_enc [of v] dec_enc [of w] by auto

lemma dec_of_enc: "ok v \<Longrightarrow> enc v = Inr bs \<Longrightarrow> dec bs = Inr v"
  using dec_enc [of v] by auto

lemma enc_total: "ok v \<Longrightarrow> \<exists>bs. enc v = Inr bs"
  using dec_enc by blast

end

end
