(* ===== verification/Compact_Frames.thy ===== *)
theory Compact_Frames
  imports Compact_Backward Dgstd_Reading Archive_Interface
begin

text \<open>
  The entry points of \<open>serializer/compact_serializer.h\<close>: \<open>serialize\<close>/\<open>deserialize\<close>, and the three
  frames that protect an archive with a MurmurHash3 digest (\<open>integrity_\<close>, \<open>capintegrity_\<close> with a
  leading size, \<open>dgstd_\<close> with a trailing version byte). A \<open>*_serialize_into\<close> is modelled by the bytes it
  stores from its first argument on; a \<open>*_deserialize_into(obj, buf, sz)\<close> by a function of the \<open>sz\<close>
  bytes at \<open>buf\<close>.
\<close>

unbundle bit_operations_syntax

section \<open>murmur_hash_base\<close>

type_synonym u64 = "64 word"
type_synonym hash_type = "u64 \<times> u64"

definition rotl64 :: "u64 \<Rightarrow> nat \<Rightarrow> u64" where
  "rotl64 x r = push_bit r x OR drop_bit (64 - r) x"

definition fmix64 :: "u64 \<Rightarrow> u64" where
  "fmix64 k0 =
     (let k1 = k0 XOR drop_bit 33 k0;
          k2 = k1 * 0xff51afd7ed558ccd;
          k3 = k2 XOR drop_bit 33 k2;
          k4 = k3 * 0xc4ceb9fe1a85ec53
      in k4 XOR drop_bit 33 k4)"

definition murmur_c1 :: u64 where "murmur_c1 = 0x87c37b91114253d5"
definition murmur_c2 :: u64 where "murmur_c2 = 0x4cf5ad432745937f"

definition load_u64 :: "bytes \<Rightarrow> nat \<Rightarrow> u64" where
  "load_u64 buf pos = word_of_int (le_uint (take 8 (drop pos buf)))"

definition murmur_block :: "bytes \<Rightarrow> nat \<Rightarrow> hash_type \<Rightarrow> hash_type" where
  "murmur_block buf i h = (case h of (h1, h2) \<Rightarrow>
     let k1 = load_u64 buf ((i * 2 + 0) * 8);
         k2 = load_u64 buf ((i * 2 + 1) * 8);
         k1 = rotl64 (k1 * murmur_c1) 31 * murmur_c2;
         h1 = rotl64 (h1 XOR k1) 27 + h2;
         h1 = h1 * 5 + 0x52dce729;
         k2 = rotl64 (k2 * murmur_c2) 33 * murmur_c1;
         h2 = rotl64 (h2 XOR k2) 31 + h1;
         h2 = h2 * 5 + 0x38495ab5
     in (h1, h2))"

text \<open>The cases of the \<open>switch (len & 15)\<close> fall through from the remainder down to case 9 and case 1.\<close>

definition murmur_tail_byte :: "bytes \<Rightarrow> nat \<Rightarrow> nat \<Rightarrow> u64 \<Rightarrow> u64" where
  "murmur_tail_byte tail_bytes r n k =
     (if n \<le> r then k XOR push_bit (8 * ((n - 1) mod 8)) (ucast (tail_bytes ! (n - 1))) else k)"

definition murmur_tail :: "bytes \<Rightarrow> nat \<Rightarrow> hash_type \<Rightarrow> hash_type" where
  "murmur_tail tail_bytes r h = (case h of (h1, h2) \<Rightarrow>
     let k2 = fold (murmur_tail_byte tail_bytes r) [15, 14, 13, 12, 11, 10, 9] 0;
         h2 = (if 9 \<le> r then h2 XOR (rotl64 (k2 * murmur_c2) 33 * murmur_c1) else h2);
         k1 = fold (murmur_tail_byte tail_bytes r) [8, 7, 6, 5, 4, 3, 2, 1] 0;
         h1 = (if 1 \<le> r then h1 XOR (rotl64 (k1 * murmur_c1) 31 * murmur_c2) else h1)
     in (h1, h2))"

definition murmur_hash_base :: "bytes \<Rightarrow> 32 word \<Rightarrow> hash_type" where
  "murmur_hash_base buf seed =
     (let len = length buf; nblocks = len div 16;
          h = fold (murmur_block buf) [0..<nblocks] (ucast seed, ucast seed);
          (h1, h2) = murmur_tail (drop (nblocks * 16) buf) (len mod 16) h;
          h1 = h1 XOR of_nat len;
          h2 = h2 XOR of_nat len;
          h1 = h1 + h2;
          h2 = h2 + h1;
          h1 = fmix64 h1;
          h2 = fmix64 h2;
          h1 = h1 + h2;
          h2 = h2 + h1
      in (h1, h2))"

definition hash :: "bytes \<Rightarrow> 32 word \<Rightarrow> hash_type" where
  "hash buf secret = murmur_hash_base buf secret"

section \<open>serialize and deserialize\<close>

definition serialize_into :: "endian \<Rightarrow> ty \<Rightarrow> val \<Rightarrow> bytes result" where
  "serialize_into nt t obj = Forward_put nt t obj"

definition deserialize_into :: "endian \<Rightarrow> ty \<Rightarrow> val parser" where
  "deserialize_into nt t = Backward_put nt t"

definition serialize :: "endian \<Rightarrow> ty \<Rightarrow> val \<Rightarrow> bytes result" where
  "serialize nt t obj = bindR (Counter_count nt t obj) (\<lambda>n.
     bindR (serialize_into nt t obj) (fill n))"

definition deserialize :: "endian \<Rightarrow> ty \<Rightarrow> bytes \<Rightarrow> val result" where
  "deserialize nt t stream = bindR (deserialize_into nt t stream) (\<lambda>(rs, _). Inr rs)"

text \<open>\<open>types::hash_type\<close> as a static type: a pair of \<open>uint64_t\<close>, 16 bytes on the wire.\<close>

definition hash_ty :: ty where
  "hash_ty = TTuple [TArith (UInt 8), TArith (UInt 8)]"

definition hash_val :: "hash_type \<Rightarrow> val" where
  "hash_val h = VTuple [VInt (uint (fst h)), VInt (uint (snd h))]"

definition hash_size :: nat where
  "hash_size = 16"

section \<open>The integrity frame\<close>

definition integrity_size :: "endian \<Rightarrow> ty \<Rightarrow> val \<Rightarrow> nat result" where
  "integrity_size nt t obj = bindR (Counter_count nt t obj) (\<lambda>n. Inr (n + hash_size))"

definition integrity_serialize_into :: "endian \<Rightarrow> 32 word \<Rightarrow> ty \<Rightarrow> val \<Rightarrow> bytes result" where
  "integrity_serialize_into nt secret t obj =
     bindR (serialize_into nt t obj) (\<lambda>content.
       bindR (serialize_into nt hash_ty (hash_val (hash content secret))) (\<lambda>hashed.
         Inr (content @ hashed)))"

definition integrity_deserialize_into :: "endian \<Rightarrow> 32 word \<Rightarrow> ty \<Rightarrow> bytes \<Rightarrow> val result" where
  "integrity_deserialize_into nt secret t buf =
     (if length buf < hash_size then Inl Corrupted_format
      else
        let content_sz = length buf - hash_size;
            content = take content_sz buf;
            reality = hash content secret
        in bindR (deserialize_into nt hash_ty (drop content_sz buf)) (\<lambda>(expecting, _).
          if expecting \<noteq> hash_val reality then Inl Corrupted_format
          else read_exactly (SafeBackward_put nt t) content))"

definition integrity_serialize :: "endian \<Rightarrow> 32 word \<Rightarrow> ty \<Rightarrow> val \<Rightarrow> bytes result" where
  "integrity_serialize nt secret t obj = bindR (integrity_size nt t obj) (\<lambda>n.
     bindR (integrity_serialize_into nt secret t obj) (fill n))"

definition integrity_deserialize :: "endian \<Rightarrow> 32 word \<Rightarrow> ty \<Rightarrow> bytes \<Rightarrow> val result" where
  "integrity_deserialize nt secret t stream = integrity_deserialize_into nt secret t stream"

section \<open>The capintegrity frame\<close>

definition capintegrity_size :: "endian \<Rightarrow> ty \<Rightarrow> val \<Rightarrow> nat result" where
  "capintegrity_size nt t obj = bindR (integrity_size nt t obj) (\<lambda>n. Inr (8 + n))"

definition capintegrity_serialize_into :: "endian \<Rightarrow> 32 word \<Rightarrow> ty \<Rightarrow> val \<Rightarrow> bytes result" where
  "capintegrity_serialize_into nt secret t obj =
     bindR (integrity_serialize_into nt secret t obj) (\<lambda>frame.
       bindR (serialize_into nt (TArith (UInt 8)) (VInt (int (length frame)))) (\<lambda>sz. Inr (sz @ frame)))"

definition capintegrity_deserialize_into :: "endian \<Rightarrow> 32 word \<Rightarrow> ty \<Rightarrow> val parser" where
  "capintegrity_deserialize_into nt secret t buf =
     (if length buf < 8 then Inl Corrupted_format
      else bindR (deserialize_into nt (TArith (UInt 8)) buf) (\<lambda>(obj_sz, first).
        if as_nat obj_sz > length first then Inl Corrupted_format
        else bindR (integrity_deserialize_into nt secret t (take (as_nat obj_sz) first)) (\<lambda>obj.
          Inr (obj, drop (as_nat obj_sz) first))))"

section \<open>The dgstd frame\<close>

definition SERIALIZATION_VERSION_CONTROL :: int where
  "SERIALIZATION_VERSION_CONTROL = 1"

definition version_ty :: ty where
  "version_ty = TArith (UInt 1)"

definition dgstd_size :: "endian \<Rightarrow> ty \<Rightarrow> val \<Rightarrow> nat result" where
  "dgstd_size nt t obj = bindR (DgStdCounter_count nt t obj) (\<lambda>n. Inr (n + hash_size + 1))"

definition dgstd_serialize_into :: "endian \<Rightarrow> 32 word \<Rightarrow> ty \<Rightarrow> val \<Rightarrow> bytes result" where
  "dgstd_serialize_into nt secret t obj =
     bindR (DgStdForward_put nt t obj) (\<lambda>content.
       bindR (serialize_into nt hash_ty (hash_val (hash content secret))) (\<lambda>hashed.
         bindR (serialize_into nt version_ty (VInt SERIALIZATION_VERSION_CONTROL)) (\<lambda>version.
           Inr (content @ hashed @ version))))"

definition dgstd_deserialize_into :: "endian \<Rightarrow> 32 word \<Rightarrow> ty \<Rightarrow> bytes \<Rightarrow> val result" where
  "dgstd_deserialize_into nt secret t buf =
     (if length buf < hash_size + 1 then Inl Corrupted_format
      else
        let content_sz = length buf - (hash_size + 1);
            content = take content_sz buf;
            reality_value = hash content secret
        in bindR (deserialize_into nt hash_ty (drop content_sz buf)) (\<lambda>(expecting_value, version_first).
          bindR (deserialize_into nt version_ty version_first) (\<lambda>(cur_ver, _).
            if cur_ver \<noteq> VInt SERIALIZATION_VERSION_CONTROL then Inl Bad_version_control
            else if expecting_value \<noteq> hash_val reality_value then Inl Corrupted_format
            else read_exactly (DgStdBackward_put nt t) content)))"

definition dgstd_serialize :: "endian \<Rightarrow> 32 word \<Rightarrow> ty \<Rightarrow> val \<Rightarrow> bytes result" where
  "dgstd_serialize nt secret t obj = bindR (dgstd_size nt t obj) (\<lambda>n.
     bindR (dgstd_serialize_into nt secret t obj) (fill n))"

definition dgstd_deserialize :: "endian \<Rightarrow> 32 word \<Rightarrow> ty \<Rightarrow> bytes \<Rightarrow> val result" where
  "dgstd_deserialize nt secret t stream = dgstd_deserialize_into nt secret t stream"

section \<open>The archives meet their contracts\<close>

definition plain_object :: "ty \<Rightarrow> val \<Rightarrow> bool" where
  "plain_object t v \<longleftrightarrow> has_type t v \<and> wrap_free t"

definition dgstd_object :: "ty \<Rightarrow> val \<Rightarrow> bool" where
  "dgstd_object t v \<longleftrightarrow> has_type t v \<and> dgstd_type t"

interpretation trusting: archive plain_object "Counter_count nt" "Forward_put nt" "Backward_put nt"
  for nt
  by unfold_locales
    (auto simp: plain_object_def Forward_total_all Forward_Counter_all Backward_Forward_all)

interpretation checked: safe_archive plain_object "Counter_count nt" "Forward_put nt" "SafeBackward_put nt"
  for nt
  by unfold_locales
    (auto simp: plain_object_def Forward_total_all Forward_Counter_all SafeBackward_Forward_all
      SafeBackward_in_bounds_all SafeBackward_consumes_all)

interpretation dgstd: safe_archive dgstd_object "DgStdCounter_count nt" "DgStdForward_put nt"
  "DgStdBackward_put nt" for nt
  by unfold_locales
    (auto simp: dgstd_object_def DgStdForward_total_all DgStdForward_Counter_all
      DgStdBackward_Forward_all DgStdBackward_in_bounds_all DgStdBackward_consumes_all)

section \<open>Frames: shared lemmas\<close>

lemma hash_val_object: "plain_object hash_ty (hash_val h)"
proof -
  have "uint (x :: u64) < 256 ^ 8" for x using uint_lt2p [of x] by simp
  then show ?thesis by (cases h) (simp add: plain_object_def hash_ty_def hash_val_def)
qed

lemma hash_val_inject: "hash_val h = hash_val h' \<longleftrightarrow> h = h'"
  by (cases h; cases h') (auto simp: hash_val_def intro: word_uint_eqI)

lemma hash_put:
  obtains hb where "serialize_into nt hash_ty (hash_val h) = Inr hb" and "length hb = hash_size"
proof -
  obtain hb where hb: "Forward_put nt hash_ty (hash_val h) = Inr hb"
    using trusting.put_total [OF hash_val_object] by blast
  moreover have "Counter_count nt hash_ty (hash_val h) = Inr 16"
    by (simp add: hash_ty_def hash_val_def counter_defs)
  ultimately show ?thesis
    using trusting.size_of_put [OF hb] by (intro that) (simp_all add: serialize_into_def hash_size_def)
qed

lemma hash_get:
  "serialize_into nt hash_ty (hash_val h) = Inr hb
   \<Longrightarrow> deserialize_into nt' hash_ty (hb @ rest) = Inr (hash_val h, rest)"
  using trusting.get_put [OF hash_val_object] Forward_native_all(1) [of nt hash_ty "hash_val h" nt']
  by (simp add: serialize_into_def deserialize_into_def)

lemma Counter_native:
  assumes "Forward_put nt t v = Inr bs"
  shows "Counter_count nt' t v = Inr (length bs)"
  using assms trusting.size_of_put Forward_native_all(1) [of nt t v nt'] by metis

lemma integrity_frame_ok:
  assumes v: "plain_object t v" and bs: "integrity_serialize_into nt secret t v = Inr bs"
  shows "integrity_deserialize_into nt' secret t bs = Inr v"
    and "integrity_size nt t v = Inr (length bs)"
proof -
  obtain content where content: "Forward_put nt t v = Inr content"
    using trusting.put_total [OF v] by blast
  obtain hb where hb: "serialize_into nt hash_ty (hash_val (hash content secret)) = Inr hb"
    and len: "length hb = hash_size" by (rule hash_put)
  have eq: "bs = content @ hb"
    using bs content hb by (simp add: integrity_serialize_into_def serialize_into_def)
  have "Forward_put nt' t v = Inr content" using content Forward_native_all(1) by metis
  then have "read_exactly (SafeBackward_put nt' t) content = Inr v"
    using checked.read_exactly_put v by blast
  then show "integrity_deserialize_into nt' secret t bs = Inr v"
    using len hash_get [OF hb, of nt' "[]"]
    by (simp add: integrity_deserialize_into_def eq Let_def)
  show "integrity_size nt t v = Inr (length bs)"
    using trusting.size_of_put [OF content] by (simp add: integrity_size_def eq len)
qed

lemma integrity_total:
  assumes "plain_object t v"
  shows "\<exists>bs. integrity_serialize_into nt secret t v = Inr bs"
proof -
  obtain content where content: "Forward_put nt t v = Inr content"
    using trusting.put_total [OF assms] by blast
  obtain hb where "serialize_into nt hash_ty (hash_val (hash content secret)) = Inr hb"
    by (rule hash_put)
  with content show ?thesis by (simp add: integrity_serialize_into_def serialize_into_def)
qed

lemma Backward_tuple_u64_in_bounds:
  assumes "hash_size \<le> length bs"
  shows "\<exists>a b. deserialize_into nt hash_ty bs = Inr (VTuple [VInt a, VInt b], drop hash_size bs)"
  using assms
  by (simp add: deserialize_into_def hash_ty_def hash_size_def Backward_tuple_def bindP_def
      Backward_arithmetic_def load_eq)

lemma SafeBackward_total_outcome: "read_exactly (SafeBackward_put nt t) bs \<noteq> Inl Out_of_bounds"
  by (rule checked.read_exactly_in_bounds)

lemma version_get:
  assumes "bs \<noteq> []"
  shows "deserialize_into nt version_ty bs = Inr (VInt (uint (hd bs)), tl bs)"
  using assms by (cases bs) (simp_all add: deserialize_into_def version_ty_def
      Backward_arithmetic_def load_eq)

lemma version_put: "serialize_into nt version_ty (VInt SERIALIZATION_VERSION_CONTROL) = Inr [1]"
  by (simp add: serialize_into_def version_ty_def SERIALIZATION_VERSION_CONTROL_def
      Forward_arithmetic_eq)

lemma dgstd_frame_bytes:
  assumes "dgstd_serialize_into nt secret t v = Inr bs"
  obtains content hb where "DgStdForward_put nt t v = Inr content" and "bs = content @ hb @ [1]"
    and "serialize_into nt hash_ty (hash_val (hash content secret)) = Inr hb"
    and "length hb = hash_size"
proof -
  obtain content where content: "DgStdForward_put nt t v = Inr content"
    using assms by (auto simp: dgstd_serialize_into_def bindR_eq_Inr)
  obtain hb where hb: "serialize_into nt hash_ty (hash_val (hash content secret)) = Inr hb"
    and len: "length hb = hash_size" by (rule hash_put)
  have "bs = content @ hb @ [1]"
    using assms content hb by (simp add: dgstd_serialize_into_def version_put)
  then show ?thesis by (rule that [OF content _ hb len])
qed

lemma dgstd_frame_read:
  assumes "dgstd_serialize_into nt secret t v = Inr bs" and "DgStdForward_put nt t v = Inr content"
  shows "dgstd_deserialize_into nt' secret u bs = read_exactly (DgStdBackward_put nt' u) content"
proof -
  obtain c hb where "DgStdForward_put nt t v = Inr c" and "bs = c @ hb @ [1]"
    and "serialize_into nt hash_ty (hash_val (hash c secret)) = Inr hb" and len: "length hb = hash_size"
    by (rule dgstd_frame_bytes [OF assms(1)])
  then have bs: "bs = content @ hb @ [1]"
    and hb: "serialize_into nt hash_ty (hash_val (hash content secret)) = Inr hb"
    using assms(2) by auto
  show ?thesis
    using len hash_get [OF hb, of nt' "[1]"]
    by (simp add: dgstd_deserialize_into_def bs Let_def version_get SERIALIZATION_VERSION_CONTROL_def)
qed

lemma dgstd_total:
  assumes "dgstd_object t v"
  shows "\<exists>bs. dgstd_serialize_into nt secret t v = Inr bs"
proof -
  obtain content where content: "DgStdForward_put nt t v = Inr content"
    using dgstd.put_total [OF assms] by blast
  obtain hb where "serialize_into nt hash_ty (hash_val (hash content secret)) = Inr hb"
    by (rule hash_put)
  with content show ?thesis by (simp add: dgstd_serialize_into_def version_put)
qed

lemma dgstd_frame_size:
  assumes "dgstd_serialize_into nt secret t v = Inr bs"
  shows "dgstd_size nt t v = Inr (length bs)"
proof -
  obtain content hb where content: "DgStdForward_put nt t v = Inr content"
    and "bs = content @ hb @ [1]" and "length hb = hash_size"
    by (rule dgstd_frame_bytes [OF assms])
  then show ?thesis
    using dgstd.size_of_put [OF content] by (simp add: dgstd_size_def)
qed

lemma dgstd_serialize_eq: "dgstd_serialize_into nt secret t v = Inr bs \<Longrightarrow> dgstd_serialize nt secret t v = Inr bs"
  by (simp add: dgstd_serialize_def dgstd_frame_size fill_exact)

lemma dgstd_serialize_iff:
  "dgstd_object t v \<Longrightarrow> dgstd_serialize nt secret t v = Inr bs
   \<longleftrightarrow> dgstd_serialize_into nt secret t v = Inr bs"
  using dgstd_total [of t v nt secret] dgstd_serialize_eq [of nt secret t v] by auto

lemma integrity_serialize_eq:
  "plain_object t v \<Longrightarrow> integrity_serialize nt secret t v = integrity_serialize_into nt secret t v"
  using integrity_total [of t v nt secret] integrity_frame_ok(2) [of t v nt secret]
  by (auto simp: integrity_serialize_def fill_exact)

lemma serialize_eq: "plain_object t v \<Longrightarrow> serialize nt t v = Forward_put nt t v"
  using trusting.put_total [of t v nt] trusting.size_of_put [of nt t v]
  by (auto simp: serialize_def serialize_into_def fill_exact)

interpretation integrity_codec: stream_codec "plain_object t" "integrity_serialize nt secret t"
  "integrity_deserialize nt' secret t" for t nt nt' secret
proof unfold_locales
  fix v assume v: "plain_object t v"
  obtain bs where "integrity_serialize_into nt secret t v = Inr bs"
    using integrity_total [OF v] by blast
  then show "\<exists>bs. integrity_serialize nt secret t v = Inr bs \<and> integrity_deserialize nt' secret t bs = Inr v"
    using v by (simp add: integrity_serialize_eq integrity_deserialize_def integrity_frame_ok)
qed

interpretation dgstd_codec: stream_codec "dgstd_object t" "dgstd_serialize nt secret t"
  "dgstd_deserialize nt secret t" for t nt secret
proof unfold_locales
  fix v assume v: "dgstd_object t v"
  obtain bs where bs: "dgstd_serialize_into nt secret t v = Inr bs"
    using dgstd_total [OF v] by blast
  obtain content where content: "DgStdForward_put nt t v = Inr content"
    using dgstd.put_total [OF v] by blast
  show "\<exists>bs. dgstd_serialize nt secret t v = Inr bs \<and> dgstd_deserialize nt secret t bs = Inr v"
    using dgstd_serialize_eq [OF bs] dgstd_frame_read [OF bs content]
      dgstd.read_exactly_put [OF v content]
    by (simp add: dgstd_deserialize_def)
qed

end
