(* ===== verification/Serializer_Properties.thy ===== *)
theory Serializer_Properties
  imports Compact_Frames
begin

text \<open>
  The properties of the compact serializer: round trips of its archives and frames, safety of the
  checked readers on arbitrary bytes, the relation between the two readers, independence of the
  machine, and the errors.
\<close>

abbreviation u8_ty :: ty where "u8_ty \<equiv> TArith (UInt 1)"
abbreviation u16_ty :: ty where "u16_ty \<equiv> TArith (UInt 2)"

abbreviation sample_ty :: ty where
  "sample_ty \<equiv> TReflect [TOptional u16_ty, TContainer Vector (TArith (SInt 2)), TVariant [TArith Bool, u16_ty]]"

abbreviation sample_val :: val where
  "sample_val \<equiv> VTuple [VSome (VInt 513), VSeq [VInt (- 2), VInt 7], VAlt 1 (VInt 300)]"

lemma sample_has_type: "has_type sample_ty sample_val"
  by (simp add: content_ok_def is_linear_def elem_width_def max_bytes_def)

lemma sample_plain: "plain_object sample_ty sample_val"
  using sample_has_type by (simp add: plain_object_def)

lemma sample_dgstd: "dgstd_object sample_ty sample_val"
  using sample_has_type by (simp add: dgstd_object_def)

section \<open>The plain archive\<close>

text \<open>
  C2: \<open>serialize\<close> and \<open>deserialize\<close> are inverse. For every object of every static type the
  serializer has overloads for, \<open>serialize\<close> succeeds, the stream it returns has the size
  \<open>Counter\<close> computed, and \<open>deserialize\<close> on any machine (also one of the other byte order) gives the
  object back.
\<close>

theorem serialize_roundtrip:
  assumes "plain_object t v"
  shows "\<exists>bs. serialize nt t v = Inr bs \<and> Counter_count nt t v = Inr (length bs)
    \<and> deserialize nt' t bs = Inr v"
proof -
  obtain bs where bs: "Forward_put nt t v = Inr bs" using trusting.put_total [OF assms] by blast
  then have "Forward_put nt' t v = Inr bs" using Forward_native_all(1) by metis
  then show ?thesis
    using bs assms trusting.size_of_put [OF bs] trusting.get_whole [OF assms]
    by (auto simp: serialize_eq deserialize_def deserialize_into_def)
qed

theorem serialize_roundtrip_witness:
  "plain_object sample_ty sample_val
   \<and> (\<exists>bs. serialize Little sample_ty sample_val = Inr bs \<and> deserialize Big sample_ty bs = Inr sample_val)"
  using sample_plain serialize_roundtrip [OF sample_plain, of Little Big] by blast

text \<open>
  the checked reader is self-delimiting. \<open>SafeBackward\<close> applied to the bytes of an object
  followed by anything returns the object and leaves exactly what followed, so objects can be
  stored one after the other.
\<close>

theorem SafeBackward_put_Forward_put:
  assumes "plain_object t v" and "Forward_put nt t v = Inr bs"
  shows "SafeBackward_put nt' t (bs @ rest) = Inr (v, rest)"
  using assms checked.get_put [of t v nt' bs rest] Forward_native_all(1) [of nt t v nt'] by simp

theorem SafeBackward_put_Forward_put_witness:
  "SafeBackward_put Big u16_ty ([1, 2] @ [9]) = Inr (VInt 513, [9])"
proof (rule SafeBackward_put_Forward_put)
  show "plain_object u16_ty (VInt 513)" by (simp add: plain_object_def)
  show "Forward_put Little u16_ty (VInt 513) = Inr [1, 2]"
    by (simp add: Forward_arithmetic_eq le_bytes_numeral)
qed

text \<open>
  C1: the checked reader is safe. On arbitrary bytes and for every static type, \<open>SafeBackward\<close>
  never reads outside its buffer, whatever the sizes and indices stored in the bytes say (the
  wrap-around of \<open>sz * sizeof(elem_type)\<close> included), and what it leaves is a suffix of the buffer.
\<close>

theorem SafeBackward_put_safe:
  "SafeBackward_put nt t bs \<noteq> Inl Out_of_bounds
   \<and> (case SafeBackward_put nt t bs of Inl e \<Rightarrow> True | Inr (v, rest) \<Rightarrow> suffix_of rest bs)"
  using checked.get_in_bounds [of nt t] checked.get_consumes [of nt t]
  by (auto simp: in_bounds_def consumes_def suffix_of_def split: sum.splits)

text \<open>
  the checked reader refines the unchecked one. Whenever \<open>SafeBackward\<close> accepts, \<open>Backward\<close>
  reads the same object from the same bytes and stops at the same place, unless it refuses to
  reserve a container larger than \<open>max_size()\<close>.
\<close>

theorem SafeBackward_refines_Backward:
  assumes "SafeBackward_put nt t bs = Inr (v, rest)"
  shows "Backward_put nt t bs = Inr (v, rest) \<or> Backward_put nt t bs = Inl Length_error"
  using assms by (rule refines_butD [OF SafeBackward_refines_all(1)])

theorem SafeBackward_refines_Backward_witness:
  "Backward_put Little (TOptional u8_ty) [1, 5] = Inr (VSome (VInt 5), [])"
proof -
  have "SafeBackward_put Little (TOptional u8_ty) [1, 5] = Inr (VSome (VInt 5), [])"
    by (simp add: SafeBackward_optional_def SafeBackward_arithmetic_def bindP_def load_eq)
  from SafeBackward_refines_Backward [OF this] show ?thesis
    by (simp add: Backward_optional_def Backward_arithmetic_def bindP_def load_eq)
qed

text \<open>
  the plain format is portable. \<open>Forward\<close> writes the same bytes on a little-endian machine, where
  arrays of integers are copied with \<open>memcpy\<close>, and on a big-endian one, where values are byte-swapped
  and arrays are written element by element: the two container overloads are inter-compatible.
\<close>

theorem Forward_put_portable: "Forward_put Big t v = Forward_put Little t v"
  by (rule Forward_native_all(1))

text \<open>
  encodings are prefix-free. Two objects of one type whose streams start the same way are the
  same object.
\<close>

theorem Forward_put_prefix_free:
  assumes "plain_object t v" and "plain_object t w"
    and "Forward_put nt t v = Inr bs" and "Forward_put nt t w = Inr bs'"
    and "bs @ rest = bs' @ rest'"
  shows "v = w \<and> rest = rest'"
  using checked.put_prefix_free [OF assms] by blast

theorem Forward_put_prefix_free_witness:
  "VInt 513 = VInt 513 \<and> [3] = [3::byte]"
proof (rule Forward_put_prefix_free)
  show "plain_object u16_ty (VInt 513)" and "plain_object u16_ty (VInt 513)"
    by (simp_all add: plain_object_def)
  show "Forward_put Little u16_ty (VInt 513) = Inr [1, 2]" and "Forward_put Little u16_ty (VInt 513) = Inr [1, 2]"
    by (simp_all add: Forward_arithmetic_eq le_bytes_numeral)
qed simp

text \<open>
  a variant without a value is refused. For a variant whose \<open>index()\<close> is \<open>variant_npos\<close>, counting
  and writing throw \<open>bad_format\<close>, in both archives, before anything is stored.
\<close>

theorem valueless_variant_bad_format:
  "Counter_count nt (TVariant ts) VValueless = Inl Bad_format
   \<and> Forward_put nt (TVariant ts) VValueless = Inl Bad_format
   \<and> DgStdCounter_count nt (TVariant ts) VValueless = Inl Bad_format
   \<and> DgStdForward_put nt (TVariant ts) VValueless = Inl Bad_format"
  by (simp add: Counter_variant_def Forward_variant_def DgStdCounter_variant_def
      DgStdForward_variant_def variant_index_def variant_npos_bad)

section \<open>The integrity frames\<close>

text \<open>
  \<open>integrity_serialize\<close> and \<open>integrity_deserialize\<close> are inverse for every secret, on any pair of
  machines.
\<close>

theorem integrity_roundtrip:
  assumes "plain_object t v"
  shows "\<exists>bs. integrity_serialize nt secret t v = Inr bs \<and> integrity_deserialize nt' secret t bs = Inr v"
  using assms by (rule integrity_codec.dec_enc)

theorem integrity_roundtrip_witness:
  "\<exists>bs. integrity_serialize Little 7 sample_ty sample_val = Inr bs
     \<and> integrity_deserialize Big 7 sample_ty bs = Inr sample_val"
  by (rule integrity_roundtrip [OF sample_plain])

text \<open>
  C7: what \<open>integrity_deserialize_into\<close> does with an arbitrary stream. It never leaves the buffer; and
  it returns an object only when the last 16 bytes are the digest, under the secret, of the bytes
  before them and those bytes are consumed completely.
\<close>

theorem integrity_deserialize_authentic:
  "integrity_deserialize_into nt secret t bs \<noteq> Inl Out_of_bounds
   \<and> (\<forall>v. integrity_deserialize_into nt secret t bs = Inr v \<longrightarrow>
       (\<exists>content. length bs = length content + hash_size \<and> take (length content) bs = content
          \<and> Backward_put nt hash_ty (drop (length content) bs) = Inr (hash_val (hash content secret), [])
          \<and> SafeBackward_put nt t content = Inr (v, [])))"
proof (cases "length bs < hash_size")
  case True
  then show ?thesis by (simp add: integrity_deserialize_into_def)
next
  case False
  let ?n = "length bs - hash_size"
  have n: "hash_size \<le> length (drop ?n bs)" using False by simp
  obtain a b where h: "deserialize_into nt hash_ty (drop ?n bs)
      = Inr (VTuple [VInt a, VInt b], drop hash_size (drop ?n bs))"
    using Backward_tuple_u64_in_bounds [OF n] by blast
  have "drop hash_size (drop ?n bs) = []" using False by simp
  then show ?thesis
    using h False SafeBackward_total_outcome [of nt t "take ?n bs"]
    by (auto simp: integrity_deserialize_into_def Let_def deserialize_into_def read_exactly_def
        bindR_eq_Inr split: if_splits intro!: exI [of _ "take ?n bs"])
qed

theorem integrity_deserialize_authentic_witness:
  "\<exists>bs content. integrity_serialize Little 7 sample_ty sample_val = Inr bs
     \<and> length bs = length content + hash_size \<and> take (length content) bs = content
     \<and> SafeBackward_put Big sample_ty content = Inr (sample_val, [])"
proof -
  obtain bs where bs: "integrity_serialize Little 7 sample_ty sample_val = Inr bs"
    "integrity_deserialize Big 7 sample_ty bs = Inr sample_val"
    using integrity_codec.dec_enc [OF sample_plain] by blast
  then have "integrity_deserialize_into Big 7 sample_ty bs = Inr sample_val"
    by (simp add: integrity_deserialize_def)
  with integrity_deserialize_authentic [of Big 7 sample_ty bs] bs(1) show ?thesis by blast
qed

text \<open>
  the size-prefixed frame is self-delimiting. \<open>capintegrity_deserialize_into\<close> returns the object and
  a pointer to what follows the frame.
\<close>

theorem capintegrity_roundtrip:
  assumes "plain_object t v" and "capintegrity_serialize_into nt secret t v = Inr bs"
    and "length bs < 2 ^ 64"
  shows "capintegrity_deserialize_into nt' secret t (bs @ rest) = Inr (v, rest)
    \<and> capintegrity_size nt t v = Inr (length bs)"
proof -
  obtain frame sz where frame: "integrity_serialize_into nt secret t v = Inr frame"
    and sz: "serialize_into nt (TArith (UInt 8)) (VInt (int (length frame))) = Inr sz"
    and bs: "bs = sz @ frame"
    using assms(2) by (auto simp: capintegrity_serialize_into_def bindR_eq_Inr)
  have len: "length sz = 8"
    using sz by (auto simp: serialize_into_def Forward_arithmetic_def dest: dump_length)
  have typed: "plain_object (TArith (UInt 8)) (VInt (int (length frame)))"
    using assms(3) bs by (simp add: plain_object_def)
  have sz': "Forward_put nt' (TArith (UInt 8)) (VInt (int (length frame))) = Inr sz"
    using sz Forward_native_all(1) by (metis serialize_into_def)
  have "deserialize_into nt' (TArith (UInt 8)) (sz @ (frame @ rest)) = Inr (VInt (int (length frame)), frame @ rest)"
    using trusting.get_put [OF typed sz'] by (simp add: deserialize_into_def)
  then show ?thesis
    using integrity_frame_ok [OF assms(1) frame] len
    by (simp add: capintegrity_deserialize_into_def capintegrity_size_def bs)
qed

theorem capintegrity_roundtrip_witness:
  "\<exists>bs. capintegrity_serialize_into Little 7 u8_ty (VInt 5) = Inr bs
     \<and> capintegrity_deserialize_into Little 7 u8_ty (bs @ [1, 2]) = Inr (VInt 5, [1, 2])"
proof -
  have v: "plain_object u8_ty (VInt 5)" by (simp add: plain_object_def)
  obtain frame where frame: "integrity_serialize_into Little 7 u8_ty (VInt 5) = Inr frame"
    using integrity_total [OF v] by blast
  have len: "length frame = 17"
    using integrity_frame_ok(2) [OF v frame]
    by (simp add: integrity_size_def Counter_arithmetic_def hash_size_def)
  have "plain_object (TArith (UInt 8)) (VInt (int (length frame)))"
    using len by (simp add: plain_object_def)
  then obtain sz where sz: "Forward_put Little (TArith (UInt 8)) (VInt (int (length frame))) = Inr sz"
    using trusting.put_total by blast
  have bs: "capintegrity_serialize_into Little 7 u8_ty (VInt 5) = Inr (sz @ frame)"
    using frame sz by (simp add: capintegrity_serialize_into_def serialize_into_def)
  have "length sz = 8" using sz by (auto simp: Forward_arithmetic_def dest: dump_length)
  then have "length (sz @ frame) < 2 ^ 64" using len by simp
  from capintegrity_roundtrip [OF v bs this, of Little "[1, 2]"] bs show ?thesis by blast
qed

section \<open>The self-describing archive\<close>

text \<open>
  C39: \<open>dgstd_serialize\<close> and \<open>dgstd_deserialize\<close> are inverse on machines of the same byte order, for every
  object of every type with a header, container wrappers with a narrower size field included.
\<close>

theorem dgstd_roundtrip:
  assumes "dgstd_object t v"
  shows "\<exists>bs. dgstd_serialize nt secret t v = Inr bs \<and> dgstd_deserialize nt secret t bs = Inr v"
  using assms by (rule dgstd_codec.dec_enc)

theorem dgstd_roundtrip_witness:
  "\<exists>bs. dgstd_serialize Little 0 sample_ty sample_val = Inr bs
     \<and> dgstd_deserialize Little 0 sample_ty bs = Inr sample_val"
  by (rule dgstd_roundtrip [OF sample_dgstd])

text \<open>
  the self-describing reader is safe. On arbitrary bytes \<open>DgStdBackward\<close> never reads outside its
  buffer and what it leaves is a suffix of the buffer.
\<close>

theorem DgStdBackward_put_safe:
  "DgStdBackward_put nt t bs \<noteq> Inl Out_of_bounds
   \<and> (case DgStdBackward_put nt t bs of Inl e \<Rightarrow> True | Inr (v, rest) \<Rightarrow> suffix_of rest bs)"
  using dgstd.get_in_bounds [of nt t] dgstd.get_consumes [of nt t]
  by (auto simp: in_bounds_def consumes_def suffix_of_def split: sum.splits)

text \<open>
  a stream of another composite type is refused. When an object of a composite type is written by
  \<open>dgstd_serialize\<close> and read back as a composite type with a different header, \<open>dgstd_deserialize\<close>
  throws \<open>corrupted_format\<close>, although digest and version are right.
\<close>

theorem dgstd_type_confusion_refused:
  assumes "\<nexists>a. t = TArith a" and "\<nexists>a. u = TArith a"
    and "get_dgstd_serialization_header t \<noteq> get_dgstd_serialization_header u"
    and "dgstd_object t v" and "dgstd_serialize nt secret t v = Inr bs"
  shows "dgstd_deserialize nt secret u bs = Inl Corrupted_format"
proof -
  have into: "dgstd_serialize_into nt secret t v = Inr bs"
    using assms(4,5) by (simp add: dgstd_serialize_iff)
  obtain content where content: "DgStdForward_put nt t v = Inr content"
    using dgstd.put_total [OF assms(4)] by blast
  obtain h bs' where h: "DgStdForward_header nt t = Inr h" and bs': "content = h @ bs'"
    by (rule DgStdForward_put_header [OF assms(1) content])
  obtain x where "get_dgstd_serialization_header u = Inr x"
    using header_cases [of u] assms(2) by auto
  then have "DgStdBackward_put nt u content = Inl Corrupted_format"
    using DgStdBackward_header_mismatch [OF h assms(3)] DgStdBackward_put_header [OF assms(2)] bs'
    by blast
  then show ?thesis
    using dgstd_frame_read [OF into content]
    by (simp add: dgstd_deserialize_def read_exactly_def)
qed

theorem dgstd_type_confusion_refused_witness:
  "\<exists>bs. dgstd_serialize Little 0 sample_ty sample_val = Inr bs
     \<and> dgstd_deserialize Little 0 (TTuple [u8_ty]) bs = Inl Corrupted_format"
proof -
  obtain bs where "dgstd_serialize Little 0 sample_ty sample_val = Inr bs"
    using dgstd_codec.enc_total [OF sample_dgstd] by blast
  with dgstd_type_confusion_refused [OF _ _ _ sample_dgstd this, of "TTuple [u8_ty]"] show ?thesis
    by simp
qed

text \<open>
  the version byte is tested first. A stream long enough for digest and version whose last byte is
  not the current version is refused with \<open>bad_version_control\<close>, whatever the digest.
\<close>

theorem dgstd_bad_version:
  assumes "hash_size + 1 \<le> length bs" and "last bs \<noteq> 1"
  shows "dgstd_deserialize nt secret t bs = Inl Bad_version_control"
proof -
  let ?n = "length bs - (hash_size + 1)"
  have n: "hash_size \<le> length (drop ?n bs)" using assms(1) by simp
  obtain a b where h: "deserialize_into nt hash_ty (drop ?n bs)
      = Inr (VTuple [VInt a, VInt b], drop hash_size (drop ?n bs))"
    using Backward_tuple_u64_in_bounds [OF n] by blast
  have len: "length (drop hash_size (drop ?n bs)) = 1" using assms(1) by simp
  then obtain x where x: "drop hash_size (drop ?n bs) = [x]"
    by (metis One_nat_def Suc_length_conv length_0_conv)
  have "last (drop hash_size (drop ?n bs)) = last bs"
    using len by (auto simp del: drop_drop simp: last_drop)
  then have "x \<noteq> 1" using x assms(2) by simp
  then have "uint x \<noteq> 1" by (metis uint_1 word_uint_eqI)
  then show ?thesis
    using assms(1) h x
    by (simp add: dgstd_deserialize_def dgstd_deserialize_into_def Let_def version_get
        SERIALIZATION_VERSION_CONTROL_def del: drop_drop)
qed

theorem dgstd_bad_version_witness:
  "dgstd_deserialize Little 0 u8_ty (replicate 19 0) = Inl Bad_version_control"
  by (rule dgstd_bad_version) (simp_all add: hash_size_def)

text \<open>
  the self-describing format is not portable. A vector of \<open>uint16_t\<close> is copied by a little-endian
  machine behind one element header and written element by element, each with its header, by a
  big-endian one; the two overloads are not inter-compatible, and the big-endian machine refuses the
  stream of the little-endian one.
\<close>

theorem dgstd_not_portable:
  "DgStdForward_put Little (TContainer Vector u16_ty) (VSeq [VInt 1])
     \<noteq> DgStdForward_put Big (TContainer Vector u16_ty) (VSeq [VInt 1])
   \<and> bindR (DgStdForward_put Little (TContainer Vector u16_ty) (VSeq [VInt 1]))
       (DgStdBackward_put Big (TContainer Vector u16_ty)) = Inl Corrupted_format"
  by code_simp

end
