(* ===== verification/Hex_Encoder.thy ===== *)
theory Hex_Encoder
  imports Archive_Interface
begin

text \<open>
  \<open>global_string_encoder/hex_encoder/hex_encoder.h\<close> and the identity encoder: strings to strings of
  hexadecimal digits, the low digit of a byte first, and back. A \<open>char\<close> is its bit pattern (the code
  goes through \<open>bit_cast<uint8_t>\<close>).
\<close>

unbundle bit_operations_syntax

section \<open>Digits\<close>

definition index_to_hex_index :: "byte \<Rightarrow> byte result" where
  "index_to_hex_index index =
     (if index < 10 then Inr (48 + index)
      else if index < 16 then Inr (97 + (index - 10))
      else Inl Invalid_argument)"

definition hex_index_to_index :: "byte \<Rightarrow> byte result" where
  "hex_index_to_index hex_index =
     (let ZERO_INDEX = 48; TEN_INDEX = 48 + 10; A_INDEX = 97; G_INDEX = 97 + 6 in
      if hex_index \<ge> ZERO_INDEX \<and> hex_index < TEN_INDEX then Inr (hex_index - ZERO_INDEX)
      else if hex_index \<ge> A_INDEX \<and> hex_index < G_INDEX then Inr (hex_index - A_INDEX + 10)
      else Inl Invalid_argument)"

section \<open>Strings\<close>

fun hex_encode_into :: "bytes \<Rightarrow> bytes result" where
  "hex_encode_into [] = Inr []"
| "hex_encode_into (numerical_rep # inp) =
     bindR (index_to_hex_index (numerical_rep mod 16)) (\<lambda>lo_hex.
       bindR (index_to_hex_index (numerical_rep div 16)) (\<lambda>hi_hex.
         bindR (hex_encode_into inp) (\<lambda>rs. Inr (lo_hex # hi_hex # rs))))"

definition hex_encode :: "bytes \<Rightarrow> bytes result" where
  "hex_encode inp = bindR (hex_encode_into inp) (fill (length inp * 2))"

text \<open>The loop over \<open>i < iterable_sz\<close>; the second argument is \<open>i\<close>, the third the passes left.\<close>

fun hex_decode_loop :: "bytes \<Rightarrow> nat \<Rightarrow> nat \<Rightarrow> bytes result" where
  "hex_decode_loop hex_str i 0 = Inr []"
| "hex_decode_loop hex_str i (Suc n) =
     (let lo_idx = i * 2; hi_idx = i * 2 + 1 in
      bindR (hex_index_to_index (hex_str ! lo_idx)) (\<lambda>lo.
        bindR (hex_index_to_index (hex_str ! hi_idx)) (\<lambda>hi.
          bindR (hex_decode_loop hex_str (Suc i) n) (\<lambda>rs. Inr ((push_bit 4 hi OR lo) # rs)))))"

definition hex_decode_into :: "bytes \<Rightarrow> bytes result" where
  "hex_decode_into hex_str =
     (if length hex_str mod 2 \<noteq> 0 then Inl Invalid_argument
      else hex_decode_loop hex_str 0 (length hex_str div 2))"

definition hex_decode :: "bytes \<Rightarrow> bytes result" where
  "hex_decode inp = bindR (hex_decode_into inp) (fill (length inp div 2))"

definition identity_encode :: "bytes \<Rightarrow> bytes" where
  "identity_encode inp = inp"

definition identity_decode :: "bytes \<Rightarrow> bytes" where
  "identity_decode inp = inp"

section \<open>Digits are a bijection\<close>

lemma byte_all_upt: "(\<forall>b::byte. P b) \<longleftrightarrow> list_all (\<lambda>n. P (of_nat n)) [0..<256]"
proof (intro iffI allI)
  fix b :: byte
  assume *: "list_all (\<lambda>n. P (of_nat n)) [0..<256]"
  have "unat b < 256" using unsigned_less [of b] by simp
  with * have "P (of_nat (unat b))" by (auto simp only: list_all_iff set_upt atLeastLessThan_iff)
  then show "P b" by simp
qed (simp add: list_all_iff)

lemma nibble_all_upt: "(\<forall>b::byte. b < 16 \<longrightarrow> P b) \<longleftrightarrow> list_all (\<lambda>n. P (of_nat n)) [0..<16]"
proof (intro iffI allI impI)
  fix b :: byte
  assume *: "list_all (\<lambda>n. P (of_nat n)) [0..<16]" and "b < 16"
  then have "unat b < 16" by (simp add: word_less_nat_alt)
  with * have "P (of_nat (unat b))" by (auto simp only: list_all_iff set_upt atLeastLessThan_iff)
  then show "P b" by simp
next
  assume *: "\<forall>b::byte. b < 16 \<longrightarrow> P b"
  have "(of_nat n :: byte) < 16" if "n < 16" for n
    using that by (simp add: word_less_nat_alt unat_of_nat)
  with * show "list_all (\<lambda>n. P (of_nat n)) [0..<16]" by (simp add: list_all_iff)
qed

lemma hex_digit_roundtrip: "i < 16 \<Longrightarrow> bindR (index_to_hex_index i) hex_index_to_index = Inr i"
proof -
  have "\<forall>i::byte. i < 16 \<longrightarrow> bindR (index_to_hex_index i) hex_index_to_index = Inr i"
    unfolding nibble_all_upt by code_simp
  then show "i < 16 \<Longrightarrow> ?thesis" by blast
qed

lemma hex_digit_canonical:
  "hex_index_to_index h = Inr i \<Longrightarrow> i < 16 \<and> index_to_hex_index i = Inr h"
proof -
  have "\<forall>h::byte. case hex_index_to_index h of Inl e \<Rightarrow> e = Invalid_argument
      | Inr i \<Rightarrow> i < 16 \<and> index_to_hex_index i = Inr h"
    unfolding byte_all_upt by code_simp
  then show "hex_index_to_index h = Inr i \<Longrightarrow> ?thesis" by (auto dest: spec [of _ h])
qed

lemma hex_digit_error: "hex_index_to_index h = Inl e \<Longrightarrow> e = Invalid_argument"
  by (auto simp: hex_index_to_index_def Let_def split: if_splits)

lemma nibbles: "b mod 16 < 16 \<and> b div 16 < 16 \<and> push_bit 4 (b div 16) OR (b mod 16) = b" for b :: byte
proof -
  have "\<forall>b::byte. b mod 16 < 16 \<and> b div 16 < 16 \<and> push_bit 4 (b div 16) OR (b mod 16) = b"
    unfolding byte_all_upt by code_simp
  then show ?thesis by blast
qed

lemma join_nibbles:
  fixes lo hi :: byte
  assumes "lo < 16" and "hi < 16"
  shows "(push_bit 4 hi OR lo) mod 16 = lo \<and> (push_bit 4 hi OR lo) div 16 = hi"
proof -
  have "\<forall>lo::byte. lo < 16 \<longrightarrow> (\<forall>hi::byte. hi < 16 \<longrightarrow>
      (push_bit 4 hi OR lo) mod 16 = lo \<and> (push_bit 4 hi OR lo) div 16 = hi)"
    unfolding nibble_all_upt by code_simp
  with assms show ?thesis by blast
qed

section \<open>Strings\<close>

text \<open>The encoder without its error branches, which it never takes.\<close>

lemma hex_digit_total: "i < 16 \<Longrightarrow> \<exists>h. index_to_hex_index i = Inr h \<and> hex_index_to_index h = Inr i"
  using hex_digit_roundtrip [of i] by (auto simp: bindR_eq_Inr)

lemma hex_decode_loop_shift:
  "hex_decode_loop (xs @ ys) (length xs div 2 + i) n = hex_decode_loop ys i n"
  if "even (length xs)" for xs ys
proof (induction n arbitrary: i)
  case (Suc n)
  have "(length xs div 2 + i) * 2 = length xs + i * 2"
    using that by (auto elim!: evenE)
  then show ?case
    using Suc.IH [of "Suc i"] by (simp add: Let_def nth_append)
qed simp

lemma hex_decode_loop_Cons:
  "hex_decode_loop (lo # hi # s) (Suc 0) n = hex_decode_loop s 0 n"
  "hex_decode_loop (lo # hi # s) 0 (Suc n) =
     bindR (hex_index_to_index lo) (\<lambda>l. bindR (hex_index_to_index hi) (\<lambda>h.
       bindR (hex_decode_loop s 0 n) (\<lambda>rs. Inr ((push_bit 4 h OR l) # rs))))"
  using hex_decode_loop_shift [of "[lo, hi]" s 0 n] by (simp_all add: Let_def)

lemma hex_encode_decode_into:
  "\<exists>s. hex_encode_into bs = Inr s \<and> length s = 2 * length bs
     \<and> hex_decode_loop s 0 (length bs) = Inr bs"
proof (induction bs)
  case (Cons b bs)
  obtain lo hi where "index_to_hex_index (b mod 16) = Inr lo" and "hex_index_to_index lo = Inr (b mod 16)"
    and "index_to_hex_index (b div 16) = Inr hi" and "hex_index_to_index hi = Inr (b div 16)"
    using nibbles [of b] hex_digit_total by metis
  with Cons.IH nibbles [of b] show ?case
    by (auto simp: hex_decode_loop_Cons)
qed simp

lemma hex_encode_total:
  "\<exists>s. hex_encode bs = Inr s \<and> length s = 2 * length bs \<and> hex_decode s = Inr bs"
proof -
  obtain s where "hex_encode_into bs = Inr s" and "length s = 2 * length bs"
    and "hex_decode_loop s 0 (length bs) = Inr bs"
    using hex_encode_decode_into by blast
  then show ?thesis
    using fill_exact [of s] fill_exact [of bs]
    by (simp add: hex_encode_def hex_decode_def hex_decode_into_def mult.commute)
qed

lemma hex_decode_loop_encode:
  "hex_decode_loop s 0 n = Inr bs \<Longrightarrow> length s = 2 * n \<Longrightarrow> hex_encode_into bs = Inr s \<and> length bs = n"
proof (induction n arbitrary: s bs)
  case (Suc n)
  then obtain lo hi s' where s: "s = lo # hi # s'" and "length s' = 2 * n"
    by (auto simp: length_Suc_conv)
  with Suc show ?case
    by (auto simp: hex_decode_loop_Cons bindR_eq_Inr join_nibbles
        dest!: hex_digit_canonical simp del: hex_decode_loop.simps(2))
qed simp

lemma hex_decode_loop_error:
  "hex_decode_loop s i n = Inl e \<Longrightarrow> e = Invalid_argument"
  by (induction n arbitrary: i) (auto simp: Let_def bindR_eq_Inl dest: hex_digit_error)

lemma hex_decode_loop_length: "hex_decode_loop s i n = Inr bs \<Longrightarrow> length bs = n"
  by (induction n arbitrary: i bs) (auto simp: Let_def bindR_eq_Inr)

lemma hex_decode_eq:
  "hex_decode s = (if length s mod 2 \<noteq> 0 then Inl Invalid_argument
     else hex_decode_loop s 0 (length s div 2))"
proof (cases "hex_decode_loop s 0 (length s div 2)")
  case (Inr bs)
  then show ?thesis
    using hex_decode_loop_length [OF Inr] fill_exact [of bs]
    by (simp add: hex_decode_def hex_decode_into_def)
qed (simp add: hex_decode_def hex_decode_into_def)

lemma hex_encode_of_decode:
  assumes "hex_decode s = Inr bs"
  shows "hex_encode bs = Inr s"
proof -
  define n where "n = length s div 2"
  have len: "length s = 2 * n" and loop: "hex_decode_loop s 0 n = Inr bs"
    using assms by (auto simp: hex_decode_eq n_def split: if_splits)
  then show ?thesis
    using hex_decode_loop_encode [OF loop len] fill_exact [of s]
    by (simp add: hex_encode_def mult.commute)
qed

lemma hex_decode_error: "hex_decode s = Inl e \<Longrightarrow> e = Invalid_argument"
  by (auto simp: hex_decode_eq dest: hex_decode_loop_error split: if_splits)

interpretation hex: stream_codec "\<lambda>_. True" hex_encode hex_decode
  by unfold_locales (use hex_encode_total in blast)

interpretation identity: stream_codec "\<lambda>_. True" "Inr \<circ> identity_encode" "Inr \<circ> identity_decode"
  by unfold_locales (simp add: identity_encode_def identity_decode_def)

section \<open>Properties\<close>

text \<open>
  Hexadecimal encoding never fails, gives two digits per byte, and \<open>hex_decode\<close> returns the
  original string from it.
\<close>
theorem hex_roundtrip:
  "\<exists>s. hex_encode bs = Inr s \<and> length s = 2 * length bs \<and> hex_decode s = Inr bs"
  by (rule hex_encode_total)

text \<open>
  \<open>hex_decode\<close> accepts exactly the strings that \<open>hex_encode\<close> produces (an even number of lower-case
  digits, low digit first: no string has two encodings), and answers every other string with
  \<open>invalid_argument\<close>, without reading or writing outside its buffers.
\<close>
theorem hex_decode_canonical:
  "(case hex_decode s of
      Inr bs \<Rightarrow> hex_encode bs = Inr s
    | Inl e \<Rightarrow> e = Invalid_argument \<and> (\<forall>bs. hex_encode bs \<noteq> Inr s))"
proof (cases "hex_decode s")
  case (Inl e)
  then have "hex_encode bs \<noteq> Inr s" for bs
    using hex.dec_of_enc [of bs s] by auto
  with Inl show ?thesis by (simp add: hex_decode_error)
qed (simp add: hex_encode_of_decode)

end
