(* ===== verification/Generic_Encoder.thy ===== *)
theory Generic_Encoder
  imports Hex_Encoder Compact_Frames
begin

text \<open>
  \<open>global_string_encoder/generic_encoder.h\<close>: string transformation rules. A rule is a variant of
  empty resource structs, stored and sent as the self-describing stream of the serializer; a
  \<open>GenericEncoder\<close> dispatches on it to one of the encoders of \<open>Hex_Encoder\<close>.
\<close>

section \<open>Resources\<close>

datatype GenericEncoderResource =
    Reflectible_monostate
  | HexEncoderResource
  | HexDecoderResource
  | IdentityEncoderResource
  | IdentityDecoderResource

text \<open>Each alternative is a struct that reflects no member.\<close>

definition GenericEncoderResource_ty :: ty where
  "GenericEncoderResource_ty = TReflect [TVariant [TReflect [], TReflect [], TReflect [], TReflect [], TReflect []]]"

primrec resource_index :: "GenericEncoderResource \<Rightarrow> nat" where
  "resource_index Reflectible_monostate = 0"
| "resource_index HexEncoderResource = 1"
| "resource_index HexDecoderResource = 2"
| "resource_index IdentityEncoderResource = 3"
| "resource_index IdentityDecoderResource = 4"

definition resource_object :: "GenericEncoderResource \<Rightarrow> val" where
  "resource_object resource = VTuple [VAlt (resource_index resource) (VTuple [])]"

definition object_resource :: "val \<Rightarrow> GenericEncoderResource result" where
  "object_resource v =
     (if v = VTuple [VAlt 0 (VTuple [])] then Inr Reflectible_monostate
      else if v = VTuple [VAlt 1 (VTuple [])] then Inr HexEncoderResource
      else if v = VTuple [VAlt 2 (VTuple [])] then Inr HexDecoderResource
      else if v = VTuple [VAlt 3 (VTuple [])] then Inr IdentityEncoderResource
      else if v = VTuple [VAlt 4 (VTuple [])] then Inr IdentityDecoderResource
      else Inl Type_mismatch)"

definition to_external_generic_encoder_resource :: "endian \<Rightarrow> GenericEncoderResource \<Rightarrow> bytes result" where
  "to_external_generic_encoder_resource nt resource =
     dgstd_serialize nt 0 GenericEncoderResource_ty (resource_object resource)"

definition to_internal_generic_encoder_resource :: "endian \<Rightarrow> bytes \<Rightarrow> GenericEncoderResource result" where
  "to_internal_generic_encoder_resource nt resource_bytestream =
     bindR (dgstd_deserialize nt 0 GenericEncoderResource_ty resource_bytestream) object_resource"

section \<open>The encoder object\<close>

datatype EncoderInterface = HexEncoder | HexDecoder | IdentityEncoder | IdentityDecoder

primrec encode_with :: "EncoderInterface \<Rightarrow> bytes \<Rightarrow> bytes result" where
  "encode_with HexEncoder str = hex_encode str"
| "encode_with HexDecoder str = hex_decode str"
| "encode_with IdentityEncoder str = Inr (identity_encode str)"
| "encode_with IdentityDecoder str = Inr (identity_decode str)"

definition GenericEncoder :: "GenericEncoderResource \<Rightarrow> EncoderInterface result" where
  "GenericEncoder resource =
     (if resource = HexEncoderResource then Inr HexEncoder
      else if resource = HexDecoderResource then Inr HexDecoder
      else if resource = IdentityEncoderResource then Inr IdentityEncoder
      else if resource = IdentityDecoderResource then Inr IdentityDecoder
      else Inl Invalid_argument)"

definition GenericEncoder_external :: "endian \<Rightarrow> bytes \<Rightarrow> EncoderInterface result" where
  "GenericEncoder_external nt resource =
     bindR (to_internal_generic_encoder_resource nt resource) GenericEncoder"

definition get_empty_transformation_rule :: "endian \<Rightarrow> bytes result" where
  "get_empty_transformation_rule nt = to_external_generic_encoder_resource nt IdentityEncoderResource"

text \<open>\<open>GenericEncoder(rule).encode(str)\<close>, the way the rules are applied.\<close>

definition apply_rule :: "endian \<Rightarrow> bytes \<Rightarrow> bytes \<Rightarrow> bytes result" where
  "apply_rule nt rule str = bindR (GenericEncoder_external nt rule) (\<lambda>base. encode_with base str)"

section \<open>Rules survive being stored\<close>

lemma resource_object_ok: "dgstd_object GenericEncoderResource_ty (resource_object r)"
  by (cases r) (simp_all add: dgstd_object_def GenericEncoderResource_ty_def resource_object_def)

lemma object_resource_object [simp]: "object_resource (resource_object r) = Inr r"
  by (cases r) (simp_all add: object_resource_def resource_object_def)

interpretation rule_codec: stream_codec "\<lambda>_. True" "to_external_generic_encoder_resource nt"
  "to_internal_generic_encoder_resource nt" for nt
  by unfold_locales
    (use dgstd_codec.dec_enc [OF resource_object_ok] in
      \<open>fastforce simp: to_external_generic_encoder_resource_def to_internal_generic_encoder_resource_def\<close>)

lemma GenericEncoder_external_stored:
  "to_external_generic_encoder_resource nt r = Inr rule \<Longrightarrow> GenericEncoder_external nt rule = GenericEncoder r"
  using rule_codec.dec_of_enc [of nt r rule] by (simp add: GenericEncoder_external_def)

section \<open>Properties\<close>

text \<open>
  stored rules select their encoder. Every resource can be stored; the encoder built from the
  stored rule is the one the resource names, and a rule that stores the empty resource is refused with
  \<open>invalid_argument\<close> when the encoder is built.
\<close>
theorem stored_rule_dispatch:
  "\<exists>rule. to_external_generic_encoder_resource nt r = Inr rule
    \<and> apply_rule nt rule str =
        (case r of
           Reflectible_monostate \<Rightarrow> Inl Invalid_argument
         | HexEncoderResource \<Rightarrow> hex_encode str
         | HexDecoderResource \<Rightarrow> hex_decode str
         | IdentityEncoderResource \<Rightarrow> Inr str
         | IdentityDecoderResource \<Rightarrow> Inr str)"
proof -
  obtain rule where "to_external_generic_encoder_resource nt r = Inr rule"
    using rule_codec.enc_total by blast
  then show ?thesis
    by (cases r) (simp_all add: apply_rule_def GenericEncoder_external_stored GenericEncoder_def
        identity_encode_def identity_decode_def)
qed

text \<open>
  a decoding rule undoes its encoding rule. Whatever \<open>str\<close>, applying the stored hexadecimal encoding
  rule and then the stored decoding rule gives \<open>str\<close> back; the empty transformation rule leaves every
  string as it is.
\<close>
theorem stored_rules_inverse:
  "\<exists>encoder decoder empty. to_external_generic_encoder_resource nt HexEncoderResource = Inr encoder
    \<and> to_external_generic_encoder_resource nt HexDecoderResource = Inr decoder
    \<and> get_empty_transformation_rule nt = Inr empty
    \<and> bindR (apply_rule nt encoder str) (apply_rule nt decoder) = Inr str
    \<and> apply_rule nt empty str = Inr str"
proof -
  obtain encoder decoder empty where
    "to_external_generic_encoder_resource nt HexEncoderResource = Inr encoder"
    "to_external_generic_encoder_resource nt HexDecoderResource = Inr decoder"
    "to_external_generic_encoder_resource nt IdentityEncoderResource = Inr empty"
    using rule_codec.enc_total by metis
  then show ?thesis
    using hex.dec_enc [of str]
    by (auto simp: apply_rule_def get_empty_transformation_rule_def GenericEncoder_external_stored
        GenericEncoder_def identity_encode_def)
qed

end
