(* ===== verification/Trivial_Serializer.thy ===== *)
theory Trivial_Serializer
  imports Serial_Types
begin

text \<open>
  \<open>serializer/trivial_serializer.h\<close>: the fixed-layout serializer. Every object of a type takes the same
  number of bytes; an empty optional or a small alternative leaves the rest of its place as it was. The
  writer therefore works on an explicit buffer and a position (\<open>char *& buf\<close>), the reader on a buffer
  and a position. Static types and objects are those of \<open>Serial_Types\<close>, and so is
  \<open>SyncedEndiannessService\<close>, which this header repeats word for word.
\<close>

section \<open>Which types, and how many bytes\<close>

text \<open>
  \<open>IsSerializable\<close>; the type of a variant has between one alternative and \<open>MAX_CONTAINABLE_VARIANT\<close>
  (a \<open>static_assert\<close> of the archive), and arithmetic types have a positive size.
\<close>

fun is_serializable :: "ty \<Rightarrow> bool" where
  "is_serializable (TArith a) \<longleftrightarrow> 0 < arith_size a"
| "is_serializable (TOptional t) \<longleftrightarrow> is_serializable t"
| "is_serializable (TTuple ts) \<longleftrightarrow> list_all is_serializable ts"
| "is_serializable (TReflect ts) \<longleftrightarrow> list_all is_serializable ts"
| "is_serializable (TVariant ts) \<longleftrightarrow> list_all is_serializable ts \<and> 0 < length ts \<and> length ts \<le> 256"
| "is_serializable _ \<longleftrightarrow> False"

definition max_many :: "nat \<Rightarrow> nat list \<Rightarrow> nat" where
  "max_many first args = foldl max first args"

text \<open>\<open>Counter\<close>: the argument of \<open>count\<close> only matters through its static type.\<close>

fun trivial_count :: "ty \<Rightarrow> nat" where
  "trivial_count (TArith a) = arith_size a"
| "trivial_count (TOptional t) = arith_size Bool + trivial_count t"
| "trivial_count (TTuple ts) = sum_list (map trivial_count ts)"
| "trivial_count (TReflect ts) = foldl (+) 0 (map trivial_count ts)"
| "trivial_count (TVariant ts) = arith_size (UInt 1) + (case map trivial_count ts of
     [] \<Rightarrow> 0 | first # args \<Rightarrow> max_many first args)"
| "trivial_count _ = 0"

section \<open>Forward\<close>

definition write_at :: "bytes \<Rightarrow> nat \<Rightarrow> bytes \<Rightarrow> bytes result" where
  "write_at buf pos bs = (if pos + length bs \<le> length buf then Inr (overwrite buf pos bs) else Inl Out_of_bounds)"

definition put_arithmetic :: "endian \<Rightarrow> arith \<Rightarrow> val \<Rightarrow> bytes \<times> nat \<Rightarrow> (bytes \<times> nat) result" where
  "put_arithmetic nt a data = (\<lambda>(buf, pos).
     bindR (dump nt a data) (\<lambda>bs.
     bindR (write_at buf pos bs) (\<lambda>buf'. Inr (buf', pos + arith_size a))))"

text \<open>
  In the overloads for optionals and variants \<open>tmp\<close> walks over what is stored, and \<open>buf\<close> advances by the
  full size. \<open>std::visit\<close> on a variant without a value throws out of a \<open>noexcept\<close> function.
\<close>

fun trivial_put :: "endian \<Rightarrow> ty \<Rightarrow> val \<Rightarrow> bytes \<times> nat \<Rightarrow> (bytes \<times> nat) result"
  and trivial_put_all :: "endian \<Rightarrow> ty list \<Rightarrow> val list \<Rightarrow> bytes \<times> nat \<Rightarrow> (bytes \<times> nat) result"
  and trivial_put_alt :: "endian \<Rightarrow> ty list \<Rightarrow> nat \<Rightarrow> val \<Rightarrow> bytes \<times> nat \<Rightarrow> (bytes \<times> nat) result" where
  "trivial_put nt (TArith a) data s = put_arithmetic nt a data s"
| "trivial_put nt (TOptional t) data s = (case data of
     VNone \<Rightarrow>
       bindR (put_arithmetic nt Bool (VBool False) s) (\<lambda>tmp.
         Inr (fst tmp, snd s + trivial_count (TOptional t)))
   | VSome obj \<Rightarrow>
       bindR (put_arithmetic nt Bool (VBool True) s) (\<lambda>tmp.
       bindR (trivial_put nt t obj tmp) (\<lambda>tmp.
         Inr (fst tmp, snd s + trivial_count (TOptional t))))
   | _ \<Rightarrow> Inl Type_mismatch)"
| "trivial_put nt (TTuple ts) data s = (case data of
     VTuple vs \<Rightarrow> trivial_put_all nt ts vs s | _ \<Rightarrow> Inl Type_mismatch)"
| "trivial_put nt (TReflect ts) data s = (case data of
     VTuple vs \<Rightarrow> trivial_put_all nt ts vs s | _ \<Rightarrow> Inl Type_mismatch)"
| "trivial_put nt (TVariant ts) data s = (case data of
     VAlt variant_idx arg \<Rightarrow>
       bindR (put_arithmetic nt (UInt 1) (VInt (int variant_idx mod 256)) s) (\<lambda>tmp.
       bindR (trivial_put_alt nt ts variant_idx arg tmp) (\<lambda>tmp.
         Inr (fst tmp, snd s + trivial_count (TVariant ts))))
   | VValueless \<Rightarrow>
       bindR (put_arithmetic nt (UInt 1) (VInt 255) s) (\<lambda>tmp. Inl Abort)
   | _ \<Rightarrow> Inl Type_mismatch)"
| "trivial_put nt _ data s = Inl Type_mismatch"
| "trivial_put_all nt [] vs s = (if vs = [] then Inr s else Inl Type_mismatch)"
| "trivial_put_all nt (t # ts) vs s = (case vs of
     [] \<Rightarrow> Inl Type_mismatch
   | v # vs' \<Rightarrow> bindR (trivial_put nt t v s) (\<lambda>s'. trivial_put_all nt ts vs' s'))"
| "trivial_put_alt nt [] i arg s = Inl Type_mismatch"
| "trivial_put_alt nt (t # ts) i arg s = (case i of
     0 \<Rightarrow> trivial_put nt t arg s | Suc j \<Rightarrow> trivial_put_alt nt ts j arg s)"

section \<open>Backward\<close>

definition get_arithmetic :: "endian \<Rightarrow> arith \<Rightarrow> bytes \<Rightarrow> nat \<Rightarrow> (val \<times> nat) result" where
  "get_arithmetic nt a buf pos =
     (if pos + arith_size a \<le> length buf
      then bindR (load nt a (drop pos buf)) (\<lambda>data. Inr (data, pos + arith_size a))
      else Inl Out_of_bounds)"

definition clamp :: "nat \<Rightarrow> nat \<Rightarrow> nat \<Rightarrow> nat" where
  "clamp v lo hi = (if v < lo then lo else if hi < v then hi else v)"

fun trivial_get :: "endian \<Rightarrow> ty \<Rightarrow> bytes \<Rightarrow> nat \<Rightarrow> (val \<times> nat) result"
  and trivial_get_all :: "endian \<Rightarrow> ty list \<Rightarrow> bytes \<Rightarrow> nat \<Rightarrow> (val list \<times> nat) result"
  and trivial_get_alt :: "endian \<Rightarrow> ty list \<Rightarrow> nat \<Rightarrow> bytes \<Rightarrow> nat \<Rightarrow> (val \<times> nat) result" where
  "trivial_get nt (TArith a) buf pos = get_arithmetic nt a buf pos"
| "trivial_get nt (TOptional t) buf pos =
     bindR (get_arithmetic nt Bool buf pos) (\<lambda>(status, tmp).
     bindR (if status = VBool True
            then bindR (trivial_get nt t buf tmp) (\<lambda>(obj, tmp). Inr (VSome obj))
            else Inr VNone) (\<lambda>data.
       Inr (data, pos + trivial_count (TOptional t))))"
| "trivial_get nt (TTuple ts) buf pos =
     bindR (trivial_get_all nt ts buf pos) (\<lambda>(vs, pos'). Inr (VTuple vs, pos'))"
| "trivial_get nt (TReflect ts) buf pos =
     bindR (trivial_get_all nt ts buf pos) (\<lambda>(vs, pos'). Inr (VTuple vs, pos'))"
| "trivial_get nt (TVariant ts) buf pos =
     bindR (get_arithmetic nt (UInt 1) buf pos) (\<lambda>(idx, tmp).
     let variant_idx = clamp (case idx of VInt x \<Rightarrow> nat x | _ \<Rightarrow> 0) 0 (length ts - 1) in
     bindR (trivial_get_alt nt ts variant_idx buf tmp) (\<lambda>(containee, tmp).
       Inr (VAlt variant_idx containee, pos + trivial_count (TVariant ts))))"
| "trivial_get nt _ buf pos = Inl Type_mismatch"
| "trivial_get_all nt [] buf pos = Inr ([], pos)"
| "trivial_get_all nt (t # ts) buf pos =
     bindR (trivial_get nt t buf pos) (\<lambda>(v, pos').
     bindR (trivial_get_all nt ts buf pos') (\<lambda>(vs, pos''). Inr (v # vs, pos'')))"
| "trivial_get_alt nt [] i buf pos = Inl Type_mismatch"
| "trivial_get_alt nt (t # ts) i buf pos = (case i of
     0 \<Rightarrow> trivial_get nt t buf pos | Suc j \<Rightarrow> trivial_get_alt nt ts j buf pos)"

section \<open>The interface\<close>

definition trivial_size :: "ty \<Rightarrow> nat" where
  "trivial_size t = trivial_count t"

definition trivial_serialize_into :: "endian \<Rightarrow> ty \<Rightarrow> bytes \<Rightarrow> nat \<Rightarrow> val \<Rightarrow> (bytes \<times> nat) result" where
  "trivial_serialize_into nt t buf pos obj = trivial_put nt t obj (buf, pos)"

definition trivial_deserialize_into :: "endian \<Rightarrow> ty \<Rightarrow> bytes \<Rightarrow> nat \<Rightarrow> (val \<times> nat) result" where
  "trivial_deserialize_into nt t buf pos = trivial_get nt t buf pos"

definition reflectible_is_equal :: "endian \<Rightarrow> ty \<Rightarrow> val \<Rightarrow> val \<Rightarrow> bool result" where
  "reflectible_is_equal nt t lhs rhs =
     (let REFLECTIBLE_SZ = trivial_size t in
      bindR (trivial_serialize_into nt t (replicate REFLECTIBLE_SZ 0) 0 lhs) (\<lambda>l.
      bindR (trivial_serialize_into nt t (replicate REFLECTIBLE_SZ 0) 0 rhs) (\<lambda>r.
        Inr (fst l = fst r))))"

section \<open>Sizes\<close>

lemma foldl_plus_sum_list: "foldl (+) n xs = n + sum_list xs" for n :: nat
  by (induction xs arbitrary: n) (simp_all add: add.assoc)

lemma max_many_upper: "first \<le> max_many first args \<and> (\<forall>x \<in> set args. x \<le> max_many first args)"
  unfolding max_many_def
proof (induction args arbitrary: first)
  case (Cons x xs)
  from Cons [of "max first x"] show ?case by auto
qed simp

lemma trivial_count_alt:
  "i < length ts \<Longrightarrow> 1 + trivial_count (ts ! i) \<le> trivial_count (TVariant ts)"
proof -
  assume i: "i < length ts"
  then obtain first args where ts: "map trivial_count ts = first # args" by (cases ts) auto
  have "trivial_count (ts ! i) \<in> set (first # args)" using i unfolding ts [symmetric] by simp
  then show ?thesis using max_many_upper [of first args] by (auto simp: ts)
qed

section \<open>What a write leaves behind\<close>

text \<open>
  \<open>writes\<close>: only \<open>n\<close> bytes from \<open>pos\<close> on may differ. \<open>agree\<close>: these bytes are the same in two buffers.
  \<open>stored p buf pos n x\<close>: the reader \<open>p\<close> finds \<open>x\<close> there in every buffer that agrees.
\<close>

definition writes :: "bytes \<Rightarrow> bytes \<Rightarrow> nat \<Rightarrow> nat \<Rightarrow> bool" where
  "writes buf buf' pos n \<longleftrightarrow> length buf' = length buf
     \<and> (\<forall>i < length buf. i < pos \<or> pos + n \<le> i \<longrightarrow> buf' ! i = buf ! i)"

definition agree :: "bytes \<Rightarrow> bytes \<Rightarrow> nat \<Rightarrow> nat \<Rightarrow> bool" where
  "agree buf buf' pos n \<longleftrightarrow> pos + n \<le> length buf' \<and> (\<forall>i. pos \<le> i \<longrightarrow> i < pos + n \<longrightarrow> buf' ! i = buf ! i)"

definition stored :: "(bytes \<Rightarrow> nat \<Rightarrow> ('a \<times> nat) result) \<Rightarrow> bytes \<Rightarrow> nat \<Rightarrow> nat \<Rightarrow> 'a \<Rightarrow> bool" where
  "stored p buf pos n x \<longleftrightarrow> (\<forall>buf'. agree buf buf' pos n \<longrightarrow> p buf' pos = Inr (x, pos + n))"

lemma writes_refl [simp]: "writes buf buf pos n"
  by (simp add: writes_def)

lemma writes_trans:
  "writes buf buf' pos n \<Longrightarrow> writes buf' buf'' pos n \<Longrightarrow> writes buf buf'' pos n"
  by (simp add: writes_def)

lemma writes_wider:
  "writes buf buf' pos n \<Longrightarrow> pos' \<le> pos \<Longrightarrow> pos + n \<le> pos' + n' \<Longrightarrow> writes buf buf' pos' n'"
  unfolding writes_def by auto

lemma agree_part:
  "agree buf buf' pos n \<Longrightarrow> pos \<le> pos' \<Longrightarrow> pos' + n' \<le> pos + n \<Longrightarrow> agree buf buf' pos' n'"
  unfolding agree_def by auto

lemma agree_before:
  assumes "agree buf2 buf' pos n" and "writes buf1 buf2 pos2 n2" and "pos + n \<le> pos2" and "pos + n \<le> length buf1"
  shows "agree buf1 buf' pos n"
  using assms unfolding agree_def writes_def by auto

lemma storedD: "stored p buf pos n x \<Longrightarrow> agree buf buf' pos n \<Longrightarrow> p buf' pos = Inr (x, pos + n)"
  by (simp add: stored_def)

text \<open>A writer of \<open>n\<close> bytes whose object \<open>p\<close> reads back.\<close>

definition puts :: "(bytes \<times> nat \<Rightarrow> (bytes \<times> nat) result) \<Rightarrow> (bytes \<Rightarrow> nat \<Rightarrow> ('a \<times> nat) result) \<Rightarrow> nat \<Rightarrow> 'a \<Rightarrow> bool" where
  "puts w p n x \<longleftrightarrow> (\<forall>buf pos. pos + n \<le> length buf \<longrightarrow>
     (\<exists>buf'. w (buf, pos) = Inr (buf', pos + n) \<and> writes buf buf' pos n \<and> stored p buf' pos n x))"

lemma putsD:
  assumes "puts w p n x" and "pos + n \<le> length buf"
  obtains buf' where "w (buf, pos) = Inr (buf', pos + n)" and "writes buf buf' pos n" and "stored p buf' pos n x"
  using assms unfolding puts_def by blast

lemma put_arithmetic_puts:
  assumes "arith_typed a v"
  shows "puts (put_arithmetic nt a v) (get_arithmetic nt' a) (arith_size a) v"
  unfolding puts_def
proof (intro allI impI)
  fix buf :: bytes and pos
  assume len: "pos + arith_size a \<le> length buf"
  obtain bs where bs: "dump nt a v = Inr bs" using dump_typed [OF assms] by blast
  let ?buf = "overwrite buf pos bs"
  have n: "length bs = arith_size a" using bs by (rule dump_length)
  have "put_arithmetic nt a v (buf, pos) = Inr (?buf, pos + arith_size a)"
    using bs n len by (simp add: put_arithmetic_def write_at_def)
  moreover have "writes buf ?buf pos (arith_size a)"
    using len n by (auto simp: writes_def nth_overwrite)
  moreover have "stored (get_arithmetic nt' a) ?buf pos (arith_size a) v"
    unfolding stored_def
  proof (intro allI impI)
    fix buf'
    assume ag: "agree ?buf buf' pos (arith_size a)"
    have "take (arith_size a) (drop pos buf') = bs"
    proof (rule nth_equalityI)
      show "length (take (arith_size a) (drop pos buf')) = length bs"
        using ag n by (simp add: agree_def min_def) linarith
      fix i assume "i < length (take (arith_size a) (drop pos buf'))"
      then have i: "i < arith_size a" by simp
      then have "buf' ! (pos + i) = ?buf ! (pos + i)" using ag by (simp add: agree_def)
      also have "\<dots> = bs ! i" using i len n by (simp add: nth_overwrite)
      finally show "take (arith_size a) (drop pos buf') ! i = bs ! i" using i ag by (simp add: agree_def)
    qed
    then have "drop pos buf' = bs @ drop (arith_size a) (drop pos buf')"
      by (metis append_take_drop_id)
    then have "load nt' a (drop pos buf') = Inr v" using load_dump [OF assms bs] by metis
    then show "get_arithmetic nt' a buf' pos = Inr (v, pos + arith_size a)"
      using ag by (simp add: get_arithmetic_def agree_def)
  qed
  ultimately show "\<exists>buf'. put_arithmetic nt a v (buf, pos) = Inr (buf', pos + arith_size a)
      \<and> writes buf buf' pos (arith_size a) \<and> stored (get_arithmetic nt' a) buf' pos (arith_size a) v"
    by blast
qed

text \<open>
  Two writers in a row: a reader that reads both parts; and a tag followed by a payload in a place that
  may be larger.
\<close>

lemma puts_seq:
  assumes w1: "puts w1 p1 n1 x1" and w2: "puts w2 p2 n2 x2"
    and w: "\<And>s s1. w1 s = Inr s1 \<Longrightarrow> w s = w2 s1"
    and p: "\<And>buf pos pos1 pos2. p1 buf pos = Inr (x1, pos1) \<Longrightarrow> p2 buf pos1 = Inr (x2, pos2)
        \<Longrightarrow> p buf pos = Inr (x, pos2)"
  shows "puts w p (n1 + n2) x"
  unfolding puts_def
proof (intro allI impI)
  fix buf :: bytes and pos
  assume len: "pos + (n1 + n2) \<le> length buf"
  have len1: "pos + n1 \<le> length buf" using len by simp
  obtain buf1 where b1: "w1 (buf, pos) = Inr (buf1, pos + n1)" "writes buf buf1 pos n1" "stored p1 buf1 pos n1 x1"
    by (rule putsD [OF w1 len1])
  have l1: "length buf1 = length buf" using b1(2) by (simp add: writes_def)
  have len2: "(pos + n1) + n2 \<le> length buf1" using len l1 by simp
  obtain buf2 where b2: "w2 (buf1, pos + n1) = Inr (buf2, pos + n1 + n2)" "writes buf1 buf2 (pos + n1) n2"
    "stored p2 buf2 (pos + n1) n2 x2"
    by (rule putsD [OF w2 len2])
  have "writes buf buf2 pos (n1 + n2)"
    using writes_trans writes_wider [OF b1(2), of pos "n1 + n2"] writes_wider [OF b2(2), of pos "n1 + n2"] by simp
  moreover have "stored p buf2 pos (n1 + n2) x"
    unfolding stored_def
  proof (intro allI impI)
    fix buf'
    assume ag: "agree buf2 buf' pos (n1 + n2)"
    have "agree buf1 buf' pos n1"
      using agree_before [OF agree_part [OF ag, of pos n1] b2(2)] len1 l1 by simp
    moreover have "agree buf2 buf' (pos + n1) n2" using agree_part [OF ag, of "pos + n1" n2] by simp
    ultimately show "p buf' pos = Inr (x, pos + (n1 + n2))"
      using p storedD [OF b1(3)] storedD [OF b2(3)] by (simp add: add.assoc)
  qed
  ultimately show "\<exists>buf'. w (buf, pos) = Inr (buf', pos + (n1 + n2)) \<and> writes buf buf' pos (n1 + n2)
      \<and> stored p buf' pos (n1 + n2) x"
    using w [OF b1(1)] b2(1) by (auto simp: add.assoc)
qed

lemma puts_within:
  assumes w1: "puts w1 p1 n1 x1" and le: "n1 \<le> n"
    and w: "\<And>s s1. w1 s = Inr s1 \<Longrightarrow> w s = Inr (fst s1, snd s + n)"
    and p: "\<And>buf pos pos1. p1 buf pos = Inr (x1, pos1) \<Longrightarrow> p buf pos = Inr (x, pos + n)"
  shows "puts w p n x"
  unfolding puts_def
proof (intro allI impI)
  fix buf :: bytes and pos
  assume "pos + n \<le> length buf"
  then have len1: "pos + n1 \<le> length buf" using le by simp
  obtain buf1 where b1: "w1 (buf, pos) = Inr (buf1, pos + n1)" "writes buf buf1 pos n1" "stored p1 buf1 pos n1 x1"
    by (rule putsD [OF w1 len1])
  have "stored p buf1 pos n x"
    unfolding stored_def using p storedD [OF b1(3)] agree_part le by (meson add_le_cancel_left order_refl)
  then show "\<exists>buf'. w (buf, pos) = Inr (buf', pos + n) \<and> writes buf buf' pos n \<and> stored p buf' pos n x"
    using w [OF b1(1)] writes_wider [OF b1(2), of pos n] le by auto
qed

lemma puts_seq_within:
  assumes w1: "puts w1 p1 n1 x1" and w2: "puts w2 p2 n2 x2" and le: "n1 + n2 \<le> n"
    and w: "\<And>s s1 s2. w1 s = Inr s1 \<Longrightarrow> w2 s1 = Inr s2 \<Longrightarrow> w s = Inr (fst s2, snd s + n)"
    and p: "\<And>buf pos pos1 pos2. p1 buf pos = Inr (x1, pos1) \<Longrightarrow> p2 buf pos1 = Inr (x2, pos2)
        \<Longrightarrow> p buf pos = Inr (x, pos + n)"
  shows "puts w p n x"
proof (rule puts_within [OF puts_seq [OF w1 w2] le])
  let ?w = "\<lambda>s. bindR (w1 s) w2"
    and ?p = "\<lambda>buf pos. bindR (p1 buf pos) (\<lambda>(y1, pos1). bindR (p2 buf pos1) (\<lambda>(y2, pos2). Inr ((y1, y2), pos2)))"
  show "w1 s = Inr s1 \<Longrightarrow> ?w s = w2 s1" for s s1 by simp
  show "p1 buf pos = Inr (x1, pos1) \<Longrightarrow> p2 buf pos1 = Inr (x2, pos2) \<Longrightarrow> ?p buf pos = Inr ((x1, x2), pos2)"
    for buf pos pos1 pos2 by simp
  show "w s = Inr (fst s2, snd s + n)" if "?w s = Inr s2" for s s2
  proof -
    have "\<exists>s1. w1 s = Inr s1 \<and> w2 s1 = Inr s2" using that unfolding bindR_eq_Inr .
    then show ?thesis using w by blast
  qed
  show "?p buf pos = Inr ((x1, x2), pos1) \<Longrightarrow> p buf pos = Inr (x, pos + n)" for buf pos pos1
    using p by (auto simp: bindR_eq_Inr)
qed

lemma puts_map:
  assumes "puts w p n x" and "\<And>s. w' s = w s" and "\<And>buf pos. p' buf pos = bindR (p buf pos) (\<lambda>(y, q). Inr (f y, q))"
  shows "puts w' p' n (f x)"
proof -
  have "stored p' buf pos n (f x)" if "stored p buf pos n x" for buf pos
    using that assms(3) by (simp add: stored_def)
  then show ?thesis using assms(1,2) unfolding puts_def by metis
qed

section \<open>Round trip\<close>

abbreviation reads_back :: "endian \<Rightarrow> endian \<Rightarrow> ty \<Rightarrow> val \<Rightarrow> bool" where
  "reads_back nt nt' t v \<equiv> puts (trivial_put nt t v) (trivial_get nt' t) (trivial_count t) v"

lemma puts_Bool: "puts (put_arithmetic nt Bool (VBool b)) (get_arithmetic nt' Bool) (arith_size Bool) (VBool b)"
  by (rule put_arithmetic_puts) simp

lemma reads_back_None: "reads_back nt nt' (TOptional t) VNone"
  by (rule puts_within [OF puts_Bool [of nt False nt']]) simp_all

lemma reads_back_Some: "reads_back nt nt' t v \<Longrightarrow> reads_back nt nt' (TOptional t) (VSome v)"
  by (rule puts_seq_within [OF puts_Bool [of nt True nt']], assumption) auto

lemma reads_back_Alt:
  assumes "puts (trivial_put_alt nt ts i v) (trivial_get_alt nt' ts i) n v" and "1 + n \<le> trivial_count (TVariant ts)"
    and "i < length ts" and "length ts \<le> 256"
  shows "reads_back nt nt' (TVariant ts) (VAlt i v)"
proof (rule puts_seq_within [OF put_arithmetic_puts assms(1)])
  show "arith_typed (UInt 1) (VInt (int i))" using assms(3,4) by simp
  show "arith_size (UInt 1) + n \<le> trivial_count (TVariant ts)" using assms(2) by simp
next
  fix s s1 s2
  assume "put_arithmetic nt (UInt 1) (VInt (int i)) s = Inr s1" and "trivial_put_alt nt ts i v s1 = Inr s2"
  then show "trivial_put nt (TVariant ts) (VAlt i v) s = Inr (fst s2, snd s + trivial_count (TVariant ts))"
    using assms(3,4) by simp
next
  fix buf pos pos1 pos2
  assume "get_arithmetic nt' (UInt 1) buf pos = Inr (VInt (int i), pos1)"
    and "trivial_get_alt nt' ts i buf pos1 = Inr (v, pos2)"
  moreover have "clamp i 0 (length ts - 1) = i" using assms(3) by (simp add: clamp_def)
  ultimately show "trivial_get nt' (TVariant ts) buf pos = Inr (VAlt i v, pos + trivial_count (TVariant ts))"
    by simp
qed

lemma reads_back_Cons:
  assumes "reads_back nt nt' t v"
    and "puts (trivial_put_all nt ts vs) (trivial_get_all nt' ts) (sum_list (map trivial_count ts)) vs"
  shows "puts (trivial_put_all nt (t # ts) (v # vs)) (trivial_get_all nt' (t # ts))
    (sum_list (map trivial_count (t # ts))) (v # vs)"
  unfolding list.map sum_list.Cons by (rule puts_seq [OF assms]) simp_all

lemmas reads_back_Cons' = reads_back_Cons [unfolded list.map sum_list.Cons]

lemma reads_back_tuple:
  assumes "puts (trivial_put_all nt ts vs) (trivial_get_all nt' ts) (sum_list (map trivial_count ts)) vs"
  shows "reads_back nt nt' (TTuple ts) (VTuple vs)" and "reads_back nt nt' (TReflect ts) (VTuple vs)"
  using puts_map [OF assms, of "trivial_put nt (TTuple ts) (VTuple vs)" "trivial_get nt' (TTuple ts)" VTuple]
    puts_map [OF assms, of "trivial_put nt (TReflect ts) (VTuple vs)" "trivial_get nt' (TReflect ts)" VTuple]
  by (simp_all add: foldl_plus_sum_list)

lemma trivial_roundtrip_all:
  shows "is_serializable t \<Longrightarrow> has_type t v \<Longrightarrow> reads_back nt nt' t v"
    and "list_all is_serializable ts \<Longrightarrow> have_types ts vs
      \<Longrightarrow> puts (trivial_put_all nt ts vs) (trivial_get_all nt' ts) (sum_list (map trivial_count ts)) vs"
    and "list_all is_serializable ts \<Longrightarrow> alt_has_type ts i w
      \<Longrightarrow> puts (trivial_put_alt nt ts i w) (trivial_get_alt nt' ts i) (trivial_count (ts ! i)) w"
proof (induction t v and ts vs and ts i w rule: has_type_have_types_alt_has_type.induct)
  case (1 a v)
  then have "puts (put_arithmetic nt a v) (get_arithmetic nt' a) (arith_size a) v"
    by (intro put_arithmetic_puts) simp
  moreover have "trivial_put nt (TArith a) v = put_arithmetic nt a v"
    and "trivial_get nt' (TArith a) = get_arithmetic nt' a" by (intro ext, simp)+
  ultimately show ?case by simp
next
  case (3 t v)
  then show ?case by (auto split: val.splits intro!: reads_back_None reads_back_Some
        simp del: trivial_count.simps trivial_put.simps trivial_get.simps)
next
  case (4 ts v)
  then show ?case using trivial_count_alt [of _ ts] alt_has_type_index [of ts]
    by (auto split: val.splits intro!: reads_back_Alt simp del: trivial_count.simps trivial_put.simps trivial_get.simps)
next
  case (8 ts v)
  then show ?case by (auto split: val.splits intro!: reads_back_tuple
        simp del: trivial_count.simps trivial_put.simps trivial_get.simps)
next
  case (9 ts v)
  then show ?case by (auto split: val.splits intro!: reads_back_tuple
        simp del: trivial_count.simps trivial_put.simps trivial_get.simps)
next
  case (12 vs)
  then show ?case by (simp add: puts_def stored_def)
next
  case (13 t ts vs)
  then show ?case by (auto split: list.splits intro!: reads_back_Cons' simp del: trivial_put_all.simps trivial_get_all.simps)
next
  case (15 t ts i v)
  then show ?case by (auto split: nat.splits simp: puts_def)
qed auto

section \<open>Reading arbitrary bytes\<close>

text \<open>
  On arbitrary bytes of the right number the reader returns an object of the type, unless a byte that
  stands for a \<open>bool\<close> is neither 0 nor 1.
\<close>

definition reads_object :: "('a \<Rightarrow> bool) \<Rightarrow> nat \<Rightarrow> nat \<Rightarrow> ('a \<times> nat) result \<Rightarrow> bool" where
  "reads_object good pos n r \<longleftrightarrow> r = Inl Invalid_bool \<or> (\<exists>x. r = Inr (x, pos + n) \<and> good x)"

lemma get_arithmetic_object:
  assumes "0 < arith_size a" and "pos + arith_size a \<le> length buf"
  shows "reads_object (arith_typed a) pos (arith_size a) (get_arithmetic nt a buf pos)"
proof -
  let ?bs = "take (arith_size a) (drop pos buf)"
  have load: "load nt a (drop pos buf) = of_bits a (le_uint ?bs)" using assms(2) by (simp add: load_eq)
  have range: "0 \<le> le_uint ?bs" "le_uint ?bs < 256 ^ arith_size a"
  proof -
    have "arith_size a \<le> length (drop pos buf)" using assms(2) by simp
    then have "length ?bs = arith_size a" by (simp only: length_take min_absorb2)
    then show "le_uint ?bs < 256 ^ arith_size a" using le_uint_less [of ?bs] by metis
  qed simp
  show ?thesis
  proof (cases "of_bits a (le_uint ?bs)")
    case (Inl e)
    then have "e = Invalid_bool" by (cases a) (auto split: if_splits)
    then show ?thesis using Inl load assms(2) by (simp add: reads_object_def get_arithmetic_def)
  next
    case (Inr v)
    then show ?thesis
      using of_bits_typed [OF Inr range assms(1)] load assms(2) by (simp add: reads_object_def get_arithmetic_def)
  qed
qed

lemma reads_object_cases:
  assumes "reads_object good pos n r"
  obtains "r = Inl Invalid_bool" | x where "r = Inr (x, pos + n)" and "good x"
  using assms by (auto simp: reads_object_def)

lemma trivial_get_object:
  shows "is_serializable t \<Longrightarrow> pos + trivial_count t \<le> length buf
      \<Longrightarrow> reads_object (has_type t) pos (trivial_count t) (trivial_get nt t buf pos)"
    and "list_all is_serializable ts \<Longrightarrow> pos + sum_list (map trivial_count ts) \<le> length buf
      \<Longrightarrow> reads_object (have_types ts) pos (sum_list (map trivial_count ts)) (trivial_get_all nt ts buf pos)"
    and "list_all is_serializable ts \<Longrightarrow> i < length ts \<Longrightarrow> pos + trivial_count (ts ! i) \<le> length buf
      \<Longrightarrow> reads_object (alt_has_type ts i) pos (trivial_count (ts ! i)) (trivial_get_alt nt ts i buf pos)"
proof (induction nt t buf pos and nt ts buf pos and nt ts i buf pos
    rule: trivial_get_trivial_get_all_trivial_get_alt.induct)
  case (1 nt a buf pos)
  have "reads_object (arith_typed a) pos (arith_size a) (get_arithmetic nt a buf pos)"
    using 1 by (intro get_arithmetic_object) simp_all
  then show ?case using 1 by (auto simp: reads_object_def)
next
  case (2 nt t buf pos)
  have "reads_object (arith_typed Bool) pos (arith_size Bool) (get_arithmetic nt Bool buf pos)"
    using 2 by (intro get_arithmetic_object) simp_all
  then show ?case
  proof (cases rule: reads_object_cases)
    case (2 x)
    then obtain b where x: "x = VBool b" by (cases x) auto
    show ?thesis
    proof (cases b)
      case True
      have "reads_object (has_type t) (pos + 1) (trivial_count t) (trivial_get nt t buf (pos + 1))"
        using "2.IH" [OF refl] "2.prems" 2 x True by auto
      then show ?thesis using 2 x True by (cases rule: reads_object_cases) (auto simp: reads_object_def)
    next
      case False
      then show ?thesis using 2 x by (simp add: reads_object_def)
    qed
  qed (simp add: reads_object_def)
next
  case (3 nt ts buf pos)
  then show ?case by (auto simp: reads_object_def)
next
  case (4 nt ts buf pos)
  then show ?case by (auto simp: reads_object_def foldl_plus_sum_list)
next
  case (5 nt ts buf pos)
  have "reads_object (arith_typed (UInt 1)) pos (arith_size (UInt 1)) (get_arithmetic nt (UInt 1) buf pos)"
    using "5.prems" by (intro get_arithmetic_object) simp_all
  then show ?case
  proof (cases rule: reads_object_cases)
    case (2 x)
    define i where "i = clamp (case x of VInt y \<Rightarrow> nat y | _ \<Rightarrow> 0) 0 (length ts - 1)"
    have "clamp j 0 (n - 1) < n" if "0 < n" for j n using that by (auto simp: clamp_def)
    then have i: "i < length ts" using "5.prems"(1) by (simp add: i_def)
    have "pos + (1 + trivial_count (ts ! i)) \<le> length buf"
      using trivial_count_alt [OF i] "5.prems"(2) by linarith
    then have "reads_object (alt_has_type ts i) (pos + 1) (trivial_count (ts ! i)) (trivial_get_alt nt ts i buf (pos + 1))"
      using "5.IH" [OF refl] 2 "5.prems"(1) i by (simp add: i_def)
    moreover have "trivial_get nt (TVariant ts) buf pos = bindR (trivial_get_alt nt ts i buf (pos + 1))
        (\<lambda>(containee, tmp). Inr (VAlt i containee, pos + trivial_count (TVariant ts)))"
      using 2 by (simp add: i_def Let_def)
    ultimately show ?thesis using "5.prems"(1)
      by (elim reads_object_cases) (simp_all add: reads_object_def del: trivial_get.simps trivial_count.simps)
  qed (simp add: reads_object_def)
next
  case (8 nt t ts buf pos)
  have "reads_object (has_type t) pos (trivial_count t) (trivial_get nt t buf pos)" using "8.IH"(1) "8.prems" by simp
  then show ?case
  proof (cases rule: reads_object_cases)
    case (2 v)
    have "reads_object (have_types ts) (pos + trivial_count t) (sum_list (map trivial_count ts))
        (trivial_get_all nt ts buf (pos + trivial_count t))"
      using "8.IH"(2) [of "pos + trivial_count t"] 2 "8.prems" by simp
    then show ?thesis using 2 by (cases rule: reads_object_cases) (simp_all add: reads_object_def)
  qed (simp add: reads_object_def)
next
  case (10 nt t ts i buf pos)
  then show ?case by (cases i) (simp_all add: reads_object_def)
qed (simp_all add: reads_object_def)

section \<open>Properties\<close>

text \<open>
  C11: the fixed layout round trip. Whatever the buffer held before, \<open>serialize_into\<close> stores an object in
  exactly \<open>size\<close> bytes at the position it is given, leaves every other byte as it was, and
  \<open>deserialize_into\<close>, also on a machine of the other byte order, gives the object back.
\<close>
theorem trivial_roundtrip:
  assumes "is_serializable t" and "has_type t v" and "pos + trivial_size t \<le> length buf"
  shows "\<exists>buf'. trivial_serialize_into nt t buf pos v = Inr (buf', pos + trivial_size t)
    \<and> length buf' = length buf
    \<and> (\<forall>i < length buf. i < pos \<or> pos + trivial_size t \<le> i \<longrightarrow> buf' ! i = buf ! i)
    \<and> trivial_deserialize_into nt' t buf' pos = Inr (v, pos + trivial_size t)"
proof -
  have len: "pos + trivial_count t \<le> length buf" using assms(3) by (simp add: trivial_size_def)
  obtain buf' where "trivial_put nt t v (buf, pos) = Inr (buf', pos + trivial_count t)"
    "writes buf buf' pos (trivial_count t)" "stored (trivial_get nt' t) buf' pos (trivial_count t) v"
    using putsD [OF trivial_roundtrip_all(1) [OF assms(1,2)] len] by blast
  then show ?thesis
    using len by (auto simp: trivial_serialize_into_def trivial_deserialize_into_def trivial_size_def
        writes_def stored_def agree_def)
qed

abbreviation fixed_ty :: ty where
  "fixed_ty \<equiv> TReflect [TOptional (TArith (UInt 2)), TVariant [TArith Bool, TArith (SInt 4)]]"

abbreviation fixed_val :: val where
  "fixed_val \<equiv> VTuple [VNone, VAlt 0 (VBool True)]"

theorem trivial_roundtrip_witness:
  "\<exists>buf'. trivial_serialize_into Little fixed_ty (replicate 10 7) 1 fixed_val = Inr (buf', 1 + trivial_size fixed_ty)
     \<and> trivial_deserialize_into Big fixed_ty buf' 1 = Inr (fixed_val, 1 + trivial_size fixed_ty)"
proof -
  have "is_serializable fixed_ty" and "has_type fixed_ty fixed_val"
    and "1 + trivial_size fixed_ty \<le> length (replicate 10 (7 :: byte))"
    by (simp_all add: trivial_size_def max_many_def)
  from trivial_roundtrip [OF this, of Little Big] show ?thesis by blast
qed

text \<open>
  \<open>reflectible_is_equal\<close> decides equality. Comparing the zero-initialized serializations of two objects
  of one type gives \<open>true\<close> exactly when the objects are equal (floating-point members bit for bit): the bytes
  an optional or a variant leaves out do not matter.
\<close>
theorem reflectible_is_equal_correct:
  assumes "is_serializable t" and "has_type t lhs" and "has_type t rhs"
  shows "reflectible_is_equal nt t lhs rhs = Inr (lhs = rhs)"
proof -
  let ?zero = "replicate (trivial_size t) (0 :: byte)"
  have len: "0 + trivial_size t \<le> length ?zero" by simp
  obtain l where l: "trivial_serialize_into nt t ?zero 0 lhs = Inr (l, 0 + trivial_size t)"
    "trivial_deserialize_into nt t l 0 = Inr (lhs, 0 + trivial_size t)"
    using trivial_roundtrip [OF assms(1,2) len] by blast
  obtain r where r: "trivial_serialize_into nt t ?zero 0 rhs = Inr (r, 0 + trivial_size t)"
    "trivial_deserialize_into nt t r 0 = Inr (rhs, 0 + trivial_size t)"
    using trivial_roundtrip [OF assms(1,3) len] by blast
  have "l = r \<longleftrightarrow> lhs = rhs" using l r by auto
  then show ?thesis using l r by (simp add: reflectible_is_equal_def Let_def)
qed

theorem reflectible_is_equal_correct_witness:
  "reflectible_is_equal Little fixed_ty fixed_val (VTuple [VSome (VInt 0), VAlt 0 (VBool True)]) = Inr False"
proof -
  have "is_serializable fixed_ty" and "has_type fixed_ty fixed_val"
    and "has_type fixed_ty (VTuple [VSome (VInt 0), VAlt 0 (VBool True)])" by simp_all
  from reflectible_is_equal_correct [OF this] show ?thesis by simp
qed

text \<open>
  the fixed-layout reader is total. On arbitrary bytes \<open>deserialize_into\<close> stays inside \<open>size\<close> bytes,
  clamps the index of a variant to an alternative that exists, and returns an object of the type; the
  only exception is a byte other than 0 and 1 that is read as a \<open>bool\<close>.
\<close>
theorem trivial_deserialize_total:
  assumes "is_serializable t" and "pos + trivial_size t \<le> length buf"
  shows "trivial_deserialize_into nt t buf pos = Inl Invalid_bool
    \<or> (\<exists>v. trivial_deserialize_into nt t buf pos = Inr (v, pos + trivial_size t) \<and> has_type t v)"
  using trivial_get_object(1) [OF assms(1), of pos buf nt] assms(2)
  by (simp add: trivial_size_def trivial_deserialize_into_def reads_object_def)

theorem trivial_deserialize_total_witness:
  "trivial_deserialize_into Little (TVariant [TArith (UInt 1), TArith (UInt 1)]) [255, 9] 0 \<noteq> Inl Invalid_bool
   \<and> (\<exists>v. trivial_deserialize_into Little (TVariant [TArith (UInt 1), TArith (UInt 1)]) [255, 9] 0 = Inr (v, 2))"
proof -
  have "trivial_deserialize_into Little (TVariant [TArith (UInt 1), TArith (UInt 1)]) [255, 9] 0 \<noteq> Inl Invalid_bool"
    by code_simp
  with trivial_deserialize_total [of "TVariant [TArith (UInt 1), TArith (UInt 1)]" 0 "[255, 9]" Little]
  show ?thesis by (auto simp: trivial_size_def max_many_def numeral_2_eq_2)
qed

end
