(* ===== verification/Heap_Order.thy ===== *)
theory Heap_Order
  imports Prelude
begin

text \<open>
  The order of a heap with \<open>D\<close> children per node kept in an array, shared by
  \<open>algorithm_extension/short_heap.h\<close> and \<open>memory_management/key_heap.h\<close>: the children of \<open>idx\<close> are
  \<open>idx * D + 1, ..., idx * D + D\<close>. The locale \<open>better_order\<close> is what both rely on from the comparator
  they are given: it is total and transitive, like the \<open><=\<close> of \<open>LessEqualCmp\<close>.
\<close>

section \<open>Indices\<close>

definition parent :: "nat \<Rightarrow> nat \<Rightarrow> nat" where
  "parent D i = (i - 1) div D"

lemma parent_child [simp]: "j < D \<Longrightarrow> parent D (i * D + Suc j) = i"
  by (simp add: parent_def)

lemma parent_child_cases:
  assumes "0 < D" and "0 < i"
  obtains j where "j < D" and "i = parent D i * D + Suc j"
proof -
  have "i - 1 = parent D i * D + (i - 1) mod D" by (simp add: parent_def)
  with assms show ?thesis by (intro that [of "(i - 1) mod D"]) simp_all
qed

lemma parent_less: "0 < i \<Longrightarrow> parent D i < i"
  by (simp add: parent_def le_less_trans [OF div_le_dividend])

lemma parent_eq_bounds:
  "0 < D \<Longrightarrow> 0 < i \<Longrightarrow> parent D i = p \<Longrightarrow> p * D + 1 \<le> i \<and> i \<le> p * D + D"
  by (rule parent_child_cases [of D i]) auto

lemma child_greater [simp]: "0 < D \<Longrightarrow> idx < Suc (idx * D + j)"
  by (cases D) auto

lemma first_child_greater [simp]: "0 < D \<Longrightarrow> idx < Suc (idx * D)"
  using child_greater [of D idx 0] by simp

lemma child_in_range: "i < D \<Longrightarrow> \<not> n \<le> Suc (idx * D + i) \<Longrightarrow> idx < n"
  using child_greater [of D idx i] by linarith

section \<open>Arrays\<close>

definition swap :: "'a list \<Rightarrow> nat \<Rightarrow> nat \<Rightarrow> 'a list" where
  "swap xs i j = xs[i := xs ! j, j := xs ! i]"

lemma length_swap [simp]: "length (swap xs i j) = length xs"
  by (simp add: swap_def)

lemma mset_swap_indices [simp]: "i < length xs \<Longrightarrow> j < length xs \<Longrightarrow> mset (swap xs i j) = mset xs"
  by (simp add: swap_def mset_swap)

lemma nth_swap:
  "i < length xs \<Longrightarrow> j < length xs \<Longrightarrow> k < length xs \<Longrightarrow>
   swap xs i j ! k = (if k = i then xs ! j else if k = j then xs ! i else xs ! k)"
  by (simp add: swap_def nth_list_update)

lemma drop_swap [simp]: "i < n \<Longrightarrow> j < n \<Longrightarrow> drop n (swap xs i j) = drop n xs"
  by (simp add: swap_def drop_update_cancel)

section \<open>Order\<close>

text \<open>
  \<open>heap_from better D xs n k\<close>: in the first \<open>n\<close> cells every edge whose parent is \<open>k\<close> or later is in
  order. \<open>down_ok\<close> and \<open>up_ok\<close>: the same but for the edges below, respectively above, one node.
\<close>

definition heap_from :: "('a \<Rightarrow> 'a \<Rightarrow> bool) \<Rightarrow> nat \<Rightarrow> 'a list \<Rightarrow> nat \<Rightarrow> nat \<Rightarrow> bool" where
  "heap_from better D xs n k \<longleftrightarrow>
     (\<forall>i<n. 0 < i \<longrightarrow> k \<le> parent D i \<longrightarrow> better (xs ! parent D i) (xs ! i))"

definition heap_ordered :: "('a \<Rightarrow> 'a \<Rightarrow> bool) \<Rightarrow> nat \<Rightarrow> 'a list \<Rightarrow> nat \<Rightarrow> bool" where
  "heap_ordered better D xs n \<longleftrightarrow> heap_from better D xs n 0"

definition down_ok :: "('a \<Rightarrow> 'a \<Rightarrow> bool) \<Rightarrow> nat \<Rightarrow> 'a list \<Rightarrow> nat \<Rightarrow> nat \<Rightarrow> nat \<Rightarrow> bool" where
  "down_ok better D xs n k idx \<longleftrightarrow>
     (\<forall>i<n. 0 < i \<longrightarrow> k \<le> parent D i \<longrightarrow> parent D i \<noteq> idx \<longrightarrow> better (xs ! parent D i) (xs ! i)) \<and>
     (\<forall>i<n. 0 < i \<longrightarrow> parent D i = idx \<longrightarrow> 0 < idx \<longrightarrow> k \<le> parent D idx
        \<longrightarrow> better (xs ! parent D idx) (xs ! i))"

definition up_ok :: "('a \<Rightarrow> 'a \<Rightarrow> bool) \<Rightarrow> nat \<Rightarrow> 'a list \<Rightarrow> nat \<Rightarrow> nat \<Rightarrow> bool" where
  "up_ok better D xs n idx \<longleftrightarrow>
     (\<forall>i<n. 0 < i \<longrightarrow> i \<noteq> idx \<longrightarrow> better (xs ! parent D i) (xs ! i)) \<and>
     (\<forall>i<n. 0 < i \<longrightarrow> parent D i = idx \<longrightarrow> 0 < idx \<longrightarrow> better (xs ! parent D idx) (xs ! i))"

lemma heap_fromD: "heap_from better D xs n k \<Longrightarrow> i < n \<Longrightarrow> 0 < i \<Longrightarrow> k \<le> parent D i
    \<Longrightarrow> better (xs ! parent D i) (xs ! i)"
  by (simp add: heap_from_def)

lemma heap_from_prefix:
  "heap_from better D xs n k \<Longrightarrow> m \<le> n \<Longrightarrow> (\<And>i. i < m \<Longrightarrow> ys ! i = xs ! i) \<Longrightarrow> heap_from better D ys m k"
  unfolding heap_from_def
proof (intro allI impI)
  fix i
  assume *: "\<forall>i<n. 0 < i \<longrightarrow> k \<le> parent D i \<longrightarrow> better (xs ! parent D i) (xs ! i)"
    and "m \<le> n" and eq: "\<And>i. i < m \<Longrightarrow> ys ! i = xs ! i" and i: "i < m" "0 < i" "k \<le> parent D i"
  then have "parent D i < m" using parent_less [of i D] by simp
  then show "better (ys ! parent D i) (ys ! i)" using * i \<open>m \<le> n\<close> eq by simp
qed

lemma down_ok_start: "heap_from better D xs n (Suc idx) \<Longrightarrow> down_ok better D xs n idx idx"
  unfolding down_ok_def
proof (intro conjI allI impI)
  fix i assume "heap_from better D xs n (Suc idx)" "i < n" "0 < i" "idx \<le> parent D i" "parent D i \<noteq> idx"
  then show "better (xs ! parent D i) (xs ! i)" by (simp add: heap_from_def)
next
  fix i assume "0 < idx" "idx \<le> parent D idx"
  then show "better (xs ! parent D idx) (xs ! i)" using parent_less [of idx D] by simp
qed

lemma down_ok_root:
  assumes "heap_ordered better D xs n" and "\<And>i. 0 < i \<Longrightarrow> i < m \<Longrightarrow> ys ! i = xs ! i" and "m \<le> n"
  shows "down_ok better D ys m 0 0"
  unfolding down_ok_def
proof (intro conjI allI impI)
  fix i assume i: "i < m" "0 < i" "parent D i \<noteq> 0"
  then have "parent D i < m" using parent_less [of i D] by simp
  then show "better (ys ! parent D i) (ys ! i)"
    using assms i by (auto simp: heap_ordered_def heap_from_def)
qed simp

lemma up_ok_last:
  assumes "heap_ordered better D xs n" and "0 < D"
  shows "up_ok better D xs (Suc n) n"
  unfolding up_ok_def
proof (intro conjI allI impI)
  fix i assume "i < Suc n" "0 < i" "i \<noteq> n"
  then show "better (xs ! parent D i) (xs ! i)"
    using assms by (auto simp: heap_ordered_def heap_from_def)
next
  fix i assume "i < Suc n" "0 < i" "parent D i = n" "0 < n"
  then show "better (xs ! parent D n) (xs ! i)" using parent_less [of i D] by simp
qed

locale better_order =
  fixes better :: "'a \<Rightarrow> 'a \<Rightarrow> bool"
  assumes better_total: "better x y \<or> better y x"
    and better_trans: "better x y \<Longrightarrow> better y z \<Longrightarrow> better x z"
begin

lemma better_refl: "better x x"
  using better_total by blast

lemma root_best:
  assumes "heap_ordered better D xs n" and "i < n"
  shows "better (xs ! 0) (xs ! i)"
  using assms(2)
proof (induction i rule: less_induct)
  case (less i)
  show ?case
  proof (cases "i = 0")
    case False
    then have "better (xs ! 0) (xs ! parent D i)"
      using less parent_less [of i D] by simp
    moreover have "better (xs ! parent D i) (xs ! i)"
      using assms(1) less.prems False by (simp add: heap_ordered_def heap_from_def)
    ultimately show ?thesis by (rule better_trans)
  qed (simp add: better_refl)
qed

text \<open>An element that is better than its best child may stay; otherwise it changes place with it.\<close>

lemma down_ok_stop:
  assumes "down_ok better D xs n k idx"
    and "\<And>i. i < n \<Longrightarrow> 0 < i \<Longrightarrow> parent D i = idx \<Longrightarrow> better (xs ! idx) (xs ! i)"
  shows "heap_from better D xs n k"
  using assms by (auto simp: down_ok_def heap_from_def)

lemma down_ok_swap:
  assumes ok: "down_ok better D xs n k idx" and k: "k \<le> idx"
    and len: "n \<le> length xs" and cand: "cand < n" "0 < cand" "parent D cand = idx"
    and best: "\<And>i. i < n \<Longrightarrow> 0 < i \<Longrightarrow> parent D i = idx \<Longrightarrow> better (xs ! cand) (xs ! i)"
    and not_better: "\<not> better (xs ! idx) (xs ! cand)"
  shows "down_ok better D (swap xs idx cand) n k cand"
proof -
  have idx: "idx < cand" "idx < n" using parent_less [OF cand(2), of D] cand by simp_all
  have ys: "swap xs idx cand ! i = (if i = idx then xs ! cand else if i = cand then xs ! idx else xs ! i)"
    if "i < n" for i
    using that len cand idx by (simp add: nth_swap)
  have better: "better (xs ! cand) (xs ! idx)" using better_total not_better by blast
  show ?thesis
    unfolding down_ok_def
  proof (intro conjI allI impI)
    fix i assume i: "i < n" "0 < i" "k \<le> parent D i" "parent D i \<noteq> cand"
    have p: "parent D i < i" "parent D i < n" using parent_less [OF i(2), of D] i by simp_all
    consider (own) "i = cand" | (sibling) "parent D i = idx" "i \<noteq> cand" | (above) "i = idx"
      | (other) "parent D i \<noteq> idx" "i \<noteq> idx" "i \<noteq> cand" by blast
    then show "better (swap xs idx cand ! parent D i) (swap xs idx cand ! i)"
    proof cases
      case own then show ?thesis using cand idx better by (simp add: ys)
    next
      case sibling
      then have "i \<noteq> idx" using p by simp
      with sibling show ?thesis using best [of i] i p by (simp add: ys)
    next
      case above
      then have "better (xs ! parent D idx) (xs ! cand)" using ok i cand by (simp add: down_ok_def)
      then show ?thesis using above i p by (simp add: ys)
    next
      case other then show ?thesis using ok i p by (simp add: ys down_ok_def)
    qed
  next
    fix i assume i: "i < n" "0 < i" "parent D i = cand" "0 < cand" "k \<le> parent D cand"
    then have "cand < i" using parent_less [of i D] by simp
    moreover have "better (xs ! cand) (xs ! i)" using ok i k idx by (auto simp: down_ok_def)
    ultimately show "better (swap xs idx cand ! parent D cand) (swap xs idx cand ! i)"
      using i idx cand by (simp add: ys)
  qed
qed

lemma up_ok_stop:
  "up_ok better D xs n idx \<Longrightarrow> idx = 0 \<or> better (xs ! parent D idx) (xs ! idx) \<Longrightarrow> heap_ordered better D xs n"
  by (auto simp: up_ok_def heap_ordered_def heap_from_def)

lemma up_ok_swap:
  assumes ok: "up_ok better D xs n idx" and len: "n \<le> length xs" and idx: "idx < n" "0 < idx"
    and not_better: "\<not> better (xs ! parent D idx) (xs ! idx)"
  shows "up_ok better D (swap xs (parent D idx) idx) n (parent D idx)"
proof -
  let ?p = "parent D idx"
  have p: "?p < idx" "?p < n" using parent_less [OF idx(2), of D] idx by simp_all
  have ys: "swap xs ?p idx ! i = (if i = ?p then xs ! idx else if i = idx then xs ! ?p else xs ! i)"
    if "i < n" for i
    using that len idx p by (simp add: nth_swap)
  have better: "better (xs ! idx) (xs ! ?p)" using better_total not_better by blast
  have edge: "better (xs ! parent D i) (xs ! i)" if "i < n" "0 < i" "i \<noteq> idx" for i
    using ok that by (simp add: up_ok_def)
  have below: "better (xs ! ?p) (xs ! i)" if "i < n" "0 < i" "parent D i = idx" for i
    using ok that idx by (simp add: up_ok_def)
  show ?thesis
    unfolding up_ok_def
  proof (intro conjI allI impI)
    fix i assume i: "i < n" "0 < i" "i \<noteq> ?p"
    have pi: "parent D i < i" "parent D i < n" using parent_less [OF i(2), of D] i by simp_all
    consider "i = idx" | "parent D i = idx" "i \<noteq> idx" | "parent D i = ?p" "i \<noteq> idx"
      | "parent D i \<noteq> ?p" "parent D i \<noteq> idx" "i \<noteq> idx" by blast
    then show "better (swap xs ?p idx ! parent D i) (swap xs ?p idx ! i)"
    proof cases
      case 1 then show ?thesis using p idx better by (simp add: ys)
    next
      case 2 then show ?thesis using below [of i] i p pi by (simp add: ys)
    next
      case 3 then show ?thesis using better_trans [OF better] edge [of i] i p pi by (simp add: ys)
    next
      case 4 then show ?thesis using edge [of i] i p pi by (simp add: ys)
    qed
  next
    fix i assume i: "i < n" "0 < i" "parent D i = ?p" "0 < ?p"
    have up: "better (xs ! parent D ?p) (xs ! ?p)" using edge [of ?p] p i by simp
    have "?p < i" "parent D ?p < ?p" using parent_less [of i D] parent_less [of ?p D] i by simp_all
    then show "better (swap xs ?p idx ! parent D ?p) (swap xs ?p idx ! i)"
      using up better_trans [OF up] edge [of i] i p by (auto simp: ys)
  qed
qed

end

end
