(* ===== verification/Short_Heap.thy ===== *)
theory Short_Heap
  imports Heap_Order
begin

text \<open>
  \<open>algorithm_extension/short_heap.h\<close>: heaps with \<open>OUT_DEGREE_SZ\<close> children per node in a range of
  an array. A range \<open>[first, last)\<close> is the list \<open>xs\<close> of the cells from \<open>first\<close> on together with
  the number \<open>n\<close> of cells before \<open>last\<close>; \<open>better\<close> is the comparator. \<open>std::abort()\<close> is the error \<open>Abort\<close>.
  Indices are natural numbers: a child index is at most \<open>n * OUT_DEGREE_SZ + OUT_DEGREE_SZ\<close>, below
  \<open>2^64\<close> for every array that fits in memory with the degrees in use. The \<open>static_assert\<close> on the
  degree is the guard \<open>D = 0\<close>, which no instantiation of the templates passes.
\<close>

section \<open>Moving an element down\<close>

text \<open>
  The loop over \<open>i\<close> in \<open>_push_down_heap\<close> that looks for the best child, and the one without a bound
  check in \<open>_fast_push_down_heap\<close>.
\<close>

function best_child :: "('a \<Rightarrow> 'a \<Rightarrow> bool) \<Rightarrow> nat \<Rightarrow> 'a list \<Rightarrow> nat \<Rightarrow> nat \<Rightarrow> nat \<Rightarrow> nat \<Rightarrow> nat" where
  "best_child better D xs idx n i cand =
     (if i < D then
        let child_idx = idx * D + (i + 1) in
        if child_idx \<ge> n then cand
        else best_child better D xs idx n (i + 1)
               (if better (xs ! child_idx) (xs ! cand) then child_idx else cand)
      else cand)"
  by pat_completeness auto
termination by (relation "measure (\<lambda>(better, D, xs, idx, n, i, cand). D - i)") auto

function fast_best_child :: "('a \<Rightarrow> 'a \<Rightarrow> bool) \<Rightarrow> nat \<Rightarrow> 'a list \<Rightarrow> nat \<Rightarrow> nat \<Rightarrow> nat \<Rightarrow> nat" where
  "fast_best_child better D xs idx i cand =
     (if i < D then
        let child_idx = idx * D + (i + 1) in
        fast_best_child better D xs idx (i + 1)
          (if better (xs ! child_idx) (xs ! cand) then child_idx else cand)
      else cand)"
  by pat_completeness auto
termination by (relation "measure (\<lambda>(better, D, xs, idx, i, cand). D - i)") auto

declare best_child.simps [simp del] fast_best_child.simps [simp del]

lemma best_child_step:
  "best_child better D xs idx n i cand =
     (if i < D \<and> Suc (idx * D + i) < n
      then best_child better D xs idx n (Suc i)
             (if better (xs ! Suc (idx * D + i)) (xs ! cand) then Suc (idx * D + i) else cand)
      else cand)"
  by (subst best_child.simps) (simp add: Let_def)

lemma best_child_is_child:
  "cand < n \<Longrightarrow> 0 < cand \<Longrightarrow> parent D cand = idx \<Longrightarrow>
   best_child better D xs idx n i cand < n \<and> 0 < best_child better D xs idx n i cand
    \<and> parent D (best_child better D xs idx n i cand) = idx"
proof (induction "D - i" arbitrary: i cand)
  case (Suc k)
  then have "k = D - Suc i" and "i < D" by simp_all
  then have *: "best_child better D xs idx n (Suc i) c < n \<and> 0 < best_child better D xs idx n (Suc i) c
      \<and> parent D (best_child better D xs idx n (Suc i) c) = idx"
    if "c < n" "0 < c" "parent D c = idx" for c
    using Suc.hyps(1) that by blast
  show ?case
    using Suc.prems * parent_child [OF \<open>i < D\<close>, of idx]
    by (subst (1 2 3) best_child_step) auto
qed (simp add: best_child_step)

context better_order begin

lemma best_child_best:
  assumes "\<And>j. j < i \<Longrightarrow> Suc (idx * D + j) < n \<Longrightarrow> better (xs ! cand) (xs ! Suc (idx * D + j))"
    and "j < D" and "Suc (idx * D + j) < n"
  shows "better (xs ! best_child better D xs idx n i cand) (xs ! Suc (idx * D + j))"
  using assms(1)
proof (induction "D - i" arbitrary: i cand)
  case 0
  then have "j < i" using assms(2) by simp
  with 0 assms(3) show ?case by (subst best_child_step) simp
next
  case (Suc k)
  then have IH: "k = D - Suc i" "i < D" by simp_all
  let ?c = "Suc (idx * D + i)"
  let ?cand = "if better (xs ! ?c) (xs ! cand) then ?c else cand"
  show ?case
  proof (cases "?c < n")
    case True
    obtain c where c: "c = ?cand" "better (xs ! c) (xs ! ?c)" "better (xs ! c) (xs ! cand)"
      using better_total [of "xs ! ?c" "xs ! cand"] better_refl by auto
    have "better (xs ! c) (xs ! Suc (idx * D + j'))"
      if "j' < Suc i" "Suc (idx * D + j') < n" for j'
    proof (cases "j' = i")
      case True then show ?thesis using c by simp
    next
      case False
      then show ?thesis using Suc.prems [of j'] that better_trans [OF c(3)] by simp
    qed
    then have "better (xs ! best_child better D xs idx n (Suc i) c) (xs ! Suc (idx * D + j))"
      by (rule Suc.hyps(1) [OF IH(1)])
    then show ?thesis using True IH(2) c(1) by (subst best_child_step) simp
  next
    case False
    then have "j < i" using assms(3) by linarith
    then show ?thesis using Suc.prems [of j] assms(3) False by (subst best_child_step) simp
  qed
qed

end

lemma fast_best_child_eq:
  "idx * D + D < n \<Longrightarrow> fast_best_child better D xs idx i cand = best_child better D xs idx n i cand"
proof (induction better D xs idx i cand rule: fast_best_child.induct)
  case (1 better D xs idx i cand)
  show ?case
  proof (cases "i < D")
    case True
    with "1.prems" have "\<not> n \<le> idx * D + (i + 1)" by linarith
    with True "1.IH" [OF True refl "1.prems"] show ?thesis
      by (cases "better (xs ! Suc (idx * D + i)) (xs ! cand)"; subst fast_best_child.simps, subst best_child.simps)
        (simp_all add: Let_def)
  qed (simp add: fast_best_child.simps [of better D xs idx i] best_child.simps [of better D xs idx n i])
qed

lemma best_child_bounds:
  "idx < cand \<Longrightarrow> cand < n \<Longrightarrow> 0 < D \<Longrightarrow>
   idx < best_child better D xs idx n i cand \<and> best_child better D xs idx n i cand < n"
  by (induction better D xs idx n i cand rule: best_child.induct)
    (subst (1 2) best_child.simps, auto simp: Let_def)

lemma fast_best_child_greater:
  "idx < cand \<Longrightarrow> 0 < D \<Longrightarrow> idx < fast_best_child better D xs idx i cand"
  by (induction better D xs idx i cand rule: fast_best_child.induct)
    (subst fast_best_child.simps, auto simp: Let_def)

function push_down_heap :: "('a \<Rightarrow> 'a \<Rightarrow> bool) \<Rightarrow> nat \<Rightarrow> 'a list \<Rightarrow> nat \<Rightarrow> nat \<Rightarrow> 'a list result" where
  "push_down_heap better D xs idx n =
     (if D = 0 \<or> idx \<ge> n then Inl Abort
      else
        let first_child_idx = idx * D + 1 in
        if first_child_idx \<ge> n then Inr xs
        else
          let cand = best_child better D xs idx n 1 first_child_idx in
          if better (xs ! idx) (xs ! cand) then Inr xs
          else push_down_heap better D (swap xs idx cand) cand n)"
  by pat_completeness auto
termination
  by (relation "measure (\<lambda>(better, D, xs, idx, n). n - idx)")
    (auto intro!: diff_less_mono2 conjunct1 [OF best_child_bounds])

declare push_down_heap.simps [simp del]

function fast_push_down_heap :: "('a \<Rightarrow> 'a \<Rightarrow> bool) \<Rightarrow> nat \<Rightarrow> 'a list \<Rightarrow> nat \<Rightarrow> nat \<Rightarrow> 'a list result" where
  "fast_push_down_heap better D xs idx n =
     (if D = 0 \<or> idx \<ge> n then Inl Abort
      else
        let last_child_idx = idx * D + D in
        if last_child_idx \<ge> n then push_down_heap better D xs idx n
        else
          let cand = fast_best_child better D xs idx 1 (idx * D + 1) in
          if better (xs ! idx) (xs ! cand) then Inr xs
          else fast_push_down_heap better D (swap xs idx cand) cand n)"
  by pat_completeness auto
termination
  by (relation "measure (\<lambda>(better, D, xs, idx, n). n - idx)")
    (auto intro!: diff_less_mono2 fast_best_child_greater)

declare fast_push_down_heap.simps [simp del]

section \<open>Moving an element up, and the operations on ranges\<close>

function push_up_heap :: "('a \<Rightarrow> 'a \<Rightarrow> bool) \<Rightarrow> nat \<Rightarrow> 'a list \<Rightarrow> nat \<Rightarrow> nat \<Rightarrow> 'a list result" where
  "push_up_heap better D xs idx n =
     (if D = 0 \<or> idx \<ge> n then Inl Abort
      else if idx = 0 then Inr xs
      else
        let parent_idx = (idx - 1) div D in
        if better (xs ! parent_idx) (xs ! idx) then Inr xs
        else push_up_heap better D (swap xs parent_idx idx) parent_idx n)"
  by pat_completeness auto
termination
  by (relation "measure (\<lambda>(better, D, xs, idx, n). idx)")
    (auto intro: le_less_trans [OF div_le_dividend])

declare push_up_heap.simps [simp del]

text \<open>The loop of \<open>make_heap\<close>; the last argument counts the passes left.\<close>

fun make_heap_loop :: "('a \<Rightarrow> 'a \<Rightarrow> bool) \<Rightarrow> nat \<Rightarrow> nat \<Rightarrow> nat \<Rightarrow> nat \<Rightarrow> 'a list \<Rightarrow> nat \<Rightarrow> 'a list result" where
  "make_heap_loop better D n reference_idx i xs 0 = Inr xs"
| "make_heap_loop better D n reference_idx i xs (Suc m) =
     (let root_idx = reference_idx - i in
      bindR (push_down_heap better D xs root_idx n)
        (\<lambda>xs'. make_heap_loop better D n reference_idx (i + 1) xs' m))"

definition make_heap :: "('a \<Rightarrow> 'a \<Rightarrow> bool) \<Rightarrow> nat \<Rightarrow> 'a list \<Rightarrow> nat \<Rightarrow> 'a list result" where
  "make_heap better D xs n =
     (if n \<le> 1 then Inr xs
      else
        let back_idx = n - 1;
            reference_idx = (back_idx - 1) div D;
            root_sz = reference_idx + 1
        in make_heap_loop better D n reference_idx 0 xs root_sz)"

definition pop_heap :: "('a \<Rightarrow> 'a \<Rightarrow> bool) \<Rightarrow> nat \<Rightarrow> 'a list \<Rightarrow> nat \<Rightarrow> 'a list result" where
  "pop_heap better D xs n =
     (if n = 0 then Inl Abort
      else
        let xs' = swap xs 0 (n - 1); new_sz = n - 1 in
        if new_sz > 0 then push_down_heap better D xs' 0 new_sz else Inr xs')"

definition push_heap :: "('a \<Rightarrow> 'a \<Rightarrow> bool) \<Rightarrow> nat \<Rightarrow> 'a list \<Rightarrow> nat \<Rightarrow> 'a list result" where
  "push_heap better D xs n =
     (if n = 0 then Inl Abort else push_up_heap better D xs (n - 1) n)"

fun top_k_loop :: "('a \<Rightarrow> 'a \<Rightarrow> bool) \<Rightarrow> nat \<Rightarrow> nat \<Rightarrow> nat \<Rightarrow> 'a list \<Rightarrow> nat \<Rightarrow> 'a list result" where
  "top_k_loop better D n i xs 0 = Inr xs"
| "top_k_loop better D n i xs (Suc m) =
     bindR (pop_heap better D xs (n - i)) (\<lambda>xs'. top_k_loop better D n (i + 1) xs' m)"

definition top_k :: "('a \<Rightarrow> 'a \<Rightarrow> bool) \<Rightarrow> nat \<Rightarrow> 'a list \<Rightarrow> nat \<Rightarrow> nat \<Rightarrow> ('a list \<times> nat) result" where
  "top_k better D xs n k =
     (let iteration_sz = min k n; rem_sz = n - iteration_sz in
      bindR (top_k_loop better D n 0 xs iteration_sz) (\<lambda>xs'. Inr (xs', rem_sz)))"

definition sort_heap :: "('a \<Rightarrow> 'a \<Rightarrow> bool) \<Rightarrow> nat \<Rightarrow> 'a list \<Rightarrow> nat \<Rightarrow> 'a list result" where
  "sort_heap better D xs n = bindR (top_k better D xs n n) (\<lambda>(xs', first). Inr xs')"

section \<open>The test\<close>

text \<open>\<open>_is_heap\<close> and its two loops over the children of \<open>idx\<close>; the second one calls \<open>_is_heap\<close> again.\<close>

function children_in_order :: "('a \<Rightarrow> 'a \<Rightarrow> bool) \<Rightarrow> nat \<Rightarrow> 'a list \<Rightarrow> nat \<Rightarrow> nat \<Rightarrow> nat \<Rightarrow> bool" where
  "children_in_order better D xs n idx i =
     (if i < D then
        let child_idx = idx * D + (i + 1) in
        if child_idx \<ge> n then True
        else if \<not> better (xs ! idx) (xs ! child_idx) then False
        else children_in_order better D xs n idx (i + 1)
      else True)"
  by pat_completeness auto
termination by (relation "measure (\<lambda>(better, D, xs, n, idx, i). D - i)") auto

function is_heap_at :: "('a \<Rightarrow> 'a \<Rightarrow> bool) \<Rightarrow> nat \<Rightarrow> 'a list \<Rightarrow> nat \<Rightarrow> nat \<Rightarrow> bool result"
  and is_heap_children :: "('a \<Rightarrow> 'a \<Rightarrow> bool) \<Rightarrow> nat \<Rightarrow> 'a list \<Rightarrow> nat \<Rightarrow> nat \<Rightarrow> nat \<Rightarrow> bool result" where
  "is_heap_at better D xs n idx =
     (if idx \<ge> n then Inl Abort
      else if \<not> children_in_order better D xs n idx 0 then Inr False
      else is_heap_children better D xs n idx 0)"
| "is_heap_children better D xs n idx i =
     (if i < D then
        let child_idx = idx * D + (i + 1) in
        if child_idx \<ge> n then Inr True
        else bindR (is_heap_at better D xs n child_idx) (\<lambda>b.
          if \<not> b then Inr False else is_heap_children better D xs n idx (i + 1))
      else Inr True)"
  by pat_completeness auto
termination
  by (relation "inv_image (less_than <*lex*> less_than)
      (case_sum (\<lambda>(better, D, xs, n, idx). (n - idx, Suc D)) (\<lambda>(better, D, xs, n, idx, i). (n - idx, D - i)))")
    (auto intro!: diff_less_mono2 dest: child_in_range)

definition is_heap :: "('a \<Rightarrow> 'a \<Rightarrow> bool) \<Rightarrow> nat \<Rightarrow> 'a list \<Rightarrow> nat \<Rightarrow> bool result" where
  "is_heap better D xs n = (if n = 0 then Inr True else is_heap_at better D xs n 0)"

declare children_in_order.simps [simp del] is_heap_at.simps [simp del] is_heap_children.simps [simp del]

section \<open>What the operations do\<close>

text \<open>A rearrangement of the first \<open>n\<close> cells.\<close>

definition rearranged :: "'a list \<Rightarrow> 'a list \<Rightarrow> nat \<Rightarrow> bool" where
  "rearranged xs ys n \<longleftrightarrow> length ys = length xs \<and> mset ys = mset xs \<and> drop n ys = drop n xs"

lemma rearranged_refl [simp]: "rearranged xs xs n"
  by (simp add: rearranged_def)

lemma rearranged_trans: "rearranged xs ys n \<Longrightarrow> rearranged ys zs n \<Longrightarrow> rearranged xs zs n"
  by (simp add: rearranged_def)

lemma rearranged_swap: "i < n \<Longrightarrow> j < n \<Longrightarrow> n \<le> length xs \<Longrightarrow> rearranged xs (swap xs i j) n"
  by (simp add: rearranged_def)

lemma rearranged_longer: "rearranged xs ys m \<Longrightarrow> m \<le> n \<Longrightarrow> rearranged xs ys n"
  unfolding rearranged_def by (metis drop_drop le_add_diff_inverse2)

lemma rearranged_nth: "rearranged xs ys n \<Longrightarrow> n \<le> i \<Longrightarrow> i < length xs \<Longrightarrow> ys ! i = xs ! i"
  unfolding rearranged_def by (metis drop_drop hd_drop_conv_nth le_add_diff_inverse2)

lemma rearranged_take:
  assumes "rearranged xs ys n"
  shows "mset (take n ys) = mset (take n xs)"
proof -
  have "mset (take n ys) + mset (drop n ys) = mset (take n xs) + mset (drop n xs)"
    using assms unfolding rearranged_def by (metis append_take_drop_id mset_append)
  then show ?thesis using assms by (simp add: rearranged_def)
qed

lemma rearranged_source:
  assumes "rearranged xs ys n" and "i < n" and "n \<le> length xs"
  obtains j where "j < n" and "ys ! i = xs ! j"
proof -
  have "ys ! i \<in> set (take n ys)"
    using assms by (auto simp: rearranged_def in_set_conv_nth intro!: exI [of _ i])
  then have "ys ! i \<in> set (take n xs)" using rearranged_take [OF assms(1)] by (metis mset_eq_setD)
  then show ?thesis using that assms(3) by (auto simp: in_set_conv_nth)
qed

context better_order begin

lemma push_down_heap_ok:
  assumes "0 < D" and "idx < n" and "n \<le> length xs" and "down_ok better D xs n k idx" and "k \<le> idx"
  shows "\<exists>ys. push_down_heap better D xs idx n = Inr ys \<and> heap_from better D ys n k \<and> rearranged xs ys n"
  using assms(2-)
proof (induction "n - idx" arbitrary: xs idx rule: less_induct)
  case less
  let ?first = "Suc (idx * D)"
  let ?cand = "best_child better D xs idx n 1 ?first"
  show ?case
  proof (cases "?first < n")
    case False
    have "heap_from better D xs n k"
    proof (rule down_ok_stop [OF less.prems(3)])
      fix i assume "i < n" "0 < i" "parent D i = idx"
      then have "?first \<le> i" using parent_eq_bounds [OF assms(1), of i idx] by simp
      then show "better (xs ! idx) (xs ! i)" using False \<open>i < n\<close> by simp
    qed
    then show ?thesis using False less.prems assms(1) by (subst push_down_heap.simps) simp
  next
    case True
    have first: "parent D ?first = idx" using parent_child [OF assms(1), of idx] by simp
    have cand: "?cand < n" "0 < ?cand" "parent D ?cand = idx"
      using best_child_is_child [OF True _ first, of better xs 1] by simp_all
    then have "idx < ?cand" using parent_less [of ?cand D] by simp
    have best: "better (xs ! ?cand) (xs ! i)" if i: "i < n" "0 < i" "parent D i = idx" for i
    proof (rule parent_child_cases [OF assms(1) i(2)])
      fix j assume "j < D" "i = parent D i * D + Suc j"
      moreover have "better (xs ! ?first) (xs ! Suc (idx * D + j'))" if "j' < 1" for j'
        using that better_refl by simp
      ultimately show ?thesis using best_child_best [of 1 idx D n xs ?first j] i by simp
    qed
    show ?thesis
    proof (cases "better (xs ! idx) (xs ! ?cand)")
      case stay: True
      then have "heap_from better D xs n k"
        using less.prems(3) best better_trans [OF stay] by (intro down_ok_stop) auto
      then show ?thesis using True stay less.prems assms(1)
        by (subst push_down_heap.simps) (simp add: Let_def)
    next
      case False
      have "down_ok better D (swap xs idx ?cand) n k ?cand"
        using down_ok_swap less.prems cand best False by blast
      then obtain ys where ys: "push_down_heap better D (swap xs idx ?cand) ?cand n = Inr ys"
        "heap_from better D ys n k" "rearranged (swap xs idx ?cand) ys n"
        using less.hyps [OF diff_less_mono2 [OF \<open>idx < ?cand\<close> less.prems(1)] cand(1), of "swap xs idx ?cand"]
          less.prems \<open>idx < ?cand\<close> by (auto simp del: One_nat_def)
      then have "rearranged xs ys n"
        using rearranged_trans rearranged_swap [of idx n ?cand xs] cand(1) less.prems by blast
      then show ?thesis using ys True False less.prems assms(1)
        by (subst push_down_heap.simps) (simp add: Let_def)
    qed
  qed
qed

lemma push_up_heap_ok:
  assumes "0 < D" and "idx < n" and "n \<le> length xs" and "up_ok better D xs n idx"
  shows "\<exists>ys. push_up_heap better D xs idx n = Inr ys \<and> heap_ordered better D ys n \<and> rearranged xs ys n"
  using assms(2-)
proof (induction idx arbitrary: xs rule: less_induct)
  case (less idx)
  let ?p = "parent D idx"
  show ?case
  proof (cases "idx = 0 \<or> better (xs ! ?p) (xs ! idx)")
    case True
    then have "heap_ordered better D xs n" using up_ok_stop less.prems by blast
    then show ?thesis using True less.prems assms(1)
      by (subst push_up_heap.simps) (auto simp: Let_def parent_def)
  next
    case False
    then have p: "?p < idx" "?p < n" using parent_less [of idx D] less.prems by simp_all
    have "up_ok better D (swap xs ?p idx) n ?p" using up_ok_swap less.prems False by blast
    then obtain ys where "push_up_heap better D (swap xs ?p idx) ?p n = Inr ys"
      "heap_ordered better D ys n" "rearranged (swap xs ?p idx) ys n"
      using less.IH [OF p(1) p(2), of "swap xs ?p idx"] less.prems by auto
    moreover have "rearranged xs (swap xs ?p idx) n" using rearranged_swap p less.prems by blast
    ultimately show ?thesis using False less.prems assms(1) rearranged_trans
      by (subst push_up_heap.simps) (auto simp: Let_def parent_def)
  qed
qed

lemma make_heap_loop_ok:
  assumes "0 < D" and "n \<le> length xs" and "ref < n" and "m + i = Suc ref" and "heap_from better D xs n m"
  shows "\<exists>ys. make_heap_loop better D n ref i xs m = Inr ys \<and> heap_ordered better D ys n \<and> rearranged xs ys n"
  using assms(2-)
proof (induction m arbitrary: xs i)
  case 0
  then show ?case by (simp add: heap_ordered_def)
next
  case (Suc m)
  then have "ref - i = m" by simp
  have "down_ok better D xs n m m" using Suc.prems by (simp add: down_ok_start)
  then obtain ys where ys: "push_down_heap better D xs m n = Inr ys" "heap_from better D ys n m"
    "rearranged xs ys n"
    using push_down_heap_ok [OF assms(1), of m n xs m] Suc.prems by auto
  then have "n \<le> length ys" using Suc.prems by (simp add: rearranged_def)
  then obtain zs where "make_heap_loop better D n ref (i + 1) ys m = Inr zs"
    "heap_ordered better D zs n" "rearranged ys zs n"
    using Suc.IH [of ys "i + 1"] ys Suc.prems by auto
  then show ?case using ys \<open>ref - i = m\<close> rearranged_trans by auto
qed

lemma make_heap_ok:
  assumes "0 < D" and "n \<le> length xs"
  shows "\<exists>ys. make_heap better D xs n = Inr ys \<and> heap_ordered better D ys n \<and> rearranged xs ys n"
proof (cases "n \<le> 1")
  case True
  then show ?thesis by (auto simp: make_heap_def heap_ordered_def heap_from_def)
next
  case False
  let ?ref = "(n - 1 - 1) div D"
  have "\<not> Suc ?ref \<le> parent D i" if "i < n" for i
  proof -
    have "i - 1 \<le> n - 1 - 1" using that by linarith
    then have "(i - 1) div D \<le> ?ref" by (rule div_le_mono)
    then show ?thesis by (simp add: parent_def)
  qed
  then have "heap_from better D xs n (Suc ?ref)" by (auto simp: heap_from_def)
  moreover have "?ref \<le> n - 1 - 1" by (rule div_le_dividend)
  then have "?ref < n" using False by linarith
  ultimately show ?thesis
    using make_heap_loop_ok [OF assms, of ?ref "Suc ?ref" 0] False by (simp add: make_heap_def Let_def)
qed

lemma pop_heap_ok:
  assumes "0 < D" and "0 < n" and "n \<le> length xs" and "heap_ordered better D xs n"
  shows "\<exists>ys. pop_heap better D xs n = Inr ys \<and> ys ! (n - 1) = xs ! 0
    \<and> heap_ordered better D ys (n - 1) \<and> rearranged xs ys n"
proof (cases "n = 1")
  case True
  have "swap xs 0 0 = xs" by (simp add: swap_def)
  then show ?thesis using True by (auto simp: pop_heap_def Let_def heap_ordered_def heap_from_def)
next
  case False
  let ?xs = "swap xs 0 (n - 1)"
  have re: "rearranged xs ?xs n" using rearranged_swap [of 0 n "n - 1" xs] assms by simp
  have last: "?xs ! (n - 1) = xs ! 0" using nth_swap [of 0 xs "n - 1" "n - 1"] assms False by fastforce
  have "down_ok better D ?xs (n - 1) 0 0"
  proof (rule down_ok_root [OF assms(4)])
    fix i assume "0 < i" "i < n - 1"
    then show "?xs ! i = xs ! i" using assms(2,3) nth_swap [of 0 xs "n - 1" i] by fastforce
  qed simp
  then obtain ys where ys: "push_down_heap better D ?xs 0 (n - 1) = Inr ys"
    "heap_from better D ys (n - 1) 0" "rearranged ?xs ys (n - 1)"
  proof -
    have "0 < n - 1" and "n - 1 \<le> length ?xs" using assms False by simp_all
    then show ?thesis using push_down_heap_ok [OF assms(1) _ _ \<open>down_ok _ _ _ _ _ _\<close>] that by blast
  qed
  have "ys ! (n - 1) = xs ! 0"
    using rearranged_nth [OF ys(3), of "n - 1"] last assms False by simp
  moreover have "rearranged xs ys n"
    using rearranged_trans [OF re] rearranged_longer [OF ys(3)] by simp
  ultimately show ?thesis using ys False assms by (simp add: pop_heap_def Let_def heap_ordered_def)
qed

lemma push_heap_ok:
  assumes "0 < D" and "0 < n" and "n \<le> length xs" and "heap_ordered better D xs (n - 1)"
  shows "\<exists>ys. push_heap better D xs n = Inr ys \<and> heap_ordered better D ys n \<and> rearranged xs ys n"
  using push_up_heap_ok [OF assms(1), of "n - 1" n xs] up_ok_last [OF assms(4,1)] assms(2,3)
  by (simp add: push_heap_def)

text \<open>
  The cells from \<open>m\<close> on hold what was popped: each is better than everything before it.
\<close>

definition popped_from :: "'a list \<Rightarrow> nat \<Rightarrow> nat \<Rightarrow> bool" where
  "popped_from xs m n \<longleftrightarrow> (\<forall>p q. m \<le> q \<longrightarrow> q < n \<longrightarrow> p < q \<longrightarrow> better (xs ! q) (xs ! p))"

lemma popped_from_pop:
  assumes heap: "heap_ordered better D xs (Suc m)" and popped: "popped_from xs (Suc m) n"
    and re: "rearranged xs ys (Suc m)" and root: "ys ! m = xs ! 0" and len: "n \<le> length xs" "Suc m \<le> n"
  shows "popped_from ys m n"
  unfolding popped_from_def
proof (intro allI impI)
  fix p q assume q: "m \<le> q" "q < n" "p < q"
  show "better (ys ! q) (ys ! p)"
  proof (cases "p < Suc m")
    case True
    obtain j where j: "j < Suc m" "ys ! p = xs ! j"
      by (rule rearranged_source [OF re True]) (use len in auto)
    show ?thesis
    proof (cases "q = m")
      case True
      then show ?thesis using root_best [OF heap j(1)] root j by simp
    next
      case False
      then have "better (xs ! q) (xs ! j)" using popped q j by (simp add: popped_from_def)
      then show ?thesis using rearranged_nth [OF re, of q] q len False j by simp
    qed
  next
    case False
    then have "better (xs ! q) (xs ! p)" using popped q by (simp add: popped_from_def)
    then show ?thesis
      using rearranged_nth [OF re, of q] rearranged_nth [OF re, of p] q len False by simp
  qed
qed

lemma top_k_loop_ok:
  assumes "0 < D" and "n \<le> length xs" and "m + i \<le> n"
    and "heap_ordered better D xs (n - i)" and "popped_from xs (n - i) n"
  shows "\<exists>ys. top_k_loop better D n i xs m = Inr ys \<and> heap_ordered better D ys (n - (m + i))
    \<and> popped_from ys (n - (m + i)) n \<and> rearranged xs ys n"
  using assms(2-)
proof (induction m arbitrary: xs i)
  case 0
  then show ?case by simp
next
  case (Suc m)
  define j where "j = n - Suc i"
  have n: "n - i = Suc j" "Suc j \<le> n" using Suc.prems by (simp_all add: j_def)
  obtain ys where ys: "pop_heap better D xs (Suc j) = Inr ys" "ys ! j = xs ! 0"
    "heap_ordered better D ys j" "rearranged xs ys (Suc j)"
    using pop_heap_ok [OF assms(1), of "Suc j" xs] Suc.prems n by auto
  have "popped_from ys j n"
    using popped_from_pop [OF _ _ ys(4,2) Suc.prems(1) n(2)] Suc.prems n by simp
  then obtain zs where zs: "top_k_loop better D n (Suc i) ys m = Inr zs"
    "heap_ordered better D zs (n - (m + Suc i))" "popped_from zs (n - (m + Suc i)) n" "rearranged ys zs n"
    using Suc.IH [of ys "Suc i"] ys Suc.prems by (auto simp: j_def rearranged_def)
  moreover have "rearranged xs zs n"
    using rearranged_trans [OF rearranged_longer [OF ys(4) n(2)] zs(4)] .
  ultimately show ?case using ys(1) n(1) by simp
qed

end

section \<open>Cells outside the range are not looked at\<close>

lemma best_child_append:
  "n \<le> length xs \<Longrightarrow> c < n \<Longrightarrow> best_child better D (xs @ ys) idx n i c = best_child better D xs idx n i c"
proof (induction "D - i" arbitrary: i c)
  case 0
  then show ?case by (simp add: best_child_step)
next
  case (Suc k)
  then have "k = D - Suc i" by simp
  with Suc show ?case
    by (simp add: best_child_step [of _ _ _ _ _ i] nth_append)
qed

lemma push_down_heap_append:
  "push_down_heap better D xs idx n = Inr zs \<Longrightarrow> n \<le> length xs
   \<Longrightarrow> push_down_heap better D (xs @ ys) idx n = Inr (zs @ ys)"
proof (induction better D xs idx n rule: push_down_heap.induct)
  case (1 better D xs idx n)
  let ?cand = "best_child better D xs idx n 1 (Suc (idx * D))"
  show ?case
  proof (cases "Suc (idx * D) < n \<and> D \<noteq> 0 \<and> idx < n")
    case True
    then have cand: "?cand < n" "idx < n" and same: "best_child better D (xs @ ys) idx n 1 (Suc (idx * D)) = ?cand"
      using best_child_bounds [of idx "Suc (idx * D)" n D better xs 1] "1.prems"(2)
      by (simp_all add: best_child_append)
    have "swap (xs @ ys) idx ?cand = swap xs idx ?cand @ ys"
      using cand "1.prems"(2) by (simp add: swap_def nth_append list_update_append)
    then show ?thesis
      using "1.prems" True cand same "1.IH" [OF _ refl _ refl]
      by (auto simp: push_down_heap.simps [of better D xs idx n] push_down_heap.simps [of better D "xs @ ys" idx n]
          Let_def nth_append split: if_splits)
  next
    case False
    then show ?thesis using "1.prems"
      by (auto simp: push_down_heap.simps [of better D xs idx n] push_down_heap.simps [of better D "xs @ ys" idx n]
          Let_def split: if_splits)
  qed
qed

section \<open>The two ways down agree\<close>

lemma fast_push_down_heap_eq: "fast_push_down_heap better D xs idx n = push_down_heap better D xs idx n"
proof (induction better D xs idx n rule: fast_push_down_heap.induct)
  case (1 better D xs idx n)
  consider "D = 0 \<or> n \<le> idx" | "0 < D" "idx < n" "n \<le> idx * D + D"
    | "0 < D" "idx < n" "idx * D + D < n" by linarith
  then show ?case
  proof cases
    case 1
    then show ?thesis
      by (simp add: fast_push_down_heap.simps [of better D xs idx n] push_down_heap.simps [of better D xs idx n])
  next
    case 2
    then show ?thesis by (simp add: fast_push_down_heap.simps [of better D xs idx n] Let_def)
  next
    case 3
    then have "fast_best_child better D xs idx 1 (idx * D + 1) = best_child better D xs idx n 1 (idx * D + 1)"
      by (intro fast_best_child_eq) simp
    with 3 "1.IH" show ?thesis
      by (simp add: fast_push_down_heap.simps [of better D xs idx n] push_down_heap.simps [of better D xs idx n] Let_def)
  qed
qed

section \<open>What the test tests\<close>

text \<open>\<open>descends D i j\<close>: \<open>j\<close> is \<open>i\<close> or a descendant of \<open>i\<close>.\<close>

inductive descends :: "nat \<Rightarrow> nat \<Rightarrow> nat \<Rightarrow> bool" for D where
  descends_refl: "descends D i i"
| descends_child: "j < D \<Longrightarrow> descends D (Suc (i * D + j)) k \<Longrightarrow> descends D i k"

lemma descends_root: "0 < D \<Longrightarrow> descends D 0 i"
proof -
  assume D: "0 < D"
  have "descends D p k" if "descends D i k" "0 < i" "parent D i = p" for p i k
    using parent_child_cases [OF D that(2)] that by (metis add_Suc_right descends_child)
  then have *: "descends D i k \<Longrightarrow> descends D 0 k" for k
  proof (induction i rule: less_induct)
    case (less i)
    then show ?case using parent_less [of i D] by (cases "i = 0") blast+
  qed
  show ?thesis by (rule * [OF descends_refl])
qed

lemma all_from_unfold:
  "i < D \<Longrightarrow> (\<forall>j. i \<le> j \<longrightarrow> j < D \<longrightarrow> P j) \<longleftrightarrow> P i \<and> (\<forall>j. Suc i \<le> j \<longrightarrow> j < D \<longrightarrow> P j)" for i D :: nat
  by (metis Suc_leD Suc_leI le_neq_implies_less order_refl)

lemma children_in_order_iff:
  "children_in_order better D xs n idx i \<longleftrightarrow>
     (\<forall>j. i \<le> j \<longrightarrow> j < D \<longrightarrow> Suc (idx * D + j) < n \<longrightarrow> better (xs ! idx) (xs ! Suc (idx * D + j)))"
proof (induction better D xs n idx i rule: children_in_order.induct)
  case (1 better D xs n idx i)
  show ?case
  proof (cases "i < D \<and> Suc (idx * D + i) < n \<and> better (xs ! idx) (xs ! Suc (idx * D + i))")
    case True
    then show ?thesis
      using "1.IH" by (subst children_in_order.simps, subst all_from_unfold) (simp_all add: Let_def)
  qed (subst children_in_order.simps, auto simp: Let_def not_less)
qed

text \<open>
  \<open>_is_heap\<close> answers whether every node at or below \<open>idx\<close> is in order with its children.
\<close>

definition in_order_below :: "('a \<Rightarrow> 'a \<Rightarrow> bool) \<Rightarrow> nat \<Rightarrow> 'a list \<Rightarrow> nat \<Rightarrow> nat \<Rightarrow> bool" where
  "in_order_below better D xs n idx \<longleftrightarrow>
     (\<forall>k. descends D idx k \<longrightarrow> children_in_order better D xs n k 0)"

lemma in_order_outside:
  assumes "0 < D" and "n \<le> idx"
  shows "in_order_below better D xs n idx"
proof -
  have "n \<le> k" if "descends D i k" "n \<le> i" for i k
    using that
  proof (induction rule: descends.induct)
    case (descends_child j i k)
    then have "i < Suc (i * D + j)" by (intro child_greater) simp
    with descends_child.IH descends_child.prems show ?case by (simp del: child_greater)
  qed
  then have "n \<le> k" if "descends D idx k" for k using that assms(2) .
  then show ?thesis
    using child_in_range [of _ D n] by (force simp: in_order_below_def children_in_order_iff not_le)
qed

lemma in_order_below_unfold:
  "in_order_below better D xs n idx \<longleftrightarrow> children_in_order better D xs n idx 0
     \<and> (\<forall>j<D. in_order_below better D xs n (Suc (idx * D + j)))"
  unfolding in_order_below_def
  by (auto intro: descends_refl descends_child elim: descends.cases)

lemma is_heap_spec:
  "idx < n \<Longrightarrow> 0 < D \<Longrightarrow> is_heap_at better D xs n idx = Inr (in_order_below better D xs n idx)"
  "0 < D \<Longrightarrow> is_heap_children better D xs n idx i
     = Inr (\<forall>j. i \<le> j \<longrightarrow> j < D \<longrightarrow> in_order_below better D xs n (Suc (idx * D + j)))"
proof (induction better D xs n idx and better D xs n idx i rule: is_heap_at_is_heap_children.induct)
  case (1 better D xs n idx)
  then show ?case
    by (subst is_heap_at.simps, subst in_order_below_unfold) auto
next
  case (2 better D xs n idx i)
  consider "D \<le> i" | "i < D" "n \<le> Suc (idx * D + i)" | "i < D" "Suc (idx * D + i) < n" by linarith
  then show ?case
  proof cases
    case 1 then show ?thesis by (subst is_heap_children.simps) simp
  next
    case 2
    then have "in_order_below better D xs n (Suc (idx * D + j))" if "i \<le> j" for j
      using 2 that by (intro in_order_outside [OF "2.prems"]) simp
    then show ?thesis using 2 by (subst is_heap_children.simps) (simp add: Let_def)
  next
    case 3
    have at: "is_heap_at better D xs n (Suc (idx * D + i)) = Inr (in_order_below better D xs n (Suc (idx * D + i)))"
      using "2.IH"(1) 3 "2.prems" by simp
    show ?thesis
    proof (cases "in_order_below better D xs n (Suc (idx * D + i))")
      case True
      then have "is_heap_children better D xs n idx (Suc i)
          = Inr (\<forall>j. Suc i \<le> j \<longrightarrow> j < D \<longrightarrow> in_order_below better D xs n (Suc (idx * D + j)))"
        using "2.IH"(2) 3 "2.prems" by simp
      then show ?thesis using at True 3
        by (subst is_heap_children.simps, subst all_from_unfold) (simp_all add: Let_def)
    next
      case False
      then show ?thesis using at 3 by (subst is_heap_children.simps) (auto simp: Let_def)
    qed
  qed
qed

lemma in_order_below_root:
  "0 < D \<Longrightarrow> in_order_below better D xs n 0 \<longleftrightarrow> heap_ordered better D xs n"
proof
  assume D: "0 < D" and *: "in_order_below better D xs n 0"
  show "heap_ordered better D xs n"
    unfolding heap_ordered_def heap_from_def
  proof (intro allI impI)
    fix i assume i: "i < n" "0 < i"
    have "children_in_order better D xs n (parent D i) 0"
      using * descends_root [OF D] by (simp add: in_order_below_def)
    then show "better (xs ! parent D i) (xs ! i)"
      using parent_child_cases [OF D i(2)] i(1) by (metis add_Suc_right children_in_order_iff le0)
  qed
next
  assume D: "0 < D" and *: "heap_ordered better D xs n"
  have "better (xs ! k) (xs ! Suc (k * D + j))" if "j < D" "Suc (k * D + j) < n" for k j
    using * that heap_fromD [of better D xs n 0 "Suc (k * D + j)"] parent_child [of j D k]
    by (simp add: heap_ordered_def)
  then show "in_order_below better D xs n 0"
    by (simp add: in_order_below_def children_in_order_iff)
qed

lemma is_heap_iff: "0 < D \<Longrightarrow> is_heap better D xs n = Inr (heap_ordered better D xs n)"
  by (cases "n = 0")
    (auto simp: is_heap_def is_heap_spec in_order_below_root heap_ordered_def heap_from_def)

section \<open>Comparators\<close>

text \<open>\<open>LessEqualCmp\<close> and \<open>GreaterEqualCmp\<close> on a totally ordered type.\<close>

definition LessEqualCmp :: "'a::linorder \<Rightarrow> 'a \<Rightarrow> bool" where
  "LessEqualCmp lhs rhs \<longleftrightarrow> lhs \<le> rhs"

definition GreaterEqualCmp :: "'a::linorder \<Rightarrow> 'a \<Rightarrow> bool" where
  "GreaterEqualCmp lhs rhs \<longleftrightarrow> lhs \<ge> rhs"

definition DEFAULT_OUT_DEGREE_SZ :: nat where
  "DEFAULT_OUT_DEGREE_SZ = 8"

interpretation less_equal: better_order "LessEqualCmp :: 'a::linorder \<Rightarrow> 'a \<Rightarrow> bool"
  by unfold_locales (auto simp: LessEqualCmp_def)

interpretation greater_equal: better_order "GreaterEqualCmp :: 'a::linorder \<Rightarrow> 'a \<Rightarrow> bool"
  by unfold_locales (auto simp: GreaterEqualCmp_def)

section \<open>Properties\<close>

text \<open>
  \<open>make_heap\<close> turns every range into a heap. For every degree and every total, transitive
  comparator it returns (no \<open>abort\<close>, and the recursion ends), it only permutes the cells of the
  range, and \<open>is_heap\<close> then answers yes.
\<close>
theorem make_heap_correct:
  assumes "better_order better" and "0 < D" and "n \<le> length xs"
  shows "\<exists>ys. make_heap better D xs n = Inr ys \<and> is_heap better D ys n = Inr True \<and> rearranged xs ys n"
  using better_order.make_heap_ok [OF assms] assms(2) by (simp add: is_heap_iff)

theorem make_heap_correct_witness:
  "\<exists>ys. make_heap LessEqualCmp 2 [5, 3, 8, 1, 9 :: int] 4 = Inr ys
     \<and> is_heap LessEqualCmp 2 ys 4 = Inr True \<and> rearranged [5, 3, 8, 1, 9] ys 4"
  by (rule make_heap_correct [OF less_equal.better_order_axioms]) simp_all

text \<open>
  \<open>is_heap\<close> is the heap order. On every range it answers (it never reaches its \<open>abort\<close>), and the
  answer is whether every cell but the first is in order with its parent, the cell at
  \<open>(i - 1) / OUT_DEGREE_SZ\<close>.
\<close>
theorem is_heap_correct:
  assumes "0 < D"
  shows "is_heap better D xs n = Inr (\<forall>i<n. 0 < i \<longrightarrow> better (xs ! ((i - 1) div D)) (xs ! i))"
  using is_heap_iff [OF assms, of better xs n] by (simp add: heap_ordered_def heap_from_def parent_def)

theorem is_heap_correct_witness:
  "is_heap LessEqualCmp 2 [1, 3, 2, 2 :: int] 4 = Inr False"
  by (subst is_heap_correct) (auto simp: LessEqualCmp_def intro!: exI [of _ 3])

text \<open>
  \<open>pop_heap\<close> takes the best element of a heap. The best of the \<open>n\<close> elements ends in the last cell of the
  range, the cells before it are a heap again, and nothing is lost or changed outside the range; on an
  empty range it aborts.
\<close>
theorem pop_heap_correct:
  assumes "better_order better" and "0 < D" and "n \<le> length xs" and "is_heap better D xs n = Inr True"
  shows "if n = 0 then pop_heap better D xs n = Inl Abort
    else \<exists>ys. pop_heap better D xs n = Inr ys \<and> rearranged xs ys n
      \<and> (\<forall>i<n. better (ys ! (n - 1)) (ys ! i)) \<and> is_heap better D ys (n - 1) = Inr True"
proof (cases "n = 0")
  case True
  then show ?thesis by (simp add: pop_heap_def)
next
  case False
  have heap: "heap_ordered better D xs n" using assms(2,4) by (simp add: is_heap_iff)
  obtain ys where ys: "pop_heap better D xs n = Inr ys" "ys ! (n - 1) = xs ! 0"
    "heap_ordered better D ys (n - 1)" "rearranged xs ys n"
    using better_order.pop_heap_ok [OF assms(1,2) _ assms(3) heap] False by blast
  have "better (ys ! (n - 1)) (ys ! i)" if "i < n" for i
    using rearranged_source [OF ys(4) that assms(3)] better_order.root_best [OF assms(1) heap] ys(2) by metis
  then show ?thesis using False ys assms(2) by (simp add: is_heap_iff)
qed

theorem pop_heap_correct_witness:
  "\<exists>ys. pop_heap LessEqualCmp 2 [1, 3, 2 :: int] 3 = Inr ys \<and> rearranged [1, 3, 2] ys 3
     \<and> (\<forall>i<3. LessEqualCmp (ys ! (3 - 1)) (ys ! i)) \<and> is_heap LessEqualCmp 2 ys (3 - 1) = Inr True"
proof -
  have "is_heap LessEqualCmp 2 [1, 3, 2 :: int] 3 = Inr True" by code_simp
  from pop_heap_correct [OF less_equal.better_order_axioms _ _ this] show ?thesis by simp
qed

text \<open>
  \<open>push_heap\<close> adds the last cell of a range to the heap before it.
\<close>
theorem push_heap_correct:
  assumes "better_order better" and "0 < D" and "0 < n" and "n \<le> length xs"
    and "is_heap better D xs (n - 1) = Inr True"
  shows "\<exists>ys. push_heap better D xs n = Inr ys \<and> rearranged xs ys n \<and> is_heap better D ys n = Inr True"
  using better_order.push_heap_ok [OF assms(1-4)] assms(2,5) by (auto simp: is_heap_iff)

theorem push_heap_correct_witness:
  "\<exists>ys. push_heap GreaterEqualCmp 2 [7, 3, 2, 9 :: int] 4 = Inr ys
     \<and> rearranged [7, 3, 2, 9] ys 4 \<and> is_heap GreaterEqualCmp 2 ys 4 = Inr True"
proof -
  have "is_heap GreaterEqualCmp 2 [7, 3, 2, 9 :: int] (4 - 1) = Inr True" by code_simp
  from push_heap_correct [OF greater_equal.better_order_axioms _ _ _ this] show ?thesis by simp
qed

text \<open>
  \<open>top_k\<close> selects the \<open>k\<close> best. On a heap of \<open>n\<close> elements it returns the position
  \<open>n - min k n\<close>; from there to the end of the range stand elements each of which is better than
  everything before it (so they are the best ones, in order), and the cells before are a heap.
\<close>
theorem top_k_correct:
  assumes "better_order better" and "0 < D" and "n \<le> length xs" and "is_heap better D xs n = Inr True"
  shows "\<exists>ys. top_k better D xs n k = Inr (ys, n - min k n) \<and> rearranged xs ys n
    \<and> is_heap better D ys (n - min k n) = Inr True
    \<and> (\<forall>p q. n - min k n \<le> q \<longrightarrow> q < n \<longrightarrow> p < q \<longrightarrow> better (ys ! q) (ys ! p))"
proof -
  have heap: "heap_ordered better D xs (n - 0)" using assms(2,4) by (simp add: is_heap_iff)
  have "better_order.popped_from better xs (n - 0) n"
    by (simp add: better_order.popped_from_def [OF assms(1)])
  from better_order.top_k_loop_ok [OF assms(1-3) _ heap this, of "min k n"] show ?thesis
    using assms(2)
    by (auto simp: top_k_def Let_def is_heap_iff better_order.popped_from_def [OF assms(1)])
qed

theorem top_k_correct_witness:
  "\<exists>ys. top_k LessEqualCmp 2 [1, 3, 2, 5 :: int] 4 2 = Inr (ys, 4 - min 2 4)
     \<and> rearranged [1, 3, 2, 5] ys 4 \<and> is_heap LessEqualCmp 2 ys (4 - min 2 4) = Inr True
     \<and> (\<forall>p q. 4 - min 2 4 \<le> q \<longrightarrow> q < 4 \<longrightarrow> p < q \<longrightarrow> LessEqualCmp (ys ! q) (ys ! p))"
proof -
  have "is_heap LessEqualCmp 2 [1, 3, 2, 5 :: int] 4 = Inr True" by code_simp
  from top_k_correct [OF less_equal.better_order_axioms _ _ this, of 2] show ?thesis by simp
qed

text \<open>
  C37: heap sort sorts. \<open>make_heap\<close> followed by \<open>sort_heap\<close> on a whole array gives a permutation of it in
  which every element is better than the ones before it.
\<close>
theorem sort_heap_sorts:
  assumes "better_order better" and "0 < D"
  shows "\<exists>ys. bindR (make_heap better D xs (length xs)) (\<lambda>zs. sort_heap better D zs (length xs)) = Inr ys
    \<and> mset ys = mset xs \<and> sorted_wrt (\<lambda>x y. better y x) ys"
proof -
  obtain zs where zs: "make_heap better D xs (length xs) = Inr zs"
    "is_heap better D zs (length xs) = Inr True" "rearranged xs zs (length xs)"
    using better_order.make_heap_ok [OF assms order_refl] assms(2) by (auto simp: is_heap_iff)
  have len: "length zs = length xs" using zs(3) by (simp add: rearranged_def)
  have heap: "heap_ordered better D zs (length xs - 0)" using zs(2) assms(2) by (simp add: is_heap_iff)
  have "better_order.popped_from better zs (length xs - 0) (length xs)"
    by (simp add: better_order.popped_from_def [OF assms(1)])
  from better_order.top_k_loop_ok [OF assms _ _ heap this, of "length xs"] len obtain ys where
    ys: "top_k_loop better D (length xs) 0 zs (length xs) = Inr ys"
    "better_order.popped_from better ys 0 (length xs)" "rearranged zs ys (length xs)" by auto
  then have "sorted_wrt (\<lambda>x y. better y x) ys"
    using len by (simp add: better_order.popped_from_def [OF assms(1)] sorted_wrt_iff_nth_less rearranged_def)
  then show ?thesis
    using zs ys by (simp add: sort_heap_def top_k_def rearranged_def)
qed

theorem sort_heap_sorts_witness:
  "\<exists>ys. bindR (make_heap GreaterEqualCmp 3 [4, 1, 3 :: int] (length [4, 1, 3 :: int]))
       (\<lambda>zs. sort_heap GreaterEqualCmp 3 zs (length [4, 1, 3 :: int])) = Inr ys
     \<and> mset ys = mset [4, 1, 3] \<and> sorted_wrt (\<lambda>x y. GreaterEqualCmp y x) ys"
  by (rule sort_heap_sorts [OF greater_equal.better_order_axioms]) simp

text \<open>
  \<open>_fast_push_down_heap\<close>, which drops the bound check of the child loop while all children exist,
  does the same as \<open>_push_down_heap\<close> for every comparator, array and index, aborts included.
\<close>
theorem fast_push_down_heap_equiv:
  "fast_push_down_heap better D xs idx n = push_down_heap better D xs idx n"
  by (rule fast_push_down_heap_eq)

end
