(* ===== verification/Key_Heap.thy ===== *)
theory Key_Heap
  imports Short_Heap
begin

text \<open>
  \<open>memory_management/key_heap.h\<close>: a heap whose elements are also found by key. A node owns, through a
  \<open>unique_ptr\<close>, the cell that holds its own position; the map from keys leads to that cell. The cells
  are an explicit store (address to position) here, because the code relies on the aliasing between
  the nodes and the map. \<open>better\<close> is the comparator and \<open>key_of\<close> the key extractor of the template;
  \<open>unordered_node_map\<close> is used through \<open>find\<close>, \<open>insert\<close> and \<open>erase\<close> only and is a finite map.
  A dereferenced address without a cell is the error \<open>Out_of_bounds\<close>.
\<close>

section \<open>State\<close>

record 'v HeapNode =
  node_value :: 'v
  heap_idx :: nat

record ('v, 'k) KeyHeap =
  heap_vec :: "'v HeapNode list"
  reverse_lookup_map :: "'k \<rightharpoonup> nat"
  idx_cells :: "nat \<rightharpoonup> nat"
  fresh_address :: nat

text \<open>The default of the template, which is the degree the program instantiates.\<close>

definition OUT_DEGREE_SZ :: nat where
  "OUT_DEGREE_SZ = 8"

definition KeyHeap_new :: "('v, 'k) KeyHeap" where
  "KeyHeap_new = \<lparr>heap_vec = [], reverse_lookup_map = (\<lambda>_. None), idx_cells = (\<lambda>_. None), fresh_address = 0\<rparr>"

definition deref :: "('v, 'k) KeyHeap \<Rightarrow> nat \<Rightarrow> nat result" where
  "deref st p = (case idx_cells st p of None \<Rightarrow> Inl Out_of_bounds | Some i \<Rightarrow> Inr i)"

definition value_at :: "('v, 'k) KeyHeap \<Rightarrow> nat \<Rightarrow> 'v" where
  "value_at st i = node_value (heap_vec st ! i)"

section \<open>Private operations\<close>

definition swap_node :: "('v, 'k) KeyHeap \<Rightarrow> nat \<Rightarrow> nat \<Rightarrow> ('v, 'k) KeyHeap result" where
  "swap_node st lhs rhs =
     (let vec = swap (heap_vec st) lhs rhs;
          p = heap_idx (vec ! lhs); q = heap_idx (vec ! rhs) in
      bindR (deref st p) (\<lambda>a. bindR (deref st q) (\<lambda>b.
        Inr (st\<lparr>heap_vec := vec, idx_cells := (idx_cells st)(p \<mapsto> b, q \<mapsto> a)\<rparr>))))"

function push_up_at :: "('v \<Rightarrow> 'v \<Rightarrow> bool) \<Rightarrow> ('v, 'k) KeyHeap \<Rightarrow> nat \<Rightarrow> ('v, 'k) KeyHeap result" where
  "push_up_at better st idx =
     (if idx \<ge> length (heap_vec st) then Inl Abort
      else if idx = 0 then Inr st
      else
        let parent_idx = idx div OUT_DEGREE_SZ in
        if better (value_at st parent_idx) (value_at st idx) then Inr st
        else bindR (swap_node st parent_idx idx) (\<lambda>st'. push_up_at better st' parent_idx))"
  by pat_completeness auto
termination
  by (relation "measure (\<lambda>(better, st, idx). idx)") (auto simp: OUT_DEGREE_SZ_def)

text \<open>The loop over the children; \<open>cand\<close> is the best one so far.\<close>

function push_down_cand :: "('v \<Rightarrow> 'v \<Rightarrow> bool) \<Rightarrow> ('v, 'k) KeyHeap \<Rightarrow> nat \<Rightarrow> nat \<Rightarrow> nat option \<Rightarrow> nat option" where
  "push_down_cand better st idx i cand =
     (if i < OUT_DEGREE_SZ then
        let child_idx = idx * OUT_DEGREE_SZ + (i + 1) in
        if child_idx \<ge> length (heap_vec st) then cand
        else (case cand of
            None \<Rightarrow> push_down_cand better st idx (i + 1) (Some child_idx)
          | Some c \<Rightarrow>
              if better (value_at st child_idx) (value_at st c)
              then push_down_cand better st idx (i + 1) (Some child_idx)
              else push_down_cand better st idx (i + 1) (Some c))
      else cand)"
  by pat_completeness auto
termination by (relation "measure (\<lambda>(better, st, idx, i, cand). OUT_DEGREE_SZ - i)") auto

declare push_up_at.simps [simp del] push_down_cand.simps [simp del]

lemma push_down_cand_Some:
  "push_down_cand better st idx i (Some c) =
     Some (best_child better OUT_DEGREE_SZ (map node_value (heap_vec st)) idx (length (heap_vec st)) i c)"
  if "c < length (heap_vec st)"
  using that
proof (induction "OUT_DEGREE_SZ - i" arbitrary: i c)
  case 0
  then show ?case by (simp add: push_down_cand.simps [of better st idx i] best_child_step)
next
  case (Suc k)
  then have "k = OUT_DEGREE_SZ - Suc i" by simp
  note IH = Suc.hyps(1) [OF this]
  show ?case
    using Suc.prems IH
    by (simp add: push_down_cand.simps [of better st idx i] best_child_step [of _ _ _ _ _ i] Let_def value_at_def)
qed

lemma push_down_cand_start:
  "push_down_cand better st idx 0 None =
     (if Suc (idx * OUT_DEGREE_SZ) < length (heap_vec st)
      then Some (best_child better OUT_DEGREE_SZ (map node_value (heap_vec st)) idx (length (heap_vec st)) 1
             (Suc (idx * OUT_DEGREE_SZ)))
      else None)"
  by (simp add: push_down_cand.simps [of better st idx 0] push_down_cand_Some OUT_DEGREE_SZ_def Let_def)

lemma heap_vec_swap_node:
  "swap_node st i j = Inr st' \<Longrightarrow> heap_vec st' = swap (heap_vec st) i j
     \<and> reverse_lookup_map st' = reverse_lookup_map st \<and> fresh_address st' = fresh_address st"
  by (auto simp: swap_node_def Let_def bindR_eq_Inr)

function push_down_at :: "('v \<Rightarrow> 'v \<Rightarrow> bool) \<Rightarrow> ('v, 'k) KeyHeap \<Rightarrow> nat \<Rightarrow> ('v, 'k) KeyHeap result" where
  "push_down_at better st idx =
     (if idx \<ge> length (heap_vec st) then Inl Abort
      else (case push_down_cand better st idx 0 None of
          None \<Rightarrow> Inr st
        | Some cand \<Rightarrow>
            if better (value_at st idx) (value_at st cand) then Inr st
            else (case swap_node st idx cand of
                Inl e \<Rightarrow> Inl e
              | Inr st' \<Rightarrow> push_down_at better st' cand)))"
  by pat_completeness auto
termination
proof (relation "measure (\<lambda>(better, st, idx). length (heap_vec st) - idx)")
  fix better :: "'v \<Rightarrow> 'v \<Rightarrow> bool" and st st' :: "('v, 'k) KeyHeap" and idx cand :: nat
  assume "\<not> length (heap_vec st) \<le> idx" and "push_down_cand better st idx 0 None = Some cand"
    and "swap_node st idx cand = Inr st'"
  then have "idx < cand" and "length (heap_vec st') = length (heap_vec st)"
    and "idx < length (heap_vec st)"
    using best_child_bounds [of idx "Suc (idx * OUT_DEGREE_SZ)" "length (heap_vec st)" OUT_DEGREE_SZ
        better "map node_value (heap_vec st)" 1]
    by (auto simp: push_down_cand_start OUT_DEGREE_SZ_def dest: heap_vec_swap_node split: if_splits)
  then show "((better, st', cand), (better, st, idx)) \<in> measure (\<lambda>(better, st, idx). length (heap_vec st) - idx)"
    by simp
qed simp

declare push_down_at.simps [simp del]

definition correct_at :: "('v \<Rightarrow> 'v \<Rightarrow> bool) \<Rightarrow> ('v, 'k) KeyHeap \<Rightarrow> nat \<Rightarrow> ('v, 'k) KeyHeap result" where
  "correct_at better st idx = bindR (push_up_at better st idx) (\<lambda>st'. push_down_at better st' idx)"

text \<open>\<open>heap_vec.pop_back()\<close>: the node goes, and with it the cell it owns.\<close>

definition vec_pop_back :: "('v, 'k) KeyHeap \<Rightarrow> ('v, 'k) KeyHeap" where
  "vec_pop_back st =
     st\<lparr>heap_vec := butlast (heap_vec st),
        idx_cells := (idx_cells st)(heap_idx (last (heap_vec st)) := None)\<rparr>"

section \<open>Public operations\<close>

definition set_value :: "('v, 'k) KeyHeap \<Rightarrow> nat \<Rightarrow> 'v \<Rightarrow> ('v, 'k) KeyHeap result" where
  "set_value st i v =
     (if i < length (heap_vec st)
      then Inr (st\<lparr>heap_vec := (heap_vec st)[i := (heap_vec st ! i)\<lparr>node_value := v\<rparr>]\<rparr>)
      else Inl Out_of_bounds)"

definition push :: "('v \<Rightarrow> 'v \<Rightarrow> bool) \<Rightarrow> ('v \<Rightarrow> 'k) \<Rightarrow> 'v \<Rightarrow> ('v, 'k) KeyHeap \<Rightarrow> ('v, 'k) KeyHeap result" where
  "push better key_of v st =
     (let key = key_of v in
      case reverse_lookup_map st key of
        Some map_ptr \<Rightarrow>
          bindR (deref st map_ptr) (\<lambda>i.
          bindR (set_value st i v) (\<lambda>st'.
          correct_at better st' i))
      | None \<Rightarrow>
          let p = fresh_address st;
              heap_node = \<lparr>node_value = v, heap_idx = p\<rparr>;
              st' = st\<lparr>heap_vec := heap_vec st @ [heap_node],
                       reverse_lookup_map := (reverse_lookup_map st)(key \<mapsto> p),
                       idx_cells := (idx_cells st)(p \<mapsto> length (heap_vec st)),
                       fresh_address := p + 1\<rparr>
          in push_up_at better st' (length (heap_vec st') - 1))"

definition get_by_key :: "('v, 'k) KeyHeap \<Rightarrow> 'k \<Rightarrow> 'v option result" where
  "get_by_key st key =
     (case reverse_lookup_map st key of
        None \<Rightarrow> Inr None
      | Some map_ptr \<Rightarrow>
          bindR (deref st map_ptr) (\<lambda>i.
            if i < length (heap_vec st) then Inr (Some (value_at st i)) else Inl Out_of_bounds))"

definition update_by_key ::
  "('v \<Rightarrow> 'v \<Rightarrow> bool) \<Rightarrow> 'k \<Rightarrow> ('v \<Rightarrow> 'v) \<Rightarrow> ('v, 'k) KeyHeap \<Rightarrow> ('v, 'k) KeyHeap result" where
  "update_by_key better key mutator_func st =
     (case reverse_lookup_map st key of
        None \<Rightarrow> Inl Invalid_argument
      | Some map_ptr \<Rightarrow>
          bindR (deref st map_ptr) (\<lambda>i.
          bindR (set_value st i (mutator_func (value_at st i))) (\<lambda>st'.
          correct_at better st' i)))"

definition pop :: "('v \<Rightarrow> 'v \<Rightarrow> bool) \<Rightarrow> ('v \<Rightarrow> 'k) \<Rightarrow> ('v, 'k) KeyHeap \<Rightarrow> ('v, 'k) KeyHeap result" where
  "pop better key_of st =
     (if heap_vec st = [] then Inl Abort
      else
        bindR (swap_node st 0 (length (heap_vec st) - 1)) (\<lambda>st1.
          let key = key_of (node_value (last (heap_vec st1)));
              st2 = vec_pop_back (st1\<lparr>reverse_lookup_map := (reverse_lookup_map st1)(key := None)\<rparr>)
          in if heap_vec st2 \<noteq> [] then push_down_at better st2 0 else Inr st2))"

definition peek :: "('v, 'k) KeyHeap \<Rightarrow> 'v result" where
  "peek st = (if heap_vec st = [] then Inl Abort else Inr (node_value (hd (heap_vec st))))"

definition erase_by_key :: "('v \<Rightarrow> 'v \<Rightarrow> bool) \<Rightarrow> 'k \<Rightarrow> ('v, 'k) KeyHeap \<Rightarrow> ('v, 'k) KeyHeap result" where
  "erase_by_key better key st =
     (case reverse_lookup_map st key of
        None \<Rightarrow> Inr st
      | Some map_ptr \<Rightarrow>
          bindR (deref st map_ptr) (\<lambda>i.
          bindR (swap_node st i (length (heap_vec st) - 1)) (\<lambda>st1.
            let st2 = vec_pop_back (st1\<lparr>reverse_lookup_map := (reverse_lookup_map st1)(key := None)\<rparr>)
            in if i < length (heap_vec st2) then correct_at better st2 i else Inr st2)))"

definition heap_size :: "('v, 'k) KeyHeap \<Rightarrow> nat" where
  "heap_size st = length (heap_vec st)"

definition heap_empty :: "('v, 'k) KeyHeap \<Rightarrow> bool" where
  "heap_empty st \<longleftrightarrow> heap_vec st = []"

section \<open>Well-formed states\<close>

text \<open>
  Nodes own distinct cells and each cell holds its node's position; the map leads from the key of each
  node to its cell and from no other key; there is no cell without an owner, and the next address is
  unused.
\<close>

definition kh_ok :: "('v \<Rightarrow> 'k) \<Rightarrow> ('v, 'k) KeyHeap \<Rightarrow> bool" where
  "kh_ok key_of st \<longleftrightarrow>
     (\<forall>i < length (heap_vec st). idx_cells st (heap_idx (heap_vec st ! i)) = Some i) \<and>
     (\<forall>p i. idx_cells st p = Some i \<longrightarrow> i < length (heap_vec st) \<and> heap_idx (heap_vec st ! i) = p) \<and>
     (\<forall>i < length (heap_vec st). reverse_lookup_map st (key_of (value_at st i)) = Some (heap_idx (heap_vec st ! i))) \<and>
     (\<forall>k p. reverse_lookup_map st k = Some p \<longrightarrow>
        (\<exists>i < length (heap_vec st). key_of (value_at st i) = k \<and> heap_idx (heap_vec st ! i) = p)) \<and>
     (\<forall>p. fresh_address st \<le> p \<longrightarrow> idx_cells st p = None)"

text \<open>What the heap stores, as a finite map: the abstract state.\<close>

definition contents :: "('v \<Rightarrow> 'k) \<Rightarrow> ('v, 'k) KeyHeap \<Rightarrow> 'k \<rightharpoonup> 'v" where
  "contents key_of st = map_of (map (\<lambda>node. (key_of (node_value node), node_value node)) (heap_vec st))"

lemma kh_okD:
  assumes "kh_ok key_of st"
  shows "i < length (heap_vec st) \<Longrightarrow> idx_cells st (heap_idx (heap_vec st ! i)) = Some i"
    and "idx_cells st p = Some i \<Longrightarrow> i < length (heap_vec st) \<and> heap_idx (heap_vec st ! i) = p"
    and "i < length (heap_vec st) \<Longrightarrow> reverse_lookup_map st (key_of (value_at st i)) = Some (heap_idx (heap_vec st ! i))"
    and "reverse_lookup_map st k = Some p \<Longrightarrow>
        \<exists>i < length (heap_vec st). key_of (value_at st i) = k \<and> heap_idx (heap_vec st ! i) = p"
    and "fresh_address st \<le> p \<Longrightarrow> idx_cells st p = None"
  using assms unfolding kh_ok_def by blast+

lemma kh_idx_inj:
  "kh_ok key_of st \<Longrightarrow> i < length (heap_vec st) \<Longrightarrow> j < length (heap_vec st) \<Longrightarrow>
   heap_idx (heap_vec st ! i) = heap_idx (heap_vec st ! j) \<Longrightarrow> i = j"
  by (metis kh_okD(1) option.inject)

lemma kh_key_inj:
  "kh_ok key_of st \<Longrightarrow> i < length (heap_vec st) \<Longrightarrow> j < length (heap_vec st) \<Longrightarrow>
   key_of (value_at st i) = key_of (value_at st j) \<Longrightarrow> i = j"
  by (metis kh_okD(3) kh_idx_inj option.inject)

lemma kh_distinct_keys:
  "kh_ok key_of st \<Longrightarrow> distinct (map (\<lambda>node. key_of (node_value node)) (heap_vec st))"
  unfolding distinct_conv_nth by (auto dest: kh_key_inj simp: value_at_def)

lemma contents_Some:
  assumes "kh_ok key_of st"
  shows "contents key_of st k = Some v \<longleftrightarrow>
    (\<exists>i < length (heap_vec st). value_at st i = v \<and> key_of v = k)"
proof -
  have "distinct (map fst (map (\<lambda>node. (key_of (node_value node), node_value node)) (heap_vec st)))"
    using kh_distinct_keys [OF assms] by (simp add: comp_def)
  then show ?thesis
    by (auto simp: contents_def value_at_def in_set_conv_nth image_iff map_of_eq_Some_iff) (metis nth_mem)
qed

lemma contents_eqI:
  assumes "kh_ok key_of st"
    and "\<And>v. m k = Some v \<longleftrightarrow> (\<exists>i < length (heap_vec st). value_at st i = v \<and> key_of v = k)"
  shows "contents key_of st k = m k"
proof -
  have "contents key_of st k = Some v \<longleftrightarrow> m k = Some v" for v
    using contents_Some [OF assms(1), of k v] assms(2) [of v] by simp
  then show ?thesis by (metis not_Some_eq)
qed

lemma value_at_iff:
  "(\<exists>i < length (heap_vec st). value_at st i = v) \<longleftrightarrow> v \<in> set (map node_value (heap_vec st))"
  unfolding value_at_def in_set_conv_nth by auto

lemma contents_values:
  assumes "kh_ok key_of st" and "kh_ok key_of st'"
    and "mset (map node_value (heap_vec st')) = mset (map node_value (heap_vec st))"
  shows "contents key_of st' = contents key_of st"
proof
  fix k
  have "set (map node_value (heap_vec st')) = set (map node_value (heap_vec st))"
    using assms(3) by (rule mset_eq_setD)
  then have "(\<exists>i < length (heap_vec st'). value_at st' i = v) \<longleftrightarrow> (\<exists>i < length (heap_vec st). value_at st i = v)" for v
    by (simp only: value_at_iff)
  then show "contents key_of st' k = contents key_of st k"
    using contents_Some [OF assms(1), of k] by (intro contents_eqI [OF assms(2)]) auto
qed

lemma reverse_lookup:
  assumes "kh_ok key_of st"
  shows "reverse_lookup_map st k = None \<Longrightarrow> contents key_of st k = None"
    and "reverse_lookup_map st k = Some p \<Longrightarrow> \<exists>i < length (heap_vec st). deref st p = Inr i
      \<and> heap_idx (heap_vec st ! i) = p \<and> key_of (value_at st i) = k \<and> contents key_of st k = Some (value_at st i)"
proof -
  assume *: "reverse_lookup_map st k = None"
  have "\<nexists>v. contents key_of st k = Some v"
    using contents_Some [OF assms] kh_okD(3) [OF assms] * by auto
  then show "contents key_of st k = None" by simp
next
  assume "reverse_lookup_map st k = Some p"
  then obtain i where i: "i < length (heap_vec st)" "key_of (value_at st i) = k" "heap_idx (heap_vec st ! i) = p"
    using kh_okD(4) [OF assms] by blast
  then have "deref st p = Inr i" using kh_okD(1) [OF assms i(1)] by (simp add: deref_def)
  moreover have "contents key_of st k = Some (value_at st i)" using contents_Some [OF assms] i by blast
  ultimately show "\<exists>i < length (heap_vec st). deref st p = Inr i \<and> heap_idx (heap_vec st ! i) = p
      \<and> key_of (value_at st i) = k \<and> contents key_of st k = Some (value_at st i)"
    using i by blast
qed

section \<open>Every operation keeps the state well formed\<close>

lemma kh_ok_permuted:
  assumes ok: "kh_ok key_of st" and f: "bij_betw f {..<length (heap_vec st)} {..<length (heap_vec st)}"
    and vec: "length vec = length (heap_vec st)" "\<And>i. i < length vec \<Longrightarrow> vec ! f i = heap_vec st ! i"
    and cells: "\<And>p. cells p = map_option f (idx_cells st p)"
  shows "kh_ok key_of (st\<lparr>heap_vec := vec, idx_cells := cells\<rparr>)"
proof -
  let ?n = "length (heap_vec st)"
  have fi: "f i < ?n" if "i < ?n" for i using f that by (auto simp: bij_betw_def)
  have onto: "\<exists>j<?n. f j = i" if "i < ?n" for i
    using f that unfolding bij_betw_def by (metis imageE lessThan_iff)
  have at: "\<exists>j<?n. i = f j \<and> vec ! i = heap_vec st ! j" if "i < ?n" for i
    using onto [OF that] vec by auto
  show ?thesis
    unfolding kh_ok_def
  proof (intro conjI allI impI)
    fix i assume "i < length (heap_vec (st\<lparr>heap_vec := vec, idx_cells := cells\<rparr>))"
    then obtain j where j: "j < ?n" "i = f j" "vec ! i = heap_vec st ! j" using at vec(1) by auto
    then show "idx_cells (st\<lparr>heap_vec := vec, idx_cells := cells\<rparr>)
        (heap_idx (heap_vec (st\<lparr>heap_vec := vec, idx_cells := cells\<rparr>) ! i)) = Some i"
      using cells kh_okD(1) [OF ok] by simp
    show "reverse_lookup_map (st\<lparr>heap_vec := vec, idx_cells := cells\<rparr>)
          (key_of (value_at (st\<lparr>heap_vec := vec, idx_cells := cells\<rparr>) i))
        = Some (heap_idx (heap_vec (st\<lparr>heap_vec := vec, idx_cells := cells\<rparr>) ! i))"
      using kh_okD(3) [OF ok j(1)] j(3) by (simp add: value_at_def)
  next
    fix p i assume "idx_cells (st\<lparr>heap_vec := vec, idx_cells := cells\<rparr>) p = Some i"
    then obtain j where "idx_cells st p = Some j" "i = f j" using cells by auto
    then have "j < ?n" "heap_idx (heap_vec st ! j) = p" "i = f j" using kh_okD(2) [OF ok] by auto
    then show "i < length (heap_vec (st\<lparr>heap_vec := vec, idx_cells := cells\<rparr>))"
      and "heap_idx (heap_vec (st\<lparr>heap_vec := vec, idx_cells := cells\<rparr>) ! i) = p"
      using fi vec by auto
  next
    fix k p assume "reverse_lookup_map (st\<lparr>heap_vec := vec, idx_cells := cells\<rparr>) k = Some p"
    then obtain j where "j < ?n" "key_of (value_at st j) = k" "heap_idx (heap_vec st ! j) = p"
      using kh_okD(4) [OF ok] by auto
    then show "\<exists>i<length (heap_vec (st\<lparr>heap_vec := vec, idx_cells := cells\<rparr>)).
        key_of (value_at (st\<lparr>heap_vec := vec, idx_cells := cells\<rparr>) i) = k
        \<and> heap_idx (heap_vec (st\<lparr>heap_vec := vec, idx_cells := cells\<rparr>) ! i) = p"
      using fi vec by (intro exI [of _ "f j"]) (simp add: value_at_def)
  next
    fix p assume "fresh_address (st\<lparr>heap_vec := vec, idx_cells := cells\<rparr>) \<le> p"
    then show "idx_cells (st\<lparr>heap_vec := vec, idx_cells := cells\<rparr>) p = None"
      using cells kh_okD(5) [OF ok] by simp
  qed
qed

lemma swap_node_ok:
  assumes ok: "kh_ok key_of st" and i: "i < length (heap_vec st)" and j: "j < length (heap_vec st)"
  shows "\<exists>st'. swap_node st i j = Inr st' \<and> kh_ok key_of st' \<and> heap_vec st' = swap (heap_vec st) i j
    \<and> reverse_lookup_map st' = reverse_lookup_map st"
proof -
  let ?vec = "swap (heap_vec st) i j" and ?f = "\<lambda>k. if k = i then j else if k = j then i else k"
  let ?p = "heap_idx (heap_vec st ! i)" and ?q = "heap_idx (heap_vec st ! j)"
  let ?cells = "(idx_cells st)(?q \<mapsto> i, ?p \<mapsto> j)"
  have cell: "idx_cells st ?p = Some i" "idx_cells st ?q = Some j" using kh_okD(1) [OF ok] i j by simp_all
  have "swap_node st i j = Inr (st\<lparr>heap_vec := ?vec, idx_cells := ?cells\<rparr>)"
    using cell i j by (simp add: swap_node_def deref_def nth_swap Let_def)
  moreover have "kh_ok key_of (st\<lparr>heap_vec := ?vec, idx_cells := ?cells\<rparr>)"
  proof (rule kh_ok_permuted [OF ok, of ?f])
    show "bij_betw ?f {..<length (heap_vec st)} {..<length (heap_vec st)}"
      using i j by (intro bij_betw_byWitness [where f' = ?f]) auto
    show "?vec ! ?f k = heap_vec st ! k" if "k < length ?vec" for k
      using that i j by (auto simp: nth_swap)
    show "?cells p = map_option ?f (idx_cells st p)" for p
      using cell kh_okD(2) [OF ok, of p] by (cases "idx_cells st p") auto
  qed simp
  ultimately show ?thesis by simp
qed

text \<open>What the private operations guarantee: the same values, in another order.\<close>

definition reordered :: "('v \<Rightarrow> 'k) \<Rightarrow> ('v, 'k) KeyHeap \<Rightarrow> ('v, 'k) KeyHeap \<Rightarrow> bool" where
  "reordered key_of st st' \<longleftrightarrow> kh_ok key_of st' \<and> mset (map node_value (heap_vec st')) = mset (map node_value (heap_vec st))"

lemma reordered_length: "reordered key_of st st' \<Longrightarrow> length (heap_vec st') = length (heap_vec st)"
  unfolding reordered_def by (metis length_map size_mset)

lemma reordered_trans: "reordered key_of st st' \<Longrightarrow> reordered key_of st' st'' \<Longrightarrow> reordered key_of st st''"
  by (simp add: reordered_def)

lemma reordered_refl: "kh_ok key_of st \<Longrightarrow> reordered key_of st st"
  by (simp add: reordered_def)

lemma reordered_contents: "kh_ok key_of st \<Longrightarrow> reordered key_of st st' \<Longrightarrow> contents key_of st' = contents key_of st"
  unfolding reordered_def using contents_values by blast

lemma swap_map: "i < length xs \<Longrightarrow> j < length xs \<Longrightarrow> map f (swap xs i j) = swap (map f xs) i j"
  by (simp add: swap_def map_update)

lemma swap_node_reordered:
  assumes "kh_ok key_of st" and "i < length (heap_vec st)" and "j < length (heap_vec st)"
  obtains st' where "swap_node st i j = Inr st'" and "reordered key_of st st'"
    and "heap_vec st' = swap (heap_vec st) i j"
  using swap_node_ok [OF assms] assms(2,3) by (auto simp: reordered_def swap_map)

lemma push_up_at_ok:
  assumes "kh_ok key_of st" and "idx < length (heap_vec st)"
  shows "\<exists>st'. push_up_at better st idx = Inr st' \<and> reordered key_of st st'"
  using assms
proof (induction idx arbitrary: st rule: less_induct)
  case (less idx)
  let ?p = "idx div OUT_DEGREE_SZ"
  show ?case
  proof (cases "idx = 0 \<or> better (value_at st ?p) (value_at st idx)")
    case True
    then show ?thesis using less.prems by (subst push_up_at.simps) (auto simp: Let_def reordered_refl)
  next
    case False
    then have p: "?p < idx" by (simp add: OUT_DEGREE_SZ_def)
    then have "?p < length (heap_vec st)" using less.prems by simp
    then obtain st1 where st1: "swap_node st ?p idx = Inr st1" "reordered key_of st st1"
      using swap_node_reordered less.prems by blast
    then have "kh_ok key_of st1" "?p < length (heap_vec st1)"
      using \<open>?p < length (heap_vec st)\<close> reordered_length [OF st1(2)] by (simp_all add: reordered_def)
    then obtain st2 where "push_up_at better st1 ?p = Inr st2" "reordered key_of st1 st2"
      using less.IH [OF p] by blast
    then show ?thesis using st1 False less.prems reordered_trans
      by (subst push_up_at.simps) (auto simp: Let_def)
  qed
qed

text \<open>\<open>push_down_at\<close> moves the values the way \<open>push_down_heap\<close> does.\<close>

lemma push_down_at_ok:
  assumes "kh_ok key_of st" and "idx < length (heap_vec st)"
  shows "\<exists>st'. push_down_at better st idx = Inr st' \<and> reordered key_of st st'
    \<and> push_down_heap better OUT_DEGREE_SZ (map node_value (heap_vec st)) idx (length (heap_vec st))
        = Inr (map node_value (heap_vec st'))"
  using assms
proof (induction "length (heap_vec st) - idx" arbitrary: st idx rule: less_induct)
  case less
  let ?vals = "map node_value (heap_vec st)" and ?n = "length (heap_vec st)"
  let ?first = "Suc (idx * OUT_DEGREE_SZ)"
  let ?cand = "best_child better OUT_DEGREE_SZ ?vals idx ?n 1 ?first"
  have D: "0 < OUT_DEGREE_SZ" by (simp add: OUT_DEGREE_SZ_def)
  show ?case
  proof (cases "?first < ?n")
    case False
    then show ?thesis using less.prems D
      by (subst push_down_at.simps, subst push_down_heap.simps)
        (simp add: push_down_cand_start reordered_refl Let_def)
  next
    case True
    have cand: "idx < ?cand" "?cand < ?n" using best_child_bounds [OF first_child_greater [OF D] True D, of better ?vals 1] by simp_all
    show ?thesis
    proof (cases "better (value_at st idx) (value_at st ?cand)")
      case stay: True
      then have "better (?vals ! idx) (?vals ! ?cand)" using less.prems cand by (simp add: value_at_def)
      then show ?thesis using stay True less.prems D
        by (subst push_down_at.simps, subst push_down_heap.simps)
          (simp add: push_down_cand_start reordered_refl Let_def)
    next
      case False
      then have nb: "\<not> better (?vals ! idx) (?vals ! ?cand)" using less.prems cand by (simp add: value_at_def)
      obtain st1 where st1: "swap_node st idx ?cand = Inr st1" "reordered key_of st st1"
        "heap_vec st1 = swap (heap_vec st) idx ?cand"
        using swap_node_reordered [OF less.prems cand(2)] .
      have st1': "kh_ok key_of st1" "length (heap_vec st1) = ?n" "map node_value (heap_vec st1) = swap ?vals idx ?cand"
        using st1 less.prems cand(2) by (simp_all add: reordered_def swap_map)
      then obtain st2 where "push_down_at better st1 ?cand = Inr st2" "reordered key_of st1 st2"
        "push_down_heap better OUT_DEGREE_SZ (swap ?vals idx ?cand) ?cand ?n = Inr (map node_value (heap_vec st2))"
        using less.hyps [of st1 ?cand] cand less.prems by (auto simp: diff_less_mono2)
      then show ?thesis using st1 False nb True less.prems D reordered_trans
        by (subst push_down_at.simps, subst push_down_heap.simps)
          (auto simp: push_down_cand_start Let_def)
    qed
  qed
qed

lemma correct_at_ok:
  assumes "kh_ok key_of st" and "idx < length (heap_vec st)"
  shows "\<exists>st'. correct_at better st idx = Inr st' \<and> reordered key_of st st'"
proof -
  obtain st1 where st1: "push_up_at better st idx = Inr st1" "reordered key_of st st1"
    using push_up_at_ok [OF assms] by blast
  then have "kh_ok key_of st1" "idx < length (heap_vec st1)"
    using assms reordered_length [OF st1(2)] by (simp_all add: reordered_def)
  then obtain st2 where "push_down_at better st1 idx = Inr st2" "reordered key_of st1 st2"
    using push_down_at_ok by blast
  with st1 show ?thesis using reordered_trans by (auto simp: correct_at_def)
qed

text \<open>Removing the last node together with its key.\<close>

lemma kh_ok_pop_back:
  assumes ok: "kh_ok key_of st" and ne: "heap_vec st \<noteq> []" and k: "k = key_of (node_value (last (heap_vec st)))"
  defines "st' \<equiv> vec_pop_back (st\<lparr>reverse_lookup_map := (reverse_lookup_map st)(k := None)\<rparr>)"
  shows "kh_ok key_of st'" and "contents key_of st' = (contents key_of st)(k := None)"
    and "heap_vec st' = butlast (heap_vec st)"
proof -
  let ?n = "length (heap_vec st)" and ?m = "length (heap_vec st) - 1"
  have m: "?m < ?n" using ne by simp
  have last: "last (heap_vec st) = heap_vec st ! ?m" using ne by (simp add: last_conv_nth)
  have vec: "heap_vec st' = butlast (heap_vec st)" by (simp add: st'_def vec_pop_back_def)
  have at: "heap_vec st' ! i = heap_vec st ! i" if "i < ?m" for i
    using that by (simp add: vec nth_butlast)
  have key: "key_of (value_at st i) = k \<longleftrightarrow> i = ?m" if "i < ?n" for i
    using kh_key_inj [OF ok that m] k last by (auto simp: value_at_def)
  have own: "heap_idx (heap_vec st ! i) = heap_idx (heap_vec st ! ?m) \<longleftrightarrow> i = ?m" if "i < ?n" for i
    using kh_idx_inj [OF ok that m] by blast
  have fields: "reverse_lookup_map st' = (reverse_lookup_map st)(k := None)"
    "idx_cells st' = (idx_cells st)(heap_idx (heap_vec st ! ?m) := None)"
    "fresh_address st' = fresh_address st"
    by (simp_all add: st'_def vec_pop_back_def last)
  show "heap_vec st' = butlast (heap_vec st)" by (rule vec)
  have val: "value_at st' i = value_at st i" if "i < ?m" for i using at [OF that] by (simp add: value_at_def)
  show ok': "kh_ok key_of st'"
    unfolding kh_ok_def
  proof (intro conjI allI impI)
    fix i assume "i < length (heap_vec st')"
    then have i: "i < ?m" "i < ?n" "i \<noteq> ?m" by (simp_all add: vec)
    then show "idx_cells st' (heap_idx (heap_vec st' ! i)) = Some i"
      using kh_okD(1) [OF ok i(2)] own [OF i(2)] at by (simp add: fields)
    show "reverse_lookup_map st' (key_of (value_at st' i)) = Some (heap_idx (heap_vec st' ! i))"
      using kh_okD(3) [OF ok i(2)] key [OF i(2)] i at val by (simp add: fields)
  next
    fix p i assume p: "idx_cells st' p = Some i"
    then have i: "idx_cells st p = Some i" "p \<noteq> heap_idx (heap_vec st ! ?m)"
      by (auto simp: fields split: if_splits)
    then have "i < ?n" "heap_idx (heap_vec st ! i) = p" using kh_okD(2) [OF ok] by blast+
    moreover from this i(2) have "i \<noteq> ?m" by blast
    ultimately show "i < length (heap_vec st')" and "heap_idx (heap_vec st' ! i) = p"
      using at by (auto simp: vec)
  next
    fix k' p assume "reverse_lookup_map st' k' = Some p"
    then have "reverse_lookup_map st k' = Some p" "k' \<noteq> k" by (auto simp: fields split: if_splits)
    then obtain i where i: "i < ?n" "key_of (value_at st i) = k'" "heap_idx (heap_vec st ! i) = p"
      using kh_okD(4) [OF ok] by blast
    then have "i < ?m" using key [OF i(1)] \<open>k' \<noteq> k\<close> by auto
    then show "\<exists>i < length (heap_vec st'). key_of (value_at st' i) = k' \<and> heap_idx (heap_vec st' ! i) = p"
      using i at val by (intro exI [of _ i]) (simp add: vec)
  next
    fix p assume "fresh_address st' \<le> p"
    then show "idx_cells st' p = None" using kh_okD(5) [OF ok] by (simp add: fields)
  qed
  show "contents key_of st' = (contents key_of st)(k := None)"
  proof
    fix k'
    have "(if k' = k then None else contents key_of st k') = Some v
        \<longleftrightarrow> (\<exists>i < length (heap_vec st'). value_at st' i = v \<and> key_of v = k')" for v
    proof (cases "k' = k")
      case True
      have "\<not> (value_at st' i = v \<and> key_of v = k')" if i: "i < ?m" for i
      proof -
        have "i < ?n" "i \<noteq> ?m" using i by linarith+
        then show ?thesis using key [of i] val [OF i] True by auto
      qed
      then show ?thesis using True by (auto simp: vec)
    next
      case False
      have "i < ?n \<and> value_at st i = v \<and> key_of v = k' \<longleftrightarrow> i < ?m \<and> value_at st i = v \<and> key_of v = k'" for i
      proof (cases "i < ?n")
        case i: True
        then have "i < ?m \<longleftrightarrow> i \<noteq> ?m" by linarith
        then show ?thesis using key [OF i] False i by auto
      qed (use m in linarith)
      then show ?thesis using contents_Some [OF ok, of k' v] False val by (auto simp: vec)
    qed
    then show "contents key_of st' k' = ((contents key_of st)(k := None)) k'"
      by (intro contents_eqI [OF ok']) simp
  qed
qed

lemma set_value_ok:
  assumes ok: "kh_ok key_of st" and i: "i < length (heap_vec st)" and key: "key_of v = key_of (value_at st i)"
  obtains st' where "set_value st i v = Inr st'" and "kh_ok key_of st'"
    and "contents key_of st' = (contents key_of st)(key_of v \<mapsto> v)"
    and "length (heap_vec st') = length (heap_vec st)"
proof -
  define st' where "st' = st\<lparr>heap_vec := (heap_vec st)[i := (heap_vec st ! i)\<lparr>node_value := v\<rparr>]\<rparr>"
  have fields: "reverse_lookup_map st' = reverse_lookup_map st" "idx_cells st' = idx_cells st"
    "fresh_address st' = fresh_address st" "length (heap_vec st') = length (heap_vec st)"
    by (simp_all add: st'_def)
  have ptr: "heap_idx (heap_vec st' ! j) = heap_idx (heap_vec st ! j)" if "j < length (heap_vec st)" for j
    using that i by (cases "i = j") (simp_all add: st'_def)
  have val: "value_at st' j = (if j = i then v else value_at st j)" if "j < length (heap_vec st)" for j
    using that by (simp add: st'_def value_at_def nth_list_update)
  have keys: "key_of (value_at st' j) = key_of (value_at st j)" if "j < length (heap_vec st)" for j
    using val [OF that] key by simp
  have ok': "kh_ok key_of st'"
    unfolding kh_ok_def fields
  proof (intro conjI allI impI)
    fix j assume "j < length (heap_vec st)"
    then show "idx_cells st (heap_idx (heap_vec st' ! j)) = Some j"
      and "reverse_lookup_map st (key_of (value_at st' j)) = Some (heap_idx (heap_vec st' ! j))"
      using kh_okD(1,3) [OF ok] ptr keys by simp_all
  next
    fix p j assume "idx_cells st p = Some j"
    then show "j < length (heap_vec st)" and "heap_idx (heap_vec st' ! j) = p"
      using kh_okD(2) [OF ok] ptr by auto
  next
    fix k p assume "reverse_lookup_map st k = Some p"
    then obtain j where "j < length (heap_vec st)" "key_of (value_at st j) = k" "heap_idx (heap_vec st ! j) = p"
      using kh_okD(4) [OF ok] by blast
    then show "\<exists>j < length (heap_vec st). key_of (value_at st' j) = k \<and> heap_idx (heap_vec st' ! j) = p"
      using ptr keys by (intro exI [of _ j]) simp
  next
    fix p assume "fresh_address st \<le> p"
    then show "idx_cells st p = None" by (rule kh_okD(5) [OF ok])
  qed
  have "((contents key_of st)(key_of v \<mapsto> v)) k = Some w
      \<longleftrightarrow> (\<exists>j < length (heap_vec st'). value_at st' j = w \<and> key_of w = k)" for k w
  proof (cases "k = key_of v")
    case True
    have "key_of (value_at st' j) = k \<longleftrightarrow> j = i" if "j < length (heap_vec st)" for j
      using kh_key_inj [OF ok that i] keys [OF that] key True by auto
    then have "(\<exists>j < length (heap_vec st'). value_at st' j = w \<and> key_of w = k) \<longleftrightarrow> w = v"
      using val i True by (auto simp: fields)
    then show ?thesis using True by auto
  next
    case False
    have "value_at st' j = w \<and> key_of w = k \<longleftrightarrow> value_at st j = w \<and> key_of w = k"
      if "j < length (heap_vec st)" for j
      using val [OF that] key False by auto
    then show ?thesis using contents_Some [OF ok, of k w] False by (auto simp: fields)
  qed
  then have "contents key_of st' = (contents key_of st)(key_of v \<mapsto> v)"
    by (intro ext contents_eqI [OF ok'])
  moreover have "set_value st i v = Inr st'" using i by (simp add: set_value_def st'_def)
  ultimately show ?thesis using that ok' fields(4) by blast
qed

lemma kh_ok_push_back:
  assumes ok: "kh_ok key_of st" and new: "reverse_lookup_map st (key_of v) = None"
  defines "st' \<equiv> st\<lparr>heap_vec := heap_vec st @ [\<lparr>node_value = v, heap_idx = fresh_address st\<rparr>],
      reverse_lookup_map := (reverse_lookup_map st)(key_of v \<mapsto> fresh_address st),
      idx_cells := (idx_cells st)(fresh_address st \<mapsto> length (heap_vec st)),
      fresh_address := fresh_address st + 1\<rparr>"
  shows "kh_ok key_of st'" and "contents key_of st' = (contents key_of st)(key_of v \<mapsto> v)"
proof -
  let ?n = "length (heap_vec st)"
  have old: "heap_idx (heap_vec st ! i) \<noteq> fresh_address st" "key_of (value_at st i) \<noteq> key_of v" if "i < ?n" for i
    using kh_okD(1,3) [OF ok that] kh_okD(5) [OF ok] new by fastforce+
  have at: "heap_vec st' ! i = (if i = ?n then \<lparr>node_value = v, heap_idx = fresh_address st\<rparr> else heap_vec st ! i)"
    if "i < Suc ?n" for i
    using that by (auto simp: st'_def nth_append)
  have len: "length (heap_vec st') = Suc ?n" by (simp add: st'_def)
  have val: "value_at st' i = (if i = ?n then v else value_at st i)" if "i < Suc ?n" for i
    using at [OF that] by (simp add: value_at_def)
  have fields: "reverse_lookup_map st' = (reverse_lookup_map st)(key_of v \<mapsto> fresh_address st)"
    "idx_cells st' = (idx_cells st)(fresh_address st \<mapsto> ?n)" "fresh_address st' = fresh_address st + 1"
    by (simp_all add: st'_def)
  show ok': "kh_ok key_of st'"
    unfolding kh_ok_def len
  proof (intro conjI allI impI)
    fix i assume i: "i < Suc ?n"
    show "idx_cells st' (heap_idx (heap_vec st' ! i)) = Some i"
      and "reverse_lookup_map st' (key_of (value_at st' i)) = Some (heap_idx (heap_vec st' ! i))"
      using i at [OF i] val [OF i] old [of i] kh_okD(1,3) [OF ok, of i] by (auto simp: fields)
  next
    fix p i assume "idx_cells st' p = Some i"
    then have "p = fresh_address st \<and> i = ?n \<or> idx_cells st p = Some i"
      by (cases "p = fresh_address st") (simp_all add: fields)
    then consider "p = fresh_address st" "i = ?n" | "idx_cells st p = Some i" by blast
    then have "i < Suc ?n \<and> heap_idx (heap_vec st' ! i) = p"
    proof cases
      case 1 then show ?thesis using at [of ?n] by simp
    next
      case 2
      then have "i < ?n" "heap_idx (heap_vec st ! i) = p" using kh_okD(2) [OF ok] by blast+
      then show ?thesis using at [of i] by simp
    qed
    then show "i < Suc ?n" and "heap_idx (heap_vec st' ! i) = p" by blast+
  next
    fix k p assume "reverse_lookup_map st' k = Some p"
    then have "k = key_of v \<and> p = fresh_address st \<or> reverse_lookup_map st k = Some p"
      by (cases "k = key_of v") (simp_all add: fields)
    then consider "k = key_of v" "p = fresh_address st" | "reverse_lookup_map st k = Some p" by blast
    then show "\<exists>i < Suc ?n. key_of (value_at st' i) = k \<and> heap_idx (heap_vec st' ! i) = p"
    proof cases
      case 1 then show ?thesis using at [of ?n] val [of ?n] by (intro exI [of _ ?n]) simp
    next
      case 2
      then obtain i where "i < ?n" "key_of (value_at st i) = k" "heap_idx (heap_vec st ! i) = p"
        using kh_okD(4) [OF ok] by blast
      then show ?thesis using at [of i] val [of i] by (intro exI [of _ i]) simp
    qed
  next
    fix p assume "fresh_address st' \<le> p"
    then show "idx_cells st' p = None" using kh_okD(5) [OF ok, of p] by (simp add: fields)
  qed
  show "contents key_of st' = (contents key_of st)(key_of v \<mapsto> v)"
  proof (rule ext, rule contents_eqI [OF ok'])
    fix k w
    show "((contents key_of st)(key_of v \<mapsto> v)) k = Some w
        \<longleftrightarrow> (\<exists>i < length (heap_vec st'). value_at st' i = w \<and> key_of w = k)"
      using contents_Some [OF ok, of k w] old val unfolding len
      by (cases "k = key_of v") (auto simp: less_Suc_eq ex_disj_distrib conj_disj_distribR)
  qed
qed

section \<open>Every operation is an operation on the finite map\<close>

lemma push_ok:
  assumes "kh_ok key_of st"
  shows "\<exists>st'. push better key_of v st = Inr st' \<and> kh_ok key_of st'
    \<and> contents key_of st' = (contents key_of st)(key_of v \<mapsto> v)"
proof (cases "reverse_lookup_map st (key_of v)")
  case None
  let ?st = "st\<lparr>heap_vec := heap_vec st @ [\<lparr>node_value = v, heap_idx = fresh_address st\<rparr>],
      reverse_lookup_map := (reverse_lookup_map st)(key_of v \<mapsto> fresh_address st),
      idx_cells := (idx_cells st)(fresh_address st \<mapsto> length (heap_vec st)),
      fresh_address := fresh_address st + 1\<rparr>"
  note st = kh_ok_push_back [OF assms None]
  then obtain st' where st': "push_up_at better ?st (length (heap_vec st)) = Inr st'" "reordered key_of ?st st'"
    using push_up_at_ok [of key_of ?st "length (heap_vec st)" better] by auto
  then show ?thesis
    using None st st' reordered_contents [OF st(1) st'(2)] by (auto simp: push_def Let_def reordered_def)
next
  case (Some p)
  then obtain i where i: "i < length (heap_vec st)" "deref st p = Inr i" "key_of (value_at st i) = key_of v"
    using reverse_lookup(2) [OF assms] by blast
  obtain st1 where st1: "set_value st i v = Inr st1" "kh_ok key_of st1"
    "contents key_of st1 = (contents key_of st)(key_of v \<mapsto> v)" "length (heap_vec st1) = length (heap_vec st)"
    using set_value_ok [OF assms i(1)] i(3) by metis
  then obtain st2 where st2: "correct_at better st1 i = Inr st2" "reordered key_of st1 st2"
    using correct_at_ok [OF st1(2)] i(1) by metis
  then show ?thesis
    using Some i st1 st2 reordered_contents [OF st1(2) st2(2)] by (auto simp: push_def reordered_def)
qed

lemma update_by_key_ok:
  assumes "kh_ok key_of st" and "contents key_of st k = Some v" and "key_of (f v) = k"
  shows "\<exists>st'. update_by_key better k f st = Inr st' \<and> kh_ok key_of st'
    \<and> contents key_of st' = (contents key_of st)(k \<mapsto> f v)"
proof -
  obtain p where p: "reverse_lookup_map st k = Some p"
    using reverse_lookup(1) [OF assms(1), of k] assms(2) by fastforce
  then obtain i where i: "i < length (heap_vec st)" "deref st p = Inr i" "key_of (value_at st i) = k" "value_at st i = v"
    using reverse_lookup(2) [OF assms(1) p] assms(2) by auto
  obtain st1 where st1: "set_value st i (f v) = Inr st1" "kh_ok key_of st1"
    "contents key_of st1 = (contents key_of st)(k \<mapsto> f v)" "length (heap_vec st1) = length (heap_vec st)"
    using set_value_ok [OF assms(1) i(1), of "f v"] i assms(3) by metis
  then obtain st2 where st2: "correct_at better st1 i = Inr st2" "reordered key_of st1 st2"
    using correct_at_ok [OF st1(2)] i(1) by metis
  then show ?thesis
    using p i st1 st2 reordered_contents [OF st1(2) st2(2)] by (auto simp: update_by_key_def reordered_def)
qed

lemma get_by_key_ok: "kh_ok key_of st \<Longrightarrow> get_by_key st k = Inr (contents key_of st k)"
  using reverse_lookup [of key_of st k]
  by (cases "reverse_lookup_map st k") (auto simp: get_by_key_def)

lemma last_swap: "i < length xs \<Longrightarrow> last (swap xs i (length xs - 1)) = xs ! i"
  using nth_swap [of i xs "length xs - 1" "length xs - 1"] by (subst last_conv_nth) (auto simp: swap_def)

lemma erase_by_key_ok:
  assumes ok: "kh_ok key_of st"
  shows "\<exists>st'. erase_by_key better k st = Inr st' \<and> kh_ok key_of st'
    \<and> contents key_of st' = (contents key_of st)(k := None)"
proof (cases "reverse_lookup_map st k")
  case None
  then show ?thesis using ok reverse_lookup(1) [OF ok None] by (auto simp: erase_by_key_def fun_upd_idem)
next
  case (Some p)
  obtain i where i: "i < length (heap_vec st)" "deref st p = Inr i" "key_of (value_at st i) = k"
    using reverse_lookup(2) [OF ok Some] by blast
  obtain st1 where st1: "swap_node st i (length (heap_vec st) - 1) = Inr st1" "reordered key_of st st1"
    "heap_vec st1 = swap (heap_vec st) i (length (heap_vec st) - 1)"
  proof -
    have "length (heap_vec st) - 1 < length (heap_vec st)" using i(1) by simp
    from swap_node_reordered [OF ok i(1) this] show ?thesis using that .
  qed
  let ?st2 = "vec_pop_back (st1\<lparr>reverse_lookup_map := (reverse_lookup_map st1)(k := None)\<rparr>)"
  have ok1: "kh_ok key_of st1" using st1(2) by (simp add: reordered_def)
  have "k = key_of (node_value (last (heap_vec st1)))" and "heap_vec st1 \<noteq> []"
    using i st1(3) last_swap [OF i(1)] by (auto simp: value_at_def swap_def)
  note st2 = kh_ok_pop_back [OF ok1 this(2,1)]
  have cont: "contents key_of ?st2 = (contents key_of st)(k := None)"
    using st2(2) reordered_contents [OF ok st1(2)] by simp
  show ?thesis
  proof (cases "i < length (heap_vec ?st2)")
    case True
    then obtain st3 where st3: "correct_at better ?st2 i = Inr st3" "reordered key_of ?st2 st3"
      using correct_at_ok [OF st2(1)] by blast
    then show ?thesis using Some i st1 st3 True cont reordered_contents [OF st2(1) st3(2)]
      by (auto simp: erase_by_key_def reordered_def Let_def)
  next
    case False
    then show ?thesis using Some i st1 cont st2(1) by (auto simp: erase_by_key_def Let_def)
  qed
qed

lemma pop_ok:
  assumes ok: "kh_ok key_of st" and ne: "heap_vec st \<noteq> []"
  shows "\<exists>st'. pop better key_of st = Inr st' \<and> kh_ok key_of st'
    \<and> contents key_of st' = (contents key_of st)(key_of (value_at st 0) := None)
    \<and> pop_heap better OUT_DEGREE_SZ (map node_value (heap_vec st)) (length (heap_vec st))
        = Inr (map node_value (heap_vec st') @ [value_at st 0])"
proof -
  let ?n = "length (heap_vec st)" and ?vals = "map node_value (heap_vec st)" and ?k = "key_of (value_at st 0)"
  have n: "0 < ?n" "?n - 1 < ?n" using ne by simp_all
  obtain st1 where st1: "swap_node st 0 (?n - 1) = Inr st1" "reordered key_of st st1"
    "heap_vec st1 = swap (heap_vec st) 0 (?n - 1)"
    using swap_node_reordered [OF ok n] .
  have ok1: "kh_ok key_of st1" using st1(2) by (simp add: reordered_def)
  have last1: "node_value (last (heap_vec st1)) = value_at st 0" and "heap_vec st1 \<noteq> []"
    using st1(3) last_swap [OF n(1)] ne by (auto simp: value_at_def swap_def)
  note st2 = kh_ok_pop_back [OF ok1 this(2) refl, unfolded last1]
  let ?st2 = "vec_pop_back (st1\<lparr>reverse_lookup_map := (reverse_lookup_map st1)(?k := None)\<rparr>)"
  have cont: "contents key_of ?st2 = (contents key_of st)(?k := None)"
    using st2(2) reordered_contents [OF ok st1(2)] by simp
  have vals2: "swap ?vals 0 (?n - 1) = map node_value (heap_vec ?st2) @ [value_at st 0]"
    using st2(3) last1 \<open>heap_vec st1 \<noteq> []\<close> st1(3) n
    by (simp add: swap_map [symmetric] map_butlast) (metis append_butlast_last_id last_map map_butlast map_is_Nil_conv)
  have len2: "length (heap_vec ?st2) = ?n - 1" using st2(3) st1(3) by simp
  show ?thesis
  proof (cases "?n = 1")
    case True
    then have "pop better key_of st = Inr ?st2"
      using st1(1) last1 len2 ne by (simp add: pop_def Let_def)
    moreover have "pop_heap better OUT_DEGREE_SZ ?vals ?n = Inr (swap ?vals 0 (?n - 1))"
      using True by (simp add: pop_heap_def)
    ultimately show ?thesis using st2(1) cont vals2 by simp
  next
    case False
    then have "0 < length (heap_vec ?st2)" using len2 n by linarith
    then obtain st3 where st3: "push_down_at better ?st2 0 = Inr st3" "reordered key_of ?st2 st3"
      "push_down_heap better OUT_DEGREE_SZ (map node_value (heap_vec ?st2)) 0 (?n - 1) = Inr (map node_value (heap_vec st3))"
      using push_down_at_ok [OF st2(1)] len2 by metis
    have "push_down_heap better OUT_DEGREE_SZ (swap ?vals 0 (?n - 1)) 0 (?n - 1)
        = Inr (map node_value (heap_vec st3) @ [value_at st 0])"
      unfolding vals2 by (rule push_down_heap_append [OF st3(3)]) (simp add: len2)
    moreover have "pop better key_of st = Inr st3"
      using st1(1) last1 st3(1) \<open>0 < length (heap_vec ?st2)\<close> ne by (auto simp: pop_def Let_def)
    moreover have "0 < ?n - 1" using False n by linarith
    ultimately have "pop_heap better OUT_DEGREE_SZ ?vals ?n = Inr (map node_value (heap_vec st3) @ [value_at st 0])"
      and "pop better key_of st = Inr st3"
      unfolding pop_heap_def Let_def using n by simp_all
    then show ?thesis
      using st3(2) cont reordered_contents [OF st2(1) st3(2)] by (simp add: reordered_def)
  qed
qed

section \<open>The interface\<close>

text \<open>
  What a client may rely on: a store of values by key. \<open>ok\<close> are the states the operations keep,
  \<open>look\<close>, \<open>put\<close> and \<open>del\<close> the operations.
\<close>

locale keyed_store =
  fixes ok :: "'s \<Rightarrow> bool" and key_of :: "'v \<Rightarrow> 'k"
    and look :: "'s \<Rightarrow> 'k \<Rightarrow> 'v option result"
    and put :: "'v \<Rightarrow> 's \<Rightarrow> 's result"
    and del :: "'k \<Rightarrow> 's \<Rightarrow> 's result"
  assumes look_ok: "ok s \<Longrightarrow> \<exists>x. look s k = Inr x"
    and put_ok: "ok s \<Longrightarrow> \<exists>s'. put v s = Inr s' \<and> ok s' \<and> look s' k = (if k = key_of v then Inr (Some v) else look s k)"
    and del_ok: "ok s \<Longrightarrow> \<exists>s'. del k s = Inr s' \<and> ok s' \<and> look s' k' = (if k' = k then Inr None else look s k')"
begin

lemma look_put:
  "ok s \<Longrightarrow> put v s = Inr s' \<Longrightarrow> look s' (key_of v) = Inr (Some v)"
  using put_ok [of s v "key_of v"] by auto

lemma look_put_other:
  "ok s \<Longrightarrow> put v s = Inr s' \<Longrightarrow> k \<noteq> key_of v \<Longrightarrow> look s' k = look s k"
  using put_ok [of s v k] by auto

lemma look_del: "ok s \<Longrightarrow> del k s = Inr s' \<Longrightarrow> look s' k = Inr None"
  using del_ok [of s k k] by auto

lemma ok_put: "ok s \<Longrightarrow> put v s = Inr s' \<Longrightarrow> ok s'"
  using put_ok [of s v] by auto

lemma ok_del: "ok s \<Longrightarrow> del k s = Inr s' \<Longrightarrow> ok s'"
  using del_ok [of s k] by auto

text \<open>The second of two values with one key wins, and a deleted key stays away.\<close>

lemma put_put:
  "ok s \<Longrightarrow> key_of v = key_of w \<Longrightarrow> bindR (put v s) (put w) = Inr s' \<Longrightarrow> look s' (key_of v) = Inr (Some w)"
  by (auto simp: bindR_eq_Inr intro: look_put ok_put)

lemma put_del:
  "ok s \<Longrightarrow> bindR (put v s) (del (key_of v)) = Inr s' \<Longrightarrow> look s' (key_of v) = Inr None"
  by (auto simp: bindR_eq_Inr intro: look_del ok_put)

end

interpretation key_heap: keyed_store "kh_ok key_of" key_of get_by_key "push better key_of" "erase_by_key better"
  for key_of :: "'v \<Rightarrow> 'k" and better
proof unfold_locales
  fix s :: "('v, 'k) KeyHeap" and v k k'
  assume ok: "kh_ok key_of s"
  show "\<exists>x. get_by_key s k = Inr x" using get_by_key_ok [OF ok] by blast
  show "\<exists>s'. push better key_of v s = Inr s' \<and> kh_ok key_of s'
      \<and> get_by_key s' k = (if k = key_of v then Inr (Some v) else get_by_key s k)"
    using push_ok [OF ok, of better v] get_by_key_ok ok by fastforce
  show "\<exists>s'. erase_by_key better k s = Inr s' \<and> kh_ok key_of s'
      \<and> get_by_key s' k' = (if k' = k then Inr None else get_by_key s k')"
    using erase_by_key_ok [OF ok, of better k] get_by_key_ok ok by fastforce
qed

section \<open>Reachable heaps\<close>

text \<open>The states a client can bring about; a mutator must not change the key.\<close>

inductive reachable :: "('v \<Rightarrow> 'v \<Rightarrow> bool) \<Rightarrow> ('v \<Rightarrow> 'k) \<Rightarrow> ('v, 'k) KeyHeap \<Rightarrow> bool" for better key_of where
  new: "reachable better key_of KeyHeap_new"
| push: "reachable better key_of st \<Longrightarrow> push better key_of v st = Inr st' \<Longrightarrow> reachable better key_of st'"
| pop: "reachable better key_of st \<Longrightarrow> pop better key_of st = Inr st' \<Longrightarrow> reachable better key_of st'"
| erase: "reachable better key_of st \<Longrightarrow> erase_by_key better k st = Inr st' \<Longrightarrow> reachable better key_of st'"
| update: "reachable better key_of st \<Longrightarrow> (\<And>v. key_of (f v) = key_of v)
    \<Longrightarrow> update_by_key better k f st = Inr st' \<Longrightarrow> reachable better key_of st'"

lemma kh_ok_new: "kh_ok key_of KeyHeap_new"
  by (simp add: kh_ok_def KeyHeap_new_def)

lemma contents_key: "kh_ok key_of st \<Longrightarrow> contents key_of st k = Some v \<Longrightarrow> key_of v = k"
  using contents_Some [of key_of st k v] by blast

lemma update_by_key_missing:
  "kh_ok key_of st \<Longrightarrow> contents key_of st k = None \<Longrightarrow> update_by_key better k f st = Inl Invalid_argument"
  using reverse_lookup(2) [of key_of st k]
  by (cases "reverse_lookup_map st k") (auto simp: update_by_key_def)

lemma reachable_kh_ok: "reachable better key_of st \<Longrightarrow> kh_ok key_of st"
proof (induction rule: reachable.induct)
  case new
  show ?case by (rule kh_ok_new)
next
  case (push st v st')
  then show ?case by (metis key_heap.ok_put)
next
  case (pop st st')
  then have "heap_vec st \<noteq> []" by (auto simp: pop_def)
  then show ?case using pop_ok [OF pop.IH, of better] pop.hyps(2) by auto
next
  case (erase st k st')
  then show ?case by (metis key_heap.ok_del)
next
  case (update st f k st')
  then show ?case
    using update_by_key_missing [of key_of st k better f] update_by_key_ok [OF update.IH, of k _ f better]
      contents_key [OF update.IH, of k]
    by (cases "contents key_of st k") auto
qed

section \<open>Properties\<close>

text \<open>
  C29: the key heap is a map from keys to values. On every heap a client can reach, whatever the comparator
  answers, lookup by key finds what was stored, \<open>push\<close> inserts or replaces, \<open>erase_by_key\<close> removes,
  and none of them aborts or follows a cell that is gone.
\<close>
theorem key_heap_is_map:
  assumes "reachable better key_of st"
  shows "get_by_key st k = Inr (contents key_of st k)
    \<and> (\<exists>st'. push better key_of v st = Inr st' \<and> contents key_of st' = (contents key_of st)(key_of v \<mapsto> v))
    \<and> (\<exists>st'. erase_by_key better k st = Inr st' \<and> contents key_of st' = (contents key_of st)(k := None))"
proof -
  have ok: "kh_ok key_of st" by (rule reachable_kh_ok [OF assms])
  show ?thesis
    using get_by_key_ok [OF ok] push_ok [OF ok, of better v] erase_by_key_ok [OF ok, of better k] by blast
qed

text \<open>Three pushes, the last of which replaces the value of the first: (key, priority) pairs.\<close>

definition lower_priority :: "nat \<times> nat \<Rightarrow> nat \<times> nat \<Rightarrow> bool" where
  "lower_priority x y \<longleftrightarrow> snd x \<le> snd y"

definition push_all :: "('v \<Rightarrow> 'v \<Rightarrow> bool) \<Rightarrow> ('v \<Rightarrow> 'k) \<Rightarrow> 'v list \<Rightarrow> ('v, 'k) KeyHeap \<Rightarrow> ('v, 'k) KeyHeap result" where
  "push_all better key_of vs st = foldl (\<lambda>r v. bindR r (push better key_of v)) (Inr st) vs"

lemma push_all_reachable:
  "reachable better key_of st \<Longrightarrow> push_all better key_of vs st = Inr st' \<Longrightarrow> reachable better key_of st'"
proof (induction vs arbitrary: st' rule: rev_induct)
  case (snoc v vs)
  then obtain st1 where "push_all better key_of vs st = Inr st1" "push better key_of v st1 = Inr st'"
    by (auto simp: push_all_def bindR_eq_Inr)
  with snoc show ?case using reachable.push by metis
qed (simp add: push_all_def)

theorem key_heap_is_map_witness:
  "\<exists>st. push_all lower_priority fst [(1, 9), (2, 4), (1, 3)] KeyHeap_new = Inr st
     \<and> get_by_key st 1 = Inr (contents fst st 1) \<and> contents fst st 1 = Some (1, 3)"
proof -
  have "bindR (push_all lower_priority fst [(1, 9), (2, 4), (1, 3)] KeyHeap_new) (\<lambda>st. get_by_key st 1)
      = Inr (Some (1, 3))"
    by code_simp
  then obtain st where st: "push_all lower_priority fst [(1, 9), (2, 4), (1, 3)] KeyHeap_new = Inr st"
    "get_by_key st 1 = Inr (Some (1, 3))" by (auto simp: bindR_eq_Inr)
  then have "reachable lower_priority fst st" using push_all_reachable reachable.new by metis
  from key_heap_is_map [OF this, of 1] st show ?thesis by auto
qed

text \<open>
  \<open>update_by_key\<close> applies the mutator to the value of the key and to nothing else; a key that is not
  there is answered with \<open>invalid_argument\<close>.
\<close>
theorem update_by_key_correct:
  assumes "reachable better key_of st" and "\<And>v. key_of (f v) = key_of v"
  shows "(case contents key_of st k of
      None \<Rightarrow> update_by_key better k f st = Inl Invalid_argument
    | Some v \<Rightarrow> \<exists>st'. update_by_key better k f st = Inr st' \<and> contents key_of st' = (contents key_of st)(k \<mapsto> f v))"
proof (cases "contents key_of st k")
  case None
  then show ?thesis using update_by_key_missing [OF reachable_kh_ok [OF assms(1)]] by simp
next
  case (Some v)
  have ok: "kh_ok key_of st" by (rule reachable_kh_ok [OF assms(1)])
  have "key_of (f v) = k" using contents_key [OF ok Some] assms(2) by simp
  then show ?thesis using update_by_key_ok [OF ok Some, of f better] Some by auto
qed

theorem update_by_key_correct_witness:
  "\<exists>st st'. push_all lower_priority fst [(1, 9), (2, 4)] KeyHeap_new = Inr st
     \<and> update_by_key lower_priority 2 (\<lambda>v. (fst v, 0)) st = Inr st'
     \<and> contents fst st' = (contents fst st)(2 \<mapsto> (2, 0))"
proof -
  have "bindR (push_all lower_priority fst [(1, 9), (2, 4)] KeyHeap_new) (\<lambda>st. Inr (contents fst st 2))
      = Inr (Some (2, 4))"
    by code_simp
  then obtain st where st: "push_all lower_priority fst [(1, 9), (2, 4)] KeyHeap_new = Inr st"
    "contents fst st 2 = Some (2, 4)" by (auto simp: bindR_eq_Inr)
  then have "reachable lower_priority fst st" using push_all_reachable reachable.new by metis
  from update_by_key_correct [OF this, of "\<lambda>v. (fst v, 0)" 2] st show ?thesis by simp
qed

text \<open>
  a heap in order gives its elements best first. If the values in the array are a heap in the sense of
  \<open>is_heap\<close> (the children of \<open>idx\<close> are \<open>idx * OUT_DEGREE_SZ + 1\<close> and on), then \<open>peek\<close> is better than every
  stored value, and \<open>pop\<close> removes it and leaves a heap in order.
\<close>
theorem key_heap_pop_best:
  assumes "better_order better" and "reachable better key_of st" and "\<not> heap_empty st"
    and "is_heap better OUT_DEGREE_SZ (map node_value (heap_vec st)) (heap_size st) = Inr True"
  shows "\<exists>v st'. peek st = Inr v \<and> (\<forall>k w. contents key_of st k = Some w \<longrightarrow> better v w)
    \<and> pop better key_of st = Inr st' \<and> contents key_of st' = (contents key_of st)(key_of v := None)
    \<and> is_heap better OUT_DEGREE_SZ (map node_value (heap_vec st')) (heap_size st') = Inr True"
proof -
  let ?vals = "map node_value (heap_vec st)" and ?n = "length (heap_vec st)"
  have D: "0 < OUT_DEGREE_SZ" by (simp add: OUT_DEGREE_SZ_def)
  have ok: "kh_ok key_of st" by (rule reachable_kh_ok [OF assms(2)])
  have ne: "heap_vec st \<noteq> []" using assms(3) by (simp add: heap_empty_def)
  have heap: "heap_ordered better OUT_DEGREE_SZ ?vals ?n"
    using assms(4) D by (simp add: is_heap_iff heap_size_def)
  obtain st' where st': "pop better key_of st = Inr st'" "kh_ok key_of st'"
    "contents key_of st' = (contents key_of st)(key_of (value_at st 0) := None)"
    "pop_heap better OUT_DEGREE_SZ ?vals ?n = Inr (map node_value (heap_vec st') @ [value_at st 0])"
    using pop_ok [OF ok ne, of better] by blast
  obtain ys where "pop_heap better OUT_DEGREE_SZ ?vals ?n = Inr ys"
    "heap_ordered better OUT_DEGREE_SZ ys (?n - 1)" "rearranged ?vals ys ?n"
    using better_order.pop_heap_ok [OF assms(1) D _ _ heap] ne by auto
  then have "heap_ordered better OUT_DEGREE_SZ (map node_value (heap_vec st') @ [value_at st 0]) (?n - 1)"
    and len: "length (heap_vec st') = ?n - 1"
    using st'(4) by (auto simp: rearranged_def)
  then have "heap_ordered better OUT_DEGREE_SZ (map node_value (heap_vec st')) (length (heap_vec st'))"
    unfolding heap_ordered_def by (auto intro: heap_from_prefix simp: nth_append)
  moreover have "better (value_at st 0) w" if w: "contents key_of st k = Some w" for k w
  proof -
    obtain i where "i < ?n" "value_at st i = w" using contents_Some [OF ok] w by blast
    then show ?thesis using better_order.root_best [OF assms(1) heap, of i] ne by (simp add: value_at_def)
  qed
  moreover have "peek st = Inr (value_at st 0)" using ne by (simp add: peek_def value_at_def hd_conv_nth)
  ultimately show ?thesis using st'(1,3) D by (auto simp: is_heap_iff heap_size_def)
qed

interpretation priority: better_order lower_priority
  by unfold_locales (auto simp: lower_priority_def)

theorem key_heap_pop_best_witness:
  "\<exists>st v st'. push_all lower_priority fst [(1, 9), (2, 4), (3, 7)] KeyHeap_new = Inr st \<and> peek st = Inr v
     \<and> pop lower_priority fst st = Inr st' \<and> contents fst st' = (contents fst st)(fst v := None)"
proof -
  have "bindR (push_all lower_priority fst [(1, 9), (2, 4), (3, 7)] KeyHeap_new)
      (\<lambda>st. Inr (heap_empty st, is_heap lower_priority OUT_DEGREE_SZ (map node_value (heap_vec st)) (heap_size st)))
      = Inr (False, Inr True)"
    by code_simp
  then obtain st where st: "push_all lower_priority fst [(1, 9), (2, 4), (3, 7)] KeyHeap_new = Inr st"
    "\<not> heap_empty st" "is_heap lower_priority OUT_DEGREE_SZ (map node_value (heap_vec st)) (heap_size st) = Inr True"
    by (auto simp: bindR_eq_Inr)
  then have "reachable lower_priority fst st" using push_all_reachable reachable.new by metis
  from key_heap_pop_best [OF priority.better_order_axioms this st(2,3)] st(1) show ?thesis by blast
qed

text \<open>
  \<open>push\<close> does not keep the heap in order. \<open>push_up_at\<close> takes \<open>idx / OUT_DEGREE_SZ\<close> for the parent of
  \<open>idx\<close>, but \<open>push_down_at\<close> the cells from \<open>idx * OUT_DEGREE_SZ + 1\<close> on for its children: index 16 is a child
  of 1, and \<open>push_up_at\<close> compares it with 2. After twenty pushes and two pops \<open>peek\<close> returns 10 while
  the better 5 is still in the heap.
\<close>
theorem key_heap_order_broken:
  "bindR (push_all (\<le>) (\<lambda>v. v)
       [0, 10, 1, 20, 21, 22, 23, 24, 25, 26, 27, 28, 29, 30, 31, 32, 5, 33, 34, 35 :: nat] KeyHeap_new) (\<lambda>st.
     bindR (pop (\<le>) (\<lambda>v. v) st) (\<lambda>st.
     bindR (pop (\<le>) (\<lambda>v. v) st) (\<lambda>st.
     bindR (peek st) (\<lambda>best.
     bindR (get_by_key st 5) (\<lambda>found. Inr (best, found)))))) = Inr (10, Some 5)"
  by code_simp

end
