(* ===== verification/Power_Of_Two.thy ===== *)
theory Power_Of_Two
  imports Prelude
begin

text \<open>
  Sizes that are powers of two: the helpers of \<open>stl_extension/stdx.h\<close>, of which
  \<open>internal_rest/network_datastructure.h\<close> has copies, and the mask that takes an index modulo such a size.
\<close>

unbundle bit_operations_syntax

section \<open>Helpers of stdx\<close>

definition is_pow2 :: "nat \<Rightarrow> bool" where
  "is_pow2 value \<longleftrightarrow> value \<noteq> 0 \<and> value AND (value - 1) = 0"

text \<open>\<open>digits - 1 - countl_zero(val)\<close>: the position of the highest bit of a nonzero value.\<close>

fun ulog2 :: "nat \<Rightarrow> nat" where
  "ulog2 val = (if val < 2 then 0 else Suc (ulog2 (val div 2)))"

text \<open>A \<open>size_t\<close> is shifted by the logarithm: above \<open>2 ^ 63\<close> by all of its 64 bits, which C++ leaves undefined.\<close>

definition ceil2 :: "nat \<Rightarrow> nat result" where
  "ceil2 val =
     (if val < 2 then Inr 1
      else let uplog_value = ulog2 (val - 1) + 1
           in if uplog_value < 64 then Inr (2 ^ uplog_value) else Inl Bad_shift)"

declare ulog2.simps [simp del]

section \<open>What they compute\<close>

lemma is_pow2_power: "is_pow2 (2 ^ k)"
proof -
  have "(2 ^ k :: nat) AND (2 ^ k - 1) = take_bit k (2 ^ k)"
    by (simp add: take_bit_eq_mask mask_eq_exp_minus_1)
  then show ?thesis by (simp add: is_pow2_def take_bit_eq_mod)
qed

lemma ulog2_bounds: "0 < n \<Longrightarrow> 2 ^ ulog2 n \<le> n \<and> n < 2 ^ Suc (ulog2 n)"
proof (induction n rule: ulog2.induct)
  case (1 n)
  show ?case
  proof (cases "n < 2")
    case True
    with "1.prems" show ?thesis by (simp add: ulog2.simps [of n])
  next
    case False
    then have "2 ^ ulog2 (n div 2) \<le> n div 2 \<and> n div 2 < 2 ^ Suc (ulog2 (n div 2))"
      using "1.IH" by simp
    then show ?thesis using False by (simp add: ulog2.simps [of n]) linarith
  qed
qed

text \<open>The least power of two that is not smaller.\<close>

definition next_pow2 :: "nat \<Rightarrow> nat" where
  "next_pow2 n = (if n < 2 then 1 else 2 ^ (ulog2 (n - 1) + 1))"

lemma next_pow2_power: "\<exists>k. next_pow2 n = 2 ^ k"
  unfolding next_pow2_def by (metis power_0)

lemma next_pow2_least: "n \<le> next_pow2 n \<and> (\<forall>k. n \<le> 2 ^ k \<longrightarrow> next_pow2 n \<le> 2 ^ k)"
proof (cases "n < 2")
  case True
  then show ?thesis by (simp add: next_pow2_def)
next
  case False
  let ?u = "ulog2 (n - 1)"
  have u: "2 ^ ?u \<le> n - 1" "n - 1 < 2 ^ Suc ?u" using ulog2_bounds [of "n - 1"] False by simp_all
  have "2 ^ Suc ?u \<le> (2 :: nat) ^ k" if "n \<le> 2 ^ k" for k
  proof -
    have "(2 :: nat) ^ ?u < 2 ^ k" using u(1) that False by linarith
    then have "Suc ?u \<le> k" by simp
    then show ?thesis by (rule power_increasing) simp
  qed
  moreover have "n \<le> 2 ^ Suc ?u" using u(2) by linarith
  ultimately show ?thesis using False by (simp add: next_pow2_def)
qed

lemma ceil2_eq: "ceil2 n = (if n \<le> 2 ^ 63 then Inr (next_pow2 n) else Inl Bad_shift)"
proof (cases "n < 2")
  case False
  have u: "2 ^ ulog2 (n - 1) \<le> n - 1" "n - 1 < 2 ^ Suc (ulog2 (n - 1))" using ulog2_bounds [of "n - 1"] False by simp_all
  have "ulog2 (n - 1) + 1 < 64 \<longleftrightarrow> n \<le> 2 ^ 63"
  proof
    assume "ulog2 (n - 1) + 1 < 64"
    then have "(2 :: nat) ^ Suc (ulog2 (n - 1)) \<le> 2 ^ 63" by (intro power_increasing) simp_all
    with u(2) show "n \<le> 2 ^ 63" by linarith
  next
    assume "n \<le> 2 ^ 63"
    then have "(2 :: nat) ^ ulog2 (n - 1) < 2 ^ 63" using u(1) False by linarith
    then have "ulog2 (n - 1) < 63" by (rule power_less_imp_less_exp [rotated]) simp
    then show "ulog2 (n - 1) + 1 < 64" by linarith
  qed
  then show ?thesis using False by (simp add: ceil2_def next_pow2_def)
qed (simp add: ceil2_def next_pow2_def)

lemma ceil2_small: "n \<le> 2 ^ 63 \<Longrightarrow> ceil2 n = Inr (next_pow2 n)"
  by (simp add: ceil2_eq)

lemma ceil2_eq_Inr [simp]: "ceil2 n = Inr c \<longleftrightarrow> n \<le> 2 ^ 63 \<and> c = next_pow2 n"
  by (auto simp: ceil2_eq)

lemma ulog2_power [simp]: "ulog2 (2 ^ k) = k"
proof -
  have "2 ^ ulog2 (2 ^ k) \<le> (2 :: nat) ^ k" "(2 :: nat) ^ k < 2 ^ Suc (ulog2 (2 ^ k))"
    using ulog2_bounds [of "2 ^ k"] by simp_all
  then have "ulog2 (2 ^ k) \<le> k" by simp
  moreover have "k < Suc (ulog2 (2 ^ k))"
    using \<open>(2 :: nat) ^ k < 2 ^ Suc (ulog2 (2 ^ k))\<close> by (rule power_less_imp_less_exp [rotated]) simp
  ultimately show ?thesis by simp
qed

lemma and_pow2_mask: "x AND (2 ^ k - 1) = x mod 2 ^ k" for x :: nat
  unfolding take_bit_eq_mod [symmetric] take_bit_eq_mask mask_eq_exp_minus_1 ..

end
