(* ===== verification/Taint_Interval_Tree.thy ===== *)
theory Taint_Interval_Tree
  imports Power_Of_Two
begin

text \<open>
  \<open>memory_sync/taint_interval_tree.h\<close>: which bytes of a memory region were written since the last
  synchronization, as a segment tree stored in an array, with the merging of intervals of
  \<open>stl_extension/stdx.h\<close>. \<open>size_t\<close> values are natural numbers; the one sum that can leave 64 bits, the end of an interval
  passed in by a client, is taken modulo \<open>2^64\<close>. The other sums stay below \<open>2^64\<close> because
  \<open>actual_base_sz\<close> is at most \<open>2^63\<close>. An index outside the array is the error \<open>Out_of_bounds\<close>.
\<close>

unbundle bit_operations_syntax

section \<open>Merging intervals\<close>

fun shrink_loop :: "(nat \<times> nat) option \<Rightarrow> (nat \<times> nat) list \<Rightarrow> (nat \<times> nat) list" where
  "shrink_loop None [] = []"
| "shrink_loop (Some aggregated) [] = [aggregated]"
| "shrink_loop None (arg # args) = shrink_loop (Some arg) args"
| "shrink_loop (Some aggregated) (arg # args) =
     (let now_last = fst aggregated + snd aggregated;
          nxt_first = fst arg;
          nxt_last = fst arg + snd arg in
      if now_last \<ge> nxt_first then
        (if nxt_last > now_last then shrink_loop (Some (fst aggregated, nxt_last - fst aggregated)) args
         else shrink_loop (Some aggregated) args)
      else aggregated # shrink_loop (Some arg) args)"

definition shrunk_adjecent_interval :: "(nat \<times> nat) list \<Rightarrow> (nat \<times> nat) list" where
  "shrunk_adjecent_interval arg_vec = shrink_loop None arg_vec"

section \<open>The tree\<close>

record TreeNode =
  is_visited :: bool
  is_blocked :: bool

record TaintIntervalTree =
  interval_tree :: "TreeNode list"
  actual_base_sz :: nat
  virtual_base_sz :: nat

abbreviation clear_node :: TreeNode where
  "clear_node \<equiv> \<lparr>is_visited = False, is_blocked = False\<rparr>"

definition make_interval_tree_of_base_size :: "nat \<Rightarrow> TreeNode list result" where
  "make_interval_tree_of_base_size base_sz =
     (if \<not> is_pow2 base_sz then Inl Abort
      else let tree_sz = base_sz * 2 - 1 in Inr (replicate tree_sz clear_node))"

definition TaintIntervalTree_new :: "nat \<Rightarrow> TaintIntervalTree result" where
  "TaintIntervalTree_new base_sz =
     bindR (ceil2 base_sz) (\<lambda>ceil2_sz.
     bindR (make_interval_tree_of_base_size ceil2_sz) (\<lambda>tree.
       Inr \<lparr>interval_tree = tree, actual_base_sz = ceil2_sz, virtual_base_sz = base_sz\<rparr>))"

text \<open>
  \<open>dispatch_block\<close>; the first argument is \<open>interval_tree.size()\<close>, which never changes. Every call goes to
  a larger index, so the recursion ends, if need be outside the array.
\<close>

function dispatch_block :: "nat \<Rightarrow> TreeNode list \<Rightarrow> nat \<Rightarrow> nat \<Rightarrow> nat \<Rightarrow> nat \<Rightarrow> nat \<Rightarrow> TreeNode list result" where
  "dispatch_block n tree root_idx root_first root_last interval_first interval_last =
     (if root_idx \<ge> n then Inl Out_of_bounds
      else if is_blocked (tree ! root_idx) then Inr tree
      else
        let tree1 = tree[root_idx := (tree ! root_idx)\<lparr>is_visited := True\<rparr>] in
        if root_first = interval_first \<and> root_last = interval_last
        then Inr (tree1[root_idx := (tree1 ! root_idx)\<lparr>is_blocked := True\<rparr>])
        else
          let root_sz = root_last - root_first;
              mid_sz = root_sz div 2;
              nxt_first = root_first + mid_sz in
          if interval_last \<le> nxt_first then
            dispatch_block n tree1 (root_idx * 2 + 1) root_first nxt_first interval_first interval_last
          else if interval_first \<ge> nxt_first then
            dispatch_block n tree1 (root_idx * 2 + 2) nxt_first root_last interval_first interval_last
          else
            (case dispatch_block n tree1 (root_idx * 2 + 1) root_first nxt_first interval_first nxt_first of
               Inl e \<Rightarrow> Inl e
             | Inr tree2 \<Rightarrow>
                 dispatch_block n tree2 (root_idx * 2 + 2) nxt_first root_last nxt_first interval_last))"
  by pat_completeness auto
termination
  by (relation "measure (\<lambda>(n, tree, root_idx, rest). n - root_idx)") auto

function visit_helper :: "nat \<Rightarrow> TreeNode list \<Rightarrow> nat \<Rightarrow> nat \<Rightarrow> nat \<Rightarrow> (nat \<times> nat) list result" where
  "visit_helper n tree root_idx root_first root_last =
     (if root_idx \<ge> n then Inl Out_of_bounds
      else if \<not> is_visited (tree ! root_idx) then Inr []
      else if is_blocked (tree ! root_idx) then Inr [(root_first, root_last - root_first)]
      else if root_first + 1 = root_last then Inr []
      else
        let root_sz = root_last - root_first;
            mid_sz = root_sz div 2;
            nxt_first = root_first + mid_sz in
        bindR (visit_helper n tree (root_idx * 2 + 1) root_first nxt_first) (\<lambda>rs.
        bindR (visit_helper n tree (root_idx * 2 + 2) nxt_first root_last) (\<lambda>rs'.
          Inr (rs @ rs'))))"
  by pat_completeness auto
termination
  by (relation "measure (\<lambda>(n, tree, root_idx, rest). n - root_idx)") auto

declare dispatch_block.simps [simp del] visit_helper.simps [simp del]

definition get_taint_region_vector :: "TaintIntervalTree \<Rightarrow> (nat \<times> nat) list result" where
  "get_taint_region_vector st =
     bindR (visit_helper (length (interval_tree st)) (interval_tree st) 0 0 (actual_base_sz st))
       (\<lambda>rs. Inr (shrunk_adjecent_interval rs))"

definition taint :: "nat \<times> nat \<Rightarrow> TaintIntervalTree \<Rightarrow> TaintIntervalTree result" where
  "taint interval st =
     (let first = fst interval;
          last = (first + snd interval) mod 2 ^ 64 in
      if last > virtual_base_sz st then Inl Invalid_argument
      else if first = last then Inr st
      else
        bindR (dispatch_block (length (interval_tree st)) (interval_tree st) 0 0 (actual_base_sz st) first last)
          (\<lambda>tree. Inr (st\<lparr>interval_tree := tree\<rparr>)))"

definition reset :: "TaintIntervalTree \<Rightarrow> TaintIntervalTree" where
  "reset st = st\<lparr>interval_tree := replicate (length (interval_tree st)) clear_node\<rparr>"

definition tree_size :: "TaintIntervalTree \<Rightarrow> nat" where
  "tree_size st = virtual_base_sz st"

section \<open>Subtrees\<close>

text \<open>\<open>below i j\<close>: node \<open>j\<close> is in the subtree of node \<open>i\<close>.\<close>

definition below :: "nat \<Rightarrow> nat \<Rightarrow> bool" where
  "below i j \<longleftrightarrow> (\<exists>k. (j + 1) div 2 ^ k = i + 1)"

lemma below_refl [simp]: "below i i"
  unfolding below_def by (rule exI [of _ 0]) simp

lemma below_left: "below (i * 2 + 1) j \<Longrightarrow> below i j"
proof -
  assume "below (i * 2 + 1) j"
  then obtain k where "(j + 1) div 2 ^ k = i * 2 + 1 + 1" unfolding below_def by blast
  then have "(j + 1) div 2 ^ Suc k = i + 1" by (simp add: power_Suc2 div_mult2_eq del: power_Suc)
  then show ?thesis unfolding below_def ..
qed

lemma below_right: "below (i * 2 + 2) j \<Longrightarrow> below i j"
proof -
  assume "below (i * 2 + 2) j"
  then obtain k where "(j + 1) div 2 ^ k = i * 2 + 2 + 1" unfolding below_def by blast
  then have "(j + 1) div 2 ^ Suc k = i + 1" by (simp add: power_Suc2 div_mult2_eq del: power_Suc)
  then show ?thesis unfolding below_def ..
qed

lemma below_greater: "below i j \<Longrightarrow> i \<le> j"
  unfolding below_def by (metis add_le_cancel_right div_le_dividend)

lemma below_siblings: "below (i * 2 + 1) j \<Longrightarrow> \<not> below (i * 2 + 2) j"
proof
  assume "below (i * 2 + 1) j" "below (i * 2 + 2) j"
  then obtain k l where k: "(j + 1) div 2 ^ k = i * 2 + 1 + 1" and l: "(j + 1) div 2 ^ l = i * 2 + 2 + 1"
    unfolding below_def by blast
  consider "k = l" | d where "l = k + Suc d" | d where "k = l + Suc d"
    by (metis less_iff_Suc_add linorder_neqE_nat add_Suc_right)
  then show False
  proof cases
    case 1 then show ?thesis using k l by simp
  next
    case 2
    then have "(i * 2 + 1 + 1) div 2 ^ Suc d = i * 2 + 2 + 1" using k l by (simp only: power_add div_mult2_eq)
    then show ?thesis using div_le_dividend [of "i * 2 + 1 + 1" "2 ^ Suc d"] by simp
  next
    case 3
    then have "(i * 2 + 2 + 1) div 2 ^ Suc d = i * 2 + 1 + 1" using k l by (simp only: power_add div_mult2_eq)
    moreover have "(i * 2 + 2 + 1) div 2 ^ Suc d \<le> (i * 2 + 2 + 1) div 2" 
      by (simp only: power_Suc div_mult2_eq div_le_dividend)
    ultimately show ?thesis by simp
  qed
qed

section \<open>What the tree stores\<close>

text \<open>
  The tree below node \<open>idx\<close>, \<open>h\<close> levels above the leaves, that covers \<open>2 ^ h\<close> positions from \<open>rf\<close> on:
  the positions it marks, as \<open>visit_helper\<close> sees them. \<open>clean\<close>: nothing is set below; \<open>tidy\<close>: below
  a node that is not visited, nothing is set. \<open>fits\<close>: the subtree is inside an array of \<open>n\<close> nodes.
\<close>

primrec marked :: "TreeNode list \<Rightarrow> nat \<Rightarrow> nat \<Rightarrow> nat \<Rightarrow> nat set" where
  "marked t 0 idx rf =
     (if is_visited (t ! idx) \<and> is_blocked (t ! idx) then {rf} else {})"
| "marked t (Suc h) idx rf =
     (if \<not> is_visited (t ! idx) then {}
      else if is_blocked (t ! idx) then {rf..<rf + 2 ^ Suc h}
      else marked t h (idx * 2 + 1) rf \<union> marked t h (idx * 2 + 2) (rf + 2 ^ h))"

primrec clean :: "TreeNode list \<Rightarrow> nat \<Rightarrow> nat \<Rightarrow> bool" where
  "clean t 0 idx \<longleftrightarrow> \<not> is_visited (t ! idx) \<and> \<not> is_blocked (t ! idx)"
| "clean t (Suc h) idx \<longleftrightarrow> \<not> is_visited (t ! idx) \<and> \<not> is_blocked (t ! idx)
     \<and> clean t h (idx * 2 + 1) \<and> clean t h (idx * 2 + 2)"

primrec tidy :: "TreeNode list \<Rightarrow> nat \<Rightarrow> nat \<Rightarrow> bool" where
  "tidy t 0 idx \<longleftrightarrow> (\<not> is_visited (t ! idx) \<longrightarrow> clean t 0 idx)"
| "tidy t (Suc h) idx \<longleftrightarrow> (\<not> is_visited (t ! idx) \<longrightarrow> clean t (Suc h) idx)
     \<and> tidy t h (idx * 2 + 1) \<and> tidy t h (idx * 2 + 2)"

definition fits :: "nat \<Rightarrow> nat \<Rightarrow> nat \<Rightarrow> bool" where
  "fits n h idx \<longleftrightarrow> (idx + 2) * 2 ^ h \<le> n + 1"

lemma fits_less: "fits n h idx \<Longrightarrow> idx < n"
proof -
  assume "fits n h idx"
  then have le: "(idx + 2) * 2 ^ h \<le> n + 1" by (simp add: fits_def)
  have "(idx + 2) * 1 \<le> (idx + 2) * 2 ^ h" by (intro mult_le_mono2) simp
  from order_trans [OF this le] show ?thesis by simp
qed

lemma fits_children: "fits n (Suc h) idx \<Longrightarrow> fits n h (idx * 2 + 1) \<and> fits n h (idx * 2 + 2)"
proof -
  assume "fits n (Suc h) idx"
  then have right: "(idx * 2 + 2 + 2) * 2 ^ h \<le> n + 1" by (simp add: fits_def algebra_simps)
  have "(idx * 2 + 1 + 2) * 2 ^ h \<le> (idx * 2 + 2 + 2) * (2 :: nat) ^ h" by (intro mult_le_mono1) simp
  from right order_trans [OF this right] show ?thesis by (simp add: fits_def)
qed

lemma clean_marked: "clean t h idx \<Longrightarrow> marked t h idx rf = {}"
  by (cases h) auto

lemma clean_tidy: "clean t h idx \<Longrightarrow> tidy t h idx"
  by (induction h arbitrary: idx) auto

lemma tidy_visited: "tidy t h idx \<Longrightarrow> is_blocked (t ! idx) \<Longrightarrow> is_visited (t ! idx)"
  by (cases h) auto

lemma subtree_cong:
  assumes "\<And>j. below idx j \<Longrightarrow> t' ! j = t ! j"
  shows "marked t' h idx rf = marked t h idx rf" and "clean t' h idx = clean t h idx"
    and "tidy t' h idx = tidy t h idx"
proof -
  have "(\<forall>rf. marked t' h idx rf = marked t h idx rf) \<and> clean t' h idx = clean t h idx \<and> tidy t' h idx = tidy t h idx"
    using assms
  proof (induction h arbitrary: idx)
    case (Suc h)
    have "t' ! idx = t ! idx" using Suc.prems by simp
    moreover note Suc.IH [of "idx * 2 + 1", OF Suc.prems [OF below_left]]
      Suc.IH [of "idx * 2 + 2", OF Suc.prems [OF below_right]]
    ultimately show ?case by simp
  qed simp
  then show "marked t' h idx rf = marked t h idx rf" and "clean t' h idx = clean t h idx"
    and "tidy t' h idx = tidy t h idx" by blast+
qed

lemma marked_bounds: "marked t h idx rf \<subseteq> {rf..<rf + 2 ^ h}"
proof (induction h arbitrary: idx rf)
  case (Suc h)
  from Suc [of "idx * 2 + 1" rf] Suc [of "idx * 2 + 2" "rf + 2 ^ h"] show ?case
    by (auto simp: subset_iff split: if_splits)
qed simp

text \<open>Marking a node as visited changes nothing of what the tree marks.\<close>

lemma visit_node:
  assumes "tidy t h idx" and "idx < length t" and "\<not> is_blocked (t ! idx)"
  defines "t1 \<equiv> t[idx := (t ! idx)\<lparr>is_visited := True\<rparr>]"
  shows "tidy t1 h idx" and "marked t1 h idx rf = marked t h idx rf"
    and "j \<noteq> idx \<Longrightarrow> t1 ! j = t ! j" and "t1 ! idx = (t ! idx)\<lparr>is_visited := True\<rparr>"
proof -
  show other: "j \<noteq> idx \<Longrightarrow> t1 ! j = t ! j" for j by (simp add: t1_def)
  show here: "t1 ! idx = (t ! idx)\<lparr>is_visited := True\<rparr>" using assms(2) by (simp add: t1_def)
  have left: "t1 ! j = t ! j" if "below (idx * 2 + 1) j" for j
    using below_greater [OF that] other [of j] by linarith
  have right: "t1 ! j = t ! j" if "below (idx * 2 + 2) j" for j
    using below_greater [OF that] other [of j] by linarith
  note same = subtree_cong [of "idx * 2 + 1" t1 t, OF left] subtree_cong [of "idx * 2 + 2" t1 t, OF right]
  show "tidy t1 h idx" using assms(1) here same by (cases h) simp_all
  show "marked t1 h idx rf = marked t h idx rf"
    using assms(1,3) here same by (cases h) (auto simp: clean_marked)
qed

section \<open>Marking an interval\<close>

text \<open>What \<open>dispatch_block\<close> promises for one node: \<open>{a..<b}\<close> is added below it, nothing else is touched.\<close>

definition adds :: "TreeNode list \<Rightarrow> TreeNode list \<Rightarrow> nat \<Rightarrow> nat \<Rightarrow> nat \<Rightarrow> nat set \<Rightarrow> bool" where
  "adds t t' h idx rf S \<longleftrightarrow> length t' = length t \<and> tidy t' h idx
     \<and> marked t' h idx rf = marked t h idx rf \<union> S \<and> (\<forall>j. \<not> below idx j \<longrightarrow> t' ! j = t ! j)"

lemma adds_left:
  assumes step: "adds t t' h (idx * 2 + 1) rf S" and tidy: "tidy t (Suc h) idx"
    and node: "is_visited (t ! idx)" "\<not> is_blocked (t ! idx)"
  shows "adds t t' (Suc h) idx rf S"
proof -
  have here: "t' ! idx = t ! idx" using step below_greater [of "idx * 2 + 1" idx] by (force simp: adds_def)
  have right: "t' ! j = t ! j" if "below (idx * 2 + 2) j" for j
    using step that below_siblings unfolding adds_def by blast
  have "t' ! j = t ! j" if "\<not> below idx j" for j using step that below_left unfolding adds_def by blast
  then show ?thesis
    using step tidy node here subtree_cong [of "idx * 2 + 2" t' t, OF right] by (auto simp: adds_def)
qed

lemma adds_right:
  assumes step: "adds t t' h (idx * 2 + 2) (rf + 2 ^ h) S" and tidy: "tidy t (Suc h) idx"
    and node: "is_visited (t ! idx)" "\<not> is_blocked (t ! idx)"
  shows "adds t t' (Suc h) idx rf S"
proof -
  have here: "t' ! idx = t ! idx" using step below_greater [of "idx * 2 + 2" idx] by (force simp: adds_def)
  have left: "t' ! j = t ! j" if "below (idx * 2 + 1) j" for j
    using step that below_siblings unfolding adds_def by blast
  have "t' ! j = t ! j" if "\<not> below idx j" for j using step that below_right unfolding adds_def by blast
  then show ?thesis
    using step tidy node here subtree_cong [of "idx * 2 + 1" t' t, OF left] by (auto simp: adds_def)
qed

lemma adds_trans: "adds t t' h idx rf S \<Longrightarrow> adds t' t'' h idx rf S' \<Longrightarrow> adds t t'' h idx rf (S \<union> S')"
  by (auto simp: adds_def)

lemma adds_visit:
  assumes "tidy t h idx" and "idx < length t" and "\<not> is_blocked (t ! idx)"
  shows "adds t (t[idx := (t ! idx)\<lparr>is_visited := True\<rparr>]) h idx rf {}"
proof -
  have "t[idx := (t ! idx)\<lparr>is_visited := True\<rparr>] ! j = t ! j" if "\<not> below idx j" for j
    using that by (cases "j = idx") simp_all
  then show ?thesis using visit_node [OF assms] by (simp add: adds_def)
qed

lemma adds_block:
  assumes "tidy t h idx" and "idx < length t" and "is_visited (t ! idx)"
  shows "adds t (t[idx := (t ! idx)\<lparr>is_blocked := True\<rparr>]) h idx rf {rf..<rf + 2 ^ h}"
proof -
  let ?t = "t[idx := (t ! idx)\<lparr>is_blocked := True\<rparr>]"
  have other: "?t ! j = t ! j" if "j \<noteq> idx" for j using that by simp
  have left: "?t ! j = t ! j" if "below (idx * 2 + 1) j" for j
    using below_greater [OF that] other [of j] by linarith
  have right: "?t ! j = t ! j" if "below (idx * 2 + 2) j" for j
    using below_greater [OF that] other [of j] by linarith
  have "tidy ?t h idx"
    using assms subtree_cong [of "idx * 2 + 1" ?t t, OF left] subtree_cong [of "idx * 2 + 2" ?t t, OF right]
    by (cases h) simp_all
  moreover have "marked ?t h idx rf = {rf..<rf + 2 ^ h}" using assms by (cases h) auto
  moreover have "?t ! j = t ! j" if "\<not> below idx j" for j using that other by (cases "j = idx") simp_all
  ultimately show ?thesis using marked_bounds [of t h idx rf] by (simp add: adds_def Un_absorb1)
qed

lemma dispatch_block_ok:
  assumes "fits n h idx" and "length t = n" and "tidy t h idx" and "rf \<le> a" and "a < b" and "b \<le> rf + 2 ^ h"
  shows "\<exists>t'. dispatch_block n t idx rf (rf + 2 ^ h) a b = Inr t' \<and> adds t t' h idx rf {a..<b}"
  using assms
proof (induction h arbitrary: t idx rf a b)
  case 0
  then have idx: "idx < n" using fits_less by blast
  have ab: "a = rf" "b = rf + 1" using 0 by simp_all
  show ?case
  proof (cases "is_blocked (t ! idx)")
    case True
    then show ?thesis using 0 idx ab tidy_visited [OF 0(3) True]
      by (auto simp: dispatch_block.simps [of n t idx] adds_def)
  next
    case False
    let ?t1 = "t[idx := (t ! idx)\<lparr>is_visited := True\<rparr>]"
    have v: "adds t ?t1 0 idx rf {}" using adds_visit 0 idx False by simp
    then have "adds ?t1 (?t1[idx := (?t1 ! idx)\<lparr>is_blocked := True\<rparr>]) 0 idx rf {rf..<rf + 2 ^ 0}"
      using 0(2) idx by (intro adds_block) (simp_all add: adds_def)
    from adds_trans [OF v this] show ?thesis
      using idx False ab by (simp add: dispatch_block.simps [of n t idx])
  qed
next
  case (Suc h)
  then have idx: "idx < n" using fits_less by blast
  have fits: "fits n h (idx * 2 + 1)" "fits n h (idx * 2 + 2)" using fits_children [OF Suc.prems(1)] by simp_all
  let ?m = "rf + 2 ^ h"
  have mid: "(rf + 2 ^ Suc h - rf) div 2 = 2 ^ h" by simp
  have top: "rf + 2 ^ Suc h = ?m + 2 ^ h" by simp
  show ?case
  proof (cases "is_blocked (t ! idx)")
    case True
    then have "marked t (Suc h) idx rf = {rf..<rf + 2 ^ Suc h}"
      using tidy_visited [OF Suc.prems(3) True] by simp
    then show ?thesis using Suc.prems True idx
      by (auto simp: dispatch_block.simps [of n t idx] adds_def)
  next
    case False
    let ?t1 = "t[idx := (t ! idx)\<lparr>is_visited := True\<rparr>]"
    have v: "adds t ?t1 (Suc h) idx rf {}" using adds_visit Suc.prems idx False by blast
    then have t1: "length ?t1 = n" "tidy ?t1 (Suc h) idx" "is_visited (?t1 ! idx)" "\<not> is_blocked (?t1 ! idx)"
      using Suc.prems(2) idx False by (simp_all add: adds_def del: tidy.simps)
    then have sub: "tidy ?t1 h (idx * 2 + 1)" "tidy ?t1 h (idx * 2 + 2)" by simp_all
    note trans = adds_trans [OF v, simplified]
    consider (exact) "a = rf" "b = rf + 2 ^ Suc h"
      | (left) "\<not> (rf = a \<and> rf + 2 ^ Suc h = b)" "b \<le> ?m"
      | (right) "\<not> (rf = a \<and> rf + 2 ^ Suc h = b)" "\<not> b \<le> ?m" "?m \<le> a"
      | (both) "\<not> (rf = a \<and> rf + 2 ^ Suc h = b)" "\<not> b \<le> ?m" "\<not> ?m \<le> a" by fastforce
    then show ?thesis
    proof cases
      case exact
      have "adds ?t1 (?t1[idx := (?t1 ! idx)\<lparr>is_blocked := True\<rparr>]) (Suc h) idx rf {rf..<rf + 2 ^ Suc h}"
        using t1 idx by (intro adds_block) auto
      from adds_trans [OF v this] show ?thesis
        using idx False exact by (simp add: dispatch_block.simps [of n t idx])
    next
      case left
      obtain t' where "dispatch_block n ?t1 (idx * 2 + 1) rf ?m a b = Inr t'"
        "adds ?t1 t' h (idx * 2 + 1) rf {a..<b}"
        using Suc.IH [OF fits(1) t1(1) sub(1) Suc.prems(4,5) left(2)] by blast
      moreover from this(2) have "adds t t' (Suc h) idx rf {a..<b}"
        using trans adds_left t1 by blast
      ultimately show ?thesis
        using left idx False by (subst dispatch_block.simps) (simp only: mid Let_def, simp)
    next
      case right
      obtain t' where "dispatch_block n ?t1 (idx * 2 + 2) ?m (?m + 2 ^ h) a b = Inr t'"
        "adds ?t1 t' h (idx * 2 + 2) ?m {a..<b}"
        using Suc.IH [OF fits(2) t1(1) sub(2) right(3) Suc.prems(5)] Suc.prems(6) top by auto
      moreover from this(2) have "adds t t' (Suc h) idx rf {a..<b}"
        using trans adds_right t1 by blast
      ultimately show ?thesis
        using right idx False by (subst dispatch_block.simps) (simp only: mid Let_def top, simp)
    next
      case both
      obtain t2 where t2: "dispatch_block n ?t1 (idx * 2 + 1) rf ?m a ?m = Inr t2"
        "adds ?t1 t2 h (idx * 2 + 1) rf {a..<?m}"
        using Suc.IH [OF fits(1) t1(1) sub(1) Suc.prems(4) _ order_refl] both(3) by auto
      have l: "adds ?t1 t2 (Suc h) idx rf {a..<?m}" using adds_left [OF t2(2)] t1 by blast
      have "t2 ! idx = ?t1 ! idx" using t2(2) below_greater [of "idx * 2 + 1" idx] by (force simp: adds_def)
      then have n2: "length t2 = n" "tidy t2 (Suc h) idx" "is_visited (t2 ! idx)" "\<not> is_blocked (t2 ! idx)"
        using l t1 by (simp_all add: adds_def del: tidy.simps)
      then have "tidy t2 h (idx * 2 + 2)" by simp
      then obtain t3 where t3: "dispatch_block n t2 (idx * 2 + 2) ?m (?m + 2 ^ h) ?m b = Inr t3"
        "adds t2 t3 h (idx * 2 + 2) ?m {?m..<b}"
        using Suc.IH [OF fits(2) n2(1) _ order_refl, of ?m b] both(2) Suc.prems(6)
        by (auto simp del: One_nat_def add_2_eq_Suc')
      have "adds t2 t3 (Suc h) idx rf {?m..<b}" using adds_right [OF t3(2)] n2 by blast
      then have "adds t t3 (Suc h) idx rf ({a..<?m} \<union> {?m..<b})"
        using trans adds_trans l by blast
      moreover have "{a..<?m} \<union> {?m..<b} = {a..<b}" using both by auto
      ultimately show ?thesis
        using both idx False t2(1) t3(1) by (subst dispatch_block.simps) (simp only: mid Let_def top, simp)
    qed
  qed
qed

section \<open>Reading the marks\<close>

definition covered :: "(nat \<times> nat) list \<Rightarrow> nat set" where
  "covered rs = (\<Union>(first, sz) \<in> set rs. {first..<first + sz})"

text \<open>\<open>chain lo rs hi\<close>: nonempty intervals from \<open>lo\<close> to \<open>hi\<close>, in order, that do not overlap.\<close>

primrec chain :: "nat \<Rightarrow> (nat \<times> nat) list \<Rightarrow> nat \<Rightarrow> bool" where
  "chain lo [] hi \<longleftrightarrow> lo \<le> hi"
| "chain lo (r # rs) hi \<longleftrightarrow> lo \<le> fst r \<and> 0 < snd r \<and> chain (fst r + snd r) rs hi"

lemma covered_simps [simp]:
  "covered [] = {}"
  "covered (r # rs) = {fst r..<fst r + snd r} \<union> covered rs"
  "covered (rs @ rs') = covered rs \<union> covered rs'"
  by (auto simp: covered_def split_beta)

lemma chain_append: "chain lo rs m \<Longrightarrow> chain m rs' hi \<Longrightarrow> chain lo (rs @ rs') hi"
proof (induction rs arbitrary: lo)
  case Nil
  then show ?case by (cases rs') auto
qed auto

lemma visit_helper_ok:
  assumes "fits n h idx"
  shows "\<exists>rs. visit_helper n t idx rf (rf + 2 ^ h) = Inr rs \<and> covered rs = marked t h idx rf \<and> chain rf rs (rf + 2 ^ h)"
  using assms
proof (induction h arbitrary: idx rf)
  case 0
  then show ?case using fits_less [OF 0] by (simp add: visit_helper.simps [of n t idx] atLeastLessThanSuc)
next
  case (Suc h)
  have idx: "idx < n" using fits_less [OF Suc.prems] .
  have mid: "(rf + 2 ^ Suc h - rf) div 2 = 2 ^ h" by simp
  have top: "rf + 2 ^ Suc h = rf + 2 ^ h + 2 ^ h" by simp
  have inner: "rf + 1 \<noteq> rf + 2 ^ Suc h" by simp
  obtain l where l: "visit_helper n t (idx * 2 + 1) rf (rf + 2 ^ h) = Inr l"
    "covered l = marked t h (idx * 2 + 1) rf" "chain rf l (rf + 2 ^ h)"
    using Suc.IH fits_children [OF Suc.prems] by blast
  obtain r where r: "visit_helper n t (idx * 2 + 2) (rf + 2 ^ h) (rf + 2 ^ h + 2 ^ h) = Inr r"
    "covered r = marked t h (idx * 2 + 2) (rf + 2 ^ h)" "chain (rf + 2 ^ h) r (rf + 2 ^ h + 2 ^ h)"
    using Suc.IH fits_children [OF Suc.prems] by blast
  consider "\<not> is_visited (t ! idx)" | "is_visited (t ! idx)" "is_blocked (t ! idx)"
    | "is_visited (t ! idx)" "\<not> is_blocked (t ! idx)" by blast
  then show ?case
  proof cases
    case 3
    have "visit_helper n t idx rf (rf + 2 ^ Suc h) = Inr (l @ r)"
      using 3 idx inner l(1) r(1)
      by (subst visit_helper.simps) (simp only: mid Let_def top, simp)
    moreover have "chain rf (l @ r) (rf + 2 ^ Suc h)" unfolding top by (rule chain_append [OF l(3) r(3)])
    ultimately show ?thesis using 3 l(2) r(2) by simp
  qed (use idx in \<open>simp_all add: visit_helper.simps [of n t idx]\<close>)
qed

text \<open>
  \<open>separated lo rs\<close>: nonempty intervals after \<open>lo\<close>, in order, with a gap before each: the maximal runs
  of a set of positions.
\<close>

primrec separated :: "nat option \<Rightarrow> (nat \<times> nat) list \<Rightarrow> bool" where
  "separated lo [] \<longleftrightarrow> True"
| "separated lo (r # rs) \<longleftrightarrow> (case lo of None \<Rightarrow> True | Some l \<Rightarrow> l < fst r) \<and> 0 < snd r
     \<and> separated (Some (fst r + snd r)) rs"

lemma separated_None: "separated lo rs \<Longrightarrow> separated None rs"
  by (cases rs) auto

definition after :: "nat option \<Rightarrow> nat \<Rightarrow> bool" where
  "after lo first \<longleftrightarrow> (case lo of None \<Rightarrow> True | Some l \<Rightarrow> l < first)"

lemma separated_Cons:
  "separated lo (r # rs) \<longleftrightarrow> after lo (fst r) \<and> 0 < snd r \<and> separated (Some (fst r + snd r)) rs"
  by (simp add: after_def)

lemma shrink_loop_ok:
  assumes "chain (fst a + snd a) rs hi" and "0 < snd a" and "after b (fst a)"
  shows "covered (shrink_loop (Some a) rs) = {fst a..<fst a + snd a} \<union> covered rs
    \<and> separated b (shrink_loop (Some a) rs)"
  using assms
proof (induction rs arbitrary: a b)
  case Nil
  then show ?case by (simp add: after_def)
next
  case (Cons r rs)
  then have r: "fst a + snd a \<le> fst r" "0 < snd r" "chain (fst r + snd r) rs hi" by simp_all
  show ?case
  proof (cases "fst a + snd a < fst r")
    case True
    then have "shrink_loop (Some a) (r # rs) = a # shrink_loop (Some r) rs" by (simp add: Let_def)
    moreover have "after (Some (fst a + snd a)) (fst r)" using True by (simp add: after_def)
    ultimately show ?thesis
      using Cons.IH [OF r(3,2)] Cons.prems(2,3) by (simp add: separated_Cons del: separated.simps)
  next
    case False
    let ?a = "(fst a, fst r + snd r - fst a)"
    have eq: "fst r = fst a + snd a" and "shrink_loop (Some a) (r # rs) = shrink_loop (Some ?a) rs"
      using False r by (simp_all add: Let_def)
    moreover have "covered (shrink_loop (Some ?a) rs) = {fst a..<fst r + snd r} \<union> covered rs
        \<and> separated b (shrink_loop (Some ?a) rs)"
      using Cons.IH [of ?a b] r Cons.prems(3) eq by (simp add: add.assoc)
    moreover have "{fst a..<fst r + snd r} = {fst a..<fst a + snd a} \<union> {fst r..<fst r + snd r}"
      using eq r by auto
    ultimately show ?thesis by auto
  qed
qed

lemma shrunk_ok:
  "chain lo rs hi \<Longrightarrow> covered (shrunk_adjecent_interval rs) = covered rs \<and> separated None (shrunk_adjecent_interval rs)"
  using shrink_loop_ok [of "hd rs" "tl rs" hi None]
  by (cases rs) (simp_all add: shrunk_adjecent_interval_def after_def)

section \<open>The whole tree\<close>

text \<open>\<open>represents st S\<close>: a well-formed state that marks exactly the positions in \<open>S\<close>.\<close>

definition represents :: "TaintIntervalTree \<Rightarrow> nat set \<Rightarrow> bool" where
  "represents st S \<longleftrightarrow> (\<exists>h. actual_base_sz st = 2 ^ h \<and> virtual_base_sz st \<le> 2 ^ h
     \<and> length (interval_tree st) + 1 = 2 ^ Suc h
     \<and> tidy (interval_tree st) h 0 \<and> marked (interval_tree st) h 0 0 = S)"

lemma clear_clean: "fits n h idx \<Longrightarrow> clean (replicate n clear_node) h idx"
proof (induction h arbitrary: idx)
  case 0
  then show ?case using fits_less [OF 0] by simp
next
  case (Suc h)
  then show ?case using fits_less [OF Suc.prems] fits_children [OF Suc.prems] by simp
qed

lemma represents_clear:
  assumes "actual_base_sz st = 2 ^ h" and "virtual_base_sz st \<le> 2 ^ h"
    and "interval_tree st = replicate n clear_node" and "n + 1 = 2 ^ Suc h"
  shows "represents st {}"
proof -
  have "fits n h 0" using assms(4) by (simp add: fits_def)
  then have "clean (interval_tree st) h 0" using clear_clean assms(3) by simp
  then have "tidy (interval_tree st) h 0" and "marked (interval_tree st) h 0 0 = {}"
    by (rule clean_tidy, rule clean_marked)
  then show ?thesis unfolding represents_def using assms by (intro exI [of _ h]) simp
qed

lemma TaintIntervalTree_new_ok:
  assumes "base_sz \<le> 2 ^ 63"
  shows "\<exists>st. TaintIntervalTree_new base_sz = Inr st \<and> represents st {} \<and> virtual_base_sz st = base_sz"
proof -
  obtain h where h: "next_pow2 base_sz = 2 ^ h" using next_pow2_power by blast
  let ?st = "\<lparr>interval_tree = replicate (2 ^ h * 2 - 1) clear_node, actual_base_sz = 2 ^ h, virtual_base_sz = base_sz\<rparr>"
  have "base_sz \<le> 2 ^ h" using next_pow2_least [of base_sz] h by simp
  moreover have "2 ^ h * 2 - 1 + 1 = (2 :: nat) ^ Suc h" by simp
  ultimately have "represents ?st {}" using represents_clear [of ?st h "2 ^ h * 2 - 1"] by simp
  then show ?thesis
    by (simp add: TaintIntervalTree_new_def make_interval_tree_of_base_size_def ceil2_small [OF assms] h is_pow2_power Let_def)
qed

lemma reset_ok: "represents st S \<Longrightarrow> represents (reset st) {} \<and> virtual_base_sz (reset st) = virtual_base_sz st"
proof -
  assume "represents st S"
  then obtain h where "actual_base_sz st = 2 ^ h" "virtual_base_sz st \<le> 2 ^ h"
    "length (interval_tree st) + 1 = 2 ^ Suc h" by (auto simp: represents_def)
  then show ?thesis
    using represents_clear [of "reset st" h "length (interval_tree st)"] by (simp add: reset_def)
qed

lemma taint_ok:
  assumes "represents st S" and "first + sz < 2 ^ 64"
  shows "if virtual_base_sz st < first + sz then taint (first, sz) st = Inl Invalid_argument
    else \<exists>st'. taint (first, sz) st = Inr st' \<and> represents st' (S \<union> {first..<first + sz})
      \<and> virtual_base_sz st' = virtual_base_sz st"
proof (cases "virtual_base_sz st < first + sz")
  case True
  then show ?thesis using assms(2) by (simp add: taint_def Let_def)
next
  case False
  obtain h where h: "actual_base_sz st = 2 ^ h" "virtual_base_sz st \<le> 2 ^ h"
    "length (interval_tree st) + 1 = 2 ^ Suc h" "tidy (interval_tree st) h 0" "marked (interval_tree st) h 0 0 = S"
    using assms(1) by (auto simp: represents_def)
  show ?thesis
  proof (cases "sz = 0")
    case True
    then show ?thesis using False assms by (simp add: taint_def Let_def)
  next
    case sz: False
    have "fits (length (interval_tree st)) h 0" using h(3) by (simp add: fits_def)
    then obtain t' where t': "dispatch_block (length (interval_tree st)) (interval_tree st) 0 0 (2 ^ h) first (first + sz) = Inr t'"
      "adds (interval_tree st) t' h 0 0 {first..<first + sz}"
      using dispatch_block_ok [OF _ refl h(4), of 0 first "first + sz"] False sz h(2) by auto
    then have "represents (st\<lparr>interval_tree := t'\<rparr>) (S \<union> {first..<first + sz})"
      using h unfolding represents_def adds_def by (intro exI [of _ h]) simp
    then show ?thesis using False sz assms(2) h(1) t'(1) by (simp add: taint_def Let_def)
  qed
qed

lemma regions_ok:
  assumes "represents st S"
  shows "\<exists>rs. get_taint_region_vector st = Inr rs \<and> covered rs = S \<and> separated None rs"
proof -
  obtain h where h: "actual_base_sz st = 2 ^ h" "length (interval_tree st) + 1 = 2 ^ Suc h"
    "marked (interval_tree st) h 0 0 = S"
    using assms by (auto simp: represents_def)
  then have "fits (length (interval_tree st)) h 0" by (simp add: fits_def)
  from visit_helper_ok [OF this, of "interval_tree st" 0] obtain rs where
    "visit_helper (length (interval_tree st)) (interval_tree st) 0 0 (2 ^ h) = Inr rs"
    "covered rs = S" "chain 0 rs (2 ^ h)" using h(3) by auto
  then show ?thesis using shrunk_ok h(1) by (auto simp: get_taint_region_vector_def)
qed

section \<open>Intervals whose end wraps around\<close>

text \<open>Level \<open>h\<close> above the leaves, counted from the end of the array.\<close>

definition from_bottom :: "nat \<Rightarrow> nat \<Rightarrow> nat \<Rightarrow> bool" where
  "from_bottom n h idx \<longleftrightarrow> n + 1 \<le> (idx + 1) * 2 ^ Suc h"

lemma from_bottom_children:
  assumes "from_bottom n (Suc h) idx"
  shows "from_bottom n h (idx * 2 + 1)" and "from_bottom n h (idx * 2 + 2)"
proof -
  show left: "from_bottom n h (idx * 2 + 1)" using assms by (simp add: from_bottom_def algebra_simps)
  have "(idx * 2 + 1 + 1) * 2 ^ Suc h \<le> (idx * 2 + 2 + 1) * (2 :: nat) ^ Suc h" by (rule mult_le_mono1) simp
  from left [unfolded from_bottom_def] this show "from_bottom n h (idx * 2 + 2)" unfolding from_bottom_def by (rule order_trans)
qed

text \<open>With the end before the start the recursion takes one child on every level.\<close>

lemma dispatch_wrapped:
  assumes "b < a" and "fits (length t) h idx" and "from_bottom (length t) h idx" and "tidy t h idx"
  shows "dispatch_block (length t) t idx rf (rf + 2 ^ h) a b = Inl Out_of_bounds \<or>
    (\<exists>t'. dispatch_block (length t) t idx rf (rf + 2 ^ h) a b = Inr t' \<and> adds t t' h idx rf {} \<and> marked t h idx rf \<noteq> {})"
  using assms(2-4)
proof (induction h arbitrary: t idx rf)
  case 0
  have idx: "idx < length t" by (rule fits_less [OF 0(1)])
  have ends: "length t \<le> idx * 2 + 1" using 0(2) by (simp add: from_bottom_def)
  show ?case
  proof (cases "is_blocked (t ! idx)")
    case True
    then show ?thesis using idx 0(3) tidy_visited [OF 0(3) True]
      by (subst dispatch_block.simps) (simp add: adds_def)
  next
    case False
    have out: "dispatch_block (length t) u (idx * 2 + Suc 0) a' b' c d = Inl Out_of_bounds"
        "dispatch_block (length t) u (Suc (Suc (idx * 2))) a' b' c d = Inl Out_of_bounds" for u a' b' c d
      using ends by (simp_all add: dispatch_block.simps [of "length t"])
    show ?thesis using False idx assms(1) out by (subst dispatch_block.simps) (auto simp: Let_def)
  qed
next
  case (Suc h)
  have idx: "idx < length t" by (rule fits_less [OF Suc.prems(1)])
  show ?case
  proof (cases "is_blocked (t ! idx)")
    case True
    then show ?thesis using idx Suc.prems(3) tidy_visited [OF Suc.prems(3) True]
      by (subst dispatch_block.simps) (simp add: adds_def)
  next
    case False
    let ?t1 = "t[idx := (t ! idx)\<lparr>is_visited := True\<rparr>]" and ?nxt = "rf + 2 ^ h"
    note visit = visit_node [OF Suc.prems(3) idx False]
    note adds1 = adds_visit [OF Suc.prems(3) idx False]
    have node: "is_visited (?t1 ! idx)" "\<not> is_blocked (?t1 ! idx)" using visit(4) False by simp_all
    have tidy: "tidy ?t1 h (idx * 2 + 1)" "tidy ?t1 h (idx * 2 + 2)" using visit(1) by simp_all
    note fits = fits_children [OF Suc.prems(1)] and bottom = from_bottom_children [OF Suc.prems(2)]
    have marks: "marked t (Suc h) idx rf = marked ?t1 h (idx * 2 + 1) rf \<union> marked ?t1 h (idx * 2 + 2) ?nxt"
      using visit(2) [of rf] node by simp
    show ?thesis
    proof (cases "b \<le> ?nxt")
      case True
      have run: "dispatch_block (length t) t idx rf (rf + 2 ^ Suc h) a b =
          dispatch_block (length t) ?t1 (idx * 2 + 1) rf ?nxt a b"
        using False idx True assms(1) by (subst dispatch_block.simps) (auto simp: Let_def)
      consider (out) "dispatch_block (length t) ?t1 (idx * 2 + 1) rf ?nxt a b = Inl Out_of_bounds"
        | (met) t' where "dispatch_block (length t) ?t1 (idx * 2 + 1) rf ?nxt a b = Inr t'" "adds ?t1 t' h (idx * 2 + 1) rf {}"
            "marked ?t1 h (idx * 2 + 1) rf \<noteq> {}"
        using Suc.IH [of ?t1 "idx * 2 + 1" rf] fits bottom(1) tidy(1) by auto
      then show ?thesis
      proof cases
        case out
        show ?thesis unfolding run using out by (rule disjI1)
      next
        case met
        have "adds t t' (Suc h) idx rf {}" using adds_trans [OF adds1 adds_left [OF met(2) visit(1) node]] by simp
        then show ?thesis using run met(1,3) unfolding marks by auto
      qed
    next
      case right: False
      have run: "dispatch_block (length t) t idx rf (rf + 2 ^ Suc h) a b =
          dispatch_block (length t) ?t1 (idx * 2 + 2) ?nxt (rf + 2 ^ Suc h) a b"
        using False idx right assms(1) by (subst dispatch_block.simps) (auto simp: Let_def)
      have sum: "?nxt + 2 ^ h = rf + 2 ^ Suc h" by simp
      consider (out) "dispatch_block (length t) ?t1 (idx * 2 + 2) ?nxt (rf + 2 ^ Suc h) a b = Inl Out_of_bounds"
        | (met) t' where "dispatch_block (length t) ?t1 (idx * 2 + 2) ?nxt (rf + 2 ^ Suc h) a b = Inr t'"
            "adds ?t1 t' h (idx * 2 + 2) ?nxt {}" "marked ?t1 h (idx * 2 + 2) ?nxt \<noteq> {}"
        using Suc.IH [of ?t1 "idx * 2 + 2" ?nxt] fits bottom(2) tidy(2) unfolding sum by auto
      then show ?thesis
      proof cases
        case out
        show ?thesis unfolding run using out by (rule disjI1)
      next
        case met
        have "adds t t' (Suc h) idx rf {}" using adds_trans [OF adds1 adds_right [OF met(2) visit(1) node]] by simp
        then show ?thesis using run met(1,3) unfolding marks by auto
      qed
    qed
  qed
qed

lemma taint_wrapped:
  assumes "represents st S" and "first < 2 ^ 64" and "sz < 2 ^ 64" and "2 ^ 64 \<le> first + sz"
  shows "if virtual_base_sz st < first + sz - 2 ^ 64 then taint (first, sz) st = Inl Invalid_argument
    else taint (first, sz) st = Inl Out_of_bounds \<or> S \<noteq> {} \<and> (\<exists>st'. taint (first, sz) st = Inr st' \<and> represents st' S)"
proof -
  obtain h where h: "actual_base_sz st = 2 ^ h" "virtual_base_sz st \<le> 2 ^ h" "length (interval_tree st) + 1 = 2 ^ Suc h"
      "tidy (interval_tree st) h 0" "marked (interval_tree st) h 0 0 = S"
    using assms(1) by (auto simp: represents_def)
  let ?last = "first + sz - 2 ^ 64"
  have last: "(first + sz) mod 2 ^ 64 = ?last" using assms(2-4) by (simp add: mod_if)
  have less: "?last < first" using assms(3,4) by linarith
  have "fits (length (interval_tree st)) h 0" "from_bottom (length (interval_tree st)) h 0"
    using h(3) by (simp_all add: fits_def from_bottom_def)
  from dispatch_wrapped [OF less this h(4), of 0]
  consider (out) "dispatch_block (length (interval_tree st)) (interval_tree st) 0 0 (2 ^ h) first ?last = Inl Out_of_bounds"
    | (met) t' where "dispatch_block (length (interval_tree st)) (interval_tree st) 0 0 (2 ^ h) first ?last = Inr t'"
        "adds (interval_tree st) t' h 0 0 {}" "S \<noteq> {}" using h(5) by auto
  then show ?thesis
  proof cases
    case out
    then show ?thesis using less h(1) unfolding taint_def Let_def fst_conv snd_conv last by simp
  next
    case met
    have "represents (st\<lparr>interval_tree := t'\<rparr>) S" using met(2) h by (auto simp: represents_def adds_def)
    then show ?thesis using met(1,3) less h(1) unfolding taint_def Let_def fst_conv snd_conv last by simp
  qed
qed

section \<open>Histories\<close>

text \<open>
  What a client does with a tree over a region of \<open>base_sz\<close> bytes, and the set of positions written since
  the last \<open>reset\<close>: the specification of the tree.
\<close>

inductive history :: "nat \<Rightarrow> TaintIntervalTree \<Rightarrow> nat set \<Rightarrow> bool" for base_sz where
  started: "TaintIntervalTree_new base_sz = Inr st \<Longrightarrow> history base_sz st {}"
| written: "history base_sz st S \<Longrightarrow> first + sz < 2 ^ 64 \<Longrightarrow> taint (first, sz) st = Inr st'
    \<Longrightarrow> history base_sz st' (S \<union> {first..<first + sz})"
| cleared: "history base_sz st S \<Longrightarrow> history base_sz (reset st) {}"

inductive_cases history_cases: "history base_sz st S"

lemma history_represents: "history base_sz st S \<Longrightarrow> represents st S \<and> virtual_base_sz st = base_sz"
proof (induction rule: history.induct)
  case (started st)
  then have "base_sz \<le> 2 ^ 63" by (auto simp: TaintIntervalTree_new_def bindR_eq_Inr)
  then show ?case using started TaintIntervalTree_new_ok [of base_sz] by auto
next
  case (written st S first sz st')
  then show ?case using taint_ok [of st S first sz] by (auto split: if_splits)
next
  case (cleared st S)
  then show ?case using reset_ok by blast
qed

section \<open>Properties\<close>

text \<open>
  C12: the tree reports exactly what was written. After any history of writes and resets,
  \<open>get_taint_region_vector\<close> returns (no read outside the array, the recursion ends) the positions written
  since the last reset, each once, as the ordered list of their maximal runs: nonempty intervals with
  a gap between any two.
\<close>
theorem taint_regions_exact:
  assumes "history base_sz st S"
  shows "\<exists>rs. get_taint_region_vector st = Inr rs \<and> covered rs = S \<and> separated None rs"
  using regions_ok history_represents [OF assms] by blast

text \<open>
  \<open>taint\<close> accepts exactly the intervals inside the region. As long as \<open>first + size\<close> does not wrap around,
  an interval that ends after the region is refused with \<open>invalid_argument\<close> and any other is recorded.
\<close>
theorem taint_total:
  assumes "history base_sz st S" and "first + sz < 2 ^ 64"
  shows "if base_sz < first + sz then taint (first, sz) st = Inl Invalid_argument
    else \<exists>st'. taint (first, sz) st = Inr st' \<and> history base_sz st' (S \<union> {first..<first + sz})"
  using taint_ok [of st S first sz] history_represents [OF assms(1)] assms history.written by (auto split: if_splits)

definition sample_history :: "TaintIntervalTree result" where
  "sample_history = bindR (TaintIntervalTree_new 6) (\<lambda>st. bindR (taint (1, 3) st) (taint (3, 2)))"

lemma sample_history_ok: "\<exists>st. sample_history = Inr st \<and> history 6 st ({} \<union> {1..<1 + 3} \<union> {3..<3 + 2})"
proof -
  obtain st0 where st0: "TaintIntervalTree_new 6 = Inr st0" "represents st0 {}" "virtual_base_sz st0 = 6"
    using TaintIntervalTree_new_ok [of 6] by auto
  then obtain st1 where st1: "taint (1, 3) st0 = Inr st1" "represents st1 ({} \<union> {1..<1 + 3})" "virtual_base_sz st1 = 6"
    using taint_ok [of st0 "{}" 1 3] by auto
  then obtain st where st: "taint (3, 2) st1 = Inr st"
    using taint_ok [OF st1(2), of 3 2] by auto
  have "history 6 st1 ({} \<union> {1..<1 + 3})"
    by (rule history.written [OF history.started [OF st0(1)] _ st1(1)]) simp
  from history.written [OF this _ st] st0(1) st1(1) st show ?thesis by (simp add: sample_history_def)
qed

theorem taint_regions_exact_witness:
  "\<exists>st rs. sample_history = Inr st \<and> get_taint_region_vector st = Inr rs
     \<and> covered rs = {1..<1 + 3} \<union> {3..<3 + 2} \<and> separated None rs"
  using sample_history_ok taint_regions_exact by fastforce

theorem taint_total_witness:
  "\<exists>st. sample_history = Inr st \<and> taint (5, 2) st = Inl Invalid_argument"
proof -
  obtain st where st: "sample_history = Inr st" "history 6 st ({} \<union> {1..<1 + 3} \<union> {3..<3 + 2})"
    using sample_history_ok by blast
  from taint_total [OF st(2), of 5 2] st(1) show ?thesis by (intro exI [of _ st]) simp
qed

text \<open>
  \<open>ceil2\<close> is the least power of two that is not smaller, so the tree always covers its region (and
  \<open>make_interval_tree_of_base_size\<close> never aborts).
\<close>
theorem ceil2_correct:
  assumes "n \<le> 2 ^ 63"
  shows "\<exists>c. ceil2 n = Inr c \<and> is_pow2 c \<and> n \<le> c \<and> (\<forall>k. n \<le> 2 ^ k \<longrightarrow> c \<le> 2 ^ k)"
  using assms next_pow2_least [of n] next_pow2_power [of n] is_pow2_power by (metis ceil2_eq_Inr)

theorem ceil2_correct_witness: "\<exists>c. ceil2 5 = Inr c \<and> is_pow2 c \<and> 5 \<le> c \<and> c \<le> 2 ^ 3"
  using ceil2_correct [of 5] by (auto dest: spec [of _ 3])

text \<open>
  C40: the bound check of \<open>taint\<close> wraps around. After any history of writes and resets, an interval whose end passes \<open>2 ^ 64\<close> is refused only if
  its end modulo \<open>2 ^ 64\<close> is beyond the region. Otherwise it is never recorded: \<open>dispatch_block\<close> goes down to a leaf and on, out of the array,
  unless it meets an interval recorded before, where it stops and reports success. If nothing was recorded it always leaves the array.
\<close>
theorem taint_wraps_out_of_bounds:
  assumes "history base_sz st S" and "first < 2 ^ 64" and "sz < 2 ^ 64" and "2 ^ 64 \<le> first + sz"
  shows "if base_sz < first + sz - 2 ^ 64 then taint (first, sz) st = Inl Invalid_argument
    else taint (first, sz) st = Inl Out_of_bounds \<or> (S \<noteq> {} \<and> (\<exists>st' rs. taint (first, sz) st = Inr st' \<and>
      get_taint_region_vector st' = Inr rs \<and> covered rs = S \<and> separated None rs))"
  using taint_wrapped [of st S first sz] history_represents [OF assms(1)] assms(2-4) regions_ok by (auto split: if_splits)

theorem taint_wraps_out_of_bounds_witness:
  "\<exists>st. TaintIntervalTree_new 8 = Inr st \<and> taint (5, 2 ^ 64 - 3) st = Inl Out_of_bounds"
proof -
  obtain st where st: "TaintIntervalTree_new 8 = Inr st" using TaintIntervalTree_new_ok [of 8] by auto
  from taint_wraps_out_of_bounds [OF history.started [OF st], of 5 "2 ^ 64 - 3"] show ?thesis by (auto simp: st)
qed

end
