(* ===== verification/Bounded_Queue.thy ===== *)
theory Bounded_Queue
  imports Prelude
begin

text \<open>
  \<open>concurrent_queue/bounded_queue.h\<close>: the queue of bounded capacity on which threads block. Everything
  \<open>push\<close>, \<open>pop\<close> and \<open>poison\<close> do to the shared members happens under \<open>mtx\<close>, so an execution is a
  sequence of these critical sections, interleaved with the moments at which a blocked thread comes back
  from \<open>waiting_smp.acquire()\<close> and its call returns.

  A blocked call keeps \<open>wait_item\<close> and \<open>waiting_smp\<close> among its automatic variables, and the queue keeps
  pointers to them. \<open>frames\<close> holds the variables of the calls that have not returned, by thread: a pointer
  to a variable is its thread, and following it when the call has returned gives \<open>Out_of_bounds\<close>. A
  \<open>binary_semaphore\<close> counts to one; releasing it twice is \<open>Semaphore_overflow\<close>. \<open>push\<close> answers a
  poisoned queue with \<open>Invalid_argument\<close>. Running out of memory is not modelled.
\<close>

section \<open>State\<close>

type_synonym thread = nat

record WaitingArgument =
  dst :: thread
  waiting_smp :: thread

record 'a PushingArgument =
  item :: 'a
  pushing_smp :: thread

record 'a frame =
  wait_item :: "'a option"
  released :: bool

record 'a BoundedQueue =
  workorder_container :: "'a list"
  workorder_container_cap :: nat
  waiting_arg_vec :: "WaitingArgument list"
  pushing_arg_vec :: "'a PushingArgument list"
  is_poisoned :: bool
  frames :: "thread \<Rightarrow> 'a frame option"

datatype 'a outcome = Returns 'a | Blocks

definition BoundedQueue_new :: "nat \<Rightarrow> 'a BoundedQueue" where
  "BoundedQueue_new cap =
     \<lparr>workorder_container = [], workorder_container_cap = cap, waiting_arg_vec = [], pushing_arg_vec = [],
      is_poisoned = False, frames = (\<lambda>_. None)\<rparr>"

definition empty_frame :: "'a frame" where
  "empty_frame = \<lparr>wait_item = None, released = False\<rparr>"

section \<open>Operations\<close>

definition release :: "thread \<Rightarrow> 'a BoundedQueue \<Rightarrow> 'a BoundedQueue result" where
  "release p q = (case frames q p of
     None \<Rightarrow> Inl Out_of_bounds
   | Some f \<Rightarrow>
       if released f then Inl Semaphore_overflow
       else Inr (q\<lparr>frames := (frames q)(p \<mapsto> f\<lparr>released := True\<rparr>)\<rparr>))"

definition assign_dst :: "thread \<Rightarrow> 'a option \<Rightarrow> 'a BoundedQueue \<Rightarrow> 'a BoundedQueue result" where
  "assign_dst p v q = (case frames q p of
     None \<Rightarrow> Inl Out_of_bounds
   | Some f \<Rightarrow> Inr (q\<lparr>frames := (frames q)(p \<mapsto> f\<lparr>wait_item := v\<rparr>)\<rparr>))"

definition push :: "thread \<Rightarrow> 'a \<Rightarrow> 'a BoundedQueue \<Rightarrow> (unit outcome \<times> 'a BoundedQueue) result" where
  "push t arg q =
     (if is_poisoned q then Inl Invalid_argument
      else (case waiting_arg_vec q of
        arg2 # rest \<Rightarrow>
          bindR (assign_dst (dst arg2) (Some arg) (q\<lparr>waiting_arg_vec := rest\<rparr>)) (\<lambda>q1.
          bindR (release (waiting_smp arg2) q1) (\<lambda>q2. Inr (Returns (), q2)))
      | [] \<Rightarrow>
          if length (workorder_container q) = workorder_container_cap q
          then Inr (Blocks,
                    q\<lparr>pushing_arg_vec := pushing_arg_vec q @ [\<lparr>item = arg, pushing_smp = t\<rparr>],
                      frames := (frames q)(t \<mapsto> empty_frame)\<rparr>)
          else Inr (Returns (), q\<lparr>workorder_container := workorder_container q @ [arg]\<rparr>)))"

definition pop :: "thread \<Rightarrow> 'a BoundedQueue \<Rightarrow> ('a option outcome \<times> 'a BoundedQueue) result" where
  "pop t q =
     (if is_poisoned q then Inr (Returns None, q)
      else (case pushing_arg_vec q of
        arg # rest \<Rightarrow>
          bindR (release (pushing_smp arg) (q\<lparr>pushing_arg_vec := rest\<rparr>)) (\<lambda>q1.
            Inr (Returns (Some (item arg)), q1))
      | [] \<Rightarrow>
          (case workorder_container q of
             arg # rest \<Rightarrow> Inr (Returns (Some arg), q\<lparr>workorder_container := rest\<rparr>)
           | [] \<Rightarrow>
               Inr (Blocks,
                    q\<lparr>waiting_arg_vec := waiting_arg_vec q @ [\<lparr>dst = t, waiting_smp = t\<rparr>],
                      frames := (frames q)(t \<mapsto> empty_frame)\<rparr>))))"

primrec poison_waiting :: "WaitingArgument list \<Rightarrow> 'a BoundedQueue \<Rightarrow> 'a BoundedQueue result" where
  "poison_waiting [] q = Inr q"
| "poison_waiting (w # ws) q =
     bindR (assign_dst (dst w) None q) (\<lambda>q1. bindR (release (waiting_smp w) q1) (poison_waiting ws))"

primrec poison_pushing :: "'a PushingArgument list \<Rightarrow> 'a BoundedQueue \<Rightarrow> 'a BoundedQueue result" where
  "poison_pushing [] q = Inr q"
| "poison_pushing (p # ps) q = bindR (release (pushing_smp p) q) (poison_pushing ps)"

definition poison :: "'a BoundedQueue \<Rightarrow> 'a BoundedQueue result" where
  "poison q =
     bindR (poison_waiting (waiting_arg_vec q) q) (\<lambda>q1.
     bindR (poison_pushing (pushing_arg_vec q) q1) (\<lambda>q2. Inr (q2\<lparr>is_poisoned := True\<rparr>)))"

text \<open>
  \<open>waiting_smp.acquire()\<close> succeeds, the call returns \<open>wait_item\<close> (nothing, for \<open>push\<close>), and its variables
  are gone. \<open>None\<close>: the thread is still blocked, or in no call.
\<close>

definition acquire :: "thread \<Rightarrow> 'a BoundedQueue \<Rightarrow> ('a option \<times> 'a BoundedQueue) option" where
  "acquire t q = (case frames q t of
     None \<Rightarrow> None
   | Some f \<Rightarrow>
       if released f then Some (wait_item f, q\<lparr>frames := (frames q)(t := None)\<rparr>) else None)"

section \<open>The invariant\<close>

definition blocked :: "'a BoundedQueue \<Rightarrow> thread list" where
  "blocked q = map dst (waiting_arg_vec q) @ map pushing_smp (pushing_arg_vec q)"

definition woken :: "'a option \<Rightarrow> 'a frame" where
  "woken v = \<lparr>wait_item = v, released = True\<rparr>"

text \<open>
  Consumers wait only on an empty queue, producers only on a full one; the calls blocked in the
  vectors are distinct and their variables are in their initial state, and no other call is blocked.
  After \<open>poison\<close>, no call is blocked.
\<close>

definition in_service :: "nat \<Rightarrow> 'a BoundedQueue \<Rightarrow> bool" where
  "in_service c q \<longleftrightarrow>
     distinct (blocked q) \<and> (\<forall>t \<in> set (blocked q). frames q t = Some empty_frame) \<and>
     (\<forall>t f. frames q t = Some f \<longrightarrow> released f \<or> t \<in> set (blocked q)) \<and>
     (waiting_arg_vec q \<noteq> [] \<longrightarrow> workorder_container q = [] \<and> pushing_arg_vec q = []) \<and>
     (pushing_arg_vec q \<noteq> [] \<longrightarrow> length (workorder_container q) = c)"

definition bq_ok :: "nat \<Rightarrow> 'a BoundedQueue \<Rightarrow> bool" where
  "bq_ok c q \<longleftrightarrow>
     workorder_container_cap q = c \<and> length (workorder_container q) \<le> c \<and> finite (dom (frames q)) \<and>
     (\<forall>w \<in> set (waiting_arg_vec q). waiting_smp w = dst w) \<and>
     (if is_poisoned q then \<forall>t f. frames q t = Some f \<longrightarrow> released f else in_service c q)"

text \<open>The items the queue is responsible for: queued, held by blocked producers, handed to consumers that have not returned.\<close>

definition slot :: "'a frame option \<Rightarrow> 'a multiset" where
  "slot v = (case v of Some f \<Rightarrow> (case wait_item f of Some x \<Rightarrow> {#x#} | None \<Rightarrow> {#}) | None \<Rightarrow> {#})"

definition slots :: "(thread \<Rightarrow> 'a frame option) \<Rightarrow> 'a multiset" where
  "slots fr = (\<Sum>t \<in> dom fr. slot (fr t))"

definition stored_items :: "'a BoundedQueue \<Rightarrow> 'a multiset" where
  "stored_items q =
     mset (workorder_container q) + mset (map item (pushing_arg_vec q)) + slots (frames q)"

lemma slot_simps [simp]:
  "slot None = {#}"
  "slot (Some empty_frame) = {#}"
  "slot (Some (woken v)) = mset_set (set_option v)"
  by (auto simp: slot_def empty_frame_def woken_def split: option.split)

lemma slots_empty [simp]: "slots (\<lambda>_. None) = {#}"
  by (simp add: slots_def)

lemma slots_superset: "finite T \<Longrightarrow> dom fr \<subseteq> T \<Longrightarrow> slots fr = (\<Sum>t \<in> T. slot (fr t))"
  unfolding slots_def by (rule sum.mono_neutral_left) (auto simp: dom_def)

lemma slots_update:
  assumes "finite (dom fr)"
  shows "slots (fr(t := v)) + slot (fr t) = slots fr + slot v"
proof -
  let ?T = "insert t (dom fr)"
  have fin: "finite ?T" using assms by simp
  have "slots (fr(t := v)) = slot v + (\<Sum>s \<in> ?T - {t}. slot (fr s))"
    using fin by (subst slots_superset [of ?T]) (auto simp: sum.remove [of ?T t] split: if_splits)
  moreover have "slots fr = slot (fr t) + (\<Sum>s \<in> ?T - {t}. slot (fr s))"
    using fin by (subst slots_superset [of ?T]) (auto simp: sum.remove [of ?T t])
  ultimately show ?thesis by (simp add: ac_simps)
qed

lemma slots_call [simp]:
  "finite (dom fr) \<Longrightarrow> fr t = None \<Longrightarrow> slots (fr(t \<mapsto> empty_frame)) = slots fr"
  using slots_update [of fr t "Some empty_frame"] by simp

lemma slots_wake [simp]:
  "finite (dom fr) \<Longrightarrow> fr t = Some empty_frame \<Longrightarrow>
   slots (fr(t \<mapsto> woken v)) = slots fr + mset_set (set_option v)"
  using slots_update [of fr t "Some (woken v)"] by simp

section \<open>What the steps do\<close>

lemma BoundedQueue_new_ok: "bq_ok c (BoundedQueue_new c)"
  by (simp add: bq_ok_def in_service_def blocked_def BoundedQueue_new_def)

lemma release_blocked [simp]:
  "frames q p = Some empty_frame \<Longrightarrow>
   release p q = Inr (q\<lparr>frames := (frames q)(p \<mapsto> woken None)\<rparr>)"
  by (simp add: release_def empty_frame_def woken_def)

lemma assign_release_blocked [simp]:
  "frames q p = Some empty_frame \<Longrightarrow>
   bindR (assign_dst p v q) (release p) = Inr (q\<lparr>frames := (frames q)(p \<mapsto> woken v)\<rparr>)"
  by (simp add: assign_dst_def release_def empty_frame_def woken_def)

lemma hand_over [simp]:
  "frames q p = Some empty_frame \<Longrightarrow>
   bindR (assign_dst p v q) (\<lambda>q1. bindR (release p q1) f) = f (q\<lparr>frames := (frames q)(p \<mapsto> woken v)\<rparr>)"
  by (simp add: bindR_assoc [symmetric])

definition wake_all :: "thread set \<Rightarrow> (thread \<Rightarrow> 'a frame option) \<Rightarrow> thread \<Rightarrow> 'a frame option" where
  "wake_all T fr = (\<lambda>t. if t \<in> T then Some (woken None) else fr t)"

lemma wake_all_empty [simp]: "wake_all {} fr = fr"
  by (simp add: wake_all_def)

lemma wake_all_insert [simp]: "wake_all T (fr(t \<mapsto> woken None)) = wake_all (insert t T) fr"
  by (auto simp: wake_all_def)

lemma slots_wake_all:
  assumes "\<forall>t \<in> T. fr t = Some empty_frame"
  shows "slots (wake_all T fr) = slots fr"
proof -
  have "dom (wake_all T fr) = dom fr" using assms by (auto simp: wake_all_def)
  then show ?thesis
    using assms by (auto simp: slots_def wake_all_def intro!: sum.cong)
qed

lemma poison_waiting_eq:
  "distinct (map dst ws) \<Longrightarrow> \<forall>w \<in> set ws. waiting_smp w = dst w \<and> frames q (dst w) = Some empty_frame \<Longrightarrow>
   poison_waiting ws q = Inr (q\<lparr>frames := wake_all (dst ` set ws) (frames q)\<rparr>)"
proof (induction ws arbitrary: q)
  case (Cons a ws)
  let ?q = "q\<lparr>frames := (frames q)(dst a \<mapsto> woken None)\<rparr>"
  have "\<forall>w \<in> set ws. waiting_smp w = dst w \<and> frames ?q (dst w) = Some empty_frame"
    using Cons.prems by (auto simp: image_iff)
  then have "poison_waiting ws ?q = Inr (?q\<lparr>frames := wake_all (dst ` set ws) (frames ?q)\<rparr>)"
    using Cons by auto
  then show ?case using Cons.prems by simp
qed simp

lemma poison_pushing_eq:
  "distinct (map pushing_smp ps) \<Longrightarrow> \<forall>p \<in> set ps. frames q (pushing_smp p) = Some empty_frame \<Longrightarrow>
   poison_pushing ps q = Inr (q\<lparr>frames := wake_all (pushing_smp ` set ps) (frames q)\<rparr>)"
proof (induction ps arbitrary: q)
  case (Cons a ps)
  let ?q = "q\<lparr>frames := (frames q)(pushing_smp a \<mapsto> woken None)\<rparr>"
  have "\<forall>p \<in> set ps. frames ?q (pushing_smp p) = Some empty_frame"
    using Cons.prems by (auto simp: image_iff)
  then have "poison_pushing ps ?q = Inr (?q\<lparr>frames := wake_all (pushing_smp ` set ps) (frames ?q)\<rparr>)"
    using Cons by auto
  then show ?case using Cons.prems by simp
qed simp

lemma bq_okD:
  assumes "bq_ok c q"
  shows "workorder_container_cap q = c" "length (workorder_container q) \<le> c" "finite (dom (frames q))"
    and "w \<in> set (waiting_arg_vec q) \<Longrightarrow> waiting_smp w = dst w"
    and "\<not> is_poisoned q \<Longrightarrow> in_service c q"
    and "is_poisoned q \<Longrightarrow> frames q t = Some f \<Longrightarrow> released f"
  using assms by (auto simp: bq_ok_def split: if_splits)

lemma in_serviceD:
  assumes "in_service c q"
  shows "distinct (blocked q)"
    and "t \<in> set (blocked q) \<Longrightarrow> frames q t = Some empty_frame"
    and "frames q t = Some f \<Longrightarrow> released f \<or> t \<in> set (blocked q)"
    and "waiting_arg_vec q \<noteq> [] \<Longrightarrow> workorder_container q = [] \<and> pushing_arg_vec q = []"
    and "pushing_arg_vec q \<noteq> [] \<Longrightarrow> length (workorder_container q) = c"
  using assms unfolding in_service_def by blast+

lemma blocked_frames:
  assumes "in_service c q"
  shows "w \<in> set (waiting_arg_vec q) \<Longrightarrow> frames q (dst w) = Some empty_frame"
    and "p \<in> set (pushing_arg_vec q) \<Longrightarrow> frames q (pushing_smp p) = Some empty_frame"
  using in_serviceD(2) [OF assms] by (auto simp: blocked_def)

text \<open>The three operations in closed form, on queues that satisfy the invariant.\<close>

lemma push_eq:
  assumes "bq_ok c q" and "\<not> is_poisoned q"
  shows "push t x q =
    (case waiting_arg_vec q of
       w # ws \<Rightarrow> Inr (Returns (), q\<lparr>waiting_arg_vec := ws, frames := (frames q)(dst w \<mapsto> woken (Some x))\<rparr>)
     | [] \<Rightarrow>
         if length (workorder_container q) = c
         then Inr (Blocks, q\<lparr>pushing_arg_vec := pushing_arg_vec q @ [\<lparr>item = x, pushing_smp = t\<rparr>],
                             frames := (frames q)(t \<mapsto> empty_frame)\<rparr>)
         else Inr (Returns (), q\<lparr>workorder_container := workorder_container q @ [x]\<rparr>))"
proof (cases "waiting_arg_vec q")
  case Nil
  then show ?thesis using assms by (simp add: push_def bq_okD(1))
next
  case (Cons w ws)
  then have "frames q (dst w) = Some empty_frame" "waiting_smp w = dst w"
    using assms by (auto intro: blocked_frames(1) [OF bq_okD(5)] bq_okD(4))
  with Cons show ?thesis using assms by (simp add: push_def)
qed

lemma pop_eq:
  assumes "bq_ok c q" and "\<not> is_poisoned q"
  shows "pop t q =
    (case pushing_arg_vec q of
       p # ps \<Rightarrow> Inr (Returns (Some (item p)),
                       q\<lparr>pushing_arg_vec := ps, frames := (frames q)(pushing_smp p \<mapsto> woken None)\<rparr>)
     | [] \<Rightarrow>
         (case workorder_container q of
            x # xs \<Rightarrow> Inr (Returns (Some x), q\<lparr>workorder_container := xs\<rparr>)
          | [] \<Rightarrow> Inr (Blocks, q\<lparr>waiting_arg_vec := waiting_arg_vec q @ [\<lparr>dst = t, waiting_smp = t\<rparr>],
                                frames := (frames q)(t \<mapsto> empty_frame)\<rparr>)))"
proof (cases "pushing_arg_vec q")
  case Nil
  then show ?thesis using assms by (simp add: pop_def)
next
  case (Cons p ps)
  then have "frames q (pushing_smp p) = Some empty_frame"
    using assms by (auto intro: blocked_frames(2) [OF bq_okD(5)])
  with Cons show ?thesis using assms by (simp add: pop_def)
qed

lemma poison_eq:
  assumes "bq_ok c q" and "\<not> is_poisoned q"
  shows "poison q = Inr (q\<lparr>frames := wake_all (set (blocked q)) (frames q), is_poisoned := True\<rparr>)"
proof -
  note serve = bq_okD(5) [OF assms]
  have dist: "distinct (map dst (waiting_arg_vec q))" "distinct (map pushing_smp (pushing_arg_vec q))"
    using in_serviceD(1) [OF serve] by (simp_all add: blocked_def)
  let ?q = "q\<lparr>frames := wake_all (dst ` set (waiting_arg_vec q)) (frames q)\<rparr>"
  have "poison_waiting (waiting_arg_vec q) q = Inr ?q"
    using assms serve dist by (intro poison_waiting_eq) (auto intro: blocked_frames(1) bq_okD(4))
  moreover have "\<forall>p \<in> set (pushing_arg_vec q). frames ?q (pushing_smp p) = Some empty_frame"
    using in_serviceD(1) [OF serve] blocked_frames(2) [OF serve] by (auto simp: wake_all_def blocked_def)
  then have "poison_pushing (pushing_arg_vec q) ?q =
      Inr (?q\<lparr>frames := wake_all (pushing_smp ` set (pushing_arg_vec q)) (frames ?q)\<rparr>)"
    using dist by (intro poison_pushing_eq) simp_all
  ultimately show ?thesis
    by (auto simp: poison_def blocked_def wake_all_def fun_eq_iff)
qed

section \<open>Executions\<close>

text \<open>
  \<open>execution c A B q\<close>: from a new queue of capacity \<open>c\<close>, some interleaving of the operations of any number
  of threads leads to \<open>q\<close>; \<open>A\<close> are the items whose \<open>push\<close> got past the check for poison, \<open>B\<close> those some \<open>pop\<close>
  has returned. A thread makes one call at a time, and \<open>poison\<close> is called once. A \<open>push\<close> that throws
  changes nothing and is no step.
\<close>

inductive execution :: "nat \<Rightarrow> 'a multiset \<Rightarrow> 'a multiset \<Rightarrow> 'a BoundedQueue \<Rightarrow> bool" for c where
  start: "execution c {#} {#} (BoundedQueue_new c)"
| pushes: "execution c A B q \<Longrightarrow> frames q t = None \<Longrightarrow> push t x q = Inr (rs, q') \<Longrightarrow>
    execution c (add_mset x A) B q'"
| pops: "execution c A B q \<Longrightarrow> frames q t = None \<Longrightarrow> pop t q = Inr (Returns v, q') \<Longrightarrow>
    execution c A (B + mset_set (set_option v)) q'"
| waits: "execution c A B q \<Longrightarrow> frames q t = None \<Longrightarrow> pop t q = Inr (Blocks, q') \<Longrightarrow> execution c A B q'"
| wakes: "execution c A B q \<Longrightarrow> acquire t q = Some (v, q') \<Longrightarrow>
    execution c A (B + mset_set (set_option v)) q'"
| poisons: "execution c A B q \<Longrightarrow> \<not> is_poisoned q \<Longrightarrow> poison q = Inr q' \<Longrightarrow> execution c A B q'"

lemma not_blocked: "in_service c q \<Longrightarrow> frames q t = None \<Longrightarrow> t \<notin> set (blocked q)"
  using in_serviceD(2) [of c q t] by auto

text \<open>The first blocked call is woken up.\<close>

lemma in_service_wake:
  assumes "in_service c q" and "blocked q = t # blocked q'" and "frames q' = (frames q)(t \<mapsto> woken v)"
    and "waiting_arg_vec q' \<noteq> [] \<Longrightarrow> workorder_container q' = [] \<and> pushing_arg_vec q' = []"
    and "pushing_arg_vec q' \<noteq> [] \<Longrightarrow> length (workorder_container q') = c"
  shows "in_service c q'"
  using assms unfolding in_service_def by (auto simp: woken_def)

lemma push_keeps:
  assumes "bq_ok c q" and "frames q t = None" and "push t x q = Inr (rs, q')"
  shows "bq_ok c q' \<and> stored_items q' = add_mset x (stored_items q)"
proof -
  have live: "\<not> is_poisoned q" using assms(3) by (auto simp: push_def)
  note serve = bq_okD(5) [OF assms(1) live] and ok = bq_okD [OF assms(1)]
  show ?thesis
  proof (cases "waiting_arg_vec q")
    case (Cons w ws)
    have w: "frames q (dst w) = Some empty_frame" using blocked_frames(1) [OF serve] Cons by simp
    have q': "q' = q\<lparr>waiting_arg_vec := ws, frames := (frames q)(dst w \<mapsto> woken (Some x))\<rparr>"
      using assms live Cons by (simp add: push_eq)
    have "in_service c q'"
      by (rule in_service_wake [OF serve, of "dst w" _ "Some x"])
        (use in_serviceD(4) [OF serve] Cons in \<open>simp_all add: q' blocked_def\<close>)
    then show ?thesis using Cons live ok w by (simp add: bq_ok_def stored_items_def q')
  next
    case Nil
    then show ?thesis
    proof (cases "length (workorder_container q) = c")
      case True
      have q': "q' = q\<lparr>pushing_arg_vec := pushing_arg_vec q @ [\<lparr>item = x, pushing_smp = t\<rparr>],
          frames := (frames q)(t \<mapsto> empty_frame)\<rparr>"
        using assms live Nil True by (simp add: push_eq)
      have "in_service c q'"
        using serve Nil True not_blocked [OF serve assms(2)]
        unfolding q' in_service_def blocked_def by (auto simp: empty_frame_def)
      then show ?thesis using Nil live ok assms(2) by (simp add: bq_ok_def stored_items_def q')
    next
      case False
      have q': "q' = q\<lparr>workorder_container := workorder_container q @ [x]\<rparr>"
        using assms live Nil False by (simp add: push_eq)
      have "in_service c q'"
        using serve Nil False unfolding q' in_service_def blocked_def by auto
      then show ?thesis using live ok False by (simp add: bq_ok_def stored_items_def q')
    qed
  qed
qed

lemma pop_keeps:
  assumes "bq_ok c q" and "frames q t = None" and "pop t q = Inr (rs, q')"
  shows "bq_ok c q' \<and>
    stored_items q = stored_items q' + (case rs of Returns v \<Rightarrow> mset_set (set_option v) | Blocks \<Rightarrow> {#})"
proof (cases "is_poisoned q")
  case True
  then show ?thesis using assms by (auto simp: pop_def)
next
  case live: False
  note serve = bq_okD(5) [OF assms(1) live] and ok = bq_okD [OF assms(1)]
  show ?thesis
  proof (cases "pushing_arg_vec q")
    case (Cons p ps)
    have p: "frames q (pushing_smp p) = Some empty_frame" using blocked_frames(2) [OF serve] Cons by simp
    have rs: "rs = Returns (Some (item p))"
      and q': "q' = q\<lparr>pushing_arg_vec := ps, frames := (frames q)(pushing_smp p \<mapsto> woken None)\<rparr>"
      using assms live Cons by (simp_all add: pop_eq)
    have "waiting_arg_vec q = []" using in_serviceD(4) [OF serve] Cons by auto
    then have "in_service c q'"
      by (intro in_service_wake [OF serve, of "pushing_smp p" _ None])
        (use in_serviceD(5) [OF serve] Cons in \<open>simp_all add: q' blocked_def\<close>)
    then show ?thesis using Cons live ok p by (simp add: bq_ok_def stored_items_def q' rs)
  next
    case nobody: Nil
    show ?thesis
    proof (cases "workorder_container q")
      case (Cons x xs)
      have rs: "rs = Returns (Some x)" and q': "q' = q\<lparr>workorder_container := xs\<rparr>"
        using assms live nobody Cons by (simp_all add: pop_eq)
      have "in_service c q'"
        using serve nobody Cons unfolding q' in_service_def blocked_def by auto
      then show ?thesis using live ok Cons by (simp add: bq_ok_def stored_items_def q' rs)
    next
      case Nil
      have rs: "rs = Blocks"
        and q': "q' = q\<lparr>waiting_arg_vec := waiting_arg_vec q @ [\<lparr>dst = t, waiting_smp = t\<rparr>],
          frames := (frames q)(t \<mapsto> empty_frame)\<rparr>"
        using assms live nobody Nil by (simp_all add: pop_eq)
      have "in_service c q'"
        using serve nobody Nil not_blocked [OF serve assms(2)]
        unfolding q' in_service_def blocked_def by (auto simp: empty_frame_def)
      then show ?thesis using live ok assms(2) by (auto simp: bq_ok_def stored_items_def q' rs)
    qed
  qed
qed

lemma acquire_keeps:
  assumes "bq_ok c q" and "acquire t q = Some (v, q')"
  shows "bq_ok c q' \<and> stored_items q = stored_items q' + mset_set (set_option v)"
proof -
  obtain f where f: "frames q t = Some f" "released f"
    and v: "v = wait_item f" and q': "q' = q\<lparr>frames := (frames q)(t := None)\<rparr>"
    using assms(2) by (auto simp: acquire_def split: option.splits if_splits)
  have "Some f = Some (woken v)" using f v by (simp add: woken_def)
  then have "slot (frames q t) = mset_set (set_option v)" using f by (simp only: slot_simps)
  then have "stored_items q = stored_items q' + mset_set (set_option v)"
    using slots_update [OF bq_okD(3) [OF assms(1)], of t None] by (simp add: stored_items_def q')
  moreover have "in_service c q \<Longrightarrow> in_service c q'"
    using f unfolding q' in_service_def blocked_def by (force simp: empty_frame_def)
  then have "bq_ok c q'" using assms(1) by (auto simp: bq_ok_def q' split: if_splits)
  ultimately show ?thesis by simp
qed

lemma poison_keeps:
  assumes "bq_ok c q" and "\<not> is_poisoned q" and "poison q = Inr q'"
  shows "bq_ok c q' \<and> stored_items q' = stored_items q"
proof -
  note serve = bq_okD(5) [OF assms(1,2)]
  have q': "q' = q\<lparr>frames := wake_all (set (blocked q)) (frames q), is_poisoned := True\<rparr>"
    using assms by (simp add: poison_eq)
  have "dom (wake_all (set (blocked q)) (frames q)) \<subseteq> dom (frames q)"
    using in_serviceD(2) [OF serve] by (auto simp: wake_all_def split: if_splits)
  then have "finite (dom (wake_all (set (blocked q)) (frames q)))"
    using bq_okD(3) [OF assms(1)] by (rule finite_subset)
  then have "bq_ok c q'"
    using bq_okD(1-4) [OF assms(1)] in_serviceD(3) [OF serve]
    by (auto simp: bq_ok_def q' wake_all_def woken_def split: if_splits)
  moreover have "stored_items q' = stored_items q"
    using in_serviceD(2) [OF serve] by (simp add: stored_items_def q' slots_wake_all)
  ultimately show ?thesis by simp
qed

lemma execution_invariant: "execution c A B q \<Longrightarrow> bq_ok c q \<and> A = B + stored_items q"
proof (induction rule: execution.induct)
  case start
  then show ?case using BoundedQueue_new_ok by (simp add: stored_items_def BoundedQueue_new_def)
next
  case (pushes A B q t x rs q')
  then show ?case using push_keeps [of c q t x rs q'] by simp
next
  case (pops A B q t v q')
  then show ?case using pop_keeps [of c q t "Returns v" q'] by (simp add: ac_simps)
next
  case (waits A B q t q')
  then show ?case using pop_keeps [of c q t Blocks q'] by simp
next
  case (wakes A B q t v q')
  then show ?case using acquire_keeps [of c q t v q'] by (simp add: ac_simps)
next
  case (poisons A B q q')
  then show ?case using poison_keeps [of c q q'] by simp
qed

section \<open>Properties\<close>

text \<open>A full queue of capacity one with a blocked producer, and an empty one with a blocked consumer.\<close>

definition sample_full :: "nat BoundedQueue" where
  "sample_full = (BoundedQueue_new 1)\<lparr>workorder_container := [10],
     pushing_arg_vec := [\<lparr>item = 20, pushing_smp = 1\<rparr>], frames := (\<lambda>_. None)(1 \<mapsto> empty_frame)\<rparr>"

lemma sample_full_execution: "execution 1 {#20, 10#} {#} sample_full"
proof -
  have "push 0 10 (BoundedQueue_new 1) = Inr (Returns (), (BoundedQueue_new 1)\<lparr>workorder_container := [10::nat]\<rparr>)"
    by (simp add: push_def BoundedQueue_new_def)
  from execution.pushes [OF execution.start _ this]
  have "execution 1 {#10#} {#} ((BoundedQueue_new 1)\<lparr>workorder_container := [10::nat]\<rparr>)"
    by (simp add: BoundedQueue_new_def)
  moreover have "push 1 20 ((BoundedQueue_new 1)\<lparr>workorder_container := [10]\<rparr>) = Inr (Blocks, sample_full)"
    by (simp add: push_def BoundedQueue_new_def sample_full_def)
  ultimately show ?thesis
    using execution.pushes [of 1 "{#10#}" "{#}" _ 1 20 Blocks sample_full] by (simp add: BoundedQueue_new_def)
qed

text \<open>
  C31: No item is lost or delivered twice. In every interleaving, the items accepted by \<open>push\<close> are those
  returned by \<open>pop\<close> together with those queued, held by blocked producers or handed to consumers that
  are about to return; and the container never exceeds its capacity.
\<close>

theorem bounded_queue_conserves_items:
  "execution c A B q \<Longrightarrow> A = B + stored_items q \<and> length (workorder_container q) \<le> c"
  using execution_invariant bq_okD(2) by blast

lemma bounded_queue_conserves_items_witness:
  "{#20, 10#} = {#} + stored_items sample_full \<and> length (workorder_container sample_full) \<le> 1"
  by (rule bounded_queue_conserves_items [OF sample_full_execution])

text \<open>
  C35: As long as \<open>poison\<close> is called once, no operation follows a pointer to a call that has returned and
  no semaphore is released twice: \<open>push\<close> fails exactly on a poisoned queue, by throwing, and \<open>pop\<close>
  and the first \<open>poison\<close> never do.
\<close>

theorem bounded_queue_no_dangling:
  assumes "execution c A B q" and "frames q t = None"
  shows "(if is_poisoned q then push t x q = Inl Invalid_argument
          else (\<exists>rs q'. push t x q = Inr (rs, q')) \<and> (\<exists>q'. poison q = Inr q')) \<and>
    (\<exists>rs q'. pop t q = Inr (rs, q'))"
proof -
  have ok: "bq_ok c q" using execution_invariant [OF assms(1)] by simp
  show ?thesis
  proof (cases "is_poisoned q")
    case True
    then show ?thesis by (simp add: push_def pop_def)
  next
    case False
    then show ?thesis
      by (auto simp: push_eq [OF ok] pop_eq [OF ok] poison_eq [OF ok] split: list.split)
  qed
qed

lemma bounded_queue_no_dangling_witness:
  "(\<exists>rs q'. pop 2 sample_full = Inr (rs, q')) \<and> (\<exists>q'. poison sample_full = Inr q')"
  using bounded_queue_no_dangling [OF sample_full_execution, of 2 30]
  by (simp add: sample_full_def BoundedQueue_new_def)

text \<open>
  C32: There are no lost wake-ups. A call that stays blocked is either a \<open>pop\<close> and there is nothing to
  take, neither queued nor held by a producer, or a \<open>push\<close> and the queue is full; and the queue has not
  been poisoned.
\<close>

theorem bounded_queue_no_lost_wakeup:
  assumes "execution c A B q" and "frames q t = Some f" and "acquire t q = None"
  shows "\<not> is_poisoned q \<and>
    (t \<in> dst ` set (waiting_arg_vec q) \<and> workorder_container q = [] \<and> pushing_arg_vec q = [] \<or>
     t \<in> pushing_smp ` set (pushing_arg_vec q) \<and> length (workorder_container q) = c)"
proof -
  have ok: "bq_ok c q" using execution_invariant [OF assms(1)] by simp
  have "\<not> released f" using assms(2,3) by (auto simp: acquire_def split: if_splits)
  then have live: "\<not> is_poisoned q" using bq_okD(6) [OF ok _ assms(2)] by auto
  note serve = bq_okD(5) [OF ok live]
  have "t \<in> set (blocked q)" using in_serviceD(3) [OF serve assms(2)] \<open>\<not> released f\<close> by simp
  then consider "t \<in> dst ` set (waiting_arg_vec q)" | "t \<in> pushing_smp ` set (pushing_arg_vec q)"
    by (auto simp: blocked_def)
  then show ?thesis
    using in_serviceD(4,5) [OF serve] live by cases force+
qed

lemma bounded_queue_no_lost_wakeup_witness:
  "length (workorder_container sample_full) = 1 \<and> \<not> is_poisoned sample_full"
  using bounded_queue_no_lost_wakeup [OF sample_full_execution, of 1 empty_frame]
  by (simp add: sample_full_def BoundedQueue_new_def acquire_def empty_frame_def)

text \<open>
  \<open>poison\<close> ends the waiting. Afterwards every call in progress can return, a consumer without an item;
  every later \<open>pop\<close> returns nothing at once and every later \<open>push\<close> throws. A producer that was blocked
  returns like one whose item was taken, though nobody will get it.
\<close>

theorem poison_releases_all:
  assumes "execution c A B q" and "\<not> is_poisoned q"
  shows "\<exists>q'. poison q = Inr q' \<and>
    (\<forall>t. frames q' t \<noteq> None \<longrightarrow> acquire t q' \<noteq> None) \<and>
    (\<forall>t \<in> set (blocked q). \<exists>q''. acquire t q' = Some (None, q'')) \<and>
    (\<forall>t. pop t q' = Inr (Returns None, q')) \<and> (\<forall>t x. push t x q' = Inl Invalid_argument)"
proof -
  have ok: "bq_ok c q" using execution_invariant [OF assms(1)] by simp
  note serve = bq_okD(5) [OF ok assms(2)]
  show ?thesis
    using in_serviceD(3) [OF serve]
    by (auto simp: poison_eq [OF ok assms(2)] acquire_def wake_all_def woken_def pop_def push_def
        split: option.split)
qed

lemma poison_releases_all_witness:
  "\<exists>q'. poison sample_full = Inr q' \<and> (\<exists>q''. acquire 1 q' = Some (None, q''))"
  using poison_releases_all [OF sample_full_execution]
  by (auto simp: sample_full_def BoundedQueue_new_def blocked_def)

text \<open>
  The queue is not first in, first out. While a producer is blocked, \<open>pop\<close> takes the item of that
  producer and leaves the container, full of items that were accepted before it, as it is.
\<close>

theorem blocked_producer_overtakes:
  assumes "execution c A B q" and "\<not> is_poisoned q" and "pushing_arg_vec q = p # ps"
  shows "\<exists>q'. pop t q = Inr (Returns (Some (item p)), q') \<and> pushing_arg_vec q' = ps \<and>
    workorder_container q' = workorder_container q \<and> length (workorder_container q) = c"
proof -
  have ok: "bq_ok c q" using execution_invariant [OF assms(1)] by simp
  show ?thesis
    using in_serviceD(5) [OF bq_okD(5) [OF ok assms(2)]] assms(3) by (simp add: pop_eq [OF ok assms(2)])
qed

text \<open>\<open>push(10)\<close>, \<open>push(20)\<close> on a queue of capacity one: the two following \<open>pop\<close> return 20, then 10.\<close>

lemma blocked_producer_overtakes_witness:
  "\<exists>q' q''. pop 2 sample_full = Inr (Returns (Some 20), q') \<and> pop 3 q' = Inr (Returns (Some 10), q'')"
  using blocked_producer_overtakes [OF sample_full_execution, of "\<lparr>item = 20, pushing_smp = 1\<rparr>" "[]" 2]
  by (simp add: sample_full_def BoundedQueue_new_def pop_def release_def empty_frame_def)

text \<open>
  A second \<open>poison\<close> is not safe. The vectors of blocked calls are not emptied by the first one, so
  when a woken consumer has returned, the second one writes to its variables.
\<close>

theorem second_poison_dangles:
  "\<exists>q1 q2 q3. pop t (BoundedQueue_new c) = Inr (Blocks, q1) \<and> poison q1 = Inr q2 \<and>
     acquire t q2 = Some (None, q3) \<and> poison q3 = Inl Out_of_bounds"
  by (simp add: pop_def BoundedQueue_new_def poison_def assign_dst_def release_def acquire_def empty_frame_def)

end
