(* ===== verification/Huffman_Bits.thy ===== *)
theory Huffman_Bits
  imports Compact_Frames
begin

text \<open>
  The bit-level helpers of \<open>serializer/huffman_encoder.h\<close>: namespaces \<open>byte_array\<close> (bits of a byte
  buffer, least significant first), \<open>bit_array\<close> (up to 64 bits in a \<open>uint64_t\<close> with their number) and
  \<open>bit_stream\<close> (bits collected in a \<open>bit_array\<close> and written out eight bytes at a time). A pointer that
  is written through is the list of the bytes written so far; a shift by 64 or more is \<open>Bad_shift\<close>.
\<close>

section \<open>byte_array\<close>

definition CHAR_BIT :: nat where
  [simp]: "CHAR_BIT = 8"

definition slot_of :: "nat \<Rightarrow> nat" where
  "slot_of idx = idx div CHAR_BIT"

definition offs :: "nat \<Rightarrow> nat" where
  "offs idx = idx mod CHAR_BIT"

definition byte_size :: "nat \<Rightarrow> nat" where
  "byte_size bit_sz = (if bit_sz = 0 then 0 else slot_of (bit_sz - 1) + 1)"

definition true_toggle :: "nat \<Rightarrow> byte" where
  "true_toggle n = push_bit n 1"

definition byte_array_read :: "bytes \<Rightarrow> nat \<Rightarrow> bool result" where
  "byte_array_read op idx =
     (if slot_of idx < length op then Inr (and (op ! slot_of idx) (true_toggle (offs idx)) \<noteq> 0)
      else Inl Out_of_bounds)"

primrec read_ubyte_loop :: "bytes \<Rightarrow> nat \<Rightarrow> nat \<Rightarrow> nat \<Rightarrow> nat result" where
  "read_ubyte_loop op idx 0 rs = Inr rs"
| "read_ubyte_loop op idx (Suc n) rs =
     bindR (byte_array_read op (idx + n)) (\<lambda>b. read_ubyte_loop op idx n (or (push_bit 1 rs) (of_bool b)))"

definition read_ubyte :: "bytes \<Rightarrow> nat \<Rightarrow> byte result" where
  "read_ubyte op idx = bindR (read_ubyte_loop op idx CHAR_BIT 0) (\<lambda>rs. Inr (of_nat rs))"

section \<open>bit_array\<close>

type_synonym bit_container_type = "64 word"
type_synonym bit_array_type = "64 word \<times> nat"

definition array_cap :: nat where
  "array_cap = 64"

definition shift_left :: "bit_container_type \<Rightarrow> nat \<Rightarrow> bit_container_type result" where
  "shift_left x n = (if n < 64 then Inr (push_bit n x) else Inl Bad_shift)"

definition shift_right :: "bit_container_type \<Rightarrow> nat \<Rightarrow> bit_container_type result" where
  "shift_right x n = (if n < 64 then Inr (drop_bit n x) else Inl Bad_shift)"

definition bit_append :: "bit_array_type \<Rightarrow> bit_array_type \<Rightarrow> bit_array_type result" where
  "bit_append lhs rhs =
     bindR (shift_left (fst rhs) (snd lhs)) (\<lambda>x. Inr (or (fst lhs) x, snd lhs + snd rhs))"

definition bit_split :: "bit_array_type \<Rightarrow> nat \<Rightarrow> (bit_array_type \<times> bit_array_type) result" where
  "bit_split inp lhs_sz =
     (let rhs_sz = snd inp - lhs_sz in
      bindR (shift_right (fst inp) lhs_sz) (\<lambda>rhs.
      bindR (shift_left rhs lhs_sz) (\<lambda>x.
        let lhs = xor x (fst inp) in Inr ((lhs, lhs_sz), (rhs, rhs_sz)))))"

text \<open>\<open>static_cast<uint64_t>(char)\<close> extends the sign.\<close>

definition to_bit_array_char :: "byte \<Rightarrow> bit_array_type" where
  "to_bit_array_char c = (scast c, CHAR_BIT)"

definition to_bit_array_bool :: "bool \<Rightarrow> bit_array_type" where
  "to_bit_array_bool c = (of_bool c, 1)"

fun to_bit_array_loop :: "bit_array_type \<Rightarrow> bool list \<Rightarrow> bit_array_type result" where
  "to_bit_array_loop rs [] = Inr rs"
| "to_bit_array_loop rs (b # vec) =
     bindR (bit_append rs (to_bit_array_bool b)) (\<lambda>rs'. to_bit_array_loop rs' vec)"

definition to_bit_array :: "bool list \<Rightarrow> bit_array_type result" where
  "to_bit_array vec = (if length vec \<le> array_cap then to_bit_array_loop (0, 0) vec else Inl Abort)"

section \<open>bit_stream\<close>

definition stream_to :: "endian \<Rightarrow> bit_array_type \<Rightarrow> bit_array_type \<Rightarrow> (bytes \<times> bit_array_type) result" where
  "stream_to nt src stream_buf =
     (if snd stream_buf + snd src < array_cap
      then bindR (bit_append stream_buf src) (\<lambda>stream_buf'. Inr ([], stream_buf'))
      else
        bindR (bit_split src (array_cap - snd stream_buf)) (\<lambda>(l, r).
        bindR (bit_append stream_buf l) (\<lambda>full.
        bindR (serialize_into nt (TArith (UInt 8)) (VInt (uint (fst full)))) (\<lambda>dst.
          Inr (dst, r)))))"

primrec exhaust_loop :: "endian \<Rightarrow> nat \<Rightarrow> bit_container_type \<Rightarrow> (bytes \<times> bit_container_type) result" where
  "exhaust_loop nt 0 c = Inr ([], c)"
| "exhaust_loop nt (Suc n) c =
     bindR (serialize_into nt (TArith (UInt 1)) (VInt (uint (and c (mask 8))))) (\<lambda>b.
     bindR (exhaust_loop nt n (drop_bit CHAR_BIT c)) (\<lambda>(bs, c'). Inr (b @ bs, c')))"

definition exhaust_to :: "endian \<Rightarrow> bit_array_type \<Rightarrow> (bytes \<times> bit_array_type) result" where
  "exhaust_to nt stream_buf =
     (let bsz = byte_size (snd stream_buf) in
      if bsz = 8
      then bindR (serialize_into nt (TArith (UInt 8)) (VInt (uint (fst stream_buf)))) (\<lambda>dst.
             Inr (dst, (fst stream_buf, 0)))
      else bindR (exhaust_loop nt bsz (fst stream_buf)) (\<lambda>(dst, c). Inr (dst, (c, 0))))"

definition bit_stream_read :: "endian \<Rightarrow> bytes \<Rightarrow> nat \<Rightarrow> nat \<Rightarrow> bit_container_type result" where
  "bit_stream_read nt op idx SZ =
     bindR (deserialize_into nt (TArith (UInt 8)) (drop (slot_of idx) op)) (\<lambda>(cursor, _).
     bindR (shift_right (word_of_int (case cursor of VInt x \<Rightarrow> x | _ \<Rightarrow> 0)) (offs idx)) (\<lambda>shifted.
       Inr (and shifted (mask SZ))))"

definition read_padd_requirement :: nat where
  "read_padd_requirement = 8 * CHAR_BIT"

section \<open>The bits of a buffer\<close>

definition bits_of_bytes :: "bytes \<Rightarrow> bool list" where
  "bits_of_bytes bs = concat (map (\<lambda>b. map (bit b) [0..<8]) bs)"

definition bits :: "bit_array_type \<Rightarrow> bool list" where
  "bits a = map (bit (fst a)) [0..<snd a]"

definition ba_ok :: "bit_array_type \<Rightarrow> bool" where
  "ba_ok a \<longleftrightarrow> snd a \<le> 64 \<and> (\<forall>i \<ge> snd a. \<not> bit (fst a) i)"

lemma length_bits [simp]: "length (bits a) = snd a"
  by (simp add: bits_def)

lemma bits_of_bytes_simps [simp]:
  "bits_of_bytes [] = []"
  "bits_of_bytes (b # bs) = map (bit b) [0..<8] @ bits_of_bytes bs"
  "bits_of_bytes (bs @ bs') = bits_of_bytes bs @ bits_of_bytes bs'"
  by (simp_all add: bits_of_bytes_def)

lemma length_bits_of_bytes [simp]: "length (bits_of_bytes bs) = 8 * length bs"
  by (induction bs) simp_all

lemma nth_bits_of_bytes:
  "i < 8 * length bs \<Longrightarrow> bits_of_bytes bs ! i = bit (bs ! (i div 8)) (i mod 8)"
proof (induction bs arbitrary: i)
  case (Cons b bs)
  show ?case
  proof (cases "i < 8")
    case False
    then have "i div 8 = Suc ((i - 8) div 8)" and "i mod 8 = (i - 8) mod 8"
      by (simp_all add: le_div_geq le_mod_geq)
    with False show ?thesis using Cons by (simp add: nth_append)
  qed (simp add: nth_append)
qed simp

lemma byte_array_read_eq:
  "byte_array_read op i = (if i < 8 * length op then Inr (bits_of_bytes op ! i) else Inl Out_of_bounds)"
proof -
  have "and b (true_toggle n) \<noteq> 0 \<longleftrightarrow> bit b n" for b :: byte and n
    by (simp add: true_toggle_def bit_iff_and_push_bit_not_eq_0)
  moreover have "i div 8 < length op \<longleftrightarrow> i < 8 * length op" by presburger
  ultimately show ?thesis by (simp add: byte_array_read_def slot_of_def offs_def nth_bits_of_bytes)
qed

lemma byte_array_read_ok: "i < 8 * length op \<Longrightarrow> byte_array_read op i = Inr (bits_of_bytes op ! i)"
  by (simp add: byte_array_read_eq)

lemma bits_of_le_bytes: "bits_of_bytes (le_bytes n x) = map (bit x) [0..<8 * n]"
proof (induction n arbitrary: x)
  case (Suc n)
  have "map (bit (word_of_int x :: byte)) [0..<8] = map (bit x) [0..<8]"
    by (simp add: bit_simps)
  moreover have "map (bit (x div 256)) [0..<8 * n] = map (bit x) [8..<8 + 8 * n]"
    by (rule nth_equalityI) (simp_all add: bit_simps drop_bit_eq_div [of 8 x, simplified, symmetric])
  moreover have "map (bit x) [0..<8 * Suc n] = map (bit x) [0..<8] @ map (bit x) [8..<8 + 8 * n]"
    using upt_add_eq_append [of 0 8 "8 * n"] by simp
  ultimately show ?case using Suc by simp
qed simp

lemma bit_le_uint: "i < 8 * length bs \<Longrightarrow> bit (le_uint bs) i = bits_of_bytes bs ! i"
  using bits_of_le_bytes [of "length bs" "le_uint bs"] by (simp add: le_bytes_le_uint)

lemma serialize_uint:
  "serialize_into nt (TArith (UInt n)) (VInt x) = Inr (le_bytes n x)"
  by (simp add: serialize_into_def Forward_arithmetic_eq)

lemma deserialize_uint:
  "n \<le> length buf \<Longrightarrow>
   deserialize_into nt (TArith (UInt n)) buf = Inr (VInt (le_uint (take n buf)), drop n buf)"
  by (simp add: deserialize_into_def Backward_arithmetic_def load_eq)

section \<open>Appending and splitting\<close>

lemma ba_ok_bit: "ba_ok a \<Longrightarrow> bit (fst a) i \<longleftrightarrow> i < snd a \<and> bits a ! i"
  by (cases "i < snd a") (auto simp: ba_ok_def bits_def not_less)

lemma bits_eqI: "snd a = length xs \<Longrightarrow> (\<And>i. i < snd a \<Longrightarrow> bit (fst a) i = xs ! i) \<Longrightarrow> bits a = xs"
  by (rule nth_equalityI) (simp_all add: bits_def)

lemma bit_append_ok:
  assumes "ba_ok l" and "ba_ok r" and "snd l + snd r \<le> 64" and "snd l < 64"
  shows "\<exists>a. bit_append l r = Inr a \<and> ba_ok a \<and> snd a = snd l + snd r \<and> bits a = bits l @ bits r"
proof -
  let ?a = "(or (fst l) (push_bit (snd l) (fst r)), snd l + snd r)"
  have bit: "bit (fst ?a) i \<longleftrightarrow>
      (if i < snd l then bits l ! i else i < snd l + snd r \<and> bits r ! (i - snd l))" for i
    using assms(3) ba_ok_bit [OF assms(1), of i] ba_ok_bit [OF assms(2), of "i - snd l"]
    by (auto simp: bit_simps)
  have "ba_ok ?a" using assms(3) bit by (auto simp: ba_ok_def)
  moreover have "bits ?a = bits l @ bits r"
    using bit by (intro bits_eqI) (simp_all add: nth_append)
  ultimately show ?thesis using assms(4) by (simp add: bit_append_def shift_left_def)
qed

lemma bit_split_ok:
  assumes "ba_ok a" and "n < 64" and "n \<le> snd a"
  shows "\<exists>l r. bit_split a n = Inr (l, r) \<and> ba_ok l \<and> ba_ok r \<and> snd l = n \<and> snd r = snd a - n \<and>
    bits l = take n (bits a) \<and> bits r = drop n (bits a)"
proof -
  let ?r = "(drop_bit n (fst a), snd a - n)"
  let ?l = "(xor (push_bit n (drop_bit n (fst a))) (fst a), n)"
  have r: "bit (fst ?r) i \<longleftrightarrow> i + n < snd a \<and> bits a ! (i + n)" for i
    using ba_ok_bit [OF assms(1), of "i + n"] by (simp add: bit_simps ac_simps)
  have l: "bit (fst ?l) i \<longleftrightarrow> i < n \<and> bits a ! i" for i
    using ba_ok_bit [OF assms(1), of i] assms(1,3) by (auto simp: bit_simps ba_ok_def)
  have "ba_ok ?l" "ba_ok ?r" using assms l r by (auto simp: ba_ok_def)
  moreover have "bits ?l = take n (bits a)"
    using assms(3) l by (intro bits_eqI) simp_all
  moreover have "bits ?r = drop n (bits a)"
    using assms(3) r by (intro bits_eqI) (simp, simp add: less_diff_conv add.commute)
  ultimately show ?thesis
    using assms(2) by (simp add: bit_split_def shift_left_def shift_right_def Let_def)
qed

lemma to_bit_array_loop_ok:
  assumes "ba_ok rs" and "snd rs + length vec \<le> 64"
  shows "\<exists>a. to_bit_array_loop rs vec = Inr a \<and> ba_ok a \<and> bits a = bits rs @ vec"
  using assms
proof (induction vec arbitrary: rs)
  case (Cons b vec)
  have "ba_ok (to_bit_array_bool b)" "bits (to_bit_array_bool b) = [b]"
    by (auto simp: ba_ok_def bits_def to_bit_array_bool_def bit_simps)
  moreover obtain rs' where "bit_append rs (to_bit_array_bool b) = Inr rs'" "ba_ok rs'"
      "snd rs' = snd rs + 1" "bits rs' = bits rs @ [b]"
    using bit_append_ok [OF Cons.prems(1), of "to_bit_array_bool b"] Cons.prems(2) calculation
    by (auto simp: to_bit_array_bool_def)
  ultimately show ?case using Cons.IH [of rs'] Cons.prems(2) by simp
qed simp

lemma to_bit_array_ok:
  "length vec \<le> 64 \<Longrightarrow> \<exists>a. to_bit_array vec = Inr a \<and> ba_ok a \<and> bits a = vec"
  using to_bit_array_loop_ok [of "(0, 0)" vec]
  by (simp add: to_bit_array_def array_cap_def ba_ok_def bits_def)

section \<open>Streams\<close>

text \<open>Source arrays are shorter than 64 bits; then no shift is out of range and every bit arrives.\<close>

lemma stream_to_ok:
  assumes "ba_ok src" and "snd src < 64" and "ba_ok buf" and "snd buf < 64"
  shows "\<exists>dst buf'. stream_to nt src buf = Inr (dst, buf') \<and> ba_ok buf' \<and> snd buf' < 64 \<and>
    bits_of_bytes dst @ bits buf' = bits buf @ bits src"
proof (cases "snd buf + snd src < 64")
  case True
  then show ?thesis
    using bit_append_ok [OF assms(3,1)] assms(4) by (auto simp: stream_to_def array_cap_def)
next
  case False
  let ?n = "64 - snd buf"
  have n: "?n < 64" "?n \<le> snd src" using assms(2,4) False by linarith+
  obtain l r where split: "bit_split src ?n = Inr (l, r)" "ba_ok l" "ba_ok r" "snd l = ?n"
      "snd r = snd src - ?n" "bits l = take ?n (bits src)" "bits r = drop ?n (bits src)"
    using bit_split_ok [OF assms(1) n] by blast
  obtain a where a: "bit_append buf l = Inr a" "snd a = 64" "bits a = bits buf @ bits l"
    using bit_append_ok [OF assms(3) split(2)] split(4) assms(4) by auto
  have "bits_of_bytes (le_bytes 8 (uint (fst a))) = bits a"
    using a(2) by (simp add: bits_of_le_bytes bits_def bit_uint_iff)
  then show ?thesis
    using False split a assms(2) by (auto simp: stream_to_def array_cap_def serialize_uint)
qed

lemma exhaust_loop_ok:
  "\<exists>bs c'. exhaust_loop nt n c = Inr (bs, c') \<and> length bs = n \<and>
     (\<forall>i < 8 * n. bits_of_bytes bs ! i = bit c i)"
proof (induction n arbitrary: c)
  case (Suc n)
  obtain bs c' where rest: "exhaust_loop nt n (drop_bit 8 c) = Inr (bs, c')" "length bs = n"
      "\<forall>i < 8 * n. bits_of_bytes bs ! i = bit (drop_bit 8 c) i"
    using Suc by blast
  have "bits_of_bytes (le_bytes 1 (uint (and c (mask 8)))) = map (bit (uint (and c (mask 8)))) [0..<8]"
    by (subst bits_of_le_bytes) simp
  moreover have "map (bit (uint (and c (mask 8)))) [0..<8] = map (bit c) [0..<8]"
    by (simp add: bit_simps)
  ultimately have "bits_of_bytes (le_bytes 1 (uint (and c (mask 8)))) = map (bit c) [0..<8]"
    by simp
  then show ?case
    using rest by (auto simp: serialize_uint nth_append bit_simps simp del: le_bytes.simps One_nat_def)
qed simp

lemma byte_size_bounds: "n \<le> 8 * byte_size n \<and> 8 * byte_size n < n + 8"
  by (cases n) (simp_all add: byte_size_def slot_of_def, presburger)

lemma exhaust_to_ok:
  assumes "ba_ok buf" and "snd buf < 64"
  shows "\<exists>dst buf'. exhaust_to nt buf = Inr (dst, buf') \<and> length dst = byte_size (snd buf) \<and>
    take (snd buf) (bits_of_bytes dst) = bits buf"
proof -
  let ?n = "snd buf"
  have le: "?n \<le> 8 * byte_size ?n" using byte_size_bounds by simp
  show ?thesis
  proof (cases "byte_size ?n = 8")
    case True
    have "take ?n (bits_of_bytes (le_bytes 8 (uint (fst buf)))) = bits buf"
      using assms by (auto simp: bits_of_le_bytes bits_def bit_uint_iff take_map take_upt)
    with True show ?thesis by (simp add: exhaust_to_def serialize_uint)
  next
    case False
    obtain bs c' where loop: "exhaust_loop nt (byte_size ?n) (fst buf) = Inr (bs, c')"
        "length bs = byte_size ?n" "\<forall>i < 8 * byte_size ?n. bits_of_bytes bs ! i = bit (fst buf) i"
      using exhaust_loop_ok by blast
    have "take ?n (bits_of_bytes bs) = bits buf"
      using loop le by (intro nth_equalityI) (simp_all add: bits_def)
    with False loop show ?thesis by (simp add: exhaust_to_def)
  qed
qed

lemma bit_stream_read_ok:
  assumes "idx + 64 < 8 * length op" and "SZ \<le> 56"
  shows "\<exists>tape. bit_stream_read nt op idx SZ = Inr tape \<and>
    (\<forall>i. bit tape i \<longleftrightarrow> i < SZ \<and> bits_of_bytes op ! (idx + i))"
proof -
  let ?src = "take 8 (drop (idx div 8) op)" and ?o = "idx mod 8"
  have len: "idx div 8 + 8 \<le> length op" using assms(1) by presburger
  then have src: "length ?src = 8" by simp
  have idx: "8 * (idx div 8) + ?o = idx" by simp
  let ?w = "word_of_int (le_uint ?src) :: 64 word"
  have "bit ?w i = bits_of_bytes op ! (8 * (idx div 8) + i)" if "i < 64" for i
  proof -
    have "bit ?w i = bits_of_bytes ?src ! i"
      using that src bit_le_uint [of i ?src] by (simp add: bit_simps)
    also have "\<dots> = bit (op ! (idx div 8 + i div 8)) (i mod 8)"
      using that src len by (simp add: nth_bits_of_bytes)
    also have "\<dots> = bits_of_bytes op ! (8 * (idx div 8) + i)"
      using that len by (simp add: nth_bits_of_bytes)
    finally show ?thesis .
  qed
  then have bit: "bit (and (drop_bit ?o ?w) (mask SZ)) i \<longleftrightarrow> i < SZ \<and> bits_of_bytes op ! (idx + i)" for i
  proof (cases "i < SZ")
    case True
    then have "?o + i < 64" using assms(2) mod_less_divisor [of 8 idx] by linarith
    then show ?thesis
      using True assms(2) \<open>\<And>i. i < 64 \<Longrightarrow> bit ?w i = bits_of_bytes op ! (8 * (idx div 8) + i)\<close> [of "?o + i"]
      by (simp add: bit_simps add.assoc [symmetric])
  qed (simp add: bit_simps)
  have "?o < 64" using mod_less_divisor [of 8 idx] by linarith
  then have "bit_stream_read nt op idx SZ = Inr (and (drop_bit ?o ?w) (mask SZ))"
    using len by (simp add: bit_stream_read_def deserialize_uint slot_of_def offs_def shift_right_def)
  with bit show ?thesis by blast
qed

end
