(* ===== verification/Char_Objects.thy ===== *)
theory Char_Objects
  imports Compact_Frames
begin

text \<open>
  Strings and arrays of \<open>char\<close> as objects of the serializers. A \<open>std::string\<close> and a
  \<open>std::array<char, N>\<close> are the lists of their bytes; \<open>chars_val\<close> and \<open>array_val\<close> are the objects the
  serializers see.
\<close>

section \<open>Going over a container\<close>

fun transform_all :: "('a \<Rightarrow> 'b result) \<Rightarrow> 'a list \<Rightarrow> 'b list result" where
  "transform_all f [] = Inr []"
| "transform_all f (x # xs) = bindR (f x) (\<lambda>y. bindR (transform_all f xs) (\<lambda>ys. Inr (y # ys)))"

lemma transform_all_total:
  "\<forall>x \<in> set xs. \<exists>y. f x = Inr y \<Longrightarrow> \<exists>ys. transform_all f xs = Inr ys \<and> length ys = length xs \<and>
     (\<forall>i < length xs. f (xs ! i) = Inr (ys ! i))"
proof (induction xs)
  case (Cons x xs)
  then obtain y ys where "f x = Inr y" "transform_all f xs = Inr ys" "length ys = length xs"
      "\<forall>i < length xs. f (xs ! i) = Inr (ys ! i)" by auto
  then show ?case by (auto simp: less_Suc_eq_0_disj)
qed simp

lemma transform_all_map: "(\<And>x. x \<in> set xs \<Longrightarrow> f (g x) = Inr x) \<Longrightarrow> transform_all f (map g xs) = Inr xs"
  by (induction xs) auto

section \<open>Strings\<close>

definition string_ty :: ty where
  "string_ty = TContainer Basic_String (TArith (SInt 1))"

definition char_val :: "byte \<Rightarrow> val" where
  "char_val c = VInt (sint c)"

definition val_char :: "val \<Rightarrow> byte result" where
  "val_char v = (case v of VInt x \<Rightarrow> Inr (word_of_int x) | _ \<Rightarrow> Inl Type_mismatch)"

definition val_seq :: "(val \<Rightarrow> 'a result) \<Rightarrow> val \<Rightarrow> 'a list result" where
  "val_seq f v = (case v of VSeq vs \<Rightarrow> transform_all f vs | _ \<Rightarrow> Inl Type_mismatch)"

definition chars_val :: "bytes \<Rightarrow> val" where
  "chars_val s = VSeq (map char_val s)"

definition val_chars :: "val \<Rightarrow> bytes result" where
  "val_chars v = val_seq val_char v"

lemma val_chars_chars [simp]: "val_chars (chars_val s) = Inr s"
  by (simp add: val_chars_def chars_val_def val_seq_def transform_all_map val_char_def char_val_def)

lemma char_val_typed: "has_type (TArith (SInt 1)) (char_val c)"
proof -
  have "- (2 ^ (LENGTH(8) - 1)) \<le> sint c \<and> sint c < 2 ^ (LENGTH(8) - 1)"
    using sint_ge [of c] sint_lt [of c] by simp
  then show ?thesis by (simp add: char_val_def)
qed

lemma linear_has_type:
  "is_linear k \<Longrightarrow> has_type (TContainer k t) (VSeq vs) \<longleftrightarrow>
     length vs * elem_width t \<le> max_bytes \<and> length vs \<le> max_bytes \<and> (\<forall>w \<in> set vs. has_type t w)"
  by (simp add: content_ok_def)

lemma string_object: "length s \<le> max_bytes \<Longrightarrow> plain_object string_ty (chars_val s)"
  using char_val_typed
  by (auto simp: plain_object_def string_ty_def chars_val_def linear_has_type is_linear_def elem_width_def
      simp del: has_type.simps)

section \<open>Arrays\<close>

definition array_ty :: "nat \<Rightarrow> ty" where
  "array_ty n = TTuple (replicate n (TArith (SInt 1)))"

definition array_val :: "bytes \<Rightarrow> val" where
  "array_val s = VTuple (map char_val s)"

definition val_array :: "val \<Rightarrow> bytes result" where
  "val_array v = (case v of VTuple vs \<Rightarrow> transform_all val_char vs | _ \<Rightarrow> Inl Type_mismatch)"

lemma val_array_array [simp]: "val_array (array_val s) = Inr s"
  by (simp add: val_array_def array_val_def transform_all_map val_char_def char_val_def)

lemma array_typed: "has_type (array_ty (length s)) (array_val s)"
  unfolding array_ty_def array_val_def
  by (induction s) (use char_val_typed in \<open>simp_all del: has_type.simps(1)\<close>)

lemma array_dgstd [simp]: "dgstd_type (array_ty n)"
  by (simp add: array_ty_def list_all_iff)

end
