(* ===== verification/Huffman_Tree.thy ===== *)
theory Huffman_Tree
  imports Huffman_Bits Short_Heap Char_Objects
begin

text \<open>
  The trees of \<open>serializer/huffman_encoder.h\<close> (namespaces \<open>model\<close> and \<open>make\<close>): counting the bytes of a
  message, building the Huffman tree from the counts with the heap algorithms of the standard library,
  adding the leaf that ends a message (the delimiter), and the dictionaries made from the tree. The
  alphabet is that of the source, one byte. A \<open>unique_ptr\<close> to a node is a node or null.
\<close>

section \<open>Constants and nodes\<close>

definition ALPHABET_SIZE :: nat where
  [simp]: "ALPHABET_SIZE = 1"

definition ALPHABET_BIT_SIZE :: nat where
  [simp]: "ALPHABET_BIT_SIZE = ALPHABET_SIZE * CHAR_BIT"

definition DICT_SIZE :: nat where
  [simp]: "DICT_SIZE = 256"

definition L :: bool where
  [simp]: "L = False"

definition R :: bool where
  [simp]: "R = True"

type_synonym word_type = byte

datatype Node = Null | Node Node Node word_type

datatype DelimNode = DNull | DNode DelimNode DelimNode word_type nat

datatype CounterNode = CNull | CNode CounterNode CounterNode nat word_type

primrec node_count :: "CounterNode \<Rightarrow> nat" where
  "node_count CNull = 0"
| "node_count (CNode l r n c) = n"

text \<open>A \<open>num_rep_type\<close> read from and stored to the bytes of a word.\<close>

definition read_num_rep :: "endian \<Rightarrow> nat parser" where
  "read_num_rep nt ibuf =
     bindR (deserialize_into nt (TArith (UInt 1)) ibuf) (\<lambda>(num_rep, ibuf'). Inr (as_nat num_rep, ibuf'))"

definition store_num_rep :: "endian \<Rightarrow> nat \<Rightarrow> word_type result" where
  "store_num_rep nt num_rep =
     bindR (serialize_into nt (TArith (UInt 1)) (VInt (int num_rep))) (\<lambda>word. Inr (hd word))"

lemma read_num_rep_Cons [simp]: "read_num_rep nt (b # bs) = Inr (unat b, bs)"
  by (simp add: read_num_rep_def deserialize_uint)

lemma store_num_rep_eq [simp]: "store_num_rep nt n = Inr (of_nat n)"
  by (simp add: store_num_rep_def serialize_uint)

section \<open>Counting and building\<close>

primrec count_loop :: "endian \<Rightarrow> nat \<Rightarrow> bytes \<Rightarrow> nat list \<Rightarrow> nat list result" where
  "count_loop nt 0 ibuf counter = Inr counter"
| "count_loop nt (Suc i) ibuf counter =
     bindR (read_num_rep nt ibuf) (\<lambda>(num_rep, _).
       count_loop nt i (drop ALPHABET_SIZE ibuf) (counter[num_rep := counter ! num_rep + 1]))"

definition count_words :: "endian \<Rightarrow> bytes \<Rightarrow> nat list result" where
  "count_words nt buf = count_loop nt (length buf div ALPHABET_SIZE) buf (replicate DICT_SIZE 0)"

definition clamp_counter :: "nat list \<Rightarrow> nat list result" where
  "clamp_counter counter =
     (if length counter \<noteq> DICT_SIZE then Inl Abort
      else if \<exists>e \<in> set counter. e \<noteq> 0 then Inr counter
      else Inr (counter[0 := 1]))"

fun leaf_nodes :: "endian \<Rightarrow> nat list \<Rightarrow> nat list \<Rightarrow> CounterNode list result" where
  "leaf_nodes nt counter [] = Inr []"
| "leaf_nodes nt counter (i # is) =
     (if counter ! i = 0 then leaf_nodes nt counter is
      else bindR (store_num_rep nt i) (\<lambda>word.
           bindR (leaf_nodes nt counter is) (\<lambda>heap.
             Inr (CNode CNull CNull (counter ! i) word # heap))))"

text \<open>
  \<open>std::make_heap\<close>, \<open>std::pop_heap\<close> and \<open>std::push_heap\<close>: the standard leaves open where elements that
  compare equal end up, so the three functions are a parameter of the construction.
\<close>

record heap_algorithms =
  std_make_heap :: "(CounterNode \<Rightarrow> CounterNode \<Rightarrow> bool) \<Rightarrow> CounterNode list \<Rightarrow> CounterNode list"
  std_pop_heap :: "(CounterNode \<Rightarrow> CounterNode \<Rightarrow> bool) \<Rightarrow> CounterNode list \<Rightarrow> CounterNode list"
  std_push_heap :: "(CounterNode \<Rightarrow> CounterNode \<Rightarrow> bool) \<Rightarrow> CounterNode list \<Rightarrow> CounterNode list"

definition cmp :: "CounterNode \<Rightarrow> CounterNode \<Rightarrow> bool" where
  "cmp lhs rhs \<longleftrightarrow> node_count lhs > node_count rhs"

text \<open>
  One round of the loop: two \<open>pop_heap\<close>, the second on the range without the last element, two
  \<open>pop_back\<close>, \<open>push_back\<close> of the new node and \<open>push_heap\<close>.
\<close>

definition merge_smallest :: "heap_algorithms \<Rightarrow> CounterNode list \<Rightarrow> CounterNode list" where
  "merge_smallest H heap =
     (let heap1 = std_pop_heap H cmp heap;
          heap2 = std_pop_heap H cmp (butlast heap1) @ [last heap1];
          first = last heap2;
          second = last (butlast heap2);
          cnode = CNode first second (node_count first + node_count second) 0
      in std_push_heap H cmp (butlast (butlast heap2) @ [cnode]))"

text \<open>\<open>None\<close>: the loop does not end.\<close>

partial_function (option) build_loop ::
    "heap_algorithms \<Rightarrow> CounterNode list \<Rightarrow> CounterNode result option" where
  "build_loop H heap =
     (if length heap = 1 then Some (Inr (last heap))
      else if heap = [] then Some (Inl Out_of_bounds)
      else build_loop H (merge_smallest H heap))"

definition build_tree :: "endian \<Rightarrow> heap_algorithms \<Rightarrow> nat list \<Rightarrow> CounterNode result option" where
  "build_tree nt H counter =
     (if length counter \<noteq> DICT_SIZE then Some (Inl Abort)
      else (case leaf_nodes nt counter [0..<DICT_SIZE] of
          Inl e \<Rightarrow> Some (Inl e)
        | Inr heap \<Rightarrow> build_loop H (std_make_heap H cmp heap)))"

primrec to_model :: "CounterNode \<Rightarrow> Node" where
  "to_model CNull = Null"
| "to_model (CNode l r n c) = Node (to_model l) (to_model r) c"

section \<open>The delimiter\<close>

primrec to_delim_model :: "Node \<Rightarrow> DelimNode" where
  "to_delim_model Null = DNull"
| "to_delim_model (Node l r c) = DNode (to_delim_model l) (to_delim_model r) c 0"

text \<open>
  \<open>find_max_path_to_leaf\<close> returns a pointer into the tree, here the path to the node. Its test for a
  leaf looks at \<open>r\<close> twice.
\<close>

primrec find_max_path_to_leaf :: "DelimNode \<Rightarrow> nat \<Rightarrow> (bool list \<times> nat) result" where
  "find_max_path_to_leaf DNull depth = Inl Null_pointer"
| "find_max_path_to_leaf (DNode l r c s) depth =
     (if r = DNull \<and> r = DNull then Inr ([], depth)
      else
        bindR (find_max_path_to_leaf l (depth + 1)) (\<lambda>(l_leaf, l_depth).
        bindR (find_max_path_to_leaf r (depth + 1)) (\<lambda>(r_leaf, r_depth).
          if l_depth > r_depth then Inr (L # l_leaf, l_depth) else Inr (R # r_leaf, r_depth))))"

text \<open>The two assignments through that pointer.\<close>

fun split_leaf :: "DelimNode \<Rightarrow> bool list \<Rightarrow> nat \<Rightarrow> DelimNode" where
  "split_leaf DNull p stat = DNull"
| "split_leaf (DNode l r c s) [] stat = DNode (DNode DNull DNull c s) (DNode DNull DNull 0 stat) c s"
| "split_leaf (DNode l r c s) (b # p) stat =
     (if b = L then DNode (split_leaf l p stat) r c s else DNode l (split_leaf r p stat) c s)"

primrec delim_loop :: "nat \<Rightarrow> nat \<Rightarrow> DelimNode \<Rightarrow> DelimNode result" where
  "delim_loop 0 i delim_model = Inr delim_model"
| "delim_loop (Suc n) i delim_model =
     bindR (find_max_path_to_leaf delim_model 0) (\<lambda>(leaf, v).
       delim_loop n (i + 1) (split_leaf delim_model leaf (i + 1)))"

definition to_delim_tree :: "Node \<Rightarrow> DelimNode result" where
  "to_delim_tree huffman_tree = delim_loop ALPHABET_SIZE 0 (to_delim_model huffman_tree)"

section \<open>Dictionaries\<close>

text \<open>
  The recursion pushes one bit per edge on \<open>trace\<close>, and each call pops the one of its own edge. The
  outermost call has none: its \<open>pop_back\<close> is on an empty vector, which has no meaning in C++; as the
  vector is not used any more, it stays empty here.
\<close>

fun encode_dictionarize ::
    "DelimNode \<Rightarrow> bool list list \<Rightarrow> bool list \<Rightarrow> (bool list list \<times> bool list) result" where
  "encode_dictionarize DNull op trace = Inl Null_pointer"
| "encode_dictionarize (DNode l r c s) op trace =
     (if r = DNull \<and> l = DNull
      then Inr (if s = 0 then op[unat c := trace] else op, butlast trace)
      else
        bindR (encode_dictionarize l op (trace @ [L])) (\<lambda>(op1, trace1).
        bindR (encode_dictionarize r op1 (trace1 @ [R])) (\<lambda>(op2, trace2).
          Inr (op2, butlast trace2))))"

definition encoding_dictionary :: "DelimNode \<Rightarrow> bool list list result" where
  "encoding_dictionary root =
     bindR (encode_dictionarize root (replicate DICT_SIZE []) []) (\<lambda>(rs, trace). Inr rs)"

fun find_delim :: "DelimNode \<Rightarrow> bool list list \<Rightarrow> bool list \<Rightarrow> (bool list list \<times> bool list) result" where
  "find_delim DNull rs trace = Inl Null_pointer"
| "find_delim (DNode l r c s) rs trace =
     (if l = DNull \<and> r = DNull
      then if s \<noteq> 0
           then if s - 1 < length rs then Inr (rs[s - 1 := trace], butlast trace) else Inl Out_of_bounds
           else Inr (rs, butlast trace)
      else
        bindR (find_delim l rs (trace @ [L])) (\<lambda>(rs1, trace1).
        bindR (find_delim r rs1 (trace1 @ [R])) (\<lambda>(rs2, trace2).
          Inr (rs2, butlast trace2))))"

definition delimiters :: "DelimNode \<Rightarrow> bool list list result" where
  "delimiters root = bindR (find_delim root (replicate ALPHABET_SIZE []) []) (\<lambda>(rs, trace). Inr rs)"

text \<open>Following an edge, and the test for a leaf at its end.\<close>

primrec is_leaf :: "DelimNode \<Rightarrow> bool" where
  "is_leaf DNull \<longleftrightarrow> False"
| "is_leaf (DNode l r c s) \<longleftrightarrow> l = DNull \<and> r = DNull"

primrec delim_stat :: "DelimNode \<Rightarrow> nat" where
  "delim_stat DNull = 0"
| "delim_stat (DNode l r c s) = s"

primrec leaf_word :: "DelimNode \<Rightarrow> word_type" where
  "leaf_word DNull = 0"
| "leaf_word (DNode l r c s) = c"

primrec follow :: "DelimNode \<Rightarrow> bool \<Rightarrow> DelimNode result" where
  "follow DNull tape = Inl Null_pointer"
| "follow (DNode l r c s) tape =
     (let cursor = (if tape = L then l else r) in if cursor = DNull then Inl Null_pointer else Inr cursor)"

fun walk_loop :: "DelimNode \<Rightarrow> DelimNode \<Rightarrow> nat \<Rightarrow> bool list \<Rightarrow> (bytes \<times> nat) result" where
  "walk_loop root cursor init_sz [] = Inr ([], init_sz)"
| "walk_loop root cursor init_sz (cur # trace) =
     (case follow cursor cur of
        Inl e \<Rightarrow> Inl e
      | Inr cursor' \<Rightarrow>
          if is_leaf cursor' then
            if delim_stat cursor' \<noteq> 0 then Inr ([], init_sz)
            else
              (case walk_loop root root (length trace) trace of
                 Inl e \<Rightarrow> Inl e
               | Inr (byte_rep, trailing) \<Rightarrow>
                   if trailing = length trace then Inr ([leaf_word cursor'], length trace)
                   else Inr (leaf_word cursor' # byte_rep, trailing))
          else walk_loop root cursor' init_sz trace)"

definition walk :: "DelimNode \<Rightarrow> bool list \<Rightarrow> (bytes \<times> nat) result" where
  "walk root trace = walk_loop root root (length trace) trace"

definition to_bit_deque :: "nat \<Rightarrow> bool list" where
  "to_bit_deque v = map (bit v) [0..<CHAR_BIT]"

definition decode_dictionarize :: "DelimNode \<Rightarrow> (bytes \<times> nat) list result" where
  "decode_dictionarize root = transform_all (\<lambda>i. walk root (to_bit_deque i)) [0..<DICT_SIZE]"

section \<open>Full trees and their leaves\<close>

text \<open>Every node has two children or none; the leaves with the paths that lead to them.\<close>

primrec full :: "DelimNode \<Rightarrow> bool" where
  "full DNull \<longleftrightarrow> False"
| "full (DNode l r c s) \<longleftrightarrow> l = DNull \<and> r = DNull \<or> full l \<and> full r"

primrec paths :: "DelimNode \<Rightarrow> (bool list \<times> word_type \<times> nat) list" where
  "paths DNull = []"
| "paths (DNode l r c s) =
     (if l = DNull \<and> r = DNull then [([], c, s)]
      else map (apfst (Cons False)) (paths l) @ map (apfst (Cons True)) (paths r))"

lemma full_not_null [simp]: "\<not> full DNull" "full t \<Longrightarrow> t \<noteq> DNull"
  by auto

lemma full_cases [consumes 1, case_names leaf inner]:
  assumes "full t"
  obtains c s where "t = DNode DNull DNull c s"
    | l r c s where "t = DNode l r c s" and "full l" and "full r"
  using assms by (cases t) auto

lemma full_induct [consumes 1, case_names leaf inner]:
  assumes "full t" and "\<And>c s. P (DNode DNull DNull c s)"
    and "\<And>l r c s. full l \<Longrightarrow> full r \<Longrightarrow> P l \<Longrightarrow> P r \<Longrightarrow> P (DNode l r c s)"
  shows "P t"
  using assms(1) by (induction t) (auto intro: assms(2,3))

lemma follow_full:
  assumes "full t" and "\<not> is_leaf t"
  obtains t' where "follow t b = Inr t'" and "full t'"
  using assms by (cases rule: full_cases) (auto simp: Let_def)

lemma paths_nonempty: "full t \<Longrightarrow> \<exists>p c s. (p, c, s) \<in> set (paths t)"
  by (induction rule: full_induct) (auto simp: image_iff, metis apfst_conv)

lemma leaf_path: "is_leaf t \<Longrightarrow> paths t = [([], leaf_word t, delim_stat t)]"
  by (cases t) auto

lemma inner_path: "full t \<Longrightarrow> \<not> is_leaf t \<Longrightarrow> (p, x) \<in> set (paths t) \<Longrightarrow> p \<noteq> []"
  by (cases rule: full_cases) (auto simp: apfst_def map_prod_def split: prod.splits)

text \<open>Following the first bit of the path to a leaf.\<close>

lemma follow_path:
  assumes "full t" and "(b # p, x) \<in> set (paths t)"
  obtains t' where "follow t b = Inr t'" and "full t'" and "(p, x) \<in> set (paths t')"
  using assms by (cases rule: full_cases) (auto simp: Let_def split: if_splits)

section \<open>The dictionaries\<close>

text \<open>What a leaf with its path does to the two dictionaries.\<close>

definition put_code :: "bool list \<Rightarrow> bool list list \<Rightarrow> bool list \<times> word_type \<times> nat \<Rightarrow> bool list list" where
  "put_code trace op x = (if snd (snd x) = 0 then op[unat (fst (snd x)) := trace @ fst x] else op)"

definition put_delim :: "bool list \<Rightarrow> bool list list \<Rightarrow> bool list \<times> word_type \<times> nat \<Rightarrow> bool list list" where
  "put_delim trace rs x = (if snd (snd x) \<noteq> 0 then rs[snd (snd x) - 1 := trace @ fst x] else rs)"

lemma length_put [simp]:
  "length (foldl (put_code trace) op ps) = length op"
  "length (foldl (put_delim trace) op ps) = length op"
  by (induction ps arbitrary: op) (simp_all add: put_code_def put_delim_def)

lemma put_deeper [simp]:
  "foldl (put_code trace) op (map (apfst (Cons b)) ps) = foldl (put_code (trace @ [b])) op ps"
  "foldl (put_delim trace) op (map (apfst (Cons b)) ps) = foldl (put_delim (trace @ [b])) op ps"
  by (induction ps arbitrary: op) (simp_all add: put_code_def put_delim_def)

lemma encode_dictionarize_eq:
  "full t \<Longrightarrow>
   encode_dictionarize t op trace = Inr (foldl (put_code trace) op (paths t), butlast trace)"
  by (induction arbitrary: op trace rule: full_induct) (auto simp: put_code_def)

lemma find_delim_eq:
  "full t \<Longrightarrow> \<forall>x \<in> set (paths t). snd (snd x) - 1 < length rs \<Longrightarrow>
   find_delim t rs trace = Inr (foldl (put_delim trace) rs (paths t), butlast trace)"
proof (induction arbitrary: rs trace rule: full_induct)
  case (inner l r c s)
  have "\<forall>x \<in> set (paths l). snd (snd x) - 1 < length rs" "\<forall>x \<in> set (paths r). snd (snd x) - 1 < length rs"
    using inner.hyps inner.prems by (simp_all add: ball_Un)
  with inner.IH inner.hyps show ?case by simp
qed (auto simp: put_delim_def)

text \<open>Updates by key leave at every index an updating entry, if there is one.\<close>

lemma foldl_update_hit:
  fixes key :: "'b \<Rightarrow> nat"
  assumes "\<And>op x. f op x = (if sel x then op[key x := val x] else op)"
    and "x \<in> set xs" and "sel x" and "key x < length op"
  shows "\<exists>y \<in> set xs. sel y \<and> key y = key x \<and> foldl f op xs ! key x = val y"
  using assms(2-)
proof (induction xs rule: rev_induct)
  case (snoc a xs)
  have len: "length (foldl f op xs) = length op" for xs
    by (induction xs rule: rev_induct) (auto simp: assms(1) [of _ "_ :: 'b"])
  have step: "foldl f op (xs @ [a]) = (if sel a then (foldl f op xs)[key a := val a] else foldl f op xs)"
    by (simp add: assms(1) [of _ a])
  show ?case
  proof (cases "sel a \<and> key a = key x")
    case True
    then have "foldl f op (xs @ [a]) ! key x = val a" using step snoc.prems(3) len [of xs] by simp
    with True show ?thesis by (intro bexI [of _ a]) simp_all
  next
    case False
    then have "x \<in> set xs" using snoc.prems by auto
    then obtain y where "y \<in> set xs" "sel y" "key y = key x" "foldl f op xs ! key x = val y"
      using snoc.IH snoc.prems by blast
    moreover have "foldl f op (xs @ [a]) ! key x = foldl f op xs ! key x"
      using step False by (auto simp: nth_list_update)
    ultimately show ?thesis by auto
  qed
qed simp

lemma foldl_put_code_range:
  "q \<in> set (foldl (put_code trace) op ps) \<Longrightarrow>
   q \<in> set op \<or> (\<exists>p c. q = trace @ p \<and> (p, c, 0) \<in> set ps)"
proof (induction ps arbitrary: op)
  case (Cons x ps)
  have "set (put_code trace op x) \<subseteq> insert (trace @ fst x) (set op)"
    and "snd (snd x) \<noteq> 0 \<Longrightarrow> put_code trace op x = op"
    by (auto simp: put_code_def dest: set_update_subset_insert [THEN subsetD])
  with Cons show ?case by (cases x) fastforce
qed simp

lemma put_code_hit:
  assumes "(p, c, 0) \<in> set ps" and "length op = 256"
  shows "(foldl (put_code []) op ps ! unat c, c, 0) \<in> set ps"
proof -
  have "unat c < 2 ^ LENGTH(8)" by (rule unsigned_less)
  moreover have "put_code [] op x = (if snd (snd x) = 0 then op[unat (fst (snd x)) := fst x] else op)" for op x
    by (simp add: put_code_def)
  ultimately have "\<exists>y \<in> set ps. snd (snd y) = 0 \<and> unat (fst (snd y)) = unat c \<and>
      foldl (put_code []) op ps ! unat c = fst y"
    using foldl_update_hit [where f = "put_code []" and sel = "\<lambda>x. snd (snd x) = 0"
        and key = "\<lambda>x. unat (fst (snd x))" and val = fst and x = "(p, c, 0)" and op = op] assms
    by (simp del: One_nat_def)
  then obtain q c' s where y: "(q, c', s) \<in> set ps" "s = 0" "unat c' = unat c"
      "foldl (put_code []) op ps ! unat c = q"
    by auto
  then show ?thesis by (simp add: word_unat_eq_iff [symmetric])
qed

lemma put_delim_hit:
  assumes "(p, c, 1) \<in> set ps" and "\<forall>x \<in> set ps. snd (snd x) \<le> 1"
  shows "\<exists>q c. foldl (put_delim []) [[]] ps = [q] \<and> (q, c, 1) \<in> set ps"
proof -
  let ?rs = "foldl (put_delim []) [[]] ps"
  have "\<exists>y \<in> set ps. snd (snd y) \<noteq> 0 \<and> snd (snd y) - 1 = snd (snd (p, c, 1::nat)) - 1 \<and>
      ?rs ! (snd (snd (p, c, 1::nat)) - 1) = fst y"
    by (rule foldl_update_hit [where sel = "\<lambda>x. snd (snd x) \<noteq> 0"])
      (use assms(1) in \<open>simp_all add: put_delim_def\<close>)
  then obtain y where y: "y \<in> set ps" "snd (snd y) \<noteq> 0" "?rs ! 0 = fst y" by auto
  then have "snd (snd y) = 1" using assms(2) by fastforce
  moreover have "length ?rs = 1" by simp
  then have "?rs = [?rs ! 0]" by (cases ?rs) auto
  ultimately show ?thesis using y by (metis prod.collapse)
qed

lemma encoding_dictionary_ok:
  assumes "full t"
  shows "\<exists>dict. encoding_dictionary t = Inr dict \<and> length dict = DICT_SIZE \<and>
    (\<forall>p c. (p, c, 0) \<in> set (paths t) \<longrightarrow> (dict ! unat c, c, 0) \<in> set (paths t)) \<and>
    (\<forall>q \<in> set dict. q \<noteq> [] \<longrightarrow> (\<exists>c. (q, c, 0) \<in> set (paths t)))"
proof -
  let ?dict = "foldl (put_code []) (replicate 256 []) (paths t)"
  have "(?dict ! unat c, c, 0) \<in> set (paths t)" if "(p, c, 0) \<in> set (paths t)" for p c
    by (rule put_code_hit [OF that]) simp
  moreover have "\<exists>c. (q, c, 0) \<in> set (paths t)" if "q \<in> set ?dict" "q \<noteq> []" for q
    using foldl_put_code_range [OF that(1)] that(2) by auto
  ultimately show ?thesis
    using assms by (simp add: encoding_dictionary_def encode_dictionarize_eq)
qed

lemma delimiters_ok:
  assumes "full t" and "\<forall>x \<in> set (paths t). snd (snd x) \<le> 1" and "(p, c, 1) \<in> set (paths t)"
  shows "\<exists>q c. delimiters t = Inr [q] \<and> (q, c, 1) \<in> set (paths t)"
proof -
  have "\<forall>x \<in> set (paths t). snd (snd x) - 1 < length [[]]" using assms(2) by fastforce
  then have "delimiters t = Inr (foldl (put_delim []) [[]] (paths t))"
    using find_delim_eq [OF assms(1), of "[[]]" "[]"] by (simp add: delimiters_def)
  then show ?thesis using put_delim_hit [OF assms(3,2)] by simp
qed

section \<open>The tree with the delimiter\<close>

lemma find_max_ok:
  "full t \<Longrightarrow> \<exists>x \<in> set (paths t). find_max_path_to_leaf t d = Inr (fst x, d + length (fst x)) \<and>
     (\<forall>y \<in> set (paths t). length (fst y) \<le> length (fst x))"
proof (induction arbitrary: d rule: full_induct)
  case (inner l r c s)
  obtain x where l: "x \<in> set (paths l)" "\<forall>y \<in> set (paths l). length (fst y) \<le> length (fst x)"
      "find_max_path_to_leaf l (d + 1) = Inr (fst x, d + 1 + length (fst x))"
    using inner.IH(1) by blast
  obtain y where r: "y \<in> set (paths r)" "\<forall>z \<in> set (paths r). length (fst z) \<le> length (fst y)"
      "find_max_path_to_leaf r (d + 1) = Inr (fst y, d + 1 + length (fst y))"
    using inner.IH(2) by blast
  let ?x = "if length (fst x) > length (fst y) then apfst (Cons False) x else apfst (Cons True) y"
  have "?x \<in> set (paths (DNode l r c s))" using l(1) r(1) inner.hyps by simp
  moreover have "\<forall>z \<in> set (paths (DNode l r c s)). length (fst z) \<le> length (fst ?x)"
    using l(2) r(2) inner.hyps by (auto simp: not_less intro: order_trans dest: bspec)
  moreover have "find_max_path_to_leaf (DNode l r c s) d = Inr (fst ?x, d + length (fst ?x))"
    using l(3) r(3) inner.hyps by simp
  ultimately show ?case by blast
qed auto

lemma split_leaf_ok:
  "full t \<Longrightarrow> (p, c, s) \<in> set (paths t) \<Longrightarrow>
     full (split_leaf t p i) \<and> \<not> is_leaf (split_leaf t p i) \<and>
     set (paths (split_leaf t p i)) =
       set (paths t) - {(p, c, s)} \<union> {(p @ [False], c, s), (p @ [True], 0, i)}"
proof (induction arbitrary: p rule: full_induct)
  case (inner l r c' s')
  show ?case
  proof (cases p)
    case Nil
    then show ?thesis using inner.prems inner.hyps by auto
  next
    case (Cons b q)
    have "split_leaf l q i \<noteq> DNull" if "(q, c, s) \<in> set (paths l)"
      using inner.IH(1) [OF that] by auto
    moreover have "split_leaf r q i \<noteq> DNull" if "(q, c, s) \<in> set (paths r)"
      using inner.IH(2) [OF that] by auto
    ultimately show ?thesis
      using Cons inner by (cases b) (auto simp: image_iff)
  qed
qed auto

text \<open>Trees without the delimiter: full, with the words of their leaves, and their height.\<close>

primrec full_node :: "Node \<Rightarrow> bool" where
  "full_node Null \<longleftrightarrow> False"
| "full_node (Node l r c) \<longleftrightarrow> l = Null \<and> r = Null \<or> full_node l \<and> full_node r"

primrec words :: "Node \<Rightarrow> word_type set" where
  "words Null = {}"
| "words (Node l r c) = (if l = Null \<and> r = Null then {c} else words l \<union> words r)"

primrec height :: "Node \<Rightarrow> nat" where
  "height Null = 0"
| "height (Node l r c) = (if l = Null \<and> r = Null then 0 else Suc (max (height l) (height r)))"

lemma to_delim_model_null [simp]: "to_delim_model t = DNull \<longleftrightarrow> t = Null"
  by (cases t) auto

lemma to_delim_model_ok:
  "full_node t \<Longrightarrow> full (to_delim_model t) \<and> (fst \<circ> snd) ` set (paths (to_delim_model t)) = words t \<and>
     (\<forall>x \<in> set (paths (to_delim_model t)). snd (snd x) = 0 \<and> length (fst x) \<le> height t)"
proof (induction t)
  case (Node l r c)
  show ?case
  proof (cases "l = Null \<and> r = Null")
    case False
    then have "full_node l" "full_node r" using Node.prems by auto
    note l = Node.IH(1) [OF this(1)] and r = Node.IH(2) [OF this(2)]
    have paths: "set (paths (to_delim_model (Node l r c))) =
        apfst (Cons False) ` set (paths (to_delim_model l)) \<union> apfst (Cons True) ` set (paths (to_delim_model r))"
      using False by simp
    have words: "(fst \<circ> snd) ` apfst (Cons b) ` A = (fst \<circ> snd) ` A"
      for b and A :: "(bool list \<times> word_type \<times> nat) set"
      by (simp add: image_image)
    have "\<forall>x \<in> set (paths (to_delim_model (Node l r c))). snd (snd x) = 0 \<and> length (fst x) \<le> height (Node l r c)"
      unfolding paths using l r False by (simp add: ball_Un le_max_iff_disj)
    moreover have "(fst \<circ> snd) ` set (paths (to_delim_model (Node l r c))) = words (Node l r c)"
      unfolding paths image_Un words using l r False by simp
    moreover have "full (to_delim_model (Node l r c))" using l r by simp
    ultimately show ?thesis by blast
  qed auto
qed simp

lemma to_delim_tree_ok:
  assumes "full_node t"
  shows "\<exists>d. to_delim_tree t = Inr d \<and> full d \<and> \<not> is_leaf d \<and>
    (\<forall>x \<in> set (paths d). snd (snd x) \<le> 1 \<and> length (fst x) \<le> height t + 1) \<and>
    (\<forall>c \<in> words t. \<exists>p. (p, c, 0) \<in> set (paths d)) \<and> (\<exists>p. (p, 0, 1) \<in> set (paths d))"
proof -
  let ?m = "to_delim_model t"
  note m = to_delim_model_ok [OF assms]
  obtain x where x: "x \<in> set (paths ?m)" "find_max_path_to_leaf ?m 0 = Inr (fst x, length (fst x))"
    using find_max_ok [of ?m 0] m by auto
  obtain p c where pc: "x = (p, c, 0)" using m x(1) by (cases x) auto
  let ?d = "split_leaf ?m p 1"
  have d: "full ?d" "\<not> is_leaf ?d"
      "set (paths ?d) = set (paths ?m) - {(p, c, 0)} \<union> {(p @ [False], c, 0), (p @ [True], 0, 1)}"
    using split_leaf_ok [of ?m p c 0 1] m x(1) pc by auto
  have "to_delim_tree t = Inr ?d" using x(2) pc by (simp add: to_delim_tree_def)
  moreover have "\<forall>y \<in> set (paths ?d). snd (snd y) \<le> 1 \<and> length (fst y) \<le> height t + 1"
    using m bspec [OF m [THEN conjunct2, THEN conjunct2] x(1)] pc unfolding d(3)
    by (auto intro: le_SucI)
  moreover have "\<exists>q. (q, c', 0) \<in> set (paths ?d)" if c': "c' \<in> words t" for c'
  proof -
    have "c' \<in> (fst \<circ> snd) ` set (paths ?m)" using c' m by simp
    then obtain q s where q: "(q, c', s) \<in> set (paths ?m)" by auto
    moreover have "s = 0" using bspec [OF m [THEN conjunct2, THEN conjunct2] q] by simp
    ultimately have q: "(q, c', 0) \<in> set (paths ?m)" by simp
    then show ?thesis unfolding d(3) by (cases "(q, c') = (p, c)") auto
  qed
  moreover have "(p @ [True], 0, 1) \<in> set (paths ?d)" unfolding d(3) by simp
  ultimately show ?thesis using d by blast
qed

lemma walk_loop_total:
  assumes "full root" and "\<not> is_leaf root"
  shows "full cursor \<Longrightarrow> \<not> is_leaf cursor \<Longrightarrow> \<exists>r. walk_loop root cursor n trace = Inr r"
proof (induction trace arbitrary: cursor n)
  case (Cons b trace)
  obtain t where t: "follow cursor b = Inr t" "full t" by (rule follow_full [OF Cons.prems])
  show ?case
  proof (cases "is_leaf t")
    case True
    then show ?thesis using t Cons.IH [OF assms, of "length trace"] by auto
  next
    case False
    then show ?thesis using t Cons.IH [OF t(2) False] by simp
  qed
qed simp

lemma decode_dictionarize_ok:
  assumes "full t" and "\<not> is_leaf t"
  shows "\<exists>dict. decode_dictionarize t = Inr dict \<and> length dict = DICT_SIZE \<and>
    (\<forall>i < DICT_SIZE. walk t (to_bit_deque i) = Inr (dict ! i))"
proof -
  have "\<forall>i \<in> set [0..<DICT_SIZE]. \<exists>r. walk t (to_bit_deque i) = Inr r"
    using walk_loop_total [OF assms assms] by (simp add: walk_def)
  from transform_all_total [OF this] show ?thesis by (auto simp: decode_dictionarize_def)
qed

end
