(* ===== verification/Huffman_Build.thy ===== *)
theory Huffman_Build
  imports Huffman_Tree
begin

text \<open>
  The tree \<open>make::build\<close> makes (\<open>serializer/huffman_encoder.h\<close>), for every standard library: the locale
  \<open>std_heap\<close> states what the standard promises of \<open>make_heap\<close>, \<open>pop_heap\<close> and \<open>push_heap\<close> at the
  comparator of the code; the heap algorithms of \<open>Short_Heap\<close> are an instance. The tree is full, holds
  every byte of the message, and a tree of height \<open>h\<close> needs a message of \<open>fib_bound h\<close> bytes, which
  bounds the length of the codes.
\<close>

section \<open>The interface of the heap algorithms\<close>

locale std_heap =
  fixes H :: heap_algorithms and in_heap_order :: "CounterNode list \<Rightarrow> bool"
  assumes make_heap: "mset (std_make_heap H cmp xs) = mset xs \<and> in_heap_order (std_make_heap H cmp xs)"
    and pop_heap: "in_heap_order xs \<Longrightarrow> xs \<noteq> [] \<Longrightarrow>
      mset (std_pop_heap H cmp xs) = mset xs \<and> in_heap_order (butlast (std_pop_heap H cmp xs)) \<and>
      (\<forall>x \<in> set xs. \<not> cmp (last (std_pop_heap H cmp xs)) x)"
    and push_heap: "in_heap_order xs \<Longrightarrow>
      mset (std_push_heap H cmp (xs @ [x])) = mset (xs @ [x]) \<and> in_heap_order (std_push_heap H cmp (xs @ [x]))"
begin

lemma pop_min:
  assumes "in_heap_order xs" and "xs \<noteq> []"
  shows "\<exists>ys x. std_pop_heap H cmp xs = ys @ [x] \<and> mset xs = add_mset x (mset ys) \<and> in_heap_order ys \<and>
    (\<forall>y \<in> set ys. node_count x \<le> node_count y)"
proof -
  let ?zs = "std_pop_heap H cmp xs"
  have zs: "mset ?zs = mset xs" "in_heap_order (butlast ?zs)" "\<forall>x \<in> set xs. \<not> cmp (last ?zs) x"
    using pop_heap [OF assms] by auto
  then have "?zs \<noteq> []" using assms(2) by (metis mset_zero_iff)
  then obtain ys x where eq: "?zs = ys @ [x]" by (metis rev_exhaust)
  moreover have "mset xs = add_mset x (mset ys)" using zs(1) eq by simp
  moreover from this have "set ys \<subseteq> set xs" by (metis set_mset_mset set_mset_add_mset_insert subset_insertI)
  ultimately show ?thesis using zs by (auto simp: cmp_def not_less)
qed

text \<open>One round of the loop takes the two smallest trees and puts one in their place.\<close>

lemma merge_smallest_ok:
  assumes "in_heap_order heap" and "2 \<le> length heap"
  shows "\<exists>a b rest. mset heap = add_mset a (add_mset b (mset rest)) \<and> node_count a \<le> node_count b \<and>
    (\<forall>t \<in> set rest. node_count b \<le> node_count t) \<and>
    mset (merge_smallest H heap) = add_mset (CNode a b (node_count a + node_count b) 0) (mset rest) \<and>
    in_heap_order (merge_smallest H heap)"
proof -
  have "heap \<noteq> []" using assms(2) by auto
  then obtain ys a where a: "std_pop_heap H cmp heap = ys @ [a]" "mset heap = add_mset a (mset ys)"
      "in_heap_order ys" "\<forall>y \<in> set ys. node_count a \<le> node_count y"
    using pop_min [OF assms(1)] by blast
  have "length heap = Suc (length ys)" using arg_cong [OF a(2), of size] by simp
  then have "ys \<noteq> []" using assms(2) by auto
  then obtain rest b where b: "std_pop_heap H cmp ys = rest @ [b]" "mset ys = add_mset b (mset rest)"
      "in_heap_order rest" "\<forall>y \<in> set rest. node_count b \<le> node_count y"
    using pop_min [OF a(3)] by blast
  have "b \<in> set ys" using b(2) by (metis set_mset_mset union_single_eq_member)
  moreover have "merge_smallest H heap = std_push_heap H cmp (rest @ [CNode a b (node_count a + node_count b) 0])"
    using a(1) b(1) by (simp add: merge_smallest_def Let_def)
  ultimately show ?thesis
    using a b push_heap [OF b(3)] by (intro exI [of _ a] exI [of _ b] exI [of _ rest]) simp
qed

end

text \<open>The binary heap of \<open>algorithm_extension\<close> is one such implementation.\<close>

definition or_unchanged :: "'a list result \<Rightarrow> 'a list \<Rightarrow> 'a list" where
  "or_unchanged r xs = (case r of Inr ys \<Rightarrow> ys | Inl e \<Rightarrow> xs)"

definition short_heap_algorithms :: heap_algorithms where
  "short_heap_algorithms =
     \<lparr>std_make_heap = (\<lambda>less xs. or_unchanged (make_heap (\<lambda>a b. \<not> less a b) 2 xs (length xs)) xs),
      std_pop_heap = (\<lambda>less xs. or_unchanged (pop_heap (\<lambda>a b. \<not> less a b) 2 xs (length xs)) xs),
      std_push_heap = (\<lambda>less xs. or_unchanged (push_heap (\<lambda>a b. \<not> less a b) 2 xs (length xs)) xs)\<rparr>"

definition binary_order :: "CounterNode list \<Rightarrow> bool" where
  "binary_order xs = heap_ordered (\<lambda>a b. \<not> cmp a b) 2 xs (length xs)"

interpretation lighter: better_order "\<lambda>a b. \<not> cmp a b"
  by unfold_locales (auto simp: cmp_def)

lemma rearranged_whole: "rearranged xs ys n \<Longrightarrow> mset ys = mset xs \<and> length ys = length xs"
  by (simp add: rearranged_def)

interpretation short_heap: std_heap short_heap_algorithms binary_order
proof unfold_locales
  fix xs
  show "mset (std_make_heap short_heap_algorithms cmp xs) = mset xs \<and>
      binary_order (std_make_heap short_heap_algorithms cmp xs)"
    using lighter.make_heap_ok [of 2 "length xs" xs]
    by (auto simp: short_heap_algorithms_def or_unchanged_def binary_order_def dest: rearranged_whole)
next
  fix xs assume "binary_order xs" and "xs \<noteq> []"
  then obtain ys where ys: "pop_heap (\<lambda>a b. \<not> cmp a b) 2 xs (length xs) = Inr ys"
      "ys ! (length xs - 1) = xs ! 0" "heap_ordered (\<lambda>a b. \<not> cmp a b) 2 ys (length xs - 1)"
      "rearranged xs ys (length xs)"
    using lighter.pop_heap_ok [of 2 "length xs" xs] by (auto simp: binary_order_def)
  then have len: "length ys = length xs" "ys \<noteq> []"
    using \<open>xs \<noteq> []\<close> by (auto dest: rearranged_whole)
  have "heap_ordered (\<lambda>a b. \<not> cmp a b) 2 (butlast ys) (length xs - 1)"
    using ys(3) len heap_from_prefix [of _ 2 ys "length xs - 1" 0 "length xs - 1" "butlast ys"]
    by (simp add: heap_ordered_def nth_butlast)
  moreover have "\<not> cmp (last ys) x" if "x \<in> set xs" for x
    using that ys(2) len lighter.root_best [of 2 xs "length xs"] \<open>binary_order xs\<close>
    by (auto simp: last_conv_nth binary_order_def in_set_conv_nth)
  ultimately show "mset (std_pop_heap short_heap_algorithms cmp xs) = mset xs \<and>
      binary_order (butlast (std_pop_heap short_heap_algorithms cmp xs)) \<and>
      (\<forall>x \<in> set xs. \<not> cmp (last (std_pop_heap short_heap_algorithms cmp xs)) x)"
    using ys len
    by (auto simp: short_heap_algorithms_def or_unchanged_def binary_order_def dest: rearranged_whole)
next
  fix xs x assume "binary_order xs"
  then have "heap_ordered (\<lambda>a b. \<not> cmp a b) 2 (xs @ [x]) (length xs)"
    using heap_from_prefix [of _ 2 xs "length xs" 0 "length xs" "xs @ [x]"]
    by (simp add: binary_order_def heap_ordered_def nth_append)
  then show "mset (std_push_heap short_heap_algorithms cmp (xs @ [x])) = mset (xs @ [x]) \<and>
      binary_order (std_push_heap short_heap_algorithms cmp (xs @ [x]))"
    using lighter.push_heap_ok [of 2 "Suc (length xs)" "xs @ [x]"]
    by (auto simp: short_heap_algorithms_def or_unchanged_def binary_order_def dest: rearranged_whole)
qed

section \<open>Weights and heights\<close>

primrec largest_child :: "CounterNode \<Rightarrow> nat" where
  "largest_child CNull = 0"
| "largest_child (CNode l r n c) = max (node_count l) (node_count r)"

text \<open>
  A node weighs what its children weigh, and no sibling is lighter than a grandchild: when two trees were
  merged, all others were at least as heavy as the heavier one.
\<close>

primrec tree_ok :: "CounterNode \<Rightarrow> bool" where
  "tree_ok CNull \<longleftrightarrow> False"
| "tree_ok (CNode l r n c) \<longleftrightarrow>
     0 < n \<and> (l = CNull \<and> r = CNull \<or>
       c = 0 \<and> tree_ok l \<and> tree_ok r \<and> n = node_count l + node_count r \<and>
       largest_child l \<le> node_count r \<and> largest_child r \<le> node_count l)"

definition forest_ok :: "CounterNode list \<Rightarrow> bool" where
  "forest_ok F \<longleftrightarrow> (\<forall>t \<in> set F. tree_ok t) \<and> (\<forall>t \<in> set F. \<forall>u \<in> set F. largest_child t \<le> node_count u)"

fun fib_bound :: "nat \<Rightarrow> nat" where
  "fib_bound 0 = 1"
| "fib_bound (Suc 0) = 2"
| "fib_bound (Suc (Suc h)) = fib_bound (Suc h) + fib_bound h"

lemma to_model_null [simp]: "to_model t = Null \<longleftrightarrow> t = CNull"
  by (cases t) auto

lemma tree_ok_full: "tree_ok t \<Longrightarrow> full_node (to_model t)"
  by (induction t) auto

lemma fib_bound_height:
  "tree_ok t \<Longrightarrow> fib_bound (height (to_model t)) \<le> node_count t \<and>
     (\<forall>k. height (to_model t) = Suc k \<longrightarrow> fib_bound k \<le> largest_child t)"
proof (induction t)
  case (CNode l r n c)
  show ?case
  proof (cases "l = CNull \<and> r = CNull")
    case False
    then have ok: "tree_ok l" "tree_ok r" and n: "n = node_count l + node_count r"
      and lr: "largest_child l \<le> node_count r" "largest_child r \<le> node_count l"
      using CNode.prems by auto
    let ?l = "height (to_model l)" and ?r = "height (to_model r)"
    have l: "fib_bound ?l \<le> node_count l" "\<And>k. ?l = Suc k \<Longrightarrow> fib_bound k \<le> largest_child l"
      and r: "fib_bound ?r \<le> node_count r" "\<And>k. ?r = Suc k \<Longrightarrow> fib_bound k \<le> largest_child r"
      using CNode.IH ok by auto
    have height: "height (to_model (CNode l r n c)) = Suc (max ?l ?r)" using False by simp
    have pos: "0 < node_count l" "0 < node_count r" using ok by (cases l; cases r; auto)+
    have "fib_bound (Suc (max ?l ?r)) \<le> n"
    proof (cases "max ?l ?r")
      case 0
      then show ?thesis using n pos by simp
    next
      case (Suc k)
      then consider "?l = Suc k" | "?r = Suc k" by (auto simp: max_def split: if_splits)
      then show ?thesis using l r lr n Suc by cases fastforce+
    qed
    moreover have "fib_bound (max ?l ?r) \<le> largest_child (CNode l r n c)"
      using l(1) r(1) by (cases "?l \<le> ?r") (auto simp: max_def)
    ultimately show ?thesis using height by simp
  qed (use CNode.prems in auto)
qed simp

primrec leaf_count :: "Node \<Rightarrow> nat" where
  "leaf_count Null = 0"
| "leaf_count (Node l r c) = (if l = Null \<and> r = Null then 1 else leaf_count l + leaf_count r)"

lemma leaf_count_weight: "tree_ok t \<Longrightarrow> leaf_count (to_model t) \<le> node_count t"
  by (induction t) auto

text \<open>The tree as it comes back from its stored form, in which inner nodes have no word.\<close>

primrec leaf_words_only :: "Node \<Rightarrow> Node" where
  "leaf_words_only Null = Null"
| "leaf_words_only (Node l r c) =
     (if l = Null \<and> r = Null then Node Null Null c else Node (leaf_words_only l) (leaf_words_only r) 0)"

lemma leaf_words_only_null [simp]: "leaf_words_only t = Null \<longleftrightarrow> t = Null"
  by (cases t) auto

lemma tree_ok_stored: "tree_ok t \<Longrightarrow> leaf_words_only (to_model t) = to_model t"
  by (induction t) auto

lemma fib_bound_mono: "i \<le> j \<Longrightarrow> fib_bound i \<le> fib_bound j"
proof (induction j rule: fib_bound.induct)
  case (3 h)
  then show ?case by (cases "i = Suc (Suc h)") auto
qed (auto simp: le_Suc_eq)

section \<open>Counting\<close>

lemma count_loop_ok:
  "length buf = n \<Longrightarrow> length counter = 256 \<Longrightarrow>
   \<exists>counter'. count_loop nt n buf counter = Inr counter' \<and> length counter' = 256 \<and>
     (\<forall>i. counter ! i \<noteq> 0 \<longrightarrow> i < 256 \<longrightarrow> counter' ! i \<noteq> 0) \<and> (\<forall>b \<in> set buf. counter' ! unat b \<noteq> 0) \<and>
     sum_list counter' = sum_list counter + n"
proof (induction buf arbitrary: n counter)
  case (Cons b buf)
  have "unat b < 2 ^ LENGTH(8)" by (rule unsigned_less)
  then have b: "unat b < 256" by simp
  let ?c = "counter[unat b := counter ! unat b + 1]"
  obtain c' where c': "count_loop nt (length buf) buf ?c = Inr c'" "length c' = 256"
      "\<forall>i. ?c ! i \<noteq> 0 \<longrightarrow> i < 256 \<longrightarrow> c' ! i \<noteq> 0" "\<forall>b \<in> set buf. c' ! unat b \<noteq> 0"
      "sum_list c' = sum_list ?c + length buf"
    using Cons.IH [of "length buf" ?c] Cons.prems by auto
  have "counter ! i \<noteq> 0 \<longrightarrow> i < 256 \<longrightarrow> c' ! i \<noteq> 0" for i
    using c'(3) b Cons.prems by (cases "i = unat b") (auto simp: nth_list_update)
  moreover have "c' ! unat b \<noteq> 0" using c'(3) b Cons.prems by auto
  moreover have "sum_list ?c = sum_list counter + 1"
    using b Cons.prems elem_le_sum_list [of "unat b" counter] by (simp add: sum_list_update)
  ultimately show ?case using c' Cons.prems by auto
qed simp

lemma count_words_ok:
  "\<exists>counter. count_words nt buf = Inr counter \<and> length counter = 256 \<and>
     (\<forall>b \<in> set buf. counter ! unat b \<noteq> 0) \<and> sum_list counter = length buf"
  using count_loop_ok [of buf "length buf" "replicate 256 0" nt] by (auto simp: count_words_def)

lemma leaf_nodes_eq:
  "leaf_nodes nt counter is =
     Inr (map (\<lambda>i. CNode CNull CNull (counter ! i) (of_nat i)) (filter (\<lambda>i. counter ! i \<noteq> 0) is))"
  by (induction "is") auto

lemma sum_nonzero: "sum_list (map f (filter (\<lambda>i. f i \<noteq> 0) is)) = sum_list (map f is)" for f :: "nat \<Rightarrow> nat"
  by (induction "is") auto

section \<open>The loop\<close>

lemma mset_members: "mset xs = add_mset a (mset ys) \<Longrightarrow> set xs = insert a (set ys)"
  by (drule arg_cong [of _ _ set_mset]) simp

lemma mset_weight:
  "mset xs = add_mset a (mset ys) \<Longrightarrow>
   sum_list (map node_count xs) = node_count a + sum_list (map node_count ys)"
  by (metis mset.simps(2) mset_map sum_list.Cons list.simps(9) sum_mset_sum_list)

text \<open>Merging the two lightest trees of a forest keeps its order, its weight and its words.\<close>

lemma forest_ok_merge:
  assumes F: "forest_ok F" and mset: "mset F = mset (a # b # rest)"
    and le: "node_count a \<le> node_count b" "\<forall>t \<in> set rest. node_count b \<le> node_count t"
    and F': "mset F' = mset (CNode a b (node_count a + node_count b) 0 # rest)"
  shows "forest_ok F' \<and> sum_list (map node_count F') = sum_list (map node_count F) \<and>
    (\<Union>t \<in> set F'. words (to_model t)) = (\<Union>t \<in> set F. words (to_model t))"
proof -
  let ?t = "CNode a b (node_count a + node_count b) 0"
  have sets: "set F = insert a (insert b (set rest))" "set F' = insert ?t (set rest)"
    using arg_cong [OF mset, of set_mset] arg_cong [OF F', of set_mset] by simp_all
  have ab: "tree_ok a" "tree_ok b" using F sets by (auto simp: forest_ok_def)
  then have pos: "0 < node_count a" "a \<noteq> CNull" by (cases a; auto)+
  have child: "largest_child t \<le> node_count u" if "t \<in> set F" "u \<in> set F" for t u
    using F that by (auto simp: forest_ok_def)
  have "tree_ok ?t" using ab pos child [of a b] child [of b a] sets by simp
  moreover have "largest_child u \<le> node_count ?t" if "u \<in> set rest" for u
    using child [of u b] that sets by simp
  moreover have "largest_child ?t \<le> node_count u" if "u \<in> insert ?t (set rest)" for u
    using that le by auto
  ultimately have "forest_ok F'"
    using F child sets by (auto simp: forest_ok_def)
  moreover have "words (to_model ?t) = words (to_model a) \<union> words (to_model b)" using pos by simp
  then have "(\<Union>t \<in> set F'. words (to_model t)) = (\<Union>t \<in> set F. words (to_model t))"
    unfolding sets by (auto simp del: to_model.simps words.simps)
  moreover have "sum_list (map node_count F') = sum_list (map node_count F)"
    using mset_weight [of F a "b # rest"] mset_weight [of F' ?t rest] mset F' by simp
  ultimately show ?thesis by blast
qed

context std_heap
begin

lemma build_loop_ok:
  "in_heap_order heap \<Longrightarrow> heap \<noteq> [] \<Longrightarrow> forest_ok heap \<Longrightarrow>
   \<exists>t. build_loop H heap = Some (Inr t) \<and> tree_ok t \<and> node_count t = sum_list (map node_count heap) \<and>
     words (to_model t) = (\<Union>u \<in> set heap. words (to_model u))"
proof (induction "length heap" arbitrary: heap rule: less_induct)
  case less
  show ?case
  proof (cases "length heap = 1")
    case True
    then obtain t where "heap = [t]" by (cases heap) auto
    then show ?thesis using less.prems(3) by (simp add: build_loop.simps forest_ok_def)
  next
    case False
    then have "2 \<le> length heap" using less.prems(2) by (cases heap) (auto simp: Suc_le_eq)
    then obtain a b rest where m: "mset heap = mset (a # b # rest)" "node_count a \<le> node_count b"
        "\<forall>t \<in> set rest. node_count b \<le> node_count t"
        "mset (merge_smallest H heap) = mset (CNode a b (node_count a + node_count b) 0 # rest)"
        "in_heap_order (merge_smallest H heap)"
      using merge_smallest_ok [OF less.prems(1)] by force
    note forest = forest_ok_merge [OF less.prems(3) m(1-4)]
    have "length heap = Suc (Suc (length rest))" "length (merge_smallest H heap) = Suc (length rest)"
      using arg_cong [OF m(1), of size] arg_cong [OF m(4), of size] by simp_all
    moreover from this have "merge_smallest H heap \<noteq> []" by auto
    ultimately show ?thesis
      using less.hyps [of "merge_smallest H heap"] forest m(5) False less.prems(2)
      by (simp add: build_loop.simps [of H heap])
  qed
qed

lemma build_tree_ok:
  assumes "length counter = 256" and "\<exists>e \<in> set counter. e \<noteq> 0"
  shows "\<exists>t. build_tree nt H counter = Some (Inr t) \<and> tree_ok t \<and> node_count t = sum_list counter \<and>
    (\<forall>b :: byte. counter ! unat b \<noteq> 0 \<longrightarrow> b \<in> words (to_model t))"
proof -
  define leaf where "leaf = (\<lambda>i. CNode CNull CNull (counter ! i) (of_nat i :: byte))"
  define idx where "idx = filter (\<lambda>i. counter ! i \<noteq> 0) [0..<256]"
  define heap where "heap = std_make_heap H cmp (map leaf idx)"
  have heap: "mset heap = mset (map leaf idx)" "in_heap_order heap"
    using make_heap by (auto simp: heap_def)
  have set: "set heap = leaf ` set idx"
    using arg_cong [OF heap(1), of set_mset] by simp
  obtain i where "i < 256" "counter ! i \<noteq> 0" using assms by (metis in_set_conv_nth)
  then have "i \<in> set idx" by (simp add: idx_def)
  then have "leaf i \<in> set heap" unfolding set by (rule imageI)
  then have "heap \<noteq> []" by auto
  moreover have "forest_ok heap" unfolding forest_ok_def set by (auto simp: leaf_def idx_def)
  ultimately obtain t where t: "build_loop H heap = Some (Inr t)" "tree_ok t"
      "node_count t = sum_list (map node_count heap)"
      "words (to_model t) = (\<Union>u \<in> set heap. words (to_model u))"
    using build_loop_ok [OF heap(2)] by blast
  have "sum_list (map node_count heap) = sum_mset (image_mset node_count (mset heap))"
    by (simp add: sum_mset_sum_list [symmetric])
  also have "\<dots> = sum_list (map node_count (map leaf idx))"
    unfolding heap(1) by (simp only: mset_map [symmetric] sum_mset_sum_list)
  also have "\<dots> = sum_list (map ((!) counter) idx)" by (simp add: comp_def leaf_def)
  also have "\<dots> = sum_list counter"
    using sum_nonzero [of "(!) counter" "[0..<256]"] map_nth [of counter] assms(1) by (simp add: idx_def)
  finally have "node_count t = sum_list counter" using t(3) by simp
  moreover have "b \<in> words (to_model t)" if "counter ! unat b \<noteq> 0" for b :: byte
  proof -
    have "unat b < 2 ^ LENGTH(8)" by (rule unsigned_less)
    then have "unat b \<in> set idx" using that by (simp add: idx_def)
    moreover have "b \<in> words (to_model (leaf (unat b)))" by (simp add: leaf_def)
    ultimately show ?thesis unfolding t(4) set by blast
  qed
  moreover have "build_tree nt H counter = build_loop H heap"
    using assms(1) by (simp add: build_tree_def leaf_nodes_eq heap_def idx_def leaf_def)
  ultimately show ?thesis using t by auto
qed

end

section \<open>The tree of a message\<close>

definition build :: "endian \<Rightarrow> heap_algorithms \<Rightarrow> nat list \<Rightarrow> Node result option" where
  "build nt H counter =
     (case clamp_counter counter of
        Inl e \<Rightarrow> Some (Inl e)
      | Inr counter' \<Rightarrow>
          (case build_tree nt H counter' of
             None \<Rightarrow> None
           | Some (Inl e) \<Rightarrow> Some (Inl e)
           | Some (Inr counter_node) \<Rightarrow> Some (Inr (to_model counter_node))))"

context std_heap
begin

lemma build_ok:
  "\<exists>counter t. count_words nt buf = Inr counter \<and> build nt H counter = Some (Inr t) \<and> full_node t \<and>
     set buf \<subseteq> words t \<and> fib_bound (height t) \<le> max 1 (length buf) \<and> leaf_count t \<le> max 1 (length buf) \<and>
     leaf_words_only t = t"
proof -
  obtain counter where counter: "count_words nt buf = Inr counter" "length counter = 256"
      "\<forall>b \<in> set buf. counter ! unat b \<noteq> 0" "sum_list counter = length buf"
    using count_words_ok by blast
  define c' where "c' = (if \<exists>e \<in> set counter. e \<noteq> 0 then counter else counter[0 := 1])"
  have c': "clamp_counter counter = Inr c'" "length c' = 256"
    using counter(2) by (auto simp: clamp_counter_def c'_def)
  have empty: "buf = []" "\<forall>i < 256. counter ! i = 0" if "\<not> (\<exists>e \<in> set counter. e \<noteq> 0)"
  proof -
    have "sum_list counter = 0" using that by simp
    then show "buf = []" using counter(4) by simp
    show "\<forall>i < 256. counter ! i = 0" using that counter(2) by (metis nth_mem)
  qed
  have "\<exists>e \<in> set c'. e \<noteq> 0"
    using counter(2) by (auto simp: c'_def intro!: bexI [of _ "Suc 0"] set_update_memI)
  then obtain t where t: "build_tree nt H c' = Some (Inr t)" "tree_ok t" "node_count t = sum_list c'"
      "\<forall>b :: byte. c' ! unat b \<noteq> 0 \<longrightarrow> b \<in> words (to_model t)"
    using build_tree_ok [OF c'(2)] by blast
  have "sum_list c' \<le> max 1 (length buf)"
    using counter empty by (auto simp: c'_def sum_list_update)
  then have "fib_bound (height (to_model t)) \<le> max 1 (length buf)"
      "leaf_count (to_model t) \<le> max 1 (length buf)"
    using fib_bound_height [OF t(2)] leaf_count_weight [OF t(2)] t(3) by auto
  moreover have "set buf \<subseteq> words (to_model t)"
    using counter(3) t(4) empty by (auto simp: c'_def split: if_splits)
  ultimately show ?thesis
    using counter(1) c'(1) t(1) tree_ok_full [OF t(2)] tree_ok_stored [OF t(2)] by (auto simp: build_def)
qed

end

end
