(* ===== verification/Huffman_Engine.thy ===== *)
theory Huffman_Engine
  imports Huffman_Build
begin

text \<open>
  \<open>core::FastEngine\<close> and \<open>core::RowEncodingEngine\<close> of \<open>serializer/huffman_encoder.h\<close>: writing the codes
  of a message to a bit stream, and the two decoders, the one that follows the tree bit by bit and the
  one that looks up eight bits at a time. The buffers are byte lists: what is written through \<open>op_buf\<close> is
  appended, what is read beyond \<open>inp_buf\<close> is \<open>Out_of_bounds\<close>.
\<close>

section \<open>State\<close>

record FastEngine =
  encoding_dict :: "bit_array_type list"
  delim :: "bit_array_type list"
  delim_tree :: DelimNode
  decoding_dict :: "(bytes \<times> nat) list"

section \<open>Encoding\<close>

primrec encode_loop ::
    "endian \<Rightarrow> FastEngine \<Rightarrow> nat \<Rightarrow> bytes \<Rightarrow> bytes \<Rightarrow> bit_array_type \<Rightarrow> (bytes \<times> bytes \<times> bit_array_type) result"
where
  "encode_loop nt e 0 ibuf op_buf rdbuf = Inr (ibuf, op_buf, rdbuf)"
| "encode_loop nt e (Suc i) ibuf op_buf rdbuf =
     bindR (read_num_rep nt ibuf) (\<lambda>(num_rep, ibuf').
     bindR (stream_to nt (encoding_dict e ! num_rep) rdbuf) (\<lambda>(dst, rdbuf').
       encode_loop nt e i ibuf' (op_buf @ dst) rdbuf'))"

fun encode_rest ::
    "endian \<Rightarrow> bytes \<Rightarrow> bytes \<Rightarrow> bit_array_type \<Rightarrow> (bytes \<times> bit_array_type) result" where
  "encode_rest nt [] op_buf rdbuf = Inr (op_buf, rdbuf)"
| "encode_rest nt (c # ibuf) op_buf rdbuf =
     bindR (stream_to nt (to_bit_array_char c) rdbuf) (\<lambda>(dst, rdbuf').
       encode_rest nt ibuf (op_buf @ dst) rdbuf')"

definition noexhaust_encode_into ::
    "endian \<Rightarrow> FastEngine \<Rightarrow> bytes \<Rightarrow> bytes \<Rightarrow> bit_array_type \<Rightarrow> (bytes \<times> bit_array_type) result" where
  "noexhaust_encode_into nt e inp_buf op_buf rdbuf =
     (let cycles = length inp_buf div ALPHABET_SIZE;
          rem = length inp_buf - cycles * ALPHABET_SIZE in
      bindR (encode_loop nt e cycles inp_buf op_buf rdbuf) (\<lambda>(ibuf, op_buf, rdbuf).
      bindR (stream_to nt (delim e ! rem) rdbuf) (\<lambda>(dst, rdbuf).
        encode_rest nt (take rem ibuf) (op_buf @ dst) rdbuf)))"

definition engine_encode_into ::
    "endian \<Rightarrow> FastEngine \<Rightarrow> bytes \<Rightarrow> bytes \<Rightarrow> bit_array_type \<Rightarrow> (bytes \<times> bit_array_type) result" where
  "engine_encode_into nt e inp_buf op_buf rdbuf =
     bindR (noexhaust_encode_into nt e inp_buf op_buf rdbuf) (\<lambda>(op_buf, rdbuf).
     bindR (exhaust_to nt rdbuf) (\<lambda>(dst, rdbuf). Inr (op_buf @ dst, rdbuf)))"

section \<open>Decoding\<close>

primrec read_trailing :: "bytes \<Rightarrow> nat \<Rightarrow> nat \<Rightarrow> bytes \<Rightarrow> (nat \<times> bytes) result" where
  "read_trailing inp_buf 0 bit_offs op_buf = Inr (bit_offs, op_buf)"
| "read_trailing inp_buf (Suc n) bit_offs op_buf =
     bindR (read_ubyte inp_buf bit_offs) (\<lambda>b. read_trailing inp_buf n (bit_offs + CHAR_BIT) (op_buf @ [b]))"

text \<open>
  \<open>decode_into\<close>. The loop of the code ends with the delimiter only. A read behind the buffer is the error \<open>Out_of_bounds\<close> here, and so the
  recursion ends; the code would read on. When this happens is \<open>huffman_decode_exact\<close> in \<open>Huffman_Properties\<close>.
\<close>

function decode_loop ::
    "DelimNode \<Rightarrow> bytes \<Rightarrow> DelimNode \<Rightarrow> nat \<Rightarrow> bytes \<Rightarrow> (nat \<times> bytes) result" where
  "decode_loop root inp_buf cursor bit_offs op_buf =
     (case byte_array_read inp_buf bit_offs of
        Inl e \<Rightarrow> Inl e
      | Inr tape \<Rightarrow>
          (case follow cursor tape of
             Inl e \<Rightarrow> Inl e
           | Inr cursor' \<Rightarrow>
               if is_leaf cursor' then
                 if delim_stat cursor' \<noteq> 0
                 then read_trailing inp_buf (delim_stat cursor' - 1) (bit_offs + 1) op_buf
                 else decode_loop root inp_buf root (bit_offs + 1) (op_buf @ [leaf_word cursor'])
               else decode_loop root inp_buf cursor' (bit_offs + 1) op_buf))"
  by pat_completeness auto
termination
  by (relation "measure (\<lambda>(root, inp_buf, cursor, bit_offs, op_buf). 8 * length inp_buf - bit_offs)")
    (auto simp: byte_array_read_eq split: if_splits)

declare decode_loop.simps [simp del]

definition decode_into :: "FastEngine \<Rightarrow> bytes \<Rightarrow> nat \<Rightarrow> bytes \<Rightarrow> (nat \<times> bytes) result" where
  "decode_into e inp_buf bit_offs op_buf =
     decode_loop (delim_tree e) inp_buf (delim_tree e) bit_offs op_buf"

text \<open>
  \<open>fast_decode_into\<close>. Whether \<open>cursor\<close> points to the root is a comparison of trees here: no tree is one
  of its own proper subtrees. \<open>None\<close> is a loop that does not end.
\<close>

partial_function (option) fast_decode_loop ::
    "endian \<Rightarrow> FastEngine \<Rightarrow> bytes \<Rightarrow> nat \<Rightarrow> DelimNode \<Rightarrow> bool \<Rightarrow> nat \<Rightarrow> bytes \<Rightarrow> (nat \<times> bytes) result option"
where
  "fast_decode_loop nt e inp_buf bit_last cursor bad_bit bit_offs op_buf =
     (if bit_offs + read_padd_requirement < bit_last \<and> cursor = delim_tree e \<and> \<not> bad_bit then
        (case bit_stream_read nt inp_buf bit_offs ALPHABET_BIT_SIZE of
           Inl err \<Rightarrow> Some (Inl err)
         | Inr tape \<Rightarrow>
             let mapped_bytes = decoding_dict e ! unat tape in
             fast_decode_loop nt e inp_buf bit_last cursor (snd mapped_bytes = ALPHABET_BIT_SIZE)
               (bit_offs + (ALPHABET_BIT_SIZE - snd mapped_bytes)) (op_buf @ fst mapped_bytes))
      else
        (case byte_array_read inp_buf bit_offs of
           Inl err \<Rightarrow> Some (Inl err)
         | Inr tape \<Rightarrow>
             (case follow cursor tape of
                Inl err \<Rightarrow> Some (Inl err)
              | Inr cursor' \<Rightarrow>
                  if is_leaf cursor' then
                    if delim_stat cursor' \<noteq> 0
                    then Some (read_trailing inp_buf (delim_stat cursor' - 1) (bit_offs + 1) op_buf)
                    else fast_decode_loop nt e inp_buf bit_last (delim_tree e) False (bit_offs + 1)
                           (op_buf @ [leaf_word cursor'])
                  else fast_decode_loop nt e inp_buf bit_last cursor' False (bit_offs + 1) op_buf)))"

definition fast_decode_into ::
    "endian \<Rightarrow> FastEngine \<Rightarrow> bytes \<Rightarrow> nat \<Rightarrow> nat \<Rightarrow> bytes \<Rightarrow> (nat \<times> bytes) result option" where
  "fast_decode_into nt e inp_buf bit_offs bit_last op_buf =
     fast_decode_loop nt e inp_buf bit_last (delim_tree e) False bit_offs op_buf"

section \<open>Rows\<close>

type_synonym RowEncodingEngine = "FastEngine list"

fun row_encode_loop ::
    "endian \<Rightarrow> RowEncodingEngine \<Rightarrow> bytes list \<Rightarrow> bytes \<Rightarrow> bit_array_type \<Rightarrow> (bytes \<times> bit_array_type) result"
where
  "row_encode_loop nt (e # encoders) (x # data) buf rdbuf =
     bindR (noexhaust_encode_into nt e x buf rdbuf) (\<lambda>(buf, rdbuf). row_encode_loop nt encoders data buf rdbuf)"
| "row_encode_loop nt _ _ buf rdbuf = Inr (buf, rdbuf)"

definition row_encode_into :: "endian \<Rightarrow> RowEncodingEngine \<Rightarrow> bytes list \<Rightarrow> bytes \<Rightarrow> bytes result" where
  "row_encode_into nt encoders data buf =
     (if length data \<noteq> length encoders then Inl Abort
      else
        bindR (row_encode_loop nt encoders data buf (0, 0)) (\<lambda>(buf, rdbuf).
        bindR (exhaust_to nt rdbuf) (\<lambda>(dst, rdbuf). Inr (buf @ dst))))"

text \<open>The decoded columns, each from the start of its own buffer, and the bytes of \<open>buf\<close> used.\<close>

fun row_decode_loop :: "RowEncodingEngine \<Rightarrow> bytes \<Rightarrow> nat \<Rightarrow> (nat \<times> bytes list) result" where
  "row_decode_loop [] buf buf_bit_offs = Inr (buf_bit_offs, [])"
| "row_decode_loop (e # encoders) buf buf_bit_offs =
     bindR (decode_into e buf buf_bit_offs []) (\<lambda>(buf_bit_offs, x).
     bindR (row_decode_loop encoders buf buf_bit_offs) (\<lambda>(buf_bit_offs, data).
       Inr (buf_bit_offs, x # data)))"

definition row_decode_into :: "RowEncodingEngine \<Rightarrow> bytes \<Rightarrow> (nat \<times> bytes list) result" where
  "row_decode_into encoders buf =
     bindR (row_decode_loop encoders buf 0) (\<lambda>(buf_bit_offs, data). Inr (byte_size buf_bit_offs, data))"

section \<open>Making an engine\<close>

definition spawn_fast_engine :: "Node \<Rightarrow> FastEngine result" where
  "spawn_fast_engine huffman_tree =
     bindR (to_delim_tree huffman_tree) (\<lambda>decoding_tree.
     bindR (decode_dictionarize decoding_tree) (\<lambda>decoding.
     bindR (encoding_dictionary decoding_tree) (\<lambda>encoding.
     bindR (delimiters decoding_tree) (\<lambda>delims.
     bindR (transform_all to_bit_array encoding) (\<lambda>transformed_ed.
     bindR (transform_all to_bit_array delims) (\<lambda>transformed_dl.
       Inr \<lparr>encoding_dict = transformed_ed, delim = transformed_dl, delim_tree = decoding_tree,
            decoding_dict = decoding\<rparr>))))))"

section \<open>Engines that work\<close>

text \<open>
  \<open>engine_ok e W\<close>: the dictionaries belong to the tree, and every word of \<open>W\<close> has a code; \<open>short_codes\<close>:
  no code has 64 bits.
\<close>

definition engine_ok :: "FastEngine \<Rightarrow> word_type set \<Rightarrow> bool" where
  "engine_ok e W \<longleftrightarrow>
     full (delim_tree e) \<and> \<not> is_leaf (delim_tree e) \<and>
     (\<forall>x \<in> set (paths (delim_tree e)). snd (snd x) \<le> 1) \<and>
     (\<forall>c \<in> W. ba_ok (encoding_dict e ! unat c) \<and> (bits (encoding_dict e ! unat c), c, 0) \<in> set (paths (delim_tree e))) \<and>
     ba_ok (delim e ! 0) \<and> (\<exists>c. (bits (delim e ! 0), c, 1) \<in> set (paths (delim_tree e))) \<and>
     (\<forall>i < DICT_SIZE. walk (delim_tree e) (to_bit_deque i) = Inr (decoding_dict e ! i))"

definition codes_within :: "FastEngine \<Rightarrow> nat \<Rightarrow> bool" where
  "codes_within e n \<longleftrightarrow> (\<forall>x \<in> set (paths (delim_tree e)). length (fst x) \<le> n)"

text \<open>What the table decoder needs: a full tree and its table.\<close>

definition table_ok :: "FastEngine \<Rightarrow> bool" where
  "table_ok e \<longleftrightarrow> full (delim_tree e) \<and> \<not> is_leaf (delim_tree e) \<and>
     (\<forall>i < DICT_SIZE. walk (delim_tree e) (to_bit_deque i) = Inr (decoding_dict e ! i))"

lemma engine_table: "engine_ok e W \<Longrightarrow> table_ok e"
  by (simp add: engine_ok_def table_ok_def)

lemma spawn_table:
  assumes "full_node t" and "spawn_fast_engine t = Inr e"
  shows "table_ok e"
proof -
  obtain d where d: "to_delim_tree t = Inr d" "full d" "\<not> is_leaf d"
    using to_delim_tree_ok [OF assms(1)] by blast
  obtain dec where "decode_dictionarize d = Inr dec"
      "\<forall>i < DICT_SIZE. walk d (to_bit_deque i) = Inr (dec ! i)"
    using decode_dictionarize_ok [OF d(2,3)] by blast
  then show ?thesis
    using assms(2) d by (auto simp: spawn_fast_engine_def table_ok_def bindR_eq_Inr)
qed

lemma spawn_fast_engine_ok:
  assumes "full_node t" and "height t < 64"
  shows "\<exists>e. spawn_fast_engine t = Inr e \<and> engine_ok e (words t) \<and> codes_within e (height t + 1)"
proof -
  obtain d p0 where d: "to_delim_tree t = Inr d" "full d" "\<not> is_leaf d"
      "\<forall>x \<in> set (paths d). snd (snd x) \<le> 1 \<and> length (fst x) \<le> height t + 1"
      "\<forall>c \<in> words t. \<exists>p. (p, c, 0) \<in> set (paths d)" "(p0, 0, 1) \<in> set (paths d)"
    using to_delim_tree_ok [OF assms(1)] by blast
  obtain dec where dec: "decode_dictionarize d = Inr dec"
      "\<forall>i < DICT_SIZE. walk d (to_bit_deque i) = Inr (dec ! i)"
    using decode_dictionarize_ok [OF d(2,3)] by blast
  obtain enc where enc: "encoding_dictionary d = Inr enc" "length enc = DICT_SIZE"
      "\<forall>p c. (p, c, 0) \<in> set (paths d) \<longrightarrow> (enc ! unat c, c, 0) \<in> set (paths d)"
      "\<forall>q \<in> set enc. q \<noteq> [] \<longrightarrow> (\<exists>c. (q, c, 0) \<in> set (paths d))"
    using encoding_dictionary_ok [OF d(2)] by blast
  have le1: "\<forall>x \<in> set (paths d). snd (snd x) \<le> 1" using d(4) by blast
  obtain q c where q: "delimiters d = Inr [q]" "(q, c, 1) \<in> set (paths d)"
    using delimiters_ok [OF d(2) le1 d(6)] by blast
  have len: "length p \<le> 64" if "(p, x) \<in> set (paths d)" for p x
    using d(4) that assms(2) by fastforce
  have "\<forall>p \<in> set enc. \<exists>a. to_bit_array p = Inr a"
    using enc(4) len to_bit_array_ok by (metis le0 list.size(3))
  then obtain ed where ed: "transform_all to_bit_array enc = Inr ed"
      "\<forall>i < length enc. to_bit_array (enc ! i) = Inr (ed ! i)"
    using transform_all_total [of enc to_bit_array] by blast
  obtain a where a: "to_bit_array q = Inr a" "ba_ok a" "bits a = q"
    using to_bit_array_ok len [OF q(2)] by blast
  let ?e = "\<lparr>encoding_dict = ed, delim = [a], delim_tree = d, decoding_dict = dec\<rparr>"
  have "ba_ok (ed ! unat c) \<and> (bits (ed ! unat c), c, 0) \<in> set (paths d)" if "c \<in> words t" for c
  proof -
    have "unat c < 2 ^ LENGTH(8)" by (rule unsigned_less)
    then have i: "unat c < length enc" using enc(2) by simp
    have p: "(enc ! unat c, c, 0) \<in> set (paths d)" using enc(3) d(5) that by blast
    show ?thesis using ed(2) i p to_bit_array_ok [OF len [OF p]] by auto
  qed
  then have "engine_ok ?e (words t)"
    using d le1 a q dec by (auto simp: engine_ok_def)
  moreover have "spawn_fast_engine t = Inr ?e"
    using d(1) dec(1) enc(1) q(1) ed(1) a(1) by (simp add: spawn_fast_engine_def)
  moreover have "codes_within ?e (height t + 1)" using d(4) by (simp add: codes_within_def)
  ultimately show ?thesis by blast
qed

section \<open>What is written\<close>

definition message_bits :: "FastEngine \<Rightarrow> bytes \<Rightarrow> bool list" where
  "message_bits e m = concat (map (\<lambda>c. bits (encoding_dict e ! unat c)) m) @ bits (delim e ! 0)"

lemma engine_okD:
  assumes "engine_ok e W"
  shows "full (delim_tree e)" and "\<not> is_leaf (delim_tree e)"
    and "c \<in> W \<Longrightarrow> (bits (encoding_dict e ! unat c), c, 0) \<in> set (paths (delim_tree e))"
    and "c \<in> W \<Longrightarrow> ba_ok (encoding_dict e ! unat c)"
    and "ba_ok (delim e ! 0)" and "\<exists>c. (bits (delim e ! 0), c, 1) \<in> set (paths (delim_tree e))"
  using assms unfolding engine_ok_def by (blast, blast, blast, blast, blast, blast)

lemma code_length:
  assumes "engine_ok e W" and "codes_within e n"
  shows "c \<in> W \<Longrightarrow> snd (encoding_dict e ! unat c) \<le> n" and "snd (delim e ! 0) \<le> n"
proof -
  have *: "snd a \<le> n" if "(bits a, x) \<in> set (paths (delim_tree e))" for a x
    using assms(2) that unfolding codes_within_def by (metis fst_conv length_bits)
  show "c \<in> W \<Longrightarrow> snd (encoding_dict e ! unat c) \<le> n" using * engine_okD(3) [OF assms(1)] by blast
  show "snd (delim e ! 0) \<le> n" using * engine_okD(6) [OF assms(1)] by blast
qed

lemma append_chain: "a @ b = x \<Longrightarrow> c @ d = b @ y \<Longrightarrow> (a @ c) @ d = x @ y"
  by (metis append.assoc)

lemma encode_loop_ok:
  assumes e: "engine_ok e W" "codes_within e 63"
  shows "set inp \<subseteq> W \<Longrightarrow> ba_ok rd \<Longrightarrow> snd rd < 64 \<Longrightarrow>
    \<exists>w rd'. encode_loop nt e (length inp) inp op rd = Inr ([], op @ w, rd') \<and> ba_ok rd' \<and> snd rd' < 64 \<and>
      bits_of_bytes w @ bits rd' = bits rd @ concat (map (\<lambda>c. bits (encoding_dict e ! unat c)) inp)"
proof (induction inp arbitrary: op rd)
  case (Cons c inp)
  let ?code = "encoding_dict e ! unat c"
  have "ba_ok ?code" "snd ?code < 64"
    using engine_okD(4) [OF e(1)] code_length(1) [OF e] Cons.prems(1) by force+
  then obtain dst rd1 where 1: "stream_to nt ?code rd = Inr (dst, rd1)" "ba_ok rd1" "snd rd1 < 64"
      "bits_of_bytes dst @ bits rd1 = bits rd @ bits ?code"
    using stream_to_ok Cons.prems by blast
  obtain w rd' where 2: "encode_loop nt e (length inp) inp (op @ dst) rd1 = Inr ([], (op @ dst) @ w, rd')"
      "ba_ok rd'" "snd rd' < 64"
      "bits_of_bytes w @ bits rd' = bits rd1 @ concat (map (\<lambda>c. bits (encoding_dict e ! unat c)) inp)"
    using Cons.IH [of rd1 "op @ dst"] Cons.prems 1 by auto
  have "bits_of_bytes (dst @ w) @ bits rd' =
      bits rd @ concat (map (\<lambda>c. bits (encoding_dict e ! unat c)) (c # inp))"
    using append_chain [OF 1(4) 2(4)] by simp
  then show ?case using 1(1) 2(1-3) by (intro exI [of _ "dst @ w"] exI [of _ rd']) simp
qed simp

lemma noexhaust_ok:
  assumes e: "engine_ok e W" "codes_within e 63" and "set m \<subseteq> W" "ba_ok rd" "snd rd < 64"
  shows "\<exists>w rd'. noexhaust_encode_into nt e m op rd = Inr (op @ w, rd') \<and> ba_ok rd' \<and> snd rd' < 64 \<and>
    bits_of_bytes w @ bits rd' = bits rd @ message_bits e m"
proof -
  obtain w rd1 where 1: "encode_loop nt e (length m) m op rd = Inr ([], op @ w, rd1)"
      "ba_ok rd1" "snd rd1 < 64"
      "bits_of_bytes w @ bits rd1 = bits rd @ concat (map (\<lambda>c. bits (encoding_dict e ! unat c)) m)"
    using encode_loop_ok [OF e assms(3-5)] by blast
  have "ba_ok (delim e ! 0)" "snd (delim e ! 0) < 64"
    using engine_okD(5) [OF e(1)] code_length(2) [OF e] by simp_all
  then obtain dst rd' where 2: "stream_to nt (delim e ! 0) rd1 = Inr (dst, rd')" "ba_ok rd'" "snd rd' < 64"
      "bits_of_bytes dst @ bits rd' = bits rd1 @ bits (delim e ! 0)"
    using stream_to_ok [OF _ _ 1(2,3)] by blast
  have "bits_of_bytes (w @ dst) @ bits rd' = bits rd @ message_bits e m"
    using append_chain [OF 1(4) 2(4)] by (simp add: message_bits_def)
  then show ?thesis
    using 1(1) 2(1-3) by (intro exI [of _ "w @ dst"] exI [of _ rd']) (simp add: noexhaust_encode_into_def)
qed

lemma exhaust_after:
  assumes "ba_ok rd" "snd rd < 64" and "bits_of_bytes w @ bits rd = bs"
  shows "\<exists>dst rd'. exhaust_to nt rd = Inr (dst, rd') \<and> take (length bs) (bits_of_bytes (w @ dst)) = bs \<and>
    8 * length (w @ dst) < length bs + 8"
proof -
  obtain dst rd' where 1: "exhaust_to nt rd = Inr (dst, rd')" "length dst = byte_size (snd rd)"
      "take (snd rd) (bits_of_bytes dst) = bits rd"
    using exhaust_to_ok [OF assms(1,2)] by blast
  have "length bs = 8 * length w + snd rd" using assms(3) by auto
  moreover have "take (length bs) (bits_of_bytes (w @ dst)) = bs"
    using calculation assms(3) 1(3) by simp
  ultimately show ?thesis using 1(1,2) byte_size_bounds [of "snd rd"] by auto
qed

lemma engine_encode_ok:
  assumes "engine_ok e W" "codes_within e 63" and "set m \<subseteq> W"
  shows "\<exists>w rd. engine_encode_into nt e m [] (0, 0) = Inr (w, rd) \<and>
    take (length (message_bits e m)) (bits_of_bytes w) = message_bits e m \<and>
    8 * length w < length (message_bits e m) + 8"
proof -
  have "ba_ok (0, 0)" "bits (0, 0) = []" by (simp_all add: ba_ok_def bits_def)
  then obtain w rd1 where 1: "noexhaust_encode_into nt e m [] (0, 0) = Inr (w, rd1)" "ba_ok rd1"
      "snd rd1 < 64" "bits_of_bytes w @ bits rd1 = message_bits e m"
    using noexhaust_ok [OF assms, of "(0, 0)" nt "[]"] by auto
  then show ?thesis
    using exhaust_after [OF 1(2-4), of nt] by (auto simp: engine_encode_into_def)
qed

lemma message_bits_length:
  assumes "engine_ok e W" "codes_within e n" and "set m \<subseteq> W"
  shows "length (message_bits e m) \<le> n * (length m + 1)"
proof -
  have "length (concat (map (\<lambda>c. bits (encoding_dict e ! unat c)) m)) \<le> n * length m"
    using assms(3)
  proof (induction m)
    case (Cons c m)
    then show ?case using code_length(1) [OF assms(1,2), of c] by simp
  qed simp
  then show ?thesis using code_length(2) [OF assms(1,2)] by (simp add: message_bits_def)
qed

section \<open>What is read\<close>

definition bits_at :: "bytes \<Rightarrow> nat \<Rightarrow> bool list \<Rightarrow> bool" where
  "bits_at inp i bs \<longleftrightarrow> (\<exists>rest. drop i (bits_of_bytes inp) = bs @ rest)"

lemma bits_at_append: "bits_at inp i (xs @ ys) \<longleftrightarrow> bits_at inp i xs \<and> bits_at inp (i + length xs) ys"
proof
  assume "bits_at inp i (xs @ ys)"
  then obtain rest where "drop i (bits_of_bytes inp) = xs @ ys @ rest" by (auto simp: bits_at_def)
  moreover from this have "drop (length xs) (drop i (bits_of_bytes inp)) = ys @ rest" by simp
  ultimately show "bits_at inp i xs \<and> bits_at inp (i + length xs) ys"
    unfolding bits_at_def by (metis append.assoc drop_drop add.commute)
next
  assume "bits_at inp i xs \<and> bits_at inp (i + length xs) ys"
  then obtain r1 r2 where "drop i (bits_of_bytes inp) = xs @ r1" "drop (i + length xs) (bits_of_bytes inp) = ys @ r2"
    by (auto simp: bits_at_def)
  moreover from this have "r1 = ys @ r2" by (metis add.commute append_eq_conv_conj drop_drop)
  ultimately show "bits_at inp i (xs @ ys)" by (auto simp: bits_at_def)
qed

lemma bits_at_read:
  assumes "bits_at inp i (b # bs)"
  shows "byte_array_read inp i = Inr b" and "bits_at inp (i + 1) bs"
proof -
  obtain rest where rest: "drop i (bits_of_bytes inp) = b # bs @ rest" using assms by (auto simp: bits_at_def)
  then have "i < length (bits_of_bytes inp)" by (metis drop_eq_Nil linorder_not_le list.distinct(1))
  moreover from this rest have "bits_of_bytes inp ! i = b" by (metis Cons_nth_drop_Suc list.inject)
  ultimately show "byte_array_read inp i = Inr b" by (simp add: byte_array_read_eq)
  show "bits_at inp (i + 1) bs" using bits_at_append [of inp i "[b]" bs] assms by simp
qed

text \<open>The path to a leaf leads the decoder to it.\<close>

lemma decode_path:
  "full cursor \<Longrightarrow> \<not> is_leaf cursor \<Longrightarrow> (p, c, s) \<in> set (paths cursor) \<Longrightarrow> bits_at inp i p \<Longrightarrow>
   decode_loop root inp cursor i op =
     (if s \<noteq> 0 then read_trailing inp (s - 1) (i + length p) op
      else decode_loop root inp root (i + length p) (op @ [c]))"
proof (induction p arbitrary: cursor i)
  case Nil
  then show ?case using inner_path by blast
next
  case (Cons b p)
  obtain t where t: "follow cursor b = Inr t" "full t" "(p, c, s) \<in> set (paths t)"
    by (rule follow_path [OF Cons.prems(1,3)])
  note read = bits_at_read [OF Cons.prems(4)]
  show ?case
  proof (cases "is_leaf t")
    case True
    then have "p = []" "c = leaf_word t" "s = delim_stat t" using t(3) by (auto simp: leaf_path)
    with True t(1) read(1) show ?thesis by (subst decode_loop.simps) simp
  next
    case False
    then show ?thesis
      using Cons.IH [OF t(2) False t(3) read(2)] t(1) read(1) by (subst decode_loop.simps) simp
  qed
qed

lemma decode_message:
  assumes "engine_ok e W"
  shows "set m \<subseteq> W \<Longrightarrow> bits_at inp i (message_bits e m) \<Longrightarrow>
    decode_into e inp i op = Inr (i + length (message_bits e m), op @ m)"
proof (induction m arbitrary: i op)
  case Nil
  obtain c where c: "(bits (delim e ! 0), c, 1) \<in> set (paths (delim_tree e))"
    using engine_okD(6) [OF assms] by blast
  show ?case
    using decode_path [OF engine_okD(1,2) [OF assms] c, of inp i "delim_tree e" op] Nil.prems
    by (simp add: decode_into_def message_bits_def)
next
  case (Cons c m)
  let ?p = "bits (encoding_dict e ! unat c)"
  have p: "(?p, c, 0) \<in> set (paths (delim_tree e))" using engine_okD(3) [OF assms] Cons.prems(1) by simp
  have at: "bits_at inp i ?p" "bits_at inp (i + length ?p) (message_bits e m)"
    using Cons.prems(2) bits_at_append [of inp i ?p "message_bits e m"] by (simp_all add: message_bits_def)
  have "decode_into e inp i op = decode_into e inp (i + length ?p) (op @ [c])"
    using decode_path [OF engine_okD(1,2) [OF assms] p at(1), of "delim_tree e" op] by (simp add: decode_into_def)
  then show ?case using Cons.IH [OF _ at(2), of "op @ [c]"] Cons.prems(1) by (simp add: message_bits_def)
qed

section \<open>The table decoder does what the bit decoder does\<close>

text \<open>
  What \<open>walk\<close> finds in a piece of the stream, the bit decoder finds there: either no symbol ends in the
  piece, or the decoder, started in front of it, gets to the root behind the last symbol that does, with
  the bytes \<open>walk\<close> returned.
\<close>

lemma walk_decode:
  assumes root: "full root" "\<not> is_leaf root"
  shows "full cursor \<Longrightarrow> \<not> is_leaf cursor \<Longrightarrow> bits_at inp i trace \<Longrightarrow>
    walk_loop root cursor n trace = Inr (bs, tr) \<Longrightarrow>
    bs = [] \<and> tr = n \<or>
    tr \<le> length trace \<and>
      decode_loop root inp cursor i op = decode_loop root inp root (i + (length trace - tr)) (op @ bs)"
proof (induction trace arbitrary: cursor i n bs tr op)
  case (Cons b trace)
  obtain t where t: "follow cursor b = Inr t" "full t" by (rule follow_full [OF Cons.prems(1,2)])
  note read = bits_at_read [OF Cons.prems(3)]
  show ?case
  proof (cases "is_leaf t")
    case False
    then have "walk_loop root t n trace = Inr (bs, tr)" using Cons.prems(4) t(1) by simp
    moreover have "decode_loop root inp cursor i op = decode_loop root inp t (i + 1) op"
      using False t(1) read(1) by (subst decode_loop.simps) simp
    ultimately show ?thesis
      using Cons.IH [OF t(2) False read(2), of n bs tr op] by (auto simp: Suc_diff_le)
  next
    case leaf: True
    show ?thesis
    proof (cases "delim_stat t = 0")
      case False
      then show ?thesis using Cons.prems(4) leaf t(1) by simp
    next
      case True
      have step: "decode_loop root inp cursor i op = decode_loop root inp root (i + 1) (op @ [leaf_word t])"
        using leaf True t(1) read(1) by (subst decode_loop.simps) simp
      obtain bs' tr' where w: "walk_loop root root (length trace) trace = Inr (bs', tr')"
        using walk_loop_total [OF root root] by (metis surj_pair)
      note IH = Cons.IH [OF root read(2) w, of "op @ [leaf_word t]"]
      show ?thesis
      proof (cases "tr' = length trace")
        case True
        then have "bs = [leaf_word t]" "tr = length trace"
          using Cons.prems(4) leaf \<open>delim_stat t = 0\<close> t(1) w by simp_all
        then show ?thesis using step by simp
      next
        case False
        then have "bs = leaf_word t # bs'" "tr = tr'"
          using Cons.prems(4) leaf \<open>delim_stat t = 0\<close> t(1) w by simp_all
        then show ?thesis using step IH False by (auto simp: Suc_diff_le)
      qed
    qed
  qed
qed simp

lemma bits_of_tape:
  assumes "i + 64 < 8 * length inp"
  shows "\<exists>tape. bit_stream_read nt inp i ALPHABET_BIT_SIZE = Inr tape \<and> unat tape < 256 \<and>
    bits_at inp i (to_bit_deque (unat tape))"
proof -
  obtain tape where tape: "bit_stream_read nt inp i 8 = Inr tape"
      "\<And>j. bit tape j \<longleftrightarrow> j < 8 \<and> bits_of_bytes inp ! (i + j)"
    using bit_stream_read_ok [OF assms, of 8 nt] by auto
  have "take_bit 8 tape = tape" using tape(2) by (auto simp: bit_eq_iff bit_simps)
  then have "take_bit 8 (unat tape) = unat tape" by (metis unsigned_take_bit_eq)
  then have "unat tape < 256" using take_bit_nat_less_exp [of 8 "unat tape"] by simp
  moreover have "to_bit_deque (unat tape) = take 8 (drop i (bits_of_bytes inp))"
    using assms tape(2) by (intro nth_equalityI) (simp_all add: to_bit_deque_def bit_unsigned_iff)
  then have "bits_at inp i (to_bit_deque (unat tape))"
    unfolding bits_at_def by (metis append_take_drop_id)
  ultimately show ?thesis using tape(1) by auto
qed

lemma fast_decode_loop_eq:
  assumes e: "table_ok e" and last: "bit_last \<le> 8 * length inp"
  shows "full cursor \<Longrightarrow> \<not> is_leaf cursor \<Longrightarrow>
    fast_decode_loop nt e inp bit_last cursor bad i op = Some (decode_loop (delim_tree e) inp cursor i op)"
proof (induction "2 * (8 * length inp - i) + (if bad then 0 else 1)" arbitrary: cursor bad i op
    rule: less_induct)
  case (less bad i cursor op)
  let ?root = "delim_tree e"
  have root: "full ?root" "\<not> is_leaf ?root" using e by (simp_all add: table_ok_def)
  show ?case
  proof (cases "i + 64 < bit_last \<and> cursor = ?root \<and> \<not> bad")
    case True
    then have i: "i + 64 < 8 * length inp" using last by simp
    obtain tape where tape: "bit_stream_read nt inp i ALPHABET_BIT_SIZE = Inr tape" "unat tape < 256"
        "bits_at inp i (to_bit_deque (unat tape))"
      using bits_of_tape [OF i] by blast
    obtain bs tr where m: "decoding_dict e ! unat tape = (bs, tr)" by fastforce
    have len: "length (to_bit_deque (unat tape)) = 8" by (simp add: to_bit_deque_def)
    have "walk ?root (to_bit_deque (unat tape)) = Inr (bs, tr)"
      using e tape(2) m by (simp add: table_ok_def)
    then have "walk_loop ?root ?root 8 (to_bit_deque (unat tape)) = Inr (bs, tr)"
      using len by (simp add: walk_def)
    from walk_decode [OF root root tape(3) this, of op] len
    have slow: "tr \<le> 8" "decode_loop ?root inp ?root i op = decode_loop ?root inp ?root (i + (8 - tr)) (op @ bs)"
      by auto
    have "fast_decode_loop nt e inp bit_last ?root (tr = 8) (i + (8 - tr)) (op @ bs) =
        Some (decode_loop ?root inp ?root (i + (8 - tr)) (op @ bs))"
      using True slow(1) i by (intro less.hyps root) auto
    then show ?thesis
      using True tape(1) m slow by (subst fast_decode_loop.simps) (simp add: read_padd_requirement_def)
  next
    case False
    then have slow: "(i + read_padd_requirement < bit_last \<and> cursor = ?root \<and> \<not> bad) = False"
      by (simp add: read_padd_requirement_def)
    show ?thesis
    proof (cases "byte_array_read inp i")
      case (Inl err)
      then show ?thesis
        by (subst fast_decode_loop.simps, subst decode_loop.simps) (simp add: slow)
    next
      case (Inr b)
      then have i: "i < 8 * length inp" by (auto simp: byte_array_read_eq split: if_splits)
      obtain t where t: "follow cursor b = Inr t" "full t" by (rule follow_full [OF less.prems])
      have "fast_decode_loop nt e inp bit_last ?root False (i + 1) (op @ [leaf_word t]) =
          Some (decode_loop ?root inp ?root (i + 1) (op @ [leaf_word t]))"
        using i by (intro less.hyps root) auto
      moreover have "fast_decode_loop nt e inp bit_last t False (i + 1) op =
          Some (decode_loop ?root inp t (i + 1) op)" if "\<not> is_leaf t"
        using i t(2) that by (intro less.hyps) auto
      ultimately show ?thesis
        using Inr t(1)
        by (subst fast_decode_loop.simps, subst decode_loop.simps) (simp add: slow)
    qed
  qed
qed

lemma fast_decode_eq:
  assumes "table_ok e" and "bit_last \<le> 8 * length inp"
  shows "fast_decode_into nt e inp i bit_last op = Some (decode_into e inp i op)"
  using fast_decode_loop_eq [OF assms] assms(1)
  by (simp add: fast_decode_into_def decode_into_def table_ok_def)

section \<open>Rows\<close>

definition row_bits :: "RowEncodingEngine \<Rightarrow> bytes list \<Rightarrow> bool list" where
  "row_bits es data = concat (map2 message_bits es data)"

definition row_ok :: "RowEncodingEngine \<Rightarrow> bytes list \<Rightarrow> bool" where
  "row_ok es data \<longleftrightarrow> list_all2 (\<lambda>e m. engine_ok e (set m) \<and> codes_within e 63) es data"

lemma row_encode_loop_ok:
  "row_ok es data \<Longrightarrow> ba_ok rd \<Longrightarrow> snd rd < 64 \<Longrightarrow>
   \<exists>w rd'. row_encode_loop nt es data buf rd = Inr (buf @ w, rd') \<and> ba_ok rd' \<and> snd rd' < 64 \<and>
     bits_of_bytes w @ bits rd' = bits rd @ row_bits es data"
proof (induction nt es data buf rd rule: row_encode_loop.induct)
  case (1 nt e es m data buf rd)
  then have e: "engine_ok e (set m)" "codes_within e 63" and es: "row_ok es data"
    by (simp_all add: row_ok_def)
  obtain w rd1 where a: "noexhaust_encode_into nt e m buf rd = Inr (buf @ w, rd1)" "ba_ok rd1" "snd rd1 < 64"
      "bits_of_bytes w @ bits rd1 = bits rd @ message_bits e m"
    using noexhaust_ok [OF e order_refl 1(3,4)] by blast
  obtain w' rd' where b: "row_encode_loop nt es data (buf @ w) rd1 = Inr ((buf @ w) @ w', rd')" "ba_ok rd'"
      "snd rd' < 64" "bits_of_bytes w' @ bits rd' = bits rd1 @ row_bits es data"
    using "1.IH" [OF es a(2,3)] by blast
  have "bits_of_bytes (w @ w') @ bits rd' = bits rd @ row_bits (e # es) (m # data)"
    using append_chain [OF a(4) b(4)] by (simp add: row_bits_def)
  then show ?case using a(1) b(1-3) by (intro exI [of _ "w @ w'"] exI [of _ rd']) simp
qed (auto simp: row_ok_def row_bits_def)

lemma row_decode_loop_ok:
  "row_ok es data \<Longrightarrow> bits_at buf i (row_bits es data) \<Longrightarrow>
   row_decode_loop es buf i = Inr (i + length (row_bits es data), data)"
proof (induction es arbitrary: data i)
  case (Cons e es)
  then obtain m data' where data: "data = m # data'" and e: "engine_ok e (set m)" and es: "row_ok es data'"
    by (auto simp: row_ok_def list_all2_Cons1)
  have at: "bits_at buf i (message_bits e m)" "bits_at buf (i + length (message_bits e m)) (row_bits es data')"
    using Cons.prems(2) by (simp_all add: data row_bits_def bits_at_append)
  show ?case
    using decode_message [OF e order_refl at(1), of "[]"] Cons.IH [OF es at(2)]
    by (simp add: data row_bits_def)
qed (simp add: row_ok_def row_bits_def)

lemma bits_at_start: "take (length bs) (bits_of_bytes inp) = bs \<Longrightarrow> bits_at inp 0 bs"
  by (auto simp: bits_at_def) (metis append_take_drop_id)

lemma byte_size_eq: "n \<le> 8 * k \<Longrightarrow> 8 * k < n + 8 \<Longrightarrow> byte_size n = k"
  using byte_size_bounds [of n] by linarith

text \<open>What is written for a row is read back, and the reader stops behind the last byte of it.\<close>

lemma row_encode_decode:
  assumes "row_ok es data"
  shows "\<exists>w. row_encode_into nt es data [] = Inr w \<and> row_decode_into es (w @ rest) = Inr (length w, data)"
proof -
  have "ba_ok (0, 0)" "bits (0, 0) = []" by (simp_all add: ba_ok_def bits_def)
  then obtain w rd where 1: "row_encode_loop nt es data [] (0, 0) = Inr (w, rd)" "ba_ok rd" "snd rd < 64"
      "bits_of_bytes w @ bits rd = row_bits es data"
    using row_encode_loop_ok [OF assms, of "(0, 0)" nt "[]"] by auto
  obtain dst rd' where 2: "exhaust_to nt rd = Inr (dst, rd')"
      "take (length (row_bits es data)) (bits_of_bytes (w @ dst)) = row_bits es data"
      "8 * length (w @ dst) < length (row_bits es data) + 8"
    using exhaust_after [OF 1(2-4), of nt] by blast
  have le: "length (row_bits es data) \<le> 8 * length (w @ dst)"
    using arg_cong [OF 2(2), of length] by simp
  then have "bits_at ((w @ dst) @ rest) 0 (row_bits es data)"
    using 2(2) by (intro bits_at_start) (simp del: append_assoc)
  then have "row_decode_into es ((w @ dst) @ rest) = Inr (length (w @ dst), data)"
    using row_decode_loop_ok [OF assms] byte_size_eq [OF le 2(3)] by (simp add: row_decode_into_def)
  moreover have "row_encode_into nt es data [] = Inr (w @ dst)"
    using 1(1) 2(1) assms by (auto simp: row_encode_into_def row_ok_def dest: list_all2_lengthD)
  ultimately show ?thesis by blast
qed

end
