(* ===== verification/Huffman_Stream.thy ===== *)
theory Huffman_Stream
  imports Huffman_Engine
begin

text \<open>
  The streams of \<open>serializer/huffman_encoder.h\<close>: storing a tree (namespace \<open>serialization\<close>) and the
  functions \<open>encode\<close> and \<open>decode\<close>, which put the tree and the encoded message into an integrity frame of
  the compact serializer.
\<close>

section \<open>The stored tree\<close>

record SerializableModel =
  header :: "bool list"
  c_vec :: "word_type list"

text \<open>The test for a leaf looks at \<open>l\<close> only.\<close>

fun to_serializable_model_helper :: "Node \<Rightarrow> SerializableModel \<Rightarrow> SerializableModel result" where
  "to_serializable_model_helper Null op = Inl Null_pointer"
| "to_serializable_model_helper (Node l r c) op =
     (if l = Null then Inr (op\<lparr>header := header op @ [False], c_vec := c_vec op @ [c]\<rparr>)
      else
        bindR (to_serializable_model_helper l (op\<lparr>header := header op @ [True]\<rparr>)) (\<lambda>op1.
          to_serializable_model_helper r op1))"

definition to_serializable_model :: "Node \<Rightarrow> SerializableModel result" where
  "to_serializable_model root = to_serializable_model_helper root \<lparr>header = [], c_vec = []\<rparr>"

text \<open>\<open>None\<close> is a recursion that does not end.\<close>

partial_function (option) to_model_helper ::
    "SerializableModel \<Rightarrow> nat \<Rightarrow> nat \<Rightarrow> (Node \<times> nat \<times> nat) result option" where
  "to_model_helper m bit_cursor word_cursor =
     (if \<not> bit_cursor < length (header m) then Some (Inl Out_of_bounds)
      else if \<not> header m ! bit_cursor then
        (if word_cursor < length (c_vec m)
         then Some (Inr (Node Null Null (c_vec m ! word_cursor), bit_cursor + 1, word_cursor + 1))
         else Some (Inl Out_of_bounds))
      else
        Option.bind (to_model_helper m (bit_cursor + 1) word_cursor) (\<lambda>left. case left of
            Inl e \<Rightarrow> Some (Inl e)
          | Inr (l, bit_cursor, word_cursor) \<Rightarrow>
              Option.bind (to_model_helper m bit_cursor word_cursor) (\<lambda>right. case right of
                  Inl e \<Rightarrow> Some (Inl e)
                | Inr (r, bit_cursor, word_cursor) \<Rightarrow> Some (Inr (Node l r 0, bit_cursor, word_cursor)))))"

definition stored_to_model :: "SerializableModel \<Rightarrow> Node result option" where
  "stored_to_model m =
     map_option (\<lambda>rs. bindR rs (\<lambda>(model, bit_cursor, word_cursor). Inr model)) (to_model_helper m 0 0)"

definition uint32_bits :: nat where
  "uint32_bits = 4 * CHAR_BIT"

definition model_ty :: ty where
  "model_ty = TTuple [TContainer Vector (TArith (UInt 4)), TContainer Vector (TArith (SInt 1)),
     TContainer Vector (TTuple [TArith (SInt 1)])]"

text \<open>The whole words of the header as \<open>uint32_t\<close>, the rest a \<open>char\<close> per bit.\<close>

definition pack_header :: "bool list \<Rightarrow> 32 word list" where
  "pack_header hdr =
     (let bitarr_sz = length hdr div uint32_bits; bitarr_bitlength = bitarr_sz * uint32_bits in
      foldl (\<lambda>bitarr i. let slot = i div uint32_bits; offs = i mod uint32_bits in
               bitarr[slot := or (bitarr ! slot) (push_bit offs (of_bool (hdr ! i)))])
        (replicate bitarr_sz 0) [0..<bitarr_bitlength])"

definition model_object :: "SerializableModel \<Rightarrow> val" where
  "model_object m =
     (let bitarr = pack_header (header m);
          promoted_rem = map of_bool (drop (length bitarr * uint32_bits) (header m))
      in VTuple [VSeq (map (\<lambda>w. VInt (uint w)) bitarr), VSeq (map VInt promoted_rem),
                 VSeq (map (\<lambda>word. VTuple [char_val word]) (c_vec m))])"

definition serialize_stored_model :: "endian \<Rightarrow> SerializableModel \<Rightarrow> bytes result" where
  "serialize_stored_model nt m = integrity_serialize nt 0 model_ty (model_object m)"

definition unpack_header :: "32 word list \<Rightarrow> bool list" where
  "unpack_header bit_arr =
     map (\<lambda>i. let slot = i div uint32_bits; offs = i mod uint32_bits; toggle = push_bit offs 1 in
            and toggle (bit_arr ! slot) \<noteq> 0)
       [0..<length bit_arr * uint32_bits]"

definition val_uint32 :: "val \<Rightarrow> 32 word result" where
  "val_uint32 v = (case v of VInt x \<Rightarrow> Inr (word_of_int x) | _ \<Rightarrow> Inl Type_mismatch)"

definition val_word :: "val \<Rightarrow> word_type result" where
  "val_word v = (case v of VTuple [c] \<Rightarrow> val_char c | _ \<Rightarrow> Inl Type_mismatch)"

text \<open>\<open>bit_cast<bool>\<close> of a byte.\<close>

definition bool_of_char :: "byte \<Rightarrow> bool result" where
  "bool_of_char c = (if c = 0 then Inr False else if c = 1 then Inr True else Inl Invalid_bool)"

definition object_model :: "val \<Rightarrow> SerializableModel result" where
  "object_model v = (case v of
     VTuple [bit_arr, rem, word_vec] \<Rightarrow>
       bindR (val_seq val_uint32 bit_arr) (\<lambda>bit_arr.
       bindR (val_chars rem) (\<lambda>rem.
       bindR (val_seq val_word word_vec) (\<lambda>c_vec.
       bindR (transform_all bool_of_char rem) (\<lambda>rem.
         Inr \<lparr>header = unpack_header bit_arr @ rem, c_vec = c_vec\<rparr>))))
   | _ \<Rightarrow> Inl Type_mismatch)"

definition deserialize_stored_model :: "endian \<Rightarrow> bytes \<Rightarrow> SerializableModel result" where
  "deserialize_stored_model nt bstream =
     bindR (integrity_deserialize_into nt 0 model_ty bstream) object_model"

definition serialize_model :: "endian \<Rightarrow> Node \<Rightarrow> bytes result" where
  "serialize_model nt model =
     (if model = Null then Inl Abort
      else bindR (to_serializable_model model) (serialize_stored_model nt))"

definition deserialize_model :: "endian \<Rightarrow> bytes \<Rightarrow> Node result option" where
  "deserialize_model nt bstream =
     (case deserialize_stored_model nt bstream of
        Inl e \<Rightarrow> Some (Inl e)
      | Inr serializable_model \<Rightarrow> stored_to_model serializable_model)"

section \<open>encode and decode\<close>

definition MAX_ENCODING_SZ_PER_BYTE :: nat where
  "MAX_ENCODING_SZ_PER_BYTE = 6"

definition MAX_ENCODING_OVERHEAD :: nat where
  "MAX_ENCODING_OVERHEAD = 32"

definition MAX_DECODING_SZ_PER_BYTE :: nat where
  "MAX_DECODING_SZ_PER_BYTE = ALPHABET_SIZE * CHAR_BIT"

text \<open>What is written to a buffer of \<open>n\<close> bytes, and cut to what was written by \<open>resize\<close>.\<close>

definition written :: "nat \<Rightarrow> bytes \<Rightarrow> bytes result" where
  "written n bs = (if length bs \<le> n then Inr bs else Inl Out_of_bounds)"

definition encode_into :: "endian \<Rightarrow> bytes \<Rightarrow> Node \<Rightarrow> bytes result" where
  "encode_into nt src huffman_tree =
     bindR (spawn_fast_engine huffman_tree) (\<lambda>engine.
     bindR (engine_encode_into nt engine src [] (0, 0)) (\<lambda>(dst, bit_array). Inr dst))"

definition huffman_decode_into :: "endian \<Rightarrow> bytes \<Rightarrow> Node \<Rightarrow> bytes result option" where
  "huffman_decode_into nt src huffman_tree =
     (case spawn_fast_engine huffman_tree of
        Inl e \<Rightarrow> Some (Inl e)
      | Inr engine \<Rightarrow>
          map_option (\<lambda>rs. bindR rs (\<lambda>(bit_off, dst). Inr dst))
            (fast_decode_into nt engine src 0 (length src * CHAR_BIT) []))"

definition message_ty :: ty where
  "message_ty = TTuple [string_ty, string_ty]"

definition huffman_encode :: "endian \<Rightarrow> heap_algorithms \<Rightarrow> bytes \<Rightarrow> bytes result option" where
  "huffman_encode nt H inp =
     (case count_words nt inp of
        Inl e \<Rightarrow> Some (Inl e)
      | Inr counter \<Rightarrow>
          map_option (\<lambda>built.
            bindR built (\<lambda>model.
            bindR (serialize_model nt model) (\<lambda>model_stream.
              let rs_sz = length inp * MAX_ENCODING_SZ_PER_BYTE + MAX_ENCODING_OVERHEAD in
              bindR (encode_into nt inp model) (\<lambda>dst.
              bindR (written rs_sz dst) (\<lambda>msg.
                integrity_serialize nt 0 message_ty (VTuple [chars_val msg, chars_val model_stream]))))))
            (build nt H counter))"

definition huffman_decode :: "endian \<Rightarrow> bytes \<Rightarrow> bytes result option" where
  "huffman_decode nt inp =
     (case bindR (integrity_deserialize_into nt 0 message_ty inp) (\<lambda>v. case v of
              VTuple [msg, model_stream] \<Rightarrow>
                bindR (val_chars msg) (\<lambda>msg. bindR (val_chars model_stream) (\<lambda>model_stream.
                  Inr (msg, model_stream)))
            | _ \<Rightarrow> Inl Type_mismatch) of
        Inl e \<Rightarrow> Some (Inl e)
      | Inr (msg, model_stream) \<Rightarrow>
          Option.bind (deserialize_model nt model_stream) (\<lambda>stored. case stored of
              Inl e \<Rightarrow> Some (Inl e)
            | Inr model \<Rightarrow>
                let decoded_sz = length msg * MAX_DECODING_SZ_PER_BYTE in
                map_option (\<lambda>rs. bindR rs (written decoded_sz)) (huffman_decode_into nt msg model)))"

section \<open>Round trip of a stored tree\<close>

primrec tree_header :: "Node \<Rightarrow> bool list" where
  "tree_header Null = []"
| "tree_header (Node l r c) = (if l = Null \<and> r = Null then [False] else True # tree_header l @ tree_header r)"

primrec tree_words :: "Node \<Rightarrow> word_type list" where
  "tree_words Null = []"
| "tree_words (Node l r c) = (if l = Null \<and> r = Null then [c] else tree_words l @ tree_words r)"

lemma helper_ok:
  "full_node t \<Longrightarrow> to_serializable_model_helper t op =
     Inr (op\<lparr>header := header op @ tree_header t, c_vec := c_vec op @ tree_words t\<rparr>)"
  by (induction t arbitrary: op) auto

lemma to_serializable_model_ok:
  "full_node t \<Longrightarrow> to_serializable_model t = Inr \<lparr>header = tree_header t, c_vec = tree_words t\<rparr>"
  by (simp add: to_serializable_model_def helper_ok)

lemma to_model_helper_ok:
  "full_node t \<Longrightarrow> header m = h @ tree_header t @ h' \<Longrightarrow> c_vec m = w @ tree_words t @ w' \<Longrightarrow>
   to_model_helper m (length h) (length w) =
     Some (Inr (leaf_words_only t, length h + length (tree_header t), length w + length (tree_words t)))"
proof (induction t arbitrary: h h' w w')
  case (Node l r c)
  show ?case
  proof (cases "l = Null \<and> r = Null")
    case True
    then show ?thesis using Node.prems by (subst to_model_helper.simps) simp
  next
    case False
    then have full: "full_node l" "full_node r" using Node.prems by auto
    have h: "header m = (h @ [True]) @ tree_header l @ (tree_header r @ h')"
        "header m = (h @ True # tree_header l) @ tree_header r @ h'"
      and w: "c_vec m = w @ tree_words l @ (tree_words r @ w')" "c_vec m = (w @ tree_words l) @ tree_words r @ w'"
      using Node.prems False by auto
    have "to_model_helper m (length h + 1) (length w) =
        Some (Inr (leaf_words_only l, length (h @ True # tree_header l), length (w @ tree_words l)))"
      using Node.IH(1) [OF full(1) h(1) w(1)] by simp
    moreover have "to_model_helper m (length (h @ True # tree_header l)) (length (w @ tree_words l)) =
        Some (Inr (leaf_words_only r, length (h @ True # tree_header l) + length (tree_header r),
          length (w @ tree_words l) + length (tree_words r)))"
      by (rule Node.IH(2) [OF full(2) h(2) w(2)])
    moreover have "length h < length (header m)" "header m ! length h"
      using Node.prems False by (auto simp: nth_append)
    ultimately show ?thesis using False by (subst to_model_helper.simps) simp
  qed
qed simp

lemma stored_to_model_ok:
  "full_node t \<Longrightarrow> stored_to_model \<lparr>header = tree_header t, c_vec = tree_words t\<rparr> = Some (Inr (leaf_words_only t))"
  using to_model_helper_ok [of t "\<lparr>header = tree_header t, c_vec = tree_words t\<rparr>" "[]" "[]" "[]" "[]"]
  by (simp add: stored_to_model_def)

section \<open>Objects and what they stand for\<close>

lemma val_seq_words [simp]: "val_seq val_word (VSeq (map (\<lambda>word. VTuple [char_val word]) ws)) = Inr ws"
  by (simp add: val_seq_def transform_all_map val_word_def val_char_def char_val_def)

lemma val_seq_uint32 [simp]: "val_seq val_uint32 (VSeq (map (\<lambda>w. VInt (uint w)) ws)) = Inr ws"
  by (simp add: val_seq_def transform_all_map val_uint32_def)

lemma val_chars_bools [simp]: "val_chars (VSeq (map (VInt \<circ> of_bool) bs)) = Inr (map of_bool bs)"
  by (induction bs) (auto simp: val_chars_def val_seq_def val_char_def bindR_eq_Inr)

lemma bools_of_chars [simp]: "transform_all bool_of_char (map of_bool bs) = Inr bs"
  by (rule transform_all_map) (simp add: bool_of_char_def)

lemma pack_header_bits:
  fixes hdr :: "bool list"
  defines "n \<equiv> length hdr div 32"
  shows "length (pack_header hdr) = n \<and> (\<forall>k < n. \<forall>j < 32. bit (pack_header hdr ! k) j = hdr ! (32 * k + j))"
proof -
  define step where "step = (\<lambda>(bitarr :: 32 word list) i.
    bitarr[i div 32 := or (bitarr ! (i div 32)) (push_bit (i mod 32) (of_bool (hdr ! i)))])"
  have "length (foldl step (replicate n 0) [0..<m]) = n \<and>
      (\<forall>k < n. \<forall>j < 32. bit (foldl step (replicate n 0) [0..<m] ! k) j =
        (32 * k + j < m \<and> hdr ! (32 * k + j)))" if "m \<le> n * 32" for m
    using that
  proof (induction m)
    case (Suc m)
    let ?a = "foldl step (replicate n 0) [0..<m]"
    have IH: "length ?a = n" "\<forall>k < n. \<forall>j < 32. bit (?a ! k) j = (32 * k + j < m \<and> hdr ! (32 * k + j))"
      using Suc by simp_all
    have m: "m div 32 < n" using Suc.prems by (simp add: less_mult_imp_div_less)
    have "bit (step ?a m ! k) j = (32 * k + j < Suc m \<and> hdr ! (32 * k + j))" if "k < n" "j < 32" for k j
    proof (cases "k = m div 32")
      case True
      then have "bit (step ?a m ! k) j = (bit (?a ! k) j \<or> j = m mod 32 \<and> hdr ! m)"
        using m that IH(1) by (auto simp: step_def bit_simps)
      moreover have m_eq: "m = 32 * k + m mod 32" using True by simp
      moreover from m_eq have "32 * k + j < Suc m \<longleftrightarrow> 32 * k + j < m \<or> j = m mod 32" by linarith
      ultimately show ?thesis using IH(2) that by (cases "j = m mod 32") auto
    next
      case False
      then have "32 * k + j \<noteq> m" using that by auto
      then show ?thesis using False IH(2) that by (auto simp: step_def less_Suc_eq)
    qed
    then show ?case using IH(1) by (simp add: step_def)
  qed simp
  moreover have "pack_header hdr = foldl step (replicate n 0) [0..<n * 32]"
    by (simp add: pack_header_def step_def n_def uint32_bits_def Let_def)
  ultimately show ?thesis by auto
qed

lemma unpack_pack_header: "unpack_header (pack_header hdr) = take (length hdr div 32 * 32) hdr"
proof (rule nth_equalityI)
  note pack = pack_header_bits [of hdr]
  show "length (unpack_header (pack_header hdr)) = length (take (length hdr div 32 * 32) hdr)"
    using pack by (simp add: unpack_header_def uint32_bits_def)
  fix i assume "i < length (unpack_header (pack_header hdr))"
  then have i: "i < length hdr div 32 * 32" using pack by (simp add: unpack_header_def uint32_bits_def)
  then have "i div 32 < length hdr div 32" by (simp add: less_mult_imp_div_less)
  then have "bit (pack_header hdr ! (i div 32)) (i mod 32) = hdr ! i" using pack by simp
  then show "unpack_header (pack_header hdr) ! i = take (length hdr div 32 * 32) hdr ! i"
    using i pack by (simp add: unpack_header_def uint32_bits_def bit_iff_and_push_bit_not_eq_0 and.commute Let_def)
qed

lemma object_model_object: "object_model (model_object m) = Inr m"
proof -
  have "pack_header (header m) = pack_header (header m)" ..
  moreover have "length (pack_header (header m)) * 32 = length (header m) div 32 * 32"
    using pack_header_bits [of "header m"] by simp
  ultimately show ?thesis
    by (cases m) (simp add: object_model_def model_object_def unpack_pack_header uint32_bits_def Let_def)
qed

section \<open>The objects have their types\<close>

lemma message_object:
  "length a \<le> max_bytes \<Longrightarrow> length b \<le> max_bytes \<Longrightarrow>
   plain_object message_ty (VTuple [chars_val a, chars_val b])"
  using string_object [of a] string_object [of b] by (simp add: plain_object_def message_ty_def)

lemma model_object_ok:
  assumes "length (header m) \<le> 2 ^ 60" and "length (c_vec m) \<le> 2 ^ 60"
  shows "plain_object model_ty (model_object m)"
proof -
  have "uint w < 256 ^ 4" for w :: "32 word" using uint_lt2p [of w] by simp
  moreover have "length (pack_header (header m)) \<le> 2 ^ 60"
    using pack_header_bits [of "header m"] assms(1) by (simp add: le_trans [OF div_le_dividend])
  moreover have "length (drop (length (pack_header (header m)) * uint32_bits) (header m)) \<le> 2 ^ 60"
    using assms(1) by simp
  moreover have "has_type (TTuple [TArith (SInt 1)]) (VTuple [char_val c])" for c
    using char_val_typed [of c] by simp
  ultimately show ?thesis
    using assms(2)
    by (auto simp: plain_object_def model_ty_def model_object_def linear_has_type is_linear_def elem_width_def
        max_bytes_def Let_def simp del: has_type.simps(10))
qed

section \<open>The size of a stored tree\<close>

lemma count_elements_const:
  "(\<And>e. e \<in> set es \<Longrightarrow> cnt e = Inr k) \<Longrightarrow> count_elements cnt rs es = Inr (rs + k * length es)"
  by (induction es arbitrary: rs) auto

lemma Counter_vector:
  assumes "length vs \<le> max_bytes" and "\<And>e. e \<in> set vs \<Longrightarrow> Counter_count nt t e = Inr k"
    and "is_cpyable_linear_container nt Vector t \<Longrightarrow> arith_size (element_arith t) = k"
  shows "Counter_count nt (TContainer Vector t) (VSeq vs) = Inr (8 + k * length vs)"
proof -
  have "is_safe_integer_castable uint64_t size_t (int (length vs))"
    using assms(1) by (simp add: castable_size_t_u64 max_bytes_def)
  then show ?thesis
    using assms count_elements_const [of vs "Counter_count nt t" k 8]
    by (simp add: Counter_cpyable_container_def Counter_noncpyable_container_def Counter_arithmetic_def mult.commute)
qed

lemma Counter_model:
  assumes "length (header m) \<le> 2 ^ 60" and "length (c_vec m) \<le> 2 ^ 60"
  shows "\<exists>n \<le> 24 + 5 * length (header m) + length (c_vec m). Counter_count nt model_ty (model_object m) = Inr n"
proof -
  let ?p = "pack_header (header m)" and ?r = "drop (length (pack_header (header m)) * uint32_bits) (header m)"
  have p: "length ?p \<le> length (header m)" using pack_header_bits [of "header m"] by (simp add: div_le_dividend)
  have bounds: "length ?p \<le> max_bytes" "length ?r \<le> max_bytes" "length (c_vec m) \<le> max_bytes"
    using p assms by (simp_all add: max_bytes_def)
  have a: "Counter_count nt (TContainer Vector (TArith (UInt 4))) (VSeq (map (\<lambda>w. VInt (uint w)) ?p)) =
      Inr (8 + 4 * length ?p)"
    using bounds(1) by (subst Counter_vector [where k = 4]) (auto simp: Counter_arithmetic_def element_arith_def)
  have b: "Counter_count nt (TContainer Vector (TArith (SInt 1))) (VSeq (map VInt (map of_bool ?r))) =
      Inr (8 + 1 * length ?r)"
    using bounds(2) by (subst Counter_vector [where k = 1]) (auto simp: Counter_arithmetic_def element_arith_def)
  have c: "Counter_count nt (TContainer Vector (TTuple [TArith (SInt 1)]))
      (VSeq (map (\<lambda>word. VTuple [char_val word]) (c_vec m))) = Inr (8 + 1 * length (c_vec m))"
    using bounds(3) by (subst Counter_vector [where k = 1])
      (auto simp: Counter_arithmetic_def Counter_tuple_def is_cpyable_linear_container_def)
  have "Counter_count nt model_ty (model_object m) =
      Inr (8 + 4 * length ?p + (8 + 1 * length ?r + (8 + 1 * length (c_vec m))))"
    using a b c by (simp add: model_ty_def model_object_def Counter_tuple_def Let_def del: Counter_count.simps(10))
  moreover have "8 + 4 * length ?p + (8 + 1 * length ?r + (8 + 1 * length (c_vec m))) \<le>
      24 + 5 * length (header m) + length (c_vec m)"
    using p by simp
  ultimately show ?thesis by blast
qed

lemma serialize_stored_model_ok:
  assumes "length (header m) \<le> 2 ^ 60" and "length (c_vec m) \<le> 2 ^ 60"
  shows "\<exists>bs. serialize_stored_model nt m = Inr bs \<and> length bs \<le> max_bytes \<and>
    deserialize_stored_model nt' bs = Inr m"
proof -
  note obj = model_object_ok [OF assms]
  obtain bs where bs: "integrity_serialize_into nt 0 model_ty (model_object m) = Inr bs"
    using integrity_total [OF obj] by blast
  have "integrity_size nt model_ty (model_object m) = Inr (length bs)"
    by (rule integrity_frame_ok(2) [OF obj bs])
  then have "length bs \<le> 40 + 5 * length (header m) + length (c_vec m)"
    using Counter_model [OF assms, of nt] by (auto simp: integrity_size_def hash_size_def)
  then have "length bs \<le> max_bytes" using assms by (simp add: max_bytes_def)
  then show ?thesis
    using bs integrity_frame_ok(1) [OF obj bs, of nt'] object_model_object [of m]
    by (simp add: serialize_stored_model_def deserialize_stored_model_def integrity_serialize_eq [OF obj])
qed

lemma tree_lengths:
  "full_node t \<Longrightarrow> length (tree_header t) + 1 = 2 * leaf_count t \<and> length (tree_words t) = leaf_count t"
  by (induction t) auto

lemma serialize_model_ok:
  assumes "full_node t" and "leaf_words_only t = t" and "leaf_count t \<le> 2 ^ 58"
  shows "\<exists>bs. serialize_model nt t = Inr bs \<and> length bs \<le> max_bytes \<and>
    deserialize_model nt' bs = Some (Inr t)"
proof -
  let ?m = "\<lparr>header = tree_header t, c_vec = tree_words t\<rparr>"
  have "length (header ?m) \<le> 2 ^ 60" "length (c_vec ?m) \<le> 2 ^ 60"
    using tree_lengths [OF assms(1)] assms(3) by simp_all
  then obtain bs where "serialize_stored_model nt ?m = Inr bs" "length bs \<le> max_bytes"
      "deserialize_stored_model nt' bs = Inr ?m"
    using serialize_stored_model_ok by blast
  moreover have "t \<noteq> Null" using assms(1) by auto
  ultimately show ?thesis
    using stored_to_model_ok [OF assms(1)] assms(1,2)
    by (simp add: serialize_model_def deserialize_model_def to_serializable_model_ok)
qed

section \<open>Round trip of a message\<close>

text \<open>\<open>fib_bound 48\<close> is 12 586 269 025: shorter messages have codes of at most 48 bits.\<close>

lemma fib_bound_8:
  "fib_bound n = a \<Longrightarrow> fib_bound (Suc n) = b \<Longrightarrow>
   fib_bound (n + 8) = 13 * a + 21 * b \<and> fib_bound (Suc (n + 8)) = 21 * a + 34 * b"
  by (simp add: numeral_eq_Suc)

lemma fib_bound_48: "fib_bound 48 = 12586269025"
proof -
  have "fib_bound 8 = 55" "fib_bound (Suc 8) = 89" using fib_bound_8 [of 0 1 2] by simp_all
  then have "fib_bound 16 = 2584" "fib_bound (Suc 16) = 4181" using fib_bound_8 [of 8 55 89] by simp_all
  then have "fib_bound 24 = 121393" "fib_bound (Suc 24) = 196418" using fib_bound_8 [of 16 2584 4181] by simp_all
  then have "fib_bound 32 = 5702887" "fib_bound (Suc 32) = 9227465"
    using fib_bound_8 [of 24 121393 196418] by simp_all
  then have "fib_bound 40 = 267914296" "fib_bound (Suc 40) = 433494437"
    using fib_bound_8 [of 32 5702887 9227465] by simp_all
  then show ?thesis using fib_bound_8 [of 40 267914296 433494437] by simp
qed

lemma message_bits_many:
  assumes "engine_ok e W" and "set m \<subseteq> W"
  shows "length m \<le> length (message_bits e m)"
  using assms(2)
proof (induction m)
  case (Cons c m)
  have "bits (encoding_dict e ! unat c) \<noteq> []"
    using inner_path [OF engine_okD(1,2) [OF assms(1)] engine_okD(3) [OF assms(1)]] Cons.prems by simp
  then have "0 < snd (encoding_dict e ! unat c)" by (metis length_bits length_greater_0_conv)
  moreover have "length m \<le> length (message_bits e m)" using Cons by simp
  ultimately show ?case by (simp add: message_bits_def)
qed simp

context std_heap
begin

text \<open>The tree, the engine and the bits of a message, within the buffer \<open>encode\<close> reserves.\<close>

lemma encode_parts:
  assumes "length inp < 12586269025"
  obtains counter t e w where "count_words nt inp = Inr counter" and "build nt H counter = Some (Inr t)"
    and "full_node t" and "leaf_words_only t = t" and "leaf_count t \<le> 2 ^ 58"
    and "spawn_fast_engine t = Inr e" and "engine_ok e (words t)" and "set inp \<subseteq> words t"
    and "encode_into nt inp t = Inr w" and "length w \<le> length inp * 6 + 32" and "length inp \<le> length w * 8"
    and "decode_into e w 0 [] = Inr (length (message_bits e inp), inp)"
proof -
  obtain counter t where t: "count_words nt inp = Inr counter" "build nt H counter = Some (Inr t)"
      "full_node t" "set inp \<subseteq> words t" "fib_bound (height t) \<le> max 1 (length inp)"
      "leaf_count t \<le> max 1 (length inp)" "leaf_words_only t = t"
    using build_ok [of nt inp] by blast
  have h: "height t \<le> 47"
  proof (rule ccontr)
    assume "\<not> height t \<le> 47"
    then have "fib_bound 48 \<le> fib_bound (height t)" by (intro fib_bound_mono) simp
    then show False using t(5) assms by (simp add: fib_bound_48)
  qed
  then obtain e where e: "spawn_fast_engine t = Inr e" "engine_ok e (words t)" "codes_within e (height t + 1)"
    using spawn_fast_engine_ok [OF t(3)] by auto
  then have within: "codes_within e 48" "codes_within e 63"
    using h by (auto simp: codes_within_def dest!: bspec)
  obtain w rd where w: "engine_encode_into nt e inp [] (0, 0) = Inr (w, rd)"
      "take (length (message_bits e inp)) (bits_of_bytes w) = message_bits e inp"
      "8 * length w < length (message_bits e inp) + 8"
    using engine_encode_ok [OF e(2) within(2) t(4)] by blast
  have len: "length (message_bits e inp) \<le> 48 * (length inp + 1)"
    by (rule message_bits_length [OF e(2) within(1) t(4)])
  have "length (message_bits e inp) \<le> 8 * length w" using arg_cong [OF w(2), of length] by simp
  then have "length inp \<le> length w * 8" using message_bits_many [OF e(2) t(4)] by simp
  moreover have "decode_into e w 0 [] = Inr (length (message_bits e inp), inp)"
    using decode_message [OF e(2) t(4) bits_at_start [OF w(2)], of "[]"] by simp
  moreover have "length w \<le> length inp * 6 + 32" using w(3) len by simp
  moreover have "leaf_count t \<le> 2 ^ 58" using t(6) assms by simp
  ultimately show ?thesis
    using that t e(1,2) w(1) by (simp add: encode_into_def)
qed

lemma huffman_roundtrip:
  assumes "length inp < 12586269025"
  shows "\<exists>bs. huffman_encode nt H inp = Some (Inr bs) \<and> huffman_decode nt' bs = Some (Inr inp)"
proof -
  obtain counter t e w where t: "count_words nt inp = Inr counter" "build nt H counter = Some (Inr t)"
      "full_node t" "leaf_words_only t = t" "leaf_count t \<le> 2 ^ 58"
    and e: "spawn_fast_engine t = Inr e" "engine_ok e (words t)" "set inp \<subseteq> words t"
    and w: "encode_into nt inp t = Inr w" "length w \<le> length inp * 6 + 32" "length inp \<le> length w * 8"
      "decode_into e w 0 [] = Inr (length (message_bits e inp), inp)"
    by (rule encode_parts [OF assms])
  obtain ms where ms: "serialize_model nt t = Inr ms" "length ms \<le> max_bytes"
      "deserialize_model nt' ms = Some (Inr t)"
    using serialize_model_ok [OF t(3-5)] by blast
  have "length w \<le> max_bytes" using w(2) assms by (simp add: max_bytes_def)
  then have obj: "plain_object message_ty (VTuple [chars_val w, chars_val ms])"
    using ms(2) by (rule message_object)
  obtain bs where bs: "integrity_serialize_into nt 0 message_ty (VTuple [chars_val w, chars_val ms]) = Inr bs"
    using integrity_total [OF obj] by blast
  have "huffman_encode nt H inp = Some (Inr bs)"
    using t(1,2) ms(1) w(1,2) bs
    by (simp add: huffman_encode_def written_def MAX_ENCODING_SZ_PER_BYTE_def MAX_ENCODING_OVERHEAD_def
        integrity_serialize_eq [OF obj])
  moreover have "huffman_decode_into nt' w t = Some (Inr inp)"
    using e(1) w(4) fast_decode_eq [OF engine_table [OF e(2)], of "length w * CHAR_BIT" w nt' 0 "[]"]
    by (simp add: huffman_decode_into_def)
  then have "huffman_decode nt' bs = Some (Inr inp)"
    using integrity_frame_ok(1) [OF obj bs, of nt'] ms(3) w(3)
    by (simp add: huffman_decode_def written_def MAX_DECODING_SZ_PER_BYTE_def)
  ultimately show ?thesis by blast
qed

end

end
