(* ===== verification/Huffman_Properties.thy ===== *)
theory Huffman_Properties
  imports Huffman_Stream
begin

text \<open>
  What \<open>serializer/huffman_encoder.h\<close> guarantees: the round trip of messages and of rows, the length of
  the codes, the agreement of the two decoders, that decoding ends on every input and stays within the
  buffer it writes, and that it reads beyond the stream when the stream lacks its delimiter.
\<close>

section \<open>Decoding arbitrary streams\<close>

text \<open>Reading a stored tree ends, and gives a full tree.\<close>

lemma to_model_helper_total:
  "\<exists>r. to_model_helper m bc wc = Some r \<and> (\<forall>t bc' wc'. r = Inr (t, bc', wc') \<longrightarrow> bc < bc' \<and> full_node t)"
proof (induction "length (header m) - bc" arbitrary: bc wc rule: less_induct)
  case less
  show ?case
  proof (cases "bc < length (header m) \<and> header m ! bc")
    case False
    then show ?thesis by (subst to_model_helper.simps) auto
  next
    case True
    then have "length (header m) - (bc + 1) < length (header m) - bc" by (auto intro: diff_less_mono2)
    then obtain r where r: "to_model_helper m (bc + 1) wc = Some r"
        "\<forall>t bc' wc'. r = Inr (t, bc', wc') \<longrightarrow> bc + 1 < bc' \<and> full_node t"
      using less.hyps [of "bc + 1" wc] by blast
    show ?thesis
    proof (cases r)
      case (Inl e)
      then show ?thesis using True r by (subst to_model_helper.simps) simp
    next
      case (Inr x)
      obtain l bc1 wc1 where x: "x = (l, bc1, wc1)" by (cases x)
      then have "bc + 1 < bc1" "full_node l" using Inr r(2) by auto
      moreover from this True have "length (header m) - bc1 < length (header m) - bc" by (auto intro!: diff_less_mono2)
      then obtain r' where "to_model_helper m bc1 wc1 = Some r'"
          "\<forall>t bc' wc'. r' = Inr (t, bc', wc') \<longrightarrow> bc1 < bc' \<and> full_node t"
        using less.hyps [of bc1 wc1] by blast
      ultimately show ?thesis
        using True r(1) Inr x by (subst to_model_helper.simps) (auto split: sum.splits)
    qed
  qed
qed

lemma deserialize_model_total:
  "\<exists>r. deserialize_model nt bs = Some r \<and> (\<forall>t. r = Inr t \<longrightarrow> full_node t)"
proof (cases "deserialize_stored_model nt bs")
  case (Inr m)
  obtain r where "to_model_helper m 0 0 = Some r"
      "\<forall>t bc' wc'. r = Inr (t, bc', wc') \<longrightarrow> full_node t"
    using to_model_helper_total [of m 0 0] by blast
  with Inr show ?thesis
    by (cases r) (auto simp: deserialize_model_def stored_to_model_def)
qed (simp add: deserialize_model_def)

text \<open>Every byte that comes out has cost at least a bit of the stream.\<close>

lemma read_trailing_length:
  "read_trailing inp n i op = Inr (j, op') \<Longrightarrow> length op' = length op + n \<and> j = i + 8 * n \<and> (0 < n \<longrightarrow> j \<le> 8 * length inp)"
proof (induction n arbitrary: i op)
  case (Suc n)
  obtain b where b: "read_ubyte inp i = Inr b" "read_trailing inp n (i + 8) (op @ [b]) = Inr (j, op')"
    using Suc.prems by (auto simp: bindR_eq_Inr)
  have "byte_array_read inp (i + 7) \<noteq> Inl Out_of_bounds"
    using b(1) by (auto simp: read_ubyte_def numeral_eq_Suc bindR_eq_Inr)
  then have "i + 7 < 8 * length inp" by (auto simp: byte_array_read_eq split: if_splits)
  then show ?case using Suc.IH [OF b(2)] by (cases n) auto
qed simp

lemma decode_loop_length:
  "decode_loop root inp cursor i op = Inr (j, op') \<Longrightarrow> length op \<le> i \<Longrightarrow> length op' \<le> 8 * length inp"
proof (induction root inp cursor i op rule: decode_loop.induct)
  case (1 root inp cursor i op)
  obtain tape t where tape: "byte_array_read inp i = Inr tape" and t: "follow cursor tape = Inr t"
    using "1.prems"(1) by (subst (asm) decode_loop.simps) (auto split: sum.splits)
  then have i: "i < 8 * length inp" by (auto simp: byte_array_read_eq split: if_splits)
  note unfolded = "1.prems"(1) [unfolded decode_loop.simps [of root inp cursor i op]]
  consider (inner) "\<not> is_leaf t" | (word) "is_leaf t" "delim_stat t = 0" | (delim) "is_leaf t" "delim_stat t \<noteq> 0"
    by blast
  then show ?case
  proof cases
    case inner
    then show ?thesis using "1.IH"(2) [OF tape t inner] unfolded "1.prems"(2) tape t by simp
  next
    case word
    then show ?thesis using "1.IH"(1) [OF tape t word(1)] unfolded "1.prems"(2) tape t by simp
  next
    case delim
    then have "read_trailing inp (delim_stat t - 1) (i + 1) op = Inr (j, op')"
      using unfolded tape t by simp
    from read_trailing_length [OF this] show ?thesis
      using "1.prems"(2) i by (cases "delim_stat t - 1") auto
  qed
qed

lemma huffman_decode_into_total:
  assumes "full_node t"
  shows "\<exists>r. huffman_decode_into nt src t = Some r \<and> (\<forall>dst. r = Inr dst \<longrightarrow> length dst \<le> 8 * length src)"
proof (cases "spawn_fast_engine t")
  case (Inr e)
  have "fast_decode_into nt e src 0 (length src * CHAR_BIT) [] = Some (decode_into e src 0 [])"
    by (rule fast_decode_eq [OF spawn_table [OF assms Inr]]) simp
  moreover have "length op' \<le> 8 * length src" if "decode_into e src 0 [] = Inr (j, op')" for j op'
    using decode_loop_length that unfolding decode_into_def by fastforce
  ultimately show ?thesis
    using Inr by (auto simp: huffman_decode_into_def bindR_eq_Inr)
qed (simp add: huffman_decode_into_def)

section \<open>Engines of rows\<close>

lemma engine_ok_subset: "engine_ok e W \<Longrightarrow> V \<subseteq> W \<Longrightarrow> engine_ok e V"
  unfolding engine_ok_def by blast

text \<open>The engines of trees that have the bytes of the columns among their words, with codes below 64 bits.\<close>

definition columns_fit :: "Node list \<Rightarrow> bytes list \<Rightarrow> bool" where
  "columns_fit ts data \<longleftrightarrow>
     list_all2 (\<lambda>t m. full_node t \<and> height t < 63 \<and> set m \<subseteq> words t) ts data"

lemma spawn_row_ok:
  "columns_fit ts data \<Longrightarrow> \<exists>es. transform_all spawn_fast_engine ts = Inr es \<and> row_ok es data"
proof (induction ts arbitrary: data)
  case (Cons t ts)
  then obtain m data' where data: "data = m # data'" and t: "full_node t" "height t < 63" "set m \<subseteq> words t"
    and ts: "columns_fit ts data'"
    by (auto simp: columns_fit_def list_all2_Cons1)
  obtain e where e: "spawn_fast_engine t = Inr e" "engine_ok e (words t)" "codes_within e (height t + 1)"
    using spawn_fast_engine_ok [OF t(1)] t(2) by auto
  then have "engine_ok e (set m)" "codes_within e 63"
    using engine_ok_subset t(2,3) by (auto simp: codes_within_def dest!: bspec)
  with e(1) Cons.IH [OF ts] show ?case by (auto simp: data row_ok_def)
qed (simp add: columns_fit_def row_ok_def)

section \<open>Properties\<close>

definition sample_tree :: Node where
  "sample_tree = Node (Node Null Null 97) (Node (Node Null Null 98) (Node Null Null 99) 0) 0"

text \<open>
  C3: What \<open>encode\<close> writes, \<open>decode\<close> reads back to the same string, on machines of either endianness and
  for every implementation of the heap algorithms that keeps the standard's promises, as long as the string
  is shorter than 12 586 269 025 bytes; encoding ends, and stays within the buffer it reserves.
\<close>

theorem huffman_stream_roundtrip:
  assumes "std_heap H P" and "length inp < 12586269025"
  shows "\<exists>bs. huffman_encode nt H inp = Some (Inr bs) \<and> huffman_decode nt' bs = Some (Inr inp)"
  using std_heap.huffman_roundtrip [OF assms] .

lemma huffman_stream_roundtrip_witness:
  "\<exists>bs. huffman_encode Little short_heap_algorithms [104, 101, 108, 108, 111] = Some (Inr bs) \<and>
     huffman_decode Big bs = Some (Inr [104, 101, 108, 108, 111])"
  by (rule huffman_stream_roundtrip [OF short_heap.std_heap_axioms]) simp

text \<open>
  The tree that \<open>build\<close> makes of the counts of a string is full, has every byte of the string at a leaf,
  and has height \<open>h\<close> only if the string has at least \<open>fib_bound h\<close> bytes, the \<open>h\<close>-th Fibonacci number: no
  code is longer than 48 bits for strings below 12 586 269 025 bytes.
\<close>

theorem huffman_code_length:
  assumes "std_heap H P"
  shows "\<exists>counter t. count_words nt buf = Inr counter \<and> build nt H counter = Some (Inr t) \<and> full_node t \<and>
    set buf \<subseteq> words t \<and> fib_bound (height t) \<le> max 1 (length buf)"
  using std_heap.build_ok [OF assms] by blast

lemma huffman_code_length_witness:
  "\<exists>counter t. count_words Big [7, 7, 9] = Inr counter \<and>
     build Big short_heap_algorithms counter = Some (Inr t) \<and> full_node t \<and>
     set [7, 7, 9] \<subseteq> words t \<and> fib_bound (height t) \<le> max 1 (length [7 :: byte, 7, 9])"
  by (rule huffman_code_length [OF short_heap.std_heap_axioms])

text \<open>
  C25: The table decoder \<open>fast_decode_into\<close> ends on every buffer and does exactly what the bit by bit decoder
  \<open>decode_into\<close> does, errors included, for the engine of every full tree and from every bit of the buffer.
\<close>

theorem huffman_fast_decode_equiv:
  assumes "full_node t" and "spawn_fast_engine t = Inr e" and "bit_last \<le> 8 * length inp"
  shows "fast_decode_into nt e inp i bit_last op = Some (decode_into e inp i op)"
  by (rule fast_decode_eq [OF spawn_table [OF assms(1,2)] assms(3)])

lemma huffman_fast_decode_equiv_witness:
  "\<exists>e. spawn_fast_engine sample_tree = Inr e \<and>
     fast_decode_into Little e [0xA5, 0x3C] 3 16 [] = Some (decode_into e [0xA5, 0x3C] 3 [])"
proof -
  have t: "full_node sample_tree" "height sample_tree < 64" by (simp_all add: sample_tree_def)
  obtain e where "spawn_fast_engine sample_tree = Inr e" using spawn_fast_engine_ok [OF t] by blast
  then show ?thesis using huffman_fast_decode_equiv [OF t(1), of e 16 "[0xA5, 0x3C]"] by simp
qed

text \<open>
  \<open>decode\<close> ends or leaves its buffer on every input, whatever bytes it holds: the recursion that reads the stored tree and the
  loop of the table decoder, which may consume no bit in a round, both make progress. In the model leaving the buffer is the
  error \<open>Out_of_bounds\<close>; the code would read on.
\<close>

theorem huffman_decode_total: "\<exists>r. huffman_decode nt inp = Some r"
proof -
  have "\<exists>r. Option.bind (deserialize_model nt ms) (\<lambda>stored. case stored of
      Inl e \<Rightarrow> Some (Inl e)
    | Inr model \<Rightarrow> map_option (\<lambda>rs. bindR rs (written n)) (huffman_decode_into nt msg model)) = Some r"
    for ms msg n
    using deserialize_model_total [of nt ms] huffman_decode_into_total by (fastforce split: sum.splits)
  then show ?thesis
    by (auto simp: huffman_decode_def Let_def split: sum.split)
qed

section \<open>When decoding ends inside its buffer\<close>

text \<open>The codes of the bytes of \<open>m\<close>, closed by the code of a delimiter.\<close>

definition spelt :: "DelimNode \<Rightarrow> bytes \<Rightarrow> bool list \<Rightarrow> bool" where
  "spelt d m bs \<longleftrightarrow> (\<exists>ps q c s. list_all2 (\<lambda>p c. (p, c, 0) \<in> set (paths d)) ps m \<and>
     (q, c, s) \<in> set (paths d) \<and> s \<noteq> 0 \<and> bs = concat ps @ q)"

lemma spelt_Nil: "(q, c, s) \<in> set (paths d) \<Longrightarrow> s \<noteq> 0 \<Longrightarrow> spelt d [] q"
  by (auto simp: spelt_def intro: exI [of _ "[]"])

lemma spelt_Cons: "(p, c, 0) \<in> set (paths d) \<Longrightarrow> spelt d m bs \<Longrightarrow> spelt d (c # m) (p @ bs)"
  unfolding spelt_def by (metis (no_types, lifting) append.assoc concat.simps(2) list_all2_Cons)

text \<open>A full tree leads a long enough bit string to a leaf.\<close>

lemma path_or_short:
  "full t \<Longrightarrow> (\<exists>p x. (p, x) \<in> set (paths t) \<and> bits_at inp i p) \<or>
     (\<forall>root op. \<not> is_leaf t \<longrightarrow> decode_loop root inp t i op = Inl Out_of_bounds)"
proof (induction "8 * length inp - i" arbitrary: t i rule: less_induct)
  case less
  show ?case
  proof (cases "is_leaf t")
    case True
    then show ?thesis using leaf_path [OF True] by (auto simp: bits_at_def)
  next
    case inner: False
    show ?thesis
    proof (cases "i < 8 * length inp")
      case False
      then show ?thesis by (subst decode_loop.simps) (simp add: byte_array_read_eq)
    next
      case True
      let ?b = "bits_of_bytes inp ! i"
      have read: "byte_array_read inp i = Inr ?b" using True by (simp add: byte_array_read_ok)
      have at: "bits_at inp i (?b # p)" if "bits_at inp (i + 1) p" for p
        using that True by (auto simp: bits_at_def Cons_nth_drop_Suc [symmetric])
      obtain l r c s where t: "t = DNode l r c s" "full l" "full r" using less.prems inner by (cases rule: full_cases) auto
      define t' where "t' = (if ?b = L then l else r)"
      have t': "full t'" "follow t ?b = Inr t'" using t by (auto simp: t'_def Let_def)
      have up: "(?b # p, x) \<in> set (paths t)" if "(p, x) \<in> set (paths t')" for p x
        using that t by (cases ?b) (auto simp: t'_def L_def image_iff intro: bexI [of _ "(p, x)"])
      from less.hyps [of "i + 1" t'] t'(1) True consider (path) p x where "(p, x) \<in> set (paths t')" "bits_at inp (i + 1) p"
        | (short) "\<And>root op. \<not> is_leaf t' \<Longrightarrow> decode_loop root inp t' (i + 1) op = Inl Out_of_bounds"
        by (metis diff_less_mono2 less_add_one)
      then show ?thesis
      proof cases
        case path
        then show ?thesis using up at by blast
      next
        case short
        show ?thesis
        proof (cases "is_leaf t'")
          case True
          have "bits_at inp (i + 1) []" by (simp add: bits_at_def)
          then show ?thesis using up [of "[]"] leaf_path [OF True] at by fastforce
        next
          case False
          then show ?thesis using short t'(2) read by (auto simp: decode_loop.simps [of _ inp t])
        qed
      qed
    qed
  qed
qed

lemma decode_spelt:
  assumes root: "full d" "\<not> is_leaf d" and one: "\<forall>x \<in> set (paths d). snd (snd x) \<le> 1"
  shows "list_all2 (\<lambda>p c. (p, c, 0) \<in> set (paths d)) ps m \<Longrightarrow> (q, c, s) \<in> set (paths d) \<Longrightarrow> s \<noteq> 0 \<Longrightarrow>
    bits_at inp i (concat ps @ q) \<Longrightarrow> decode_loop d inp d i op = Inr (i + length (concat ps @ q), op @ m)"
proof (induction ps m arbitrary: i op rule: list_all2_induct)
  case Nil
  then have "s = 1" using one by fastforce
  then show ?case using decode_path [OF root Nil(1), of inp i d op] Nil(3) by simp
next
  case (Cons p ps b m)
  have at: "bits_at inp i p" "bits_at inp (i + length p) (concat ps @ q)"
    using Cons.prems(3) bits_at_append [of inp i p "concat ps @ q"] by simp_all
  show ?case
    using decode_path [OF root Cons.hyps(1) at(1), of d op] Cons.IH [OF Cons.prems(1,2) at(2), of "op @ [b]"] by simp
qed

lemma decode_spelt_or_short:
  assumes root: "full d" "\<not> is_leaf d" and one: "\<forall>x \<in> set (paths d). snd (snd x) \<le> 1"
  shows "(\<exists>m bs. spelt d m bs \<and> bits_at inp i bs \<and> decode_loop d inp d i op = Inr (i + length bs, op @ m)) \<or>
    decode_loop d inp d i op = Inl Out_of_bounds"
proof (induction "8 * length inp - i" arbitrary: i op rule: less_induct)
  case less
  show ?case
  proof (cases "decode_loop d inp d i op = Inl Out_of_bounds")
    case False
    obtain p c s where p: "(p, c, s) \<in> set (paths d)" "bits_at inp i p"
      using path_or_short [OF root(1), of inp i] root(2) False by auto
    note step = decode_path [OF root p, of d op]
    show ?thesis
    proof (cases "s = 0")
      case False
      then have "s = 1" using one p(1) by fastforce
      then show ?thesis using step spelt_Nil [OF p(1)] p(2) by auto
    next
      case True
      have "p \<noteq> []" by (rule inner_path [OF root p(1)])
      then obtain b p' where "p = b # p'" by (cases p) auto
      then have "i < 8 * length inp" using bits_at_read(1) [of inp i b p'] p(2) by (auto simp: byte_array_read_eq split: if_splits)
      then have "8 * length inp - (i + length p) < 8 * length inp - i" using \<open>p \<noteq> []\<close> by (cases p) auto
      from less [OF this, of "op @ [c]"] obtain m bs where "spelt d m bs" "bits_at inp (i + length p) bs"
          "decode_loop d inp d (i + length p) (op @ [c]) = Inr (i + length p + length bs, (op @ [c]) @ m)"
        using step True False by auto
      then show ?thesis using step True p spelt_Cons [of p c d m bs] bits_at_append [of inp i p bs]
        by (intro disjI1 exI [of _ "c # m"] exI [of _ "p @ bs"]) simp
    qed
  qed simp
qed

text \<open>
  C33: decoding ends inside its buffer exactly on the streams of this code. For every full tree the table decoder of \<open>decode\<close> returns the bytes \<open>m\<close>
  just when the bits of the buffer begin with the codes of \<open>m\<close>, one behind the other, and the code of the delimiter. If they begin
  with no such sequence it reads past the end of the buffer, where nothing stops it in the code (\<open>Out_of_bounds\<close>), and in no other way does it
  fail.
\<close>

theorem huffman_decode_exact:
  assumes "full_node t" and "height t < 64" and "to_delim_tree t = Inr d"
  shows "(huffman_decode_into nt src t = Some (Inr m) \<longleftrightarrow> (\<exists>n. spelt d m (take n (bits_of_bytes src)))) \<and>
    ((\<nexists>m n. spelt d m (take n (bits_of_bytes src))) \<longrightarrow> huffman_decode_into nt src t = Some (Inl Out_of_bounds))"
proof -
  have d: "full d" "\<not> is_leaf d" "\<forall>x \<in> set (paths d). snd (snd x) \<le> 1"
    using to_delim_tree_ok [OF assms(1)] assms(3) by auto
  obtain e where e: "spawn_fast_engine t = Inr e" using spawn_fast_engine_ok [OF assms(1,2)] by blast
  then have tree: "delim_tree e = d" using assms(3) by (auto simp: spawn_fast_engine_def bindR_eq_Inr)
  have "fast_decode_into nt e src 0 (length src * CHAR_BIT) [] = Some (decode_into e src 0 [])"
    by (rule fast_decode_eq [OF spawn_table [OF assms(1) e]]) simp
  then have run: "huffman_decode_into nt src t = Some (bindR (decode_loop d src d 0 []) (\<lambda>r. Inr (snd r)))"
    using e by (simp add: huffman_decode_into_def decode_into_def tree case_prod_beta')
  have prefix: "bits_at src 0 bs \<longleftrightarrow> (\<exists>n. bs = take n (bits_of_bytes src))" for bs
  proof
    assume "bits_at src 0 bs"
    then show "\<exists>n. bs = take n (bits_of_bytes src)" by (auto simp: bits_at_def intro: exI [of _ "length bs"])
  next
    assume "\<exists>n. bs = take n (bits_of_bytes src)"
    then show "bits_at src 0 bs" unfolding bits_at_def by (metis append_take_drop_id drop0)
  qed
  let ?r = "decode_loop d src d 0 []"
  have to: "?r = Inr (length bs, m)" if spelt: "spelt d m bs" and at: "bits_at src 0 bs" for m bs
  proof -
    obtain ps q c s where "list_all2 (\<lambda>p c. (p, c, 0) \<in> set (paths d)) ps m" "(q, c, s) \<in> set (paths d)" "s \<noteq> 0" "bs = concat ps @ q"
      using spelt unfolding spelt_def by blast
    from decode_spelt [OF d this(1-3), of src 0 "[]"] this(4) at show ?thesis by simp
  qed
  consider (ends) m' bs where "spelt d m' bs" "bits_at src 0 bs" "?r = Inr (length bs, m')" | (leaves) "?r = Inl Out_of_bounds"
    using decode_spelt_or_short [OF d, of src 0 "[]"] by auto
  then show ?thesis
  proof cases
    case ends
    then obtain n where n: "spelt d m' (take n (bits_of_bytes src))" by (auto simp: prefix)
    have "huffman_decode_into nt src t = Some (Inr m')" using run ends(3) by simp
    moreover have "m' = m" if "spelt d m (take k (bits_of_bytes src))" for k
      using to [OF that] ends(3) prefix by auto
    ultimately show ?thesis using n by auto
  next
    case leaves
    then have none: "\<not> spelt d m' (take k (bits_of_bytes src))" for m' k using to [of m' "take k (bits_of_bytes src)"] prefix by auto
    have "huffman_decode_into nt src t = Some (Inl Out_of_bounds)" using run leaves by simp
    then show ?thesis using none by auto
  qed
qed

lemma huffman_decode_exact_witness:
  "huffman_decode_into Big [14] sample_tree = Some (Inr [97]) \<and> huffman_decode_into Big [] sample_tree = Some (Inl Out_of_bounds)"
proof -
  let ?d = "DNode (DNode DNull DNull 97 0) (DNode (DNode DNull DNull 98 0) (DNode (DNode DNull DNull 99 0) (DNode DNull DNull 0 1) 99 0) 0 0) 0 0"
  have t: "full_node sample_tree" "height sample_tree < 64" "to_delim_tree sample_tree = Inr ?d"
    by (simp_all add: sample_tree_def to_delim_tree_def)
  have "take 4 (bits_of_bytes [14]) = [False, True, True, True]" by code_simp
  then have "spelt ?d [97] (take 4 (bits_of_bytes [14]))"
    using spelt_Cons [of "[False]" 97 ?d "[]" "[True, True, True]"] spelt_Nil [of "[True, True, True]" 0 1 ?d] by simp
  moreover have "\<not> spelt ?d m (take n (bits_of_bytes []))" for m n by (auto simp: spelt_def)
  ultimately show ?thesis using huffman_decode_exact [OF t, of Big "[14]" "[97]"] huffman_decode_exact [OF t, of Big "[]"] by blast
qed

text \<open>
  The bytes that \<open>decode_into\<close> writes for a stored tree fit the buffer of eight bytes for each byte of
  the message that \<open>decode\<close> reserves.
\<close>

theorem huffman_decode_fits:
  assumes "deserialize_model nt ms = Some (Inr t)" and "huffman_decode_into nt msg t = Some (Inr dst)"
  shows "length dst \<le> length msg * MAX_DECODING_SZ_PER_BYTE"
proof -
  have "full_node t" using assms(1) deserialize_model_total [of nt ms] by auto
  from huffman_decode_into_total [OF this, of nt msg] show ?thesis
    using assms(2) by (simp add: MAX_DECODING_SZ_PER_BYTE_def)
qed

lemma sample_decode:
  assumes "spawn_fast_engine sample_tree = Inr e"
  shows "decode_into e [14] 0 [] = Inr (4, [97])"
proof -
  have "to_delim_tree sample_tree = Inr (DNode (DNode DNull DNull 97 0)
      (DNode (DNode DNull DNull 98 0) (DNode (DNode DNull DNull 99 0) (DNode DNull DNull 0 1) 99 0) 0 0) 0 0)"
    by (simp add: to_delim_tree_def sample_tree_def)
  then have "delim_tree e = DNode (DNode DNull DNull 97 0)
      (DNode (DNode DNull DNull 98 0) (DNode (DNode DNull DNull 99 0) (DNode DNull DNull 0 1) 99 0) 0 0) 0 0"
    using assms by (auto simp: spawn_fast_engine_def bindR_eq_Inr)
  moreover have "byte_array_read [14] 0 = Inr False" "byte_array_read [14] (Suc 0) = Inr True"
      "byte_array_read [14] 2 = Inr True" "byte_array_read [14] 3 = Inr True"
    by code_simp+
  ultimately show ?thesis
    by (simp add: decode_into_def decode_loop.simps numeral_2_eq_2 numeral_3_eq_3 numeral_eq_Suc)
qed

lemma huffman_decode_fits_witness:
  "\<exists>ms. deserialize_model Big ms = Some (Inr sample_tree) \<and>
     huffman_decode_into Big [14] sample_tree = Some (Inr [97]) \<and>
     length [97 :: byte] \<le> length [14 :: byte] * MAX_DECODING_SZ_PER_BYTE"
proof -
  have t: "full_node sample_tree" "leaf_words_only sample_tree = sample_tree"
      "leaf_count sample_tree \<le> 2 ^ 58" "height sample_tree < 64"
    by (simp_all add: sample_tree_def)
  obtain ms where ms: "deserialize_model Big ms = Some (Inr sample_tree)"
    using serialize_model_ok [OF t(1-3)] by blast
  obtain e where e: "spawn_fast_engine sample_tree = Inr e" using spawn_fast_engine_ok [OF t(1,4)] by blast
  have "huffman_decode_into Big [14] sample_tree = Some (Inr [97])"
    using e fast_decode_eq [OF spawn_table [OF t(1) e], of 8 "[14]" Big 0 "[]"] sample_decode [OF e]
    by (simp add: huffman_decode_into_def)
  then show ?thesis using ms huffman_decode_fits by blast
qed

text \<open>
  The columns of a row, written one behind the other by \<open>RowEncodingEngine::encode_into\<close>, are read back
  by \<open>decode_into\<close> to the same columns whatever follows in the buffer, and the reader stops behind the last
  byte written; each column has its own tree, with codes of at most 63 bits and its bytes among the words.
\<close>

theorem row_roundtrip:
  assumes "columns_fit ts data"
  shows "\<exists>es w. transform_all spawn_fast_engine ts = Inr es \<and> row_encode_into nt es data [] = Inr w \<and>
    row_decode_into es (w @ rest) = Inr (length w, data)"
  using spawn_row_ok [OF assms] row_encode_decode by blast

lemma row_roundtrip_witness:
  "\<exists>es w. transform_all spawn_fast_engine [sample_tree, sample_tree] = Inr es \<and>
     row_encode_into Little es [[97, 99, 98], []] [] = Inr w \<and>
     row_decode_into es (w @ [1, 2]) = Inr (length w, [[97, 99, 98], []])"
  by (rule row_roundtrip) (simp add: columns_fit_def sample_tree_def)

text \<open>
  \<open>decode\<close> trusts the stream to hold the delimiter: a frame with a good checksum and a good tree, but an
  empty message, makes it read beyond the message.
\<close>

theorem huffman_decode_overruns:
  assumes "full_node t" and "leaf_words_only t = t" and "leaf_count t \<le> 2 ^ 58" and "height t < 64"
  shows "\<exists>ms bs. serialize_model nt t = Inr ms \<and>
    integrity_serialize nt 0 message_ty (VTuple [chars_val [], chars_val ms]) = Inr bs \<and>
    huffman_decode nt' bs = Some (Inl Out_of_bounds)"
proof -
  obtain ms where ms: "serialize_model nt t = Inr ms" "length ms \<le> max_bytes"
      "deserialize_model nt' ms = Some (Inr t)"
    using serialize_model_ok [OF assms(1-3)] by blast
  have obj: "plain_object message_ty (VTuple [chars_val [], chars_val ms])"
    using ms(2) by (intro message_object) simp_all
  obtain bs where bs: "integrity_serialize_into nt 0 message_ty (VTuple [chars_val [], chars_val ms]) = Inr bs"
    using integrity_total [OF obj] by blast
  obtain e where e: "spawn_fast_engine t = Inr e" using spawn_fast_engine_ok [OF assms(1,4)] by blast
  have "decode_into e [] 0 [] = Inl Out_of_bounds"
    unfolding decode_into_def by (subst decode_loop.simps) (simp add: byte_array_read_eq)
  then have "huffman_decode_into nt' [] t = Some (Inl Out_of_bounds)"
    using e fast_decode_eq [OF spawn_table [OF assms(1) e], of 0 "[]" nt' 0 "[]"]
    by (simp add: huffman_decode_into_def)
  then have "huffman_decode nt' bs = Some (Inl Out_of_bounds)"
    using integrity_frame_ok(1) [OF obj bs, of nt'] ms(3) by (simp add: huffman_decode_def)
  then show ?thesis using ms(1) bs by (auto simp: integrity_serialize_eq [OF obj])
qed

lemma huffman_decode_overruns_witness:
  "\<exists>ms bs. serialize_model Little sample_tree = Inr ms \<and>
    integrity_serialize Little 0 message_ty (VTuple [chars_val [], chars_val ms]) = Inr bs \<and>
    huffman_decode Little bs = Some (Inl Out_of_bounds)"
  by (rule huffman_decode_overruns) (simp_all add: sample_tree_def)

end
