(* ===== verification/Compressed_Serializer.thy ===== *)
theory Compressed_Serializer
  imports Huffman_Stream
begin

text \<open>
  \<open>serializer/compressed_serializer.h\<close>: an object is stored as its self-describing stream or as the
  Huffman code of that stream, whichever is shorter, in a variant that is itself stored as a
  self-describing stream. \<open>Streamable\<close> is \<open>std::string\<close>, a list of bytes. \<open>None\<close> is a call that does not
  return, as in \<open>Huffman_Stream\<close>; \<open>Corrupted_format\<close> is also the exception of that name this header has.
\<close>

section \<open>Data\<close>

datatype NormalSerializable = NormalSerializable (normal_data: bytes)

datatype HuffmanSerializable = HuffmanSerializable (huffman_data: bytes)

datatype GenericSerializable =
    Generic_monostate
  | Generic_normal NormalSerializable
  | Generic_huffman HuffmanSerializable

definition GenericSerializable_ty :: ty where
  "GenericSerializable_ty = TReflect [TVariant [TReflect [], TReflect [string_ty], TReflect [string_ty]]]"

primrec generic_object :: "GenericSerializable \<Rightarrow> val" where
  "generic_object Generic_monostate = VTuple [VAlt 0 (VTuple [])]"
| "generic_object (Generic_normal s) = VTuple [VAlt 1 (VTuple [chars_val (normal_data s)])]"
| "generic_object (Generic_huffman s) = VTuple [VAlt 2 (VTuple [chars_val (huffman_data s)])]"

definition object_generic :: "val \<Rightarrow> GenericSerializable result" where
  "object_generic v = (case v of
     VTuple [VAlt i (VTuple vs)] \<Rightarrow>
       (case vs of
          [] \<Rightarrow> if i = 0 then Inr Generic_monostate else Inl Type_mismatch
        | [s] \<Rightarrow>
            if i = 1 then bindR (val_chars s) (\<lambda>data. Inr (Generic_normal (NormalSerializable data)))
            else if i = 2 then bindR (val_chars s) (\<lambda>data. Inr (Generic_huffman (HuffmanSerializable data)))
            else Inl Type_mismatch
        | _ \<Rightarrow> Inl Type_mismatch)
   | _ \<Rightarrow> Inl Type_mismatch)"

section \<open>Operations\<close>

definition huffman_serialize ::
    "endian \<Rightarrow> heap_algorithms \<Rightarrow> ty \<Rightarrow> val \<Rightarrow> HuffmanSerializable result option" where
  "huffman_serialize nt H t obj =
     (case dgstd_serialize nt 0 t obj of
        Inl e \<Rightarrow> Some (Inl e)
      | Inr stream \<Rightarrow>
          map_option (\<lambda>rs. bindR rs (\<lambda>data. Inr (HuffmanSerializable data))) (huffman_encode nt H stream))"

definition huffman_deserialize :: "endian \<Rightarrow> ty \<Rightarrow> HuffmanSerializable \<Rightarrow> val result option" where
  "huffman_deserialize nt t obj =
     map_option (\<lambda>rs. bindR rs (dgstd_deserialize nt 0 t)) (huffman_decode nt (huffman_data obj))"

definition normal_serialize :: "endian \<Rightarrow> ty \<Rightarrow> val \<Rightarrow> NormalSerializable result" where
  "normal_serialize nt t obj = bindR (dgstd_serialize nt 0 t obj) (\<lambda>data. Inr (NormalSerializable data))"

definition normal_deserialize :: "endian \<Rightarrow> ty \<Rightarrow> NormalSerializable \<Rightarrow> val result" where
  "normal_deserialize nt t obj = dgstd_deserialize nt 0 t (normal_data obj)"

definition to_str :: "endian \<Rightarrow> GenericSerializable \<Rightarrow> bytes result" where
  "to_str nt data = dgstd_serialize nt 0 GenericSerializable_ty (generic_object data)"

definition best_serialize ::
    "endian \<Rightarrow> heap_algorithms \<Rightarrow> ty \<Rightarrow> val \<Rightarrow> GenericSerializable result option" where
  "best_serialize nt H t obj =
     map_option (\<lambda>rs.
       bindR rs (\<lambda>opt_0.
       bindR (normal_serialize nt t obj) (\<lambda>opt_1.
         if length (huffman_data opt_0) < length (normal_data opt_1) then Inr (Generic_huffman opt_0)
         else Inr (Generic_normal opt_1))))
       (huffman_serialize nt H t obj)"

definition compressed_deserialize :: "endian \<Rightarrow> ty \<Rightarrow> bytes \<Rightarrow> val result option" where
  "compressed_deserialize nt t streamable =
     (case bindR (dgstd_deserialize nt 0 GenericSerializable_ty streamable) object_generic of
        Inl e \<Rightarrow> Some (Inl e)
      | Inr (Generic_normal s) \<Rightarrow> Some (normal_deserialize nt t s)
      | Inr (Generic_huffman s) \<Rightarrow> huffman_deserialize nt t s
      | Inr Generic_monostate \<Rightarrow> Some (Inl Corrupted_format))"

section \<open>The stored variant\<close>

primrec generic_data :: "GenericSerializable \<Rightarrow> bytes" where
  "generic_data Generic_monostate = []"
| "generic_data (Generic_normal s) = normal_data s"
| "generic_data (Generic_huffman s) = huffman_data s"

lemma generic_object_ok:
  assumes "length (generic_data g) \<le> max_bytes"
  shows "dgstd_object GenericSerializable_ty (generic_object g)"
  using assms string_object
  by (cases g) (auto simp: dgstd_object_def plain_object_def GenericSerializable_ty_def string_ty_def
      simp del: has_type.simps(10))

lemma object_generic_object [simp]: "object_generic (generic_object g) = Inr g"
  by (cases g) (simp_all add: object_generic_def)

interpretation generic_codec: stream_codec "\<lambda>g. length (generic_data g) \<le> max_bytes" "to_str nt"
  "\<lambda>s. bindR (dgstd_deserialize nt 0 GenericSerializable_ty s) object_generic" for nt
  by unfold_locales
    (use dgstd_codec.dec_enc [OF generic_object_ok] in \<open>fastforce simp: to_str_def\<close>)

text \<open>What \<open>to_str\<close> adds to the data: the headers of the three layers, their sizes, the digest and the flag of the byte order.\<close>

lemma string_count: "DgStdCounter_count nt string_ty (chars_val bs) = Inr n \<Longrightarrow> n = length bs + 13"
  by (auto simp: string_ty_def chars_val_def is_cpyable_linear_container_def is_linear_def element_arith_def
      DgStdCounter_cpyable_container_def DgStdCounter_arithmetic_def DgStdCounter_header_def addR_def split: if_splits)

lemma to_str_size:
  assumes "length (generic_data g) \<le> max_bytes" and "g \<noteq> Generic_monostate" and "to_str nt g = Inr s"
  shows "length s = length (generic_data g) + 38"
proof -
  have "dgstd_serialize_into nt 0 GenericSerializable_ty (generic_object g) = Inr s"
    using assms(3) dgstd_serialize_iff [OF generic_object_ok [OF assms(1)]] by (simp add: to_str_def)
  from dgstd_frame_size [OF this] assms(2) show ?thesis
    by (cases g) (auto simp: dgstd_size_def GenericSerializable_ty_def DgStdCounter_arithmetic_def DgStdCounter_header_def
        DgStdCounter_reflectible_def DgStdCounter_variant_def addR_def hash_size_def bindR_eq_Inr dest!: string_count split: if_splits)
qed

section \<open>Properties\<close>

text \<open>
  C34: An object whose self-describing stream is shorter than 12 586 269 025 bytes is stored by
  \<open>best_serialize\<close> and \<open>to_str\<close> and read back by \<open>deserialize\<close>, whichever of the two codes was chosen. The data that \<open>best_serialize\<close> chooses
  is no longer than the self-describing stream; \<open>to_str\<close> frames it with 38 more bytes.
\<close>

theorem compressed_roundtrip:
  assumes "std_heap H P" and "dgstd_object t obj" and "dgstd_serialize nt 0 t obj = Inr stream"
    and "length stream < 12586269025"
  shows "\<exists>g s. best_serialize nt H t obj = Some (Inr g) \<and> length (generic_data g) \<le> length stream \<and>
    to_str nt g = Inr s \<and> length s = length (generic_data g) + 38 \<and> compressed_deserialize nt t s = Some (Inr obj)"
proof -
  obtain code where code: "huffman_encode nt H stream = Some (Inr code)" "huffman_decode nt code = Some (Inr stream)"
    using std_heap.huffman_roundtrip [OF assms(1,4)] by blast
  have dec: "dgstd_deserialize nt 0 t stream = Inr obj"
    by (rule dgstd_codec.dec_of_enc [OF assms(2,3)])
  define g where "g = (if length code < length stream then Generic_huffman (HuffmanSerializable code)
      else Generic_normal (NormalSerializable stream))"
  have len: "length (generic_data g) \<le> length stream" by (simp add: g_def)
  then have small: "length (generic_data g) \<le> max_bytes" using assms(4) by (simp add: max_bytes_def)
  then obtain s where s: "to_str nt g = Inr s"
      "bindR (dgstd_deserialize nt 0 GenericSerializable_ty s) object_generic = Inr g"
    using generic_codec.dec_enc by blast
  have "best_serialize nt H t obj = Some (Inr g)"
    using code(1) assms(3) by (simp add: best_serialize_def huffman_serialize_def normal_serialize_def g_def)
  moreover have "compressed_deserialize nt t s = Some (Inr obj)"
    using s(2) code(2) dec
    by (simp add: compressed_deserialize_def normal_deserialize_def huffman_deserialize_def g_def)
  moreover have "g \<noteq> Generic_monostate" by (simp add: g_def)
  note to_str_size [OF small this s(1)]
  ultimately show ?thesis using len s(1) by blast
qed

lemma compressed_roundtrip_witness:
  "\<exists>g s. best_serialize Little short_heap_algorithms (TArith (UInt 2)) (VInt 513) = Some (Inr g) \<and>
    length (generic_data g) \<le> 20 \<and>
    to_str Little g = Inr s \<and> length s = length (generic_data g) + 38 \<and>
    compressed_deserialize Little (TArith (UInt 2)) s = Some (Inr (VInt 513))"
proof -
  have ok: "dgstd_object (TArith (UInt 2)) (VInt 513)" by (simp add: dgstd_object_def)
  obtain stream where stream: "dgstd_serialize_into Little 0 (TArith (UInt 2)) (VInt 513) = Inr stream"
    using dgstd_total [OF ok] by blast
  have "length stream = 20"
    using dgstd_frame_size [OF stream]
    by (simp add: dgstd_size_def DgStdCounter_arithmetic_def hash_size_def)
  then show ?thesis
    using compressed_roundtrip [OF short_heap.std_heap_axioms ok dgstd_serialize_eq [OF stream]] by simp
qed

text \<open>
  A stream that stores the empty alternative is read without reaching a decoder and refused with
  \<open>corrupted_format\<close>, for every type asked for.
\<close>

theorem compressed_monostate_refused:
  "\<exists>s. to_str nt Generic_monostate = Inr s \<and> compressed_deserialize nt t s = Some (Inl Corrupted_format)"
proof -
  obtain s where "to_str nt Generic_monostate = Inr s"
      "bindR (dgstd_deserialize nt 0 GenericSerializable_ty s) object_generic = Inr Generic_monostate"
    using generic_codec.dec_enc [of Generic_monostate nt] by auto
  then show ?thesis by (simp add: compressed_deserialize_def)
qed

end
