(* ===== verification/Dgstd_Typing.thy ===== *)
theory Dgstd_Typing
  imports Char_Objects
begin

text \<open>
  What \<open>archive::DgStdBackward\<close> returns on bytes that nobody wrote, for the types a packet is made of: an
  object of the type, or \<open>corrupted_format\<close>. It is what lets a receiver convert what it reads without
  another check.
\<close>

section \<open>Types on the wire\<close>

text \<open>
  Integers and IEEE numbers the headers know, variants, tuples, structs, and vectors behind a
  \<open>ContainerWrapper\<close> whose size field has at most four bytes. No \<open>bool\<close>: a byte other than 0 and 1 has no
  meaning as one.
\<close>

fun wire_ty :: "ty \<Rightarrow> bool" where
  "wire_ty (TArith a) \<longleftrightarrow> a \<noteq> Bool \<and> 0 < arith_size a \<and> (\<exists>h. get_dgstd_serialization_header (TArith a) = Inr h)"
| "wire_ty (TVariant ts) \<longleftrightarrow> length ts \<le> 256 \<and> list_all wire_ty ts"
| "wire_ty (TTuple ts) \<longleftrightarrow> list_all wire_ty ts"
| "wire_ty (TReflect ts) \<longleftrightarrow> list_all wire_ty ts"
| "wire_ty (TWrap w k t) \<longleftrightarrow> w \<in> {1, 2, 4} \<and> k = Vector \<and> wire_ty t"
| "wire_ty _ \<longleftrightarrow> False"

section \<open>A parser that yields good values\<close>

definition yields :: "('a \<Rightarrow> bool) \<Rightarrow> 'a parser \<Rightarrow> bool" where
  "yields good p \<longleftrightarrow> (\<forall>bs. (case p bs of Inl e \<Rightarrow> e = Corrupted_format | Inr (v, rest) \<Rightarrow> good v))"

named_theorems yields_intros "what a composed parser yields"

lemma yields_cases:
  assumes "yields good p"
  obtains "p bs = Inl Corrupted_format" | v rest where "p bs = Inr (v, rest)" and "good v"
proof (cases "p bs")
  case (Inl e)
  have "case p bs of Inl e \<Rightarrow> e = Corrupted_format | Inr (v, rest) \<Rightarrow> good v"
    using assms by (simp add: yields_def)
  then show ?thesis using Inl that(1) by simp
next
  case (Inr r)
  have "case p bs of Inl e \<Rightarrow> e = Corrupted_format | Inr (v, rest) \<Rightarrow> good v"
    using assms by (simp add: yields_def)
  then show ?thesis using Inr that(2) by (cases r) simp
qed

lemma yields_returnP [yields_intros]: "good v \<Longrightarrow> yields good (returnP v)"
  by (simp add: yields_def)

lemma yields_corrupted [yields_intros]: "yields good (failP Corrupted_format)"
  by (simp add: yields_def)

lemma yields_bindP:
  assumes "yields good p" and "\<And>v. good v \<Longrightarrow> yields good' (f v)"
  shows "yields good' (bindP p f)"
  unfolding yields_def
proof
  fix bs
  show "case bindP p f bs of Inl e \<Rightarrow> e = Corrupted_format | Inr (v, rest) \<Rightarrow> good' v"
  proof (cases rule: yields_cases [OF assms(1), of bs])
    case (2 v rest)
    then show ?thesis using assms(2) [of v] by (simp add: yields_def)
  qed simp
qed

lemma arithmetic_yields [yields_intros]:
  assumes "wire_ty (TArith a)"
  shows "yields (arith_typed a) (DgStdBackward_arithmetic nt a)"
  unfolding yields_def
proof
  fix bs
  obtain h where h: "get_dgstd_serialization_header (TArith a) = Inr h" and a: "a \<noteq> Bool" "0 < arith_size a"
    using assms by auto
  show "case DgStdBackward_arithmetic nt a bs of Inl e \<Rightarrow> e = Corrupted_format | Inr (v, rest) \<Rightarrow> arith_typed a v"
  proof (cases "length bs < arith_size a + 1")
    case False
    let ?src = "take (arith_size a) (drop 1 bs)"
    have len: "arith_size a \<le> length (drop 1 bs)" using False by simp
    then have "length ?src = arith_size a" by (simp only: length_take min_absorb2)
    then have bound: "le_uint ?src < 256 ^ arith_size a" using le_uint_less [of ?src] by metis
    obtain v where v: "of_bits a (le_uint ?src) = Inr v" using a(1) by (cases a) simp_all
    have typed: "arith_typed a v" by (rule of_bits_typed [OF v _ bound a(2)]) simp
    have data: "load nt a (drop 1 bs) = Inr v" using load_eq [OF len] v by simp
    have "load nt (UInt 1) bs = Inr (VInt (le_uint (take 1 bs)))"
      using False by (subst load_eq) simp_all
    then show ?thesis
      using h data typed False unfolding DgStdBackward_arithmetic_def by (simp del: One_nat_def)
  qed (simp add: DgStdBackward_arithmetic_def)
qed

lemma header_yields [yields_intros]:
  assumes "\<exists>h. get_dgstd_serialization_header t = Inr h"
  shows "yields (\<lambda>_. True) (DgStdBackward_header nt t)"
proof -
  obtain h where h: "get_dgstd_serialization_header t = Inr h" using assms by blast
  have "yields (arith_typed (UInt 1)) (DgStdBackward_arithmetic nt (UInt 1))"
    by (rule arithmetic_yields) simp
  then show ?thesis unfolding DgStdBackward_header_def
    by (rule yields_bindP) (simp add: h liftP_def bindP_def yields_def)
qed

lemma insert_loop_yields:
  assumes "yields good p" and "\<forall>v \<in> set data. good v"
  shows "yields (\<lambda>vs. length vs = length data + n \<and> (\<forall>v \<in> set vs. good v)) (insert_loop p (get_inserter Vector t) n data)"
  using assms(2)
proof (induction n arbitrary: data)
  case 0
  then show ?case by (simp add: yields_def)
next
  case (Suc n)
  show ?case unfolding insert_loop.simps
  proof (rule yields_bindP [OF assms(1)])
    fix v assume "good v"
    moreover have "get_inserter Vector t data v = data @ [v]" by (simp add: get_inserter_def is_linear_def)
    ultimately show "yields (\<lambda>vs. length vs = length data + Suc n \<and> (\<forall>v \<in> set vs. good v))
        (insert_loop p (get_inserter Vector t) n (get_inserter Vector t data v))"
      using Suc.IH [of "data @ [v]"] Suc.prems by simp
  qed
qed

lemma wrap_bound:
  assumes "w \<in> {1, 2, 4}" and "arith_typed (UInt w) v"
  shows "int (as_nat v) < 256 ^ w \<and> as_nat v \<le> max_bytes"
proof -
  obtain x where x: "v = VInt x" "0 \<le> x" "x < 256 ^ w" using assms(2) by (cases v) auto
  have "(256 :: int) ^ w \<le> 256 ^ 4" using assms(1) by auto
  then have "x < 2 ^ 32" using x(3) by simp
  then show ?thesis using x by (simp add: max_bytes_def)
qed

section \<open>What the reader yields\<close>

lemma DgStdBackward_yields:
  shows "wire_ty t \<Longrightarrow> yields (has_type t) (DgStdBackward_put nt t)"
    and "list_all wire_ty ts \<Longrightarrow> yields (have_types ts) (DgStdBackward_put_all nt ts)"
    and "list_all wire_ty ts \<Longrightarrow> i < length ts \<Longrightarrow> yields (alt_has_type ts i) (DgStdBackward_put_alt nt ts i)"
proof (induction nt t and nt ts and nt ts i
    rule: DgStdBackward_put_DgStdBackward_put_all_DgStdBackward_put_alt.induct)
  case (1 nt a)
  then have "yields (arith_typed a) (DgStdBackward_arithmetic nt a)" by (rule arithmetic_yields)
  then show ?case using 1 by (simp add: yields_def)
next
  case (4 nt ts)
  have idx: "yields (arith_typed (UInt 1)) (DgStdBackward_arithmetic nt (UInt 1))"
    by (rule arithmetic_yields) simp
  show ?case unfolding DgStdBackward_put.simps DgStdBackward_variant_def
  proof (rule yields_bindP [OF header_yields], simp, rule yields_bindP [OF idx])
    fix v assume "arith_typed (UInt 1) v"
    show "yields (has_type (TVariant ts))
       (if length ts \<le> as_nat v then failP Corrupted_format
        else bindP (DgStdBackward_put_alt nt ts (as_nat v)) (\<lambda>containee. returnP (VAlt (as_nat v) containee)))"
    proof (cases "length ts \<le> as_nat v")
      case False
      then have "yields (alt_has_type ts (as_nat v)) (DgStdBackward_put_alt nt ts (as_nat v))"
        using 4 by simp
      then have "yields (has_type (TVariant ts))
          (bindP (DgStdBackward_put_alt nt ts (as_nat v)) (\<lambda>containee. returnP (VAlt (as_nat v) containee)))"
        by (rule yields_bindP) (use 4(2) in \<open>simp add: yields_def\<close>)
      then show ?thesis using False by simp
    qed (simp add: yields_corrupted)
  qed
next
  case (8 nt ts)
  then have "yields (have_types ts) (DgStdBackward_put_all nt ts)" by simp
  then show ?case unfolding DgStdBackward_put.simps DgStdBackward_tuple_def
    by (intro yields_bindP [OF header_yields]) (auto intro!: yields_bindP yields_returnP)
next
  case (9 nt ts)
  then have "yields (have_types ts) (DgStdBackward_put_all nt ts)" by simp
  then show ?case unfolding DgStdBackward_put.simps DgStdBackward_reflectible_def
    by (intro yields_bindP [OF header_yields]) (auto intro!: yields_bindP yields_returnP)
next
  case (11 nt w k t)
  then have elem: "yields (has_type t) (DgStdBackward_put nt t)" and w: "w \<in> {1, 2, 4}" and k: "k = Vector"
    by auto
  have size: "yields (arith_typed (UInt w)) (DgStdBackward_arithmetic nt (UInt w))"
    using w by (intro arithmetic_yields) auto
  show ?case unfolding DgStdBackward_put.simps DgStdBackward_wrapper_def
  proof (rule yields_bindP [OF header_yields], simp, rule yields_bindP [OF size])
    fix v assume v: "arith_typed (UInt w) v"
    have "yields (\<lambda>vs. length vs = length ([] :: val list) + as_nat v \<and> (\<forall>u \<in> set vs. has_type t u))
        (insert_loop (DgStdBackward_put nt t) (get_inserter k t) (as_nat v) [])"
      unfolding k by (rule insert_loop_yields [OF elem]) simp
    then show "yields (has_type (TWrap w k t))
        (bindP (insert_loop (DgStdBackward_put nt t) (get_inserter k t) (as_nat v) []) (\<lambda>data. returnP (VSeq data)))"
      by (rule yields_bindP) (use wrap_bound [OF w v] w k in \<open>auto simp: yields_def content_ok_def is_linear_def\<close>)
  qed
next
  case (13 nt t ts)
  then have "yields (has_type t) (DgStdBackward_put nt t)" "yields (have_types ts) (DgStdBackward_put_all nt ts)"
    by simp_all
  then show ?case unfolding DgStdBackward_put_all.simps
    by (auto intro!: yields_bindP [where good = "has_type t"] yields_bindP [where good = "have_types ts"] yields_returnP)
next
  case (15 nt t ts i)
  then show ?case by (cases i) auto
qed (simp_all add: yields_def)


lemma read_exactly_yields:
  assumes "yields good p"
  shows "read_exactly p bs = Inl Corrupted_format \<or> (\<exists>v. read_exactly p bs = Inr v \<and> good v)"
  by (cases rule: yields_cases [OF assms, of bs]) (auto simp: read_exactly_def)

text \<open>The frame around it: a digest and a version that match, then the reader on the content.\<close>

lemma dgstd_deserialize_cases:
  assumes "dgstd_deserialize_into nt secret t bs = r"
  shows "r = Inl Corrupted_format \<or> r = Inl Bad_version_control
    \<or> (\<exists>content hb. bs = content @ hb @ [1] \<and> length hb = hash_size
         \<and> deserialize_into nt hash_ty (hb @ [1]) = Inr (hash_val (hash content secret), [1])
         \<and> r = read_exactly (DgStdBackward_put nt t) content)"
proof (cases "length bs < hash_size + 1")
  case False
  define content where "content = take (length bs - (hash_size + 1)) bs"
  define tl' where "tl' = drop (length bs - (hash_size + 1)) bs"
  have bs: "bs = content @ tl'" by (simp add: content_def tl'_def)
  have len: "length tl' = hash_size + 1" using False by (simp add: tl'_def)
  define hb where "hb = take hash_size tl'"
  obtain version where tl': "tl' = hb @ [version]"
  proof -
    have "length (drop hash_size tl') = 1" using len by simp
    then obtain x where "drop hash_size tl' = [x]" unfolding One_nat_def length_Suc_conv by auto
    then show thesis using that [of x] append_take_drop_id [of hash_size tl'] by (simp add: hb_def)
  qed
  have hb: "length hb = hash_size" using len by (simp add: hb_def)
  obtain a b where ab: "deserialize_into nt hash_ty tl' = Inr (VTuple [VInt a, VInt b], drop hash_size tl')"
    using Backward_tuple_u64_in_bounds [of tl' nt] len by auto
  have rest: "drop hash_size tl' = [version]" using hb by (simp add: tl')
  have eq: "dgstd_deserialize_into nt secret t bs =
      (if VInt (uint version) \<noteq> VInt SERIALIZATION_VERSION_CONTROL then Inl Bad_version_control
       else if VTuple [VInt a, VInt b] \<noteq> hash_val (hash content secret) then Inl Corrupted_format
       else read_exactly (DgStdBackward_put nt t) content)"
    using False ab rest unfolding dgstd_deserialize_into_def Let_def content_def [symmetric] tl'_def [symmetric]
    by (simp add: version_get)
  show ?thesis
  proof (cases "uint version = 1 \<and> VTuple [VInt a, VInt b] = hash_val (hash content secret)")
    case True
    then have "version = 1" by (metis uint_1 word_uint_eqI)
    then show ?thesis using True eq assms ab rest hb bs tl' by (auto simp: SERIALIZATION_VERSION_CONTROL_def)
  qed (use eq assms in \<open>auto simp: SERIALIZATION_VERSION_CONTROL_def split: if_splits\<close>)
qed (use assms in \<open>simp add: dgstd_deserialize_into_def\<close>)

lemma dgstd_deserialize_yields:
  assumes "wire_ty t"
  shows "dgstd_deserialize_into nt secret t bs \<in> {Inl Corrupted_format, Inl Bad_version_control}
    \<or> (\<exists>v. dgstd_deserialize_into nt secret t bs = Inr v \<and> has_type t v)"
proof -
  have "read_exactly (DgStdBackward_put nt t) content = Inl Corrupted_format
      \<or> (\<exists>v. read_exactly (DgStdBackward_put nt t) content = Inr v \<and> has_type t v)" for content
    by (rule read_exactly_yields [OF DgStdBackward_yields(1) [OF assms]])
  then show ?thesis using dgstd_deserialize_cases [OF refl, of nt secret t bs] by (metis insertCI)
qed

text \<open>
  C38: what is read has the type it is read at. On bytes of any origin \<open>dgstd_deserialize\<close> of a type made of numbers,
  variants, tuples, structs and counted vectors either throws one of two exceptions or returns an object of that type:
  every index of a variant names an alternative, every number is in range, every vector within the bound of its size field.
\<close>
theorem dgstd_read_typed:
  assumes "wire_ty t"
  shows "(\<exists>e. dgstd_deserialize nt secret t bs = Inl e \<and> (e = Corrupted_format \<or> e = Bad_version_control))
    \<or> (\<exists>v. dgstd_deserialize nt secret t bs = Inr v \<and> has_type t v)"
  using dgstd_deserialize_yields [OF assms, of nt secret bs] unfolding dgstd_deserialize_def by auto

theorem dgstd_read_typed_witness:
  "wire_ty (TReflect [TArith (UInt 2), TVariant [TArith (SInt 4)], TWrap 2 Vector (TArith (UInt 8))])
   \<and> ((\<exists>e. dgstd_deserialize Little 9 (TReflect [TArith (UInt 2), TVariant [TArith (SInt 4)], TWrap 2 Vector (TArith (UInt 8))])
             [1, 2, 3] = Inl e \<and> (e = Corrupted_format \<or> e = Bad_version_control))
    \<or> (\<exists>v. dgstd_deserialize Little 9 (TReflect [TArith (UInt 2), TVariant [TArith (SInt 4)], TWrap 2 Vector (TArith (UInt 8))])
             [1, 2, 3] = Inr v
         \<and> has_type (TReflect [TArith (UInt 2), TVariant [TArith (SInt 4)], TWrap 2 Vector (TArith (UInt 8))]) v))"
proof
  show "wire_ty (TReflect [TArith (UInt 2), TVariant [TArith (SInt 4)], TWrap 2 Vector (TArith (UInt 8))])" by simp
  from dgstd_read_typed [OF this]
  show "(\<exists>e. dgstd_deserialize Little 9 (TReflect [TArith (UInt 2), TVariant [TArith (SInt 4)], TWrap 2 Vector (TArith (UInt 8))])
             [1, 2, 3] = Inl e \<and> (e = Corrupted_format \<or> e = Bad_version_control))
    \<or> (\<exists>v. dgstd_deserialize Little 9 (TReflect [TArith (UInt 2), TVariant [TArith (SInt 4)], TWrap 2 Vector (TArith (UInt 8))])
             [1, 2, 3] = Inr v
         \<and> has_type (TReflect [TArith (UInt 2), TVariant [TArith (SInt 4)], TWrap 2 Vector (TArith (UInt 8))]) v)" .
qed

end
