(* ===== verification/Compact_Trivial_Serializer.thy ===== *)
theory Compact_Trivial_Serializer
  imports Char_Objects Trivial_Serializer
begin

text \<open>
  \<open>internal_rest/network_compact_trivial_serializer.h\<close>: the fixed-layout bytes of an object, as an array of
  characters in a self-describing frame. The serializers this header includes,
  \<open>internal_rest/network_compact_serializer.h\<close> and \<open>internal_rest/network_trivial_serializer.h\<close>, are those of
  \<open>serializer/\<close> in another namespace (the header number of a \<open>ContainerWrapper\<close> is one lower there).
\<close>

definition compact_trivial_size :: "endian \<Rightarrow> ty \<Rightarrow> nat result" where
  "compact_trivial_size nt t =
     (let TRIVIAL_SZ = trivial_size t
      in dgstd_size nt (array_ty TRIVIAL_SZ) (array_val (replicate TRIVIAL_SZ 0)))"

definition compact_trivial_serialize_into :: "endian \<Rightarrow> 32 word \<Rightarrow> ty \<Rightarrow> val \<Rightarrow> bytes result" where
  "compact_trivial_serialize_into nt secret t obj =
     (let TRIVIAL_SZ = trivial_size t
      in bindR (trivial_serialize_into nt t (replicate TRIVIAL_SZ 0) 0 obj) (\<lambda>(static_representation, _).
           dgstd_serialize_into nt secret (array_ty TRIVIAL_SZ) (array_val static_representation)))"

definition compact_trivial_deserialize_into :: "endian \<Rightarrow> 32 word \<Rightarrow> ty \<Rightarrow> bytes \<Rightarrow> val result" where
  "compact_trivial_deserialize_into nt secret t buf =
     (let TRIVIAL_SZ = trivial_size t
      in bindR (dgstd_deserialize_into nt secret (array_ty TRIVIAL_SZ) buf) (\<lambda>v.
         bindR (val_array v) (\<lambda>static_representation.
         bindR (trivial_deserialize_into nt t static_representation 0) (\<lambda>(obj, _). Inr obj))))"

definition compact_trivial_serialize :: "endian \<Rightarrow> 32 word \<Rightarrow> ty \<Rightarrow> val \<Rightarrow> bytes result" where
  "compact_trivial_serialize nt secret t obj =
     bindR (compact_trivial_size nt t) (\<lambda>n. bindR (compact_trivial_serialize_into nt secret t obj) (fill n))"

definition compact_trivial_deserialize :: "endian \<Rightarrow> 32 word \<Rightarrow> ty \<Rightarrow> bytes \<Rightarrow> val result" where
  "compact_trivial_deserialize nt secret t stream = compact_trivial_deserialize_into nt secret t stream"

section \<open>Size and round trip\<close>

definition trivial_object :: "ty \<Rightarrow> val \<Rightarrow> bool" where
  "trivial_object t v \<longleftrightarrow> is_serializable t \<and> has_type t v"

lemma array_object: "dgstd_object (array_ty (length s)) (array_val s)"
  by (simp add: dgstd_object_def array_typed)

text \<open>The size of an array of characters does not depend on the characters.\<close>

lemma array_count:
  "DgStdCounter_count_all nt (replicate (length s) (TArith (SInt 1))) (map char_val s) = Inr (2 * length s)"
  by (induction s) (simp_all add: DgStdCounter_arithmetic_def addR_def)

lemma array_size: "dgstd_size nt (array_ty (length s)) (array_val s) = Inr (2 * length s + 19)"
  by (simp add: dgstd_size_def array_ty_def array_val_def DgStdCounter_tuple_def DgStdCounter_header_def
      DgStdCounter_arithmetic_def addR_def array_count [simplified] hash_size_def)

lemma compact_trivial_size_eq: "compact_trivial_size nt t = Inr (2 * trivial_size t + 19)"
  using array_size [of nt "replicate (trivial_size t) 0"] by (simp add: compact_trivial_size_def Let_def)

lemma compact_trivial_ok:
  assumes "trivial_object t v"
  shows "\<exists>bs. compact_trivial_serialize_into nt secret t v = Inr bs \<and> length bs = 2 * trivial_size t + 19 \<and>
    compact_trivial_deserialize_into nt secret t bs = Inr v"
proof -
  obtain s where s: "trivial_serialize_into nt t (replicate (trivial_size t) 0) 0 v = Inr (s, trivial_size t)"
      "length s = trivial_size t" "trivial_deserialize_into nt t s 0 = Inr (v, trivial_size t)"
    using trivial_roundtrip [of t v 0 "replicate (trivial_size t) 0" nt nt] assms
    by (auto simp: trivial_object_def)
  obtain bs where bs: "dgstd_serialize_into nt secret (array_ty (length s)) (array_val s) = Inr bs"
    using dgstd_total [OF array_object] by blast
  obtain content where content: "DgStdForward_put nt (array_ty (length s)) (array_val s) = Inr content"
    using dgstd.put_total [OF array_object] by blast
  have "length bs = 2 * length s + 19" using dgstd_frame_size [OF bs] by (simp add: array_size)
  moreover have "dgstd_deserialize_into nt secret (array_ty (length s)) bs = Inr (array_val s)"
    using dgstd_frame_read [OF bs content] dgstd.read_exactly_put [OF array_object content] by simp
  ultimately show ?thesis
    using bs s by (simp add: compact_trivial_serialize_into_def compact_trivial_deserialize_into_def Let_def)
qed

interpretation compact_trivial_codec: stream_codec "trivial_object t" "compact_trivial_serialize nt secret t"
  "compact_trivial_deserialize nt secret t" for t nt secret
proof unfold_locales
  fix v assume "trivial_object t v"
  then obtain bs where bs: "compact_trivial_serialize_into nt secret t v = Inr bs"
      "length bs = 2 * trivial_size t + 19" "compact_trivial_deserialize_into nt secret t bs = Inr v"
    using compact_trivial_ok by blast
  then show "\<exists>bs. compact_trivial_serialize nt secret t v = Inr bs \<and> compact_trivial_deserialize nt secret t bs = Inr v"
    using fill_exact [of bs]
    by (simp add: compact_trivial_serialize_def compact_trivial_deserialize_def compact_trivial_size_eq)
qed

end
