(* ===== verification/Packet_Model.thy ===== *)
theory Packet_Model
  imports Dgstd_Typing Compact_Trivial_Serializer
begin

text \<open>
  The packets of \<open>internal_rest/network_kernel_mailbox_impl1.h\<close> (namespace \<open>model\<close>), as records in the order
  of inheritance of the source, and the objects the serializers see when \<open>dg_reflect\<close> is called on them.
  A \<open>static_cast\<close> to a base class is \<open>truncate\<close> of the record.
\<close>

section \<open>Packets\<close>

datatype ip_t = IPv4 bytes | IPv6 bytes

record address =
  ip :: ip_t
  port :: "16 word"

record global_packet_id =
  local_packet_id :: u64
  factory_id :: bytes

record packet_base =
  packet_id :: global_packet_id
  retransmission_count :: byte
  priority :: byte

record packet_header = packet_base +
  fr_addr :: address
  to_addr :: address

record request_packet = packet_header +
  content :: bytes

record ack_packet = packet_header +
  ack_vec :: "packet_base list"

text \<open>\<open>XOnlyKRescuePacket\<close> has no members, so a \<open>KRescuePacket\<close> is its header.\<close>

type_synonym krescue_packet = packet_header

datatype xonly =
    XOnlyKRescuePacket
  | XOnlyRequestPacket bytes
  | XOnlyAckPacket "packet_base list"

record packet = packet_header +
  xonly_content :: xonly

record kind_global_packet_id =
  kind_id :: global_packet_id
  kind :: byte

text \<open>The sizes of the \<open>std::array\<close> members, and of an \<open>ack_vec\<close> whose size fits the \<open>uint16_t\<close> on the wire.\<close>

primrec ip_ok :: "ip_t \<Rightarrow> bool" where
  "ip_ok (IPv4 ip_buf) \<longleftrightarrow> length ip_buf = 4"
| "ip_ok (IPv6 ip_buf) \<longleftrightarrow> length ip_buf = 16"

definition id_ok :: "global_packet_id \<Rightarrow> bool" where
  "id_ok i \<longleftrightarrow> length (factory_id i) = 20"

definition base_ok :: "'a packet_base_scheme \<Rightarrow> bool" where
  "base_ok b \<longleftrightarrow> id_ok (packet_id b)"

definition header_ok :: "'a packet_header_scheme \<Rightarrow> bool" where
  "header_ok h \<longleftrightarrow> base_ok h \<and> ip_ok (ip (fr_addr h)) \<and> ip_ok (ip (to_addr h))"

definition acks_ok :: "packet_base list \<Rightarrow> bool" where
  "acks_ok acks \<longleftrightarrow> length acks < 65536 \<and> (\<forall>b \<in> set acks. base_ok b)"

primrec xonly_ok :: "xonly \<Rightarrow> bool" where
  "xonly_ok XOnlyKRescuePacket \<longleftrightarrow> True"
| "xonly_ok (XOnlyRequestPacket c) \<longleftrightarrow> True"
| "xonly_ok (XOnlyAckPacket acks) \<longleftrightarrow> acks_ok acks"

definition packet_ok :: "packet \<Rightarrow> bool" where
  "packet_ok p \<longleftrightarrow> header_ok p \<and> xonly_ok (xonly_content p)"

lemma truncate_sel [simp]:
  "packet_id (packet_base.truncate b) = packet_id b"
  "retransmission_count (packet_base.truncate b) = retransmission_count b"
  "priority (packet_base.truncate b) = priority b"
  "packet_id (packet_header.truncate h) = packet_id h"
  "retransmission_count (packet_header.truncate h) = retransmission_count h"
  "priority (packet_header.truncate h) = priority h"
  "fr_addr (packet_header.truncate h) = fr_addr h"
  "to_addr (packet_header.truncate h) = to_addr h"
  by (simp_all add: packet_base.truncate_def packet_header.truncate_def)

section \<open>The objects dg_reflect shows\<close>

text \<open>
  The contract of a member: its static type, the object a value is, and the value an object is. Every
  object of the type is some value, so a reader that returns an object of the type needs no other check.
\<close>

locale object_of =
  fixes t :: ty and enc :: "'a \<Rightarrow> val" and dec :: "val \<Rightarrow> 'a result" and ok :: "'a \<Rightarrow> bool"
  assumes dec_enc: "dec (enc x) = Inr x"
    and enc_typed: "ok x \<Longrightarrow> has_type t (enc x)"
    and dec_typed: "has_type t v \<Longrightarrow> \<exists>x. v = enc x \<and> ok x"
begin

lemma dec_total: "has_type t v \<Longrightarrow> \<exists>x. dec v = Inr x \<and> ok x \<and> v = enc x"
  using dec_typed dec_enc by blast

lemma typed_iff: "has_type t v \<longleftrightarrow> (\<exists>x. v = enc x \<and> ok x)"
  using dec_typed enc_typed by blast

lemma enc_inject: "enc x = enc y \<longleftrightarrow> x = y"
  by (metis dec_enc sum.inject(2))

lemma dgstd_frame:
  assumes "dgstd_type t" and "ok x"
  shows "\<exists>bs. dgstd_serialize nt secret t (enc x) = Inr bs \<and> bindR (dgstd_deserialize nt secret t bs) dec = Inr x"
proof -
  have "dgstd_object t (enc x)" using assms by (simp add: dgstd_object_def enc_typed)
  then obtain bs where "dgstd_serialize nt secret t (enc x) = Inr bs" "dgstd_deserialize nt secret t bs = Inr (enc x)"
    using dgstd_codec.dec_enc by blast
  then show ?thesis by (simp add: dec_enc)
qed

lemma dgstd_read:
  assumes "wire_ty t"
  shows "bindR (dgstd_deserialize nt secret t bs) dec \<in> {Inl Corrupted_format, Inl Bad_version_control}
    \<or> (\<exists>x. bindR (dgstd_deserialize nt secret t bs) dec = Inr x \<and> ok x)"
  using dgstd_deserialize_yields [OF assms, of nt secret bs] dec_total
  unfolding dgstd_deserialize_def by (elim disjE exE conjE) force+

lemma compact_trivial_frame:
  assumes "is_serializable t" and "ok x"
  shows "\<exists>bs. compact_trivial_serialize_into nt secret t (enc x) = Inr bs \<and> length bs = 2 * trivial_size t + 19
    \<and> bindR (compact_trivial_deserialize_into nt secret t bs) dec = Inr x"
proof -
  have "trivial_object t (enc x)" using assms by (simp add: trivial_object_def enc_typed)
  then show ?thesis using compact_trivial_ok [of t "enc x" nt secret] by (auto simp: dec_enc)
qed

end

text \<open>Words, arrays, and the structs.\<close>

definition word_val :: "'a::len word \<Rightarrow> val" where
  "word_val w = VInt (uint w)"

definition val_word :: "val \<Rightarrow> 'a::len word result" where
  "val_word v = (case v of VInt x \<Rightarrow> Inr (word_of_int x) | _ \<Rightarrow> Inl Type_mismatch)"

definition id_ty :: ty where
  "id_ty = TReflect [TArith (UInt 8), array_ty 20]"

definition id_val :: "global_packet_id \<Rightarrow> val" where
  "id_val i = VTuple [word_val (local_packet_id i), array_val (factory_id i)]"

definition val_id :: "val \<Rightarrow> global_packet_id result" where
  "val_id v = (case v of
     VTuple [a, b] \<Rightarrow> bindR (val_word a) (\<lambda>l. bindR (val_array b) (\<lambda>f.
       Inr \<lparr>local_packet_id = l, factory_id = f\<rparr>))
   | _ \<Rightarrow> Inl Type_mismatch)"

definition base_ty :: ty where
  "base_ty = TReflect [id_ty, TArith (UInt 1), TArith (UInt 1)]"

definition base_val :: "'a packet_base_scheme \<Rightarrow> val" where
  "base_val b = VTuple [id_val (packet_id b), word_val (retransmission_count b), word_val (priority b)]"

definition val_base :: "val \<Rightarrow> packet_base result" where
  "val_base v = (case v of
     VTuple [a, b, c] \<Rightarrow> bindR (val_id a) (\<lambda>i. bindR (val_word b) (\<lambda>r. bindR (val_word c) (\<lambda>p.
       Inr \<lparr>packet_id = i, retransmission_count = r, priority = p\<rparr>)))
   | _ \<Rightarrow> Inl Type_mismatch)"

definition address_ty :: ty where
  "address_ty = TReflect [TReflect [TVariant [TReflect [array_ty 4], TReflect [array_ty 16]]], TArith (UInt 2)]"

primrec ip_val :: "ip_t \<Rightarrow> val" where
  "ip_val (IPv4 ip_buf) = VAlt 0 (VTuple [array_val ip_buf])"
| "ip_val (IPv6 ip_buf) = VAlt 1 (VTuple [array_val ip_buf])"

definition val_ip :: "val \<Rightarrow> ip_t result" where
  "val_ip v = (case v of
     VAlt i (VTuple [a]) \<Rightarrow> bindR (val_array a) (\<lambda>s. Inr (if i = 0 then IPv4 s else IPv6 s))
   | _ \<Rightarrow> Inl Type_mismatch)"

definition address_val :: "address \<Rightarrow> val" where
  "address_val a = VTuple [VTuple [ip_val (ip a)], word_val (port a)]"

definition val_address :: "val \<Rightarrow> address result" where
  "val_address v = (case v of
     VTuple [VTuple [a], b] \<Rightarrow> bindR (val_ip a) (\<lambda>i. bindR (val_word b) (\<lambda>p. Inr \<lparr>ip = i, port = p\<rparr>))
   | _ \<Rightarrow> Inl Type_mismatch)"

definition header_ty :: ty where
  "header_ty = TReflect [base_ty, address_ty, address_ty]"

definition header_val :: "'a packet_header_scheme \<Rightarrow> val" where
  "header_val h = VTuple [base_val h, address_val (fr_addr h), address_val (to_addr h)]"

definition val_header :: "val \<Rightarrow> packet_header result" where
  "val_header v = (case v of
     VTuple [a, b, c] \<Rightarrow> bindR (val_base a) (\<lambda>base. bindR (val_address b) (\<lambda>fr. bindR (val_address c) (\<lambda>to.
       Inr (packet_base.extend base \<lparr>fr_addr = fr, to_addr = to\<rparr>))))
   | _ \<Rightarrow> Inl Type_mismatch)"

definition acks_ty :: ty where
  "acks_ty = TReflect [TWrap 2 Vector base_ty]"

definition acks_val :: "packet_base list \<Rightarrow> val" where
  "acks_val acks = VTuple [VSeq (map base_val acks)]"

definition val_acks :: "val \<Rightarrow> packet_base list result" where
  "val_acks v = (case v of VTuple [a] \<Rightarrow> val_seq val_base a | _ \<Rightarrow> Inl Type_mismatch)"

subsection \<open>The contract holds\<close>

lemma word_typed:
  "has_type (TArith (UInt 8)) (word_val (w8 :: 64 word))"
  "has_type (TArith (UInt 2)) (word_val (w2 :: 16 word))"
  "has_type (TArith (UInt 1)) (word_val (w1 :: byte))"
  using uint_lt2p [of w8] uint_lt2p [of w2] uint_lt2p [of w1] by (simp_all add: word_val_def)

lemma val_word_val [simp]: "val_word (word_val w) = Inr w"
  by (simp add: val_word_def word_val_def)

lemma typed_word:
  assumes "has_type (TArith (UInt n)) v" and "LENGTH('a::len) = 8 * n"
  shows "\<exists>w :: 'a word. v = word_val w"
proof -
  obtain x where x: "v = VInt x" "0 \<le> x" "x < 256 ^ n" using assms(1) by (cases v) auto
  have "(256 :: int) ^ n = 2 ^ LENGTH('a)" by (simp add: assms(2) power_mult)
  then have "uint (word_of_int x :: 'a word) = x" using x by (simp add: uint_word_of_int)
  then show ?thesis using x(1) by (auto simp: word_val_def intro!: exI [of _ "word_of_int x"])
qed

interpretation u64_member: object_of "TArith (UInt 8)" "word_val :: 64 word \<Rightarrow> val" val_word "\<lambda>_. True"
  by unfold_locales (simp_all add: word_typed typed_word del: has_type.simps)

interpretation u16_member: object_of "TArith (UInt 2)" "word_val :: 16 word \<Rightarrow> val" val_word "\<lambda>_. True"
  by unfold_locales (simp_all add: word_typed typed_word del: has_type.simps)

interpretation u8_member: object_of "TArith (UInt 1)" "word_val :: byte \<Rightarrow> val" val_word "\<lambda>_. True"
  by unfold_locales (simp_all add: word_typed typed_word del: has_type.simps One_nat_def)

lemma typed_char:
  assumes "has_type (TArith (SInt 1)) v"
  shows "\<exists>c. v = char_val c"
proof -
  obtain x where x: "v = VInt x" "- 128 \<le> x" "x < 128" using assms by (cases v) auto
  then have "sint (word_of_int x :: byte) = x"
    by (simp add: sint_sbintrunc' signed_take_bit_int_eq_self)
  then show ?thesis using x(1) by (auto simp: char_val_def intro!: exI [of _ "word_of_int x"])
qed

lemma typed_chars:
  "have_types (replicate n (TArith (SInt 1))) vs \<Longrightarrow> \<exists>s. vs = map char_val s \<and> length s = n"
proof (induction n arbitrary: vs)
  case (Suc n)
  then obtain w ws where vs: "vs = w # ws" "has_type (TArith (SInt 1)) w" "have_types (replicate n (TArith (SInt 1))) ws"
    by (auto split: list.splits simp del: has_type.simps)
  then obtain c s where "w = char_val c" "ws = map char_val s" "length s = n"
    using Suc.IH typed_char by blast
  then show ?case using vs(1) by (intro exI [of _ "c # s"]) simp
qed simp

interpretation array_member: object_of "array_ty n" array_val val_array "\<lambda>s. length s = n" for n
proof unfold_locales
  show "val_array (array_val x) = Inr x" for x by simp
  show "has_type (array_ty n) (array_val x)" if "length x = n" for x using array_typed [of x] that by simp
  fix v assume "has_type (array_ty n) v"
  then obtain vs where "v = VTuple vs" "have_types (replicate n (TArith (SInt 1))) vs"
    by (auto simp: array_ty_def split: val.splits simp del: has_type.simps(1))
  then show "\<exists>x. v = array_val x \<and> length x = n" using typed_chars by (force simp: array_val_def)
qed

text \<open>Objects of a struct are the tuples of the objects of its members.\<close>

lemma reflect_typed:
  "has_type (TReflect ts) v \<longleftrightarrow> (\<exists>vs. v = VTuple vs \<and> have_types ts vs)"
  by (cases v) auto

lemma have_types_Cons: "have_types (t # ts) vs \<longleftrightarrow> (\<exists>w ws. vs = w # ws \<and> has_type t w \<and> have_types ts ws)"
  by (auto split: list.splits)

lemma have_types_Nil: "have_types [] vs \<longleftrightarrow> vs = []"
  by simp

lemmas struct_typed = reflect_typed have_types_Cons have_types_Nil

interpretation id_member: object_of id_ty id_val val_id id_ok
proof unfold_locales
  show "val_id (id_val x) = Inr x" for x by (simp add: val_id_def id_val_def)
  show "has_type id_ty (id_val x)" if "id_ok x" for x
    using that array_member.enc_typed [of "factory_id x" 20] word_typed(1)
    by (simp add: id_ty_def id_val_def struct_typed id_ok_def del: has_type.simps have_types.simps(2))
  fix v assume "has_type id_ty v"
  then obtain l f where "v = VTuple [word_val (l :: u64), array_val f]" "length f = 20"
    by (auto simp: id_ty_def struct_typed u64_member.typed_iff array_member.typed_iff simp del: has_type.simps have_types.simps(2))
  then show "\<exists>x. v = id_val x \<and> id_ok x"
    by (intro exI [of _ "\<lparr>local_packet_id = l, factory_id = f\<rparr>"]) (simp add: id_val_def id_ok_def)
qed

interpretation base_member: object_of base_ty base_val val_base base_ok
proof unfold_locales
  show "val_base (base_val x) = Inr x" for x by (simp add: val_base_def base_val_def id_member.dec_enc)
  show "has_type base_ty (base_val x)" if "base_ok x" for x :: packet_base
    using that id_member.enc_typed word_typed(3)
    by (simp add: base_ty_def base_val_def struct_typed base_ok_def del: has_type.simps have_types.simps(2))
  fix v assume "has_type base_ty v"
  then obtain i r p where "v = VTuple [id_val i, word_val (r :: byte), word_val (p :: byte)]" "id_ok i"
    by (auto simp: base_ty_def struct_typed u8_member.typed_iff id_member.typed_iff simp del: has_type.simps have_types.simps(2) One_nat_def)
  then show "\<exists>x :: packet_base. v = base_val x \<and> base_ok x"
    by (intro exI [of _ "\<lparr>packet_id = i, retransmission_count = r, priority = p\<rparr>"])
      (simp add: base_val_def base_ok_def)
qed

lemma alternatives_typed:
  "has_type (TVariant [t, u]) v \<longleftrightarrow> (\<exists>w. v = VAlt 0 w \<and> has_type t w) \<or> (\<exists>w. v = VAlt 1 w \<and> has_type u w)"
  by (cases v) (auto split: nat.splits)

interpretation ip_member: object_of "TVariant [TReflect [array_ty 4], TReflect [array_ty 16]]" ip_val val_ip ip_ok
proof unfold_locales
  show "val_ip (ip_val x) = Inr x" for x by (cases x) (simp_all add: val_ip_def)
  show "has_type (TVariant [TReflect [array_ty 4], TReflect [array_ty 16]]) (ip_val x)" if "ip_ok x" for x
    using that array_member.enc_typed [of _ 4] array_member.enc_typed [of _ 16]
    by (cases x) (simp_all add: alternatives_typed struct_typed del: has_type.simps have_types.simps(2))
  fix v assume "has_type (TVariant [TReflect [array_ty 4], TReflect [array_ty 16]]) v"
  then consider s where "v = ip_val (IPv4 s)" "length s = 4" | s where "v = ip_val (IPv6 s)" "length s = 16"
    by (auto simp: alternatives_typed struct_typed array_member.typed_iff simp del: has_type.simps have_types.simps(2))
  then show "\<exists>x. v = ip_val x \<and> ip_ok x" by cases (metis ip_ok.simps)+
qed

interpretation address_member: object_of address_ty address_val val_address "\<lambda>a. ip_ok (ip a)"
proof unfold_locales
  show "val_address (address_val x) = Inr x" for x
    by (simp add: val_address_def address_val_def ip_member.dec_enc)
  show "has_type address_ty (address_val x)" if "ip_ok (ip x)" for x
    using that ip_member.enc_typed word_typed(2)
    by (simp add: address_ty_def address_val_def struct_typed del: has_type.simps have_types.simps(2))
  fix v assume "has_type address_ty v"
  then obtain i p where "v = VTuple [VTuple [ip_val i], word_val (p :: 16 word)]" "ip_ok i"
    by (auto simp: address_ty_def struct_typed u16_member.typed_iff ip_member.typed_iff simp del: has_type.simps have_types.simps(2))
  then show "\<exists>x. v = address_val x \<and> ip_ok (ip x)"
    by (intro exI [of _ "\<lparr>ip = i, port = p\<rparr>"]) (simp add: address_val_def)
qed

lemma val_base_header [simp]: "val_base (base_val h) = Inr (packet_base.truncate h)"
  using base_member.dec_enc [of "packet_base.truncate h"] by (simp add: base_val_def)

lemma header_val_truncate [simp]: "header_val (packet_header.truncate h) = header_val h"
  by (simp add: header_val_def base_val_def)

interpretation header_member: object_of header_ty header_val val_header header_ok
proof unfold_locales
  show "val_header (header_val x) = Inr x" for x
    by (cases x) (simp add: val_header_def header_val_def address_member.dec_enc
        packet_base.truncate_def packet_base.extend_def)
  show "has_type header_ty (header_val x)" if "header_ok x" for x :: packet_header
  proof -
    have "has_type base_ty (base_val (packet_base.truncate x))"
      using that by (intro base_member.enc_typed) (simp add: header_ok_def base_ok_def)
    then show ?thesis using that address_member.enc_typed
      by (simp add: header_ty_def header_val_def struct_typed header_ok_def base_val_def del: has_type.simps have_types.simps(2))
  qed
  fix v assume "has_type header_ty v"
  then obtain b :: packet_base and fr to where v: "v = VTuple [base_val b, address_val fr, address_val to]"
      and ok: "base_ok b" "ip_ok (ip fr)" "ip_ok (ip to)"
    by (auto simp: header_ty_def struct_typed base_member.typed_iff address_member.typed_iff simp del: has_type.simps have_types.simps(2))
  show "\<exists>x :: packet_header. v = header_val x \<and> header_ok x"
    by (rule exI [of _ "packet_base.extend b \<lparr>fr_addr = fr, to_addr = to\<rparr>"])
      (use ok in \<open>cases b, simp add: v header_val_def header_ok_def base_ok_def base_val_def packet_base.extend_def\<close>)
qed

lemma typed_bases:
  "\<forall>v \<in> set vs. has_type base_ty v \<Longrightarrow> \<exists>acks :: packet_base list. vs = map base_val acks \<and> (\<forall>b \<in> set acks. base_ok b)"
proof (induction vs)
  case (Cons v vs)
  then obtain b :: packet_base and acks :: "packet_base list"
    where "v = base_val b" "base_ok b" "vs = map base_val acks" "\<forall>b \<in> set acks. base_ok b"
    using base_member.typed_iff by auto
  then show ?case by (intro exI [of _ "b # acks"]) auto
qed simp

interpretation acks_member: object_of acks_ty acks_val val_acks acks_ok
proof unfold_locales
  show "val_acks (acks_val x) = Inr x" for x
    by (simp add: val_acks_def acks_val_def val_seq_def transform_all_map base_member.dec_enc)
  have wrapped: "has_type (TWrap 2 Vector base_ty) (VSeq vs) \<longleftrightarrow> length vs < 65536 \<and> (\<forall>v \<in> set vs. has_type base_ty v)"
    for vs by (auto simp: content_ok_def is_linear_def max_bytes_def)
  show "has_type acks_ty (acks_val x)" if "acks_ok x" for x
    using that base_member.enc_typed
    by (simp add: acks_ty_def acks_val_def struct_typed wrapped acks_ok_def del: has_type.simps have_types.simps(2))
  fix v assume "has_type acks_ty v"
  then obtain w where w: "v = VTuple [w]" "has_type (TWrap 2 Vector base_ty) w"
    by (auto simp: acks_ty_def struct_typed simp del: has_type.simps have_types.simps(2))
  then obtain vs where "w = VSeq vs" by (cases w) auto
  then show "\<exists>x. v = acks_val x \<and> acks_ok x"
    using w wrapped typed_bases [of vs] by (auto simp: acks_val_def acks_ok_def)
qed

end
