(* ===== verification/Network_Exception.thy ===== *)
theory Network_Exception
  imports Prelude
begin

text \<open>
  The error codes of \<open>common_exception/common_exception.h\<close> that the modelled network code returns, and the
  way it turns C++ exceptions into codes. A function of type \<open>std::expected<T, exception_t>\<close> is an
  \<open>exception_t + T\<close>; \<open>result\<close> around it stands for what C++ leaves undefined and for \<open>std::abort\<close>.
\<close>

section \<open>Codes\<close>

datatype exception_t =
    SUCCESS
  | INTERNAL_CORRUPTION
  | INVALID_DICTIONARY_KEY
  | INVALID_ARGUMENT
  | UNIDENTIFIED_ERROR
  | RESOURCE_EXHAUSTION
  | BAD_POLYMORPHIC_ACCESS
  | SOCKET_BAD_IP
  | SOCKET_BAD_IP_RULE
  | SOCKET_CORRUPTED_PACKET
  | SOCKET_MALFORMED_PACKET
  | SOCKET_BAD_TRAFFIC
  | SOCKET_BAD_BUFFER_LENGTH
  | SOCKET_MAX_RETRANSMISSION_REACHED
  | SOCKET_QUEUE_FULL
  | DUPLICATED_ENTRY
  | VARIANT_VBE
  | QUEUE_FULL

definition is_success :: "exception_t \<Rightarrow> bool" where
  "is_success err \<longleftrightarrow> err = SUCCESS"

definition is_failed :: "exception_t \<Rightarrow> bool" where
  "is_failed err \<longleftrightarrow> err \<noteq> SUCCESS"

section \<open>Exceptions\<close>

text \<open>
  The errors of the model that are exceptions in C++. None of these is derived from \<open>codex_base\<close>, so
  \<open>wrap_std_exception\<close> gives each of them the same code.
\<close>

primrec is_exception :: "error \<Rightarrow> bool" where
  "is_exception Corrupted_format \<longleftrightarrow> True"
| "is_exception Bad_version_control \<longleftrightarrow> True"
| "is_exception Bad_format \<longleftrightarrow> True"
| "is_exception Length_error \<longleftrightarrow> True"
| "is_exception Invalid_argument \<longleftrightarrow> True"
| "is_exception Abort \<longleftrightarrow> False"
| "is_exception Out_of_bounds \<longleftrightarrow> False"
| "is_exception Invalid_bool \<longleftrightarrow> False"
| "is_exception Signed_overflow \<longleftrightarrow> False"
| "is_exception Type_mismatch \<longleftrightarrow> False"
| "is_exception Semaphore_overflow \<longleftrightarrow> False"
| "is_exception Null_pointer \<longleftrightarrow> False"
| "is_exception Bad_shift \<longleftrightarrow> False"
| "is_exception Bad_lifetime \<longleftrightarrow> False"
| "is_exception Bad_range \<longleftrightarrow> False"

definition wrap_std_exception :: "error \<Rightarrow> exception_t" where
  "wrap_std_exception e = UNIDENTIFIED_ERROR"

definition to_cstyle_function :: "'a result \<Rightarrow> (exception_t + 'a) result" where
  "to_cstyle_function f = (case f of
     Inr x \<Rightarrow> Inr (Inr x)
   | Inl e \<Rightarrow> if is_exception e then Inr (Inl (wrap_std_exception e)) else Inl e)"

text \<open>\<open>nothrow_log\<close>, \<open>dg_nothrow\<close> and \<open>remove_expected\<close>: a failure ends the program.\<close>

definition dg_nothrow :: "exception_t \<Rightarrow> unit result" where
  "dg_nothrow err = (if is_failed err then Inl Abort else Inr ())"

definition remove_expected :: "exception_t + 'a \<Rightarrow> 'a result" where
  "remove_expected inp = (case inp of Inl err \<Rightarrow> Inl Abort | Inr x \<Rightarrow> Inr x)"

text \<open>Going on with the value of an \<open>expected\<close>, or returning its error.\<close>

definition bindE :: "(exception_t + 'a) result \<Rightarrow> ('a \<Rightarrow> (exception_t + 'b) result) \<Rightarrow> (exception_t + 'b) result" where
  "bindE m f = bindR m (\<lambda>x. case x of Inl err \<Rightarrow> Inr (Inl err) | Inr y \<Rightarrow> f y)"

lemma to_cstyle_simps [simp]:
  "to_cstyle_function (Inr x) = Inr (Inr x)"
  by (simp add: to_cstyle_function_def)

lemma bindE_simps [simp]:
  "bindE (Inr (Inr x)) f = f x"
  "bindE (Inr (Inl err)) f = Inr (Inl err)"
  "bindE (Inl e) f = Inl e"
  by (simp_all add: bindE_def)

lemma remove_expected_simps [simp]:
  "remove_expected (Inr x) = Inr x"
  "remove_expected (Inl err) = Inl Abort"
  by (simp_all add: remove_expected_def)

lemma to_cstyle_eq_Inr:
  "to_cstyle_function f = Inr r \<longleftrightarrow>
     (\<exists>x. f = Inr x \<and> r = Inr x) \<or> (\<exists>e. f = Inl e \<and> is_exception e \<and> r = Inl UNIDENTIFIED_ERROR)"
  by (auto simp: to_cstyle_function_def wrap_std_exception_def split: sum.splits if_splits)

lemma to_cstyle_eq_Inl: "to_cstyle_function f = Inl e \<longleftrightarrow> f = Inl e \<and> \<not> is_exception e"
  by (auto simp: to_cstyle_function_def split: sum.splits if_splits)

end
