(* ===== verification/Packet_Service.thy ===== *)
theory Packet_Service
  imports Packet_Model Network_Exception
begin

text \<open>
  \<open>packet_service\<close> of \<open>internal_rest/network_kernel_mailbox_impl1.h\<close>: packets to bytes and back. A function of
  type \<open>std::expected\<close> is an \<open>exception_t + _\<close> inside a \<open>result\<close>, which is \<open>Inl\<close> where the C++ code aborts or
  has no meaning. Allocation is taken to succeed.
\<close>

section \<open>Constants and utility::backsplit_str\<close>

definition REQUEST_PACKET_SERIALIZATION_SECRET :: "32 word" where
  "REQUEST_PACKET_SERIALIZATION_SECRET = 3130801039"

definition ACK_PACKET_SERIALIZATION_SECRET :: "32 word" where
  "ACK_PACKET_SERIALIZATION_SECRET = 0xFF - 1"

definition KRESCUE_PACKET_SERIALIZATION_SECRET :: "32 word" where
  "KRESCUE_PACKET_SERIALIZATION_SECRET = 0xFFF - 1"

definition ack :: byte where "ack = 0"
definition request :: byte where "request = 1"
definition krescue :: byte where "krescue = 2"

fun backsplit_loop :: "nat \<Rightarrow> bytes \<Rightarrow> bytes \<Rightarrow> (bytes \<times> bytes) result" where
  "backsplit_loop 0 s rhs = Inr (s, rhs)"
| "backsplit_loop (Suc i) s rhs =
     (if s = [] then Inl Out_of_bounds else backsplit_loop i (butlast s) (rhs[i := last s]))"

definition backsplit_str :: "bytes \<Rightarrow> nat \<Rightarrow> (exception_t + bytes \<times> bytes) result" where
  "backsplit_str s sz =
     (let rhs_sz = min (length s) sz
      in bindR (backsplit_loop rhs_sz s (replicate rhs_sz 0)) (\<lambda>p. Inr (Inr p)))"

section \<open>Virtualization\<close>

definition virtualize_request_packet :: "request_packet \<Rightarrow> exception_t + packet" where
  "virtualize_request_packet pkt =
     Inr (packet_header.extend (packet_header.truncate pkt) \<lparr>xonly_content = XOnlyRequestPacket (content pkt)\<rparr>)"

definition virtualize_ack_packet :: "ack_packet \<Rightarrow> exception_t + packet" where
  "virtualize_ack_packet pkt =
     Inr (packet_header.extend (packet_header.truncate pkt) \<lparr>xonly_content = XOnlyAckPacket (ack_vec pkt)\<rparr>)"

definition virtualize_krescue_packet :: "krescue_packet \<Rightarrow> exception_t + packet" where
  "virtualize_krescue_packet pkt =
     Inr (packet_header.extend (packet_header.truncate pkt) \<lparr>xonly_content = XOnlyKRescuePacket\<rparr>)"

definition devirtualize_request_packet :: "packet \<Rightarrow> exception_t + request_packet" where
  "devirtualize_request_packet pkt = (case xonly_content pkt of
     XOnlyRequestPacket c \<Rightarrow> Inr (packet_header.extend (packet_header.truncate pkt) \<lparr>content = c\<rparr>)
   | _ \<Rightarrow> Inl BAD_POLYMORPHIC_ACCESS)"

definition devirtualize_ack_packet :: "packet \<Rightarrow> exception_t + ack_packet" where
  "devirtualize_ack_packet pkt = (case xonly_content pkt of
     XOnlyAckPacket acks \<Rightarrow> Inr (packet_header.extend (packet_header.truncate pkt) \<lparr>ack_vec = acks\<rparr>)
   | _ \<Rightarrow> Inl BAD_POLYMORPHIC_ACCESS)"

definition devirtualize_krescue_packet :: "packet \<Rightarrow> exception_t + krescue_packet" where
  "devirtualize_krescue_packet pkt = (case xonly_content pkt of
     XOnlyKRescuePacket \<Rightarrow> Inr (packet_header.truncate pkt)
   | _ \<Rightarrow> Inl BAD_POLYMORPHIC_ACCESS)"

definition frequency_to_period :: "32 word \<Rightarrow> 32 word" where
  "frequency_to_period frequency =
     (let MINIMUM_FREQUENCY = 1; MAXIMUM_FREQUENCY = push_bit 30 1; SECOND_METRIC = push_bit 30 1;
          clamped_frequency = min (max frequency MINIMUM_FREQUENCY) MAXIMUM_FREQUENCY
      in SECOND_METRIC div clamped_frequency)"

definition is_request_packet :: "packet \<Rightarrow> bool" where
  "is_request_packet pkt \<longleftrightarrow> (case xonly_content pkt of XOnlyRequestPacket _ \<Rightarrow> True | _ \<Rightarrow> False)"

definition is_ack_packet :: "packet \<Rightarrow> bool" where
  "is_ack_packet pkt \<longleftrightarrow> (case xonly_content pkt of XOnlyAckPacket _ \<Rightarrow> True | _ \<Rightarrow> False)"

definition is_krescue_packet :: "packet \<Rightarrow> bool" where
  "is_krescue_packet pkt \<longleftrightarrow> (case xonly_content pkt of XOnlyKRescuePacket \<Rightarrow> True | _ \<Rightarrow> False)"

definition get_packet_polymorphic_type :: "packet \<Rightarrow> byte result" where
  "get_packet_polymorphic_type pkt =
     (if is_request_packet pkt then Inr request
      else if is_ack_packet pkt then Inr ack
      else if is_krescue_packet pkt then Inr krescue
      else Inl Abort)"

definition get_kind_global_id_from_packet :: "packet \<Rightarrow> kind_global_packet_id result" where
  "get_kind_global_id_from_packet pkt = bindR (get_packet_polymorphic_type pkt) (\<lambda>k.
     Inr \<lparr>kind_id = packet_id pkt, kind = k\<rparr>)"

section \<open>Serialization\<close>

text \<open>\<open>x_header_t\<close>: the header of a request and the digest of its content.\<close>

definition x_header_ty :: ty where
  "x_header_ty = TTuple [header_ty, hash_ty]"

definition x_header_val :: "packet_header \<times> hash_type \<Rightarrow> val" where
  "x_header_val x = VTuple [header_val (fst x), hash_val (snd x)]"

definition val_hash :: "val \<Rightarrow> hash_type result" where
  "val_hash v = (case v of
     VTuple [a, b] \<Rightarrow> bindR (val_word a) (\<lambda>x. bindR (val_word b) (\<lambda>y. Inr (x, y)))
   | _ \<Rightarrow> Inl Type_mismatch)"

definition val_x_header :: "val \<Rightarrow> (packet_header \<times> hash_type) result" where
  "val_x_header v = (case v of
     VTuple [a, b] \<Rightarrow> bindR (val_header a) (\<lambda>h. bindR (val_hash b) (\<lambda>d. Inr (h, d)))
   | _ \<Rightarrow> Inl Type_mismatch)"

definition serialize_request_packet :: "endian \<Rightarrow> request_packet \<Rightarrow> (exception_t + bytes) result" where
  "serialize_request_packet nt pkt =
     (let integrity_hash = murmur_hash_base (content pkt) REQUEST_PACKET_SERIALIZATION_SECRET;
          x_header = (packet_header.truncate pkt, integrity_hash)
      in bindR (compact_trivial_size nt x_header_ty) (\<lambda>header_sz.
         bindR (compact_trivial_serialize_into nt REQUEST_PACKET_SERIALIZATION_SECRET x_header_ty (x_header_val x_header)) (\<lambda>bs.
         bindR (write_at (content pkt @ replicate header_sz 0) (length (content pkt)) bs) (\<lambda>buf. Inr (Inr buf)))))"

definition ack_packet_ty :: ty where
  "ack_packet_ty = TReflect [header_ty, acks_ty]"

definition ack_packet_val :: "ack_packet \<Rightarrow> val" where
  "ack_packet_val pkt = VTuple [header_val pkt, acks_val (ack_vec pkt)]"

definition val_ack_packet :: "val \<Rightarrow> ack_packet result" where
  "val_ack_packet v = (case v of
     VTuple [a, b] \<Rightarrow> bindR (val_header a) (\<lambda>h. bindR (val_acks b) (\<lambda>acks.
       Inr (packet_header.extend h \<lparr>ack_vec = acks\<rparr>)))
   | _ \<Rightarrow> Inl Type_mismatch)"

definition krescue_packet_ty :: ty where
  "krescue_packet_ty = TReflect [header_ty, TReflect []]"

definition krescue_packet_val :: "krescue_packet \<Rightarrow> val" where
  "krescue_packet_val pkt = VTuple [header_val pkt, VTuple []]"

definition val_krescue_packet :: "val \<Rightarrow> krescue_packet result" where
  "val_krescue_packet v = (case v of
     VTuple [a, VTuple []] \<Rightarrow> val_header a
   | _ \<Rightarrow> Inl Type_mismatch)"

definition serialize_ack_packet :: "endian \<Rightarrow> ack_packet \<Rightarrow> (exception_t + bytes) result" where
  "serialize_ack_packet nt pkt =
     to_cstyle_function (dgstd_serialize nt ACK_PACKET_SERIALIZATION_SECRET ack_packet_ty (ack_packet_val pkt))"

definition serialize_krescue_packet :: "endian \<Rightarrow> krescue_packet \<Rightarrow> (exception_t + bytes) result" where
  "serialize_krescue_packet nt pkt =
     to_cstyle_function (dgstd_serialize nt KRESCUE_PACKET_SERIALIZATION_SECRET krescue_packet_ty (krescue_packet_val pkt))"

definition deserialize_request_packet :: "endian \<Rightarrow> bytes \<Rightarrow> (exception_t + request_packet) result" where
  "deserialize_request_packet nt bstream =
     bindR (compact_trivial_size nt x_header_ty) (\<lambda>header_sz.
       if length bstream < header_sz then Inr (Inl SOCKET_CORRUPTED_PACKET)
       else bindE (backsplit_str bstream header_sz) (\<lambda>(left, right).
         bindE (to_cstyle_function (bindR
             (compact_trivial_deserialize_into nt REQUEST_PACKET_SERIALIZATION_SECRET x_header_ty right) val_x_header))
           (\<lambda>x_header.
             let rs = packet_header.extend (fst x_header) \<lparr>content = left\<rparr>;
                 integrity_hash = murmur_hash_base (content rs) REQUEST_PACKET_SERIALIZATION_SECRET
             in if integrity_hash \<noteq> snd x_header then Inr (Inl SOCKET_CORRUPTED_PACKET) else Inr (Inr rs))))"

definition deserialize_ack_packet :: "endian \<Rightarrow> bytes \<Rightarrow> (exception_t + ack_packet) result" where
  "deserialize_ack_packet nt bstream = to_cstyle_function (bindR
     (dgstd_deserialize nt ACK_PACKET_SERIALIZATION_SECRET ack_packet_ty bstream) val_ack_packet)"

definition deserialize_krescue_packet :: "endian \<Rightarrow> bytes \<Rightarrow> (exception_t + krescue_packet) result" where
  "deserialize_krescue_packet nt bstream = to_cstyle_function (bindR
     (dgstd_deserialize nt KRESCUE_PACKET_SERIALIZATION_SECRET krescue_packet_ty bstream) val_krescue_packet)"

text \<open>The one-byte kind, in a frame of its own, after the packet.\<close>

definition packet_polymorphic_ty :: ty where
  "packet_polymorphic_ty = TArith (UInt 1)"

definition polymorphic_header :: "endian \<Rightarrow> byte \<Rightarrow> bytes result" where
  "polymorphic_header nt k =
     bindR (compact_trivial_size nt packet_polymorphic_ty) (\<lambda>PACKET_POLYMORPHIC_HEADER_SZ.
     bindR (compact_trivial_serialize_into nt 0 packet_polymorphic_ty (word_val k)) (\<lambda>bs.
       write_at (replicate PACKET_POLYMORPHIC_HEADER_SZ 0) 0 bs))"

definition serialize_packet :: "endian \<Rightarrow> packet \<Rightarrow> (exception_t + bytes) result" where
  "serialize_packet nt pkt =
     (if is_request_packet pkt then
        bindR (polymorphic_header nt request) (\<lambda>polymorphic_writing_container.
        bindR (remove_expected (devirtualize_request_packet pkt)) (\<lambda>dpkt.
        bindE (serialize_request_packet nt dpkt) (\<lambda>serialized.
          Inr (Inr (serialized @ polymorphic_writing_container)))))
      else if is_ack_packet pkt then
        bindR (polymorphic_header nt ack) (\<lambda>polymorphic_writing_container.
        bindR (remove_expected (devirtualize_ack_packet pkt)) (\<lambda>dpkt.
        bindE (serialize_ack_packet nt dpkt) (\<lambda>serialized.
          Inr (Inr (serialized @ polymorphic_writing_container)))))
      else if is_krescue_packet pkt then
        bindR (polymorphic_header nt krescue) (\<lambda>polymorphic_writing_container.
        bindR (remove_expected (devirtualize_krescue_packet pkt)) (\<lambda>dpkt.
        bindE (serialize_krescue_packet nt dpkt) (\<lambda>serialized.
          Inr (Inr (serialized @ polymorphic_writing_container)))))
      else Inl Abort)"

definition deserialize_packet :: "endian \<Rightarrow> bytes \<Rightarrow> (exception_t + packet) result" where
  "deserialize_packet nt bstream =
     bindR (compact_trivial_size nt packet_polymorphic_ty) (\<lambda>PACKET_POLYMORPHIC_HEADER_SZ.
       bindE (backsplit_str bstream PACKET_POLYMORPHIC_HEADER_SZ) (\<lambda>(left, right).
         if length right \<noteq> PACKET_POLYMORPHIC_HEADER_SZ then Inr (Inl SOCKET_MALFORMED_PACKET)
         else bindE (to_cstyle_function (bindR
             (compact_trivial_deserialize_into nt 0 packet_polymorphic_ty right) val_word)) (\<lambda>packet_type.
           if packet_type = request then
             bindE (deserialize_request_packet nt left) (\<lambda>dpkt. Inr (virtualize_request_packet dpkt))
           else if packet_type = ack then
             bindE (deserialize_ack_packet nt left) (\<lambda>dpkt. Inr (virtualize_ack_packet dpkt))
           else if packet_type = krescue then
             bindE (deserialize_krescue_packet nt left) (\<lambda>dpkt. Inr (virtualize_krescue_packet dpkt))
           else Inr (Inl SOCKET_MALFORMED_PACKET))))"

section \<open>Splitting\<close>

lemma backsplit_loop_eq:
  "i \<le> length s \<Longrightarrow> i \<le> length rhs \<Longrightarrow>
   backsplit_loop i s rhs = Inr (take (length s - i) s, drop (length s - i) s @ drop i rhs)"
proof (induction i arbitrary: s rhs)
  case (Suc i)
  obtain r x where s: "s = r @ [x]" using Suc.prems(1) by (cases s rule: rev_cases) simp_all
  have "drop i (rhs[i := x]) = x # drop (Suc i) rhs"
    using Suc.prems(2) by (simp add: Cons_nth_drop_Suc [symmetric])
  then show ?case using Suc.IH [of r "rhs[i := x]"] Suc.prems by (simp add: s)
qed simp

lemma backsplit_str_eq:
  "backsplit_str s sz = Inr (Inr (take (length s - sz) s, drop (length s - sz) s))"
  by (cases "sz \<le> length s") (simp_all add: backsplit_str_def backsplit_loop_eq min_def)

section \<open>Members\<close>

lemma tuple_typed: "has_type (TTuple ts) v \<longleftrightarrow> (\<exists>vs. v = VTuple vs \<and> have_types ts vs)"
  by (cases v) auto

lemma hash_val_words: "hash_val h = VTuple [word_val (fst h), word_val (snd h)]"
  by (simp add: hash_val_def word_val_def)

interpretation hash_member: object_of hash_ty hash_val val_hash "\<lambda>_. True"
proof unfold_locales
  show "val_hash (hash_val x) = Inr x" for x by (simp add: val_hash_def hash_val_words)
  show "has_type hash_ty (hash_val x)" for x
    using hash_val_object [of x] by (simp add: plain_object_def)
  fix v assume "has_type hash_ty v"
  then obtain a b where "v = VTuple [word_val (a :: u64), word_val (b :: u64)]"
    by (auto simp: hash_ty_def tuple_typed struct_typed u64_member.typed_iff
        simp del: has_type.simps have_types.simps(2))
  then show "\<exists>x. v = hash_val x \<and> True" by (intro exI [of _ "(a, b)"]) (simp add: hash_val_words)
qed

interpretation x_header_member: object_of x_header_ty x_header_val val_x_header "\<lambda>x. header_ok (fst x)"
proof unfold_locales
  show "val_x_header (x_header_val x) = Inr x" for x
    by (simp add: val_x_header_def x_header_val_def header_member.dec_enc hash_member.dec_enc)
  show "has_type x_header_ty (x_header_val x)" if "header_ok (fst x)" for x
    using that header_member.enc_typed hash_member.enc_typed
    by (simp add: x_header_ty_def x_header_val_def tuple_typed struct_typed del: has_type.simps have_types.simps(2))
  fix v assume "has_type x_header_ty v"
  then obtain h :: packet_header and d where "v = VTuple [header_val h, hash_val d]" "header_ok h"
    by (auto simp: x_header_ty_def tuple_typed struct_typed header_member.typed_iff hash_member.typed_iff
        simp del: has_type.simps have_types.simps(2))
  then show "\<exists>x. v = x_header_val x \<and> header_ok (fst x)"
    by (intro exI [of _ "(h, d)"]) (simp add: x_header_val_def)
qed

text \<open>A packet is its header and its content.\<close>

definition pack :: "packet_header \<Rightarrow> xonly \<Rightarrow> packet" where
  "pack h x = packet_header.extend h \<lparr>xonly_content = x\<rparr>"

lemma pack_truncate: "pack (packet_header.truncate p) (xonly_content p) = p"
  by (simp add: pack_def packet_header.extend_def packet_header.truncate_def)

lemma truncate_extend [simp]: "packet_header.truncate (packet_header.extend h e) = (h :: packet_header)"
  by (cases h) (simp add: packet_header.extend_def packet_header.truncate_def)

lemma truncate_header [simp]: "packet_header.truncate h = h" for h :: packet_header
  by (cases h) (simp add: packet_header.truncate_def)

lemma extend_sel [simp]:
  "content (packet_header.extend h \<lparr>content = c\<rparr>) = c"
  "ack_vec (packet_header.extend h \<lparr>ack_vec = acks\<rparr>) = acks"
  by (simp_all add: packet_header.extend_def)

lemma pack_sel [simp]:
  "xonly_content (pack h x) = x"
  "packet_header.truncate (pack h x) = h"
  by (simp_all add: pack_def) (simp add: packet_header.extend_def)

lemma header_ok_truncate [simp]: "header_ok (packet_header.truncate h) = header_ok h"
  by (simp add: header_ok_def base_ok_def)

lemma pack_ok [simp]: "packet_ok (pack h x) \<longleftrightarrow> header_ok h \<and> xonly_ok x"
  using header_ok_truncate [of "pack h x"] by (simp add: packet_ok_def del: header_ok_truncate)

lemma ack_packet_eq: "packet_header.extend (packet_header.truncate p) \<lparr>ack_vec = ack_vec p\<rparr> = p"
  by (simp add: packet_header.extend_def packet_header.truncate_def)

lemma header_val_extend [simp]: "header_val (packet_header.extend h e) = header_val (h :: packet_header)"
  using header_val_truncate [of "packet_header.extend h e"] by simp

lemma val_header_val [simp]: "val_header (header_val h) = Inr (packet_header.truncate h)"
  using header_member.dec_enc [of "packet_header.truncate h"] by simp

interpretation ack_packet_member: object_of ack_packet_ty ack_packet_val val_ack_packet
  "\<lambda>p. header_ok p \<and> acks_ok (ack_vec p)"
proof unfold_locales
  show "val_ack_packet (ack_packet_val x) = Inr x" for x
    by (simp add: val_ack_packet_def ack_packet_val_def acks_member.dec_enc ack_packet_eq)
  show "has_type ack_packet_ty (ack_packet_val x)" if "header_ok x \<and> acks_ok (ack_vec x)" for x
    using that header_member.enc_typed [of "packet_header.truncate x"] acks_member.enc_typed [of "ack_vec x"]
    by (simp add: ack_packet_ty_def ack_packet_val_def struct_typed del: has_type.simps have_types.simps(2))
  fix v assume "has_type ack_packet_ty v"
  then obtain h :: packet_header and acks where "v = VTuple [header_val h, acks_val acks]" "header_ok h" "acks_ok acks"
    by (auto simp: ack_packet_ty_def struct_typed header_member.typed_iff acks_member.typed_iff
        simp del: has_type.simps have_types.simps(2))
  moreover have "header_ok (packet_header.extend h \<lparr>ack_vec = acks\<rparr>) = header_ok h"
    using header_ok_truncate [of "packet_header.extend h \<lparr>ack_vec = acks\<rparr>"] by simp
  ultimately show "\<exists>x. v = ack_packet_val x \<and> header_ok x \<and> acks_ok (ack_vec x)"
    by (intro exI [of _ "packet_header.extend h \<lparr>ack_vec = acks\<rparr>"]) (simp add: ack_packet_val_def)
qed

interpretation krescue_packet_member: object_of krescue_packet_ty krescue_packet_val val_krescue_packet header_ok
proof unfold_locales
  show "val_krescue_packet (krescue_packet_val x) = Inr x" for x
    by (simp add: val_krescue_packet_def krescue_packet_val_def)
  show "has_type krescue_packet_ty (krescue_packet_val x)" if "header_ok x" for x
    using that header_member.enc_typed [of x]
    by (simp add: krescue_packet_ty_def krescue_packet_val_def struct_typed del: has_type.simps have_types.simps(2))
  fix v assume "has_type krescue_packet_ty v"
  then show "\<exists>x :: packet_header. v = krescue_packet_val x \<and> header_ok x"
    by (auto simp: krescue_packet_ty_def krescue_packet_val_def struct_typed header_member.typed_iff
        simp del: has_type.simps have_types.simps(2))
qed

text \<open>The types of the packets are among those the readers are safe on.\<close>

lemmas packet_types = x_header_ty_def ack_packet_ty_def krescue_packet_ty_def packet_polymorphic_ty_def
  header_ty_def base_ty_def id_ty_def address_ty_def acks_ty_def hash_ty_def

lemma array_wire [simp]: "wire_ty (array_ty n)"
  by (simp add: array_ty_def list_all_iff)

lemma array_serializable [simp]: "is_serializable (array_ty n)"
  by (simp add: array_ty_def list_all_iff)

lemma packets_wire [simp]:
  "wire_ty x_header_ty" "wire_ty ack_packet_ty" "wire_ty krescue_packet_ty" "wire_ty packet_polymorphic_ty"
  by (simp_all add: packet_types)

lemma packets_dgstd [simp]: "dgstd_type ack_packet_ty" "dgstd_type krescue_packet_ty"
  by (simp_all add: packet_types)

lemma packets_serializable [simp]: "is_serializable x_header_ty" "is_serializable packet_polymorphic_ty"
  by (simp_all add: packet_types)

section \<open>Reading a fixed layout in a frame\<close>

lemma get_arithmetic_no_bool: "a \<noteq> Bool \<Longrightarrow> get_arithmetic nt a buf pos \<noteq> Inl Invalid_bool"
  by (cases a) (auto simp: get_arithmetic_def load_def bindR_eq_Inl Let_def split: if_splits)

lemma trivial_get_no_bool:
  shows "wire_ty t \<Longrightarrow> trivial_get nt t buf pos \<noteq> Inl Invalid_bool"
    and "list_all wire_ty ts \<Longrightarrow> trivial_get_all nt ts buf pos \<noteq> Inl Invalid_bool"
    and "list_all wire_ty ts \<Longrightarrow> trivial_get_alt nt ts i buf pos \<noteq> Inl Invalid_bool"
proof (induction nt t buf pos and nt ts buf pos and nt ts i buf pos
    rule: trivial_get_trivial_get_all_trivial_get_alt.induct)
  case (5 nt ts buf pos)
  then show ?case using get_arithmetic_no_bool [of "UInt 1" nt buf pos]
    by (auto simp: bindR_eq_Inl Let_def simp del: One_nat_def)
qed (auto simp: bindR_eq_Inl get_arithmetic_no_bool split: nat.splits)

lemma compact_trivial_read:
  assumes "wire_ty t" and "is_serializable t"
  shows "compact_trivial_deserialize_into nt secret t bs \<in> {Inl Corrupted_format, Inl Bad_version_control}
    \<or> (\<exists>v. compact_trivial_deserialize_into nt secret t bs = Inr v \<and> has_type t v)"
proof -
  consider "dgstd_deserialize_into nt secret (array_ty (trivial_size t)) bs \<in> {Inl Corrupted_format, Inl Bad_version_control}"
    | s where "dgstd_deserialize_into nt secret (array_ty (trivial_size t)) bs = Inr (array_val s)" "length s = trivial_size t"
    using dgstd_deserialize_yields [OF array_wire, of nt secret "trivial_size t" bs]
    unfolding array_member.typed_iff by blast
  then show ?thesis
  proof cases
    case 2
    have "trivial_deserialize_into nt t s 0 \<noteq> Inl Invalid_bool"
      using trivial_get_no_bool(1) [OF assms(1)] by (simp add: trivial_deserialize_into_def)
    then obtain v where "trivial_deserialize_into nt t s 0 = Inr (v, trivial_size t)" "has_type t v"
      using trivial_get_object(1) [OF assms(2), of 0 s nt] 2(2)
      by (auto simp: trivial_size_def trivial_deserialize_into_def reads_object_def)
    then show ?thesis using 2 by (simp add: compact_trivial_deserialize_into_def Let_def)
  qed (auto simp: compact_trivial_deserialize_into_def Let_def)
qed

section \<open>Writing and reading back\<close>

lemma write_after: "length bs = n \<Longrightarrow> write_at (c @ replicate n 0) (length c) bs = Inr (c @ bs)"
  by (simp add: write_at_def overwrite_def)

lemma request_packet_eq: "packet_header.extend (packet_header.truncate p) \<lparr>content = content p\<rparr> = p"
  by (simp add: packet_header.extend_def packet_header.truncate_def)

lemma request_frame:
  assumes "header_ok p"
  obtains hb where "serialize_request_packet nt p = Inr (Inr (content p @ hb))"
    and "deserialize_request_packet nt (content p @ hb) = Inr (Inr p)"
proof -
  define d where "d = murmur_hash_base (content p) REQUEST_PACKET_SERIALIZATION_SECRET"
  have "header_ok (fst (packet_header.truncate p, d))" using assms by simp
  then obtain hb where hb: "compact_trivial_serialize_into nt REQUEST_PACKET_SERIALIZATION_SECRET x_header_ty
        (x_header_val (packet_header.truncate p, d)) = Inr hb"
      "length hb = 2 * trivial_size x_header_ty + 19"
      "bindR (compact_trivial_deserialize_into nt REQUEST_PACKET_SERIALIZATION_SECRET x_header_ty hb) val_x_header
        = Inr (packet_header.truncate p, d)"
    using x_header_member.compact_trivial_frame [OF packets_serializable(1)] by meson
  have "serialize_request_packet nt p = Inr (Inr (content p @ hb))"
    using hb(1) write_after [OF hb(2)]
    by (simp add: serialize_request_packet_def Let_def d_def [symmetric] compact_trivial_size_eq)
  moreover have "deserialize_request_packet nt (content p @ hb) = Inr (Inr p)"
    using hb(2,3) by (simp add: deserialize_request_packet_def compact_trivial_size_eq backsplit_str_eq Let_def
        d_def request_packet_eq)
  ultimately show thesis by (rule that)
qed

lemma ack_frame:
  assumes "header_ok p" and "acks_ok (ack_vec p)"
  obtains bs where "serialize_ack_packet nt p = Inr (Inr bs)" and "deserialize_ack_packet nt bs = Inr (Inr p)"
  using ack_packet_member.dgstd_frame [OF packets_dgstd(1), of p nt ACK_PACKET_SERIALIZATION_SECRET] assms
  by (auto simp: serialize_ack_packet_def deserialize_ack_packet_def)

lemma krescue_frame:
  assumes "header_ok p"
  obtains bs where "serialize_krescue_packet nt p = Inr (Inr bs)" and "deserialize_krescue_packet nt bs = Inr (Inr p)"
  using krescue_packet_member.dgstd_frame [OF packets_dgstd(2), of p nt KRESCUE_PACKET_SERIALIZATION_SECRET] assms
  by (auto simp: serialize_krescue_packet_def deserialize_krescue_packet_def)

text \<open>The kind is read back from the end, and what is before it is handed to the reader of that kind.\<close>

lemma polymorphic_frame:
  obtains kb where "polymorphic_header nt k = Inr kb" and "length kb = 2 * trivial_size packet_polymorphic_ty + 19"
    and "bindR (compact_trivial_deserialize_into nt 0 packet_polymorphic_ty kb) val_word = Inr k"
proof -
  obtain kb where kb: "compact_trivial_serialize_into nt 0 packet_polymorphic_ty (word_val k) = Inr kb"
      "length kb = 2 * trivial_size packet_polymorphic_ty + 19"
      "bindR (compact_trivial_deserialize_into nt 0 packet_polymorphic_ty kb) val_word = Inr k"
    using u8_member.compact_trivial_frame [where x = k and nt = nt and secret = 0] by (auto simp: packet_polymorphic_ty_def)
  have "polymorphic_header nt k = Inr kb"
    using kb(1) write_after [OF kb(2), of "[]"] by (simp add: polymorphic_header_def compact_trivial_size_eq)
  then show thesis using kb(2,3) by (rule that)
qed

lemma deserialize_packet_append:
  assumes "polymorphic_header nt k = Inr kb"
  shows "deserialize_packet nt (bs @ kb) =
    (if k = request then bindE (deserialize_request_packet nt bs) (\<lambda>dpkt. Inr (virtualize_request_packet dpkt))
     else if k = ack then bindE (deserialize_ack_packet nt bs) (\<lambda>dpkt. Inr (virtualize_ack_packet dpkt))
     else if k = krescue then bindE (deserialize_krescue_packet nt bs) (\<lambda>dpkt. Inr (virtualize_krescue_packet dpkt))
     else Inr (Inl SOCKET_MALFORMED_PACKET))"
proof -
  obtain kb' where "polymorphic_header nt k = Inr kb'" "length kb' = 2 * trivial_size packet_polymorphic_ty + 19"
    "bindR (compact_trivial_deserialize_into nt 0 packet_polymorphic_ty kb') val_word = Inr k"
    by (rule polymorphic_frame)
  then show ?thesis using assms
    by (simp add: deserialize_packet_def compact_trivial_size_eq backsplit_str_eq)
qed

lemma kinds_distinct [simp]: "ack \<noteq> request" "krescue \<noteq> request" "krescue \<noteq> ack"
  by (simp_all add: ack_def request_def krescue_def)

lemmas kind_tests = is_request_packet_def is_ack_packet_def is_krescue_packet_def

lemmas virtualizations = virtualize_request_packet_def virtualize_ack_packet_def virtualize_krescue_packet_def
  devirtualize_request_packet_def devirtualize_ack_packet_def devirtualize_krescue_packet_def pack_def [symmetric]

lemma packet_frame:
  assumes "packet_ok p"
  shows "\<exists>bs. serialize_packet nt p = Inr (Inr bs) \<and> deserialize_packet nt bs = Inr (Inr p)"
proof -
  let ?h = "packet_header.truncate p"
  have h: "header_ok ?h" and x: "xonly_ok (xonly_content p)" using assms by (simp_all add: packet_ok_def)
  have extended: "header_ok (packet_header.extend ?h e) = header_ok ?h" for e
    using header_ok_truncate [of "packet_header.extend ?h e"] by simp
  show ?thesis
  proof (cases "xonly_content p")
    case XOnlyKRescuePacket
    obtain kb where kb: "polymorphic_header nt krescue = Inr kb" by (rule polymorphic_frame)
    obtain bs where "serialize_krescue_packet nt ?h = Inr (Inr bs)" "deserialize_krescue_packet nt bs = Inr (Inr ?h)"
      using krescue_frame [OF h] by blast
    then show ?thesis using XOnlyKRescuePacket kb pack_truncate [of p]
      by (auto simp: serialize_packet_def kind_tests virtualizations deserialize_packet_append)
  next
    case (XOnlyRequestPacket c)
    let ?p = "packet_header.extend ?h \<lparr>content = c\<rparr>"
    obtain kb where kb: "polymorphic_header nt request = Inr kb" by (rule polymorphic_frame)
    have "header_ok ?p" using h extended by simp
    then obtain hb where "serialize_request_packet nt ?p = Inr (Inr (content ?p @ hb))"
        "deserialize_request_packet nt (content ?p @ hb) = Inr (Inr ?p)"
      by (rule request_frame)
    then show ?thesis using XOnlyRequestPacket kb pack_truncate [of p]
      deserialize_packet_append [OF kb, of "content ?p @ hb"]
      by (auto simp: serialize_packet_def kind_tests virtualizations)
  next
    case (XOnlyAckPacket acks)
    let ?p = "packet_header.extend ?h \<lparr>ack_vec = acks\<rparr>"
    obtain kb where kb: "polymorphic_header nt ack = Inr kb" by (rule polymorphic_frame)
    have "header_ok ?p" "acks_ok (ack_vec ?p)" using h x extended XOnlyAckPacket by simp_all
    then obtain bs where "serialize_ack_packet nt ?p = Inr (Inr bs)" "deserialize_ack_packet nt bs = Inr (Inr ?p)"
      by (rule ack_frame)
    then show ?thesis using XOnlyAckPacket kb pack_truncate [of p]
      by (auto simp: serialize_packet_def kind_tests virtualizations deserialize_packet_append)
  qed
qed

text \<open>
  The header of a packet from 192.168.0.1:80 to 10.0.0.2:8080.
\<close>

definition sample_base :: packet_base where
  "sample_base = \<lparr>packet_id = \<lparr>local_packet_id = 7, factory_id = replicate 20 1\<rparr>, retransmission_count = 0, priority = 3\<rparr>"

definition sample_header :: packet_header where
  "sample_header = packet_base.extend sample_base
     \<lparr>fr_addr = \<lparr>ip = IPv4 [192, 168, 0, 1], port = 80\<rparr>, to_addr = \<lparr>ip = IPv4 [10, 0, 0, 2], port = 8080\<rparr>\<rparr>"

lemma sample_base_ok [simp]: "base_ok sample_base"
  by (simp add: base_ok_def id_ok_def sample_base_def)

lemma sample_header_ok [simp]: "header_ok sample_header"
  by (simp add: sample_header_def header_ok_def base_ok_def id_ok_def packet_base.extend_def sample_base_def)

text \<open>
  C4: packets survive the wire. Every packet whose addresses and identifiers have the sizes of their arrays and
  which acknowledges fewer than 65536 packets is serialized without an error, and \<open>deserialize_packet\<close> gives
  the same packet back, of the same kind.
\<close>
theorem packet_roundtrip:
  assumes "packet_ok p"
  shows "\<exists>bs. serialize_packet nt p = Inr (Inr bs) \<and> deserialize_packet nt bs = Inr (Inr p)"
  using assms by (rule packet_frame)

theorem packet_roundtrip_witness:
  "\<exists>bs. serialize_packet Little (pack sample_header (XOnlyAckPacket [sample_base])) = Inr (Inr bs) \<and>
     deserialize_packet Little bs = Inr (Inr (pack sample_header (XOnlyAckPacket [sample_base])))"
  by (rule packet_roundtrip) (simp add: acks_ok_def)

section \<open>Arbitrary bytes\<close>

text \<open>A reader of packets: it returns one of the codes, or a packet of which \<open>good\<close> holds.\<close>

definition safe_read :: "exception_t set \<Rightarrow> ('a \<Rightarrow> bool) \<Rightarrow> (exception_t + 'a) result \<Rightarrow> bool" where
  "safe_read codes good r \<longleftrightarrow> (\<exists>e \<in> codes. r = Inr (Inl e)) \<or> (\<exists>x. r = Inr (Inr x) \<and> good x)"

lemma safe_read_bindE:
  assumes "safe_read codes good r" and "\<And>x. good x \<Longrightarrow> safe_read codes good' (f x)"
  shows "safe_read codes good' (bindE r f)"
proof -
  consider e where "e \<in> codes" "r = Inr (Inl e)" | x where "r = Inr (Inr x)" "good x"
    using assms(1) by (auto simp: safe_read_def)
  then show ?thesis
  proof cases
    case (2 x)
    then show ?thesis using assms(2) [of x] by simp
  qed (simp add: safe_read_def)
qed

lemma safe_read_cstyle:
  assumes "r \<in> {Inl Corrupted_format, Inl Bad_version_control} \<or> (\<exists>x. r = Inr x \<and> good x)"
  shows "safe_read {UNIDENTIFIED_ERROR, SOCKET_CORRUPTED_PACKET, SOCKET_MALFORMED_PACKET} good (to_cstyle_function r)"
  using assms by (auto simp: safe_read_def to_cstyle_function_def wrap_std_exception_def)

abbreviation wire_errors :: "exception_t set" where
  "wire_errors \<equiv> {UNIDENTIFIED_ERROR, SOCKET_CORRUPTED_PACKET, SOCKET_MALFORMED_PACKET}"

lemma compact_trivial_read_member:
  assumes "object_of t enc dec ok" and "wire_ty t" and "is_serializable t"
  shows "bindR (compact_trivial_deserialize_into nt secret t bs) dec \<in> {Inl Corrupted_format, Inl Bad_version_control}
    \<or> (\<exists>x. bindR (compact_trivial_deserialize_into nt secret t bs) dec = Inr x \<and> ok x)"
  using compact_trivial_read [OF assms(2,3), of nt secret bs] object_of.dec_total [OF assms(1)]
  by (elim disjE exE conjE) force+

lemma request_read: "safe_read wire_errors header_ok (deserialize_request_packet nt bs)"
proof -
  have "safe_read wire_errors (\<lambda>x. header_ok (fst x)) (to_cstyle_function
      (bindR (compact_trivial_deserialize_into nt secret x_header_ty right) val_x_header))" for secret right
    by (rule safe_read_cstyle [OF compact_trivial_read_member [OF x_header_member.object_of_axioms]]) simp_all
  then have "safe_read wire_errors header_ok (bindE (to_cstyle_function
      (bindR (compact_trivial_deserialize_into nt secret x_header_ty right) val_x_header))
        (\<lambda>x. if d \<noteq> snd x then Inr (Inl SOCKET_CORRUPTED_PACKET)
             else Inr (Inr (packet_header.extend (fst x) \<lparr>content = left\<rparr>))))" for secret left right d
  proof (rule safe_read_bindE)
    fix x :: "packet_header \<times> hash_type"
    assume "header_ok (fst x)"
    then show "safe_read wire_errors header_ok (if d \<noteq> snd x then Inr (Inl SOCKET_CORRUPTED_PACKET)
        else Inr (Inr (packet_header.extend (fst x) \<lparr>content = left\<rparr>)))"
      using header_ok_truncate [of "packet_header.extend (fst x) \<lparr>content = left\<rparr>"] by (simp add: safe_read_def)
  qed
  then show ?thesis
    by (auto simp: deserialize_request_packet_def compact_trivial_size_eq backsplit_str_eq Let_def)
      (simp add: safe_read_def)
qed

lemma ack_read: "safe_read wire_errors (\<lambda>p. header_ok p \<and> acks_ok (ack_vec p)) (deserialize_ack_packet nt bs)"
  unfolding deserialize_ack_packet_def by (intro safe_read_cstyle ack_packet_member.dgstd_read packets_wire)

lemma krescue_read: "safe_read wire_errors header_ok (deserialize_krescue_packet nt bs)"
  unfolding deserialize_krescue_packet_def by (intro safe_read_cstyle krescue_packet_member.dgstd_read packets_wire)

text \<open>
  C8: reading bytes from the network is safe. Whatever the bytes, \<open>deserialize_packet\<close> neither leaves the
  buffer nor does anything else without meaning, and does not abort: it returns one of three error codes, or a packet
  that meets the bounds \<open>serialize_packet\<close> needs, so that it can be sent on.
\<close>
theorem deserialize_packet_safe:
  "(\<exists>e. deserialize_packet nt bs = Inr (Inl e) \<and> e \<in> {UNIDENTIFIED_ERROR, SOCKET_CORRUPTED_PACKET, SOCKET_MALFORMED_PACKET})
   \<or> (\<exists>p. deserialize_packet nt bs = Inr (Inr p) \<and> packet_ok p)"
proof -
  have kind: "safe_read wire_errors (\<lambda>_. True) (to_cstyle_function
      (bindR (compact_trivial_deserialize_into nt 0 packet_polymorphic_ty right) (val_word :: val \<Rightarrow> byte result)))" for right
    using safe_read_cstyle [OF compact_trivial_read_member [OF u8_member.object_of_axioms]]
      packets_wire(4) packets_serializable(2) unfolding packet_polymorphic_ty_def by blast
  have "safe_read wire_errors packet_ok (bindE (deserialize_request_packet nt l) (\<lambda>p. Inr (virtualize_request_packet p)))" for l
    by (rule safe_read_bindE [OF request_read]) (simp add: safe_read_def virtualizations)
  moreover have "safe_read wire_errors packet_ok (bindE (deserialize_ack_packet nt l) (\<lambda>p. Inr (virtualize_ack_packet p)))" for l
    by (rule safe_read_bindE [OF ack_read]) (simp add: safe_read_def virtualizations)
  moreover have "safe_read wire_errors packet_ok (bindE (deserialize_krescue_packet nt l) (\<lambda>p. Inr (virtualize_krescue_packet p)))" for l
    by (rule safe_read_bindE [OF krescue_read]) (simp add: safe_read_def virtualizations)
  moreover have "safe_read wire_errors packet_ok (Inr (Inl SOCKET_MALFORMED_PACKET))" by (simp add: safe_read_def)
  ultimately have "safe_read wire_errors packet_ok (deserialize_packet nt bs)"
    by (auto simp: deserialize_packet_def compact_trivial_size_eq backsplit_str_eq intro!: safe_read_bindE [OF kind])
  then show ?thesis by (auto simp: safe_read_def)
qed

section \<open>What was accepted\<close>

lemma bindE_accepts: "bindE r f = Inr (Inr y) \<longleftrightarrow> (\<exists>x. r = Inr (Inr x) \<and> f x = Inr (Inr y))"
  by (auto simp: bindE_def bindR_def split: sum.splits)

lemma cstyle_accepts: "to_cstyle_function r = Inr (Inr x) \<longleftrightarrow> r = Inr x"
  by (auto simp: to_cstyle_eq_Inr)

lemma member_accepts:
  assumes "object_of t enc dec ok" and "wire_ty t" and "is_serializable t"
    and "bindR (compact_trivial_deserialize_into nt secret t bs) dec = Inr x"
  shows "compact_trivial_deserialize_into nt secret t bs = Inr (enc x)"
proof -
  obtain v where v: "compact_trivial_deserialize_into nt secret t bs = Inr v" "dec v = Inr x"
    using assms(4) by (auto simp: bindR_eq_Inr)
  then have "has_type t v" using compact_trivial_read [OF assms(2,3), of nt secret bs] by auto
  then show ?thesis using object_of.dec_total [OF assms(1)] v by fastforce
qed

lemma request_accepts:
  assumes "deserialize_request_packet nt bs = Inr (Inr p)"
  obtains hb where "bs = content p @ hb" and "length hb = 2 * trivial_size x_header_ty + 19"
    and "compact_trivial_deserialize_into nt REQUEST_PACKET_SERIALIZATION_SECRET x_header_ty hb =
      Inr (x_header_val (packet_header.truncate p, murmur_hash_base (content p) REQUEST_PACKET_SERIALIZATION_SECRET))"
proof -
  let ?n = "2 * trivial_size x_header_ty + 19"
  let ?hb = "drop (length bs - ?n) bs"
  have len: "?n \<le> length bs"
    using assms by (auto simp: deserialize_request_packet_def compact_trivial_size_eq split: if_splits)
  obtain h d where x: "bindR (compact_trivial_deserialize_into nt REQUEST_PACKET_SERIALIZATION_SECRET x_header_ty ?hb) val_x_header = Inr (h, d)"
    and p: "p = packet_header.extend h \<lparr>content = take (length bs - ?n) bs\<rparr>"
    and d: "d = murmur_hash_base (take (length bs - ?n) bs) REQUEST_PACKET_SERIALIZATION_SECRET"
    using assms len
    by (auto simp: deserialize_request_packet_def compact_trivial_size_eq backsplit_str_eq bindE_accepts cstyle_accepts
        Let_def split: if_splits)
  have "bs = content p @ ?hb" and "length ?hb = ?n" using len by (simp_all add: p)
  moreover have "compact_trivial_deserialize_into nt REQUEST_PACKET_SERIALIZATION_SECRET x_header_ty ?hb =
      Inr (x_header_val (packet_header.truncate p, murmur_hash_base (content p) REQUEST_PACKET_SERIALIZATION_SECRET))"
    using member_accepts [OF x_header_member.object_of_axioms packets_wire(1) packets_serializable(1) x]
    by (simp add: p d)
  ultimately show thesis by (rule that)
qed

text \<open>
  C30: requests are authentic. A stream that is accepted as a request with content \<open>c\<close> starts with the
  bytes of \<open>c\<close>; after them come the header, framed under the secret of the requests, with the digest of \<open>c\<close> in
  it, and the kind of a request. So the frame protects the header and the digest in it the content, which
  is not itself in the frame.
\<close>
theorem request_authentic:
  assumes "deserialize_packet nt bs = Inr (Inr p)" and "xonly_content p = XOnlyRequestPacket c"
  shows "\<exists>hb kb. bs = c @ hb @ kb
    \<and> compact_trivial_deserialize_into nt REQUEST_PACKET_SERIALIZATION_SECRET x_header_ty hb =
        Inr (x_header_val (packet_header.truncate p, murmur_hash_base c REQUEST_PACKET_SERIALIZATION_SECRET))
    \<and> compact_trivial_deserialize_into nt 0 packet_polymorphic_ty kb = Inr (word_val request)"
proof -
  let ?n = "2 * trivial_size packet_polymorphic_ty + 19"
  define l where "l = take (length bs - ?n) bs"
  define kb where "kb = drop (length bs - ?n) bs"
  have bs: "bs = l @ kb" by (simp add: l_def kb_def)
  obtain k where k: "bindR (compact_trivial_deserialize_into nt 0 packet_polymorphic_ty kb) val_word = Inr k"
    and p: "(if k = request then bindE (deserialize_request_packet nt l) (\<lambda>dpkt. Inr (virtualize_request_packet dpkt))
      else if k = ack then bindE (deserialize_ack_packet nt l) (\<lambda>dpkt. Inr (virtualize_ack_packet dpkt))
      else if k = krescue then bindE (deserialize_krescue_packet nt l) (\<lambda>dpkt. Inr (virtualize_krescue_packet dpkt))
      else Inr (Inl SOCKET_MALFORMED_PACKET)) = Inr (Inr p)"
    using assms(1)
    by (auto simp: deserialize_packet_def compact_trivial_size_eq backsplit_str_eq bindE_accepts cstyle_accepts
        l_def [symmetric] kb_def [symmetric] split: if_split_asm)
  have kind: "k = request"
    using p assms(2) by (auto simp: bindE_accepts virtualizations split: if_split_asm)
  then obtain r where r: "deserialize_request_packet nt l = Inr (Inr r)" and "p = pack (packet_header.truncate r) (XOnlyRequestPacket (content r))"
    using p by (auto simp: bindE_accepts virtualizations)
  then have c: "c = content r" "packet_header.truncate p = packet_header.truncate r" using assms(2) by simp_all
  obtain hb where "l = content r @ hb" "compact_trivial_deserialize_into nt REQUEST_PACKET_SERIALIZATION_SECRET x_header_ty hb =
      Inr (x_header_val (packet_header.truncate r, murmur_hash_base (content r) REQUEST_PACKET_SERIALIZATION_SECRET))"
    by (rule request_accepts [OF r])
  moreover have "compact_trivial_deserialize_into nt 0 packet_polymorphic_ty kb = Inr (word_val k)"
    using member_accepts [OF u8_member.object_of_axioms, of nt 0 kb k] k packets_wire(4) packets_serializable(2)
    unfolding packet_polymorphic_ty_def by blast
  ultimately show ?thesis using c bs kind by auto
qed

theorem request_authentic_witness:
  "\<exists>bs hb kb. serialize_packet Little (pack sample_header (XOnlyRequestPacket [1, 2, 3])) = Inr (Inr bs) \<and>
     bs = [1, 2, 3] @ hb @ kb \<and> compact_trivial_deserialize_into Little 0 packet_polymorphic_ty kb = Inr (word_val request)"
proof -
  obtain bs where "serialize_packet Little (pack sample_header (XOnlyRequestPacket [1, 2, 3])) = Inr (Inr bs)"
      "deserialize_packet Little bs = Inr (Inr (pack sample_header (XOnlyRequestPacket [1, 2, 3])))"
    using packet_frame [of "pack sample_header (XOnlyRequestPacket [1, 2, 3])" Little] by auto
  with request_authentic [of Little bs "pack sample_header (XOnlyRequestPacket [1, 2, 3])" "[1, 2, 3]"]
  show ?thesis by (simp only: pack_sel) blast
qed

section \<open>Too many acknowledgements\<close>

lemma acks_too_many:
  assumes "65536 \<le> length acks" and "has_type header_ty hv"
  shows "dgstd_serialize nt secret ack_packet_ty (VTuple [hv, acks_val acks]) = Inl Bad_format"
proof -
  have "dgstd_object header_ty hv" using assms(2) by (simp add: dgstd_object_def packet_types)
  then obtain n where "DgStdCounter_count nt header_ty hv = Inr n"
    using dgstd.put_total dgstd.size_of_put by blast
  moreover have "\<not> is_safe_integer_castable (False, 2) size_t (int (length acks))"
    using assms(1) by (simp add: is_safe_integer_castable_def int_max_def int_min_def)
  ultimately show ?thesis
    by (simp add: dgstd_serialize_def dgstd_size_def ack_packet_ty_def acks_ty_def acks_val_def dgcounter_defs)
qed

text \<open>
  the limit of an acknowledgement. A packet that acknowledges 65536 packets or more does not fit the \<open>uint16_t\<close>
  its size is stored in: \<open>serialize_packet\<close> returns an error code and neither truncates the vector nor aborts.
\<close>
theorem ack_packet_limit:
  assumes "header_ok h" and "65536 \<le> length acks"
  shows "serialize_packet nt (pack h (XOnlyAckPacket acks)) = Inr (Inl UNIDENTIFIED_ERROR)"
proof -
  obtain kb where "polymorphic_header nt ack = Inr kb" by (rule polymorphic_frame)
  moreover have "has_type header_ty (header_val h)" using assms(1) by (rule header_member.enc_typed)
  ultimately show ?thesis
    using acks_too_many [OF assms(2), of "header_val h" nt]
    by (simp add: serialize_packet_def kind_tests virtualizations serialize_ack_packet_def ack_packet_val_def
        to_cstyle_function_def wrap_std_exception_def)
qed

theorem ack_packet_limit_witness:
  "serialize_packet Big (pack sample_header (XOnlyAckPacket (replicate 65536 sample_base))) = Inr (Inl UNIDENTIFIED_ERROR)"
  by (rule ack_packet_limit) simp_all

text \<open>A frequency in Hertz to a period in (binary) nanoseconds: never zero, never above a second.\<close>

lemma frequency_to_period_bounds: "1 \<le> frequency_to_period f \<and> frequency_to_period f \<le> 2 ^ 30"
proof -
  define c :: "32 word" where "c = min (max f 1) 1073741824"
  have c: "1 \<le> c" "c \<le> 1073741824" by (simp_all add: c_def)
  then have "1 \<le> unat c" "unat c \<le> 1073741824" by (simp_all add: word_le_nat_alt)
  moreover have "unat (1073741824 div c) = 1073741824 div unat c" by (simp add: unat_div_distrib)
  ultimately show ?thesis
    by (simp add: frequency_to_period_def Let_def push_bit_eq_mult c_def [symmetric] word_le_nat_alt
        div_le_dividend Suc_le_eq div_greater_zero_iff)
qed

end
