(* ===== verification/Address_Chain.thy ===== *)
theory Address_Chain
  imports Power_Of_Two
begin

text \<open>
  What the hash containers of \<open>internal_rest/network_datastructure.h\<close> have in common: nodes in a vector or a queue, linked by
  addresses into chains that start in an array of buckets. First the constants and the references to the cells that hold
  addresses, then the chains as paths from a reference through those cells.
\<close>

section \<open>Constants and references\<close>

definition NULL_VIRTUAL_ADDR :: nat where
  "NULL_VIRTUAL_ADDR = 2 ^ 64 - 1"

definition MIN_CAP :: nat where "MIN_CAP = 8"
definition MAX_CAP :: nat where "MAX_CAP = 2 ^ 50"

definition min_size_clamp :: "nat \<Rightarrow> nat \<Rightarrow> nat \<Rightarrow> nat result" where
  "min_size_clamp arg lo hi = (if arg > hi then Inl Length_error else Inr (max arg lo))"

text \<open>A \<open>virtual_addr_t *\<close>: a bucket, or the \<open>nxt_addr\<close> of the node at an index of its container.\<close>

datatype reference = Bucket nat | Next nat

text \<open>Going on after code that may throw or not end.\<close>

definition bindO :: "'a result option \<Rightarrow> ('a \<Rightarrow> 'b result option) \<Rightarrow> 'b result option" where
  "bindO m f = (case m of None \<Rightarrow> None | Some (Inl e) \<Rightarrow> Some (Inl e) | Some (Inr x) \<Rightarrow> f x)"

definition endO :: "'a result \<Rightarrow> 'a result option" where
  "endO r = Some r"

lemma bindO_simps [simp]:
  "bindO (Some (Inr x)) f = f x"
  "bindO (Some (Inl e)) f = Some (Inl e)"
  "bindO None f = None"
  "endO r = Some r"
  by (simp_all add: bindO_def endO_def)

section \<open>Positions of keys\<close>

text \<open>The index of the first occurrence, or the length.\<close>

fun index_of :: "'k list \<Rightarrow> 'k \<Rightarrow> nat" where
  "index_of [] k = 0"
| "index_of (x # xs) k = (if x = k then 0 else Suc (index_of xs k))"

lemma index_of_absent: "k \<notin> set xs \<Longrightarrow> index_of xs k = length xs"
  by (induction xs) auto

lemma index_of_present: "k \<in> set xs \<Longrightarrow> index_of xs k < length xs \<and> xs ! index_of xs k = k"
  by (induction xs) auto

section \<open>Paths\<close>

text \<open>The addresses met from a reference on, up to the null address; \<open>cell\<close> is what the references hold.\<close>

fun path :: "(reference \<Rightarrow> nat) \<Rightarrow> reference \<Rightarrow> nat list \<Rightarrow> bool" where
  "path cell r [] \<longleftrightarrow> cell r = NULL_VIRTUAL_ADDR"
| "path cell r (v # vs) \<longleftrightarrow> cell r = v \<and> v \<noteq> NULL_VIRTUAL_ADDR \<and> path cell (Next v) vs"

text \<open>The reference behind the first part of a path.\<close>

definition behind :: "reference \<Rightarrow> nat list \<Rightarrow> reference" where
  "behind r vs = (if vs = [] then r else Next (last vs))"

lemma behind_simps [simp]:
  "behind r [] = r" "behind r (v # vs) = behind (Next v) vs" "behind r (vs @ [v]) = Next v"
  by (simp_all add: behind_def)

lemma behind_append: "behind r (xs @ ys) = behind (behind r xs) ys"
  by (simp add: behind_def)

lemma behind_in: "behind r vs = r \<or> (\<exists>v \<in> set vs. behind r vs = Next v)"
  by (simp add: behind_def)

lemma path_cong: "cell r = cell' r \<Longrightarrow> (\<And>v. v \<in> set vs \<Longrightarrow> cell (Next v) = cell' (Next v)) \<Longrightarrow> path cell r vs = path cell' r vs"
  by (induction vs arbitrary: r) auto

lemma path_behind: "path cell r (xs @ ys) \<Longrightarrow> path cell (behind r xs) ys"
  by (induction xs arbitrary: r) simp_all

lemma path_not_null: "path cell r vs \<Longrightarrow> v \<in> set vs \<Longrightarrow> v \<noteq> NULL_VIRTUAL_ADDR"
  by (induction vs arbitrary: r) auto

lemma path_cell: "path cell r (xs @ ys) \<Longrightarrow> cell (behind r xs) = (case ys of [] \<Rightarrow> NULL_VIRTUAL_ADDR | v # _ \<Rightarrow> v)"
  by (drule path_behind) (cases ys; simp)

text \<open>Writing to a reference of a path replaces what comes behind it.\<close>

lemma path_redirect:
  assumes "path cell r (pre @ post)" and "distinct pre" and "r \<notin> Next ` set pre" and "behind r pre \<notin> Next ` set post'"
    and "case post' of [] \<Rightarrow> a = NULL_VIRTUAL_ADDR | v # vs \<Rightarrow> a = v \<and> v \<noteq> NULL_VIRTUAL_ADDR \<and> path cell (Next v) vs"
  shows "path (cell(behind r pre := a)) r (pre @ post')"
  using assms
proof (induction pre arbitrary: r)
  case Nil
  show ?case
  proof (cases post')
    case (Cons v vs)
    then have "path (cell(r := a)) (Next v) vs = path cell (Next v) vs" using Nil(4) by (intro path_cong) auto
    then show ?thesis using Nil(5) Cons by (simp del: fun_upd_apply add: fun_upd_same)
  qed (use Nil(5) in simp)
next
  case (Cons v pre)
  have "path (cell(behind (Next v) pre := a)) (Next v) (pre @ post')"
    using Cons.prems by (intro Cons.IH) auto
  moreover have "behind (Next v) pre \<noteq> r" using behind_in [of "Next v" pre] Cons.prems(3) by auto
  ultimately show ?case using Cons.prems(1) by (simp del: fun_upd_apply add: fun_upd_other)
qed

end
