(* ===== verification/Cyclic_Node_Set.thy ===== *)
theory Cyclic_Node_Set
  imports Address_Chain
begin

text \<open>
  \<open>cyclic_unordered_node_set\<close> of \<open>internal_rest/network_datastructure.h\<close>: a hash set of bounded size that forgets
  its oldest element when it is full. Its nodes are in a \<open>pow2_cyclic_queue\<close>, here the list of its elements and
  its capacity (the queue is a bounded double-ended queue, theory \<open>Cyclic_Queue\<close>); the nodes of a bucket are linked
  by virtual addresses, which do not change when the front of the queue is popped. The hash function is a
  parameter; keys are compared by equality. Sums stay far below \<open>2 ^ 64\<close> because a capacity is at most
  \<open>2 ^ 50\<close>, so \<open>size_t\<close> values are natural numbers.
\<close>

section \<open>State\<close>

record 'k set_node =
  node_key :: 'k
  nxt_addr :: nat

record 'k node_set =
  storage :: "'k set_node list"
  storage_cap :: nat
  bucket_vec :: "nat list"
  virtual_addr_offset :: nat

text \<open>The load factor is \<open>ratio<4, 8>\<close>, that is, numerator 1 and denominator 2.\<close>

definition right_capacity_to_size :: "nat \<Rightarrow> nat" where
  "right_capacity_to_size cap = cap div 2 * 1"

definition size_to_capacity :: "nat \<Rightarrow> nat" where
  "size_to_capacity sz = sz * 2"

definition node_set_new :: "nat \<Rightarrow> 'k node_set result" where
  "node_set_new bucket_count =
     bindR (ceil2 bucket_count) (\<lambda>n. bindR (min_size_clamp n MIN_CAP MAX_CAP) (\<lambda>n.
       Inr \<lparr>storage = [], storage_cap = 2 ^ ulog2 (right_capacity_to_size n),
            bucket_vec = replicate n NULL_VIRTUAL_ADDR, virtual_addr_offset = 0\<rparr>))"

section \<open>Addresses and references\<close>

definition to_bucket_index :: "'k node_set \<Rightarrow> nat \<Rightarrow> nat" where
  "to_bucket_index s hashed_value = hashed_value AND (length (bucket_vec s) - 1)"

definition to_storage_addr :: "'k node_set \<Rightarrow> nat \<Rightarrow> nat" where
  "to_storage_addr s org_virtual_addr = (virtual_addr_offset s + org_virtual_addr) AND (storage_cap s - 1)"

definition to_virtual_addr :: "'k node_set \<Rightarrow> nat \<Rightarrow> nat" where
  "to_virtual_addr s storage_addr =
     (let storage_offset = virtual_addr_offset s AND (storage_cap s - 1);
          promoted_storage_addr = storage_addr + storage_cap s;
          difference = promoted_storage_addr - storage_offset
      in difference AND (storage_cap s - 1))"

definition node_at :: "'k node_set \<Rightarrow> nat \<Rightarrow> 'k set_node result" where
  "node_at s i = (if i < length (storage s) then Inr (storage s ! i) else Inl Out_of_bounds)"

fun read_ref :: "'k node_set \<Rightarrow> reference \<Rightarrow> nat result" where
  "read_ref s (Bucket i) = (if i < length (bucket_vec s) then Inr (bucket_vec s ! i) else Inl Out_of_bounds)"
| "read_ref s (Next i) = bindR (node_at s i) (\<lambda>n. Inr (nxt_addr n))"

fun write_ref :: "'k node_set \<Rightarrow> reference \<Rightarrow> nat \<Rightarrow> 'k node_set result" where
  "write_ref s (Bucket i) a =
     (if i < length (bucket_vec s) then Inr (s\<lparr>bucket_vec := (bucket_vec s)[i := a]\<rparr>) else Inl Out_of_bounds)"
| "write_ref s (Next i) a = bindR (node_at s i) (\<lambda>n. Inr (s\<lparr>storage := (storage s)[i := n\<lparr>nxt_addr := a\<rparr>]\<rparr>))"

section \<open>Operations\<close>

text \<open>The loop that follows a chain; \<open>None\<close> is a chain that does not end.\<close>

partial_function (option) find_loop :: "'k node_set \<Rightarrow> 'k \<Rightarrow> reference \<Rightarrow> reference result option" where
  "find_loop s key current = (case read_ref s current of
     Inl e \<Rightarrow> Some (Inl e)
   | Inr a \<Rightarrow>
       if a = NULL_VIRTUAL_ADDR then Some (Inr current)
       else (case node_at s (to_storage_addr s a) of
         Inl e \<Rightarrow> Some (Inl e)
       | Inr n \<Rightarrow>
           if node_key n = key then Some (Inr current)
           else find_loop s key (Next (to_storage_addr s a))))"

definition internal_find_bucket_reference :: "('k \<Rightarrow> nat) \<Rightarrow> 'k node_set \<Rightarrow> 'k \<Rightarrow> reference result option" where
  "internal_find_bucket_reference hasher s key =
     (let hashed_value = hasher key; bucket_idx = to_bucket_index s hashed_value
      in find_loop s key (Bucket bucket_idx))"

text \<open>An iterator is an index of the queue; \<open>cend()\<close> is its size.\<close>

definition internal_find :: "('k \<Rightarrow> nat) \<Rightarrow> 'k node_set \<Rightarrow> 'k \<Rightarrow> nat result option" where
  "internal_find hasher s key =
     bindO (internal_find_bucket_reference hasher s key) (\<lambda>bucket_reference.
     bindO (endO (read_ref s bucket_reference)) (\<lambda>a.
       if a = NULL_VIRTUAL_ADDR then Some (Inr (length (storage s)))
       else Some (Inr (to_storage_addr s a))))"

definition set_contains :: "('k \<Rightarrow> nat) \<Rightarrow> 'k node_set \<Rightarrow> 'k \<Rightarrow> bool result option" where
  "set_contains hasher s key = bindO (internal_find hasher s key) (\<lambda>i. Some (Inr (i \<noteq> length (storage s))))"

definition pop_front_node :: "'k node_set \<Rightarrow> 'k node_set result" where
  "pop_front_node s =
     (if storage s = [] then Inl Abort
      else Inr (s\<lparr>storage := tl (storage s),
        virtual_addr_offset := (virtual_addr_offset s + (storage_cap s - 1)) AND (storage_cap s - 1)\<rparr>))"

definition front_node :: "'k node_set \<Rightarrow> 'k set_node result" where
  "front_node s = (if storage s = [] then Inl Abort else Inr (hd (storage s)))"

definition internal_erase_front :: "('k \<Rightarrow> nat) \<Rightarrow> 'k node_set \<Rightarrow> 'k node_set result option" where
  "internal_erase_front hasher s =
     bindO (endO (front_node s)) (\<lambda>front.
     bindO (internal_find_bucket_reference hasher s (node_key front)) (\<lambda>bucket_reference.
     bindO (endO (write_ref s bucket_reference (nxt_addr front))) (\<lambda>s.
       endO (pop_front_node s))))"

definition push_back_node :: "'k node_set \<Rightarrow> 'k set_node \<Rightarrow> 'k node_set" where
  "push_back_node s n = (if length (storage s) = storage_cap s then s else s\<lparr>storage := storage s @ [n]\<rparr>)"

definition internal_insert :: "('k \<Rightarrow> nat) \<Rightarrow> 'k node_set \<Rightarrow> 'k set_node \<Rightarrow> ((nat \<times> bool) \<times> 'k node_set) result option" where
  "internal_insert hasher s bucket =
     bindO (if length (storage s) = storage_cap s then internal_erase_front hasher s else endO (Inr s)) (\<lambda>s.
     bindO (internal_find_bucket_reference hasher s (node_key bucket)) (\<lambda>insert_reference.
     bindO (endO (read_ref s insert_reference)) (\<lambda>a.
       if a = NULL_VIRTUAL_ADDR then
         bindO (endO (write_ref s insert_reference (to_virtual_addr s (length (storage s))))) (\<lambda>s.
           let s' = push_back_node s bucket
           in endO (Inr ((length (storage s') - 1, True), s')))
       else endO (Inr ((to_storage_addr s a, False), s)))))"

definition set_insert :: "('k \<Rightarrow> nat) \<Rightarrow> 'k node_set \<Rightarrow> 'k \<Rightarrow> ((nat \<times> bool) \<times> 'k node_set) result option" where
  "set_insert hasher s key = internal_insert hasher s \<lparr>node_key = key, nxt_addr = NULL_VIRTUAL_ADDR\<rparr>"

text \<open>
  After \<open>dg_restrict_swap_for_destroy\<close> the front is popped, so the exchange stores the front at the
  place of the erased node.
\<close>

definition internal_erase_key :: "('k \<Rightarrow> nat) \<Rightarrow> 'k node_set \<Rightarrow> 'k \<Rightarrow> (bool \<times> 'k node_set) result option" where
  "internal_erase_key hasher s key =
     bindO (internal_find_bucket_reference hasher s key) (\<lambda>key_reference.
     bindO (endO (read_ref s key_reference)) (\<lambda>a.
       if a = NULL_VIRTUAL_ADDR then endO (Inr (False, s))
       else
         bindO (endO (front_node s)) (\<lambda>front.
         bindO (internal_find_bucket_reference hasher s (node_key front)) (\<lambda>swapping_reference.
         bindO (endO (node_at s (to_storage_addr s a))) (\<lambda>n.
         bindO (if swapping_reference = key_reference then
                  endO (write_ref s key_reference (nxt_addr n))
                else
                  let swapping_reference = (if swapping_reference = Next (to_storage_addr s a) then key_reference
                                            else swapping_reference)
                  in
                    bindO (endO (write_ref s key_reference (nxt_addr n))) (\<lambda>s1.
                    bindO (endO (write_ref s1 swapping_reference a)) (\<lambda>s2.
                    bindO (endO (front_node s2)) (\<lambda>front.
                      endO (Inr (s2\<lparr>storage := (storage s2)[to_storage_addr s2 a := front]\<rparr>))))))
               (\<lambda>s.
           bindO (endO (pop_front_node s)) (\<lambda>s. endO (Inr (True, s)))))))))"

definition node_set_clear :: "'k node_set \<Rightarrow> 'k node_set" where
  "node_set_clear s =
     s\<lparr>storage := [], bucket_vec := replicate (length (bucket_vec s)) NULL_VIRTUAL_ADDR, virtual_addr_offset := 0\<rparr>"

section \<open>Virtual addresses\<close>

definition shape_ok :: "'k node_set \<Rightarrow> bool" where
  "shape_ok s \<longleftrightarrow> (\<exists>k \<le> 50. storage_cap s = 2 ^ k) \<and> (\<exists>m. length (bucket_vec s) = 2 ^ m)
     \<and> length (storage s) \<le> storage_cap s"

lemma shape_pos: "shape_ok s \<Longrightarrow> 0 < storage_cap s" and buckets_pos: "shape_ok s \<Longrightarrow> 0 < length (bucket_vec s)"
  by (auto simp: shape_ok_def)

lemma cap_less_null: "shape_ok s \<Longrightarrow> storage_cap s < NULL_VIRTUAL_ADDR"
proof -
  assume "shape_ok s"
  then obtain k where k: "k \<le> 50" "storage_cap s = 2 ^ k" by (auto simp: shape_ok_def)
  have "(2 :: nat) ^ k \<le> 2 ^ 50" using k(1) by (rule power_increasing) simp
  then show ?thesis using k(2) by (simp add: NULL_VIRTUAL_ADDR_def)
qed

lemma storage_addr_mod:
  "shape_ok s \<Longrightarrow> to_storage_addr s v = (virtual_addr_offset s + v) mod storage_cap s"
  by (auto simp: to_storage_addr_def shape_ok_def and_pow2_mask simp del: One_nat_def)

lemma storage_addr_less: "shape_ok s \<Longrightarrow> to_storage_addr s v < storage_cap s"
  by (simp add: storage_addr_mod shape_pos)

lemma bucket_index_less: "shape_ok s \<Longrightarrow> to_bucket_index s h < length (bucket_vec s)"
  by (auto simp: to_bucket_index_def shape_ok_def and_pow2_mask simp del: One_nat_def)

lemma storage_addr_inj:
  assumes "shape_ok s" and "v < storage_cap s" and "w < storage_cap s"
    and "to_storage_addr s v = to_storage_addr s w"
  shows "v = w"
proof -
  have "(v + virtual_addr_offset s) mod storage_cap s = (w + virtual_addr_offset s) mod storage_cap s"
    using assms by (simp add: storage_addr_mod add.commute)
  then have "v mod storage_cap s = w mod storage_cap s" by (simp add: mod_eq_iff_dvd_symdiff_nat nat_mod_eq_iff)
  then show ?thesis using assms(2,3) by simp
qed

lemma virtual_addr:
  assumes "shape_ok s" and "i < storage_cap s"
  shows "to_virtual_addr s i < storage_cap s" and "to_storage_addr s (to_virtual_addr s i) = i"
proof -
  let ?C = "storage_cap s" and ?o = "virtual_addr_offset s"
  have pos: "0 < ?C" using assms(1) by (rule shape_pos)
  have va: "to_virtual_addr s i = (i + ?C - ?o mod ?C) mod ?C"
    using assms(1) by (auto simp: to_virtual_addr_def Let_def shape_ok_def and_pow2_mask simp del: One_nat_def)
  then show "to_virtual_addr s i < ?C" using pos by simp
  have "?o mod ?C < ?C" using pos by simp
  then have "?o mod ?C + (i + ?C - ?o mod ?C) = i + ?C" by simp
  then have "(?o + (i + ?C - ?o mod ?C)) mod ?C = (i + ?C) mod ?C" by (metis mod_add_left_eq)
  then show "to_storage_addr s (to_virtual_addr s i) = i"
    using assms by (simp add: storage_addr_mod va mod_add_right_eq)
qed

text \<open>Popping the front moves every node down by one place and leaves its address.\<close>

lemma storage_addr_pop:
  assumes "shape_ok s" and "to_storage_addr s v = Suc i"
  shows "(virtual_addr_offset s + (storage_cap s - 1) AND (storage_cap s - 1)) + v AND (storage_cap s - 1) = i"
proof -
  let ?C = "storage_cap s" and ?o = "virtual_addr_offset s"
  have pos: "0 < ?C" using assms(1) by (rule shape_pos)
  have "((?o + (?C - 1)) mod ?C + v) mod ?C = ((?o + v) mod ?C + (?C - 1)) mod ?C"
    by (simp add: mod_add_left_eq add.assoc add.commute [of v])
  also have "(?o + v) mod ?C = Suc i" using assms by (simp add: storage_addr_mod)
  also have "(Suc i + (?C - 1)) mod ?C = i"
    using pos storage_addr_less [OF assms(1), of v] assms(2) by simp
  finally show ?thesis
    using assms(1) by (auto simp: shape_ok_def and_pow2_mask simp del: One_nat_def)
qed

section \<open>Chains\<close>

text \<open>The addresses met from \<open>a\<close> on, up to the null address.\<close>

fun chain :: "(nat \<Rightarrow> nat) \<Rightarrow> nat \<Rightarrow> nat list \<Rightarrow> bool" where
  "chain nx a [] \<longleftrightarrow> a = NULL_VIRTUAL_ADDR"
| "chain nx a (v # vs) \<longleftrightarrow> a = v \<and> v \<noteq> NULL_VIRTUAL_ADDR \<and> chain nx (nx v) vs"

lemma chain_cong: "(\<And>v. v \<in> set vs \<Longrightarrow> nx v = nx' v) \<Longrightarrow> chain nx a vs = chain nx' a vs"
  by (induction vs arbitrary: a) auto

lemma bucket_chain_append:
  "chain nx a (xs @ ys) \<longleftrightarrow> (if xs = [] then chain nx a ys
     else chain (nx(last xs := NULL_VIRTUAL_ADDR)) a xs \<and> last xs \<noteq> NULL_VIRTUAL_ADDR \<and> chain nx (nx (last xs)) ys)"
  if "distinct xs"
  using that
proof (induction xs arbitrary: a)
  case (Cons x xs)
  show ?case
  proof (cases "xs = []")
    case False
    then have "x \<noteq> last xs" using Cons.prems by auto
    then show ?thesis using Cons False by auto
  qed auto
qed simp

lemma chain_redirect:
  assumes "chain nx h (pre @ post)" and "distinct pre" and "set pre \<inter> set post' = {}" and "chain nx a post'"
  shows "if pre = [] then chain nx a post' else chain (nx(last pre := a)) h (pre @ post')"
proof (cases "pre = []")
  case False
  have "last pre \<notin> set post'" using assms(3) False last_in_set by fastforce
  then have "chain nx a post' = chain (nx(last pre := a)) a post'" by (intro chain_cong) auto
  then have "chain (nx(last pre := a)) a post'" using assms(4) by simp
  then show ?thesis using assms(1,2) False by (simp add: bucket_chain_append)
qed (use assms(4) in simp)

section \<open>The nodes by address\<close>

definition live :: "'k node_set \<Rightarrow> nat set" where
  "live s = {v. v < storage_cap s \<and> to_storage_addr s v < length (storage s)}"

definition next_of :: "'k node_set \<Rightarrow> nat \<Rightarrow> nat" where
  "next_of s v = nxt_addr (storage s ! to_storage_addr s v)"

definition key_of :: "'k node_set \<Rightarrow> nat \<Rightarrow> 'k" where
  "key_of s v = node_key (storage s ! to_storage_addr s v)"

definition keys :: "'k node_set \<Rightarrow> 'k list" where
  "keys s = map node_key (storage s)"

definition linked :: "'k node_set \<Rightarrow> (nat \<Rightarrow> nat list) \<Rightarrow> bool" where
  "linked s ch \<longleftrightarrow>
     (\<forall>b < length (bucket_vec s). chain (next_of s) (bucket_vec s ! b) (ch b) \<and> distinct (ch b) \<and> set (ch b) \<subseteq> live s)
   \<and> (\<forall>b < length (bucket_vec s). \<forall>b' < length (bucket_vec s). b \<noteq> b' \<longrightarrow> set (ch b) \<inter> set (ch b') = {})"

lemma linkedD:
  assumes "linked s ch" and "b < length (bucket_vec s)"
  shows "chain (next_of s) (bucket_vec s ! b) (ch b)" "distinct (ch b)" "set (ch b) \<subseteq> live s"
  using assms by (auto simp: linked_def)

text \<open>The reference that holds the address behind the first part of a chain.\<close>

definition link :: "'k node_set \<Rightarrow> nat \<Rightarrow> nat list \<Rightarrow> reference" where
  "link s b pre = (if pre = [] then Bucket b else Next (to_storage_addr s (last pre)))"

lemma live_ne_null: "shape_ok s \<Longrightarrow> v \<in> live s \<Longrightarrow> v \<noteq> NULL_VIRTUAL_ADDR"
  using cap_less_null by (fastforce simp: live_def)

lemma node_at_live: "v \<in> live s \<Longrightarrow> node_at s (to_storage_addr s v) = Inr (storage s ! to_storage_addr s v)"
  by (simp add: live_def node_at_def)

lemma read_link:
  assumes "linked s ch" and "b < length (bucket_vec s)" and "ch b = pre @ post"
  shows "read_ref s (link s b pre) = Inr (case post of [] \<Rightarrow> NULL_VIRTUAL_ADDR | v # _ \<Rightarrow> v)"
proof -
  have c: "chain (next_of s) (bucket_vec s ! b) (pre @ post)" and d: "distinct (pre @ post)" and l: "set pre \<subseteq> live s"
    using linkedD [OF assms(1,2)] assms(3) by auto
  show ?thesis
  proof (cases "pre = []")
    case True
    then show ?thesis using c assms(2) by (cases post) (simp_all add: link_def)
  next
    case False
    then have "last pre \<in> live s" using l last_in_set by blast
    moreover have "chain (next_of s) (next_of s (last pre)) post" using c d False by (simp add: bucket_chain_append)
    ultimately show ?thesis using False by (cases post) (simp_all add: link_def node_at_live next_of_def)
  qed
qed

text \<open>The loop stops at the link of the first node with the key, or at the end.\<close>

lemma find_loop_eq:
  assumes "linked s ch" and "b < length (bucket_vec s)" and "shape_ok s"
    and "ch b = pre @ mid @ post" and "\<forall>v \<in> set mid. key_of s v \<noteq> key"
    and "post = [] \<or> key_of s (hd post) = key"
  shows "find_loop s key (link s b pre) = Some (Inr (link s b (pre @ mid)))"
  using assms(4,5)
proof (induction mid arbitrary: pre)
  case Nil
  have "set (ch b) \<subseteq> live s" using linkedD [OF assms(1,2)] by blast
  then have post: "set post \<subseteq> live s" using Nil by auto
  show ?case
  proof (cases post)
    case Nil
    then show ?thesis using read_link [OF assms(1,2), of pre post] \<open>ch b = pre @ [] @ post\<close>
      by (subst find_loop.simps) simp
  next
    case (Cons v vs)
    then show ?thesis using read_link [OF assms(1,2), of pre post] \<open>ch b = pre @ [] @ post\<close> post assms(6)
        live_ne_null [OF assms(3), of v]
      by (subst find_loop.simps) (simp add: node_at_live key_of_def)
  qed
next
  case (Cons v mid)
  have v: "v \<in> live s" using linkedD(3) [OF assms(1,2)] Cons.prems(1) by auto
  have "find_loop s key (link s b pre) = find_loop s key (Next (to_storage_addr s v))"
    using read_link [OF assms(1,2), of pre "v # mid @ post"] Cons.prems v live_ne_null [OF assms(3) v]
    by (subst find_loop.simps) (simp add: node_at_live key_of_def)
  also have "Next (to_storage_addr s v) = link s b (pre @ [v])" by (simp add: link_def)
  finally show ?case using Cons.IH [of "pre @ [v]"] Cons.prems by simp
qed

section \<open>Redirecting a link\<close>

text \<open>What a write through a reference leaves: the keys in their order, and all sizes.\<close>

definition same_frame :: "'k node_set \<Rightarrow> 'k node_set \<Rightarrow> bool" where
  "same_frame s s' \<longleftrightarrow> storage_cap s' = storage_cap s \<and> virtual_addr_offset s' = virtual_addr_offset s
     \<and> length (bucket_vec s') = length (bucket_vec s) \<and> keys s' = keys s"

lemma same_frameD:
  assumes "same_frame s s'"
  shows "storage_cap s' = storage_cap s" "length (bucket_vec s') = length (bucket_vec s)" "keys s' = keys s"
    "length (storage s') = length (storage s)" "shape_ok s' = shape_ok s" "to_storage_addr s' v = to_storage_addr s v"
    "to_bucket_index s' h = to_bucket_index s h" "live s' = live s" "to_virtual_addr s' i = to_virtual_addr s i"
proof -
  show len: "length (storage s') = length (storage s)"
    using assms by (auto simp: same_frame_def keys_def dest: map_eq_imp_length_eq)
  have sa: "to_storage_addr s' v = to_storage_addr s v" for v using assms by (simp add: same_frame_def to_storage_addr_def)
  show "to_storage_addr s' v = to_storage_addr s v" by (rule sa)
  show "storage_cap s' = storage_cap s" "length (bucket_vec s') = length (bucket_vec s)" "keys s' = keys s"
    "to_bucket_index s' h = to_bucket_index s h" "to_virtual_addr s' i = to_virtual_addr s i"
    using assms by (simp_all add: same_frame_def to_bucket_index_def to_virtual_addr_def)
  show "shape_ok s' = shape_ok s" using assms len by (simp add: same_frame_def shape_ok_def)
  show "live s' = live s" using assms len by (simp add: same_frame_def live_def sa)
qed

lemma key_of_keys: "v \<in> live s \<Longrightarrow> key_of s v = keys s ! to_storage_addr s v"
  by (simp add: live_def key_of_def keys_def)

lemma same_frame_key: "same_frame s s' \<Longrightarrow> v \<in> live s \<Longrightarrow> key_of s' v = key_of s v"
  using key_of_keys [of v s] key_of_keys [of v s'] by (simp add: same_frameD)

lemma same_frame_trans: "same_frame s s' \<Longrightarrow> same_frame s' s'' \<Longrightarrow> same_frame s s''"
  by (simp add: same_frame_def)

lemma write_bucket:
  "b < length (bucket_vec s) \<Longrightarrow> \<exists>s'. write_ref s (Bucket b) a = Inr s' \<and> same_frame s s' \<and> next_of s' = next_of s
     \<and> bucket_vec s' = (bucket_vec s)[b := a]"
  by (auto simp: same_frame_def keys_def next_of_def to_storage_addr_def fun_eq_iff)

lemma write_next:
  assumes "shape_ok s" and "u \<in> live s"
  obtains s' where "write_ref s (Next (to_storage_addr s u)) a = Inr s'" and "same_frame s s'"
    and "\<And>v. v < storage_cap s \<Longrightarrow> next_of s' v = ((next_of s)(u := a)) v" and "bucket_vec s' = bucket_vec s"
proof -
  let ?i = "to_storage_addr s u"
  let ?s = "s\<lparr>storage := (storage s)[?i := (storage s ! ?i)\<lparr>nxt_addr := a\<rparr>]\<rparr>"
  have i: "?i < length (storage s)" and u: "u < storage_cap s" using assms(2) by (auto simp: live_def)
  have "write_ref s (Next ?i) a = Inr ?s" using node_at_live [OF assms(2)] by simp
  moreover have "same_frame s ?s"
    using i by (simp add: same_frame_def keys_def map_update list_update_same_conv)
  moreover have "next_of ?s v = ((next_of s)(u := a)) v" if "v < storage_cap s" for v
  proof -
    have "to_storage_addr ?s v = to_storage_addr s v" by (simp add: to_storage_addr_def)
    moreover have "to_storage_addr s v = ?i \<longleftrightarrow> v = u" using storage_addr_inj [OF assms(1) that u] by auto
    ultimately show ?thesis using i by (auto simp: next_of_def nth_list_update)
  qed
  moreover have "bucket_vec ?s = bucket_vec s" by simp
  ultimately show thesis by (rule that)
qed

text \<open>What a link is redirected to: another rest of the chain, disjoint from the other chains.\<close>

lemma write_link:
  assumes "linked s ch" and "shape_ok s" and "b < length (bucket_vec s)" and "ch b = pre @ post"
    and "chain (next_of s) a post'" and "distinct (pre @ post')" and "set post' \<subseteq> live s"
    and "\<And>b'. b' < length (bucket_vec s) \<Longrightarrow> b' \<noteq> b \<Longrightarrow> set post' \<inter> set (ch b') = {}"
  obtains s' where "write_ref s (link s b pre) a = Inr s'" and "same_frame s s'" and "linked s' (ch(b := pre @ post'))"
    and "\<And>v. v < storage_cap s \<Longrightarrow> v \<notin> set pre \<Longrightarrow> next_of s' v = next_of s v"
proof -
  have c: "chain (next_of s) (bucket_vec s ! b) (pre @ post)" and l: "set pre \<subseteq> live s"
    using linkedD [OF assms(1,3)] assms(4) by auto
  have redirect: "if pre = [] then chain (next_of s) a post'
      else chain ((next_of s)(last pre := a)) (bucket_vec s ! b) (pre @ post')"
    using c assms(5,6) by (intro chain_redirect) auto
  obtain s' where s': "write_ref s (link s b pre) a = Inr s'" "same_frame s s'"
    and nx: "\<And>v. v < storage_cap s \<Longrightarrow> next_of s' v = (if pre = [] then next_of s else (next_of s)(last pre := a)) v"
    and bv: "bucket_vec s' = (if pre = [] then (bucket_vec s)[b := a] else bucket_vec s)"
  proof (cases "pre = []")
    case True
    then show thesis using write_bucket [OF assms(3), of a] that by (auto simp: link_def)
  next
    case False
    then have "last pre \<in> live s" using l last_in_set by blast
    then show thesis using write_next [OF assms(2)] False that by (auto simp: link_def)
  qed
  have mem: "v < storage_cap s" if "v \<in> live s" for v using that by (simp add: live_def)
  have disj: "set (ch b) \<inter> set (ch b') = {}" if "b' < length (bucket_vec s)" "b' \<noteq> b" for b'
    using assms(1,3) that by (auto simp: linked_def)
  have "chain (next_of s') (bucket_vec s' ! b') ((ch(b := pre @ post')) b') \<and> distinct ((ch(b := pre @ post')) b')
      \<and> set ((ch(b := pre @ post')) b') \<subseteq> live s'" if b': "b' < length (bucket_vec s)" for b'
  proof (cases "b' = b")
    case True
    have "chain (if pre = [] then next_of s else (next_of s)(last pre := a)) (bucket_vec s' ! b) (pre @ post')"
      using redirect bv assms(3) by (auto split: if_splits)
    moreover have "chain (if pre = [] then next_of s else (next_of s)(last pre := a)) (bucket_vec s' ! b) (pre @ post')
        = chain (next_of s') (bucket_vec s' ! b) (pre @ post')"
      using l assms(7) mem by (intro chain_cong) (auto simp: nx)
    ultimately show ?thesis using True assms(6,7) l by (simp add: same_frameD [OF s'(2)])
  next
    case False
    have "chain (next_of s) (bucket_vec s ! b') (ch b') = chain (next_of s') (bucket_vec s ! b') (ch b')"
    proof (rule chain_cong)
      fix v assume v: "v \<in> set (ch b')"
      then have "v \<noteq> last pre \<or> pre = []"
        using disj [OF b' False] assms(4) by (metis IntI Un_iff empty_iff last_in_set set_append)
      moreover have "v < storage_cap s" using linkedD(3) [OF assms(1) b'] v mem by blast
      ultimately show "next_of s v = next_of s' v" by (auto simp: nx)
    qed
    then show ?thesis
      using linkedD [OF assms(1) b'] False bv by (auto simp: same_frameD [OF s'(2)] split: if_splits)
  qed
  moreover have "set ((ch(b := pre @ post')) b1) \<inter> set ((ch(b := pre @ post')) b2) = {}"
    if "b1 < length (bucket_vec s)" "b2 < length (bucket_vec s)" "b1 \<noteq> b2" for b1 b2
    using that assms(1,8) disj assms(4) by (auto simp: linked_def)
  ultimately have "linked s' (ch(b := pre @ post'))"
    unfolding linked_def same_frameD(2) [OF s'(2)] by blast
  moreover have "next_of s' v = next_of s v" if "v < storage_cap s" "v \<notin> set pre" for v
    using nx [OF that(1)] that(2) last_in_set [of pre] by (auto split: if_splits)
  ultimately show thesis using s' that by blast
qed

section \<open>Popping, pushing and overwriting nodes\<close>

lemma linked_cong:
  assumes "linked s ch" and "bucket_vec s' = bucket_vec s"
    and "\<And>b v. b < length (bucket_vec s) \<Longrightarrow> v \<in> set (ch b) \<Longrightarrow> v \<in> live s' \<and> next_of s' v = next_of s v"
  shows "linked s' ch"
proof -
  have "chain (next_of s) (bucket_vec s ! b) (ch b) = chain (next_of s') (bucket_vec s ! b) (ch b)"
    if "b < length (bucket_vec s)" for b
    using assms(3) [OF that] by (intro chain_cong) auto
  then show ?thesis using assms unfolding linked_def by auto
qed

text \<open>The address of the node at the front.\<close>

abbreviation front_addr :: "'k node_set \<Rightarrow> nat" where
  "front_addr s \<equiv> to_virtual_addr s 0"

lemma front_addr:
  assumes "shape_ok s" and "storage s \<noteq> []"
  shows "front_addr s \<in> live s" "to_storage_addr s (front_addr s) = 0"
    and "v < storage_cap s \<Longrightarrow> to_storage_addr s v = 0 \<longleftrightarrow> v = front_addr s"
proof -
  show sa: "to_storage_addr s (front_addr s) = 0" and "front_addr s \<in> live s"
    using virtual_addr [OF assms(1), of 0] shape_pos [OF assms(1)] assms(2) by (auto simp: live_def)
  show "v < storage_cap s \<Longrightarrow> to_storage_addr s v = 0 \<longleftrightarrow> v = front_addr s"
    using storage_addr_inj [OF assms(1), of v "front_addr s"] virtual_addr(1) [OF assms(1) shape_pos [OF assms(1)]] sa
    by auto
qed

lemma pop_front_ok:
  assumes "shape_ok s" and "storage s \<noteq> []" and "linked s ch"
    and "\<And>b. b < length (bucket_vec s) \<Longrightarrow> front_addr s \<notin> set (ch b)"
  obtains s' where "pop_front_node s = Inr s'" and "shape_ok s'" and "linked s' ch" and "keys s' = tl (keys s)"
    and "live s' = live s - {front_addr s}" and "bucket_vec s' = bucket_vec s" and "storage_cap s' = storage_cap s"
    and "\<And>v. v \<in> live s' \<Longrightarrow> key_of s' v = key_of s v"
proof -
  define s' where "s' = s\<lparr>storage := tl (storage s),
    virtual_addr_offset := (virtual_addr_offset s + (storage_cap s - 1)) AND (storage_cap s - 1)\<rparr>"
  have pop: "pop_front_node s = Inr s'" using assms(2) by (simp add: pop_front_node_def s'_def)
  have down: "to_storage_addr s' v = i" if "to_storage_addr s v = Suc i" for v i
    using storage_addr_pop [OF assms(1) that] by (simp add: s'_def to_storage_addr_def)
  have shape: "shape_ok s'" using assms(1) by (auto simp: shape_ok_def s'_def)
  have up: "to_storage_addr s' (front_addr s) = storage_cap s - 1"
  proof -
    have o: "virtual_addr_offset s' = (virtual_addr_offset s + (storage_cap s - 1)) mod storage_cap s"
      using assms(1) by (auto simp: s'_def shape_ok_def and_pow2_mask simp del: One_nat_def)
    have zero: "(virtual_addr_offset s + front_addr s) mod storage_cap s = 0"
      using front_addr(2) [OF assms(1,2)] storage_addr_mod [OF assms(1)] by simp
    have "to_storage_addr s' (front_addr s) = ((virtual_addr_offset s + (storage_cap s - 1)) mod storage_cap s + front_addr s) mod storage_cap s"
      using storage_addr_mod [OF shape] o by (simp add: s'_def)
    also have "\<dots> = ((virtual_addr_offset s + front_addr s) mod storage_cap s + (storage_cap s - 1)) mod storage_cap s"
      by (simp add: mod_add_left_eq add.assoc add.commute [of "front_addr s"])
    also have "\<dots> = storage_cap s - 1" using zero shape_pos [OF assms(1)] by simp
    finally show ?thesis .
  qed
  have other: "v \<in> live s' \<and> next_of s' v = next_of s v \<and> key_of s' v = key_of s v" if "v \<in> live s" "v \<noteq> front_addr s" for v
  proof -
    have "to_storage_addr s v \<noteq> 0" using front_addr(3) [OF assms(1,2), of v] that by (auto simp: live_def)
    then obtain i where i: "to_storage_addr s v = Suc i" using not0_implies_Suc by blast
    then have "Suc i < length (storage s)" using that(1) by (auto simp: live_def)
    then show ?thesis using that(1) down [OF i] i assms(2)
      by (auto simp: live_def next_of_def key_of_def s'_def nth_tl)
  qed
  have "live s' = live s - {front_addr s}"
  proof (intro set_eqI iffI)
    fix v assume v: "v \<in> live s'"
    then have cap: "v < storage_cap s" and sv: "to_storage_addr s' v < length (storage s) - 1"
      by (auto simp: live_def s'_def)
    have "v \<noteq> front_addr s" using up sv assms(1) by (auto simp: shape_ok_def)
    then have "to_storage_addr s v \<noteq> 0" using front_addr(3) [OF assms(1,2) cap] by simp
    then obtain i where i: "to_storage_addr s v = Suc i" using not0_implies_Suc by blast
    then show "v \<in> live s - {front_addr s}" using down [OF i] sv cap \<open>v \<noteq> front_addr s\<close> by (auto simp: live_def)
  qed (use other in auto)
  moreover have "linked s' ch"
  proof (rule linked_cong [OF assms(3)])
    fix b v assume "b < length (bucket_vec s)" "v \<in> set (ch b)"
    then have "v \<in> live s" "v \<noteq> front_addr s" using linkedD(3) [OF assms(3)] assms(4) by auto
    then show "v \<in> live s' \<and> next_of s' v = next_of s v" using other by simp
  qed (simp add: s'_def)
  moreover have "keys s' = tl (keys s)" by (simp add: s'_def keys_def map_tl)
  moreover have "key_of s' v = key_of s v" if "v \<in> live s'" for v using that other calculation(1) by auto
  moreover have "bucket_vec s' = bucket_vec s" "storage_cap s' = storage_cap s" by (simp_all add: s'_def)
  ultimately show thesis using pop shape that by blast
qed

lemma fresh_addr:
  "shape_ok s \<Longrightarrow> length (storage s) < storage_cap s \<Longrightarrow> to_virtual_addr s (length (storage s)) \<notin> live s"
  using virtual_addr(2) [of s "length (storage s)"] by (simp add: live_def)

lemma push_back_ok:
  fixes s :: "'k node_set" and n :: "'k set_node"
  assumes "shape_ok s" and "length (storage s) < storage_cap s" and "linked s ch"
  defines "w \<equiv> to_virtual_addr s (length (storage s))" and "s' \<equiv> push_back_node s n"
  shows "shape_ok s'" "linked s' ch" "keys s' = keys s @ [node_key n]" "live s' = insert w (live s)"
    "bucket_vec s' = bucket_vec s" "storage_cap s' = storage_cap s" "virtual_addr_offset s' = virtual_addr_offset s"
    "next_of s' w = nxt_addr n" "key_of s' w = node_key n" "\<And>v. v \<in> live s \<Longrightarrow> key_of s' v = key_of s v"
proof -
  have s': "s' = s\<lparr>storage := storage s @ [n]\<rparr>" using assms(2) by (simp add: s'_def push_back_node_def)
  have sa: "to_storage_addr s' v = to_storage_addr s v" for v by (simp add: s' to_storage_addr_def)
  have w: "w < storage_cap s" "to_storage_addr s w = length (storage s)"
    using virtual_addr [OF assms(1,2)] by (simp_all add: w_def)
  show "shape_ok s'" using assms(1,2) by (simp add: s' shape_ok_def)
  show "keys s' = keys s @ [node_key n]" "bucket_vec s' = bucket_vec s" "storage_cap s' = storage_cap s"
    "virtual_addr_offset s' = virtual_addr_offset s"
    by (simp_all add: s' keys_def)
  have "to_storage_addr s v = length (storage s) \<longleftrightarrow> v = w" if "v < storage_cap s" for v
    using storage_addr_inj [OF assms(1) that w(1)] w(2) by auto
  then show "live s' = insert w (live s)" using w unfolding live_def sa by (auto simp: s' less_Suc_eq)
  show "next_of s' w = nxt_addr n" "key_of s' w = node_key n" unfolding next_of_def key_of_def sa w(2) by (simp_all add: s')
  show "key_of s' v = key_of s v" if "v \<in> live s" for v
    using that unfolding key_of_def sa by (simp add: s' live_def nth_append)
  show "linked s' ch"
  proof (rule linked_cong [OF assms(3)])
    fix b v assume "b < length (bucket_vec s)" "v \<in> set (ch b)"
    then have "v \<in> live s" using linkedD(3) [OF assms(3)] by auto
    then show "v \<in> live s' \<and> next_of s' v = next_of s v"
      unfolding live_def next_of_def sa by (simp add: s' nth_append)
  qed (simp add: s')
qed

lemma overwrite_ok:
  assumes "shape_ok s" and "linked s ch" and "v \<in> live s" and "storage s \<noteq> []"
    and "\<And>b. b < length (bucket_vec s) \<Longrightarrow> v \<notin> set (ch b)"
  defines "s' \<equiv> s\<lparr>storage := (storage s)[to_storage_addr s v := hd (storage s)]\<rparr>"
  shows "shape_ok s'" "linked s' ch" "keys s' = (keys s)[to_storage_addr s v := hd (keys s)]" "live s' = live s"
    "next_of s' v = next_of s (front_addr s)" "key_of s' v = key_of s (front_addr s)"
    "\<And>u. u \<in> live s \<Longrightarrow> u \<noteq> v \<Longrightarrow> key_of s' u = key_of s u"
proof -
  have sa: "to_storage_addr s' u = to_storage_addr s u" for u by (simp add: s'_def to_storage_addr_def)
  have i: "to_storage_addr s v < length (storage s)" and cap: "v < storage_cap s" using assms(3) by (auto simp: live_def)
  have front: "hd (storage s) = storage s ! to_storage_addr s (front_addr s)"
    using front_addr(2) [OF assms(1,4)] assms(4) by (simp add: hd_conv_nth)
  show "shape_ok s'" using assms(1) by (simp add: s'_def shape_ok_def)
  show "live s' = live s" unfolding live_def sa by (simp add: s'_def)
  show "keys s' = (keys s)[to_storage_addr s v := hd (keys s)]"
    using assms(4) by (simp add: s'_def keys_def map_update hd_map)
  show "next_of s' v = next_of s (front_addr s)" "key_of s' v = key_of s (front_addr s)"
    unfolding next_of_def key_of_def sa using i front by (simp_all add: s'_def)
  have other: "storage s' ! to_storage_addr s u = storage s ! to_storage_addr s u" if "u \<in> live s" "u \<noteq> v" for u
  proof -
    have "u < storage_cap s" using that(1) by (simp add: live_def)
    then have "to_storage_addr s u \<noteq> to_storage_addr s v" using storage_addr_inj [OF assms(1) _ cap] that(2) by blast
    then show ?thesis by (simp add: s'_def)
  qed
  show "key_of s' u = key_of s u" if "u \<in> live s" "u \<noteq> v" for u unfolding key_of_def sa using other [OF that] by simp
  show "linked s' ch"
  proof (rule linked_cong [OF assms(2)])
    fix b u assume "b < length (bucket_vec s)" "u \<in> set (ch b)"
    then have "u \<in> live s" "u \<noteq> v" using linkedD(3) [OF assms(2)] assms(5) by auto
    then show "u \<in> live s' \<and> next_of s' u = next_of s u"
      using \<open>live s' = live s\<close> other unfolding next_of_def sa by simp
  qed (simp add: s'_def)
qed

section \<open>The invariant\<close>

definition bucket_of :: "('k \<Rightarrow> nat) \<Rightarrow> 'k node_set \<Rightarrow> 'k \<Rightarrow> nat" where
  "bucket_of hasher s k = to_bucket_index s (hasher k)"

text \<open>Every node is in the chain of the bucket its key hashes to.\<close>

definition indexed :: "('k \<Rightarrow> nat) \<Rightarrow> 'k node_set \<Rightarrow> (nat \<Rightarrow> nat list) \<Rightarrow> bool" where
  "indexed hasher s ch \<longleftrightarrow> shape_ok s \<and> distinct (keys s) \<and> linked s ch \<and>
     (\<forall>b < length (bucket_vec s). set (ch b) = {v \<in> live s. bucket_of hasher s (key_of s v) = b})"

definition set_ok :: "('k \<Rightarrow> nat) \<Rightarrow> 'k node_set \<Rightarrow> bool" where
  "set_ok hasher s \<longleftrightarrow> (\<exists>ch. indexed hasher s ch)"

lemma indexedD:
  assumes "indexed hasher s ch"
  shows "shape_ok s" "distinct (keys s)" "linked s ch"
    "b < length (bucket_vec s) \<Longrightarrow> set (ch b) = {v \<in> live s. bucket_of hasher s (key_of s v) = b}"
  using assms by (auto simp: indexed_def)

lemma bucket_of_less: "shape_ok s \<Longrightarrow> bucket_of hasher s k < length (bucket_vec s)"
  by (simp add: bucket_of_def bucket_index_less)

lemma key_of_inj:
  assumes "shape_ok s" and "distinct (keys s)" and "v \<in> live s" and "w \<in> live s" and "key_of s v = key_of s w"
  shows "v = w"
proof -
  have "to_storage_addr s v = to_storage_addr s w"
    using assms key_of_keys [OF assms(3)] key_of_keys [OF assms(4)] nth_eq_iff_index_eq [OF assms(2)]
    by (auto simp: live_def keys_def)
  then show ?thesis using assms storage_addr_inj by (auto simp: live_def)
qed

lemma key_addr:
  assumes "shape_ok s" and "i < length (keys s)"
  shows "to_virtual_addr s i \<in> live s" "key_of s (to_virtual_addr s i) = keys s ! i"
    "to_storage_addr s (to_virtual_addr s i) = i"
proof -
  have i: "i < storage_cap s" using assms by (auto simp: shape_ok_def keys_def)
  show sa: "to_storage_addr s (to_virtual_addr s i) = i" by (rule virtual_addr(2) [OF assms(1) i])
  show live: "to_virtual_addr s i \<in> live s" using virtual_addr(1) [OF assms(1) i] sa assms(2) by (simp add: live_def keys_def)
  show "key_of s (to_virtual_addr s i) = keys s ! i" using key_of_keys [OF live] sa by simp
qed

lemma find_absent:
  assumes "indexed hasher s ch" and "k \<notin> set (keys s)"
  shows "internal_find_bucket_reference hasher s k = Some (Inr (link s (bucket_of hasher s k) (ch (bucket_of hasher s k))))"
proof -
  let ?b = "bucket_of hasher s k"
  have b: "?b < length (bucket_vec s)" using bucket_of_less [OF indexedD(1) [OF assms(1)]] .
  have "key_of s v \<noteq> k" if "v \<in> set (ch ?b)" for v
  proof -
    have "v \<in> live s" using that indexedD(4) [OF assms(1) b] by blast
    then have "key_of s v \<in> set (keys s)" using key_of_keys [of v s] by (auto simp: live_def keys_def)
    then show ?thesis using assms(2) by auto
  qed
  then have "find_loop s k (link s ?b []) = Some (Inr (link s ?b ([] @ ch ?b)))"
    by (intro find_loop_eq [OF indexedD(3) [OF assms(1)] b indexedD(1) [OF assms(1)], of _ _ "[]"]) auto
  then show ?thesis by (simp add: internal_find_bucket_reference_def Let_def link_def bucket_of_def)
qed

lemma find_present:
  assumes "indexed hasher s ch" and "v \<in> live s"
  obtains pre post where "ch (bucket_of hasher s (key_of s v)) = pre @ v # post"
    and "internal_find_bucket_reference hasher s (key_of s v) = Some (Inr (link s (bucket_of hasher s (key_of s v)) pre))"
proof -
  let ?k = "key_of s v"
  let ?b = "bucket_of hasher s ?k"
  have b: "?b < length (bucket_vec s)" using bucket_of_less [OF indexedD(1) [OF assms(1)]] .
  have "v \<in> set (ch ?b)" using indexedD(4) [OF assms(1) b] assms(2) by simp
  then obtain pre post where split: "ch ?b = pre @ v # post" by (meson split_list)
  have "key_of s w \<noteq> ?k" if "w \<in> set pre" for w
  proof
    assume eq: "key_of s w = ?k"
    have "w \<in> live s" using that split indexedD(4) [OF assms(1) b] by auto
    then have "w = v" using key_of_inj [OF indexedD(1,2) [OF assms(1)] _ assms(2) eq] by simp
    then show False using that split linkedD(2) [OF indexedD(3) [OF assms(1)] b] by simp
  qed
  then have "find_loop s ?k (link s ?b []) = Some (Inr (link s ?b ([] @ pre)))"
    using split by (intro find_loop_eq [OF indexedD(3) [OF assms(1)] b indexedD(1) [OF assms(1)], of _ _ "v # post"]) auto
  then have "internal_find_bucket_reference hasher s ?k = Some (Inr (link s ?b pre))"
    by (simp add: internal_find_bucket_reference_def Let_def link_def bucket_of_def)
  with split show thesis by (rule that)
qed

lemma present_addr:
  assumes "indexed hasher s ch" and "k \<in> set (keys s)"
  obtains v where "v \<in> live s" and "key_of s v = k" and "to_storage_addr s v = index_of (keys s) k"
  using key_addr [OF indexedD(1) [OF assms(1)], of "index_of (keys s) k"] index_of_present [OF assms(2)] that by force

lemma internal_find_eq:
  assumes "indexed hasher s ch"
  shows "internal_find hasher s k = Some (Inr (index_of (keys s) k))"
proof (cases "k \<in> set (keys s)")
  case True
  obtain v where v: "v \<in> live s" "key_of s v = k" "to_storage_addr s v = index_of (keys s) k"
    by (rule present_addr [OF assms True])
  obtain pre post where "ch (bucket_of hasher s k) = pre @ v # post"
    and "internal_find_bucket_reference hasher s k = Some (Inr (link s (bucket_of hasher s k) pre))"
    using find_present [OF assms v(1)] v(2) by blast
  then show ?thesis
    using read_link [OF indexedD(3) [OF assms] bucket_of_less [OF indexedD(1) [OF assms]]]
      live_ne_null [OF indexedD(1) [OF assms] v(1)] v(3)
    by (simp add: internal_find_def)
next
  case False
  then show ?thesis
    using find_absent [OF assms False] index_of_absent [OF False]
      read_link [OF indexedD(3) [OF assms] bucket_of_less [OF indexedD(1) [OF assms]], where pre = "ch (bucket_of hasher s k)" and post = "[]"]
    by (simp add: internal_find_def keys_def)
qed

section \<open>Insertion\<close>

text \<open>Taking a node out of its chain: the chains then hold all nodes but this one.\<close>

definition indexed_but :: "('k \<Rightarrow> nat) \<Rightarrow> nat \<Rightarrow> 'k node_set \<Rightarrow> (nat \<Rightarrow> nat list) \<Rightarrow> bool" where
  "indexed_but hasher v s ch \<longleftrightarrow> linked s ch \<and>
     (\<forall>b < length (bucket_vec s). set (ch b) = {w \<in> live s. bucket_of hasher s (key_of s w) = b} - {v})"

lemma unlink:
  assumes "indexed hasher s ch" and "v \<in> live s" and "b = bucket_of hasher s (key_of s v)" and "ch b = pre @ v # post"
  obtains s' where "write_ref s (link s b pre) (next_of s v) = Inr s'" and "same_frame s s'"
    and "indexed_but hasher v s' (ch(b := pre @ post))"
    and "\<And>w. w < storage_cap s \<Longrightarrow> w \<notin> set pre \<Longrightarrow> next_of s' w = next_of s w"
proof -
  note i = indexedD [OF assms(1)]
  have b: "b < length (bucket_vec s)" using bucket_of_less [OF i(1)] assms(3) by simp
  have d: "distinct (pre @ v # post)" and l: "set (pre @ v # post) \<subseteq> live s"
    and c: "chain (next_of s) (bucket_vec s ! b) ((pre @ [v]) @ post)"
    using linkedD [OF i(3) b] assms(4) by auto
  have rest: "chain (next_of s) (next_of s v) post" using c d by (subst (asm) bucket_chain_append) auto
  have disj: "set post \<inter> set (ch b') = {}" if "b' < length (bucket_vec s)" "b' \<noteq> b" for b'
  proof -
    have "set (ch b) \<inter> set (ch b') = {}" using i(3) b that unfolding linked_def by metis
    then show ?thesis using assms(4) by auto
  qed
  obtain s' where s': "write_ref s (link s b pre) (next_of s v) = Inr s'" "same_frame s s'"
      "linked s' (ch(b := pre @ post))" "\<And>w. w < storage_cap s \<Longrightarrow> w \<notin> set pre \<Longrightarrow> next_of s' w = next_of s w"
    using write_link [OF i(3,1) b assms(4) rest _ _ disj] d l by auto
  have "set ((ch(b := pre @ post)) b') = {w \<in> live s'. bucket_of hasher s' (key_of s' w) = b'} - {v}"
    if b': "b' < length (bucket_vec s')" for b'
  proof -
    have "b' < length (bucket_vec s)" using b' by (simp add: same_frameD [OF s'(2)])
    then have old: "set (ch b') = {w \<in> live s. bucket_of hasher s (key_of s w) = b'}" by (rule i(4))
    have "{w \<in> live s'. bucket_of hasher s' (key_of s' w) = b'} = set (ch b')"
      unfolding old using same_frame_key [OF s'(2)] by (auto simp: same_frameD [OF s'(2)] bucket_of_def)
    moreover have "v \<notin> set (ch b')" if "b' \<noteq> b" using old assms(3) that by auto
    moreover have "set (pre @ post) = set (ch b) - {v}" using d assms(4) by auto
    ultimately show ?thesis by auto
  qed
  then have "indexed_but hasher v s' (ch(b := pre @ post))" using s'(3) by (simp add: indexed_but_def)
  with s' show thesis using that by blast
qed

lemma pop_unlinked:
  assumes "shape_ok s" and "distinct (tl (keys s))" and "storage s \<noteq> []" and "indexed_but hasher (front_addr s) s ch"
  obtains s' where "pop_front_node s = Inr s'" and "indexed hasher s' ch" and "keys s' = tl (keys s)"
    and "storage_cap s' = storage_cap s" and "bucket_vec s' = bucket_vec s"
proof -
  have linked: "linked s ch" using assms(4) by (simp add: indexed_but_def)
  have out: "front_addr s \<notin> set (ch b)" if "b < length (bucket_vec s)" for b
    using assms(4) that by (simp add: indexed_but_def)
  obtain s' where s': "pop_front_node s = Inr s'" "shape_ok s'" "linked s' ch" "keys s' = tl (keys s)"
      "live s' = live s - {front_addr s}" "bucket_vec s' = bucket_vec s" "storage_cap s' = storage_cap s"
      "\<And>v. v \<in> live s' \<Longrightarrow> key_of s' v = key_of s v"
    by (rule pop_front_ok [OF assms(1,3) linked out]) blast+
  have "to_bucket_index s' h = to_bucket_index s h" for h by (simp add: to_bucket_index_def s'(6))
  then have "{v \<in> live s'. bucket_of hasher s' (key_of s' v) = b} = {v \<in> live s. bucket_of hasher s (key_of s v) = b} - {front_addr s}" for b
    using s'(5,8) by (auto simp: bucket_of_def)
  then have "indexed hasher s' ch"
    using s' assms(2,4) by (simp add: indexed_def indexed_but_def)
  with s' show thesis using that by blast
qed

lemma erase_front_ok:
  assumes "indexed hasher s ch" and "storage s \<noteq> []"
  obtains s' ch' where "internal_erase_front hasher s = Some (Inr s')" and "indexed hasher s' ch'"
    and "keys s' = tl (keys s)" and "storage_cap s' = storage_cap s" and "length (bucket_vec s') = length (bucket_vec s)"
proof -
  note i = indexedD [OF assms(1)]
  let ?u = "front_addr s"
  let ?b = "bucket_of hasher s (key_of s ?u)"
  note u = front_addr [OF i(1) assms(2)]
  have front: "hd (storage s) = storage s ! to_storage_addr s ?u" using u(2) assms(2) by (simp add: hd_conv_nth)
  obtain pre post where split: "ch ?b = pre @ ?u # post"
    and find: "internal_find_bucket_reference hasher s (key_of s ?u) = Some (Inr (link s ?b pre))"
    using find_present [OF assms(1) u(1)] by blast
  obtain s1 where s1: "write_ref s (link s ?b pre) (next_of s ?u) = Inr s1" "same_frame s s1"
      "indexed_but hasher ?u s1 (ch(?b := pre @ post))"
    using unlink [OF assms(1) u(1) refl split] by blast
  have ne: "storage s1 \<noteq> []" using same_frameD(4) [OF s1(2)] assms(2) by auto
  have "shape_ok s1" "distinct (tl (keys s1))" "indexed_but hasher (front_addr s1) s1 (ch(?b := pre @ post))"
    using i s1(3) by (simp_all add: same_frameD [OF s1(2)] distinct_tl)
  then obtain s' where s': "pop_front_node s1 = Inr s'" "indexed hasher s' (ch(?b := pre @ post))"
      "keys s' = tl (keys s1)" "storage_cap s' = storage_cap s1" "bucket_vec s' = bucket_vec s1"
    using pop_unlinked [OF _ _ ne] by metis
  have "internal_erase_front hasher s = Some (Inr s')"
    using find s1(1) s'(1) assms(2) front
    by (simp add: internal_erase_front_def front_node_def key_of_def next_of_def)
  then show thesis using s' that by (simp add: same_frameD [OF s1(2)])
qed

lemma write_push_commute:
  assumes "length (storage s) < storage_cap s" and "write_ref s r a = Inr s'"
  shows "write_ref (push_back_node s n) r a = Inr (push_back_node s' n)"
proof (cases r)
  case (Next i)
  then have i: "i < length (storage s)" using assms(2) by (auto simp: node_at_def split: if_splits)
  then show ?thesis using Next assms by (auto simp: node_at_def push_back_node_def nth_append list_update_append1)
qed (use assms in \<open>auto simp: push_back_node_def split: if_splits\<close>)

lemma append_ok:
  assumes "indexed hasher s ch" and "k \<notin> set (keys s)" and "length (storage s) < storage_cap s"
  defines "n \<equiv> \<lparr>node_key = k, nxt_addr = NULL_VIRTUAL_ADDR\<rparr>" and "b \<equiv> bucket_of hasher s k"
    and "w \<equiv> to_virtual_addr s (length (storage s))"
  obtains s' ch' where "write_ref s (link s b (ch b)) w = Inr s'" and "indexed hasher (push_back_node s' n) ch'"
    and "keys (push_back_node s' n) = keys s @ [k]" and "same_frame s s'"
proof -
  note i = indexedD [OF assms(1)]
  note push = push_back_ok [OF i(1) assms(3) i(3), where n = n, folded w_def]
  let ?p = "push_back_node s n"
  have sa: "to_storage_addr ?p = to_storage_addr s" "to_bucket_index ?p = to_bucket_index s"
    using push by (auto simp: to_storage_addr_def to_bucket_index_def fun_eq_iff)
  have b: "b < length (bucket_vec ?p)" using bucket_of_less [OF i(1)] push by (simp add: b_def)
  have w: "w \<notin> live s" "w \<in> live ?p" using push fresh_addr [OF i(1) assms(3)] by (auto simp: w_def)
  have old: "set (ch b') \<subseteq> live s" if "b' < length (bucket_vec s)" for b' using linkedD(3) [OF i(3) that] .
  have c: "chain (next_of ?p) w [w]" using push live_ne_null [OF push(1) w(2)] by (simp add: n_def)
  have d: "distinct (ch b @ [w])" using linkedD(2) [OF i(3), of b] b push old [of b] w by auto
  have e: "set [w] \<inter> set (ch b') = {}" if "b' < length (bucket_vec ?p)" for b' using that push old w by auto
  have "ch b = ch b @ []" "set [w] \<subseteq> live ?p" using w by simp_all
  from write_link [OF push(2,1) b this(1) c d this(2) e]
  obtain s2 where s2: "write_ref ?p (link ?p b (ch b)) w = Inr s2" "same_frame ?p s2" "linked s2 (ch(b := ch b @ [w]))"
    by blast
  have link: "link ?p b (ch b) = link s b (ch b)" by (simp add: link_def sa)
  obtain s' where s': "write_ref s (link s b (ch b)) w = Inr s'" "same_frame s s'"
  proof (cases "ch b = []")
    case True
    then show thesis using write_bucket [of b s w] b push that by (auto simp: link_def)
  next
    case False
    then have "last (ch b) \<in> live s" using old [of b] b push last_in_set by auto
    then obtain s' where "write_ref s (Next (to_storage_addr s (last (ch b)))) w = Inr s'" "same_frame s s'"
      using write_next [OF i(1)] by blast
    then show thesis using False that by (simp add: link_def del: write_ref.simps)
  qed
  have eq: "s2 = push_back_node s' n" using write_push_commute [OF assms(3) s'(1), of n] s2(1) link by simp
  have key: "key_of s2 v = (if v = w then k else key_of s v)" if "v \<in> live ?p" for v
    using same_frame_key [OF s2(2) that] that push by (auto simp: n_def)
  have "indexed hasher s2 (ch(b := ch b @ [w]))"
    unfolding indexed_def
  proof (intro conjI allI impI)
    show "shape_ok s2" "linked s2 (ch(b := ch b @ [w]))" "distinct (keys s2)"
      using push s2(3) i(2) assms(2) by (simp_all add: same_frameD [OF s2(2)] n_def)
    fix b' assume "b' < length (bucket_vec s2)"
    then have b': "b' < length (bucket_vec s)" using push by (simp add: same_frameD [OF s2(2)])
    have "{v \<in> live s2. bucket_of hasher s2 (key_of s2 v) = b'} =
        {v \<in> live s. bucket_of hasher s (key_of s v) = b'} \<union> (if b' = b then {w} else {})"
      using key w push by (auto simp: same_frameD [OF s2(2)] bucket_of_def b_def sa)
    then show "set ((ch(b := ch b @ [w])) b') = {v \<in> live s2. bucket_of hasher s2 (key_of s2 v) = b'}"
      using i(4) [OF b'] by auto
  qed
  then show thesis using that [OF s'(1) _ _ s'(2)] eq push(3) same_frameD(3) [OF s2(2)] by (simp add: n_def)
qed

text \<open>What insertion does to the keys in age order: a full set forgets the oldest, and a new key is the youngest.\<close>

definition remember :: "nat \<Rightarrow> 'k list \<Rightarrow> 'k \<Rightarrow> (nat \<times> bool) \<times> 'k list" where
  "remember cap ks k =
     (let ks = (if length ks = cap then tl ks else ks)
      in if k \<in> set ks then ((index_of ks k, False), ks) else ((length ks, True), ks @ [k]))"

lemma length_keys: "length (keys s) = length (storage s)"
  by (simp add: keys_def)

lemma insert_room:
  assumes "indexed hasher s ch" and "length (storage s) < storage_cap s"
  obtains s' ch' where "bindO (internal_find_bucket_reference hasher s k) (\<lambda>insert_reference.
       bindO (endO (read_ref s insert_reference)) (\<lambda>a.
         if a = NULL_VIRTUAL_ADDR then
           bindO (endO (write_ref s insert_reference (to_virtual_addr s (length (storage s))))) (\<lambda>s.
             let s' = push_back_node s \<lparr>node_key = k, nxt_addr = NULL_VIRTUAL_ADDR\<rparr>
             in endO (Inr ((length (storage s') - 1, True), s')))
         else endO (Inr ((to_storage_addr s a, False), s)))) =
      Some (Inr (if k \<in> set (keys s) then (index_of (keys s) k, False) else (length (keys s), True), s'))"
    and "indexed hasher s' ch'" and "keys s' = (if k \<in> set (keys s) then keys s else keys s @ [k])"
    and "storage_cap s' = storage_cap s" and "length (bucket_vec s') = length (bucket_vec s)"
proof (cases "k \<in> set (keys s)")
  case True
  note i = indexedD [OF assms(1)]
  obtain v where v: "v \<in> live s" "key_of s v = k" "to_storage_addr s v = index_of (keys s) k"
    by (rule present_addr [OF assms(1) True])
  obtain pre post where "ch (bucket_of hasher s k) = pre @ v # post"
    and "internal_find_bucket_reference hasher s k = Some (Inr (link s (bucket_of hasher s k) pre))"
    using find_present [OF assms(1) v(1)] v(2) by blast
  then show thesis
    using read_link [OF i(3) bucket_of_less [OF i(1)]] live_ne_null [OF i(1) v(1)] v(3) that [OF _ assms(1)] True
    by simp
next
  case False
  note i = indexedD [OF assms(1)]
  let ?b = "bucket_of hasher s k" and ?n = "\<lparr>node_key = k, nxt_addr = NULL_VIRTUAL_ADDR\<rparr>"
  obtain s' ch' where s': "write_ref s (link s ?b (ch ?b)) (to_virtual_addr s (length (storage s))) = Inr s'"
      "indexed hasher (push_back_node s' ?n) ch'" "keys (push_back_node s' ?n) = keys s @ [k]" "same_frame s s'"
    by (rule append_ok [OF assms(1) False assms(2)])
  have "length (storage (push_back_node s' ?n)) = Suc (length (keys s))"
    using arg_cong [OF s'(3), of length] by (simp add: length_keys)
  moreover have "storage_cap (push_back_node s' ?n) = storage_cap s" "length (bucket_vec (push_back_node s' ?n)) = length (bucket_vec s)"
    by (simp_all add: push_back_node_def same_frameD [OF s'(4)])
  ultimately show thesis
    using find_absent [OF assms(1) False] read_link [OF i(3) bucket_of_less [OF i(1)], where pre = "ch ?b" and post = "[]"]
      s'(1,3) that [OF _ s'(2)] False by (simp add: Let_def)
qed

lemma insert_ok:
  assumes "indexed hasher s ch" and "0 < storage_cap s"
  obtains s' ch' where "set_insert hasher s k = Some (Inr (fst (remember (storage_cap s) (keys s) k), s'))"
    and "indexed hasher s' ch'" and "keys s' = snd (remember (storage_cap s) (keys s) k)"
    and "storage_cap s' = storage_cap s" and "length (bucket_vec s') = length (bucket_vec s)"
proof -
  obtain s1 ch1 where s1: "(if length (storage s) = storage_cap s then internal_erase_front hasher s else endO (Inr s)) = Some (Inr s1)"
      "indexed hasher s1 ch1" "keys s1 = (if length (keys s) = storage_cap s then tl (keys s) else keys s)"
      "storage_cap s1 = storage_cap s" "length (bucket_vec s1) = length (bucket_vec s)"
  proof (cases "length (storage s) = storage_cap s")
    case True
    then have "storage s \<noteq> []" using assms(2) by auto
    then obtain s' ch' where "internal_erase_front hasher s = Some (Inr s')" "indexed hasher s' ch'"
        "keys s' = tl (keys s)" "storage_cap s' = storage_cap s" "length (bucket_vec s') = length (bucket_vec s)"
      by (rule erase_front_ok [OF assms(1)])
    then show thesis using True that [of s' ch'] by (simp add: length_keys)
  next
    case False
    then show thesis using assms(1) that [of s ch] by (simp add: length_keys)
  qed
  have "length (keys s) \<le> storage_cap s" using indexedD(1) [OF assms(1)] by (simp add: shape_ok_def length_keys)
  then have room: "length (storage s1) < storage_cap s1"
    using s1(3,4) assms(2) length_keys [of s1] by (auto split: if_splits)
  have rem: "remember (storage_cap s) (keys s) k =
      (if k \<in> set (keys s1) then ((index_of (keys s1) k, False), keys s1) else ((length (keys s1), True), keys s1 @ [k]))"
    unfolding remember_def Let_def s1(3) [symmetric] ..
  show thesis
  proof (rule insert_room [OF s1(2) room, where k = k], goal_cases)
    case (1 s' ch')
    have "set_insert hasher s k = Some (Inr (fst (remember (storage_cap s) (keys s) k), s'))"
      using 1(1) s1(1) unfolding set_insert_def internal_insert_def rem by simp
    moreover have "keys s' = snd (remember (storage_cap s) (keys s) k)" using 1(3) unfolding rem by simp
    ultimately show thesis using 1 s1(4,5) that by metis
  qed
qed

section \<open>Erasure\<close>

text \<open>The oldest key takes the place, and so the age, of the erased one.\<close>

definition forget :: "'k list \<Rightarrow> 'k \<Rightarrow> 'k list" where
  "forget ks k = tl (ks[index_of ks k := hd ks])"

lemma write_overwrite_commute:
  assumes "write_ref s r a = Inr s'" and "r \<noteq> Next i" and "r \<noteq> Next 0" and "storage s \<noteq> []"
  shows "write_ref (s\<lparr>storage := (storage s)[i := hd (storage s)]\<rparr>) r a =
    Inr (s'\<lparr>storage := (storage s')[i := hd (storage s')]\<rparr>)"
proof (cases r)
  case (Next j)
  have j: "j < length (storage s)" "j \<noteq> i" "0 < j" using assms Next by (auto simp: node_at_def split: if_splits)
  then have "hd ((storage s)[j := x]) = hd (storage s)" for x using assms(4) by (cases j; cases "storage s") auto
  then show ?thesis using assms(1) Next j by (auto simp: node_at_def list_update_swap)
qed (use assms in \<open>auto split: if_splits\<close>)

text \<open>
  After the key's node is out of its chain, the link to the front is the one found before, unless the front
  came right behind the key's node.
\<close>

lemma link_after_unlink:
  assumes "linked s ch" and "b < length (bucket_vec s)" and "c < length (bucket_vec s)" and "u \<noteq> v" and "shape_ok s"
    and "ch b = pre @ v # post" and "ch c = pre2 @ u # post2"
  obtains p q where "(ch(b := pre @ post)) c = p @ u # q"
    and "(if link s c pre2 = Next (to_storage_addr s v) then link s b pre else link s c pre2) = link s c p"
    and "link s c pre2 \<noteq> link s b pre"
proof -
  have live: "w \<in> live s" if "w \<in> set (ch b) \<union> set (ch c)" for w using that linkedD(3) [OF assms(1)] assms(2,3) by blast
  have inj: "to_storage_addr s w = to_storage_addr s w' \<longleftrightarrow> w = w'"
    if "w \<in> set (ch b) \<union> set (ch c)" "w' \<in> set (ch b) \<union> set (ch c)" for w w'
    using storage_addr_inj [OF assms(5)] live [OF that(1)] live [OF that(2)] by (auto simp: live_def)
  have d: "distinct (ch b)" "distinct (ch c)" using linkedD(2) [OF assms(1)] assms(2,3) by blast+
  have in_b: "w \<in> set (ch b)" if "w \<in> set pre \<or> w = v \<or> w \<in> set post" for w using that assms(6) by auto
  have in_c: "w \<in> set (ch c)" if "w \<in> set pre2 \<or> w = u" for w using that assms(7) by auto
  have next_v: "link s c pre2 = Next (to_storage_addr s v) \<longleftrightarrow> pre2 \<noteq> [] \<and> last pre2 = v"
    using inj [of "last pre2" v] in_b [of v] in_c [of "last pre2"] by (auto simp: link_def)
  have same: "link s c pre2 = link s b pre \<longleftrightarrow> (pre2 = [] \<and> pre = [] \<and> b = c) \<or> (pre2 \<noteq> [] \<and> pre \<noteq> [] \<and> last pre2 = last pre)"
    using inj [of "last pre2" "last pre"] in_b [of "last pre"] in_c [of "last pre2"] by (auto simp: link_def)
  show thesis
  proof (cases "b = c")
    case False
    have "set (ch b) \<inter> set (ch c) = {}" using assms(1-3) False unfolding linked_def by metis
    then have "last pre2 \<noteq> v \<or> pre2 = []" "last pre2 \<noteq> last pre \<or> pre = [] \<or> pre2 = []"
      using in_b [of v] in_b [of "last pre"] in_c [of "last pre2"] by (metis IntI empty_iff last_in_set)+
    then show thesis using that [of pre2 post2] False assms(7) next_v same by auto
  next
    case True
    have eq: "pre @ v # post = pre2 @ u # post2" using assms(6,7) True by simp
    consider m where "pre = pre2 @ u # m" | m where "pre2 = pre @ v # m" "post = m @ u # post2"
      using eq assms(4) by (auto simp: append_eq_append_conv2 Cons_eq_append_conv append_eq_Cons_conv)
    then show thesis
    proof cases
      case (1 m)
      have "set pre2 \<inter> set (u # m) = {}" "v \<notin> set pre2" using d(1) assms(6) 1 by auto
      moreover have "last pre \<in> set (u # m)" using 1 last_in_set [of "u # m"] by simp
      ultimately have "last pre2 \<noteq> v \<or> pre2 = []" "last pre2 \<noteq> last pre \<or> pre2 = []"
        by (metis IntI empty_iff last_in_set)+
      then show thesis using that [of pre2 "m @ post"] True 1 next_v same by auto
    next
      case (2 m)
      show thesis
      proof (cases "m = []")
        case True
        have "last pre \<noteq> v \<or> pre = []" using d(1) assms(6) last_in_set [of pre] by auto
        then show thesis using that [of pre post2] True 2 \<open>b = c\<close> next_v same by (auto simp: link_def)
      next
        case False
        have "set pre \<inter> set m = {}" "v \<notin> set m" using d(1) assms(6) 2 by auto
        then have "last m \<noteq> v" "last m \<noteq> last pre \<or> pre = []"
          using False by (metis IntI empty_iff last_in_set)+
        then show thesis using that [of "pre @ m" post2] False 2 \<open>b = c\<close> next_v same by (auto simp: link_def)
      qed
    qed
  qed
qed

text \<open>Moving the node of the front to the place of a node that is in no chain.\<close>

lemma relocate:
  assumes "shape_ok s" and "indexed_but hasher v s ch" and "v \<in> live s" and "v \<noteq> front_addr s" and "storage s \<noteq> []"
    and "c = bucket_of hasher s (key_of s (front_addr s))" and "ch c = p @ front_addr s # q"
  obtains s2 s3 where "write_ref s (link s c p) v = Inr s2" and "same_frame s s2"
    and "s3 = s2\<lparr>storage := (storage s2)[to_storage_addr s2 v := hd (storage s2)]\<rparr>"
    and "shape_ok s3" and "indexed_but hasher (front_addr s3) s3 (ch(c := p @ v # q))"
    and "keys s3 = (keys s)[to_storage_addr s v := hd (keys s)]" and "storage_cap s3 = storage_cap s"
    and "length (bucket_vec s3) = length (bucket_vec s)" and "storage s3 \<noteq> []"
proof -
  let ?u = "front_addr s" and ?i = "to_storage_addr s v"
  let ?x = "s\<lparr>storage := (storage s)[?i := hd (storage s)]\<rparr>"
  have linked: "linked s ch" and mem: "\<And>b. b < length (bucket_vec s) \<Longrightarrow>
      set (ch b) = {w \<in> live s. bucket_of hasher s (key_of s w) = b} - {v}"
    using assms(2) by (auto simp: indexed_but_def)
  have out: "v \<notin> set (ch b)" if "b < length (bucket_vec s)" for b using mem [OF that] by simp
  note x = overwrite_ok [OF assms(1) linked assms(3,5) out]
  have fields: "to_storage_addr ?x = to_storage_addr s" "to_virtual_addr ?x = to_virtual_addr s" "to_bucket_index ?x = to_bucket_index s"
    by (auto simp: to_storage_addr_def to_virtual_addr_def to_bucket_index_def fun_eq_iff)
  have c: "c < length (bucket_vec s)" using bucket_of_less [OF assms(1)] assms(6) by simp
  have d: "distinct (p @ ?u # q)" and l: "set (p @ ?u # q) \<subseteq> live s" and vc: "v \<notin> set (p @ ?u # q)"
    using linkedD(2,3) [OF linked c] out [OF c] assms(7) by auto
  have "chain (next_of ?x) (bucket_vec ?x ! c) ((p @ [?u]) @ q)"
    using linkedD(1) [OF x(2), of c] c assms(7) by simp
  then have "chain (next_of ?x) (next_of ?x ?u) q" using d by (subst (asm) bucket_chain_append) auto
  moreover have "next_of ?x ?u = next_of s ?u"
  proof -
    have "to_storage_addr s ?u \<noteq> ?i"
      using storage_addr_inj [OF assms(1), of ?u v] assms(3,4) front_addr(1) [OF assms(1,5)] by (auto simp: live_def)
    then show ?thesis by (simp add: next_of_def fields)
  qed
  ultimately have ch': "chain (next_of ?x) v (v # q)" using x(5) live_ne_null [OF assms(1,3)] by simp
  have disj: "set (v # q) \<inter> set (ch b') = {}" if "b' < length (bucket_vec ?x)" "b' \<noteq> c" for b'
  proof -
    have "set (ch c) \<inter> set (ch b') = {}" using linked c that unfolding linked_def by simp
    then show ?thesis using that out [of b'] assms(7) by auto
  qed
  have dv: "distinct (p @ v # q)" and lv: "set (v # q) \<subseteq> live ?x" using d vc l assms(3) x(4) by auto
  have cx: "c < length (bucket_vec ?x)" using c by simp
  obtain s3 where s3: "write_ref ?x (link ?x c p) v = Inr s3" "same_frame ?x s3" "linked s3 (ch(c := p @ v # q))"
    using write_link [OF x(2,1) cx assms(7) ch' dv lv disj] by blast
  have link: "link ?x c p = link s c p" by (simp add: link_def fields)
  have ne: "link s c p \<noteq> Next ?i" "link s c p \<noteq> Next 0"
  proof -
    have "v \<notin> set p" "?u \<notin> set p" "set p \<subseteq> live s" using vc d l by auto
    then have "last p \<noteq> v" "last p \<noteq> ?u" "last p \<in> live s" if "p \<noteq> []"
      using last_in_set [OF that] by (metis, metis, blast)
    then show "link s c p \<noteq> Next ?i" "link s c p \<noteq> Next 0"
      using storage_addr_inj [OF assms(1), of "last p" v] assms(3) front_addr(3) [OF assms(1,5), of "last p"]
      by (auto simp: link_def live_def)
  qed
  obtain s2 where s2: "write_ref s (link s c p) v = Inr s2" "same_frame s s2"
  proof (cases "p = []")
    case True
    then show thesis using write_bucket [OF c, of v] that by (auto simp: link_def)
  next
    case False
    then have "last p \<in> live s" using l last_in_set by auto
    then obtain s' where "write_ref s (Next (to_storage_addr s (last p))) v = Inr s'" "same_frame s s'"
      using write_next [OF assms(1)] by blast
    then show thesis using False that by (simp add: link_def del: write_ref.simps)
  qed
  have eq: "s3 = s2\<lparr>storage := (storage s2)[to_storage_addr s2 v := hd (storage s2)]\<rparr>"
    using write_overwrite_commute [OF s2(1) ne assms(5)] s3(1) link same_frameD(6) [OF s2(2)] by simp
  have key: "key_of s3 w = (if w = v then key_of s ?u else key_of s w)" if "w \<in> live s" for w
    using same_frame_key [OF s3(2), of w] that x(4,6,7) by auto
  have "indexed_but hasher (front_addr s3) s3 (ch(c := p @ v # q))"
    unfolding indexed_but_def
  proof (intro conjI allI impI)
    show "linked s3 (ch(c := p @ v # q))" by (rule s3(3))
    fix b assume "b < length (bucket_vec s3)"
    then have b: "b < length (bucket_vec s)" by (simp add: same_frameD [OF s3(2)])
    have "{w \<in> live s3. bucket_of hasher s3 (key_of s3 w) = b} - {?u} =
        ({w \<in> live s. bucket_of hasher s (key_of s w) = b} - {v, ?u}) \<union> (if b = c then {v} else {})"
      using key assms(3,4,6) x(4) by (auto simp: same_frameD [OF s3(2)] bucket_of_def fields split: if_splits)
    moreover have "set (p @ q) = set (ch c) - {?u}" using assms(7) d by auto
    moreover have "?u \<notin> set (ch b)" if "b \<noteq> c" using that mem [OF b] assms(6) by auto
    ultimately have "set ((ch(c := p @ v # q)) b) = {w \<in> live s3. bucket_of hasher s3 (key_of s3 w) = b} - {?u}"
      using mem [OF b] mem [OF c] by auto
    then show "set ((ch(c := p @ v # q)) b) = {w \<in> live s3. bucket_of hasher s3 (key_of s3 w) = b} - {front_addr s3}"
      by (simp add: same_frameD [OF s3(2)] fields)
  qed
  moreover have "shape_ok s3" "keys s3 = (keys s)[?i := hd (keys s)]" "storage_cap s3 = storage_cap s"
      "length (bucket_vec s3) = length (bucket_vec s)" using x by (simp_all add: same_frameD [OF s3(2)])
  moreover have "storage s3 \<noteq> []" using same_frameD(4) [OF s3(2)] assms(5) by auto
  ultimately show thesis using that s2 eq by blast
qed

lemma erase_absent:
  assumes "indexed hasher s ch" and "k \<notin> set (keys s)"
  shows "internal_erase_key hasher s k = Some (Inr (False, s))"
  using find_absent [OF assms]
    read_link [OF indexedD(3) [OF assms(1)] bucket_of_less [OF indexedD(1) [OF assms(1)]], where pre = "ch (bucket_of hasher s k)" and post = "[]"]
  by (simp add: internal_erase_key_def)

lemma distinct_forget:
  assumes "distinct ks" and "0 < i" and "i < length ks"
  shows "distinct (tl (ks[i := hd ks]))"
proof (cases ks)
  case (Cons x xs)
  then obtain j where "i = Suc j" "j < length xs" using assms by (cases i) auto
  then show ?thesis using Cons assms(1) by (auto intro!: distinct_list_update)
qed (use assms in simp)

lemma erase_present:
  assumes "indexed hasher s ch" and "k \<in> set (keys s)"
  obtains s' ch' where "internal_erase_key hasher s k = Some (Inr (True, s'))" and "indexed hasher s' ch'"
    and "keys s' = forget (keys s) k" and "storage_cap s' = storage_cap s" and "length (bucket_vec s') = length (bucket_vec s)"
proof -
  note i = indexedD [OF assms(1)]
  have ne: "storage s \<noteq> []" using assms(2) by (auto simp: keys_def)
  note u = front_addr [OF i(1) ne]
  let ?u = "front_addr s" and ?b = "bucket_of hasher s k"
  let ?c = "bucket_of hasher s (key_of s ?u)"
  obtain v where v: "v \<in> live s" "key_of s v = k" "to_storage_addr s v = index_of (keys s) k"
    by (rule present_addr [OF assms])
  obtain pre post where split: "ch ?b = pre @ v # post"
    and find: "internal_find_bucket_reference hasher s k = Some (Inr (link s ?b pre))"
    using find_present [OF assms(1) v(1)] v(2) by blast
  obtain pre2 post2 where split2: "ch ?c = pre2 @ ?u # post2"
    and find2: "internal_find_bucket_reference hasher s (key_of s ?u) = Some (Inr (link s ?c pre2))"
    using find_present [OF assms(1) u(1)] by blast
  have b: "?b < length (bucket_vec s)" "?c < length (bucket_vec s)" using bucket_of_less [OF i(1)] by blast+
  have read: "read_ref s (link s ?b pre) = Inr v" using read_link [OF i(3) b(1) split] by simp
  have vn: "v \<noteq> NULL_VIRTUAL_ADDR" by (rule live_ne_null [OF i(1) v(1)])
  have front: "front_node s = Inr (storage s ! to_storage_addr s ?u)"
    using ne u(2) by (simp add: front_node_def hd_conv_nth)
  obtain s1 where s1: "write_ref s (link s ?b pre) (next_of s v) = Inr s1" "same_frame s s1"
      "indexed_but hasher v s1 (ch(?b := pre @ post))"
    using unlink [OF assms(1) v(1) _ split] v(2) by blast
  have ne1: "storage s1 \<noteq> []" using same_frameD(4) [OF s1(2)] ne by auto
  show thesis
  proof (cases "v = ?u")
    case True
    have "key_of s ?u = k" using True v(2) by simp
    then have "link s ?c pre2 = link s ?b pre" using find find2 by simp
    moreover have "indexed_but hasher (front_addr s1) s1 (ch(?b := pre @ post))"
      using s1(3) True by (simp add: same_frameD [OF s1(2)])
    then obtain s' where s': "pop_front_node s1 = Inr s'" "indexed hasher s' (ch(?b := pre @ post))"
        "keys s' = tl (keys s1)" "storage_cap s' = storage_cap s1" "bucket_vec s' = bucket_vec s1"
      using pop_unlinked [OF _ _ ne1] i(1,2) by (metis distinct_tl same_frameD(3,5) [OF s1(2)])
    moreover have "forget (keys s) k = tl (keys s)"
      using v(3) u(2) True ne by (cases "storage s") (simp_all add: forget_def keys_def)
    ultimately show thesis
      using find find2 read vn front s1(1) node_at_live [OF v(1)] that [of s' "ch(?b := pre @ post)"]
      by (simp add: internal_erase_key_def key_of_def next_of_def same_frameD [OF s1(2)])
  next
    case False
    obtain p q where p: "(ch(?b := pre @ post)) ?c = p @ ?u # q"
        "(if link s ?c pre2 = Next (to_storage_addr s v) then link s ?b pre else link s ?c pre2) = link s ?c p"
        "link s ?c pre2 \<noteq> link s ?b pre"
      using link_after_unlink [OF i(3) b _ i(1) split split2] False by metis
    have key1: "key_of s1 ?u = key_of s ?u" by (rule same_frame_key [OF s1(2) u(1)])
    have bc: "?c = bucket_of hasher s1 (key_of s1 (front_addr s1))"
      using key1 by (simp add: same_frameD [OF s1(2)] bucket_of_def)
    have pre1: "shape_ok s1" "v \<in> live s1" "v \<noteq> front_addr s1" "(ch(?b := pre @ post)) ?c = p @ front_addr s1 # q"
      using i(1) v(1) False p(1) by (simp_all add: same_frameD [OF s1(2)])
    obtain s2 s3 where s2: "write_ref s1 (link s1 ?c p) v = Inr s2" "same_frame s1 s2"
        "s3 = s2\<lparr>storage := (storage s2)[to_storage_addr s2 v := hd (storage s2)]\<rparr>" "shape_ok s3"
        "indexed_but hasher (front_addr s3) s3 (ch(?b := pre @ post, ?c := p @ v # q))"
        "keys s3 = (keys s1)[to_storage_addr s1 v := hd (keys s1)]" "storage_cap s3 = storage_cap s1"
        "length (bucket_vec s3) = length (bucket_vec s1)" "storage s3 \<noteq> []"
      by (rule relocate [OF pre1(1) s1(3) pre1(2,3) ne1 bc pre1(4)])
    have pos: "0 < index_of (keys s) k" using v(3) u(3) [of v] v(1) False by (auto simp: live_def)
    have keys3: "keys s3 = (keys s)[index_of (keys s) k := hd (keys s)]"
      using s2(6) v(3) by (simp add: same_frameD [OF s1(2)])
    then have "distinct (tl (keys s3))"
      using distinct_forget [OF i(2) pos] index_of_present [OF assms(2)] by simp
    then obtain s' where s': "pop_front_node s3 = Inr s'" "indexed hasher s' (ch(?b := pre @ post, ?c := p @ v # q))"
        "keys s' = tl (keys s3)" "storage_cap s' = storage_cap s3" "bucket_vec s' = bucket_vec s3"
      using pop_unlinked [OF s2(4) _ s2(9,5)] by blast
    have link1: "link s1 ?c p = link s ?c p" by (simp add: link_def same_frameD [OF s1(2)])
    have "storage s2 \<noteq> []" using same_frameD(4) [OF s2(2)] ne1 by auto
    moreover have "node_key (storage s ! to_storage_addr s ?u) = key_of s ?u"
        "nxt_addr (storage s ! to_storage_addr s v) = next_of s v"
      by (simp_all add: key_of_def next_of_def)
    ultimately have "internal_erase_key hasher s k = Some (Inr (True, s'))"
      using find find2 read vn front s1(1) node_at_live [OF v(1)] p(3) s2(1,3) s'(1)
      unfolding internal_erase_key_def Let_def link1 p(2) [symmetric]
      by (simp add: front_node_def [of s2])
    then show thesis
      using that [OF _ s'(2)] s' s2(7,8) keys3 by (simp add: forget_def same_frameD [OF s1(2)])
  qed
qed

section \<open>The set as a window of recent keys\<close>

lemma new_ok:
  assumes "node_set_new bucket_count = Inr s"
  shows "indexed hasher s (\<lambda>_. [])" "keys s = []" "4 \<le> storage_cap s"
    "storage_cap s = max (next_pow2 bucket_count) 8 div 2"
proof -
  obtain k where k: "next_pow2 bucket_count = 2 ^ k" using next_pow2_power by blast
  let ?m = "max k 3"
  have m: "max (2 ^ k) 8 = (2 :: nat) ^ ?m"
  proof (cases "k \<le> 3")
    case True
    then have "(2 :: nat) ^ k \<le> 2 ^ 3" by (rule power_increasing) simp
    then show ?thesis using True by (simp add: max_def)
  next
    case False
    then have "(2 :: nat) ^ 3 \<le> 2 ^ k" by (intro power_increasing) simp_all
    then show ?thesis using False by (simp add: max_def)
  qed
  have "\<not> (2 :: nat) ^ 50 < 2 ^ k"
    using assms k by (auto simp: node_set_new_def min_size_clamp_def MAX_CAP_def bindR_eq_Inr split: if_splits)
  then have le: "k \<le> 50" using power_strict_increasing [of 50 k "2 :: nat"] by linarith
  have half: "(2 :: nat) ^ ?m div 2 = 2 ^ (?m - 1)" by (cases ?m) simp_all
  have s: "s = \<lparr>storage = [], storage_cap = 2 ^ (?m - 1), bucket_vec = replicate (2 ^ ?m) NULL_VIRTUAL_ADDR, virtual_addr_offset = 0\<rparr>"
    using assms k m half
    by (auto simp: node_set_new_def min_size_clamp_def MIN_CAP_def right_capacity_to_size_def bindR_eq_Inr split: if_splits)
  have "shape_ok s" using le by (auto simp: s shape_ok_def intro!: exI [of _ "?m - 1"])
  moreover have "live s = {}" by (simp add: s live_def)
  moreover have "linked s (\<lambda>_. [])" by (simp add: linked_def s)
  ultimately show "indexed hasher s (\<lambda>_. [])" by (simp add: indexed_def keys_def s)
  show "keys s = []" by (simp add: s keys_def)
  have "(2 :: nat) ^ 2 \<le> 2 ^ (?m - 1)" by (rule power_increasing) simp_all
  then show "4 \<le> storage_cap s" by (simp add: s)
  show "storage_cap s = max (next_pow2 bucket_count) 8 div 2" using k m half by (simp add: s)
qed

lemma clear_ok:
  assumes "indexed hasher s ch"
  shows "indexed hasher (node_set_clear s) (\<lambda>_. [])" "keys (node_set_clear s) = []" "storage_cap (node_set_clear s) = storage_cap s"
proof -
  have "live (node_set_clear s) = {}" by (simp add: node_set_clear_def live_def)
  moreover have "shape_ok (node_set_clear s)" using indexedD(1) [OF assms] by (simp add: shape_ok_def node_set_clear_def)
  moreover have "linked (node_set_clear s) (\<lambda>_. [])" by (simp add: linked_def node_set_clear_def)
  ultimately show "indexed hasher (node_set_clear s) (\<lambda>_. [])" by (simp add: indexed_def keys_def node_set_clear_def)
qed (simp_all add: node_set_clear_def keys_def)

datatype 'k set_op = SInsert 'k | SErase 'k | SClear

primrec set_step :: "('k \<Rightarrow> nat) \<Rightarrow> 'k node_set \<Rightarrow> 'k set_op \<Rightarrow> (bool \<times> 'k node_set) result option" where
  "set_step hasher s (SInsert k) = bindO (set_insert hasher s k) (\<lambda>((it, status), s'). Some (Inr (status, s')))"
| "set_step hasher s (SErase k) = internal_erase_key hasher s k"
| "set_step hasher s SClear = Some (Inr (True, node_set_clear s))"

fun run_set :: "('k \<Rightarrow> nat) \<Rightarrow> 'k node_set \<Rightarrow> 'k set_op list \<Rightarrow> (bool list \<times> 'k node_set) result option" where
  "run_set hasher s [] = Some (Inr ([], s))"
| "run_set hasher s (op # ops) = bindO (set_step hasher s op) (\<lambda>(r, s).
     bindO (run_set hasher s ops) (\<lambda>(rs, s). Some (Inr (r # rs, s))))"

text \<open>The specification: the keys in age order, at most \<open>cap\<close> of them.\<close>

primrec window_step :: "nat \<Rightarrow> 'k list \<Rightarrow> 'k set_op \<Rightarrow> bool \<times> 'k list" where
  "window_step cap ks (SInsert k) = (snd (fst (remember cap ks k)), snd (remember cap ks k))"
| "window_step cap ks (SErase k) = (if k \<in> set ks then (True, forget ks k) else (False, ks))"
| "window_step cap ks SClear = (True, [])"

fun run_window :: "nat \<Rightarrow> 'k list \<Rightarrow> 'k set_op list \<Rightarrow> bool list \<times> 'k list" where
  "run_window cap ks [] = ([], ks)"
| "run_window cap ks (op # ops) =
     (let (r, ks) = window_step cap ks op; (rs, ks) = run_window cap ks ops in (r # rs, ks))"

lemma set_step_ok:
  assumes "indexed hasher s ch" and "0 < storage_cap s"
  obtains r s' ch' where "set_step hasher s op = Some (Inr (r, s'))" and "indexed hasher s' ch'"
    and "window_step (storage_cap s) (keys s) op = (r, keys s')" and "storage_cap s' = storage_cap s"
proof (cases op)
  case (SInsert k)
  obtain s' ch' where "set_insert hasher s k = Some (Inr (fst (remember (storage_cap s) (keys s) k), s'))"
      "indexed hasher s' ch'" "keys s' = snd (remember (storage_cap s) (keys s) k)" "storage_cap s' = storage_cap s"
    by (rule insert_ok [OF assms, of k])
  then show thesis using SInsert that [of "snd (fst (remember (storage_cap s) (keys s) k))" s' ch'] by (simp add: split_beta)
next
  case (SErase k)
  show thesis
  proof (cases "k \<in> set (keys s)")
    case True
    obtain s' ch' where "internal_erase_key hasher s k = Some (Inr (True, s'))" "indexed hasher s' ch'"
        "keys s' = forget (keys s) k" "storage_cap s' = storage_cap s"
      by (rule erase_present [OF assms(1) True])
    then show thesis using SErase True that [of True s' ch'] by simp
  next
    case False
    then show thesis using SErase erase_absent [OF assms(1) False] that [of False s ch] assms(1) by simp
  qed
next
  case SClear
  then show thesis using clear_ok [OF assms(1)] that [of True "node_set_clear s" "\<lambda>_. []"] by simp
qed

lemma run_set_ok:
  assumes "indexed hasher s ch" and "0 < storage_cap s"
  shows "\<exists>rs s' ch'. run_set hasher s ops = Some (Inr (rs, s')) \<and> run_window (storage_cap s) (keys s) ops = (rs, keys s')
    \<and> indexed hasher s' ch' \<and> storage_cap s' = storage_cap s"
  using assms
proof (induction ops arbitrary: s ch)
  case (Cons op ops)
  obtain r s1 ch1 where s1: "set_step hasher s op = Some (Inr (r, s1))" "indexed hasher s1 ch1"
      "window_step (storage_cap s) (keys s) op = (r, keys s1)" "storage_cap s1 = storage_cap s"
    by (rule set_step_ok [OF Cons.prems])
  then obtain rs s' ch' where "run_set hasher s1 ops = Some (Inr (rs, s'))"
      "run_window (storage_cap s1) (keys s1) ops = (rs, keys s')" "indexed hasher s' ch'" "storage_cap s' = storage_cap s1"
    using Cons.IH [OF s1(2)] Cons.prems(2) by auto
  then show ?case using s1 by auto
qed auto

lemma set_contains_eq: "indexed hasher s ch \<Longrightarrow> set_contains hasher s k = Some (Inr (k \<in> set (keys s)))"
  using index_of_present [of k "keys s"] index_of_absent [of k "keys s"]
  by (auto simp: set_contains_def internal_find_eq length_keys)

lemma run_from_new:
  assumes "node_set_new bucket_count = Inr s"
  shows "\<exists>rs s'. run_set hasher s ops = Some (Inr (rs, s'))
    \<and> run_window (max (next_pow2 bucket_count) 8 div 2) [] ops = (rs, keys s')
    \<and> distinct (keys s') \<and> length (keys s') \<le> max (next_pow2 bucket_count) 8 div 2
    \<and> (\<forall>k. set_contains hasher s' k = Some (Inr (k \<in> set (keys s')))
         \<and> internal_find hasher s' k = Some (Inr (index_of (keys s') k)))"
proof -
  note new = new_ok(1) [OF assms, where hasher = hasher] new_ok(2-4) [OF assms]
  obtain rs s' ch' where s': "run_set hasher s ops = Some (Inr (rs, s'))" "run_window (storage_cap s) (keys s) ops = (rs, keys s')"
      "indexed hasher s' ch'" "storage_cap s' = storage_cap s"
    using run_set_ok [OF new(1)] new(3) by fastforce
  have "length (keys s') \<le> storage_cap s'" using indexedD(1) [OF s'(3)] by (simp add: shape_ok_def length_keys)
  then show ?thesis
    using s' new(2,4) indexedD(2) [OF s'(3)] set_contains_eq [OF s'(3)] internal_find_eq [OF s'(3)] by auto
qed

text \<open>
  C14: the cyclic hash set is a window of recent keys. Whatever the hash function and whatever was inserted, erased and
  cleared, the operations end and never follow an address outside the queue, and the set holds exactly the keys that the
  specification holds: insertion into a full set forgets the oldest key, a new key becomes the youngest, an erased
  key is replaced by the oldest. \<open>contains\<close> and \<open>find\<close> agree with it.
\<close>
theorem node_set_refines:
  assumes "node_set_new bucket_count = Inr s"
  shows "\<exists>rs s'. run_set hasher s ops = Some (Inr (rs, s'))
    \<and> run_window (max (next_pow2 bucket_count) 8 div 2) [] ops = (rs, keys s')
    \<and> distinct (keys s') \<and> length (keys s') \<le> max (next_pow2 bucket_count) 8 div 2
    \<and> (\<forall>k. set_contains hasher s' k = Some (Inr (k \<in> set (keys s')))
         \<and> internal_find hasher s' k = Some (Inr (index_of (keys s') k)))"
  using assms by (rule run_from_new)

theorem node_set_refines_witness:
  "\<exists>s rs s'. node_set_new 8 = Inr s
    \<and> run_set (\<lambda>k. k) s [SInsert 5, SInsert 13, SErase 5, SInsert (21 :: nat)] = Some (Inr (rs, s')) \<and> keys s' = [13, 21]"
proof -
  obtain s :: "nat node_set" where s: "node_set_new 8 = Inr s"
    by (simp add: node_set_new_def min_size_clamp_def ceil2_small next_pow2_def ulog2.simps MAX_CAP_def MIN_CAP_def)
  from node_set_refines [OF s, of "\<lambda>k. k" "[SInsert 5, SInsert 13, SErase 5, SInsert 21]"] s show ?thesis
    by (auto simp: ceil2_small next_pow2_def ulog2.simps remember_def forget_def)
qed

text \<open>
  a full set forgets too early. Inserting a key that is present already into a full set erases the oldest key,
  although nothing is added: the set then has fewer keys than it has room for and has lost a recent one.
\<close>
theorem full_set_forgets_early:
  "\<exists>s rs s'. node_set_new 8 = Inr s \<and> run_set hasher s (map SInsert [1, 2, 3, 4, 4 :: nat]) = Some (Inr (rs, s'))
     \<and> rs = [True, True, True, True, False] \<and> keys s' = [2, 3, 4] \<and> storage_cap s = 4
     \<and> set_contains hasher s' 1 = Some (Inr False)"
proof -
  obtain s :: "nat node_set" where s: "node_set_new 8 = Inr s"
    by (simp add: node_set_new_def min_size_clamp_def ceil2_small next_pow2_def ulog2.simps MAX_CAP_def MIN_CAP_def)
  have cap: "max (next_pow2 8) 8 div 2 = (4 :: nat)" by (simp add: ceil2_small next_pow2_def ulog2.simps)
  have window: "run_window 4 [] (map SInsert [1, 2, 3, 4, 4 :: nat]) = ([True, True, True, True, False], [2, 3, 4])"
    by (simp add: remember_def)
  obtain rs s' where run: "run_set hasher s (map SInsert [1, 2, 3, 4, 4]) = Some (Inr (rs, s'))"
      "run_window 4 [] (map SInsert [1, 2, 3, 4, 4]) = (rs, keys s')"
      "set_contains hasher s' 1 = Some (Inr (1 \<in> set (keys s')))"
    using run_from_new [OF s, of hasher "map SInsert [1, 2, 3, 4, 4]"] unfolding cap by blast
  have keys: "keys s' = [2, 3, 4]" "rs = [True, True, True, True, False]" using run(2) unfolding window by auto
  have "(1 :: nat) \<notin> set [2, 3, 4]" by simp
  then show ?thesis using s run(1,3) keys new_ok(4) [OF s] cap by metis
qed

text \<open>
  a key that is inserted again is not young again. In a set with room for four keys, the key 2, inserted once more as the last of five, is forgotten
  after two further insertions.
\<close>
theorem renewed_key_forgotten:
  "\<exists>s rs s'. node_set_new 8 = Inr s \<and> run_set hasher s (map SInsert [1, 2, 3, 4, 2, 5, 6 :: nat]) = Some (Inr (rs, s'))
     \<and> keys s' = [3, 4, 5, 6] \<and> set_contains hasher s' 2 = Some (Inr False)"
proof -
  obtain s :: "nat node_set" where s: "node_set_new 8 = Inr s"
    by (simp add: node_set_new_def min_size_clamp_def ceil2_small next_pow2_def ulog2.simps MAX_CAP_def MIN_CAP_def)
  have cap: "max (next_pow2 8) 8 div 2 = (4 :: nat)" by (simp add: next_pow2_def ulog2.simps)
  have window: "snd (run_window 4 [] (map SInsert [1, 2, 3, 4, 2, 5, 6 :: nat])) = [3, 4, 5, 6]" by (simp add: remember_def)
  obtain rs s' where run: "run_set hasher s (map SInsert [1, 2, 3, 4, 2, 5, 6]) = Some (Inr (rs, s'))"
      "run_window 4 [] (map SInsert [1, 2, 3, 4, 2, 5, 6]) = (rs, keys s')"
      "set_contains hasher s' 2 = Some (Inr (2 \<in> set (keys s')))"
    using run_from_new [OF s, of hasher "map SInsert [1, 2, 3, 4, 2, 5, 6]"] unfolding cap by blast
  have keys: "keys s' = [3, 4, 5, 6]" using run(2) window by simp
  then show ?thesis using s run(1,3) by auto
qed

end
