(* ===== verification/Temporal_Set.thy ===== *)
theory Temporal_Set
  imports Cyclic_Node_Set Network_Exception
begin

text \<open>
  \<open>temporal_finite_unordered_set\<close> of \<open>internal_rest/network_kernel_mailbox_impl1.h\<close>, a set that remembers the most
  recent keys, and the contract its clients rely on.
\<close>

section \<open>temporal\_finite\_unordered\_set\<close>

definition temporal_new :: "nat \<Rightarrow> 'k node_set result" where
  "temporal_new cap = node_set_new (size_to_capacity cap)"

text \<open>An exception ends the program.\<close>

definition temporal_insert :: "('k \<Rightarrow> nat) \<Rightarrow> 'k node_set \<Rightarrow> 'k \<Rightarrow> 'k node_set result option" where
  "temporal_insert hasher s key = (case set_insert hasher s key of
     None \<Rightarrow> None
   | Some (Inl e) \<Rightarrow> Some (Inl (if is_exception e then Abort else e))
   | Some (Inr (_, s')) \<Rightarrow> Some (Inr s'))"

definition temporal_contains :: "('k \<Rightarrow> nat) \<Rightarrow> 'k node_set \<Rightarrow> 'k \<Rightarrow> bool result option" where
  "temporal_contains hasher s key = set_contains hasher s key"

definition temporal_capacity :: "'k node_set \<Rightarrow> nat" where
  "temporal_capacity s = length (bucket_vec s)"

definition temporal_size :: "'k node_set \<Rightarrow> nat" where
  "temporal_size s = length (storage s)"

text \<open>From \<open>begin()\<close> to \<open>end()\<close>: the keys, the oldest first.\<close>

definition temporal_items :: "'k node_set \<Rightarrow> 'k list" where
  "temporal_items s = map node_key (storage s)"

section \<open>The contract\<close>

locale recent_set =
  fixes contains :: "'s \<Rightarrow> 'k \<Rightarrow> bool result option"
    and ins :: "'s \<Rightarrow> 'k \<Rightarrow> 's result option"
    and window :: "'s \<Rightarrow> 'k list"
    and ok :: "'s \<Rightarrow> bool"
    and room :: "'s \<Rightarrow> nat"
  assumes room_pos: "ok s \<Longrightarrow> 0 < room s"
    and window_ok: "ok s \<Longrightarrow> distinct (window s) \<and> length (window s) \<le> room s"
    and contains_eq: "ok s \<Longrightarrow> contains s k = Some (Inr (k \<in> set (window s)))"
    and ins_eq: "ok s \<Longrightarrow> \<exists>s'. ins s k = Some (Inr s') \<and> ok s' \<and> room s' = room s
      \<and> window s' = snd (remember (room s) (window s) k)"

interpretation temporal: recent_set "temporal_contains hasher" "temporal_insert hasher" temporal_items
  "\<lambda>s. set_ok hasher s \<and> 0 < storage_cap s" storage_cap for hasher
proof unfold_locales
  fix s :: "'a node_set" and k
  assume ok: "set_ok hasher s \<and> 0 < storage_cap s"
  then obtain ch where ch: "indexed hasher s ch" by (auto simp: set_ok_def)
  show "0 < storage_cap s" using ok by blast
  have items: "temporal_items s = keys s" for s :: "'a node_set" by (simp add: temporal_items_def keys_def)
  show "distinct (temporal_items s) \<and> length (temporal_items s) \<le> storage_cap s"
    using indexedD(1,2) [OF ch] by (simp add: items shape_ok_def length_keys)
  show "temporal_contains hasher s k = Some (Inr (k \<in> set (temporal_items s)))"
    by (simp add: temporal_contains_def items set_contains_eq [OF ch])
  obtain s' ch' where s': "set_insert hasher s k = Some (Inr (fst (remember (storage_cap s) (keys s) k), s'))"
      "indexed hasher s' ch'" "keys s' = snd (remember (storage_cap s) (keys s) k)" "storage_cap s' = storage_cap s"
    using insert_ok [OF ch, of k] ok by blast
  then show "\<exists>s'. temporal_insert hasher s k = Some (Inr s') \<and> (set_ok hasher s' \<and> 0 < storage_cap s')
      \<and> storage_cap s' = storage_cap s \<and> temporal_items s' = snd (remember (storage_cap s) (temporal_items s) k)"
    using ok by (intro exI [of _ s']) (auto simp: temporal_insert_def items set_ok_def)
qed

text \<open>A set made for \<open>cap\<close> keys has room for at least as many.\<close>

lemma temporal_new_ok:
  assumes "temporal_new cap = Inr s"
  shows "set_ok hasher s \<and> 0 < storage_cap s" "temporal_items s = []" "cap \<le> storage_cap s" "4 \<le> storage_cap s"
proof -
  have new: "node_set_new (size_to_capacity cap) = Inr s" using assms by (simp add: temporal_new_def)
  show "set_ok hasher s \<and> 0 < storage_cap s" using new_ok(1,3) [OF new] by (auto simp: set_ok_def)
  show "temporal_items s = []" using new_ok(2) [OF new] by (simp add: temporal_items_def keys_def)
  show "4 \<le> storage_cap s" by (rule new_ok(3) [OF new])
  have "2 * cap \<le> next_pow2 (2 * cap)" using next_pow2_least [of "2 * cap"] by blast
  then show "cap \<le> storage_cap s" using new_ok(4) [OF new] by (simp add: size_to_capacity_def mult.commute)
qed

lemma temporal_new_total: "cap \<le> 2 ^ 25 \<Longrightarrow> \<exists>s. temporal_new cap = Inr s"
proof -
  assume "cap \<le> 2 ^ 25"
  then have le: "cap * 2 \<le> 2 ^ 26" by simp
  then have "next_pow2 (cap * 2) \<le> 2 ^ 26" using next_pow2_least [of "cap * 2"] by blast
  moreover have "cap * 2 \<le> 2 ^ 63" using le by simp
  ultimately show ?thesis
    by (simp add: temporal_new_def size_to_capacity_def node_set_new_def ceil2_small min_size_clamp_def MAX_CAP_def)
qed

section \<open>How long a key is remembered\<close>

text \<open>How many keys are younger than \<open>k\<close>.\<close>

definition younger :: "'k list \<Rightarrow> 'k \<Rightarrow> nat" where
  "younger ks k = length ks - Suc (index_of ks k)"

lemma index_of_append: "index_of (xs @ ys) k = (if k \<in> set xs then index_of xs k else length xs + index_of ys k)"
  by (induction xs) auto

lemma remember_new:
  "k \<notin> set ks \<Longrightarrow> length ks \<le> cap \<Longrightarrow> 0 < cap \<Longrightarrow>
   k \<in> set (snd (remember cap ks k)) \<and> younger (snd (remember cap ks k)) k = 0"
  by (cases ks) (auto simp: remember_def Let_def younger_def index_of_append)

text \<open>As long as only absent keys are inserted, a key is forgotten when \<open>cap\<close> younger ones have come.\<close>

lemma remember_other:
  assumes "k \<in> set ks" and "x \<notin> set ks" and "length ks \<le> cap" and "Suc (younger ks k) < cap"
  shows "k \<in> set (snd (remember cap ks x)) \<and> younger (snd (remember cap ks x)) k = Suc (younger ks k)"
proof (cases "length ks = cap")
  case True
  then obtain y ys where ks: "ks = y # ys" using assms(1) by (cases ks) auto
  have "k \<noteq> y" using assms(4) True ks by (auto simp: younger_def)
  then have k: "k \<in> set ys" using assms(1) ks by auto
  have "index_of ys k < length ys" using index_of_present [OF k] by blast
  then show ?thesis using k assms(2) ks True \<open>k \<noteq> y\<close> by (auto simp: remember_def Let_def younger_def index_of_append)
next
  case False
  have "index_of ks k < length ks" using index_of_present [OF assms(1)] by blast
  then show ?thesis using assms(1,2) False by (auto simp: remember_def Let_def younger_def index_of_append)
qed

text \<open>An insertion, also of a key that is present, makes every other key older by at most one.\<close>

lemma remember_any:
  assumes "k \<in> set ks" and "length ks \<le> cap" and "Suc (younger ks k) < cap"
  shows "k \<in> set (snd (remember cap ks x)) \<and> younger (snd (remember cap ks x)) k \<le> Suc (younger ks k)"
proof (cases "x \<in> set (if length ks = cap then tl ks else ks)")
  case True
  show ?thesis
  proof (cases "length ks = cap")
    case full: True
    then obtain y ys where ks: "ks = y # ys" using assms(1) by (cases ks) auto
    have "k \<noteq> y" using assms(3) full ks by (auto simp: younger_def)
    then show ?thesis using assms(1) True full ks by (auto simp: remember_def Let_def younger_def)
  next
    case False
    then show ?thesis using assms(1) True by (auto simp: remember_def Let_def)
  qed
next
  case new: False
  show ?thesis
  proof (cases "length ks = cap")
    case True
    then obtain y ys where ks: "ks = y # ys" using assms(1) by (cases ks) auto
    have "k \<noteq> y" using assms(3) True ks by (auto simp: younger_def)
    then have k: "k \<in> set ys" using assms(1) ks by auto
    have "index_of ys k < length ys" using index_of_present [OF k] by blast
    then show ?thesis using k new ks True \<open>k \<noteq> y\<close> by (auto simp: remember_def Let_def younger_def index_of_append)
  next
    case False
    have "index_of ks k < length ks" using index_of_present [OF assms(1)] by blast
    then show ?thesis using assms(1) new False by (auto simp: remember_def Let_def younger_def index_of_append)
  qed
qed

lemma remember_length: "length w \<le> room \<Longrightarrow> 0 < room \<Longrightarrow> length (snd (remember room w k)) \<le> room"
  by (cases w) (auto simp: remember_def Let_def)

lemma remember_fold_younger:
  "k \<in> set ks \<Longrightarrow> length ks \<le> cap \<Longrightarrow> younger ks k + length xs < cap \<Longrightarrow>
   k \<in> set (fold (\<lambda>x w. snd (remember cap w x)) xs ks) \<and>
   younger (fold (\<lambda>x w. snd (remember cap w x)) xs ks) k \<le> younger ks k + length xs \<and>
   length (fold (\<lambda>x w. snd (remember cap w x)) xs ks) \<le> cap"
proof (induction xs arbitrary: ks)
  case (Cons x xs)
  have *: "k \<in> set (snd (remember cap ks x)) \<and> younger (snd (remember cap ks x)) k \<le> Suc (younger ks k)"
    using Cons.prems by (intro remember_any) auto
  moreover have "length (snd (remember cap ks x)) \<le> cap" using Cons.prems by (intro remember_length) auto
  ultimately show ?case using Cons.IH [of "snd (remember cap ks x)"] Cons.prems(3) by auto
qed simp

lemma remember_fold_length:
  "length ks \<le> cap \<Longrightarrow> 0 < cap \<Longrightarrow> length (fold (\<lambda>x w. snd (remember cap w x)) xs ks) \<le> cap"
  by (induction xs arbitrary: ks) (simp_all add: remember_length)

lemma set_remember: "set (snd (remember cap w k)) \<subseteq> insert k (set w)"
  by (cases w) (auto simp: remember_def Let_def)

lemma set_remember_fold: "set (fold (\<lambda>x w. snd (remember cap w x)) xs ks) \<subseteq> set ks \<union> set xs"
proof (induction xs arbitrary: ks)
  case (Cons x xs)
  then show ?case using Cons.IH [of "snd (remember cap ks x)"] set_remember [of cap ks x] by auto
qed simp

end
