(* ===== verification/Cyclic_Queue.thy ===== *)
theory Cyclic_Queue
  imports Network_Exception
begin

text \<open>
  The two cyclic queues of \<open>internal_rest/network_datastructure.h\<close>: \<open>simple_pow2_cyclic_queue\<close> keeps an
  object in every slot of its array, \<open>nontrivial_pow2_cyclic_queue\<close> constructs and destroys the objects in
  raw storage. The offset is a 64-bit number that is never reduced; the capacity is a power of two. What
  both promise, a double-ended queue of bounded size, is the locale \<open>cyclic_deque\<close>. The constructors of the elements do not throw: where
  the code catches an exception of a constructor (\<open>push_back\<close>, \<open>dispatch_default_initialize\<close>), that path is left out.
\<close>

unbundle bit_operations_syntax

section \<open>State\<close>

text \<open>
  The slots of the simple queue hold objects; those of the other hold \<open>Some\<close> object or, outside of the
  lifetime of an object, \<open>None\<close>.
\<close>

record 'a cyclic_queue =
  q_arr :: "'a list"
  q_off :: "64 word"
  q_sz :: nat
  q_cap :: nat

definition to_index :: "'a cyclic_queue \<Rightarrow> nat \<Rightarrow> nat" where
  "to_index q i = unat ((q_off q + of_nat i) AND (of_nat (q_cap q) - 1))"

section \<open>simple\_pow2\_cyclic\_queue\<close>

definition simple_new :: "'a \<Rightarrow> nat \<Rightarrow> 'a cyclic_queue" where
  "simple_new d pow2_exponent =
     \<lparr>q_arr = replicate (2 ^ pow2_exponent) d, q_off = 0, q_sz = 0, q_cap = 2 ^ pow2_exponent\<rparr>"

definition simple_front :: "'a cyclic_queue \<Rightarrow> 'a result" where
  "simple_front q = (if q_sz q = 0 then Inl Abort else Inr (q_arr q ! to_index q 0))"

definition simple_back :: "'a cyclic_queue \<Rightarrow> 'a result" where
  "simple_back q = (if q_sz q = 0 then Inl Abort else Inr (q_arr q ! to_index q (q_sz q - 1)))"

definition simple_at :: "'a cyclic_queue \<Rightarrow> nat \<Rightarrow> 'a" where
  "simple_at q idx = q_arr q ! to_index q idx"

text \<open>\<open>std::fill\<close> on a range of the array.\<close>

definition fill_range :: "'a list \<Rightarrow> nat \<Rightarrow> nat \<Rightarrow> 'a \<Rightarrow> 'a list" where
  "fill_range arr lo hi d = foldl (\<lambda>xs i. xs[i := d]) arr [lo..<hi]"

definition defaultize_range :: "'a \<Rightarrow> 'a cyclic_queue \<Rightarrow> nat \<Rightarrow> nat \<Rightarrow> 'a cyclic_queue" where
  "defaultize_range d q virtual_idx sz =
     (let first = to_index q virtual_idx;
          end_idx = first + sz;
          eoq_last = min (q_cap q) end_idx;
          wrapped_around_last = end_idx - eoq_last
      in q\<lparr>q_arr := fill_range (fill_range (q_arr q) first eoq_last d) 0 wrapped_around_last d\<rparr>)"

definition simple_resize :: "'a \<Rightarrow> 'a cyclic_queue \<Rightarrow> nat \<Rightarrow> exception_t \<times> 'a cyclic_queue" where
  "simple_resize d q new_sz =
     (if new_sz > q_cap q then (RESOURCE_EXHAUSTION, q)
      else if new_sz \<ge> q_sz q then (SUCCESS, q\<lparr>q_sz := new_sz\<rparr>)
      else (SUCCESS, (defaultize_range d q new_sz (q_sz q - new_sz))\<lparr>q_sz := new_sz\<rparr>))"

definition simple_push_back :: "'a cyclic_queue \<Rightarrow> 'a \<Rightarrow> exception_t \<times> 'a cyclic_queue" where
  "simple_push_back q value =
     (if q_sz q = q_cap q then (QUEUE_FULL, q)
      else (SUCCESS, q\<lparr>q_arr := (q_arr q)[to_index q (q_sz q) := value], q_sz := q_sz q + 1\<rparr>))"

definition simple_pop_front :: "'a \<Rightarrow> 'a cyclic_queue \<Rightarrow> 'a cyclic_queue result" where
  "simple_pop_front d q =
     (if q_sz q = 0 then Inl Abort
      else Inr (q\<lparr>q_arr := (q_arr q)[to_index q 0 := d], q_off := q_off q + 1, q_sz := q_sz q - 1\<rparr>))"

definition simple_pop_back :: "'a \<Rightarrow> 'a cyclic_queue \<Rightarrow> 'a cyclic_queue result" where
  "simple_pop_back d q =
     (if q_sz q = 0 then Inl Abort
      else Inr (q\<lparr>q_arr := (q_arr q)[to_index q (q_sz q - 1) := d], q_sz := q_sz q - 1\<rparr>))"

definition simple_erase_front_range :: "'a \<Rightarrow> 'a cyclic_queue \<Rightarrow> nat \<Rightarrow> 'a cyclic_queue result" where
  "simple_erase_front_range d q sz =
     (if sz > q_sz q then Inl Abort
      else Inr ((defaultize_range d q 0 sz)\<lparr>q_off := q_off q + of_nat sz, q_sz := q_sz q - sz\<rparr>))"

definition simple_erase_back_range :: "'a \<Rightarrow> 'a cyclic_queue \<Rightarrow> nat \<Rightarrow> 'a cyclic_queue result" where
  "simple_erase_back_range d q sz =
     (if sz > q_sz q then Inl Abort else Inr (snd (simple_resize d q (q_sz q - sz))))"

definition simple_clear :: "'a \<Rightarrow> 'a cyclic_queue \<Rightarrow> 'a cyclic_queue result" where
  "simple_clear d q = Inr (snd (simple_resize d q 0))"

section \<open>nontrivial\_pow2\_cyclic\_queue\<close>

text \<open>Constructing an object in a slot, and destroying the one that is there.\<close>

definition construct_at :: "'a option list \<Rightarrow> nat \<Rightarrow> 'a \<Rightarrow> 'a option list result" where
  "construct_at arr i x = (if arr ! i = None then Inr (arr[i := Some x]) else Inl Bad_lifetime)"

definition destroy_at :: "'a option list \<Rightarrow> nat \<Rightarrow> 'a option list result" where
  "destroy_at arr i = (if arr ! i = None then Inl Bad_lifetime else Inr (arr[i := None]))"

definition launder :: "'a option \<Rightarrow> 'a result" where
  "launder s = (case s of None \<Rightarrow> Inl Bad_lifetime | Some x \<Rightarrow> Inr x)"

definition nontrivial_new :: "nat \<Rightarrow> 'a option cyclic_queue" where
  "nontrivial_new pow2_exponent =
     \<lparr>q_arr = replicate (2 ^ pow2_exponent) None, q_off = 0, q_sz = 0, q_cap = 2 ^ pow2_exponent\<rparr>"

definition nontrivial_front :: "'a option cyclic_queue \<Rightarrow> 'a result" where
  "nontrivial_front q = (if q_sz q = 0 then Inl Abort else launder (q_arr q ! to_index q 0))"

definition nontrivial_back :: "'a option cyclic_queue \<Rightarrow> 'a result" where
  "nontrivial_back q = (if q_sz q = 0 then Inl Abort else launder (q_arr q ! to_index q (q_sz q - 1)))"

definition nontrivial_at :: "'a option cyclic_queue \<Rightarrow> nat \<Rightarrow> 'a result" where
  "nontrivial_at q idx = launder (q_arr q ! to_index q idx)"

primrec dispatch_destroy :: "'a option cyclic_queue \<Rightarrow> nat \<Rightarrow> nat \<Rightarrow> 'a option cyclic_queue result" where
  "dispatch_destroy q virtual_off 0 = Inr q"
| "dispatch_destroy q virtual_off (Suc n) =
     bindR (dispatch_destroy q virtual_off n) (\<lambda>q'.
     bindR (destroy_at (q_arr q') (to_index q' (virtual_off + n))) (\<lambda>arr. Inr (q'\<lparr>q_arr := arr\<rparr>)))"

primrec dispatch_default_initialize ::
    "'a \<Rightarrow> 'a option cyclic_queue \<Rightarrow> nat \<Rightarrow> nat \<Rightarrow> 'a option cyclic_queue result" where
  "dispatch_default_initialize d q virtual_off 0 = Inr q"
| "dispatch_default_initialize d q virtual_off (Suc n) =
     bindR (dispatch_default_initialize d q virtual_off n) (\<lambda>q'.
     bindR (construct_at (q_arr q') (to_index q' (virtual_off + n)) d) (\<lambda>arr. Inr (q'\<lparr>q_arr := arr\<rparr>)))"

definition nontrivial_resize ::
    "'a \<Rightarrow> 'a option cyclic_queue \<Rightarrow> nat \<Rightarrow> (exception_t \<times> 'a option cyclic_queue) result" where
  "nontrivial_resize d q new_sz =
     (if new_sz > q_cap q then Inr (RESOURCE_EXHAUSTION, q)
      else if new_sz = q_sz q then Inr (SUCCESS, q)
      else if new_sz > q_sz q then
        bindR (dispatch_default_initialize d q (q_sz q) (new_sz - q_sz q)) (\<lambda>q'.
          Inr (SUCCESS, q'\<lparr>q_sz := new_sz\<rparr>))
      else
        bindR (dispatch_destroy q new_sz (q_sz q - new_sz)) (\<lambda>q'. Inr (SUCCESS, q'\<lparr>q_sz := new_sz\<rparr>)))"

definition nontrivial_push_back ::
    "'a option cyclic_queue \<Rightarrow> 'a \<Rightarrow> (exception_t \<times> 'a option cyclic_queue) result" where
  "nontrivial_push_back q value =
     (if q_sz q = q_cap q then Inr (QUEUE_FULL, q)
      else
        bindR (construct_at (q_arr q) (to_index q (q_sz q)) value) (\<lambda>arr.
          Inr (SUCCESS, q\<lparr>q_arr := arr, q_sz := q_sz q + 1\<rparr>)))"

definition nontrivial_pop_front :: "'a option cyclic_queue \<Rightarrow> 'a option cyclic_queue result" where
  "nontrivial_pop_front q =
     (if q_sz q = 0 then Inl Abort
      else
        bindR (destroy_at (q_arr q) (to_index q 0)) (\<lambda>arr.
          Inr (q\<lparr>q_arr := arr, q_off := q_off q + 1, q_sz := q_sz q - 1\<rparr>)))"

definition nontrivial_pop_back :: "'a option cyclic_queue \<Rightarrow> 'a option cyclic_queue result" where
  "nontrivial_pop_back q =
     (if q_sz q = 0 then Inl Abort
      else
        bindR (destroy_at (q_arr q) (to_index q (q_sz q - 1))) (\<lambda>arr.
          Inr (q\<lparr>q_arr := arr, q_sz := q_sz q - 1\<rparr>)))"

primrec nontrivial_erase_front_range :: "'a option cyclic_queue \<Rightarrow> nat \<Rightarrow> 'a option cyclic_queue result" where
  "nontrivial_erase_front_range q 0 = Inr q"
| "nontrivial_erase_front_range q (Suc n) =
     bindR (nontrivial_pop_front q) (\<lambda>q'. nontrivial_erase_front_range q' n)"

primrec nontrivial_erase_back_range :: "'a option cyclic_queue \<Rightarrow> nat \<Rightarrow> 'a option cyclic_queue result" where
  "nontrivial_erase_back_range q 0 = Inr q"
| "nontrivial_erase_back_range q (Suc n) =
     bindR (nontrivial_pop_back q) (\<lambda>q'. nontrivial_erase_back_range q' n)"

definition nontrivial_clear :: "'a option cyclic_queue \<Rightarrow> 'a option cyclic_queue result" where
  "nontrivial_clear q = nontrivial_erase_back_range q (q_sz q)"

section \<open>Indices\<close>

text \<open>The offset may wrap around at \<open>2 ^ 64\<close>: the mask still takes it modulo the capacity.\<close>

definition shape_ok :: "'a cyclic_queue \<Rightarrow> bool" where
  "shape_ok q \<longleftrightarrow> (\<exists>k < 64. q_cap q = 2 ^ k) \<and> length (q_arr q) = q_cap q \<and> q_sz q \<le> q_cap q"

lemma to_index_mod:
  assumes "shape_ok q" and "i \<le> 2 * q_cap q"
  shows "to_index q i = (unat (q_off q) + i) mod q_cap q"
proof -
  obtain k where k: "k < 64" "q_cap q = 2 ^ k" using assms(1) by (auto simp: shape_ok_def)
  have "(2 :: nat) ^ k dvd 2 ^ 64" using k(1) by (intro le_imp_power_dvd) simp
  then have "unat (q_off q + of_nat i) mod 2 ^ k = (unat (q_off q) + i) mod 2 ^ k"
    by (simp add: unat_word_ariths unat_of_nat mod_mod_cancel mod_add_right_eq)
  moreover have "(of_nat (q_cap q) - 1 :: 64 word) = mask k" by (simp add: k(2) mask_eq_exp_minus_1)
  then have "to_index q i = unat (take_bit k (q_off q + of_nat i))"
    unfolding to_index_def by (simp only: take_bit_eq_mask)
  moreover have "unat (take_bit k (q_off q + of_nat i)) = take_bit k (unat (q_off q + of_nat i))"
    by (rule unsigned_take_bit_eq)
  moreover have "take_bit k (unat (q_off q + of_nat i)) = unat (q_off q + of_nat i) mod 2 ^ k"
    by (rule take_bit_eq_mod)
  ultimately show ?thesis unfolding k(2) by (simp only:)
qed

text \<open>The array from the offset on, once around.\<close>

definition view :: "'a cyclic_queue \<Rightarrow> 'a list" where
  "view q = map (\<lambda>i. q_arr q ! to_index q i) [0..<q_cap q]"

lemma length_view [simp]: "length (view q) = q_cap q"
  by (simp add: view_def)

lemma nth_view: "i < q_cap q \<Longrightarrow> view q ! i = q_arr q ! to_index q i"
  by (simp add: view_def)

lemma to_index_split:
  assumes "shape_ok q" and "i \<le> q_cap q"
  shows "to_index q i =
    (let r = unat (q_off q) mod q_cap q in if r + i < q_cap q then r + i else r + i - q_cap q)"
proof -
  have pos: "0 < q_cap q" using assms(1) by (auto simp: shape_ok_def)
  then have r: "unat (q_off q) mod q_cap q < q_cap q" by simp
  have "to_index q i = (unat (q_off q) mod q_cap q + i) mod q_cap q"
    using to_index_mod [OF assms(1)] assms(2) by (simp add: mod_add_left_eq)
  then show ?thesis using r assms(2) by (simp add: Let_def mod_if [of "_ + i"])
qed

lemma to_index_less: "shape_ok q \<Longrightarrow> i \<le> q_cap q \<Longrightarrow> to_index q i < q_cap q"
  by (subst to_index_mod) (auto simp: shape_ok_def)

lemma to_index_inj:
  assumes "shape_ok q" and "i < q_cap q" and "j < q_cap q"
  shows "to_index q i = to_index q j \<longleftrightarrow> i = j"
  using assms by (auto simp: to_index_split Let_def split: if_splits)

lemma view_update:
  assumes "shape_ok q" and "i < q_cap q"
  shows "view (q\<lparr>q_arr := (q_arr q)[to_index q i := x], q_sz := n\<rparr>) = (view q)[i := x]"
proof -
  have "to_index (q\<lparr>q_arr := a, q_sz := n\<rparr>) j = to_index q j" for a j by (simp add: to_index_def)
  moreover have "length (q_arr q) = q_cap q" using assms(1) by (simp add: shape_ok_def)
  ultimately show ?thesis
    using assms to_index_less [OF assms(1)]
    by (intro nth_equalityI) (auto simp: nth_view nth_list_update to_index_inj)
qed

lemma view_advance:
  assumes "shape_ok q" and "n \<le> q_cap q"
  shows "view (q\<lparr>q_off := q_off q + of_nat n, q_sz := m\<rparr>) = rotate n (view q)"
proof (rule nth_equalityI)
  fix i assume "i < length (view (q\<lparr>q_off := q_off q + of_nat n, q_sz := m\<rparr>))"
  then have i: "i < q_cap q" by simp
  have "to_index (q\<lparr>q_off := q_off q + of_nat n, q_sz := m\<rparr>) i = to_index q (n + i)"
    by (simp add: to_index_def add.assoc)
  moreover have "to_index q (n + i) = to_index q ((n + i) mod q_cap q)"
    using assms i to_index_mod [OF assms(1), of "(n + i) mod q_cap q"] to_index_mod [OF assms(1), of "n + i"]
      mod_less_divisor [of "q_cap q" "n + i"]
    by (simp add: mod_add_right_eq del: mod_less_divisor)
  ultimately show "view (q\<lparr>q_off := q_off q + of_nat n, q_sz := m\<rparr>) ! i = rotate n (view q) ! i"
    using i by (simp add: nth_view nth_rotate)
qed simp

lemma length_fill_range [simp]: "length (fill_range arr lo hi d) = length arr"
  unfolding fill_range_def by (induction hi) auto

lemma nth_fill_range:
  "j < length arr \<Longrightarrow> fill_range arr lo hi d ! j = (if lo \<le> j \<and> j < hi then d else arr ! j)"
proof (induction hi)
  case (Suc hi)
  then show ?case using length_fill_range [of arr lo hi d]
    by (cases "lo \<le> hi") (auto simp: fill_range_def nth_list_update less_Suc_eq)
qed (simp add: fill_range_def)

lemma defaultize_fields [simp]:
  "q_off (defaultize_range d q v n) = q_off q" "q_sz (defaultize_range d q v n) = q_sz q"
  "q_cap (defaultize_range d q v n) = q_cap q" "length (q_arr (defaultize_range d q v n)) = length (q_arr q)"
  by (simp_all add: defaultize_range_def Let_def)

lemma view_defaultize:
  assumes "shape_ok q" and "v + n \<le> q_cap q"
  shows "view (defaultize_range d q v n) = take v (view q) @ replicate n d @ drop (v + n) (view q)"
proof (rule nth_equalityI)
  show "length (view (defaultize_range d q v n)) = length (take v (view q) @ replicate n d @ drop (v + n) (view q))"
    using assms(2) by simp
  fix i assume "i < length (view (defaultize_range d q v n))"
  then have i: "i < q_cap q" by simp
  have idx: "to_index (defaultize_range d q v n) i = to_index q i" by (simp add: to_index_def)
  define r where "r = unat (q_off q) mod q_cap q"
  have r: "r < q_cap q" using assms(1) by (auto simp: r_def shape_ok_def)
  have iq: "to_index q i = (if r + i < q_cap q then r + i else r + i - q_cap q)"
    and vq: "to_index q v = (if r + v < q_cap q then r + v else r + v - q_cap q)"
    using to_index_split [OF assms(1)] i assms(2) by (simp_all add: r_def Let_def)
  have len: "length (q_arr q) = q_cap q" using assms(1) by (simp add: shape_ok_def)
  let ?lo = "to_index q v" let ?hi = "min (q_cap q) (?lo + n)" let ?w = "?lo + n - ?hi"
  have "(?lo \<le> to_index q i \<and> to_index q i < ?hi \<or> to_index q i < ?w) \<longleftrightarrow> v \<le> i \<and> i < v + n"
    unfolding iq vq using r i assms(2) by (auto simp: min_def)
  then have "view (defaultize_range d q v n) ! i = (if v \<le> i \<and> i < v + n then d else view q ! i)"
    using i idx nth_fill_range to_index_less [OF assms(1), of i] len
    by (auto simp: nth_view defaultize_range_def Let_def nth_fill_range)
  then show "view (defaultize_range d q v n) ! i =
      (take v (view q) @ replicate n d @ drop (v + n) (view q)) ! i"
    using i assms(2) by (auto simp: nth_append min_def not_less)
qed

section \<open>What a queue holds\<close>

text \<open>The slots of the elements, and blank slots around them.\<close>

definition holds :: "'a \<Rightarrow> 'a cyclic_queue \<Rightarrow> 'a list \<Rightarrow> bool" where
  "holds blank q xs \<longleftrightarrow> shape_ok q \<and> q_sz q = length xs \<and>
     view q = xs @ replicate (q_cap q - length xs) blank"

lemma holds_shape: "holds blank q xs \<Longrightarrow> shape_ok q \<and> q_sz q = length xs \<and> length xs \<le> q_cap q"
  by (auto simp: holds_def shape_ok_def)

lemma holds_slot: "holds blank q xs \<Longrightarrow> i < length xs \<Longrightarrow> q_arr q ! to_index q i = xs ! i"
  using nth_view [of i q] by (auto simp: holds_def shape_ok_def nth_append)

lemma holds_blank:
  "holds blank q xs \<Longrightarrow> length xs \<le> i \<Longrightarrow> i < q_cap q \<Longrightarrow> q_arr q ! to_index q i = blank"
  using nth_view [of i q] by (auto simp: holds_def shape_ok_def nth_append)

lemma shape_ok_change [simp]:
  "shape_ok (q\<lparr>q_arr := (q_arr q)[i := x], q_sz := n\<rparr>) \<longleftrightarrow> shape_ok (q\<lparr>q_sz := n\<rparr>)"
  "shape_ok (q\<lparr>q_off := p, q_sz := n\<rparr>) \<longleftrightarrow> shape_ok (q\<lparr>q_sz := n\<rparr>)"
  by (simp_all add: shape_ok_def)

lemma shape_ok_size: "shape_ok q \<Longrightarrow> n \<le> q_cap q \<Longrightarrow> shape_ok (q\<lparr>q_sz := n\<rparr>)"
  by (simp add: shape_ok_def)

text \<open>Writing the slot behind the last element, blanking the last, blanking the first and moving on.\<close>

lemma holds_write:
  assumes "holds blank q xs" and "length xs < q_cap q"
  shows "holds blank (q\<lparr>q_arr := (q_arr q)[to_index q (length xs) := x], q_sz := Suc (length xs)\<rparr>) (xs @ [x])"
  using assms view_update [where q = q and i = "length xs" and x = x and n = "Suc (length xs)"]
  by (auto simp: holds_def shape_ok_size list_update_append Suc_diff_Suc [symmetric])

lemma holds_blank_last:
  assumes "holds blank q (xs @ [x])"
  shows "holds blank (q\<lparr>q_arr := (q_arr q)[to_index q (length xs) := blank], q_sz := length xs\<rparr>) xs"
proof -
  have "length xs < q_cap q" using holds_shape [OF assms] by simp
  then show ?thesis
    using assms view_update [where q = q and i = "length xs" and x = blank and n = "length xs"]
    by (auto simp: holds_def shape_ok_size list_update_append Suc_diff_Suc [symmetric])
qed

lemma holds_advance:
  assumes "shape_ok q" and "n \<le> q_cap q" and "view q = replicate n blank @ xs @ replicate (q_cap q - n - length xs) blank"
    and "n + length xs \<le> q_cap q"
  shows "holds blank (q\<lparr>q_off := q_off q + of_nat n, q_sz := length xs\<rparr>) xs"
proof -
  have "rotate n (view q) = xs @ replicate (q_cap q - n - length xs) blank @ replicate n blank"
    using assms(3) rotate_append [of "replicate n blank" "xs @ replicate (q_cap q - n - length xs) blank"] by simp
  then show ?thesis
    using assms view_advance [OF assms(1,2), of "length xs"]
    by (simp add: holds_def shape_ok_size replicate_add [symmetric])
qed

lemma holds_blank_first:
  assumes "holds blank q (x # xs)"
  shows "holds blank (q\<lparr>q_arr := (q_arr q)[to_index q 0 := blank], q_off := q_off q + 1, q_sz := length xs\<rparr>) xs"
proof -
  let ?q = "q\<lparr>q_arr := (q_arr q)[to_index q 0 := blank], q_sz := length xs\<rparr>"
  have q: "shape_ok q" "Suc (length xs) \<le> q_cap q" using holds_shape [OF assms] by simp_all
  then have "view ?q = (view q)[0 := blank]" by (intro view_update) simp_all
  then have "view ?q = replicate 1 blank @ xs @ replicate (q_cap ?q - 1 - length xs) blank"
    using assms by (simp add: holds_def)
  then have "holds blank (?q\<lparr>q_off := q_off ?q + of_nat 1, q_sz := length xs\<rparr>) xs"
    using q by (intro holds_advance) (simp_all add: shape_ok_size)
  then show ?thesis by simp
qed

lemma holds_new: "k < 64 \<Longrightarrow> holds d (simple_new d k) []"
proof -
  assume k: "k < 64"
  then have shape: "shape_ok (simple_new d k)" by (auto simp: shape_ok_def simple_new_def)
  have "view (simple_new d k) = replicate (2 ^ k) d"
    using to_index_less [OF shape] by (intro nth_equalityI) (simp_all add: nth_view simple_new_def)
  with shape show ?thesis by (simp add: holds_def simple_new_def)
qed

section \<open>Operations in sequence, and what they promise\<close>

datatype 'a queue_op =
    Push_back 'a | Pop_front | Pop_back | Resize nat | Erase_front_range nat | Erase_back_range nat | Clear

definition done_with :: "'q result \<Rightarrow> (exception_t \<times> 'q) result" where
  "done_with r = bindR r (\<lambda>q. Inr (SUCCESS, q))"

primrec simple_step :: "'a \<Rightarrow> 'a cyclic_queue \<Rightarrow> 'a queue_op \<Rightarrow> (exception_t \<times> 'a cyclic_queue) result" where
  "simple_step d q (Push_back x) = Inr (simple_push_back q x)"
| "simple_step d q Pop_front = done_with (simple_pop_front d q)"
| "simple_step d q Pop_back = done_with (simple_pop_back d q)"
| "simple_step d q (Resize n) = Inr (simple_resize d q n)"
| "simple_step d q (Erase_front_range n) = done_with (simple_erase_front_range d q n)"
| "simple_step d q (Erase_back_range n) = done_with (simple_erase_back_range d q n)"
| "simple_step d q Clear = done_with (simple_clear d q)"

primrec nontrivial_step ::
    "'a \<Rightarrow> 'a option cyclic_queue \<Rightarrow> 'a queue_op \<Rightarrow> (exception_t \<times> 'a option cyclic_queue) result" where
  "nontrivial_step d q (Push_back x) = nontrivial_push_back q x"
| "nontrivial_step d q Pop_front = done_with (nontrivial_pop_front q)"
| "nontrivial_step d q Pop_back = done_with (nontrivial_pop_back q)"
| "nontrivial_step d q (Resize n) = nontrivial_resize d q n"
| "nontrivial_step d q (Erase_front_range n) = done_with (nontrivial_erase_front_range q n)"
| "nontrivial_step d q (Erase_back_range n) = done_with (nontrivial_erase_back_range q n)"
| "nontrivial_step d q Clear = done_with (nontrivial_clear q)"

text \<open>The promise: a list of at most \<open>c\<close> elements.\<close>

primrec deque_step :: "'a \<Rightarrow> nat \<Rightarrow> 'a list \<Rightarrow> 'a queue_op \<Rightarrow> (exception_t \<times> 'a list) result" where
  "deque_step d c xs (Push_back x) = Inr (if length xs = c then (QUEUE_FULL, xs) else (SUCCESS, xs @ [x]))"
| "deque_step d c xs Pop_front = (if xs = [] then Inl Abort else Inr (SUCCESS, tl xs))"
| "deque_step d c xs Pop_back = (if xs = [] then Inl Abort else Inr (SUCCESS, butlast xs))"
| "deque_step d c xs (Resize n) =
     Inr (if n > c then (RESOURCE_EXHAUSTION, xs)
          else (SUCCESS, take n xs @ replicate (n - length xs) d))"
| "deque_step d c xs (Erase_front_range n) =
     (if n > length xs then Inl Abort else Inr (SUCCESS, drop n xs))"
| "deque_step d c xs (Erase_back_range n) =
     (if n > length xs then Inl Abort else Inr (SUCCESS, take (length xs - n) xs))"
| "deque_step d c xs Clear = Inr (SUCCESS, [])"

fun run_ops ::
    "('q \<Rightarrow> 'a queue_op \<Rightarrow> (exception_t \<times> 'q) result) \<Rightarrow> 'q \<Rightarrow> 'a queue_op list \<Rightarrow> (exception_t list \<times> 'q) result"
where
  "run_ops step q [] = Inr ([], q)"
| "run_ops step q (x # xs) =
     bindR (step q x) (\<lambda>(err, q'). bindR (run_ops step q' xs) (\<lambda>(errs, q''). Inr (err # errs, q'')))"

definition head_or_abort :: "'a list \<Rightarrow> 'a result" where
  "head_or_abort xs = (case xs of [] \<Rightarrow> Inl Abort | x # _ \<Rightarrow> Inr x)"

locale cyclic_deque =
  fixes step :: "'q \<Rightarrow> 'a queue_op \<Rightarrow> (exception_t \<times> 'q) result"
    and first_of :: "'q \<Rightarrow> 'a result"
    and last_of :: "'q \<Rightarrow> 'a result"
    and represents :: "'q \<Rightarrow> 'a list \<Rightarrow> bool"
    and dflt :: 'a
    and c :: nat
  assumes step_ok: "represents q xs \<Longrightarrow>
      rel_sum (=) (rel_prod (=) represents) (step q x) (deque_step dflt c xs x)"
    and first_ok: "represents q xs \<Longrightarrow> first_of q = head_or_abort xs"
    and last_ok: "represents q xs \<Longrightarrow> last_of q = head_or_abort (rev xs)"
begin

lemma run_ok:
  "represents q xs \<Longrightarrow>
   rel_sum (=) (rel_prod (=) represents) (run_ops step q ops) (run_ops (deque_step dflt c) xs ops)"
proof (induction ops arbitrary: q xs)
  case (Cons x ops)
  from step_ok [OF Cons.prems, of x] show ?case
  proof (cases rule: rel_sum.cases)
    case (2 r s)
    then obtain err q' xs' where *: "step q x = Inr (err, q')" "deque_step dflt c xs x = Inr (err, xs')"
        "represents q' xs'"
      by (cases r; cases s) auto
    from Cons.IH [OF this(3)] show ?thesis
      by (cases rule: rel_sum.cases) (auto simp: *(1,2))
  qed simp
qed simp

lemma run_Inr:
  assumes "represents q xs" and "run_ops (deque_step dflt c) xs ops = Inr (errs, ys)"
  shows "\<exists>q'. run_ops step q ops = Inr (errs, q') \<and> represents q' ys \<and>
    first_of q' = head_or_abort ys \<and> last_of q' = head_or_abort (rev ys)"
proof -
  obtain q' where "run_ops step q ops = Inr (errs, q')" "represents q' ys"
    using run_ok [OF assms(1), of ops] assms(2) by (cases "run_ops step q ops") auto
  then show ?thesis using first_ok last_ok by blast
qed

lemma run_Inl:
  assumes "represents q xs" and "run_ops (deque_step dflt c) xs ops = Inl e"
  shows "run_ops step q ops = Inl e"
  using run_ok [OF assms(1), of ops] assms(2) by (cases "run_ops step q ops") auto

end

section \<open>Both queues keep the promise\<close>

definition simple_represents :: "'a \<Rightarrow> nat \<Rightarrow> 'a cyclic_queue \<Rightarrow> 'a list \<Rightarrow> bool" where
  "simple_represents d c q xs \<longleftrightarrow> holds d q xs \<and> q_cap q = c"

definition nontrivial_represents :: "nat \<Rightarrow> 'a option cyclic_queue \<Rightarrow> 'a list \<Rightarrow> bool" where
  "nontrivial_represents c q xs \<longleftrightarrow> holds None q (map Some xs) \<and> q_cap q = c"

lemma holds_cut:
  assumes "holds d q xs" and "n \<le> length xs"
  shows "holds d ((defaultize_range d q n (length xs - n))\<lparr>q_sz := n\<rparr>) (take n xs)"
proof -
  note q = holds_shape [OF assms(1)]
  let ?q = "defaultize_range d q n (length xs - n)"
  have "view ?q = take n (view q) @ replicate (length xs - n) d @ drop (n + (length xs - n)) (view q)"
    using q assms(2) by (intro view_defaultize) simp_all
  also have "\<dots> = take n xs @ replicate (q_cap q - n) d"
    using assms q by (simp add: holds_def replicate_add [symmetric])
  finally have "view (?q\<lparr>q_sz := n\<rparr>) = take n xs @ replicate (q_cap q - n) d"
    by (simp add: view_def to_index_def)
  then show ?thesis using q assms(2) by (simp add: holds_def shape_ok_def)
qed

lemma holds_grow:
  assumes "holds d q xs" and "length xs \<le> n" and "n \<le> q_cap q"
  shows "holds d (q\<lparr>q_sz := n\<rparr>) (xs @ replicate (n - length xs) d)"
proof -
  have "view (q\<lparr>q_sz := n\<rparr>) = view q" by (simp add: view_def to_index_def)
  then show ?thesis
    using assms by (simp add: holds_def shape_ok_def replicate_add [symmetric])
qed

lemma holds_drop:
  assumes "holds d q xs" and "n \<le> length xs"
  shows "holds d ((defaultize_range d q 0 n)\<lparr>q_off := q_off q + of_nat n, q_sz := length xs - n\<rparr>) (drop n xs)"
proof -
  note q = holds_shape [OF assms(1)]
  let ?q = "defaultize_range d q 0 n"
  have "view ?q = take 0 (view q) @ replicate n d @ drop (0 + n) (view q)"
    using q assms(2) by (intro view_defaultize) simp_all
  also have "\<dots> = replicate n d @ drop n xs @ replicate (q_cap ?q - n - length (drop n xs)) d"
    using assms q by (simp add: holds_def)
  finally have "holds d (?q\<lparr>q_off := q_off ?q + of_nat n, q_sz := length (drop n xs)\<rparr>) (drop n xs)"
    using q assms(2) by (intro holds_advance) (simp_all add: shape_ok_def)
  then show ?thesis by simp
qed

interpretation simple_queue: cyclic_deque "simple_step d" simple_front simple_back "simple_represents d c" d c
  for d c
proof unfold_locales
  fix q xs
  assume "simple_represents d c q xs"
  then have h: "holds d q xs" and c: "q_cap q = c" by (simp_all add: simple_represents_def)
  note q = holds_shape [OF h]
  show "simple_front q = head_or_abort xs"
    using holds_slot [OF h, of 0] q by (auto simp: simple_front_def head_or_abort_def split: list.split)
  show "simple_back q = head_or_abort (rev xs)"
    using holds_slot [OF h, of "length xs - 1"] q
    by (cases xs rule: rev_cases) (auto simp: simple_back_def head_or_abort_def)
  show "rel_sum (=) (rel_prod (=) (simple_represents d c)) (simple_step d q x) (deque_step d c xs x)" for x
  proof (cases x)
    case (Push_back a)
    then show ?thesis
      using holds_write [OF h, of a] q c h by (auto simp: simple_push_back_def simple_represents_def)
  next
    case Pop_front
    then show ?thesis
      using holds_blank_first [of d q] h q c
      by (cases xs) (auto simp: done_with_def simple_pop_front_def simple_represents_def)
  next
    case Pop_back
    then show ?thesis
      using holds_blank_last [of d q] h q c
      by (cases xs rule: rev_cases) (auto simp: done_with_def simple_pop_back_def simple_represents_def)
  next
    case (Resize n)
    then show ?thesis
      using holds_cut [OF h, of n] holds_grow [OF h, of n] q c h
      by (auto simp: simple_resize_def simple_represents_def)
  next
    case (Erase_front_range n)
    then show ?thesis
      using holds_drop [OF h, of n] q c
      by (auto simp: done_with_def simple_erase_front_range_def simple_represents_def)
  next
    case (Erase_back_range n)
    then show ?thesis
      using holds_cut [OF h, of "length xs - n"] holds_grow [OF h, of "length xs - n"] q c h
      by (auto simp: done_with_def simple_erase_back_range_def simple_resize_def simple_represents_def)
  next
    case Clear
    then show ?thesis
      using holds_cut [OF h, of 0] holds_grow [OF h, of 0] q c h
      by (auto simp: done_with_def simple_clear_def simple_resize_def simple_represents_def)
  qed
qed

text \<open>Destroying and constructing a range of slots.\<close>

definition same_place :: "'a cyclic_queue \<Rightarrow> 'a cyclic_queue \<Rightarrow> bool" where
  "same_place q q' \<longleftrightarrow> q_off q' = q_off q \<and> q_sz q' = q_sz q \<and> q_cap q' = q_cap q \<and>
     length (q_arr q') = length (q_arr q)"

lemma same_place_index [simp]: "same_place q q' \<Longrightarrow> to_index q' i = to_index q i"
  by (simp add: same_place_def to_index_def)

lemma same_place_shape: "same_place q q' \<Longrightarrow> shape_ok q' = shape_ok q"
  by (simp add: same_place_def shape_ok_def)

lemma view_update_arr:
  assumes "shape_ok q" and "i < q_cap q"
  shows "view (q\<lparr>q_arr := (q_arr q)[to_index q i := x]\<rparr>) = (view q)[i := x]"
  using view_update [where n = "q_sz q" and x = x, OF assms] by simp

lemma take_replicate_Suc:
  "v + n < length xs \<Longrightarrow>
   (take v xs @ replicate n d @ drop (v + n) xs)[v + n := d] = take v xs @ replicate (Suc n) d @ drop (v + Suc n) xs"
  by (simp add: list_update_append min_def replicate_append_same [symmetric] Cons_nth_drop_Suc [symmetric])

lemma dispatch_destroy_ok:
  assumes "shape_ok q" and "v + n \<le> q_cap q" and "\<forall>i. v \<le> i \<and> i < v + n \<longrightarrow> view q ! i \<noteq> None"
  shows "\<exists>q'. dispatch_destroy q v n = Inr q' \<and> same_place q q' \<and>
    view q' = take v (view q) @ replicate n None @ drop (v + n) (view q)"
  using assms(2,3)
proof (induction n)
  case (Suc n)
  then obtain q' where q': "dispatch_destroy q v n = Inr q'" "same_place q q'"
      "view q' = take v (view q) @ replicate n None @ drop (v + n) (view q)"
    by auto
  then have "shape_ok q'" "v + n < q_cap q'"
    using assms(1) Suc.prems(1) by (auto simp: same_place_shape) (simp add: same_place_def)
  moreover have "view q' ! (v + n) \<noteq> None"
    using Suc.prems q'(3) by (simp add: nth_append)
  ultimately show ?case
    using q' Suc.prems(1) view_update_arr [of q' "v + n" None] nth_view [of "v + n" q']
      take_replicate_Suc [of v n "view q" None]
    by (auto simp: destroy_at_def same_place_def to_index_def)
qed (simp add: same_place_def)

lemma dispatch_default_initialize_ok:
  assumes "shape_ok q" and "v + n \<le> q_cap q" and "\<forall>i. v \<le> i \<and> i < v + n \<longrightarrow> view q ! i = None"
  shows "\<exists>q'. dispatch_default_initialize d q v n = Inr q' \<and> same_place q q' \<and>
    view q' = take v (view q) @ replicate n (Some d) @ drop (v + n) (view q)"
  using assms(2,3)
proof (induction n)
  case (Suc n)
  then obtain q' where q': "dispatch_default_initialize d q v n = Inr q'" "same_place q q'"
      "view q' = take v (view q) @ replicate n (Some d) @ drop (v + n) (view q)"
    by auto
  then have "shape_ok q'" "v + n < q_cap q'"
    using assms(1) Suc.prems(1) by (auto simp: same_place_shape) (simp add: same_place_def)
  moreover have "view q' ! (v + n) = None"
    using Suc.prems q'(3) by (simp add: nth_append)
  ultimately show ?case
    using q' Suc.prems(1) view_update_arr [of q' "v + n" "Some d"] nth_view [of "v + n" q']
      take_replicate_Suc [of v n "view q" "Some d"]
    by (auto simp: construct_at_def same_place_def to_index_def)
qed (simp add: same_place_def)

lemma nontrivial_pop_front_ok:
  assumes "nontrivial_represents c q (x # xs)"
  shows "\<exists>q'. nontrivial_pop_front q = Inr q' \<and> nontrivial_represents c q' xs"
proof -
  have h: "holds None q (Some x # map Some xs)" using assms by (simp add: nontrivial_represents_def)
  then show ?thesis
    using holds_slot [OF h, of 0] holds_shape [OF h] holds_blank_first [OF h] assms
    by (auto simp: nontrivial_pop_front_def destroy_at_def nontrivial_represents_def)
qed

lemma nontrivial_pop_back_ok:
  assumes "nontrivial_represents c q (xs @ [x])"
  shows "\<exists>q'. nontrivial_pop_back q = Inr q' \<and> nontrivial_represents c q' xs"
proof -
  have h: "holds None q (map Some xs @ [Some x])" using assms by (simp add: nontrivial_represents_def)
  then show ?thesis
    using holds_slot [OF h, of "length xs"] holds_shape [OF h] holds_blank_last [OF h] assms
    by (auto simp: nontrivial_pop_back_def destroy_at_def nontrivial_represents_def nth_append)
qed

lemma nontrivial_empty_pop:
  "nontrivial_represents c q [] \<Longrightarrow> nontrivial_pop_front q = Inl Abort \<and> nontrivial_pop_back q = Inl Abort"
  by (simp add: nontrivial_represents_def holds_def nontrivial_pop_front_def nontrivial_pop_back_def)

lemma nontrivial_erase_front_ok:
  "nontrivial_represents c q xs \<Longrightarrow>
   rel_sum (=) (nontrivial_represents c) (nontrivial_erase_front_range q n)
     (if n > length xs then Inl Abort else Inr (drop n xs))"
proof (induction n arbitrary: q xs)
  case (Suc n)
  show ?case
  proof (cases xs)
    case Nil
    then show ?thesis using Suc.prems by (simp add: nontrivial_empty_pop)
  next
    case (Cons x xs')
    then obtain q' where "nontrivial_pop_front q = Inr q'" "nontrivial_represents c q' xs'"
      using nontrivial_pop_front_ok [of c q x xs'] Suc.prems by auto
    then show ?thesis using Suc.IH [of q' xs'] Cons by (auto split: if_splits)
  qed
qed simp

lemma nontrivial_erase_back_ok:
  "nontrivial_represents c q xs \<Longrightarrow>
   rel_sum (=) (nontrivial_represents c) (nontrivial_erase_back_range q n)
     (if n > length xs then Inl Abort else Inr (take (length xs - n) xs))"
proof (induction n arbitrary: q xs)
  case (Suc n)
  show ?case
  proof (cases xs rule: rev_cases)
    case Nil
    then show ?thesis using Suc.prems by (simp add: nontrivial_empty_pop)
  next
    case (snoc xs' x)
    then obtain q' where "nontrivial_pop_back q = Inr q'" "nontrivial_represents c q' xs'"
      using nontrivial_pop_back_ok [of c q xs' x] Suc.prems by auto
    then show ?thesis using Suc.IH [of q' xs'] snoc by (auto split: if_splits)
  qed
qed simp

lemma nontrivial_resize_ok:
  assumes "nontrivial_represents c q xs"
  shows "rel_sum (=) (rel_prod (=) (nontrivial_represents c)) (nontrivial_resize d q n) (deque_step d c xs (Resize n))"
proof -
  have h: "holds None q (map Some xs)" and c: "q_cap q = c" using assms by (simp_all add: nontrivial_represents_def)
  then have q: "shape_ok q" "q_sz q = length xs" "length xs \<le> c"
      "view q = map Some xs @ replicate (c - length xs) None"
    using holds_shape [OF h] by (simp_all add: holds_def)
  have rep: "nontrivial_represents c (q'\<lparr>q_sz := n\<rparr>) ys"
    if "same_place q q'" "view q' = map Some ys @ replicate (c - n) None" "length ys = n" "n \<le> c" for q' ys
  proof -
    have "view (q'\<lparr>q_sz := n\<rparr>) = view q'" by (simp add: view_def to_index_def)
    then show ?thesis
      using that q(1) c by (simp add: nontrivial_represents_def holds_def shape_ok_def same_place_def)
  qed
  consider (full) "n > c" | (same) "n = length xs" | (grow) "length xs < n" "n \<le> c" | (cut) "n < length xs"
    using q(3) by linarith
  then show ?thesis
  proof cases
    case full
    then show ?thesis using c assms by (simp add: nontrivial_resize_def)
  next
    case same
    then show ?thesis using q c assms by (simp add: nontrivial_resize_def)
  next
    case grow
    have "\<forall>i. length xs \<le> i \<and> i < length xs + (n - length xs) \<longrightarrow> view q ! i = None"
      using grow q(4) by (auto simp: nth_append)
    then obtain q' where q': "dispatch_default_initialize d q (length xs) (n - length xs) = Inr q'" "same_place q q'"
        "view q' = take (length xs) (view q) @ replicate (n - length xs) (Some d) @ drop n (view q)"
      using dispatch_default_initialize_ok [OF q(1), of "length xs" "n - length xs" d] grow c by auto
    have "view q' = map Some (xs @ replicate (n - length xs) d) @ replicate (c - n) None"
      using q'(3) q(4) grow by simp
    then have "nontrivial_represents c (q'\<lparr>q_sz := n\<rparr>) (xs @ replicate (n - length xs) d)"
      using rep [OF q'(2)] grow by simp
    then show ?thesis using grow q'(1) q(2) c by (simp add: nontrivial_resize_def)
  next
    case cut
    have "\<forall>i. n \<le> i \<and> i < n + (length xs - n) \<longrightarrow> view q ! i \<noteq> None"
      using cut q(4) by (auto simp: nth_append)
    then obtain q' where q': "dispatch_destroy q n (length xs - n) = Inr q'" "same_place q q'"
        "view q' = take n (view q) @ replicate (length xs - n) None @ drop (length xs) (view q)"
      using dispatch_destroy_ok [OF q(1), of n "length xs - n"] cut c q(3) by auto
    have "view q' = map Some (take n xs) @ replicate (c - n) None"
      using q'(3) q(3,4) cut by (simp add: take_map replicate_add [symmetric])
    then have "nontrivial_represents c (q'\<lparr>q_sz := n\<rparr>) (take n xs)"
      using rep [OF q'(2)] cut q(3) by simp
    then show ?thesis using cut q'(1) q(2,3) c by (simp add: nontrivial_resize_def)
  qed
qed

lemma nontrivial_push_ok:
  assumes "nontrivial_represents c q xs"
  shows "rel_sum (=) (rel_prod (=) (nontrivial_represents c)) (nontrivial_push_back q x) (deque_step d c xs (Push_back x))"
proof -
  have h: "holds None q (map Some xs)" and c: "q_cap q = c" using assms by (simp_all add: nontrivial_represents_def)
  show ?thesis
    using holds_shape [OF h] holds_blank [OF h, of "length xs"] holds_write [OF h, of "Some x"] c assms
    by (auto simp: nontrivial_push_back_def construct_at_def nontrivial_represents_def)
qed

lemma done_with_rel:
  "rel_sum (=) R r s \<Longrightarrow> rel_sum (=) (rel_prod (=) R) (done_with r) (bindR s (\<lambda>xs. Inr (SUCCESS, xs)))"
  by (cases r; cases s) (auto simp: done_with_def)

interpretation nontrivial_queue: cyclic_deque "nontrivial_step d" nontrivial_front nontrivial_back
  "nontrivial_represents c" d c for d c
proof unfold_locales
  fix q :: "'a option cyclic_queue" and xs
  assume r: "nontrivial_represents c q xs"
  then have h: "holds None q (map Some xs)" by (simp add: nontrivial_represents_def)
  note q = holds_shape [OF h]
  show "nontrivial_front q = head_or_abort xs"
    using holds_slot [OF h, of 0] q
    by (auto simp: nontrivial_front_def head_or_abort_def launder_def split: list.split)
  show "nontrivial_back q = head_or_abort (rev xs)"
    using holds_slot [OF h, of "length xs - 1"] q
    by (cases xs rule: rev_cases) (auto simp: nontrivial_back_def head_or_abort_def launder_def nth_append)
  show "rel_sum (=) (rel_prod (=) (nontrivial_represents c)) (nontrivial_step d q x) (deque_step d c xs x)" for x
  proof (cases x)
    case (Push_back a)
    then show ?thesis using nontrivial_push_ok [OF r] by simp
  next
    case Pop_front
    have "rel_sum (=) (nontrivial_represents c) (nontrivial_pop_front q) (if xs = [] then Inl Abort else Inr (tl xs))"
      using nontrivial_erase_front_ok [OF r, of 1] by (cases xs; cases "nontrivial_pop_front q") (auto simp: drop_Suc)
    from done_with_rel [OF this] show ?thesis using Pop_front by (simp split: if_splits)
  next
    case Pop_back
    have "rel_sum (=) (nontrivial_represents c) (nontrivial_pop_back q) (if xs = [] then Inl Abort else Inr (butlast xs))"
      using nontrivial_erase_back_ok [OF r, of 1]
      by (cases xs rule: rev_cases; cases "nontrivial_pop_back q") auto
    from done_with_rel [OF this] show ?thesis using Pop_back by (simp split: if_splits)
  next
    case (Resize n)
    then show ?thesis using nontrivial_resize_ok [OF r] by simp
  next
    case (Erase_front_range n)
    then show ?thesis using done_with_rel [OF nontrivial_erase_front_ok [OF r, of n]] by (simp split: if_splits)
  next
    case (Erase_back_range n)
    then show ?thesis using done_with_rel [OF nontrivial_erase_back_ok [OF r, of n]] by (simp split: if_splits)
  next
    case Clear
    then show ?thesis
      using done_with_rel [OF nontrivial_erase_back_ok [OF r, of "length xs"]] q by (simp add: nontrivial_clear_def)
  qed
qed

section \<open>Properties\<close>

text \<open>
  Whatever is done to a \<open>simple_pow2_cyclic_queue\<close>, however far its offset has run or wrapped around, it
  answers as a list of bounded length: the same error codes, the same elements in the same order, and an
  abort exactly where an element is taken from too few.
\<close>

theorem simple_queue_refines:
  assumes "k < 64"
  shows "(case run_ops (deque_step d (2 ^ k)) [] ops of
      Inl e \<Rightarrow> run_ops (simple_step d) (simple_new d k) ops = Inl e
    | Inr (errs, xs) \<Rightarrow> \<exists>q. run_ops (simple_step d) (simple_new d k) ops = Inr (errs, q) \<and>
        map (simple_at q) [0..<q_sz q] = xs \<and> simple_front q = head_or_abort xs \<and>
        simple_back q = head_or_abort (rev xs))"
proof -
  have new: "simple_represents d (2 ^ k) (simple_new d k) []"
    using holds_new [OF assms, of d] by (simp add: simple_represents_def simple_new_def)
  have elems: "map (simple_at q) [0..<q_sz q] = xs" if "simple_represents d (2 ^ k) q xs" for q xs
    using that holds_slot [of d q xs] holds_shape [of d q xs]
    by (auto simp: simple_represents_def simple_at_def intro: nth_equalityI)
  show ?thesis
  proof (cases "run_ops (deque_step d (2 ^ k)) [] ops")
    case (Inl e)
    then show ?thesis using simple_queue.run_Inl [OF new] by simp
  next
    case (Inr r)
    obtain errs xs where "r = (errs, xs)" by (cases r)
    then show ?thesis using simple_queue.run_Inr [OF new, of ops errs xs] Inr elems by auto
  qed
qed

lemma simple_queue_refines_witness:
  "\<exists>q. run_ops (simple_step (0::nat)) (simple_new 0 1) [Push_back 5, Push_back 6, Push_back 7, Pop_front, Push_back 8] =
       Inr ([SUCCESS, SUCCESS, QUEUE_FULL, SUCCESS, SUCCESS], q) \<and>
     map (simple_at q) [0..<q_sz q] = [6, 8] \<and> simple_front q = Inr 6 \<and> simple_back q = Inr 8"
  using simple_queue_refines [of 1 "0::nat" "[Push_back 5, Push_back 6, Push_back 7, Pop_front, Push_back 8]"]
  by (simp add: head_or_abort_def)

text \<open>
  C24: The queue that constructs its elements in raw storage does the same, for elements whose constructors do not throw, and in every sequence of
  operations it constructs an object only in a slot without one and destroys or reads only objects that are
  there.
\<close>

theorem nontrivial_queue_refines:
  assumes "k < 64"
  shows "(case run_ops (deque_step d (2 ^ k)) [] ops of
      Inl e \<Rightarrow> run_ops (nontrivial_step d) (nontrivial_new k) ops = Inl e \<and> e = Abort
    | Inr (errs, xs) \<Rightarrow> \<exists>q. run_ops (nontrivial_step d) (nontrivial_new k) ops = Inr (errs, q) \<and>
        map (nontrivial_at q) [0..<q_sz q] = map Inr xs \<and> nontrivial_front q = head_or_abort xs \<and>
        nontrivial_back q = head_or_abort (rev xs))"
proof -
  have new: "nontrivial_represents (2 ^ k) (nontrivial_new k) []"
    using holds_new [OF assms, of None] by (simp add: nontrivial_represents_def simple_new_def nontrivial_new_def)
  have elems: "map (nontrivial_at q) [0..<q_sz q] = map Inr xs" if "nontrivial_represents (2 ^ k) q xs" for q and xs :: "'a list"
    using that holds_slot [of None q "map Some xs"] holds_shape [of None q "map Some xs"]
    by (auto simp: nontrivial_represents_def nontrivial_at_def launder_def intro!: nth_equalityI)
  have abort: "e = Abort" if "run_ops (deque_step d c) xs ops = Inl e" for e c and xs :: "'a list"
    using that
  proof (induction ops arbitrary: xs)
    case (Cons x ops)
    then show ?case by (cases x) (auto simp: bindR_eq_Inl split: if_splits)
  qed simp
  show ?thesis
  proof (cases "run_ops (deque_step d (2 ^ k)) [] ops")
    case (Inl e)
    then show ?thesis using nontrivial_queue.run_Inl [OF new] abort by simp
  next
    case (Inr r)
    obtain errs xs where "r = (errs, xs)" by (cases r)
    then show ?thesis using nontrivial_queue.run_Inr [OF new, of d ops errs xs] Inr elems by auto
  qed
qed

lemma nontrivial_queue_refines_witness:
  "run_ops (nontrivial_step (0::nat)) (nontrivial_new 1) [Push_back 5, Resize 2, Erase_front_range 2, Pop_back] = Inl Abort"
  using nontrivial_queue_refines [of 1 "0::nat" "[Push_back 5, Resize 2, Erase_front_range 2, Pop_back]"] by simp

end
