(* ===== verification/Mailbox_Control.thy ===== *)
theory Mailbox_Control
  imports Temporal_Set Cyclic_Queue Packet_Model
begin

text \<open>
  Two controllers of \<open>internal_rest/network_kernel_mailbox_impl1.h\<close> that keep a set of recent ids:
  \<open>InBoundIDController\<close>, which refuses a packet that has come before, and \<open>RetransmissionController\<close>, which
  keeps the packets that were sent until they are due and gives back those that no acknowledgement came for.
  The clock is an argument of the operations that read it, an integer: the 64-bit nanoseconds of \<open>steady_clock\<close> do not reach their end. A factory that throws the code \<open>e\<close> gives \<open>Inr (Inl e)\<close>.
\<close>

section \<open>InBoundIDController\<close>

fun thru_loop ::
    "('s \<Rightarrow> 'k \<Rightarrow> bool result option) \<Rightarrow> ('s \<Rightarrow> 'k \<Rightarrow> 's result option) \<Rightarrow> 's \<Rightarrow> 'k list \<Rightarrow>
     ((exception_t + bool) list \<times> 's) result option"
where
  "thru_loop contains ins s [] = Some (Inr ([], s))"
| "thru_loop contains ins s (k # ks) =
     bindO (contains s k) (\<lambda>seen.
       if seen then bindO (thru_loop contains ins s ks) (\<lambda>(op, s). Some (Inr (Inr False # op, s)))
       else bindO (ins s k) (\<lambda>s.
            bindO (thru_loop contains ins s ks) (\<lambda>(op, s). Some (Inr (Inr True # op, s)))))"

record inbound_id_controller =
  id_hashset :: "kind_global_packet_id node_set"
  id_consume_sz :: nat

definition inbound_thru ::
    "(kind_global_packet_id \<Rightarrow> nat) \<Rightarrow> inbound_id_controller \<Rightarrow> kind_global_packet_id list \<Rightarrow>
     ((exception_t + bool) list \<times> inbound_id_controller) result option"
where
  "inbound_thru hasher c ids =
     (if length ids > id_consume_sz c then Some (Inl Abort)
      else
        bindO (thru_loop (temporal_contains hasher) (temporal_insert hasher) (id_hashset c) ids) (\<lambda>(op, s).
          Some (Inr (op, c\<lparr>id_hashset := s\<rparr>))))"

definition shift_down :: "nat \<Rightarrow> nat \<Rightarrow> nat result" where
  "shift_down x n = (if n < 64 then Inr (x div 2 ^ n) else Inl Bad_shift)"

definition get_inbound_id_controller :: "nat \<Rightarrow> nat \<Rightarrow> (exception_t + inbound_id_controller) result" where
  "get_inbound_id_controller idhashset_cap consume_factor =
     (if \<not> (1 \<le> idhashset_cap \<and> idhashset_cap \<le> 2 ^ 25) then Inr (Inl INVALID_ARGUMENT)
      else
        bindR (shift_down idhashset_cap consume_factor) (\<lambda>tentative_consume_sz.
        bindR (temporal_new idhashset_cap) (\<lambda>s.
          Inr (Inr \<lparr>id_hashset = s, id_consume_sz = max tentative_consume_sz 1\<rparr>))))"

section \<open>RetransmissionController\<close>

record queued_packet =
  pkt :: packet
  queued_time :: int

record retransmission_controller =
  pkt_deque :: "queued_packet option cyclic_queue"
  acked_id_hashset :: "global_packet_id node_set"
  transmission_delay_time :: int
  max_retransmission_sz :: nat
  pkt_deque_capacity :: nat
  retriable_pkt_map_cap :: nat
  retransmission_consume_sz :: nat

definition get_now :: "queued_packet option cyclic_queue \<Rightarrow> int \<Rightarrow> int result" where
  "get_now q clock =
     (if q_sz q = 0 then Inr clock
      else bindR (nontrivial_back q) (\<lambda>b. Inr (max (queued_time b) clock)))"

fun add_retriables_loop ::
    "nat \<Rightarrow> nat \<Rightarrow> int \<Rightarrow> queued_packet option cyclic_queue \<Rightarrow> packet list \<Rightarrow>
     (exception_t list \<times> queued_packet option cyclic_queue) result"
where
  "add_retriables_loop map_cap max_sz now q [] = Inr ([], q)"
| "add_retriables_loop map_cap max_sz now q (p # ps) =
     (if q_sz q \<ge> map_cap then
        bindR (add_retriables_loop map_cap max_sz now q ps) (\<lambda>(errs, q). Inr (SOCKET_QUEUE_FULL # errs, q))
      else if unat (retransmission_count p) \<ge> max_sz then
        bindR (add_retriables_loop map_cap max_sz now q ps) (\<lambda>(errs, q).
          Inr (SOCKET_MAX_RETRANSMISSION_REACHED # errs, q))
      else
        bindR (nontrivial_push_back q
            \<lparr>pkt = p\<lparr>retransmission_count := retransmission_count p + 1\<rparr>, queued_time = now\<rparr>) (\<lambda>(err, q).
        bindR (dg_nothrow err) (\<lambda>_.
        bindR (add_retriables_loop map_cap max_sz now q ps) (\<lambda>(errs, q). Inr (SUCCESS # errs, q)))))"

definition internal_add_retriables ::
    "retransmission_controller \<Rightarrow> int \<Rightarrow> packet list \<Rightarrow> nat \<Rightarrow> (exception_t list \<times> retransmission_controller) result"
where
  "internal_add_retriables c clock ps map_cap =
     (if length ps > retransmission_consume_sz c then Inl Abort
      else
        bindR (get_now (pkt_deque c) clock) (\<lambda>now.
        bindR (add_retriables_loop map_cap (max_retransmission_sz c) now (pkt_deque c) ps) (\<lambda>(errs, q).
          Inr (errs, c\<lparr>pkt_deque := q\<rparr>))))"

definition add_retriables ::
    "retransmission_controller \<Rightarrow> int \<Rightarrow> packet list \<Rightarrow> (exception_t list \<times> retransmission_controller) result"
where
  "add_retriables c clock ps =
     internal_add_retriables c clock ps (min (retriable_pkt_map_cap c) (q_cap (pkt_deque c)))"

definition reentrant_add_retriables ::
    "retransmission_controller \<Rightarrow> int \<Rightarrow> packet list \<Rightarrow> (exception_t list \<times> retransmission_controller) result"
where
  "reentrant_add_retriables c clock ps = internal_add_retriables c clock ps (q_cap (pkt_deque c))"

fun ack_loop ::
    "('s \<Rightarrow> 'k \<Rightarrow> 's result option) \<Rightarrow> 's \<Rightarrow> 'k list \<Rightarrow> (exception_t list \<times> 's) result option"
where
  "ack_loop ins s [] = Some (Inr ([], s))"
| "ack_loop ins s (k # ks) =
     bindO (ins s k) (\<lambda>s. bindO (ack_loop ins s ks) (\<lambda>(errs, s). Some (Inr (SUCCESS # errs, s))))"

definition ack_retriables ::
    "(global_packet_id \<Rightarrow> nat) \<Rightarrow> retransmission_controller \<Rightarrow> global_packet_id list \<Rightarrow>
     (exception_t list \<times> retransmission_controller) result option"
where
  "ack_retriables hasher c ids =
     (if length ids > retransmission_consume_sz c then Some (Inl Abort)
      else
        bindO (ack_loop (temporal_insert hasher) (acked_id_hashset c) ids) (\<lambda>(errs, s).
          Some (Inr (errs, c\<lparr>acked_id_hashset := s\<rparr>))))"

text \<open>\<open>std::lower_bound\<close> requires a range on which the predicate holds first and then never again.\<close>

definition lower_bound :: "('a \<Rightarrow> bool) \<Rightarrow> 'a list \<Rightarrow> nat result" where
  "lower_bound P xs =
     (if list_all (\<lambda>x. \<not> P x) (dropWhile P xs) then Inr (length (takeWhile P xs)) else Inl Bad_range)"

fun read_all :: "'a result list \<Rightarrow> 'a list result" where
  "read_all [] = Inr []"
| "read_all (r # rs) = bindR r (\<lambda>x. bindR (read_all rs) (\<lambda>xs. Inr (x # xs)))"

text \<open>\<open>left\<close> is \<open>barred_sz - iterated_sz\<close>. The result has the final \<open>iterated_sz\<close>.\<close>

fun retriables_loop ::
    "('s \<Rightarrow> global_packet_id \<Rightarrow> bool result option) \<Rightarrow> 's \<Rightarrow> queued_packet option cyclic_queue \<Rightarrow> nat \<Rightarrow>
     nat \<Rightarrow> nat \<Rightarrow> nat \<Rightarrow> (packet list \<times> nat) result option"
where
  "retriables_loop contains s q output_cap sz iterated_sz 0 = Some (Inr ([], iterated_sz))"
| "retriables_loop contains s q output_cap sz iterated_sz (Suc left) =
     (if sz = output_cap then Some (Inr ([], iterated_sz))
      else
        bindO (endO (nontrivial_at q iterated_sz)) (\<lambda>x.
        bindO (contains s (packet_id (pkt x))) (\<lambda>acked.
          if acked then retriables_loop contains s q output_cap sz (Suc iterated_sz) left
          else bindO (retriables_loop contains s q output_cap (Suc sz) (Suc iterated_sz) left) (\<lambda>(out, i).
            Some (Inr (pkt x # out, i))))))"

definition get_retriables ::
    "(global_packet_id \<Rightarrow> nat) \<Rightarrow> retransmission_controller \<Rightarrow> int \<Rightarrow> nat \<Rightarrow>
     (packet list \<times> retransmission_controller) result option"
where
  "get_retriables hasher c clock output_cap =
     (let time_bar = clock - transmission_delay_time c;
          q = pkt_deque c
      in bindO (endO (read_all (map (nontrivial_at q) [0..<q_sz q]))) (\<lambda>xs.
         bindO (endO (lower_bound (\<lambda>x. queued_time x < time_bar) xs)) (\<lambda>barred_sz.
         bindO (retriables_loop (temporal_contains hasher) (acked_id_hashset c) q output_cap 0 0 barred_sz)
           (\<lambda>(out, iterated_sz).
         bindO (endO (nontrivial_erase_front_range q iterated_sz)) (\<lambda>q.
           Some (Inr (out, c\<lparr>pkt_deque := q\<rparr>)))))))"

definition get_retransmission_controller ::
    "int \<Rightarrow> nat \<Rightarrow> nat \<Rightarrow> nat \<Rightarrow> nat \<Rightarrow> nat \<Rightarrow> (exception_t + retransmission_controller) result"
where
  "get_retransmission_controller transmission_delay max_sz idhashset_cap retransmission_queue_cap map_cap
       consume_factor =
     (if \<not> (1 \<le> transmission_delay \<and> transmission_delay \<le> 60000000000) then Inr (Inl INVALID_ARGUMENT)
      else if max_sz > 256 then Inr (Inl INVALID_ARGUMENT)
      else if \<not> (1 \<le> idhashset_cap \<and> idhashset_cap \<le> 2 ^ 25) then Inr (Inl INVALID_ARGUMENT)
      else if \<not> (1 \<le> retransmission_queue_cap \<and> retransmission_queue_cap \<le> 2 ^ 25) then
        Inr (Inl INVALID_ARGUMENT)
      else if \<not> (1 \<le> map_cap \<and> map_cap \<le> 2 ^ 30) then Inr (Inl INVALID_ARGUMENT)
      else
        bindR (shift_down retransmission_queue_cap consume_factor) (\<lambda>tentative_retransmission_consume_sz.
        bindR (shift_down idhashset_cap consume_factor) (\<lambda>tentative_idhashset_consume_sz.
        bindR (ceil2 retransmission_queue_cap) (\<lambda>upqueue_cap.
        bindR (temporal_new idhashset_cap) (\<lambda>s.
          Inr (Inr
            \<lparr>pkt_deque = nontrivial_new (ulog2 upqueue_cap),
             acked_id_hashset = s,
             transmission_delay_time = transmission_delay,
             max_retransmission_sz = max_sz,
             pkt_deque_capacity = retransmission_queue_cap,
             retriable_pkt_map_cap = map_cap,
             retransmission_consume_sz =
               max (min tentative_retransmission_consume_sz tentative_idhashset_consume_sz) 1\<rparr>))))))"

section \<open>Ids that have come before\<close>

text \<open>The answers in terms of the keys that are remembered.\<close>

fun pass :: "nat \<Rightarrow> 'k list \<Rightarrow> 'k list \<Rightarrow> bool list \<times> 'k list" where
  "pass room w [] = ([], w)"
| "pass room w (k # ks) =
     (if k \<in> set w then apfst (Cons False) (pass room w ks)
      else apfst (Cons True) (pass room (snd (remember room w k)) ks))"

lemma pass_append:
  "pass room w (xs @ ys) =
     (fst (pass room w xs) @ fst (pass room (snd (pass room w xs)) ys), snd (pass room (snd (pass room w xs)) ys))"
  by (induction xs arbitrary: w) auto

lemma length_pass [simp]: "length (fst (pass room w xs)) = length xs"
  by (induction xs arbitrary: w) auto

lemma set_pass: "set (snd (pass room w xs)) \<subseteq> set w \<union> set xs"
proof (induction xs arbitrary: w)
  case (Cons k ks)
  show ?case using Cons.IH [of w] Cons.IH [of "snd (remember room w k)"] set_remember [of room w k]
    by auto
qed simp

lemma pass_length: "length w \<le> room \<Longrightarrow> 0 < room \<Longrightarrow> length (snd (pass room w xs)) \<le> room"
  by (induction xs arbitrary: w) (auto simp: remember_length)

lemma pass_keeps:
  assumes "k \<in> set w" and "length w \<le> room" and "younger w k + length xs < room"
  shows "k \<in> set (snd (pass room w xs))"
  using assms
proof (induction xs arbitrary: w)
  case (Cons x xs)
  show ?case
  proof (cases "x \<in> set w")
    case True
    then show ?thesis using Cons.IH [OF Cons.prems(1,2)] Cons.prems(3) by auto
  next
    case False
    have "k \<in> set (snd (remember room w x)) \<and> younger (snd (remember room w x)) k = Suc (younger w k)"
      using Cons.prems False by (intro remember_other) auto
    moreover have "length (snd (remember room w x)) \<le> room" using Cons.prems by (intro remember_length) auto
    ultimately show ?thesis using Cons.IH [of "snd (remember room w x)"] Cons.prems(3) False
      by auto
  qed
qed simp

lemma pass_nth:
  "i < length xs \<Longrightarrow> fst (pass room w xs) ! i \<longleftrightarrow> xs ! i \<notin> set (snd (pass room w (take i xs)))"
proof -
  assume i: "i < length xs"
  then have xs: "xs = take i xs @ xs ! i # drop (Suc i) xs" by (rule id_take_nth_drop)
  have "fst (pass room w (take i xs @ xs ! i # drop (Suc i) xs)) ! i \<longleftrightarrow> xs ! i \<notin> set (snd (pass room w (take i xs)))"
    using i by (simp add: pass_append nth_append)
  then show ?thesis using xs by simp
qed

lemma pass_replay:
  assumes "0 < room" and "i < j" and "j < length xs" and "xs ! i = xs ! j" and "fst (pass room [] xs) ! i"
    and "j - i \<le> room"
  shows "\<not> fst (pass room [] xs) ! j"
proof -
  let ?w = "snd (pass room [] (take i xs))"
  let ?mid = "take (j - Suc i) (drop (Suc i) xs)"
  let ?v = "snd (remember room ?w (xs ! i))"
  have new: "xs ! i \<notin> set ?w" using pass_nth [of i xs room "[]"] assms by simp
  have "length ?w \<le> room" using pass_length [of "[]" room "take i xs"] assms(1) by simp
  with remember_new [OF new this assms(1)] remember_length [OF this assms(1), of "xs ! i"]
  have v: "xs ! i \<in> set ?v" "younger ?v (xs ! i) = 0" "length ?v \<le> room" by auto
  have "take j xs = take (Suc i) xs @ ?mid" using assms(2) take_add [of "Suc i" "j - Suc i" xs] by simp
  also have "\<dots> = (take i xs @ [xs ! i]) @ ?mid" using assms(2,3) by (simp add: take_Suc_conv_app_nth)
  finally have "snd (pass room [] (take j xs)) = snd (pass room ?v ?mid)"
    using new by (simp add: pass_append)
  moreover have "xs ! i \<in> set (snd (pass room ?v ?mid))"
    using v assms by (intro pass_keeps) auto
  ultimately show ?thesis using pass_nth [of j xs room "[]"] assms by simp
qed

context recent_set
begin

lemma thru_loop_ok:
  "ok s \<Longrightarrow> \<exists>s'. thru_loop contains ins s ks = Some (Inr (map Inr (fst (pass (room s) (window s) ks)), s'))
     \<and> ok s' \<and> room s' = room s \<and> window s' = snd (pass (room s) (window s) ks)"
proof (induction ks arbitrary: s)
  case (Cons k ks)
  show ?case
  proof (cases "k \<in> set (window s)")
    case True
    then show ?thesis using Cons.IH [OF Cons.prems] contains_eq [OF Cons.prems, of k]
      by auto
  next
    case False
    obtain s' where s': "ins s k = Some (Inr s')" "ok s'" "room s' = room s"
        "window s' = snd (remember (room s) (window s) k)"
      using ins_eq [OF Cons.prems, of k] by blast
    then show ?thesis using Cons.IH [OF s'(2)] contains_eq [OF Cons.prems, of k] False
      by auto
  qed
qed simp

lemma ack_loop_ok:
  "ok s \<Longrightarrow> \<exists>s'. ack_loop ins s ks = Some (Inr (replicate (length ks) SUCCESS, s'))
     \<and> ok s' \<and> room s' = room s \<and> window s' = fold (\<lambda>k w. snd (remember (room s) w k)) ks (window s)"
proof (induction ks arbitrary: s)
  case (Cons k ks)
  obtain s' where s': "ins s k = Some (Inr s')" "ok s'" "room s' = room s"
      "window s' = snd (remember (room s) (window s) k)"
    using ins_eq [OF Cons.prems, of k] by blast
  then show ?case using Cons.IH [OF s'(2)] by auto
qed simp

end

fun run_thru ::
    "(kind_global_packet_id \<Rightarrow> nat) \<Rightarrow> inbound_id_controller \<Rightarrow> kind_global_packet_id list list \<Rightarrow>
     ((exception_t + bool) list \<times> inbound_id_controller) result option"
where
  "run_thru hasher c [] = Some (Inr ([], c))"
| "run_thru hasher c (ids # batches) =
     bindO (inbound_thru hasher c ids) (\<lambda>(op, c).
     bindO (run_thru hasher c batches) (\<lambda>(ops, c). Some (Inr (op @ ops, c))))"

abbreviation set_live :: "('k \<Rightarrow> nat) \<Rightarrow> 'k node_set \<Rightarrow> bool" where
  "set_live hasher s \<equiv> set_ok hasher s \<and> 0 < storage_cap s"

lemma run_thru_ok:
  assumes "set_live hasher (id_hashset c)" and "\<forall>ids \<in> set batches. length ids \<le> id_consume_sz c"
  shows "\<exists>c'. run_thru hasher c batches = Some (Inr (map Inr
      (fst (pass (storage_cap (id_hashset c)) (temporal_items (id_hashset c)) (concat batches))), c'))"
  using assms
proof (induction batches arbitrary: c)
  case (Cons ids batches)
  let ?s = "id_hashset c"
  obtain s' where s': "thru_loop (temporal_contains hasher) (temporal_insert hasher) ?s ids =
        Some (Inr (map Inr (fst (pass (storage_cap ?s) (temporal_items ?s) ids)), s'))" "set_live hasher s'"
      "storage_cap s' = storage_cap ?s" "temporal_items s' = snd (pass (storage_cap ?s) (temporal_items ?s) ids)"
    using temporal.thru_loop_ok [OF Cons.prems(1), of ids] by blast
  have "inbound_thru hasher c ids =
      Some (Inr (map Inr (fst (pass (storage_cap ?s) (temporal_items ?s) ids)), c\<lparr>id_hashset := s'\<rparr>))"
    using Cons.prems(2) s'(1) by (simp add: inbound_thru_def)
  with Cons.IH [of "c\<lparr>id_hashset := s'\<rparr>"] Cons.prems(2) s' show ?case by (auto simp: pass_append)
qed simp

lemma shift_down_Inr: "n < 64 \<Longrightarrow> shift_down x n = Inr (x div 2 ^ n)"
  by (simp add: shift_down_def)

lemma inbound_made:
  assumes "get_inbound_id_controller cap cf = Inr (Inr c)"
  shows "set_live hasher (id_hashset c)" "temporal_items (id_hashset c) = []" "cap \<le> storage_cap (id_hashset c)"
proof -
  have "temporal_new cap = Inr (id_hashset c)"
    using assms by (auto simp: get_inbound_id_controller_def bindR_eq_Inr split: if_splits)
  then show "set_live hasher (id_hashset c)" "temporal_items (id_hashset c) = []" "cap \<le> storage_cap (id_hashset c)"
    by (rule temporal_new_ok)+
qed

text \<open>
  C19: \<open>InBoundIDController\<close> lets every id through that has not come before, and refuses an id that it let
  through before as long as it is among the next \<open>idhashset_cap\<close> ids, in however many calls these come; the program is not aborted.
\<close>
theorem replay_refused:
  assumes "get_inbound_id_controller cap consume_factor = Inr (Inr c)"
    and "\<forall>ids \<in> set batches. length ids \<le> id_consume_sz c"
  shows "\<exists>ops c'. run_thru hasher c batches = Some (Inr (ops, c')) \<and>
    (let ids = concat batches
     in length ops = length ids \<and>
        (\<forall>i < length ids. ids ! i \<notin> set (take i ids) \<longrightarrow> ops ! i = Inr True) \<and>
        (\<forall>i j. i < j \<and> j < length ids \<and> ids ! i = ids ! j \<and> ops ! i = Inr True \<and> j - i \<le> cap \<longrightarrow>
           ops ! j = Inr False))"
proof -
  let ?ids = "concat batches" and ?room = "storage_cap (id_hashset c)"
  note made = inbound_made [OF assms(1)]
  obtain c' where run: "run_thru hasher c batches = Some (Inr (map Inr (fst (pass ?room [] ?ids)), c'))"
    using run_thru_ok [OF made(1) assms(2)] made(2) by auto
  have fresh: "fst (pass ?room [] ?ids) ! i" if "i < length ?ids" "?ids ! i \<notin> set (take i ?ids)" for i
    using that pass_nth [of i ?ids ?room "[]"] set_pass [of ?room "[]" "take i ?ids"] by auto
  have replay: "\<not> fst (pass ?room [] ?ids) ! j"
    if "i < j" "j < length ?ids" "?ids ! i = ?ids ! j" "fst (pass ?room [] ?ids) ! i" "j - i \<le> cap" for i j
    using that made(1,3) by (intro pass_replay [of _ i j]) auto
  show ?thesis
    unfolding Let_def
    by (intro exI [of _ "map Inr (fst (pass ?room [] ?ids))"] exI [of _ c'] conjI) (use run fresh replay in auto)
qed

section \<open>The packets that wait for an acknowledgement\<close>

text \<open>What the controller promises, on the list of the packets that wait and the list of the ids it remembers.\<close>

definition once_more :: "int \<Rightarrow> packet \<Rightarrow> queued_packet" where
  "once_more now p = \<lparr>pkt = p\<lparr>retransmission_count := retransmission_count p + 1\<rparr>, queued_time = now\<rparr>"

fun queue_up ::
    "nat \<Rightarrow> nat \<Rightarrow> int \<Rightarrow> queued_packet list \<Rightarrow> packet list \<Rightarrow> exception_t list \<times> queued_packet list"
where
  "queue_up map_cap max_sz now xs [] = ([], xs)"
| "queue_up map_cap max_sz now xs (p # ps) =
     (if length xs \<ge> map_cap then apfst (Cons SOCKET_QUEUE_FULL) (queue_up map_cap max_sz now xs ps)
      else if unat (retransmission_count p) \<ge> max_sz then
        apfst (Cons SOCKET_MAX_RETRANSMISSION_REACHED) (queue_up map_cap max_sz now xs ps)
      else apfst (Cons SUCCESS) (queue_up map_cap max_sz now (xs @ [once_more now p]) ps))"

definition stamp :: "queued_packet list \<Rightarrow> int \<Rightarrow> int" where
  "stamp xs clock = (if xs = [] then clock else max (queued_time (last xs)) clock)"

fun drain :: "('a \<Rightarrow> bool) \<Rightarrow> nat \<Rightarrow> 'a list \<Rightarrow> 'a list \<times> nat" where
  "drain acked n [] = ([], 0)"
| "drain acked n (x # xs) =
     (if n = 0 then ([], 0)
      else if acked x then apsnd Suc (drain acked n xs)
      else map_prod (Cons x) Suc (drain acked (n - 1) xs))"

lemma drain_take:
  "fst (drain acked n xs) = filter (Not \<circ> acked) (take (snd (drain acked n xs)) xs) \<and>
   snd (drain acked n xs) \<le> length xs \<and> length (fst (drain acked n xs)) \<le> n \<and>
   (length (fst (drain acked n xs)) = n \<or> snd (drain acked n xs) = length xs)"
  by (induction acked n xs rule: drain.induct) (auto simp: apsnd_def)

lemma drain_out: "fst (drain acked n xs) = take n (filter (Not \<circ> acked) xs)"
  by (induction acked n xs rule: drain.induct) (auto simp: take_Cons' apsnd_def)

text \<open>Packets come into the queue in the order of their time.\<close>

abbreviation in_time :: "queued_packet list \<Rightarrow> bool" where
  "in_time xs \<equiv> sorted (map queued_time xs)"

lemma stamp_latest: "in_time xs \<Longrightarrow> \<forall>x \<in> set xs. queued_time x \<le> stamp xs clock"
  by (cases xs rule: rev_cases) (auto simp: stamp_def sorted_append)

lemma queue_up_in_time:
  "in_time xs \<Longrightarrow> \<forall>x \<in> set xs. queued_time x \<le> now \<Longrightarrow> in_time (snd (queue_up map_cap max_sz now xs ps))"
proof (induction ps arbitrary: xs)
  case (Cons p ps)
  have "in_time (xs @ [once_more now p])" "\<forall>x \<in> set (xs @ [once_more now p]). queued_time x \<le> now"
    using Cons.prems by (simp_all add: sorted_append once_more_def)
  then show ?case using Cons.IH [of xs] Cons.IH [of "xs @ [once_more now p]"] Cons.prems by simp
qed simp

lemma late_first:
  "in_time xs \<Longrightarrow> x \<in> set (dropWhile (\<lambda>x. queued_time x < bar) xs) \<Longrightarrow> \<not> queued_time x < bar"
proof (induction xs)
  case (Cons y ys)
  show ?case
  proof (cases "queued_time y < bar")
    case True
    then show ?thesis using Cons by simp
  next
    case False
    then have "x \<in> set (y # ys)" using Cons.prems(2) by simp
    then have "queued_time y \<le> queued_time x" using Cons.prems(1) by auto
    then show ?thesis using False by linarith
  qed
qed simp

lemma lower_bound_in_time:
  assumes "in_time xs"
  shows "lower_bound (\<lambda>x. queued_time x < bar) xs = Inr (length (takeWhile (\<lambda>x. queued_time x < bar) xs))"
proof -
  have "list_all (\<lambda>x. \<not> queued_time x < bar) (dropWhile (\<lambda>x. queued_time x < bar) xs)"
    unfolding list_all_iff using late_first [OF assms] by blast
  then show ?thesis by (simp only: lower_bound_def if_True)
qed

section \<open>The queue of the controller holds them\<close>

lemma held_at:
  assumes "nontrivial_represents c q xs"
  shows "q_sz q = length xs" "i < length xs \<Longrightarrow> nontrivial_at q i = Inr (xs ! i)"
  using assms holds_shape [of None q "map Some xs"] holds_slot [of None q "map Some xs" i]
  by (auto simp: nontrivial_represents_def nontrivial_at_def launder_def)

lemma read_all_Inr: "read_all (map Inr xs) = Inr xs"
  by (induction xs) auto

lemma read_held:
  assumes "nontrivial_represents c q xs"
  shows "read_all (map (nontrivial_at q) [0..<q_sz q]) = Inr xs"
proof -
  have "map (nontrivial_at q) [0..<q_sz q] = map Inr xs"
    using held_at [OF assms] by (auto intro: nth_equalityI)
  then show ?thesis by (simp only: read_all_Inr)
qed

lemma get_now_held: "nontrivial_represents c q xs \<Longrightarrow> get_now q clock = Inr (stamp xs clock)"
  using held_at(1) [of c q xs] nontrivial_queue.last_ok [of c q xs]
  by (cases xs rule: rev_cases) (auto simp: get_now_def stamp_def head_or_abort_def)

lemma push_held:
  assumes "nontrivial_represents c q xs" and "length xs < c"
  obtains q' where "nontrivial_push_back q x = Inr (SUCCESS, q')" and "nontrivial_represents c q' (xs @ [x])"
  using nontrivial_push_ok [OF assms(1), of x] assms(2) by (cases "nontrivial_push_back q x") auto

lemma erase_held:
  assumes "nontrivial_represents c q xs" and "n \<le> length xs"
  obtains q' where "nontrivial_erase_front_range q n = Inr q'" and "nontrivial_represents c q' (drop n xs)"
  using nontrivial_erase_front_ok [OF assms(1), of n] assms(2) by (cases "nontrivial_erase_front_range q n") auto

lemma add_loop_held:
  assumes "nontrivial_represents c q xs" and "map_cap \<le> c"
  shows "\<exists>q'. add_retriables_loop map_cap max_sz now q ps = Inr (fst (queue_up map_cap max_sz now xs ps), q') \<and>
    nontrivial_represents c q' (snd (queue_up map_cap max_sz now xs ps))"
  using assms(1)
proof (induction ps arbitrary: q xs)
  case (Cons p ps)
  note sz = held_at(1) [OF Cons.prems]
  show ?case
  proof (cases "length xs \<ge> map_cap \<or> unat (retransmission_count p) \<ge> max_sz")
    case True
    then show ?thesis using Cons.IH [OF Cons.prems] sz by auto
  next
    case False
    obtain q' where "nontrivial_push_back q (once_more now p) = Inr (SUCCESS, q')"
        "nontrivial_represents c q' (xs @ [once_more now p])"
      using push_held [OF Cons.prems, of "once_more now p"] False assms(2) by auto
    then show ?thesis using Cons.IH [of q' "xs @ [once_more now p]"] False sz
      by (auto simp: once_more_def dg_nothrow_def is_failed_def)
  qed
qed simp

lemma retriables_loop_ok:
  assumes "\<And>k. contains s k = Some (Inr (k \<in> set w))" and "nontrivial_represents c q xs" and "iterated + left \<le> length xs" and "sz \<le> output_cap"
  shows "retriables_loop contains s q output_cap sz iterated left =
    (let r = drain (\<lambda>x. packet_id (pkt x) \<in> set w) (output_cap - sz) (take left (drop iterated xs))
     in Some (Inr (map pkt (fst r), iterated + snd r)))"
  using assms(3,4)
proof (induction left arbitrary: sz iterated)
  case (Suc left)
  have at: "nontrivial_at q iterated = Inr (xs ! iterated)" using held_at(2) [OF assms(2)] Suc.prems by simp
  have "take (Suc left) (drop iterated xs) = xs ! iterated # take left (drop (Suc iterated) xs)"
    using Suc.prems by (simp add: Cons_nth_drop_Suc [symmetric])
  then show ?case
    using Suc.IH [of "Suc iterated" sz] Suc.IH [of "Suc iterated" "Suc sz"] Suc.prems at assms(1)
    by (auto simp: Let_def apsnd_def)
qed simp

section \<open>Calls in sequence\<close>

datatype retransmission_call =
    Add_retriables "packet list"
  | Reentrant_add_retriables "packet list"
  | Ack_ids "global_packet_id list"
  | Get_retriables nat

datatype retransmission_answer = Codes "exception_t list" | Packets "packet list"

primrec retransmission_step ::
    "(global_packet_id \<Rightarrow> nat) \<Rightarrow> retransmission_controller \<Rightarrow> int \<Rightarrow> retransmission_call \<Rightarrow>
     (retransmission_answer \<times> retransmission_controller) result option"
where
  "retransmission_step hasher c clock (Add_retriables ps) =
     bindO (endO (add_retriables c clock ps)) (\<lambda>(errs, c). Some (Inr (Codes errs, c)))"
| "retransmission_step hasher c clock (Reentrant_add_retriables ps) =
     bindO (endO (reentrant_add_retriables c clock ps)) (\<lambda>(errs, c). Some (Inr (Codes errs, c)))"
| "retransmission_step hasher c clock (Ack_ids ids) =
     bindO (ack_retriables hasher c ids) (\<lambda>(errs, c). Some (Inr (Codes errs, c)))"
| "retransmission_step hasher c clock (Get_retriables n) =
     bindO (get_retriables hasher c clock n) (\<lambda>(out, c). Some (Inr (Packets out, c)))"

fun run_retransmission ::
    "(global_packet_id \<Rightarrow> nat) \<Rightarrow> retransmission_controller \<Rightarrow> (int \<times> retransmission_call) list \<Rightarrow>
     (retransmission_answer list \<times> retransmission_controller) result option"
where
  "run_retransmission hasher c [] = Some (Inr ([], c))"
| "run_retransmission hasher c ((clock, call) # calls) =
     bindO (retransmission_step hasher c clock call) (\<lambda>(a, c).
     bindO (run_retransmission hasher c calls) (\<lambda>(as, c). Some (Inr (a # as, c))))"

primrec call_ok :: "nat \<Rightarrow> retransmission_call \<Rightarrow> bool" where
  "call_ok n (Add_retriables ps) \<longleftrightarrow> length ps \<le> n"
| "call_ok n (Reentrant_add_retriables ps) \<longleftrightarrow> length ps \<le> n"
| "call_ok n (Ack_ids ids) \<longleftrightarrow> length ids \<le> n"
| "call_ok n (Get_retriables m) \<longleftrightarrow> True"

text \<open>
  The promise. The numbers are: the capacity of the queue, the smaller capacity for packets of the user, the limit
  of retransmissions, the delay, and how many ids are remembered.
\<close>

record promise =
  queue_room :: nat
  user_room :: nat
  retransmission_limit :: nat
  delay_time :: int
  id_room :: nat

definition overdue :: "int \<Rightarrow> queued_packet list \<Rightarrow> queued_packet list" where
  "overdue bar xs = takeWhile (\<lambda>x. queued_time x < bar) xs"

primrec promise_step ::
    "promise \<Rightarrow> queued_packet list \<times> global_packet_id list \<Rightarrow> int \<Rightarrow> retransmission_call \<Rightarrow>
     retransmission_answer \<times> queued_packet list \<times> global_packet_id list"
where
  "promise_step pr st clock (Add_retriables ps) =
     (let (errs, xs) = queue_up (min (user_room pr) (queue_room pr)) (retransmission_limit pr)
                         (stamp (fst st) clock) (fst st) ps
      in (Codes errs, xs, snd st))"
| "promise_step pr st clock (Reentrant_add_retriables ps) =
     (let (errs, xs) = queue_up (queue_room pr) (retransmission_limit pr) (stamp (fst st) clock) (fst st) ps
      in (Codes errs, xs, snd st))"
| "promise_step pr st clock (Ack_ids ids) =
     (Codes (replicate (length ids) SUCCESS), fst st, fold (\<lambda>k w. snd (remember (id_room pr) w k)) ids (snd st))"
| "promise_step pr st clock (Get_retriables n) =
     (let (out, m) = drain (\<lambda>x. packet_id (pkt x) \<in> set (snd st)) n (overdue (clock - delay_time pr) (fst st))
      in (Packets (map pkt out), drop m (fst st), snd st))"

fun run_promise ::
    "promise \<Rightarrow> queued_packet list \<times> global_packet_id list \<Rightarrow> (int \<times> retransmission_call) list \<Rightarrow>
     retransmission_answer list \<times> queued_packet list \<times> global_packet_id list"
where
  "run_promise pr st [] = ([], st)"
| "run_promise pr st ((clock, call) # calls) =
     apfst (Cons (fst (promise_step pr st clock call))) (run_promise pr (snd (promise_step pr st clock call)) calls)"

definition promise_of :: "retransmission_controller \<Rightarrow> promise" where
  "promise_of c =
     \<lparr>queue_room = q_cap (pkt_deque c), user_room = retriable_pkt_map_cap c,
      retransmission_limit = max_retransmission_sz c, delay_time = transmission_delay_time c,
      id_room = storage_cap (acked_id_hashset c)\<rparr>"

definition keeps ::
    "(global_packet_id \<Rightarrow> nat) \<Rightarrow> retransmission_controller \<Rightarrow> queued_packet list \<times> global_packet_id list \<Rightarrow> bool"
where
  "keeps hasher c st \<longleftrightarrow>
     nontrivial_represents (q_cap (pkt_deque c)) (pkt_deque c) (fst st) \<and> in_time (fst st) \<and>
     set_live hasher (acked_id_hashset c) \<and> temporal_items (acked_id_hashset c) = snd st"

text \<open>What the operations never change.\<close>

definition same_promise :: "retransmission_controller \<Rightarrow> retransmission_controller \<Rightarrow> bool" where
  "same_promise c c' \<longleftrightarrow>
     promise_of c' = promise_of c \<and> retransmission_consume_sz c' = retransmission_consume_sz c"

lemma represents_cap: "nontrivial_represents n q xs \<Longrightarrow> q_cap q = n"
  by (simp add: nontrivial_represents_def)

lemma keeps_queue:
  assumes "keeps hasher c (xs, w)" and "nontrivial_represents (q_cap (pkt_deque c)) q ys" and "in_time ys"
  shows "keeps hasher (c\<lparr>pkt_deque := q\<rparr>) (ys, w)" "same_promise c (c\<lparr>pkt_deque := q\<rparr>)"
  using assms represents_cap [OF assms(2)] by (simp_all add: keeps_def same_promise_def promise_of_def)

lemma internal_add_keeps:
  assumes "keeps hasher c (xs, w)" and "map_cap \<le> q_cap (pkt_deque c)" and "length ps \<le> retransmission_consume_sz c"
  shows "\<exists>c'. internal_add_retriables c clock ps map_cap =
      Inr (fst (queue_up map_cap (max_retransmission_sz c) (stamp xs clock) xs ps), c') \<and>
    keeps hasher c' (snd (queue_up map_cap (max_retransmission_sz c) (stamp xs clock) xs ps), w) \<and> same_promise c c'"
proof -
  let ?r = "queue_up map_cap (max_retransmission_sz c) (stamp xs clock) xs ps"
  have held: "nontrivial_represents (q_cap (pkt_deque c)) (pkt_deque c) xs" and time: "in_time xs"
    using assms(1) by (simp_all add: keeps_def)
  obtain q where q: "add_retriables_loop map_cap (max_retransmission_sz c) (stamp xs clock) (pkt_deque c) ps =
      Inr (fst ?r, q)" "nontrivial_represents (q_cap (pkt_deque c)) q (snd ?r)"
    using add_loop_held [OF held assms(2)] by blast
  have "in_time (snd ?r)" using time by (intro queue_up_in_time stamp_latest)
  with q(2) keeps_queue [OF assms(1)] have "keeps hasher (c\<lparr>pkt_deque := q\<rparr>) (snd ?r, w)"
      "same_promise c (c\<lparr>pkt_deque := q\<rparr>)" by blast+
  then show ?thesis
    using q(1) assms(3) get_now_held [OF held, of clock] by (auto simp: internal_add_retriables_def)
qed

lemma overdue_take: "take (length (overdue bar xs)) xs = overdue bar xs"
  by (simp add: overdue_def takeWhile_eq_take [symmetric])

lemma take_overdue: "m \<le> length (overdue bar xs) \<Longrightarrow> take m (overdue bar xs) = take m xs"
  using take_take [of m "length (overdue bar xs)" xs] by (simp add: overdue_take min_def)

lemma get_keeps:
  fixes n :: nat and clock :: int
  assumes "keeps hasher c (xs, w)"
  defines "r \<equiv> drain (\<lambda>x. packet_id (pkt x) \<in> set w) n (overdue (clock - transmission_delay_time c) xs)"
  shows "\<exists>c'. get_retriables hasher c clock n = Some (Inr (map pkt (fst r), c')) \<and>
    keeps hasher c' (drop (snd r) xs, w) \<and> same_promise c c'"
proof -
  let ?q = "pkt_deque c" and ?bar = "clock - transmission_delay_time c" and ?P = "\<lambda>x. packet_id (pkt x) \<in> set w"
  have held: "nontrivial_represents (q_cap ?q) ?q xs" and time: "in_time xs"
    and w: "set_live hasher (acked_id_hashset c)" "temporal_items (acked_id_hashset c) = w"
    using assms(1) by (simp_all add: keeps_def)
  have due: "take (length (overdue ?bar xs)) xs = overdue ?bar xs" by (rule overdue_take)
  have le: "length (overdue ?bar xs) \<le> length xs" by (simp add: overdue_def length_takeWhile_le)
  have loop: "retriables_loop (temporal_contains hasher) (acked_id_hashset c) ?q n 0 0 (length (overdue ?bar xs)) =
      Some (Inr (map pkt (fst r), snd r))"
    using retriables_loop_ok [of "temporal_contains hasher" _ w _ _ _ 0 _ 0] temporal.contains_eq [OF w(1)] w(2) held le due
    by (simp add: r_def Let_def)
  have "snd r \<le> length xs" using drain_take [of ?P n "overdue ?bar xs"] le by (simp add: r_def)
  then obtain q' where q': "nontrivial_erase_front_range ?q (snd r) = Inr q'"
      "nontrivial_represents (q_cap ?q) q' (drop (snd r) xs)"
    using erase_held [OF held] by blast
  have "in_time (drop (snd r) xs)" using time by (simp add: drop_map [symmetric] sorted_wrt_drop)
  with q'(2) keeps_queue [OF assms(1)] have "keeps hasher (c\<lparr>pkt_deque := q'\<rparr>) (drop (snd r) xs, w)"
      "same_promise c (c\<lparr>pkt_deque := q'\<rparr>)" by blast+
  then show ?thesis
    using read_held [OF held] lower_bound_in_time [OF time, of ?bar] loop q'(1)
    by (auto simp: get_retriables_def Let_def overdue_def)
qed

lemma ack_keeps:
  assumes "keeps hasher c (xs, w)" and "length ids \<le> retransmission_consume_sz c"
  shows "\<exists>c'. ack_retriables hasher c ids = Some (Inr (replicate (length ids) SUCCESS, c')) \<and>
    keeps hasher c' (xs, fold (\<lambda>k w. snd (remember (storage_cap (acked_id_hashset c)) w k)) ids w) \<and> same_promise c c'"
proof -
  have w: "set_live hasher (acked_id_hashset c)" "temporal_items (acked_id_hashset c) = w"
    using assms(1) by (simp_all add: keeps_def)
  obtain s' where s': "ack_loop (temporal_insert hasher) (acked_id_hashset c) ids =
        Some (Inr (replicate (length ids) SUCCESS, s'))" "set_live hasher s'"
      "storage_cap s' = storage_cap (acked_id_hashset c)"
      "temporal_items s' = fold (\<lambda>k w. snd (remember (storage_cap (acked_id_hashset c)) w k)) ids w"
    using temporal.ack_loop_ok [OF w(1), of ids] w(2) by blast
  then show ?thesis using assms
    by (intro exI [of _ "c\<lparr>acked_id_hashset := s'\<rparr>"])
      (auto simp: ack_retriables_def keeps_def same_promise_def promise_of_def)
qed

lemma promise_of_sel [simp]:
  "queue_room (promise_of c) = q_cap (pkt_deque c)"
  "user_room (promise_of c) = retriable_pkt_map_cap c"
  "retransmission_limit (promise_of c) = max_retransmission_sz c"
  "delay_time (promise_of c) = transmission_delay_time c"
  "id_room (promise_of c) = storage_cap (acked_id_hashset c)"
  by (simp_all add: promise_of_def)

lemma retransmission_step_keeps:
  assumes "keeps hasher c st" and "call_ok (retransmission_consume_sz c) call"
  shows "\<exists>c'. retransmission_step hasher c clock call = Some (Inr (fst (promise_step (promise_of c) st clock call), c')) \<and>
    keeps hasher c' (snd (promise_step (promise_of c) st clock call)) \<and> same_promise c c'"
proof -
  obtain xs w where st: "st = (xs, w)" by (cases st)
  note k = assms(1) [unfolded st]
  show ?thesis
  proof (cases call)
    case (Add_retriables ps)
    then show ?thesis
      using internal_add_keeps [OF k, of "min (retriable_pkt_map_cap c) (q_cap (pkt_deque c))" ps clock] assms(2)
      by (auto simp: st add_retriables_def Let_def split: prod.splits)
  next
    case (Reentrant_add_retriables ps)
    then show ?thesis
      using internal_add_keeps [OF k, of "q_cap (pkt_deque c)" ps clock] assms(2)
      by (auto simp: st reentrant_add_retriables_def Let_def split: prod.splits)
  next
    case (Ack_ids ids)
    then show ?thesis using ack_keeps [OF k, of ids] assms(2) by (auto simp: st)
  next
    case (Get_retriables n)
    then show ?thesis using get_keeps [OF k, of clock n] by (auto simp: st Let_def split: prod.splits)
  qed
qed

lemma run_retransmission_keeps:
  assumes "keeps hasher c st" and "\<forall>(clock, call) \<in> set calls. call_ok (retransmission_consume_sz c) call"
  shows "\<exists>c'. run_retransmission hasher c calls = Some (Inr (fst (run_promise (promise_of c) st calls), c')) \<and>
    keeps hasher c' (snd (run_promise (promise_of c) st calls)) \<and> same_promise c c'"
  using assms
proof (induction calls arbitrary: c st)
  case (Cons x calls)
  obtain clock call where x: "x = (clock, call)" by (cases x)
  let ?r = "promise_step (promise_of c) st clock call"
  obtain c' where c': "retransmission_step hasher c clock call = Some (Inr (fst ?r, c'))" "keeps hasher c' (snd ?r)"
      "same_promise c c'"
    using retransmission_step_keeps [OF Cons.prems(1), of call clock] Cons.prems(2) x by auto
  then show ?case using Cons.IH [OF c'(2)] Cons.prems(2) by (auto simp: x same_promise_def)
qed (simp add: same_promise_def)

lemma retransmission_made:
  assumes "get_retransmission_controller delay max_sz cap queue_cap map_cap cf = Inr (Inr c)"
  shows "keeps hasher c ([], [])" "promise_of c =
      \<lparr>queue_room = next_pow2 queue_cap, user_room = map_cap, retransmission_limit = max_sz, delay_time = delay,
       id_room = storage_cap (acked_id_hashset c)\<rparr>"
    "cap \<le> storage_cap (acked_id_hashset c)"
proof -
  obtain s where s: "temporal_new cap = Inr s" "acked_id_hashset c = s" "pkt_deque c = nontrivial_new (ulog2 (next_pow2 queue_cap))"
      "retriable_pkt_map_cap c = map_cap" "max_retransmission_sz c = max_sz" "transmission_delay_time c = delay"
      "queue_cap \<le> 2 ^ 25"
    using assms by (auto simp: get_retransmission_controller_def bindR_eq_Inr split: if_splits)
  obtain n where n: "next_pow2 queue_cap = 2 ^ n" using next_pow2_power by blast
  have "next_pow2 queue_cap \<le> 2 ^ 25" using next_pow2_least [of queue_cap] s(7) by blast
  then have "n \<le> 25" using n power_le_imp_le_exp [of "2 :: nat" n 25] by simp
  then have "nontrivial_represents (2 ^ n) (nontrivial_new n) []"
    using holds_new [of n None] by (simp add: nontrivial_represents_def simple_new_def nontrivial_new_def)
  then show "keeps hasher c ([], [])"
    using temporal_new_ok(1,2) [OF s(1)] s(2,3) n by (simp add: keeps_def nontrivial_new_def)
  show "promise_of c =
      \<lparr>queue_room = next_pow2 queue_cap, user_room = map_cap, retransmission_limit = max_sz, delay_time = delay,
       id_room = storage_cap (acked_id_hashset c)\<rparr>"
    using s n by (simp add: promise_of_def nontrivial_new_def)
  show "cap \<le> storage_cap (acked_id_hashset c)" using temporal_new_ok(3) [OF s(1)] s(2) by simp
qed

section \<open>Properties of the retransmission controller\<close>

text \<open>
  C20: \<open>RetransmissionController\<close> does what is promised, whatever calls come in whatever order at whatever times, even when
  the clock goes back: it answers with the codes and packets of the promise, it is not aborted (the queue is never overfull and
  \<open>std::lower_bound\<close> is always given an ordered queue), and it holds the packets and ids of the promise.
\<close>
theorem retransmission_refines:
  assumes "get_retransmission_controller delay max_sz cap queue_cap map_cap consume_factor = Inr (Inr c)"
    and "\<forall>(clock, call) \<in> set calls. call_ok (retransmission_consume_sz c) call"
  shows "\<exists>as c' xs w. run_retransmission hasher c calls = Some (Inr (as, c')) \<and>
    run_promise \<lparr>queue_room = next_pow2 queue_cap, user_room = map_cap, retransmission_limit = max_sz, delay_time = delay,
      id_room = storage_cap (acked_id_hashset c)\<rparr> ([], []) calls = (as, xs, w) \<and>
    read_all (map (nontrivial_at (pkt_deque c')) [0..<q_sz (pkt_deque c')]) = Inr xs \<and>
    temporal_items (acked_id_hashset c') = w \<and> sorted (map queued_time xs) \<and> length xs \<le> next_pow2 queue_cap"
proof -
  note made = retransmission_made [OF assms(1)]
  obtain c' where c': "run_retransmission hasher c calls = Some (Inr (fst (run_promise (promise_of c) ([], []) calls), c'))"
      "keeps hasher c' (snd (run_promise (promise_of c) ([], []) calls))" "same_promise c c'"
    using run_retransmission_keeps [OF made(1) assms(2)] by blast
  obtain as xs w where r: "run_promise (promise_of c) ([], []) calls = (as, xs, w)" by (metis prod_cases3)
  have held: "nontrivial_represents (q_cap (pkt_deque c')) (pkt_deque c') xs" using c'(2) r by (simp add: keeps_def)
  have "q_cap (pkt_deque c') = next_pow2 queue_cap"
    using c'(3) made(2) by (simp add: same_promise_def) (metis promise.select_convs(1) promise_of_sel(1))
  then have "length xs \<le> next_pow2 queue_cap"
    using held holds_shape [of None "pkt_deque c'" "map Some xs"] by (simp add: nontrivial_represents_def)
  then show ?thesis using c' r read_held [OF held] made(2) by (auto simp: keeps_def)
qed

lemma takeWhile_in_time:
  "in_time xs \<Longrightarrow> overdue bar xs = filter (\<lambda>x. queued_time x < bar) xs"
  unfolding overdue_def by (intro takeWhile_eq_filter late_first)

text \<open>
  C22: whatever happened before, \<open>get_retriables\<close> returns the packets that wait for longer than the delay and whose id is
  not among the acknowledged ones, in the order in which they came, at most as many as there is room for; from the queue it
  takes these, and the acknowledged ones before them, and when there was room for more no packet that waited too long is left.
\<close>
theorem retransmits_overdue:
  assumes "get_retransmission_controller delay max_sz cap queue_cap map_cap consume_factor = Inr (Inr c)"
    and "\<forall>(clock, call) \<in> set calls. call_ok (retransmission_consume_sz c) call"
    and "run_retransmission hasher c calls = Some (Inr (as, c1))"
  shows "\<exists>xs out m c2. read_all (map (nontrivial_at (pkt_deque c1)) [0..<q_sz (pkt_deque c1)]) = Inr xs \<and>
    get_retriables hasher c1 clock n = Some (Inr (map pkt out, c2)) \<and>
    (let late = (\<lambda>x. queued_time x < clock - delay);
         unacked = (\<lambda>x. packet_id (pkt x) \<notin> set (temporal_items (acked_id_hashset c1)))
     in out = take n (filter (\<lambda>x. late x \<and> unacked x) xs) \<and>
        out = filter unacked (take m xs) \<and> (\<forall>x \<in> set (take m xs). late x) \<and>
        read_all (map (nontrivial_at (pkt_deque c2)) [0..<q_sz (pkt_deque c2)]) = Inr (drop m xs) \<and>
        (length out < n \<longrightarrow> (\<forall>x \<in> set (drop m xs). \<not> late x)))"
proof -
  obtain xs w where k: "keeps hasher c1 (xs, w)" and same: "same_promise c c1"
    using run_retransmission_keeps [OF retransmission_made(1) [OF assms(1)] assms(2)] assms(3)
    by (metis Inr_inject Pair_inject option.inject prod.exhaust_sel)
  have delay: "transmission_delay_time c1 = delay"
    using same retransmission_made(2) [OF assms(1)] by (simp add: same_promise_def) (metis promise.select_convs(4) promise_of_sel(4))
  have held: "nontrivial_represents (q_cap (pkt_deque c1)) (pkt_deque c1) xs" and time: "in_time xs"
    and w: "temporal_items (acked_id_hashset c1) = w"
    using k by (simp_all add: keeps_def)
  let ?late = "\<lambda>x. queued_time x < clock - delay" and ?P = "\<lambda>x. packet_id (pkt x) \<in> set w"
  define r where "r = drain ?P n (overdue (clock - delay) xs)"
  obtain c2 where c2: "get_retriables hasher c1 clock n = Some (Inr (map pkt (fst r), c2))" "keeps hasher c2 (drop (snd r) xs, w)"
    using get_keeps [OF k, of clock n] by (auto simp: delay r_def)
  have held2: "nontrivial_represents (q_cap (pkt_deque c2)) (pkt_deque c2) (drop (snd r) xs)"
    using c2(2) by (simp add: keeps_def)
  have out: "fst r = take n (filter (\<lambda>x. ?late x \<and> \<not> ?P x) xs)"
    unfolding r_def drain_out takeWhile_in_time [OF time] by (simp add: conj_commute)
  note d = drain_take [of ?P n "overdue (clock - delay) xs", folded r_def]
  have pre: "take (snd r) (overdue (clock - delay) xs) = take (snd r) xs"
    using d by (intro take_overdue) blast
  have late: "?late x" if "x \<in> set (take (snd r) xs)" for x
    using that unfolding pre [symmetric] overdue_def by (meson in_set_takeD set_takeWhileD)
  have rest: "\<not> ?late x" if "length (fst r) < n" "x \<in> set (drop (snd r) xs)" for x
  proof -
    have "snd r = length (takeWhile ?late xs)" using d that(1) by (simp add: overdue_def)
    then have "x \<in> set (dropWhile ?late xs)" using that(2) by (simp add: dropWhile_eq_drop)
    then show ?thesis using late_first [OF time] by blast
  qed
  show ?thesis
    unfolding Let_def w
  proof (intro exI conjI)
    show "read_all (map (nontrivial_at (pkt_deque c1)) [0..<q_sz (pkt_deque c1)]) = Inr xs" by (rule read_held [OF held])
    show "get_retriables hasher c1 clock n = Some (Inr (map pkt (fst r), c2))" by (rule c2(1))
    show "fst r = take n (filter (\<lambda>x. ?late x \<and> packet_id (pkt x) \<notin> set w) xs)" by (rule out)
    have "fst r = filter (Not \<circ> ?P) (take (snd r) (overdue (clock - delay) xs))" using d by blast
    then show "fst r = filter (\<lambda>x. packet_id (pkt x) \<notin> set w) (take (snd r) xs)" unfolding pre comp_def .
    show "\<forall>x \<in> set (take (snd r) xs). ?late x" using late by blast
    show "read_all (map (nontrivial_at (pkt_deque c2)) [0..<q_sz (pkt_deque c2)]) = Inr (drop (snd r) xs)"
      by (rule read_held [OF held2])
    show "length (fst r) < n \<longrightarrow> (\<forall>x \<in> set (drop (snd r) xs). \<not> ?late x)" using rest by blast
  qed
qed

fun ids_acked :: "(int \<times> retransmission_call) list \<Rightarrow> global_packet_id list" where
  "ids_acked [] = []"
| "ids_acked ((clock, Ack_ids ids) # calls) = ids @ ids_acked calls"
| "ids_acked (_ # calls) = ids_acked calls"

lemma window_of_promise:
  "snd (snd (run_promise pr st calls)) = fold (\<lambda>k w. snd (remember (id_room pr) w k)) (ids_acked calls) (snd st)"
  by (induction calls arbitrary: st rule: ids_acked.induct) (simp_all add: Let_def split_beta)

lemma promise_append:
  "run_promise pr st (xs @ ys) =
     apfst ((@) (fst (run_promise pr st xs))) (run_promise pr (snd (run_promise pr st xs)) ys)"
  by (induction pr st xs rule: run_promise.induct) (auto simp: apfst_def map_prod_def split_beta)

lemma length_promise [simp]: "length (fst (run_promise pr st calls)) = length calls"
  by (induction pr st calls rule: run_promise.induct) auto

lemma drain_set: "x \<in> set (fst (drain acked n xs)) \<Longrightarrow> \<not> acked x"
  using drain_out [of acked n xs] by (auto dest: in_set_takeD)

lemma remembered_not_sent:
  assumes "k \<in> set (snd st)" and "length (snd st) \<le> id_room pr"
    and "younger (snd st) k + length (ids_acked calls) < id_room pr"
    and "Packets ps \<in> set (fst (run_promise pr st calls))" and "p \<in> set ps"
  shows "packet_id p \<noteq> k"
  using assms
proof (induction calls arbitrary: st)
  case (Cons x calls)
  obtain clock call where x: "x = (clock, call)" by (cases x)
  let ?st = "snd (promise_step pr st clock call)"
  have head: ?case if "Packets ps = fst (promise_step pr st clock call)"
    using that Cons.prems(1,5) by (cases call) (auto simp: split_beta dest: drain_set)
  show ?case
  proof (cases "Packets ps = fst (promise_step pr st clock call)")
    case False
    then have later: "Packets ps \<in> set (fst (run_promise pr ?st calls))" using Cons.prems(4) x by simp
    show ?thesis
    proof (cases "\<exists>ids. call = Ack_ids ids")
      case True
      then obtain ids where ids: "call = Ack_ids ids" by blast
      let ?w = "snd ?st"
      have w: "?w = fold (\<lambda>k w. snd (remember (id_room pr) w k)) ids (snd st)" by (simp add: ids)
      have "k \<in> set ?w \<and> younger ?w k \<le> younger (snd st) k + length ids \<and> length ?w \<le> id_room pr"
        unfolding w using Cons.prems(1-3) by (intro remember_fold_younger) (auto simp: x ids)
      then show ?thesis using Cons.IH [OF _ _ _ later Cons.prems(5)] Cons.prems(3) by (simp add: x ids)
    next
      case False
      then have "snd ?st = snd st" and "ids_acked (x # calls) = ids_acked calls"
        by (cases call; simp add: x split_beta)+
      then show ?thesis using Cons.IH [OF _ _ _ later Cons.prems(5)] Cons.prems(1-3) by simp
    qed
  qed (rule head)
qed simp

text \<open>
  C23: an acknowledged id is not sent again. Take any acknowledgement of an id \<open>k\<close>, alone or among others of the same call, that comes while \<open>k\<close>
  is not remembered (so the first one, and any later one after it was forgotten): until \<open>idhashset_cap\<close> ids have been acknowledged, \<open>k\<close> itself and
  repetitions included, no packet that \<open>get_retriables\<close> returns has the id \<open>k\<close>. An acknowledgement that comes while \<open>k\<close> is remembered does
  not start this time anew.
\<close>
theorem acked_not_resent:
  assumes "get_retransmission_controller delay max_sz cap queue_cap map_cap consume_factor = Inr (Inr c)"
    and "\<forall>(clock, call) \<in> set (before @ (t, Ack_ids (ids @ k # ids')) # after). call_ok (retransmission_consume_sz c) call"
    and "run_retransmission hasher c before = Some (Inr (as, c1))"
    and "k \<notin> set (temporal_items (acked_id_hashset c1))" and "k \<notin> set ids" and "length ids' + length (ids_acked after) < cap"
  shows "\<exists>as' c'. run_retransmission hasher c1 ((t, Ack_ids (ids @ k # ids')) # after) = Some (Inr (as', c')) \<and>
    (\<forall>ps. Packets ps \<in> set as' \<longrightarrow> (\<forall>p \<in> set ps. packet_id p \<noteq> k))"
proof -
  note made = retransmission_made [OF assms(1)]
  let ?room = "storage_cap (acked_id_hashset c1)" and ?rest = "(t, Ack_ids (ids @ k # ids')) # after"
  let ?renew = "fold (\<lambda>k w. snd (remember ?room w k))"
  obtain xs w where c1: "keeps hasher c1 (xs, w)" "same_promise c c1"
    using run_retransmission_keeps [OF made(1), of before hasher] assms(2,3)
    by (cases "snd (run_promise (promise_of c) ([], []) before)") auto
  have same: "storage_cap (acked_id_hashset c) = ?room"
    using c1(2) promise_of_sel(5) [of c] promise_of_sel(5) [of c1] by (simp add: same_promise_def)
  have room: "cap \<le> ?room" "0 < ?room" "length w \<le> ?room" and w: "temporal_items (acked_id_hashset c1) = w"
    using made(3) c1(1) temporal.window_ok [of hasher "acked_id_hashset c1"] by (auto simp: keeps_def same)
  let ?w = "?renew ids w"
  have "k \<notin> set ?w" "length ?w \<le> ?room"
    using set_remember_fold [of ?room ids w] remember_fold_length [OF room(3,2)] assms(4,5) w by auto
  note new = remember_new [OF this room(2)] remember_length [OF this(2) room(2), of k]
  have kept: "k \<in> set (?renew ids' (snd (remember ?room ?w k)))"
      "younger (?renew ids' (snd (remember ?room ?w k))) k \<le> length ids'"
      "length (?renew ids' (snd (remember ?room ?w k))) \<le> ?room"
    using remember_fold_younger [of k "snd (remember ?room ?w k)" ?room ids'] new assms(6) room(1) by simp_all
  obtain c' where run: "run_retransmission hasher c1 ?rest = Some (Inr (fst (run_promise (promise_of c1) (xs, w) ?rest), c'))"
    using run_retransmission_keeps [OF c1(1), of ?rest] assms(2) c1(2) by (auto simp: same_promise_def)
  have "packet_id p \<noteq> k" if "Packets ps \<in> set (fst (run_promise (promise_of c1) (xs, w) ?rest))" "p \<in> set ps" for ps p
  proof (rule remembered_not_sent [of k "(xs, ?renew ids' (snd (remember ?room ?w k)))" "promise_of c1" after ps p])
    show "Packets ps \<in> set (fst (run_promise (promise_of c1) (xs, ?renew ids' (snd (remember ?room ?w k))) after))"
      using that(1) by simp
  qed (use kept that room assms(6) in auto)
  then show ?thesis using run by blast
qed

lemma limit_not_reached:
  "256 \<le> max_sz \<Longrightarrow> add_retriables_loop map_cap max_sz now q ps = Inr (errs, q') \<Longrightarrow>
   SOCKET_MAX_RETRANSMISSION_REACHED \<notin> set errs"
proof (induction ps arbitrary: q errs)
  case (Cons p ps)
  have "unat (retransmission_count p) < 256" using unsigned_less [of "retransmission_count p"] by simp
  then show ?case using Cons by (auto simp: bindR_eq_Inr split: if_splits)
qed simp

text \<open>
  the largest limit the factory allows is no limit. With \<open>max_retransmission_sz = 256\<close> no packet is ever refused for the
  number of its retransmissions, since the count is a byte: the packet that was sent 255 times is queued again with count 0.
\<close>
theorem limit_256_is_none:
  assumes "get_retransmission_controller delay 256 cap queue_cap map_cap consume_factor = Inr (Inr c)"
  shows "(add_retriables c1 clock ps = Inr (errs, c2) \<and> max_retransmission_sz c1 = max_retransmission_sz c \<longrightarrow>
      SOCKET_MAX_RETRANSMISSION_REACHED \<notin> set errs) \<and>
    (retransmission_count p = 255 \<longrightarrow> (\<exists>c3. add_retriables c clock [p] = Inr ([SUCCESS], c3) \<and>
      read_all (map (nontrivial_at (pkt_deque c3)) [0..<q_sz (pkt_deque c3)]) =
        Inr [\<lparr>pkt = p\<lparr>retransmission_count := 0\<rparr>, queued_time = clock\<rparr>]))"
proof -
  note made = retransmission_made [OF assms]
  have max: "max_retransmission_sz c = 256" using made(2) promise_of_sel(3) [of c] by simp
  have cap: "1 \<le> retransmission_consume_sz c" "1 \<le> retriable_pkt_map_cap c" "1 \<le> q_cap (pkt_deque c)"
    using assms by (auto simp: get_retransmission_controller_def bindR_eq_Inr nontrivial_new_def split: if_splits)
  have again: "once_more clock p = \<lparr>pkt = p\<lparr>retransmission_count := 0\<rparr>, queued_time = clock\<rparr>" if "retransmission_count p = 255"
    using that by (simp add: once_more_def)
  let ?cap = "min (retriable_pkt_map_cap c) (q_cap (pkt_deque c))"
  have up: "queue_up ?cap 256 (stamp [] clock) [] [p] = ([SUCCESS], [once_more clock p])" if "retransmission_count p = 255"
  proof -
    have "?cap \<noteq> 0" using cap by linarith
    then show ?thesis using that by (simp add: stamp_def)
  qed
  have "length [p] \<le> retransmission_consume_sz c" using cap by simp
  from internal_add_keeps [OF made(1) [of "\<lambda>_. 0"] _ this, of ?cap clock]
  obtain c3 where "internal_add_retriables c clock [p] ?cap =
        Inr (fst (queue_up ?cap 256 (stamp [] clock) [] [p]), c3)"
      "keeps (\<lambda>_. 0) c3 (snd (queue_up ?cap 256 (stamp [] clock) [] [p]), [])"
    unfolding max by (meson min.cobounded2)
  then have c3: "add_retriables c clock [p] = Inr ([SUCCESS], c3)"
      "nontrivial_represents (q_cap (pkt_deque c3)) (pkt_deque c3) [once_more clock p]" if "retransmission_count p = 255"
    using that unfolding up [OF that] by (simp_all add: add_retriables_def keeps_def)
  have "SOCKET_MAX_RETRANSMISSION_REACHED \<notin> set errs"
    if "add_retriables c1 clock ps = Inr (errs, c2)" "max_retransmission_sz c1 = max_retransmission_sz c"
    using that limit_not_reached [of "max_retransmission_sz c1"] max
    by (auto simp: add_retriables_def internal_add_retriables_def bindR_eq_Inr split: if_splits)
  then show ?thesis using c3 read_held again by (auto intro!: exI [of _ c3])
qed

section \<open>Witnesses\<close>

text \<open>Packets that differ in their id, sent \<open>n\<close> times already.\<close>

definition sample_id :: "u64 \<Rightarrow> global_packet_id" where
  "sample_id i = \<lparr>local_packet_id = i, factory_id = replicate 20 0\<rparr>"

definition sample_packet :: "u64 \<Rightarrow> byte \<Rightarrow> packet" where
  "sample_packet i n =
     (let a = \<lparr>ip = IPv4 [127, 0, 0, 1], port = 80\<rparr>
      in \<lparr>packet_id = sample_id i, retransmission_count = n, priority = 0, fr_addr = a, to_addr = a,
          xonly_content = XOnlyRequestPacket []\<rparr>)"

lemma sample_sel [simp]:
  "packet_id (sample_packet i n) = sample_id i"
  "retransmission_count (sample_packet i n) = n"
  "sample_id i = sample_id j \<longleftrightarrow> i = j"
  by (simp_all add: sample_packet_def sample_id_def Let_def)

lemma sample_inbound: "\<exists>c. get_inbound_id_controller 4 1 = Inr (Inr c) \<and> id_consume_sz c = 2"
proof -
  obtain s :: "kind_global_packet_id node_set" where "temporal_new 4 = Inr s" using temporal_new_total [of 4] by auto
  then show ?thesis by (simp add: get_inbound_id_controller_def shift_down_def)
qed

theorem replay_refused_witness:
  "\<exists>c ops c'. run_thru (\<lambda>_. 0) c [[\<lparr>kind_id = sample_id 1, kind = 0\<rparr>, \<lparr>kind_id = sample_id 2, kind = 0\<rparr>],
      [\<lparr>kind_id = sample_id 1, kind = 0\<rparr>]] = Some (Inr (ops, c')) \<and> ops = [Inr True, Inr True, Inr False]"
proof -
  let ?b = "[[\<lparr>kind_id = sample_id 1, kind = 0\<rparr>, \<lparr>kind_id = sample_id 2, kind = 0\<rparr>], [\<lparr>kind_id = sample_id 1, kind = 0\<rparr>]]"
  obtain c where c: "get_inbound_id_controller 4 1 = Inr (Inr c)" "id_consume_sz c = 2" using sample_inbound by blast
  have batches: "\<forall>ids \<in> set ?b. length ids \<le> id_consume_sz c" by (simp add: c(2))
  obtain ops c' where run: "run_thru (\<lambda>_. 0) c ?b = Some (Inr (ops, c'))" and len: "length ops = length (concat ?b)"
    and fresh: "\<forall>i < length (concat ?b). concat ?b ! i \<notin> set (take i (concat ?b)) \<longrightarrow> ops ! i = Inr True"
    and again: "\<forall>i j. i < j \<and> j < length (concat ?b) \<and> concat ?b ! i = concat ?b ! j \<and> ops ! i = Inr True \<and> j - i \<le> 4 \<longrightarrow>
      ops ! j = Inr False"
    using replay_refused [OF c(1) batches, of "\<lambda>_. 0"] unfolding Let_def by blast
  have 0: "ops ! 0 = Inr True" using fresh [rule_format, of 0] by simp
  have 1: "ops ! 1 = Inr True" using fresh [rule_format, of 1] by simp
  have 2: "ops ! 2 = Inr False" using again [rule_format, of 0 2] 0 by simp
  have "ops = map ((!) ops) [0..<3]" using len by (intro nth_equalityI) simp_all
  then have "ops = [Inr True, Inr True, Inr False]" using 0 1 2 by (simp add: upt_rec numeral_2_eq_2)
  then show ?thesis using run by blast
qed

lemma sample_controller:
  assumes "max_sz \<le> 256"
  shows "\<exists>c. get_retransmission_controller 10 max_sz 4 4 4 0 = Inr (Inr c) \<and> retransmission_consume_sz c = 4"
proof -
  obtain s :: "global_packet_id node_set" where "temporal_new 4 = Inr s" using temporal_new_total [of 4] by auto
  then show ?thesis using assms by (simp add: get_retransmission_controller_def shift_down_def ceil2_small)
qed

definition sample_calls :: "(int \<times> retransmission_call) list" where
  "sample_calls = [(0, Add_retriables [sample_packet 1 0, sample_packet 2 0]), (5, Reentrant_add_retriables [sample_packet 3 2]),
     (7, Ack_ids [sample_id 1])]"

lemma sample_next_pow2: "next_pow2 4 = 4"
  by (simp add: next_pow2_def ulog2.simps)

lemma sample_promise:
  "4 \<le> room \<Longrightarrow> run_promise \<lparr>queue_room = next_pow2 4, user_room = 4, retransmission_limit = 2, delay_time = 10, id_room = room\<rparr>
     ([], []) sample_calls =
   ([Codes [SUCCESS, SUCCESS], Codes [SOCKET_MAX_RETRANSMISSION_REACHED], Codes [SUCCESS]],
    [once_more 0 (sample_packet 1 0), once_more 0 (sample_packet 2 0)], [sample_id 1])"
  unfolding sample_next_pow2 by (simp add: sample_calls_def stamp_def remember_def once_more_def)

theorem retransmission_refines_witness:
  "\<exists>c as c' xs. run_retransmission (\<lambda>_. 0) c sample_calls = Some (Inr (as, c')) \<and>
    as = [Codes [SUCCESS, SUCCESS], Codes [SOCKET_MAX_RETRANSMISSION_REACHED], Codes [SUCCESS]] \<and>
    read_all (map (nontrivial_at (pkt_deque c')) [0..<q_sz (pkt_deque c')]) = Inr xs \<and>
    xs = [once_more 0 (sample_packet 1 0), once_more 0 (sample_packet 2 0)]"
proof -
  obtain c where c: "get_retransmission_controller 10 2 4 4 4 0 = Inr (Inr c)" "retransmission_consume_sz c = 4"
    using sample_controller [of 2] by auto
  have ok: "\<forall>(clock, call) \<in> set sample_calls. call_ok (retransmission_consume_sz c) call"
    by (simp add: sample_calls_def c(2))
  have room: "4 \<le> storage_cap (acked_id_hashset c)" using retransmission_made(3) [OF c(1)] .
  show ?thesis
    using retransmission_refines [OF c(1) ok, of "\<lambda>_. 0"] unfolding sample_promise [OF room] by blast
qed

theorem retransmits_overdue_witness:
  "\<exists>c c1 as out c2. run_retransmission (\<lambda>_. 0) c sample_calls = Some (Inr (as, c1)) \<and>
    get_retriables (\<lambda>_. 0) c1 20 3 = Some (Inr (out, c2)) \<and> out = [pkt (once_more 0 (sample_packet 2 0))]"
proof -
  obtain c where c: "get_retransmission_controller 10 2 4 4 4 0 = Inr (Inr c)" "retransmission_consume_sz c = 4"
    using sample_controller [of 2] by auto
  have ok: "\<forall>(clock, call) \<in> set sample_calls. call_ok (retransmission_consume_sz c) call"
    by (simp add: sample_calls_def c(2))
  have room: "4 \<le> storage_cap (acked_id_hashset c)" using retransmission_made(3) [OF c(1)] .
  have pr: "promise_of c = \<lparr>queue_room = next_pow2 4, user_room = 4, retransmission_limit = 2, delay_time = 10,
      id_room = storage_cap (acked_id_hashset c)\<rparr>" by (rule retransmission_made(2) [OF c(1)])
  obtain as c1 where run: "run_retransmission (\<lambda>_. 0) c sample_calls = Some (Inr (as, c1))"
    and k: "keeps (\<lambda>_. 0) c1 ([once_more 0 (sample_packet 1 0), once_more 0 (sample_packet 2 0)], [sample_id 1])"
    using run_retransmission_keeps [OF retransmission_made(1) [OF c(1)] ok] unfolding pr sample_promise [OF room] by force
  have held: "read_all (map (nontrivial_at (pkt_deque c1)) [0..<q_sz (pkt_deque c1)]) =
      Inr [once_more 0 (sample_packet 1 0), once_more 0 (sample_packet 2 0)]"
    and w: "temporal_items (acked_id_hashset c1) = [sample_id 1]"
    using k read_held by (auto simp: keeps_def)
  obtain xs out c2 where out: "get_retriables (\<lambda>_. 0) c1 20 3 = Some (Inr (map pkt out, c2))"
    "out = take 3 (filter (\<lambda>x. queued_time x < 20 - 10 \<and> packet_id (pkt x) \<notin> set (temporal_items (acked_id_hashset c1))) xs)"
    "read_all (map (nontrivial_at (pkt_deque c1)) [0..<q_sz (pkt_deque c1)]) = Inr xs"
    using retransmits_overdue [OF c(1) ok run, of 20 3] unfolding Let_def by blast
  have xs: "xs = [once_more 0 (sample_packet 1 0), once_more 0 (sample_packet 2 0)]" using out(3) unfolding held by simp
  have "out = [once_more 0 (sample_packet 2 0)]" using out(2) unfolding w xs by (simp add: once_more_def)
  then show ?thesis using run out(1) by auto
qed

theorem acked_not_resent_witness:
  "\<exists>c c1 as as' c'. run_retransmission (\<lambda>_. 0) c [(0, Add_retriables [sample_packet 1 0, sample_packet 2 0])] = Some (Inr (as, c1)) \<and>
    run_retransmission (\<lambda>_. 0) c1 [(7, Ack_ids [sample_id 2, sample_id 1]), (20, Get_retriables 3)] = Some (Inr (as', c')) \<and>
    (\<forall>ps. Packets ps \<in> set as' \<longrightarrow> (\<forall>p \<in> set ps. packet_id p \<noteq> sample_id 1))"
proof -
  obtain c where c: "get_retransmission_controller 10 2 4 4 4 0 = Inr (Inr c)" "retransmission_consume_sz c = 4"
    using sample_controller [of 2] by auto
  let ?before = "[(0, Add_retriables [sample_packet 1 0, sample_packet 2 0])]"
  have ok: "\<forall>(clock, call) \<in> set ?before. call_ok (retransmission_consume_sz c) call" by (simp add: c(2))
  obtain c1 where c1: "run_retransmission (\<lambda>_. 0) c ?before = Some (Inr (fst (run_promise (promise_of c) ([], []) ?before), c1))"
      "keeps (\<lambda>_. 0) c1 (snd (run_promise (promise_of c) ([], []) ?before))"
    using run_retransmission_keeps [OF retransmission_made(1) [OF c(1)] ok] by blast
  have "temporal_items (acked_id_hashset c1) = []"
    using c1(2) window_of_promise [of "promise_of c" "([], [])" ?before] by (auto simp: keeps_def)
  then show ?thesis
    using acked_not_resent [OF c(1) _ c1(1), of 7 "[sample_id 2]" "sample_id 1" "[]" "[(20, Get_retriables 3)]"] c(2) c1(1)
    by (fastforce simp: sample_id_def)
qed

theorem limit_256_is_none_witness:
  "\<exists>c c3. add_retriables c 0 [sample_packet 1 255] = Inr ([SUCCESS], c3) \<and> max_retransmission_sz c = 256"
proof -
  obtain c where c: "get_retransmission_controller 10 256 4 4 4 0 = Inr (Inr c)" "retransmission_consume_sz c = 4"
    using sample_controller [of 256] by auto
  have "max_retransmission_sz c = 256" using retransmission_made(2) [OF c(1)] promise_of_sel(3) [of c] by simp
  then show ?thesis
    using limit_256_is_none [OF c(1), of c 0 "[]" "[]" c "sample_packet 1 255"] by auto
qed

end
