(* ===== verification/Border_Control.thy ===== *)
theory Border_Control
  imports Mailbox_Control "HOL-Library.AList"
begin

text \<open>
  The border of the socket in \<open>internal_rest/network_kernel_mailbox_impl1.h\<close>: \<open>TrafficController\<close>, which limits how many packets
  go through per address and altogether, the two border controllers that ask it and write down the addresses they
  see, and the \<open>NATIPController\<close> they report these to. A \<open>std::unordered_set\<close> is a list without repetitions; the order in which
  it is iterated is the argument \<open>order\<close>, of which nothing but that it permutes the list is used. The sievers are
  callbacks of the user. A failing allocation is not modelled.
\<close>

section \<open>TrafficController\<close>

record traffic_controller =
  address_counter_map :: "(address \<times> nat) list"
  address_cap :: nat
  global_cap :: nat
  map_cap :: nat
  global_counter :: nat

definition traffic_count :: "traffic_controller \<Rightarrow> address \<Rightarrow> nat \<Rightarrow> (exception_t + bool) \<times> traffic_controller" where
  "traffic_count tc addr n =
     (if n = address_cap tc then (Inr False, tc)
      else (Inr True, tc\<lparr>address_counter_map := AList.update addr (n + 1) (address_counter_map tc),
                       global_counter := global_counter tc + 1\<rparr>))"

definition traffic_thru :: "traffic_controller \<Rightarrow> address \<Rightarrow> (exception_t + bool) \<times> traffic_controller" where
  "traffic_thru tc addr =
     (if global_counter tc = global_cap tc then (Inr False, tc)
      else case map_of (address_counter_map tc) addr of
        Some n \<Rightarrow> traffic_count tc addr n
      | None \<Rightarrow>
          if length (address_counter_map tc) = map_cap tc then (Inr False, tc)
          else if address_cap tc = 0 then (Inr False, tc)
          else traffic_count (tc\<lparr>address_counter_map := AList.update addr 0 (address_counter_map tc)\<rparr>) addr 0)"

definition traffic_reset :: "traffic_controller \<Rightarrow> traffic_controller" where
  "traffic_reset tc = tc\<lparr>address_counter_map := [], global_counter := 0\<rparr>"

definition between :: "nat \<Rightarrow> nat \<Rightarrow> nat \<Rightarrow> bool" where
  "between lo hi n \<longleftrightarrow> lo \<le> n \<and> n \<le> hi"

definition get_synchronous_traffic_controller :: "nat \<Rightarrow> nat \<Rightarrow> nat \<Rightarrow> exception_t + traffic_controller" where
  "get_synchronous_traffic_controller peraddr_capacity global_capacity addr_capacity =
     (if \<not> between 1 (2 ^ 25) peraddr_capacity then Inl INVALID_ARGUMENT
      else if \<not> between 1 (2 ^ 25) global_capacity then Inl INVALID_ARGUMENT
      else if \<not> between 1 (2 ^ 25) addr_capacity then Inl INVALID_ARGUMENT
      else Inr \<lparr>address_counter_map = [], address_cap = peraddr_capacity, global_cap = global_capacity,
                map_cap = addr_capacity, global_counter = 0\<rparr>)"

section \<open>NATPunchIPController\<close>

fun insert_all :: "('s \<Rightarrow> 'k \<Rightarrow> 's result option) \<Rightarrow> 's \<Rightarrow> 'k list \<Rightarrow> 's result option" where
  "insert_all ins s [] = Some (Inr s)"
| "insert_all ins s (x # xs) = bindO (ins s x) (\<lambda>s. insert_all ins s xs)"

definition punch_add ::
    "(address \<Rightarrow> nat) \<Rightarrow> address node_set \<Rightarrow> address list \<Rightarrow> (exception_t list \<times> address node_set) result option"
where
  "punch_add hasher s addrs =
     (let sz = length addrs; insert_sz = min sz (temporal_capacity s)
      in bindO (insert_all (temporal_insert hasher) s (take insert_sz addrs)) (\<lambda>s.
           Some (Inr (replicate insert_sz SUCCESS @ replicate (sz - insert_sz) RESOURCE_EXHAUSTION, s))))"

record nat_punch =
  inbound_ip_set :: "address node_set"
  outbound_ip_set :: "address node_set"

definition punch_add_inbound ::
    "(address \<Rightarrow> nat) \<Rightarrow> nat_punch \<Rightarrow> address list \<Rightarrow> (exception_t list \<times> nat_punch) result option"
where
  "punch_add_inbound hasher n addrs =
     bindO (punch_add hasher (inbound_ip_set n) addrs) (\<lambda>(errs, s). Some (Inr (errs, n\<lparr>inbound_ip_set := s\<rparr>)))"

definition punch_add_outbound ::
    "(address \<Rightarrow> nat) \<Rightarrow> nat_punch \<Rightarrow> address list \<Rightarrow> (exception_t list \<times> nat_punch) result option"
where
  "punch_add_outbound hasher n addrs =
     bindO (punch_add hasher (outbound_ip_set n) addrs) (\<lambda>(errs, s). Some (Inr (errs, n\<lparr>outbound_ip_set := s\<rparr>)))"

fun friends_loop ::
    "('s \<Rightarrow> 'k \<Rightarrow> bool result option) \<Rightarrow> 's \<Rightarrow> nat \<Rightarrow> nat \<Rightarrow> 'k list \<Rightarrow> 'k list result option"
where
  "friends_loop contains s out_cap sz [] = Some (Inr [])"
| "friends_loop contains s out_cap sz (x # xs) =
     (if sz = out_cap then Some (Inr [])
      else
        bindO (contains s x) (\<lambda>known.
          if known then bindO (friends_loop contains s out_cap (sz + 1) xs) (\<lambda>out. Some (Inr (x # out)))
          else friends_loop contains s out_cap sz xs))"

definition punch_get_inbound_friend_addr ::
    "(address \<Rightarrow> nat) \<Rightarrow> nat_punch \<Rightarrow> nat \<Rightarrow> nat \<Rightarrow> address list result option"
where
  "punch_get_inbound_friend_addr hasher n off out_cap =
     (let trimmed_off = min off (temporal_size (inbound_ip_set n))
      in friends_loop (temporal_contains hasher) (outbound_ip_set n) out_cap 0
           (drop trimmed_off (temporal_items (inbound_ip_set n))))"

definition page :: "'k node_set \<Rightarrow> nat \<Rightarrow> nat \<Rightarrow> 'k list" where
  "page s off out_cap =
     (let trimmed_off = min off (temporal_size s);
          peek_cap = temporal_size s - trimmed_off;
          sz = min out_cap peek_cap
      in take sz (drop trimmed_off (temporal_items s)))"

definition punch_get_outbound_friend_addr :: "nat_punch \<Rightarrow> nat \<Rightarrow> nat \<Rightarrow> address list" where
  "punch_get_outbound_friend_addr n off out_cap = page (outbound_ip_set n) off out_cap"

definition get_synchronous_natpunch_ip_controller :: "nat \<Rightarrow> nat \<Rightarrow> (exception_t + nat_punch) result" where
  "get_synchronous_natpunch_ip_controller inbound_set_capacity outbound_set_capacity =
     (if \<not> between 1 (2 ^ 25) inbound_set_capacity then Inr (Inl INVALID_ARGUMENT)
      else if \<not> between 1 (2 ^ 25) outbound_set_capacity then Inr (Inl INVALID_ARGUMENT)
      else
        bindR (temporal_new inbound_set_capacity) (\<lambda>i.
        bindR (temporal_new outbound_set_capacity) (\<lambda>out.
          Inr (Inr \<lparr>inbound_ip_set = i, outbound_ip_set = out\<rparr>))))"

section \<open>NATFriendIPController\<close>

record nat_friend =
  inbound_ip_siever :: "address \<Rightarrow> exception_t + bool"
  outbound_ip_siever :: "address \<Rightarrow> exception_t + bool"
  inbound_friend_set :: "address node_set"
  outbound_friend_set :: "address node_set"

fun siever_loop ::
    "('s \<Rightarrow> 'k \<Rightarrow> 's result option) \<Rightarrow> ('k \<Rightarrow> exception_t + bool) \<Rightarrow> 's \<Rightarrow> 'k list \<Rightarrow> (exception_t list \<times> 's) result option"
where
  "siever_loop ins siever s [] = Some (Inr ([], s))"
| "siever_loop ins siever s (x # xs) =
     (case siever x of
        Inl err \<Rightarrow> bindO (siever_loop ins siever s xs) (\<lambda>(errs, s). Some (Inr (err # errs, s)))
      | Inr b \<Rightarrow>
          if \<not> b then bindO (siever_loop ins siever s xs) (\<lambda>(errs, s). Some (Inr (SOCKET_BAD_IP_RULE # errs, s)))
          else
            bindO (ins s x) (\<lambda>s.
            bindO (siever_loop ins siever s xs) (\<lambda>(errs, s). Some (Inr (SUCCESS # errs, s)))))"

definition friend_add ::
    "(address \<Rightarrow> nat) \<Rightarrow> (address \<Rightarrow> exception_t + bool) \<Rightarrow> address node_set \<Rightarrow> address list \<Rightarrow>
     (exception_t list \<times> address node_set) result option"
where
  "friend_add hasher siever s addrs =
     (let sz = length addrs; insert_sz = min sz (temporal_capacity s)
      in bindO (siever_loop (temporal_insert hasher) siever s (take insert_sz addrs)) (\<lambda>(errs, s).
           Some (Inr (errs @ replicate (sz - insert_sz) RESOURCE_EXHAUSTION, s))))"

definition friend_add_inbound ::
    "(address \<Rightarrow> nat) \<Rightarrow> nat_friend \<Rightarrow> address list \<Rightarrow> (exception_t list \<times> nat_friend) result option"
where
  "friend_add_inbound hasher n addrs =
     bindO (friend_add hasher (inbound_ip_siever n) (inbound_friend_set n) addrs) (\<lambda>(errs, s).
       Some (Inr (errs, n\<lparr>inbound_friend_set := s\<rparr>)))"

definition friend_add_outbound ::
    "(address \<Rightarrow> nat) \<Rightarrow> nat_friend \<Rightarrow> address list \<Rightarrow> (exception_t list \<times> nat_friend) result option"
where
  "friend_add_outbound hasher n addrs =
     bindO (friend_add hasher (outbound_ip_siever n) (outbound_friend_set n) addrs) (\<lambda>(errs, s).
       Some (Inr (errs, n\<lparr>outbound_friend_set := s\<rparr>)))"

definition friend_get_inbound_friend_addr :: "nat_friend \<Rightarrow> nat \<Rightarrow> nat \<Rightarrow> address list" where
  "friend_get_inbound_friend_addr n off out_cap = page (inbound_friend_set n) off out_cap"

definition friend_get_outbound_friend_addr :: "nat_friend \<Rightarrow> nat \<Rightarrow> nat \<Rightarrow> address list" where
  "friend_get_outbound_friend_addr n off out_cap = page (outbound_friend_set n) off out_cap"

text \<open>A null pointer for a siever is \<open>None\<close>.\<close>

definition get_synchronous_natfriend_ip_controller ::
    "(address \<Rightarrow> exception_t + bool) option \<Rightarrow> (address \<Rightarrow> exception_t + bool) option \<Rightarrow> nat \<Rightarrow> nat \<Rightarrow>
     (exception_t + nat_friend) result"
where
  "get_synchronous_natfriend_ip_controller inbound_rule outbound_rule inbound_set_capacity outbound_set_capacity =
     (case (inbound_rule, outbound_rule) of
        (Some inb, Some outb) \<Rightarrow>
          if \<not> between 1 (2 ^ 25) inbound_set_capacity then Inr (Inl INVALID_ARGUMENT)
          else if \<not> between 1 (2 ^ 25) outbound_set_capacity then Inr (Inl INVALID_ARGUMENT)
          else
            bindR (temporal_new inbound_set_capacity) (\<lambda>i.
            bindR (temporal_new outbound_set_capacity) (\<lambda>out.
              Inr (Inr \<lparr>inbound_ip_siever = inb, outbound_ip_siever = outb, inbound_friend_set = i,
                       outbound_friend_set = out\<rparr>)))
      | _ \<Rightarrow> Inr (Inl INVALID_ARGUMENT))"

section \<open>NATIPController\<close>

record nat_controller =
  punch_controller :: nat_punch
  friend_controller :: nat_friend

definition first_failure :: "exception_t \<Rightarrow> exception_t \<Rightarrow> exception_t" where
  "first_failure punch_err friend_err =
     (if is_success punch_err \<and> is_success friend_err then SUCCESS
      else if is_failed punch_err then punch_err else friend_err)"

definition nat_add_inbound ::
    "(address \<Rightarrow> nat) \<Rightarrow> nat_controller \<Rightarrow> address list \<Rightarrow> (exception_t list \<times> nat_controller) result option"
where
  "nat_add_inbound hasher n addrs =
     bindO (punch_add_inbound hasher (punch_controller n) addrs) (\<lambda>(punch_errs, p).
     bindO (friend_add_inbound hasher (friend_controller n) addrs) (\<lambda>(friend_errs, f).
       Some (Inr (map2 first_failure punch_errs friend_errs, \<lparr>punch_controller = p, friend_controller = f\<rparr>))))"

definition nat_add_outbound ::
    "(address \<Rightarrow> nat) \<Rightarrow> nat_controller \<Rightarrow> address list \<Rightarrow> (exception_t list \<times> nat_controller) result option"
where
  "nat_add_outbound hasher n addrs =
     bindO (punch_add_outbound hasher (punch_controller n) addrs) (\<lambda>(punch_errs, p).
     bindO (friend_add_outbound hasher (friend_controller n) addrs) (\<lambda>(friend_errs, f).
       Some (Inr (map2 first_failure punch_errs friend_errs, \<lparr>punch_controller = p, friend_controller = f\<rparr>))))"

text \<open>\<open>off + cap\<close> is a sum of two \<open>size_t\<close>.\<close>

definition setify :: "(address list \<Rightarrow> address list) \<Rightarrow> address list \<Rightarrow> address list" where
  "setify order xs = order (remdups xs)"

definition nat_get_inbound_friend_addr ::
    "(address \<Rightarrow> nat) \<Rightarrow> (address list \<Rightarrow> address list) \<Rightarrow> nat_controller \<Rightarrow> nat \<Rightarrow> nat \<Rightarrow> address list result option"
where
  "nat_get_inbound_friend_addr hasher order n off out_cap =
     (let punch_sz = temporal_size (inbound_ip_set (punch_controller n))
      in bindO
           (if off < punch_sz then
              bindO (punch_get_inbound_friend_addr hasher (punch_controller n) off out_cap) (\<lambda>xs.
                if (off + out_cap) mod 2 ^ 64 \<le> punch_sz then Some (Inr xs)
                else Some (Inr (xs @ friend_get_inbound_friend_addr (friend_controller n) 0 (out_cap - length xs))))
            else Some (Inr (friend_get_inbound_friend_addr (friend_controller n) (off - punch_sz) out_cap)))
           (\<lambda>xs. Some (Inr (setify order xs))))"

definition nat_get_inbound_friend_addr_iteration_size :: "nat_controller \<Rightarrow> nat" where
  "nat_get_inbound_friend_addr_iteration_size n =
     temporal_size (inbound_ip_set (punch_controller n)) + temporal_size (inbound_friend_set (friend_controller n))"

definition nat_get_outbound_friend_addr ::
    "(address list \<Rightarrow> address list) \<Rightarrow> nat_controller \<Rightarrow> nat \<Rightarrow> nat \<Rightarrow> address list"
where
  "nat_get_outbound_friend_addr order n off out_cap =
     (let punch_sz = temporal_size (outbound_ip_set (punch_controller n));
          xs = punch_get_outbound_friend_addr (punch_controller n) off out_cap
      in setify order
           (if off < punch_sz then
              if (off + out_cap) mod 2 ^ 64 \<le> punch_sz then xs
              else xs @ friend_get_outbound_friend_addr (friend_controller n) 0 (out_cap - length xs)
            else friend_get_outbound_friend_addr (friend_controller n) (off - punch_sz) out_cap))"

definition get_nat_ip_controller ::
    "(address \<Rightarrow> exception_t + bool) option \<Rightarrow> (address \<Rightarrow> exception_t + bool) option \<Rightarrow> nat \<Rightarrow> nat \<Rightarrow>
     (exception_t + nat_controller) result"
where
  "get_nat_ip_controller inbound_rule outbound_rule inbound_set_capacity outbound_set_capacity =
     bindE (get_synchronous_natpunch_ip_controller inbound_set_capacity outbound_set_capacity) (\<lambda>p.
     bindE (get_synchronous_natfriend_ip_controller inbound_rule outbound_rule inbound_set_capacity outbound_set_capacity) (\<lambda>f.
       Inr (Inr \<lparr>punch_controller = p, friend_controller = f\<rparr>)))"

section \<open>The border controllers\<close>

fun finite_set_insert :: "'a list \<Rightarrow> nat \<Rightarrow> 'a list \<Rightarrow> nat \<times> 'a list" where
  "finite_set_insert container container_cap [] = (0, container)"
| "finite_set_insert container container_cap (x # xs) =
     (if length container = container_cap then (0, container)
      else apfst Suc (finite_set_insert (List.insert x container) container_cap xs))"

fun traffic_loop :: "traffic_controller \<Rightarrow> address list \<Rightarrow> exception_t list \<times> traffic_controller" where
  "traffic_loop tc [] = ([], tc)"
| "traffic_loop tc (a # addrs) =
     (let (status, tc) = traffic_thru tc a;
          err = (case status of Inl err \<Rightarrow> err | Inr thru \<Rightarrow> if \<not> thru then SOCKET_BAD_TRAFFIC else SUCCESS)
      in apfst (Cons err) (traffic_loop tc addrs))"

record border =
  border_traffic :: traffic_controller
  ip_side_set :: "address list"
  ip_side_set_cap :: nat
  border_consume_sz :: nat

record inbound_border = border +
  thru_ip_set :: "address list"

definition border_thru :: "'b border_scheme \<Rightarrow> address list \<Rightarrow> exception_t list \<times> 'b border_scheme" where
  "border_thru b addrs =
     (let (insert_sz, side) = finite_set_insert (ip_side_set b) (ip_side_set_cap b) addrs;
          (errs, tc) = traffic_loop (border_traffic b) addrs
      in (errs, b\<lparr>ip_side_set := side, border_traffic := tc\<rparr>))"

definition inbound_update ::
    "(address \<Rightarrow> nat) \<Rightarrow> (address list \<Rightarrow> address list) \<Rightarrow> inbound_border \<Rightarrow> nat_controller \<Rightarrow>
     (inbound_border \<times> nat_controller) result option"
where
  "inbound_update hasher order b n =
     bindO (nat_add_inbound hasher n (order (ip_side_set b))) (\<lambda>(errs, n).
     bindO (nat_get_inbound_friend_addr hasher order n 0 (nat_get_inbound_friend_addr_iteration_size n)) (\<lambda>addrs.
       Some (Inr (b\<lparr>ip_side_set := [], border_traffic := traffic_reset (border_traffic b),
                    thru_ip_set := fold List.insert addrs []\<rparr>, n))))"

definition outbound_update ::
    "(address \<Rightarrow> nat) \<Rightarrow> (address list \<Rightarrow> address list) \<Rightarrow> border \<Rightarrow> nat_controller \<Rightarrow> (border \<times> nat_controller) result option"
where
  "outbound_update hasher order b n =
     bindO (nat_add_outbound hasher n (order (ip_side_set b))) (\<lambda>(errs, n).
       Some (Inr (b\<lparr>ip_side_set := [], border_traffic := traffic_reset (border_traffic b)\<rparr>, n)))"

definition empty_border_thru :: "address list \<Rightarrow> exception_t list" where
  "empty_border_thru addrs = replicate (length addrs) SUCCESS"

text \<open>A null pointer for the controller of the NAT addresses is \<open>None\<close>.\<close>

definition internal_get_border_controller ::
    "'n option \<Rightarrow> nat \<Rightarrow> nat \<Rightarrow> nat \<Rightarrow> nat \<Rightarrow> nat \<Rightarrow> (exception_t + border) result"
where
  "internal_get_border_controller natip_controller peraddr_capacity global_capacity addr_capacity
       side_update_buf_capacity consume_factor =
     (if natip_controller = None then Inr (Inl INVALID_ARGUMENT)
      else if \<not> between 1 (2 ^ 25) side_update_buf_capacity then Inr (Inl INVALID_ARGUMENT)
      else
        bindR (shift_down side_update_buf_capacity consume_factor) (\<lambda>tentative_consume_sz.
        bindE (Inr (get_synchronous_traffic_controller peraddr_capacity global_capacity addr_capacity)) (\<lambda>tc.
          Inr (Inr \<lparr>border_traffic = tc, ip_side_set = [], ip_side_set_cap = side_update_buf_capacity,
                   border_consume_sz = max tentative_consume_sz 1\<rparr>))))"

definition internal_get_outbound_border_controller ::
    "'n option \<Rightarrow> nat \<Rightarrow> nat \<Rightarrow> nat \<Rightarrow> nat \<Rightarrow> nat \<Rightarrow> (exception_t + border) result"
where
  "internal_get_outbound_border_controller = internal_get_border_controller"

definition internal_get_inbound_border_controller ::
    "'n option \<Rightarrow> nat \<Rightarrow> nat \<Rightarrow> nat \<Rightarrow> nat \<Rightarrow> nat \<Rightarrow> (exception_t + inbound_border) result"
where
  "internal_get_inbound_border_controller natip_controller peraddr_capacity global_capacity addr_capacity
       side_update_buf_capacity consume_factor =
     bindE (internal_get_border_controller natip_controller peraddr_capacity global_capacity addr_capacity
              side_update_buf_capacity consume_factor) (\<lambda>b.
       Inr (Inr (border.extend b \<lparr>thru_ip_set = []\<rparr>)))"

section \<open>Limits of the traffic\<close>

text \<open>What is let through, in terms of the addresses let through since the last reset.\<close>

definition lets_through :: "nat \<Rightarrow> nat \<Rightarrow> nat \<Rightarrow> address list \<Rightarrow> address \<Rightarrow> bool" where
  "lets_through per_address overall addresses passed a \<longleftrightarrow>
     length passed < overall \<and> count_list passed a < per_address \<and>
     (a \<in> set passed \<or> card (set passed) < addresses)"

definition counts :: "traffic_controller \<Rightarrow> address list \<Rightarrow> bool" where
  "counts tc passed \<longleftrightarrow>
     global_counter tc = length passed \<and> length passed \<le> global_cap tc \<and>
     map_of (address_counter_map tc) = (\<lambda>a. if a \<in> set passed then Some (count_list passed a) else None) \<and>
     distinct (map fst (address_counter_map tc)) \<and> card (set passed) \<le> map_cap tc \<and>
     (\<forall>a. count_list passed a \<le> address_cap tc) \<and> 0 < address_cap tc"

definition same_caps :: "traffic_controller \<Rightarrow> traffic_controller \<Rightarrow> bool" where
  "same_caps tc tc' \<longleftrightarrow>
     address_cap tc' = address_cap tc \<and> global_cap tc' = global_cap tc \<and> map_cap tc' = map_cap tc"

lemma counts_entries:
  assumes "counts tc passed"
  shows "length (address_counter_map tc) = card (set passed)"
proof -
  let ?m = "address_counter_map tc"
  have "set (map fst ?m) = dom (map_of ?m)" by (simp add: dom_map_of_conv_image_fst)
  also have "\<dots> = set passed" using assms by (auto simp: counts_def dom_def split: if_splits)
  finally show ?thesis
    using assms distinct_card [of "map fst ?m"] by (simp add: counts_def)
qed

lemma counts_pass:
  assumes "counts tc passed" and "length passed < global_cap tc" and "count_list passed a < address_cap tc"
    and "a \<in> set passed \<or> card (set passed) < map_cap tc"
    and "m = address_counter_map tc \<or> m = AList.update a 0 (address_counter_map tc)"
  shows "counts (tc\<lparr>address_counter_map := AList.update a (count_list passed a + 1) m,
      global_counter := global_counter tc + 1\<rparr>) (a # passed)"
proof -
  let ?m = "AList.update a (count_list passed a + 1) m"
  have "map_of ?m = (map_of (address_counter_map tc))(a \<mapsto> count_list passed a + 1)"
    using assms(5) by (auto simp: AList.update_conv')
  also have "\<dots> = (\<lambda>x. if x \<in> set (a # passed) then Some (count_list (a # passed) x) else None)"
    using assms(1) by (auto simp: counts_def fun_eq_iff)
  finally have "map_of ?m = (\<lambda>x. if x \<in> set (a # passed) then Some (count_list (a # passed) x) else None)" .
  moreover have "distinct (map fst ?m)" using assms(1,5) by (auto simp: counts_def AList.distinct_update)
  ultimately show ?thesis using assms by (auto simp: counts_def card_insert_if)
qed

lemma traffic_thru_counts:
  fixes a :: address
  assumes "counts tc passed"
  defines "b \<equiv> lets_through (address_cap tc) (global_cap tc) (map_cap tc) passed a"
  shows "\<exists>tc'. traffic_thru tc a = (Inr b, tc') \<and> counts tc' (if b then a # passed else passed) \<and> same_caps tc tc'"
proof (cases "length passed = global_cap tc \<or> (a \<notin> set passed \<and> card (set passed) = map_cap tc)")
  case True
  then have "traffic_thru tc a = (Inr False, tc)" "\<not> b"
    using assms(1) counts_entries [OF assms(1)] by (auto simp: traffic_thru_def counts_def b_def lets_through_def)
  then show ?thesis using assms(1) by (simp add: same_caps_def)
next
  case room: False
  then have open_for: "length passed < global_cap tc" "a \<in> set passed \<or> card (set passed) < map_cap tc"
    using assms(1) by (auto simp: counts_def le_less)
  show ?thesis
  proof (cases "count_list passed a = address_cap tc")
    case True
    then have "a \<in> set passed" using assms(1) count_notin [of a passed] by (auto simp: counts_def)
    then have "traffic_thru tc a = (Inr False, tc)" "\<not> b"
      using assms(1) True by (auto simp: traffic_thru_def traffic_count_def counts_def b_def lets_through_def)
    then show ?thesis using assms(1) by (simp add: same_caps_def)
  next
    case False
    then have less: "count_list passed a < address_cap tc" using assms(1) by (auto simp: counts_def le_less)
    define m where "m = (if a \<in> set passed then address_counter_map tc else AList.update a 0 (address_counter_map tc))"
    let ?tc = "tc\<lparr>address_counter_map := AList.update a (count_list passed a + 1) m,
      global_counter := global_counter tc + 1\<rparr>"
    have "traffic_thru tc a = (Inr True, ?tc)"
      using assms(1) open_for less counts_entries [OF assms(1)] count_notin [of a passed]
      by (auto simp: traffic_thru_def traffic_count_def counts_def m_def)
    moreover have "counts ?tc (a # passed)"
      using open_for less by (intro counts_pass [OF assms(1)]) (auto simp: m_def)
    moreover have "b" using open_for less by (simp add: b_def lets_through_def)
    ultimately show ?thesis by (simp add: same_caps_def)
  qed
qed

fun judge :: "nat \<Rightarrow> nat \<Rightarrow> nat \<Rightarrow> address list \<Rightarrow> address list \<Rightarrow> exception_t list \<times> address list" where
  "judge per_address overall addresses passed [] = ([], passed)"
| "judge per_address overall addresses passed (a # addrs) =
     (if lets_through per_address overall addresses passed a
      then apfst (Cons SUCCESS) (judge per_address overall addresses (a # passed) addrs)
      else apfst (Cons SOCKET_BAD_TRAFFIC) (judge per_address overall addresses passed addrs))"

lemma same_caps_trans: "same_caps a b \<Longrightarrow> same_caps b c \<Longrightarrow> same_caps a c"
  by (simp add: same_caps_def)

lemma traffic_loop_counts:
  "counts tc passed \<Longrightarrow>
   \<exists>tc'. traffic_loop tc addrs = (fst (judge (address_cap tc) (global_cap tc) (map_cap tc) passed addrs), tc') \<and>
     counts tc' (snd (judge (address_cap tc) (global_cap tc) (map_cap tc) passed addrs)) \<and> same_caps tc tc'"
proof (induction addrs arbitrary: tc passed)
  case (Cons a addrs)
  let ?b = "lets_through (address_cap tc) (global_cap tc) (map_cap tc) passed a"
  obtain tc' where tc': "traffic_thru tc a = (Inr ?b, tc')" "counts tc' (if ?b then a # passed else passed)" "same_caps tc tc'"
    using traffic_thru_counts [OF Cons.prems, of a] by blast
  from Cons.IH [OF tc'(2)] tc'(1,3) show ?case
    by (cases ?b) (auto simp: same_caps_def)
qed (simp add: same_caps_def)

lemma judge_sound:
  "length passed \<le> overall \<Longrightarrow> (\<forall>a. count_list passed a \<le> per_address) \<Longrightarrow> card (set passed) \<le> addresses \<Longrightarrow>
   (let ps = snd (judge per_address overall addresses passed addrs)
    in length ps \<le> overall \<and> (\<forall>a. count_list ps a \<le> per_address) \<and> card (set ps) \<le> addresses)"
proof (induction addrs arbitrary: passed)
  case (Cons a addrs)
  show ?case
  proof (cases "lets_through per_address overall addresses passed a")
    case True
    then have "length (a # passed) \<le> overall" "\<forall>x. count_list (a # passed) x \<le> per_address"
        "card (set (a # passed)) \<le> addresses"
      using Cons.prems by (auto simp: lets_through_def card_insert_if)
    from Cons.IH [OF this] show ?thesis using True by (simp add: Let_def)
  next
    case False
    then show ?thesis using Cons.IH [OF Cons.prems] by (simp add: Let_def)
  qed
qed simp

section \<open>Calls of a border in sequence\<close>

datatype border_call = Border_thru "address list" | Border_update

fun run_border ::
    "('b border_scheme \<Rightarrow> 'n \<Rightarrow> ('b border_scheme \<times> 'n) result option) \<Rightarrow> 'b border_scheme \<Rightarrow> 'n \<Rightarrow> border_call list \<Rightarrow>
     (exception_t list \<times> 'b border_scheme \<times> 'n) result option"
where
  "run_border update b n [] = Some (Inr ([], b, n))"
| "run_border update b n (Border_thru addrs # calls) =
     (let (errs, b) = border_thru b addrs
      in bindO (run_border update b n calls) (\<lambda>(errs', r). Some (Inr (errs @ errs', r))))"
| "run_border update b n (Border_update # calls) = bindO (update b n) (\<lambda>(b, n). run_border update b n calls)"

fun judge_calls :: "nat \<Rightarrow> nat \<Rightarrow> nat \<Rightarrow> address list \<Rightarrow> border_call list \<Rightarrow> exception_t list" where
  "judge_calls per_address overall addresses passed [] = []"
| "judge_calls per_address overall addresses passed (Border_thru addrs # calls) =
     (let (errs, passed) = judge per_address overall addresses passed addrs
      in errs @ judge_calls per_address overall addresses passed calls)"
| "judge_calls per_address overall addresses passed (Border_update # calls) =
     judge_calls per_address overall addresses [] calls"

locale updatable_border =
  fixes update :: "'b border_scheme \<Rightarrow> 'n \<Rightarrow> ('b border_scheme \<times> 'n) result option"
    and live :: "'n \<Rightarrow> bool"
  assumes update_ok: "live n \<Longrightarrow> \<exists>b' n'. update b n = Some (Inr (b', n')) \<and> live n' \<and>
    border_traffic b' = traffic_reset (border_traffic b)"
begin

lemma run_ok:
  assumes "live n" and "counts (border_traffic b) passed"
  shows "\<exists>r. run_border update b n calls = Some (Inr (judge_calls (address_cap (border_traffic b))
    (global_cap (border_traffic b)) (map_cap (border_traffic b)) passed calls, r))"
  using assms
proof (induction calls arbitrary: b n passed)
  case (Cons call calls)
  let ?tc = "border_traffic b"
  show ?case
  proof (cases call)
    case (Border_thru addrs)
    let ?r = "judge (address_cap ?tc) (global_cap ?tc) (map_cap ?tc) passed addrs"
    obtain tc where tc: "traffic_loop ?tc addrs = (fst ?r, tc)" "counts tc (snd ?r)" "same_caps ?tc tc"
      using traffic_loop_counts [OF Cons.prems(2), of addrs] by blast
    obtain k side where "finite_set_insert (ip_side_set b) (ip_side_set_cap b) addrs = (k, side)" by fastforce
    then have thru: "border_thru b addrs = (fst ?r, b\<lparr>ip_side_set := side, border_traffic := tc\<rparr>)"
      using tc(1) by (simp add: border_thru_def)
    from Cons.IH [OF Cons.prems(1), of "b\<lparr>ip_side_set := side, border_traffic := tc\<rparr>" "snd ?r"] tc(2,3)
    show ?thesis by (auto simp: Border_thru thru same_caps_def split_beta)
  next
    case Border_update
    obtain b' n' where u: "update b n = Some (Inr (b', n'))" "live n'" "border_traffic b' = traffic_reset ?tc"
      using update_ok [OF Cons.prems(1)] by blast
    have "counts (border_traffic b') []" using Cons.prems(2) u(3) by (simp add: counts_def traffic_reset_def)
    from Cons.IH [OF u(2) this] u(1,3) show ?thesis by (simp add: Border_update traffic_reset_def)
  qed
qed simp

end

section \<open>The NAT addresses\<close>

context recent_set
begin

lemma insert_all_ok:
  "ok s \<Longrightarrow> \<exists>s'. insert_all ins s ks = Some (Inr s') \<and> ok s' \<and> room s' = room s \<and>
     window s' = fold (\<lambda>k w. snd (remember (room s) w k)) ks (window s)"
proof (induction ks arbitrary: s)
  case (Cons k ks)
  obtain s' where "ins s k = Some (Inr s')" "ok s'" "room s' = room s" "window s' = snd (remember (room s) (window s) k)"
    using ins_eq [OF Cons.prems, of k] by blast
  then show ?case using Cons.IH [of s'] by auto
qed simp

lemma siever_loop_ok:
  "ok s \<Longrightarrow> \<exists>s'. siever_loop ins siever s ks = Some (Inr (map (\<lambda>k. case siever k of Inl e \<Rightarrow> e
       | Inr b \<Rightarrow> if b then SUCCESS else SOCKET_BAD_IP_RULE) ks, s')) \<and> ok s' \<and> room s' = room s \<and>
     window s' = fold (\<lambda>k w. snd (remember (room s) w k)) (filter (\<lambda>k. siever k = Inr True) ks) (window s)"
proof (induction ks arbitrary: s)
  case (Cons k ks)
  obtain s' where s': "ins s k = Some (Inr s')" "ok s'" "room s' = room s" "window s' = snd (remember (room s) (window s) k)"
    using ins_eq [OF Cons.prems, of k] by blast
  show ?case
  proof (cases "siever k = Inr True")
    case True
    then show ?thesis using Cons.IH [OF s'(2)] s' by auto
  next
    case False
    then show ?thesis using Cons.IH [OF Cons.prems] by (auto split: sum.split)
  qed
qed simp

lemma friends_loop_ok:
  "ok s \<Longrightarrow> sz \<le> out_cap \<Longrightarrow>
   friends_loop contains s out_cap sz ks = Some (Inr (take (out_cap - sz) (filter (\<lambda>k. k \<in> set (window s)) ks)))"
proof (induction ks arbitrary: sz)
  case (Cons k ks)
  show ?case
  proof (cases "sz = out_cap")
    case False
    then have "out_cap - sz = Suc (out_cap - (sz + 1))" using Cons.prems(2) by simp
    then show ?thesis
      using Cons.IH [OF Cons.prems(1), of sz] Cons.IH [OF Cons.prems(1), of "sz + 1"] Cons.prems(2) False
        contains_eq [OF Cons.prems(1), of k]
      by auto
  qed simp
qed simp

end

definition nat_live :: "(address \<Rightarrow> nat) \<Rightarrow> nat_controller \<Rightarrow> bool" where
  "nat_live hasher n \<longleftrightarrow>
     set_live hasher (inbound_ip_set (punch_controller n)) \<and> set_live hasher (outbound_ip_set (punch_controller n)) \<and>
     set_live hasher (inbound_friend_set (friend_controller n)) \<and> set_live hasher (outbound_friend_set (friend_controller n))"

text \<open>What an \<open>add\<close> remembers of the addresses: those the set has buckets for, and of these those the siever lets through.\<close>

definition added :: "'k node_set \<Rightarrow> ('k \<Rightarrow> bool) \<Rightarrow> 'k list \<Rightarrow> 'k list" where
  "added s P addrs = fold (\<lambda>k w. snd (remember (storage_cap s) w k))
     (filter P (take (min (length addrs) (temporal_capacity s)) addrs)) (temporal_items s)"

lemma punch_add_ok:
  assumes "set_live hasher s"
  shows "\<exists>s'. punch_add hasher s addrs = Some (Inr (replicate (min (length addrs) (temporal_capacity s)) SUCCESS @
      replicate (length addrs - min (length addrs) (temporal_capacity s)) RESOURCE_EXHAUSTION, s')) \<and>
    set_live hasher s' \<and> storage_cap s' = storage_cap s \<and> temporal_items s' = added s (\<lambda>_. True) addrs"
  using temporal.insert_all_ok [OF assms, of "take (min (length addrs) (temporal_capacity s)) addrs"]
  by (auto simp: punch_add_def Let_def added_def)

lemma friend_add_ok:
  assumes "set_live hasher s"
  shows "\<exists>errs s'. friend_add hasher siever s addrs = Some (Inr (errs, s')) \<and> length errs = length addrs \<and>
    set_live hasher s' \<and> storage_cap s' = storage_cap s \<and> temporal_items s' = added s (\<lambda>a. siever a = Inr True) addrs"
  using temporal.siever_loop_ok [OF assms, of siever "take (min (length addrs) (temporal_capacity s)) addrs"]
  by (auto simp: friend_add_def Let_def added_def)

lemma nat_add_inbound_ok:
  assumes "nat_live hasher n"
  shows "\<exists>errs n'. nat_add_inbound hasher n addrs = Some (Inr (errs, n')) \<and> nat_live hasher n' \<and>
    storage_cap (inbound_ip_set (punch_controller n')) = storage_cap (inbound_ip_set (punch_controller n)) \<and>
    temporal_items (inbound_ip_set (punch_controller n')) = added (inbound_ip_set (punch_controller n)) (\<lambda>_. True) addrs \<and>
    outbound_ip_set (punch_controller n') = outbound_ip_set (punch_controller n)"
proof -
  from assms have p: "set_live hasher (inbound_ip_set (punch_controller n))"
    and f: "set_live hasher (inbound_friend_set (friend_controller n))" by (simp_all add: nat_live_def)
  show ?thesis
    using punch_add_ok [OF p, of addrs] friend_add_ok [OF f, of "inbound_ip_siever (friend_controller n)" addrs] assms
    by (auto simp: nat_add_inbound_def punch_add_inbound_def friend_add_inbound_def nat_live_def)
qed

lemma nat_add_outbound_ok:
  assumes "nat_live hasher n"
  shows "\<exists>errs n'. nat_add_outbound hasher n addrs = Some (Inr (errs, n')) \<and> nat_live hasher n' \<and>
    temporal_items (outbound_ip_set (punch_controller n')) = added (outbound_ip_set (punch_controller n)) (\<lambda>_. True) addrs \<and>
    inbound_ip_set (punch_controller n') = inbound_ip_set (punch_controller n)"
proof -
  from assms have p: "set_live hasher (outbound_ip_set (punch_controller n))"
    and f: "set_live hasher (outbound_friend_set (friend_controller n))" by (simp_all add: nat_live_def)
  show ?thesis
    using punch_add_ok [OF p, of addrs] friend_add_ok [OF f, of "outbound_ip_siever (friend_controller n)" addrs] assms
    by (auto simp: nat_add_outbound_def punch_add_outbound_def friend_add_outbound_def nat_live_def)
qed

lemma length_items: "set_live hasher s \<Longrightarrow> length (temporal_items s) = temporal_size s"
  by (simp add: temporal_items_def temporal_size_def)

lemma punch_get_ok:
  assumes "nat_live hasher n"
  shows "punch_get_inbound_friend_addr hasher (punch_controller n) off out_cap =
    Some (Inr (take out_cap (filter (\<lambda>a. a \<in> set (temporal_items (outbound_ip_set (punch_controller n))))
      (drop off (temporal_items (inbound_ip_set (punch_controller n)))))))"
proof -
  from assms have o: "set_live hasher (outbound_ip_set (punch_controller n))" by (simp add: nat_live_def)
  have "drop (min off (temporal_size s)) (temporal_items s) = drop off (temporal_items s)" for s :: "address node_set"
    by (cases "off \<le> temporal_size s") (simp_all add: temporal_items_def temporal_size_def min_def)
  then show ?thesis
    using temporal.friends_loop_ok [OF o, of 0 out_cap] by (simp add: punch_get_inbound_friend_addr_def Let_def)
qed

lemma nat_get_inbound_total:
  "nat_live hasher n \<Longrightarrow> \<exists>out. nat_get_inbound_friend_addr hasher order n off out_cap = Some (Inr out)"
  using punch_get_ok by (auto simp: nat_get_inbound_friend_addr_def Let_def)

interpretation inbound_border: updatable_border "inbound_update hasher order" "nat_live hasher" for hasher order
proof unfold_locales
  fix n :: nat_controller and b :: inbound_border
  assume "nat_live hasher n"
  then obtain errs n' where n': "nat_add_inbound hasher n (order (ip_side_set b)) = Some (Inr (errs, n'))" "nat_live hasher n'"
    using nat_add_inbound_ok by blast
  then show "\<exists>b' n'. inbound_update hasher order b n = Some (Inr (b', n')) \<and> nat_live hasher n' \<and>
      border_traffic b' = traffic_reset (border_traffic b)"
    using nat_get_inbound_total [OF n'(2), of order 0 "nat_get_inbound_friend_addr_iteration_size n'"]
    by (auto simp: inbound_update_def)
qed

interpretation outbound_border: updatable_border "outbound_update hasher order" "nat_live hasher" for hasher order
proof unfold_locales
  fix n :: nat_controller and b :: border
  assume "nat_live hasher n"
  then obtain errs n' where "nat_add_outbound hasher n (order (ip_side_set b)) = Some (Inr (errs, n'))" "nat_live hasher n'"
    using nat_add_outbound_ok by blast
  then show "\<exists>b' n'. outbound_update hasher order b n = Some (Inr (b', n')) \<and> nat_live hasher n' \<and>
      border_traffic b' = traffic_reset (border_traffic b)"
    by (simp add: outbound_update_def)
qed

lemma bindE_eq_Inr: "bindE m f = Inr (Inr y) \<longleftrightarrow> (\<exists>x. m = Inr (Inr x) \<and> f x = Inr (Inr y))"
proof (cases m)
  case (Inr r)
  then show ?thesis by (cases r) simp_all
qed simp

lemma nat_made:
  assumes "get_nat_ip_controller inb outb inbound_cap outbound_cap = Inr (Inr n)"
  shows "nat_live hasher n" "temporal_items (inbound_ip_set (punch_controller n)) = []"
    "temporal_items (outbound_ip_set (punch_controller n)) = []"
    "temporal_new inbound_cap = Inr (inbound_ip_set (punch_controller n))"
    "temporal_new outbound_cap = Inr (outbound_ip_set (punch_controller n))"
proof -
  obtain p f where *: "get_synchronous_natpunch_ip_controller inbound_cap outbound_cap = Inr (Inr p)"
      "get_synchronous_natfriend_ip_controller inb outb inbound_cap outbound_cap = Inr (Inr f)"
      "n = \<lparr>punch_controller = p, friend_controller = f\<rparr>"
    using assms by (auto simp: get_nat_ip_controller_def bindE_eq_Inr)
  from *(1) have p: "temporal_new inbound_cap = Inr (inbound_ip_set p)" "temporal_new outbound_cap = Inr (outbound_ip_set p)"
    by (auto simp: get_synchronous_natpunch_ip_controller_def bindR_eq_Inr split: if_splits)
  from *(2) have f: "temporal_new inbound_cap = Inr (inbound_friend_set f)" "temporal_new outbound_cap = Inr (outbound_friend_set f)"
    by (auto simp: get_synchronous_natfriend_ip_controller_def bindR_eq_Inr split: if_splits option.splits)
  show "nat_live hasher n"
    using temporal_new_ok(1) [OF p(1)] temporal_new_ok(1) [OF p(2)] temporal_new_ok(1) [OF f(1)] temporal_new_ok(1) [OF f(2)]
    by (simp add: nat_live_def *(3))
  show "temporal_items (inbound_ip_set (punch_controller n)) = []" "temporal_items (outbound_ip_set (punch_controller n)) = []"
    using temporal_new_ok(2) [OF p(1)] temporal_new_ok(2) [OF p(2)] by (simp_all add: *(3))
  show "temporal_new inbound_cap = Inr (inbound_ip_set (punch_controller n))"
    "temporal_new outbound_cap = Inr (outbound_ip_set (punch_controller n))" using p by (simp_all add: *(3))
qed

lemma border_made:
  assumes "internal_get_border_controller ctrl per_address overall addresses side_cap cf = Inr (Inr b)"
  shows "counts (border_traffic b) []" "address_cap (border_traffic b) = per_address"
    "global_cap (border_traffic b) = overall" "map_cap (border_traffic b) = addresses" "ip_side_set b = []"
  using assms
  by (auto simp: internal_get_border_controller_def get_synchronous_traffic_controller_def counts_def between_def
      bindR_eq_Inr bindE_def split: if_splits sum.splits)

lemma inbound_border_made:
  assumes "internal_get_inbound_border_controller ctrl per_address overall addresses side_cap cf = Inr (Inr b)"
  obtains b0 where "internal_get_border_controller ctrl per_address overall addresses side_cap cf = Inr (Inr b0)"
    and "border_traffic b = border_traffic b0"
  using assms
  by (auto simp: internal_get_inbound_border_controller_def bindE_eq_Inr border.extend_def)

section \<open>Properties\<close>

lemma fold_insert_set: "set (fold List.insert xs ys) = set xs \<union> set ys"
  by (induction xs arbitrary: ys) auto

text \<open>
  C27: An \<open>InBoundBorderController\<close> answers exactly by the limits of its traffic controller. In whatever order batches of
  addresses and updates come, an address is let through if and only if since the last update fewer than
  \<open>global_capacity\<close> addresses were let through, this one fewer than \<open>peraddr_capacity\<close> times, and it is one of those or these
  are fewer than \<open>addr_capacity\<close> different ones; all others are answered \<open>SOCKET_BAD_TRAFFIC\<close>. Nothing is aborted.
\<close>
theorem inbound_border_exact:
  assumes "internal_get_inbound_border_controller (Some n) per_address overall addresses side_cap consume_factor = Inr (Inr b)"
    and "get_nat_ip_controller inbound_rule outbound_rule inbound_cap outbound_cap = Inr (Inr n)"
  shows "\<exists>b' n'. run_border (inbound_update hasher order) b n calls =
      Some (Inr (judge_calls per_address overall addresses [] calls, b', n'))"
proof -
  obtain b0 where b0: "internal_get_border_controller (Some n) per_address overall addresses side_cap consume_factor = Inr (Inr b0)"
      "border_traffic b = border_traffic b0"
    using inbound_border_made [OF assms(1)] by blast
  note made = border_made [OF b0(1)]
  obtain r where "run_border (inbound_update hasher order) b n calls = Some (Inr (judge_calls per_address overall addresses [] calls, r))"
    using inbound_border.run_ok [OF nat_made(1) [OF assms(2)], of b "[]" hasher order calls] made b0(2) by auto
  then show ?thesis by (cases r) auto
qed

text \<open>
  an \<open>OutBoundBorderController\<close> answers in the same way.
\<close>
theorem outbound_border_exact:
  assumes "internal_get_outbound_border_controller (Some n) per_address overall addresses side_cap consume_factor = Inr (Inr b)"
    and "get_nat_ip_controller inbound_rule outbound_rule inbound_cap outbound_cap = Inr (Inr n)"
  shows "\<exists>b' n'. run_border (outbound_update hasher order) b n calls =
      Some (Inr (judge_calls per_address overall addresses [] calls, b', n'))"
proof -
  note made = border_made [OF assms(1) [unfolded internal_get_outbound_border_controller_def]]
  obtain r where "run_border (outbound_update hasher order) b n calls = Some (Inr (judge_calls per_address overall addresses [] calls, r))"
    using outbound_border.run_ok [OF nat_made(1) [OF assms(2)], of b "[]" hasher order calls] made by auto
  then show ?thesis by (cases r) auto
qed

lemma temporal_new_capacity:
  assumes "temporal_new cap = Inr s"
  shows "temporal_capacity s = 2 * storage_cap s"
proof -
  obtain k where k: "next_pow2 (cap * 2) = 2 ^ k" using next_pow2_power by blast
  have even: "even (max (next_pow2 (cap * 2)) 8)"
    using k by (cases k) (auto simp: max_def)
  have new: "node_set_new (size_to_capacity cap) = Inr s" using assms by (simp add: temporal_new_def)
  then have "temporal_capacity s = max (next_pow2 (cap * 2)) 8"
    by (auto simp: temporal_capacity_def node_set_new_def size_to_capacity_def min_size_clamp_def MIN_CAP_def bindR_eq_Inr split: if_splits)
  then show ?thesis using new_ok(4) [OF new] even by (simp add: size_to_capacity_def)
qed

text \<open>A set as a factory makes it has twice as many buckets as it has room, and keeps them.\<close>

definition ample :: "('k \<Rightarrow> nat) \<Rightarrow> 'k node_set \<Rightarrow> bool" where
  "ample hasher s \<longleftrightarrow> set_live hasher s \<and> temporal_capacity s = 2 * storage_cap s"

interpretation roomy: recent_set "temporal_contains hasher" "temporal_insert hasher" temporal_items "ample hasher" storage_cap for hasher
proof unfold_locales
  fix s :: "'a node_set" and k :: 'a
  assume ok: "ample hasher s"
  then have live: "set_live hasher s" by (simp add: ample_def)
  show "0 < storage_cap s" "distinct (temporal_items s) \<and> length (temporal_items s) \<le> storage_cap s"
      "temporal_contains hasher s k = Some (Inr (k \<in> set (temporal_items s)))"
    using live temporal.window_ok [OF live] temporal.contains_eq [OF live] by blast+
  obtain ch where ch: "indexed hasher s ch" using live by (auto simp: set_ok_def)
  obtain s' ch' where s': "set_insert hasher s k = Some (Inr (fst (remember (storage_cap s) (keys s) k), s'))" "indexed hasher s' ch'"
      "keys s' = snd (remember (storage_cap s) (keys s) k)" "storage_cap s' = storage_cap s" "length (bucket_vec s') = length (bucket_vec s)"
    using insert_ok [OF ch, of k] live by blast
  then show "\<exists>s'. temporal_insert hasher s k = Some (Inr s') \<and> ample hasher s' \<and> storage_cap s' = storage_cap s \<and>
      temporal_items s' = snd (remember (storage_cap s) (temporal_items s) k)"
    using ok by (intro exI [of _ s'])
      (auto simp: temporal_insert_def ample_def set_ok_def temporal_capacity_def temporal_items_def keys_def)
qed

lemma ample_new: "temporal_new cap = Inr s \<Longrightarrow> ample hasher s"
  using temporal_new_ok(1) [of cap s hasher] temporal_new_capacity [of cap s] by (simp add: ample_def)

section \<open>Who is a friend\<close>

text \<open>
  The promise of the borders and the NAT controllers together. A window takes of the addresses it is given at most twice as many as it has
  room for, and of these the ones its rule lets through, one after the other.
\<close>

definition enter :: "nat \<Rightarrow> ('k \<Rightarrow> bool) \<Rightarrow> 'k list \<Rightarrow> 'k list \<Rightarrow> 'k list" where
  "enter room rule addrs w = fold (\<lambda>k w. snd (remember room w k)) (filter rule (take (2 * room) addrs)) w"

definition window_room :: "nat \<Rightarrow> nat" where
  "window_room cap = max (next_pow2 (2 * cap)) 8 div 2"

record friends =
  side :: "address list"
  heard :: "address list"
  accepted :: "address list"
  sent :: "address list"
  known :: "address set"

datatype friend_call = Packets_in "address list" | Packets_out "address list" | Friends_update

primrec friends_step ::
    "nat \<Rightarrow> nat \<Rightarrow> nat \<Rightarrow> (address \<Rightarrow> bool) \<Rightarrow> (address list \<Rightarrow> address list) \<Rightarrow> friends \<Rightarrow> friend_call \<Rightarrow> friends"
where
  "friends_step room_in room_out side_cap rule order st (Packets_in addrs) =
     st\<lparr>side := fold (\<lambda>a xs. if length xs < side_cap then List.insert a xs else xs) addrs (side st)\<rparr>"
| "friends_step room_in room_out side_cap rule order st (Packets_out addrs) = st\<lparr>sent := enter room_out (\<lambda>_. True) addrs (sent st)\<rparr>"
| "friends_step room_in room_out side_cap rule order st Friends_update =
     (let addrs = order (side st); h = enter room_in (\<lambda>_. True) addrs (heard st); f = enter room_in rule addrs (accepted st)
      in st\<lparr>side := [], heard := h, accepted := f, known := set h \<inter> set (sent st) \<union> set f\<rparr>)"

text \<open>The calls of the code: batches of the inbound border, what the outbound border tells the NAT controller, and updates.\<close>

fun run_friends ::
    "(address \<Rightarrow> nat) \<Rightarrow> (address list \<Rightarrow> address list) \<Rightarrow> inbound_border \<Rightarrow> nat_controller \<Rightarrow> friend_call list \<Rightarrow>
     (inbound_border \<times> nat_controller) result option"
where
  "run_friends hasher order b n [] = Some (Inr (b, n))"
| "run_friends hasher order b n (Packets_in addrs # calls) = run_friends hasher order (snd (border_thru b addrs)) n calls"
| "run_friends hasher order b n (Packets_out addrs # calls) =
     bindO (nat_add_outbound hasher n addrs) (\<lambda>(errs, n). run_friends hasher order b n calls)"
| "run_friends hasher order b n (Friends_update # calls) =
     bindO (inbound_update hasher order b n) (\<lambda>(b, n). run_friends hasher order b n calls)"

definition befriends :: "(address \<Rightarrow> nat) \<Rightarrow> (address \<Rightarrow> exception_t + bool) \<Rightarrow> nat \<Rightarrow> nat \<Rightarrow> inbound_border \<Rightarrow> nat_controller \<Rightarrow> friends \<Rightarrow> bool" where
  "befriends hasher rule room_in room_out b n st \<longleftrightarrow>
     (let p = punch_controller n; f = friend_controller n
      in ample hasher (inbound_ip_set p) \<and> ample hasher (outbound_ip_set p) \<and>
         ample hasher (inbound_friend_set f) \<and> ample hasher (outbound_friend_set f) \<and>
         storage_cap (inbound_ip_set p) = room_in \<and> storage_cap (inbound_friend_set f) = room_in \<and>
         storage_cap (outbound_ip_set p) = room_out \<and> inbound_ip_siever f = rule \<and>
         temporal_items (inbound_ip_set p) = heard st \<and> temporal_items (outbound_ip_set p) = sent st \<and>
         temporal_items (inbound_friend_set f) = accepted st \<and>
         ip_side_set b = side st \<and> set (thru_ip_set b) = known st)"

lemma take_all: "take (min (length xs) n) xs = take n xs"
  by (simp add: min_def)

lemma punch_add_enter:
  assumes "ample hasher s"
  shows "\<exists>errs s'. punch_add hasher s addrs = Some (Inr (errs, s')) \<and> ample hasher s' \<and> storage_cap s' = storage_cap s \<and>
    temporal_items s' = enter (storage_cap s) (\<lambda>_. True) addrs (temporal_items s)"
  using roomy.insert_all_ok [OF assms, of "take (2 * storage_cap s) addrs"] assms
  by (auto simp: punch_add_def Let_def take_all enter_def ample_def)

lemma friend_add_enter:
  assumes "ample hasher s"
  shows "\<exists>errs s'. friend_add hasher siever s addrs = Some (Inr (errs, s')) \<and> ample hasher s' \<and> storage_cap s' = storage_cap s \<and>
    temporal_items s' = enter (storage_cap s) (\<lambda>a. siever a = Inr True) addrs (temporal_items s)"
  using roomy.siever_loop_ok [OF assms, of siever "take (2 * storage_cap s) addrs"] assms
  by (auto simp: friend_add_def Let_def take_all enter_def ample_def)

lemma side_eq:
  "snd (finite_set_insert xs cap addrs) = fold (\<lambda>a ys. if length ys < cap then List.insert a ys else ys) addrs xs"
  if "length xs \<le> cap"
  using that
proof (induction addrs arbitrary: xs)
  case (Cons a addrs)
  show ?case
  proof (cases "length xs = cap")
    case True
    have "fold (\<lambda>a ys. if length ys < cap then List.insert a ys else ys) ys xs = xs" for ys
      by (induction ys) (simp_all add: True)
    then show ?thesis using True by simp
  next
    case False
    then have "length (List.insert a xs) \<le> cap" using Cons.prems by (simp add: List.insert_def)
    then show ?thesis using Cons.IH False Cons.prems by simp
  qed
qed simp

lemma side_bound: "length xs \<le> cap \<Longrightarrow> length (fold (\<lambda>a ys. if length ys < cap then List.insert a ys else ys) addrs xs) \<le> cap"
  by (induction addrs arbitrary: xs) (auto simp: List.insert_def)

lemma page_all: "temporal_size s \<le> n \<Longrightarrow> page s 0 n = temporal_items s"
  by (simp add: page_def Let_def temporal_size_def temporal_items_def)

lemma ample_live: "ample hasher s \<Longrightarrow> set_live hasher s"
  by (simp add: ample_def)

lemma size_bound: "ample hasher s \<Longrightarrow> temporal_size s \<le> 2 ^ 50"
proof -
  assume "ample hasher s"
  then obtain k where "k \<le> 50" "storage_cap s = 2 ^ k" "length (storage s) \<le> storage_cap s"
    by (auto simp: ample_def set_ok_def Cyclic_Node_Set.shape_ok_def dest!: indexedD(1))
  moreover from this(1) have "(2 :: nat) ^ k \<le> 2 ^ 50" by (rule power_increasing) simp
  ultimately show ?thesis by (simp add: temporal_size_def)
qed

text \<open>One request of the iteration size gets all friends, since the two sizes do not overflow.\<close>

lemma friend_addr_eq:
  assumes "befriends hasher rule room_in room_out b n st" and "\<And>xs. mset (order xs) = mset xs"
  obtains out where "nat_get_inbound_friend_addr hasher order n 0 (nat_get_inbound_friend_addr_iteration_size n) = Some (Inr out)"
    and "set out = set (heard st) \<inter> set (sent st) \<union> set (accepted st)"
proof -
  let ?p = "inbound_ip_set (punch_controller n)" and ?f = "inbound_friend_set (friend_controller n)"
  let ?cap = "nat_get_inbound_friend_addr_iteration_size n" and ?both = "filter (\<lambda>a. a \<in> set (sent st)) (heard st)"
  have live: "nat_live hasher n" using assms(1) by (auto simp: befriends_def Let_def nat_live_def ample_def)
  have p: "ample hasher ?p" "temporal_items ?p = heard st" and f: "ample hasher ?f" "temporal_items ?f = accepted st"
    and out: "temporal_items (outbound_ip_set (punch_controller n)) = sent st"
    using assms(1) by (simp_all add: befriends_def Let_def)
  have len: "temporal_size ?p = length (heard st)" "temporal_size ?f = length (accepted st)"
    using length_items [OF ample_live [OF p(1)]] length_items [OF ample_live [OF f(1)]] p(2) f(2) by simp_all
  have cap: "?cap = length (heard st) + length (accepted st)" by (simp add: nat_get_inbound_friend_addr_iteration_size_def len)
  then have small: "?cap mod 2 ^ 64 = ?cap" using size_bound [OF p(1)] size_bound [OF f(1)] len by simp
  have "length ?both \<le> length (heard st)" by (rule length_filter_le)
  then have both: "punch_get_inbound_friend_addr hasher (punch_controller n) 0 ?cap = Some (Inr ?both)"
    using punch_get_ok [OF live, of 0 ?cap] \<open>length ?both \<le> length (heard st)\<close> cap by (simp add: p(2) out)
  have rest: "friend_get_inbound_friend_addr (friend_controller n) 0 m = accepted st" if "length (accepted st) \<le> m" for m
    using page_all [of ?f m] that by (simp add: friend_get_inbound_friend_addr_def len f(2))
  have "length (accepted st) \<le> ?cap - length ?both" using \<open>length ?both \<le> length (heard st)\<close> cap by linarith
  note rests = rest [OF this] rest [of ?cap]
  have "nat_get_inbound_friend_addr hasher order n 0 ?cap = Some (Inr (setify order
      (if heard st = [] then accepted st else if accepted st = [] then ?both else ?both @ accepted st)))"
    using both rests small cap by (auto simp: nat_get_inbound_friend_addr_def Let_def len)
  moreover have "set (order xs) = set xs" for xs by (rule mset_eq_setD [OF assms(2)])
  then have "set (setify order (if heard st = [] then accepted st else if accepted st = [] then ?both else ?both @ accepted st)) =
      set (heard st) \<inter> set (sent st) \<union> set (accepted st)" by (auto simp: setify_def)
  ultimately show thesis by (rule that)
qed

text \<open>One step of the code and one of the promise; only an update changes \<open>thru_ip_set\<close>.\<close>

lemma packets_out_befriends:
  assumes "befriends hasher rule room_in room_out b n st"
  shows "\<exists>errs n'. nat_add_outbound hasher n addrs = Some (Inr (errs, n')) \<and>
    befriends hasher rule room_in room_out b n' (st\<lparr>sent := enter room_out (\<lambda>_. True) addrs (sent st)\<rparr>)"
proof -
  let ?p = "outbound_ip_set (punch_controller n)" and ?f = "outbound_friend_set (friend_controller n)"
  have ok: "ample hasher ?p" "ample hasher ?f" using assms by (simp_all add: befriends_def Let_def)
  obtain errs p' where p': "punch_add hasher ?p addrs = Some (Inr (errs, p'))" "ample hasher p'" "storage_cap p' = storage_cap ?p"
      "temporal_items p' = enter (storage_cap ?p) (\<lambda>_. True) addrs (temporal_items ?p)"
    using punch_add_enter [OF ok(1)] by blast
  obtain errs' f' where f': "friend_add hasher (outbound_ip_siever (friend_controller n)) ?f addrs = Some (Inr (errs', f'))" "ample hasher f'"
    using friend_add_enter [OF ok(2)] by blast
  show ?thesis
    using assms p' f' by (simp add: nat_add_outbound_def punch_add_outbound_def friend_add_outbound_def befriends_def Let_def)
qed

lemma packets_in_befriends:
  assumes "befriends hasher rule room_in room_out b n st" and "nat_add_inbound hasher n addrs = Some (Inr (errs, n'))"
  shows "befriends hasher rule room_in room_out b n'
    (st\<lparr>heard := enter room_in (\<lambda>_. True) addrs (heard st), accepted := enter room_in (\<lambda>a. rule a = Inr True) addrs (accepted st)\<rparr>)"
proof -
  let ?p = "inbound_ip_set (punch_controller n)" and ?f = "inbound_friend_set (friend_controller n)"
  have ok: "ample hasher ?p" "ample hasher ?f" using assms(1) by (simp_all add: befriends_def Let_def)
  obtain es p' where p': "punch_add hasher ?p addrs = Some (Inr (es, p'))" "ample hasher p'" "storage_cap p' = storage_cap ?p"
      "temporal_items p' = enter (storage_cap ?p) (\<lambda>_. True) addrs (temporal_items ?p)"
    using punch_add_enter [OF ok(1)] by blast
  obtain es' f' where f': "friend_add hasher rule ?f addrs = Some (Inr (es', f'))" "ample hasher f'" "storage_cap f' = storage_cap ?f"
      "temporal_items f' = enter (storage_cap ?f) (\<lambda>a. rule a = Inr True) addrs (temporal_items ?f)"
    using friend_add_enter [OF ok(2)] by blast
  have "inbound_ip_siever (friend_controller n) = rule" using assms(1) by (simp add: befriends_def Let_def)
  then have "n' = \<lparr>punch_controller = (punch_controller n)\<lparr>inbound_ip_set := p'\<rparr>, friend_controller = (friend_controller n)\<lparr>inbound_friend_set := f'\<rparr>\<rparr>"
    using assms(2) p'(1) f'(1) by (simp add: nat_add_inbound_def punch_add_inbound_def friend_add_inbound_def)
  then show ?thesis using assms(1) p'(2-4) f'(2-4) by (simp add: befriends_def Let_def)
qed

lemma nat_add_inbound_total:
  "befriends hasher rule room_in room_out b n st \<Longrightarrow> \<exists>errs n'. nat_add_inbound hasher n addrs = Some (Inr (errs, n'))"
proof -
  assume "befriends hasher rule room_in room_out b n st"
  then have "nat_live hasher n" by (auto simp: befriends_def Let_def nat_live_def ample_def)
  from nat_add_inbound_ok [OF this, of addrs] show ?thesis by blast
qed

lemma update_befriends:
  assumes "befriends hasher rule room_in room_out b n st" and "\<And>xs. mset (order xs) = mset xs"
  shows "\<exists>b' n'. inbound_update hasher order b n = Some (Inr (b', n')) \<and> ip_side_set_cap b' = ip_side_set_cap b \<and>
    befriends hasher rule room_in room_out b' n' (friends_step room_in room_out cap (\<lambda>a. rule a = Inr True) order st Friends_update)"
proof -
  have side: "ip_side_set b = side st" using assms(1) by (simp add: befriends_def Let_def)
  obtain errs n1 where n1: "nat_add_inbound hasher n (order (side st)) = Some (Inr (errs, n1))"
    using nat_add_inbound_total [OF assms(1)] by blast
  note heard = packets_in_befriends [OF assms(1) n1]
  obtain out where out: "nat_get_inbound_friend_addr hasher order n1 0 (nat_get_inbound_friend_addr_iteration_size n1) = Some (Inr out)"
      "set out = set (enter room_in (\<lambda>_. True) (order (side st)) (heard st)) \<inter> set (sent st) \<union>
        set (enter room_in (\<lambda>a. rule a = Inr True) (order (side st)) (accepted st))"
    by (rule friend_addr_eq [OF heard assms(2)]) (auto intro: that)
  show ?thesis
    using n1 out heard by (simp add: inbound_update_def side befriends_def Let_def fold_insert_set)
qed

lemma run_friends_ok:
  assumes "befriends hasher rule room_in room_out b n st" and "length (side st) \<le> ip_side_set_cap b" and "\<And>xs. mset (order xs) = mset xs"
  shows "\<exists>b' n'. run_friends hasher order b n calls = Some (Inr (b', n')) \<and>
    befriends hasher rule room_in room_out b' n'
      (fold (\<lambda>c st. friends_step room_in room_out (ip_side_set_cap b) (\<lambda>a. rule a = Inr True) order st c) calls st)"
  using assms(1,2)
proof (induction calls arbitrary: b n st)
  case (Cons call calls)
  show ?case
  proof (cases call)
    case (Packets_in addrs)
    let ?side = "fold (\<lambda>a ys. if length ys < ip_side_set_cap b then List.insert a ys else ys) addrs (side st)"
    have "ip_side_set (snd (border_thru b addrs)) = ?side" "ip_side_set_cap (snd (border_thru b addrs)) = ip_side_set_cap b"
        "thru_ip_set (snd (border_thru b addrs)) = thru_ip_set b"
      using side_eq [OF Cons.prems(2), of addrs] Cons.prems(1) by (auto simp: border_thru_def split_beta befriends_def Let_def)
    moreover from this have "befriends hasher rule room_in room_out (snd (border_thru b addrs)) n (st\<lparr>side := ?side\<rparr>)"
      using Cons.prems(1) by (simp add: befriends_def Let_def)
    ultimately show ?thesis using Cons.IH [of "snd (border_thru b addrs)" n "st\<lparr>side := ?side\<rparr>"] side_bound [OF Cons.prems(2), of addrs]
      by (simp add: Packets_in)
  next
    case (Packets_out addrs)
    then show ?thesis using packets_out_befriends [OF Cons.prems(1), of addrs] Cons.IH Cons.prems(2) by fastforce
  next
    case Friends_update
    obtain b' n' where "inbound_update hasher order b n = Some (Inr (b', n'))" "ip_side_set_cap b' = ip_side_set_cap b"
        "befriends hasher rule room_in room_out b' n'
          (friends_step room_in room_out (ip_side_set_cap b) (\<lambda>a. rule a = Inr True) order st Friends_update)"
      using update_befriends [OF Cons.prems(1) assms(3)] by blast
    then show ?thesis using Cons.IH [of b' n'] by (simp add: Friends_update Let_def)
  qed
qed simp

lemma befriends_new:
  assumes "get_nat_ip_controller (Some rule) outbound_rule inbound_cap outbound_cap = Inr (Inr n)"
    and "ip_side_set b = []" and "thru_ip_set b = []"
  shows "befriends hasher rule (window_room inbound_cap) (window_room outbound_cap) b n
    \<lparr>side = [], heard = [], accepted = [], sent = [], known = {}\<rparr>"
proof -
  obtain p f where *: "get_synchronous_natpunch_ip_controller inbound_cap outbound_cap = Inr (Inr p)"
      "get_synchronous_natfriend_ip_controller (Some rule) outbound_rule inbound_cap outbound_cap = Inr (Inr f)"
      "n = \<lparr>punch_controller = p, friend_controller = f\<rparr>"
    using assms(1) by (auto simp: get_nat_ip_controller_def bindE_eq_Inr)
  from *(1) have p: "temporal_new inbound_cap = Inr (inbound_ip_set p)" "temporal_new outbound_cap = Inr (outbound_ip_set p)"
    by (auto simp: get_synchronous_natpunch_ip_controller_def bindR_eq_Inr split: if_splits)
  from *(2) have f: "temporal_new inbound_cap = Inr (inbound_friend_set f)" "temporal_new outbound_cap = Inr (outbound_friend_set f)"
      "inbound_ip_siever f = rule"
    by (auto simp: get_synchronous_natfriend_ip_controller_def bindR_eq_Inr split: if_splits option.splits)
  have room: "storage_cap s = window_room cap" if "temporal_new cap = Inr s" for s :: "address node_set" and cap
    using new_ok(4) that by (simp add: temporal_new_def size_to_capacity_def window_room_def mult.commute)
  show ?thesis
    using ample_new [OF p(1)] ample_new [OF p(2)] ample_new [OF f(1)] ample_new [OF f(2)] room [OF p(1)] room [OF p(2)] room [OF f(1)]
      temporal_new_ok(2) [OF p(1)] temporal_new_ok(2) [OF p(2)] temporal_new_ok(2) [OF f(1)] f(3) assms(2,3)
    by (simp add: befriends_def Let_def *(3))
qed

lemma inbound_border_fresh:
  assumes "internal_get_inbound_border_controller ctrl per_address overall addresses side_cap cf = Inr (Inr b)"
  shows "ip_side_set b = []" "thru_ip_set b = []" "ip_side_set_cap b = side_cap"
  using assms
  by (auto simp: internal_get_inbound_border_controller_def internal_get_border_controller_def bindE_eq_Inr bindR_eq_Inr
      border.extend_def split: if_splits)


lemma remember_fold_distinct:
  "distinct (ks @ xs) \<Longrightarrow> length ks \<le> cap \<Longrightarrow> 0 < cap \<Longrightarrow>
   fold (\<lambda>k w. snd (remember cap w k)) xs ks = drop (length ks + length xs - cap) (ks @ xs)"
proof (induction xs arbitrary: ks)
  case (Cons x xs)
  show ?case
  proof (cases "length ks = cap")
    case True
    then obtain y ys where ks: "ks = y # ys" using Cons.prems(3) by (cases ks) auto
    then have "snd (remember cap ks x) = ys @ [x]" using True Cons.prems(1) by (auto simp: remember_def Let_def)
    moreover have "cap = Suc (length ys)" using True ks by simp
    ultimately show ?thesis using Cons.IH [of "ys @ [x]"] Cons.prems(1) ks by (simp add: Suc_diff_le)
  next
    case False
    then have "snd (remember cap ks x) = ks @ [x]" using Cons.prems(1) by (auto simp: remember_def Let_def)
    then show ?thesis using Cons.IH [of "ks @ [x]"] Cons.prems False by simp
  qed
qed simp

text \<open>
  \<open>add_inbound\<close> of the punch controller reports success for addresses it has forgotten when it returns. It inserts as many
  as the set has buckets for, which is twice the number it has room for; of more new addresses than there is room for, only the last remain.
\<close>
theorem punch_reports_forgotten:
  assumes "get_nat_ip_controller inbound_rule outbound_rule inbound_cap outbound_cap = Inr (Inr n)"
    and "r = storage_cap (inbound_ip_set (punch_controller n))"
    and "distinct addrs" and "r < length addrs" and "length addrs \<le> 2 * r"
  shows "\<exists>p. punch_add_inbound hasher (punch_controller n) addrs = Some (Inr (replicate (length addrs) SUCCESS, p)) \<and>
    temporal_items (inbound_ip_set p) = drop (length addrs - r) addrs \<and>
    (\<forall>a \<in> set (take (length addrs - r) addrs). temporal_contains hasher (inbound_ip_set p) a = Some (Inr False))"
proof -
  let ?s = "inbound_ip_set (punch_controller n)"
  have live: "set_live hasher ?s" for hasher using nat_made(1) [OF assms(1)] by (simp add: nat_live_def)
  note empty = nat_made(2) [OF assms(1)] and capacity = temporal_new_capacity [OF nat_made(4) [OF assms(1)]]
  have all: "min (length addrs) (temporal_capacity ?s) = length addrs" using capacity assms(2,5) by simp
  obtain s' where s': "punch_add hasher ?s addrs = Some (Inr (replicate (length addrs) SUCCESS, s'))" "set_live hasher s'"
      "temporal_items s' = added ?s (\<lambda>_. True) addrs"
    using punch_add_ok [OF live, of hasher addrs] unfolding all by auto
  have items: "temporal_items s' = drop (length addrs - r) addrs"
    using remember_fold_distinct [of "[]" addrs r] assms(3,4) live empty all
    by (simp add: s'(3) added_def assms(2))
  have "temporal_contains hasher s' a = Some (Inr False)" if "a \<in> set (take (length addrs - r) addrs)" for a
  proof -
    have "distinct (take (length addrs - r) addrs @ drop (length addrs - r) addrs)" using assms(3) by simp
    then have "a \<notin> set (temporal_items s')" using that unfolding items distinct_append by blast
    then show ?thesis using temporal.contains_eq [OF s'(2), of a] by simp
  qed
  then show ?thesis using s'(1) items by (auto simp: punch_add_inbound_def)
qed

section \<open>Witnesses\<close>

definition sample_address :: "16 word \<Rightarrow> address" where
  "sample_address p = \<lparr>ip = IPv4 [127, 0, 0, 1], port = p\<rparr>"

lemma sample_address_eq [simp]: "sample_address p = sample_address q \<longleftrightarrow> p = q"
  by (simp add: sample_address_def)

definition open_siever :: "address \<Rightarrow> exception_t + bool" where
  "open_siever a = Inr True"

lemma sample_nat: "\<exists>n. get_nat_ip_controller (Some open_siever) (Some open_siever) 4 4 = Inr (Inr n) \<and>
    storage_cap (inbound_ip_set (punch_controller n)) = 4"
proof -
  obtain s :: "address node_set" where s: "temporal_new 4 = Inr s" using temporal_new_total [of 4] by auto
  have "next_pow2 8 = 8" by (simp add: next_pow2_def ulog2.simps)
  then have "storage_cap s = 4"
    using new_ok(4) [of 8 s] s by (simp add: temporal_new_def size_to_capacity_def)
  then show ?thesis using s
    by (simp add: get_nat_ip_controller_def get_synchronous_natpunch_ip_controller_def
        get_synchronous_natfriend_ip_controller_def between_def)
qed

lemma sample_border:
  "\<exists>b. internal_get_inbound_border_controller (Some n) 2 3 2 4 0 = Inr (Inr b)"
  "\<exists>b. internal_get_outbound_border_controller (Some n) 2 3 2 4 0 = Inr (Inr b)"
  by (simp_all add: internal_get_inbound_border_controller_def internal_get_outbound_border_controller_def
      internal_get_border_controller_def shift_down_def get_synchronous_traffic_controller_def between_def)

definition sample_border_calls :: "border_call list" where
  "sample_border_calls = [Border_thru (map sample_address [1, 1, 1, 2, 3]), Border_thru [sample_address 2], Border_update,
     Border_thru [sample_address 3]]"

lemma sample_judged:
  "judge_calls 2 3 2 [] sample_border_calls =
   [SUCCESS, SUCCESS, SOCKET_BAD_TRAFFIC, SUCCESS, SOCKET_BAD_TRAFFIC, SOCKET_BAD_TRAFFIC, SUCCESS]"
  by (simp add: sample_border_calls_def lets_through_def)

theorem inbound_border_exact_witness:
  "\<exists>b n b' n'. run_border (inbound_update (\<lambda>_. 0) rev) b n sample_border_calls =
     Some (Inr ([SUCCESS, SUCCESS, SOCKET_BAD_TRAFFIC, SUCCESS, SOCKET_BAD_TRAFFIC, SOCKET_BAD_TRAFFIC, SUCCESS], b', n'))"
proof -
  obtain n where n: "get_nat_ip_controller (Some open_siever) (Some open_siever) 4 4 = Inr (Inr n)" using sample_nat by blast
  obtain b where b: "internal_get_inbound_border_controller (Some n) 2 3 2 4 0 = Inr (Inr b)" by (rule exE [OF sample_border(1)])
  show ?thesis
    using inbound_border_exact [OF b n, of "\<lambda>_. 0" rev sample_border_calls] unfolding sample_judged by blast
qed

theorem outbound_border_exact_witness:
  "\<exists>b n b' n'. run_border (outbound_update (\<lambda>_. 0) rev) b n sample_border_calls =
     Some (Inr ([SUCCESS, SUCCESS, SOCKET_BAD_TRAFFIC, SUCCESS, SOCKET_BAD_TRAFFIC, SOCKET_BAD_TRAFFIC, SUCCESS], b', n'))"
proof -
  obtain n where n: "get_nat_ip_controller (Some open_siever) (Some open_siever) 4 4 = Inr (Inr n)" using sample_nat by blast
  obtain b where b: "internal_get_outbound_border_controller (Some n) 2 3 2 4 0 = Inr (Inr b)" by (rule exE [OF sample_border(2)])
  show ?thesis
    using outbound_border_exact [OF b n, of "\<lambda>_. 0" rev sample_border_calls] unfolding sample_judged by blast
qed

definition sample_friend_calls :: "friend_call list" where
  "sample_friend_calls = [Packets_out [sample_address 1], Packets_in (map sample_address [2, 1]), Friends_update,
     Packets_out [sample_address 3], Packets_in (map sample_address [3]), Friends_update]"

definition odd_siever :: "address \<Rightarrow> exception_t + bool" where
  "odd_siever a = (if port a = 2 then Inr True else Inl SOCKET_BAD_IP_RULE)"

lemma sample_room: "window_room 4 = 4"
  by (simp add: window_room_def next_pow2_def ulog2.simps)


theorem punch_reports_forgotten_witness:
  "\<exists>n p. punch_add_inbound (\<lambda>_. 0) n (map sample_address [1, 2, 3, 4, 5]) = 
       Some (Inr ([SUCCESS, SUCCESS, SUCCESS, SUCCESS, SUCCESS], p)) \<and>
     temporal_contains (\<lambda>_. 0) (inbound_ip_set p) (sample_address 1) = Some (Inr False)"
proof -
  obtain n where n: "get_nat_ip_controller (Some open_siever) (Some open_siever) 4 4 = Inr (Inr n)"
      "storage_cap (inbound_ip_set (punch_controller n)) = 4"
    using sample_nat by blast
  show ?thesis
    using punch_reports_forgotten [OF n(1) n(2) [symmetric], of "map sample_address [1, 2, 3, 4, 5]" "\<lambda>_. 0"] by auto
qed

end
