(* ===== verification/Expiry_Queue.thy ===== *)
theory Expiry_Queue
  imports Heap_Order Network_Exception
begin

text \<open>
  \<open>temporal_ordered_item_map\<close> of \<open>internal_rest/network_ack_expiry_queue.h\<close>: items that are found by their id and taken out in the
  order of their time. A binary heap of pointers to nodes that are allocated once; every node knows its index in the heap, and
  a map leads from an id to its node. An address is an index of \<open>heap_nodes\<close>. Running out of memory is not modelled.
\<close>

section \<open>State\<close>

record 'a heap_node =
  item :: 'a
  sched_time :: int
  heap_idx :: nat

record ('a, 'k) item_map =
  heap_nodes :: "'a heap_node list"
  temporal_heap :: "nat list"
  temporal_heap_sz :: nat
  id_heap_map :: "'k \<rightharpoonup> nat"

text \<open>\<open>T{}\<close> is \<open>blank\<close>.\<close>

definition item_map_new :: "'a \<Rightarrow> nat \<Rightarrow> ('a, 'k) item_map" where
  "item_map_new blank cap =
     \<lparr>heap_nodes = replicate cap \<lparr>item = blank, sched_time = 0, heap_idx = 0\<rparr>, temporal_heap = [0..<cap],
      temporal_heap_sz = 0, id_heap_map = Map.empty\<rparr>"

definition node_ref :: "('a, 'k) item_map \<Rightarrow> nat \<Rightarrow> nat result" where
  "node_ref q i = (if i < length (temporal_heap q) then Inr (temporal_heap q ! i) else Inl Out_of_bounds)"

definition node_of :: "('a, 'k) item_map \<Rightarrow> nat \<Rightarrow> 'a heap_node" where
  "node_of q i = heap_nodes q ! (temporal_heap q ! i)"

section \<open>The heap\<close>

definition nullify_heap_node :: "'a \<Rightarrow> ('a, 'k) item_map \<Rightarrow> nat \<Rightarrow> ('a, 'k) item_map result" where
  "nullify_heap_node blank q i =
     bindR (node_ref q i) (\<lambda>a.
       Inr (q\<lparr>heap_nodes := (heap_nodes q)[a := \<lparr>item = blank, sched_time = 0, heap_idx = 0\<rparr>]\<rparr>))"

definition swap_heap_node :: "('a, 'k) item_map \<Rightarrow> nat \<Rightarrow> nat \<Rightarrow> ('a, 'k) item_map result" where
  "swap_heap_node q i j =
     bindR (node_ref q i) (\<lambda>a. bindR (node_ref q j) (\<lambda>b.
       let ns = heap_nodes q;
           ns' = ns[a := (ns ! a)\<lparr>heap_idx := heap_idx (ns ! b)\<rparr>];
           ns'' = ns'[b := (ns' ! b)\<lparr>heap_idx := heap_idx (ns ! a)\<rparr>]
       in Inr (q\<lparr>heap_nodes := ns'', temporal_heap := swap (temporal_heap q) i j\<rparr>)))"

definition is_less_than :: "('a, 'k) item_map \<Rightarrow> nat \<Rightarrow> nat \<Rightarrow> bool result" where
  "is_less_than q i j =
     bindR (node_ref q i) (\<lambda>a. bindR (node_ref q j) (\<lambda>b.
       Inr (sched_time (heap_nodes q ! a) < sched_time (heap_nodes q ! b))))"

lemma swap_heap_node_sz: "swap_heap_node q i j = Inr q' \<Longrightarrow> temporal_heap_sz q' = temporal_heap_sz q"
  by (auto simp: swap_heap_node_def bindR_eq_Inr Let_def)

function correct_heap_node_up_at :: "('a, 'k) item_map \<Rightarrow> nat \<Rightarrow> ('a, 'k) item_map result" where
  "correct_heap_node_up_at q idx =
     (if idx \<ge> temporal_heap_sz q then Inl Abort
      else if idx = 0 then Inr q
      else let parent_idx = (idx - 1) div 2
           in case is_less_than q idx parent_idx of
                Inl e \<Rightarrow> Inl e
              | Inr lt \<Rightarrow>
                  if \<not> lt then Inr q
                  else case swap_heap_node q idx parent_idx of
                         Inl e \<Rightarrow> Inl e
                       | Inr q' \<Rightarrow> correct_heap_node_up_at q' parent_idx)"
  by pat_completeness auto
termination by (relation "measure snd") auto

declare correct_heap_node_up_at.simps [simp del]

definition down_cand :: "('a, 'k) item_map \<Rightarrow> nat \<Rightarrow> nat result" where
  "down_cand q cand_idx =
     (if cand_idx + 1 < temporal_heap_sz q then
        bindR (is_less_than q (cand_idx + 1) cand_idx) (\<lambda>lt. Inr (if lt then cand_idx + 1 else cand_idx))
      else Inr cand_idx)"

lemma down_cand_bounds: "down_cand q c = Inr c' \<Longrightarrow> c < temporal_heap_sz q \<Longrightarrow> c \<le> c' \<and> c' < temporal_heap_sz q"
  by (auto simp: down_cand_def bindR_eq_Inr split: if_splits)

function correct_heap_node_down_at :: "('a, 'k) item_map \<Rightarrow> nat \<Rightarrow> ('a, 'k) item_map result" where
  "correct_heap_node_down_at q idx =
     (if idx \<ge> temporal_heap_sz q then Inl Abort
      else if idx * 2 + 1 \<ge> temporal_heap_sz q then Inr q
      else case down_cand q (idx * 2 + 1) of
             Inl e \<Rightarrow> Inl e
           | Inr cand_idx \<Rightarrow>
               (case is_less_than q cand_idx idx of
                  Inl e \<Rightarrow> Inl e
                | Inr lt \<Rightarrow>
                    if \<not> lt then Inr q
                    else case swap_heap_node q idx cand_idx of
                           Inl e \<Rightarrow> Inl e
                         | Inr q' \<Rightarrow> correct_heap_node_down_at q' cand_idx))"
  by pat_completeness auto
termination
proof (relation "measure (\<lambda>(q, idx). temporal_heap_sz q - idx)")
  fix q q' :: "('a, 'k) item_map" and idx cand_idx :: nat
  assume "\<not> idx * 2 + 1 \<ge> temporal_heap_sz q" and "down_cand q (idx * 2 + 1) = Inr cand_idx"
    and "swap_heap_node q idx cand_idx = Inr q'"
  then show "((q', cand_idx), (q, idx)) \<in> measure (\<lambda>(q, idx). temporal_heap_sz q - idx)"
    using down_cand_bounds [of q "idx * 2 + 1" cand_idx] swap_heap_node_sz [of q idx cand_idx q'] by auto
qed simp

declare correct_heap_node_down_at.simps [simp del]

definition correct_heap_node_at :: "('a, 'k) item_map \<Rightarrow> nat \<Rightarrow> ('a, 'k) item_map result" where
  "correct_heap_node_at q idx =
     (if idx \<ge> temporal_heap_sz q then Inl Abort
      else bindR (correct_heap_node_up_at q idx) (\<lambda>q. correct_heap_node_down_at q idx))"

definition add_heap_node :: "('a, 'k) item_map \<Rightarrow> 'a \<Rightarrow> int \<Rightarrow> ((exception_t + nat) \<times> ('a, 'k) item_map) result" where
  "add_heap_node q x t =
     (let sz = temporal_heap_sz q
      in if sz = length (temporal_heap q) then Inr (Inl RESOURCE_EXHAUSTION, q)
         else
           bindR (node_ref q sz) (\<lambda>operating_node.
           bindR (correct_heap_node_up_at
               (q\<lparr>heap_nodes := (heap_nodes q)[operating_node := \<lparr>item = x, sched_time = t, heap_idx = sz\<rparr>],
                  temporal_heap_sz := sz + 1\<rparr>) sz) (\<lambda>q.
             Inr (Inr operating_node, q))))"

definition erase_heap_node_at :: "'a \<Rightarrow> ('a, 'k) item_map \<Rightarrow> nat \<Rightarrow> ('a, 'k) item_map result" where
  "erase_heap_node_at blank q idx =
     (let back_node_idx = temporal_heap_sz q - 1
      in if idx \<ge> temporal_heap_sz q then Inl Abort
         else if back_node_idx = idx then
           bindR (nullify_heap_node blank q back_node_idx) (\<lambda>q. Inr (q\<lparr>temporal_heap_sz := temporal_heap_sz q - 1\<rparr>))
         else
           bindR (swap_heap_node q idx back_node_idx) (\<lambda>q.
           bindR (nullify_heap_node blank q back_node_idx) (\<lambda>q.
             correct_heap_node_at (q\<lparr>temporal_heap_sz := temporal_heap_sz q - 1\<rparr>) idx)))"

definition pop_heap_node :: "'a \<Rightarrow> ('a, 'k) item_map \<Rightarrow> ('a, 'k) item_map result" where
  "pop_heap_node blank q =
     (let back_node_idx = temporal_heap_sz q - 1
      in if temporal_heap_sz q = 0 then Inl Abort
         else if back_node_idx = 0 then
           bindR (nullify_heap_node blank q back_node_idx) (\<lambda>q. Inr (q\<lparr>temporal_heap_sz := temporal_heap_sz q - 1\<rparr>))
         else
           bindR (swap_heap_node q 0 back_node_idx) (\<lambda>q.
           bindR (nullify_heap_node blank q back_node_idx) (\<lambda>q.
             correct_heap_node_down_at (q\<lparr>temporal_heap_sz := temporal_heap_sz q - 1\<rparr>) 0)))"

section \<open>Operations\<close>

definition item_add :: "('a \<Rightarrow> 'k) \<Rightarrow> ('a, 'k) item_map \<Rightarrow> 'a \<Rightarrow> int \<Rightarrow> (exception_t \<times> ('a, 'k) item_map) result" where
  "item_add get_id q x expiry_time =
     (if id_heap_map q (get_id x) \<noteq> None then Inr (DUPLICATED_ENTRY, q)
      else
        bindR (add_heap_node q x expiry_time) (\<lambda>(reference_node, q).
          case reference_node of
            Inl err \<Rightarrow> Inr (err, q)
          | Inr a \<Rightarrow>
              let k = get_id (item (heap_nodes q ! a))
              in if id_heap_map q k \<noteq> None then Inl Abort
                 else Inr (SUCCESS, q\<lparr>id_heap_map := (id_heap_map q)(k \<mapsto> a)\<rparr>)))"

definition item_update :: "('a, 'k) item_map \<Rightarrow> 'k \<Rightarrow> int \<Rightarrow> (exception_t \<times> ('a, 'k) item_map) result" where
  "item_update q item_id expiry_time =
     (case id_heap_map q item_id of
        None \<Rightarrow> Inr (INVALID_DICTIONARY_KEY, q)
      | Some a \<Rightarrow>
          let q = q\<lparr>heap_nodes := (heap_nodes q)[a := (heap_nodes q ! a)\<lparr>sched_time := expiry_time\<rparr>]\<rparr>
          in bindR (correct_heap_node_at q (heap_idx (heap_nodes q ! a))) (\<lambda>q. Inr (SUCCESS, q)))"

definition item_add_or_update ::
    "('a \<Rightarrow> 'k) \<Rightarrow> ('a, 'k) item_map \<Rightarrow> 'a \<Rightarrow> int \<Rightarrow> (exception_t \<times> ('a, 'k) item_map) result"
where
  "item_add_or_update get_id q x expiry_time =
     (if id_heap_map q (get_id x) \<noteq> None then item_update q (get_id x) expiry_time
      else item_add get_id q x expiry_time)"

definition item_erase :: "'a \<Rightarrow> ('a, 'k) item_map \<Rightarrow> 'k \<Rightarrow> ('a, 'k) item_map result" where
  "item_erase blank q item_id =
     (case id_heap_map q item_id of
        None \<Rightarrow> Inr q
      | Some a \<Rightarrow>
          let idx = heap_idx (heap_nodes q ! a)
          in erase_heap_node_at blank (q\<lparr>id_heap_map := (id_heap_map q)(item_id := None)\<rparr>) idx)"

definition get_expired_item ::
    "'a \<Rightarrow> ('a \<Rightarrow> 'k) \<Rightarrow> ('a, 'k) item_map \<Rightarrow> int \<Rightarrow> ('a option \<times> ('a, 'k) item_map) result"
where
  "get_expired_item blank get_id q time_bar =
     (if temporal_heap_sz q = 0 then Inr (None, q)
      else
        bindR (node_ref q 0) (\<lambda>a.
          let front_value = heap_nodes q ! a
          in if sched_time front_value \<ge> time_bar then Inr (None, q)
             else let result = item front_value; associated_id = get_id result
                  in bindR (pop_heap_node blank (q\<lparr>id_heap_map := (id_heap_map q)(associated_id := None)\<rparr>)) (\<lambda>q.
                       Inr (Some result, q))))"

definition has_expired_item :: "('a, 'k) item_map \<Rightarrow> int \<Rightarrow> bool result" where
  "has_expired_item q time_bar =
     (if temporal_heap_sz q = 0 then Inr False
      else bindR (node_ref q 0) (\<lambda>a. Inr (\<not> sched_time (heap_nodes q ! a) \<ge> time_bar)))"

definition item_map_size :: "('a, 'k) item_map \<Rightarrow> nat" where
  "item_map_size q = temporal_heap_sz q"

definition item_map_capacity :: "('a, 'k) item_map \<Rightarrow> nat" where
  "item_map_capacity q = length (temporal_heap q)"

section \<open>Invariant\<close>

interpretation earlier: better_order "(\<le>) :: int \<Rightarrow> int \<Rightarrow> bool"
  by unfold_locales auto

definition heap_times :: "('a, 'k) item_map \<Rightarrow> int list" where
  "heap_times q = map (\<lambda>a. sched_time (heap_nodes q ! a)) (temporal_heap q)"

definition in_use :: "('a, 'k) item_map \<Rightarrow> nat set" where
  "in_use q = set (take (temporal_heap_sz q) (temporal_heap q))"

definition placed :: "('a, 'k) item_map \<Rightarrow> bool" where
  "placed q \<longleftrightarrow>
     length (temporal_heap q) = length (heap_nodes q) \<and> distinct (temporal_heap q) \<and>
     set (temporal_heap q) = {..<length (heap_nodes q)} \<and> temporal_heap_sz q \<le> length (temporal_heap q) \<and>
     (\<forall>i < temporal_heap_sz q. heap_idx (node_of q i) = i)"

abbreviation payload :: "'a heap_node \<Rightarrow> 'a \<times> int" where
  "payload n \<equiv> (item n, sched_time n)"

text \<open>What moving nodes in the heap leaves as it was.\<close>

definition rearranged :: "('a, 'k) item_map \<Rightarrow> ('a, 'k) item_map \<Rightarrow> bool" where
  "rearranged q q' \<longleftrightarrow>
     placed q' \<and> temporal_heap_sz q' = temporal_heap_sz q \<and> length (heap_nodes q') = length (heap_nodes q) \<and>
     in_use q' = in_use q \<and> map payload (heap_nodes q') = map payload (heap_nodes q) \<and> id_heap_map q' = id_heap_map q"

lemma same_items_refl: "placed q \<Longrightarrow> rearranged q q"
  by (simp add: rearranged_def)

lemma same_items_trans: "rearranged q q' \<Longrightarrow> rearranged q' q'' \<Longrightarrow> rearranged q q''"
  by (simp add: rearranged_def)

lemma placedD:
  assumes "placed q" and "i < length (temporal_heap q)"
  shows "node_ref q i = Inr (temporal_heap q ! i)" "temporal_heap q ! i < length (heap_nodes q)"
  using assms nth_mem [OF assms(2)] by (auto simp: placed_def node_ref_def)

lemma placed_inj:
  "placed q \<Longrightarrow> i < length (temporal_heap q) \<Longrightarrow> j < length (temporal_heap q) \<Longrightarrow>
   temporal_heap q ! i = temporal_heap q ! j \<longleftrightarrow> i = j"
  by (simp add: placed_def nth_eq_iff_index_eq)

lemma length_heap_times [simp]: "length (heap_times q) = length (temporal_heap q)"
  by (simp add: heap_times_def)

lemma nth_heap_times: "i < length (temporal_heap q) \<Longrightarrow> heap_times q ! i = sched_time (node_of q i)"
  by (simp add: heap_times_def node_of_def)

lemma take_swap_set: "i < n \<Longrightarrow> j < n \<Longrightarrow> n \<le> length xs \<Longrightarrow> set (take n (swap xs i j)) = set (take n xs)"
proof -
  assume *: "i < n" "j < n" "n \<le> length xs"
  then have "take n (swap xs i j) = swap (take n xs) i j" by (simp add: swap_def take_update_swap)
  then show ?thesis using * by (metis length_take min.absorb2 mset_swap_indices set_mset_mset)
qed

lemma swap_rearranged:
  assumes "placed q" and "i < temporal_heap_sz q" and "j < temporal_heap_sz q"
  shows "\<exists>q'. swap_heap_node q i j = Inr q' \<and> rearranged q q' \<and> heap_times q' = swap (heap_times q) i j \<and>
    temporal_heap q' = swap (temporal_heap q) i j"
proof -
  have len: "i < length (temporal_heap q)" "j < length (temporal_heap q)" using assms by (simp_all add: placed_def)
  let ?a = "temporal_heap q ! i" and ?b = "temporal_heap q ! j" and ?ns = "heap_nodes q"
  define ns' where "ns' = ?ns[?a := (?ns ! ?a)\<lparr>heap_idx := heap_idx (?ns ! ?b)\<rparr>]"
  define ns'' where "ns'' = ns'[?b := (ns' ! ?b)\<lparr>heap_idx := heap_idx (?ns ! ?a)\<rparr>]"
  define q' where "q' = q\<lparr>heap_nodes := ns'', temporal_heap := swap (temporal_heap q) i j\<rparr>"
  have ab: "?a < length ?ns" "?b < length ?ns" using placedD(2) [OF assms(1)] len by blast+
  have run: "swap_heap_node q i j = Inr q'"
    using placedD(1) [OF assms(1)] len by (simp add: swap_heap_node_def Let_def q'_def ns''_def ns'_def)
  have node: "ns'' ! x = (if x = ?b then (?ns ! x)\<lparr>heap_idx := heap_idx (?ns ! ?a)\<rparr>
      else if x = ?a then (?ns ! x)\<lparr>heap_idx := heap_idx (?ns ! ?b)\<rparr> else ?ns ! x)" for x
    using ab by (auto simp: ns''_def ns'_def nth_list_update)
  have length'': "length ns'' = length ?ns" by (simp add: ns''_def ns'_def)
  have pay: "map payload ns'' = map payload ?ns"
    using length'' by (intro nth_equalityI) (simp_all add: node)
  have times: "sched_time (ns'' ! x) = sched_time (?ns ! x)" for x by (simp add: node)
  have heap_times: "heap_times q' = swap (heap_times q) i j"
    using len by (simp add: heap_times_def q'_def times swap_def map_update)
  have idx: "heap_idx (node_of q x) = x" if "x < temporal_heap_sz q" for x
    using assms(1) that by (simp add: placed_def)
  have "heap_idx (node_of q' x) = x" if "x < temporal_heap_sz q" for x
  proof -
    have x: "x < length (temporal_heap q)" using that assms(1) by (simp add: placed_def)
    show ?thesis
      using idx [OF that] idx [OF assms(2)] idx [OF assms(3)] placed_inj [OF assms(1) x len(1)] placed_inj [OF assms(1) x len(2)] x len
      by (auto simp: node_of_def q'_def nth_swap node)
  qed
  moreover have "set (swap (temporal_heap q) i j) = set (temporal_heap q)" "distinct (swap (temporal_heap q) i j)"
    using assms(1) mset_eq_setD [OF mset_swap_indices [OF len]] mset_eq_imp_distinct_iff [OF mset_swap_indices [OF len]]
    by (simp_all add: placed_def)
  ultimately have "placed q'" using assms(1) length'' by (simp add: placed_def q'_def)
  moreover have "in_use q' = in_use q"
    using assms take_swap_set [of i "temporal_heap_sz q" j "temporal_heap q"] by (simp add: in_use_def q'_def placed_def)
  ultimately have "rearranged q q'" using length'' pay by (simp add: rearranged_def q'_def)
  then show ?thesis using run heap_times by (simp add: q'_def)
qed

lemma is_less_than_eq:
  "placed q \<Longrightarrow> i < length (temporal_heap q) \<Longrightarrow> j < length (temporal_heap q) \<Longrightarrow>
   is_less_than q i j = Inr (heap_times q ! i < heap_times q ! j)"
  by (simp add: is_less_than_def placedD nth_heap_times node_of_def)

lemma up_rearranged:
  assumes "placed q" and "idx < temporal_heap_sz q" and "up_ok (\<le>) 2 (heap_times q) (temporal_heap_sz q) idx"
  shows "\<exists>q'. correct_heap_node_up_at q idx = Inr q' \<and> rearranged q q' \<and>
    heap_ordered (\<le>) 2 (heap_times q') (temporal_heap_sz q)"
  using assms
proof (induction idx arbitrary: q rule: less_induct)
  case (less idx)
  let ?n = "temporal_heap_sz q" and ?p = "parent 2 idx"
  have n: "?n \<le> length (temporal_heap q)" using less.prems(1) by (simp add: placed_def)
  show ?case
  proof (cases "idx = 0 \<or> heap_times q ! ?p \<le> heap_times q ! idx")
    case True
    have "heap_ordered (\<le>) 2 (heap_times q) ?n" using earlier.up_ok_stop [OF less.prems(3) True] .
    moreover have "correct_heap_node_up_at q idx = Inr q"
      using True less.prems n is_less_than_eq [OF less.prems(1), of idx ?p] parent_less [of idx 2]
      by (subst correct_heap_node_up_at.simps) (auto simp: Let_def parent_def)
    ultimately show ?thesis using same_items_refl [OF less.prems(1)] by blast
  next
    case False
    then have idx: "0 < idx" "?p < idx" using parent_less [of idx 2] by auto
    obtain q1 where q1: "swap_heap_node q idx ?p = Inr q1" "rearranged q q1" "heap_times q1 = swap (heap_times q) idx ?p"
      using swap_rearranged [OF less.prems(1,2), of ?p] idx less.prems(2) by auto
    have sz: "temporal_heap_sz q1 = ?n" "placed q1" using q1(2) by (simp_all add: rearranged_def)
    have "swap (heap_times q) idx ?p = swap (heap_times q) ?p idx"
      using idx by (simp add: swap_def list_update_swap)
    then have "up_ok (\<le>) 2 (heap_times q1) (temporal_heap_sz q1) ?p"
      using earlier.up_ok_swap [OF less.prems(3) _ less.prems(2) idx(1)] False n q1(3) sz by simp
    then obtain q' where q': "correct_heap_node_up_at q1 ?p = Inr q'" "rearranged q1 q'"
        "heap_ordered (\<le>) 2 (heap_times q') ?n"
      using less.IH [OF idx(2) sz(2)] idx less.prems(2) sz(1) by auto
    have "correct_heap_node_up_at q idx = correct_heap_node_up_at q1 ?p"
      using False less.prems n q1(1) is_less_than_eq [OF less.prems(1), of idx ?p] idx
      by (subst correct_heap_node_up_at.simps) (auto simp: Let_def parent_def)
    then show ?thesis using q' same_items_trans [OF q1(2)] by auto
  qed
qed

lemma down_cand_eq:
  assumes "placed q" and "c < temporal_heap_sz q"
  shows "\<exists>c'. down_cand q c = Inr c' \<and> (c' = c \<or> c' = c + 1) \<and> c' < temporal_heap_sz q \<and>
    heap_times q ! c' \<le> heap_times q ! c \<and> (c + 1 < temporal_heap_sz q \<longrightarrow> heap_times q ! c' \<le> heap_times q ! (c + 1))"
proof -
  have "temporal_heap_sz q \<le> length (temporal_heap q)" using assms(1) by (simp add: placed_def)
  then show ?thesis using assms(2) is_less_than_eq [OF assms(1), of "c + 1" c] by (auto simp: down_cand_def)
qed

lemma down_rearranged:
  assumes "placed q" and "idx < temporal_heap_sz q" and "down_ok (\<le>) 2 (heap_times q) (temporal_heap_sz q) 0 idx"
  shows "\<exists>q'. correct_heap_node_down_at q idx = Inr q' \<and> rearranged q q' \<and>
    heap_ordered (\<le>) 2 (heap_times q') (temporal_heap_sz q)"
  using assms
proof (induction "temporal_heap_sz q - idx" arbitrary: q idx rule: less_induct)
  case less
  let ?n = "temporal_heap_sz q" and ?c = "idx * 2 + 1"
  have n: "?n \<le> length (temporal_heap q)" using less.prems(1) by (simp add: placed_def)
  have kids: "i = ?c \<or> i = ?c + 1" if "0 < i" "parent 2 i = idx" for i
    using parent_eq_bounds [of 2 i idx] that by auto
  show ?case
  proof (cases "?c < ?n")
    case False
    have "heap_from (\<le>) 2 (heap_times q) ?n 0"
    proof (rule earlier.down_ok_stop [OF less.prems(3)])
      fix i assume "i < ?n" "0 < i" "parent 2 i = idx"
      then show "heap_times q ! idx \<le> heap_times q ! i" using kids [of i] False by linarith
    qed
    moreover have "correct_heap_node_down_at q idx = Inr q"
      using False less.prems(2) by (subst correct_heap_node_down_at.simps) auto
    ultimately show ?thesis using same_items_refl [OF less.prems(1)] by (auto simp: heap_ordered_def)
  next
    case True
    obtain c where c: "down_cand q ?c = Inr c" "c = ?c \<or> c = ?c + 1" "c < ?n" "heap_times q ! c \<le> heap_times q ! ?c"
        "?c + 1 < ?n \<longrightarrow> heap_times q ! c \<le> heap_times q ! (?c + 1)"
      using down_cand_eq [OF less.prems(1) True] by blast
    have par: "parent 2 c = idx" "0 < c" "idx < c" using c(2) by (auto simp: parent_def)
    have best: "heap_times q ! c \<le> heap_times q ! i" if "i < ?n" "0 < i" "parent 2 i = idx" for i
      using kids [OF that(2,3)] that(1) c(4,5) by auto
    show ?thesis
    proof (cases "heap_times q ! idx \<le> heap_times q ! c")
      case stop: True
      have "heap_from (\<le>) 2 (heap_times q) ?n 0"
      proof (rule earlier.down_ok_stop [OF less.prems(3)])
        fix i assume "i < ?n" "0 < i" "parent 2 i = idx"
        from best [OF this] stop show "heap_times q ! idx \<le> heap_times q ! i" by linarith
      qed
      moreover have "is_less_than q c idx = Inr False"
        using stop c(3) less.prems(2) n is_less_than_eq [OF less.prems(1), of c idx] by simp
      then have "correct_heap_node_down_at q idx = Inr q"
        using True c(1) less.prems(2) by (subst correct_heap_node_down_at.simps) simp
      ultimately show ?thesis using same_items_refl [OF less.prems(1)] by (auto simp: heap_ordered_def)
    next
      case go: False
      obtain q1 where q1: "swap_heap_node q idx c = Inr q1" "rearranged q q1" "heap_times q1 = swap (heap_times q) idx c"
        using swap_rearranged [OF less.prems(1,2) c(3)] by blast
      have sz: "temporal_heap_sz q1 = ?n" "placed q1" using q1(2) by (simp_all add: rearranged_def)
      have dk: "down_ok (\<le>) 2 (heap_times q1) (temporal_heap_sz q1) 0 c"
        unfolding q1(3) sz(1)
      proof (rule earlier.down_ok_swap [OF less.prems(3) _ _ c(3) par(2,1) _ go])
        show "?n \<le> length (heap_times q)" using n by simp
      qed (simp, rule best)
      have "temporal_heap_sz q1 - c < ?n - idx" "c < temporal_heap_sz q1" using sz(1) par(3) c(3) by linarith+
      then obtain q' where q': "correct_heap_node_down_at q1 c = Inr q'" "rearranged q1 q'"
          "heap_ordered (\<le>) 2 (heap_times q') ?n"
        using less.hyps [OF _ sz(2) _ dk] unfolding sz(1) by blast
      have "is_less_than q c idx = Inr True"
        using go c(3) less.prems(2) n is_less_than_eq [OF less.prems(1), of c idx] by simp
      then have "correct_heap_node_down_at q idx = correct_heap_node_down_at q1 c"
        using True c(1) q1(1) less.prems(2) by (subst correct_heap_node_down_at.simps) simp
      then show ?thesis using q' same_items_trans [OF q1(2)] by auto
    qed
  qed
qed

text \<open>When the time of one node has changed.\<close>

definition hole_ok :: "int list \<Rightarrow> nat \<Rightarrow> nat \<Rightarrow> bool" where
  "hole_ok xs n idx \<longleftrightarrow>
     (\<forall>i < n. 0 < i \<longrightarrow> i \<noteq> idx \<longrightarrow> parent 2 i \<noteq> idx \<longrightarrow> xs ! parent 2 i \<le> xs ! i) \<and>
     (\<forall>i < n. 0 < i \<longrightarrow> parent 2 i = idx \<longrightarrow> 0 < idx \<longrightarrow> xs ! parent 2 idx \<le> xs ! i)"

lemma hole_okI:
  assumes "heap_ordered (\<le>) 2 xs n" and "m \<le> n" and "idx < m" and "\<And>i. i < m \<Longrightarrow> i \<noteq> idx \<Longrightarrow> ys ! i = xs ! i"
  shows "hole_ok ys m idx"
  unfolding hole_ok_def
proof (intro conjI allI impI)
  have edge: "xs ! parent 2 i \<le> xs ! i" if "i < m" "0 < i" for i
    using assms(1,2) that by (simp add: heap_ordered_def heap_from_def)
  {
    fix i assume i: "i < m" "0 < i" "i \<noteq> idx" "parent 2 i \<noteq> idx"
    then show "ys ! parent 2 i \<le> ys ! i" using edge [of i] assms(4) parent_less [of i 2] by simp
  next
    fix i assume i: "i < m" "0 < i" "parent 2 i = idx" "0 < idx"
    then have "i \<noteq> idx" "parent 2 idx \<noteq> idx" using parent_less [of i 2] parent_less [of idx 2] by auto
    moreover have "parent 2 idx < m" using parent_less [of idx 2] i(4) assms(3) by simp
    ultimately have "ys ! i = xs ! i" "ys ! parent 2 idx = xs ! parent 2 idx" using assms(4) i(1) by blast+
    moreover have "xs ! parent 2 idx \<le> xs ! idx" "xs ! idx \<le> xs ! i" using edge [of idx] edge [of i] i assms(3) by simp_all
    ultimately show "ys ! parent 2 idx \<le> ys ! i" by simp
  }
qed

lemma down_ok_heap:
  assumes "heap_ordered (\<le>) 2 (xs :: int list) n" and "idx < n"
  shows "down_ok (\<le>) 2 xs n 0 idx"
proof -
  have edge: "xs ! parent 2 i \<le> xs ! i" if "i < n" "0 < i" for i
    using assms(1) that by (simp add: heap_ordered_def heap_from_def)
  show ?thesis
    unfolding down_ok_def
  proof (intro conjI allI impI)
    fix i assume "i < n" "0 < i"
    then show "xs ! parent 2 i \<le> xs ! i" by (rule edge)
  next
    fix i assume i: "i < n" "0 < i" "parent 2 i = idx" "0 < idx"
    have "xs ! parent 2 idx \<le> xs ! idx" "xs ! idx \<le> xs ! i" using edge [OF assms(2) i(4)] edge [OF i(1,2)] i(3) by simp_all
    then show "xs ! parent 2 idx \<le> xs ! i" by simp
  qed
qed

lemma correct_rearranged:
  assumes "placed q" and "idx < temporal_heap_sz q" and "hole_ok (heap_times q) (temporal_heap_sz q) idx"
  shows "\<exists>q'. correct_heap_node_at q idx = Inr q' \<and> rearranged q q' \<and>
    heap_ordered (\<le>) 2 (heap_times q') (temporal_heap_sz q)"
proof (cases "idx = 0 \<or> heap_times q ! parent 2 idx \<le> heap_times q ! idx")
  case True
  have "temporal_heap_sz q \<le> length (temporal_heap q)" using assms(1) by (simp add: placed_def)
  then have up: "correct_heap_node_up_at q idx = Inr q"
    using True assms(2) is_less_than_eq [OF assms(1), of idx "parent 2 idx"] parent_less [of idx 2]
    by (subst correct_heap_node_up_at.simps) (auto simp: Let_def parent_def)
  have "down_ok (\<le>) 2 (heap_times q) (temporal_heap_sz q) 0 idx"
    using assms(3) True by (auto simp: down_ok_def hole_ok_def)
  from down_rearranged [OF assms(1,2) this] show ?thesis using up assms(2) by (simp add: correct_heap_node_at_def)
next
  case False
  have "up_ok (\<le>) 2 (heap_times q) (temporal_heap_sz q) idx"
    unfolding up_ok_def
  proof (intro conjI allI impI)
    fix i assume i: "i < temporal_heap_sz q" "0 < i" "i \<noteq> idx"
    show "heap_times q ! parent 2 i \<le> heap_times q ! i"
    proof (cases "parent 2 i = idx")
      case True
      then have "heap_times q ! parent 2 idx \<le> heap_times q ! i" using assms(3) i False by (auto simp: hole_ok_def)
      then show ?thesis using True False by simp
    next
      case False
      then show ?thesis using assms(3) i by (simp add: hole_ok_def)
    qed
  next
    fix i assume "i < temporal_heap_sz q" "0 < i" "parent 2 i = idx" "0 < idx"
    then show "heap_times q ! parent 2 idx \<le> heap_times q ! i" using assms(3) by (simp add: hole_ok_def)
  qed
  then obtain q1 where q1: "correct_heap_node_up_at q idx = Inr q1" "rearranged q q1"
      "heap_ordered (\<le>) 2 (heap_times q1) (temporal_heap_sz q)"
    using up_rearranged [OF assms(1,2)] by blast
  have sz: "placed q1" "temporal_heap_sz q1 = temporal_heap_sz q" using q1(2) by (simp_all add: rearranged_def)
  obtain q' where "correct_heap_node_down_at q1 idx = Inr q'" "rearranged q1 q'"
      "heap_ordered (\<le>) 2 (heap_times q') (temporal_heap_sz q)"
    using down_rearranged [OF sz(1), of idx] down_ok_heap [OF q1(3) assms(2)] assms(2) unfolding sz(2) by blast
  then show ?thesis using q1(1) assms(2) same_items_trans [OF q1(2)] by (auto simp: correct_heap_node_at_def)
qed

section \<open>The map\<close>

definition map_ok :: "('a \<Rightarrow> 'k) \<Rightarrow> ('a, 'k) item_map \<Rightarrow> bool" where
  "map_ok get_id q \<longleftrightarrow>
     placed q \<and> heap_ordered (\<le>) 2 (heap_times q) (temporal_heap_sz q) \<and>
     (\<forall>k a. id_heap_map q k = Some a \<longleftrightarrow> a \<in> in_use q \<and> get_id (item (heap_nodes q ! a)) = k)"

definition stored :: "('a, 'k) item_map \<Rightarrow> 'k \<rightharpoonup> 'a \<times> int" where
  "stored q k = map_option (\<lambda>a. payload (heap_nodes q ! a)) (id_heap_map q k)"

lemma in_use_index:
  assumes "placed q"
  shows "a \<in> in_use q \<longleftrightarrow> (\<exists>i < temporal_heap_sz q. temporal_heap q ! i = a)"
  using assms by (auto simp: in_use_def placed_def in_set_conv_nth)

lemma in_use_bound: "placed q \<Longrightarrow> a \<in> in_use q \<Longrightarrow> a < length (heap_nodes q)"
  using placedD(2) [of q] by (auto simp: in_use_index placed_def)

lemma in_use_idx:
  assumes "placed q" and "a \<in> in_use q"
  shows "heap_idx (heap_nodes q ! a) < temporal_heap_sz q" "temporal_heap q ! heap_idx (heap_nodes q ! a) = a"
  using assms by (auto simp: in_use_index placed_def node_of_def)

lemma payload_eq:
  assumes "map payload ns' = map payload ns" and "a < length ns"
  shows "item (ns' ! a) = item (ns ! a)" "sched_time (ns' ! a) = sched_time (ns ! a)"
proof -
  have "length ns' = length ns" using map_eq_imp_length_eq [OF assms(1)] .
  then have "payload (ns' ! a) = payload (ns ! a)" using arg_cong [OF assms(1), of "\<lambda>xs. xs ! a"] assms(2) by simp
  then show "item (ns' ! a) = item (ns ! a)" "sched_time (ns' ! a) = sched_time (ns ! a)" by simp_all
qed

lemma map_ok_rearranged:
  assumes ids: "\<forall>k a. id_heap_map q k = Some a \<longleftrightarrow> a \<in> in_use q \<and> get_id (item (heap_nodes q ! a)) = k"
    and "placed q" and moved: "rearranged q q'" and heap: "heap_ordered (\<le>) 2 (heap_times q') (temporal_heap_sz q)"
  shows "map_ok get_id q'" "stored q' = stored q" "temporal_heap_sz q' = temporal_heap_sz q"
    "length (temporal_heap q') = length (temporal_heap q)"
proof -
  have pay: "item (heap_nodes q' ! a) = item (heap_nodes q ! a)" "sched_time (heap_nodes q' ! a) = sched_time (heap_nodes q ! a)"
    if "a \<in> in_use q" for a
    using payload_eq [of "heap_nodes q'" "heap_nodes q" a] in_use_bound [OF assms(2) that] moved by (simp_all add: rearranged_def)
  have eqs: "id_heap_map q' = id_heap_map q" "in_use q' = in_use q" "temporal_heap_sz q' = temporal_heap_sz q" "placed q'"
    using moved by (simp_all add: rearranged_def)
  have "a \<in> in_use q \<and> get_id (item (heap_nodes q ! a)) = k \<longleftrightarrow> a \<in> in_use q' \<and> get_id (item (heap_nodes q' ! a)) = k" for a k
    using pay(1) [of a] eqs(2) by (cases "a \<in> in_use q") simp_all
  then show "map_ok get_id q'"
    using ids eqs heap by (simp add: map_ok_def)
  show "stored q' = stored q"
  proof
    fix k
    show "stored q' k = stored q k"
    proof (cases "id_heap_map q k")
      case (Some a)
      then have "a \<in> in_use q" using ids by blast
      then show ?thesis using Some pay [of a] eqs(1) by (simp add: stored_def)
    qed (simp add: stored_def eqs(1))
  qed
  show "temporal_heap_sz q' = temporal_heap_sz q" "length (temporal_heap q') = length (temporal_heap q)"
    using assms(2,3) by (simp_all add: rearranged_def placed_def)
qed

section \<open>Growing and shrinking\<close>

lemma heap_times_ids [simp]: "heap_times (q\<lparr>id_heap_map := m\<rparr>) = heap_times q"
  by (simp add: heap_times_def)

lemma in_use_ids [simp]: "in_use (q\<lparr>id_heap_map := m\<rparr>) = in_use q"
  by (simp add: in_use_def)

lemma placed_ids [simp]: "placed (q\<lparr>id_heap_map := m\<rparr>) = placed q"
  by (simp add: placed_def node_of_def)

lemma rearranged_ids:
  "rearranged q q' \<Longrightarrow> rearranged (q\<lparr>id_heap_map := m\<rparr>) (q'\<lparr>id_heap_map := m\<rparr>)"
  by (simp add: rearranged_def)

definition with_node :: "('a, 'k) item_map \<Rightarrow> 'a \<Rightarrow> int \<Rightarrow> ('a, 'k) item_map" where
  "with_node q x t =
     (let sz = temporal_heap_sz q
      in q\<lparr>heap_nodes := (heap_nodes q)[temporal_heap q ! sz := \<lparr>item = x, sched_time = t, heap_idx = sz\<rparr>],
           temporal_heap_sz := sz + 1\<rparr>)"

lemma with_node_placed:
  assumes "placed q" and "temporal_heap_sz q < length (temporal_heap q)"
  shows "placed (with_node q x t)" "in_use (with_node q x t) = insert (temporal_heap q ! temporal_heap_sz q) (in_use q)"
    "temporal_heap q ! temporal_heap_sz q \<notin> in_use q"
    "\<And>i. i < temporal_heap_sz q \<Longrightarrow> heap_times (with_node q x t) ! i = heap_times q ! i"
proof -
  let ?n = "temporal_heap_sz q" and ?a = "temporal_heap q ! temporal_heap_sz q"
  have other: "temporal_heap q ! i \<noteq> ?a" if "i < ?n" for i
    using that placed_inj [OF assms(1) _ assms(2), of i] assms(2) by simp
  have a: "?a < length (heap_nodes q)" using placedD(2) [OF assms] .
  show "?a \<notin> in_use q" using other by (auto simp: in_use_index [OF assms(1)])
  show "heap_times (with_node q x t) ! i = heap_times q ! i" if "i < ?n" for i
    using that assms(2) other [OF that] by (simp add: heap_times_def with_node_def Let_def)
  show "in_use (with_node q x t) = insert ?a (in_use q)"
    using assms(2) by (simp add: in_use_def with_node_def Let_def take_Suc_conv_app_nth)
  have idx: "heap_idx (node_of (with_node q x t) i) = i" if "i < ?n + 1" for i
  proof (cases "i = ?n")
    case True
    then show ?thesis using a by (simp add: node_of_def with_node_def Let_def)
  next
    case False
    then have "i < ?n" using that by simp
    then show ?thesis using assms(1) other [of i] by (simp add: node_of_def with_node_def Let_def placed_def)
  qed
  show "placed (with_node q x t)"
    using assms idx by (simp add: placed_def) (simp add: with_node_def Let_def)
qed

definition without_last :: "'a \<Rightarrow> ('a, 'k) item_map \<Rightarrow> ('a, 'k) item_map" where
  "without_last blank q =
     (let n = temporal_heap_sz q - 1
      in q\<lparr>heap_nodes := (heap_nodes q)[temporal_heap q ! n := \<lparr>item = blank, sched_time = 0, heap_idx = 0\<rparr>],
           temporal_heap_sz := n\<rparr>)"

lemma without_last_placed:
  assumes "placed q" and "0 < temporal_heap_sz q"
  shows "placed (without_last blank q)"
    "in_use (without_last blank q) = in_use q - {temporal_heap q ! (temporal_heap_sz q - 1)}"
    "\<And>i. i < temporal_heap_sz q - 1 \<Longrightarrow> heap_times (without_last blank q) ! i = heap_times q ! i"
    "\<And>a. a \<noteq> temporal_heap q ! (temporal_heap_sz q - 1) \<Longrightarrow> heap_nodes (without_last blank q) ! a = heap_nodes q ! a"
proof -
  let ?n = "temporal_heap_sz q - 1" and ?a = "temporal_heap q ! (temporal_heap_sz q - 1)"
  have n: "?n < length (temporal_heap q)"
  proof -
    have "temporal_heap_sz q \<le> length (temporal_heap q)" using assms(1) by (simp add: placed_def)
    then show ?thesis using assms(2) by linarith
  qed
  have other: "temporal_heap q ! i \<noteq> ?a" if "i < ?n" for i
    using that placed_inj [OF assms(1) _ n, of i] n by simp
  show "heap_nodes (without_last blank q) ! a = heap_nodes q ! a" if "a \<noteq> ?a" for a
    using that by (simp add: without_last_def Let_def)
  show "heap_times (without_last blank q) ! i = heap_times q ! i" if "i < ?n" for i
    using that n other [OF that] by (simp add: heap_times_def without_last_def Let_def)
  have idx: "heap_idx (node_of (without_last blank q) i) = i" if "i < ?n" for i
    using assms(1) that other [OF that] by (simp add: node_of_def without_last_def Let_def placed_def)
  show "placed (without_last blank q)"
    using assms(1) idx n by (simp add: placed_def) (simp add: without_last_def Let_def)
  have "take (temporal_heap_sz q) (temporal_heap q) = take ?n (temporal_heap q) @ [?a]"
    using take_Suc_conv_app_nth [OF n] assms(2) by simp
  moreover have "?a \<notin> set (take ?n (temporal_heap q))"
    using other n by (auto simp: in_set_conv_nth)
  ultimately show "in_use (without_last blank q) = in_use q - {?a}"
    by (simp add: in_use_def without_last_def Let_def)
qed

section \<open>What the operations do\<close>

lemma map_okD:
  assumes "map_ok get_id q"
  shows "placed q" "heap_ordered (\<le>) 2 (heap_times q) (temporal_heap_sz q)" "temporal_heap_sz q \<le> length (temporal_heap q)"
    "\<And>k a. id_heap_map q k = Some a \<longleftrightarrow> a \<in> in_use q \<and> get_id (item (heap_nodes q ! a)) = k"
  using assms by (simp_all add: map_ok_def placed_def)

lemma stored_None: "stored q k = None \<longleftrightarrow> id_heap_map q k = None"
  by (simp add: stored_def)

lemma item_map_new_ok: "map_ok get_id (item_map_new blank cap)" "stored (item_map_new blank cap) = Map.empty"
  by (auto simp: map_ok_def placed_def item_map_new_def in_use_def heap_ordered_def heap_from_def stored_def)

lemma item_add_duplicate: "stored q (get_id x) \<noteq> None \<Longrightarrow> item_add get_id q x t = Inr (DUPLICATED_ENTRY, q)"
  by (simp add: item_add_def stored_None)

lemma item_add_full:
  "stored q (get_id x) = None \<Longrightarrow> item_map_size q = item_map_capacity q \<Longrightarrow>
   item_add get_id q x t = Inr (RESOURCE_EXHAUSTION, q)"
  by (simp add: item_add_def stored_None add_heap_node_def item_map_size_def item_map_capacity_def)

lemma item_add_ok:
  assumes ok: "map_ok get_id q" and new: "stored q (get_id x) = None" and room: "item_map_size q < item_map_capacity q"
  shows "\<exists>q'. item_add get_id q x t = Inr (SUCCESS, q') \<and> map_ok get_id q' \<and> stored q' = (stored q)(get_id x \<mapsto> (x, t)) \<and>
    item_map_size q' = item_map_size q + 1 \<and> item_map_capacity q' = item_map_capacity q"
proof -
  let ?n = "temporal_heap_sz q" and ?a = "temporal_heap q ! temporal_heap_sz q" and ?q1 = "with_node q x t"
  have n: "?n < length (temporal_heap q)" using room by (simp add: item_map_size_def item_map_capacity_def)
  have wn: "placed ?q1" "in_use ?q1 = insert ?a (in_use q)" "?a \<notin> in_use q"
      "\<And>i. i < ?n \<Longrightarrow> heap_times ?q1 ! i = heap_times q ! i"
    by (rule with_node_placed [OF map_okD(1) [OF ok] n]; assumption)+
  have ids: "id_heap_map ?q1 = id_heap_map q" and sz1: "temporal_heap_sz ?q1 = ?n + 1"
    by (simp_all add: with_node_def Let_def)
  have a: "?a < length (heap_nodes q)" using placedD(2) [OF map_okD(1) [OF ok] n] .
  have new_node: "item (heap_nodes ?q1 ! ?a) = x" "sched_time (heap_nodes ?q1 ! ?a) = t"
    using a by (simp_all add: with_node_def Let_def)
  have old_node: "heap_nodes ?q1 ! b = heap_nodes q ! b" if "b \<noteq> ?a" for b
    using that by (simp add: with_node_def Let_def)
  have "heap_ordered (\<le>) 2 (heap_times ?q1) ?n"
    using map_okD(2) [OF ok] heap_from_prefix [of "(\<le>)" 2 "heap_times q" ?n 0 ?n "heap_times ?q1"] wn(4)
    by (simp add: heap_ordered_def)
  then have "up_ok (\<le>) 2 (heap_times ?q1) (temporal_heap_sz ?q1) ?n"
    using up_ok_last [of "(\<le>)" 2 "heap_times ?q1" ?n] sz1 by simp
  moreover have "?n < temporal_heap_sz ?q1" using sz1 by simp
  ultimately obtain q2 where q2: "correct_heap_node_up_at ?q1 ?n = Inr q2" "rearranged ?q1 q2"
      "heap_ordered (\<le>) 2 (heap_times q2) (?n + 1)"
    using up_rearranged [OF wn(1)] unfolding sz1 by blast
  let ?m = "(id_heap_map q)(get_id x \<mapsto> ?a)"
  let ?p = "?q1\<lparr>id_heap_map := ?m\<rparr>" and ?q' = "q2\<lparr>id_heap_map := ?m\<rparr>"
  have free: "id_heap_map q (get_id x) = None" using new by (simp add: stored_None)
  have pay2: "item (heap_nodes q2 ! ?a) = x"
    using payload_eq(1) [of "heap_nodes q2" "heap_nodes ?q1" ?a] q2(2) new_node a
    by (simp add: rearranged_def with_node_def Let_def)
  have run: "item_add get_id q x t = Inr (SUCCESS, ?q')"
    using free q2(1) n placedD(1) [OF map_okD(1) [OF ok] n] pay2 q2(2) ids
    by (simp add: item_add_def add_heap_node_def with_node_def Let_def rearranged_def)
  have idmap: "id_heap_map ?p k = Some b \<longleftrightarrow> b \<in> in_use ?p \<and> get_id (item (heap_nodes ?p ! b)) = k" for k b
  proof (cases "b = ?a")
    case True
    then show ?thesis using wn(2,3) new_node map_okD(4) [OF ok, of k ?a] by auto
  next
    case False
    have "id_heap_map q k = Some b \<longleftrightarrow> b \<in> in_use q \<and> get_id (item (heap_nodes q ! b)) = k" using map_okD(4) [OF ok] .
    then show ?thesis using False wn(2) old_node [OF False] free by auto
  qed
  have placed': "placed ?p" "rearranged ?p ?q'" "heap_ordered (\<le>) 2 (heap_times ?q') (temporal_heap_sz ?p)"
    using wn(1) rearranged_ids [OF q2(2)] q2(3) sz1 by simp_all
  have "\<forall>k b. id_heap_map ?p k = Some b \<longleftrightarrow> b \<in> in_use ?p \<and> get_id (item (heap_nodes ?p ! b)) = k"
    using idmap by blast
  note moved = map_ok_rearranged [OF this placed']
  have "stored ?p k = ((stored q)(get_id x \<mapsto> (x, t))) k" for k
  proof (cases "k = get_id x")
    case True
    then show ?thesis using new_node by (simp add: stored_def)
  next
    case False
    have "heap_nodes ?q1 ! b = heap_nodes q ! b" if "id_heap_map q k = Some b" for b
      using that map_okD(4) [OF ok, of k b] wn(3) old_node [of b] by metis
    then show ?thesis using False by (cases "id_heap_map q k") (simp_all add: stored_def)
  qed
  then have "stored ?q' = (stored q)(get_id x \<mapsto> (x, t))" using moved(2) by auto
  moreover have "temporal_heap_sz ?q' = ?n + 1" "length (temporal_heap ?q') = length (temporal_heap q)"
    using moved(3,4) sz1 by (simp_all add: with_node_def Let_def)
  ultimately show ?thesis using run moved(1) by (simp add: item_map_size_def item_map_capacity_def)
qed

lemma item_update_missing: "stored q k = None \<Longrightarrow> item_update q k t = Inr (INVALID_DICTIONARY_KEY, q)"
  by (simp add: item_update_def stored_None)

lemma stored_Some:
  assumes "map_ok get_id q" and "stored q k = Some (x, t)"
  obtains a where "id_heap_map q k = Some a" "a \<in> in_use q" "get_id (item (heap_nodes q ! a)) = k"
    "item (heap_nodes q ! a) = x" "sched_time (heap_nodes q ! a) = t"
  using assms map_okD(4) [OF assms(1), of k] by (auto simp: stored_def)

lemma item_update_ok:
  assumes ok: "map_ok get_id q" and st: "stored q k = Some (x, t0)"
  shows "\<exists>q'. item_update q k t = Inr (SUCCESS, q') \<and> map_ok get_id q' \<and> stored q' = (stored q)(k \<mapsto> (x, t)) \<and>
    item_map_size q' = item_map_size q \<and> item_map_capacity q' = item_map_capacity q"
proof -
  obtain a where a: "id_heap_map q k = Some a" "a \<in> in_use q" "item (heap_nodes q ! a) = x" "get_id x = k"
    using stored_Some [OF ok st] by metis
  let ?n = "temporal_heap_sz q" and ?i = "heap_idx (heap_nodes q ! a)"
  let ?q1 = "q\<lparr>heap_nodes := (heap_nodes q)[a := (heap_nodes q ! a)\<lparr>sched_time := t\<rparr>]\<rparr>"
  have bound: "a < length (heap_nodes q)" using in_use_bound [OF map_okD(1) [OF ok] a(2)] .
  have i: "?i < ?n" "temporal_heap q ! ?i = a" using in_use_idx [OF map_okD(1) [OF ok] a(2)] by simp_all
  have node: "(heap_nodes q)[a := (heap_nodes q ! a)\<lparr>sched_time := t\<rparr>] ! b = (if b = a then (heap_nodes q ! a)\<lparr>sched_time := t\<rparr> else heap_nodes q ! b)" for b
    using bound by (simp add: nth_list_update)
  have placed1: "placed ?q1"
  proof -
    have "heap_idx (heap_nodes ?q1 ! b) = heap_idx (heap_nodes q ! b)" for b by (simp add: node)
    then show ?thesis using map_okD(1) [OF ok] by (simp add: placed_def node_of_def)
  qed
  have "heap_times ?q1 ! j = heap_times q ! j" if "j < ?n" "j \<noteq> ?i" for j
  proof -
    have "j < length (temporal_heap q)" "?i < length (temporal_heap q)" using that i map_okD(3) [OF ok] by simp_all
    moreover from this have "temporal_heap q ! j \<noteq> a" using placed_inj [OF map_okD(1) [OF ok], of j ?i] that i(2) by simp
    ultimately show ?thesis by (simp add: heap_times_def)
  qed
  then have hole: "hole_ok (heap_times ?q1) (temporal_heap_sz ?q1) ?i"
    using hole_okI [OF map_okD(2) [OF ok] order_refl i(1)] by simp
  have "?i < temporal_heap_sz ?q1" using i(1) by simp
  then obtain q' where q': "correct_heap_node_at ?q1 ?i = Inr q'" "rearranged ?q1 q'"
      "heap_ordered (\<le>) 2 (heap_times q') (temporal_heap_sz ?q1)"
    using correct_rearranged [OF placed1 _ hole] by blast
  have "heap_idx (heap_nodes ?q1 ! a) = ?i" by (simp add: node)
  then have run: "item_update q k t = Inr (SUCCESS, q')"
    using a(1) q'(1) unfolding item_update_def by (simp add: Let_def)
  have "in_use ?q1 = in_use q" by (simp add: in_use_def)
  moreover have "item (heap_nodes ?q1 ! b) = item (heap_nodes q ! b)" for b by (simp add: node)
  ultimately have "\<forall>k b. id_heap_map ?q1 k = Some b \<longleftrightarrow> b \<in> in_use ?q1 \<and> get_id (item (heap_nodes ?q1 ! b)) = k"
    using map_okD(4) [OF ok] by simp
  note moved = map_ok_rearranged [OF this placed1 q'(2,3)]
  have "stored ?q1 j = ((stored q)(k \<mapsto> (x, t))) j" for j
  proof (cases "id_heap_map q j")
    case None
    then show ?thesis using a(1) by (auto simp: stored_def)
  next
    case (Some b)
    have "get_id (item (heap_nodes q ! b)) = j" using Some map_okD(4) [OF ok, of j b] by blast
    then have "b = a \<longleftrightarrow> j = k"
      by (metis Some a(1,3,4) option.inject)
    then show ?thesis using Some a(1,3) by (simp add: stored_def node)
  qed
  then have "stored q' = (stored q)(k \<mapsto> (x, t))" using moved(2) by auto
  then show ?thesis using run moved(1,3,4) by (simp add: item_map_size_def item_map_capacity_def)
qed

lemma erase_heap_node_at_ok:
  assumes ok: "map_ok get_id q" and a: "id_heap_map q k = Some a"
  shows "\<exists>q'. erase_heap_node_at blank (q\<lparr>id_heap_map := (id_heap_map q)(k := None)\<rparr>) (heap_idx (heap_nodes q ! a)) = Inr q' \<and>
    map_ok get_id q' \<and> stored q' = (stored q)(k := None) \<and>
    item_map_size q' = item_map_size q - 1 \<and> item_map_capacity q' = item_map_capacity q"
proof -
  let ?n = "temporal_heap_sz q" and ?i = "heap_idx (heap_nodes q ! a)"
  let ?q0 = "q\<lparr>id_heap_map := (id_heap_map q)(k := None)\<rparr>"
  have used: "a \<in> in_use q" "get_id (item (heap_nodes q ! a)) = k" using map_okD(4) [OF ok] a by simp_all
  have i: "?i < ?n" "temporal_heap q ! ?i = a" using in_use_idx [OF map_okD(1) [OF ok] used(1)] by simp_all
  have lst: "?n - 1 < ?n" using i(1) by simp
  have placed0: "placed ?q0" using map_okD(1) [OF ok] by simp
  obtain q1 where q1: "rearranged ?q0 q1" "temporal_heap q1 ! (?n - 1) = a"
      "?i = ?n - 1 \<longrightarrow> q1 = ?q0" "?i \<noteq> ?n - 1 \<longrightarrow> swap_heap_node ?q0 ?i (?n - 1) = Inr q1"
      "\<And>j. j < ?n - 1 \<Longrightarrow> j \<noteq> ?i \<Longrightarrow> heap_times q1 ! j = heap_times q ! j"
  proof (cases "?i = ?n - 1")
    case True
    then show ?thesis using that [of ?q0] same_items_refl [OF placed0] i(2) by simp
  next
    case False
    obtain q1 where q1: "swap_heap_node ?q0 ?i (?n - 1) = Inr q1" "rearranged ?q0 q1"
        "heap_times q1 = swap (heap_times ?q0) ?i (?n - 1)" "temporal_heap q1 = swap (temporal_heap ?q0) ?i (?n - 1)"
      using swap_rearranged [OF placed0, of ?i "?n - 1"] i(1) lst by auto
    have len: "?n \<le> length (temporal_heap q)" using map_okD(3) [OF ok] .
    show ?thesis
    proof (rule that [of q1])
      show "temporal_heap q1 ! (?n - 1) = a" using i lst len by (simp add: q1(4) nth_swap)
      show "heap_times q1 ! j = heap_times q ! j" if "j < ?n - 1" "j \<noteq> ?i" for j
        using that i lst len by (simp add: q1(3) nth_swap)
    qed (use q1 False in simp_all)
  qed
  have sz1: "temporal_heap_sz q1 = ?n" "placed q1" using q1(1) by (simp_all add: rearranged_def)
  have pos: "0 < temporal_heap_sz q1" using i(1) sz1(1) by simp
  let ?q2 = "without_last blank q1"
  have wl: "placed ?q2" "in_use ?q2 = in_use q1 - {a}" "\<And>j. j < ?n - 1 \<Longrightarrow> heap_times ?q2 ! j = heap_times q1 ! j"
      "\<And>b. b \<noteq> a \<Longrightarrow> heap_nodes ?q2 ! b = heap_nodes q1 ! b"
    using without_last_placed [OF sz1(2) pos] q1(2) sz1(1) by simp_all
  have sz2: "temporal_heap_sz ?q2 = ?n - 1" "id_heap_map ?q2 = (id_heap_map q)(k := None)"
      "temporal_heap ?q2 = temporal_heap q1" "length (temporal_heap q1) = length (temporal_heap q)"
    using q1(1) sz1 map_okD(1) [OF ok] by (simp_all add: without_last_def Let_def rearranged_def placed_def)
  have nul: "bindR (nullify_heap_node blank q1 (?n - 1)) (\<lambda>q. Inr (q\<lparr>temporal_heap_sz := temporal_heap_sz q - 1\<rparr>)) = Inr ?q2"
    using placedD(1) [OF sz1(2), of "?n - 1"] lst map_okD(3) [OF ok] sz2(4) sz1(1)
    by (simp add: nullify_heap_node_def without_last_def Let_def)
  obtain q' where q': "erase_heap_node_at blank ?q0 ?i = Inr q'" "rearranged ?q2 q'"
      "heap_ordered (\<le>) 2 (heap_times q') (?n - 1)"
  proof (cases "?i = ?n - 1")
    case True
    have "heap_ordered (\<le>) 2 (heap_times ?q2) (?n - 1)"
      using heap_from_prefix [of "(\<le>)" 2 "heap_times q" ?n 0 "?n - 1" "heap_times ?q2"] map_okD(2) [OF ok] wl(3) q1(5) True
      by (simp add: heap_ordered_def)
    then show ?thesis using that [of ?q2] same_items_refl [OF wl(1)] nul q1(3) True i(1)
      by (simp add: erase_heap_node_at_def Let_def)
  next
    case False
    then have lt: "?i < ?n - 1" using i(1) by linarith
    have "heap_times ?q2 ! j = heap_times q ! j" if "j < ?n - 1" "j \<noteq> ?i" for j
      using wl(3) [OF that(1)] q1(5) [OF that] by simp
    then have hole: "hole_ok (heap_times ?q2) (temporal_heap_sz ?q2) ?i"
      using hole_okI [OF map_okD(2) [OF ok] _ lt] unfolding sz2(1) by simp
    obtain q' where q': "correct_heap_node_at ?q2 ?i = Inr q'" "rearranged ?q2 q'"
        "heap_ordered (\<le>) 2 (heap_times q') (temporal_heap_sz ?q2)"
      using correct_rearranged [OF wl(1) _ hole] lt unfolding sz2(1) by blast
    have "bindR (nullify_heap_node blank q1 (?n - 1))
        (\<lambda>q. correct_heap_node_at (q\<lparr>temporal_heap_sz := temporal_heap_sz q - 1\<rparr>) ?i) =
      bindR (bindR (nullify_heap_node blank q1 (?n - 1)) (\<lambda>q. Inr (q\<lparr>temporal_heap_sz := temporal_heap_sz q - 1\<rparr>)))
        (\<lambda>q. correct_heap_node_at q ?i)"
      by (simp add: bindR_assoc)
    then have "erase_heap_node_at blank ?q0 ?i = Inr q'"
      using q1(4) False i(1) nul q'(1) by (simp add: erase_heap_node_at_def Let_def)
    then show ?thesis using that q'(2,3) sz2(1) by simp
  qed
  have pay: "payload (heap_nodes ?q2 ! b) = payload (heap_nodes q ! b)" if "b \<in> in_use q" "b \<noteq> a" for b
    using wl(4) [OF that(2)] payload_eq [of "heap_nodes q1" "heap_nodes q" b] q1(1) in_use_bound [OF map_okD(1) [OF ok] that(1)]
    by (simp add: rearranged_def)
  have used2: "in_use ?q2 = in_use q - {a}" using wl(2) q1(1) by (simp add: rearranged_def)
  have "id_heap_map ?q2 j = Some b \<longleftrightarrow> b \<in> in_use ?q2 \<and> get_id (item (heap_nodes ?q2 ! b)) = j" for j b
  proof (cases "b \<in> in_use q \<and> b \<noteq> a")
    case True
    have "id_heap_map q k \<noteq> Some b" using a True by simp
    then show ?thesis using True pay [of b] map_okD(4) [OF ok, of j b] by (auto simp: sz2(2) used2)
  next
    case False
    then show ?thesis using map_okD(4) [OF ok, of j b] used(2) by (auto simp: sz2(2) used2)
  qed
  then have "\<forall>j b. id_heap_map ?q2 j = Some b \<longleftrightarrow> b \<in> in_use ?q2 \<and> get_id (item (heap_nodes ?q2 ! b)) = j"
    by blast
  note moved = map_ok_rearranged [OF this wl(1) q'(2)]
  have "stored ?q2 j = ((stored q)(k := None)) j" for j
  proof (cases "j = k \<or> id_heap_map q j = None")
    case True
    then show ?thesis by (auto simp: stored_def sz2(2))
  next
    case False
    then obtain b where b: "id_heap_map q j = Some b" by auto
    then have "b \<in> in_use q" "b \<noteq> a" using map_okD(4) [OF ok, of j b] used(2) False by auto
    then show ?thesis using b False pay [of b] by (simp add: stored_def sz2(2))
  qed
  then have "stored q' = (stored q)(k := None)" using moved(2) q'(3) sz2(1) by auto
  moreover have "map_ok get_id q'" "temporal_heap_sz q' = ?n - 1" "length (temporal_heap q') = length (temporal_heap q)"
    using moved(1,3,4) q'(3) sz2 by simp_all
  ultimately show ?thesis using q'(1) by (simp add: item_map_size_def item_map_capacity_def)
qed

lemma item_erase_ok:
  assumes ok: "map_ok get_id q"
  shows "\<exists>q'. item_erase blank q k = Inr q' \<and> map_ok get_id q' \<and> stored q' = (stored q)(k := None) \<and>
    item_map_size q' = item_map_size q - (if stored q k = None then 0 else 1) \<and> item_map_capacity q' = item_map_capacity q"
proof (cases "id_heap_map q k")
  case None
  then have "(stored q)(k := None) = stored q" by (simp add: fun_upd_idem_iff stored_None)
  then show ?thesis using None ok by (simp add: item_erase_def stored_None)
next
  case (Some a)
  then show ?thesis using erase_heap_node_at_ok [OF ok Some, of blank] by (simp add: item_erase_def stored_None Let_def)
qed

text \<open>Taking out the front is erasing the node at index 0.\<close>

lemma pop_heap_node_eq:
  assumes "0 < temporal_heap_sz q"
  shows "pop_heap_node blank q = erase_heap_node_at blank q 0"
proof (cases "temporal_heap_sz q - 1 = 0")
  case True
  then show ?thesis using assms by (simp add: pop_heap_node_def erase_heap_node_at_def Let_def)
next
  case False
  have correct: "correct_heap_node_at r 0 = correct_heap_node_down_at r 0" if "0 < temporal_heap_sz r" for r :: "('a, 'k) item_map"
    using that by (simp add: correct_heap_node_at_def correct_heap_node_up_at.simps)
  have "bindR (nullify_heap_node blank r (temporal_heap_sz q - 1))
      (\<lambda>q. correct_heap_node_down_at (q\<lparr>temporal_heap_sz := temporal_heap_sz q - 1\<rparr>) 0) =
    bindR (nullify_heap_node blank r (temporal_heap_sz q - 1))
      (\<lambda>q. correct_heap_node_at (q\<lparr>temporal_heap_sz := temporal_heap_sz q - 1\<rparr>) 0)"
    if "swap_heap_node q 0 (temporal_heap_sz q - 1) = Inr r" for r
  proof (cases "node_ref r (temporal_heap_sz q - 1)")
    case (Inr a)
    then show ?thesis using swap_heap_node_sz [OF that] False by (simp add: nullify_heap_node_def correct)
  qed (simp add: nullify_heap_node_def)
  then show ?thesis
    using assms False by (cases "swap_heap_node q 0 (temporal_heap_sz q - 1)") (simp_all add: pop_heap_node_def erase_heap_node_at_def Let_def)
qed

lemma front_earliest:
  assumes ok: "map_ok get_id q" and n: "0 < temporal_heap_sz q"
  defines "a \<equiv> temporal_heap q ! 0"
  shows "node_ref q 0 = Inr a" "id_heap_map q (get_id (item (heap_nodes q ! a))) = Some a"
    "stored q (get_id (item (heap_nodes q ! a))) = Some (payload (heap_nodes q ! a))"
    "heap_idx (heap_nodes q ! a) = 0"
    "\<And>k x t. stored q k = Some (x, t) \<Longrightarrow> sched_time (heap_nodes q ! a) \<le> t"
proof -
  have len: "0 < length (temporal_heap q)" using n map_okD(3) [OF ok] by linarith
  show "node_ref q 0 = Inr a" using placedD(1) [OF map_okD(1) [OF ok] len] by (simp add: a_def)
  have used: "a \<in> in_use q" using n in_use_index [OF map_okD(1) [OF ok]] by (auto simp: a_def)
  then show idm: "id_heap_map q (get_id (item (heap_nodes q ! a))) = Some a" using map_okD(4) [OF ok] by simp
  show "stored q (get_id (item (heap_nodes q ! a))) = Some (payload (heap_nodes q ! a))"
    using idm by (simp add: stored_def)
  show "heap_idx (heap_nodes q ! a) = 0" using map_okD(1) [OF ok] n by (simp add: placed_def node_of_def a_def)
  show "sched_time (heap_nodes q ! a) \<le> t" if st: "stored q k = Some (x, t)" for k x t
  proof -
    obtain b where b: "b \<in> in_use q" "sched_time (heap_nodes q ! b) = t" using stored_Some [OF ok st] by metis
    then obtain i where i: "i < temporal_heap_sz q" "temporal_heap q ! i = b"
      using in_use_index [OF map_okD(1) [OF ok]] by blast
    have "heap_times q ! 0 \<le> heap_times q ! i" using earlier.root_best [OF map_okD(2) [OF ok] i(1)] .
    then show ?thesis using i b(2) len map_okD(3) [OF ok] by (simp add: heap_times_def a_def)
  qed
qed

lemma item_map_size_card:
  assumes ok: "map_ok get_id q"
  shows "finite (dom (stored q))" "card (dom (stored q)) = item_map_size q"
proof -
  have "dom (stored q) = (\<lambda>a. get_id (item (heap_nodes q ! a))) ` in_use q"
    using map_okD(4) [OF ok] by (auto simp: stored_def image_iff)
  moreover have "inj_on (\<lambda>a. get_id (item (heap_nodes q ! a))) (in_use q)"
    by (intro inj_onI) (metis map_okD(4) [OF ok] option.inject)
  moreover have "card (in_use q) = temporal_heap_sz q"
    using map_okD(1) [OF ok] by (simp add: in_use_def placed_def distinct_card)
  ultimately show "card (dom (stored q)) = item_map_size q" "finite (dom (stored q))"
    by (simp_all add: card_image item_map_size_def in_use_def)
qed

lemma size_zero: "map_ok get_id q \<Longrightarrow> temporal_heap_sz q = 0 \<longleftrightarrow> stored q = Map.empty"
  using item_map_size_card [of get_id q] by (auto simp: item_map_size_def)

text \<open>No item is due, or the earliest of those that are is taken out.\<close>

lemma get_expired_item_ok:
  assumes ok: "map_ok get_id q"
  shows "((\<forall>k x t. stored q k = Some (x, t) \<longrightarrow> bar \<le> t) \<and> get_expired_item blank get_id q bar = Inr (None, q)) \<or>
    (\<exists>x t q'. get_expired_item blank get_id q bar = Inr (Some x, q') \<and> stored q (get_id x) = Some (x, t) \<and> t < bar \<and>
       (\<forall>k y u. stored q k = Some (y, u) \<longrightarrow> t \<le> u) \<and> map_ok get_id q' \<and> stored q' = (stored q)(get_id x := None) \<and>
       item_map_size q' = item_map_size q - 1 \<and> item_map_capacity q' = item_map_capacity q)"
proof (cases "temporal_heap_sz q = 0")
  case True
  then have "stored q = Map.empty" using size_zero [OF ok] by simp
  then show ?thesis using True by (simp add: get_expired_item_def)
next
  case False
  let ?a = "temporal_heap q ! 0"
  let ?f = "heap_nodes q ! ?a"
  have front: "node_ref q 0 = Inr ?a" "id_heap_map q (get_id (item ?f)) = Some ?a" "stored q (get_id (item ?f)) = Some (payload ?f)"
      "heap_idx ?f = 0" "\<And>k x t. stored q k = Some (x, t) \<Longrightarrow> sched_time ?f \<le> t"
    using front_earliest [OF ok] False by blast+
  show ?thesis
  proof (cases "bar \<le> sched_time ?f")
    case True
    then have "bar \<le> t" if "stored q k = Some (x, t)" for k x t using front(5) [OF that] by linarith
    moreover have "get_expired_item blank get_id q bar = Inr (None, q)"
      using True False front(1) by (simp add: get_expired_item_def Let_def)
    ultimately show ?thesis by blast
  next
    case due: False
    let ?q0 = "q\<lparr>id_heap_map := (id_heap_map q)(get_id (item ?f) := None)\<rparr>"
    obtain q' where q': "erase_heap_node_at blank ?q0 0 = Inr q'" "map_ok get_id q'"
        "stored q' = (stored q)(get_id (item ?f) := None)" "item_map_size q' = item_map_size q - 1"
        "item_map_capacity q' = item_map_capacity q"
      using erase_heap_node_at_ok [OF ok front(2), of blank] unfolding front(4) by blast
    have "pop_heap_node blank ?q0 = Inr q'" using pop_heap_node_eq [of ?q0 blank] q'(1) False by simp
    then have "get_expired_item blank get_id q bar = Inr (Some (item ?f), q')"
      using due False front(1) by (simp add: get_expired_item_def Let_def)
    moreover have "sched_time ?f < bar" using due by simp
    ultimately show ?thesis using front(3,5) q' by blast
  qed
qed

lemma has_expired_item_iff:
  assumes ok: "map_ok get_id q"
  shows "has_expired_item q bar = Inr (\<exists>k x t. stored q k = Some (x, t) \<and> t < bar)"
proof (cases "temporal_heap_sz q = 0")
  case True
  then show ?thesis using size_zero [OF ok] by (simp add: has_expired_item_def)
next
  case False
  let ?f = "heap_nodes q ! (temporal_heap q ! 0)"
  have front: "node_ref q 0 = Inr (temporal_heap q ! 0)" "stored q (get_id (item ?f)) = Some (payload ?f)"
      "\<And>k x t. stored q k = Some (x, t) \<Longrightarrow> sched_time ?f \<le> t"
    using front_earliest [OF ok] False by blast+
  have "sched_time ?f < bar \<longleftrightarrow> (\<exists>k x t. stored q k = Some (x, t) \<and> t < bar)"
    using front(2,3) by (meson le_less_trans)
  then show ?thesis using False front(1) by (simp add: has_expired_item_def not_le)
qed

lemma stored_key: "map_ok get_id q \<Longrightarrow> stored q k = Some (x, t) \<Longrightarrow> get_id x = k"
  by (erule stored_Some) auto

section \<open>The contract\<close>

text \<open>
  A map from ids to items and their times that has at most \<open>room\<close> entries. Which of the earliest entries \<open>get_expired_item\<close>
  takes is left open.
\<close>

datatype ('a, 'k) map_op =
    Add 'a int | Update 'k int | Add_or_update 'a int | Erase 'k | Get_expired int | Has_expired int | Size

datatype 'a map_reply = Code exception_t | Item "'a option" | Answer bool | Count nat

definition due :: "('k \<rightharpoonup> 'a \<times> int) \<Rightarrow> int \<Rightarrow> bool" where
  "due m bar \<longleftrightarrow> (\<exists>k x t. m k = Some (x, t) \<and> t < bar)"

definition earliest_due :: "('a \<Rightarrow> 'k) \<Rightarrow> ('k \<rightharpoonup> 'a \<times> int) \<Rightarrow> int \<Rightarrow> 'a \<Rightarrow> bool" where
  "earliest_due get_id m bar x \<longleftrightarrow>
     (\<exists>t. m (get_id x) = Some (x, t) \<and> t < bar \<and> (\<forall>k y u. m k = Some (y, u) \<longrightarrow> t \<le> u))"

fun spec_step ::
    "('a \<Rightarrow> 'k) \<Rightarrow> nat \<Rightarrow> ('k \<rightharpoonup> 'a \<times> int) \<Rightarrow> ('a, 'k) map_op \<Rightarrow> 'a map_reply \<Rightarrow> ('k \<rightharpoonup> 'a \<times> int) \<Rightarrow> bool"
where
  "spec_step get_id room m (Add x t) r m' \<longleftrightarrow>
     (if m (get_id x) \<noteq> None then r = Code DUPLICATED_ENTRY \<and> m' = m
      else if card (dom m) = room then r = Code RESOURCE_EXHAUSTION \<and> m' = m
      else r = Code SUCCESS \<and> m' = m(get_id x \<mapsto> (x, t)))"
| "spec_step get_id room m (Update k t) r m' \<longleftrightarrow>
     (case m k of None \<Rightarrow> r = Code INVALID_DICTIONARY_KEY \<and> m' = m
      | Some (x, _) \<Rightarrow> r = Code SUCCESS \<and> m' = m(k \<mapsto> (x, t)))"
| "spec_step get_id room m (Add_or_update x t) r m' \<longleftrightarrow>
     (case m (get_id x) of
        Some (y, _) \<Rightarrow> r = Code SUCCESS \<and> m' = m(get_id x \<mapsto> (y, t))
      | None \<Rightarrow> if card (dom m) = room then r = Code RESOURCE_EXHAUSTION \<and> m' = m
                else r = Code SUCCESS \<and> m' = m(get_id x \<mapsto> (x, t)))"
| "spec_step get_id room m (Erase k) r m' \<longleftrightarrow> r = Code SUCCESS \<and> m' = m(k := None)"
| "spec_step get_id room m (Get_expired bar) r m' \<longleftrightarrow>
     (if due m bar then \<exists>x. r = Item (Some x) \<and> earliest_due get_id m bar x \<and> m' = m(get_id x := None)
      else r = Item None \<and> m' = m)"
| "spec_step get_id room m (Has_expired bar) r m' \<longleftrightarrow> r = Answer (due m bar) \<and> m' = m"
| "spec_step get_id room m Size r m' \<longleftrightarrow> r = Count (card (dom m)) \<and> m' = m"

fun spec_run ::
    "('a \<Rightarrow> 'k) \<Rightarrow> nat \<Rightarrow> ('k \<rightharpoonup> 'a \<times> int) \<Rightarrow> ('a, 'k) map_op list \<Rightarrow> 'a map_reply list \<Rightarrow> ('k \<rightharpoonup> 'a \<times> int) \<Rightarrow> bool"
where
  "spec_run get_id room m [] rs m' \<longleftrightarrow> rs = [] \<and> m' = m"
| "spec_run get_id room m (x # xs) rs m' \<longleftrightarrow>
     (\<exists>r rs1 m1. rs = r # rs1 \<and> spec_step get_id room m x r m1 \<and> spec_run get_id room m1 xs rs1 m')"

fun run_map ::
    "('q \<Rightarrow> ('a, 'k) map_op \<Rightarrow> ('a map_reply \<times> 'q) result) \<Rightarrow> 'q \<Rightarrow> ('a, 'k) map_op list \<Rightarrow> ('a map_reply list \<times> 'q) result"
where
  "run_map step q [] = Inr ([], q)"
| "run_map step q (x # xs) = bindR (step q x) (\<lambda>(r, q). bindR (run_map step q xs) (\<lambda>(rs, q). Inr (r # rs, q)))"

primrec item_map_step ::
    "'a \<Rightarrow> ('a \<Rightarrow> 'k) \<Rightarrow> ('a, 'k) item_map \<Rightarrow> ('a, 'k) map_op \<Rightarrow> ('a map_reply \<times> ('a, 'k) item_map) result"
where
  "item_map_step blank get_id q (Add x t) = bindR (item_add get_id q x t) (\<lambda>(err, q). Inr (Code err, q))"
| "item_map_step blank get_id q (Update k t) = bindR (item_update q k t) (\<lambda>(err, q). Inr (Code err, q))"
| "item_map_step blank get_id q (Add_or_update x t) =
     bindR (item_add_or_update get_id q x t) (\<lambda>(err, q). Inr (Code err, q))"
| "item_map_step blank get_id q (Erase k) = bindR (item_erase blank q k) (\<lambda>q. Inr (Code SUCCESS, q))"
| "item_map_step blank get_id q (Get_expired bar) =
     bindR (get_expired_item blank get_id q bar) (\<lambda>(x, q). Inr (Item x, q))"
| "item_map_step blank get_id q (Has_expired bar) = bindR (has_expired_item q bar) (\<lambda>b. Inr (Answer b, q))"
| "item_map_step blank get_id q Size = Inr (Count (item_map_size q), q)"

locale expiry_map =
  fixes step :: "'q \<Rightarrow> ('a, 'k) map_op \<Rightarrow> ('a map_reply \<times> 'q) result"
    and ok :: "'q \<Rightarrow> bool"
    and contents :: "'q \<Rightarrow> 'k \<rightharpoonup> 'a \<times> int"
    and room :: "'q \<Rightarrow> nat"
    and get_id :: "'a \<Rightarrow> 'k"
  assumes step_ok: "ok q \<Longrightarrow> \<exists>r q'. step q x = Inr (r, q') \<and> ok q' \<and> room q' = room q \<and>
      spec_step get_id (room q) (contents q) x r (contents q')"
    and bounded: "ok q \<Longrightarrow> finite (dom (contents q)) \<and> card (dom (contents q)) \<le> room q"
begin

lemma run_map_ok:
  "ok q \<Longrightarrow> \<exists>rs q'. run_map step q xs = Inr (rs, q') \<and> ok q' \<and> room q' = room q \<and>
     spec_run get_id (room q) (contents q) xs rs (contents q')"
proof (induction xs arbitrary: q)
  case (Cons x xs)
  obtain r q1 where 1: "step q x = Inr (r, q1)" "ok q1" "room q1 = room q"
      "spec_step get_id (room q) (contents q) x r (contents q1)"
    using step_ok [OF Cons.prems] by blast
  obtain rs q' where 2: "run_map step q1 xs = Inr (rs, q')" "ok q'" "room q' = room q"
      "spec_run get_id (room q) (contents q1) xs rs (contents q')"
    using Cons.IH [OF 1(2)] unfolding 1(3) by blast
  from 1 2 show ?case by auto
qed simp

end

lemma item_map_bounded: "map_ok get_id q \<Longrightarrow> item_map_size q \<le> item_map_capacity q"
  by (simp add: map_ok_def placed_def item_map_size_def item_map_capacity_def)

lemma item_map_step_ok:
  assumes ok: "map_ok get_id q"
  shows "\<exists>r q'. item_map_step blank get_id q x = Inr (r, q') \<and> map_ok get_id q' \<and> item_map_capacity q' = item_map_capacity q \<and>
    spec_step get_id (item_map_capacity q) (stored q) x r (stored q')"
proof -
  note size = item_map_size_card(2) [OF ok]
  have adds: "\<exists>err q'. item_add get_id q x t = Inr (err, q') \<and> map_ok get_id q' \<and> item_map_capacity q' = item_map_capacity q \<and>
      (if stored q (get_id x) \<noteq> None then err = DUPLICATED_ENTRY \<and> q' = q
       else if card (dom (stored q)) = item_map_capacity q then err = RESOURCE_EXHAUSTION \<and> q' = q
       else err = SUCCESS \<and> stored q' = (stored q)(get_id x \<mapsto> (x, t)))" for x t
  proof (cases "stored q (get_id x) = None \<and> item_map_size q < item_map_capacity q")
    case True
    then show ?thesis using item_add_ok [OF ok, of x t] size by auto
  next
    case False
    then have "item_add get_id q x t = Inr (if stored q (get_id x) \<noteq> None then DUPLICATED_ENTRY else RESOURCE_EXHAUSTION, q)"
      using item_add_duplicate [of q get_id x t] item_add_full [of q get_id x t] item_map_bounded [OF ok]
      by (cases "stored q (get_id x)") auto
    then show ?thesis using False ok item_map_bounded [OF ok] size by (cases "stored q (get_id x)") auto
  qed
  have updates: "\<exists>err q'. item_update q k t = Inr (err, q') \<and> map_ok get_id q' \<and> item_map_capacity q' = item_map_capacity q \<and>
      (case stored q k of None \<Rightarrow> err = INVALID_DICTIONARY_KEY \<and> q' = q
       | Some (x, _) \<Rightarrow> err = SUCCESS \<and> stored q' = (stored q)(k \<mapsto> (x, t)))" for k t
  proof (cases "stored q k")
    case None
    then show ?thesis using item_update_missing [of q k t] ok by simp
  next
    case (Some y)
    then show ?thesis using item_update_ok [OF ok, of k "fst y" "snd y" t] by (auto simp: split_beta)
  qed
  show ?thesis
  proof (cases x)
    case (Add x t)
    then show ?thesis using adds [of x t] by (auto split: if_splits)
  next
    case (Update k t)
    then show ?thesis using updates [of k t] by (auto split: option.splits)
  next
    case (Add_or_update x t)
    show ?thesis
    proof (cases "stored q (get_id x)")
      case None
      then show ?thesis using adds [of x t] Add_or_update by (auto simp: item_add_or_update_def stored_None [symmetric] split: if_splits)
    next
      case (Some y)
      then have "id_heap_map q (get_id x) \<noteq> None" using stored_None [of q "get_id x"] by simp
      then show ?thesis using updates [of "get_id x" t] Add_or_update Some
        by (auto simp: item_add_or_update_def split: prod.splits)
    qed
  next
    case (Erase k)
    then show ?thesis using item_erase_ok [OF ok, of blank k] by auto
  next
    case (Get_expired bar)
    from get_expired_item_ok [OF ok, of bar blank] show ?thesis
    proof (elim disjE exE conjE)
      assume none: "\<forall>k x t. stored q k = Some (x, t) \<longrightarrow> bar \<le> t" "get_expired_item blank get_id q bar = Inr (None, q)"
      then have "\<not> due (stored q) bar" by (force simp: due_def)
      then show ?thesis using none(2) ok by (simp add: Get_expired)
    next
      fix y t q'
      assume got: "get_expired_item blank get_id q bar = Inr (Some y, q')" "stored q (get_id y) = Some (y, t)" "t < bar"
          "\<forall>k z u. stored q k = Some (z, u) \<longrightarrow> t \<le> u" "map_ok get_id q'" "stored q' = (stored q)(get_id y := None)"
          "item_map_capacity q' = item_map_capacity q"
      then have "due (stored q) bar" "earliest_due get_id (stored q) bar y" by (auto simp: due_def earliest_due_def)
      then show ?thesis using got by (auto simp: Get_expired)
    qed
  next
    case (Has_expired bar)
    then show ?thesis using has_expired_item_iff [OF ok, of bar] ok by (simp add: due_def)
  next
    case Size
    then show ?thesis using ok size by simp
  qed
qed

interpretation temporal_map: expiry_map "item_map_step blank get_id" "map_ok get_id" stored item_map_capacity get_id
  for blank get_id
  by unfold_locales (simp_all add: item_map_step_ok item_map_size_card item_map_bounded)

text \<open>
  C16: Whatever is done with a \<open>temporal_ordered_item_map\<close>, it never breaks one of its own checks, and every reply and its
  contents afterwards are those of a map from ids to items and times: \<open>add\<close> refuses an id that is there and an item too many,
  \<open>update\<close> an unknown id, and \<open>get_expired_item\<close> takes an item of the earliest time, if that time is before the bar.
\<close>

theorem item_map_refines:
  fixes blank :: 'a and get_id :: "'a \<Rightarrow> 'k"
  shows "\<exists>rs q'. run_map (item_map_step blank get_id) (item_map_new blank cap) ops = Inr (rs, q') \<and>
     map_ok get_id q' \<and> spec_run get_id cap Map.empty ops rs (stored q')"
proof -
  let ?q = "item_map_new blank cap :: ('a, 'k) item_map"
  have "item_map_capacity ?q = cap" "stored ?q = Map.empty"
    by (simp_all add: item_map_capacity_def item_map_new_def stored_def fun_eq_iff)
  then show ?thesis
    using temporal_map.run_map_ok [OF item_map_new_ok(1) [of get_id blank cap], of blank ops] by auto
qed

end
