(* ===== verification/Ticket_Timeout.thy ===== *)
theory Ticket_Timeout
  imports Expiry_Queue Cyclic_Queue Power_Of_Two
begin

text \<open>
  \<open>TicketTimeoutManager\<close> of \<open>internal_rest/network_ticket_timeout_manager.h\<close>: callers clock tickets in for some time, take out the
  tickets whose time is over, and void tickets; a call that finds no room, or nothing to take, waits on a semaphore of its own
  until some other call serves it. A call is identified by the address of its semaphore. Every function here is what one call
  does while it holds the mutex. What a waiting call lends to the manager, the array it wants filled and its semaphore, is part of the state.
\<close>

section \<open>State\<close>

record 'k clock_in_argument =
  clocked_in_ticket :: 'k
  expiry_dur :: int

text \<open>The pointer into the caller's array and the number of arguments from there on are the list of those arguments.\<close>

record 'k push_wait_bucket =
  clock_in_arr :: "'k clock_in_argument list"
  push_smp :: nat

record pop_wait_bucket =
  output_arr :: nat
  output_arr_cap :: nat
  pop_smp :: nat

text \<open>
  \<open>arrays\<close> gives for the address of an output array the first \<open>*output_arr_sz\<close> elements of it; \<open>released\<close> has the semaphores
  whose counter is one.
\<close>

record 'k ticket_manager =
  push_wait_bucket_vec :: "'k push_wait_bucket cyclic_queue"
  pop_wait_bucket_vec :: "pop_wait_bucket cyclic_queue"
  expiry_bucket_queue :: "('k, 'k) item_map"
  max_dur :: int
  max_consume_per_load :: nat
  arrays :: "nat \<Rightarrow> 'k list"
  released :: "nat set"

text \<open>\<open>TicketIdExtractor\<close>.\<close>

definition ticket_id_extractor :: "'k \<Rightarrow> 'k" where
  "ticket_id_extractor arg = arg"

lemma ticket_id: "ticket_id_extractor k = k"
  by (simp add: ticket_id_extractor_def)

definition no_push :: "'k push_wait_bucket" where
  "no_push = \<lparr>clock_in_arr = [], push_smp = 0\<rparr>"

definition no_pop :: pop_wait_bucket where
  "no_pop = \<lparr>output_arr = 0, output_arr_cap = 0, pop_smp = 0\<rparr>"

text \<open>Time points and durations are counts of nanoseconds in 64 bits with a sign.\<close>

definition time_max :: int where
  "time_max = 2 ^ 63 - 1"

definition time_add :: "int \<Rightarrow> int \<Rightarrow> int result" where
  "time_add now d = (if - (2 ^ 63) \<le> now + d \<and> now + d \<le> time_max then Inr (now + d) else Inl Signed_overflow)"

definition release_smp :: "'k ticket_manager \<Rightarrow> nat \<Rightarrow> 'k ticket_manager result" where
  "release_smp m s = (if s \<in> released m then Inl Semaphore_overflow else Inr (m\<lparr>released := insert s (released m)\<rparr>))"

text \<open>A call that cannot go on yet waits.\<close>

datatype 'r outcome = Returns 'r | Waits

section \<open>Waiting calls are served\<close>

definition set_front :: "'a cyclic_queue \<Rightarrow> 'a \<Rightarrow> 'a cyclic_queue" where
  "set_front q x = q\<lparr>q_arr := (q_arr q)[to_index q 0 := x]\<rparr>"

definition resolve_one_push_doable :: "'k ticket_manager \<Rightarrow> 'k ticket_manager result" where
  "resolve_one_push_doable m =
     (if item_map_size (expiry_bucket_queue m) = item_map_capacity (expiry_bucket_queue m) then Inr m
      else if q_sz (push_wait_bucket_vec m) = 0 then Inr m
      else
        bindR (simple_front (push_wait_bucket_vec m)) (\<lambda>bucket.
          case clock_in_arr bucket of
            [] \<Rightarrow> Inl Abort
          | arg # rest \<Rightarrow>
              bindR (item_add ticket_id_extractor (expiry_bucket_queue m) (clocked_in_ticket arg) time_max) (\<lambda>(err, q).
              bindR (dg_nothrow err) (\<lambda>_.
                let m = m\<lparr>expiry_bucket_queue := q\<rparr>
                in if rest = [] then
                     bindR (release_smp m (push_smp bucket)) (\<lambda>m.
                     bindR (simple_pop_front no_push (push_wait_bucket_vec m)) (\<lambda>v.
                       Inr (m\<lparr>push_wait_bucket_vec := v\<rparr>)))
                   else
                     Inr (m\<lparr>push_wait_bucket_vec :=
                              set_front (push_wait_bucket_vec m) (bucket\<lparr>clock_in_arr := rest\<rparr>)\<rparr>)))))"

text \<open>
  The loop that fills the array of the first waiting call; \<open>room\<close> is what is left of its capacity. The last two results are
  \<open>need_release\<close> and whether the loop ended because the array was full.
\<close>

primrec pop_fill ::
    "'k \<Rightarrow> int \<Rightarrow> nat \<Rightarrow> ('k, 'k) item_map \<Rightarrow> 'k list \<Rightarrow> bool \<Rightarrow> (('k, 'k) item_map \<times> 'k list \<times> bool \<times> bool) result"
where
  "pop_fill blank now 0 q out need_release =
     bindR (has_expired_item q now) (\<lambda>more. if more then Inl Abort else Inr (q, out, need_release, False))"
| "pop_fill blank now (Suc room) q out need_release =
     bindR (has_expired_item q now) (\<lambda>more.
       if \<not> more then Inr (q, out, need_release, False)
       else
         bindR (get_expired_item blank ticket_id_extractor q now) (\<lambda>(nxt, q).
           case nxt of
             None \<Rightarrow> Inl Abort
           | Some x \<Rightarrow>
               if room = 0 then Inr (q, out @ [x], False, True) else pop_fill blank now room q (out @ [x]) True))"

definition resolve_one_pop_doable :: "'k \<Rightarrow> int \<Rightarrow> 'k ticket_manager \<Rightarrow> 'k ticket_manager result" where
  "resolve_one_pop_doable blank now m =
     (if q_sz (pop_wait_bucket_vec m) = 0 then Inr m
      else
        bindR (simple_front (pop_wait_bucket_vec m)) (\<lambda>bucket.
        bindR (pop_fill blank now (output_arr_cap bucket - length (arrays m (output_arr bucket))) (expiry_bucket_queue m)
            (arrays m (output_arr bucket)) False) (\<lambda>(q, out, need_release, full).
          let m = m\<lparr>expiry_bucket_queue := q, arrays := (arrays m)(output_arr bucket := out)\<rparr>
          in if full \<or> need_release then
               bindR (release_smp m (pop_smp bucket)) (\<lambda>m.
               bindR (simple_pop_front no_pop (pop_wait_bucket_vec m)) (\<lambda>v.
                 Inr (m\<lparr>pop_wait_bucket_vec := v\<rparr>)))
             else Inr m)))"

text \<open>
  The loop of \<open>internal_update\<close>; \<open>clock n\<close> is the \<open>n\<close>-th reading of the clock, \<open>None\<close> that the loop does not end.
\<close>

partial_function (option) update_loop ::
    "'k \<Rightarrow> (nat \<Rightarrow> int) \<Rightarrow> int \<Rightarrow> nat \<Rightarrow> 'k ticket_manager \<Rightarrow> ('k ticket_manager \<times> nat) result option"
where
  "update_loop blank clock now n m =
     (if item_map_size (expiry_bucket_queue m) \<noteq> item_map_capacity (expiry_bucket_queue m) \<and>
         q_sz (push_wait_bucket_vec m) \<noteq> 0 then
        (case resolve_one_push_doable m of
           Inl e \<Rightarrow> Some (Inl e)
         | Inr m \<Rightarrow> update_loop blank clock now n m)
      else
        (case has_expired_item (expiry_bucket_queue m) now of
           Inl e \<Rightarrow> Some (Inl e)
         | Inr can_progress_2 \<Rightarrow>
             if q_sz (pop_wait_bucket_vec m) \<noteq> 0 \<and> can_progress_2 then
               (case resolve_one_pop_doable blank (clock n) m of
                  Inl e \<Rightarrow> Some (Inl e)
                | Inr m \<Rightarrow> update_loop blank clock now (n + 1) m)
             else Some (Inr (m, n))))"

declare update_loop.simps [code]

definition internal_update ::
    "'k \<Rightarrow> (nat \<Rightarrow> int) \<Rightarrow> nat \<Rightarrow> 'k ticket_manager \<Rightarrow> ('k ticket_manager \<times> nat) result option"
where
  "internal_update blank clock n m = update_loop blank clock (clock n) (n + 1) m"

section \<open>Calls\<close>

definition is_valid_clock_in_arguments :: "'k ticket_manager \<Rightarrow> 'k clock_in_argument list \<Rightarrow> bool" where
  "is_valid_clock_in_arguments m args \<longleftrightarrow> (\<forall>a \<in> set args. \<not> expiry_dur a > max_dur m)"

fun drop_in_loop :: "int \<Rightarrow> ('k, 'k) item_map \<Rightarrow> 'k clock_in_argument list \<Rightarrow> ('k, 'k) item_map result" where
  "drop_in_loop now q [] = Inr q"
| "drop_in_loop now q (a # args) =
     bindR (time_add now (expiry_dur a)) (\<lambda>t.
     bindR (item_add_or_update ticket_id_extractor q (clocked_in_ticket a) t) (\<lambda>(err, q).
     bindR (dg_nothrow err) (\<lambda>_. drop_in_loop now q args)))"

text \<open>\<open>clock_in\<close>, up to where it waits, and from there on.\<close>

definition clock_in ::
    "'k ticket_manager \<Rightarrow> int \<Rightarrow> nat \<Rightarrow> 'k clock_in_argument list \<Rightarrow> (exception_t list outcome \<times> 'k ticket_manager) result"
where
  "clock_in m now smp args =
     (let sz = length args
      in if sz > max_consume_per_load m then Inl Abort
         else if \<not> is_valid_clock_in_arguments m args then Inr (Returns (replicate sz INVALID_ARGUMENT), m)
         else if sz = 0 then Inr (Returns [], m)
         else
           let has_room = (item_map_size (expiry_bucket_queue m) + sz \<le> item_map_capacity (expiry_bucket_queue m));
               is_fair = (q_sz (push_wait_bucket_vec m) = 0)
           in if has_room \<and> is_fair then
                bindR (drop_in_loop now (expiry_bucket_queue m) args) (\<lambda>q.
                  Inr (Returns (replicate sz SUCCESS), m\<lparr>expiry_bucket_queue := q\<rparr>))
              else
                (case simple_push_back (push_wait_bucket_vec m) \<lparr>clock_in_arr = args, push_smp = smp\<rparr> of
                   (err, v) \<Rightarrow> bindR (dg_nothrow err) (\<lambda>_. Inr (Waits, m\<lparr>push_wait_bucket_vec := v\<rparr>))))"

fun update_times_loop :: "int \<Rightarrow> ('k, 'k) item_map \<Rightarrow> 'k clock_in_argument list \<Rightarrow> ('k, 'k) item_map result" where
  "update_times_loop now q [] = Inr q"
| "update_times_loop now q (a # args) =
     bindR (time_add now (expiry_dur a)) (\<lambda>t.
     bindR (item_update q (clocked_in_ticket a) t) (\<lambda>(err, q).
     bindR (dg_nothrow err) (\<lambda>_. update_times_loop now q args)))"

definition clock_in_resume ::
    "'k ticket_manager \<Rightarrow> int \<Rightarrow> nat \<Rightarrow> 'k clock_in_argument list \<Rightarrow> (exception_t list outcome \<times> 'k ticket_manager) result"
where
  "clock_in_resume m now smp args =
     (if smp \<notin> released m then Inr (Waits, m)
      else
        bindR (update_times_loop now (expiry_bucket_queue m) args) (\<lambda>q.
          Inr (Returns (replicate (length args) SUCCESS),
            m\<lparr>expiry_bucket_queue := q, released := released m - {smp}\<rparr>)))"

text \<open>The loop of \<open>get_expired_ticket\<close>: whether the call has to wait, the array, and the map.\<close>

primrec collect_loop ::
    "'k \<Rightarrow> int \<Rightarrow> nat \<Rightarrow> ('k, 'k) item_map \<Rightarrow> 'k list \<Rightarrow> (bool \<times> 'k list \<times> ('k, 'k) item_map) result"
where
  "collect_loop blank now 0 q out = Inr (False, out, q)"
| "collect_loop blank now (Suc room) q out =
     bindR (has_expired_item q now) (\<lambda>more.
       if \<not> more then Inr (out = [], out, q)
       else
         bindR (get_expired_item blank ticket_id_extractor q now) (\<lambda>(nxt, q).
           case nxt of None \<Rightarrow> Inl Abort | Some x \<Rightarrow> collect_loop blank now room q (out @ [x])))"

definition get_expired_ticket ::
    "'k \<Rightarrow> 'k ticket_manager \<Rightarrow> int \<Rightarrow> nat \<Rightarrow> nat \<Rightarrow> nat \<Rightarrow> ('k list outcome \<times> 'k ticket_manager) result"
where
  "get_expired_ticket blank m now smp arr cap =
     bindR (collect_loop blank now cap (expiry_bucket_queue m) []) (\<lambda>(need_wait, out, q).
       let m = m\<lparr>expiry_bucket_queue := q, arrays := (arrays m)(arr := out)\<rparr>
       in if need_wait then
            (case simple_push_back (pop_wait_bucket_vec m) \<lparr>output_arr = arr, output_arr_cap = cap, pop_smp = smp\<rparr> of
               (err, v) \<Rightarrow> bindR (dg_nothrow err) (\<lambda>_. Inr (Waits, m\<lparr>pop_wait_bucket_vec := v\<rparr>)))
          else Inr (Returns out, m))"

definition get_expired_ticket_resume ::
    "'k ticket_manager \<Rightarrow> nat \<Rightarrow> nat \<Rightarrow> 'k list outcome \<times> 'k ticket_manager"
where
  "get_expired_ticket_resume m smp arr =
     (if smp \<notin> released m then (Waits, m)
      else (Returns (arrays m arr), m\<lparr>released := released m - {smp}\<rparr>))"

fun erase_loop :: "'k \<Rightarrow> ('k, 'k) item_map \<Rightarrow> 'k list \<Rightarrow> ('k, 'k) item_map result" where
  "erase_loop blank q [] = Inr q"
| "erase_loop blank q (k # ks) = bindR (item_erase blank q k) (\<lambda>q. erase_loop blank q ks)"

definition void_ticket ::
    "'k \<Rightarrow> (nat \<Rightarrow> int) \<Rightarrow> nat \<Rightarrow> 'k ticket_manager \<Rightarrow> 'k list \<Rightarrow> ('k ticket_manager \<times> nat) result option"
where
  "void_ticket blank clock n m ks =
     (case erase_loop blank (expiry_bucket_queue m) ks of
        Inl e \<Rightarrow> Some (Inl e)
      | Inr q \<Rightarrow> internal_update blank clock n (m\<lparr>expiry_bucket_queue := q\<rparr>))"

definition update_tickets ::
    "'k \<Rightarrow> (nat \<Rightarrow> int) \<Rightarrow> nat \<Rightarrow> 'k ticket_manager \<Rightarrow> ('k ticket_manager \<times> nat) result option"
where
  "update_tickets blank clock n m = internal_update blank clock n m"

definition get_ticket_timeout_manager ::
    "'k \<Rightarrow> nat \<Rightarrow> nat \<Rightarrow> nat \<Rightarrow> int \<Rightarrow> 'k ticket_manager result"
where
  "get_ticket_timeout_manager blank push_concurrency_queue_sz pop_concurrency_queue_sz concurrent_request_cap max_wait_dur =
     (if \<not> (1 \<le> push_concurrency_queue_sz \<and> push_concurrency_queue_sz \<le> 2 ^ 30) then Inl Invalid_argument
      else if \<not> is_pow2 push_concurrency_queue_sz then Inl Invalid_argument
      else if \<not> (1 \<le> pop_concurrency_queue_sz \<and> pop_concurrency_queue_sz \<le> 2 ^ 30) then Inl Invalid_argument
      else if \<not> is_pow2 pop_concurrency_queue_sz then Inl Invalid_argument
      else if \<not> (1 \<le> concurrent_request_cap \<and> concurrent_request_cap \<le> 2 ^ 30) then Inl Invalid_argument
      else
        let actual_consume_sz = max (concurrent_request_cap div 2 ^ 4) 1;
            concurrent_request_cap_2 = concurrent_request_cap + actual_consume_sz
        in Inr \<lparr>push_wait_bucket_vec = simple_new no_push (ulog2 push_concurrency_queue_sz),
                pop_wait_bucket_vec = simple_new no_pop (ulog2 pop_concurrency_queue_sz),
                expiry_bucket_queue = item_map_new blank concurrent_request_cap_2,
                max_dur = max_wait_dur, max_consume_per_load = actual_consume_sz,
                arrays = (\<lambda>_. []), released = {}\<rparr>)"

section \<open>Queues as lists\<close>

named_theorems queue_list

lemma queue_size [queue_list]: "simple_represents d c q xs \<Longrightarrow> q_sz q = length xs"
  using holds_shape [of d q xs] by (simp add: simple_represents_def)

lemma queue_front [queue_list]: "simple_represents d c q (x # xs) \<Longrightarrow> simple_front q = Inr x"
  using simple_queue.first_ok [of d c q "x # xs"] by (simp add: head_or_abort_def)

lemma queue_pop:
  assumes "simple_represents d c q (x # xs)"
  obtains q' where "simple_pop_front d q = Inr q'" "simple_represents d c q' xs"
  using simple_queue.step_ok [OF assms, of Pop_front]
  by (cases "simple_pop_front d q") (auto simp: done_with_def)

lemma queue_push:
  assumes "simple_represents d c q xs"
  obtains q' where "simple_push_back q x = (if length xs = c then (QUEUE_FULL, q') else (SUCCESS, q'))"
    "simple_represents d c q' (if length xs = c then xs else xs @ [x])"
  using simple_queue.step_ok [OF assms, of "Push_back x"] by (cases "simple_push_back q x") (auto split: if_splits)

lemma queue_set_front:
  assumes "simple_represents d c q (x # xs)"
  shows "simple_represents d c (set_front q y) (y # xs)"
proof -
  have q: "shape_ok q" "q_sz q = Suc (length xs)" "Suc (length xs) \<le> q_cap q"
    using holds_shape [of d q "x # xs"] assms by (simp_all add: simple_represents_def)
  have "set_front q y = q\<lparr>q_arr := (q_arr q)[to_index q 0 := y], q_sz := q_sz q\<rparr>" by (simp add: set_front_def)
  then have "view (set_front q y) = (view q)[0 := y]" using view_update [OF q(1), where i = 0 and x = y and n = "q_sz q"] q(3) by simp
  then show ?thesis
    using assms q by (simp add: simple_represents_def holds_def shape_ok_def set_front_def)
qed

section \<open>Tickets taken out\<close>

text \<open>One due ticket after the other, the earliest first.\<close>

primrec taken_out :: "int \<Rightarrow> ('k \<rightharpoonup> 'k \<times> int) \<Rightarrow> 'k list \<Rightarrow> ('k \<rightharpoonup> 'k \<times> int) \<Rightarrow> bool" where
  "taken_out bar s [] s' \<longleftrightarrow> s' = s"
| "taken_out bar s (x # xs) s' \<longleftrightarrow> earliest_due ticket_id_extractor s bar x \<and> taken_out bar (s(x := None)) xs s'"

lemma taken_out_due: "taken_out bar s xs s' \<Longrightarrow> x \<in> set xs \<Longrightarrow> \<exists>t. s x = Some (x, t) \<and> t < bar"
proof (induction xs arbitrary: s)
  case (Cons y ys)
  show ?case
  proof (cases "x = y")
    case True
    then show ?thesis using Cons.prems(1) by (auto simp: earliest_due_def ticket_id)
  next
    case False
    then have "taken_out bar (s(y := None)) ys s'" "x \<in> set ys" using Cons.prems by simp_all
    from Cons.IH [OF this] show ?thesis using False by simp
  qed
qed simp

lemma taken_out_rest: "taken_out bar s xs s' \<Longrightarrow> distinct xs \<and> s' = s |` (- set xs)"
proof (induction xs arbitrary: s)
  case (Cons y ys)
  have tail: "taken_out bar (s(y := None)) ys s'" using Cons.prems by simp
  have "y \<notin> set ys" using taken_out_due [OF tail, of y] by auto
  then show ?case using Cons.IH [OF tail] by (auto simp: restrict_map_def fun_eq_iff)
qed (simp add: restrict_map_def fun_eq_iff)

lemma taken_out_first: "taken_out bar s xs s' \<Longrightarrow> x \<in> set xs \<Longrightarrow> s x = Some (x, t) \<Longrightarrow> s' k = Some (y, u) \<Longrightarrow> t \<le> u"
proof (induction xs arbitrary: s)
  case (Cons z zs)
  have tail: "taken_out bar (s(z := None)) zs s'" using Cons.prems by simp
  have rest: "(s(z := None)) k = Some (y, u)"
    using taken_out_rest [OF tail] Cons.prems(4) by (simp add: restrict_map_def split: if_splits)
  show ?case
  proof (cases "x = z")
    case True
    then show ?thesis using Cons.prems(1,3) rest by (auto simp: earliest_due_def ticket_id split: if_splits)
  next
    case False
    then show ?thesis using Cons.IH [OF tail _ _ Cons.prems(4)] Cons.prems(2,3) by simp
  qed
qed simp

lemma expired_cases:
  assumes ok: "map_ok ticket_id_extractor q"
  obtains (none) "\<not> due (stored q) now" "has_expired_item q now = Inr False"
  | (some) x q' where "has_expired_item q now = Inr True" "get_expired_item blank ticket_id_extractor q now = Inr (Some x, q')"
      "earliest_due ticket_id_extractor (stored q) now x" "map_ok ticket_id_extractor q'" "stored q' = (stored q)(x := None)"
      "item_map_capacity q' = item_map_capacity q"
proof (cases "due (stored q) now")
  case False
  then show ?thesis using none has_expired_item_iff [OF ok, of now] by (simp add: due_def)
next
  case True
  then have has: "has_expired_item q now = Inr True" using has_expired_item_iff [OF ok, of now] by (simp add: due_def)
  obtain r q' where q': "item_map_step blank ticket_id_extractor q (Get_expired now) = Inr (r, q')" "map_ok ticket_id_extractor q'"
      "item_map_capacity q' = item_map_capacity q"
      "spec_step ticket_id_extractor (item_map_capacity q) (stored q) (Get_expired now) r (stored q')"
    using temporal_map.step_ok [OF ok] by blast
  then show ?thesis using some has True by (auto simp: bindR_eq_Inr ticket_id)
qed

lemma collect_loop_ok:
  "map_ok ticket_id_extractor q \<Longrightarrow> \<exists>w xs q'. collect_loop blank now cap q out = Inr (w, out @ xs, q') \<and> map_ok ticket_id_extractor q' \<and>
     item_map_capacity q' = item_map_capacity q \<and> taken_out now (stored q) xs (stored q') \<and> length xs \<le> cap \<and>
     (length xs = cap \<or> \<not> due (stored q') now) \<and> (w \<longleftrightarrow> length xs < cap \<and> out @ xs = [])"
proof (induction cap arbitrary: q out)
  case (Suc cap)
  from Suc.prems show ?case
  proof (cases rule: expired_cases [where now = now and blank = blank])
    case none
    then show ?thesis using Suc.prems by auto
  next
    case (some x q1)
    obtain w xs q' where IH: "collect_loop blank now cap q1 (out @ [x]) = Inr (w, (out @ [x]) @ xs, q')" "map_ok ticket_id_extractor q'"
        "item_map_capacity q' = item_map_capacity q1" "taken_out now (stored q1) xs (stored q')" "length xs \<le> cap"
        "length xs = cap \<or> \<not> due (stored q') now" "w \<longleftrightarrow> length xs < cap \<and> (out @ [x]) @ xs = []"
      using Suc.IH [OF some(4)] by blast
    have "collect_loop blank now (Suc cap) q out = Inr (w, out @ x # xs, q')"
      using some(1,2) IH(1) by simp
    moreover have "taken_out now (stored q) (x # xs) (stored q')" using IH(4) some(3,5) by simp
    moreover have "item_map_capacity q' = item_map_capacity q" using IH(3) some(6) by simp
    ultimately show ?thesis using IH(2,5-7)
      by (intro exI [of _ w] exI [of _ "x # xs"] exI [of _ q'] conjI) simp_all
  qed
qed auto

lemma pop_fill_ok:
  "map_ok ticket_id_extractor q \<Longrightarrow> 0 < cap \<Longrightarrow>
   \<exists>xs q' need full. pop_fill blank now cap q out need0 = Inr (q', out @ xs, need, full) \<and> map_ok ticket_id_extractor q' \<and>
     item_map_capacity q' = item_map_capacity q \<and> taken_out now (stored q) xs (stored q') \<and> length xs \<le> cap \<and>
     (length xs = cap \<or> \<not> due (stored q') now) \<and> (full \<or> need \<longleftrightarrow> need0 \<or> xs \<noteq> [])"
proof (induction cap arbitrary: q out need0)
  case (Suc cap)
  from Suc.prems(1) show ?case
  proof (cases rule: expired_cases [where now = now and blank = blank])
    case none
    then show ?thesis using Suc.prems by (intro exI [of _ "[]"]) auto
  next
    case (some x q1)
    show ?thesis
    proof (cases "cap = 0")
      case True
      then show ?thesis using some by (intro exI [of _ "[x]"]) auto
    next
      case False
      obtain xs q' need full where IH: "pop_fill blank now cap q1 (out @ [x]) True = Inr (q', (out @ [x]) @ xs, need, full)"
          "map_ok ticket_id_extractor q'" "item_map_capacity q' = item_map_capacity q1" "taken_out now (stored q1) xs (stored q')" "length xs \<le> cap"
          "length xs = cap \<or> \<not> due (stored q') now" "full \<or> need \<longleftrightarrow> True \<or> xs \<noteq> []"
        using Suc.IH [OF some(4)] False by blast
      have "pop_fill blank now (Suc cap) q out need0 = Inr (q', out @ x # xs, need, full)"
        using some(1,2) IH(1) False by simp
      moreover have "taken_out now (stored q) (x # xs) (stored q')" using IH(4) some(3,5) by simp
      moreover have "item_map_capacity q' = item_map_capacity q" using IH(3) some(6) by simp
      ultimately show ?thesis using IH(2,5-7)
        by (intro exI [of _ "x # xs"] exI [of _ q'] exI [of _ need] exI [of _ full] conjI) simp_all
    qed
  qed
qed simp

section \<open>Invariant\<close>

definition awaiting :: "'k push_wait_bucket list \<Rightarrow> 'k list" where
  "awaiting bs = concat (map (\<lambda>b. map clocked_in_ticket (clock_in_arr b)) bs)"

lemma awaiting_simps [simp]:
  "awaiting [] = []"
  "awaiting (b # bs) = map clocked_in_ticket (clock_in_arr b) @ awaiting bs"
  "awaiting (bs @ cs) = awaiting bs @ awaiting cs"
  by (simp_all add: awaiting_def)

abbreviation tickets :: "'k ticket_manager \<Rightarrow> 'k \<rightharpoonup> 'k \<times> int" where
  "tickets m \<equiv> stored (expiry_bucket_queue m)"

definition queues_ok :: "nat \<Rightarrow> nat \<Rightarrow> 'k ticket_manager \<Rightarrow> 'k push_wait_bucket list \<Rightarrow> pop_wait_bucket list \<Rightarrow> bool" where
  "queues_ok c d m ps qs \<longleftrightarrow>
     simple_represents no_push c (push_wait_bucket_vec m) ps \<and> simple_represents no_pop d (pop_wait_bucket_vec m) qs \<and>
     map_ok ticket_id_extractor (expiry_bucket_queue m)"

text \<open>Tickets that wait for room are new, and no two calls that wait share a semaphore or an array.\<close>

definition waiting_ok :: "'k ticket_manager \<Rightarrow> 'k push_wait_bucket list \<Rightarrow> pop_wait_bucket list \<Rightarrow> bool" where
  "waiting_ok m ps qs \<longleftrightarrow>
     (\<forall>b \<in> set ps. clock_in_arr b \<noteq> []) \<and> distinct (awaiting ps) \<and> set (awaiting ps) \<inter> dom (tickets m) = {} \<and>
     (\<forall>b \<in> set qs. arrays m (output_arr b) = [] \<and> 0 < output_arr_cap b) \<and> distinct (map output_arr qs) \<and>
     distinct (map push_smp ps @ map pop_smp qs) \<and> set (map push_smp ps @ map pop_smp qs) \<inter> released m = {}"

definition manager_ok :: "nat \<Rightarrow> nat \<Rightarrow> 'k ticket_manager \<Rightarrow> 'k push_wait_bucket list \<Rightarrow> pop_wait_bucket list \<Rightarrow> bool" where
  "manager_ok c d m ps qs \<longleftrightarrow> queues_ok c d m ps qs \<and> waiting_ok m ps qs"

definition full_map :: "'k ticket_manager \<Rightarrow> bool" where
  "full_map m \<longleftrightarrow> item_map_size (expiry_bucket_queue m) = item_map_capacity (expiry_bucket_queue m)"

lemma queues_okD:
  assumes "queues_ok c d m ps qs"
  shows "simple_represents no_push c (push_wait_bucket_vec m) ps" "simple_represents no_pop d (pop_wait_bucket_vec m) qs"
    "map_ok ticket_id_extractor (expiry_bucket_queue m)"
    "q_sz (push_wait_bucket_vec m) = length ps" "q_sz (pop_wait_bucket_vec m) = length qs"
  using assms queue_size by (auto simp: queues_ok_def)

section \<open>What serving the waiting calls does\<close>

text \<open>
  From one state to a later one: \<open>moved\<close> are the tickets that found room, in the order of their calls, and the calls \<open>ss\<close> have been given
  what was due before \<open>bar\<close>. No ticket is lost and none is there twice.
\<close>

definition handed :: "'k ticket_manager \<Rightarrow> pop_wait_bucket list \<Rightarrow> 'k list" where
  "handed m ss = concat (map (\<lambda>b. arrays m (output_arr b)) ss)"

definition served ::
    "int \<Rightarrow> 'k ticket_manager \<Rightarrow> 'k push_wait_bucket list \<Rightarrow> pop_wait_bucket list \<Rightarrow> 'k list \<Rightarrow> pop_wait_bucket list \<Rightarrow>
     'k ticket_manager \<Rightarrow> 'k push_wait_bucket list \<Rightarrow> pop_wait_bucket list \<Rightarrow> bool"
where
  "served bar m ps qs moved ss m' ps' qs' \<longleftrightarrow>
     awaiting ps = moved @ awaiting ps' \<and> (\<exists>n. map push_smp ps' = drop n (map push_smp ps)) \<and> qs = ss @ qs' \<and>
     (\<forall>b \<in> set ss. arrays m' (output_arr b) \<noteq> [] \<and> length (arrays m' (output_arr b)) \<le> output_arr_cap b) \<and>
     (\<forall>a. a \<notin> output_arr ` set ss \<longrightarrow> arrays m' a = arrays m a) \<and>
     released m' = released m \<union> (push_smp ` set ps - push_smp ` set ps') \<union> pop_smp ` set ss \<and>
     distinct (handed m' ss) \<and> (\<forall>k \<in> set (handed m' ss). \<exists>t. tickets m k = Some (k, t) \<and> t < bar) \<and>
     tickets m' = (\<lambda>k. if k \<in> set (handed m' ss) then None else if k \<in> set moved then Some (k, time_max) else tickets m k)"

lemma servedD:
  assumes "served bar m ps qs moved ss m' ps' qs'"
  shows "awaiting ps = moved @ awaiting ps'" "\<exists>n. map push_smp ps' = drop n (map push_smp ps)" "qs = ss @ qs'"
    "\<And>b. b \<in> set ss \<Longrightarrow> arrays m' (output_arr b) \<noteq> [] \<and> length (arrays m' (output_arr b)) \<le> output_arr_cap b"
    "\<And>a. a \<notin> output_arr ` set ss \<Longrightarrow> arrays m' a = arrays m a"
    "released m' = released m \<union> (push_smp ` set ps - push_smp ` set ps') \<union> pop_smp ` set ss"
    "distinct (handed m' ss)" "\<And>k. k \<in> set (handed m' ss) \<Longrightarrow> \<exists>t. tickets m k = Some (k, t) \<and> t < bar"
    "\<And>k. tickets m' k = (if k \<in> set (handed m' ss) then None else if k \<in> set moved then Some (k, time_max) else tickets m k)"
  using assms by (simp_all add: served_def)

lemma served_refl: "served bar m ps qs [] [] m ps qs"
  by (simp add: served_def handed_def) (rule exI [of _ 0], simp)

lemma push_step_ok:
  assumes ok: "manager_ok c d m ps qs" and "ps \<noteq> []" and room: "\<not> full_map m"
  shows "\<exists>k m' ps'. resolve_one_push_doable m = Inr m' \<and> manager_ok c d m' ps' qs \<and>
    served bar m ps qs [k] [] m' ps' qs \<and> length (awaiting ps) = Suc (length (awaiting ps')) \<and>
    item_map_capacity (expiry_bucket_queue m') = item_map_capacity (expiry_bucket_queue m)"
proof -
  have q: "queues_ok c d m ps qs" and w: "waiting_ok m ps qs" using ok by (simp_all add: manager_ok_def)
  obtain b bs where ps: "ps = b # bs" using assms(2) by (cases ps) auto
  obtain a rest where arr: "clock_in_arr b = a # rest" using w by (cases "clock_in_arr b") (auto simp: ps waiting_ok_def)
  let ?k = "clocked_in_ticket a" and ?q = "expiry_bucket_queue m"
  have new: "tickets m ?k = None" using w by (auto simp: ps waiting_ok_def arr)
  have lt: "item_map_size ?q < item_map_capacity ?q" using room item_map_bounded [OF queues_okD(3) [OF q]] by (simp add: full_map_def)
  obtain q' where q': "item_add ticket_id_extractor ?q ?k time_max = Inr (SUCCESS, q')" "map_ok ticket_id_extractor q'"
      "stored q' = (tickets m)(?k \<mapsto> (?k, time_max))" "item_map_capacity q' = item_map_capacity ?q"
    using item_add_ok [OF queues_okD(3) [OF q], of ?k time_max] new lt by (auto simp: ticket_id)
  have rep: "simple_represents no_push c (push_wait_bucket_vec m) (b # bs)" using queues_okD(1) [OF q] by (simp only: ps)
  have front: "simple_front (push_wait_bucket_vec m) = Inr b" by (rule queue_front [OF rep])
  have head: "item_map_size ?q \<noteq> item_map_capacity ?q" "q_sz (push_wait_bucket_vec m) \<noteq> 0"
    using lt queues_okD(4) [OF q] ps by simp_all
  show ?thesis
  proof (cases "rest = []")
    case True
    have fresh: "push_smp b \<notin> released m" using w by (auto simp: ps waiting_ok_def)
    obtain v where v: "simple_pop_front no_push (push_wait_bucket_vec m) = Inr v" "simple_represents no_push c v bs"
      by (rule queue_pop [OF rep])
    let ?m = "m\<lparr>expiry_bucket_queue := q', released := insert (push_smp b) (released m), push_wait_bucket_vec := v\<rparr>"
    have "resolve_one_push_doable m = Inr ?m"
      using head front arr q'(1) True fresh v(1) by (simp add: resolve_one_push_doable_def dg_nothrow_def is_failed_def Let_def release_smp_def)
    moreover have "queues_ok c d ?m bs qs" using v(2) q'(2) queues_okD(2) [OF q] by (simp add: queues_ok_def)
    moreover have "waiting_ok ?m bs qs" using w q'(3) arr True by (auto simp: waiting_ok_def ps)
    moreover have "served bar m ps qs [?k] [] ?m bs qs"
      using w q'(3) arr True by (auto simp: served_def handed_def ps waiting_ok_def fun_eq_iff intro: exI [of _ "1 :: nat"])
    ultimately show ?thesis using q'(4) arr True by (intro exI [of _ ?k] exI [of _ ?m] exI [of _ bs]) (simp add: manager_ok_def ps)
  next
    case False
    let ?b = "b\<lparr>clock_in_arr := rest\<rparr>"
    let ?m = "m\<lparr>expiry_bucket_queue := q', push_wait_bucket_vec := set_front (push_wait_bucket_vec m) ?b\<rparr>"
    have "resolve_one_push_doable m = Inr ?m"
      using head front arr q'(1) False by (simp add: resolve_one_push_doable_def dg_nothrow_def is_failed_def Let_def)
    moreover have "queues_ok c d ?m (?b # bs) qs"
      using queue_set_front [OF rep, of ?b] q'(2) queues_okD(1,2) [OF q]
      by (simp add: queues_ok_def ps)
    moreover have "waiting_ok ?m (?b # bs) qs" using w q'(3) arr False by (auto simp: waiting_ok_def ps)
    moreover have "served bar m ps qs [?k] [] ?m (?b # bs) qs"
      using q'(3) arr by (auto simp: served_def handed_def ps fun_eq_iff intro: exI [of _ "0 :: nat"])
    ultimately show ?thesis using q'(4) arr by (intro exI [of _ ?k] exI [of _ ?m] exI [of _ "?b # bs"]) (simp add: manager_ok_def ps)
  qed
qed

lemma pop_step_ok:
  assumes ok: "manager_ok c d m ps qs" and "qs \<noteq> []" and due: "due (tickets m) now"
  shows "\<exists>b m'. qs = b # tl qs \<and> resolve_one_pop_doable blank now m = Inr m' \<and> manager_ok c d m' ps (tl qs) \<and>
    (\<forall>bar. now \<le> bar \<longrightarrow> served bar m ps qs [] [b] m' ps (tl qs)) \<and>
    item_map_capacity (expiry_bucket_queue m') = item_map_capacity (expiry_bucket_queue m)"
proof -
  have q: "queues_ok c d m ps qs" and w: "waiting_ok m ps qs" using ok by (simp_all add: manager_ok_def)
  obtain b bs where qs: "qs = b # bs" using assms(2) by (cases qs) auto
  have rep: "simple_represents no_pop d (pop_wait_bucket_vec m) (b # bs)" using queues_okD(2) [OF q] by (simp only: qs)
  have arr: "arrays m (output_arr b) = []" "0 < output_arr_cap b" using w by (simp_all add: waiting_ok_def qs)
  obtain xs q' need full where fill: "pop_fill blank now (output_arr_cap b) (expiry_bucket_queue m) [] False = Inr (q', [] @ xs, need, full)"
      "map_ok ticket_id_extractor q'" "item_map_capacity q' = item_map_capacity (expiry_bucket_queue m)"
      "taken_out now (tickets m) xs (stored q')" "length xs \<le> output_arr_cap b"
      "length xs = output_arr_cap b \<or> \<not> due (stored q') now" "full \<or> need \<longleftrightarrow> False \<or> xs \<noteq> []"
    using pop_fill_ok [OF queues_okD(3) [OF q] arr(2)] by blast
  have some: "xs \<noteq> []" using fill(4,6) due arr(2) by (cases xs) auto
  then have release: "full \<or> need" using fill(7) by simp
  have fresh: "pop_smp b \<notin> released m" using w by (auto simp: qs waiting_ok_def)
  obtain v where v: "simple_pop_front no_pop (pop_wait_bucket_vec m) = Inr v" "simple_represents no_pop d v bs"
    by (rule queue_pop [OF rep])
  let ?m = "m\<lparr>expiry_bucket_queue := q', arrays := (arrays m)(output_arr b := xs), released := insert (pop_smp b) (released m),
      pop_wait_bucket_vec := v\<rparr>"
  have "resolve_one_pop_doable blank now m = Inr ?m"
    using queues_okD(5) [OF q] queue_front [OF rep] arr fill(1) release fresh v(1)
    by (simp add: resolve_one_pop_doable_def qs Let_def release_smp_def)
  moreover have "queues_ok c d ?m ps bs" using v(2) fill(2) queues_okD(1) [OF q] by (simp add: queues_ok_def)
  moreover have "waiting_ok ?m ps bs"
  proof -
    have sub: "dom (stored q') \<subseteq> dom (tickets m)" using taken_out_rest [OF fill(4)] by (auto simp: restrict_map_def split: if_splits)
    moreover have "output_arr x \<noteq> output_arr b" if "x \<in> set bs" for x using w imageI [OF that, of output_arr] by (auto simp: waiting_ok_def qs)
    moreover have "set (awaiting ps) \<inter> dom (tickets m) = {}" using w by (simp add: waiting_ok_def)
    then have "set (awaiting ps) \<inter> dom (stored q') = {}" using sub by blast
    moreover have "set (map push_smp ps @ map pop_smp bs) \<inter> insert (pop_smp b) (released m) = {}"
    proof -
      have "distinct (map push_smp ps @ pop_smp b # map pop_smp bs)" "set (map push_smp ps @ map pop_smp bs) \<inter> released m = {}"
        using w by (simp_all add: waiting_ok_def qs Int_Un_distrib2)
      then show ?thesis by (simp add: Int_Un_distrib2)
    qed
    ultimately show ?thesis using w by (simp add: waiting_ok_def qs)
  qed
  moreover have "served bar m ps qs [] [b] ?m ps bs" if "now \<le> bar" for bar
  proof -
    have "\<exists>t. tickets m k = Some (k, t) \<and> t < bar" if "k \<in> set xs" for k
      using taken_out_due [OF fill(4) that] \<open>now \<le> bar\<close> by auto
    moreover have "stored q' k = (if k \<in> set xs then None else tickets m k)" for k
      using taken_out_rest [OF fill(4)] by (simp add: restrict_map_def)
    moreover have "distinct xs" using taken_out_rest [OF fill(4)] by simp
    ultimately show ?thesis
      using some fill(5) by (simp add: served_def handed_def qs fun_eq_iff exI [of _ "0 :: nat"])
  qed
  ultimately show ?thesis using fill(3) by (simp add: manager_ok_def qs)
qed

lemma served_trans:
  assumes one: "served bar m ps qs mv1 ss1 m1 ps1 qs1" and two: "served bar m1 ps1 qs1 mv2 ss2 m2 ps2 qs2"
    and ok: "waiting_ok m ps qs" and bar: "bar \<le> time_max"
  shows "served bar m ps qs (mv1 @ mv2) (ss1 @ ss2) m2 ps2 qs2"
proof -
  note 1 = servedD [OF one] and 2 = servedD [OF two]
  have dist: "distinct (map output_arr (ss1 @ ss2 @ qs2))" using ok 1(3) 2(3) by (simp add: waiting_ok_def)
  then have apart: "output_arr b \<notin> output_arr ` set ss2" if "b \<in> set ss1" for b
    using that by (auto simp: image_iff)
  have keep: "arrays m2 (output_arr b) = arrays m1 (output_arr b)" if "b \<in> set ss1" for b
    by (rule 2(5) [OF apart [OF that]])
  then have "map (\<lambda>b. arrays m2 (output_arr b)) ss1 = map (\<lambda>b. arrays m1 (output_arr b)) ss1" by (intro map_cong refl)
  then have handed: "handed m2 (ss1 @ ss2) = handed m1 ss1 @ handed m2 ss2" by (simp only: handed_def map_append concat_append)
  obtain i where i: "map push_smp ps1 = drop i (map push_smp ps)" using 1(2) by (rule exE)
  obtain j where j: "map push_smp ps2 = drop j (map push_smp ps1)" using 2(2) by (rule exE)
  have drop: "map push_smp ps2 = drop (j + i) (map push_smp ps)" unfolding j i by simp
  have "set (map push_smp ps1) \<subseteq> set (map push_smp ps)" "set (map push_smp ps2) \<subseteq> set (map push_smp ps1)"
    using set_drop_subset [of i "map push_smp ps"] set_drop_subset [of j "map push_smp ps1"] by (simp_all only: i j)
  then have smp: "push_smp ` set ps1 \<subseteq> push_smp ` set ps" "push_smp ` set ps2 \<subseteq> push_smp ` set ps1" by simp_all
  note t1 = 1(9) and t2 = 2(9) and due1 = 1(8)
  have due2: "k \<notin> set (handed m1 ss1) \<and> k \<notin> set mv1 \<and> (\<exists>t. tickets m k = Some (k, t) \<and> t < bar)" if got: "k \<in> set (handed m2 ss2)" for k
  proof -
    obtain t where t: "tickets m1 k = Some (k, t)" "t < bar" using 2(8) [OF got] by blast
    then show ?thesis using t1 [of k] bar by (auto split: if_splits)
  qed
  have new: "tickets m k = None" if "k \<in> set mv2" for k
  proof -
    have "k \<in> set (awaiting ps)" using 1(1) 2(1) that by simp
    moreover have "set (awaiting ps) \<inter> dom (tickets m) = {}" using ok by (simp add: waiting_ok_def)
    ultimately show ?thesis by (auto simp: domIff)
  qed
  have final: "tickets m2 k = (if k \<in> set (handed m1 ss1) \<union> set (handed m2 ss2) then None
      else if k \<in> set (mv1 @ mv2) then Some (k, time_max) else tickets m k)" for k
    using t1 [of k] t2 [of k] due1 [of k] new [of k] by (cases "k \<in> set mv2") auto
  have arrays: "arrays m2 a = arrays m a" if "a \<notin> output_arr ` set (ss1 @ ss2)" for a
  proof -
    have "arrays m1 a = arrays m a" using 1(5) [of a] that by (simp add: image_Un)
    moreover have "arrays m2 a = arrays m1 a" using 2(5) [of a] that by (simp add: image_Un)
    ultimately show ?thesis by simp
  qed
  have filled: "arrays m2 (output_arr b) \<noteq> [] \<and> length (arrays m2 (output_arr b)) \<le> output_arr_cap b" if "b \<in> set (ss1 @ ss2)" for b
    using 1(4) [of b] 2(4) [of b] that keep [of b] by (cases "b \<in> set ss1") simp_all
  have released: "released m2 = released m \<union> (push_smp ` set ps - push_smp ` set ps2) \<union> pop_smp ` set (ss1 @ ss2)"
    using smp unfolding 1(6) 2(6) by auto
  have distinct: "distinct (handed m1 ss1 @ handed m2 ss2)" using 1(7) 2(7) due2 by auto
  show ?thesis
    unfolding served_def handed
  proof (intro conjI)
    show "awaiting ps = (mv1 @ mv2) @ awaiting ps2" "qs = (ss1 @ ss2) @ qs2" using 1(1,3) 2(1,3) by simp_all
    show "\<exists>n. map push_smp ps2 = drop n (map push_smp ps)" using drop by (rule exI)
    show "\<forall>k \<in> set (handed m1 ss1 @ handed m2 ss2). \<exists>t. tickets m k = Some (k, t) \<and> t < bar"
      using due1 due2 by (simp add: ball_Un)
    show "tickets m2 = (\<lambda>k. if k \<in> set (handed m1 ss1 @ handed m2 ss2) then None
        else if k \<in> set (mv1 @ mv2) then Some (k, time_max) else tickets m k)" using final by (simp add: fun_eq_iff)
    show "\<forall>b \<in> set (ss1 @ ss2). arrays m2 (output_arr b) \<noteq> [] \<and> length (arrays m2 (output_arr b)) \<le> output_arr_cap b"
      using filled by blast
    show "\<forall>a. a \<notin> output_arr ` set (ss1 @ ss2) \<longrightarrow> arrays m2 a = arrays m a" using arrays by blast
  qed (use released distinct in simp_all)
qed

lemma update_loop_ok:
  assumes "manager_ok c d m ps qs" and "mono clock" and "now \<le> clock n" and "\<And>i. clock i \<le> time_max"
  shows "\<exists>moved ss m' n' ps' qs'. update_loop blank clock now n m = Some (Inr (m', n')) \<and> n \<le> n' \<and>
    manager_ok c d m' ps' qs' \<and> served (clock n') m ps qs moved ss m' ps' qs' \<and>
    item_map_capacity (expiry_bucket_queue m') = item_map_capacity (expiry_bucket_queue m) \<and>
    (ps' = [] \<or> full_map m') \<and> (qs' = [] \<or> \<not> due (tickets m') now)"
  using assms(1,3)
proof (induction "length (awaiting ps) + length qs" arbitrary: m ps qs n rule: less_induct)
  case less
  have q: "queues_ok c d m ps qs" and w: "waiting_ok m ps qs" using less.prems(1) by (simp_all add: manager_ok_def)
  note lens = queues_okD(4,5) [OF q]
  show ?case
  proof (cases "\<not> full_map m \<and> ps \<noteq> []")
    case True
    have later: "served b m ps qs [k] [] m1 ps1 qs \<longleftrightarrow> served b' m ps qs [k] [] m1 ps1 qs" for b b' k m1 ps1
      by (simp add: served_def handed_def)
    obtain k m1 ps1 where 1: "resolve_one_push_doable m = Inr m1" "manager_ok c d m1 ps1 qs"
        "served (clock n) m ps qs [k] [] m1 ps1 qs" "length (awaiting ps) = Suc (length (awaiting ps1))"
        "item_map_capacity (expiry_bucket_queue m1) = item_map_capacity (expiry_bucket_queue m)"
      using push_step_ok [OF less.prems(1)] True by blast
    have "length (awaiting ps1) + length qs < length (awaiting ps) + length qs" using 1(4) by simp
    from less.hyps [OF this 1(2) less.prems(2)] obtain moved ss m' n' ps' qs' where
      2: "update_loop blank clock now n m1 = Some (Inr (m', n'))" "n \<le> n'" "manager_ok c d m' ps' qs'"
        "served (clock n') m1 ps1 qs moved ss m' ps' qs'"
        "item_map_capacity (expiry_bucket_queue m') = item_map_capacity (expiry_bucket_queue m1)"
        "ps' = [] \<or> full_map m'" "qs' = [] \<or> \<not> due (tickets m') now" by blast
    have run: "update_loop blank clock now n m = Some (Inr (m', n'))"
      using True lens 1(1) 2(1) by (subst update_loop.simps) (simp add: full_map_def)
    have "served (clock n') m ps qs ([k] @ moved) ([] @ ss) m' ps' qs'"
      by (rule served_trans [OF _ 2(4) w assms(4)]) (use 1(3) later in blast)
    with run 2 1(5) show ?thesis by (metis)
  next
    case False
    then have idle: "ps = [] \<or> full_map m" by blast
    have has: "has_expired_item (expiry_bucket_queue m) now = Inr (due (tickets m) now)"
      using has_expired_item_iff [OF queues_okD(3) [OF q]] by (simp add: due_def)
    show ?thesis
    proof (cases "qs \<noteq> [] \<and> due (tickets m) now")
      case True
      have due: "due (tickets m) (clock n)" using True less.prems(2) by (fastforce simp: due_def)
      obtain b m1 where 1: "qs = b # tl qs" "resolve_one_pop_doable blank (clock n) m = Inr m1" "manager_ok c d m1 ps (tl qs)"
          "\<And>bar. clock n \<le> bar \<Longrightarrow> served bar m ps qs [] [b] m1 ps (tl qs)"
          "item_map_capacity (expiry_bucket_queue m1) = item_map_capacity (expiry_bucket_queue m)"
        using pop_step_ok [OF less.prems(1) _ due] True by blast
      have "length (awaiting ps) + length (tl qs) < length (awaiting ps) + length qs" using True by simp
      moreover have "now \<le> clock (n + 1)" using less.prems(2) monoD [OF assms(2), of n "n + 1"] by simp
      ultimately obtain moved ss m' n' ps' qs' where
        2: "update_loop blank clock now (n + 1) m1 = Some (Inr (m', n'))" "n + 1 \<le> n'" "manager_ok c d m' ps' qs'"
          "served (clock n') m1 ps (tl qs) moved ss m' ps' qs'"
          "item_map_capacity (expiry_bucket_queue m') = item_map_capacity (expiry_bucket_queue m1)"
          "ps' = [] \<or> full_map m'" "qs' = [] \<or> \<not> due (tickets m') now"
        using less.hyps [OF _ 1(3)] by blast
      have run: "update_loop blank clock now n m = Some (Inr (m', n'))"
        using True idle lens has 1(2) 2(1) by (subst update_loop.simps) (auto simp: full_map_def)
      have "served (clock n') m ps qs ([] @ moved) ([b] @ ss) m' ps' qs'"
        by (rule served_trans [OF 1(4) 2(4) w assms(4)]) (use 2(2) monoD [OF assms(2), of n n'] in simp)
      moreover have "n \<le> n'" using 2(2) by simp
      ultimately show ?thesis using run 2(3,5-7) 1(5) by metis
    next
      case False
      have "update_loop blank clock now n m = Some (Inr (m, n))"
        using False idle lens has by (subst update_loop.simps) (auto simp: full_map_def)
      then show ?thesis using less.prems(1) served_refl idle False by blast
    qed
  qed
qed

section \<open>Every state that calls can bring about\<close>

definition queued :: "'a cyclic_queue \<Rightarrow> 'a list" where
  "queued q = take (q_sz q) (view q)"

lemma queued_eq: "simple_represents d c q xs \<Longrightarrow> queued q = xs"
  by (simp add: simple_represents_def holds_def queued_def)

abbreviation pushing :: "'k ticket_manager \<Rightarrow> 'k push_wait_bucket list" where
  "pushing m \<equiv> queued (push_wait_bucket_vec m)"

abbreviation popping :: "'k ticket_manager \<Rightarrow> pop_wait_bucket list" where
  "popping m \<equiv> queued (pop_wait_bucket_vec m)"

definition manager_good :: "'k ticket_manager \<Rightarrow> bool" where
  "manager_good m \<longleftrightarrow> manager_ok (q_cap (push_wait_bucket_vec m)) (q_cap (pop_wait_bucket_vec m)) m (pushing m) (popping m)"

lemma manager_goodI:
  assumes "manager_ok c d m ps qs"
  shows "manager_good m" "pushing m = ps" "popping m = qs"
proof -
  have q: "simple_represents no_push c (push_wait_bucket_vec m) ps" "simple_represents no_pop d (pop_wait_bucket_vec m) qs"
    using assms by (simp_all add: manager_ok_def queues_ok_def)
  then have caps: "q_cap (push_wait_bucket_vec m) = c" "q_cap (pop_wait_bucket_vec m) = d" by (simp_all add: simple_represents_def)
  show "pushing m = ps" "popping m = qs" using queued_eq [OF q(1)] queued_eq [OF q(2)] by simp_all
  then show "manager_good m" using assms caps by (simp add: manager_good_def)
qed

text \<open>A call that starts has a semaphore that no call uses.\<close>

definition new_call :: "'k ticket_manager \<Rightarrow> nat \<Rightarrow> bool" where
  "new_call m smp \<longleftrightarrow> smp \<notin> released m \<and> smp \<notin> push_smp ` set (pushing m) \<and> smp \<notin> pop_smp ` set (popping m)"

definition new_tickets :: "'k ticket_manager \<Rightarrow> 'k clock_in_argument list \<Rightarrow> bool" where
  "new_tickets m args \<longleftrightarrow>
     distinct (map clocked_in_ticket args) \<and>
     (\<forall>a \<in> set args. tickets m (clocked_in_ticket a) = None \<and> clocked_in_ticket a \<notin> set (awaiting (pushing m)))"

text \<open>
  The calls, each with the number of the next reading of the clock. A \<open>clock_in\<close> that finds room may carry any tickets, also
  ones that are in the map, whose times it moves (\<open>add_or_update\<close>). One that has to wait carries tickets that are neither in
  the map nor waited for: its tickets are entered by \<open>add\<close>, which refuses the others.
\<close>

inductive ticket_step ::
    "'k \<Rightarrow> (nat \<Rightarrow> int) \<Rightarrow> 'k ticket_manager \<times> nat \<Rightarrow> 'k ticket_manager \<times> nat \<Rightarrow> bool"
  for blank :: 'k and clock :: "nat \<Rightarrow> int"
where
  Clock_in: "new_call m smp \<Longrightarrow> clock_in m (clock n) smp args = Inr (r, m') \<Longrightarrow> r \<noteq> Waits \<or> new_tickets m args \<Longrightarrow>
    ticket_step blank clock (m, n) (m', n + 1)"
| Clock_in_resume: "clock_in_resume m (clock n) smp args = Inr (r, m') \<Longrightarrow> ticket_step blank clock (m, n) (m', n + 1)"
| Get_expired_ticket: "new_call m smp \<Longrightarrow> arr \<notin> output_arr ` set (popping m) \<Longrightarrow>
    get_expired_ticket blank m (clock n) smp arr cap = Inr (r', m') \<Longrightarrow> ticket_step blank clock (m, n) (m', n + 1)"
| Get_expired_resume: "get_expired_ticket_resume m smp arr = (r', m') \<Longrightarrow> ticket_step blank clock (m, n) (m', n)"
| Void_ticket: "void_ticket blank clock n m ks = Some (Inr (m', n')) \<Longrightarrow> ticket_step blank clock (m, n) (m', n')"
| Update: "update_tickets blank clock n m = Some (Inr (m', n')) \<Longrightarrow> ticket_step blank clock (m, n) (m', n')"

text \<open>What clocking in does to the map.\<close>

definition clocked :: "int \<Rightarrow> 'k clock_in_argument list \<Rightarrow> ('k \<rightharpoonup> 'k \<times> int) \<Rightarrow> 'k \<rightharpoonup> 'k \<times> int" where
  "clocked now args s = fold (\<lambda>a s. s(clocked_in_ticket a \<mapsto> (clocked_in_ticket a, now + expiry_dur a))) args s"

lemma clocked_simps [simp]:
  "clocked now [] s = s"
  "clocked now (a # args) s = clocked now args (s(clocked_in_ticket a \<mapsto> (clocked_in_ticket a, now + expiry_dur a)))"
  by (simp_all add: clocked_def)

lemma dom_clocked: "dom (clocked now args s) = dom s \<union> clocked_in_ticket ` set args"
  by (induction args arbitrary: s) auto

lemma drop_in_loop_ok:
  "map_ok ticket_id_extractor q \<Longrightarrow> drop_in_loop now q args = Inr q' \<Longrightarrow>
   map_ok ticket_id_extractor q' \<and> item_map_capacity q' = item_map_capacity q \<and>
   stored q' = clocked now args (stored q)"
proof (induction args arbitrary: q)
  case (Cons a args)
  let ?k = "clocked_in_ticket a" and ?t = "now + expiry_dur a"
  obtain q1 where q1: "item_add_or_update ticket_id_extractor q ?k ?t = Inr (SUCCESS, q1)" "drop_in_loop now q1 args = Inr q'"
    using Cons.prems(2) by (auto simp: bindR_eq_Inr time_add_def dg_nothrow_def is_failed_def split: if_splits)
  obtain r q2 where "item_map_step ?k ticket_id_extractor q (Add_or_update ?k ?t) = Inr (r, q2)" "map_ok ticket_id_extractor q2"
      "item_map_capacity q2 = item_map_capacity q"
      "spec_step ticket_id_extractor (item_map_capacity q) (stored q) (Add_or_update ?k ?t) r (stored q2)"
    using temporal_map.step_ok [OF Cons.prems(1)] by blast
  moreover from this(1) have "r = Code SUCCESS" "q2 = q1" using q1(1) by simp_all
  moreover have "x = ?k" if "stored q ?k = Some (x, u)" for x u
    using stored_key [OF Cons.prems(1) that] by (simp add: ticket_id)
  ultimately have 1: "map_ok ticket_id_extractor q1" "item_map_capacity q1 = item_map_capacity q" "stored q1 = (stored q)(?k \<mapsto> (?k, ?t))"
    by (auto simp: ticket_id split: option.splits prod.splits if_splits)
  note 2 = Cons.IH [OF 1(1) q1(2)]
  then have "stored q' = clocked now args (stored q1)" by blast
  then have "stored q' = clocked now (a # args) (stored q)" by (simp only: 1(3) clocked_simps)
  then show ?case using 1(2) 2 by (simp del: clocked_simps)
qed simp

lemma update_times_loop_ok:
  "map_ok ticket_id_extractor q \<Longrightarrow> update_times_loop now q args = Inr q' \<Longrightarrow>
   map_ok ticket_id_extractor q' \<and> item_map_capacity q' = item_map_capacity q \<and> dom (stored q') = dom (stored q) \<and>
   stored q' = clocked now args (stored q)"
proof (induction args arbitrary: q)
  case (Cons a args)
  let ?k = "clocked_in_ticket a" and ?t = "now + expiry_dur a"
  obtain q1 where q1: "item_update q ?k ?t = Inr (SUCCESS, q1)" "update_times_loop now q1 args = Inr q'"
    using Cons.prems(2) by (auto simp: bindR_eq_Inr time_add_def dg_nothrow_def is_failed_def split: if_splits)
  obtain x u where st: "stored q ?k = Some (x, u)"
    using q1(1) item_update_missing [of q ?k ?t] by (cases "stored q ?k") auto
  then have "x = ?k" using stored_key [OF Cons.prems(1) st] by (simp add: ticket_id)
  then have 1: "map_ok ticket_id_extractor q1" "item_map_capacity q1 = item_map_capacity q" "stored q1 = (stored q)(?k \<mapsto> (?k, ?t))"
    using item_update_ok [OF Cons.prems(1) st, of ?t] q1(1) by auto
  have dom: "dom (stored q1) = dom (stored q)" using st unfolding 1(3) by auto
  note 2 = Cons.IH [OF 1(1) q1(2)]
  then have "stored q' = clocked now args (stored q1)" by blast
  then have "stored q' = clocked now (a # args) (stored q)" by (simp only: 1(3) clocked_simps)
  moreover have "dom (stored q') = dom (stored q1)" "map_ok ticket_id_extractor q'" "item_map_capacity q' = item_map_capacity q1"
    using 2 by blast+
  ultimately show ?case using 1(2) dom by metis
qed simp

lemma erase_loop_ok:
  "map_ok ticket_id_extractor q \<Longrightarrow> \<exists>q'. erase_loop blank q ks = Inr q' \<and> map_ok ticket_id_extractor q' \<and>
     item_map_capacity q' = item_map_capacity q \<and> stored q' = stored q |` (- set ks)"
proof (induction ks arbitrary: q)
  case (Cons k ks)
  obtain q1 where 1: "item_erase blank q k = Inr q1" "map_ok ticket_id_extractor q1" "stored q1 = (stored q)(k := None)"
      "item_map_capacity q1 = item_map_capacity q"
    using item_erase_ok [OF Cons.prems] by blast
  obtain q' where 2: "erase_loop blank q1 ks = Inr q'" "map_ok ticket_id_extractor q'" "item_map_capacity q' = item_map_capacity q1"
      "stored q' = stored q1 |` (- set ks)"
    using Cons.IH [OF 1(2)] by blast
  have "stored q' = stored q |` (- set (k # ks))" using 1(3) 2(4) by (auto simp: restrict_map_def fun_eq_iff)
  then show ?case using 1 2 by simp
qed (simp add: restrict_map_def)

lemma manager_good_cong:
  assumes good: "manager_good m" and q: "map_ok ticket_id_extractor q" and sub: "dom (stored q) \<inter> set (awaiting (pushing m)) = {}"
    and rel: "rel \<subseteq> released m"
  shows "manager_good (m\<lparr>expiry_bucket_queue := q, released := rel\<rparr>)"
proof -
  have "set (map push_smp (pushing m) @ map pop_smp (popping m)) \<inter> rel = {}"
    using good rel by (auto simp: manager_good_def manager_ok_def waiting_ok_def)
  then show ?thesis
    using good q sub by (simp add: manager_good_def manager_ok_def queues_ok_def waiting_ok_def Int_commute)
qed

lemma clock_in_good:
  assumes good: "manager_good m" and new: "new_call m smp" "r \<noteq> Waits \<or> new_tickets m args" and run: "clock_in m now smp args = Inr (r, m')"
  shows "manager_good m'"
proof -
  note ok = good [unfolded manager_good_def]
  have q: "queues_ok (q_cap (push_wait_bucket_vec m)) (q_cap (pop_wait_bucket_vec m)) m (pushing m) (popping m)"
    and w: "waiting_ok m (pushing m) (popping m)" using ok by (simp_all add: manager_ok_def)
  consider (same) "m' = m"
    | (dropped) q' where "pushing m = []" "drop_in_loop now (expiry_bucket_queue m) args = Inr q'" "m' = m\<lparr>expiry_bucket_queue := q'\<rparr>"
    | (waits) v where "r = Waits" "args \<noteq> []" "simple_push_back (push_wait_bucket_vec m) \<lparr>clock_in_arr = args, push_smp = smp\<rparr> = (SUCCESS, v)"
        "m' = m\<lparr>push_wait_bucket_vec := v\<rparr>"
  proof (cases "\<not> is_valid_clock_in_arguments m args \<or> args = []")
    case True
    then show ?thesis using same run by (auto simp: clock_in_def Let_def split: if_splits)
  next
    case False
    let ?drop = "item_map_size (expiry_bucket_queue m) + length args \<le> item_map_capacity (expiry_bucket_queue m) \<and> q_sz (push_wait_bucket_vec m) = 0"
    have run1: "(if ?drop then bindR (drop_in_loop now (expiry_bucket_queue m) args) (\<lambda>q.
          Inr (Returns (replicate (length args) SUCCESS), m\<lparr>expiry_bucket_queue := q\<rparr>))
        else (case simple_push_back (push_wait_bucket_vec m) \<lparr>clock_in_arr = args, push_smp = smp\<rparr> of
               (err, v) \<Rightarrow> bindR (dg_nothrow err) (\<lambda>_. Inr (Waits, m\<lparr>push_wait_bucket_vec := v\<rparr>)))) = Inr (r, m')"
    proof -
      have "\<not> max_consume_per_load m < length args" by (rule ccontr) (use run in \<open>simp add: clock_in_def Let_def\<close>)
      then show ?thesis using run False by (simp add: clock_in_def Let_def)
    qed
    show ?thesis
    proof (cases ?drop)
      case True
      then have "pushing m = []" using queues_okD(4) [OF q] by simp
      with dropped show ?thesis using run1 unfolding if_P [OF True] by (auto simp: bindR_eq_Inr)
    next
      case wait: False
      obtain err v where v: "simple_push_back (push_wait_bucket_vec m) \<lparr>clock_in_arr = args, push_smp = smp\<rparr> = (err, v)" by fastforce
      with waits show ?thesis using run1 False unfolding if_not_P [OF wait] v
        by (auto simp: bindR_eq_Inr dg_nothrow_def is_failed_def split: if_splits)
    qed
  qed
  then show ?thesis
  proof cases
    case same
    then show ?thesis using good by simp
  next
    case dropped
    have "map_ok ticket_id_extractor q'" using drop_in_loop_ok [OF queues_okD(3) [OF q] dropped(2)] by simp
    then show ?thesis using manager_good_cong [OF good, of q' "released m"] dropped(1,3) by simp
  next
    case waits
    let ?b = "\<lparr>clock_in_arr = args, push_smp = smp\<rparr>"
    obtain v' where "simple_push_back (push_wait_bucket_vec m) ?b =
        (if length (pushing m) = q_cap (push_wait_bucket_vec m) then (QUEUE_FULL, v') else (SUCCESS, v'))"
      "simple_represents no_push (q_cap (push_wait_bucket_vec m)) v'
        (if length (pushing m) = q_cap (push_wait_bucket_vec m) then pushing m else pushing m @ [?b])"
      by (rule queue_push [OF queues_okD(1) [OF q]])
    then have v: "simple_represents no_push (q_cap (push_wait_bucket_vec m)) v (pushing m @ [?b])"
      using waits(3) by (auto split: if_splits)
    then have "queues_ok (q_cap (push_wait_bucket_vec m)) (q_cap (pop_wait_bucket_vec m)) m' (pushing m @ [?b]) (popping m)"
      using queues_okD(2,3) [OF q] waits(4) by (simp add: queues_ok_def)
    moreover have "waiting_ok m' (pushing m @ [?b]) (popping m)"
      using w new waits(1,2,4) by (auto simp: waiting_ok_def new_call_def new_tickets_def)
    ultimately show ?thesis using manager_goodI(1) unfolding manager_ok_def by blast
  qed
qed

lemma get_expired_ticket_ok:
  assumes good: "manager_good m" and new: "new_call m smp" "arr \<notin> output_arr ` set (popping m)"
  shows "\<exists>xs w q. collect_loop blank now cap (expiry_bucket_queue m) [] = Inr (w, xs, q) \<and> map_ok ticket_id_extractor q \<and>
    taken_out now (tickets m) xs (stored q) \<and> length xs \<le> cap \<and> (length xs = cap \<or> \<not> due (stored q) now) \<and>
    (w \<longleftrightarrow> 0 < cap \<and> xs = [])"
proof -
  have "map_ok ticket_id_extractor (expiry_bucket_queue m)"
    using good by (simp add: manager_good_def manager_ok_def queues_ok_def)
  from collect_loop_ok [OF this, of blank now cap "[]"] show ?thesis by auto
qed

lemma get_expired_good:
  assumes good: "manager_good m" and new: "new_call m smp" "arr \<notin> output_arr ` set (popping m)"
    and run: "get_expired_ticket blank m now smp arr cap = Inr (r, m')"
  shows "manager_good m'"
proof -
  have q: "queues_ok (q_cap (push_wait_bucket_vec m)) (q_cap (pop_wait_bucket_vec m)) m (pushing m) (popping m)"
    and w: "waiting_ok m (pushing m) (popping m)" using good by (simp_all add: manager_ok_def manager_good_def)
  obtain xs wait qq where 1: "collect_loop blank now cap (expiry_bucket_queue m) [] = Inr (wait, xs, qq)"
      "map_ok ticket_id_extractor qq" "taken_out now (tickets m) xs (stored qq)" "wait \<longleftrightarrow> 0 < cap \<and> xs = []"
    using get_expired_ticket_ok [OF good new] by blast
  let ?m = "m\<lparr>expiry_bucket_queue := qq, arrays := (arrays m)(arr := xs)\<rparr>"
  have sub: "dom (stored qq) \<subseteq> dom (tickets m)" using taken_out_rest [OF 1(3)] by (auto simp: restrict_map_def split: if_splits)
  have "set (awaiting (pushing m)) \<inter> dom (stored qq) = {}" using sub w unfolding waiting_ok_def by blast
  moreover have "output_arr b \<noteq> arr" if "b \<in> set (popping m)" for b using new(2) imageI [OF that, of output_arr] by auto
  ultimately have w1: "waiting_ok ?m (pushing m) (popping m)" using w by (simp add: waiting_ok_def)
  show ?thesis
  proof (cases wait)
    case False
    then have "m' = ?m" using run 1(1) by (simp add: get_expired_ticket_def)
    moreover have "queues_ok (q_cap (push_wait_bucket_vec m)) (q_cap (pop_wait_bucket_vec m)) ?m (pushing m) (popping m)"
      using queues_okD(1,2) [OF q] 1(2) by (simp add: queues_ok_def)
    ultimately show ?thesis using w1 manager_goodI(1) unfolding manager_ok_def by blast
  next
    case True
    let ?b = "\<lparr>output_arr = arr, output_arr_cap = cap, pop_smp = smp\<rparr>"
    obtain v where v: "simple_push_back (pop_wait_bucket_vec m) ?b = (SUCCESS, v)" "m' = ?m\<lparr>pop_wait_bucket_vec := v\<rparr>"
      using run 1(1) True by (auto simp: get_expired_ticket_def Let_def bindR_eq_Inr dg_nothrow_def is_failed_def split: prod.splits if_splits)
    obtain v' where "simple_push_back (pop_wait_bucket_vec m) ?b =
        (if length (popping m) = q_cap (pop_wait_bucket_vec m) then (QUEUE_FULL, v') else (SUCCESS, v'))"
      "simple_represents no_pop (q_cap (pop_wait_bucket_vec m)) v'
        (if length (popping m) = q_cap (pop_wait_bucket_vec m) then popping m else popping m @ [?b])"
      by (rule queue_push [OF queues_okD(2) [OF q]])
    then have "simple_represents no_pop (q_cap (pop_wait_bucket_vec m)) v (popping m @ [?b])"
      using v(1) by (auto split: if_splits)
    then have "queues_ok (q_cap (push_wait_bucket_vec m)) (q_cap (pop_wait_bucket_vec m)) m' (pushing m) (popping m @ [?b])"
      using queues_okD(1) [OF q] 1(2) v(2) by (simp add: queues_ok_def)
    moreover have "waiting_ok m' (pushing m) (popping m @ [?b])"
      using w1 new True 1(4) v(2) by (auto simp: waiting_ok_def new_call_def)
    ultimately show ?thesis using manager_goodI(1) unfolding manager_ok_def by blast
  qed
qed

lemma factory_good:
  assumes "get_ticket_timeout_manager blank push_sz pop_sz cap wait = Inr m"
  shows "manager_good m" "pushing m = []" "popping m = []" "tickets m = Map.empty"
proof -
  have sz: "1 \<le> push_sz" "push_sz \<le> 2 ^ 30" "1 \<le> pop_sz" "pop_sz \<le> 2 ^ 30"
    and m: "m = \<lparr>push_wait_bucket_vec = simple_new no_push (ulog2 push_sz), pop_wait_bucket_vec = simple_new no_pop (ulog2 pop_sz),
      expiry_bucket_queue = item_map_new blank (cap + max (cap div 2 ^ 4) 1), max_dur = wait,
      max_consume_per_load = max (cap div 2 ^ 4) 1, arrays = (\<lambda>_. []), released = {}\<rparr>"
    using assms unfolding get_ticket_timeout_manager_def Let_def by (auto split: if_splits)
  have small: "ulog2 k < 64" if "1 \<le> k" "k \<le> 2 ^ 30" for k :: nat
  proof -
    have "(2 :: nat) ^ ulog2 k \<le> 2 ^ 30" using ulog2_bounds [of k] that by linarith
    then have "ulog2 k \<le> 30" by (rule power_le_imp_le_exp [rotated]) simp
    then show ?thesis by simp
  qed
  have rep: "simple_represents no_push (2 ^ ulog2 push_sz) (push_wait_bucket_vec m) []"
      "simple_represents no_pop (2 ^ ulog2 pop_sz) (pop_wait_bucket_vec m) []"
    using holds_new [OF small, of push_sz no_push] holds_new [OF small, of pop_sz no_pop] sz
    by (simp_all add: m simple_represents_def) (simp_all add: simple_new_def)
  moreover have "map_ok ticket_id_extractor (expiry_bucket_queue m)" using item_map_new_ok(1) by (simp add: m)
  ultimately have "manager_ok (2 ^ ulog2 push_sz) (2 ^ ulog2 pop_sz) m [] []"
    by (simp add: manager_ok_def queues_ok_def waiting_ok_def)
  from manager_goodI [OF this] show "manager_good m" "pushing m = []" "popping m = []" .
  show "tickets m = Map.empty" using item_map_new_ok(2) by (simp add: m)
qed

lemma internal_update_good:
  assumes good: "manager_good m" and "mono clock" and "\<And>i. clock i \<le> time_max"
  shows "\<exists>moved ss m' n'. internal_update blank clock n m = Some (Inr (m', n')) \<and> manager_good m' \<and>
    served (clock n') m (pushing m) (popping m) moved ss m' (pushing m') (popping m') \<and>
    (pushing m' = [] \<or> full_map m') \<and> (popping m' = [] \<or> \<not> due (tickets m') (clock n))"
proof -
  have "clock n \<le> clock (n + 1)" using monoD [OF assms(2), of n "n + 1"] by simp
  then obtain moved ss m' n' ps' qs' where 1: "update_loop blank clock (clock n) (n + 1) m = Some (Inr (m', n'))"
      "manager_ok (q_cap (push_wait_bucket_vec m)) (q_cap (pop_wait_bucket_vec m)) m' ps' qs'"
      "served (clock n') m (pushing m) (popping m) moved ss m' ps' qs'"
      "ps' = [] \<or> full_map m'" "qs' = [] \<or> \<not> due (tickets m') (clock n)"
    using update_loop_ok [OF good [unfolded manager_good_def] assms(2) _ assms(3), of "clock n" "n + 1" blank] by blast
  have eqs: "pushing m' = ps'" "popping m' = qs'" "manager_good m'" using manager_goodI [OF 1(2)] by simp_all
  show ?thesis
    unfolding internal_update_def using 1(1,3,4,5) eqs by (intro exI [of _ moved] exI [of _ ss] exI [of _ m'] exI [of _ n']) simp
qed

lemma void_good:
  assumes good: "manager_good m" and "erase_loop blank (expiry_bucket_queue m) ks = Inr q"
  shows "manager_good (m\<lparr>expiry_bucket_queue := q\<rparr>)"
proof -
  have ok: "map_ok ticket_id_extractor (expiry_bucket_queue m)" and w: "waiting_ok m (pushing m) (popping m)"
    using good by (simp_all add: manager_good_def manager_ok_def queues_ok_def)
  have q: "map_ok ticket_id_extractor q" "stored q = tickets m |` (- set ks)" using erase_loop_ok [OF ok, of blank ks] assms(2) by auto
  have "dom (stored q) \<inter> set (awaiting (pushing m)) = {}"
    using w unfolding q(2) waiting_ok_def by (auto simp: restrict_map_def split: if_splits)
  from manager_good_cong [OF good q(1) this, of "released m"] show ?thesis by simp
qed

lemma ticket_step_good:
  assumes "ticket_step blank clock s s'" and "mono clock" and "\<And>i. clock i \<le> time_max" and "manager_good (fst s)"
  shows "manager_good (fst s')"
  using assms(1,4)
proof (induction rule: ticket_step.induct)
  case (Clock_in m smp n args r m')
  then show ?case using clock_in_good [of m smp r args "clock n" m'] by simp
next
  case (Clock_in_resume m n smp args r m')
  show ?case
  proof (cases "smp \<in> released m")
    case False
    then show ?thesis using Clock_in_resume by (simp add: clock_in_resume_def)
  next
    case True
    obtain q where q: "update_times_loop (clock n) (expiry_bucket_queue m) args = Inr q"
        "m' = m\<lparr>expiry_bucket_queue := q, released := released m - {smp}\<rparr>"
      using Clock_in_resume(1) True by (auto simp: clock_in_resume_def bindR_eq_Inr)
    have ok: "map_ok ticket_id_extractor (expiry_bucket_queue m)" and w: "waiting_ok m (pushing m) (popping m)"
      using Clock_in_resume(2) by (simp_all add: manager_good_def manager_ok_def queues_ok_def)
    have new: "map_ok ticket_id_extractor q" "dom (stored q) = dom (tickets m)" using update_times_loop_ok [OF ok q(1)] by blast+
    have "dom (stored q) \<inter> set (awaiting (pushing m)) = {}" using w unfolding new(2) waiting_ok_def by blast
    from manager_good_cong [OF _ new(1) this, of "released m - {smp}"] show ?thesis using Clock_in_resume(2) q(2) by auto
  qed
next
  case (Get_expired_ticket m smp arr n cap r' m')
  then show ?case using get_expired_good [of m smp arr blank "clock n" cap r' m'] by simp
next
  case (Get_expired_resume m smp arr r' m' n)
  show ?case
  proof (cases "smp \<in> released m")
    case True
    have ok: "map_ok ticket_id_extractor (expiry_bucket_queue m)" and w: "waiting_ok m (pushing m) (popping m)"
      using Get_expired_resume(2) by (simp_all add: manager_good_def manager_ok_def queues_ok_def)
    have "dom (tickets m) \<inter> set (awaiting (pushing m)) = {}" using w unfolding waiting_ok_def by blast
    from manager_good_cong [OF _ ok this, of "released m - {smp}"] show ?thesis
      using Get_expired_resume True by (auto simp: get_expired_ticket_resume_def)
  qed (use Get_expired_resume in \<open>simp add: get_expired_ticket_resume_def\<close>)
next
  case (Void_ticket n m ks m' n')
  obtain q where q: "erase_loop blank (expiry_bucket_queue m) ks = Inr q"
      "internal_update blank clock n (m\<lparr>expiry_bucket_queue := q\<rparr>) = Some (Inr (m', n'))"
    using Void_ticket(1) by (auto simp: void_ticket_def split: sum.splits)
  have "manager_good (m\<lparr>expiry_bucket_queue := q\<rparr>)" using void_good [OF _ q(1)] Void_ticket(2) by simp
  from internal_update_good [OF this assms(2,3), of blank n] show ?case using q(2) by auto
next
  case (Update n m m' n')
  then show ?case using internal_update_good [OF _ assms(2,3), of m blank n] by (auto simp: update_tickets_def)
qed

lemma reachable_good:
  assumes "(ticket_step blank clock)\<^sup>*\<^sup>* s s'" and "mono clock" and "\<And>i. clock i \<le> time_max" and "manager_good (fst s)"
  shows "manager_good (fst s')"
  using assms(1,4) by (induction rule: rtranclp_induct) (auto intro: ticket_step_good [OF _ assms(2,3)])

section \<open>A run for the witnesses\<close>

definition sample_clock :: "nat \<Rightarrow> int" where
  "sample_clock i = min (10 * int i) 1000"

definition sample_manager :: "nat \<Rightarrow> pop_wait_bucket \<Rightarrow> (nat, nat) item_map \<Rightarrow> (nat \<Rightarrow> nat list) \<Rightarrow> nat ticket_manager" where
  "sample_manager n b q arrs =
     \<lparr>push_wait_bucket_vec = simple_new no_push 0,
      pop_wait_bucket_vec = \<lparr>q_arr = [b, no_pop], q_off = 0, q_sz = n, q_cap = 2\<rparr>,
      expiry_bucket_queue = q, max_dur = 1000, max_consume_per_load = 1, arrays = arrs, released = {}\<rparr>"

definition sample_waiter :: pop_wait_bucket where
  "sample_waiter = \<lparr>output_arr = 9, output_arr_cap = 2, pop_smp = 1\<rparr>"

definition sample_map :: "(nat \<times> int) list \<Rightarrow> (nat, nat) item_map" where
  "sample_map xs =
     \<lparr>heap_nodes = map (\<lambda>i. if i < length xs then \<lparr>item = fst (xs ! i), sched_time = snd (xs ! i), heap_idx = i\<rparr>
        else \<lparr>item = 0, sched_time = 0, heap_idx = 0\<rparr>) [0..<2],
      temporal_heap = [0..<2], temporal_heap_sz = length xs, id_heap_map = map_of (zip (map fst xs) [0..<2])\<rparr>"

definition sample_m3 :: "nat ticket_manager" where
  "sample_m3 = sample_manager 1 sample_waiter (sample_map [(5, 25), (6, 80)]) ((\<lambda>_. [])(9 := []))"

lemmas sample_run = sample_manager_def sample_waiter_def sample_map_def sample_m3_def sample_clock_def clock_in_def get_expired_ticket_def
  is_valid_clock_in_arguments_def Let_def item_map_size_def item_map_capacity_def simple_new_def simple_push_back_def dg_nothrow_def
  is_failed_def time_add_def time_max_def item_add_or_update_def item_add_def add_heap_node_def correct_heap_node_up_at.simps node_ref_def
  ticket_id is_less_than_def has_expired_item_def no_push_def no_pop_def to_index_def upt_conv_Cons numeral_2_eq_2

lemma sample_reached:
  "get_ticket_timeout_manager 0 1 2 1 1000 = Inr (sample_manager 0 no_pop (item_map_new 0 2) (\<lambda>_. []))"
  "(ticket_step 0 sample_clock)\<^sup>*\<^sup>* (sample_manager 0 no_pop (item_map_new 0 2) (\<lambda>_. []), 0) (sample_m3, 4)"
  "mono sample_clock" "sample_clock i \<le> time_max"
proof -
  have "is_pow2 (2 ^ 0)" "is_pow2 (2 ^ 1)" by (rule is_pow2_power)+
  moreover have "ulog2 1 = 0" "ulog2 2 = 1" by (simp_all add: ulog2.simps)
  moreover have "replicate 2 x = [x, x]" for x :: pop_wait_bucket by (simp add: numeral_2_eq_2)
  ultimately show "get_ticket_timeout_manager 0 1 2 1 1000 = Inr (sample_manager 0 no_pop (item_map_new 0 2) (\<lambda>_. []))"
    by (simp add: get_ticket_timeout_manager_def Let_def sample_manager_def simple_new_def) (simp add: numeral_2_eq_2)
  show "mono sample_clock" by (auto simp: mono_def sample_clock_def)
  show "sample_clock i \<le> time_max" by (simp add: sample_clock_def time_max_def)
  let ?m0 = "sample_manager 0 no_pop (item_map_new 0 2) (\<lambda>_. [])"
  let ?m1 = "sample_manager 1 sample_waiter (sample_map []) ((\<lambda>_. [])(9 := []))"
  let ?m2 = "sample_manager 1 sample_waiter (sample_map [(5, 40)]) ((\<lambda>_. [])(9 := []))"
  let ?m3 = "sample_manager 1 sample_waiter (sample_map [(5, 25)]) ((\<lambda>_. [])(9 := []))"
  have free: "pushing (sample_manager n b q arrs) = []" for n b q arrs
    by (simp add: queued_def sample_manager_def simple_new_def)
  have used: "popping (sample_manager n b q arrs) = take n [b, no_pop]" for n b q arrs
    by (cases n; cases "n - 1") (simp_all add: queued_def sample_manager_def view_def to_index_def upt_conv_Cons)
  have "get_expired_ticket 0 ?m0 (sample_clock 0) 1 9 2 = Inr (Waits, ?m1)"
    by (simp add: sample_run item_map_new_def)
  moreover have "new_call ?m0 1" "9 \<notin> output_arr ` set (popping ?m0)" unfolding new_call_def free used by (simp_all add: sample_manager_def)
  ultimately have 1: "ticket_step 0 sample_clock (?m0, 0) (?m1, 0 + 1)" by - (rule ticket_step.Get_expired_ticket)
  have "clock_in ?m1 (sample_clock 1) 2 [\<lparr>clocked_in_ticket = 5, expiry_dur = 30\<rparr>] = Inr (Returns [SUCCESS], ?m2)"
    by (simp add: sample_run)
  moreover have "new_call ?m1 2"
    unfolding new_call_def free used by (simp_all add: sample_manager_def sample_waiter_def)
  ultimately have 2: "ticket_step 0 sample_clock (?m1, 1) (?m2, 1 + 1)" by - (rule ticket_step.Clock_in, auto)
  have "clock_in ?m2 (sample_clock 2) 3 [\<lparr>clocked_in_ticket = 5, expiry_dur = 5\<rparr>] = Inr (Returns [SUCCESS], ?m3)"
    by (simp add: sample_run item_update_def correct_heap_node_at_def correct_heap_node_down_at.simps)
  moreover have "new_call ?m2 3"
    unfolding new_call_def free used by (simp_all add: sample_manager_def sample_waiter_def)
  ultimately have 3: "ticket_step 0 sample_clock (?m2, 2) (?m3, 2 + 1)" by - (rule ticket_step.Clock_in, auto)
  have "clock_in ?m3 (sample_clock 3) 4 [\<lparr>clocked_in_ticket = 6, expiry_dur = 50\<rparr>] = Inr (Returns [SUCCESS], sample_m3)"
    by (simp add: sample_run fun_upd_twist)
  moreover have "new_call ?m3 4"
    unfolding new_call_def free used by (simp_all add: sample_manager_def sample_waiter_def)
  ultimately have 4: "ticket_step 0 sample_clock (?m3, 3) (sample_m3, 3 + 1)" by - (rule ticket_step.Clock_in, auto)
  have sums: "(2 :: nat) + 1 = 3" "(3 :: nat) + 1 = 4" by simp_all
  show "(ticket_step 0 sample_clock)\<^sup>*\<^sup>* (?m0, 0) (sample_m3, 4)"
    using 1 2 3 4 unfolding one_add_one add_0 sums by (meson converse_rtranclp_into_rtranclp rtranclp.rtrancl_refl)
qed

section \<open>Properties\<close>

text \<open>
  C17: After any calls of a new manager, as long as each \<open>clock_in\<close> that has to wait carries tickets that are new (no two the same, none of
  them in the map or waited for) and under a clock that does not run backwards, an update ends without breaking a check of its own, and
  then no call
  waits that could go on: room is left only if no \<open>clock_in\<close> waits, and a ticket is due only if no \<open>get_expired_ticket\<close> waits.
  In between tickets found room in the order of their calls, every ticket handed out was due, went to one call and left the map,
  and the calls that were woken up are those that were served.
\<close>

theorem tickets_served:
  assumes "get_ticket_timeout_manager blank push_sz pop_sz cap wait = Inr m0"
    and "(ticket_step blank clock)\<^sup>*\<^sup>* (m0, 0) (m, n)" and "mono clock" and "\<And>i. clock i \<le> time_max"
  shows "\<exists>moved ss m' n'. update_tickets blank clock n m = Some (Inr (m', n')) \<and>
    served (clock n') m (pushing m) (popping m) moved ss m' (pushing m') (popping m') \<and>
    (pushing m' = [] \<or> full_map m') \<and> (popping m' = [] \<or> \<not> due (tickets m') (clock n))"
proof -
  have "manager_good m" using reachable_good [OF assms(2,3,4)] factory_good(1) [OF assms(1)] by simp
  from internal_update_good [OF this assms(3,4), of blank n] show ?thesis unfolding update_tickets_def by blast
qed

theorem tickets_served_witness:
  "(\<exists>moved ss m' n'. update_tickets 0 sample_clock 4 sample_m3 = Some (Inr (m', n')) \<and>
     served (sample_clock n') sample_m3 (pushing sample_m3) (popping sample_m3) moved ss m' (pushing m') (popping m') \<and>
     (pushing m' = [] \<or> full_map m') \<and> (popping m' = [] \<or> \<not> due (tickets m') (sample_clock 4))) \<and>
   due (tickets sample_m3) (sample_clock 4)"
proof -
  have "tickets sample_m3 5 = Some (5, 25)" by (simp add: sample_run stored_def)
  then have "due (tickets sample_m3) (sample_clock 4)" unfolding due_def by (force simp: sample_clock_def)
  then show ?thesis using tickets_served [OF sample_reached] by blast
qed

text \<open>
  \<open>get_expired_ticket\<close> hands out tickets whose time is over, the earliest first and each of them once, until the array is full or no
  ticket is due; they leave the map, and the call waits just when there is none for it.
\<close>

theorem get_expired_hands_out:
  assumes "get_ticket_timeout_manager blank push_sz pop_sz max_tickets wait = Inr m0"
    and "(ticket_step blank clock)\<^sup>*\<^sup>* (m0, 0) (m, n)" and "mono clock" and "\<And>i. clock i \<le> time_max"
    and "new_call m smp" and "arr \<notin> output_arr ` set (popping m)" and "length (popping m) < q_cap (pop_wait_bucket_vec m)"
  shows "\<exists>xs m'. get_expired_ticket blank m now smp arr cap = Inr (if 0 < cap \<and> xs = [] then Waits else Returns xs, m') \<and>
    taken_out now (tickets m) xs (tickets m') \<and> distinct xs \<and> tickets m' = tickets m |` (- set xs) \<and>
    length xs \<le> cap \<and> (length xs = cap \<or> \<not> due (tickets m') now)"
proof -
  have good: "manager_good m" using reachable_good [OF assms(2,3,4)] factory_good(1) [OF assms(1)] by simp
  then have q: "queues_ok (q_cap (push_wait_bucket_vec m)) (q_cap (pop_wait_bucket_vec m)) m (pushing m) (popping m)"
    by (simp add: manager_good_def manager_ok_def)
  obtain xs w qq where 1: "collect_loop blank now cap (expiry_bucket_queue m) [] = Inr (w, xs, qq)"
      "taken_out now (tickets m) xs (stored qq)" "length xs \<le> cap" "length xs = cap \<or> \<not> due (stored qq) now"
      "w \<longleftrightarrow> 0 < cap \<and> xs = []"
    using get_expired_ticket_ok [OF good assms(5,6), of blank now cap] by blast
  let ?m = "m\<lparr>expiry_bucket_queue := qq, arrays := (arrays m)(arr := xs)\<rparr>"
  obtain v where v: "simple_push_back (pop_wait_bucket_vec m) \<lparr>output_arr = arr, output_arr_cap = cap, pop_smp = smp\<rparr> = (SUCCESS, v)"
    using queue_push [OF queues_okD(2) [OF q]] assms(7) by (metis less_irrefl)
  have "get_expired_ticket blank m now smp arr cap =
      Inr (if 0 < cap \<and> xs = [] then Waits else Returns xs, if w then ?m\<lparr>pop_wait_bucket_vec := v\<rparr> else ?m)"
    using 1(1,5) v by (auto simp: get_expired_ticket_def Let_def dg_nothrow_def is_failed_def)
  moreover have "tickets (if w then ?m\<lparr>pop_wait_bucket_vec := v\<rparr> else ?m) = stored qq" by simp
  moreover have "distinct xs" "stored qq = tickets m |` (- set xs)" using taken_out_rest [OF 1(2)] by simp_all
  ultimately show ?thesis using 1(2-4) by metis
qed

theorem get_expired_hands_out_witness:
  "\<exists>xs m'. get_expired_ticket 0 sample_m3 (sample_clock 4) 5 8 1 = Inr (if 0 < (1 :: nat) \<and> xs = [] then Waits else Returns xs, m') \<and>
     taken_out (sample_clock 4) (tickets sample_m3) xs (tickets m') \<and> distinct xs \<and> tickets m' = tickets sample_m3 |` (- set xs) \<and>
     length xs \<le> 1 \<and> (length xs = 1 \<or> \<not> due (tickets m') (sample_clock 4))"
proof (rule get_expired_hands_out [OF sample_reached])
  have "popping sample_m3 = [sample_waiter]"
    by (simp add: queued_def sample_m3_def sample_manager_def view_def to_index_def upt_conv_Cons)
  moreover have "pushing sample_m3 = []" by (simp add: queued_def sample_m3_def sample_manager_def simple_new_def)
  ultimately show "new_call sample_m3 5" "8 \<notin> output_arr ` set (popping sample_m3)"
      "length (popping sample_m3) < q_cap (pop_wait_bucket_vec sample_m3)"
    by (simp_all add: new_call_def sample_waiter_def sample_m3_def sample_manager_def)
qed

text \<open>
  A ticket can be clocked in again while it is there, which gives it a new time, if there is room for the call. If the map is full the same
  call waits, and as soon as some other ticket is voided the program ends: the ticket that waits is added, not updated, and a second entry of it is
  refused.
\<close>

theorem reclock_while_full_aborts:
  assumes "manager_good m" and "full_map m" and "pushing m = []" and "tickets m k \<noteq> None"
    and "clock_in m now smp [\<lparr>clocked_in_ticket = k, expiry_dur = d\<rparr>] = Inr (Waits, m')"
    and "j \<in> set ks" and "tickets m j \<noteq> None" and "k \<notin> set ks"
  shows "void_ticket blank clock n m' ks = Some (Inl Abort)"
proof -
  let ?args = "[\<lparr>clocked_in_ticket = k, expiry_dur = d\<rparr>]"
  let ?b = "\<lparr>clock_in_arr = ?args, push_smp = smp\<rparr>" and ?c = "q_cap (push_wait_bucket_vec m)"
  have q: "queues_ok ?c (q_cap (pop_wait_bucket_vec m)) m [] (popping m)"
    using assms(1,3) by (simp add: manager_good_def manager_ok_def)
  have wait: "\<not> item_map_size (expiry_bucket_queue m) + 1 \<le> item_map_capacity (expiry_bucket_queue m)"
    using assms(2) by (simp add: full_map_def)
  obtain v where v: "simple_push_back (push_wait_bucket_vec m) ?b = (SUCCESS, v)" "m' = m\<lparr>push_wait_bucket_vec := v\<rparr>"
    using assms(5) wait by (auto simp: clock_in_def Let_def bindR_eq_Inr dg_nothrow_def is_failed_def split: if_splits prod.splits)
  have "simple_represents no_push ?c (push_wait_bucket_vec m) (pushing m)" using queues_okD(1) [OF q] assms(3) by simp
  then obtain v' where "simple_push_back (push_wait_bucket_vec m) ?b = (if length (pushing m) = ?c then (QUEUE_FULL, v') else (SUCCESS, v'))"
      "simple_represents no_push ?c v' (if length (pushing m) = ?c then pushing m else pushing m @ [?b])"
    by (rule queue_push)
  then have rep: "simple_represents no_push ?c v [?b]" using v(1) assms(3) by (auto split: if_splits)
  note ok = queues_okD(3) [OF q]
  obtain qq where qq: "erase_loop blank (expiry_bucket_queue m) ks = Inr qq" "map_ok ticket_id_extractor qq"
      "item_map_capacity qq = item_map_capacity (expiry_bucket_queue m)" "stored qq = tickets m |` (- set ks)"
    using erase_loop_ok [OF ok] by blast
  have "dom (stored qq) \<subset> dom (tickets m)" using assms(6,7) by (auto simp: qq(4) restrict_map_def split: if_splits)
  then have "item_map_size qq < item_map_size (expiry_bucket_queue m)"
    using item_map_size_card [OF ok] item_map_size_card [OF qq(2)] psubset_card_mono [of "dom (tickets m)" "dom (stored qq)"] by simp
  then have room: "item_map_size qq \<noteq> item_map_capacity qq" using assms(2) qq(3) by (simp add: full_map_def)
  have dup: "item_add ticket_id_extractor qq k time_max = Inr (DUPLICATED_ENTRY, qq)"
    using item_add_duplicate [of qq ticket_id_extractor k time_max] assms(4,8) by (simp add: ticket_id qq(4))
  have "resolve_one_push_doable (m'\<lparr>expiry_bucket_queue := qq\<rparr>) = Inl Abort"
    using room queue_size [OF rep] queue_front [OF rep] dup v(2)
    by (simp add: resolve_one_push_doable_def dg_nothrow_def is_failed_def)
  then show ?thesis
    using qq(1) room queue_size [OF rep] v(2)
    by (simp add: void_ticket_def internal_update_def) (subst update_loop.simps, simp)
qed

theorem reclock_while_full_aborts_witness:
  "void_ticket 0 sample_clock 4
     (sample_m3\<lparr>push_wait_bucket_vec := \<lparr>q_arr = [\<lparr>clock_in_arr = [\<lparr>clocked_in_ticket = 5, expiry_dur = 5\<rparr>], push_smp = 4\<rparr>],
        q_off = 0, q_sz = 1, q_cap = 1\<rparr>\<rparr>) [6] = Some (Inl Abort)"
proof (rule reclock_while_full_aborts)
  show "manager_good sample_m3" using reachable_good [OF sample_reached(2-4)] factory_good(1) [OF sample_reached(1)] by simp
  show "full_map sample_m3" by (simp add: full_map_def sample_run)
  show "pushing sample_m3 = []" by (simp add: queued_def sample_m3_def sample_manager_def simple_new_def)
  show "tickets sample_m3 5 \<noteq> None" "tickets sample_m3 6 \<noteq> None" by (simp_all add: stored_def sample_run)
  show "clock_in sample_m3 (sample_clock 4) 4 [\<lparr>clocked_in_ticket = 5, expiry_dur = 5\<rparr>] =
      Inr (Waits, sample_m3\<lparr>push_wait_bucket_vec := \<lparr>q_arr = [\<lparr>clock_in_arr = [\<lparr>clocked_in_ticket = 5, expiry_dur = 5\<rparr>], push_smp = 4\<rparr>],
        q_off = 0, q_sz = 1, q_cap = 1\<rparr>\<rparr>)"
    by (simp add: sample_run)
qed simp_all

end
