(* ===== verification/Hash_Chains.thy ===== *)
theory Hash_Chains
  imports Address_Chain
begin

text \<open>
  The chains of a hash table, one for every bucket: node \<open>v\<close> of \<open>A\<close> stands in the chain of its bucket \<open>bk v\<close>. What the three
  steps of the containers do to them: appending a node to its chain, taking one out, and letting another index take the place of one.
\<close>

definition chained :: "(reference \<Rightarrow> nat) \<Rightarrow> (nat \<Rightarrow> nat) \<Rightarrow> nat set \<Rightarrow> nat \<Rightarrow> (nat \<Rightarrow> nat list) \<Rightarrow> bool" where
  "chained cell bk A N ch \<longleftrightarrow>
     (\<forall>b < N. path cell (Bucket b) (ch b) \<and> distinct (ch b) \<and> set (ch b) = {v \<in> A. bk v = b})"

lemma path_start:
  assumes "cell r = cell' r'" and "\<And>v. v \<in> set vs \<Longrightarrow> cell (Next v) = cell' (Next v)"
  shows "path cell r vs = path cell' r' vs"
proof (cases vs)
  case (Cons v ws)
  then have "path cell (Next v) ws = path cell' (Next v) ws" using assms(2) by (intro path_cong) auto
  then show ?thesis using Cons assms(1) by simp
qed (use assms(1) in simp)

lemma chainedD:
  assumes "chained cell bk A N ch" and "b < N"
  shows "path cell (Bucket b) (ch b)" "distinct (ch b)" "set (ch b) = {v \<in> A. bk v = b}"
  using assms unfolding chained_def by blast+

lemma chained_cong:
  assumes "chained cell bk A N ch" and "\<And>b. b < N \<Longrightarrow> cell' (Bucket b) = cell (Bucket b)"
    and "\<And>v. v \<in> A \<Longrightarrow> cell' (Next v) = cell (Next v)" and "\<And>v. v \<in> A \<Longrightarrow> bk' v = bk v"
  shows "chained cell' bk' A N ch"
  unfolding chained_def
proof (intro allI impI)
  fix b assume b: "b < N"
  note old = chainedD [OF assms(1) b]
  have "path cell' (Bucket b) (ch b) = path cell (Bucket b) (ch b)"
    by (rule path_cong) (use assms(2) [OF b] assms(3) old(3) in auto)
  moreover have "{v \<in> A. bk' v = b} = {v \<in> A. bk v = b}" using assms(4) by auto
  ultimately show "path cell' (Bucket b) (ch b) \<and> distinct (ch b) \<and> set (ch b) = {v \<in> A. bk' v = b}"
    using old by simp
qed

text \<open>The reference behind a part of a chain belongs to that chain alone.\<close>

lemma behind_own:
  assumes "chained cell bk A N ch" and "b < N" and "set pre \<subseteq> set (ch b)" and "b' < N" and "b' \<noteq> b"
  shows "behind (Bucket b) pre \<noteq> Bucket b'" and "behind (Bucket b) pre \<notin> Next ` set (ch b')"
  using behind_in [of "Bucket b" pre] assms(3,5) chainedD(3) [OF assms(1,2)] chainedD(3) [OF assms(1,4)] by auto

lemma chained_update:
  assumes "chained cell bk A N ch" and "b < N" and "set pre \<subseteq> set (ch b)"
    and "path cell' (Bucket b) vs" and "distinct vs" and "set vs = {v \<in> A'. bk' v = b}"
    and "\<And>r. r \<noteq> behind (Bucket b) pre \<Longrightarrow> r \<noteq> Next x \<Longrightarrow> cell' r = cell r"
    and "\<And>v. v \<in> A \<Longrightarrow> bk v \<noteq> b \<Longrightarrow> v \<noteq> x"
    and "\<And>b'. b' < N \<Longrightarrow> b' \<noteq> b \<Longrightarrow> {v \<in> A'. bk' v = b'} = {v \<in> A. bk v = b'}"
  shows "chained cell' bk' A' N (ch(b := vs))"
  unfolding chained_def
proof (intro allI impI)
  fix b' assume b': "b' < N"
  show "path cell' (Bucket b') ((ch(b := vs)) b') \<and> distinct ((ch(b := vs)) b')
    \<and> set ((ch(b := vs)) b') = {v \<in> A'. bk' v = b'}"
  proof (cases "b' = b")
    case False
    note own = behind_own [OF assms(1-3) b' False] and old = chainedD [OF assms(1) b']
    have "path cell' (Bucket b') (ch b') = path cell (Bucket b') (ch b')"
    proof (rule path_cong)
      show "cell' (Bucket b') = cell (Bucket b')" using own(1) by (intro assms(7)) auto
      fix v assume v: "v \<in> set (ch b')"
      then have "v \<noteq> x" using old(3) False by (intro assms(8)) auto
      then show "cell' (Next v) = cell (Next v)" using own(2) v by (intro assms(7)) (auto dest: sym)
    qed
    then show ?thesis using old assms(9) [OF b' False] False by simp
  qed (use assms(4-6) in simp)
qed

lemma chained_append:
  assumes ch: "chained cell bk A N ch" and "bk v < N" and "v \<notin> A" and "v \<noteq> NULL_VIRTUAL_ADDR" and "cell (Next v) = NULL_VIRTUAL_ADDR"
  shows "chained (cell(behind (Bucket (bk v)) (ch (bk v)) := v)) bk (insert v A) N (ch(bk v := ch (bk v) @ [v]))"
proof (rule chained_update [OF ch assms(2) subset_refl, where x = v])
  note old = chainedD [OF ch assms(2)]
  have "v \<notin> set (ch (bk v))" using old(3) assms(3) by simp
  moreover have "behind (Bucket (bk v)) (ch (bk v)) \<noteq> Next v"
    using behind_in [of "Bucket (bk v)" "ch (bk v)"] \<open>v \<notin> set (ch (bk v))\<close> by auto
  moreover have "path cell (Bucket (bk v)) (ch (bk v) @ [])" using old(1) by simp
  ultimately show "path (cell(behind (Bucket (bk v)) (ch (bk v)) := v)) (Bucket (bk v)) (ch (bk v) @ [v])"
    by (rule_tac path_redirect [where post = "[]"]) (use old(2) assms(4,5) in auto)
  show "distinct (ch (bk v) @ [v])" using old(2) \<open>v \<notin> set (ch (bk v))\<close> by simp
qed (use assms(3) chainedD(3) [OF ch assms(2)] in auto)

lemma chained_remove:
  assumes ch: "chained cell bk A N ch" and "bk v < N" and split: "ch (bk v) = pre @ v # post"
  shows "chained (cell(behind (Bucket (bk v)) pre := cell (Next v))) bk (A - {v}) N (ch(bk v := pre @ post))"
proof (rule chained_update [OF ch assms(2), where x = v])
  note old = chainedD [OF ch assms(2), unfolded split]
  show "path (cell(behind (Bucket (bk v)) pre := cell (Next v))) (Bucket (bk v)) (pre @ post)"
  proof (rule path_redirect)
    show "path cell (Bucket (bk v)) (pre @ v # post)" "distinct pre" "Bucket (bk v) \<notin> Next ` set pre" using old by auto
    show "behind (Bucket (bk v)) pre \<notin> Next ` set post" using behind_in [of "Bucket (bk v)" pre] old(2) by auto
    have "path cell (Next v) post" using path_behind [OF old(1)] by simp
    then show "case post of [] \<Rightarrow> cell (Next v) = NULL_VIRTUAL_ADDR
      | w # vs \<Rightarrow> cell (Next v) = w \<and> w \<noteq> NULL_VIRTUAL_ADDR \<and> path cell (Next w) vs" by (cases post) simp_all
  qed
  show "distinct (pre @ post)" using old(2) by simp
  show "set (pre @ post) = {w \<in> A - {v}. bk w = bk v}" using old(2,3) by auto
qed (use split in auto)

text \<open>Node \<open>w\<close> moves to the index \<open>v\<close>.\<close>

lemma chained_move:
  assumes ch: "chained cell bk A N ch" and "bk w < N" and split: "ch (bk w) = pre @ w # post" and "v \<notin> A" and "v \<noteq> NULL_VIRTUAL_ADDR"
  shows "chained (cell(behind (Bucket (bk w)) pre := v, Next v := cell (Next w))) (bk(v := bk w)) (insert v (A - {w})) N
    (ch(bk w := pre @ v # post))"
proof (rule chained_update [OF ch assms(2), where x = v])
  note old = chainedD [OF ch assms(2), unfolded split]
  have v: "v \<noteq> w" "v \<notin> set pre" "v \<notin> set post" using assms(4) old(3) by auto
  have behind: "behind (Bucket (bk w)) pre \<noteq> Next v" using behind_in [of "Bucket (bk w)" pre] v(2) by auto
  let ?cell = "cell(Next v := cell (Next w))"
  have rest: "path ?cell (Next v) post"
  proof -
    have "path cell (Next w) post" using path_behind [OF old(1)] by simp
    moreover have "path ?cell (Next v) post = path cell (Next w) post" using v(3) by (intro path_start) auto
    ultimately show ?thesis by simp
  qed
  have "path (?cell(behind (Bucket (bk w)) pre := v)) (Bucket (bk w)) (pre @ v # post)"
  proof (rule path_redirect)
    have "path ?cell (Bucket (bk w)) (pre @ w # post) = path cell (Bucket (bk w)) (pre @ w # post)"
      by (rule path_cong) (use v in auto)
    then show "path ?cell (Bucket (bk w)) (pre @ w # post)" using old(1) by simp
    show "behind (Bucket (bk w)) pre \<notin> Next ` set (v # post)"
      using behind_in [of "Bucket (bk w)" pre] old(2) v by auto
  qed (use rest old(2) assms(5) in auto)
  moreover have "?cell(behind (Bucket (bk w)) pre := v) = cell(behind (Bucket (bk w)) pre := v, Next v := cell (Next w))"
    using behind by (intro fun_upd_twist) simp
  ultimately show "path (cell(behind (Bucket (bk w)) pre := v, Next v := cell (Next w))) (Bucket (bk w)) (pre @ v # post)" by simp
  show "distinct (pre @ v # post)" using old(2) v by simp
  show "set (pre @ v # post) = {x \<in> insert v (A - {w}). (bk(v := bk w)) x = bk w}" using old(2,3) assms(4) by auto
qed (use split assms(4) in auto)

text \<open>Where a node is found once another one is out of the chain.\<close>

lemma behind_unlinked:
  assumes "pre @ v # post = p @ w # q" and "w \<noteq> v" and "distinct (pre @ v # post)"
  obtains p' q' where "pre @ post = p' @ w # q'"
    and "behind (Bucket b) p' = (if behind (Bucket b) p = Next v then behind (Bucket b) pre else behind (Bucket b) p)"
proof -
  from assms(1) obtain us where us: "pre = p @ us \<and> us @ v # post = w # q \<or> pre @ us = p \<and> v # post = us @ w # q"
    by (auto simp: append_eq_append_conv2)
  then show thesis
  proof
    assume us: "pre = p @ us \<and> us @ v # post = w # q"
    then obtain us' where us': "us = w # us'" using assms(2) by (cases us) auto
    have "pre = p @ w # us'" using us us' by simp
    then have "behind (Bucket b) p \<noteq> Next v" using behind_in [of "Bucket b" p] assms(3) by auto
    then show thesis using that [of p "us' @ post"] us us' by simp
  next
    assume us: "pre @ us = p \<and> v # post = us @ w # q"
    then obtain us' where us': "us = v # us'" "post = us' @ w # q" using assms(2) by (cases us) auto
    have p: "p = pre @ v # us'" using us us' by simp
    show thesis
    proof (cases "us' = []")
      case True
      then show ?thesis using that [of pre q] us' p by (simp add: behind_append)
    next
      case False
      then have "behind (Bucket b) (pre @ us') = Next (last us')" "behind (Bucket b) p = Next (last us')"
        by (simp_all add: behind_def p)
      moreover have "last us' \<noteq> v" using assms(3) False us'(2) by auto
      ultimately show ?thesis using that [of "pre @ us'" q] us'(2) by simp
    qed
  qed
qed

text \<open>
  Erasure: node \<open>v\<close> is taken out and node \<open>w\<close> takes its index. The reference to \<open>w\<close> was found before that; it is the reference to
  \<open>v\<close> now when it was the link of \<open>v\<close> itself.
\<close>

lemma chained_replace:
  assumes ch: "chained cell bk A N ch" and bv: "bk v < N" and split: "ch (bk v) = pre @ v # post"
    and bw: "bk w < N" and split': "ch (bk w) = p @ w # q" and "w \<noteq> v" and "v \<noteq> NULL_VIRTUAL_ADDR"
  defines "kr \<equiv> behind (Bucket (bk v)) pre"
  defines "sr \<equiv> if behind (Bucket (bk w)) p = Next v then kr else behind (Bucket (bk w)) p"
  defines "cell2 \<equiv> cell(kr := cell (Next v), sr := v)"
  obtains ch' p' where "chained (cell2(Next v := cell2 (Next w))) (bk(v := bk w)) (insert v (A - {v} - {w})) N ch'"
    and "sr = behind (Bucket (bk w)) p'" and "set p' \<subseteq> A" and "behind (Bucket (bk w)) p \<noteq> kr"
proof -
  let ?c = "bk w" and ?cell = "cell(kr := cell (Next v))" and ?ch = "ch(bk v := pre @ post)"
  have removed: "chained ?cell bk (A - {v}) N ?ch" unfolding kr_def by (rule chained_remove [OF ch bv split])
  have "cell kr = v" unfolding kr_def using path_cell [of cell "Bucket (bk v)" pre "v # post"] chainedD(1) [OF ch bv] split by simp
  moreover have "cell (behind (Bucket ?c) p) = w"
    using path_cell [of cell "Bucket ?c" p "w # q"] chainedD(1) [OF ch bw] split' by simp
  ultimately have neq: "behind (Bucket ?c) p \<noteq> kr" using assms(6) by auto
  obtain p' q' where p': "?ch ?c = p' @ w # q'" "behind (Bucket ?c) p' = sr"
  proof (cases "?c = bk v")
    case True
    then have "pre @ v # post = p @ w # q" using split split' by simp
    moreover have "distinct (pre @ v # post)" using chainedD(2) [OF ch bv] split by simp
    ultimately obtain p' q' where "pre @ post = p' @ w # q'"
        "behind (Bucket (bk v)) p' = (if behind (Bucket (bk v)) p = Next v then behind (Bucket (bk v)) pre else behind (Bucket (bk v)) p)"
      by (rule behind_unlinked [OF _ assms(6)])
    then show ?thesis using that [of p' q'] True by (simp add: sr_def kr_def)
  next
    case False
    then have "v \<notin> set (ch ?c)" using chainedD(3) [OF ch bw] by auto
    then have "behind (Bucket ?c) p \<noteq> Next v" using behind_in [of "Bucket ?c" p] split' by auto
    then show ?thesis using that [of p q] split' False by (simp add: sr_def)
  qed
  have in_A: "set (?ch ?c) \<subseteq> A - {v}" using chainedD(3) [OF removed bw] by auto
  have "distinct (p' @ w # q')" using chainedD(2) [OF removed bw] p'(1) by simp
  then have "sr \<noteq> Next w" using behind_in [of "Bucket ?c" p'] p'(2) by auto
  then have w: "cell2 (Next w) = ?cell (Next w)" by (simp add: cell2_def)
  have moved: "chained (?cell(behind (Bucket ?c) p' := v, Next v := ?cell (Next w))) (bk(v := ?c)) (insert v (A - {v} - {w})) N
      (?ch(?c := p' @ v # q'))"
    by (rule chained_move [OF removed bw p'(1) _ assms(7)]) simp
  have "chained (cell2(Next v := cell2 (Next w))) (bk(v := ?c)) (insert v (A - {v} - {w})) N (?ch(?c := p' @ v # q'))"
    using moved unfolding p'(2) cell2_def [symmetric] w [symmetric] .
  moreover have "set p' \<subseteq> A" using in_A p'(1) by auto
  ultimately show thesis using that p'(2) [symmetric] neq by blast
qed

end
