(* ===== verification/Node_Map.thy ===== *)
theory Node_Map
  imports Hash_Chains
begin

text \<open>
  \<open>unordered_node_map\<close> of \<open>internal_rest/network_datastructure.h\<close> (also in \<open>stl_extension/datastructure.h\<close>): a hash map whose
  nodes stand one behind the other in a vector. Every bucket starts a chain of indices of that vector; an erased node is replaced by the last one.
  The hash function is a parameter and keys are compared by equality. \<open>reserve\<close> of a vector raises its capacity to the argument. Running out of memory is
  not modelled; a capacity is at most \<open>2 ^ 50\<close>, so \<open>size_t\<close> values are natural numbers, except where a caller's argument is shifted or
  multiplied before it is compared with that bound.
\<close>

section \<open>State\<close>

record ('k, 'v) map_node =
  first :: 'k
  second :: 'v
  map_nxt_addr :: nat

record ('k, 'v) node_map =
  virtual_storage_vec :: "('k, 'v) map_node list"
  vec_capacity :: nat
  map_bucket_vec :: "nat list"

text \<open>The load factor is \<open>ratio<7, 8>\<close>.\<close>

definition map_capacity_to_size :: "nat \<Rightarrow> nat" where
  "map_capacity_to_size cap = cap div 8 * 7"

definition map_size_to_capacity :: "nat \<Rightarrow> nat" where
  "map_size_to_capacity sz = sz div 7 * 8 mod 2 ^ 64"

definition ceil_size_to_capacity :: "nat \<Rightarrow> nat" where
  "ceil_size_to_capacity sz =
     (if sz = 0 then 0
      else let mul_value = sz * 8;
               round_mul_value = ((mul_value - 1) div 7 + 1) * 7
           in round_mul_value div 7)"

definition bucket_count_for_size_of :: "nat \<Rightarrow> nat result" where
  "bucket_count_for_size_of element_sz =
     (if element_sz = 0 then Inr MIN_CAP
      else let upround_element_sz = ((element_sz - 1) div 7 + 1) * 7 mod 2 ^ 64;
               sufficient_capacity = map_size_to_capacity upround_element_sz
           in bindR (ceil2 sufficient_capacity) (\<lambda>tentative_capacity. Inr (max tentative_capacity MIN_CAP)))"

definition map_max_size :: nat where
  "map_max_size = map_capacity_to_size MAX_CAP"

definition node_map_new :: "nat \<Rightarrow> ('k, 'v) node_map result" where
  "node_map_new bucket_count =
     bindR (ceil2 bucket_count) (\<lambda>n. bindR (min_size_clamp n MIN_CAP MAX_CAP) (\<lambda>n.
       Inr \<lparr>virtual_storage_vec = [], vec_capacity = map_capacity_to_size n, map_bucket_vec = replicate n NULL_VIRTUAL_ADDR\<rparr>))"

section \<open>References\<close>

definition map_node_at :: "('k, 'v) node_map \<Rightarrow> nat \<Rightarrow> ('k, 'v) map_node result" where
  "map_node_at m i = (if i < length (virtual_storage_vec m) then Inr (virtual_storage_vec m ! i) else Inl Out_of_bounds)"

fun map_read_ref :: "('k, 'v) node_map \<Rightarrow> reference \<Rightarrow> nat result" where
  "map_read_ref m (Bucket i) = (if i < length (map_bucket_vec m) then Inr (map_bucket_vec m ! i) else Inl Out_of_bounds)"
| "map_read_ref m (Next i) = bindR (map_node_at m i) (\<lambda>n. Inr (map_nxt_addr n))"

fun map_write_ref :: "('k, 'v) node_map \<Rightarrow> reference \<Rightarrow> nat \<Rightarrow> ('k, 'v) node_map result" where
  "map_write_ref m (Bucket i) a =
     (if i < length (map_bucket_vec m) then Inr (m\<lparr>map_bucket_vec := (map_bucket_vec m)[i := a]\<rparr>) else Inl Out_of_bounds)"
| "map_write_ref m (Next i) a =
     bindR (map_node_at m i) (\<lambda>n. Inr (m\<lparr>virtual_storage_vec := (virtual_storage_vec m)[i := n\<lparr>map_nxt_addr := a\<rparr>]\<rparr>))"

section \<open>Searching\<close>

definition map_bucket_index :: "('k, 'v) node_map \<Rightarrow> nat \<Rightarrow> nat" where
  "map_bucket_index m hashed_value = hashed_value AND (length (map_bucket_vec m) - 1)"

partial_function (option) map_find_loop :: "('k, 'v) node_map \<Rightarrow> 'k \<Rightarrow> reference \<Rightarrow> reference result option" where
  "map_find_loop m key current = (case map_read_ref m current of
     Inl e \<Rightarrow> Some (Inl e)
   | Inr a \<Rightarrow>
       if a = NULL_VIRTUAL_ADDR then Some (Inr current)
       else (case map_node_at m a of
         Inl e \<Rightarrow> Some (Inl e)
       | Inr n \<Rightarrow> if first n = key then Some (Inr current) else map_find_loop m key (Next a)))"

definition map_bucket_reference :: "('k \<Rightarrow> nat) \<Rightarrow> ('k, 'v) node_map \<Rightarrow> 'k \<Rightarrow> reference result option" where
  "map_bucket_reference hasher m key = map_find_loop m key (Bucket (map_bucket_index m (hasher key)))"

text \<open>An iterator is an index; \<open>cend()\<close> is the size.\<close>

definition map_find :: "('k \<Rightarrow> nat) \<Rightarrow> ('k, 'v) node_map \<Rightarrow> 'k \<Rightarrow> nat result option" where
  "map_find hasher m key =
     bindO (map_bucket_reference hasher m key) (\<lambda>addr.
     bindO (endO (map_read_ref m addr)) (\<lambda>a.
       if a = NULL_VIRTUAL_ADDR then Some (Inr (length (virtual_storage_vec m))) else Some (Inr a)))"

definition map_contains :: "('k \<Rightarrow> nat) \<Rightarrow> ('k, 'v) node_map \<Rightarrow> 'k \<Rightarrow> bool result option" where
  "map_contains hasher m key = bindO (map_find hasher m key) (\<lambda>i. Some (Inr (i \<noteq> length (virtual_storage_vec m))))"

text \<open>\<open>at\<close>: the result \<open>None\<close> of the body is \<open>std::out_of_range\<close>.\<close>

definition map_at :: "('k \<Rightarrow> nat) \<Rightarrow> ('k, 'v) node_map \<Rightarrow> 'k \<Rightarrow> 'v option result option" where
  "map_at hasher m key =
     bindO (map_find hasher m key) (\<lambda>i.
       if i = length (virtual_storage_vec m) then Some (Inr None)
       else bindO (endO (map_node_at m i)) (\<lambda>n. Some (Inr (Some (second n)))))"

section \<open>Rehashing\<close>

partial_function (option) chain_end :: "('k, 'v) node_map \<Rightarrow> reference \<Rightarrow> reference result option" where
  "chain_end m insert_reference = (case map_read_ref m insert_reference of
     Inl e \<Rightarrow> Some (Inl e)
   | Inr a \<Rightarrow> if a = NULL_VIRTUAL_ADDR then Some (Inr insert_reference) else chain_end m (Next a))"

text \<open>The loop writes to the new array of buckets and never reads the old one, which is gone after it.\<close>

fun rehash_loop :: "('k \<Rightarrow> nat) \<Rightarrow> nat list \<Rightarrow> ('k, 'v) node_map \<Rightarrow> ('k, 'v) node_map result option" where
  "rehash_loop hasher [] m = Some (Inr m)"
| "rehash_loop hasher (i # is) m =
     bindO (endO (map_write_ref m (Next i) NULL_VIRTUAL_ADDR)) (\<lambda>m.
     bindO (endO (map_node_at m i)) (\<lambda>n.
     bindO (chain_end m (Bucket (map_bucket_index m (hasher (first n))))) (\<lambda>insert_reference.
     bindO (endO (map_write_ref m insert_reference i)) (\<lambda>m.
       rehash_loop hasher is m))))"

definition rehash :: "('k \<Rightarrow> nat) \<Rightarrow> ('k, 'v) node_map \<Rightarrow> nat \<Rightarrow> ('k, 'v) node_map result option" where
  "rehash hasher m tentative_new_cap =
     (if tentative_new_cap \<le> length (map_bucket_vec m) then Some (Inr m)
      else
        bindO (endO (ceil2 tentative_new_cap)) (\<lambda>ceil2_cap.
          let new_bucket_cap = max MIN_CAP ceil2_cap
          in if new_bucket_cap > MAX_CAP then Some (Inl Length_error)
             else rehash_loop hasher [0..<length (virtual_storage_vec m)]
                    (m\<lparr>vec_capacity := max (vec_capacity m) (map_capacity_to_size new_bucket_cap),
                       map_bucket_vec := replicate new_bucket_cap NULL_VIRTUAL_ADDR\<rparr>)))"

definition map_reserve :: "('k \<Rightarrow> nat) \<Rightarrow> ('k, 'v) node_map \<Rightarrow> nat \<Rightarrow> ('k, 'v) node_map result option" where
  "map_reserve hasher m new_sz =
     (if new_sz \<le> length (virtual_storage_vec m) then Some (Inr m)
      else if new_sz > map_max_size then Some (Inl Length_error)
      else rehash hasher m (ceil_size_to_capacity new_sz))"

section \<open>Insertion\<close>

definition emplace_back :: "('k, 'v) node_map \<Rightarrow> ('k, 'v) map_node \<Rightarrow> ('k, 'v) node_map" where
  "emplace_back m n =
     m\<lparr>virtual_storage_vec := virtual_storage_vec m @ [n],
       vec_capacity := max (vec_capacity m) (length (virtual_storage_vec m) + 1)\<rparr>"

definition map_internal_insert ::
    "('k \<Rightarrow> nat) \<Rightarrow> ('k, 'v) node_map \<Rightarrow> ('k, 'v) map_node \<Rightarrow> ((nat \<times> bool) \<times> ('k, 'v) node_map) result option"
where
  "map_internal_insert hasher m value =
     bindO (if length (virtual_storage_vec m) = vec_capacity m then rehash hasher m (length (map_bucket_vec m) * 2)
            else Some (Inr m)) (\<lambda>m.
     bindO (map_bucket_reference hasher m (first value)) (\<lambda>insert_reference.
     bindO (endO (map_read_ref m insert_reference)) (\<lambda>a.
       if a = NULL_VIRTUAL_ADDR then
         bindO (endO (map_write_ref m insert_reference (length (virtual_storage_vec m)))) (\<lambda>m.
           Some (Inr ((length (virtual_storage_vec m), True), emplace_back m value)))
       else Some (Inr ((a, False), m)))))"

definition map_insert ::
    "('k \<Rightarrow> nat) \<Rightarrow> ('k, 'v) node_map \<Rightarrow> 'k \<times> 'v \<Rightarrow> ((nat \<times> bool) \<times> ('k, 'v) node_map) result option"
where
  "map_insert hasher m value =
     map_internal_insert hasher m \<lparr>first = fst value, second = snd value, map_nxt_addr = NULL_VIRTUAL_ADDR\<rparr>"

definition assign_second :: "('k, 'v) node_map \<Rightarrow> nat \<Rightarrow> 'v \<Rightarrow> ('k, 'v) node_map result" where
  "assign_second m i v =
     bindR (map_node_at m i) (\<lambda>n. Inr (m\<lparr>virtual_storage_vec := (virtual_storage_vec m)[i := n\<lparr>second := v\<rparr>]\<rparr>))"

definition map_insert_or_assign ::
    "('k \<Rightarrow> nat) \<Rightarrow> ('k, 'v) node_map \<Rightarrow> 'k \<Rightarrow> 'v \<Rightarrow> ((nat \<times> bool) \<times> ('k, 'v) node_map) result option"
where
  "map_insert_or_assign hasher m key mapped =
     bindO (map_insert hasher m (key, mapped)) (\<lambda>((it, status), m).
       if \<not> status then bindO (endO (assign_second m it mapped)) (\<lambda>m. Some (Inr ((it, status), m)))
       else Some (Inr ((it, status), m)))"

text \<open>\<open>operator[]\<close> gives a reference to the mapped value, here its index; \<open>blank\<close> is \<open>mapped_type{}\<close>.\<close>

definition map_subscript :: "'v \<Rightarrow> ('k \<Rightarrow> nat) \<Rightarrow> ('k, 'v) node_map \<Rightarrow> 'k \<Rightarrow> (nat \<times> ('k, 'v) node_map) result option" where
  "map_subscript blank hasher m key = bindO (map_insert hasher m (key, blank)) (\<lambda>((it, status), m). Some (Inr (it, m)))"

fun insert_each :: "('k \<Rightarrow> nat) \<Rightarrow> ('k, 'v) node_map \<Rightarrow> ('k \<times> 'v) list \<Rightarrow> ('k, 'v) node_map result option" where
  "insert_each hasher m [] = Some (Inr m)"
| "insert_each hasher m (x # xs) = bindO (map_insert hasher m x) (\<lambda>(_, m). insert_each hasher m xs)"

definition map_insert_range :: "('k \<Rightarrow> nat) \<Rightarrow> ('k, 'v) node_map \<Rightarrow> ('k \<times> 'v) list \<Rightarrow> ('k, 'v) node_map result option" where
  "map_insert_range hasher m xs =
     bindO (map_reserve hasher m (length (virtual_storage_vec m) + length xs)) (\<lambda>m. insert_each hasher m xs)"

section \<open>Erasure\<close>

definition map_pop_back :: "('k, 'v) node_map \<Rightarrow> ('k, 'v) node_map result" where
  "map_pop_back m =
     (if virtual_storage_vec m = [] then Inl Out_of_bounds else Inr (m\<lparr>virtual_storage_vec := butlast (virtual_storage_vec m)\<rparr>))"

definition map_back :: "('k, 'v) node_map \<Rightarrow> ('k, 'v) map_node result" where
  "map_back m = (if virtual_storage_vec m = [] then Inl Out_of_bounds else Inr (last (virtual_storage_vec m)))"

text \<open>
  The right side of the assignment through \<open>swapping_reference\<close> comes first. The last node is popped after \<open>dg_restrict_swap_for_destroy\<close>, so the
  exchange stores it at the place of the erased one.
\<close>

definition map_erase_key :: "('k \<Rightarrow> nat) \<Rightarrow> ('k, 'v) node_map \<Rightarrow> 'k \<Rightarrow> (bool \<times> ('k, 'v) node_map) result option" where
  "map_erase_key hasher m key =
     bindO (map_bucket_reference hasher m key) (\<lambda>key_reference.
     bindO (endO (map_read_ref m key_reference)) (\<lambda>a.
       if a = NULL_VIRTUAL_ADDR then Some (Inr (False, m))
       else
         bindO (endO (map_back m)) (\<lambda>back_node.
         bindO (map_bucket_reference hasher m (first back_node)) (\<lambda>swapping_reference.
         bindO (endO (map_node_at m a)) (\<lambda>n.
         bindO (if swapping_reference = key_reference then endO (map_write_ref m key_reference (map_nxt_addr n))
                else
                  let swapping_reference = (if swapping_reference = Next a then key_reference else swapping_reference)
                  in
                    bindO (endO (map_write_ref m key_reference (map_nxt_addr n))) (\<lambda>m1.
                    bindO (endO (map_write_ref m1 swapping_reference a)) (\<lambda>m2.
                    bindO (endO (map_read_ref m2 swapping_reference)) (\<lambda>i.
                    bindO (endO (map_back m2)) (\<lambda>back_node.
                      endO (Inr (m2\<lparr>virtual_storage_vec := (virtual_storage_vec m2)[i := back_node]\<rparr>)))))))
               (\<lambda>m. bindO (endO (map_pop_back m)) (\<lambda>m. Some (Inr (True, m)))))))))"

definition map_erase_iter :: "('k \<Rightarrow> nat) \<Rightarrow> ('k, 'v) node_map \<Rightarrow> nat \<Rightarrow> (nat \<times> ('k, 'v) node_map) result option" where
  "map_erase_iter hasher m it =
     (if it = length (virtual_storage_vec m) then Some (Inr (it, m))
      else bindO (endO (map_node_at m it)) (\<lambda>n. bindO (map_erase_key hasher m (first n)) (\<lambda>(_, m). Some (Inr (it, m)))))"

definition node_map_clear :: "('k, 'v) node_map \<Rightarrow> ('k, 'v) node_map" where
  "node_map_clear m =
     m\<lparr>virtual_storage_vec := [], map_bucket_vec := replicate (length (map_bucket_vec m)) NULL_VIRTUAL_ADDR\<rparr>"

section \<open>Comparison\<close>

fun equal_loop :: "('k \<Rightarrow> nat) \<Rightarrow> ('k, 'v) map_node list \<Rightarrow> ('k, 'v) node_map \<Rightarrow> bool result option" where
  "equal_loop hasher [] rhs = Some (Inr True)"
| "equal_loop hasher (n # ns) rhs =
     bindO (map_find hasher rhs (first n)) (\<lambda>i.
       if i = length (virtual_storage_vec rhs) then Some (Inr False)
       else bindO (endO (map_node_at rhs i)) (\<lambda>r.
         if second r \<noteq> second n then Some (Inr False) else equal_loop hasher ns rhs))"

definition map_equal :: "('k \<Rightarrow> nat) \<Rightarrow> ('k, 'v) node_map \<Rightarrow> ('k, 'v) node_map \<Rightarrow> bool result option" where
  "map_equal hasher lhs rhs =
     (if length (virtual_storage_vec lhs) \<noteq> length (virtual_storage_vec rhs) then Some (Inr False)
      else equal_loop hasher (virtual_storage_vec lhs) rhs)"

section \<open>The cells\<close>

definition map_cell :: "('k, 'v) node_map \<Rightarrow> reference \<Rightarrow> nat" where
  "map_cell m r = (case r of
     Bucket b \<Rightarrow> map_bucket_vec m ! b
   | Next v \<Rightarrow> if v < length (virtual_storage_vec m) then map_nxt_addr (virtual_storage_vec m ! v) else NULL_VIRTUAL_ADDR)"

fun valid_ref :: "('k, 'v) node_map \<Rightarrow> reference \<Rightarrow> bool" where
  "valid_ref m (Bucket b) \<longleftrightarrow> b < length (map_bucket_vec m)"
| "valid_ref m (Next v) \<longleftrightarrow> v < length (virtual_storage_vec m)"

fun map_put :: "('k, 'v) node_map \<Rightarrow> reference \<Rightarrow> nat \<Rightarrow> ('k, 'v) node_map" where
  "map_put m (Bucket b) a = m\<lparr>map_bucket_vec := (map_bucket_vec m)[b := a]\<rparr>"
| "map_put m (Next v) a =
     m\<lparr>virtual_storage_vec := (virtual_storage_vec m)[v := (virtual_storage_vec m ! v)\<lparr>map_nxt_addr := a\<rparr>]\<rparr>"

text \<open>The contents, in the order of the vector.\<close>

definition map_entries :: "('k, 'v) node_map \<Rightarrow> ('k \<times> 'v) list" where
  "map_entries m = map (\<lambda>n. (first n, second n)) (virtual_storage_vec m)"

definition map_keys :: "('k, 'v) node_map \<Rightarrow> 'k list" where
  "map_keys m = map first (virtual_storage_vec m)"

lemma length_map_entries [simp]:
  "length (map_entries m) = length (virtual_storage_vec m)" "length (map_keys m) = length (virtual_storage_vec m)"
  by (simp_all add: map_entries_def map_keys_def)

lemma fst_entries: "map fst (map_entries m) = map_keys m"
  by (simp add: map_entries_def map_keys_def comp_def)

lemma read_valid: "valid_ref m r \<Longrightarrow> map_read_ref m r = Inr (map_cell m r)"
  by (cases r) (simp_all add: map_cell_def map_node_at_def)

lemma write_valid: "valid_ref m r \<Longrightarrow> map_write_ref m r a = Inr (map_put m r a)"
  by (cases r) (simp_all add: map_node_at_def)

lemma map_node_at_valid: "v < length (virtual_storage_vec m) \<Longrightarrow> map_node_at m v = Inr (virtual_storage_vec m ! v)"
  by (simp add: map_node_at_def)

lemma map_put_cell: "valid_ref m r \<Longrightarrow> map_cell (map_put m r a) = (map_cell m)(r := a)"
  by (cases r; rule ext) (auto simp: map_cell_def nth_list_update split: reference.split)

lemma map_put_frame [simp]:
  "length (virtual_storage_vec (map_put m r a)) = length (virtual_storage_vec m)"
  "length (map_bucket_vec (map_put m r a)) = length (map_bucket_vec m)"
  "vec_capacity (map_put m r a) = vec_capacity m"
  "map_bucket_index (map_put m r a) h = map_bucket_index m h"
  "valid_ref (map_put m r a) r' = valid_ref m r'"
  by (cases r; cases r'; simp add: map_bucket_index_def)+

lemma map_put_contents [simp]:
  "map first (virtual_storage_vec (map_put m r a)) = map first (virtual_storage_vec m)"
  "map second (virtual_storage_vec (map_put m r a)) = map second (virtual_storage_vec m)"
  by (cases r; auto simp: map_update [symmetric] intro: list_update_same_conv [THEN iffD2]; simp add: map_update list_update_id)+

lemma map_put_entries [simp]:
  fixes m :: "('k, 'v) node_map"
  shows "map_entries (map_put m r a) = map_entries m" "map_keys (map_put m r a) = map_keys m"
proof -
  have "map_entries x = zip (map first (virtual_storage_vec x)) (map second (virtual_storage_vec x))" for x :: "('k, 'v) node_map"
    by (simp add: map_entries_def zip_map_map zip_same_conv_map)
  then show "map_entries (map_put m r a) = map_entries m" by simp
qed (simp add: map_keys_def)

lemma map_put_first [simp]:
  "v < length (virtual_storage_vec m) \<Longrightarrow> first (virtual_storage_vec (map_put m r a) ! v) = first (virtual_storage_vec m ! v)"
proof (cases r)
  case (Next w)
  assume "v < length (virtual_storage_vec m)"
  then show ?thesis using Next by (cases "w = v") simp_all
qed simp

declare map_put.simps [simp del]

section \<open>Invariant\<close>

text \<open>The bucket of the node at an index, and the chains of the first \<open>n\<close> nodes.\<close>

definition bucket_at :: "('k \<Rightarrow> nat) \<Rightarrow> ('k, 'v) node_map \<Rightarrow> nat \<Rightarrow> nat" where
  "bucket_at hasher m v = map_bucket_index m (hasher (first (virtual_storage_vec m ! v)))"

definition hashed :: "('k \<Rightarrow> nat) \<Rightarrow> ('k, 'v) node_map \<Rightarrow> nat \<Rightarrow> (nat \<Rightarrow> nat list) \<Rightarrow> bool" where
  "hashed hasher m n ch \<longleftrightarrow> n \<le> length (virtual_storage_vec m)
     \<and> chained (map_cell m) (bucket_at hasher m) {..<n} (length (map_bucket_vec m)) ch"

definition map_shape :: "('k, 'v) node_map \<Rightarrow> bool" where
  "map_shape m \<longleftrightarrow> (\<exists>k. 3 \<le> k \<and> k \<le> 50 \<and> length (map_bucket_vec m) = 2 ^ k)
     \<and> vec_capacity m = map_capacity_to_size (length (map_bucket_vec m)) \<and> length (virtual_storage_vec m) \<le> vec_capacity m"

definition node_map_ok :: "('k \<Rightarrow> nat) \<Rightarrow> ('k, 'v) node_map \<Rightarrow> bool" where
  "node_map_ok hasher m \<longleftrightarrow> map_shape m \<and> distinct (map_keys m) \<and> (\<exists>ch. hashed hasher m (length (virtual_storage_vec m)) ch)"

lemma map_shapeD:
  assumes "map_shape m"
  shows "8 \<le> length (map_bucket_vec m)" "length (map_bucket_vec m) \<le> MAX_CAP" "map_bucket_index m h < length (map_bucket_vec m)"
    "length (virtual_storage_vec m) \<le> map_max_size" "vec_capacity m = map_capacity_to_size (length (map_bucket_vec m))"
    "map_max_size < NULL_VIRTUAL_ADDR"
proof -
  obtain k where k: "3 \<le> k" "k \<le> 50" "length (map_bucket_vec m) = 2 ^ k" using assms by (auto simp: map_shape_def)
  have "(2 :: nat) ^ 3 \<le> 2 ^ k" "(2 :: nat) ^ k \<le> 2 ^ 50" using k(1,2) by (intro power_increasing; simp)+
  then show "8 \<le> length (map_bucket_vec m)" and max: "length (map_bucket_vec m) \<le> MAX_CAP"
    by (simp_all add: k(3) MAX_CAP_def)
  show "map_bucket_index m h < length (map_bucket_vec m)" by (simp add: map_bucket_index_def k(3) and_pow2_mask del: One_nat_def)
  have "map_capacity_to_size (length (map_bucket_vec m)) \<le> map_max_size"
    using max unfolding map_max_size_def map_capacity_to_size_def by (simp add: div_le_mono)
  then show "length (virtual_storage_vec m) \<le> map_max_size" using assms by (simp add: map_shape_def)
  show "vec_capacity m = map_capacity_to_size (length (map_bucket_vec m))" using assms by (simp add: map_shape_def)
  show "map_max_size < NULL_VIRTUAL_ADDR" by (simp add: map_max_size_def map_capacity_to_size_def MAX_CAP_def NULL_VIRTUAL_ADDR_def)
qed

lemma map_put_shape [simp]: "map_shape (map_put m r a) = map_shape m"
  by (simp add: map_shape_def)

lemma valid_behind:
  "b < length (map_bucket_vec m) \<Longrightarrow> set vs \<subseteq> {..<length (virtual_storage_vec m)} \<Longrightarrow> valid_ref m (behind (Bucket b) vs)"
  using behind_in [of "Bucket b" vs] by auto

lemma hashedD:
  assumes "hashed hasher m n ch" and "b < length (map_bucket_vec m)"
  shows "path (map_cell m) (Bucket b) (ch b)" "distinct (ch b)" "set (ch b) = {v. v < n \<and> bucket_at hasher m v = b}"
    "set (ch b) \<subseteq> {..<length (virtual_storage_vec m)}"
proof -
  have n: "n \<le> length (virtual_storage_vec m)"
    and chained: "chained (map_cell m) (bucket_at hasher m) {..<n} (length (map_bucket_vec m)) ch"
    using assms(1) by (simp_all add: hashed_def)
  note chain = chainedD [OF chained assms(2)]
  show "path (map_cell m) (Bucket b) (ch b)" "distinct (ch b)" by (rule chain)+
  show set: "set (ch b) = {v. v < n \<and> bucket_at hasher m v = b}" using chain(3) by simp
  show "set (ch b) \<subseteq> {..<length (virtual_storage_vec m)}"
  proof
    fix v
    assume "v \<in> set (ch b)"
    then show "v \<in> {..<length (virtual_storage_vec m)}" unfolding set using n by simp
  qed
qed

section \<open>Searching a chain\<close>

lemma map_find_loop_path:
  assumes "path (map_cell m) r vs" and "valid_ref m r" and "set vs \<subseteq> {..<length (virtual_storage_vec m)}"
  shows "map_find_loop m k r = Some (Inr (behind r (takeWhile (\<lambda>v. first (virtual_storage_vec m ! v) \<noteq> k) vs)))"
  using assms
proof (induction vs arbitrary: r)
  case Nil
  then show ?case by (subst map_find_loop.simps) (simp add: read_valid)
next
  case (Cons v vs)
  then have "map_find_loop m k (Next v) =
      Some (Inr (behind (Next v) (takeWhile (\<lambda>v. first (virtual_storage_vec m ! v) \<noteq> k) vs)))" by simp
  then show ?case using Cons.prems by (subst map_find_loop.simps) (auto simp: read_valid map_node_at_valid)
qed

lemma chain_end_path:
  assumes "path (map_cell m) r vs" and "valid_ref m r" and "set vs \<subseteq> {..<length (virtual_storage_vec m)}"
  shows "chain_end m r = Some (Inr (behind r vs))"
  using assms
proof (induction vs arbitrary: r)
  case Nil
  then show ?case by (subst chain_end.simps) (simp add: read_valid)
next
  case (Cons v vs)
  then have "chain_end m (Next v) = Some (Inr (behind (Next v) vs))" by simp
  then show ?case using Cons.prems by (subst chain_end.simps) (simp add: read_valid)
qed

lemma reference_absent:
  assumes "map_shape m" and "hashed hasher m (length (virtual_storage_vec m)) ch" and "k \<notin> set (map_keys m)"
  defines "b \<equiv> map_bucket_index m (hasher k)"
  shows "map_bucket_reference hasher m k = Some (Inr (behind (Bucket b) (ch b)))" "valid_ref m (behind (Bucket b) (ch b))"
    "map_cell m (behind (Bucket b) (ch b)) = NULL_VIRTUAL_ADDR"
proof -
  have b: "b < length (map_bucket_vec m)" unfolding b_def using map_shapeD(3) [OF assms(1)] .
  note chain = hashedD [OF assms(2) b]
  have all: "takeWhile (\<lambda>v. first (virtual_storage_vec m ! v) \<noteq> k) (ch b) = ch b"
    using assms(3) chain(4) by (intro takeWhile_eq_all_conv [THEN iffD2]) (auto simp: map_keys_def)
  have "valid_ref m (Bucket b)" using b by simp
  from map_find_loop_path [OF chain(1) this chain(4), of k]
  show "map_bucket_reference hasher m k = Some (Inr (behind (Bucket b) (ch b)))"
    unfolding all by (simp add: map_bucket_reference_def b_def)
  show "valid_ref m (behind (Bucket b) (ch b))" by (rule valid_behind [OF b chain(4)])
  show "map_cell m (behind (Bucket b) (ch b)) = NULL_VIRTUAL_ADDR"
    using path_cell [of "map_cell m" "Bucket b" "ch b" "[]"] chain(1) by simp
qed

lemma key_unique:
  assumes "distinct (map_keys m)" and "v < length (virtual_storage_vec m)" and "w < length (virtual_storage_vec m)"
    and "first (virtual_storage_vec m ! v) = first (virtual_storage_vec m ! w)"
  shows "v = w"
  using nth_eq_iff_index_eq [OF assms(1), of v w] assms(2-4) by (simp add: map_keys_def)

lemma reference_present:
  assumes "map_shape m" and "hashed hasher m (length (virtual_storage_vec m)) ch" and "distinct (map_keys m)"
    and "i < length (virtual_storage_vec m)"
  obtains pre post where "ch (bucket_at hasher m i) = pre @ i # post"
    and "map_bucket_reference hasher m (first (virtual_storage_vec m ! i)) = Some (Inr (behind (Bucket (bucket_at hasher m i)) pre))"
    and "valid_ref m (behind (Bucket (bucket_at hasher m i)) pre)" and "map_cell m (behind (Bucket (bucket_at hasher m i)) pre) = i"
proof -
  let ?b = "bucket_at hasher m i" and ?P = "\<lambda>v. first (virtual_storage_vec m ! v) \<noteq> first (virtual_storage_vec m ! i)"
  have b: "?b < length (map_bucket_vec m)" unfolding bucket_at_def using map_shapeD(3) [OF assms(1)] .
  note chain = hashedD [OF assms(2) b]
  have "i \<in> set (ch ?b)" using chain(3) assms(4) by simp
  then obtain pre post where split: "ch ?b = pre @ i # post" by (meson split_list)
  have "?P v" if "v \<in> set pre" for v
    using key_unique [OF assms(3) _ assms(4), of v] chain(2,4) that unfolding split by auto
  then have "takeWhile ?P (ch ?b) = pre" by (simp add: split takeWhile_append2)
  then have "map_bucket_reference hasher m (first (virtual_storage_vec m ! i)) = Some (Inr (behind (Bucket ?b) pre))"
    using map_find_loop_path [OF chain(1) _ chain(4), of "first (virtual_storage_vec m ! i)"] b
    by (simp add: map_bucket_reference_def bucket_at_def)
  moreover have "valid_ref m (behind (Bucket ?b) pre)" using chain(4) by (intro valid_behind [OF b]) (simp add: split)
  moreover have "map_cell m (behind (Bucket ?b) pre) = i"
    using path_cell [of "map_cell m" "Bucket ?b" pre "i # post"] chain(1) split by simp
  ultimately show thesis using split that by blast
qed

section \<open>Appending and rehashing\<close>

lemma bucket_at_put [simp]: "v < length (virtual_storage_vec m) \<Longrightarrow> bucket_at hasher (map_put m r a) v = bucket_at hasher m v"
  by (simp add: bucket_at_def)

lemma bucket_at_less: "map_shape m \<Longrightarrow> bucket_at hasher m v < length (map_bucket_vec m)"
  unfolding bucket_at_def by (rule map_shapeD(3))

lemma index_not_null: "map_shape m \<Longrightarrow> v \<le> length (virtual_storage_vec m) \<Longrightarrow> v < NULL_VIRTUAL_ADDR"
  using map_shapeD(4,6) [of m] by linarith

lemma hashed_append:
  assumes "map_shape m" and "hashed hasher m n ch" and "n < length (virtual_storage_vec m)" and "map_cell m (Next n) = NULL_VIRTUAL_ADDR"
  defines "b \<equiv> bucket_at hasher m n"
  shows "hashed hasher (map_put m (behind (Bucket b) (ch b)) n) (Suc n) (ch(b := ch b @ [n]))"
proof -
  have b: "b < length (map_bucket_vec m)" unfolding b_def using bucket_at_less [OF assms(1)] .
  let ?r = "behind (Bucket b) (ch b)"
  have valid: "valid_ref m ?r" by (rule valid_behind [OF b hashedD(4) [OF assms(2) b]])
  have "n \<noteq> NULL_VIRTUAL_ADDR" using index_not_null [OF assms(1), of n] assms(3) by simp
  then have "chained ((map_cell m)(?r := n)) (bucket_at hasher m) (insert n {..<n}) (length (map_bucket_vec m)) (ch(b := ch b @ [n]))"
    using chained_append [of "map_cell m" "bucket_at hasher m" "{..<n}" "length (map_bucket_vec m)" ch n] assms(2,4) b
    unfolding hashed_def b_def by simp
  then have "chained (map_cell (map_put m ?r n)) (bucket_at hasher (map_put m ?r n)) {..<Suc n} (length (map_bucket_vec m)) (ch(b := ch b @ [n]))"
    unfolding map_put_cell [OF valid] lessThan_Suc by (rule chained_cong) (use assms(3) in auto)
  then show ?thesis using assms(3) by (simp add: hashed_def)
qed

lemma hashed_forget_next:
  assumes "hashed hasher m n ch" and "n \<le> v" and "v < length (virtual_storage_vec m)"
  shows "hashed hasher (map_put m (Next v) a) n ch" and "map_cell (map_put m (Next v) a) (Next v) = a"
proof -
  have cell: "map_cell (map_put m (Next v) a) = (map_cell m)(Next v := a)" using assms(3) by (intro map_put_cell) simp
  show "map_cell (map_put m (Next v) a) (Next v) = a" unfolding cell by simp
  have "chained (map_cell m) (bucket_at hasher m) {..<n} (length (map_bucket_vec m)) ch" using assms(1) by (simp add: hashed_def)
  then have "chained (map_cell (map_put m (Next v) a)) (bucket_at hasher (map_put m (Next v) a)) {..<n} (length (map_bucket_vec m)) ch"
    unfolding cell by (rule chained_cong) (use assms(2,3) in auto)
  then show "hashed hasher (map_put m (Next v) a) n ch" using assms(1) by (simp add: hashed_def)
qed

text \<open>Nothing but the links and the buckets changes.\<close>

definition same_contents :: "('k, 'v) node_map \<Rightarrow> ('k, 'v) node_map \<Rightarrow> bool" where
  "same_contents m m' \<longleftrightarrow> map_entries m' = map_entries m \<and> length (map_bucket_vec m') = length (map_bucket_vec m)
     \<and> vec_capacity m' = vec_capacity m"

lemma same_contents_trans: "same_contents m m1 \<Longrightarrow> same_contents m1 m2 \<Longrightarrow> same_contents m m2"
  by (simp add: same_contents_def)

lemma same_contents_put: "same_contents m (map_put m r a)"
  by (simp add: same_contents_def)

lemma rehash_loop_ok:
  assumes "map_shape m" and "hashed hasher m n ch" and "n \<le> length (virtual_storage_vec m)"
  shows "\<exists>m' ch'. rehash_loop hasher [n..<length (virtual_storage_vec m)] m = Some (Inr m')
    \<and> same_contents m m' \<and> map_shape m' \<and> hashed hasher m' (length (virtual_storage_vec m)) ch'"
  using assms
proof (induction "length (virtual_storage_vec m) - n" arbitrary: n m ch)
  case 0
  then show ?case by (auto simp: same_contents_def)
next
  case (Suc d)
  let ?len = "length (virtual_storage_vec m)" and ?b = "bucket_at hasher m n" and ?m1 = "map_put m (Next n) NULL_VIRTUAL_ADDR"
  have n: "n < ?len" using Suc.hyps(2) by simp
  have m1: "map_write_ref m (Next n) NULL_VIRTUAL_ADDR = Inr ?m1" using n by (intro write_valid) simp
  have node: "map_node_at ?m1 n = Inr (virtual_storage_vec ?m1 ! n)" by (rule map_node_at_valid) (simp add: n)
  have b: "map_bucket_index ?m1 (hasher (first (virtual_storage_vec ?m1 ! n))) = ?b" using n by (simp add: bucket_at_def)
  have h1: "hashed hasher ?m1 n ch" "map_cell ?m1 (Next n) = NULL_VIRTUAL_ADDR" by (rule hashed_forget_next [OF Suc.prems(2) order_refl n])+
  have shape1: "map_shape ?m1" using Suc.prems(1) by simp
  have less: "?b < length (map_bucket_vec ?m1)" using bucket_at_less [OF Suc.prems(1)] by simp
  let ?r = "behind (Bucket ?b) (ch ?b)"
  note chain = hashedD [OF h1(1) less]
  have valid: "valid_ref ?m1 ?r" by (rule valid_behind [OF less chain(4)])
  have "valid_ref ?m1 (Bucket ?b)" using less by simp
  note walk = chain_end_path [OF chain(1) this chain(4)]
  let ?m2 = "map_put ?m1 ?r n"
  have h2: "hashed hasher ?m2 (Suc n) (ch(?b := ch ?b @ [n]))"
    using hashed_append [OF shape1 h1(1) _ h1(2)] n by simp
  have "d = length (virtual_storage_vec ?m2) - Suc n" using Suc.hyps(2) by simp
  then obtain m' ch' where m': "rehash_loop hasher [Suc n..<?len] ?m2 = Some (Inr m')" "same_contents ?m2 m'" "map_shape m'"
      "hashed hasher m' ?len ch'"
    using Suc.hyps(1) [OF _ _ h2] shape1 n by auto
  have "rehash_loop hasher [n..<?len] m = Some (Inr m')"
    using m1 node b walk write_valid [OF valid, of n] m'(1) n by (simp add: upt_conv_Cons del: map_write_ref.simps)
  moreover have "same_contents m m'" by (rule same_contents_trans [OF same_contents_trans [OF same_contents_put same_contents_put] m'(2)])
  ultimately show ?case using m'(3,4) by blast
qed

lemma same_contentsD:
  assumes "same_contents m m'"
  shows "map_entries m' = map_entries m" "map_keys m' = map_keys m" "length (virtual_storage_vec m') = length (virtual_storage_vec m)"
    "length (map_bucket_vec m') = length (map_bucket_vec m)" "vec_capacity m' = vec_capacity m"
proof -
  show entries: "map_entries m' = map_entries m" using assms by (simp add: same_contents_def)
  then show "map_keys m' = map_keys m" by (metis fst_entries)
  show "length (virtual_storage_vec m') = length (virtual_storage_vec m)" using arg_cong [OF entries, of length] by simp
qed (use assms in \<open>simp_all add: same_contents_def\<close>)

text \<open>An empty table of buckets, as after its allocation.\<close>

lemma hashed_empty: "hashed hasher (m\<lparr>vec_capacity := c, map_bucket_vec := replicate N NULL_VIRTUAL_ADDR\<rparr>) 0 (\<lambda>_. [])"
  by (simp add: hashed_def chained_def map_cell_def)

lemma power_cap:
  assumes "n \<le> MAX_CAP"
  shows "\<exists>k. 3 \<le> k \<and> k \<le> 50 \<and> max MIN_CAP (next_pow2 n) = 2 ^ k"
proof -
  obtain k where k: "next_pow2 n = 2 ^ k" using next_pow2_power by blast
  have "(2 :: nat) ^ k \<le> 2 ^ 50" using conjunct2 [OF next_pow2_least [of n], rule_format, of 50] assms k unfolding MAX_CAP_def by simp
  then have "k \<le> 50" by (rule power_le_imp_le_exp [rotated]) simp
  moreover have "max MIN_CAP (2 ^ k) = (2 :: nat) ^ max 3 k"
  proof (cases "k \<le> 3")
    case True
    then have "(2 :: nat) ^ k \<le> 2 ^ 3" by (rule power_increasing) simp
    then show ?thesis using True by (simp add: MIN_CAP_def max_def)
  next
    case False
    then have "(2 :: nat) ^ 3 \<le> 2 ^ k" by (intro power_increasing) simp_all
    then show ?thesis using False by (simp add: MIN_CAP_def max_def)
  qed
  ultimately show ?thesis using k by (intro exI [of _ "max 3 k"]) simp
qed

lemma rehash_ok:
  assumes ok: "node_map_ok hasher m" and "n \<le> MAX_CAP"
  obtains m' where "rehash hasher m n = Some (Inr m')" and "node_map_ok hasher m'" and "map_entries m' = map_entries m"
    and "n \<le> length (map_bucket_vec m')"
proof (cases "n \<le> length (map_bucket_vec m)")
  case True
  then show thesis using that [of m] ok by (simp add: rehash_def)
next
  case False
  let ?N = "max MIN_CAP (next_pow2 n)" and ?len = "length (virtual_storage_vec m)"
  obtain k where k: "3 \<le> k" "k \<le> 50" "?N = 2 ^ k" using power_cap [OF assms(2)] by blast
  have shape: "map_shape m" using ok by (simp add: node_map_ok_def)
  have grows: "length (map_bucket_vec m) \<le> ?N" "n \<le> ?N" using next_pow2_least [of n] False by linarith+
  then have cap: "vec_capacity m \<le> map_capacity_to_size ?N"
    unfolding map_shapeD(5) [OF shape] map_capacity_to_size_def by (simp add: div_le_mono del: max.bounded_iff)
  let ?m0 = "m\<lparr>vec_capacity := max (vec_capacity m) (map_capacity_to_size ?N), map_bucket_vec := replicate ?N NULL_VIRTUAL_ADDR\<rparr>"
  have "map_shape ?m0" using k cap shape by (auto simp: map_shape_def max_absorb2)
  then obtain m' ch' where m': "rehash_loop hasher [0..<?len] ?m0 = Some (Inr m')" "same_contents ?m0 m'" "map_shape m'" "hashed hasher m' ?len ch'"
    using rehash_loop_ok [OF _ hashed_empty] by fastforce
  have in_range: "n \<le> 2 ^ 63" using assms(2) by (simp add: MAX_CAP_def)
  have "\<not> ?N > MAX_CAP" using k(2,3) power_increasing [of k 50 "2 :: nat"] by (simp add: MAX_CAP_def del: max.bounded_iff max_less_iff_conj)
  then have "rehash hasher m n = Some (Inr m')"
    using m'(1) False in_range by (simp add: rehash_def ceil2_eq Let_def del: max_less_iff_conj)
  moreover have "map_entries m' = map_entries m" "length (map_bucket_vec m') = ?N"
    using same_contentsD(1,4) [OF m'(2)] by (simp_all add: map_entries_def)
  moreover have "map_keys m' = map_keys m" using \<open>map_entries m' = map_entries m\<close> by (metis fst_entries)
  moreover have "node_map_ok hasher m'"
    using m'(3,4) ok same_contentsD(3) [OF m'(2)] \<open>map_keys m' = map_keys m\<close> by (auto simp: node_map_ok_def)
  ultimately show thesis using that grows(2) by simp
qed

lemma rehash_too_big:
  assumes "node_map_ok hasher m" and "MAX_CAP < n" and "n \<le> 2 ^ 63"
  shows "rehash hasher m n = Some (Inl Length_error)"
proof -
  have "length (map_bucket_vec m) \<le> MAX_CAP" using assms(1) map_shapeD(2) [of m] by (simp add: node_map_ok_def)
  moreover have "MAX_CAP < max MIN_CAP (next_pow2 n)"
    unfolding less_max_iff_disj using conjunct1 [OF next_pow2_least [of n]] assms(2) by linarith
  ultimately show ?thesis using assms(2,3) by (simp add: rehash_def ceil2_eq)
qed

text \<open>Beyond half of the address space the argument is not compared with the maximal capacity: the shift of \<open>ceil2\<close> comes first.\<close>

lemma rehash_bad_shift:
  assumes "node_map_ok hasher m" and "2 ^ 63 < n"
  shows "rehash hasher m n = Some (Inl Bad_shift)"
proof -
  have "length (map_bucket_vec m) \<le> MAX_CAP" using assms(1) map_shapeD(2) [of m] by (simp add: node_map_ok_def)
  then have "\<not> n \<le> length (map_bucket_vec m)" using assms(2) by (simp add: MAX_CAP_def)
  then show ?thesis using assms(2) by (simp add: rehash_def ceil2_eq)
qed

text \<open>A capacity that is enough for a size.\<close>

lemma ceil_capacity: "sz \<le> map_max_size \<Longrightarrow> ceil_size_to_capacity sz \<le> MAX_CAP"
proof -
  assume "sz \<le> map_max_size"
  then have "sz * 8 - 1 < 7 * 2 ^ 50" by (simp add: map_max_size_def map_capacity_to_size_def MAX_CAP_def)
  then have "(sz * 8 - 1) div 7 < 2 ^ 50" by (simp add: less_mult_imp_div_less)
  then show ?thesis by (simp add: ceil_size_to_capacity_def MAX_CAP_def)
qed

lemma capacity_enough:
  assumes "map_shape m" and "ceil_size_to_capacity sz \<le> length (map_bucket_vec m)"
  shows "sz \<le> vec_capacity m"
proof -
  obtain k where k: "3 \<le> k" "length (map_bucket_vec m) = 2 ^ k" using assms(1) by (auto simp: map_shape_def)
  obtain j where "k = 3 + j" using k(1) le_Suc_ex by blast
  then have N: "length (map_bucket_vec m) = 8 * 2 ^ j" using k(2) by (simp add: power_add)
  then have cap: "vec_capacity m = 2 ^ j * 7" by (simp add: map_shapeD(5) [OF assms(1)] map_capacity_to_size_def)
  show ?thesis
  proof (cases "sz = 0")
    case False
    then have "(sz * 8 - 1) div 7 + 1 \<le> 8 * 2 ^ j" using assms(2) N by (simp add: ceil_size_to_capacity_def)
    moreover have "sz * 8 - 1 = (sz * 8 - 1) div 7 * 7 + (sz * 8 - 1) mod 7" "(sz * 8 - 1) mod 7 < 7" by simp_all
    ultimately have "sz * 8 - 1 < 8 * 2 ^ j * 7" by linarith
    then show ?thesis using cap by linarith
  qed simp
qed

lemma reserve_ok:
  assumes ok: "node_map_ok hasher m" and "n \<le> map_max_size"
  obtains m' where "map_reserve hasher m n = Some (Inr m')" and "node_map_ok hasher m'" and "map_entries m' = map_entries m"
    and "n \<le> vec_capacity m'"
proof (cases "n \<le> length (virtual_storage_vec m)")
  case True
  then have "n \<le> vec_capacity m" using ok by (simp add: node_map_ok_def map_shape_def)
  then show thesis using that [of m] ok True by (simp add: map_reserve_def)
next
  case False
  obtain m' where m': "rehash hasher m (ceil_size_to_capacity n) = Some (Inr m')" "node_map_ok hasher m'"
      "map_entries m' = map_entries m" "ceil_size_to_capacity n \<le> length (map_bucket_vec m')"
    by (rule rehash_ok [OF ok ceil_capacity [OF assms(2)]])
  moreover have "map_reserve hasher m n = Some (Inr m')" using m'(1) False assms(2) by (simp add: map_reserve_def)
  moreover have "n \<le> vec_capacity m'" using capacity_enough [OF _ m'(4)] m'(2) by (simp add: node_map_ok_def)
  ultimately show thesis using that by blast
qed

lemma reserve_too_big:
  assumes "node_map_ok hasher m" and "map_max_size < n"
  shows "map_reserve hasher m n = Some (Inl Length_error)"
proof -
  have "length (virtual_storage_vec m) \<le> map_max_size" using assms(1) map_shapeD(4) [of m] by (simp add: node_map_ok_def)
  then show ?thesis using assms(2) by (simp add: map_reserve_def)
qed

section \<open>Insertion\<close>

lemma emplace_put: "valid_ref m r \<Longrightarrow> emplace_back (map_put m r a) n = map_put (emplace_back m n) r a"
  by (cases r) (simp_all add: emplace_back_def map_put.simps list_update_append nth_append)

lemma emplace_back_ok:
  assumes "map_shape m" and "hashed hasher m (length (virtual_storage_vec m)) ch" and "length (virtual_storage_vec m) < vec_capacity m"
    and "map_nxt_addr n = NULL_VIRTUAL_ADDR"
  shows "map_shape (emplace_back m n)" "hashed hasher (emplace_back m n) (length (virtual_storage_vec m)) ch"
    "map_cell (emplace_back m n) (Next (length (virtual_storage_vec m))) = NULL_VIRTUAL_ADDR"
proof -
  show "map_shape (emplace_back m n)" using assms(1,3) by (simp add: map_shape_def emplace_back_def)
  show "map_cell (emplace_back m n) (Next (length (virtual_storage_vec m))) = NULL_VIRTUAL_ADDR"
    using assms(4) by (simp add: map_cell_def emplace_back_def)
  have "chained (map_cell m) (bucket_at hasher m) {..<length (virtual_storage_vec m)} (length (map_bucket_vec m)) ch"
    using assms(2) by (simp add: hashed_def)
  then have "chained (map_cell (emplace_back m n)) (bucket_at hasher (emplace_back m n)) {..<length (virtual_storage_vec m)} (length (map_bucket_vec m)) ch"
    by (rule chained_cong) (auto simp: map_cell_def emplace_back_def bucket_at_def map_bucket_index_def nth_append)
  then show "hashed hasher (emplace_back m n) (length (virtual_storage_vec m)) ch" by (simp add: hashed_def emplace_back_def)
qed

lemma make_room:
  assumes ok: "node_map_ok hasher m" and "length (virtual_storage_vec m) < map_max_size"
  obtains m' where "(if length (virtual_storage_vec m) = vec_capacity m then rehash hasher m (length (map_bucket_vec m) * 2)
      else Some (Inr m)) = Some (Inr m')"
    and "node_map_ok hasher m'" and "map_entries m' = map_entries m" and "length (virtual_storage_vec m') < vec_capacity m'"
proof (cases "length (virtual_storage_vec m) = vec_capacity m")
  case False
  then show thesis using that [of m] ok by (simp add: node_map_ok_def map_shape_def)
next
  case True
  let ?N = "length (map_bucket_vec m)"
  have shape: "map_shape m" using ok by (simp add: node_map_ok_def)
  then obtain k where k: "k \<le> 50" "?N = 2 ^ k" by (auto simp: map_shape_def)
  have "k \<noteq> 50" using assms(2) True k(2) by (auto simp: map_shapeD(5) [OF shape] map_max_size_def MAX_CAP_def)
  then have "(2 :: nat) ^ Suc k \<le> 2 ^ 50" using k(1) by (intro power_increasing) simp_all
  then have "?N * 2 \<le> MAX_CAP" using k(2) by (simp add: MAX_CAP_def)
  then obtain m' where m': "rehash hasher m (?N * 2) = Some (Inr m')" "node_map_ok hasher m'" "map_entries m' = map_entries m"
      "?N * 2 \<le> length (map_bucket_vec m')"
    by (rule rehash_ok [OF ok])
  have shape': "map_shape m'" using m'(2) by (simp add: node_map_ok_def)
  have "?N div 8 < length (map_bucket_vec m') div 8" using m'(4) map_shapeD(1) [OF shape] by linarith
  then have "vec_capacity m < vec_capacity m'"
    by (simp add: map_shapeD(5) [OF shape] map_shapeD(5) [OF shape'] map_capacity_to_size_def)
  moreover have "length (virtual_storage_vec m') = length (virtual_storage_vec m)" using arg_cong [OF m'(3), of length] by simp
  ultimately show thesis using that [of m'] m'(1-3) True by simp
qed

lemma node_map_okE:
  assumes "node_map_ok hasher m"
  obtains ch where "map_shape m" and "distinct (map_keys m)" and "hashed hasher m (length (virtual_storage_vec m)) ch"
  using assms by (auto simp: node_map_ok_def)

lemma entries_keys: "map_entries m' = map_entries m \<Longrightarrow> map_keys m' = map_keys m"
  by (metis fst_entries)

lemma key_position:
  assumes "k \<in> set (map_keys m)"
  shows "index_of (map_keys m) k < length (virtual_storage_vec m)" "first (virtual_storage_vec m ! index_of (map_keys m) k) = k"
proof -
  note present = index_of_present [OF assms]
  then show "index_of (map_keys m) k < length (virtual_storage_vec m)" by simp
  then show "first (virtual_storage_vec m ! index_of (map_keys m) k) = k"
    using conjunct2 [OF present] by (metis map_keys_def nth_map)
qed

lemma map_insert_present:
  assumes ok: "node_map_ok hasher m" and "length (virtual_storage_vec m) < map_max_size" and "k \<in> set (map_keys m)"
  obtains m' where "map_insert hasher m (k, v) = Some (Inr ((index_of (map_keys m) k, False), m'))"
    and "node_map_ok hasher m'" and "map_entries m' = map_entries m"
proof -
  obtain m' where m': "(if length (virtual_storage_vec m) = vec_capacity m then rehash hasher m (length (map_bucket_vec m) * 2)
      else Some (Inr m)) = Some (Inr m')" "node_map_ok hasher m'" "map_entries m' = map_entries m"
    by (rule make_room [OF ok assms(2)])
  obtain ch where ch: "map_shape m'" "distinct (map_keys m')" "hashed hasher m' (length (virtual_storage_vec m')) ch"
    by (rule node_map_okE [OF m'(2)])
  let ?i = "index_of (map_keys m) k"
  have keys: "map_keys m' = map_keys m" using m'(3) by (rule entries_keys)
  have i: "?i < length (virtual_storage_vec m')" "first (virtual_storage_vec m' ! ?i) = k"
    using key_position [of k m'] assms(3) unfolding keys by simp_all
  obtain pre post where r: "map_bucket_reference hasher m' k = Some (Inr (behind (Bucket (bucket_at hasher m' ?i)) pre))"
      "valid_ref m' (behind (Bucket (bucket_at hasher m' ?i)) pre)" "map_cell m' (behind (Bucket (bucket_at hasher m' ?i)) pre) = ?i"
    using reference_present [OF ch(1,3,2) i(1)] i(2) by metis
  have "?i \<noteq> NULL_VIRTUAL_ADDR" using index_not_null [OF ch(1), of ?i] i(1) by simp
  then have "map_insert hasher m (k, v) = Some (Inr ((?i, False), m'))"
    unfolding map_insert_def map_internal_insert_def m'(1) using r by (simp add: read_valid)
  then show thesis using that m' by blast
qed

lemma map_insert_absent:
  assumes ok: "node_map_ok hasher m" and "length (virtual_storage_vec m) < map_max_size" and "k \<notin> set (map_keys m)"
  obtains m' where "map_insert hasher m (k, v) = Some (Inr ((length (map_keys m), True), m'))"
    and "node_map_ok hasher m'" and "map_entries m' = map_entries m @ [(k, v)]"
proof -
  obtain m1 where m1: "(if length (virtual_storage_vec m) = vec_capacity m then rehash hasher m (length (map_bucket_vec m) * 2)
      else Some (Inr m)) = Some (Inr m1)" "node_map_ok hasher m1" "map_entries m1 = map_entries m"
      "length (virtual_storage_vec m1) < vec_capacity m1"
    by (rule make_room [OF ok assms(2)])
  obtain ch where ch: "map_shape m1" "distinct (map_keys m1)" "hashed hasher m1 (length (virtual_storage_vec m1)) ch"
    by (rule node_map_okE [OF m1(2)])
  let ?len = "length (virtual_storage_vec m1)" and ?n = "\<lparr>first = k, second = v, map_nxt_addr = NULL_VIRTUAL_ADDR\<rparr>"
  let ?b = "map_bucket_index m1 (hasher k)" and ?m2 = "emplace_back m1 \<lparr>first = k, second = v, map_nxt_addr = NULL_VIRTUAL_ADDR\<rparr>"
  have keys: "map_keys m1 = map_keys m" using m1(3) by (rule entries_keys)
  note r = reference_absent [OF ch(1,3), of k, unfolded keys, OF assms(3)]
  let ?r = "behind (Bucket ?b) (ch ?b)"
  have m2: "map_shape ?m2" "hashed hasher ?m2 ?len ch" "map_cell ?m2 (Next ?len) = NULL_VIRTUAL_ADDR"
    by (rule emplace_back_ok [OF ch(1,3) m1(4)], simp)+
  have "bucket_at hasher ?m2 ?len = ?b" by (simp add: bucket_at_def emplace_back_def map_bucket_index_def)
  moreover have len2: "length (virtual_storage_vec ?m2) = Suc ?len" by (simp add: emplace_back_def)
  ultimately have h: "hashed hasher (map_put ?m2 ?r ?len) (Suc ?len) (ch(?b := ch ?b @ [?len]))"
    using hashed_append [OF m2(1,2) _ m2(3)] by simp
  have entries: "map_entries ?m2 = map_entries m @ [(k, v)]" using m1(3) by (simp add: emplace_back_def map_entries_def)
  have "map_keys ?m2 = map_keys m @ [k]" using keys by (simp add: emplace_back_def map_keys_def)
  then have "distinct (map_keys ?m2)" using ch(2) keys assms(3) by simp
  then have "node_map_ok hasher (map_put ?m2 ?r ?len)" using m2(1) h len2 by (auto simp: node_map_ok_def)
  moreover have "map_insert hasher m (k, v) = Some (Inr ((length (map_keys m), True), map_put ?m2 ?r ?len))"
    unfolding map_insert_def map_internal_insert_def m1(1)
    using r emplace_put [OF r(2), of ?len ?n] keys [symmetric] by (simp add: read_valid write_valid)
  moreover have "map_entries (map_put ?m2 ?r ?len) = map_entries m @ [(k, v)]" using entries by simp
  ultimately show thesis using that by blast
qed

lemma map_insert_full:
  assumes ok: "node_map_ok hasher m" and "length (virtual_storage_vec m) = map_max_size"
  shows "map_insert hasher m x = Some (Inl Length_error)"
proof -
  obtain ch where shape: "map_shape m" by (rule node_map_okE [OF ok])
  then obtain k where k: "3 \<le> k" "k \<le> 50" "length (map_bucket_vec m) = 2 ^ k" by (auto simp: map_shape_def)
  have le: "map_max_size \<le> vec_capacity m" using shape assms(2) by (simp add: map_shape_def)
  have "k = 50"
  proof (rule ccontr)
    assume "k \<noteq> 50"
    then have "(2 :: nat) ^ k \<le> 2 ^ 49" using k(2) by (intro power_increasing) simp_all
    then have "vec_capacity m \<le> 2 ^ 49 div 8 * 7" unfolding map_shapeD(5) [OF shape] map_capacity_to_size_def k(3)
      by (simp add: div_le_mono)
    then show False using le by (simp add: map_max_size_def map_capacity_to_size_def MAX_CAP_def)
  qed
  then have "MAX_CAP < length (map_bucket_vec m) * 2" using k(3) by (simp add: MAX_CAP_def)
  moreover have "length (virtual_storage_vec m) = vec_capacity m"
    using \<open>k = 50\<close> k(3) assms(2) by (simp add: map_shapeD(5) [OF shape] map_max_size_def MAX_CAP_def)
  moreover have "length (map_bucket_vec m) * 2 \<le> 2 ^ 63" using \<open>k = 50\<close> k(3) by simp
  ultimately show ?thesis using rehash_too_big [OF ok] by (simp add: map_insert_def map_internal_insert_def)
qed

section \<open>Erasure\<close>

text \<open>The last entry takes the place of the erased one.\<close>

definition drop_key :: "('k \<times> 'v) list \<Rightarrow> 'k \<Rightarrow> ('k \<times> 'v) list" where
  "drop_key es k = butlast (es[index_of (map fst es) k := last es])"

lemma erase_absent_key:
  assumes ok: "node_map_ok hasher m" and "k \<notin> set (map_keys m)"
  shows "map_erase_key hasher m k = Some (Inr (False, m))"
proof -
  obtain ch where ch: "map_shape m" "hashed hasher m (length (virtual_storage_vec m)) ch" by (rule node_map_okE [OF ok])
  from reference_absent [OF ch assms(2)] show ?thesis by (simp add: map_erase_key_def read_valid)
qed

lemma pop_hashed:
  assumes "map_shape m" and "chained (map_cell m) (bucket_at hasher m) {..<l} (length (map_bucket_vec m)) ch"
    and "length (virtual_storage_vec m) = Suc l" and "distinct (butlast (map_keys m))"
  obtains m' where "map_pop_back m = Inr m'" and "node_map_ok hasher m'" and "map_entries m' = butlast (map_entries m)"
proof -
  let ?m = "m\<lparr>virtual_storage_vec := butlast (virtual_storage_vec m)\<rparr>"
  have "virtual_storage_vec m \<noteq> []" using assms(3) by auto
  then have "map_pop_back m = Inr ?m" by (simp add: map_pop_back_def)
  moreover have "chained (map_cell ?m) (bucket_at hasher ?m) {..<l} (length (map_bucket_vec m)) ch"
    using assms(2) by (rule chained_cong) (use assms(3) in \<open>auto simp: map_cell_def bucket_at_def map_bucket_index_def nth_butlast\<close>)
  then have "hashed hasher ?m (length (virtual_storage_vec ?m)) ch" using assms(3) by (simp add: hashed_def)
  moreover have "map_shape ?m" using assms(1,3) by (auto simp: map_shape_def)
  moreover have "distinct (map_keys ?m)" using assms(4) by (simp add: map_keys_def map_butlast)
  ultimately show thesis using that [of ?m] by (auto simp: node_map_ok_def map_entries_def map_butlast)
qed

lemma back_last: "length (virtual_storage_vec m) = Suc l \<Longrightarrow> map_back m = Inr (virtual_storage_vec m ! l)"
  by (cases "virtual_storage_vec m = []") (simp_all add: map_back_def last_conv_nth)

lemma update_last: "length xs = Suc l \<Longrightarrow> xs[l := last xs] = xs"
  by (cases "xs = []") (simp_all add: last_conv_nth list_update_same_conv)

text \<open>The effect of the exchange that stores the last node at an index.\<close>

definition move_last :: "('k, 'v) node_map \<Rightarrow> nat \<Rightarrow> ('k, 'v) node_map" where
  "move_last m i = m\<lparr>virtual_storage_vec := (virtual_storage_vec m)[i := last (virtual_storage_vec m)]\<rparr>"

lemma move_last_frame [simp]:
  "length (virtual_storage_vec (move_last m i)) = length (virtual_storage_vec m)" "map_bucket_vec (move_last m i) = map_bucket_vec m"
  "vec_capacity (move_last m i) = vec_capacity m" "map_shape (move_last m i) = map_shape m"
  by (simp_all add: move_last_def map_shape_def)

lemma move_last_contents:
  assumes "length (virtual_storage_vec m) = Suc l"
  shows "map_entries (move_last m i) = (map_entries m)[i := last (map_entries m)]"
    "map_keys (move_last m i) = (map_keys m)[i := last (map_keys m)]"
proof -
  have "virtual_storage_vec m \<noteq> []" using assms by auto
  then show "map_entries (move_last m i) = (map_entries m)[i := last (map_entries m)]"
    "map_keys (move_last m i) = (map_keys m)[i := last (map_keys m)]"
    by (simp_all add: move_last_def map_entries_def map_keys_def map_update last_map)
qed

lemma move_last_cells:
  assumes "length (virtual_storage_vec m) = Suc l" and "i < Suc l"
  shows "map_cell (move_last m i) = (map_cell m)(Next i := map_cell m (Next l))"
    and "v < Suc l \<Longrightarrow> bucket_at hasher (move_last m i) v = ((bucket_at hasher m)(i := bucket_at hasher m l)) v"
proof -
  have last: "last (virtual_storage_vec m) = virtual_storage_vec m ! l"
    using assms(1) by (subst last_conv_nth) auto
  show "map_cell (move_last m i) = (map_cell m)(Next i := map_cell m (Next l))"
    by (rule ext) (use assms in \<open>auto simp: map_cell_def move_last_def last nth_list_update split: reference.split\<close>)
  show "v < Suc l \<Longrightarrow> bucket_at hasher (move_last m i) v = ((bucket_at hasher m)(i := bucket_at hasher m l)) v"
    using assms by (simp add: bucket_at_def move_last_def last map_bucket_index_def)
qed

lemma distinct_drop: "distinct xs \<Longrightarrow> i < length xs \<Longrightarrow> distinct (butlast (xs[i := last xs]))"
proof (cases xs rule: rev_cases)
  case (snoc ys y)
  assume "distinct xs" "i < length xs"
  then show ?thesis using snoc by (cases "i = length ys") (auto simp: list_update_append butlast_append distinct_list_update)
qed simp

lemma erase_moves:
  assumes "map_bucket_reference hasher m k = Some (Inr kr)" and "map_read_ref m kr = Inr i" and "i \<noteq> NULL_VIRTUAL_ADDR"
    and "map_back m = Inr b" and "map_bucket_reference hasher m (first b) = Some (Inr sr)" and "map_node_at m i = Inr n"
    and "sr \<noteq> kr" and "sr2 = (if sr = Next i then kr else sr)"
    and "map_write_ref m kr (map_nxt_addr n) = Inr m1" and "map_write_ref m1 sr2 i = Inr m2" and "map_read_ref m2 sr2 = Inr i"
    and "map_back m2 = Inr b2" and "map_pop_back (m2\<lparr>virtual_storage_vec := (virtual_storage_vec m2)[i := b2]\<rparr>) = Inr m'"
  shows "map_erase_key hasher m k = Some (Inr (True, m'))"
  using assms by (simp add: map_erase_key_def Let_def)

lemma erase_present_key:
  assumes ok: "node_map_ok hasher m" and "k \<in> set (map_keys m)"
  obtains m' where "map_erase_key hasher m k = Some (Inr (True, m'))" and "node_map_ok hasher m'"
    and "map_entries m' = drop_key (map_entries m) k"
proof -
  obtain ch where ch: "map_shape m" "distinct (map_keys m)" "hashed hasher m (length (virtual_storage_vec m)) ch"
    by (rule node_map_okE [OF ok])
  let ?vec = "virtual_storage_vec m" and ?i = "index_of (map_keys m) k" and ?bk = "bucket_at hasher m"
  obtain l where l: "length ?vec = Suc l" using key_position(1) [OF assms(2)] by (cases "length ?vec") auto
  note i = key_position [OF assms(2)]
  have chained: "chained (map_cell m) ?bk {..<Suc l} (length (map_bucket_vec m)) ch" using ch(3) l by (simp add: hashed_def)
  obtain pre post where pre: "ch (?bk ?i) = pre @ ?i # post"
      "map_bucket_reference hasher m k = Some (Inr (behind (Bucket (?bk ?i)) pre))"
      "valid_ref m (behind (Bucket (?bk ?i)) pre)" "map_cell m (behind (Bucket (?bk ?i)) pre) = ?i"
    using reference_present [OF ch(1,3,2) i(1)] i(2) by metis
  obtain p q where p: "ch (?bk l) = p @ l # q"
      "map_bucket_reference hasher m (first (?vec ! l)) = Some (Inr (behind (Bucket (?bk l)) p))"
      "map_cell m (behind (Bucket (?bk l)) p) = l"
    using reference_present [OF ch(1,3,2), of l] l by (metis lessI)
  let ?kr = "behind (Bucket (?bk ?i)) pre" and ?sr = "behind (Bucket (?bk l)) p"
  have not_null: "?i \<noteq> NULL_VIRTUAL_ADDR" using index_not_null [OF ch(1), of ?i] i(1) by simp
  let ?m1 = "map_put m ?kr (map_cell m (Next ?i))"
  have nxt: "map_nxt_addr (?vec ! ?i) = map_cell m (Next ?i)" using i(1) by (simp add: map_cell_def)
  note start = pre(2) read_valid [OF pre(3)] pre(4) not_null back_last [OF l] p(2) map_node_at_valid [OF i(1)] nxt
  have drop: "distinct (butlast ((map_keys m)[?i := last (map_keys m)]))"
    by (rule distinct_drop [OF ch(2)]) (use i(1) in simp)
  show thesis
  proof (cases "?i = l")
    case True
    have "?sr = ?kr" using p(1) pre(1) p(2) pre(2) i(2) True by simp
    have "chained (map_cell ?m1) ?bk ({..<Suc l} - {?i}) (length (map_bucket_vec m)) (ch(?bk ?i := pre @ post))"
      unfolding map_put_cell [OF pre(3)] by (rule chained_remove [OF chained bucket_at_less [OF ch(1)] pre(1)])
    moreover have "{..<Suc l} - {?i} = {..<l}" using True by auto
    ultimately have "chained (map_cell ?m1) (bucket_at hasher ?m1) {..<l} (length (map_bucket_vec ?m1)) (ch(?bk ?i := pre @ post))"
      by (simp, elim chained_cong) (use l in auto)
    moreover have "(map_keys m)[l := last (map_keys m)] = map_keys m"
      using l by (intro update_last) simp
    then have "distinct (butlast (map_keys ?m1))" using drop True by simp
    ultimately obtain m' where m': "map_pop_back ?m1 = Inr m'" "node_map_ok hasher m'" "map_entries m' = butlast (map_entries ?m1)"
      using pop_hashed [of ?m1 hasher l] ch(1) l by auto
    have "map_erase_key hasher m k = Some (Inr (True, m'))"
      unfolding map_erase_key_def using start \<open>?sr = ?kr\<close> m'(1) by (simp add: write_valid [OF pre(3)])
    moreover have "(map_entries m)[l := last (map_entries m)] = map_entries m"
      using l by (intro update_last) simp
    then have "map_entries m' = drop_key (map_entries m) k" using m'(3) True by (simp add: drop_key_def fst_entries)
    ultimately show thesis using that m'(2) by blast
  next
    case False
    then have l_i: "l \<noteq> ?i" by simp
    let ?sr2 = "if ?sr = Next ?i then ?kr else ?sr"
    let ?m2 = "map_put ?m1 ?sr2 ?i"
    obtain ch' p' where ch': "chained ((map_cell m)(?kr := map_cell m (Next ?i), ?sr2 := ?i,
          Next ?i := ((map_cell m)(?kr := map_cell m (Next ?i), ?sr2 := ?i)) (Next l)))
        (?bk(?i := ?bk l)) (insert ?i ({..<Suc l} - {?i} - {l})) (length (map_bucket_vec m)) ch'"
        "?sr2 = behind (Bucket (?bk l)) p'" "set p' \<subseteq> {..<Suc l}" "?sr \<noteq> ?kr"
      by (rule chained_replace [OF chained bucket_at_less [OF ch(1)] pre(1) bucket_at_less [OF ch(1)] p(1) l_i not_null])
    have valid: "valid_ref ?m1 ?sr2" unfolding ch'(2) by (rule valid_behind) (use ch'(3) l bucket_at_less [OF ch(1)] in simp_all)
    have cell2: "map_cell ?m2 = (map_cell m)(?kr := map_cell m (Next ?i), ?sr2 := ?i)"
      using map_put_cell [OF valid] map_put_cell [OF pre(3)] by metis
    have len2: "length (virtual_storage_vec ?m2) = Suc l" and i_l: "?i < Suc l" using l i(1) by simp_all
    note move = move_last_cells [OF len2 i_l]
    have "insert ?i ({..<Suc l} - {?i} - {l}) = {..<l}" using i_l l_i by auto
    then have "chained (map_cell (move_last ?m2 ?i)) (?bk(?i := ?bk l)) {..<l} (length (map_bucket_vec m)) ch'"
      using ch'(1) unfolding move(1) cell2 by simp
    then have hashed: "chained (map_cell (move_last ?m2 ?i)) (bucket_at hasher (move_last ?m2 ?i)) {..<l} (length (map_bucket_vec (move_last ?m2 ?i))) ch'"
      unfolding move_last_frame(2) map_put_frame(2) by (rule chained_cong) (use move(2) l in auto)
    have "distinct (butlast (map_keys (move_last ?m2 ?i)))" using drop by (simp add: move_last_contents [OF len2])
    then obtain m' where m': "map_pop_back (move_last ?m2 ?i) = Inr m'" "node_map_ok hasher m'"
        "map_entries m' = butlast (map_entries (move_last ?m2 ?i))"
      using pop_hashed [of "move_last ?m2 ?i" hasher l] hashed ch(1) len2 by auto
    have "map_read_ref ?m2 ?sr2 = Inr ?i" using read_valid [of ?m2 ?sr2] valid cell2 by simp
    moreover have "map_pop_back (?m2\<lparr>virtual_storage_vec := (virtual_storage_vec ?m2)[?i := virtual_storage_vec ?m2 ! l]\<rparr>) = Inr m'"
      using m'(1) len2 last_conv_nth [of "virtual_storage_vec ?m2"] unfolding move_last_def by force
    ultimately have "map_erase_key hasher m k = Some (Inr (True, m'))"
      using erase_moves [OF pre(2) start(2) [unfolded pre(4)] not_null back_last [OF l] p(2) map_node_at_valid [OF i(1)] ch'(4) refl]
        write_valid [OF pre(3)] write_valid [OF valid] back_last [OF len2] nxt by metis
    moreover have "map_entries m' = drop_key (map_entries m) k"
      using m'(3) by (simp add: move_last_contents [OF len2] drop_key_def fst_entries)
    ultimately show thesis using that m'(2) by blast
  qed
qed

section \<open>The other operations\<close>

lemma map_find_eq:
  assumes ok: "node_map_ok hasher m"
  shows "map_find hasher m k = Some (Inr (index_of (map_keys m) k))"
proof -
  obtain ch where ch: "map_shape m" "distinct (map_keys m)" "hashed hasher m (length (virtual_storage_vec m)) ch"
    by (rule node_map_okE [OF ok])
  show ?thesis
  proof (cases "k \<in> set (map_keys m)")
    case True
    note i = key_position [OF True]
    have "index_of (map_keys m) k \<noteq> NULL_VIRTUAL_ADDR" using index_not_null [OF ch(1), of "index_of (map_keys m) k"] i(1) by simp
    moreover obtain pre where "map_bucket_reference hasher m k = Some (Inr (behind (Bucket (bucket_at hasher m (index_of (map_keys m) k))) pre))"
        "valid_ref m (behind (Bucket (bucket_at hasher m (index_of (map_keys m) k))) pre)"
        "map_cell m (behind (Bucket (bucket_at hasher m (index_of (map_keys m) k))) pre) = index_of (map_keys m) k"
      using reference_present [OF ch(1,3,2) i(1)] unfolding i(2) by blast
    ultimately show ?thesis by (simp add: map_find_def read_valid)
  next
    case False
    from reference_absent [OF ch(1,3) False] show ?thesis by (simp add: map_find_def read_valid index_of_absent [OF False])
  qed
qed

lemma map_contains_eq: "node_map_ok hasher m \<Longrightarrow> map_contains hasher m k = Some (Inr (k \<in> set (map_keys m)))"
  using index_of_present [of k "map_keys m"] index_of_absent [of k "map_keys m"] by (auto simp: map_contains_def map_find_eq)

lemma map_of_index:
  assumes "distinct (map fst es)"
  shows "map_of es k = (if k \<in> set (map fst es) then Some (snd (es ! index_of (map fst es) k)) else None)"
proof (cases "k \<in> set (map fst es)")
  case True
  let ?x = "es ! index_of (map fst es) k"
  have i: "index_of (map fst es) k < length es" "map fst es ! index_of (map fst es) k = k"
    using index_of_present [OF True] by simp_all
  have "?x \<in> set es" using i(1) by (rule nth_mem)
  moreover have "fst ?x = k" using i by (metis nth_map)
  ultimately have "(k, snd ?x) \<in> set es" by (metis prod.collapse)
  then have "map_of es k = Some (snd ?x)" by (rule map_of_is_SomeI [OF assms])
  then show ?thesis using True by (simp only: if_True)
qed (simp add: map_of_eq_None_iff)

lemma node_map_distinct: "node_map_ok hasher m \<Longrightarrow> distinct (map fst (map_entries m))"
  by (simp add: fst_entries node_map_ok_def)

lemma map_at_eq:
  assumes ok: "node_map_ok hasher m"
  shows "map_at hasher m k = Some (Inr (map_of (map_entries m) k))"
proof (cases "k \<in> set (map_keys m)")
  case True
  let ?i = "index_of (map_keys m) k"
  have i: "?i < length (virtual_storage_vec m)" by (rule key_position(1) [OF True])
  have "map_of (map_entries m) k = Some (snd (map_entries m ! ?i))"
    using map_of_index [OF node_map_distinct [OF ok], of k, unfolded fst_entries] True by simp
  moreover have "snd (map_entries m ! ?i) = second (virtual_storage_vec m ! ?i)" using i by (simp add: map_entries_def)
  moreover have "?i \<noteq> length (virtual_storage_vec m)" using i by simp
  ultimately show ?thesis by (simp only: map_at_def map_find_eq [OF ok] map_node_at_valid [OF i] bindO_simps if_False)
next
  case False
  then have "map_of (map_entries m) k = None" by (simp add: map_of_eq_None_iff fst_entries [symmetric])
  then show ?thesis by (simp add: map_at_def map_find_eq [OF ok] index_of_absent [OF False])
qed

lemma assign_second_ok:
  assumes ok: "node_map_ok hasher m" and i: "i < length (virtual_storage_vec m)"
  obtains m' where "assign_second m i v = Inr m'" and "node_map_ok hasher m'"
    and "map_entries m' = (map_entries m)[i := (map_keys m ! i, v)]"
proof -
  let ?m = "m\<lparr>virtual_storage_vec := (virtual_storage_vec m)[i := (virtual_storage_vec m ! i)\<lparr>second := v\<rparr>]\<rparr>"
  obtain ch where ch: "map_shape m" "distinct (map_keys m)" "hashed hasher m (length (virtual_storage_vec m)) ch"
    by (rule node_map_okE [OF ok])
  have "chained (map_cell m) (bucket_at hasher m) {..<length (virtual_storage_vec m)} (length (map_bucket_vec m)) ch"
    using ch(3) by (simp add: hashed_def)
  then have "chained (map_cell ?m) (bucket_at hasher ?m) {..<length (virtual_storage_vec m)} (length (map_bucket_vec m)) ch"
    by (rule chained_cong) (use i in \<open>auto simp: map_cell_def bucket_at_def map_bucket_index_def nth_list_update\<close>)
  moreover have "map_keys ?m = map_keys m" using i by (simp add: map_keys_def map_update list_update_same_conv)
  ultimately have "node_map_ok hasher ?m" using ch(1,2) by (auto simp: node_map_ok_def map_shape_def hashed_def)
  moreover have "map_entries ?m = (map_entries m)[i := (map_keys m ! i, v)]"
    using i by (simp add: map_entries_def map_keys_def map_update)
  ultimately show thesis using that [of ?m] i by (simp add: assign_second_def map_node_at_valid)
qed

lemma node_map_new_ok:
  fixes hasher :: "'k \<Rightarrow> nat"
  assumes "bucket_count \<le> MAX_CAP"
  obtains m :: "('k, 'v) node_map" where "node_map_new bucket_count = Inr m" and "node_map_ok hasher m" and "map_entries m = []"
proof -
  let ?N = "max MIN_CAP (next_pow2 bucket_count)"
  obtain k where k: "3 \<le> k" "k \<le> 50" "?N = 2 ^ k" using power_cap [OF assms] by blast
  let ?m = "\<lparr>virtual_storage_vec = [], vec_capacity = map_capacity_to_size ?N, map_bucket_vec = replicate ?N NULL_VIRTUAL_ADDR\<rparr>
    :: ('k, 'v) node_map"
  have "?N \<le> MAX_CAP" using k(2,3) power_increasing [of k 50 "2 :: nat"] by (simp add: MAX_CAP_def del: max.bounded_iff)
  then have "node_map_new bucket_count = Inr ?m" using assms by (simp add: node_map_new_def ceil2_eq MAX_CAP_def min_size_clamp_def max.commute)
  moreover have "hashed hasher ?m 0 (\<lambda>_. [])" by (simp add: hashed_def chained_def map_cell_def)
  then have "node_map_ok hasher ?m" using k by (auto simp: node_map_ok_def map_shape_def map_keys_def)
  ultimately show thesis using that by (simp add: map_entries_def)
qed

lemma clear_map_ok:
  assumes "node_map_ok hasher m"
  shows "node_map_ok hasher (node_map_clear m)" "map_entries (node_map_clear m) = []"
proof -
  have "hashed hasher (node_map_clear m) 0 (\<lambda>_. [])" by (simp add: hashed_def chained_def map_cell_def node_map_clear_def)
  then show "node_map_ok hasher (node_map_clear m)"
    using assms by (auto simp: node_map_ok_def map_shape_def map_keys_def node_map_clear_def)
qed (simp add: node_map_clear_def map_entries_def)

section \<open>The map as a list of entries\<close>

text \<open>The specification.\<close>

definition entry_put :: "('k \<times> 'v) list \<Rightarrow> 'k \<times> 'v \<Rightarrow> (nat \<times> bool) \<times> ('k \<times> 'v) list" where
  "entry_put es x =
     (if fst x \<in> set (map fst es) then ((index_of (map fst es) (fst x), False), es) else ((length es, True), es @ [x]))"

lemma map_insert_ok:
  assumes ok: "node_map_ok hasher m" and "length (virtual_storage_vec m) < map_max_size"
  obtains m' where "map_insert hasher m x = Some (Inr (fst (entry_put (map_entries m) x), m'))" and "node_map_ok hasher m'"
    and "map_entries m' = snd (entry_put (map_entries m) x)"
proof (cases "fst x \<in> set (map_keys m)")
  case True
  obtain m' where "map_insert hasher m (fst x, snd x) = Some (Inr ((index_of (map_keys m) (fst x), False), m'))"
      "node_map_ok hasher m'" "map_entries m' = map_entries m"
    by (rule map_insert_present [OF ok assms(2) True])
  then show thesis using that [of m'] True by (simp add: entry_put_def fst_entries)
next
  case False
  obtain m' where "map_insert hasher m (fst x, snd x) = Some (Inr ((length (map_keys m), True), m'))"
      "node_map_ok hasher m'" "map_entries m' = map_entries m @ [(fst x, snd x)]"
    by (rule map_insert_absent [OF ok assms(2) False])
  then show thesis using that [of m'] False by (simp add: entry_put_def fst_entries)
qed

lemma insert_each_ok:
  assumes "node_map_ok hasher m" and "length (virtual_storage_vec m) + length xs \<le> map_max_size"
  shows "\<exists>m'. insert_each hasher m xs = Some (Inr m') \<and> node_map_ok hasher m'
    \<and> map_entries m' = fold (\<lambda>x es. snd (entry_put es x)) xs (map_entries m)"
  using assms
proof (induction xs arbitrary: m)
  case (Cons x xs)
  then have "length (virtual_storage_vec m) < map_max_size" by simp
  then obtain m1 where m1: "map_insert hasher m x = Some (Inr (fst (entry_put (map_entries m) x), m1))" "node_map_ok hasher m1"
      "map_entries m1 = snd (entry_put (map_entries m) x)"
    by (rule map_insert_ok [OF Cons.prems(1)])
  have "length (virtual_storage_vec m1) \<le> Suc (length (virtual_storage_vec m))"
    using arg_cong [OF m1(3), of length] by (simp add: entry_put_def split: if_splits)
  then have "length (virtual_storage_vec m1) + length xs \<le> map_max_size" using Cons.prems(2) by simp
  then show ?case using Cons.IH [OF m1(2)] m1 by simp
qed simp

end
