(* ===== verification/Node_Map_Refinement.thy ===== *)
theory Node_Map_Refinement
  imports Node_Map
begin

text \<open>
  \<open>unordered_node_map\<close> against its specification, the list of its entries: every run of its operations from a new map ends and gives what the
  specification gives, errors included; and two maps are equal exactly when they hold the same mapping.
\<close>

section \<open>Operations\<close>

datatype ('k, 'v) table_op =
    TInsert 'k 'v | TAssign 'k 'v | TSubscript 'k | TErase 'k | TErase_at nat | TFind 'k | TContains 'k | TAt 'k
  | TReserve nat | TRehash nat | TInsert_range "('k \<times> 'v) list" | TClear

datatype 'v table_reply = Placed nat bool | Erased bool | Position nat | Holds bool | Mapped "'v option" | Unit

primrec table_step ::
    "'v \<Rightarrow> ('k \<Rightarrow> nat) \<Rightarrow> ('k, 'v) node_map \<Rightarrow> ('k, 'v) table_op \<Rightarrow> ('v table_reply \<times> ('k, 'v) node_map) result option"
where
  "table_step blank hasher m (TInsert k v) = bindO (map_insert hasher m (k, v)) (\<lambda>((i, st), m). Some (Inr (Placed i st, m)))"
| "table_step blank hasher m (TAssign k v) = bindO (map_insert_or_assign hasher m k v) (\<lambda>((i, st), m). Some (Inr (Placed i st, m)))"
| "table_step blank hasher m (TSubscript k) = bindO (map_subscript blank hasher m k) (\<lambda>(i, m). Some (Inr (Position i, m)))"
| "table_step blank hasher m (TErase k) = bindO (map_erase_key hasher m k) (\<lambda>(st, m). Some (Inr (Erased st, m)))"
| "table_step blank hasher m (TErase_at i) = bindO (map_erase_iter hasher m i) (\<lambda>(i, m). Some (Inr (Position i, m)))"
| "table_step blank hasher m (TFind k) = bindO (map_find hasher m k) (\<lambda>i. Some (Inr (Position i, m)))"
| "table_step blank hasher m (TContains k) = bindO (map_contains hasher m k) (\<lambda>st. Some (Inr (Holds st, m)))"
| "table_step blank hasher m (TAt k) = bindO (map_at hasher m k) (\<lambda>v. Some (Inr (Mapped v, m)))"
| "table_step blank hasher m (TReserve n) = bindO (map_reserve hasher m n) (\<lambda>m. Some (Inr (Unit, m)))"
| "table_step blank hasher m (TRehash n) = bindO (rehash hasher m n) (\<lambda>m. Some (Inr (Unit, m)))"
| "table_step blank hasher m (TInsert_range xs) = bindO (map_insert_range hasher m xs) (\<lambda>m. Some (Inr (Unit, m)))"
| "table_step blank hasher m TClear = Some (Inr (Unit, node_map_clear m))"

fun run_table ::
    "'v \<Rightarrow> ('k \<Rightarrow> nat) \<Rightarrow> ('k, 'v) node_map \<Rightarrow> ('k, 'v) table_op list \<Rightarrow> ('v table_reply list \<times> ('k, 'v) node_map) result option"
where
  "run_table blank hasher m [] = Some (Inr ([], m))"
| "run_table blank hasher m (op # ops) = bindO (table_step blank hasher m op) (\<lambda>(r, m).
     bindO (run_table blank hasher m ops) (\<lambda>(rs, m). Some (Inr (r # rs, m))))"

section \<open>Specification\<close>

definition entry_add :: "('k \<times> 'v) list \<Rightarrow> 'k \<times> 'v \<Rightarrow> ((nat \<times> bool) \<times> ('k \<times> 'v) list) result" where
  "entry_add es x = (if length es = map_max_size then Inl Length_error else Inr (entry_put es x))"

fun entries_step :: "'v \<Rightarrow> ('k \<times> 'v) list \<Rightarrow> ('k, 'v) table_op \<Rightarrow> ('v table_reply \<times> ('k \<times> 'v) list) result" where
  "entries_step blank es (TInsert k v) = bindR (entry_add es (k, v)) (\<lambda>((i, st), es). Inr (Placed i st, es))"
| "entries_step blank es (TAssign k v) = bindR (entry_add es (k, v)) (\<lambda>((i, st), es). Inr (Placed i st, es[i := (k, v)]))"
| "entries_step blank es (TSubscript k) = bindR (entry_add es (k, blank)) (\<lambda>((i, st), es). Inr (Position i, es))"
| "entries_step blank es (TErase k) =
     (if k \<in> set (map fst es) then Inr (Erased True, drop_key es k) else Inr (Erased False, es))"
| "entries_step blank es (TErase_at i) =
     (if i < length es then Inr (Position i, butlast (es[i := last es])) else if i = length es then Inr (Position i, es) else Inl Out_of_bounds)"
| "entries_step blank es (TFind k) = Inr (Position (index_of (map fst es) k), es)"
| "entries_step blank es (TContains k) = Inr (Holds (k \<in> set (map fst es)), es)"
| "entries_step blank es (TAt k) = Inr (Mapped (map_of es k), es)"
| "entries_step blank es (TReserve n) = (if n > map_max_size then Inl Length_error else Inr (Unit, es))"
| "entries_step blank es (TRehash n) =
     (if n > 2 ^ 63 then Inl Bad_shift else if n > MAX_CAP then Inl Length_error else Inr (Unit, es))"
| "entries_step blank es (TInsert_range xs) =
     (if length es + length xs > map_max_size then Inl Length_error else Inr (Unit, fold (\<lambda>x es. snd (entry_put es x)) xs es))"
| "entries_step blank es TClear = Inr (Unit, [])"

fun run_entries :: "'v \<Rightarrow> ('k \<times> 'v) list \<Rightarrow> ('k, 'v) table_op list \<Rightarrow> ('v table_reply list \<times> ('k \<times> 'v) list) result" where
  "run_entries blank es [] = Inr ([], es)"
| "run_entries blank es (op # ops) = bindR (entries_step blank es op) (\<lambda>(r, es).
     bindR (run_entries blank es ops) (\<lambda>(rs, es). Inr (r # rs, es)))"

section \<open>Simulation\<close>

text \<open>What the map may answer when the specification answers \<open>spec\<close>.\<close>

definition simulates :: "('k \<Rightarrow> nat) \<Rightarrow> ('r \<times> ('k, 'v) node_map) result option \<Rightarrow> ('r \<times> ('k \<times> 'v) list) result \<Rightarrow> bool" where
  "simulates hasher run spec \<longleftrightarrow> (case spec of
     Inl e \<Rightarrow> run = Some (Inl e)
   | Inr (r, es) \<Rightarrow> (\<exists>m. run = Some (Inr (r, m)) \<and> node_map_ok hasher m \<and> map_entries m = es))"

lemma simulates_simps [simp]:
  "simulates hasher (Some (Inl e)) (Inl e)"
  "simulates hasher run (Inl e) \<longleftrightarrow> run = Some (Inl e)"
  "simulates hasher (Some (Inr (r, m))) (Inr (r, es)) \<longleftrightarrow> node_map_ok hasher m \<and> map_entries m = es"
  by (auto simp: simulates_def)

lemma simulates_bind:
  assumes "simulates hasher run spec" and "\<And>r m. node_map_ok hasher m \<Longrightarrow> simulates hasher (f (r, m)) (g (r, map_entries m))"
  shows "simulates hasher (bindO run f) (bindR spec g)"
proof (cases spec)
  case (Inr x)
  then obtain m where "run = Some (Inr (fst x, m))" "node_map_ok hasher m" "map_entries m = snd x"
    using assms(1) by (auto simp: simulates_def)
  then show ?thesis using assms(2) [of m "fst x"] Inr by simp
qed (use assms(1) in simp)

lemma simulates_add:
  assumes "node_map_ok hasher m"
  shows "simulates hasher (map_insert hasher m x) (entry_add (map_entries m) x)"
proof (cases "length (virtual_storage_vec m) = map_max_size")
  case True
  then show ?thesis using map_insert_full [OF assms True] by (simp add: entry_add_def)
next
  case False
  have "length (virtual_storage_vec m) \<le> map_max_size" using assms map_shapeD(4) [of m] by (simp add: node_map_ok_def)
  then have "length (virtual_storage_vec m) < map_max_size" using False by simp
  then obtain m' where "map_insert hasher m x = Some (Inr (fst (entry_put (map_entries m) x), m'))" "node_map_ok hasher m'"
      "map_entries m' = snd (entry_put (map_entries m) x)"
    by (rule map_insert_ok [OF assms])
  then show ?thesis using False by (auto simp: simulates_def entry_add_def split: prod.split)
qed

lemma simulates_assign:
  assumes "node_map_ok hasher m"
  shows "simulates hasher (map_insert_or_assign hasher m k v)
    (bindR (entry_add (map_entries m) (k, v)) (\<lambda>((i, st), es). Inr ((i, st), es[i := (k, v)])))"
proof (cases "length (virtual_storage_vec m) = map_max_size")
  case True
  then show ?thesis using map_insert_full [OF assms True] by (simp add: entry_add_def map_insert_or_assign_def)
next
  case False
  have "length (virtual_storage_vec m) \<le> map_max_size" using assms map_shapeD(4) [of m] by (simp add: node_map_ok_def)
  then have room: "length (virtual_storage_vec m) < map_max_size" using False by simp
  show ?thesis
  proof (cases "k \<in> set (map_keys m)")
    case present: True
    obtain m1 where m1: "map_insert hasher m (k, v) = Some (Inr ((index_of (map_keys m) k, False), m1))" "node_map_ok hasher m1"
        "map_entries m1 = map_entries m"
      by (rule map_insert_present [OF assms room present])
    have keys: "map_keys m1 = map_keys m" using m1(3) by (rule entries_keys)
    have i: "index_of (map_keys m1) k < length (virtual_storage_vec m1)" using key_position(1) [of k m1] present keys by simp
    obtain m2 where "assign_second m1 (index_of (map_keys m1) k) v = Inr m2" "node_map_ok hasher m2"
        "map_entries m2 = (map_entries m1)[index_of (map_keys m1) k := (map_keys m1 ! index_of (map_keys m1) k, v)]"
      by (rule assign_second_ok [OF m1(2) i])
    moreover have "map_keys m1 ! index_of (map_keys m1) k = k" using index_of_present [of k "map_keys m1"] present keys by simp
    ultimately show ?thesis
      using m1 False present keys by (simp add: map_insert_or_assign_def entry_add_def entry_put_def fst_entries)
  next
    case absent: False
    obtain m1 where "map_insert hasher m (k, v) = Some (Inr ((length (map_keys m), True), m1))" "node_map_ok hasher m1"
        "map_entries m1 = map_entries m @ [(k, v)]"
      by (rule map_insert_absent [OF assms room absent])
    moreover have "(map_entries m @ [(k, v)])[length (virtual_storage_vec m) := (k, v)] = map_entries m @ [(k, v)]"
      by (simp add: list_update_append)
    ultimately show ?thesis using False absent by (simp add: map_insert_or_assign_def entry_add_def entry_put_def fst_entries)
  qed
qed

lemma simulates_erase:
  assumes "node_map_ok hasher m"
  shows "simulates hasher (map_erase_key hasher m k)
    (if k \<in> set (map fst (map_entries m)) then Inr (True, drop_key (map_entries m) k) else Inr (False, map_entries m))"
proof (cases "k \<in> set (map_keys m)")
  case True
  obtain m' where "map_erase_key hasher m k = Some (Inr (True, m'))" "node_map_ok hasher m'" "map_entries m' = drop_key (map_entries m) k"
    by (rule erase_present_key [OF assms True])
  then show ?thesis using True by (simp add: fst_entries)
next
  case False
  then show ?thesis using erase_absent_key [OF assms False] assms by (simp add: fst_entries)
qed

lemma index_of_nth: "distinct xs \<Longrightarrow> i < length xs \<Longrightarrow> index_of xs (xs ! i) = i"
  using index_of_present [of "xs ! i" xs] nth_eq_iff_index_eq [of xs "index_of xs (xs ! i)" i] by simp

lemma simulates_erase_at:
  assumes "node_map_ok hasher m" and i: "i < length (virtual_storage_vec m)"
  shows "simulates hasher (map_erase_iter hasher m i) (Inr (i, butlast ((map_entries m)[i := last (map_entries m)])))"
proof -
  let ?k = "first (virtual_storage_vec m ! i)"
  have key: "map_keys m ! i = ?k" using i by (simp add: map_keys_def)
  then have k: "?k \<in> set (map_keys m)" using i by (metis length_map_entries(2) nth_mem)
  have "distinct (map_keys m)" using assms(1) by (simp add: node_map_ok_def)
  then have "index_of (map_keys m) ?k = i" using index_of_nth [of "map_keys m" i] i key by simp
  moreover obtain m' where "map_erase_key hasher m ?k = Some (Inr (True, m'))" "node_map_ok hasher m'"
      "map_entries m' = drop_key (map_entries m) ?k"
    by (rule erase_present_key [OF assms(1) k])
  ultimately show ?thesis using i by (simp add: map_erase_iter_def map_node_at_valid drop_key_def fst_entries)
qed

lemma simulates_reserve:
  assumes "node_map_ok hasher m"
  shows "simulates hasher (bindO (map_reserve hasher m n) (\<lambda>m. Some (Inr (r, m))))
    (if n > map_max_size then Inl Length_error else Inr (r, map_entries m))"
proof (cases "n > map_max_size")
  case True
  then show ?thesis using reserve_too_big [OF assms True] by simp
next
  case False
  then have "n \<le> map_max_size" by simp
  then obtain m' where "map_reserve hasher m n = Some (Inr m')" "node_map_ok hasher m'" "map_entries m' = map_entries m"
    by (rule reserve_ok [OF assms])
  then show ?thesis using False by simp
qed

lemma simulates_rehash:
  assumes "node_map_ok hasher m"
  shows "simulates hasher (bindO (rehash hasher m n) (\<lambda>m. Some (Inr (r, m))))
    (if n > 2 ^ 63 then Inl Bad_shift else if n > MAX_CAP then Inl Length_error else Inr (r, map_entries m))"
proof (cases "n > MAX_CAP")
  case True
  then show ?thesis using rehash_too_big [OF assms True] rehash_bad_shift [OF assms, of n] by simp
next
  case False
  then have "n \<le> MAX_CAP" "n \<le> 2 ^ 63" by (simp_all add: MAX_CAP_def)
  then obtain m' where "rehash hasher m n = Some (Inr m')" "node_map_ok hasher m'" "map_entries m' = map_entries m"
    using rehash_ok [OF assms, of n] by metis
  then show ?thesis using False \<open>n \<le> 2 ^ 63\<close> by simp
qed

lemma simulates_range:
  assumes "node_map_ok hasher m"
  shows "simulates hasher (bindO (map_insert_range hasher m xs) (\<lambda>m. Some (Inr (r, m))))
    (if length (map_entries m) + length xs > map_max_size then Inl Length_error
     else Inr (r, fold (\<lambda>x es. snd (entry_put es x)) xs (map_entries m)))"
proof (cases "length (virtual_storage_vec m) + length xs > map_max_size")
  case True
  then show ?thesis using reserve_too_big [OF assms True] by (simp add: map_insert_range_def)
next
  case False
  then have "length (virtual_storage_vec m) + length xs \<le> map_max_size" by simp
  then obtain m1 where m1: "map_reserve hasher m (length (virtual_storage_vec m) + length xs) = Some (Inr m1)" "node_map_ok hasher m1"
      "map_entries m1 = map_entries m"
    by (rule reserve_ok [OF assms])
  have "length (virtual_storage_vec m1) = length (virtual_storage_vec m)" using arg_cong [OF m1(3), of length] by simp
  then obtain m' where "insert_each hasher m1 xs = Some (Inr m')" "node_map_ok hasher m'"
      "map_entries m' = fold (\<lambda>x es. snd (entry_put es x)) xs (map_entries m1)"
    using insert_each_ok [OF m1(2), of xs] False by auto
  then show ?thesis using m1(1,3) False by (simp add: map_insert_range_def)
qed

lemma table_step_ok:
  assumes "node_map_ok hasher m"
  shows "simulates hasher (table_step blank hasher m op) (entries_step blank (map_entries m) op)"
proof (cases op)
  case (TInsert k v)
  have "simulates hasher (bindO (map_insert hasher m (k, v)) (\<lambda>((i, st), m). Some (Inr (Placed i st, m))))
      (bindR (entry_add (map_entries m) (k, v)) (\<lambda>((i, st), es). Inr (Placed i st, es)))"
    by (rule simulates_bind [OF simulates_add [OF assms]]) (simp split: prod.split)
  then show ?thesis using TInsert by simp
next
  case (TAssign k v)
  have "simulates hasher (bindO (map_insert_or_assign hasher m k v) (\<lambda>((i, st), m). Some (Inr (Placed i st, m))))
      (bindR (bindR (entry_add (map_entries m) (k, v)) (\<lambda>((i, st), es). Inr ((i, st), es[i := (k, v)])))
        (\<lambda>((i, st), es). Inr (Placed i st, es)))"
    by (rule simulates_bind [OF simulates_assign [OF assms]]) (simp split: prod.split)
  then show ?thesis using TAssign by (cases "entry_add (map_entries m) (k, v)") (auto split: prod.splits)
next
  case (TSubscript k)
  have "simulates hasher (bindO (map_insert hasher m (k, blank)) (\<lambda>((i, st), m). Some (Inr (Position i, m))))
      (bindR (entry_add (map_entries m) (k, blank)) (\<lambda>((i, st), es). Inr (Position i, es)))"
    by (rule simulates_bind [OF simulates_add [OF assms]]) (simp split: prod.split)
  then show ?thesis using TSubscript
    by (cases "map_insert hasher m (k, blank)" rule: option.exhaust; cases "the (map_insert hasher m (k, blank))")
      (auto simp: map_subscript_def split: prod.splits)
next
  case (TErase k)
  have "simulates hasher (bindO (map_erase_key hasher m k) (\<lambda>(st, m). Some (Inr (Erased st, m))))
      (bindR (if k \<in> set (map fst (map_entries m)) then Inr (True, drop_key (map_entries m) k) else Inr (False, map_entries m))
        (\<lambda>(st, es). Inr (Erased st, es)))"
    by (rule simulates_bind [OF simulates_erase [OF assms]]) simp
  then show ?thesis using TErase by (auto split: if_splits)
next
  case (TErase_at i)
  consider "i < length (virtual_storage_vec m)" | "i = length (virtual_storage_vec m)" | "i > length (virtual_storage_vec m)" by linarith
  then show ?thesis
  proof cases
    case 1
    have "simulates hasher (bindO (map_erase_iter hasher m i) (\<lambda>(i, m). Some (Inr (Position i, m))))
        (bindR (Inr (i, butlast ((map_entries m)[i := last (map_entries m)]))) (\<lambda>(i, es). Inr (Position i, es)))"
      by (rule simulates_bind [OF simulates_erase_at [OF assms 1]]) simp
    then show ?thesis using TErase_at 1 by simp
  qed (use TErase_at assms in \<open>simp_all add: map_erase_iter_def map_node_at_def\<close>)
next
  case (TReserve n)
  then show ?thesis using simulates_reserve [OF assms, of n Unit] by simp
next
  case (TRehash n)
  then show ?thesis using simulates_rehash [OF assms, of n Unit] by simp
next
  case (TInsert_range xs)
  then show ?thesis using simulates_range [OF assms, of xs Unit] by simp
qed (use assms clear_map_ok [OF assms] in \<open>simp_all add: map_find_eq map_contains_eq map_at_eq fst_entries\<close>)

lemma run_table_ok:
  "node_map_ok hasher m \<Longrightarrow> simulates hasher (run_table blank hasher m ops) (run_entries blank (map_entries m) ops)"
proof (induction ops arbitrary: m)
  case (Cons op ops)
  show ?case unfolding run_table.simps run_entries.simps
  proof (rule simulates_bind [OF table_step_ok [OF Cons.prems]])
    fix r m assume "node_map_ok hasher (m :: ('a, 'b) node_map)"
    then have "simulates hasher (run_table blank hasher m ops) (run_entries blank (map_entries m) ops)" by (rule Cons.IH)
    then have "simulates hasher (bindO (run_table blank hasher m ops) (\<lambda>(rs, m). Some (Inr (r # rs, m))))
        (bindR (run_entries blank (map_entries m) ops) (\<lambda>(rs, es). Inr (r # rs, es)))"
      by (rule simulates_bind) simp
    then show "simulates hasher (case (r, m) of (r, m) \<Rightarrow> bindO (run_table blank hasher m ops) (\<lambda>(rs, m). Some (Inr (r # rs, m))))
        (case (r, map_entries m) of (r, es) \<Rightarrow> bindR (run_entries blank es ops) (\<lambda>(rs, es). Inr (r # rs, es)))" by simp
  qed
qed simp

text \<open>What a run from a new map leaves behind.\<close>

lemma run_new_ok:
  fixes m :: "('k, 'v) node_map"
  assumes "node_map_new bucket_count = Inr m" and "run_table blank hasher m ops = Some (Inr (rs, m'))"
  shows "node_map_ok hasher m'"
proof -
  have "bucket_count \<le> MAX_CAP"
    using assms(1) conjunct1 [OF next_pow2_least [of bucket_count]]
    by (auto simp: node_map_new_def min_size_clamp_def bindR_eq_Inr split: if_splits)
  then obtain m0 :: "('k, 'v) node_map" where "node_map_new bucket_count = Inr m0" "node_map_ok hasher m0" by (rule node_map_new_ok)
  then have "node_map_ok hasher m" using assms(1) by simp
  then show ?thesis using run_table_ok [of hasher m blank ops] assms(2)
    by (cases "run_entries blank (map_entries m) ops") (auto simp: simulates_def)
qed

section \<open>Comparison\<close>

lemma equal_loop_ok:
  assumes "node_map_ok hasher rhs"
  shows "equal_loop hasher ns rhs = Some (Inr (\<forall>n \<in> set ns. map_of (map_entries rhs) (first n) = Some (second n)))"
proof (induction ns)
  case (Cons n ns)
  show ?case
  proof (cases "first n \<in> set (map_keys rhs)")
    case True
    let ?i = "index_of (map_keys rhs) (first n)"
    have i: "?i < length (virtual_storage_vec rhs)" by (rule key_position(1) [OF True])
    have "map_of (map_entries rhs) (first n) = Some (snd (map_entries rhs ! ?i))"
      using map_of_index [OF node_map_distinct [OF assms], of "first n", unfolded fst_entries] True by simp
    then have "map_of (map_entries rhs) (first n) = Some (second (virtual_storage_vec rhs ! ?i))" using i by (simp add: map_entries_def)
    then show ?thesis using Cons i by (auto simp: map_find_eq [OF assms] map_node_at_valid)
  next
    case False
    then have "map_of (map_entries rhs) (first n) = None" by (simp add: map_of_eq_None_iff fst_entries [symmetric])
    then show ?thesis by (simp add: map_find_eq [OF assms] index_of_absent [OF False])
  qed
qed simp

text \<open>As many entries, and each of them in the other map: the same mapping.\<close>

lemma same_mapping:
  assumes "distinct (map fst xs)" and "distinct (map fst ys)" and "length xs = length ys"
    and "\<And>k v. (k, v) \<in> set xs \<Longrightarrow> map_of ys k = Some v"
  shows "map_of xs = map_of ys"
proof -
  have "set xs \<subseteq> set ys" using assms(4) map_of_SomeD by fastforce
  moreover have "card (set xs) = card (set ys)"
    using assms(1-3) by (simp add: distinct_card distinct_map)
  ultimately have "set xs = set ys" by (intro card_subset_eq) simp_all
  then show ?thesis using assms(1,2) by (simp add: map_of_inject_set)
qed

lemma map_equal_ok:
  assumes "node_map_ok hasher lhs" and "node_map_ok hasher rhs"
  shows "map_equal hasher lhs rhs = Some (Inr (map_of (map_entries lhs) = map_of (map_entries rhs)))"
proof -
  let ?l = "map_entries lhs" and ?r = "map_entries rhs"
  note distinct = node_map_distinct [OF assms(1)] node_map_distinct [OF assms(2)]
  have loop: "(\<forall>n \<in> set (virtual_storage_vec lhs). map_of ?r (first n) = Some (second n)) \<longleftrightarrow>
      (\<forall>(k, v) \<in> set ?l. map_of ?r k = Some v)" by (auto simp: map_entries_def)
  show ?thesis
  proof (cases "map_of ?l = map_of ?r")
    case True
    then have "set ?l = set ?r" using distinct by (simp add: map_of_inject_set)
    moreover have "length ?l = card (set ?l)" "length ?r = card (set ?r)"
      using distinct by (simp_all add: distinct_card distinct_map)
    ultimately have "length ?l = length ?r" by simp
    moreover have "\<forall>(k, v) \<in> set ?l. map_of ?r k = Some v" using distinct(1) True by (auto simp flip: True)
    ultimately show ?thesis using True by (simp add: map_equal_def equal_loop_ok [OF assms(2)] loop)
  next
    case False
    then have "length ?l \<noteq> length ?r \<or> \<not> (\<forall>(k, v) \<in> set ?l. map_of ?r k = Some v)"
      using same_mapping [OF distinct] by blast
    then show ?thesis using False by (auto simp: map_equal_def equal_loop_ok [OF assms(2)] loop)
  qed
qed

section \<open>Properties\<close>

text \<open>
  C18: the hash map is the list of its entries. Whatever the hash function, a run of its operations from a new map ends, follows no index outside the
  vector or the buckets, and gives the answers and the entries of the specification: insertion appends an entry and keeps an old one,
  \<open>operator[]\<close> and \<open>insert_or_assign\<close> included, erasure puts the last entry in the place of the erased one, and \<open>length_error\<close> is thrown exactly when
  the maximal size is exceeded, or the maximal capacity by an argument of \<open>rehash\<close> up to \<open>2 ^ 63\<close>. For a larger argument the
  code's shift is undefined, which ends the run of both with \<open>Bad_shift\<close>.
\<close>
theorem node_map_refines:
  fixes blank :: 'v and hasher :: "'k \<Rightarrow> nat"
  assumes "bucket_count \<le> MAX_CAP"
  shows "\<exists>m. node_map_new bucket_count = Inr m \<and> (case run_entries blank [] ops of
       Inl e \<Rightarrow> run_table blank hasher m ops = Some (Inl e)
     | Inr (rs, es) \<Rightarrow> \<exists>m'. run_table blank hasher m ops = Some (Inr (rs, m')) \<and> map_entries m' = es \<and> distinct (map fst es))"
proof -
  obtain m :: "('k, 'v) node_map" where m: "node_map_new bucket_count = Inr m" "node_map_ok hasher m" "map_entries m = []"
    by (rule node_map_new_ok [OF assms, where hasher = hasher])
  have "simulates hasher (run_table blank hasher m ops) (run_entries blank [] ops)"
    using run_table_ok [OF m(2), of blank ops] m(3) by simp
  then show ?thesis using m(1) node_map_distinct [of hasher] by (fastforce simp: simulates_def split: sum.splits)
qed

theorem node_map_refines_witness:
  "\<exists>m m'. node_map_new 8 = Inr m
     \<and> run_table 0 (\<lambda>k. k) m [TInsert 1 10, TInsert 9 90, TInsert 17 (5 :: nat), TErase 1, TSubscript 9, TAt (17 :: nat)]
       = Some (Inr ([Placed 0 True, Placed 1 True, Placed 2 True, Erased True, Position 1, Mapped (Some 5)], m'))
     \<and> map_entries m' = [(17, 5), (9, 90)]"
proof -
  have "(8 :: nat) \<le> MAX_CAP" by (simp add: MAX_CAP_def)
  from node_map_refines [OF this, where blank = 0 and hasher = "\<lambda>k. k"
      and ops = "[TInsert 1 10, TInsert 9 90, TInsert 17 (5 :: nat), TErase 1, TSubscript 9, TAt (17 :: nat)]"]
  show ?thesis
    by (auto simp: entry_add_def entry_put_def drop_key_def map_max_size_def map_capacity_to_size_def MAX_CAP_def)
qed

text \<open>
  C26: two hash maps compare equal exactly when they hold the same mapping, whatever the order in which entries were inserted and erased and
  whatever the number of buckets; the comparison always ends.
\<close>
theorem node_map_equality:
  assumes "node_map_new n1 = Inr m1" and "run_table blank hasher m1 ops1 = Some (Inr (rs1, lhs))"
    and "node_map_new n2 = Inr m2" and "run_table blank hasher m2 ops2 = Some (Inr (rs2, rhs))"
  shows "map_equal hasher lhs rhs = Some (Inr (map_of (map_entries lhs) = map_of (map_entries rhs)))"
  using run_new_ok [OF assms(1,2)] run_new_ok [OF assms(3,4)] by (rule map_equal_ok)

theorem node_map_equality_witness:
  "\<exists>m lhs rhs. node_map_new 8 = Inr m
     \<and> run_table 0 (\<lambda>k. k) m [TInsert 1 10, TInsert 9 (90 :: nat)] = Some (Inr ([Placed 0 True, Placed 1 True], lhs))
     \<and> run_table 0 (\<lambda>k. k) m [TInsert 9 90, TInsert (1 :: nat) 10] = Some (Inr ([Placed 0 True, Placed 1 True], rhs))
     \<and> map_equal (\<lambda>k. k) lhs rhs = Some (Inr True)"
proof -
  have "(8 :: nat) \<le> MAX_CAP" by (simp add: MAX_CAP_def)
  then obtain m :: "(nat, nat) node_map" where m: "node_map_new 8 = Inr m" "node_map_ok (\<lambda>k. k) m" "map_entries m = []"
    by (rule node_map_new_ok)
  note max = map_max_size_def map_capacity_to_size_def MAX_CAP_def
  obtain lhs where l: "run_table 0 (\<lambda>k. k) m [TInsert 1 10, TInsert 9 90] = Some (Inr ([Placed 0 True, Placed 1 True], lhs))"
      "map_entries lhs = [(1, 10), (9, 90)]"
    using run_table_ok [OF m(2), of 0 "[TInsert 1 10, TInsert 9 90]"] m(3)
    by (auto simp: simulates_def entry_add_def entry_put_def max)
  obtain rhs where r: "run_table 0 (\<lambda>k. k) m [TInsert 9 90, TInsert 1 10] = Some (Inr ([Placed 0 True, Placed 1 True], rhs))"
      "map_entries rhs = [(9, 90), (1, 10)]"
    using run_table_ok [OF m(2), of 0 "[TInsert 9 90, TInsert 1 10]"] m(3)
    by (auto simp: simulates_def entry_add_def entry_put_def max)
  have "map_of (map_entries lhs) = map_of (map_entries rhs)" by (rule ext) (simp add: l(2) r(2))
  then have "map_equal (\<lambda>k. k) lhs rhs = Some (Inr True)" using node_map_equality [OF m(1) l(1) m(1) r(1)] by simp
  then show ?thesis using m(1) l(1) r(1) by blast
qed

end
