(* ===== verification/Heap_Zone.thy ===== *)
theory Heap_Zone
  imports Prelude
begin

text \<open>
  What the tree of \<open>dg_heap/heap.h\<close> says of the cells of a heap, as a data structure of its own: a zone of \<open>2 ^ k\<close> cells is blocked as a whole, or it is
  a free cell, or it has two halves. Its free cells, the free run at its left end, at its right end and the longest one in it; the runs are computed from
  those of the halves as \<open>interval_ops::IntervalTracer\<close> does.
\<close>

datatype zone = Busy | Cell | Halves zone zone

fun full_zone :: "nat \<Rightarrow> zone" where
  "full_zone 0 = Cell"
| "full_zone (Suc k) = Halves (full_zone k) (full_zone k)"

fun wf_zone :: "nat \<Rightarrow> zone \<Rightarrow> bool" where
  "wf_zone k Busy \<longleftrightarrow> True"
| "wf_zone k Cell \<longleftrightarrow> k = 0"
| "wf_zone k (Halves a b) \<longleftrightarrow> (\<exists>j. k = Suc j \<and> wf_zone j a \<and> wf_zone j b)"

text \<open>The free cells of a zone whose first cell is \<open>off\<close>.\<close>

fun avail :: "nat \<Rightarrow> nat \<Rightarrow> zone \<Rightarrow> nat set" where
  "avail k off Busy = {}"
| "avail k off Cell = {off}"
| "avail k off (Halves a b) = avail (k - 1) off a \<union> avail (k - 1) (off + 2 ^ (k - 1)) b"

fun lfree :: "nat \<Rightarrow> zone \<Rightarrow> nat" where
  "lfree k Busy = 0"
| "lfree k Cell = 1"
| "lfree k (Halves a b) =
     (if lfree (k - 1) a = 2 ^ (k - 1) \<and> lfree (k - 1) b \<noteq> 0 then lfree (k - 1) a + lfree (k - 1) b else lfree (k - 1) a)"

fun rfree :: "nat \<Rightarrow> zone \<Rightarrow> nat" where
  "rfree k Busy = 0"
| "rfree k Cell = 1"
| "rfree k (Halves a b) =
     (if rfree (k - 1) b = 2 ^ (k - 1) \<and> rfree (k - 1) a \<noteq> 0 then rfree (k - 1) b + rfree (k - 1) a else rfree (k - 1) b)"

text \<open>Where the longest run of two halves is.\<close>

datatype side = L_side | M_side | R_side

definition longest_side :: "nat \<Rightarrow> nat \<Rightarrow> nat \<Rightarrow> side" where
  "longest_side lc mid rc = (if mid > lc \<and> mid > rc then M_side else if rc > lc then R_side else L_side)"

fun cfree :: "nat \<Rightarrow> zone \<Rightarrow> nat" where
  "cfree k Busy = 0"
| "cfree k Cell = 1"
| "cfree k (Halves a b) =
     (let lc = cfree (k - 1) a; rc = cfree (k - 1) b; mid = rfree (k - 1) a + lfree (k - 1) b
      in case longest_side lc mid rc of L_side \<Rightarrow> lc | M_side \<Rightarrow> mid | R_side \<Rightarrow> rc)"

fun coff :: "nat \<Rightarrow> nat \<Rightarrow> zone \<Rightarrow> nat" where
  "coff k off Busy = 0"
| "coff k off Cell = off"
| "coff k off (Halves a b) =
     (case longest_side (cfree (k - 1) a) (rfree (k - 1) a + lfree (k - 1) b) (cfree (k - 1) b) of
        L_side \<Rightarrow> coff (k - 1) off a
      | M_side \<Rightarrow> off + 2 ^ (k - 1) - rfree (k - 1) a
      | R_side \<Rightarrow> coff (k - 1) (off + 2 ^ (k - 1)) b)"

section \<open>Free cells\<close>

lemma wf_HalvesE:
  assumes "wf_zone k (Halves a b)"
  obtains j where "k = Suc j" and "wf_zone j a" and "wf_zone j b"
  using assms by auto

lemma avail_bounds: "wf_zone k t \<Longrightarrow> avail k off t \<subseteq> {off..<off + 2 ^ k}"
proof (induction t arbitrary: k off)
  case (Halves a b)
  obtain j where j: "k = Suc j" "wf_zone j a" "wf_zone j b" by (rule wf_HalvesE [OF Halves.prems])
  then show ?case using Halves.IH(1) [OF j(2), of off] Halves.IH(2) [OF j(3), of "off + 2 ^ j"] by fastforce
qed auto

lemma full_wf [simp]: "wf_zone k (full_zone k)"
  by (induction k) auto

lemma avail_full [simp]: "avail k off (full_zone k) = {off..<off + 2 ^ k}"
  by (induction k arbitrary: off) auto

lemma full_not_busy [simp]: "full_zone k \<noteq> Busy"
  by (cases k) auto

text \<open>Both halves of a zone, side by side.\<close>

definition within :: "nat \<Rightarrow> nat \<Rightarrow> nat set \<Rightarrow> bool" where
  "within off w A \<longleftrightarrow> (\<forall>x \<in> A. off \<le> x \<and> x < off + w)"

lemma avail_within: "wf_zone k t \<Longrightarrow> within off (2 ^ k) (avail k off t)"
  using avail_bounds [of k t off] by (auto simp: within_def)

lemma avail_all:
  assumes "wf_zone k t" and "\<And>x. off \<le> x \<Longrightarrow> x < off + 2 ^ k \<Longrightarrow> x \<in> avail k off t"
  shows "t = full_zone k"
  using assms
proof (induction t arbitrary: k off)
  case Busy
  have "off \<in> avail k off Busy" by (rule Busy.prems(2)) simp_all
  then show ?case by simp
next
  case (Halves a b)
  obtain j where j: "k = Suc j" "wf_zone j a" "wf_zone j b" by (rule wf_HalvesE [OF Halves.prems(1)])
  note bounds = avail_within [OF j(2), of off] avail_within [OF j(3), of "off + 2 ^ j"]
  have all: "x \<in> avail j off a \<or> x \<in> avail j (off + 2 ^ j) b" if "off \<le> x" "x < off + 2 ^ j + 2 ^ j" for x
    using Halves.prems(2) [of x] that j(1) by simp
  have "a = full_zone j"
  proof (rule Halves.IH(1) [OF j(2), of off])
    fix x :: nat assume "off \<le> x" "x < off + 2 ^ j"
    then show "x \<in> avail j off a" using all [of x] bounds(2) unfolding within_def by fastforce
  qed
  moreover have "b = full_zone j"
  proof (rule Halves.IH(2) [OF j(3), of "off + 2 ^ j"])
    fix x :: nat assume "off + 2 ^ j \<le> x" "x < off + 2 ^ j + 2 ^ j"
    then show "x \<in> avail j (off + 2 ^ j) b" using all [of x] bounds(1) unfolding within_def by fastforce
  qed
  ultimately show ?case using j(1) by simp
qed auto

section \<open>Runs at the ends\<close>

definition left_run :: "nat \<Rightarrow> nat \<Rightarrow> nat set \<Rightarrow> nat \<Rightarrow> bool" where
  "left_run off w A n \<longleftrightarrow> n \<le> w \<and> (\<forall>x. off \<le> x \<and> x < off + n \<longrightarrow> x \<in> A) \<and> (n < w \<longrightarrow> off + n \<notin> A)"

definition right_run :: "nat \<Rightarrow> nat \<Rightarrow> nat set \<Rightarrow> nat \<Rightarrow> bool" where
  "right_run off w A n \<longleftrightarrow> n \<le> w \<and> (\<forall>x. off + w - n \<le> x \<and> x < off + w \<longrightarrow> x \<in> A) \<and> (n < w \<longrightarrow> off + w - n - 1 \<notin> A)"

definition longest_run :: "nat set \<Rightarrow> nat \<Rightarrow> nat \<Rightarrow> bool" where
  "longest_run A start n \<longleftrightarrow> (\<forall>x. start \<le> x \<and> x < start + n \<longrightarrow> x \<in> A)
     \<and> (\<forall>s m. (\<forall>x. s \<le> x \<and> x < s + m \<longrightarrow> x \<in> A) \<longrightarrow> m \<le> n)"

lemma join_left:
  assumes "within off w A" and "within (off + w) w B" and "left_run off w A la" and "left_run (off + w) w B lb"
  shows "left_run off (w + w) (A \<union> B) (if la = w \<and> lb \<noteq> 0 then la + lb else la)"
proof (cases "la = w")
  case True
  have "x \<in> A \<union> B" if "off \<le> x" "x < off + (w + lb)" for x
    using that assms(3,4) True by (cases "x < off + w") (auto simp: left_run_def)
  moreover have "off + (w + lb) \<notin> A" using assms(1) by (auto simp: within_def)
  ultimately show ?thesis using True assms(4) by (auto simp: left_run_def add.assoc)
next
  case False
  then have "la < w" using assms(3) by (simp add: left_run_def)
  moreover then have "off + la \<notin> B" using assms(2) by (auto simp: within_def)
  ultimately show ?thesis using assms(3) False by (auto simp: left_run_def)
qed

lemma join_right:
  assumes "within off w A" and "within (off + w) w B" and "right_run off w A ra" and "right_run (off + w) w B rb"
  shows "right_run off (w + w) (A \<union> B) (if rb = w \<and> ra \<noteq> 0 then rb + ra else rb)"
proof (cases "rb = w")
  case True
  have "x \<in> A \<union> B" if "off + (w + w) - (w + ra) \<le> x" "x < off + (w + w)" for x
    using that assms(3,4) True by (cases "x < off + w") (auto simp: right_run_def)
  moreover have "off + (w + w) - (w + ra) - 1 \<notin> B" if "ra < w" using assms(2) that by (auto simp: within_def)
  moreover have "off + (w + w) - (w + ra) - 1 = off + w - ra - 1" using assms(3) by (simp add: right_run_def)
  ultimately show ?thesis using True assms(3) by (auto simp: right_run_def)
next
  case False
  then have "rb < w" using assms(4) by (simp add: right_run_def)
  moreover then have "off + (w + w) - rb - 1 \<notin> A" using assms(1) by (auto simp: within_def)
  ultimately show ?thesis using assms(4) False by (auto simp: right_run_def add.assoc)
qed

lemma lfree_run: "wf_zone k t \<Longrightarrow> left_run off (2 ^ k) (avail k off t) (lfree k t)"
proof (induction t arbitrary: k off)
  case (Halves a b)
  obtain j where j: "k = Suc j" "wf_zone j a" "wf_zone j b" by (rule wf_HalvesE [OF Halves.prems])
  have eqs: "avail (Suc j) off (Halves a b) = avail j off a \<union> avail j (off + 2 ^ j) b"
      "(2 :: nat) ^ Suc j = 2 ^ j + 2 ^ j"
    by simp_all
  show ?case unfolding j(1) eqs lfree.simps diff_Suc_1
    by (rule join_left [OF avail_within [OF j(2)] avail_within [OF j(3)] Halves.IH(1) [OF j(2)] Halves.IH(2) [OF j(3)]])
qed (auto simp: left_run_def)

lemma rfree_run: "wf_zone k t \<Longrightarrow> right_run off (2 ^ k) (avail k off t) (rfree k t)"
proof (induction t arbitrary: k off)
  case (Halves a b)
  obtain j where j: "k = Suc j" "wf_zone j a" "wf_zone j b" by (rule wf_HalvesE [OF Halves.prems])
  have eqs: "avail (Suc j) off (Halves a b) = avail j off a \<union> avail j (off + 2 ^ j) b"
      "(2 :: nat) ^ Suc j = 2 ^ j + 2 ^ j"
    by simp_all
  show ?case unfolding j(1) eqs rfree.simps diff_Suc_1
    by (rule join_right [OF avail_within [OF j(2)] avail_within [OF j(3)] Halves.IH(1) [OF j(2)] Halves.IH(2) [OF j(3)]])
qed (auto simp: right_run_def)

section \<open>The longest run\<close>

text \<open>A free run across the middle is no longer than the runs that meet there.\<close>

lemma join_longest:
  assumes A: "within off w A" and B: "within (off + w) w B" and ra: "right_run off w A ra" and lb: "left_run (off + w) w B lb"
    and lc: "longest_run A oa lc" and rc: "longest_run B ob rc" and "0 < w"
  shows "longest_run (A \<union> B)
    (case longest_side lc (ra + lb) rc of L_side \<Rightarrow> oa | M_side \<Rightarrow> off + w - ra | R_side \<Rightarrow> ob)
    (case longest_side lc (ra + lb) rc of L_side \<Rightarrow> lc | M_side \<Rightarrow> ra + lb | R_side \<Rightarrow> rc)"
    (is "longest_run _ ?s ?n")
proof -
  have "x \<in> A \<union> B" if "?s \<le> x" "x < ?s + ?n" for x
  proof -
    have "off + w - ra \<le> x \<Longrightarrow> x < off + w - ra + (ra + lb) \<Longrightarrow> x \<in> A \<union> B"
      using ra lb by (cases "x < off + w") (auto simp: right_run_def left_run_def)
    then show ?thesis using that lc rc by (auto simp: longest_run_def longest_side_def split: if_splits)
  qed
  moreover have "m \<le> ?n" if run: "\<And>x. s \<le> x \<Longrightarrow> x < s + m \<Longrightarrow> x \<in> A \<union> B" for s m
  proof -
    have max: "lc \<le> ?n" "rc \<le> ?n" "ra + lb \<le> ?n" by (auto simp: longest_side_def)
    consider "m = 0" | "0 < m" "s + m \<le> off + w" | "0 < m" "off + w \<le> s" | "s < off + w" "off + w < s + m" by linarith
    then show ?thesis
    proof cases
      case 2
      have "\<forall>x. s \<le> x \<and> x < s + m \<longrightarrow> x \<in> A" using run B 2 by (fastforce simp: within_def)
      then have "m \<le> lc" using lc unfolding longest_run_def by blast
      then show ?thesis using max by linarith
    next
      case 3
      have "\<forall>x. s \<le> x \<and> x < s + m \<longrightarrow> x \<in> B" using run A 3 by (fastforce simp: within_def)
      then have "m \<le> rc" using rc unfolding longest_run_def by blast
      then show ?thesis using max by linarith
    next
      case 4
      have "off + w - ra \<le> s"
      proof (rule ccontr)
        assume "\<not> off + w - ra \<le> s"
        moreover have "off \<le> s" using run [of s] 4 A B by (auto simp: within_def)
        ultimately have "ra < w" "s \<le> off + w - ra - 1" by linarith+
        moreover have "off + w - ra - 1 \<in> A \<union> B" using calculation 4 by (intro run) linarith+
        ultimately show False using ra B by (auto simp: right_run_def within_def)
      qed
      moreover have "s + m \<le> off + w + lb"
      proof (rule ccontr)
        assume "\<not> s + m \<le> off + w + lb"
        moreover have "s + m - 1 \<in> A \<union> B" using 4 by (intro run) linarith+
        then have "s + m - 1 < off + w + w" using A B by (auto simp: within_def)
        moreover have "off + w + lb \<in> A \<union> B" using calculation 4 by (intro run) linarith+
        ultimately show False using lb A by (auto simp: left_run_def within_def)
      qed
      ultimately have "m \<le> ra + lb" by linarith
      then show ?thesis using max by linarith
    qed simp
  qed
  ultimately show ?thesis unfolding longest_run_def by blast
qed

lemma cfree_run: "wf_zone k t \<Longrightarrow> longest_run (avail k off t) (coff k off t) (cfree k t)"
proof (induction t arbitrary: k off)
  case Busy
  have "m = 0" if "\<forall>x. s \<le> x \<and> x < s + m \<longrightarrow> x \<in> {}" for s m :: nat using that by (metis empty_iff less_add_same_cancel1 not_gr_zero order_refl)
  then show ?case by (auto simp: longest_run_def)
next
  case Cell
  have "m \<le> 1" if "\<forall>x. s \<le> x \<and> x < s + m \<longrightarrow> x \<in> {off}" for s m :: nat
  proof (rule ccontr)
    assume "\<not> m \<le> 1"
    then have "s \<in> {off}" "s + 1 \<in> {off}" using that by auto
    then show False by simp
  qed
  then show ?case by (auto simp: longest_run_def)
next
  case (Halves a b)
  obtain j where j: "k = Suc j" "wf_zone j a" "wf_zone j b" by (rule wf_HalvesE [OF Halves.prems])
  have "(0 :: nat) < 2 ^ j" by simp
  from join_longest [OF avail_within [OF j(2), of off] avail_within [OF j(3)] rfree_run [OF j(2)] lfree_run [OF j(3)]
      Halves.IH(1) [OF j(2)] Halves.IH(2) [OF j(3)] this]
  show ?case using j(1) by (simp add: Let_def cong: side.case_cong)
qed

lemma lfree_full [simp]: "lfree k (full_zone k) = 2 ^ k" and rfree_full [simp]: "rfree k (full_zone k) = 2 ^ k"
  by (induction k) auto

lemma cfree_full [simp]: "cfree k (full_zone k) = 2 ^ k"
  by (induction k) (auto simp: Let_def longest_side_def)

lemma coff_full [simp]: "coff k off (full_zone k) = off"
  by (cases k) (auto simp: longest_side_def)

lemma lfree_le: "wf_zone k t \<Longrightarrow> lfree k t \<le> 2 ^ k" and rfree_le: "wf_zone k t \<Longrightarrow> rfree k t \<le> 2 ^ k"
  using lfree_run [of k t 0] rfree_run [of k t 0] by (simp_all add: left_run_def right_run_def)

lemma cfree_le:
  assumes "wf_zone k t"
  shows "cfree k t \<le> 2 ^ k"
proof -
  have run: "longest_run (avail k 0 t) (coff k 0 t) (cfree k t)" by (rule cfree_run [OF assms])
  show ?thesis
  proof (rule ccontr)
    assume big: "\<not> cfree k t \<le> 2 ^ k"
    then have "coff k 0 t \<in> avail k 0 t" "coff k 0 t + 2 ^ k \<in> avail k 0 t" using run by (auto simp: longest_run_def)
    then show False using avail_within [OF assms, of 0] by (auto simp: within_def)
  qed
qed

section \<open>The numbers are those of the free cells\<close>

lemma left_run_unique: "left_run off w A m \<Longrightarrow> left_run off w A n \<Longrightarrow> m = n"
  unfolding left_run_def by (metis le_add1 less_le_trans linorder_neqE_nat nat_add_left_cancel_less)

lemma right_run_unique:
  assumes "right_run off w A m" and "right_run off w A n"
  shows "m = n"
proof -
  have "\<not> x < y" if "right_run off w A x" "right_run off w A y" for x y
  proof
    assume less: "x < y"
    then have "off + w - x - 1 \<in> A" using that(2) by (auto simp: right_run_def)
    moreover have "x < w" using less that(2) by (simp add: right_run_def)
    ultimately show False using that(1) by (simp add: right_run_def)
  qed
  then show ?thesis using assms by (meson linorder_neqE_nat)
qed

lemma longest_run_unique: "longest_run A x m \<Longrightarrow> longest_run A y n \<Longrightarrow> m = n"
  unfolding longest_run_def by (meson le_antisym)

lemma zone_numbers:
  assumes "wf_zone k t" and "wf_zone k t'" and "avail k off t = avail k off t'"
  shows "lfree k t = lfree k t'" "rfree k t = rfree k t'" "cfree k t = cfree k t'"
  using left_run_unique [OF lfree_run [OF assms(1), of off] lfree_run [OF assms(2), of off, folded assms(3)]]
    right_run_unique [OF rfree_run [OF assms(1), of off] rfree_run [OF assms(2), of off, folded assms(3)]]
    longest_run_unique [OF cfree_run [OF assms(1), of off] cfree_run [OF assms(2), of off, folded assms(3)]]
  by simp_all

lemma no_run: "longest_run {} x n \<Longrightarrow> n = 0"
  unfolding longest_run_def by (metis empty_iff less_add_same_cancel1 not_gr_zero order_refl)

text \<open>Where the longest run starts does not depend on how the blocked cells are cut into zones.\<close>

lemma zone_offset:
  "wf_zone k t \<Longrightarrow> wf_zone k t' \<Longrightarrow> avail k off t = avail k off t' \<Longrightarrow> cfree k t \<noteq> 0 \<Longrightarrow> coff k off t = coff k off t'"
proof (induction t arbitrary: k off t')
  case Cell
  then have "k = 0" by simp
  moreover have "t' \<noteq> Busy" using Cell by auto
  ultimately show ?case using Cell.prems(2) by (cases t') auto
next
  case (Halves a b)
  obtain j where j: "k = Suc j" "wf_zone j a" "wf_zone j b" by (rule wf_HalvesE [OF Halves.prems(1)])
  have "t' \<noteq> Busy"
  proof
    assume "t' = Busy"
    then have "avail k off (Halves a b) = {}" using Halves.prems(3) by simp
    then show False using no_run [of "coff k off (Halves a b)" "cfree k (Halves a b)"] cfree_run [OF Halves.prems(1), of off] Halves.prems(4) by simp
  qed
  then obtain a' b' where t': "t' = Halves a' b'" "wf_zone j a'" "wf_zone j b'" using Halves.prems(2) j(1) by (cases t') auto
  note bounds = avail_within [OF j(2), of off] avail_within [OF j(3), of "off + 2 ^ j"] avail_within [OF t'(2), of off] avail_within [OF t'(3), of "off + 2 ^ j"]
  have sum: "avail j off a \<union> avail j (off + 2 ^ j) b = avail j off a' \<union> avail j (off + 2 ^ j) b'" using Halves.prems(3) j(1) t'(1) by simp
  have eq: "avail j off a = avail j off a'" "avail j (off + 2 ^ j) b = avail j (off + 2 ^ j) b'"
    using sum bounds unfolding within_def by (auto simp: set_eq_iff) (metis UnE UnI1 UnI2 not_less)+
  note na = zone_numbers [OF j(2) t'(2) eq(1)] and nb = zone_numbers [OF j(3) t'(3) eq(2)]
  have c: "cfree k (Halves a b) = (case longest_side (cfree j a) (rfree j a + lfree j b) (cfree j b) of L_side \<Rightarrow> cfree j a
      | M_side \<Rightarrow> rfree j a + lfree j b | R_side \<Rightarrow> cfree j b)" using j(1) by (simp add: Let_def cong: side.case_cong)
  show ?case
  proof (cases "longest_side (cfree j a) (rfree j a + lfree j b) (cfree j b)")
    case L_side
    then have "cfree j a \<noteq> 0" using c Halves.prems(4) by simp
    from Halves.IH(1) [OF j(2) t'(2) eq(1) this] show ?thesis using L_side na nb j(1) t'(1) by simp
  next
    case M_side
    then show ?thesis using na nb j(1) t'(1) by simp
  next
    case R_side
    then have "cfree j b \<noteq> 0" using c Halves.prems(4) by simp
    from Halves.IH(2) [OF j(3) t'(3) eq(2) this] show ?thesis using R_side na nb j(1) t'(1) by simp
  qed
qed simp

end
