(* ===== verification/Heap_Bits.thy ===== *)
theory Heap_Bits
  imports Heap_Zone "HOL-Library.Word"
begin

text \<open>
  The bits of the tree of \<open>dg_heap/heap.h\<close>: the vector of bits of \<open>dg_heap/crtpboolvector.h\<close>, where a node has its bits (\<open>utility::OffsetConverter\<close>), and
  reading and writing them (\<open>bottom_impl::TraceBackOperator\<close>). The height of the tree is \<open>H\<close>. A template argument \<open>ARG_HEIGHT\<close> is the number \<open>k\<close> of levels
  below, \<open>HEIGHT - ARG_HEIGHT\<close>: \<open>k = 0\<close> is the base, \<open>k = 1\<close> the level next to it. Node \<open>idx\<close> has the children \<open>2 * idx + 1\<close> and \<open>2 * idx + 2\<close>.
\<close>

unbundle bit_operations_syntax

section \<open>Vectors of bits\<close>

definition BIT_PER_BUCKET :: nat where "BIT_PER_BUCKET = 64"

definition bv_slot :: "nat \<Rightarrow> nat" where "bv_slot idx = idx div BIT_PER_BUCKET"

definition bv_offset :: "nat \<Rightarrow> nat" where "bv_offset idx = idx mod BIT_PER_BUCKET"

definition bit_control :: "nat \<Rightarrow> 64 word" where "bit_control off = push_bit off 1"

definition bv_true_toggle :: "nat \<Rightarrow> 64 word" where "bv_true_toggle off = bit_control off"

definition bv_false_toggle :: "nat \<Rightarrow> 64 word" where "bv_false_toggle off = - 1 XOR bv_true_toggle off"

definition bv_get :: "64 word list \<Rightarrow> nat \<Rightarrow> bool" where
  "bv_get buf idx \<longleftrightarrow> buf ! bv_slot idx AND bit_control (bv_offset idx) \<noteq> 0"

definition bv_set :: "64 word list \<Rightarrow> nat \<Rightarrow> bool \<Rightarrow> 64 word list" where
  "bv_set buf idx value =
     (if value then buf[bv_slot idx := buf ! bv_slot idx OR bv_true_toggle (bv_offset idx)]
      else buf[bv_slot idx := buf ! bv_slot idx AND bv_false_toggle (bv_offset idx)])"

text \<open>Numbers of a few bits, the lowest one first.\<close>

definition boolify :: "nat \<Rightarrow> nat \<Rightarrow> bool list" where
  "boolify n value = map (\<lambda>i. value AND 2 ^ i \<noteq> 0) [0..<n]"

definition intify :: "bool list \<Rightarrow> nat" where
  "intify tup = foldl (\<lambda>rs i. rs OR push_bit i (of_bool (tup ! i))) 0 [0..<length tup]"

fun sequential_set :: "64 word list \<Rightarrow> nat \<Rightarrow> bool list \<Rightarrow> 64 word list" where
  "sequential_set buf idx [] = buf"
| "sequential_set buf idx (b # bs) = sequential_set (bv_set buf idx b) (idx + 1) bs"

definition sequential_get :: "nat \<Rightarrow> 64 word list \<Rightarrow> nat \<Rightarrow> bool list" where
  "sequential_get n buf idx = map (\<lambda>i. bv_get buf (idx + i)) [0..<n]"

lemma length_bv_set [simp]: "length (bv_set buf idx b) = length buf"
  by (simp add: bv_set_def)

lemma length_sequential_set [simp]: "length (sequential_set buf idx bs) = length buf"
  by (induction bs arbitrary: buf idx) simp_all

lemma bv_get_bit: "bv_get buf idx \<longleftrightarrow> bit (buf ! (idx div 64)) (idx mod 64)"
proof -
  have "w AND push_bit n 1 \<noteq> 0 \<longleftrightarrow> bit w n" if "n < 64" for w :: "64 word" and n
  proof -
    have "w AND push_bit n 1 = (if bit w n then push_bit n 1 else 0)" by (rule bit_word_eqI) (auto simp: bit_simps)
    moreover have "bit (push_bit n 1 :: 64 word) n" using that by (simp add: bit_simps)
    then have "push_bit n 1 \<noteq> (0 :: 64 word)" by (metis bit_0_eq bot_apply bot_bool_def)
    ultimately show ?thesis by simp
  qed
  then show ?thesis by (simp add: bv_get_def bit_control_def bv_slot_def bv_offset_def BIT_PER_BUCKET_def)
qed

lemma bv_get_set:
  assumes "idx < 64 * length buf"
  shows "bv_get (bv_set buf idx b) j = (if j = idx then b else bv_get buf j)"
proof -
  have less: "idx div 64 < length buf" using assms by (simp add: div_less_iff_less_mult mult.commute)
  have bits: "bit (if b then w OR push_bit n 1 else w AND (- 1 XOR push_bit n 1)) i = (if i = n then b else bit w i)"
    if "n < 64" "i < 64" for w :: "64 word" and n i using that by (auto simp: bit_simps)
  show ?thesis
  proof (cases "j div 64 = idx div 64")
    case True
    then have "j = idx \<longleftrightarrow> j mod 64 = idx mod 64" by (metis div_mult_mod_eq)
    moreover have "bv_get (bv_set buf idx b) j \<longleftrightarrow>
        bit (if b then buf ! (idx div 64) OR push_bit (idx mod 64) 1 else buf ! (idx div 64) AND (- 1 XOR push_bit (idx mod 64) 1)) (j mod 64)"
      using True less by (simp add: bv_get_bit bv_set_def bv_true_toggle_def bv_false_toggle_def bit_control_def bv_slot_def bv_offset_def BIT_PER_BUCKET_def)
    ultimately show ?thesis using bits [of "idx mod 64" "j mod 64" "buf ! (idx div 64)"] True by (simp add: bv_get_bit)
  next
    case False
    then show ?thesis by (auto simp: bv_get_bit bv_set_def bv_slot_def BIT_PER_BUCKET_def)
  qed
qed

section \<open>Where the bits of a node are\<close>

definition heap_node_count :: "nat \<Rightarrow> nat" where "heap_node_count h = 2 ^ h - 1"

definition STD_BUCKET_LENGTH :: nat where "STD_BUCKET_LENGTH = 4"
definition NEXT_BASE_BUCKET_LENGTH :: nat where "NEXT_BASE_BUCKET_LENGTH = 3"
definition BASE_BUCKET_LENGTH :: nat where "BASE_BUCKET_LENGTH = 1"
definition L_OFFSET :: nat where "L_OFFSET = 0"
definition R_OFFSET :: nat where "R_OFFSET = 1"
definition C_OFFSET :: nat where "C_OFFSET = 2"
definition NB_BL_OFFSET :: nat where "NB_BL_OFFSET = 2"
definition BB_BL_OFFSET :: nat where "BB_BL_OFFSET = 0"

lemmas bucket_constants = STD_BUCKET_LENGTH_def NEXT_BASE_BUCKET_LENGTH_def BASE_BUCKET_LENGTH_def L_OFFSET_def R_OFFSET_def C_OFFSET_def
  NB_BL_OFFSET_def BB_BL_OFFSET_def

definition non_base_bit_offset :: "nat \<Rightarrow> nat" where "non_base_bit_offset idx = idx * STD_BUCKET_LENGTH"

definition next_base_adjusted_val :: "nat \<Rightarrow> nat" where
  "next_base_adjusted_val H =
     (let popcount = heap_node_count (H - 2); offset = non_base_bit_offset popcount in offset - popcount * NEXT_BASE_BUCKET_LENGTH)"

definition next_base_bit_offset :: "nat \<Rightarrow> nat \<Rightarrow> nat" where
  "next_base_bit_offset H idx = idx * NEXT_BASE_BUCKET_LENGTH + next_base_adjusted_val H"

definition base_adjusted_val :: "nat \<Rightarrow> nat" where
  "base_adjusted_val H =
     (let popcount = heap_node_count (H - 1); offset = next_base_bit_offset H popcount in offset - popcount * BASE_BUCKET_LENGTH)"

definition base_bit_offset :: "nat \<Rightarrow> nat \<Rightarrow> nat" where
  "base_bit_offset H idx = idx * BASE_BUCKET_LENGTH + base_adjusted_val H"

text \<open>\<open>get_left_offset\<close> and \<open>get_right_offset\<close> exist above the base, \<open>get_center_offset\<close> above the level next to it.\<close>

definition left_bit_offset :: "nat \<Rightarrow> nat \<Rightarrow> nat \<Rightarrow> nat" where
  "left_bit_offset H k idx =
     (if k \<ge> 2 then non_base_bit_offset idx + L_OFFSET else idx * NEXT_BASE_BUCKET_LENGTH + (next_base_adjusted_val H + L_OFFSET))"

definition right_bit_offset :: "nat \<Rightarrow> nat \<Rightarrow> nat \<Rightarrow> nat" where
  "right_bit_offset H k idx =
     (if k \<ge> 2 then non_base_bit_offset idx + R_OFFSET else idx * NEXT_BASE_BUCKET_LENGTH + (next_base_adjusted_val H + R_OFFSET))"

definition center_bit_offset :: "nat \<Rightarrow> nat" where
  "center_bit_offset idx = non_base_bit_offset idx + C_OFFSET"

definition next_base_blocked_bit_offset :: "nat \<Rightarrow> nat \<Rightarrow> nat" where
  "next_base_blocked_bit_offset H idx = idx * NEXT_BASE_BUCKET_LENGTH + (next_base_adjusted_val H + NB_BL_OFFSET)"

definition base_blocked_bit_offset :: "nat \<Rightarrow> nat \<Rightarrow> nat" where
  "base_blocked_bit_offset H idx = idx * BASE_BUCKET_LENGTH + (base_adjusted_val H + BB_BL_OFFSET)"

section \<open>Traces\<close>

definition LEFT_TRACEBACK :: nat where "LEFT_TRACEBACK = 0"
definition RIGHT_TRACEBACK :: nat where "RIGHT_TRACEBACK = 1"
definition MID_TRACEBACK :: nat where "MID_TRACEBACK = 2"
definition MID_BLOCKED :: nat where "MID_BLOCKED = 3"
definition UNBLOCKED :: nat where "UNBLOCKED = 0"
definition BLOCKED :: nat where "BLOCKED = 1"

lemmas trace_ids = LEFT_TRACEBACK_def RIGHT_TRACEBACK_def MID_TRACEBACK_def MID_BLOCKED_def UNBLOCKED_def BLOCKED_def

definition set_trace :: "nat \<Rightarrow> nat \<Rightarrow> nat \<Rightarrow> 64 word list \<Rightarrow> 64 word list" where
  "set_trace bit_space offset val tb = sequential_set tb offset (boolify bit_space val)"

definition get_trace :: "nat \<Rightarrow> 64 word list \<Rightarrow> nat \<Rightarrow> nat" where
  "get_trace bit_space tb offset = intify (sequential_get bit_space tb offset)"

definition set_left_trace :: "nat \<Rightarrow> nat \<Rightarrow> nat \<Rightarrow> nat \<Rightarrow> 64 word list \<Rightarrow> 64 word list" where
  "set_left_trace H k idx val tb = set_trace 1 (left_bit_offset H k idx) val tb"

definition set_right_trace :: "nat \<Rightarrow> nat \<Rightarrow> nat \<Rightarrow> nat \<Rightarrow> 64 word list \<Rightarrow> 64 word list" where
  "set_right_trace H k idx val tb = set_trace 1 (right_bit_offset H k idx) val tb"

definition set_center_trace :: "nat \<Rightarrow> nat \<Rightarrow> 64 word list \<Rightarrow> 64 word list" where
  "set_center_trace idx val tb = set_trace 2 (center_bit_offset idx) val tb"

definition set_next_base_block_bit :: "nat \<Rightarrow> nat \<Rightarrow> nat \<Rightarrow> 64 word list \<Rightarrow> 64 word list" where
  "set_next_base_block_bit H idx val tb = set_trace 1 (next_base_blocked_bit_offset H idx) val tb"

definition set_base_block_bit :: "nat \<Rightarrow> nat \<Rightarrow> nat \<Rightarrow> 64 word list \<Rightarrow> 64 word list" where
  "set_base_block_bit H idx val tb = set_trace 1 (base_blocked_bit_offset H idx) val tb"

definition get_left_trace :: "nat \<Rightarrow> nat \<Rightarrow> 64 word list \<Rightarrow> nat \<Rightarrow> nat" where
  "get_left_trace H k tb idx = get_trace 1 tb (left_bit_offset H k idx)"

definition get_right_trace :: "nat \<Rightarrow> nat \<Rightarrow> 64 word list \<Rightarrow> nat \<Rightarrow> nat" where
  "get_right_trace H k tb idx = get_trace 1 tb (right_bit_offset H k idx)"

definition get_center_trace :: "64 word list \<Rightarrow> nat \<Rightarrow> nat" where
  "get_center_trace tb idx = get_trace 2 tb (center_bit_offset idx)"

definition get_next_base_block_bit :: "nat \<Rightarrow> 64 word list \<Rightarrow> nat \<Rightarrow> nat" where
  "get_next_base_block_bit H tb idx = get_trace 1 tb (next_base_blocked_bit_offset H idx)"

definition get_base_block_bit :: "nat \<Rightarrow> 64 word list \<Rightarrow> nat \<Rightarrow> nat" where
  "get_base_block_bit H tb idx = get_trace 1 tb (base_blocked_bit_offset H idx)"

text \<open>\<open>bottom_impl::TraceBackBlocker\<close>\<close>

definition traceback_block :: "nat \<Rightarrow> nat \<Rightarrow> nat \<Rightarrow> 64 word list \<Rightarrow> 64 word list" where
  "traceback_block H k idx tb =
     (if k \<ge> 2 then set_center_trace idx MID_BLOCKED tb
      else if k = 1 then set_next_base_block_bit H idx BLOCKED tb
      else set_base_block_bit H idx BLOCKED tb)"

definition traceback_unblock :: "nat \<Rightarrow> nat \<Rightarrow> nat \<Rightarrow> 64 word list \<Rightarrow> 64 word list" where
  "traceback_unblock H k idx tb =
     (if k \<ge> 2 then set_center_trace idx MID_TRACEBACK tb
      else if k = 1 then set_next_base_block_bit H idx UNBLOCKED tb
      else set_base_block_bit H idx UNBLOCKED tb)"

definition traceback_is_blocked :: "nat \<Rightarrow> nat \<Rightarrow> 64 word list \<Rightarrow> nat \<Rightarrow> bool" where
  "traceback_is_blocked H k tb idx =
     (if k \<ge> 2 then get_center_trace tb idx = MID_BLOCKED
      else if k = 1 then get_next_base_block_bit H tb idx = BLOCKED
      else get_base_block_bit H tb idx = BLOCKED)"

section \<open>The bits of different nodes\<close>

text \<open>Node \<open>idx\<close> is on the level that has \<open>k\<close> levels below it.\<close>

definition at_level :: "nat \<Rightarrow> nat \<Rightarrow> nat \<Rightarrow> bool" where
  "at_level H k idx \<longleftrightarrow> k < H \<and> 2 ^ (H - k - 1) \<le> idx + 1 \<and> idx + 1 < 2 ^ (H - k)"

lemma at_level_children:
  assumes "at_level H (Suc k) idx"
  shows "at_level H k (2 * idx + 1)" "at_level H k (2 * idx + 2)"
proof -
  have "H - k = Suc (H - Suc k)" "H - Suc k = Suc (H - Suc k - 1)" using assms by (auto simp: at_level_def)
  then have "(2 :: nat) ^ (H - k) = 2 * 2 ^ (H - Suc k)" "(2 :: nat) ^ (H - k - 1) = 2 * 2 ^ (H - Suc k - 1)"
    by (metis power_Suc, metis One_nat_def diff_Suc_Suc diff_zero power_Suc)
  then show "at_level H k (2 * idx + 1)" "at_level H k (2 * idx + 2)" using assms by (auto simp: at_level_def)
qed

definition bits_start :: "nat \<Rightarrow> nat \<Rightarrow> nat \<Rightarrow> nat" where
  "bits_start H k idx = (if k \<ge> 2 then non_base_bit_offset idx else if k = 1 then next_base_bit_offset H idx else base_bit_offset H idx)"

definition bits_length :: "nat \<Rightarrow> nat" where
  "bits_length k = (if k \<ge> 2 then STD_BUCKET_LENGTH else if k = 1 then NEXT_BASE_BUCKET_LENGTH else BASE_BUCKET_LENGTH)"

lemma adjusted_vals:
  assumes "2 \<le> H"
  shows "next_base_adjusted_val H = heap_node_count (H - 2)" "base_adjusted_val H = heap_node_count (H - 2) + 2 * heap_node_count (H - 1)"
  by (simp_all add: next_base_adjusted_val_def base_adjusted_val_def next_base_bit_offset_def non_base_bit_offset_def bucket_constants Let_def)

lemma level_bounds:
  assumes "at_level H k idx" and "2 \<le> H"
  shows "k \<ge> 2 \<Longrightarrow> idx < heap_node_count (H - 2)" "k = 1 \<Longrightarrow> heap_node_count (H - 2) \<le> idx \<and> idx < heap_node_count (H - 1)"
    "k = 0 \<Longrightarrow> heap_node_count (H - 1) \<le> idx \<and> idx < heap_node_count H"
proof -
  assume "k \<ge> 2"
  then have "(2 :: nat) ^ (H - k) \<le> 2 ^ (H - 2)" by (intro power_increasing) simp_all
  then have "idx + 1 < 2 ^ (H - 2)" using assms(1) unfolding at_level_def by linarith
  then show "idx < heap_node_count (H - 2)" by (simp add: heap_node_count_def)
next
  assume "k = 1"
  moreover have "H - 1 - 1 = H - 2" by simp
  ultimately show "heap_node_count (H - 2) \<le> idx \<and> idx < heap_node_count (H - 1)"
    using assms(1) unfolding at_level_def heap_node_count_def by (metis add.commute le_diff_conv less_diff_conv)
next
  assume "k = 0"
  then show "heap_node_count (H - 1) \<le> idx \<and> idx < heap_node_count H"
    using assms(1) unfolding at_level_def heap_node_count_def by (metis add.commute diff_zero le_diff_conv less_diff_conv)
qed

lemma node_count_mono: "h \<le> h' \<Longrightarrow> heap_node_count h \<le> heap_node_count h'"
  by (simp add: heap_node_count_def diff_le_mono power_increasing)

lemma bits_disjoint:
  assumes "at_level H k idx" and "at_level H k' idx'" and "2 \<le> H" and "idx \<noteq> idx'"
  shows "bits_start H k idx + bits_length k \<le> bits_start H k' idx' \<or> bits_start H k' idx' + bits_length k' \<le> bits_start H k idx"
proof -
  note b = level_bounds [OF assms(1,3)] level_bounds [OF assms(2,3)]
  have mono: "heap_node_count (H - 2) \<le> heap_node_count (H - 1)" by (rule node_count_mono) simp
  note defs = bits_start_def bits_length_def non_base_bit_offset_def next_base_bit_offset_def base_bit_offset_def bucket_constants adjusted_vals [OF assms(3)]
  consider "k \<ge> 2" | "k = 1" | "k = 0" by linarith
  then show ?thesis
  proof cases
    case 1
    consider "k' \<ge> 2" | "k' = 1" | "k' = 0" by linarith
    then show ?thesis by cases (use 1 b assms(4) mono in \<open>simp_all add: defs\<close>, linarith+)
  next
    case 2
    consider "k' \<ge> 2" | "k' = 1" | "k' = 0" by linarith
    then show ?thesis by cases (use 2 b assms(4) mono in \<open>simp_all add: defs\<close>, linarith+)
  next
    case 3
    consider "k' \<ge> 2" | "k' = 1" | "k' = 0" by linarith
    then show ?thesis by cases (use 3 b assms(4) mono in \<open>simp_all add: defs\<close>, linarith+)
  qed
qed

text \<open>The size \<open>BoolArraySpecs\<close> gives the vector is enough.\<close>

definition bool_array_size :: "nat \<Rightarrow> nat" where
  "bool_array_size H = base_bit_offset H (heap_node_count H) div BIT_PER_BUCKET + 1"

lemma bits_bound:
  assumes "at_level H k idx" and "2 \<le> H"
  shows "bits_start H k idx + bits_length k \<le> 64 * bool_array_size H"
proof -
  have "bits_start H k idx + bits_length k \<le> base_bit_offset H (heap_node_count H)"
  proof -
    note b = level_bounds [OF assms]
    have mono: "heap_node_count (H - 2) \<le> heap_node_count (H - 1)" "heap_node_count (H - 1) \<le> heap_node_count H" by (rule node_count_mono, simp)+
    note defs = bits_start_def bits_length_def non_base_bit_offset_def next_base_bit_offset_def base_bit_offset_def bucket_constants adjusted_vals [OF assms(2)]
    consider "k \<ge> 2" | "k = 1" | "k = 0" by linarith
    then show ?thesis by cases (use b mono in \<open>simp_all add: defs\<close>)
  qed
  moreover have "n \<le> 64 * (n div 64 + 1)" for n :: nat by presburger
  ultimately show ?thesis unfolding bool_array_size_def BIT_PER_BUCKET_def by (meson le_trans)
qed

section \<open>Laws of the traces\<close>

lemma bv_get_sequential_set:
  assumes "idx + length bs \<le> 64 * length buf"
  shows "bv_get (sequential_set buf idx bs) j = (if idx \<le> j \<and> j < idx + length bs then bs ! (j - idx) else bv_get buf j)"
  using assms
proof (induction bs arbitrary: buf idx)
  case (Cons b bs)
  have "bv_get (sequential_set (bv_set buf idx b) (idx + 1) bs) j =
      (if idx + 1 \<le> j \<and> j < idx + 1 + length bs then bs ! (j - (idx + 1)) else bv_get (bv_set buf idx b) j)"
    using Cons by simp
  moreover have "bv_get (bv_set buf idx b) j = (if j = idx then b else bv_get buf j)" using Cons.prems by (intro bv_get_set) simp
  ultimately show ?case by (auto simp: nth_Cons')
qed auto

lemma upt_values: "[0..<Suc 0] = [0]" "[0..<2] = [0, Suc 0]"
  by (simp_all add: upt_rec)

lemma boolify_values: "boolify (Suc 0) 0 = [False]" "boolify (Suc 0) (Suc 0) = [True]" "boolify 2 0 = [False, False]" "boolify 2 (Suc 0) = [True, False]"
  "boolify 2 2 = [False, True]" "boolify 2 3 = [True, True]"
  by (simp_all add: boolify_def upt_values)

lemma intify_values: "intify [b] = of_bool b" "intify [b, c] = of_bool b + 2 * of_bool c"
  by (cases b; simp add: intify_def upt_values) (cases b; cases c; simp add: intify_def upt_rec)

lemma sequential_get_values: "sequential_get (Suc 0) buf i = [bv_get buf i]" "sequential_get 2 buf i = [bv_get buf i, bv_get buf (Suc i)]"
  by (simp_all add: sequential_get_def upt_values)

lemma get_trace_values:
  "get_trace (Suc 0) tb i = of_bool (bv_get tb i)" "get_trace 2 tb i = of_bool (bv_get tb i) + 2 * of_bool (bv_get tb (Suc i))"
  unfolding get_trace_def sequential_get_values intify_values by simp_all

text \<open>A trace of one bit is left or right, one of two bits is one of four: the default of the \<open>switch\<close> statements is never taken.\<close>

lemma left_trace_cases: "get_left_trace H k tb idx = LEFT_TRACEBACK \<or> get_left_trace H k tb idx = RIGHT_TRACEBACK"
  and right_trace_cases: "get_right_trace H k tb idx = LEFT_TRACEBACK \<or> get_right_trace H k tb idx = RIGHT_TRACEBACK"
  and center_trace_cases: "get_center_trace tb idx \<in> {LEFT_TRACEBACK, RIGHT_TRACEBACK, MID_TRACEBACK, MID_BLOCKED}"
  by (auto simp: get_left_trace_def get_right_trace_def get_center_trace_def get_trace_values trace_ids)

text \<open>Bit \<open>i\<close> of a node, and the traces in terms of its bits.\<close>

definition node_bit :: "nat \<Rightarrow> nat \<Rightarrow> nat \<Rightarrow> 64 word list \<Rightarrow> nat \<Rightarrow> bool" where
  "node_bit H k idx tb i \<longleftrightarrow> bv_get tb (bits_start H k idx + i)"

lemma trace_offsets:
  "1 \<le> k \<Longrightarrow> left_bit_offset H k idx = bits_start H k idx + 0"
  "1 \<le> k \<Longrightarrow> right_bit_offset H k idx = bits_start H k idx + 1"
  "2 \<le> k \<Longrightarrow> center_bit_offset idx = bits_start H k idx + 2"
  "next_base_blocked_bit_offset H idx = bits_start H 1 idx + 2"
  "base_blocked_bit_offset H idx = bits_start H 0 idx + 0"
  by (auto simp: left_bit_offset_def right_bit_offset_def center_bit_offset_def next_base_blocked_bit_offset_def base_blocked_bit_offset_def
      bits_start_def next_base_bit_offset_def base_bit_offset_def bucket_constants)

lemma trace_node_bits:
  "1 \<le> k \<Longrightarrow> get_left_trace H k tb idx = of_bool (node_bit H k idx tb 0)"
  "1 \<le> k \<Longrightarrow> get_right_trace H k tb idx = of_bool (node_bit H k idx tb 1)"
  "2 \<le> k \<Longrightarrow> get_center_trace tb idx = of_bool (node_bit H k idx tb 2) + 2 * of_bool (node_bit H k idx tb 3)"
  unfolding get_left_trace_def get_right_trace_def get_center_trace_def node_bit_def One_nat_def get_trace_values
  using trace_offsets(1-3) [where H = H and k = k and idx = idx] by (simp_all add: numeral_3_eq_3 numeral_2_eq_2)

lemma blocked_node_bits:
  "traceback_is_blocked H k tb idx \<longleftrightarrow>
     (if 2 \<le> k then node_bit H k idx tb 2 \<and> node_bit H k idx tb 3 else node_bit H k idx tb (if k = 1 then 2 else 0))"
proof -
  consider "2 \<le> k" | "k = 1" | "k = 0" by linarith
  then show ?thesis
  proof cases
    case 1
    then show ?thesis by (auto simp: traceback_is_blocked_def trace_node_bits(3) [where H = H and k = k] trace_ids)
  next
    case 2
    then show ?thesis using trace_offsets(4) [of H idx]
      by (simp add: traceback_is_blocked_def get_next_base_block_bit_def get_trace_values node_bit_def trace_ids)
  next
    case 3
    then show ?thesis using trace_offsets(5) [of H idx]
      by (simp add: traceback_is_blocked_def get_base_block_bit_def get_trace_values node_bit_def trace_ids)
  qed
qed

definition same_bits :: "nat \<Rightarrow> nat \<Rightarrow> nat \<Rightarrow> 64 word list \<Rightarrow> 64 word list \<Rightarrow> bool" where
  "same_bits H k idx tb tb' \<longleftrightarrow> (\<forall>i < bits_length k. node_bit H k idx tb' i = node_bit H k idx tb i)"

lemma bits_lengths: "2 \<le> k \<Longrightarrow> bits_length k = 4" "k = 1 \<Longrightarrow> bits_length k = 3" "k = 0 \<Longrightarrow> bits_length k = 1"
  by (simp_all add: bits_length_def bucket_constants)

lemma same_bits_traces:
  assumes "same_bits H k idx tb tb'"
  shows "1 \<le> k \<Longrightarrow> get_left_trace H k tb' idx = get_left_trace H k tb idx"
    and "1 \<le> k \<Longrightarrow> get_right_trace H k tb' idx = get_right_trace H k tb idx"
    and "2 \<le> k \<Longrightarrow> get_center_trace tb' idx = get_center_trace tb idx"
    and "traceback_is_blocked H k tb' idx = traceback_is_blocked H k tb idx"
proof -
  have eq: "node_bit H k idx tb' i = node_bit H k idx tb i" if "i < bits_length k" for i using assms that by (simp add: same_bits_def)
  have ge: "3 \<le> bits_length k" if "1 \<le> k" using that by (simp add: bits_length_def bucket_constants)
  show "1 \<le> k \<Longrightarrow> get_left_trace H k tb' idx = get_left_trace H k tb idx" using ge eq [of 0] by (simp add: trace_node_bits)
  show "1 \<le> k \<Longrightarrow> get_right_trace H k tb' idx = get_right_trace H k tb idx" using ge eq [of 1] by (simp add: trace_node_bits)
  show "2 \<le> k \<Longrightarrow> get_center_trace tb' idx = get_center_trace tb idx" using eq [of 2] eq [of 3] by (simp add: trace_node_bits(3) [where H = H and k = k] bits_lengths)
  show "traceback_is_blocked H k tb' idx = traceback_is_blocked H k tb idx"
    using ge eq [of 0] eq [of 2] eq [of 3] bits_lengths [of k] unfolding blocked_node_bits by (cases "k = 0") auto
qed

text \<open>What the writers change: a few bits of their node.\<close>

lemma set_trace_bits:
  assumes "at_level H k idx" and "2 \<le> H" and "length tb = bool_array_size H"
    and "off = bits_start H k idx + a" and "a + n \<le> bits_length k"
  shows "node_bit H k idx (set_trace n off v tb) i = (if a \<le> i \<and> i < a + n then boolify n v ! (i - a) else node_bit H k idx tb i)"
    and "at_level H k' idx' \<Longrightarrow> idx' \<noteq> idx \<Longrightarrow> same_bits H k' idx' tb (set_trace n off v tb)"
proof -
  have n: "length (boolify n v) = n" by (simp add: boolify_def)
  have "off + n \<le> 64 * length tb" using bits_bound [OF assms(1,2)] assms(3-5) by simp
  then have bits: "bv_get (set_trace n off v tb) p = (if off \<le> p \<and> p < off + n then boolify n v ! (p - off) else bv_get tb p)" for p
    unfolding set_trace_def using bv_get_sequential_set [of off "boolify n v" tb p] n by simp
  show "node_bit H k idx (set_trace n off v tb) i = (if a \<le> i \<and> i < a + n then boolify n v ! (i - a) else node_bit H k idx tb i)"
    unfolding node_bit_def bits by (simp add: assms(4))
  show "same_bits H k' idx' tb (set_trace n off v tb)" if "at_level H k' idx'" "idx' \<noteq> idx"
    unfolding same_bits_def node_bit_def bits using bits_disjoint [OF assms(1) that(1) assms(2)] that(2) assms(4,5) by auto
qed

lemma length_set_trace [simp]: "length (set_trace n off v tb) = length tb"
  by (simp add: set_trace_def)

lemma length_writers [simp]:
  "length (set_left_trace H k idx v tb) = length tb" "length (set_right_trace H k idx v tb) = length tb"
  "length (set_center_trace idx v tb) = length tb" "length (traceback_block H k idx tb) = length tb"
  "length (traceback_unblock H k idx tb) = length tb"
  by (simp_all add: set_left_trace_def set_right_trace_def set_center_trace_def traceback_block_def traceback_unblock_def
      set_next_base_block_bit_def set_base_block_bit_def)

lemma writers_same_bits:
  assumes "at_level H k idx" and "2 \<le> H" and "length tb = bool_array_size H" and "at_level H k' idx'" and "idx' \<noteq> idx"
  shows "1 \<le> k \<Longrightarrow> same_bits H k' idx' tb (set_left_trace H k idx v tb)"
    and "1 \<le> k \<Longrightarrow> same_bits H k' idx' tb (set_right_trace H k idx v tb)"
    and "2 \<le> k \<Longrightarrow> same_bits H k' idx' tb (set_center_trace idx v tb)"
    and "same_bits H k' idx' tb (traceback_block H k idx tb)"
    and "same_bits H k' idx' tb (traceback_unblock H k idx tb)"
proof -
  note w = set_trace_bits(2) [OF assms(1-3) _ _ assms(4,5)]
  have ge: "3 \<le> bits_length k" if "1 \<le> k" using that by (simp add: bits_length_def bucket_constants)
  show "1 \<le> k \<Longrightarrow> same_bits H k' idx' tb (set_left_trace H k idx v tb)"
    unfolding set_left_trace_def by (rule w [where a = 0]) (use ge in \<open>simp_all add: trace_offsets\<close>)
  show "1 \<le> k \<Longrightarrow> same_bits H k' idx' tb (set_right_trace H k idx v tb)"
    unfolding set_right_trace_def by (rule w [where a = 1]) (use ge in \<open>simp_all add: trace_offsets\<close>)
  show c: "2 \<le> k \<Longrightarrow> same_bits H k' idx' tb (set_center_trace idx v tb)" for v
    unfolding set_center_trace_def by (rule w [where a = 2]) (use bits_lengths [of k] in \<open>simp_all add: trace_offsets(3) [where H = H and k = k and idx = idx]\<close>)
  have n: "k = 1 \<Longrightarrow> same_bits H k' idx' tb (set_next_base_block_bit H idx v tb)" for v
    unfolding set_next_base_block_bit_def by (rule w [where a = 2]) (use ge in \<open>simp_all add: trace_offsets\<close>)
  have b: "k = 0 \<Longrightarrow> same_bits H k' idx' tb (set_base_block_bit H idx v tb)" for v
    unfolding set_base_block_bit_def by (rule w [where a = 0]) (use bits_lengths [of k] in \<open>simp_all add: trace_offsets\<close>)
  have k: "\<not> 2 \<le> k \<Longrightarrow> k \<noteq> 1 \<Longrightarrow> k = 0" by linarith
  show "same_bits H k' idx' tb (traceback_block H k idx tb)" "same_bits H k' idx' tb (traceback_unblock H k idx tb)"
    using c n b k unfolding traceback_block_def traceback_unblock_def by simp_all
qed

lemma writers_own_bits:
  assumes "at_level H k idx" and "2 \<le> H" and "length tb = bool_array_size H"
  shows "1 \<le> k \<Longrightarrow> v \<in> {LEFT_TRACEBACK, RIGHT_TRACEBACK} \<Longrightarrow>
      node_bit H k idx (set_left_trace H k idx v tb) i = (if i = 0 then v = RIGHT_TRACEBACK else node_bit H k idx tb i)"
    and "1 \<le> k \<Longrightarrow> v \<in> {LEFT_TRACEBACK, RIGHT_TRACEBACK} \<Longrightarrow>
      node_bit H k idx (set_right_trace H k idx v tb) i = (if i = 1 then v = RIGHT_TRACEBACK else node_bit H k idx tb i)"
    and "2 \<le> k \<Longrightarrow> v \<in> {LEFT_TRACEBACK, RIGHT_TRACEBACK, MID_TRACEBACK, MID_BLOCKED} \<Longrightarrow>
      node_bit H k idx (set_center_trace idx v tb) i =
        (if i = 2 then v \<in> {RIGHT_TRACEBACK, MID_BLOCKED} else if i = 3 then v \<in> {MID_TRACEBACK, MID_BLOCKED} else node_bit H k idx tb i)"
    and "k = 1 \<Longrightarrow> v \<in> {UNBLOCKED, BLOCKED} \<Longrightarrow>
      node_bit H k idx (set_next_base_block_bit H idx v tb) i = (if i = 2 then v = BLOCKED else node_bit H k idx tb i)"
    and "k = 0 \<Longrightarrow> v \<in> {UNBLOCKED, BLOCKED} \<Longrightarrow>
      node_bit H k idx (set_base_block_bit H idx v tb) i = (if i = 0 then v = BLOCKED else node_bit H k idx tb i)"
proof -
  note w = set_trace_bits(1) [OF assms(1-3)]
  have ge: "3 \<le> bits_length k" if "1 \<le> k" using that by (simp add: bits_length_def bucket_constants)
  have one: "boolify (Suc 0) v ! 0 = (v = Suc 0)" if "v \<in> {0, Suc 0}" for v using that boolify_values by auto
  show "node_bit H k idx (set_left_trace H k idx v tb) i = (if i = 0 then v = RIGHT_TRACEBACK else node_bit H k idx tb i)"
    if "1 \<le> k" "v \<in> {LEFT_TRACEBACK, RIGHT_TRACEBACK}"
    using w [of "left_bit_offset H k idx" 0 1 v i] that ge one [of v] unfolding set_left_trace_def by (auto simp: trace_offsets trace_ids)
  show "node_bit H k idx (set_right_trace H k idx v tb) i = (if i = 1 then v = RIGHT_TRACEBACK else node_bit H k idx tb i)"
    if "1 \<le> k" "v \<in> {LEFT_TRACEBACK, RIGHT_TRACEBACK}"
    using w [of "right_bit_offset H k idx" 1 1 v i] that ge one [of v] unfolding set_right_trace_def by (auto simp: trace_offsets trace_ids le_Suc_eq)
  show "node_bit H k idx (set_center_trace idx v tb) i =
      (if i = 2 then v \<in> {RIGHT_TRACEBACK, MID_BLOCKED} else if i = 3 then v \<in> {MID_TRACEBACK, MID_BLOCKED} else node_bit H k idx tb i)"
    if "2 \<le> k" "v \<in> {LEFT_TRACEBACK, RIGHT_TRACEBACK, MID_TRACEBACK, MID_BLOCKED}"
  proof -
    have "node_bit H k idx (set_center_trace idx v tb) i = (if 2 \<le> i \<and> i < 4 then boolify 2 v ! (i - 2) else node_bit H k idx tb i)"
      using w [of "center_bit_offset idx" 2 2 v i] that(1) bits_lengths(1) [of k] trace_offsets(3) [where H = H and k = k and idx = idx] unfolding set_center_trace_def by simp
    moreover have "boolify 2 v ! 0 = (v \<in> {RIGHT_TRACEBACK, MID_BLOCKED})" "boolify 2 v ! 1 = (v \<in> {MID_TRACEBACK, MID_BLOCKED})"
      using that(2) by (auto simp: trace_ids boolify_values)
    moreover have "i = 2 \<or> i = 3 \<longleftrightarrow> 2 \<le> i \<and> i < 4" by auto
    ultimately show ?thesis by auto
  qed
  show "node_bit H k idx (set_next_base_block_bit H idx v tb) i = (if i = 2 then v = BLOCKED else node_bit H k idx tb i)"
    if "k = 1" "v \<in> {UNBLOCKED, BLOCKED}"
    using w [of "next_base_blocked_bit_offset H idx" 2 1 v i] that ge one [of v] unfolding set_next_base_block_bit_def
    by (auto simp: trace_offsets trace_ids)
  show "node_bit H k idx (set_base_block_bit H idx v tb) i = (if i = 0 then v = BLOCKED else node_bit H k idx tb i)"
    if "k = 0" "v \<in> {UNBLOCKED, BLOCKED}"
    using w [of "base_blocked_bit_offset H idx" 0 1 v i] that bits_lengths(3) [of k] one [of v] unfolding set_base_block_bit_def
    by (auto simp: trace_offsets trace_ids)
qed

end
