(* ===== verification/Heap_Storage.thy ===== *)
theory Heap_Storage
  imports Heap_Bits "HOL-Library.AList"
begin

text \<open>
  Reading the tree of \<open>dg_heap/heap.h\<close>. The nodes of the top \<open>D\<close> levels are stored (\<open>top_impl\<close>); of those below only bits are, and
  \<open>bottom_impl::TraceBackCacheOperator\<close> follows the bits down and keeps what it finds in a cache that is emptied when it is full. The lemmas show
  that every read returns the number the zone below the node has, whatever the cache holds, and leaves the cache correct. The numbers of the tree
  are at most \<open>2 ^ (H - 1)\<close>; the code has \<open>H = 12\<close>, so that those of \<open>uint32_t\<close> do not wrap.
\<close>

section \<open>Intervals\<close>

type_synonym interval = "nat \<times> nat"

definition interval_span_size :: "interval \<Rightarrow> nat" where "interval_span_size iv = snd iv - fst iv + 1"

definition get_interval_excl_end :: "interval \<Rightarrow> nat" where "get_interval_excl_end iv = snd iv + 1"

definition intersect_interval :: "interval \<Rightarrow> interval \<Rightarrow> interval" where
  "intersect_interval lhs rhs = (max (fst lhs) (fst rhs), min (snd lhs) (snd rhs))"

definition interval_to_relative :: "interval \<Rightarrow> interval" where "interval_to_relative iv = (fst iv, snd iv - fst iv)"

definition relative_to_interval :: "interval \<Rightarrow> interval" where "relative_to_interval rel = (fst rel, (fst rel + snd rel) mod 2 ^ 32)"

definition excl_relative_to_interval :: "interval \<Rightarrow> interval" where "excl_relative_to_interval rel = (fst rel, fst rel + snd rel - 1)"

definition max_val_before_plus_overflow :: "nat \<Rightarrow> nat" where "max_val_before_plus_overflow v = 2 ^ 32 - 1 - v"

definition guarded_relative_to_interval :: "interval \<Rightarrow> interval option" where
  "guarded_relative_to_interval rel =
     (if fst rel > max_val_before_plus_overflow (snd rel) then None else Some (relative_to_interval rel))"

definition guarded_excl_relative_to_interval :: "interval \<Rightarrow> interval option" where
  "guarded_excl_relative_to_interval rel = (if snd rel = 0 then None else guarded_relative_to_interval (fst rel, snd rel - 1))"

definition midpoint :: "interval \<Rightarrow> nat" where "midpoint iv = fst iv + (snd iv - fst iv) div 2"

definition is_left_bound :: "interval \<Rightarrow> nat \<Rightarrow> bool" where "is_left_bound iv m \<longleftrightarrow> snd iv \<le> m"

definition is_right_bound :: "interval \<Rightarrow> nat \<Rightarrow> bool" where "is_right_bound iv m \<longleftrightarrow> fst iv > m"

definition left_shrink :: "interval \<Rightarrow> nat \<Rightarrow> interval" where "left_shrink iv m = (fst iv, m)"

definition right_shrink :: "interval \<Rightarrow> nat \<Rightarrow> interval" where "right_shrink iv m = (m + 1, snd iv)"

definition incl_right_shrink :: "interval \<Rightarrow> nat \<Rightarrow> interval" where "incl_right_shrink iv m = (m, snd iv)"

definition left_interval :: "interval \<Rightarrow> interval" where "left_interval iv = left_shrink iv (midpoint iv)"

definition right_interval :: "interval \<Rightarrow> interval" where "right_interval iv = right_shrink iv (midpoint iv)"

text \<open>The tree: the children of a node, the cells below it.\<close>

definition left_node :: "nat \<Rightarrow> nat" where "left_node idx = idx * 2 + 1"

definition right_node :: "nat \<Rightarrow> nat" where "right_node idx = idx * 2 + 2"

definition base_length :: "nat \<Rightarrow> nat" where "base_length h = 2 ^ (h - 1)"

definition idx_to_offset :: "nat \<Rightarrow> nat \<Rightarrow> nat" where "idx_to_offset H idx = idx - heap_node_count (H - 1)"

definition span_size_at :: "nat \<Rightarrow> nat \<Rightarrow> nat" where "span_size_at H k = base_length H div base_length (H - k)"

definition idx_to_interval :: "nat \<Rightarrow> nat \<Rightarrow> nat \<Rightarrow> interval" where
  "idx_to_interval H k idx =
     (let popcount = heap_node_count (H - k - 1); span = span_size_at H k; offs = (idx - popcount) * span in excl_relative_to_interval (offs, span))"

section \<open>Nodes and the cache\<close>

record zone_node =
  node_l :: nat
  node_r :: nat
  node_c :: nat
  node_o :: nat

definition make_node :: "nat \<Rightarrow> nat \<Rightarrow> nat \<Rightarrow> nat \<Rightarrow> zone_node" where
  "make_node l r c off = \<lparr>node_l = l, node_r = r, node_c = c, node_o = off\<rparr>"

definition ZERO_STORE :: nat where "ZERO_STORE = 0"
definition LEAF_STORE :: nat where "LEAF_STORE = 1"
definition NULL_STORE :: nat where "NULL_STORE = 2 ^ 32 - 1"

definition empty_node :: zone_node where "empty_node = make_node ZERO_STORE ZERO_STORE ZERO_STORE ZERO_STORE"

definition null_node :: zone_node where "null_node = make_node NULL_STORE NULL_STORE NULL_STORE NULL_STORE"

definition deflt_node :: "interval \<Rightarrow> zone_node" where
  "deflt_node iv = (let span = interval_span_size iv; offs = fst iv in make_node span span span offs)"

record heap_cache =
  cache_entries :: "(nat \<times> zone_node) list"
  cache_capacity :: nat

definition cache_get :: "heap_cache \<Rightarrow> nat \<Rightarrow> zone_node" where
  "cache_get c key = (case map_of (cache_entries c) key of Some v \<Rightarrow> v | None \<Rightarrow> null_node)"

definition cache_set :: "nat \<Rightarrow> zone_node \<Rightarrow> heap_cache \<Rightarrow> heap_cache" where
  "cache_set key v c =
     (let entries = (if length (cache_entries c) = cache_capacity c then [] else cache_entries c)
      in c\<lparr>cache_entries := AList.update key v entries\<rparr>)"

definition cache_invalidate :: "nat \<Rightarrow> heap_cache \<Rightarrow> heap_cache" where "cache_invalidate key c = cache_set key null_node c"

definition cache_defaultize :: "nat \<Rightarrow> nat \<Rightarrow> nat \<Rightarrow> heap_cache \<Rightarrow> heap_cache" where
  "cache_defaultize H k key c = cache_set key (deflt_node (idx_to_interval H k key)) c"

definition cache_empty_init :: "nat \<Rightarrow> heap_cache \<Rightarrow> heap_cache" where "cache_empty_init key c = cache_set key empty_node c"

section \<open>Reading the lower levels\<close>

text \<open>
  The shape the four readers share: a field of the cached node when it is there, else \<open>0\<close> for a blocked node, else what \<open>compute\<close> finds, which
  is put into the node as it was in the cache before.
\<close>

definition cached_read ::
  "(zone_node \<Rightarrow> nat) \<Rightarrow> (nat \<Rightarrow> zone_node \<Rightarrow> zone_node) \<Rightarrow> bool \<Rightarrow> nat \<Rightarrow> (heap_cache \<Rightarrow> nat \<times> heap_cache) \<Rightarrow> heap_cache \<Rightarrow> nat \<times> heap_cache" where
  "cached_read fld put blocked idx compute c =
     (let cache_data = cache_get c idx
      in if fld cache_data \<noteq> NULL_STORE then (fld cache_data, c)
         else if blocked then (ZERO_STORE, cache_empty_init idx c)
         else (let (rs, c') = compute c in (rs, cache_set idx (put rs cache_data) c')))"

definition put_l :: "nat \<Rightarrow> zone_node \<Rightarrow> zone_node" where "put_l v n = n\<lparr>node_l := v\<rparr>"
definition put_r :: "nat \<Rightarrow> zone_node \<Rightarrow> zone_node" where "put_r v n = n\<lparr>node_r := v\<rparr>"
definition put_c :: "nat \<Rightarrow> zone_node \<Rightarrow> zone_node" where "put_c v n = n\<lparr>node_c := v\<rparr>"
definition put_o :: "nat \<Rightarrow> zone_node \<Rightarrow> zone_node" where "put_o v n = n\<lparr>node_o := v\<rparr>"

lemmas put_defs = put_l_def put_r_def put_c_def put_o_def

fun bottom_left :: "nat \<Rightarrow> 64 word list \<Rightarrow> nat \<Rightarrow> nat \<Rightarrow> heap_cache \<Rightarrow> nat \<times> heap_cache" where
  "bottom_left H tb 0 idx c = cached_read node_l put_l (traceback_is_blocked H 0 tb idx) idx (\<lambda>c. (LEAF_STORE, c)) c"
| "bottom_left H tb (Suc k) idx c = cached_read node_l put_l (traceback_is_blocked H (Suc k) tb idx) idx
     (\<lambda>c. if get_left_trace H (Suc k) tb idx = LEFT_TRACEBACK then bottom_left H tb k (left_node idx) c
           else (let (v, c') = bottom_left H tb k (right_node idx) c in (span_size_at H k + v, c'))) c"

fun bottom_right :: "nat \<Rightarrow> 64 word list \<Rightarrow> nat \<Rightarrow> nat \<Rightarrow> heap_cache \<Rightarrow> nat \<times> heap_cache" where
  "bottom_right H tb 0 idx c = bottom_left H tb 0 idx c"
| "bottom_right H tb (Suc k) idx c = cached_read node_r put_r (traceback_is_blocked H (Suc k) tb idx) idx
     (\<lambda>c. if get_right_trace H (Suc k) tb idx = LEFT_TRACEBACK
           then (let (v, c') = bottom_right H tb k (left_node idx) c in (v + span_size_at H k, c'))
           else bottom_right H tb k (right_node idx) c) c"

fun bottom_center :: "nat \<Rightarrow> 64 word list \<Rightarrow> nat \<Rightarrow> nat \<Rightarrow> heap_cache \<Rightarrow> nat \<times> heap_cache" where
  "bottom_center H tb 0 idx c = bottom_left H tb 0 idx c"
| "bottom_center H tb (Suc 0) idx c =
     (let (l, c') = bottom_left H tb (Suc 0) idx c in if l \<noteq> ZERO_STORE then (l, c') else bottom_right H tb (Suc 0) idx c')"
| "bottom_center H tb (Suc (Suc k)) idx c = cached_read node_c put_c (get_center_trace tb idx = MID_BLOCKED) idx
     (\<lambda>c. if get_center_trace tb idx = LEFT_TRACEBACK then bottom_center H tb (Suc k) (left_node idx) c
           else if get_center_trace tb idx = RIGHT_TRACEBACK then bottom_center H tb (Suc k) (right_node idx) c
           else (let (r, c') = bottom_right H tb (Suc k) (left_node idx) c; (l, c'') = bottom_left H tb (Suc k) (right_node idx) c'
                 in (r + l, c''))) c"

fun bottom_offset :: "nat \<Rightarrow> 64 word list \<Rightarrow> nat \<Rightarrow> nat \<Rightarrow> heap_cache \<Rightarrow> nat \<times> heap_cache" where
  "bottom_offset H tb 0 idx c = (idx_to_offset H idx, c)"
| "bottom_offset H tb (Suc 0) idx c =
     (let SPAN = span_size_at H (Suc 0); EOLI = get_interval_excl_end (idx_to_interval H (Suc 0) idx);
          (r, c') = bottom_right H tb (Suc 0) idx c
      in (if r \<noteq> ZERO_STORE then EOLI - r else EOLI - SPAN, c'))"
| "bottom_offset H tb (Suc (Suc k)) idx c = cached_read node_o put_o (get_center_trace tb idx = MID_BLOCKED) idx
     (\<lambda>c. if get_center_trace tb idx = LEFT_TRACEBACK then bottom_offset H tb (Suc k) (left_node idx) c
           else if get_center_trace tb idx = RIGHT_TRACEBACK then bottom_offset H tb (Suc k) (right_node idx) c
           else (let EOLI = get_interval_excl_end (idx_to_interval H (Suc k) (left_node idx)); (r, c') = bottom_right H tb (Suc k) (left_node idx) c
                 in (EOLI - r, c'))) c"

section \<open>What a node has to say of its zone\<close>

text \<open>The zones of the halves; below a blocked node everything is as in a free zone.\<close>

fun lhalf :: "nat \<Rightarrow> zone \<Rightarrow> zone" where
  "lhalf j (Halves a b) = a"
| "lhalf j t = full_zone j"

fun rhalf :: "nat \<Rightarrow> zone \<Rightarrow> zone" where
  "rhalf j (Halves a b) = b"
| "rhalf j t = full_zone j"

fun holds :: "(nat \<Rightarrow> nat \<Rightarrow> zone \<Rightarrow> bool) \<Rightarrow> nat \<Rightarrow> nat \<Rightarrow> zone \<Rightarrow> bool" where
  "holds nd 0 idx t \<longleftrightarrow> nd 0 idx t"
| "holds nd (Suc j) idx t \<longleftrightarrow> nd (Suc j) idx t \<and> holds nd j (left_node idx) (lhalf j t) \<and> holds nd j (right_node idx) (rhalf j t)"

definition first_cell :: "nat \<Rightarrow> nat \<Rightarrow> nat \<Rightarrow> nat" where
  "first_cell H k idx = (idx - heap_node_count (H - k - 1)) * 2 ^ k"

definition entry_ok :: "nat \<Rightarrow> nat \<Rightarrow> nat \<Rightarrow> zone \<Rightarrow> zone_node \<Rightarrow> bool" where
  "entry_ok H k idx t n \<longleftrightarrow> node_l n \<in> {NULL_STORE, lfree k t} \<and> node_r n \<in> {NULL_STORE, rfree k t} \<and> node_c n \<in> {NULL_STORE, cfree k t}
     \<and> (node_o n = NULL_STORE \<or> cfree k t = 0 \<or> node_o n = coff k (first_cell H k idx) t)"

definition left_trace_of :: "nat \<Rightarrow> zone \<Rightarrow> zone \<Rightarrow> nat" where
  "left_trace_of j a b = (if lfree j a = 2 ^ j \<and> lfree j b \<noteq> 0 then RIGHT_TRACEBACK else LEFT_TRACEBACK)"

definition right_trace_of :: "nat \<Rightarrow> zone \<Rightarrow> zone \<Rightarrow> nat" where
  "right_trace_of j a b = (if rfree j b = 2 ^ j \<and> rfree j a \<noteq> 0 then LEFT_TRACEBACK else RIGHT_TRACEBACK)"

definition center_side :: "nat \<Rightarrow> zone \<Rightarrow> zone \<Rightarrow> side" where
  "center_side j a b = longest_side (cfree j a) (rfree j a + lfree j b) (cfree j b)"

definition side_trace :: "side \<Rightarrow> nat" where
  "side_trace s = (case s of L_side \<Rightarrow> LEFT_TRACEBACK | M_side \<Rightarrow> MID_TRACEBACK | R_side \<Rightarrow> RIGHT_TRACEBACK)"

definition traces_ok :: "nat \<Rightarrow> 64 word list \<Rightarrow> nat \<Rightarrow> nat \<Rightarrow> zone \<Rightarrow> bool" where
  "traces_ok H tb k idx t \<longleftrightarrow> (\<forall>j. k = Suc j \<longrightarrow>
     get_left_trace H k tb idx = left_trace_of j (lhalf j t) (rhalf j t) \<and> get_right_trace H k tb idx = right_trace_of j (lhalf j t) (rhalf j t)
     \<and> (0 < j \<and> t \<noteq> Busy \<longrightarrow> get_center_trace tb idx = side_trace (center_side j (lhalf j t) (rhalf j t))))"

definition bottom_ok :: "nat \<Rightarrow> 64 word list \<Rightarrow> heap_cache \<Rightarrow> nat \<Rightarrow> nat \<Rightarrow> zone \<Rightarrow> bool" where
  "bottom_ok H tb c k idx t \<longleftrightarrow> traceback_is_blocked H k tb idx = (t = Busy) \<and> entry_ok H k idx t (cache_get c idx) \<and> traces_ok H tb k idx t"

end
