(* ===== verification/Heap_Reading.thy ===== *)
theory Heap_Reading
  imports Heap_Storage
begin

text \<open>
  The readers of \<open>Heap_Storage\<close> return what the zones below a node have: the lemmas follow the recursion of the readers once for every field, over one lemma on
  \<open>cached_read\<close>. Filling and emptying the cache keeps every node correct (\<open>cache_frame\<close>).
\<close>

section \<open>Nodes below a node\<close>

definition below :: "nat \<Rightarrow> nat \<Rightarrow> bool" where
  "below x y \<longleftrightarrow> (\<exists>d. (y + 1) div 2 ^ d = x + 1)"

lemma below_self [simp]: "below x x"
  unfolding below_def by (rule exI [of _ 0]) simp

lemma below_child:
  assumes "below (left_node x) y \<or> below (right_node x) y"
  shows "below x y" and "y \<noteq> x"
proof -
  obtain d where d: "(y + 1) div 2 ^ d = left_node x + 1 \<or> (y + 1) div 2 ^ d = right_node x + 1"
    using assms by (auto simp: below_def)
  have "(y + 1) div 2 ^ Suc d = ((y + 1) div 2 ^ d) div 2" by (metis div_mult2_eq mult.commute power_Suc)
  also have "\<dots> = x + 1" using d by (auto simp: left_node_def right_node_def)
  finally show "below x y" unfolding below_def by blast
  have "(y + 1) div 2 ^ d \<le> y + 1" by simp
  moreover have "2 * x + 2 \<le> (y + 1) div 2 ^ d" using d by (auto simp: left_node_def right_node_def)
  ultimately show "y \<noteq> x" by linarith
qed

lemma below_left_node: "below (left_node x) y \<Longrightarrow> below x y" and below_right_node: "below (right_node x) y \<Longrightarrow> below x y"
  and left_not_root: "below (left_node x) y \<Longrightarrow> y \<noteq> x" and right_not_root: "below (right_node x) y \<Longrightarrow> y \<noteq> x"
  by (rule below_child, rule disjI1, assumption, rule below_child, rule disjI2, assumption, rule below_child, rule disjI1, assumption,
      rule below_child, rule disjI2, assumption)

lemma below_disjoint:
  assumes "below (left_node x) y"
  shows "\<not> below (right_node x) y"
proof
  assume "below (right_node x) y"
  then obtain e where e: "(y + 1) div 2 ^ e = right_node x + 1" by (auto simp: below_def)
  obtain d where d: "(y + 1) div 2 ^ d = left_node x + 1" using assms by (auto simp: below_def)
  have split: "n div 2 ^ (i + f) \<le> n div 2 ^ i div 2" if "0 < f" for n i f :: nat
  proof -
    have "n div 2 ^ (i + f) = n div 2 ^ i div 2 ^ f" by (simp add: power_add div_mult2_eq)
    moreover have "(2 :: nat) ^ 1 \<le> 2 ^ f" using that by (intro power_increasing) auto
    ultimately show ?thesis by (simp add: div_le_mono2)
  qed
  consider "d = e" | f where "0 < f" "e = d + f" | f where "0 < f" "d = e + f"
    by (metis less_imp_add_positive linorder_neqE_nat)
  then show False
  proof cases
    case 1
    then show ?thesis using d e by (simp add: left_node_def right_node_def)
  next
    case 2
    then show ?thesis using split [of f "y + 1" d] d e by (simp add: left_node_def right_node_def)
  next
    case 3
    then show ?thesis using split [of f "y + 1" e] d e by (simp add: left_node_def right_node_def)
  qed
qed

lemma at_level_nodes:
  assumes "at_level H (Suc k) idx"
  shows "at_level H k (left_node idx)" "at_level H k (right_node idx)"
  using at_level_children [OF assms] by (simp_all add: left_node_def right_node_def mult.commute)

lemma holds_mono:
  assumes "holds nd k idx t" and "at_level H k idx"
    and "\<And>k' x z. at_level H k' x \<Longrightarrow> k' \<le> k \<Longrightarrow> below idx x \<Longrightarrow> nd k' x z \<Longrightarrow> nd' k' x z"
  shows "holds nd' k idx t"
  using assms
proof (induction k arbitrary: idx t)
  case (Suc k)
  have held: "nd (Suc k) idx t" "holds nd k (left_node idx) (lhalf k t)" "holds nd k (right_node idx) (rhalf k t)" using Suc.prems(1) by simp_all
  have "holds nd' k (left_node idx) (lhalf k t)"
    by (rule Suc.IH [OF held(2) at_level_nodes(1) [OF Suc.prems(2)]]) (rule Suc.prems(3), simp_all only: below_left_node)
  moreover have "holds nd' k (right_node idx) (rhalf k t)"
    by (rule Suc.IH [OF held(3) at_level_nodes(2) [OF Suc.prems(2)]]) (rule Suc.prems(3), simp_all only: below_right_node)
  moreover have "nd' (Suc k) idx t" by (rule Suc.prems(3) [OF Suc.prems(2) _ _ held(1)]) simp_all
  ultimately show ?case by simp
qed simp

lemma holds_root: "holds nd k idx t \<Longrightarrow> nd k idx t"
  by (cases k) auto

section \<open>Numbers of the tree\<close>

lemma span_size_at: "k < H \<Longrightarrow> span_size_at H k = 2 ^ k"
proof -
  assume "k < H"
  then have "H - 1 = (H - k - 1) + k" by simp
  then have "(2 :: nat) ^ (H - 1) = 2 ^ (H - k - 1) * 2 ^ k" by (metis power_add)
  then show "span_size_at H k = 2 ^ k" by (simp add: span_size_at_def base_length_def)
qed

lemma first_cell_children:
  assumes "at_level H (Suc k) idx"
  shows "first_cell H k (left_node idx) = first_cell H (Suc k) idx" and "first_cell H k (right_node idx) = first_cell H (Suc k) idx + 2 ^ k"
proof -
  have "H - k - 1 = Suc (H - Suc k - 1)" using assms by (auto simp: at_level_def)
  then have pow: "(2 :: nat) ^ (H - k - 1) = 2 * 2 ^ (H - Suc k - 1)" by (metis power_Suc)
  have le: "2 ^ (H - Suc k - 1) \<le> idx + 1" using assms by (simp add: at_level_def)
  have "left_node idx - (2 * p - 1) = 2 * (idx - (p - 1))" "right_node idx - (2 * p - 1) = 2 * (idx - (p - 1)) + 1"
    if "p \<le> idx + 1" "1 \<le> p" for p using that by (simp_all add: left_node_def right_node_def algebra_simps)
  from this [OF le]
  have "left_node idx - heap_node_count (H - k - 1) = 2 * (idx - heap_node_count (H - Suc k - 1))"
    "right_node idx - heap_node_count (H - k - 1) = 2 * (idx - heap_node_count (H - Suc k - 1)) + 1"
    unfolding heap_node_count_def pow by simp_all
  then show "first_cell H k (left_node idx) = first_cell H (Suc k) idx" "first_cell H k (right_node idx) = first_cell H (Suc k) idx + 2 ^ k"
    by (simp_all add: first_cell_def)
qed

lemma idx_to_interval: "k < H \<Longrightarrow> idx_to_interval H k idx = (first_cell H k idx, first_cell H k idx + 2 ^ k - 1)"
  by (simp add: idx_to_interval_def first_cell_def span_size_at excl_relative_to_interval_def Let_def)

lemma excl_end_idx_to_interval: "k < H \<Longrightarrow> get_interval_excl_end (idx_to_interval H k idx) = first_cell H k idx + 2 ^ k"
  by (simp add: idx_to_interval get_interval_excl_end_def)

lemma wf_halves:
  assumes "wf_zone (Suc k) t"
  shows "wf_zone k (lhalf k t)" "wf_zone k (rhalf k t)" "t \<noteq> Busy \<Longrightarrow> t = Halves (lhalf k t) (rhalf k t)"
  using assms by (cases t; simp)+

section \<open>The cache\<close>

lemma cache_get_set:
  "cache_get (cache_set key v c) x = (if x = key then v else if length (cache_entries c) = cache_capacity c then null_node else cache_get c x)"
  by (auto simp: cache_get_def cache_set_def update_conv Let_def)

text \<open>Only nodes below \<open>idx\<close> get an entry they did not have; any entry may go.\<close>

definition cache_frame :: "(nat \<Rightarrow> bool) \<Rightarrow> heap_cache \<Rightarrow> heap_cache \<Rightarrow> bool" where
  "cache_frame out c c' \<longleftrightarrow> (\<forall>x. out x \<longrightarrow> cache_get c' x \<in> {cache_get c x, null_node})"

lemma cache_frame_refl [simp]: "cache_frame out c c"
  by (simp add: cache_frame_def)

lemma cache_frame_trans: "cache_frame out c c' \<Longrightarrow> cache_frame out c' c'' \<Longrightarrow> cache_frame out c c''"
  unfolding cache_frame_def by fastforce

lemma cache_frame_mono: "cache_frame out c c' \<Longrightarrow> (\<And>x. out' x \<Longrightarrow> out x) \<Longrightarrow> cache_frame out' c c'"
  unfolding cache_frame_def by blast

lemma cache_frame_set: "(\<And>x. out x \<Longrightarrow> x \<noteq> key) \<Longrightarrow> cache_frame out c (cache_set key v c)"
  by (auto simp: cache_frame_def cache_get_set)

lemma null_entry [simp]: "entry_ok H k idx t null_node"
  by (simp add: entry_ok_def null_node_def make_node_def)

lemma bottom_ok_frame: "bottom_ok H tb c k x z \<Longrightarrow> cache_get c' x \<in> {cache_get c x, null_node} \<Longrightarrow> bottom_ok H tb c' k x z"
  by (auto simp: bottom_ok_def)

lemma holds_cache_frame:
  assumes "holds (bottom_ok H tb c) k idx t" and "at_level H k idx" and "cache_frame out c c'" and "\<And>x. below idx x \<Longrightarrow> out x"
  shows "holds (bottom_ok H tb c') k idx t"
  by (rule holds_mono [OF assms(1,2)]) (rule bottom_ok_frame, use assms(3,4) in \<open>auto simp: cache_frame_def\<close>)

text \<open>Outside the zone of a node; strictly inside it, the node itself kept.\<close>

abbreviation outside :: "nat \<Rightarrow> nat \<Rightarrow> bool" where "outside idx x \<equiv> \<not> below idx x"
abbreviation not_inner :: "nat \<Rightarrow> nat \<Rightarrow> bool" where "not_inner idx x \<equiv> x = idx \<or> \<not> below idx x"

text \<open>The result of a reader: a number that is right, a cache in which the nodes below are right.\<close>

definition read_ok :: "nat \<Rightarrow> 64 word list \<Rightarrow> nat \<Rightarrow> nat \<Rightarrow> zone \<Rightarrow> heap_cache \<Rightarrow> (nat \<Rightarrow> bool) \<Rightarrow> nat \<times> heap_cache \<Rightarrow> bool" where
  "read_ok H tb k idx t c P r \<longleftrightarrow> P (fst r) \<and> holds (bottom_ok H tb (snd r)) k idx t \<and> cache_frame (outside idx) c (snd r)"

definition inner_ok :: "nat \<Rightarrow> 64 word list \<Rightarrow> nat \<Rightarrow> nat \<Rightarrow> zone \<Rightarrow> heap_cache \<Rightarrow> (nat \<Rightarrow> bool) \<Rightarrow> nat \<times> heap_cache \<Rightarrow> bool" where
  "inner_ok H tb k idx t c P r \<longleftrightarrow> P (fst r) \<and> holds (bottom_ok H tb (snd r)) k idx t \<and> cache_frame (not_inner idx) c (snd r)"

lemma inner_left:
  assumes "holds (bottom_ok H tb c) (Suc k) idx t" and level: "at_level H (Suc k) idx"
    and "read_ok H tb k (left_node idx) (lhalf k t) c P r" and "\<And>v. P v \<Longrightarrow> Q v"
  shows "inner_ok H tb (Suc k) idx t c Q r"
proof -
  have frame: "cache_frame (outside (left_node idx)) c (snd r)" using assms(3) by (simp add: read_ok_def)
  have "cache_frame (not_inner idx) c (snd r)" by (rule cache_frame_mono [OF frame]) (blast dest: below_left_node below_right_node left_not_root right_not_root)
  moreover have "bottom_ok H tb (snd r) (Suc k) idx t"
    by (rule bottom_ok_frame [OF holds_root [OF assms(1)]]) (use calculation in \<open>simp add: cache_frame_def\<close>)
  moreover have "holds (bottom_ok H tb (snd r)) k (right_node idx) (rhalf k t)"
    by (rule holds_cache_frame [OF _ _ frame]) (use assms(1) at_level_nodes [OF level] below_disjoint in auto)
  ultimately show ?thesis using assms(3,4) by (simp add: inner_ok_def read_ok_def)
qed

lemma inner_right:
  assumes "holds (bottom_ok H tb c) (Suc k) idx t" and level: "at_level H (Suc k) idx"
    and "read_ok H tb k (right_node idx) (rhalf k t) c P r" and "\<And>v. P v \<Longrightarrow> Q v"
  shows "inner_ok H tb (Suc k) idx t c Q r"
proof -
  have frame: "cache_frame (outside (right_node idx)) c (snd r)" using assms(3) by (simp add: read_ok_def)
  have "cache_frame (not_inner idx) c (snd r)" by (rule cache_frame_mono [OF frame]) (blast dest: below_left_node below_right_node left_not_root right_not_root)
  moreover have "bottom_ok H tb (snd r) (Suc k) idx t"
    by (rule bottom_ok_frame [OF holds_root [OF assms(1)]]) (use calculation in \<open>simp add: cache_frame_def\<close>)
  moreover have "holds (bottom_ok H tb (snd r)) k (left_node idx) (lhalf k t)"
    by (rule holds_cache_frame [OF _ _ frame]) (use assms(1) at_level_nodes [OF level] below_disjoint in auto)
  ultimately show ?thesis using assms(3,4) by (simp add: inner_ok_def read_ok_def)
qed

lemma inner_trans:
  "inner_ok H tb k idx t c P r \<Longrightarrow> inner_ok H tb k idx t (snd r) Q r' \<Longrightarrow> inner_ok H tb k idx t c Q r'"
  unfolding inner_ok_def using cache_frame_trans by blast

lemma inner_map: "inner_ok H tb k idx t c P r \<Longrightarrow> Q v \<Longrightarrow> snd r = c' \<Longrightarrow> inner_ok H tb k idx t c Q (v, c')"
  by (auto simp: inner_ok_def)

lemma cached_read_ok:
  assumes held: "holds (bottom_ok H tb c) k idx t" and level: "at_level H k idx" and "blocked = (t = Busy)"
    and "\<And>n. entry_ok H k idx t n \<Longrightarrow> fld n \<noteq> NULL_STORE \<Longrightarrow> P (fld n)" and "t = Busy \<Longrightarrow> P 0"
    and "\<And>n v. entry_ok H k idx t n \<Longrightarrow> P v \<Longrightarrow> entry_ok H k idx t (put v n)"
    and compute: "t \<noteq> Busy \<Longrightarrow> inner_ok H tb k idx t c P (compute c)"
  shows "read_ok H tb k idx t c P (cached_read fld put blocked idx compute c)"
proof -
  have entry: "entry_ok H k idx t (cache_get c idx)" using holds_root [OF held] by (simp add: bottom_ok_def)
  have set: "read_ok H tb k idx t c P (v, cache_set idx n c')"
    if "holds (bottom_ok H tb c') k idx t" "cache_frame (not_inner idx) c c'" "entry_ok H k idx t n" "P v" for v n c'
  proof -
    have kids: "holds (bottom_ok H tb (cache_set idx n c')) j x z" if "holds (bottom_ok H tb c') j x z" "at_level H j x" "\<And>y. below x y \<Longrightarrow> y \<noteq> idx" for j x z
      by (rule holds_cache_frame [OF that(1,2), of "\<lambda>y. y \<noteq> idx"]) (use that(3) in \<open>auto intro: cache_frame_set\<close>)
    have own: "bottom_ok H tb (cache_set idx n c') k idx t"
      using holds_root [OF \<open>holds (bottom_ok H tb c') k idx t\<close>] \<open>entry_ok H k idx t n\<close> by (simp add: bottom_ok_def cache_get_set)
    have "holds (bottom_ok H tb (cache_set idx n c')) k idx t"
    proof (cases k)
      case (Suc j)
      have level: "at_level H (Suc j) idx" using level Suc by simp
      have held: "holds (bottom_ok H tb c') j (left_node idx) (lhalf j t)" "holds (bottom_ok H tb c') j (right_node idx) (rhalf j t)"
        using \<open>holds (bottom_ok H tb c') k idx t\<close> Suc by simp_all
      have "holds (bottom_ok H tb (cache_set idx n c')) j (left_node idx) (lhalf j t)"
        by (rule kids [OF held(1) at_level_nodes(1) [OF level]]) (rule left_not_root)
      moreover have "holds (bottom_ok H tb (cache_set idx n c')) j (right_node idx) (rhalf j t)"
        by (rule kids [OF held(2) at_level_nodes(2) [OF level]]) (rule right_not_root)
      ultimately show ?thesis using own Suc by simp
    qed (use own in simp)
    moreover have "cache_frame (outside idx) c (cache_set idx n c')"
      by (rule cache_frame_trans [OF cache_frame_mono [OF \<open>cache_frame (not_inner idx) c c'\<close>]], simp, rule cache_frame_set) auto
    ultimately show ?thesis using \<open>P v\<close> by (simp add: read_ok_def)
  qed
  show ?thesis
  proof (cases "fld (cache_get c idx) \<noteq> NULL_STORE")
    case True
    then show ?thesis using assms(4) [OF entry] held by (simp add: cached_read_def read_ok_def Let_def)
  next
    case null: False
    show ?thesis
    proof (cases "t = Busy")
      case True
      have "entry_ok H k idx t empty_node" using True by (simp add: entry_ok_def empty_node_def make_node_def ZERO_STORE_def)
      then have "read_ok H tb k idx t c P (0, cache_set idx empty_node c)" using True held assms(5) by (intro set) simp_all
      then show ?thesis using null True assms(3) by (simp add: cached_read_def cache_empty_init_def ZERO_STORE_def)
    next
      case False
      obtain rs c' where rs: "compute c = (rs, c')" by fastforce
      then have "read_ok H tb k idx t c P (rs, cache_set idx (put rs (cache_get c idx)) c')"
        using compute [OF False] assms(6) [OF entry] by (intro set) (simp_all add: inner_ok_def)
      then show ?thesis using null False assms(3) rs by (simp add: cached_read_def)
    qed
  qed
qed

section \<open>The readers\<close>

lemma kids_hold:
  assumes "holds nd (Suc k) idx t" and "wf_zone (Suc k) t" and "at_level H (Suc k) idx"
  shows "holds nd k (left_node idx) (lhalf k t)" "holds nd k (right_node idx) (rhalf k t)" "wf_zone k (lhalf k t)" "wf_zone k (rhalf k t)"
    "at_level H k (left_node idx)" "at_level H k (right_node idx)"
  using assms wf_halves [OF assms(2)] at_level_nodes [OF assms(3)] by simp_all

lemma entry_fields:
  assumes "entry_ok H k idx t n"
  shows "node_l n \<noteq> NULL_STORE \<Longrightarrow> node_l n = lfree k t" "node_r n \<noteq> NULL_STORE \<Longrightarrow> node_r n = rfree k t"
    "node_c n \<noteq> NULL_STORE \<Longrightarrow> node_c n = cfree k t"
    "node_o n \<noteq> NULL_STORE \<Longrightarrow> cfree k t \<noteq> 0 \<Longrightarrow> node_o n = coff k (first_cell H k idx) t"
    "entry_ok H k idx t (put_l (lfree k t) n)" "entry_ok H k idx t (put_r (rfree k t) n)" "entry_ok H k idx t (put_c (cfree k t) n)"
    "(cfree k t \<noteq> 0 \<Longrightarrow> v = coff k (first_cell H k idx) t) \<Longrightarrow> entry_ok H k idx t (put_o v n)"
  using assms by (auto simp: entry_ok_def put_defs)

lemma node_level: "at_level H k idx \<Longrightarrow> k < H"
  by (simp add: at_level_def)

lemma halves_free:
  assumes "wf_zone (Suc k) t" and "t \<noteq> Busy"
  shows "lfree (Suc k) t = (if left_trace_of k (lhalf k t) (rhalf k t) = LEFT_TRACEBACK then lfree k (lhalf k t) else 2 ^ k + lfree k (rhalf k t))"
    and "rfree (Suc k) t = (if right_trace_of k (lhalf k t) (rhalf k t) = LEFT_TRACEBACK then rfree k (lhalf k t) + 2 ^ k else rfree k (rhalf k t))"
    and "cfree (Suc k) t = (case center_side k (lhalf k t) (rhalf k t) of L_side \<Rightarrow> cfree k (lhalf k t)
           | M_side \<Rightarrow> rfree k (lhalf k t) + lfree k (rhalf k t) | R_side \<Rightarrow> cfree k (rhalf k t))"
    and "coff (Suc k) off t = (case center_side k (lhalf k t) (rhalf k t) of L_side \<Rightarrow> coff k off (lhalf k t)
           | M_side \<Rightarrow> off + 2 ^ k - rfree k (lhalf k t) | R_side \<Rightarrow> coff k (off + 2 ^ k) (rhalf k t))"
proof -
  obtain a b where t: "t = Halves a b" using wf_halves(3) [OF assms] by blast
  show "lfree (Suc k) t = (if left_trace_of k (lhalf k t) (rhalf k t) = LEFT_TRACEBACK then lfree k (lhalf k t) else 2 ^ k + lfree k (rhalf k t))"
    and "rfree (Suc k) t = (if right_trace_of k (lhalf k t) (rhalf k t) = LEFT_TRACEBACK then rfree k (lhalf k t) + 2 ^ k else rfree k (rhalf k t))"
    by (auto simp: t left_trace_of_def right_trace_of_def trace_ids)
  show "cfree (Suc k) t = (case center_side k (lhalf k t) (rhalf k t) of L_side \<Rightarrow> cfree k (lhalf k t)
           | M_side \<Rightarrow> rfree k (lhalf k t) + lfree k (rhalf k t) | R_side \<Rightarrow> cfree k (rhalf k t))"
    and "coff (Suc k) off t = (case center_side k (lhalf k t) (rhalf k t) of L_side \<Rightarrow> coff k off (lhalf k t)
           | M_side \<Rightarrow> off + 2 ^ k - rfree k (lhalf k t) | R_side \<Rightarrow> coff k (off + 2 ^ k) (rhalf k t))"
    by (simp_all add: t center_side_def Let_def cong: side.case_cong)
qed

lemma inner_refl: "holds (bottom_ok H tb c) k idx t \<Longrightarrow> P v \<Longrightarrow> inner_ok H tb k idx t c P (v, c)"
  by (simp add: inner_ok_def)

lemma bottom_left_ok:
  assumes "holds (bottom_ok H tb c) k idx t" and "wf_zone k t" and "at_level H k idx"
  shows "read_ok H tb k idx t c (\<lambda>v. v = lfree k t) (bottom_left H tb k idx c)"
  using assms
proof (induction k arbitrary: idx t c)
  case 0
  note own = holds_root [OF "0.prems"(1), unfolded bottom_ok_def]
  have "t \<noteq> Busy \<Longrightarrow> lfree 0 t = 1" using "0.prems"(2) by (cases t) auto
  then show ?case unfolding bottom_left.simps
    by (intro cached_read_ok "0.prems") (use own entry_fields inner_refl [OF "0.prems"(1)] in \<open>auto simp: LEAF_STORE_def\<close>)
next
  case (Suc k)
  note own = holds_root [OF Suc.prems(1), unfolded bottom_ok_def]
  note kids = kids_hold [OF Suc.prems]
  have span: "span_size_at H k = 2 ^ k" using node_level [OF Suc.prems(3)] by (intro span_size_at) simp
  show ?case unfolding bottom_left.simps
  proof (rule cached_read_ok [OF Suc.prems(1,3)])
    assume "t \<noteq> Busy"
    note free = halves_free(1) [OF Suc.prems(2) this]
    have trace: "get_left_trace H (Suc k) tb idx = left_trace_of k (lhalf k t) (rhalf k t)" using own by (simp add: traces_ok_def)
    show "inner_ok H tb (Suc k) idx t c (\<lambda>v. v = lfree (Suc k) t)
        (if get_left_trace H (Suc k) tb idx = LEFT_TRACEBACK then bottom_left H tb k (left_node idx) c
         else (let (v, c') = bottom_left H tb k (right_node idx) c in (span_size_at H k + v, c')))"
    proof (cases "get_left_trace H (Suc k) tb idx = LEFT_TRACEBACK")
      case True
      then show ?thesis using free trace inner_left [OF Suc.prems(1,3) Suc.IH [OF kids(1,3,5)]] by simp
    next
      case False
      obtain v c' where r: "bottom_left H tb k (right_node idx) c = (v, c')" by fastforce
      have inner: "inner_ok H tb (Suc k) idx t c (\<lambda>v. v = lfree k (rhalf k t)) (v, c')"
        using inner_right [OF Suc.prems(1,3) Suc.IH [OF kids(2,4,6)]] r by simp
      then show ?thesis using False free trace span r by (auto simp: inner_ok_def)
    qed
  qed (use own entry_fields in auto)
qed

lemma read_ok_mono: "read_ok H tb k idx t c P r \<Longrightarrow> (\<And>v. P v \<Longrightarrow> Q v) \<Longrightarrow> read_ok H tb k idx t c Q r"
  by (simp add: read_ok_def)

lemma zone_cases0: "wf_zone 0 t \<Longrightarrow> t = Busy \<or> t = Cell"
  by (cases t) auto

lemma bottom_right_ok:
  assumes "holds (bottom_ok H tb c) k idx t" and "wf_zone k t" and "at_level H k idx"
  shows "read_ok H tb k idx t c (\<lambda>v. v = rfree k t) (bottom_right H tb k idx c)"
  using assms
proof (induction k arbitrary: idx t c)
  case 0
  then show ?case using bottom_left_ok [OF "0.prems"] zone_cases0 [OF "0.prems"(2)] by auto
next
  case (Suc k)
  note own = holds_root [OF Suc.prems(1), unfolded bottom_ok_def]
  note kids = kids_hold [OF Suc.prems]
  have span: "span_size_at H k = 2 ^ k" using node_level [OF Suc.prems(3)] by (intro span_size_at) simp
  show ?case unfolding bottom_right.simps
  proof (rule cached_read_ok [OF Suc.prems(1,3)])
    assume "t \<noteq> Busy"
    note free = halves_free(2) [OF Suc.prems(2) this]
    have trace: "get_right_trace H (Suc k) tb idx = right_trace_of k (lhalf k t) (rhalf k t)" using own by (simp add: traces_ok_def)
    show "inner_ok H tb (Suc k) idx t c (\<lambda>v. v = rfree (Suc k) t)
        (if get_right_trace H (Suc k) tb idx = LEFT_TRACEBACK
         then (let (v, c') = bottom_right H tb k (left_node idx) c in (v + span_size_at H k, c'))
         else bottom_right H tb k (right_node idx) c)"
    proof (cases "get_right_trace H (Suc k) tb idx = LEFT_TRACEBACK")
      case False
      then show ?thesis using free trace inner_right [OF Suc.prems(1,3) Suc.IH [OF kids(2,4,6)]] by simp
    next
      case True
      obtain v c' where r: "bottom_right H tb k (left_node idx) c = (v, c')" by fastforce
      have inner: "inner_ok H tb (Suc k) idx t c (\<lambda>v. v = rfree k (lhalf k t)) (v, c')"
        using inner_left [OF Suc.prems(1,3) Suc.IH [OF kids(1,3,5)]] r by simp
      then show ?thesis using True free trace span r by (auto simp: inner_ok_def)
    qed
  qed (use own entry_fields in auto)
qed

text \<open>Two readings of the same node, one after the other.\<close>

lemma read_ok_trans:
  "read_ok H tb k idx t c P r \<Longrightarrow> read_ok H tb k idx t (snd r) Q r' \<Longrightarrow> read_ok H tb k idx t c Q r'"
  unfolding read_ok_def using cache_frame_trans by blast

lemma next_base_free:
  assumes "wf_zone (Suc 0) t"
  shows "cfree (Suc 0) t = (if lfree (Suc 0) t \<noteq> 0 then lfree (Suc 0) t else rfree (Suc 0) t)"
    and "cfree (Suc 0) t \<noteq> 0 \<Longrightarrow> coff (Suc 0) off t = (if rfree (Suc 0) t \<noteq> 0 then off + 2 - rfree (Suc 0) t else off)"
proof -
  have cases: "t = Busy \<or> (\<exists>a b. t = Halves a b \<and> (a = Busy \<or> a = Cell) \<and> (b = Busy \<or> b = Cell))"
    using assms zone_cases0 by (cases t) auto
  show "cfree (Suc 0) t = (if lfree (Suc 0) t \<noteq> 0 then lfree (Suc 0) t else rfree (Suc 0) t)" using cases by (auto simp: longest_side_def)
  show "coff (Suc 0) off t = (if rfree (Suc 0) t \<noteq> 0 then off + 2 - rfree (Suc 0) t else off)" if "cfree (Suc 0) t \<noteq> 0"
    using cases that by (auto simp: longest_side_def)
qed

lemma read_next_base:
  assumes "holds (bottom_ok H tb c) k idx t" and "wf_zone k t" and "at_level H k idx" and "bottom_left H tb k idx c = (v, c')"
  shows "v = lfree k t" "read_ok H tb k idx t c (\<lambda>v. v = rfree k t) (bottom_right H tb k idx c')" "read_ok H tb k idx t c (\<lambda>v. v = lfree k t) (v, c')"
proof -
  have first: "read_ok H tb k idx t c (\<lambda>v. v = lfree k t) (v, c')" using bottom_left_ok [OF assms(1-3)] assms(4) by simp
  then show "v = lfree k t" "read_ok H tb k idx t c (\<lambda>v. v = lfree k t) (v, c')" by (simp_all add: read_ok_def)
  have "holds (bottom_ok H tb c') k idx t" using first by (simp add: read_ok_def)
  from read_ok_trans [OF first] bottom_right_ok [OF this assms(2,3)]
  show "read_ok H tb k idx t c (\<lambda>v. v = rfree k t) (bottom_right H tb k idx c')" by simp
qed

text \<open>What runs from the end of the left half to the start of the right one.\<close>

lemma inner_mid:
  assumes "holds (bottom_ok H tb c) (Suc k) idx t" and "wf_zone (Suc k) t" and "at_level H (Suc k) idx"
    and r: "bottom_right H tb k (left_node idx) c = (r, c')"
  shows "inner_ok H tb (Suc k) idx t c (\<lambda>v. v = rfree k (lhalf k t)) (r, c')"
    and "inner_ok H tb (Suc k) idx t c (\<lambda>v. v = lfree k (rhalf k t)) (bottom_left H tb k (right_node idx) c')"
proof -
  note kids = kids_hold [OF assms(1-3)]
  show first: "inner_ok H tb (Suc k) idx t c (\<lambda>v. v = rfree k (lhalf k t)) (r, c')"
    using inner_left [OF assms(1,3) bottom_right_ok [OF kids(1,3,5)]] r by simp
  then have held: "holds (bottom_ok H tb c') (Suc k) idx t" by (simp add: inner_ok_def)
  note kids' = kids_hold [OF held assms(2,3)]
  have "inner_ok H tb (Suc k) idx t c' (\<lambda>v. v = lfree k (rhalf k t)) (bottom_left H tb k (right_node idx) c')"
    using inner_right [OF held assms(3) bottom_left_ok [OF kids'(2,4,6)]] by simp
  then show "inner_ok H tb (Suc k) idx t c (\<lambda>v. v = lfree k (rhalf k t)) (bottom_left H tb k (right_node idx) c')"
    using inner_trans [OF first] by simp
qed

lemma center_trace_ok:
  assumes "bottom_ok H tb c (Suc (Suc k)) idx t"
  shows "get_center_trace tb idx = MID_BLOCKED \<longleftrightarrow> t = Busy"
    and "t \<noteq> Busy \<Longrightarrow> get_center_trace tb idx = side_trace (center_side (Suc k) (lhalf (Suc k) t) (rhalf (Suc k) t))"
  using assms by (auto simp: bottom_ok_def traceback_is_blocked_def traces_ok_def)

lemma bottom_center_ok:
  assumes "holds (bottom_ok H tb c) k idx t" and "wf_zone k t" and "at_level H k idx"
  shows "read_ok H tb k idx t c (\<lambda>v. v = cfree k t) (bottom_center H tb k idx c)"
  using assms
proof (induction H tb k idx c arbitrary: t rule: bottom_center.induct)
  case (1 H tb idx c)
  then show ?case using bottom_left_ok [OF "1.prems"] zone_cases0 [OF "1.prems"(2)] by auto
next
  case (2 H tb idx c)
  obtain v c' where r: "bottom_left H tb (Suc 0) idx c = (v, c')" by fastforce
  show ?case using read_next_base [OF "2.prems" r] r next_base_free(1) [OF "2.prems"(2)] by (auto simp: ZERO_STORE_def)
next
  case (3 H tb k idx c)
  note own = holds_root [OF "3.prems"(1)]
  note entry = own [unfolded bottom_ok_def, THEN conjunct2, THEN conjunct1]
  note kids = kids_hold [OF "3.prems"]
  show ?case unfolding bottom_center.simps
  proof (rule cached_read_ok [OF "3.prems"(1,3)])
    assume busy: "t \<noteq> Busy"
    note free = halves_free(3) [OF "3.prems"(2) busy]
    note trace = center_trace_ok(2) [OF own busy]
    obtain r c' where r: "bottom_right H tb (Suc k) (left_node idx) c = (r, c')" by fastforce
    obtain l c'' where l: "bottom_left H tb (Suc k) (right_node idx) c' = (l, c'')" by fastforce
    note mid = inner_mid [OF "3.prems" r, unfolded l]
    show "inner_ok H tb (Suc (Suc k)) idx t c (\<lambda>v. v = cfree (Suc (Suc k)) t)
        (if get_center_trace tb idx = LEFT_TRACEBACK then bottom_center H tb (Suc k) (left_node idx) c
         else if get_center_trace tb idx = RIGHT_TRACEBACK then bottom_center H tb (Suc k) (right_node idx) c
         else (let (r, c') = bottom_right H tb (Suc k) (left_node idx) c; (l, c'') = bottom_left H tb (Suc k) (right_node idx) c' in (r + l, c'')))"
    proof (cases "center_side (Suc k) (lhalf (Suc k) t) (rhalf (Suc k) t)")
      case L_side
      then have L: "get_center_trace tb idx = LEFT_TRACEBACK" using trace by (simp add: side_trace_def)
      show ?thesis using inner_left [OF "3.prems"(1,3) "3.IH"(1) [OF L kids(1,3,5)]] free L L_side by simp
    next
      case R_side
      then have R: "get_center_trace tb idx \<noteq> LEFT_TRACEBACK" "get_center_trace tb idx = RIGHT_TRACEBACK"
        using trace by (simp_all add: side_trace_def trace_ids)
      show ?thesis using inner_right [OF "3.prems"(1,3) "3.IH"(2) [OF R kids(2,4,6)]] free R R_side by simp
    next
      case M_side
      then have "get_center_trace tb idx \<noteq> LEFT_TRACEBACK" "get_center_trace tb idx \<noteq> RIGHT_TRACEBACK"
        using trace by (simp_all add: side_trace_def trace_ids)
      then show ?thesis using mid r l free M_side by (simp add: inner_ok_def)
    qed
  qed (use center_trace_ok(1) [OF own] entry entry_fields in auto)
qed

abbreviation offset_ok :: "nat \<Rightarrow> nat \<Rightarrow> nat \<Rightarrow> zone \<Rightarrow> nat \<Rightarrow> bool" where
  "offset_ok H k idx t v \<equiv> cfree k t \<noteq> 0 \<longrightarrow> v = coff k (first_cell H k idx) t"

lemma bottom_offset_ok:
  assumes "holds (bottom_ok H tb c) k idx t" and "wf_zone k t" and "at_level H k idx"
  shows "read_ok H tb k idx t c (offset_ok H k idx t) (bottom_offset H tb k idx c)"
  using assms
proof (induction H tb k idx c arbitrary: t rule: bottom_offset.induct)
  case (1 H tb idx c)
  then show ?case using zone_cases0 [OF "1.prems"(2)] by (auto simp: read_ok_def first_cell_def idx_to_offset_def)
next
  case (2 H tb idx c)
  have level: "Suc 0 < H" using node_level [OF "2.prems"(3)] .
  obtain r c' where r: "bottom_right H tb (Suc 0) idx c = (r, c')" by fastforce
  have "read_ok H tb (Suc 0) idx t c (\<lambda>v. v = rfree (Suc 0) t) (r, c')" using bottom_right_ok [OF "2.prems"] r by simp
  then show ?case using next_base_free(2) [OF "2.prems"(2), of "first_cell H (Suc 0) idx"] excl_end_idx_to_interval [OF level, of idx] span_size_at [OF level]
    unfolding bottom_offset.simps r Let_def prod.case by (auto simp: read_ok_def ZERO_STORE_def)
next
  case (3 H tb k idx c)
  note own = holds_root [OF "3.prems"(1)]
  note entry = own [unfolded bottom_ok_def, THEN conjunct2, THEN conjunct1]
  note kids = kids_hold [OF "3.prems"]
  note cells = first_cell_children [OF "3.prems"(3)]
  have level: "Suc k < H" using node_level [OF "3.prems"(3)] by simp
  show ?case unfolding bottom_offset.simps
  proof (rule cached_read_ok [OF "3.prems"(1,3)])
    assume busy: "t \<noteq> Busy"
    note free = halves_free(3,4) [OF "3.prems"(2) busy]
    note trace = center_trace_ok(2) [OF own busy]
    obtain r c' where r: "bottom_right H tb (Suc k) (left_node idx) c = (r, c')" by fastforce
    show "inner_ok H tb (Suc (Suc k)) idx t c (offset_ok H (Suc (Suc k)) idx t)
        (if get_center_trace tb idx = LEFT_TRACEBACK then bottom_offset H tb (Suc k) (left_node idx) c
         else if get_center_trace tb idx = RIGHT_TRACEBACK then bottom_offset H tb (Suc k) (right_node idx) c
         else (let EOLI = get_interval_excl_end (idx_to_interval H (Suc k) (left_node idx)); (r, c') = bottom_right H tb (Suc k) (left_node idx) c
               in (EOLI - r, c')))"
    proof (cases "center_side (Suc k) (lhalf (Suc k) t) (rhalf (Suc k) t)")
      case L_side
      then have L: "get_center_trace tb idx = LEFT_TRACEBACK" using trace by (simp add: side_trace_def)
      have "inner_ok H tb (Suc (Suc k)) idx t c (offset_ok H (Suc (Suc k)) idx t) (bottom_offset H tb (Suc k) (left_node idx) c)"
        by (rule inner_left [OF "3.prems"(1,3) "3.IH"(1) [OF L kids(1,3,5)]]) (use free L_side cells in simp)
      then show ?thesis using L by simp
    next
      case R_side
      then have R: "get_center_trace tb idx \<noteq> LEFT_TRACEBACK" "get_center_trace tb idx = RIGHT_TRACEBACK"
        using trace by (simp_all add: side_trace_def trace_ids)
      have "inner_ok H tb (Suc (Suc k)) idx t c (offset_ok H (Suc (Suc k)) idx t) (bottom_offset H tb (Suc k) (right_node idx) c)"
        by (rule inner_right [OF "3.prems"(1,3) "3.IH"(2) [OF R kids(2,4,6)]]) (use free R_side cells in simp)
      then show ?thesis using R by simp
    next
      case M_side
      then have "get_center_trace tb idx \<noteq> LEFT_TRACEBACK" "get_center_trace tb idx \<noteq> RIGHT_TRACEBACK"
        using trace by (simp_all add: side_trace_def trace_ids)
      then show ?thesis using inner_mid(1) [OF "3.prems" r] r free(2) M_side cells(1) excl_end_idx_to_interval [OF level] by (simp add: inner_ok_def)
    qed
  qed (use center_trace_ok(1) [OF own] entry entry_fields in auto)
qed

end
