(* ===== verification/Heap_Interface.thy ===== *)
theory Heap_Interface
  imports Heap_Reading
begin

text \<open>
  What the dispatchers of \<open>dg_heap/heap.h\<close> do with the operations of a heap (\<open>internal_core::HeapOperatable\<close>): \<open>IntervalApplier\<close> and \<open>IntervalTraverser\<close>, and
  the dispatchers that block and unblock the cells of an interval with them. The locale \<open>heap_operatable\<close> states what the operations promise of the node
  they are called on and of every other; in it, blocking takes exactly the cells of the interval out of the zone, unblocking puts exactly them in, and the
  initial traversal makes every cell free.
\<close>

section \<open>Visiting the nodes of an interval\<close>

type_synonym 's visitor = "nat \<Rightarrow> interval \<Rightarrow> nat \<Rightarrow> 's \<Rightarrow> 's result"

text \<open>
  \<open>n\<close> is the number of levels from the node to the base, both included: \<open>ARG_HEIGHT \<le> HEIGHT\<close> is \<open>0 < n\<close>. What aborts is the block of a node under
  the base.
\<close>

fun interval_apply ::
  "nat \<Rightarrow> nat \<Rightarrow> interval \<Rightarrow> interval \<Rightarrow> (nat \<Rightarrow> interval \<Rightarrow> nat \<Rightarrow> interval \<Rightarrow> 's \<Rightarrow> bool) \<Rightarrow> 's visitor \<Rightarrow> 's visitor \<Rightarrow> 's visitor \<Rightarrow> 's visitor
   \<Rightarrow> 's \<Rightarrow> 's result" where
  "interval_apply 0 idx intv key stop cb post right_excl left_excl s = Inr s"
| "interval_apply (Suc k) idx intv key stop cb post right_excl left_excl s =
     (if stop k intv idx key s then cb k intv idx s
      else (let m = midpoint intv
            in bindR
                 (if is_left_bound key m
                  then bindR (interval_apply k (left_node idx) (left_shrink intv m) key stop cb post right_excl left_excl s) (left_excl k intv idx)
                  else if is_right_bound key m
                  then bindR (interval_apply k (right_node idx) (right_shrink intv m) key stop cb post right_excl left_excl s) (right_excl k intv idx)
                  else bindR (interval_apply k (left_node idx) (left_shrink intv m) (left_shrink key m) stop cb post right_excl left_excl s)
                    (interval_apply k (right_node idx) (right_shrink intv m) (right_shrink key m) stop cb post right_excl left_excl))
                 (post k intv idx)))"

fun interval_traverse ::
  "nat \<Rightarrow> nat \<Rightarrow> interval \<Rightarrow> 's visitor \<Rightarrow> 's visitor \<Rightarrow> (nat \<Rightarrow> interval \<Rightarrow> nat \<Rightarrow> bool) \<Rightarrow> 's \<Rightarrow> 's result" where
  "interval_traverse 0 idx intv cb post stop s = Inr s"
| "interval_traverse (Suc k) idx intv cb post stop s =
     (if stop k intv idx then cb k intv idx s
      else bindR (interval_traverse k (left_node idx) (left_interval intv) cb post stop s)
        (\<lambda>s. bindR (interval_traverse k (right_node idx) (right_interval intv) cb post stop s) (post k intv idx)))"

text \<open>The visitors made of an operation, and of the operation on the left or the right child.\<close>

definition visit :: "(nat \<Rightarrow> nat \<Rightarrow> 's \<Rightarrow> 's) \<Rightarrow> 's visitor" where
  "visit op k intv idx s = Inr (op k idx s)"

definition null_visitor :: "'s visitor" where
  "null_visitor k intv idx s = Inr s"

definition visit_left :: "(nat \<Rightarrow> nat \<Rightarrow> 's \<Rightarrow> 's) \<Rightarrow> 's visitor" where
  "visit_left op k intv idx s = (case k of 0 \<Rightarrow> Inl Abort | Suc j \<Rightarrow> visit op j (left_interval intv) (left_node idx) s)"

definition visit_right :: "(nat \<Rightarrow> nat \<Rightarrow> 's \<Rightarrow> 's) \<Rightarrow> 's visitor" where
  "visit_right op k intv idx s = (case k of 0 \<Rightarrow> Inl Abort | Suc j \<Rightarrow> visit op j (right_interval intv) (right_node idx) s)"

definition stop_equal :: "nat \<Rightarrow> interval \<Rightarrow> nat \<Rightarrow> interval \<Rightarrow> 's \<Rightarrow> bool" where
  "stop_equal k intv idx key s \<longleftrightarrow> intv = key"

definition stop_blocked :: "(nat \<Rightarrow> nat \<Rightarrow> 's \<Rightarrow> bool) \<Rightarrow> nat \<Rightarrow> interval \<Rightarrow> nat \<Rightarrow> interval \<Rightarrow> 's \<Rightarrow> bool" where
  "stop_blocked isb k intv idx key s \<longleftrightarrow> isb k idx s"

section \<open>The dispatchers\<close>

definition heap_dispatch_block :: "nat \<Rightarrow> (nat \<Rightarrow> nat \<Rightarrow> 's \<Rightarrow> 's) \<Rightarrow> (nat \<Rightarrow> nat \<Rightarrow> 's \<Rightarrow> 's) \<Rightarrow> interval \<Rightarrow> 's \<Rightarrow> 's result" where
  "heap_dispatch_block H blk upd key s =
     interval_apply H 0 (idx_to_interval H (H - 1) 0) key stop_equal (visit blk) (visit upd) null_visitor null_visitor s"

text \<open>
  \<open>PartialUnblockDispatcher\<close>: down to the blocked nodes that meet the interval; such a node is unblocked, and the nodes below it that do not meet the interval
  are blocked instead.
\<close>

definition unblock_worker ::
  "nat \<Rightarrow> (nat \<Rightarrow> nat \<Rightarrow> 's \<Rightarrow> 's) \<Rightarrow> (nat \<Rightarrow> nat \<Rightarrow> 's \<Rightarrow> 's) \<Rightarrow> nat \<Rightarrow> interval \<Rightarrow> nat \<Rightarrow> 's \<Rightarrow> 's result" where
  "unblock_worker H blk upd k key idx s =
     interval_apply (Suc k) idx (idx_to_interval H k idx) key stop_equal null_visitor (visit upd) (visit_left blk) (visit_right blk) s"

definition unblock_transfer ::
  "nat \<Rightarrow> (nat \<Rightarrow> nat \<Rightarrow> 's \<Rightarrow> 's) \<Rightarrow> (nat \<Rightarrow> nat \<Rightarrow> 's \<Rightarrow> 's) \<Rightarrow> (nat \<Rightarrow> nat \<Rightarrow> 's \<Rightarrow> 's) \<Rightarrow> interval \<Rightarrow> 's visitor" where
  "unblock_transfer H blk unb upd key k intv idx s =
     bindR (visit unb k intv idx s) (unblock_worker H blk upd k (intersect_interval intv key) idx)"

definition dispatch_unblock ::
  "nat \<Rightarrow> (nat \<Rightarrow> nat \<Rightarrow> 's \<Rightarrow> 's) \<Rightarrow> (nat \<Rightarrow> nat \<Rightarrow> 's \<Rightarrow> 's) \<Rightarrow> (nat \<Rightarrow> nat \<Rightarrow> 's \<Rightarrow> 's) \<Rightarrow> (nat \<Rightarrow> nat \<Rightarrow> 's \<Rightarrow> bool) \<Rightarrow> interval \<Rightarrow> 's \<Rightarrow> 's result" where
  "dispatch_unblock H blk unb upd isb key s =
     interval_apply H 0 (idx_to_interval H (H - 1) 0) key (stop_blocked isb) (unblock_transfer H blk unb upd key) (visit upd) null_visitor null_visitor s"

text \<open>\<open>IntervalDataInstantiator\<close>\<close>

definition stop_base :: "nat \<Rightarrow> interval \<Rightarrow> nat \<Rightarrow> bool" where
  "stop_base k intv idx \<longleftrightarrow> k = 0"

definition init_post :: "(nat \<Rightarrow> nat \<Rightarrow> 's \<Rightarrow> 's) \<Rightarrow> (nat \<Rightarrow> nat \<Rightarrow> 's \<Rightarrow> 's) \<Rightarrow> 's visitor" where
  "init_post unb upd k intv idx s = bindR (visit unb k intv idx s) (visit upd k intv idx)"

definition initialize :: "nat \<Rightarrow> (nat \<Rightarrow> nat \<Rightarrow> 's \<Rightarrow> 's) \<Rightarrow> (nat \<Rightarrow> nat \<Rightarrow> 's \<Rightarrow> 's) \<Rightarrow> 's \<Rightarrow> 's result" where
  "initialize H unb upd s = interval_traverse H 0 (idx_to_interval H (H - 1) 0) (visit unb) (init_post unb upd) stop_base s"

section \<open>What the operations promise\<close>

text \<open>The nodes that are not below \<open>idx\<close> say what they said.\<close>

definition node_frame :: "nat \<Rightarrow> ('s \<Rightarrow> nat \<Rightarrow> nat \<Rightarrow> zone \<Rightarrow> bool) \<Rightarrow> (nat \<Rightarrow> bool) \<Rightarrow> 's \<Rightarrow> 's \<Rightarrow> bool" where
  "node_frame H node out s s' \<longleftrightarrow> (\<forall>k x t. at_level H k x \<and> out x \<and> node s k x t \<longrightarrow> node s' k x t)"

text \<open>The zone below \<open>idx\<close> has the free cells \<open>A\<close> after a run that changed nothing else.\<close>

definition zone_result ::
  "nat \<Rightarrow> ('s \<Rightarrow> bool) \<Rightarrow> ('s \<Rightarrow> nat \<Rightarrow> nat \<Rightarrow> zone \<Rightarrow> bool) \<Rightarrow> nat \<Rightarrow> nat \<Rightarrow> nat set \<Rightarrow> 's \<Rightarrow> 's result \<Rightarrow> bool" where
  "zone_result H good node k idx A s r \<longleftrightarrow>
     (\<exists>s' t. r = Inr s' \<and> good s' \<and> wf_zone k t \<and> holds (node s') k idx t \<and> avail k (first_cell H k idx) t = A \<and> node_frame H node (outside idx) s s')"

lemma node_frame_refl [simp]: "node_frame H node out s s"
  by (simp add: node_frame_def)

lemma node_frame_trans: "node_frame H node out s s' \<Longrightarrow> node_frame H node out s' s'' \<Longrightarrow> node_frame H node out s s''"
  unfolding node_frame_def by blast

lemma node_frame_mono: "node_frame H node out s s' \<Longrightarrow> (\<And>x. out' x \<Longrightarrow> out x) \<Longrightarrow> node_frame H node out' s s'"
  unfolding node_frame_def by blast

lemma node_frame_up:
  "node_frame H node (outside (left_node idx)) s s' \<Longrightarrow> node_frame H node (outside idx) s s'"
  "node_frame H node (outside (right_node idx)) s s' \<Longrightarrow> node_frame H node (outside idx) s s'"
  unfolding node_frame_def by (metis below_left_node, metis below_right_node)

lemma holds_node_frame:
  assumes "holds (node s) k idx t" and "at_level H k idx" and "node_frame H node out s s'" and "\<And>x. below idx x \<Longrightarrow> out x"
  shows "holds (node s') k idx t"
  by (rule holds_mono [OF assms(1,2)]) (use assms(3,4) in \<open>unfold node_frame_def, blast\<close>)

lemma other_half:
  assumes "at_level H (Suc k) idx"
  shows "node_frame H node (outside (left_node idx)) s s' \<Longrightarrow> holds (node s) k (right_node idx) z \<Longrightarrow> holds (node s') k (right_node idx) z"
    and "node_frame H node (outside (right_node idx)) s s' \<Longrightarrow> holds (node s) k (left_node idx) z \<Longrightarrow> holds (node s') k (left_node idx) z"
    and "node_frame H node (outside (left_node idx)) s s' \<Longrightarrow> node s (Suc k) idx z \<Longrightarrow> node s' (Suc k) idx z"
    and "node_frame H node (outside (right_node idx)) s s' \<Longrightarrow> node s (Suc k) idx z \<Longrightarrow> node s' (Suc k) idx z"
proof -
  note levels = at_level_nodes [OF assms]
  show "holds (node s') k (right_node idx) z" if "node_frame H node (outside (left_node idx)) s s'" "holds (node s) k (right_node idx) z"
    by (rule holds_node_frame [OF that(2) levels(2) that(1)]) (use below_disjoint in blast)
  show "holds (node s') k (left_node idx) z" if "node_frame H node (outside (right_node idx)) s s'" "holds (node s) k (left_node idx) z"
    by (rule holds_node_frame [OF that(2) levels(1) that(1)]) (use below_disjoint in blast)
  show "node s' (Suc k) idx z" if "node_frame H node (outside (left_node idx)) s s'" "node s (Suc k) idx z"
    using that assms left_not_root unfolding node_frame_def by metis
  show "node s' (Suc k) idx z" if "node_frame H node (outside (right_node idx)) s s'" "node s (Suc k) idx z"
    using that assms right_not_root unfolding node_frame_def by metis
qed

text \<open>Cells of an interval, cut at the middle.\<close>

lemma midpoint_zone: "midpoint (x, x + 2 ^ Suc k - 1) = x + 2 ^ k - 1"
proof -
  obtain p :: nat where "2 ^ k = Suc p" by (metis not0_implies_Suc power_not_zero zero_neq_numeral)
  then show ?thesis by (simp add: midpoint_def)
qed

lemma zone_parts:
  fixes k :: nat
  assumes "lo \<le> hi"
  obtains "hi < x + 2 ^ k" "is_left_bound (lo, hi) (x + 2 ^ k - 1)"
    | "x + 2 ^ k \<le> lo" "\<not> is_left_bound (lo, hi) (x + 2 ^ k - 1)" "is_right_bound (lo, hi) (x + 2 ^ k - 1)"
    | "lo < x + 2 ^ k" "x + 2 ^ k \<le> hi" "\<not> is_left_bound (lo, hi) (x + 2 ^ k - 1)" "\<not> is_right_bound (lo, hi) (x + 2 ^ k - 1)"
proof -
  obtain p :: nat where p: "2 ^ k = Suc p" by (metis not0_implies_Suc power_not_zero zero_neq_numeral)
  consider "hi < x + Suc p" | "x + Suc p \<le> lo" | "lo < x + Suc p" "x + Suc p \<le> hi" by linarith
  then show ?thesis
  proof cases
    case 1
    then show ?thesis by (intro that(1)) (simp_all add: p is_left_bound_def)
  next
    case 2
    then show ?thesis using assms by (intro that(2)) (simp_all add: p is_left_bound_def is_right_bound_def)
  next
    case 3
    then show ?thesis by (intro that(3)) (simp_all add: p is_left_bound_def is_right_bound_def)
  qed
qed

lemma zone_cells: "{x..x + 2 ^ k - 1} = {x..<x + 2 ^ k}" for x k :: nat
proof -
  obtain p :: nat where "2 ^ k = Suc p" by (metis not0_implies_Suc power_not_zero zero_neq_numeral)
  then show ?thesis by auto
qed

text \<open>The free cells after a dispatch to the cells from \<open>lo\<close> to \<open>hi\<close>.\<close>

definition cells_after :: "bool \<Rightarrow> bool \<Rightarrow> nat set \<Rightarrow> nat \<Rightarrow> nat \<Rightarrow> nat set" where
  "cells_after keeps frees A lo hi = (if keeps then A - {lo..hi} else {}) \<union> (if frees then {lo..hi} else {})"

locale heap_operatable =
  fixes H :: nat
    and upd :: "nat \<Rightarrow> nat \<Rightarrow> 's \<Rightarrow> 's"
    and blk :: "nat \<Rightarrow> nat \<Rightarrow> 's \<Rightarrow> 's"
    and unb :: "nat \<Rightarrow> nat \<Rightarrow> 's \<Rightarrow> 's"
    and isb :: "nat \<Rightarrow> nat \<Rightarrow> 's \<Rightarrow> bool"
    and good :: "'s \<Rightarrow> bool"
    and node :: "'s \<Rightarrow> nat \<Rightarrow> nat \<Rightarrow> zone \<Rightarrow> bool"
  assumes height: "good s \<Longrightarrow> 1 \<le> H"
    and good_ops: "good s \<Longrightarrow> good (upd k idx s)" "good s \<Longrightarrow> good (blk k idx s)" "good s \<Longrightarrow> good (unb k idx s)"
    and is_blocked: "node s k idx t \<Longrightarrow> isb k idx s = (t = Busy)"
    and block: "good s \<Longrightarrow> at_level H k idx \<Longrightarrow> node s k idx (full_zone k) \<Longrightarrow> node (blk k idx s) k idx Busy"
    and block_frame: "good s \<Longrightarrow> at_level H k idx \<Longrightarrow> node_frame H node (\<lambda>x. x \<noteq> idx) s (blk k idx s)"
    and unblock: "good s \<Longrightarrow> at_level H k idx \<Longrightarrow> node s k idx Busy \<or> k = 0 \<Longrightarrow> node (unb k idx s) k idx (full_zone k)"
    and unblocked: "good s \<Longrightarrow> at_level H k idx \<Longrightarrow> \<not> isb k idx (unb k idx s)"
    and unblock_frame: "good s \<Longrightarrow> at_level H k idx \<Longrightarrow> node_frame H node (\<lambda>x. x \<noteq> idx) s (unb k idx s)"
    and update: "good s \<Longrightarrow> at_level H (Suc k) idx \<Longrightarrow> \<not> isb (Suc k) idx s \<Longrightarrow> wf_zone k a \<Longrightarrow> wf_zone k b \<Longrightarrow>
      holds (node s) k (left_node idx) a \<Longrightarrow> holds (node s) k (right_node idx) b \<Longrightarrow>
      holds (node (upd (Suc k) idx s)) (Suc k) idx (Halves a b) \<and> node_frame H node (outside idx) s (upd (Suc k) idx s)"
    and update_base: "good s \<Longrightarrow> at_level H 0 idx \<Longrightarrow> node_frame H node (\<lambda>x. True) s (upd 0 idx s)"
begin

text \<open>The node after its children.\<close>

lemma update_result:
  assumes "good s'" and level: "at_level H (Suc k) idx" and "\<not> isb (Suc k) idx s'" and "wf_zone k a" and "wf_zone k b"
    and "holds (node s') k (left_node idx) a" and "holds (node s') k (right_node idx) b" and frame: "node_frame H node (outside idx) s s'"
    and "A = avail k (first_cell H (Suc k) idx) a \<union> avail k (first_cell H (Suc k) idx + 2 ^ k) b"
  shows "zone_result H good node (Suc k) idx A s (visit upd (Suc k) intv idx s')"
proof -
  note upd = update [OF assms(1-7)]
  have "avail (Suc k) (first_cell H (Suc k) idx) (Halves a b) = A" using assms(9) by simp
  moreover have "wf_zone (Suc k) (Halves a b)" using assms(4,5) by simp
  moreover have "node_frame H node (outside idx) s (upd (Suc k) idx s')" using node_frame_trans [OF frame] upd by blast
  ultimately show ?thesis using upd good_ops(1) [OF assms(1)] unfolding zone_result_def visit_def by blast
qed

text \<open>A step on the left or on the right child, as a step on the node.\<close>

lemma left_result:
  assumes step: "zone_result H good node k (left_node idx) A s r" and level: "at_level H (Suc k) idx"
    and own: "node s (Suc k) idx t" "t \<noteq> Busy" and other: "holds (node s) k (right_node idx) b"
  obtains s' a where "r = Inr s'" "good s'" "wf_zone k a" "holds (node s') k (left_node idx) a" "holds (node s') k (right_node idx) b"
    "avail k (first_cell H (Suc k) idx) a = A" "\<not> isb (Suc k) idx s'" "node_frame H node (outside idx) s s'"
    "node_frame H node (outside (left_node idx)) s s'"
proof -
  obtain s' a where s': "r = Inr s'" "good s'" "wf_zone k a" "holds (node s') k (left_node idx) a" "avail k (first_cell H k (left_node idx)) a = A"
    and frame: "node_frame H node (outside (left_node idx)) s s'" using step unfolding zone_result_def by blast
  show ?thesis
  proof (rule that [OF s'(1-4) other_half(1) [OF level frame other] _ _ node_frame_up(1) [OF frame] frame])
    show "avail k (first_cell H (Suc k) idx) a = A" using s'(5) first_cell_children(1) [OF level] by simp
    show "\<not> isb (Suc k) idx s'" using is_blocked [OF other_half(3) [OF level frame own(1)]] own(2) by simp
  qed
qed

lemma right_result:
  assumes step: "zone_result H good node k (right_node idx) B s r" and level: "at_level H (Suc k) idx"
    and own: "node s (Suc k) idx t" "t \<noteq> Busy" and other: "holds (node s) k (left_node idx) a"
  obtains s' b where "r = Inr s'" "good s'" "wf_zone k b" "holds (node s') k (left_node idx) a" "holds (node s') k (right_node idx) b"
    "avail k (first_cell H (Suc k) idx + 2 ^ k) b = B" "\<not> isb (Suc k) idx s'" "node_frame H node (outside idx) s s'"
    "node_frame H node (outside (right_node idx)) s s'"
proof -
  obtain s' b where s': "r = Inr s'" "good s'" "wf_zone k b" "holds (node s') k (right_node idx) b" "avail k (first_cell H k (right_node idx)) b = B"
    and frame: "node_frame H node (outside (right_node idx)) s s'" using step unfolding zone_result_def by blast
  show ?thesis
  proof (rule that [OF s'(1-3) other_half(2) [OF level frame other] s'(4) _ _ node_frame_up(2) [OF frame] frame])
    show "avail k (first_cell H (Suc k) idx + 2 ^ k) b = B" using s'(5) first_cell_children(2) [OF level] by simp
    show "\<not> isb (Suc k) idx s'" using is_blocked [OF other_half(4) [OF level frame own(1)]] own(2) by simp
  qed
qed

text \<open>Blocking a child that is free.\<close>

lemma block_result:
  assumes "good s" and "at_level H k idx" and "holds (node s) k idx (full_zone k)"
  shows "zone_result H good node k idx {} s (Inr (blk k idx s))"
proof -
  note frame = block_frame [OF assms(1,2)]
  have own: "node (blk k idx s) k idx Busy" by (rule block [OF assms(1,2) holds_root [OF assms(3)]])
  have "holds (node (blk k idx s)) k idx Busy"
  proof (cases k)
    case (Suc j)
    have level: "at_level H (Suc j) idx" using assms(2) Suc by simp
    have kids: "holds (node s) j (left_node idx) (full_zone j)" "holds (node s) j (right_node idx) (full_zone j)" using assms(3) Suc by simp_all
    have "holds (node (blk k idx s)) j (left_node idx) (full_zone j)"
      by (rule holds_node_frame [OF kids(1) at_level_nodes(1) [OF level] frame]) (rule left_not_root)
    moreover have "holds (node (blk k idx s)) j (right_node idx) (full_zone j)"
      by (rule holds_node_frame [OF kids(2) at_level_nodes(2) [OF level] frame]) (rule right_not_root)
    ultimately show ?thesis using own Suc by simp
  qed (use own in simp)
  moreover have "node_frame H node (outside idx) s (blk k idx s)" by (rule node_frame_mono [OF frame]) auto
  ultimately show ?thesis unfolding zone_result_def using good_ops(2) [OF assms(1)] by (auto intro: exI [of _ Busy])
qed

text \<open>What happens to the other child, when the dispatch goes to one only.\<close>

lemma excluded_right:
  assumes "good s" and level: "at_level H (Suc k) idx" and "holds (node s) k (right_node idx) b" and "wf_zone k b" and "\<not> keeps \<Longrightarrow> b = full_zone k"
  shows "zone_result H good node k (right_node idx) (if keeps then avail k (first_cell H k (right_node idx)) b else {}) s
    ((if keeps then null_visitor else visit_right blk) (Suc k) intv idx s)"
proof (cases keeps)
  case True
  then show ?thesis using assms by (auto simp: zone_result_def null_visitor_def)
next
  case False
  then show ?thesis using block_result [OF assms(1) at_level_nodes(2) [OF level]] assms(3,5) by (simp add: visit_right_def visit_def)
qed

lemma excluded_left:
  assumes "good s" and level: "at_level H (Suc k) idx" and "holds (node s) k (left_node idx) a" and "wf_zone k a" and "\<not> keeps \<Longrightarrow> a = full_zone k"
  shows "zone_result H good node k (left_node idx) (if keeps then avail k (first_cell H k (left_node idx)) a else {}) s
    ((if keeps then null_visitor else visit_left blk) (Suc k) intv idx s)"
proof (cases keeps)
  case True
  then show ?thesis using assms by (auto simp: zone_result_def null_visitor_def)
next
  case False
  then show ?thesis using block_result [OF assms(1) at_level_nodes(1) [OF level]] assms(3,5) by (simp add: visit_left_def visit_def)
qed

text \<open>A step on each child, then the node.\<close>

lemma left_then_right:
  assumes first: "zone_result H good node k (left_node idx) A s r" and level: "at_level H (Suc k) idx"
    and own: "node s (Suc k) idx t" "t \<noteq> Busy" and other: "holds (node s) k (right_node idx) b"
    and second: "\<And>s'. good s' \<Longrightarrow> holds (node s') k (right_node idx) b \<Longrightarrow> zone_result H good node k (right_node idx) B s' (f s')"
  shows "zone_result H good node (Suc k) idx (A \<union> B) s (bindR (bindR r f) (visit upd (Suc k) intv idx))"
proof -
  obtain s1 a where s1: "r = Inr s1" "good s1" "wf_zone k a" "holds (node s1) k (left_node idx) a" "holds (node s1) k (right_node idx) b"
    "avail k (first_cell H (Suc k) idx) a = A" and frame: "node_frame H node (outside idx) s s1" "node_frame H node (outside (left_node idx)) s s1"
    by (rule left_result [OF first level own other])
  have own1: "node s1 (Suc k) idx t" by (rule other_half(3) [OF level frame(2) own(1)])
  obtain s2 b' where s2: "f s1 = Inr s2" "good s2" "wf_zone k b'" "holds (node s2) k (left_node idx) a" "holds (node s2) k (right_node idx) b'"
    "avail k (first_cell H (Suc k) idx + 2 ^ k) b' = B" "\<not> isb (Suc k) idx s2" and frame2: "node_frame H node (outside idx) s1 s2"
    by (rule right_result [OF second [OF s1(2,5)] level own1 own(2) s1(4)])
  have "zone_result H good node (Suc k) idx (A \<union> B) s (visit upd (Suc k) intv idx s2)"
    by (rule update_result [OF s2(2) level s2(7) s1(3) s2(3,4,5) node_frame_trans [OF frame(1) frame2]]) (simp add: s1(6) s2(6))
  then show ?thesis by (simp add: s1(1) s2(1))
qed

lemma right_then_left:
  assumes first: "zone_result H good node k (right_node idx) B s r" and level: "at_level H (Suc k) idx"
    and own: "node s (Suc k) idx t" "t \<noteq> Busy" and other: "holds (node s) k (left_node idx) a"
    and second: "\<And>s'. good s' \<Longrightarrow> holds (node s') k (left_node idx) a \<Longrightarrow> zone_result H good node k (left_node idx) A s' (f s')"
  shows "zone_result H good node (Suc k) idx (A \<union> B) s (bindR (bindR r f) (visit upd (Suc k) intv idx))"
proof -
  obtain s1 b where s1: "r = Inr s1" "good s1" "wf_zone k b" "holds (node s1) k (left_node idx) a" "holds (node s1) k (right_node idx) b"
    "avail k (first_cell H (Suc k) idx + 2 ^ k) b = B" and frame: "node_frame H node (outside idx) s s1" "node_frame H node (outside (right_node idx)) s s1"
    by (rule right_result [OF first level own other])
  have own1: "node s1 (Suc k) idx t" by (rule other_half(4) [OF level frame(2) own(1)])
  obtain s2 a' where s2: "f s1 = Inr s2" "good s2" "wf_zone k a'" "holds (node s2) k (left_node idx) a'" "holds (node s2) k (right_node idx) b"
    "avail k (first_cell H (Suc k) idx) a' = A" "\<not> isb (Suc k) idx s2" and frame2: "node_frame H node (outside idx) s1 s2"
    by (rule left_result [OF second [OF s1(2,4)] level own1 own(2) s1(5)])
  have "zone_result H good node (Suc k) idx (A \<union> B) s (visit upd (Suc k) intv idx s2)"
    by (rule update_result [OF s2(2) level s2(7) s2(3) s1(3) s2(4,5) node_frame_trans [OF frame(1) frame2]]) (simp add: s1(6) s2(6))
  then show ?thesis by (simp add: s1(1) s2(1))
qed

text \<open>
  One induction for the three dispatches: outside the interval cells are kept or not, inside it they are freed or not. \<open>Q\<close> is what the dispatch
  needs of the interval and the zone.
\<close>

lemma apply_zone:
  assumes stop: "\<And>k idx lo hi s t. good s \<Longrightarrow> at_level H k idx \<Longrightarrow> holds (node s) k idx t \<Longrightarrow> wf_zone k t \<Longrightarrow> Q k (first_cell H k idx) lo hi t \<Longrightarrow>
        stop k (first_cell H k idx, first_cell H k idx + 2 ^ k - 1) idx (lo, hi) s \<Longrightarrow>
        zone_result H good node k idx (cells_after keeps frees (avail k (first_cell H k idx) t) lo hi) s
          (cb k (first_cell H k idx, first_cell H k idx + 2 ^ k - 1) idx s)"
    and nonstop: "\<And>k idx lo hi s t. holds (node s) k idx t \<Longrightarrow> Q k (first_cell H k idx) lo hi t \<Longrightarrow> first_cell H k idx \<le> lo \<Longrightarrow> lo \<le> hi \<Longrightarrow>
        hi < first_cell H k idx + 2 ^ k \<Longrightarrow> \<not> stop k (first_cell H k idx, first_cell H k idx + 2 ^ k - 1) idx (lo, hi) s \<Longrightarrow> t \<noteq> Busy \<and> (k = 0 \<longrightarrow> keeps \<and> frees)"
    and left: "\<And>k x lo hi a b. Q (Suc k) x lo hi (Halves a b) \<Longrightarrow> hi < x + 2 ^ k \<Longrightarrow> Q k x lo hi a"
    and right: "\<And>k x lo hi a b. Q (Suc k) x lo hi (Halves a b) \<Longrightarrow> x + 2 ^ k \<le> lo \<Longrightarrow> Q k (x + 2 ^ k) lo hi b"
    and both: "\<And>k x lo hi a b. Q (Suc k) x lo hi (Halves a b) \<Longrightarrow> lo < x + 2 ^ k \<Longrightarrow> x + 2 ^ k \<le> hi \<Longrightarrow>
        Q k x lo (x + 2 ^ k - 1) a \<and> Q k (x + 2 ^ k) (x + 2 ^ k) hi b"
    and full: "\<And>k x lo hi t. \<not> keeps \<Longrightarrow> Q k x lo hi t \<Longrightarrow> t = full_zone k"
    and excl: "rexc = (if keeps then null_visitor else visit_left blk)" "lexc = (if keeps then null_visitor else visit_right blk)"
  shows "good s \<Longrightarrow> at_level H k idx \<Longrightarrow> holds (node s) k idx t \<Longrightarrow> wf_zone k t \<Longrightarrow> x = first_cell H k idx \<Longrightarrow> Q k x lo hi t \<Longrightarrow>
    x \<le> lo \<Longrightarrow> lo \<le> hi \<Longrightarrow> hi < x + 2 ^ k \<Longrightarrow>
    zone_result H good node k idx (cells_after keeps frees (avail k x t) lo hi) s
      (interval_apply (Suc k) idx (x, x + 2 ^ k - 1) (lo, hi) stop cb (visit upd) rexc lexc s)"
proof (induction k arbitrary: idx x lo hi s t)
  case 0
  show ?case
  proof (cases "stop 0 (x, x + 2 ^ 0 - 1) idx (lo, hi) s")
    case True
    then show ?thesis using stop [of s 0 idx t lo hi] 0 by simp
  next
    case False
    then have t: "t \<noteq> Busy" "keeps" "frees" using nonstop [of s 0 idx t lo hi] 0 by auto
    then have "t = Cell" using zone_cases0 [OF "0.prems"(4)] by blast
    have frame: "node_frame H node (\<lambda>x. True) s (upd 0 idx s)" by (rule update_base [OF "0.prems"(1,2)])
    then have "holds (node (upd 0 idx s)) 0 idx Cell" using "0.prems"(2,3) \<open>t = Cell\<close> by (simp add: node_frame_def)
    moreover have "node_frame H node (outside idx) s (upd 0 idx s)" by (rule node_frame_mono [OF frame]) simp
    moreover have "{lo..hi} = {x}" using "0.prems" by auto
    ultimately have "zone_result H good node 0 idx (cells_after keeps frees (avail 0 x t) lo hi) s (Inr (upd 0 idx s))"
      using t good_ops(1) [OF "0.prems"(1)] \<open>t = Cell\<close> "0.prems"(5) unfolding zone_result_def cells_after_def by (auto intro!: exI [of _ Cell])
    moreover have "midpoint (x, x) = x" "is_left_bound (lo, hi) x" using "0.prems" by (simp_all add: midpoint_def is_left_bound_def)
    ultimately show ?thesis using False t(2) by (simp add: excl null_visitor_def visit_def)
  qed
next
  case (Suc k)
  note good = Suc.prems(1) and level = Suc.prems(2) and held = Suc.prems(3) and wf = Suc.prems(4)
  note cells = first_cell_children [OF level, folded Suc.prems(5)]
  show ?case
  proof (cases "stop (Suc k) (x, x + 2 ^ Suc k - 1) idx (lo, hi) s")
    case True
    then show ?thesis using stop [OF good level held wf] Suc.prems(5,6) by simp
  next
    case False
    then have busy: "t \<noteq> Busy" using nonstop [OF held] Suc.prems(5-9) by simp
    then obtain a b where t: "t = Halves a b" using wf_halves(3) [OF wf] by blast
    note own = holds_root [OF held] and kids = kids_hold [OF held wf level, unfolded t lhalf.simps rhalf.simps]
    have Q: "Q (Suc k) x lo hi (Halves a b)" using Suc.prems(6) t by simp
    have shrink: "left_shrink (x, x + 2 ^ Suc k - 1) (x + 2 ^ k - 1) = (x, x + 2 ^ k - 1)"
      "right_shrink (x, x + 2 ^ Suc k - 1) (x + 2 ^ k - 1) = (x + 2 ^ k, x + 2 ^ k + 2 ^ k - 1)"
      "left_shrink (lo, hi) (x + 2 ^ k - 1) = (lo, x + 2 ^ k - 1)" "right_shrink (lo, hi) (x + 2 ^ k - 1) = (x + 2 ^ k, hi)"
      by (simp_all add: left_shrink_def right_shrink_def)
    note within = avail_within [OF kids(3), of x] avail_within [OF kids(4), of "x + 2 ^ k"]
    let ?step = "\<lambda>child intv key. interval_apply (Suc k) child intv key stop cb (visit upd) rexc lexc"
    let ?after = "cells_after keeps frees"
    have goal: "zone_result H good node (Suc k) idx (?after (avail (Suc k) x t) lo hi) s (if stop (Suc k) (x, x + 2 ^ Suc k - 1) idx (lo, hi) s
         then cb (Suc k) (x, x + 2 ^ Suc k - 1) idx s else bindR r (visit upd (Suc k) (x, x + 2 ^ Suc k - 1) idx))"
      if "zone_result H good node (Suc k) idx A s (bindR r (visit upd (Suc k) (x, x + 2 ^ Suc k - 1) idx))"
        "A = ?after (avail k x a \<union> avail k (x + 2 ^ k) b) lo hi" for A r
      using that False by (simp add: t)
    note unfold_step = interval_apply.simps(2) [of "Suc k"] Let_def midpoint_zone shrink
    consider (L) "hi < x + 2 ^ k" "is_left_bound (lo, hi) (x + 2 ^ k - 1)"
      | (R) "x + 2 ^ k \<le> lo" "\<not> is_left_bound (lo, hi) (x + 2 ^ k - 1)" "is_right_bound (lo, hi) (x + 2 ^ k - 1)"
      | (M) "lo < x + 2 ^ k" "x + 2 ^ k \<le> hi" "\<not> is_left_bound (lo, hi) (x + 2 ^ k - 1)" "\<not> is_right_bound (lo, hi) (x + 2 ^ k - 1)"
      by (rule zone_parts [OF Suc.prems(8), of x k])
    then show ?thesis
    proof cases
      case L
      have step: "zone_result H good node k (left_node idx) (?after (avail k x a) lo hi) s (?step (left_node idx) (x, x + 2 ^ k - 1) (lo, hi) s)"
        by (rule Suc.IH [OF good kids(5,1,3) cells(1) [symmetric] left [OF Q L(1)] Suc.prems(7,8) L(1)])
      have b: "\<not> keeps \<Longrightarrow> b = full_zone k" using full [OF _ Q] by simp
      have second: "zone_result H good node k (right_node idx) (if keeps then avail k (x + 2 ^ k) b else {}) s'
          (lexc (Suc k) (x, x + 2 ^ Suc k - 1) idx s')" if "good s'" "holds (node s') k (right_node idx) b" for s'
        by (rule excluded_right [where keeps = keeps, OF that(1) level that(2) kids(4) b, unfolded cells(2), folded excl(2)])
      note res = left_then_right [OF step level own busy kids(2) second]
      have set: "?after (avail k x a) lo hi \<union> (if keeps then avail k (x + 2 ^ k) b else {}) = ?after (avail k x a \<union> avail k (x + 2 ^ k) b) lo hi"
        using L(1) within(2) by (auto simp: cells_after_def within_def)
      show ?thesis unfolding unfold_step if_P [OF L(2)] by (rule goal [OF res set])
    next
      case R
      have upper: "hi < x + 2 ^ k + 2 ^ k" using Suc.prems(9) by simp
      have step: "zone_result H good node k (right_node idx) (?after (avail k (x + 2 ^ k) b) lo hi) s (?step (right_node idx) (x + 2 ^ k, x + 2 ^ k + 2 ^ k - 1) (lo, hi) s)"
        by (rule Suc.IH [OF good kids(6,2,4) cells(2) [symmetric] right [OF Q R(1)] R(1) Suc.prems(8) upper])
      have a: "\<not> keeps \<Longrightarrow> a = full_zone k" using full [OF _ Q] by simp
      have second: "zone_result H good node k (left_node idx) (if keeps then avail k x a else {}) s'
          (rexc (Suc k) (x, x + 2 ^ Suc k - 1) idx s')" if "good s'" "holds (node s') k (left_node idx) a" for s'
        by (rule excluded_left [where keeps = keeps, OF that(1) level that(2) kids(3) a, unfolded cells(1), folded excl(1)])
      note res = right_then_left [OF step level own busy kids(1) second]
      have set: "(if keeps then avail k x a else {}) \<union> ?after (avail k (x + 2 ^ k) b) lo hi = ?after (avail k x a \<union> avail k (x + 2 ^ k) b) lo hi"
        using R(1) within(1) by (auto simp: cells_after_def within_def)
      show ?thesis unfolding unfold_step if_not_P [OF R(2)] if_P [OF R(3)] by (rule goal [OF res set])
    next
      case M
      have upper: "hi < x + 2 ^ k + 2 ^ k" using Suc.prems(9) by simp
      have pos: "x + 2 ^ k - 1 < x + 2 ^ k" by simp
      have mid: "lo \<le> x + 2 ^ k - 1" using M(1) by simp
      note Qs = both [OF Q M(1,2)]
      have step: "zone_result H good node k (left_node idx) (?after (avail k x a) lo (x + 2 ^ k - 1)) s
          (?step (left_node idx) (x, x + 2 ^ k - 1) (lo, x + 2 ^ k - 1) s)"
        by (rule Suc.IH [OF good kids(5,1,3) cells(1) [symmetric] conjunct1 [OF Qs] Suc.prems(7) mid pos])
      have second: "zone_result H good node k (right_node idx) (?after (avail k (x + 2 ^ k) b) (x + 2 ^ k) hi) s'
          (?step (right_node idx) (x + 2 ^ k, x + 2 ^ k + 2 ^ k - 1) (x + 2 ^ k, hi) s')" if "good s'" "holds (node s') k (right_node idx) b" for s'
        by (rule Suc.IH [OF that(1) kids(6) that(2) kids(4) cells(2) [symmetric] conjunct2 [OF Qs] order_refl M(2) upper])
      note res = left_then_right [OF step level own busy kids(2) second]
      have "{lo..hi} = {lo..x + 2 ^ k - 1} \<union> {x + 2 ^ k..hi}" using M(1,2) by auto
      then have set: "?after (avail k x a) lo (x + 2 ^ k - 1) \<union> ?after (avail k (x + 2 ^ k) b) (x + 2 ^ k) hi
          = ?after (avail k x a \<union> avail k (x + 2 ^ k) b) lo hi"
        using within M(1,2) by (auto simp: cells_after_def within_def)
      show ?thesis unfolding unfold_step if_not_P [OF M(3)] if_not_P [OF M(4)] by (rule goal [OF res set])
    qed
  qed
qed

lemma root_zone:
  assumes "good s"
  shows "at_level H (H - 1) 0" "first_cell H (H - 1) 0 = 0" "idx_to_interval H (H - 1) 0 = (0, 0 + 2 ^ (H - 1) - 1)" "H = Suc (H - 1)"
  using height [OF assms] idx_to_interval [of "H - 1" H 0] by (simp_all add: at_level_def first_cell_def)

text \<open>Blocking free cells takes exactly them away.\<close>

lemma block_takes:
  assumes "good s" and "holds (node s) (H - 1) 0 t" and "wf_zone (H - 1) t" and "lo \<le> hi" and free: "{lo..hi} \<subseteq> avail (H - 1) 0 t"
  shows "zone_result H good node (H - 1) 0 (avail (H - 1) 0 t - {lo..hi}) s (heap_dispatch_block H blk upd (lo, hi) s)"
proof -
  let ?Q = "\<lambda>k x lo hi t. wf_zone k t \<and> {lo..hi} \<subseteq> avail k x t"
  have halves: "{lo..hi} \<subseteq> avail k x a \<union> avail k (x + 2 ^ k) b \<Longrightarrow> hi < x + 2 ^ k \<Longrightarrow> {lo..hi} \<subseteq> avail k x a"
    "{lo..hi} \<subseteq> avail k x a \<union> avail k (x + 2 ^ k) b \<Longrightarrow> x + 2 ^ k \<le> lo \<Longrightarrow> {lo..hi} \<subseteq> avail k (x + 2 ^ k) b"
    if "wf_zone k a" "wf_zone k b" for k x lo hi a b
    using avail_within [OF that(1), of x] avail_within [OF that(2), of "x + 2 ^ k"] by (fastforce simp: within_def)+
  have "zone_result H good node (H - 1) 0 (cells_after True False (avail (H - 1) 0 t) lo hi) s
      (interval_apply (Suc (H - 1)) 0 (0, 0 + 2 ^ (H - 1) - 1) (lo, hi) stop_equal (visit blk) (visit upd) null_visitor null_visitor s)"
  proof (rule apply_zone [where Q = ?Q and keeps = True and frees = False])
    fix k idx lo hi s t
    assume a: "good s" "at_level H k idx" "holds (node s) k idx t" "wf_zone k t" "?Q k (first_cell H k idx) lo hi t"
      "stop_equal k (first_cell H k idx, first_cell H k idx + 2 ^ k - 1) idx (lo, hi) s"
    then have all: "{lo..hi} = {first_cell H k idx..<first_cell H k idx + 2 ^ k}" unfolding stop_equal_def using zone_cells by blast
    then have "t = full_zone k" using a(4,5) by (intro avail_all) auto
    then show "zone_result H good node k idx (cells_after True False (avail k (first_cell H k idx) t) lo hi) s
        (visit blk k (first_cell H k idx, first_cell H k idx + 2 ^ k - 1) idx s)"
      using block_result [OF a(1,2)] a(3) all by (simp add: visit_def cells_after_def)
  next
    fix k idx lo hi s t
    assume a: "?Q k (first_cell H k idx) lo hi t" "first_cell H k idx \<le> lo" "lo \<le> hi" "hi < first_cell H k idx + 2 ^ k"
      "\<not> stop_equal k (first_cell H k idx, first_cell H k idx + 2 ^ k - 1) idx (lo, hi) s"
    have "k \<noteq> 0" using a(2-5) by (intro notI) (auto simp: stop_equal_def)
    moreover have "t \<noteq> Busy" using a(1,3) by auto
    ultimately show "t \<noteq> Busy \<and> (k = 0 \<longrightarrow> True \<and> False)" by simp
  next
    show "?Q k x lo hi a" if "?Q (Suc k) x lo hi (Halves a b)" "hi < x + 2 ^ k" for k x lo hi a b using halves(1) [of k a b lo hi x] that by simp
    show "?Q k (x + 2 ^ k) lo hi b" if "?Q (Suc k) x lo hi (Halves a b)" "x + 2 ^ k \<le> lo" for k x lo hi a b using halves(2) [of k a b lo hi x] that by simp
  next
    fix k x lo hi a b
    assume Q: "?Q (Suc k) x lo hi (Halves a b)" and cut: "lo < x + 2 ^ k" "x + 2 ^ k \<le> hi"
    have sub: "{lo..x + 2 ^ k - 1} \<subseteq> {lo..hi}" "{x + 2 ^ k..hi} \<subseteq> {lo..hi}" and wf: "wf_zone k a" "wf_zone k b"
      and all: "{lo..hi} \<subseteq> avail k x a \<union> avail k (x + 2 ^ k) b" using Q cut by auto
    have "{lo..x + 2 ^ k - 1} \<subseteq> avail k x a" by (rule halves(1) [OF wf subset_trans [OF sub(1) all]]) simp
    moreover have "{x + 2 ^ k..hi} \<subseteq> avail k (x + 2 ^ k) b" by (rule halves(2) [OF wf subset_trans [OF sub(2) all]]) simp
    ultimately show "?Q k x lo (x + 2 ^ k - 1) a \<and> ?Q k (x + 2 ^ k) (x + 2 ^ k) hi b" using wf by blast
  next
    have "hi \<in> avail (H - 1) 0 t" using assms(4) free by auto
    then show "hi < 0 + 2 ^ (H - 1)" using avail_within [OF assms(3), of 0] by (simp add: within_def)
  qed (use assms root_zone [OF assms(1)] in simp_all)
  then show ?thesis using root_zone(3,4) [OF assms(1)] by (simp add: heap_dispatch_block_def cells_after_def)
qed

text \<open>The worker: what is not in the interval is blocked again.\<close>

lemma unblock_worker_ok:
  assumes "good s" and "at_level H k idx" and "holds (node s) k idx (full_zone k)" and "x = first_cell H k idx" and "x \<le> lo" and "lo \<le> hi" and "hi < x + 2 ^ k"
  shows "zone_result H good node k idx {lo..hi} s (unblock_worker H blk upd k (lo, hi) idx s)"
proof -
  have "zone_result H good node k idx (cells_after False True (avail k x (full_zone k)) lo hi) s
      (interval_apply (Suc k) idx (x, x + 2 ^ k - 1) (lo, hi) stop_equal null_visitor (visit upd) (visit_left blk) (visit_right blk) s)"
  proof (rule apply_zone [where Q = "\<lambda>k x lo hi t. t = full_zone k" and keeps = False and frees = True])
    fix k idx lo hi s t
    assume a: "good s" "holds (node s) k idx t" "t = full_zone k" "stop_equal k (first_cell H k idx, first_cell H k idx + 2 ^ k - 1) idx (lo, hi) s"
    have "{lo..hi} = {first_cell H k idx..<first_cell H k idx + 2 ^ k}" using a(4) unfolding stop_equal_def using zone_cells by blast
    then have "cells_after False True (avail k (first_cell H k idx) t) lo hi = avail k (first_cell H k idx) t" by (simp add: cells_after_def a(3))
    then show "zone_result H good node k idx (cells_after False True (avail k (first_cell H k idx) t) lo hi) s
        (null_visitor k (first_cell H k idx, first_cell H k idx + 2 ^ k - 1) idx s)"
      using a(1-3) by (auto simp: zone_result_def null_visitor_def intro: exI [of _ "full_zone k"])
  next
    fix k idx lo hi s t
    assume a: "t = full_zone k" "first_cell H k idx \<le> lo" "lo \<le> hi" "hi < first_cell H k idx + 2 ^ k"
      "\<not> stop_equal k (first_cell H k idx, first_cell H k idx + 2 ^ k - 1) idx (lo, hi) s"
    have "k \<noteq> 0" using a(2-5) by (intro notI) (auto simp: stop_equal_def)
    then show "t \<noteq> Busy \<and> (k = 0 \<longrightarrow> False \<and> True)" using a(1) by simp
  qed (use assms in simp_all)
  then show ?thesis using idx_to_interval [OF node_level [OF assms(2)], of idx] assms(4) by (simp add: unblock_worker_def cells_after_def)
qed

lemma unblock_held:
  assumes good: "good s" and level: "at_level H k idx" and held: "holds (node s) k idx Busy"
  shows "holds (node (unb k idx s)) k idx (full_zone k)"
proof -
  note frame = unblock_frame [OF good level]
  have own: "node (unb k idx s) k idx (full_zone k)" using unblock [OF good level] holds_root [OF held] by blast
  show ?thesis
  proof (cases k)
    case (Suc j)
    have lev: "at_level H (Suc j) idx" using level Suc by simp
    have kids: "holds (node s) j (left_node idx) (full_zone j)" "holds (node s) j (right_node idx) (full_zone j)" using held Suc by simp_all
    have "holds (node (unb k idx s)) j (left_node idx) (full_zone j)"
      by (rule holds_node_frame [OF kids(1) at_level_nodes(1) [OF lev] frame]) (rule left_not_root)
    moreover have "holds (node (unb k idx s)) j (right_node idx) (full_zone j)"
      by (rule holds_node_frame [OF kids(2) at_level_nodes(2) [OF lev] frame]) (rule right_not_root)
    ultimately show ?thesis using own Suc by simp
  qed (use own in simp)
qed

text \<open>Unblocking adds exactly the cells of the interval, blocked before or not.\<close>

lemma transfer_ok:
  assumes good: "good s" and level: "at_level H k idx" and held: "holds (node s) k idx Busy" and x: "x = first_cell H k idx"
    and key: "(lo, hi) = intersect_interval (x, x + 2 ^ k - 1) key0" and le: "lo \<le> hi"
  shows "zone_result H good node k idx {lo..hi} s (unblock_transfer H blk unb upd key0 k (x, x + 2 ^ k - 1) idx s)"
proof -
  note frame = unblock_frame [OF good level]
  have held': "holds (node (unb k idx s)) k idx (full_zone k)" by (rule unblock_held [OF good level held])
  have lo: "x \<le> lo" using key by (auto simp: intersect_interval_def)
  have "hi \<in> {x..x + 2 ^ k - 1}" using key le by (auto simp: intersect_interval_def)
  then have hi: "hi < x + 2 ^ k" using zone_cells [of x k] by auto
  have worker: "zone_result H good node k idx {lo..hi} (unb k idx s) (unblock_worker H blk upd k (lo, hi) idx (unb k idx s))"
    by (rule unblock_worker_ok [OF good_ops(3) [OF good] level held' x lo le hi])
  have "node_frame H node (outside idx) s (unb k idx s)" by (rule node_frame_mono [OF frame]) auto
  then show ?thesis using worker unfolding unblock_transfer_def visit_def bindR_simps key [symmetric] zone_result_def
    by (blast intro: node_frame_trans)
qed

lemma intersect_parts:
  fixes k :: nat
  assumes "(lo, hi) = intersect_interval (x, x + 2 ^ Suc k - 1) key0"
  shows "hi < x + 2 ^ k \<Longrightarrow> (lo, hi) = intersect_interval (x, x + 2 ^ k - 1) key0"
    and "x + 2 ^ k \<le> lo \<Longrightarrow> (lo, hi) = intersect_interval (x + 2 ^ k, x + 2 ^ k + 2 ^ k - 1) key0"
    and "lo < x + 2 ^ k \<Longrightarrow> x + 2 ^ k \<le> hi \<Longrightarrow> (lo, x + 2 ^ k - 1) = intersect_interval (x, x + 2 ^ k - 1) key0
      \<and> (x + 2 ^ k, hi) = intersect_interval (x + 2 ^ k, x + 2 ^ k + 2 ^ k - 1) key0"
proof -
  obtain p :: nat where p: "2 ^ k = Suc p" by (metis not0_implies_Suc power_not_zero zero_neq_numeral)
  obtain kl kh where key0: "key0 = (kl, kh)" by fastforce
  have eqs: "lo = max x kl" "hi = min (x + Suc p + p) kh" using assms p by (simp_all add: intersect_interval_def key0)
  show "hi < x + 2 ^ k \<Longrightarrow> (lo, hi) = intersect_interval (x, x + 2 ^ k - 1) key0"
    using eqs by (auto simp: intersect_interval_def key0 p min_def split: if_splits)
  show "x + 2 ^ k \<le> lo \<Longrightarrow> (lo, hi) = intersect_interval (x + 2 ^ k, x + 2 ^ k + 2 ^ k - 1) key0"
    using eqs by (auto simp: intersect_interval_def key0 p max_def split: if_splits)
  show "lo < x + 2 ^ k \<Longrightarrow> x + 2 ^ k \<le> hi \<Longrightarrow> (lo, x + 2 ^ k - 1) = intersect_interval (x, x + 2 ^ k - 1) key0
      \<and> (x + 2 ^ k, hi) = intersect_interval (x + 2 ^ k, x + 2 ^ k + 2 ^ k - 1) key0"
    using eqs by (auto simp: intersect_interval_def key0 p max_def min_def split: if_splits)
qed

lemma unblock_gives:
  assumes "good s" and "holds (node s) (H - 1) 0 t" and "wf_zone (H - 1) t" and "lo \<le> hi" and "hi < 2 ^ (H - 1)"
  shows "zone_result H good node (H - 1) 0 (avail (H - 1) 0 t \<union> {lo..hi}) s (dispatch_unblock H blk unb upd isb (lo, hi) s)"
proof -
  let ?Q = "\<lambda>k x l h t. (l, h) = intersect_interval (x, x + 2 ^ k - 1) (lo, hi) \<and> l \<le> h"
  have "zone_result H good node (H - 1) 0 (cells_after True True (avail (H - 1) 0 t) lo hi) s
      (interval_apply (Suc (H - 1)) 0 (0, 0 + 2 ^ (H - 1) - 1) (lo, hi) (stop_blocked isb) (unblock_transfer H blk unb upd (lo, hi)) (visit upd)
         null_visitor null_visitor s)"
  proof (rule apply_zone [where Q = ?Q and keeps = True and frees = True])
    fix k idx l h s t
    assume a: "good s" "at_level H k idx" "holds (node s) k idx t" "?Q k (first_cell H k idx) l h t"
      "stop_blocked isb k (first_cell H k idx, first_cell H k idx + 2 ^ k - 1) idx (l, h) s"
    have t: "t = Busy" using is_blocked [OF holds_root [OF a(3)]] a(5) by (simp add: stop_blocked_def)
    have held: "holds (node s) k idx Busy" using a(3) t by simp
    from transfer_ok [OF a(1,2) held refl conjunct1 [OF a(4)] conjunct2 [OF a(4)]] t
    show "zone_result H good node k idx (cells_after True True (avail k (first_cell H k idx) t) l h) s
        (unblock_transfer H blk unb upd (lo, hi) k (first_cell H k idx, first_cell H k idx + 2 ^ k - 1) idx s)"
      by (simp add: cells_after_def)
  next
    fix k idx l h s t
    assume a: "holds (node s) k idx t" "\<not> stop_blocked isb k (first_cell H k idx, first_cell H k idx + 2 ^ k - 1) idx (l, h) s"
    then show "t \<noteq> Busy \<and> (k = 0 \<longrightarrow> True \<and> True)" using is_blocked [OF holds_root [OF a(1)]] by (simp add: stop_blocked_def)
  next
    show "\<And>k x l h a b. ?Q (Suc k) x l h (Halves a b) \<Longrightarrow> h < x + 2 ^ k \<Longrightarrow> ?Q k x l h a" using intersect_parts(1) by blast
    show "\<And>k x l h a b. ?Q (Suc k) x l h (Halves a b) \<Longrightarrow> x + 2 ^ k \<le> l \<Longrightarrow> ?Q k (x + 2 ^ k) l h b" using intersect_parts(2) by blast
    show "\<And>k x l h a b. ?Q (Suc k) x l h (Halves a b) \<Longrightarrow> l < x + 2 ^ k \<Longrightarrow> x + 2 ^ k \<le> h \<Longrightarrow>
        ?Q k x l (x + 2 ^ k - 1) a \<and> ?Q k (x + 2 ^ k) (x + 2 ^ k) h b"
      using intersect_parts(3) by fastforce
  qed (use assms root_zone [OF assms(1)] in \<open>simp_all add: intersect_interval_def\<close>)
  moreover have "cells_after True True A lo hi = A \<union> {lo..hi}" for A by (auto simp: cells_after_def)
  ultimately show ?thesis using root_zone(3,4) [OF assms(1)] by (simp add: dispatch_unblock_def)
qed

text \<open>The first traversal makes every cell free, whatever the store held.\<close>

lemma traverse_ok:
  assumes "good s" and "at_level H k idx" and "x = first_cell H k idx"
  shows "zone_result H good node k idx {x..<x + 2 ^ k} s (interval_traverse (Suc k) idx (x, x + 2 ^ k - 1) (visit unb) (init_post unb upd) stop_base s)"
  using assms
proof (induction k arbitrary: idx x s)
  case 0
  note own = unblock [OF "0.prems"(1,2), simplified]
  have "node_frame H node (outside idx) s (unb 0 idx s)" by (rule node_frame_mono [OF unblock_frame [OF "0.prems"(1,2)]]) auto
  then show ?case using own good_ops(3) [OF "0.prems"(1)] "0.prems"(3) by (auto simp: zone_result_def stop_base_def visit_def intro!: exI [of _ Cell])
next
  case (Suc k)
  note level = Suc.prems(2) and cells = first_cell_children [OF Suc.prems(2), folded Suc.prems(3)]
  have intervals: "left_interval (x, x + 2 ^ Suc k - 1) = (x, x + 2 ^ k - 1)" "right_interval (x, x + 2 ^ Suc k - 1) = (x + 2 ^ k, x + 2 ^ k + 2 ^ k - 1)"
    unfolding left_interval_def right_interval_def midpoint_zone by (simp_all add: left_shrink_def right_shrink_def)
  have whole: "z = full_zone k" if "wf_zone k z" "avail k y z = {y..<y + 2 ^ k}" for z y using that by (intro avail_all [of k z y]) auto
  let ?step = "\<lambda>child intv. interval_traverse (Suc k) child intv (visit unb) (init_post unb upd) stop_base"
  obtain s1 where s1: "?step (left_node idx) (x, x + 2 ^ k - 1) s = Inr s1" "good s1" "holds (node s1) k (left_node idx) (full_zone k)"
      "node_frame H node (outside (left_node idx)) s s1"
    using Suc.IH [OF Suc.prems(1) at_level_nodes(1) [OF level] cells(1) [symmetric]] whole cells(1) unfolding zone_result_def by metis
  obtain s2 where s2: "?step (right_node idx) (x + 2 ^ k, x + 2 ^ k + 2 ^ k - 1) s1 = Inr s2" "good s2" "holds (node s2) k (right_node idx) (full_zone k)"
      "node_frame H node (outside (right_node idx)) s1 s2"
    using Suc.IH [OF s1(2) at_level_nodes(2) [OF level] cells(2) [symmetric]] whole cells(2) unfolding zone_result_def by metis
  have kid: "holds (node s2) k (left_node idx) (full_zone k)" by (rule other_half(2) [OF level s2(4) s1(3)])
  note free = unblock_frame [OF s2(2) level]
  let ?s3 = "unb (Suc k) idx s2"
  have kids: "holds (node ?s3) k (left_node idx) (full_zone k)" "holds (node ?s3) k (right_node idx) (full_zone k)"
    by (rule holds_node_frame [OF kid at_level_nodes(1) [OF level] free], erule left_not_root)
      (rule holds_node_frame [OF s2(3) at_level_nodes(2) [OF level] free], erule right_not_root)
  have frame: "node_frame H node (outside idx) s ?s3"
    by (rule node_frame_trans [OF node_frame_up(1) [OF s1(4)] node_frame_trans [OF node_frame_up(2) [OF s2(4)] node_frame_mono [OF free]]]) auto
  have "{x..<x + 2 ^ Suc k} = avail k (first_cell H (Suc k) idx) (full_zone k) \<union> avail k (first_cell H (Suc k) idx + 2 ^ k) (full_zone k)"
    using Suc.prems(3) by auto
  from update_result [OF good_ops(3) [OF s2(2)] level unblocked [OF s2(2) level] full_wf full_wf kids frame this]
  have result: "zone_result H good node (Suc k) idx {x..<x + 2 ^ Suc k} s (init_post unb upd (Suc k) (x, x + 2 ^ Suc k - 1) idx s2)"
    by (simp add: init_post_def visit_def)
  have stop: "stop_base (Suc k) intv idx = False" for intv by (simp add: stop_base_def)
  show ?case unfolding interval_traverse.simps(2) [of "Suc k"] stop if_False intervals s1(1) s2(1) bindR_simps by (rule result)
qed

lemma initialize_ok:
  assumes "good s"
  shows "zone_result H good node (H - 1) 0 {0..<2 ^ (H - 1)} s (initialize H unb upd s)"
  using traverse_ok [OF assms root_zone(1) [OF assms] root_zone(2) [OF assms, symmetric]] root_zone(3,4) [OF assms] by (simp add: initialize_def)

end

end
