(* ===== verification/Heap_Operator.thy ===== *)
theory Heap_Operator
  imports Heap_Reading Heap_Interface
begin

text \<open>
  The store of \<open>dg_heap/heap.h\<close> (\<open>StdHeapDataView\<close>), the reader that chooses between the stored nodes and the bits (\<open>StdStorageExtractor\<close>), the tracers, and
  the operations on a node: \<open>StdHeapOperator::update\<close>, \<open>block\<close>, \<open>unblock\<close> and \<open>is_blocked\<close>; what the store has to say of a node, and that every
  reader returns it.
\<close>

section \<open>The store\<close>

record heap_store =
  node_container :: "zone_node list"
  traceback_store :: "64 word list"
  cache_instance :: heap_cache

text \<open>\<open>H\<close> is \<open>TRACEBACK_HEIGHT\<close>, the height of the tree; \<open>D\<close> is \<open>DYNAMIC_HEIGHT\<close>. The node \<open>idx\<close> is on level \<open>H - k\<close>.\<close>

definition bottom_read :: "(nat \<times> heap_cache) \<Rightarrow> heap_store \<Rightarrow> nat \<times> heap_store" where
  "bottom_read r s = (case r of (v, c) \<Rightarrow> (v, s\<lparr>cache_instance := c\<rparr>))"

definition get_left_at :: "nat \<Rightarrow> nat \<Rightarrow> nat \<Rightarrow> nat \<Rightarrow> heap_store \<Rightarrow> nat \<times> heap_store" where
  "get_left_at H D k idx s =
     (if H - k \<le> D then (node_l (node_container s ! idx), s) else bottom_read (bottom_left H (traceback_store s) k idx (cache_instance s)) s)"

definition get_right_at :: "nat \<Rightarrow> nat \<Rightarrow> nat \<Rightarrow> nat \<Rightarrow> heap_store \<Rightarrow> nat \<times> heap_store" where
  "get_right_at H D k idx s =
     (if H - k \<le> D then (node_r (node_container s ! idx), s) else bottom_read (bottom_right H (traceback_store s) k idx (cache_instance s)) s)"

definition get_center_at :: "nat \<Rightarrow> nat \<Rightarrow> nat \<Rightarrow> nat \<Rightarrow> heap_store \<Rightarrow> nat \<times> heap_store" where
  "get_center_at H D k idx s =
     (if H - k \<le> D then (node_c (node_container s ! idx), s) else bottom_read (bottom_center H (traceback_store s) k idx (cache_instance s)) s)"

definition get_offset_at :: "nat \<Rightarrow> nat \<Rightarrow> nat \<Rightarrow> nat \<Rightarrow> heap_store \<Rightarrow> nat \<times> heap_store" where
  "get_offset_at H D k idx s =
     (if H - k \<le> D then (node_o (node_container s ! idx), s) else bottom_read (bottom_offset H (traceback_store s) k idx (cache_instance s)) s)"

section \<open>Tracing\<close>

text \<open>Which of its callbacks \<open>IntervalTracer\<close> calls, and the number it gives it. The node has \<open>k\<close> levels below, one at least.\<close>

definition trace_left_at :: "nat \<Rightarrow> nat \<Rightarrow> nat \<Rightarrow> nat \<Rightarrow> heap_store \<Rightarrow> side \<times> nat \<times> heap_store" where
  "trace_left_at H D k idx s =
     (let SPAN_SZ = span_size_at H (k - 1);
          (ll, s) = get_left_at H D (k - 1) (left_node idx) s;
          (rl, s) = get_left_at H D (k - 1) (right_node idx) s
      in if ll = SPAN_SZ \<and> rl \<noteq> 0 then (R_side, ll + rl, s) else (L_side, ll, s))"

definition trace_right_at :: "nat \<Rightarrow> nat \<Rightarrow> nat \<Rightarrow> nat \<Rightarrow> heap_store \<Rightarrow> side \<times> nat \<times> heap_store" where
  "trace_right_at H D k idx s =
     (let SPAN_SZ = span_size_at H (k - 1);
          (rr, s) = get_right_at H D (k - 1) (right_node idx) s;
          (lr, s) = get_right_at H D (k - 1) (left_node idx) s
      in if rr = SPAN_SZ \<and> lr \<noteq> 0 then (L_side, rr + lr, s) else (R_side, rr, s))"

definition trace_center_at :: "nat \<Rightarrow> nat \<Rightarrow> nat \<Rightarrow> nat \<Rightarrow> heap_store \<Rightarrow> side \<times> nat \<times> heap_store" where
  "trace_center_at H D k idx s =
     (let (lc, s) = get_center_at H D (k - 1) (left_node idx) s;
          (rc, s) = get_center_at H D (k - 1) (right_node idx) s;
          (lr, s) = get_right_at H D (k - 1) (left_node idx) s;
          (rl, s) = get_left_at H D (k - 1) (right_node idx) s;
          mid = lr + rl
      in if mid > lc \<and> mid > rc then (M_side, mid, s) else if rc > lc then (R_side, rc, s) else (L_side, lc, s))"

section \<open>Updating\<close>

text \<open>\<open>top_impl::StdUpdater\<close>\<close>

definition put_node :: "(zone_node \<Rightarrow> zone_node) \<Rightarrow> nat \<Rightarrow> heap_store \<Rightarrow> heap_store" where
  "put_node f idx s = s\<lparr>node_container := (node_container s)[idx := f (node_container s ! idx)]\<rparr>"

definition top_update_left :: "nat \<Rightarrow> nat \<Rightarrow> nat \<Rightarrow> nat \<Rightarrow> heap_store \<Rightarrow> heap_store" where
  "top_update_left H D k idx s = (let (_, v, s) = trace_left_at H D k idx s in put_node (put_l v) idx s)"

definition top_update_right :: "nat \<Rightarrow> nat \<Rightarrow> nat \<Rightarrow> nat \<Rightarrow> heap_store \<Rightarrow> heap_store" where
  "top_update_right H D k idx s = (let (_, v, s) = trace_right_at H D k idx s in put_node (put_r v) idx s)"

definition top_update_center :: "nat \<Rightarrow> nat \<Rightarrow> nat \<Rightarrow> nat \<Rightarrow> heap_store \<Rightarrow> heap_store" where
  "top_update_center H D k idx s =
     (case trace_center_at H D k idx s of
        (L_side, v, s) \<Rightarrow>
          (let s = put_node (put_c v) idx s; (offs, s) = get_offset_at H D (k - 1) (left_node idx) s in put_node (put_o offs) idx s)
      | (R_side, v, s) \<Rightarrow>
          (let s = put_node (put_c v) idx s; (offs, s) = get_offset_at H D (k - 1) (right_node idx) s in put_node (put_o offs) idx s)
      | (M_side, v, s) \<Rightarrow>
          (let EOLI = get_interval_excl_end (idx_to_interval H (k - 1) (left_node idx));
               (r, s) = get_right_at H D (k - 1) (left_node idx) s
           in put_node (put_o (EOLI - r)) idx (put_node (put_c v) idx s)))"

definition top_update_at :: "nat \<Rightarrow> nat \<Rightarrow> nat \<Rightarrow> nat \<Rightarrow> heap_store \<Rightarrow> heap_store" where
  "top_update_at H D k idx s = top_update_center H D k idx (top_update_right H D k idx (top_update_left H D k idx s))"

text \<open>\<open>bottom_impl::TraceBackUpdater\<close>\<close>

definition put_traces :: "(64 word list \<Rightarrow> 64 word list) \<Rightarrow> heap_store \<Rightarrow> heap_store" where
  "put_traces f s = s\<lparr>traceback_store := f (traceback_store s)\<rparr>"

definition bottom_update_left :: "nat \<Rightarrow> nat \<Rightarrow> nat \<Rightarrow> nat \<Rightarrow> heap_store \<Rightarrow> heap_store" where
  "bottom_update_left H D k idx s =
     (if k < 1 then s
      else (let (side, _, s) = trace_left_at H D k idx s
            in put_traces (set_left_trace H k idx (if side = L_side then LEFT_TRACEBACK else RIGHT_TRACEBACK)) s))"

definition bottom_update_right :: "nat \<Rightarrow> nat \<Rightarrow> nat \<Rightarrow> nat \<Rightarrow> heap_store \<Rightarrow> heap_store" where
  "bottom_update_right H D k idx s =
     (if k < 1 then s
      else (let (side, _, s) = trace_right_at H D k idx s
            in put_traces (set_right_trace H k idx (if side = L_side then LEFT_TRACEBACK else RIGHT_TRACEBACK)) s))"

definition bottom_update_center :: "nat \<Rightarrow> nat \<Rightarrow> nat \<Rightarrow> nat \<Rightarrow> heap_store \<Rightarrow> heap_store" where
  "bottom_update_center H D k idx s =
     (if k < 2 then s
      else (let (side, _, s) = trace_center_at H D k idx s
            in put_traces (set_center_trace idx
                 (case side of L_side \<Rightarrow> LEFT_TRACEBACK | M_side \<Rightarrow> MID_TRACEBACK | R_side \<Rightarrow> RIGHT_TRACEBACK)) s))"

definition bottom_update_at :: "nat \<Rightarrow> nat \<Rightarrow> nat \<Rightarrow> nat \<Rightarrow> heap_store \<Rightarrow> heap_store" where
  "bottom_update_at H D k idx s = bottom_update_center H D k idx (bottom_update_right H D k idx (bottom_update_left H D k idx s))"

section \<open>The operations\<close>

definition put_cache :: "(heap_cache \<Rightarrow> heap_cache) \<Rightarrow> heap_store \<Rightarrow> heap_store" where
  "put_cache f s = s\<lparr>cache_instance := f (cache_instance s)\<rparr>"

definition heap_update :: "nat \<Rightarrow> nat \<Rightarrow> nat \<Rightarrow> nat \<Rightarrow> heap_store \<Rightarrow> heap_store" where
  "heap_update H D k idx s =
     (if H - k \<le> D then top_update_at H D k idx s else bottom_update_at H D k idx (put_cache (cache_invalidate idx) s))"

definition heap_block :: "nat \<Rightarrow> nat \<Rightarrow> nat \<Rightarrow> nat \<Rightarrow> heap_store \<Rightarrow> heap_store" where
  "heap_block H D k idx s =
     (let s = put_traces (traceback_block H k idx) s
      in if H - k \<le> D then put_node (\<lambda>_. empty_node) idx s else put_cache (cache_empty_init idx) s)"

definition heap_unblock :: "nat \<Rightarrow> nat \<Rightarrow> nat \<Rightarrow> nat \<Rightarrow> heap_store \<Rightarrow> heap_store" where
  "heap_unblock H D k idx s =
     (let s = put_traces (traceback_unblock H k idx) s
      in if H - k \<le> D then put_node (\<lambda>_. deflt_node (idx_to_interval H k idx)) idx s else put_cache (cache_defaultize H k idx) s)"

definition heap_is_blocked :: "nat \<Rightarrow> nat \<Rightarrow> nat \<Rightarrow> heap_store \<Rightarrow> bool" where
  "heap_is_blocked H k idx s = traceback_is_blocked H k (traceback_store s) idx"

section \<open>What the store says of a node\<close>

definition value_ok :: "nat \<Rightarrow> nat \<Rightarrow> nat \<Rightarrow> zone \<Rightarrow> zone_node \<Rightarrow> bool" where
  "value_ok H k idx t n \<longleftrightarrow> node_l n = lfree k t \<and> node_r n = rfree k t \<and> node_c n = cfree k t \<and> offset_ok H k idx t (node_o n)"

definition node_ok :: "nat \<Rightarrow> nat \<Rightarrow> heap_store \<Rightarrow> nat \<Rightarrow> nat \<Rightarrow> zone \<Rightarrow> bool" where
  "node_ok H D s k idx t \<longleftrightarrow>
     (if H - k \<le> D then traceback_is_blocked H k (traceback_store s) idx = (t = Busy) \<and> value_ok H k idx t (node_container s ! idx)
      else bottom_ok H (traceback_store s) (cache_instance s) k idx t)"

text \<open>The arrays have the sizes of \<open>NodeArraySpecs\<close> and \<open>BoolArraySpecs\<close>.\<close>

definition store_ok :: "nat \<Rightarrow> nat \<Rightarrow> heap_store \<Rightarrow> bool" where
  "store_ok H D s \<longleftrightarrow> 2 \<le> H \<and> D < H \<and> length (traceback_store s) = bool_array_size H \<and> length (node_container s) = heap_node_count D"

lemma top_index:
  assumes "at_level H k idx" and "H - k \<le> D"
  shows "idx < heap_node_count D"
proof -
  have "(2 :: nat) ^ (H - k) \<le> 2 ^ D" using assms(2) by (intro power_increasing) simp_all
  then have "idx + 1 < 2 ^ D" using assms(1) unfolding at_level_def by linarith
  then show ?thesis by (simp add: heap_node_count_def)
qed

lemma node_ok_blocked: "node_ok H D s k idx t \<Longrightarrow> traceback_is_blocked H k (traceback_store s) idx = (t = Busy)"
  by (simp add: node_ok_def bottom_ok_def split: if_splits)

text \<open>What a node says depends on its bits, its stored value and its cached value.\<close>

lemma store_frame:
  assumes "\<And>k x. at_level H k x \<Longrightarrow> out x \<Longrightarrow> same_bits H k x (traceback_store s) (traceback_store s')"
    and "\<And>x. out x \<Longrightarrow> node_container s' ! x = node_container s ! x"
    and "cache_frame out (cache_instance s) (cache_instance s')"
  shows "node_frame H (node_ok H D) out s s'"
  unfolding node_frame_def
proof (intro allI impI, elim conjE)
  fix k x t assume level: "at_level H k x" and out: "out x" and ok: "node_ok H D s k x t"
  note same = same_bits_traces [OF assms(1) [OF level out]]
  have traces: "traces_ok H (traceback_store s') k x t" if "traces_ok H (traceback_store s) k x t"
    using that same(1-3) unfolding traces_ok_def by (cases k) auto
  have entry: "entry_ok H k x t (cache_get (cache_instance s') x)" if "entry_ok H k x t (cache_get (cache_instance s) x)"
    using that assms(3) out by (auto simp: cache_frame_def)
  show "node_ok H D s' k x t" using ok same(4) traces entry assms(2) [OF out] by (auto simp: node_ok_def bottom_ok_def split: if_splits)
qed

lemma same_bits_refl [simp]: "same_bits H k x tb tb"
  by (simp add: same_bits_def)

lemma bottom_holds:
  assumes "at_level H k idx" and "\<not> H - k \<le> D"
  shows "holds (node_ok H D s) k idx t \<longleftrightarrow> holds (bottom_ok H (traceback_store s) (cache_instance s)) k idx t"
proof -
  have low: "\<not> H - j \<le> D" if "j \<le> k" for j using assms(2) that by simp
  show ?thesis
  proof
    assume "holds (node_ok H D s) k idx t"
    then show "holds (bottom_ok H (traceback_store s) (cache_instance s)) k idx t"
      by (rule holds_mono [OF _ assms(1)]) (use low in \<open>simp add: node_ok_def\<close>)
  next
    assume "holds (bottom_ok H (traceback_store s) (cache_instance s)) k idx t"
    then show "holds (node_ok H D s) k idx t" by (rule holds_mono [OF _ assms(1)]) (use low in \<open>simp add: node_ok_def\<close>)
  qed
qed

section \<open>Reading a node\<close>

text \<open>A reader of the store returns what the zone has and changes only the cache, of the nodes below \<open>idx\<close>.\<close>

definition state_read :: "nat \<Rightarrow> nat \<Rightarrow> nat \<Rightarrow> nat \<Rightarrow> zone \<Rightarrow> heap_store \<Rightarrow> (nat \<Rightarrow> bool) \<Rightarrow> nat \<times> heap_store \<Rightarrow> bool" where
  "state_read H D k idx t s P r \<longleftrightarrow> P (fst r) \<and> holds (node_ok H D (snd r)) k idx t
     \<and> (\<exists>c. snd r = s\<lparr>cache_instance := c\<rparr> \<and> cache_frame (outside idx) (cache_instance s) c)"

lemma state_read_top: "holds (node_ok H D s) k idx t \<Longrightarrow> P v \<Longrightarrow> state_read H D k idx t s P (v, s)"
  unfolding state_read_def by (simp, rule exI [of _ "cache_instance s"]) simp

lemma state_read_bottom:
  assumes "read_ok H (traceback_store s) k idx t (cache_instance s) P r" and "at_level H k idx" and "\<not> H - k \<le> D"
  shows "state_read H D k idx t s P (bottom_read r s)"
proof -
  obtain v c where r: "r = (v, c)" by fastforce
  have "holds (node_ok H D (s\<lparr>cache_instance := c\<rparr>)) k idx t" using assms(1) r by (simp add: read_ok_def bottom_holds [OF assms(2,3)])
  then show ?thesis using assms(1) r by (auto simp: state_read_def bottom_read_def read_ok_def)
qed

lemma get_at_ok:
  assumes "holds (node_ok H D s) k idx t" and "wf_zone k t" and "at_level H k idx"
  shows "state_read H D k idx t s (\<lambda>v. v = lfree k t) (get_left_at H D k idx s)"
    and "state_read H D k idx t s (\<lambda>v. v = rfree k t) (get_right_at H D k idx s)"
    and "state_read H D k idx t s (\<lambda>v. v = cfree k t) (get_center_at H D k idx s)"
    and "state_read H D k idx t s (offset_ok H k idx t) (get_offset_at H D k idx s)"
proof -
  have top: "value_ok H k idx t (node_container s ! idx)" if "H - k \<le> D" using holds_root [OF assms(1)] that by (simp add: node_ok_def)
  have bottom: "holds (bottom_ok H (traceback_store s) (cache_instance s)) k idx t" if "\<not> H - k \<le> D"
    using assms(1) bottom_holds [OF assms(3) that] by simp
  show "state_read H D k idx t s (\<lambda>v. v = lfree k t) (get_left_at H D k idx s)"
    using state_read_top [OF assms(1)] top state_read_bottom [OF bottom_left_ok [OF bottom assms(2,3)] assms(3)]
    by (cases "H - k \<le> D") (simp_all add: get_left_at_def value_ok_def)
  show "state_read H D k idx t s (\<lambda>v. v = rfree k t) (get_right_at H D k idx s)"
    using state_read_top [OF assms(1)] top state_read_bottom [OF bottom_right_ok [OF bottom assms(2,3)] assms(3)]
    by (cases "H - k \<le> D") (simp_all add: get_right_at_def value_ok_def)
  show "state_read H D k idx t s (\<lambda>v. v = cfree k t) (get_center_at H D k idx s)"
    using state_read_top [OF assms(1)] top state_read_bottom [OF bottom_center_ok [OF bottom assms(2,3)] assms(3)]
    by (cases "H - k \<le> D") (simp_all add: get_center_at_def value_ok_def)
  show "state_read H D k idx t s (offset_ok H k idx t) (get_offset_at H D k idx s)"
    using state_read_top [OF assms(1)] top state_read_bottom [OF bottom_offset_ok [OF bottom assms(2,3)] assms(3)]
    by (cases "H - k \<le> D") (simp_all add: get_offset_at_def value_ok_def)
qed

end
