(* ===== verification/Heap_Batch.thy ===== *)
theory Heap_Batch
  imports Heap_Interface
begin

text \<open>
  Unblocking many intervals in one traversal of the tree (\<open>PartialBatchUnblockDispatcher\<close> of \<open>dg_heap/heap.h\<close>): sorting, the binary search that cuts the
  intervals at the middle of a node, merging neighbours. A range of iterators is the list of its elements. \<open>inplace_shrink\<close> writes the merged
  intervals over the first ones of its range and leaves the last element of the range, the only one that is read again afterwards, as it was
  (\<open>shrink_keeps_last\<close>).
\<close>

section \<open>Ranges of intervals\<close>

definition interval_cells :: "interval \<Rightarrow> nat set" where
  "interval_cells iv = {fst iv..snd iv}"

definition is_valid_interval :: "interval \<Rightarrow> bool" where
  "is_valid_interval iv \<longleftrightarrow> snd iv \<ge> fst iv"

definition is_consecutive :: "interval \<Rightarrow> interval \<Rightarrow> bool" where
  "is_consecutive lhs rhs \<longleftrightarrow> get_interval_excl_end lhs = fst rhs \<or> get_interval_excl_end rhs = fst lhs"

definition uunion :: "interval \<Rightarrow> interval \<Rightarrow> interval" where
  "uunion lhs rhs = (min (fst lhs) (fst rhs), max (snd lhs) (snd rhs))"

definition max_interval :: interval where "max_interval = (0, 2 ^ 32 - 1)"

definition guarded_intersect :: "interval \<Rightarrow> interval \<Rightarrow> interval option" where
  "guarded_intersect lhs rhs = (let rs = intersect_interval lhs rhs in if is_valid_interval rs then Some rs else None)"

text \<open>The last interval that does not begin behind the key, as an index; the length when there is none.\<close>

function rec_uupper_bound :: "nat \<Rightarrow> interval list \<Rightarrow> nat" where
  "rec_uupper_bound key xs =
     (if length xs \<le> 1 then 0
      else let mid = length xs div 2
           in if key < fst (xs ! mid) then rec_uupper_bound key (take mid xs) else mid + rec_uupper_bound key (drop mid xs))"
  by pat_completeness auto

termination
  by (relation "measure (\<lambda>(key, xs). length xs)") auto

declare rec_uupper_bound.simps [simp del]

definition uupper_bound :: "nat \<Rightarrow> interval list \<Rightarrow> nat" where
  "uupper_bound key xs =
     (if xs = [] then length xs
      else let i = rec_uupper_bound key xs in if \<not> key < fst (xs ! i) then i else length xs)"

definition seek_incl_left :: "interval list \<Rightarrow> nat \<Rightarrow> nat" where
  "seek_incl_left xs m = uupper_bound m xs"

definition seek_incl_right :: "interval list \<Rightarrow> nat \<Rightarrow> nat \<Rightarrow> nat" where
  "seek_incl_right xs tentative_mid m =
     (let r = right_shrink max_interval m; req = guarded_intersect (xs ! tentative_mid) r \<noteq> None
      in if req then tentative_mid else tentative_mid + 1)"

definition pair_shrink :: "interval list \<Rightarrow> nat \<Rightarrow> nat \<times> nat" where
  "pair_shrink xs m = (let l = seek_incl_left xs m; r = seek_incl_right xs l m in (l + 1, r))"

definition inplace_sort :: "interval list \<Rightarrow> interval list" where
  "inplace_sort xs = sort_key fst xs"

text \<open>\<open>accumulate_until\<close>: the union of the intervals up to the first that does not follow its predecessor, and what is left.\<close>

fun accumulate_until :: "interval \<Rightarrow> interval \<Rightarrow> interval list \<Rightarrow> interval \<times> interval list" where
  "accumulate_until acc prev [] = (acc, [])"
| "accumulate_until acc prev (x # xs) = (if \<not> is_consecutive x prev then (acc, x # xs) else accumulate_until (uunion acc x) x xs)"

lemma accumulate_length: "length (snd (accumulate_until acc prev xs)) \<le> length xs"
proof (induction xs arbitrary: acc prev)
  case (Cons x xs)
  show ?case using Cons.IH [of "uunion acc x" x] by simp
qed simp

function inplace_shrink :: "interval list \<Rightarrow> interval list" where
  "inplace_shrink [] = []"
| "inplace_shrink (x # xs) = (let (rs, rest) = accumulate_until x x xs in rs # inplace_shrink rest)"
  by pat_completeness auto

termination
proof (relation "measure length")
  fix x :: interval and xs rs rest p
  assume "p = accumulate_until x x xs" "(rs, rest) = p"
  then show "(rest, x # xs) \<in> measure length" using accumulate_length [of x x xs] by (metis in_measure length_Cons less_Suc_eq_le snd_conv)
qed simp

section \<open>The traversal\<close>

type_synonym 's batch_visitor = "nat \<Rightarrow> interval \<Rightarrow> nat \<Rightarrow> interval list \<Rightarrow> 's \<Rightarrow> 's result"

fun batch_apply ::
  "nat \<Rightarrow> nat \<Rightarrow> interval \<Rightarrow> interval list \<Rightarrow> (nat \<Rightarrow> interval \<Rightarrow> nat \<Rightarrow> interval list \<Rightarrow> 's \<Rightarrow> bool) \<Rightarrow> 's batch_visitor \<Rightarrow> 's visitor \<Rightarrow> 's visitor \<Rightarrow>
   's visitor \<Rightarrow> 's \<Rightarrow> 's result" where
  "batch_apply 0 idx intv xs stop cb post rexc lexc s = Inr s"
| "batch_apply (Suc k) idx intv xs stop cb post rexc lexc s =
     (if stop k intv idx xs s then cb k intv idx xs s
      else (let m = midpoint intv
            in bindR
                 (if is_left_bound (last xs) m
                  then bindR (batch_apply k (left_node idx) (left_shrink intv m) xs stop cb post rexc lexc s) (lexc k intv idx)
                  else if is_right_bound (hd xs) m
                  then bindR (batch_apply k (right_node idx) (right_shrink intv m) xs stop cb post rexc lexc s) (rexc k intv idx)
                  else (let (l_excl, r_incl) = pair_shrink xs m
                        in bindR (batch_apply k (left_node idx) (left_shrink intv m) (take l_excl xs) stop cb post rexc lexc s)
                          (batch_apply k (right_node idx) (right_shrink intv m) (drop r_incl xs) stop cb post rexc lexc)))
                 (post k intv idx)))"

definition stop_single :: "nat \<Rightarrow> interval \<Rightarrow> nat \<Rightarrow> interval list \<Rightarrow> 's \<Rightarrow> bool" where
  "stop_single k intv idx xs s \<longleftrightarrow> length xs = 1"

definition batch_stop_blocked :: "(nat \<Rightarrow> nat \<Rightarrow> 's \<Rightarrow> bool) \<Rightarrow> nat \<Rightarrow> interval \<Rightarrow> nat \<Rightarrow> interval list \<Rightarrow> 's \<Rightarrow> bool" where
  "batch_stop_blocked isb k intv idx xs s \<longleftrightarrow> isb k idx s"

definition unblock_singular :: "(nat \<Rightarrow> nat \<Rightarrow> 's \<Rightarrow> 's) \<Rightarrow> (nat \<Rightarrow> nat \<Rightarrow> 's \<Rightarrow> 's) \<Rightarrow> 's batch_visitor" where
  "unblock_singular blk upd k intv idx xs s =
     interval_apply (Suc k) idx intv (intersect_interval (hd xs) intv) stop_equal null_visitor (visit upd) (visit_left blk) (visit_right blk) s"

definition batch_downstream :: "(nat \<Rightarrow> nat \<Rightarrow> 's \<Rightarrow> 's) \<Rightarrow> (nat \<Rightarrow> nat \<Rightarrow> 's \<Rightarrow> 's) \<Rightarrow> 's batch_visitor" where
  "batch_downstream blk upd k intv idx xs s =
     batch_apply (Suc k) idx intv (inplace_shrink xs) stop_single (unblock_singular blk upd) (visit upd) (visit_left blk) (visit_right blk) s"

definition batch_transfer :: "(nat \<Rightarrow> nat \<Rightarrow> 's \<Rightarrow> 's) \<Rightarrow> (nat \<Rightarrow> nat \<Rightarrow> 's \<Rightarrow> 's) \<Rightarrow> (nat \<Rightarrow> nat \<Rightarrow> 's \<Rightarrow> 's) \<Rightarrow> 's batch_visitor" where
  "batch_transfer blk unb upd k intv idx xs s = bindR (visit unb k intv idx s) (batch_downstream blk upd k intv idx xs)"

definition dispatch_batch_unblock ::
  "nat \<Rightarrow> (nat \<Rightarrow> nat \<Rightarrow> 's \<Rightarrow> 's) \<Rightarrow> (nat \<Rightarrow> nat \<Rightarrow> 's \<Rightarrow> 's) \<Rightarrow> (nat \<Rightarrow> nat \<Rightarrow> 's \<Rightarrow> 's) \<Rightarrow> (nat \<Rightarrow> nat \<Rightarrow> 's \<Rightarrow> bool) \<Rightarrow> interval list \<Rightarrow> 's \<Rightarrow> 's result" where
  "dispatch_batch_unblock H blk unb upd isb xs s =
     batch_apply H 0 (idx_to_interval H (H - 1) 0) xs (batch_stop_blocked isb) (batch_transfer blk unb upd) (visit upd) null_visitor null_visitor s"

section \<open>Sorted ranges\<close>

text \<open>Intervals one behind the other.\<close>

fun ordered :: "interval list \<Rightarrow> bool" where
  "ordered [] \<longleftrightarrow> True"
| "ordered (x # xs) \<longleftrightarrow> fst x \<le> snd x \<and> (\<forall>y \<in> set xs. snd x < fst y) \<and> ordered xs"

definition range_cells :: "interval list \<Rightarrow> nat set" where
  "range_cells xs = (\<Union>x \<in> set xs. interval_cells x)"

lemma range_cells_simps [simp]: "range_cells [] = {}" "range_cells (x # xs) = interval_cells x \<union> range_cells xs" "range_cells (xs @ ys) = range_cells xs \<union> range_cells ys"
  by (auto simp: range_cells_def)

lemma ordered_append: "ordered (xs @ ys) \<longleftrightarrow> ordered xs \<and> ordered ys \<and> (\<forall>x \<in> set xs. \<forall>y \<in> set ys. snd x < fst y)"
  by (induction xs) auto

lemma ordered_nth: "ordered xs \<Longrightarrow> i < j \<Longrightarrow> j < length xs \<Longrightarrow> snd (xs ! i) < fst (xs ! j)"
proof (induction xs arbitrary: i j)
  case (Cons x xs)
  then show ?case by (cases i; cases j) auto
qed simp

lemma ordered_valid: "ordered xs \<Longrightarrow> x \<in> set xs \<Longrightarrow> fst x \<le> snd x"
  by (induction xs) auto

lemma ordered_take_drop: "ordered xs \<Longrightarrow> ordered (take n xs)" "ordered xs \<Longrightarrow> ordered (drop n xs)"
  using ordered_append [of "take n xs" "drop n xs"] by simp_all

lemma ordered_begins: "ordered xs \<Longrightarrow> i < j \<Longrightarrow> j < length xs \<Longrightarrow> fst (xs ! i) < fst (xs ! j)"
  using ordered_nth [of xs i j] ordered_valid [of xs "xs ! i"] by force

lemma rec_uupper_bound_ok:
  "ordered xs \<Longrightarrow> xs \<noteq> [] \<Longrightarrow> fst (hd xs) \<le> key \<Longrightarrow>
    rec_uupper_bound key xs < length xs \<and> fst (xs ! rec_uupper_bound key xs) \<le> key
    \<and> (\<forall>j. rec_uupper_bound key xs < j \<and> j < length xs \<longrightarrow> key < fst (xs ! j))"
proof (induction key xs rule: rec_uupper_bound.induct)
  case (1 key xs)
  note prems = "1.prems"
  show ?case
  proof (cases "length xs \<le> 1")
    case True
    then have "length xs = 1" using prems(2) by (cases xs) auto
    then show ?thesis using prems by (simp add: rec_uupper_bound.simps [of key xs] hd_conv_nth)
  next
    case False
    let ?mid = "length xs div 2"
    have mid: "0 < ?mid" "?mid < length xs" using False by auto
    show ?thesis
    proof (cases "key < fst (xs ! ?mid)")
      case True
      let ?i = "rec_uupper_bound key (take ?mid xs)"
      have eq: "rec_uupper_bound key xs = ?i" using False True by (subst rec_uupper_bound.simps) (simp add: Let_def)
      have ne: "take ?mid xs \<noteq> []" and hd: "hd (take ?mid xs) = hd xs" using mid by auto
      have IH: "?i < length (take ?mid xs)" "fst (take ?mid xs ! ?i) \<le> key" "\<And>j. ?i < j \<Longrightarrow> j < length (take ?mid xs) \<Longrightarrow> key < fst (take ?mid xs ! j)"
        using "1.IH"(1) [OF False refl True ordered_take_drop(1) [OF prems(1)] ne] prems(3) hd by auto
      have "key < fst (xs ! j)" if "?i < j" "j < length xs" for j
      proof (cases "j < ?mid")
        case True
        then show ?thesis using IH(3) [OF that(1)] mid by simp
      next
        case False
        then have "fst (xs ! ?mid) \<le> fst (xs ! j)" using ordered_begins [OF prems(1), of ?mid j] that(2) by (cases "j = ?mid") auto
        then show ?thesis using True by linarith
      qed
      then show ?thesis using IH(1,2) mid unfolding eq by auto
    next
      case True: False
      let ?i = "rec_uupper_bound key (drop ?mid xs)"
      have eq: "rec_uupper_bound key xs = ?mid + ?i" using False True by (subst rec_uupper_bound.simps) (simp add: Let_def)
      have ne: "drop ?mid xs \<noteq> []" and hd: "fst (hd (drop ?mid xs)) \<le> key" using mid True by (auto simp: hd_drop_conv_nth)
      have IH: "?i < length (drop ?mid xs)" "fst (drop ?mid xs ! ?i) \<le> key" "\<And>j. ?i < j \<Longrightarrow> j < length (drop ?mid xs) \<Longrightarrow> key < fst (drop ?mid xs ! j)"
        using "1.IH"(2) [OF False refl True ordered_take_drop(2) [OF prems(1)] ne hd] by auto
      have "key < fst (xs ! j)" if "?mid + ?i < j" "j < length xs" for j
        using IH(3) [of "j - ?mid"] that by simp
      then show ?thesis using IH(1,2) unfolding eq by auto
    qed
  qed
qed

text \<open>The cut at the middle: the intervals that begin up to it, the intervals that end behind it.\<close>

lemma pair_shrink_ok:
  assumes "ordered xs" and "xs \<noteq> []" and "fst (hd xs) \<le> m" and "m < snd (last xs)" and "\<And>x. x \<in> set xs \<Longrightarrow> snd x < 2 ^ 32"
  obtains l r where "pair_shrink xs m = (l, r)" "take l xs \<noteq> []" "drop r xs \<noteq> []"
    "\<And>x. x \<in> set (take l xs) \<Longrightarrow> fst x \<le> m" "\<And>x. x \<in> set (drop l xs) \<Longrightarrow> m < fst x"
    "\<And>x. x \<in> set (take r xs) \<Longrightarrow> snd x \<le> m" "\<And>x. x \<in> set (drop r xs) \<Longrightarrow> m < snd x"
proof -
  let ?i = "rec_uupper_bound m xs"
  note search = rec_uupper_bound_ok [OF assms(1-3)]
  have i: "?i < length xs" "fst (xs ! ?i) \<le> m" "\<And>j. ?i < j \<Longrightarrow> j < length xs \<Longrightarrow> m < fst (xs ! j)" using search by blast+
  have left: "seek_incl_left xs m = ?i" using assms(2) i(2) by (simp add: seek_incl_left_def uupper_bound_def Let_def)
  have valid: "fst (xs ! j) \<le> snd (xs ! j)" if "j < length xs" for j using ordered_valid [OF assms(1)] that by simp
  have req: "guarded_intersect (xs ! ?i) (right_shrink max_interval m) \<noteq> None \<longleftrightarrow> m < snd (xs ! ?i)"
    using assms(5) [of "xs ! ?i"] i(1,2) by (auto simp: guarded_intersect_def right_shrink_def max_interval_def intersect_interval_def is_valid_interval_def Let_def)
  let ?r = "if m < snd (xs ! ?i) then ?i else ?i + 1"
  have pair: "pair_shrink xs m = (?i + 1, ?r)" unfolding pair_shrink_def left seek_incl_right_def req Let_def by simp
  have r: "?r < length xs"
  proof (cases "m < snd (xs ! ?i)")
    case False
    then have "?i \<noteq> length xs - 1" using assms(2,4) by (auto simp: last_conv_nth)
    then show ?thesis using False i(1) by simp
  qed (use i(1) in simp)
  show ?thesis
  proof (rule that [OF pair])
    show "take (?i + 1) xs \<noteq> []" using assms(2) by simp
    show "drop ?r xs \<noteq> []" using r by simp
    show "fst x \<le> m" if x: "x \<in> set (take (?i + 1) xs)" for x
    proof -
      obtain j where j: "j \<le> ?i" "x = xs ! j" using x i(1) by (auto simp: in_set_conv_nth less_Suc_eq_le)
      then show ?thesis using ordered_begins [OF assms(1), of j ?i] i(1,2) by (cases "j = ?i") auto
    qed
    show "m < fst x" if "x \<in> set (drop (?i + 1) xs)" for x
      using that i(3) by (auto simp: in_set_conv_nth)
    show "snd x \<le> m" if x: "x \<in> set (take ?r xs)" for x
    proof -
      obtain j where j: "j < ?r" "x = xs ! j" using x r by (auto simp: in_set_conv_nth)
      show ?thesis
      proof (cases "j = ?i")
        case True
        then show ?thesis using j by (simp split: if_splits)
      next
        case False
        then have "j < ?i" using j(1) by (simp split: if_splits)
        then show ?thesis using ordered_nth [OF assms(1), of j ?i] i(1,2) j(2) by simp
      qed
    qed
    show "m < snd x" if x: "x \<in> set (drop ?r xs)" for x
    proof -
      obtain j where j: "?r \<le> j" "j < length xs" "x = xs ! j" using x by (auto simp: in_set_conv_nth) (metis le_add1 less_diff_conv add.commute)
      show ?thesis
      proof (cases "j = ?i")
        case True
        then show ?thesis using j by (simp split: if_splits)
      next
        case False
        then have "?i < j" using j(1) by (simp split: if_splits)
        then show ?thesis using i(3) [OF _ j(2)] valid [OF j(2)] j(3) by fastforce
      qed
    qed
  qed
qed

section \<open>Merging\<close>

lemma accumulate_ok:
  "ordered (prev # xs) \<Longrightarrow> fst acc \<le> fst prev \<Longrightarrow> snd acc = snd prev \<Longrightarrow> accumulate_until acc prev xs = (rs, rest) \<Longrightarrow>
    interval_cells rs \<union> range_cells rest = interval_cells acc \<union> range_cells xs \<and> interval_cells acc \<subseteq> interval_cells rs \<and> fst rs \<le> snd rs
    \<and> ordered rest \<and> set rest \<subseteq> set xs \<and> (\<forall>y \<in> set rest. snd rs < fst y)"
proof (induction xs arbitrary: acc prev)
  case (Cons x xs)
  show ?case
  proof (cases "is_consecutive x prev")
    case True
    have follow: "fst x = snd prev + 1" using True Cons.prems(1) by (auto simp: is_consecutive_def get_interval_excl_end_def)
    have ord: "ordered (x # xs)" "fst prev \<le> snd prev" "fst x \<le> snd x" using Cons.prems(1) by auto
    have u: "uunion acc x = (fst acc, snd x)" using follow ord Cons.prems(2,3) by (simp add: uunion_def)
    have cells: "interval_cells (uunion acc x) = interval_cells acc \<union> interval_cells x"
      using follow ord Cons.prems(2,3) unfolding u interval_cells_def by auto
    have "accumulate_until (uunion acc x) x xs = (rs, rest)" using Cons.prems(4) True by simp
    moreover have "fst (uunion acc x) \<le> fst x" "snd (uunion acc x) = snd x" using follow ord Cons.prems(2) by (simp_all add: u)
    ultimately show ?thesis using Cons.IH [OF ord(1), of "uunion acc x"] cells by auto
  next
    case False
    then show ?thesis using Cons.prems by (auto simp: interval_cells_def)
  qed
qed (auto simp: interval_cells_def)

lemma inplace_shrink_ok:
  "ordered xs \<Longrightarrow> ordered (inplace_shrink xs) \<and> range_cells (inplace_shrink xs) = range_cells xs \<and> (inplace_shrink xs = [] \<longleftrightarrow> xs = [])
    \<and> (\<forall>y \<in> set (inplace_shrink xs). \<exists>x \<in> set xs. interval_cells x \<subseteq> interval_cells y)"
proof (induction xs rule: inplace_shrink.induct)
  case (2 x xs)
  obtain rs rest where r: "accumulate_until x x xs = (rs, rest)" by fastforce
  note acc = accumulate_ok [OF "2.prems" order_refl refl r]
  have IH: "ordered (inplace_shrink rest)" "range_cells (inplace_shrink rest) = range_cells rest"
    "\<forall>y \<in> set (inplace_shrink rest). \<exists>x \<in> set rest. interval_cells x \<subseteq> interval_cells y"
    using "2.IH" [OF r [symmetric] refl] acc by auto
  have "snd rs < fst y" if y: "y \<in> set (inplace_shrink rest)" for y
  proof -
    have "fst y \<in> range_cells rest" using ordered_valid [OF IH(1) y] y unfolding IH(2) [symmetric] by (auto simp: range_cells_def interval_cells_def)
    then show ?thesis using acc by (fastforce simp: range_cells_def interval_cells_def)
  qed
  then have "ordered (inplace_shrink (x # xs))" using IH(1) acc by (simp add: r)
  moreover have "range_cells (inplace_shrink (x # xs)) = range_cells (x # xs)" using IH(2) acc by (simp add: r)
  moreover have "\<exists>z \<in> set (x # xs). interval_cells z \<subseteq> interval_cells y" if "y \<in> set (inplace_shrink (x # xs))" for y
    using that IH(3) acc by (auto simp: r) blast
  ultimately show ?case by (simp add: r)
qed simp

text \<open>The range after the merge was written over it: its last element is as before.\<close>

lemma accumulate_rest: "length (snd (accumulate_until acc prev xs)) = length xs \<Longrightarrow> accumulate_until acc prev xs = (acc, xs)"
proof (induction xs arbitrary: acc prev)
  case (Cons x xs)
  then show ?case using accumulate_length [of "uunion acc x" x xs] by (auto split: if_splits)
qed simp

lemma shrink_length: "length (inplace_shrink xs) \<le> length xs \<and> (length (inplace_shrink xs) = length xs \<longrightarrow> inplace_shrink xs = xs)"
proof (induction xs rule: inplace_shrink.induct)
  case (2 x xs)
  obtain rs rest where r: "accumulate_until x x xs = (rs, rest)" by fastforce
  have len: "length rest \<le> length xs" using accumulate_length [of x x xs] r by simp
  note IH = "2.IH" [OF r [symmetric] refl]
  have "rest = xs \<and> rs = x" if "length rest = length xs" using accumulate_rest [of x x xs] r that by simp
  then show ?case using IH len by (auto simp: r)
qed simp

lemma shrink_keeps_last:
  assumes "xs \<noteq> []"
  shows "last (inplace_shrink xs @ drop (length (inplace_shrink xs)) xs) = last xs"
proof (cases "length (inplace_shrink xs) = length xs")
  case True
  then show ?thesis using shrink_length [of xs] by simp
next
  case False
  then have "length (inplace_shrink xs) < length xs" using shrink_length [of xs] by simp
  then show ?thesis by (simp add: last_append)
qed

section \<open>Unblocking a range\<close>

text \<open>A range of intervals that all meet the zone of a node.\<close>

definition fits :: "nat \<Rightarrow> nat \<Rightarrow> interval list \<Rightarrow> bool" where
  "fits x w xs \<longleftrightarrow> ordered xs \<and> xs \<noteq> [] \<and> (\<forall>iv \<in> set xs. interval_cells iv \<inter> {x..<x + w} \<noteq> {}) \<and> (\<forall>iv \<in> set xs. snd iv < 2 ^ 32)"

definition met_cells :: "nat \<Rightarrow> nat \<Rightarrow> interval list \<Rightarrow> nat set" where
  "met_cells x w xs = range_cells xs \<inter> {x..<x + w}"

lemma fits_shrink:
  assumes "fits x w xs"
  shows "fits x w (inplace_shrink xs)" "met_cells x w (inplace_shrink xs) = met_cells x w xs"
proof -
  note shrink = inplace_shrink_ok [of xs]
  have ord: "ordered xs" "xs \<noteq> []" using assms by (auto simp: fits_def)
  have "snd y < 2 ^ 32" if y: "y \<in> set (inplace_shrink xs)" for y
  proof -
    have "fst y \<le> snd y" using ordered_valid [of "inplace_shrink xs" y] shrink ord(1) y by blast
    then have "snd y \<in> range_cells (inplace_shrink xs)" using y by (auto simp: range_cells_def interval_cells_def)
    then have "snd y \<in> range_cells xs" using shrink ord(1) by simp
    then show ?thesis using assms by (fastforce simp: fits_def range_cells_def interval_cells_def)
  qed
  moreover have "interval_cells y \<inter> {x..<x + w} \<noteq> {}" if y: "y \<in> set (inplace_shrink xs)" for y
  proof -
    obtain z where "z \<in> set xs" "interval_cells z \<subseteq> interval_cells y" using shrink ord y by blast
    then show ?thesis using assms unfolding fits_def by blast
  qed
  ultimately show "fits x w (inplace_shrink xs)" using shrink ord by (simp add: fits_def)
  show "met_cells x w (inplace_shrink xs) = met_cells x w xs" using shrink ord by (simp add: met_cells_def)
qed

lemma fits_left:
  assumes "fits x (w + w) xs" and "\<And>iv. iv \<in> set xs \<Longrightarrow> snd iv < x + w"
  shows "fits x w xs" "met_cells x (w + w) xs = met_cells x w xs"
proof -
  have sub: "interval_cells iv \<inter> {x..<x + (w + w)} = interval_cells iv \<inter> {x..<x + w}" if "iv \<in> set xs" for iv
    using assms(2) [OF that] by (auto simp: interval_cells_def)
  then show "fits x w xs" using assms(1) by (auto simp: fits_def)
  show "met_cells x (w + w) xs = met_cells x w xs" using sub unfolding met_cells_def range_cells_def by blast
qed

lemma fits_right:
  assumes "fits x (w + w) xs" and "\<And>iv. iv \<in> set xs \<Longrightarrow> x + w \<le> fst iv"
  shows "fits (x + w) w xs" "met_cells x (w + w) xs = met_cells (x + w) w xs"
proof -
  have sub: "interval_cells iv \<inter> {x..<x + (w + w)} = interval_cells iv \<inter> {x + w..<x + w + w}" if "iv \<in> set xs" for iv
    using assms(2) [OF that] by (auto simp: interval_cells_def)
  then show "fits (x + w) w xs" using assms(1) by (auto simp: fits_def)
  show "met_cells x (w + w) xs = met_cells (x + w) w xs" using sub unfolding met_cells_def range_cells_def by blast
qed

lemma fits_both:
  assumes fits: "fits x (w + w) xs" and "0 < w" and "fst (hd xs) < x + w" and "x + w \<le> snd (last xs)"
  obtains l r where "pair_shrink xs (x + w - 1) = (l, r)" "fits x w (take l xs)" "fits (x + w) w (drop r xs)"
    "met_cells x (w + w) xs = met_cells x w (take l xs) \<union> met_cells (x + w) w (drop r xs)"
proof -
  have ord: "ordered xs" "xs \<noteq> []" "\<And>iv. iv \<in> set xs \<Longrightarrow> snd iv < 2 ^ 32" using fits by (auto simp: fits_def)
  have m: "fst (hd xs) \<le> x + w - 1" "x + w - 1 < snd (last xs)" using assms(2-4) by simp_all
  obtain l r where lr: "pair_shrink xs (x + w - 1) = (l, r)" "take l xs \<noteq> []" "drop r xs \<noteq> []"
    and cut: "\<And>iv. iv \<in> set (take l xs) \<Longrightarrow> fst iv \<le> x + w - 1" "\<And>iv. iv \<in> set (drop l xs) \<Longrightarrow> x + w - 1 < fst iv"
      "\<And>iv. iv \<in> set (take r xs) \<Longrightarrow> snd iv \<le> x + w - 1" "\<And>iv. iv \<in> set (drop r xs) \<Longrightarrow> x + w - 1 < snd iv"
    by (rule pair_shrink_ok [OF ord(1,2) m ord(3)]) (simp, rule that)
  have sub: "set (take l xs) \<subseteq> set xs" "set (drop r xs) \<subseteq> set xs" by (simp_all add: set_take_subset set_drop_subset)
  have meets: "fst iv \<le> snd iv \<and> fst iv < x + (w + w) \<and> x \<le> snd iv" if "iv \<in> set xs" for iv
  proof -
    have "interval_cells iv \<inter> {x..<x + (w + w)} \<noteq> {}" using fits that by (simp add: fits_def)
    then show ?thesis by (auto simp: interval_cells_def)
  qed
  have "interval_cells iv \<inter> {x..<x + w} \<noteq> {}" if iv: "iv \<in> set (take l xs)" for iv
  proof -
    have "max x (fst iv) \<in> interval_cells iv \<inter> {x..<x + w}" using meets [of iv] sub(1) iv cut(1) [OF iv] assms(2) by (auto simp: interval_cells_def)
    then show ?thesis by blast
  qed
  then have left: "fits x w (take l xs)" using ord lr(2) ordered_take_drop(1) [OF ord(1)] sub(1) by (auto simp: fits_def)
  have "interval_cells iv \<inter> {x + w..<x + w + w} \<noteq> {}" if iv: "iv \<in> set (drop r xs)" for iv
  proof -
    have "max (x + w) (fst iv) \<in> interval_cells iv \<inter> {x + w..<x + w + w}" using meets [of iv] sub(2) iv cut(4) [OF iv] assms(2) by (auto simp: interval_cells_def)
    then show ?thesis by blast
  qed
  then have right: "fits (x + w) w (drop r xs)" using ord lr(3) ordered_take_drop(2) [OF ord(1)] sub(2) by (auto simp: fits_def)
  have "range_cells (drop l xs) \<inter> {x..<x + w} = {}" "range_cells (take r xs) \<inter> {x + w..<x + w + w} = {}"
    using cut(2,3) assms(2) by (fastforce simp: range_cells_def interval_cells_def)+
  moreover have "range_cells xs = range_cells (take l xs) \<union> range_cells (drop l xs)" "range_cells xs = range_cells (take r xs) \<union> range_cells (drop r xs)"
    by (metis append_take_drop_id range_cells_simps(3))+
  moreover have "{x..<x + (w + w)} = {x..<x + w} \<union> {x + w..<x + w + w}" by auto
  ultimately have "met_cells x (w + w) xs = met_cells x w (take l xs) \<union> met_cells (x + w) w (drop r xs)" unfolding met_cells_def by blast
  then show ?thesis by (rule that [OF lr(1) left right])
qed

definition cells_with :: "bool \<Rightarrow> nat set \<Rightarrow> nat set \<Rightarrow> nat set" where
  "cells_with keeps A K = (if keeps then A else {}) \<union> K"

context heap_operatable
begin

text \<open>Both traversals of a batch at once: cells outside the range are kept, or blocked again.\<close>

lemma batch_zone:
  assumes stop: "\<And>k idx xs s t. good s \<Longrightarrow> at_level H k idx \<Longrightarrow> holds (node s) k idx t \<Longrightarrow> wf_zone k t \<Longrightarrow> (\<not> keeps \<Longrightarrow> t = full_zone k) \<Longrightarrow>
        fits (first_cell H k idx) (2 ^ k) xs \<Longrightarrow> stop k (first_cell H k idx, first_cell H k idx + 2 ^ k - 1) idx xs s \<Longrightarrow>
        zone_result H good node k idx (cells_with keeps (avail k (first_cell H k idx) t) (met_cells (first_cell H k idx) (2 ^ k) xs)) s
          (cb k (first_cell H k idx, first_cell H k idx + 2 ^ k - 1) idx xs s)"
    and nonstop: "\<And>k idx xs s t. holds (node s) k idx t \<Longrightarrow> (\<not> keeps \<Longrightarrow> t = full_zone k) \<Longrightarrow> fits (first_cell H k idx) (2 ^ k) xs \<Longrightarrow>
        \<not> stop k (first_cell H k idx, first_cell H k idx + 2 ^ k - 1) idx xs s \<Longrightarrow> t \<noteq> Busy \<and> (k = 0 \<longrightarrow> keeps)"
    and excl: "rexc = (if keeps then null_visitor else visit_left blk)" "lexc = (if keeps then null_visitor else visit_right blk)"
  shows "good s \<Longrightarrow> at_level H k idx \<Longrightarrow> holds (node s) k idx t \<Longrightarrow> wf_zone k t \<Longrightarrow> (\<not> keeps \<Longrightarrow> t = full_zone k) \<Longrightarrow> x = first_cell H k idx \<Longrightarrow>
    fits x (2 ^ k) xs \<Longrightarrow>
    zone_result H good node k idx (cells_with keeps (avail k x t) (met_cells x (2 ^ k) xs)) s
      (batch_apply (Suc k) idx (x, x + 2 ^ k - 1) xs stop cb (visit upd) rexc lexc s)"
proof (induction k arbitrary: idx x xs s t)
  case 0
  show ?case
  proof (cases "stop 0 (x, x + 2 ^ 0 - 1) idx xs s")
    case True
    then show ?thesis using stop [of s 0 idx t xs] 0 by simp
  next
    case False
    then have t: "t \<noteq> Busy" "keeps" using nonstop [of s 0 idx t xs] 0 by auto
    then have "t = Cell" using zone_cases0 [OF "0.prems"(4)] by blast
    have frame: "node_frame H node (\<lambda>x. True) s (upd 0 idx s)" by (rule update_base [OF "0.prems"(1,2)])
    then have "holds (node (upd 0 idx s)) 0 idx Cell" using "0.prems"(2,3) \<open>t = Cell\<close> by (simp add: node_frame_def)
    moreover have "node_frame H node (outside idx) s (upd 0 idx s)" by (rule node_frame_mono [OF frame]) simp
    moreover have "cells_with keeps (avail 0 x t) (met_cells x (2 ^ 0) xs) = {x}" using t(2) \<open>t = Cell\<close> by (auto simp: cells_with_def met_cells_def)
    ultimately have "zone_result H good node 0 idx (cells_with keeps (avail 0 x t) (met_cells x (2 ^ 0) xs)) s (Inr (upd 0 idx s))"
      using good_ops(1) [OF "0.prems"(1)] "0.prems"(6) unfolding zone_result_def by (auto intro!: exI [of _ Cell])
    then show ?thesis using False t(2) by (simp add: excl null_visitor_def visit_def Let_def split: prod.split)
  qed
next
  case (Suc k)
  note good = Suc.prems(1) and level = Suc.prems(2) and held = Suc.prems(3) and wf = Suc.prems(4)
  note cells = first_cell_children [OF level, folded Suc.prems(6)]
  have width: "(2 :: nat) ^ Suc k = 2 ^ k + 2 ^ k" by simp
  note fits = Suc.prems(7) [unfolded width]
  show ?case
  proof (cases "stop (Suc k) (x, x + 2 ^ Suc k - 1) idx xs s")
    case True
    then show ?thesis using stop [OF good level held wf Suc.prems(5)] Suc.prems(6,7) by simp
  next
    case False
    then have busy: "t \<noteq> Busy" using nonstop [OF held Suc.prems(5)] Suc.prems(6,7) by simp
    then obtain a b where t: "t = Halves a b" using wf_halves(3) [OF wf] by blast
    note own = holds_root [OF held] and kids = kids_hold [OF held wf level, unfolded t lhalf.simps rhalf.simps]
    have fulls: "\<not> keeps \<Longrightarrow> a = full_zone k" "\<not> keeps \<Longrightarrow> b = full_zone k" using Suc.prems(5) t by simp_all
    have shrink: "left_shrink (x, x + 2 ^ Suc k - 1) (x + 2 ^ k - 1) = (x, x + 2 ^ k - 1)"
      "right_shrink (x, x + 2 ^ Suc k - 1) (x + 2 ^ k - 1) = (x + 2 ^ k, x + 2 ^ k + 2 ^ k - 1)"
      by (simp_all add: left_shrink_def right_shrink_def)
    let ?step = "\<lambda>child intv xs. batch_apply (Suc k) child intv xs stop cb (visit upd) rexc lexc"
    let ?met = "\<lambda>x xs. met_cells x (2 ^ k) xs"
    have goal: "zone_result H good node (Suc k) idx (cells_with keeps (avail (Suc k) x t) (met_cells x (2 ^ Suc k) xs)) s
        (if stop (Suc k) (x, x + 2 ^ Suc k - 1) idx xs s then cb (Suc k) (x, x + 2 ^ Suc k - 1) idx xs s
         else bindR r (visit upd (Suc k) (x, x + 2 ^ Suc k - 1) idx))"
      if "zone_result H good node (Suc k) idx A s (bindR r (visit upd (Suc k) (x, x + 2 ^ Suc k - 1) idx))"
        "A = cells_with keeps (avail k x a \<union> avail k (x + 2 ^ k) b) (met_cells x (2 ^ k + 2 ^ k) xs)" for A r
      using that False by (simp add: t mult_2)
    note unfold_step = batch_apply.simps(2) [of "Suc k"] Let_def midpoint_zone shrink
    obtain p :: nat where p: "2 ^ k = Suc p" by (metis not0_implies_Suc power_not_zero zero_neq_numeral)
    have ord: "ordered xs" "xs \<noteq> []" using fits by (auto simp: fits_def)
    consider (L) "is_left_bound (last xs) (x + 2 ^ k - 1)"
      | (R) "\<not> is_left_bound (last xs) (x + 2 ^ k - 1)" "is_right_bound (hd xs) (x + 2 ^ k - 1)"
      | (M) "\<not> is_left_bound (last xs) (x + 2 ^ k - 1)" "\<not> is_right_bound (hd xs) (x + 2 ^ k - 1)" by blast
    then show ?thesis
    proof cases
      case L
      have "snd iv < x + 2 ^ k" if iv: "iv \<in> set xs" for iv
      proof -
        obtain i where i: "i < length xs" "iv = xs ! i" using iv by (auto simp: in_set_conv_nth)
        have "snd iv \<le> snd (last xs)"
        proof (cases "i = length xs - 1")
          case False
          then have "i < length xs - 1" using i(1) by simp
          then have "snd iv < fst (last xs)" using ordered_nth [OF ord(1), of i "length xs - 1"] i ord(2) by (simp add: last_conv_nth)
          then show ?thesis using ordered_valid [OF ord(1), of "last xs"] ord(2) by simp
        qed (use i ord(2) in \<open>simp add: last_conv_nth\<close>)
        then show ?thesis using L p by (simp add: is_left_bound_def)
      qed
      note left = fits_left [OF fits this]
      have met: "met_cells x (2 ^ k + 2 ^ k) xs = ?met x xs" by (rule left(2))
      have step: "zone_result H good node k (left_node idx) (cells_with keeps (avail k x a) (?met x xs)) s (?step (left_node idx) (x, x + 2 ^ k - 1) xs s)"
        by (rule Suc.IH [OF good kids(5,1,3) fulls(1) cells(1) [symmetric] left(1)])
      have second: "zone_result H good node k (right_node idx) (if keeps then avail k (x + 2 ^ k) b else {}) s'
          (lexc (Suc k) (x, x + 2 ^ Suc k - 1) idx s')" if "good s'" "holds (node s') k (right_node idx) b" for s'
        by (rule excluded_right [where keeps = keeps, OF that(1) level that(2) kids(4) fulls(2), unfolded cells(2), folded excl(2)])
      note res = left_then_right [OF step level own busy kids(2) second]
      have set: "cells_with keeps (avail k x a) (?met x xs) \<union> (if keeps then avail k (x + 2 ^ k) b else {})
          = cells_with keeps (avail k x a \<union> avail k (x + 2 ^ k) b) (met_cells x (2 ^ k + 2 ^ k) xs)"
        by (cases keeps) (simp_all only: cells_with_def met if_True if_False Un_ac Un_empty_left Un_empty_right)
      show ?thesis unfolding unfold_step if_P [OF L] by (rule goal [OF res set])
    next
      case R
      have "x + 2 ^ k \<le> fst iv" if iv: "iv \<in> set xs" for iv
      proof -
        obtain i where i: "i < length xs" "iv = xs ! i" using iv by (auto simp: in_set_conv_nth)
        have "fst (hd xs) \<le> fst iv" using ordered_begins [OF ord(1), of 0 i] i ord(2) by (cases "i = 0") (auto simp: hd_conv_nth)
        then show ?thesis using R(2) p by (simp add: is_right_bound_def)
      qed
      note right = fits_right [OF fits this]
      have met: "met_cells x (2 ^ k + 2 ^ k) xs = ?met (x + 2 ^ k) xs" by (rule right(2))
      have step: "zone_result H good node k (right_node idx) (cells_with keeps (avail k (x + 2 ^ k) b) (?met (x + 2 ^ k) xs)) s
          (?step (right_node idx) (x + 2 ^ k, x + 2 ^ k + 2 ^ k - 1) xs s)"
        by (rule Suc.IH [OF good kids(6,2,4) fulls(2) cells(2) [symmetric] right(1)])
      have second: "zone_result H good node k (left_node idx) (if keeps then avail k x a else {}) s'
          (rexc (Suc k) (x, x + 2 ^ Suc k - 1) idx s')" if "good s'" "holds (node s') k (left_node idx) a" for s'
        by (rule excluded_left [where keeps = keeps, OF that(1) level that(2) kids(3) fulls(1), unfolded cells(1), folded excl(1)])
      note res = right_then_left [OF step level own busy kids(1) second]
      have set: "(if keeps then avail k x a else {}) \<union> cells_with keeps (avail k (x + 2 ^ k) b) (?met (x + 2 ^ k) xs)
          = cells_with keeps (avail k x a \<union> avail k (x + 2 ^ k) b) (met_cells x (2 ^ k + 2 ^ k) xs)"
        by (cases keeps) (simp_all only: cells_with_def met if_True if_False Un_ac Un_empty_left Un_empty_right)
      show ?thesis unfolding unfold_step if_not_P [OF R(1)] if_P [OF R(2)] by (rule goal [OF res set])
    next
      case M
      have "fst (hd xs) < x + 2 ^ k" "x + 2 ^ k \<le> snd (last xs)" using M p by (simp_all add: is_left_bound_def is_right_bound_def)
      from fits_both [OF fits _ this] obtain l r where lr: "pair_shrink xs (x + 2 ^ k - 1) = (l, r)" "fits x (2 ^ k) (take l xs)"
        "fits (x + 2 ^ k) (2 ^ k) (drop r xs)" "met_cells x (2 ^ k + 2 ^ k) xs = ?met x (take l xs) \<union> ?met (x + 2 ^ k) (drop r xs)" by auto
      have step: "zone_result H good node k (left_node idx) (cells_with keeps (avail k x a) (?met x (take l xs))) s
          (?step (left_node idx) (x, x + 2 ^ k - 1) (take l xs) s)"
        by (rule Suc.IH [OF good kids(5,1,3) fulls(1) cells(1) [symmetric] lr(2)])
      have second: "zone_result H good node k (right_node idx) (cells_with keeps (avail k (x + 2 ^ k) b) (?met (x + 2 ^ k) (drop r xs))) s'
          (?step (right_node idx) (x + 2 ^ k, x + 2 ^ k + 2 ^ k - 1) (drop r xs) s')" if "good s'" "holds (node s') k (right_node idx) b" for s'
        by (rule Suc.IH [OF that(1) kids(6) that(2) kids(4) fulls(2) cells(2) [symmetric] lr(3)])
      note res = left_then_right [OF step level own busy kids(2) second]
      have set: "cells_with keeps (avail k x a) (?met x (take l xs)) \<union> cells_with keeps (avail k (x + 2 ^ k) b) (?met (x + 2 ^ k) (drop r xs))
          = cells_with keeps (avail k x a \<union> avail k (x + 2 ^ k) b) (met_cells x (2 ^ k + 2 ^ k) xs)"
        unfolding lr(4) by (auto simp: cells_with_def)
      show ?thesis unfolding unfold_step if_not_P [OF M(1)] if_not_P [OF M(2)] lr(1) prod.case by (rule goal [OF res set])
    qed
  qed
qed

lemma unblock_singular_ok:
  assumes "good s" and "at_level H k idx" and "holds (node s) k idx (full_zone k)" and "x = first_cell H k idx" and fits: "fits x (2 ^ k) [iv]"
  shows "zone_result H good node k idx (met_cells x (2 ^ k) [iv]) s (unblock_singular blk upd k (x, x + 2 ^ k - 1) idx [iv] s)"
proof -
  obtain lo hi where iv: "intersect_interval iv (x, x + 2 ^ k - 1) = (lo, hi)" by fastforce
  have cells: "{lo..hi} = interval_cells iv \<inter> {x..x + 2 ^ k - 1}" using iv by (auto simp: intersect_interval_def interval_cells_def)
  have met: "{lo..hi} = met_cells x (2 ^ k) [iv]" unfolding cells zone_cells by (simp add: met_cells_def)
  moreover have "met_cells x (2 ^ k) [iv] \<noteq> {}" using fits by (auto simp: fits_def met_cells_def)
  ultimately have le: "lo \<le> hi" by auto
  have "x \<le> lo" using iv by (auto simp: intersect_interval_def)
  moreover have "hi < x + 2 ^ k"
  proof -
    have "hi \<in> {x..x + 2 ^ k - 1}" using cells le by auto
    then show ?thesis using zone_cells [of x k] by auto
  qed
  ultimately have "zone_result H good node k idx (met_cells x (2 ^ k) [iv]) s (unblock_worker H blk upd k (lo, hi) idx s)"
    unfolding met [symmetric] by (intro unblock_worker_ok [OF assms(1-4) _ le])
  then show ?thesis
    unfolding unblock_worker_def unblock_singular_def list.sel iv idx_to_interval [OF node_level [OF assms(2)]] assms(4) [symmetric] .
qed

lemma batch_downstream_ok:
  assumes "good s" and "at_level H k idx" and "holds (node s) k idx (full_zone k)" and "x = first_cell H k idx" and fits: "fits x (2 ^ k) xs"
  shows "zone_result H good node k idx (met_cells x (2 ^ k) xs) s (batch_downstream blk upd k (x, x + 2 ^ k - 1) idx xs s)"
proof -
  note shrunk = fits_shrink [OF fits]
  have "zone_result H good node k idx (cells_with False (avail k x (full_zone k)) (met_cells x (2 ^ k) (inplace_shrink xs))) s
      (batch_apply (Suc k) idx (x, x + 2 ^ k - 1) (inplace_shrink xs) stop_single (unblock_singular blk upd) (visit upd) (visit_left blk) (visit_right blk) s)"
  proof (rule batch_zone [where keeps = False])
    fix k idx xs s t
    assume a: "good s" "at_level H k idx" "holds (node s) k idx t" "(\<not> False \<Longrightarrow> t = full_zone k)" "fits (first_cell H k idx) (2 ^ k) xs"
      "stop_single k (first_cell H k idx, first_cell H k idx + 2 ^ k - 1) idx xs s"
    obtain iv where xs: "xs = [iv]" using a(6) by (auto simp: stop_single_def length_Suc_conv)
    have "holds (node s) k idx (full_zone k)" using a(3,4) by simp
    from unblock_singular_ok [OF a(1,2) this refl a(5) [unfolded xs]]
    show "zone_result H good node k idx (cells_with False (avail k (first_cell H k idx) t) (met_cells (first_cell H k idx) (2 ^ k) xs)) s
        (unblock_singular blk upd k (first_cell H k idx, first_cell H k idx + 2 ^ k - 1) idx xs s)"
      by (simp add: cells_with_def xs)
  next
    fix k idx xs s t
    assume a: "(\<not> False \<Longrightarrow> t = full_zone k)" "fits (first_cell H k idx) (2 ^ k) xs"
      "\<not> stop_single k (first_cell H k idx, first_cell H k idx + 2 ^ k - 1) idx xs s"
    have "k \<noteq> 0"
    proof
      assume "k = 0"
      then have meet: "\<And>iv. iv \<in> set xs \<Longrightarrow> first_cell H k idx \<in> interval_cells iv" using a(2) by (auto simp: fits_def)
      obtain y z ys where xs: "xs = y # z # ys" using a(2,3) by (cases xs rule: remdups_adj.cases) (auto simp: fits_def stop_single_def)
      have "snd y < fst z" using a(2) xs by (simp add: fits_def)
      moreover have "first_cell H k idx \<le> snd y" "fst z \<le> first_cell H k idx" using meet [of y] meet [of z] xs by (simp_all add: interval_cells_def)
      ultimately show False by linarith
    qed
    then show "t \<noteq> Busy \<and> (k = 0 \<longrightarrow> False)" using a(1) by simp
  qed (use assms shrunk in simp_all)
  then show ?thesis using shrunk(2) by (simp add: batch_downstream_def cells_with_def)
qed

lemma dispatch_batch_unblock_ok:
  assumes "good s" and "holds (node s) (H - 1) 0 t" and "wf_zone (H - 1) t" and fits: "fits 0 (2 ^ (H - 1)) xs"
  shows "zone_result H good node (H - 1) 0 (avail (H - 1) 0 t \<union> (range_cells xs \<inter> {0..<2 ^ (H - 1)})) s (dispatch_batch_unblock H blk unb upd isb xs s)"
proof -
  have "zone_result H good node (H - 1) 0 (cells_with True (avail (H - 1) 0 t) (met_cells 0 (2 ^ (H - 1)) xs)) s
      (batch_apply (Suc (H - 1)) 0 (0, 0 + 2 ^ (H - 1) - 1) xs (batch_stop_blocked isb) (batch_transfer blk unb upd) (visit upd) null_visitor null_visitor s)"
  proof (rule batch_zone [where keeps = True])
    fix k idx xs s t
    assume a: "good s" "at_level H k idx" "holds (node s) k idx t" "fits (first_cell H k idx) (2 ^ k) xs"
      "batch_stop_blocked isb k (first_cell H k idx, first_cell H k idx + 2 ^ k - 1) idx xs s"
    have t: "t = Busy" using is_blocked [OF holds_root [OF a(3)]] a(5) by (simp add: batch_stop_blocked_def)
    have held: "holds (node (unb k idx s)) k idx (full_zone k)" by (rule unblock_held [OF a(1,2) a(3) [unfolded t]])
    have frame: "node_frame H node (outside idx) s (unb k idx s)" by (rule node_frame_mono [OF unblock_frame [OF a(1,2)]]) auto
    from batch_downstream_ok [OF good_ops(3) [OF a(1)] a(2) held refl a(4)] frame
    show "zone_result H good node k idx (cells_with True (avail k (first_cell H k idx) t) (met_cells (first_cell H k idx) (2 ^ k) xs)) s
        (batch_transfer blk unb upd k (first_cell H k idx, first_cell H k idx + 2 ^ k - 1) idx xs s)"
      unfolding batch_transfer_def visit_def bindR_simps zone_result_def by (auto simp: t cells_with_def intro: node_frame_trans)
  next
    fix k idx xs s t
    assume a: "holds (node s) k idx t" "\<not> batch_stop_blocked isb k (first_cell H k idx, first_cell H k idx + 2 ^ k - 1) idx xs s"
    then show "t \<noteq> Busy \<and> (k = 0 \<longrightarrow> True)" using is_blocked [OF holds_root [OF a(1)]] by (simp add: batch_stop_blocked_def)
  qed (use assms root_zone [OF assms(1)] in simp_all)
  then show ?thesis using root_zone(3,4) [OF assms(1)] by (simp add: dispatch_batch_unblock_def cells_with_def met_cells_def)
qed

end

end
