(* ===== verification/Heap_Update.thy ===== *)
theory Heap_Update
  imports Heap_Operator Heap_Batch
begin

text \<open>
  The operations on a node keep the laws of \<open>heap_operatable\<close>: after \<open>update\<close> the node says of its zone what its two halves have, whether it is stored or
  only has its bits, and no operation changes what the other nodes say.
\<close>

section \<open>Between the children and the node\<close>

text \<open>The two children hold their zones; a step changes the cache of the nodes below \<open>idx\<close> only.\<close>

definition kids_ok :: "nat \<Rightarrow> nat \<Rightarrow> nat \<Rightarrow> nat \<Rightarrow> zone \<Rightarrow> zone \<Rightarrow> heap_store \<Rightarrow> bool" where
  "kids_ok H D k idx a b s \<longleftrightarrow> holds (node_ok H D s) k (left_node idx) a \<and> holds (node_ok H D s) k (right_node idx) b"

definition calm :: "nat \<Rightarrow> nat \<Rightarrow> nat \<Rightarrow> nat \<Rightarrow> zone \<Rightarrow> zone \<Rightarrow> heap_store \<Rightarrow> heap_store \<Rightarrow> bool" where
  "calm H D k idx a b s s' \<longleftrightarrow> kids_ok H D k idx a b s'
     \<and> (\<exists>c. s' = s\<lparr>cache_instance := c\<rparr> \<and> cache_frame (not_inner idx) (cache_instance s) c)"

lemma calm_refl: "kids_ok H D k idx a b s \<Longrightarrow> calm H D k idx a b s s"
  unfolding calm_def by (simp, rule exI [of _ "cache_instance s"]) simp

lemma calm_trans: "calm H D k idx a b s s' \<Longrightarrow> calm H D k idx a b s' s'' \<Longrightarrow> calm H D k idx a b s s''"
  unfolding calm_def by auto (rule exI, rule conjI, rule refl, erule cache_frame_trans, assumption)

lemma calm_kids: "calm H D k idx a b s s' \<Longrightarrow> kids_ok H D k idx a b s'"
  by (simp add: calm_def)

lemma cache_only_frame:
  assumes "s' = s\<lparr>cache_instance := c\<rparr>" and "cache_frame out (cache_instance s) c"
  shows "node_frame H (node_ok H D) out s s'"
  by (rule store_frame) (use assms in simp_all)

lemma kids_frame:
  assumes "kids_ok H D k idx a b s" and "at_level H (Suc k) idx" and "node_frame H (node_ok H D) (\<lambda>x. x \<noteq> idx) s s'"
  shows "kids_ok H D k idx a b s'"
proof -
  have held: "holds (node_ok H D s) k (left_node idx) a" "holds (node_ok H D s) k (right_node idx) b" using assms(1) by (simp_all add: kids_ok_def)
  have "holds (node_ok H D s') k (left_node idx) a"
    by (rule holds_node_frame [OF held(1) at_level_nodes(1) [OF assms(2)] assms(3)]) (rule left_not_root)
  moreover have "holds (node_ok H D s') k (right_node idx) b"
    by (rule holds_node_frame [OF held(2) at_level_nodes(2) [OF assms(2)] assms(3)]) (rule right_not_root)
  ultimately show ?thesis by (simp add: kids_ok_def)
qed

lemma calm_left:
  assumes "state_read H D k (left_node idx) a s P (v, s')" and "kids_ok H D k idx a b s" and level: "at_level H (Suc k) idx"
  shows "P v" "calm H D k idx a b s s'"
proof -
  show "P v" using assms(1) by (simp add: state_read_def)
  obtain c where c: "s' = s\<lparr>cache_instance := c\<rparr>" "cache_frame (outside (left_node idx)) (cache_instance s) c" and left: "holds (node_ok H D s') k (left_node idx) a"
    using assms(1) by (auto simp: state_read_def)
  have "holds (node_ok H D s') k (right_node idx) b"
    by (rule other_half(1) [OF level cache_only_frame [OF c]]) (use assms(2) in \<open>simp add: kids_ok_def\<close>)
  moreover have "cache_frame (not_inner idx) (cache_instance s) c" by (rule cache_frame_mono [OF c(2)]) (blast dest: below_left_node left_not_root)
  ultimately show "calm H D k idx a b s s'" using left c(1) by (auto simp: calm_def kids_ok_def)
qed

lemma calm_right:
  assumes "state_read H D k (right_node idx) b s P (v, s')" and "kids_ok H D k idx a b s" and level: "at_level H (Suc k) idx"
  shows "P v" "calm H D k idx a b s s'"
proof -
  show "P v" using assms(1) by (simp add: state_read_def)
  obtain c where c: "s' = s\<lparr>cache_instance := c\<rparr>" "cache_frame (outside (right_node idx)) (cache_instance s) c" and right: "holds (node_ok H D s') k (right_node idx) b"
    using assms(1) by (auto simp: state_read_def)
  have "holds (node_ok H D s') k (left_node idx) a"
    by (rule other_half(2) [OF level cache_only_frame [OF c]]) (use assms(2) in \<open>simp add: kids_ok_def\<close>)
  moreover have "cache_frame (not_inner idx) (cache_instance s) c" by (rule cache_frame_mono [OF c(2)]) (blast dest: below_right_node right_not_root)
  ultimately show "calm H D k idx a b s s'" using right c(1) by (auto simp: calm_def kids_ok_def)
qed

section \<open>The tracers\<close>

definition left_side :: "nat \<Rightarrow> zone \<Rightarrow> zone \<Rightarrow> side" where
  "left_side k a b = (if lfree k a = 2 ^ k \<and> lfree k b \<noteq> 0 then R_side else L_side)"

definition right_side :: "nat \<Rightarrow> zone \<Rightarrow> zone \<Rightarrow> side" where
  "right_side k a b = (if rfree k b = 2 ^ k \<and> rfree k a \<noteq> 0 then L_side else R_side)"

text \<open>The reads of the children, one after the other.\<close>

lemma child_reads:
  assumes "kids_ok H D k idx a b s" and "wf_zone k a" and "wf_zone k b" and "at_level H (Suc k) idx"
  shows "get_left_at H D k (left_node idx) s = (v, s') \<Longrightarrow> v = lfree k a \<and> calm H D k idx a b s s'"
    and "get_left_at H D k (right_node idx) s = (v, s') \<Longrightarrow> v = lfree k b \<and> calm H D k idx a b s s'"
    and "get_right_at H D k (left_node idx) s = (v, s') \<Longrightarrow> v = rfree k a \<and> calm H D k idx a b s s'"
    and "get_right_at H D k (right_node idx) s = (v, s') \<Longrightarrow> v = rfree k b \<and> calm H D k idx a b s s'"
    and "get_center_at H D k (left_node idx) s = (v, s') \<Longrightarrow> v = cfree k a \<and> calm H D k idx a b s s'"
    and "get_center_at H D k (right_node idx) s = (v, s') \<Longrightarrow> v = cfree k b \<and> calm H D k idx a b s s'"
    and "get_offset_at H D k (left_node idx) s = (v, s') \<Longrightarrow> offset_ok H k (left_node idx) a v \<and> calm H D k idx a b s s'"
    and "get_offset_at H D k (right_node idx) s = (v, s') \<Longrightarrow> offset_ok H k (right_node idx) b v \<and> calm H D k idx a b s s'"
proof -
  have held: "holds (node_ok H D s) k (left_node idx) a" "holds (node_ok H D s) k (right_node idx) b" using assms(1) by (simp_all add: kids_ok_def)
  note L = get_at_ok [OF held(1) assms(2) at_level_nodes(1) [OF assms(4)]] and R = get_at_ok [OF held(2) assms(3) at_level_nodes(2) [OF assms(4)]]
  note l = calm_left [OF _ assms(1,4)] and r = calm_right [OF _ assms(1,4)]
  show "get_left_at H D k (left_node idx) s = (v, s') \<Longrightarrow> v = lfree k a \<and> calm H D k idx a b s s'" using L(1) l by metis
  show "get_left_at H D k (right_node idx) s = (v, s') \<Longrightarrow> v = lfree k b \<and> calm H D k idx a b s s'" using R(1) r by metis
  show "get_right_at H D k (left_node idx) s = (v, s') \<Longrightarrow> v = rfree k a \<and> calm H D k idx a b s s'" using L(2) l by metis
  show "get_right_at H D k (right_node idx) s = (v, s') \<Longrightarrow> v = rfree k b \<and> calm H D k idx a b s s'" using R(2) r by metis
  show "get_center_at H D k (left_node idx) s = (v, s') \<Longrightarrow> v = cfree k a \<and> calm H D k idx a b s s'" using L(3) l by metis
  show "get_center_at H D k (right_node idx) s = (v, s') \<Longrightarrow> v = cfree k b \<and> calm H D k idx a b s s'" using R(3) r by metis
  show "get_offset_at H D k (left_node idx) s = (v, s') \<Longrightarrow> offset_ok H k (left_node idx) a v \<and> calm H D k idx a b s s'" using L(4) l by metis
  show "get_offset_at H D k (right_node idx) s = (v, s') \<Longrightarrow> offset_ok H k (right_node idx) b v \<and> calm H D k idx a b s s'" using R(4) r by metis
qed

lemma traces_of_children:
  assumes kids: "kids_ok H D k idx a b s" and wf: "wf_zone k a" "wf_zone k b" and level: "at_level H (Suc k) idx"
  shows "\<exists>s'. trace_left_at H D (Suc k) idx s = (left_side k a b, lfree (Suc k) (Halves a b), s') \<and> calm H D k idx a b s s'"
    and "\<exists>s'. trace_right_at H D (Suc k) idx s = (right_side k a b, rfree (Suc k) (Halves a b), s') \<and> calm H D k idx a b s s'"
    and "\<exists>s'. trace_center_at H D (Suc k) idx s = (center_side k a b, cfree (Suc k) (Halves a b), s') \<and> calm H D k idx a b s s'"
proof -
  have span: "span_size_at H k = 2 ^ k" using node_level [OF level] by (intro span_size_at) simp
  note reads = child_reads [OF _ wf level]
  show "\<exists>s'. trace_left_at H D (Suc k) idx s = (left_side k a b, lfree (Suc k) (Halves a b), s') \<and> calm H D k idx a b s s'"
  proof -
    obtain v1 s1 where 1: "get_left_at H D k (left_node idx) s = (v1, s1)" by fastforce
    note r1 = reads(1) [OF kids 1]
    obtain v2 s2 where 2: "get_left_at H D k (right_node idx) s1 = (v2, s2)" by fastforce
    note r2 = reads(2) [OF calm_kids [OF conjunct2 [OF r1]] 2]
    have "calm H D k idx a b s s2" using calm_trans r1 r2 by blast
    then show ?thesis using 1 2 r1 r2 span by (auto simp: trace_left_at_def left_side_def)
  qed
  show "\<exists>s'. trace_right_at H D (Suc k) idx s = (right_side k a b, rfree (Suc k) (Halves a b), s') \<and> calm H D k idx a b s s'"
  proof -
    obtain v1 s1 where 1: "get_right_at H D k (right_node idx) s = (v1, s1)" by fastforce
    note r1 = reads(4) [OF kids 1]
    obtain v2 s2 where 2: "get_right_at H D k (left_node idx) s1 = (v2, s2)" by fastforce
    note r2 = reads(3) [OF calm_kids [OF conjunct2 [OF r1]] 2]
    have "calm H D k idx a b s s2" using calm_trans r1 r2 by blast
    then show ?thesis using 1 2 r1 r2 span by (auto simp: trace_right_at_def right_side_def)
  qed
  show "\<exists>s'. trace_center_at H D (Suc k) idx s = (center_side k a b, cfree (Suc k) (Halves a b), s') \<and> calm H D k idx a b s s'"
  proof -
    obtain v1 s1 where 1: "get_center_at H D k (left_node idx) s = (v1, s1)" by fastforce
    note r1 = reads(5) [OF kids 1]
    obtain v2 s2 where 2: "get_center_at H D k (right_node idx) s1 = (v2, s2)" by fastforce
    note r2 = reads(6) [OF calm_kids [OF conjunct2 [OF r1]] 2]
    obtain v3 s3 where 3: "get_right_at H D k (left_node idx) s2 = (v3, s3)" by fastforce
    note r3 = reads(3) [OF calm_kids [OF conjunct2 [OF r2]] 3]
    obtain v4 s4 where 4: "get_left_at H D k (right_node idx) s3 = (v4, s4)" by fastforce
    note r4 = reads(2) [OF calm_kids [OF conjunct2 [OF r3]] 4]
    have "calm H D k idx a b s s4" using calm_trans r1 r2 r3 r4 by metis
    then show ?thesis using 1 2 3 4 r1 r2 r3 r4 by (auto simp: trace_center_at_def center_side_def longest_side_def Let_def)
  qed
qed

section \<open>Updating a node that has only bits\<close>

lemma left_side_trace: "(if left_side k a b = L_side then LEFT_TRACEBACK else RIGHT_TRACEBACK) = left_trace_of k a b"
  and right_side_trace: "(if right_side k a b = L_side then LEFT_TRACEBACK else RIGHT_TRACEBACK) = right_trace_of k a b"
  by (auto simp: left_side_def left_trace_of_def right_side_def right_trace_of_def trace_ids)

text \<open>A step of the update: the cache of the nodes below may change, the bits of the node do.\<close>

definition bits_step :: "nat \<Rightarrow> nat \<Rightarrow> nat \<Rightarrow> nat \<Rightarrow> zone \<Rightarrow> zone \<Rightarrow> (64 word list \<Rightarrow> 64 word list) \<Rightarrow> heap_store \<Rightarrow> heap_store \<Rightarrow> bool" where
  "bits_step H D k idx a b f s s' \<longleftrightarrow> kids_ok H D k idx a b s' \<and> traceback_store s' = f (traceback_store s) \<and> node_container s' = node_container s
     \<and> cache_frame (not_inner idx) (cache_instance s) (cache_instance s')"

lemma put_traces_step:
  assumes calm: "calm H D k idx a b s s1" and level: "at_level H (Suc k) idx"
    and f: "\<And>j x. at_level H j x \<Longrightarrow> x \<noteq> idx \<Longrightarrow> same_bits H j x (traceback_store s) (f (traceback_store s))"
  shows "bits_step H D k idx a b f s (put_traces f s1)"
proof -
  obtain c where c: "s1 = s\<lparr>cache_instance := c\<rparr>" "cache_frame (not_inner idx) (cache_instance s) c" using calm by (auto simp: calm_def)
  have "node_frame H (node_ok H D) (\<lambda>x. x \<noteq> idx) s1 (put_traces f s1)" by (rule store_frame) (use f c(1) in \<open>simp_all add: put_traces_def\<close>)
  from kids_frame [OF calm_kids [OF calm] level this] c show ?thesis by (simp add: bits_step_def put_traces_def)
qed

lemma bottom_update_steps:
  assumes kids: "kids_ok H D k idx a b s" and wf: "wf_zone k a" "wf_zone k b" and level: "at_level H (Suc k) idx" and ok: "store_ok H D s"
  shows "bits_step H D k idx a b (set_left_trace H (Suc k) idx (left_trace_of k a b)) s (bottom_update_left H D (Suc k) idx s)"
    and "bits_step H D k idx a b (set_right_trace H (Suc k) idx (right_trace_of k a b)) s (bottom_update_right H D (Suc k) idx s)"
    and "0 < k \<Longrightarrow> bits_step H D k idx a b (set_center_trace idx (side_trace (center_side k a b))) s (bottom_update_center H D (Suc k) idx s)"
proof -
  note size = ok [unfolded store_ok_def]
  have height: "2 \<le> H" "length (traceback_store s) = bool_array_size H" using size by simp_all
  note traces = traces_of_children [OF kids wf level]
  note same = writers_same_bits [OF level height]
  obtain s1 where s1: "trace_left_at H D (Suc k) idx s = (left_side k a b, lfree (Suc k) (Halves a b), s1)" "calm H D k idx a b s s1" using traces(1) by blast
  have "bits_step H D k idx a b (set_left_trace H (Suc k) idx (left_trace_of k a b)) s (put_traces (set_left_trace H (Suc k) idx (left_trace_of k a b)) s1)"
    by (rule put_traces_step [OF s1(2) level]) (rule same(1), simp_all)
  then show "bits_step H D k idx a b (set_left_trace H (Suc k) idx (left_trace_of k a b)) s (bottom_update_left H D (Suc k) idx s)"
    by (simp add: bottom_update_left_def s1(1) left_side_trace)
  obtain s2 where s2: "trace_right_at H D (Suc k) idx s = (right_side k a b, rfree (Suc k) (Halves a b), s2)" "calm H D k idx a b s s2" using traces(2) by blast
  have "bits_step H D k idx a b (set_right_trace H (Suc k) idx (right_trace_of k a b)) s (put_traces (set_right_trace H (Suc k) idx (right_trace_of k a b)) s2)"
    by (rule put_traces_step [OF s2(2) level]) (rule same(2), simp_all)
  then show "bits_step H D k idx a b (set_right_trace H (Suc k) idx (right_trace_of k a b)) s (bottom_update_right H D (Suc k) idx s)"
    by (simp add: bottom_update_right_def s2(1) right_side_trace)
  show "bits_step H D k idx a b (set_center_trace idx (side_trace (center_side k a b))) s (bottom_update_center H D (Suc k) idx s)" if "0 < k"
  proof -
    obtain s3 where s3: "trace_center_at H D (Suc k) idx s = (center_side k a b, cfree (Suc k) (Halves a b), s3)" "calm H D k idx a b s s3" using traces(3) by blast
    have "bits_step H D k idx a b (set_center_trace idx (side_trace (center_side k a b))) s (put_traces (set_center_trace idx (side_trace (center_side k a b))) s3)"
      by (rule put_traces_step [OF s3(2) level]) (rule same(3), use that in simp_all)
    then show ?thesis using that by (simp add: bottom_update_center_def s3(1) side_trace_def)
  qed
qed

text \<open>What the three steps leave in the bits of the node.\<close>

lemma updated_bits:
  fixes a b :: zone
  assumes level: "at_level H (Suc k) idx" and height: "2 \<le> H" and size: "length tb = bool_array_size H" and free: "\<not> traceback_is_blocked H (Suc k) tb idx"
  defines "tb1 \<equiv> set_left_trace H (Suc k) idx (left_trace_of k a b) tb"
  defines "tb2 \<equiv> set_right_trace H (Suc k) idx (right_trace_of k a b) tb1"
  defines "tb3 \<equiv> (if 0 < k then set_center_trace idx (side_trace (center_side k a b)) tb2 else tb2)"
  shows "traces_ok H tb3 (Suc k) idx (Halves a b)" and "\<not> traceback_is_blocked H (Suc k) tb3 idx"
    and "at_level H j x \<Longrightarrow> x \<noteq> idx \<Longrightarrow> same_bits H j x tb tb3"
proof -
  have lens: "length tb1 = bool_array_size H" "length tb2 = bool_array_size H" using size by (simp_all add: tb1_def tb2_def)
  have ids: "left_trace_of k a b \<in> {LEFT_TRACEBACK, RIGHT_TRACEBACK}" "right_trace_of k a b \<in> {LEFT_TRACEBACK, RIGHT_TRACEBACK}"
    "side_trace z \<in> {LEFT_TRACEBACK, RIGHT_TRACEBACK, MID_TRACEBACK, MID_BLOCKED}" for z
    by (auto simp: left_trace_of_def right_trace_of_def side_trace_def split: side.splits)
  have b1: "node_bit H (Suc k) idx tb1 i = (if i = 0 then left_trace_of k a b = RIGHT_TRACEBACK else node_bit H (Suc k) idx tb i)" for i
    unfolding tb1_def by (rule writers_own_bits(1) [OF level height size _ ids(1)]) simp
  have b2: "node_bit H (Suc k) idx tb2 i = (if i = 1 then right_trace_of k a b = RIGHT_TRACEBACK else node_bit H (Suc k) idx tb1 i)" for i
    unfolding tb2_def by (rule writers_own_bits(2) [OF level height lens(1) _ ids(2)]) simp
  have b3: "node_bit H (Suc k) idx tb3 i = (if i = 2 \<and> 0 < k then side_trace (center_side k a b) \<in> {RIGHT_TRACEBACK, MID_BLOCKED}
      else if i = 3 \<and> 0 < k then side_trace (center_side k a b) \<in> {MID_TRACEBACK, MID_BLOCKED} else node_bit H (Suc k) idx tb2 i)" for i
  proof (cases "0 < k")
    case True
    then have "2 \<le> Suc k" by simp
    from writers_own_bits(3) [OF level height lens(2) this ids(3) [of "center_side k a b"], of i]
    show ?thesis by (simp only: tb3_def True if_True simp_thms)
  qed (simp add: tb3_def)
  have left: "get_left_trace H (Suc k) tb3 idx = left_trace_of k a b"
    using ids(1) by (auto simp: trace_node_bits b3 b2 b1 trace_ids)
  have right: "get_right_trace H (Suc k) tb3 idx = right_trace_of k a b"
    using ids(2) by (auto simp: trace_node_bits b3 b2 b1 trace_ids)
  have center: "get_center_trace tb3 idx = side_trace (center_side k a b)" if "0 < k"
    using that by (cases "center_side k a b") (simp_all add: trace_node_bits(3) [where H = H and k = "Suc k"] b3 side_trace_def trace_ids)
  show "traces_ok H tb3 (Suc k) idx (Halves a b)" using left right center by (simp add: traces_ok_def)
  show "\<not> traceback_is_blocked H (Suc k) tb3 idx"
  proof (cases "0 < k")
    case True
    then show ?thesis using center by (simp add: traceback_is_blocked_def side_trace_def trace_ids split: side.splits)
  next
    case False
    then show ?thesis using free b1 [of 2] b2 [of 2] b3 [of 2] by (simp add: blocked_node_bits)
  qed
  show "same_bits H j x tb tb3" if "at_level H j x" "x \<noteq> idx"
  proof -
    have "same_bits H j x tb tb1" unfolding tb1_def by (rule writers_same_bits(1) [OF level height size that]) simp
    moreover have "same_bits H j x tb1 tb2" unfolding tb2_def by (rule writers_same_bits(2) [OF level height lens(1) that]) simp
    moreover have "same_bits H j x tb2 tb3"
      using writers_same_bits(3) [OF level height lens(2) that] by (cases "0 < k") (simp_all add: tb3_def)
    ultimately show ?thesis by (simp add: same_bits_def)
  qed
qed

lemma put_cache_frame:
  "node_frame H (node_ok H D) (\<lambda>x. x \<noteq> idx) s (put_cache (cache_set idx v) s)"
  by (rule store_frame) (auto simp: put_cache_def intro: cache_frame_set)

lemma bottom_update_ok:
  assumes kids: "kids_ok H D k idx a b s" and wf: "wf_zone k a" "wf_zone k b" and level: "at_level H (Suc k) idx" and ok: "store_ok H D s"
    and free: "\<not> traceback_is_blocked H (Suc k) (traceback_store s) idx" and low: "\<not> H - Suc k \<le> D"
  defines "s' \<equiv> heap_update H D (Suc k) idx s"
  shows "kids_ok H D k idx a b s'" "node_ok H D s' (Suc k) idx (Halves a b)" "node_frame H (node_ok H D) (outside idx) s s'"
proof -
  let ?s0 = "put_cache (cache_invalidate idx) s"
  have s0: "?s0 = put_cache (cache_set idx null_node) s" by (simp add: put_cache_def cache_invalidate_def)
  have kids0: "kids_ok H D k idx a b ?s0" unfolding s0 by (rule kids_frame [OF kids level put_cache_frame])
  have ok0: "store_ok H D ?s0" using ok by (simp add: store_ok_def put_cache_def)
  let ?s1 = "bottom_update_left H D (Suc k) idx ?s0"
  note step1 = bottom_update_steps(1) [OF kids0 wf level ok0]
  have ok1: "store_ok H D ?s1" "kids_ok H D k idx a b ?s1" using step1 ok0 by (simp_all add: store_ok_def bits_step_def)
  let ?s2 = "bottom_update_right H D (Suc k) idx ?s1"
  note step2 = bottom_update_steps(2) [OF ok1(2) wf level ok1(1)]
  have ok2: "store_ok H D ?s2" "kids_ok H D k idx a b ?s2" using step2 ok1 by (simp_all add: store_ok_def bits_step_def)
  have s': "s' = bottom_update_center H D (Suc k) idx ?s2" using low by (simp add: s'_def heap_update_def bottom_update_at_def)
  have step3: "bits_step H D k idx a b (\<lambda>tb. if 0 < k then set_center_trace idx (side_trace (center_side k a b)) tb else tb) ?s2 s'"
  proof (cases "0 < k")
    case True
    then show ?thesis using bottom_update_steps(3) [OF ok2(2) wf level ok2(1)] by (simp add: s')
  next
    case False
    then show ?thesis using ok2(2) by (simp add: s' bottom_update_center_def bits_step_def)
  qed
  note steps = step1 [unfolded bits_step_def] step2 [unfolded bits_step_def] step3 [unfolded bits_step_def]
  show "kids_ok H D k idx a b s'" using steps by simp
  have s0s: "traceback_store ?s0 = traceback_store s" "node_container ?s0 = node_container s" by (simp_all add: put_cache_def)
  have height: "2 \<le> H" "length (traceback_store s) = bool_array_size H" using ok by (simp_all add: store_ok_def)
  note bits = updated_bits [where a = a and b = b, OF level height free]
  have tb: "traceback_store s' = (let tb2 = set_right_trace H (Suc k) idx (right_trace_of k a b) (set_left_trace H (Suc k) idx (left_trace_of k a b) (traceback_store s))
      in if 0 < k then set_center_trace idx (side_trace (center_side k a b)) tb2 else tb2)"
  proof -
    have "traceback_store ?s1 = set_left_trace H (Suc k) idx (left_trace_of k a b) (traceback_store s)" using steps(1) s0s(1) by simp
    moreover have "traceback_store ?s2 = set_right_trace H (Suc k) idx (right_trace_of k a b) (traceback_store ?s1)" using steps(2) by simp
    moreover have "traceback_store s' = (if 0 < k then set_center_trace idx (side_trace (center_side k a b)) (traceback_store ?s2) else traceback_store ?s2)"
      using steps(3) by simp
    ultimately show ?thesis by (simp only: Let_def)
  qed
  have cache: "cache_frame (not_inner idx) (cache_instance ?s0) (cache_instance s')" using steps by (meson cache_frame_trans)
  then have "cache_get (cache_instance s') idx = null_node" by (simp add: cache_frame_def put_cache_def cache_invalidate_def cache_get_set)
  then show "node_ok H D s' (Suc k) idx (Halves a b)" using low bits(1,2) by (simp add: node_ok_def bottom_ok_def tb Let_def)
  have "cache_frame (outside idx) (cache_instance s) (cache_instance ?s0)"
    by (auto simp: put_cache_def cache_invalidate_def intro: cache_frame_set)
  moreover have "cache_frame (outside idx) (cache_instance ?s0) (cache_instance s')" by (rule cache_frame_mono [OF cache]) simp
  ultimately have "cache_frame (outside idx) (cache_instance s) (cache_instance s')" by (rule cache_frame_trans)
  then show "node_frame H (node_ok H D) (outside idx) s s'"
  proof (rule store_frame [rotated 2])
    show "same_bits H j x (traceback_store s) (traceback_store s')" if "at_level H j x" "outside idx x" for j x
      using bits(3) [OF that(1)] that(2) unfolding tb Let_def by (metis below_self)
  qed (use steps s0s in simp)
qed

section \<open>Updating a node that is stored\<close>

definition node_step :: "nat \<Rightarrow> nat \<Rightarrow> nat \<Rightarrow> nat \<Rightarrow> zone \<Rightarrow> zone \<Rightarrow> (zone_node \<Rightarrow> zone_node) \<Rightarrow> heap_store \<Rightarrow> heap_store \<Rightarrow> bool" where
  "node_step H D k idx a b f s s' \<longleftrightarrow> kids_ok H D k idx a b s' \<and> traceback_store s' = traceback_store s
     \<and> node_container s' = (node_container s)[idx := f (node_container s ! idx)] \<and> cache_frame (not_inner idx) (cache_instance s) (cache_instance s')"

lemma put_node_step:
  assumes calm: "calm H D k idx a b s s1" and level: "at_level H (Suc k) idx"
  shows "node_step H D k idx a b f s (put_node f idx s1)"
proof -
  obtain c where c: "s1 = s\<lparr>cache_instance := c\<rparr>" "cache_frame (not_inner idx) (cache_instance s) c" using calm by (auto simp: calm_def)
  have "node_frame H (node_ok H D) (\<lambda>x. x \<noteq> idx) s1 (put_node f idx s1)" by (rule store_frame) (simp_all add: put_node_def)
  from kids_frame [OF calm_kids [OF calm] level this] c show ?thesis by (simp add: node_step_def put_node_def)
qed

lemma node_step_calm: "node_step H D k idx a b f s s1 \<Longrightarrow> calm H D k idx a b s1 s2 \<Longrightarrow> node_step H D k idx a b f s s2"
  unfolding node_step_def calm_def using cache_frame_trans by fastforce

lemma node_step_trans:
  "node_step H D k idx a b f s s1 \<Longrightarrow> node_step H D k idx a b g s1 s2 \<Longrightarrow> idx < length (node_container s) \<Longrightarrow> node_step H D k idx a b (g \<circ> f) s s2"
  unfolding node_step_def using cache_frame_trans by fastforce

lemma top_update_steps:
  assumes kids: "kids_ok H D k idx a b s" and wf: "wf_zone k a" "wf_zone k b" and level: "at_level H (Suc k) idx" and size: "idx < length (node_container s)"
  shows "node_step H D k idx a b (put_l (lfree (Suc k) (Halves a b))) s (top_update_left H D (Suc k) idx s)"
    and "node_step H D k idx a b (put_r (rfree (Suc k) (Halves a b))) s (top_update_right H D (Suc k) idx s)"
    and "\<exists>offs. offset_ok H (Suc k) idx (Halves a b) offs \<and>
      node_step H D k idx a b (put_o offs \<circ> put_c (cfree (Suc k) (Halves a b))) s (top_update_center H D (Suc k) idx s)"
proof -
  note traces = traces_of_children [OF kids wf level]
  obtain s1 where s1: "trace_left_at H D (Suc k) idx s = (left_side k a b, lfree (Suc k) (Halves a b), s1)" "calm H D k idx a b s s1" using traces(1) by blast
  show "node_step H D k idx a b (put_l (lfree (Suc k) (Halves a b))) s (top_update_left H D (Suc k) idx s)"
    using put_node_step [OF s1(2) level] unfolding top_update_left_def s1(1) by (simp del: lfree.simps)
  obtain s2 where s2: "trace_right_at H D (Suc k) idx s = (right_side k a b, rfree (Suc k) (Halves a b), s2)" "calm H D k idx a b s s2" using traces(2) by blast
  show "node_step H D k idx a b (put_r (rfree (Suc k) (Halves a b))) s (top_update_right H D (Suc k) idx s)"
    using put_node_step [OF s2(2) level] unfolding top_update_right_def s2(1) by (simp del: rfree.simps)
  let ?c = "cfree (Suc k) (Halves a b)"
  obtain s3 where s3: "trace_center_at H D (Suc k) idx s = (center_side k a b, ?c, s3)" "calm H D k idx a b s s3" using traces(3) by blast
  note put = put_node_step [OF s3(2) level, of "put_c ?c"]
  have put_kids: "kids_ok H D k idx a b (put_node (put_c ?c) idx s3)" using put by (simp add: node_step_def)
  have wfh: "wf_zone (Suc k) (Halves a b)" using wf by simp
  note free = halves_free(3,4) [OF wfh, simplified lhalf.simps rhalf.simps]
  note cells = first_cell_children [OF level]
  have end_left: "get_interval_excl_end (idx_to_interval H k (left_node idx)) = first_cell H (Suc k) idx + 2 ^ k"
    using excl_end_idx_to_interval [of k H "left_node idx"] node_level [OF level] cells(1) by simp
  have finish: "node_step H D k idx a b (put_o offs \<circ> put_c ?c) s (put_node (put_o offs) idx s4)"
    if "node_step H D k idx a b (put_c ?c) s s4" for offs s4
  proof -
    have "calm H D k idx a b s4 s4" using that by (intro calm_refl) (simp add: node_step_def)
    from node_step_trans [OF that put_node_step [OF this level] size] show ?thesis .
  qed
  show "\<exists>offs. offset_ok H (Suc k) idx (Halves a b) offs \<and>
      node_step H D k idx a b (put_o offs \<circ> put_c ?c) s (top_update_center H D (Suc k) idx s)"
  proof (cases "center_side k a b")
    case L_side
    obtain offs s4 where 4: "get_offset_at H D k (left_node idx) (put_node (put_c ?c) idx s3) = (offs, s4)" by fastforce
    note r = child_reads(7) [OF put_kids wf level 4]
    have "offset_ok H (Suc k) idx (Halves a b) offs" using r free L_side cells by simp
    moreover have "top_update_center H D (Suc k) idx s = put_node (put_o offs) idx s4" unfolding top_update_center_def s3(1) using 4 L_side by simp
    ultimately show ?thesis using finish [OF node_step_calm [OF put conjunct2 [OF r]]] by metis
  next
    case R_side
    obtain offs s4 where 4: "get_offset_at H D k (right_node idx) (put_node (put_c ?c) idx s3) = (offs, s4)" by fastforce
    note r = child_reads(8) [OF put_kids wf level 4]
    have "offset_ok H (Suc k) idx (Halves a b) offs" using r free R_side cells by simp
    moreover have "top_update_center H D (Suc k) idx s = put_node (put_o offs) idx s4" unfolding top_update_center_def s3(1) using 4 R_side by simp
    ultimately show ?thesis using finish [OF node_step_calm [OF put conjunct2 [OF r]]] by metis
  next
    case M_side
    obtain r s4 where 4: "get_right_at H D k (left_node idx) s3 = (r, s4)" by fastforce
    note rd = child_reads(3) [OF calm_kids [OF s3(2)] wf level 4]
    let ?offs = "first_cell H (Suc k) idx + 2 ^ k - r"
    have "offset_ok H (Suc k) idx (Halves a b) ?offs" using rd free M_side by simp
    moreover have "top_update_center H D (Suc k) idx s = put_node (put_o ?offs) idx (put_node (put_c ?c) idx s4)"
      unfolding top_update_center_def s3(1) using 4 M_side end_left by simp
    moreover have "node_step H D k idx a b (put_c ?c) s (put_node (put_c ?c) idx s4)"
      by (rule put_node_step [OF calm_trans [OF s3(2) conjunct2 [OF rd]] level])
    ultimately show ?thesis using finish by metis
  qed
qed

lemma top_update_ok:
  assumes kids: "kids_ok H D k idx a b s" and wf: "wf_zone k a" "wf_zone k b" and level: "at_level H (Suc k) idx" and ok: "store_ok H D s"
    and free: "\<not> traceback_is_blocked H (Suc k) (traceback_store s) idx" and top: "H - Suc k \<le> D"
  defines "s' \<equiv> heap_update H D (Suc k) idx s"
  shows "kids_ok H D k idx a b s'" "node_ok H D s' (Suc k) idx (Halves a b)" "node_frame H (node_ok H D) (outside idx) s s'"
proof -
  have size: "idx < length (node_container s)" using top_index [OF level top] ok by (simp add: store_ok_def)
  let ?s1 = "top_update_left H D (Suc k) idx s"
  note step1 = top_update_steps(1) [OF kids wf level size]
  have ok1: "kids_ok H D k idx a b ?s1" "idx < length (node_container ?s1)" using step1 size by (simp_all add: node_step_def)
  let ?s2 = "top_update_right H D (Suc k) idx ?s1"
  note step2 = top_update_steps(2) [OF ok1(1) wf level ok1(2)]
  have ok2: "kids_ok H D k idx a b ?s2" "idx < length (node_container ?s2)" using step2 ok1 by (simp_all add: node_step_def)
  have s': "s' = top_update_center H D (Suc k) idx ?s2" using top by (simp add: s'_def heap_update_def top_update_at_def)
  obtain offs where offs: "offset_ok H (Suc k) idx (Halves a b) offs"
    and step3: "node_step H D k idx a b (put_o offs \<circ> put_c (cfree (Suc k) (Halves a b))) ?s2 s'"
    using top_update_steps(3) [OF ok2(1) wf level ok2(2)] unfolding s' by blast
  have all: "node_step H D k idx a b ((put_o offs \<circ> put_c (cfree (Suc k) (Halves a b))) \<circ> (put_r (rfree (Suc k) (Halves a b)) \<circ> put_l (lfree (Suc k) (Halves a b)))) s s'"
    by (rule node_step_trans [OF node_step_trans [OF step1 step2 size] step3 size])
  note all = all [unfolded node_step_def]
  show "kids_ok H D k idx a b s'" using all by blast
  have "value_ok H (Suc k) idx (Halves a b) (node_container s' ! idx)" using all size offs
    by (simp add: value_ok_def put_defs del: lfree.simps rfree.simps cfree.simps coff.simps)
  then show "node_ok H D s' (Suc k) idx (Halves a b)" using free top all by (simp add: node_ok_def)
  show "node_frame H (node_ok H D) (outside idx) s s'"
  proof (rule store_frame)
    show "node_container s' ! x = node_container s ! x" if "outside idx x" for x using all that by (metis below_self nth_list_update_neq)
    show "cache_frame (outside idx) (cache_instance s) (cache_instance s')" by (rule cache_frame_mono [of "not_inner idx"]) (use all in auto)
  qed (use all in simp)
qed

section \<open>Blocking and unblocking\<close>

lemma block_bits:
  assumes level: "at_level H k idx" and height: "2 \<le> H" and size: "length tb = bool_array_size H"
  shows "traceback_is_blocked H k (traceback_block H k idx tb) idx" and "\<not> traceback_is_blocked H k (traceback_unblock H k idx tb) idx"
    and "1 \<le> k \<Longrightarrow> i < 2 \<Longrightarrow> node_bit H k idx (traceback_block H k idx tb) i = node_bit H k idx tb i"
    and "1 \<le> k \<Longrightarrow> i < 2 \<Longrightarrow> node_bit H k idx (traceback_unblock H k idx tb) i = node_bit H k idx tb i"
    and "2 \<le> k \<Longrightarrow> get_center_trace (traceback_unblock H k idx tb) idx = MID_TRACEBACK"
proof -
  note own = writers_own_bits [OF assms]
  consider (high) "2 \<le> k" | (next_base) "k = 1" | (base) "k = 0" by linarith
  note cases = this
  show "traceback_is_blocked H k (traceback_block H k idx tb) idx"
    by (cases rule: cases) (use own(3) [of MID_BLOCKED 2] own(3) [of MID_BLOCKED 3] own(4) [of BLOCKED 2] own(5) [of BLOCKED 0] in
        \<open>simp_all add: blocked_node_bits traceback_block_def trace_ids\<close>)
  show "\<not> traceback_is_blocked H k (traceback_unblock H k idx tb) idx"
    by (cases rule: cases) (use own(3) [of MID_TRACEBACK 2] own(3) [of MID_TRACEBACK 3] own(4) [of UNBLOCKED 2] own(5) [of UNBLOCKED 0] in
        \<open>simp_all add: blocked_node_bits traceback_unblock_def trace_ids\<close>)
  show "node_bit H k idx (traceback_block H k idx tb) i = node_bit H k idx tb i" if "1 \<le> k" "i < 2"
    by (cases rule: cases) (use that own(3) [of MID_BLOCKED i] own(4) [of BLOCKED i] in \<open>simp_all add: traceback_block_def trace_ids\<close>)
  show "node_bit H k idx (traceback_unblock H k idx tb) i = node_bit H k idx tb i" if "1 \<le> k" "i < 2"
    by (cases rule: cases) (use that own(3) [of MID_TRACEBACK i] own(4) [of UNBLOCKED i] in \<open>simp_all add: traceback_unblock_def trace_ids\<close>)
  show "get_center_trace (traceback_unblock H k idx tb) idx = MID_TRACEBACK" if "2 \<le> k"
    using that by (simp add: trace_node_bits(3) [where H = H and k = k] traceback_unblock_def own trace_ids)
qed

lemma traces_bits_only:
  assumes "\<And>i. i < 2 \<Longrightarrow> node_bit H (Suc j) idx tb' i = node_bit H (Suc j) idx tb i"
  shows "get_left_trace H (Suc j) tb' idx = get_left_trace H (Suc j) tb idx" "get_right_trace H (Suc j) tb' idx = get_right_trace H (Suc j) tb idx"
  using assms [of 0] assms [of 1] by (simp_all add: trace_node_bits)

lemma deflt_node_ok:
  assumes "k < H"
  shows "value_ok H k idx (full_zone k) (deflt_node (idx_to_interval H k idx))"
    and "entry_ok H k idx (full_zone k) (deflt_node (idx_to_interval H k idx))"
proof -
  have "(x + p - 1) - x + 1 = p" if "0 < p" for x p :: nat using that by simp
  then have "interval_span_size (idx_to_interval H k idx) = 2 ^ k" by (simp add: idx_to_interval [OF assms] interval_span_size_def)
  then show "value_ok H k idx (full_zone k) (deflt_node (idx_to_interval H k idx))"
    and "entry_ok H k idx (full_zone k) (deflt_node (idx_to_interval H k idx))"
    by (simp_all add: deflt_node_def make_node_def value_ok_def entry_ok_def Let_def idx_to_interval [OF assms])
qed

lemma heap_block_ok:
  assumes ok: "store_ok H D s" and level: "at_level H k idx" and node: "node_ok H D s k idx (full_zone k)"
  shows "node_ok H D (heap_block H D k idx s) k idx Busy"
proof -
  have height: "2 \<le> H" "length (traceback_store s) = bool_array_size H" using ok by (simp_all add: store_ok_def)
  note bits = block_bits [OF level height]
  show ?thesis
  proof (cases "H - k \<le> D")
    case True
    then show ?thesis using bits(1) top_index [OF level True] ok
      by (simp add: node_ok_def heap_block_def put_traces_def put_node_def store_ok_def value_ok_def empty_node_def make_node_def ZERO_STORE_def)
  next
    case False
    have "traces_ok H (traceback_block H k idx (traceback_store s)) k idx Busy"
    proof (cases k)
      case (Suc j)
      have "traces_ok H (traceback_store s) (Suc j) idx (full_zone (Suc j))" using node False Suc by (simp add: node_ok_def bottom_ok_def)
      then show ?thesis using traces_bits_only [of H j idx "traceback_block H (Suc j) idx (traceback_store s)" "traceback_store s"] bits(3) Suc
        by (simp add: traces_ok_def)
    qed (simp add: traces_ok_def)
    then show ?thesis using bits(1) False
      by (simp add: node_ok_def bottom_ok_def heap_block_def put_traces_def put_cache_def cache_empty_init_def cache_get_set entry_ok_def empty_node_def
          make_node_def ZERO_STORE_def)
  qed
qed

lemma heap_unblock_ok:
  assumes ok: "store_ok H D s" and level: "at_level H k idx" and node: "node_ok H D s k idx Busy \<or> k = 0"
  shows "node_ok H D (heap_unblock H D k idx s) k idx (full_zone k)"
proof -
  have height: "2 \<le> H" "length (traceback_store s) = bool_array_size H" using ok by (simp_all add: store_ok_def)
  note bits = block_bits [OF level height] and deflt = deflt_node_ok [OF node_level [OF level], of idx]
  show ?thesis
  proof (cases "H - k \<le> D")
    case True
    then show ?thesis using bits(2) top_index [OF level True] ok deflt
      by (simp add: node_ok_def heap_unblock_def put_traces_def put_node_def store_ok_def)
  next
    case False
    have "traces_ok H (traceback_unblock H k idx (traceback_store s)) k idx (full_zone k)"
    proof (cases k)
      case (Suc j)
      have "traces_ok H (traceback_store s) (Suc j) idx Busy" using node False Suc by (simp add: node_ok_def bottom_ok_def)
      moreover have "center_side j (full_zone j) (full_zone j) = M_side" by (simp add: center_side_def longest_side_def)
      ultimately show ?thesis using traces_bits_only [of H j idx "traceback_unblock H (Suc j) idx (traceback_store s)" "traceback_store s"] bits(4,5) Suc
        by (simp add: traces_ok_def side_trace_def)
    qed (simp add: traces_ok_def)
    then show ?thesis using bits(2) False deflt
      by (simp add: node_ok_def bottom_ok_def heap_unblock_def put_traces_def put_cache_def cache_defaultize_def cache_get_set)
  qed
qed

lemma block_frames:
  assumes ok: "store_ok H D s" and level: "at_level H k idx"
  shows "node_frame H (node_ok H D) (\<lambda>x. x \<noteq> idx) s (heap_block H D k idx s)"
    and "node_frame H (node_ok H D) (\<lambda>x. x \<noteq> idx) s (heap_unblock H D k idx s)"
proof -
  have height: "2 \<le> H" "length (traceback_store s) = bool_array_size H" using ok by (simp_all add: store_ok_def)
  note same = writers_same_bits(4,5) [OF level height]
  show "node_frame H (node_ok H D) (\<lambda>x. x \<noteq> idx) s (heap_block H D k idx s)"
    by (rule store_frame) (use same in \<open>auto simp: heap_block_def put_traces_def put_node_def put_cache_def cache_empty_init_def Let_def intro: cache_frame_set\<close>)
  show "node_frame H (node_ok H D) (\<lambda>x. x \<noteq> idx) s (heap_unblock H D k idx s)"
    by (rule store_frame) (use same in \<open>auto simp: heap_unblock_def put_traces_def put_node_def put_cache_def cache_defaultize_def Let_def intro: cache_frame_set\<close>)
qed

section \<open>The laws\<close>

definition same_arrays :: "heap_store \<Rightarrow> heap_store \<Rightarrow> bool" where
  "same_arrays s s' \<longleftrightarrow> length (traceback_store s') = length (traceback_store s) \<and> length (node_container s') = length (node_container s)"

lemma same_arrays_trans: "same_arrays s s' \<Longrightarrow> same_arrays s' s'' \<Longrightarrow> same_arrays s s''"
  by (simp add: same_arrays_def)

lemma same_arrays_read:
  "same_arrays s (snd (get_left_at H D k idx s))" "same_arrays s (snd (get_right_at H D k idx s))"
  "same_arrays s (snd (get_center_at H D k idx s))" "same_arrays s (snd (get_offset_at H D k idx s))"
  by (simp_all add: get_left_at_def get_right_at_def get_center_at_def get_offset_at_def bottom_read_def same_arrays_def split: prod.split)

lemma same_arrays_trace:
  "same_arrays s (snd (snd (trace_left_at H D k idx s)))" "same_arrays s (snd (snd (trace_right_at H D k idx s)))"
  "same_arrays s (snd (snd (trace_center_at H D k idx s)))"
proof -
  note read = same_arrays_read [unfolded same_arrays_def]
  have eqs: "get_left_at H D k x s = (v, s') \<Longrightarrow> same_arrays s s'" "get_right_at H D k x s = (v, s') \<Longrightarrow> same_arrays s s'"
    "get_center_at H D k x s = (v, s') \<Longrightarrow> same_arrays s s'" for k x s v s'
    using same_arrays_read(1-3) [of s H D k x] by simp_all
  note lens = eqs [unfolded same_arrays_def]
  show "same_arrays s (snd (snd (trace_left_at H D k idx s)))"
    unfolding trace_left_at_def Let_def by (auto simp: same_arrays_def dest!: lens split: prod.split)
  show "same_arrays s (snd (snd (trace_right_at H D k idx s)))"
    unfolding trace_right_at_def Let_def by (auto simp: same_arrays_def dest!: lens split: prod.split)
  show "same_arrays s (snd (snd (trace_center_at H D k idx s)))"
    unfolding trace_center_at_def Let_def by (auto simp: same_arrays_def dest!: lens split: prod.split)
qed

lemma same_arrays_put:
  "same_arrays s s' \<Longrightarrow> same_arrays s (put_node f idx s')" "same_arrays s s' \<Longrightarrow> same_arrays s (put_cache g s')"
  "same_arrays s s' \<Longrightarrow> (\<And>tb. length (h tb) = length tb) \<Longrightarrow> same_arrays s (put_traces h s')"
  by (simp_all add: same_arrays_def put_node_def put_cache_def put_traces_def)

lemma same_arrays_top:
  "same_arrays s (top_update_left H D k idx s)" "same_arrays s (top_update_right H D k idx s)" "same_arrays s (top_update_center H D k idx s)"
proof -
  note trace = same_arrays_trace [of s H D k idx]
  show "same_arrays s (top_update_left H D k idx s)"
    using trace(1) by (cases "trace_left_at H D k idx s") (auto simp: top_update_left_def intro: same_arrays_put)
  show "same_arrays s (top_update_right H D k idx s)"
    using trace(2) by (cases "trace_right_at H D k idx s") (auto simp: top_update_right_def intro: same_arrays_put)
  obtain z v s1 where 1: "trace_center_at H D k idx s = (z, v, s1)" by (metis prod_cases3)
  have s1: "same_arrays s s1" using trace(3) 1 by simp
  let ?s2 = "put_node (put_c v) idx s1"
  have s2: "same_arrays s ?s2" by (rule same_arrays_put(1) [OF s1])
  have offs: "same_arrays s (snd (get_offset_at H D (k - 1) x ?s2))" for x by (rule same_arrays_trans [OF s2 same_arrays_read(4)])
  have right: "same_arrays s (snd (get_right_at H D (k - 1) x s1))" for x by (rule same_arrays_trans [OF s1 same_arrays_read(2)])
  show "same_arrays s (top_update_center H D k idx s)"
    using offs right unfolding top_update_center_def 1 by (cases z) (auto simp: Let_def split: prod.split intro!: same_arrays_put, (metis snd_conv)+)
qed

lemma same_arrays_bottom:
  "same_arrays s (bottom_update_left H D k idx s)" "same_arrays s (bottom_update_right H D k idx s)" "same_arrays s (bottom_update_center H D k idx s)"
proof -
  note trace = same_arrays_trace [of s H D k idx]
  have refl: "same_arrays s s" by (simp add: same_arrays_def)
  show "same_arrays s (bottom_update_left H D k idx s)"
    using trace(1) refl by (cases "trace_left_at H D k idx s") (auto simp: bottom_update_left_def intro!: same_arrays_put)
  show "same_arrays s (bottom_update_right H D k idx s)"
    using trace(2) refl by (cases "trace_right_at H D k idx s") (auto simp: bottom_update_right_def intro!: same_arrays_put)
  show "same_arrays s (bottom_update_center H D k idx s)"
    using trace(3) refl by (cases "trace_center_at H D k idx s") (auto simp: bottom_update_center_def intro!: same_arrays_put)
qed

lemma store_ok_ops:
  assumes "store_ok H D s"
  shows "store_ok H D (heap_update H D k idx s)" "store_ok H D (heap_block H D k idx s)" "store_ok H D (heap_unblock H D k idx s)"
proof -
  have ok: "store_ok H D s'" if "same_arrays s s'" for s' using assms that by (simp add: store_ok_def same_arrays_def)
  have refl: "same_arrays s s" by (simp add: same_arrays_def)
  have "same_arrays s (top_update_at H D k idx s)" unfolding top_update_at_def by (meson same_arrays_top same_arrays_trans)
  moreover have "same_arrays s (bottom_update_at H D k idx (put_cache f s))" for f
    unfolding bottom_update_at_def by (meson same_arrays_bottom same_arrays_trans same_arrays_put(2) refl)
  ultimately show "store_ok H D (heap_update H D k idx s)" by (intro ok) (simp add: heap_update_def)
  show "store_ok H D (heap_block H D k idx s)" "store_ok H D (heap_unblock H D k idx s)"
    by (intro ok; auto simp: heap_block_def heap_unblock_def Let_def intro!: same_arrays_put refl)+
qed

lemma heap_update_ok:
  assumes ok: "store_ok H D s" and level: "at_level H (Suc k) idx" and free: "\<not> heap_is_blocked H (Suc k) idx s" and wf: "wf_zone k a" "wf_zone k b"
    and kids: "holds (node_ok H D s) k (left_node idx) a" "holds (node_ok H D s) k (right_node idx) b"
  shows "holds (node_ok H D (heap_update H D (Suc k) idx s)) (Suc k) idx (Halves a b)
    \<and> node_frame H (node_ok H D) (outside idx) s (heap_update H D (Suc k) idx s)"
proof -
  have kids': "kids_ok H D k idx a b s" using kids by (simp add: kids_ok_def)
  note free = free [unfolded heap_is_blocked_def]
  show ?thesis
  proof (cases "H - Suc k \<le> D")
    case True
    from top_update_ok [OF kids' wf level ok free True] show ?thesis by (simp add: kids_ok_def)
  next
    case False
    from bottom_update_ok [OF kids' wf level ok free False] show ?thesis by (simp add: kids_ok_def)
  qed
qed

lemma heap_update_base:
  assumes "store_ok H D s" and "at_level H 0 idx"
  shows "node_frame H (node_ok H D) (\<lambda>x. True) s (heap_update H D 0 idx s)"
proof -
  have "\<not> H - 0 \<le> D" using assms(1) by (simp add: store_ok_def)
  then have "heap_update H D 0 idx s = put_cache (cache_invalidate idx) s"
    by (simp add: heap_update_def bottom_update_at_def bottom_update_left_def bottom_update_right_def bottom_update_center_def)
  moreover have "node_frame H (node_ok H D) (\<lambda>x. True) s (put_cache (cache_invalidate idx) s)"
    by (rule store_frame) (auto simp: put_cache_def cache_invalidate_def cache_frame_def cache_get_set)
  ultimately show ?thesis by simp
qed

interpretation heap: heap_operatable H "heap_update H D" "heap_block H D" "heap_unblock H D" "heap_is_blocked H" "store_ok H D" "node_ok H D"
  for H D :: nat
proof
  fix s k idx t a b
  show "store_ok H D s \<Longrightarrow> 1 \<le> H" by (simp add: store_ok_def)
  show "store_ok H D s \<Longrightarrow> store_ok H D (heap_update H D k idx s)" "store_ok H D s \<Longrightarrow> store_ok H D (heap_block H D k idx s)"
    "store_ok H D s \<Longrightarrow> store_ok H D (heap_unblock H D k idx s)"
    by (rule store_ok_ops, assumption)+
  show "node_ok H D s k idx t \<Longrightarrow> heap_is_blocked H k idx s = (t = Busy)" using node_ok_blocked by (simp add: heap_is_blocked_def)
  assume ok: "store_ok H D s"
  show "at_level H k idx \<Longrightarrow> node_ok H D s k idx (full_zone k) \<Longrightarrow> node_ok H D (heap_block H D k idx s) k idx Busy" by (rule heap_block_ok [OF ok])
  show "at_level H k idx \<Longrightarrow> node_frame H (node_ok H D) (\<lambda>x. x \<noteq> idx) s (heap_block H D k idx s)"
    "at_level H k idx \<Longrightarrow> node_frame H (node_ok H D) (\<lambda>x. x \<noteq> idx) s (heap_unblock H D k idx s)" by (rule block_frames [OF ok], assumption)+
  show "at_level H k idx \<Longrightarrow> node_ok H D s k idx Busy \<or> k = 0 \<Longrightarrow> node_ok H D (heap_unblock H D k idx s) k idx (full_zone k)" by (rule heap_unblock_ok [OF ok])
  show "\<not> heap_is_blocked H k idx (heap_unblock H D k idx s)" if "at_level H k idx"
    using block_bits(2) [OF that, of "traceback_store s"] ok
    by (simp add: heap_is_blocked_def heap_unblock_def put_traces_def put_node_def put_cache_def store_ok_def Let_def)
  show "at_level H (Suc k) idx \<Longrightarrow> \<not> heap_is_blocked H (Suc k) idx s \<Longrightarrow> wf_zone k a \<Longrightarrow> wf_zone k b \<Longrightarrow>
      holds (node_ok H D s) k (left_node idx) a \<Longrightarrow> holds (node_ok H D s) k (right_node idx) b \<Longrightarrow>
      holds (node_ok H D (heap_update H D (Suc k) idx s)) (Suc k) idx (Halves a b)
      \<and> node_frame H (node_ok H D) (outside idx) s (heap_update H D (Suc k) idx s)"
    by (rule heap_update_ok [OF ok])
  show "at_level H 0 idx \<Longrightarrow> node_frame H (node_ok H D) (\<lambda>x. True) s (heap_update H D 0 idx s)" by (rule heap_update_base [OF ok])
qed

end
