(* ===== verification/Heap_Allocator.thy ===== *)
theory Heap_Allocator
  imports Heap_Update
begin

text \<open>
  The allocator over the tree of \<open>dg_heap/heap.h\<close>: the seekers at the root (\<open>MaxIntervalSeeker\<close>, \<open>RightIntervalSeeker\<close>), \<open>DirectAllocator::alloc\<close> and
  \<open>free\<close>, and \<open>StdShrinker\<close>. Its specification is the set of the free cells. An interval is returned as its first cell and its size less one
  (\<open>interval_to_relative\<close>).
\<close>

section \<open>The operations\<close>

definition max_seek :: "nat \<Rightarrow> nat \<Rightarrow> nat \<Rightarrow> nat \<Rightarrow> heap_store \<Rightarrow> interval option \<times> heap_store" where
  "max_seek H D k idx s =
     (let (offs, s) = get_offset_at H D k idx s; (span, s) = get_center_at H D k idx s
      in (guarded_excl_relative_to_interval (offs, span), s))"

definition right_seek_root :: "nat \<Rightarrow> nat \<Rightarrow> heap_store \<Rightarrow> interval option \<times> heap_store" where
  "right_seek_root H D s =
     (let (span, s) = get_right_at H D (H - 1) 0 s; offs = get_interval_excl_end (idx_to_interval H (H - 1) 0) - span
      in (guarded_excl_relative_to_interval (offs, span), s))"

definition clamp_store :: "nat \<Rightarrow> nat \<Rightarrow> nat \<Rightarrow> nat" where
  "clamp_store v lo hi = (if v < lo then lo else if hi < v then hi else v)"

definition direct_alloc :: "nat \<Rightarrow> nat \<Rightarrow> nat \<Rightarrow> heap_store \<Rightarrow> (interval option \<times> heap_store) result" where
  "direct_alloc H D sz s =
     (case max_seek H D (H - 1) 0 s of
        (None, s) \<Rightarrow> Inr (None, s)
      | (Some block, s) \<Rightarrow>
          if clamp_store sz 1 (interval_span_size block) \<noteq> sz then Inr (None, s)
          else let rs = excl_relative_to_interval (fst block, sz)
               in bindR (heap_dispatch_block H (heap_block H D) (heap_update H D) rs s) (\<lambda>s. Inr (Some (interval_to_relative rs), s)))"

definition direct_free :: "nat \<Rightarrow> nat \<Rightarrow> interval \<Rightarrow> heap_store \<Rightarrow> heap_store result" where
  "direct_free H D relative s =
     dispatch_unblock H (heap_block H D) (heap_unblock H D) (heap_update H D) (heap_is_blocked H) (relative_to_interval relative) s"

definition defaultize_heap :: "nat \<Rightarrow> nat \<Rightarrow> heap_store \<Rightarrow> heap_store result" where
  "defaultize_heap H D s = initialize H (heap_unblock H D) (heap_update H D) s"

definition get_trailing :: "nat \<Rightarrow> nat \<Rightarrow> interval" where
  "get_trailing H virtual_base = incl_right_shrink (idx_to_interval H (H - 1) 0) virtual_base"

definition get_most_compact_virtual_base :: "nat \<Rightarrow> nat \<Rightarrow> heap_store \<Rightarrow> nat \<times> heap_store" where
  "get_most_compact_virtual_base H D s =
     (case right_seek_root H D s of (None, s) \<Rightarrow> (base_length H, s) | (Some r_intv, s) \<Rightarrow> (fst r_intv, s))"

definition shrink_to :: "nat \<Rightarrow> nat \<Rightarrow> nat \<Rightarrow> heap_store \<Rightarrow> heap_store result" where
  "shrink_to H D virtual_base s =
     (if virtual_base = base_length H then Inr s
      else if virtual_base > base_length H then Inl Abort
      else heap_dispatch_block H (heap_block H D) (heap_update H D) (get_trailing H virtual_base) s)"

definition shrink_heap :: "nat \<Rightarrow> nat \<Rightarrow> heap_store \<Rightarrow> (nat \<times> heap_store) result" where
  "shrink_heap H D s =
     (let (new_virtual_base, s) = get_most_compact_virtual_base H D s
      in bindR (shrink_to H D new_virtual_base s) (\<lambda>s. Inr (new_virtual_base, s)))"

definition unshrink_heap :: "nat \<Rightarrow> nat \<Rightarrow> nat \<Rightarrow> heap_store \<Rightarrow> heap_store result" where
  "unshrink_heap H D virtual_base s =
     (if virtual_base = base_length H then Inr s
      else if virtual_base > base_length H then Inl Abort
      else dispatch_unblock H (heap_block H D) (heap_unblock H D) (heap_update H D) (heap_is_blocked H) (get_trailing H virtual_base) s)"

section \<open>The free cells\<close>

definition heap_free :: "nat \<Rightarrow> nat \<Rightarrow> heap_store \<Rightarrow> nat set \<Rightarrow> bool" where
  "heap_free H D s A \<longleftrightarrow> store_ok H D s \<and> (\<exists>t. wf_zone (H - 1) t \<and> holds (node_ok H D s) (H - 1) 0 t \<and> avail (H - 1) 0 t = A)"

lemma heap_freeE:
  assumes "heap_free H D s A"
  obtains t where "store_ok H D s" "wf_zone (H - 1) t" "holds (node_ok H D s) (H - 1) 0 t" "avail (H - 1) 0 t = A"
  using assms by (auto simp: heap_free_def)

lemma heap_free_bound: "heap_free H D s A \<Longrightarrow> A \<subseteq> {0..<2 ^ (H - 1)}"
  using avail_within [of "H - 1" _ 0] by (fastforce simp: heap_free_def within_def)

lemma zone_result_free:
  assumes "zone_result H (store_ok H D) (node_ok H D) (H - 1) 0 A s r" and "store_ok H D s"
  obtains s' where "r = Inr s'" "heap_free H D s' A"
  using assms heap.root_zone(2) [OF assms(2)] by (auto simp: zone_result_def heap_free_def)

text \<open>A read at the root keeps the free cells.\<close>

lemma state_read_free:
  assumes "state_read H D (H - 1) 0 t s P (v, s')" and "store_ok H D s" and "wf_zone (H - 1) t" and "avail (H - 1) 0 t = A"
  shows "P v" "store_ok H D s'" "holds (node_ok H D s') (H - 1) 0 t"
  using assms by (auto simp: state_read_def store_ok_def)

lemma guarded_interval:
  assumes "offs + span \<le> 2 ^ 32"
  shows "guarded_excl_relative_to_interval (offs, span) = (if span = 0 then None else Some (offs, offs + span - 1))"
  using assms by (auto simp: guarded_excl_relative_to_interval_def guarded_relative_to_interval_def max_val_before_plus_overflow_def relative_to_interval_def)

text \<open>What a seek at a node returns for its zone.\<close>

definition zone_run :: "nat \<Rightarrow> nat \<Rightarrow> zone \<Rightarrow> interval option" where
  "zone_run k off t = (if cfree k t = 0 then None else Some (coff k off t, coff k off t + cfree k t - 1))"

lemma zone_run_ok:
  assumes "wf_zone k t"
  shows "zone_run k off t = Some iv \<Longrightarrow> fst iv \<le> snd iv \<and> {fst iv..snd iv} \<subseteq> avail k off t \<and> interval_span_size iv = cfree k t"
    and "zone_run k off t = None \<Longrightarrow> avail k off t = {}"
proof -
  note run = cfree_run [OF assms, of off]
  show "fst iv \<le> snd iv \<and> {fst iv..snd iv} \<subseteq> avail k off t \<and> interval_span_size iv = cfree k t" if some: "zone_run k off t = Some iv"
  proof -
    have c: "0 < cfree k t" and iv: "iv = (coff k off t, coff k off t + cfree k t - 1)" using some by (auto simp: zone_run_def split: if_splits)
    have "x \<in> avail k off t" if "coff k off t \<le> x" "x < coff k off t + cfree k t" for x using run that by (auto simp: longest_run_def)
    then show ?thesis using c unfolding iv by (auto simp: interval_span_size_def)
  qed
  show "avail k off t = {}" if none: "zone_run k off t = None"
  proof (rule ccontr)
    assume "avail k off t \<noteq> {}"
    then obtain x where x: "x \<in> avail k off t" by blast
    have "\<forall>y. x \<le> y \<and> y < x + 1 \<longrightarrow> y \<in> avail k off t" using x by (auto simp: less_Suc_eq)
    then have "1 \<le> cfree k t" using run unfolding longest_run_def by blast
    then show False using none by (simp add: zone_run_def split: if_splits)
  qed
qed

lemma max_seek_run:
  assumes "get_offset_at H D k idx s = (offs, s1)" and "get_center_at H D k idx s1 = (cfree k t, s2)" and "cfree k t \<noteq> 0 \<longrightarrow> offs = coff k off t"
    and "wf_zone k t" and "off + 2 ^ k \<le> 2 ^ 32"
  shows "max_seek H D k idx s = (zone_run k off t, s2)"
proof (cases "cfree k t = 0")
  case True
  then show ?thesis using assms(1,2) by (simp add: max_seek_def zone_run_def guarded_excl_relative_to_interval_def)
next
  case False
  have "coff k off t + cfree k t - 1 \<in> avail k off t" using cfree_run [OF assms(4), of off] False by (simp add: longest_run_def)
  then have "coff k off t + cfree k t - 1 < off + 2 ^ k" using avail_bounds [OF assms(4), of off] by fastforce
  then have bound: "coff k off t + cfree k t \<le> 2 ^ 32" using assms(5) by linarith
  have "max_seek H D k idx s = (guarded_excl_relative_to_interval (coff k off t, cfree k t), s2)" using assms(1-3) False by (simp add: max_seek_def)
  also have "guarded_excl_relative_to_interval (coff k off t, cfree k t) = zone_run k off t" unfolding guarded_interval [OF bound] zone_run_def ..
  finally show ?thesis .
qed

lemma max_seek_ok:
  assumes "heap_free H D s A" and "H \<le> 32"
  obtains t s' where "wf_zone (H - 1) t" "avail (H - 1) 0 t = A" "holds (node_ok H D s') (H - 1) 0 t" "store_ok H D s'"
    "max_seek H D (H - 1) 0 s = (zone_run (H - 1) 0 t, s')"
proof -
  obtain t where t: "store_ok H D s" "wf_zone (H - 1) t" "holds (node_ok H D s) (H - 1) 0 t" "avail (H - 1) 0 t = A" by (rule heap_freeE [OF assms(1)])
  note root = heap.root_zone [OF t(1)]
  obtain offs s1 where 1: "get_offset_at H D (H - 1) 0 s = (offs, s1)" by fastforce
  have r1: "state_read H D (H - 1) 0 t s (offset_ok H (H - 1) 0 t) (offs, s1)" using get_at_ok(4) [OF t(3,2) root(1)] 1 by simp
  note s1 = state_read_free [OF r1 t(1,2,4)]
  obtain span s2 where 2: "get_center_at H D (H - 1) 0 s1 = (span, s2)" by fastforce
  have r2: "state_read H D (H - 1) 0 t s1 (\<lambda>v. v = cfree (H - 1) t) (span, s2)" using get_at_ok(3) [OF s1(3) t(2) root(1)] 2 by simp
  note s2 = state_read_free [OF r2 s1(2) t(2,4)]
  have "(2 :: nat) ^ (H - 1) \<le> 2 ^ 32" using assms(2) by (intro power_increasing) simp_all
  then have "max_seek H D (H - 1) 0 s = (zone_run (H - 1) 0 t, s2)"
    by (intro max_seek_run [OF 1 2 [unfolded s2(1)] _ t(2)]) (use s1(1) root(2) in simp_all)
  then show ?thesis by (rule that [OF t(2,4) s2(3,2)])
qed

lemma block_free:
  assumes "heap_free H D s A" and "lo \<le> hi" and "{lo..hi} \<subseteq> A"
  obtains s' where "heap_dispatch_block H (heap_block H D) (heap_update H D) (lo, hi) s = Inr s'" "heap_free H D s' (A - {lo..hi})"
proof -
  obtain t where t: "store_ok H D s" "wf_zone (H - 1) t" "holds (node_ok H D s) (H - 1) 0 t" "avail (H - 1) 0 t = A" by (rule heap_freeE [OF assms(1)])
  have "{lo..hi} \<subseteq> avail (H - 1) 0 t" using assms(3) t(4) by simp
  from zone_result_free [OF heap.block_takes [OF t(1,3,2) assms(2) this] t(1)] show ?thesis using that t(4) by blast
qed

lemma unblock_free:
  assumes "heap_free H D s A" and "lo \<le> hi" and "hi < 2 ^ (H - 1)"
  obtains s' where "dispatch_unblock H (heap_block H D) (heap_unblock H D) (heap_update H D) (heap_is_blocked H) (lo, hi) s = Inr s'"
    "heap_free H D s' (A \<union> {lo..hi})"
proof -
  obtain t where t: "store_ok H D s" "wf_zone (H - 1) t" "holds (node_ok H D s) (H - 1) 0 t" "avail (H - 1) 0 t = A" by (rule heap_freeE [OF assms(1)])
  from zone_result_free [OF heap.unblock_gives [OF t(1,3,2) assms(2,3)] t(1)] show ?thesis using that t(4) by blast
qed

section \<open>Allocating and freeing\<close>

text \<open>What the specification says of an answer: the start of a longest run that is long enough, or that there is none.\<close>

definition alloc_answer :: "nat set \<Rightarrow> nat \<Rightarrow> interval option \<Rightarrow> bool" where
  "alloc_answer A sz r \<longleftrightarrow>
     (case r of None \<Rightarrow> sz = 0 \<or> (\<forall>first. \<not> {first..<first + sz} \<subseteq> A)
      | Some (first, n) \<Rightarrow> n + 1 = sz \<and> (\<exists>len. longest_run A first len \<and> sz \<le> len))"

definition cells_of :: "interval \<Rightarrow> nat set" where
  "cells_of relative = {fst relative..fst relative + snd relative}"

definition taken_cells :: "interval option \<Rightarrow> nat set" where
  "taken_cells r = (case r of None \<Rightarrow> {} | Some iv \<Rightarrow> cells_of iv)"

definition zone_answer :: "nat \<Rightarrow> zone \<Rightarrow> nat \<Rightarrow> interval option" where
  "zone_answer k t sz = (if sz = 0 \<or> cfree k t < sz then None else Some (coff k 0 t, sz - 1))"

lemma zone_answer_ok:
  assumes "wf_zone k t" and "avail k 0 t = A"
  shows "alloc_answer A sz (zone_answer k t sz)" and "taken_cells (zone_answer k t sz) \<subseteq> A"
proof -
  have run: "longest_run A (coff k 0 t) (cfree k t)" using cfree_run [OF assms(1), of 0] assms(2) by simp
  have "sz \<le> cfree k t" if sub: "{first..<first + sz} \<subseteq> A" for first
  proof -
    have "\<forall>x. first \<le> x \<and> x < first + sz \<longrightarrow> x \<in> A" using sub by auto
    then show ?thesis using run unfolding longest_run_def by blast
  qed
  then show "alloc_answer A sz (zone_answer k t sz)" using run by (fastforce simp: alloc_answer_def zone_answer_def)
  show "taken_cells (zone_answer k t sz) \<subseteq> A" using run by (auto simp: zone_answer_def taken_cells_def cells_of_def longest_run_def)
qed

lemma direct_alloc_eval:
  assumes "heap_free H D s A" and "H \<le> 32"
  obtains t s' where "wf_zone (H - 1) t" "avail (H - 1) 0 t = A" "direct_alloc H D sz s = Inr (zone_answer (H - 1) t sz, s')"
    "heap_free H D s' (A - taken_cells (zone_answer (H - 1) t sz))"
proof -
  obtain t s1 where t: "wf_zone (H - 1) t" "avail (H - 1) 0 t = A" "holds (node_ok H D s1) (H - 1) 0 t" "store_ok H D s1"
    and run: "max_seek H D (H - 1) 0 s = (zone_run (H - 1) 0 t, s1)"
    by (rule max_seek_ok [OF assms])
  note seek = run [unfolded zone_run_def]
  have free: "heap_free H D s1 A" using t by (auto simp: heap_free_def)
  let ?c = "cfree (H - 1) t" and ?o = "coff (H - 1) 0 t"
  have span: "interval_span_size (?o, ?o + ?c - 1) = ?c" if "?c \<noteq> 0" using that by (simp add: interval_span_size_def)
  show ?thesis
  proof (cases "sz = 0 \<or> ?c < sz")
    case True
    then have "zone_answer (H - 1) t sz = None" by (simp add: zone_answer_def)
    moreover have "direct_alloc H D sz s = Inr (None, s1)" using seek span True by (auto simp: direct_alloc_def clamp_store_def)
    ultimately show ?thesis using that [OF t(1,2)] free by (simp add: taken_cells_def)
  next
    case False
    then have sz: "0 < sz" "sz \<le> ?c" "?c \<noteq> 0" by simp_all
    then have answer: "zone_answer (H - 1) t sz = Some (?o, sz - 1)" by (simp add: zone_answer_def)
    have taken: "taken_cells (zone_answer (H - 1) t sz) = {?o..?o + sz - 1}" unfolding answer using sz by (simp add: taken_cells_def cells_of_def)
    have le: "?o \<le> ?o + sz - 1" and cells: "{?o..?o + sz - 1} \<subseteq> A" using sz zone_answer_ok(2) [OF t(1,2), of sz] unfolding taken by simp_all
    obtain s2 where s2: "heap_dispatch_block H (heap_block H D) (heap_update H D) (?o, ?o + sz - 1) s1 = Inr s2" "heap_free H D s2 (A - {?o..?o + sz - 1})"
      by (rule block_free [OF free le cells])
    have rel: "interval_to_relative (excl_relative_to_interval (?o, sz)) = (?o, sz - 1)"
      by (simp add: interval_to_relative_def excl_relative_to_interval_def)
    have "clamp_store sz 1 ?c = sz" using sz by (simp add: clamp_store_def)
    then have "direct_alloc H D sz s = Inr (Some (?o, sz - 1), s2)"
      using seek sz span s2(1) rel by (simp add: direct_alloc_def excl_relative_to_interval_def)
    then show ?thesis using that [OF t(1,2)] s2(2) taken answer by simp
  qed
qed

lemma direct_alloc_spec:
  assumes "heap_free H D s A" and "H \<le> 32"
  shows "\<exists>r s'. direct_alloc H D sz s = Inr (r, s') \<and> alloc_answer A sz r \<and> taken_cells r \<subseteq> A \<and> heap_free H D s' (A - taken_cells r)"
proof -
  obtain t s' where t: "wf_zone (H - 1) t" "avail (H - 1) 0 t = A" and s': "direct_alloc H D sz s = Inr (zone_answer (H - 1) t sz, s')"
    "heap_free H D s' (A - taken_cells (zone_answer (H - 1) t sz))" by (rule direct_alloc_eval [OF assms])
  then show ?thesis using zone_answer_ok [OF t, of sz] by blast
qed

lemma direct_free_spec:
  assumes "heap_free H D s A" and "H \<le> 32" and "fst iv + snd iv < 2 ^ (H - 1)"
  shows "\<exists>s'. direct_free H D iv s = Inr s' \<and> heap_free H D s' (A \<union> cells_of iv)"
proof -
  have "(2 :: nat) ^ (H - 1) \<le> 2 ^ 32" using assms(2) by (intro power_increasing) simp_all
  then have rel: "relative_to_interval iv = (fst iv, fst iv + snd iv)" using assms(3) by (simp add: relative_to_interval_def)
  obtain s' where "dispatch_unblock H (heap_block H D) (heap_unblock H D) (heap_update H D) (heap_is_blocked H) (fst iv, fst iv + snd iv) s = Inr s'"
    "heap_free H D s' (A \<union> {fst iv..fst iv + snd iv})"
    by (rule unblock_free [OF assms(1) le_add1 assms(3)])
  then show ?thesis by (simp add: direct_free_def rel cells_of_def)
qed

lemma defaultize_spec:
  assumes "store_ok H D s"
  shows "\<exists>s'. defaultize_heap H D s = Inr s' \<and> heap_free H D s' {0..<2 ^ (H - 1)}"
proof -
  obtain s' where "initialize H (heap_unblock H D) (heap_update H D) s = Inr s'" "heap_free H D s' {0..<2 ^ (H - 1)}"
    by (rule zone_result_free [OF heap.initialize_ok [OF assms] assms])
  then show ?thesis by (simp add: defaultize_heap_def)
qed

section \<open>Shrinking\<close>

lemma trailing_cells:
  assumes "1 \<le> H"
  shows "get_trailing H vb = (vb, 2 ^ (H - 1) - 1)"
  using idx_to_interval [of "H - 1" H 0] assms by (simp add: get_trailing_def incl_right_shrink_def first_cell_def)

lemma compact_base_ok:
  assumes "heap_free H D s A" and "H \<le> 32"
  obtains vb s' where "get_most_compact_virtual_base H D s = (vb, s')" "heap_free H D s' A" "vb \<le> 2 ^ (H - 1)" "{vb..<2 ^ (H - 1)} \<subseteq> A"
    "0 < vb \<Longrightarrow> vb - 1 \<notin> A"
proof -
  obtain t where t: "store_ok H D s" "wf_zone (H - 1) t" "holds (node_ok H D s) (H - 1) 0 t" "avail (H - 1) 0 t = A" by (rule heap_freeE [OF assms(1)])
  note root = heap.root_zone [OF t(1)]
  obtain span s1 where 1: "get_right_at H D (H - 1) 0 s = (span, s1)" by fastforce
  have r1: "state_read H D (H - 1) 0 t s (\<lambda>v. v = rfree (H - 1) t) (span, s1)" using get_at_ok(2) [OF t(3,2) root(1)] 1 by simp
  note s1 = state_read_free [OF r1 t(1,2,4)]
  have free: "heap_free H D s1 A" using t s1 by (auto simp: heap_free_def)
  have run: "right_run 0 (2 ^ (H - 1)) A span" using rfree_run [OF t(2), of 0] t(4) s1(1) by simp
  then have le: "span \<le> 2 ^ (H - 1)" by (simp add: right_run_def)
  have pow: "(2 :: nat) ^ (H - 1) \<le> 2 ^ 32" using assms(2) by (intro power_increasing) simp_all
  have excl: "get_interval_excl_end (idx_to_interval H (H - 1) 0) = 2 ^ (H - 1)" using excl_end_idx_to_interval [of "H - 1" H 0] root(2,4) by simp
  have seek: "right_seek_root H D s = (if span = 0 then None else Some (2 ^ (H - 1) - span, 2 ^ (H - 1) - 1), s1)"
    using 1 excl le pow guarded_interval [of "2 ^ (H - 1) - span" span] by (simp add: right_seek_root_def)
  have "get_most_compact_virtual_base H D s = (2 ^ (H - 1) - span, s1)" unfolding get_most_compact_virtual_base_def seek by (simp add: base_length_def)
  then show ?thesis by (rule that [OF _ free]) (use run in \<open>auto simp: right_run_def\<close>)
qed

lemma shrink_to_ok:
  assumes "heap_free H D s A" and "vb \<le> 2 ^ (H - 1)" and "{vb..<2 ^ (H - 1)} \<subseteq> A"
  shows "\<exists>s'. shrink_to H D vb s = Inr s' \<and> heap_free H D s' (A \<inter> {..<vb})"
proof (cases "vb = 2 ^ (H - 1)")
  case True
  then have "A \<inter> {..<vb} = A" using heap_free_bound [OF assms(1)] by auto
  then show ?thesis using assms(1) True by (simp add: shrink_to_def base_length_def)
next
  case False
  have H: "1 \<le> H" using assms(1) by (simp add: heap_free_def store_ok_def)
  have le: "vb \<le> 2 ^ (H - 1) - 1" using assms(2) False by simp
  have cells: "{vb..2 ^ (H - 1) - 1} = {vb..<2 ^ (H - 1)}" using zone_cells [of 0 "H - 1"] by auto
  obtain s' where s': "heap_dispatch_block H (heap_block H D) (heap_update H D) (vb, 2 ^ (H - 1) - 1) s = Inr s'" "heap_free H D s' (A - {vb..2 ^ (H - 1) - 1})"
    by (rule block_free [OF assms(1) le assms(3) [folded cells]])
  have "A - {vb..2 ^ (H - 1) - 1} = A \<inter> {..<vb}" using heap_free_bound [OF assms(1)] unfolding cells by auto
  then show ?thesis using s' False assms(2) by (simp add: shrink_to_def base_length_def trailing_cells [OF H])
qed

lemma unshrink_ok:
  assumes "heap_free H D s A" and "vb \<le> 2 ^ (H - 1)"
  shows "\<exists>s'. unshrink_heap H D vb s = Inr s' \<and> heap_free H D s' (A \<union> {vb..<2 ^ (H - 1)})"
proof (cases "vb = 2 ^ (H - 1)")
  case True
  then show ?thesis using assms(1) by (simp add: unshrink_heap_def base_length_def)
next
  case False
  have H: "1 \<le> H" using assms(1) by (simp add: heap_free_def store_ok_def)
  have le: "vb \<le> 2 ^ (H - 1) - 1" using assms(2) False by simp
  have cells: "{vb..2 ^ (H - 1) - 1} = {vb..<2 ^ (H - 1)}" using zone_cells [of 0 "H - 1"] by auto
  obtain s' where s': "dispatch_unblock H (heap_block H D) (heap_unblock H D) (heap_update H D) (heap_is_blocked H) (vb, 2 ^ (H - 1) - 1) s = Inr s'"
    "heap_free H D s' (A \<union> {vb..2 ^ (H - 1) - 1})"
    by (rule unblock_free [OF assms(1) le]) simp_all
  then show ?thesis using False assms(2) cells by (simp add: unshrink_heap_def base_length_def trailing_cells [OF H])
qed

section \<open>Runs\<close>

text \<open>The states a heap of its own can be in, with the intervals that are out.\<close>

inductive heap_reach :: "nat \<Rightarrow> nat \<Rightarrow> heap_store \<Rightarrow> interval list \<Rightarrow> bool" for H D where
  made: "store_ok H D s0 \<Longrightarrow> defaultize_heap H D s0 = Inr s \<Longrightarrow> heap_reach H D s []"
| allocated: "heap_reach H D s live \<Longrightarrow> direct_alloc H D sz s = Inr (Some iv, s') \<Longrightarrow> heap_reach H D s' (iv # live)"
| refused: "heap_reach H D s live \<Longrightarrow> direct_alloc H D sz s = Inr (None, s') \<Longrightarrow> heap_reach H D s' live"
| freed: "heap_reach H D s live \<Longrightarrow> iv \<in> set live \<Longrightarrow> direct_free H D iv s = Inr s' \<Longrightarrow> heap_reach H D s' (remove1 iv live)"

definition live_cells :: "interval list \<Rightarrow> nat set" where
  "live_cells live = (\<Union>iv \<in> set live. cells_of iv)"

fun disjoint_cells :: "interval list \<Rightarrow> bool" where
  "disjoint_cells [] \<longleftrightarrow> True"
| "disjoint_cells (iv # live) \<longleftrightarrow> cells_of iv \<inter> live_cells live = {} \<and> disjoint_cells live"

lemma live_cells_simps [simp]: "live_cells [] = {}" "live_cells (iv # live) = cells_of iv \<union> live_cells live"
  by (simp_all add: live_cells_def)

lemma cells_nonempty [simp]: "cells_of iv \<noteq> {}"
  by (simp add: cells_of_def)

lemma live_remove1_subset: "live_cells (remove1 iv live) \<subseteq> live_cells live"
  using set_remove1_subset by (fastforce simp: live_cells_def)

lemma live_remove1: "disjoint_cells live \<Longrightarrow> iv \<in> set live \<Longrightarrow> live_cells (remove1 iv live) = live_cells live - cells_of iv"
proof (induction live)
  case (Cons x live)
  show ?case
  proof (cases "iv = x")
    case True
    then show ?thesis using Cons.prems by auto
  next
    case False
    then have "iv \<in> set live" using Cons.prems by simp
    then have "cells_of iv \<subseteq> live_cells live" by (auto simp: live_cells_def)
    then show ?thesis using Cons False by auto
  qed
qed simp

lemma disjoint_remove1: "disjoint_cells live \<Longrightarrow> disjoint_cells (remove1 iv live)"
  by (induction live) (use live_remove1_subset in fastforce)+

lemma heap_reach_inv:
  assumes "heap_reach H D s live" and "H \<le> 32"
  shows "heap_free H D s ({0..<2 ^ (H - 1)} - live_cells live) \<and> live_cells live \<subseteq> {0..<2 ^ (H - 1)} \<and> disjoint_cells live"
  using assms
proof (induction rule: heap_reach.induct)
  case (made s0 s)
  then show ?case using defaultize_spec [of H D s0] by auto
next
  case (allocated s live sz iv s')
  let ?A = "{0..<2 ^ (H - 1)} - live_cells live"
  have inv: "heap_free H D s ?A" "live_cells live \<subseteq> {0..<2 ^ (H - 1)}" "disjoint_cells live" using allocated by auto
  have "cells_of iv \<subseteq> ?A" "heap_free H D s' (?A - cells_of iv)"
    using direct_alloc_spec [OF inv(1) assms(2), of sz] allocated.hyps(2) by (auto simp: taken_cells_def)
  moreover have "?A - cells_of iv = {0..<2 ^ (H - 1)} - live_cells (iv # live)" by auto
  ultimately show ?case using inv by auto
next
  case (refused s live sz s')
  then show ?case using direct_alloc_spec [of H D s _ sz] by (fastforce simp: taken_cells_def)
next
  case (freed s live iv s')
  let ?A = "{0..<2 ^ (H - 1)} - live_cells live"
  have inv: "heap_free H D s ?A" "live_cells live \<subseteq> {0..<2 ^ (H - 1)}" "disjoint_cells live" using freed by auto
  have sub: "cells_of iv \<subseteq> live_cells live" using freed.hyps(2) by (auto simp: live_cells_def)
  moreover have "fst iv + snd iv \<in> cells_of iv" by (simp add: cells_of_def)
  ultimately have "fst iv + snd iv < 2 ^ (H - 1)" using inv(2) by fastforce
  then have "heap_free H D s' (?A \<union> cells_of iv)" using direct_free_spec [OF inv(1) assms(2)] freed.hyps(3) by fastforce
  moreover have "?A \<union> cells_of iv = {0..<2 ^ (H - 1)} - live_cells (remove1 iv live)"
    using live_remove1 [OF inv(3) freed.hyps(2)] sub inv(2) by auto
  ultimately show ?case using disjoint_remove1 [OF inv(3)] live_remove1 [OF inv(3) freed.hyps(2)] inv(2) by auto
qed

end
