(* ===== verification/Heap_Market.thy ===== *)
theory Heap_Market
  imports Heap_Allocator
begin

text \<open>
  The caching allocator over the tree (\<open>FastAllocator\<close> of \<open>dg_heap/heap.h\<close>): a sale agent that cuts intervals from one interval it has taken from the
  tree (\<open>StdSaleAgent\<close>), a buy agent that collects the intervals that come idle (\<open>StdBuyAgent\<close>) and, when it is full, returns them with one batch
  unblock, and the brokers that make the agents and give idle what they hold when they are dropped. The capacity of the buy agent is the parameter
  \<open>lim\<close>. The operations of the standard library do not run out of memory here.
\<close>

section \<open>The agents\<close>

definition sale_buy :: "nat \<Rightarrow> interval \<Rightarrow> interval option \<times> interval" where
  "sale_buy sz product =
     (if \<not> is_valid_interval product \<or> interval_span_size product < sz then (None, product)
      else let rs = excl_relative_to_interval (fst product, sz) in (Some rs, (get_interval_excl_end rs, snd product)))"

definition sale_decomission :: "interval \<Rightarrow> interval option" where
  "sale_decomission product = (if is_valid_interval product then Some product else None)"

definition buy_sell :: "nat \<Rightarrow> interval \<Rightarrow> interval list \<Rightarrow> bool \<times> interval list" where
  "buy_sell capacity product container = (if length container = capacity then (False, container) else (True, container @ [product]))"

section \<open>The brokers\<close>

definition contiguous_collector :: "nat \<Rightarrow> nat \<Rightarrow> interval option \<Rightarrow> heap_store \<Rightarrow> heap_store result" where
  "contiguous_collector H D free_space s =
     (case free_space of None \<Rightarrow> Inr s
      | Some intv \<Rightarrow> dispatch_unblock H (heap_block H D) (heap_unblock H D) (heap_update H D) (heap_is_blocked H) intv s)"

definition fragmented_collector :: "nat \<Rightarrow> nat \<Rightarrow> interval list \<Rightarrow> heap_store \<Rightarrow> heap_store result" where
  "fragmented_collector H D xs s =
     (if xs = [] then Inr s
      else dispatch_batch_unblock H (heap_block H D) (heap_unblock H D) (heap_update H D) (heap_is_blocked H) (inplace_sort xs) s)"

text \<open>The deleters of the agents.\<close>

definition drop_sale_agent :: "nat \<Rightarrow> nat \<Rightarrow> interval \<Rightarrow> heap_store \<Rightarrow> heap_store result" where
  "drop_sale_agent H D product s = contiguous_collector H D (sale_decomission product) s"

definition drop_buy_agent :: "nat \<Rightarrow> nat \<Rightarrow> interval list \<Rightarrow> heap_store \<Rightarrow> heap_store result" where
  "drop_buy_agent H D container s = fragmented_collector H D container s"

definition get_sale_broker :: "nat \<Rightarrow> nat \<Rightarrow> interval \<Rightarrow> heap_store \<Rightarrow> (interval \<times> heap_store) result" where
  "get_sale_broker H D valid_interval s =
     bindR (heap_dispatch_block H (heap_block H D) (heap_update H D) valid_interval s) (\<lambda>s. Inr (valid_interval, s))"

definition longer_half :: "interval option \<Rightarrow> interval option \<Rightarrow> interval option" where
  "longer_half lrs rrs =
     (case (lrs, rrs) of (None, _) \<Rightarrow> rrs | (Some _, None) \<Rightarrow> lrs
      | (Some l, Some r) \<Rightarrow> if interval_span_size l > interval_span_size r then lrs else rrs)"

definition root_leftright_seek :: "nat \<Rightarrow> nat \<Rightarrow> heap_store \<Rightarrow> interval option \<times> heap_store" where
  "root_leftright_seek H D s =
     (case max_seek H D (H - 1) 0 s of
        (None, s) \<Rightarrow> (None, s)
      | (Some _, s) \<Rightarrow>
          (let (lrs, s) = max_seek H D (H - 2) (left_node 0) s; (rrs, s) = max_seek H D (H - 2) (right_node 0) s
           in (longer_half lrs rrs, s)))"

section \<open>The allocator\<close>

record market_state =
  market_heap :: heap_store
  buyable_ins :: "interval option"
  sellable_ins :: "interval list option"

definition fast_raw_alloc :: "nat \<Rightarrow> market_state \<Rightarrow> interval option \<times> market_state" where
  "fast_raw_alloc sz m =
     (case buyable_ins m of None \<Rightarrow> (None, m)
      | Some product \<Rightarrow>
          (case sale_buy sz product of (Some rs, product) \<Rightarrow> (Some (interval_to_relative rs), m\<lparr>buyable_ins := Some product\<rparr>) | (None, _) \<Rightarrow> (None, m)))"

definition fast_raw_free :: "nat \<Rightarrow> interval \<Rightarrow> market_state \<Rightarrow> bool \<times> market_state" where
  "fast_raw_free lim relative m =
     (case sellable_ins m of None \<Rightarrow> (False, m)
      | Some container \<Rightarrow> (let (sold, container) = buy_sell lim (relative_to_interval relative) container in (sold, m\<lparr>sellable_ins := Some container\<rparr>)))"

definition sync_buyable :: "nat \<Rightarrow> nat \<Rightarrow> market_state \<Rightarrow> market_state result" where
  "sync_buyable H D m =
     (case buyable_ins m of None \<Rightarrow> Inr m
      | Some product \<Rightarrow>
          bindR (drop_sale_agent H D product (market_heap m)) (\<lambda>s. Inr (m\<lparr>market_heap := s, buyable_ins := None\<rparr>)))"

definition sync_sellable :: "nat \<Rightarrow> nat \<Rightarrow> market_state \<Rightarrow> market_state result" where
  "sync_sellable H D m =
     (case sellable_ins m of None \<Rightarrow> Inr m
      | Some container \<Rightarrow> bindR (drop_buy_agent H D container (market_heap m)) (\<lambda>s. Inr (m\<lparr>market_heap := s, sellable_ins := None\<rparr>)))"

definition spawn_buyable :: "nat \<Rightarrow> nat \<Rightarrow> market_state \<Rightarrow> market_state result" where
  "spawn_buyable H D m =
     (case root_leftright_seek H D (market_heap m) of
        (None, s) \<Rightarrow> Inr (m\<lparr>market_heap := s, buyable_ins := None\<rparr>)
      | (Some intv, s) \<Rightarrow>
          bindR (get_sale_broker H D intv s) (\<lambda>(broker, s). Inr (m\<lparr>market_heap := s, buyable_ins := Some broker\<rparr>)))"

definition spawn_sellable :: "market_state \<Rightarrow> market_state" where
  "spawn_sellable m = m\<lparr>sellable_ins := Some []\<rparr>"

definition fast_alloc :: "nat \<Rightarrow> nat \<Rightarrow> nat \<Rightarrow> market_state \<Rightarrow> (interval option \<times> market_state) result" where
  "fast_alloc H D sz m =
     (if sz = 0 then Inr (None, m)
      else case fast_raw_alloc sz m of
        (Some rs, m) \<Rightarrow> Inr (Some rs, m)
      | (None, m) \<Rightarrow> bindR (sync_buyable H D m) (\<lambda>m. bindR (spawn_buyable H D m) (\<lambda>m. Inr (fast_raw_alloc sz m))))"

definition fast_free :: "nat \<Rightarrow> nat \<Rightarrow> nat \<Rightarrow> interval \<Rightarrow> market_state \<Rightarrow> market_state result" where
  "fast_free H D lim intv m =
     (let (sold, m) = fast_raw_free lim intv m
      in if sold then Inr m
         else bindR (sync_sellable H D m)
           (\<lambda>m. let (sold, m) = fast_raw_free lim intv (spawn_sellable m) in if sold then Inr m else Inl Abort))"

text \<open>The capacity that \<open>spawn_fast_allocator\<close> asks for.\<close>

definition BUY_LIM :: nat where "BUY_LIM = 2 ^ 15"

section \<open>Lists of disjoint intervals\<close>

definition total_size :: "interval list \<Rightarrow> nat" where
  "total_size xs = (\<Sum>iv \<leftarrow> xs. snd iv + 1)"

lemma finite_live [simp]: "finite (live_cells xs)"
  by (simp add: live_cells_def cells_of_def)

lemma card_live_le: "card (live_cells xs) \<le> total_size xs"
proof (induction xs)
  case (Cons iv xs)
  have "card (live_cells (iv # xs)) \<le> card (cells_of iv) + card (live_cells xs)" by (simp add: card_Un_le)
  then show ?case using Cons by (simp add: total_size_def cells_of_def)
qed (simp add: total_size_def)

lemma disjoint_card: "disjoint_cells xs \<longleftrightarrow> card (live_cells xs) = total_size xs"
proof (induction xs)
  case (Cons iv xs)
  have fin: "finite (cells_of iv)" and one: "card (cells_of iv) = snd iv + 1" by (simp_all add: cells_of_def)
  have sum: "card (cells_of iv) + card (live_cells xs) = card (live_cells (iv # xs)) + card (cells_of iv \<inter> live_cells xs)"
    using card_Un_Int [OF fin finite_live] by simp
  have total: "total_size (iv # xs) = card (cells_of iv) + total_size xs" using one by (simp add: total_size_def)
  have "card (cells_of iv \<inter> live_cells xs) = 0 \<longleftrightarrow> cells_of iv \<inter> live_cells xs = {}" using fin by simp
  then show ?case using Cons sum total card_live_le [of xs] by auto
qed (simp add: total_size_def)

lemma live_cells_append [simp]: "live_cells (xs @ ys) = live_cells xs \<union> live_cells ys"
  by (simp add: live_cells_def)

lemma live_cells_mset: "mset xs = mset ys \<Longrightarrow> live_cells xs = live_cells ys"
  unfolding live_cells_def by (metis set_mset_mset)

lemma total_size_mset: "mset xs = mset ys \<Longrightarrow> total_size xs = total_size ys"
proof -
  assume "mset xs = mset ys"
  then have "mset (map (\<lambda>iv. snd iv + 1) xs) = mset (map (\<lambda>iv. snd iv + 1) ys)" by simp
  then have "sum_mset (mset (map (\<lambda>iv. snd iv + 1) xs)) = sum_mset (mset (map (\<lambda>iv. snd iv + 1) ys))" by (rule arg_cong)
  then show ?thesis unfolding total_size_def sum_mset_sum_list .
qed

lemma disjoint_cells_mset: "mset xs = mset ys \<Longrightarrow> disjoint_cells xs = disjoint_cells ys"
  unfolding disjoint_card using live_cells_mset [of xs ys] total_size_mset [of xs ys] by simp

lemma disjoint_append_left: "disjoint_cells (xs @ ys) \<Longrightarrow> disjoint_cells ys"
  by (induction xs) simp_all

lemma length_total: "length xs \<le> total_size xs"
  by (induction xs) (simp_all add: total_size_def)

lemma disjoint_within: "disjoint_cells xs \<Longrightarrow> live_cells xs \<subseteq> {0..<n} \<Longrightarrow> total_size xs \<le> n"
  using card_mono [of "{0..<n}" "live_cells xs"] by (simp add: disjoint_card)

definition abs_interval :: "interval \<Rightarrow> interval" where
  "abs_interval iv = (fst iv, fst iv + snd iv)"

lemma abs_interval_cells [simp]: "interval_cells (abs_interval iv) = cells_of iv"
  by (simp add: interval_cells_def abs_interval_def cells_of_def)

lemma interval_to_relative_abs [simp]: "interval_to_relative (abs_interval iv) = iv"
  by (simp add: interval_to_relative_def abs_interval_def)

lemma range_abs: "range_cells (map abs_interval xs) = live_cells xs"
  by (simp add: range_cells_def live_cells_def)

lemma sorted_ordered: "sorted (map fst xs) \<Longrightarrow> disjoint_cells xs \<Longrightarrow> ordered (map abs_interval xs)"
proof (induction xs)
  case (Cons x xs)
  have "fst x + snd x < fst y" if y: "y \<in> set xs" for y
  proof (rule ccontr)
    assume "\<not> fst x + snd x < fst y"
    moreover have "fst x \<le> fst y" using Cons.prems(1) y by simp
    ultimately have "fst y \<in> cells_of x" "fst y \<in> live_cells xs" using y by (auto simp: cells_of_def live_cells_def)
    then show False using Cons.prems(2) by auto
  qed
  then show ?case using Cons by (simp add: abs_interval_def)
qed simp

text \<open>Sorting the intervals that came back puts them in order.\<close>

lemma insort_abs: "insort_key fst (abs_interval x) (map abs_interval xs) = map abs_interval (insort_key fst x xs)"
  by (induction xs) (simp_all add: abs_interval_def)

lemma sort_abs: "inplace_sort (map abs_interval xs) = map abs_interval (sort_key fst xs)"
  unfolding inplace_sort_def by (induction xs) (simp_all add: insort_abs)

lemma returned_fit:
  assumes "disjoint_cells xs" and "live_cells xs \<subseteq> {0..<n}" and "xs \<noteq> []" and "n \<le> 2 ^ 32"
  shows "fits 0 n (inplace_sort (map abs_interval xs))" and "range_cells (inplace_sort (map abs_interval xs)) = live_cells xs"
proof -
  have same: "mset (sort_key fst xs) = mset xs" by simp
  have inside: "cells_of iv \<subseteq> {0..<n}" if "iv \<in> set xs" for iv using assms(2) that by (auto simp: live_cells_def)
  have top: "fst iv + snd iv < 2 ^ 32" if "iv \<in> set xs" for iv
  proof -
    have "fst iv + snd iv \<in> cells_of iv" by (simp add: cells_of_def)
    then show ?thesis using inside [OF that] assms(4) by fastforce
  qed
  have "ordered (map abs_interval (sort_key fst xs))"
    by (rule sorted_ordered) (use assms(1) disjoint_cells_mset [OF same] in simp_all)
  moreover have "map abs_interval (sort_key fst xs) \<noteq> []" using assms(3) same by (metis map_is_Nil_conv mset_zero_iff)
  moreover have "interval_cells (abs_interval iv) \<inter> {0..<0 + n} \<noteq> {}" if "iv \<in> set xs" for iv
    using inside [OF that] cells_nonempty [of iv] by fastforce
  moreover have "snd (abs_interval iv) < 2 ^ 32" if "iv \<in> set xs" for iv using top [OF that] by (simp add: abs_interval_def)
  ultimately show "fits 0 n (inplace_sort (map abs_interval xs))" unfolding sort_abs fits_def by auto
  show "range_cells (inplace_sort (map abs_interval xs)) = live_cells xs"
    unfolding sort_abs range_abs by (rule live_cells_mset) simp
qed

text \<open>The batch unblock of what came back frees exactly these cells.\<close>

lemma batch_free:
  assumes "heap_free H D s A" and "H \<le> 32" and "disjoint_cells xs" and "live_cells xs \<subseteq> {0..<2 ^ (H - 1)}"
  obtains s' where "fragmented_collector H D (map abs_interval xs) s = Inr s'" "heap_free H D s' (A \<union> live_cells xs)"
proof (cases "xs = []")
  case True
  then show ?thesis using that assms(1) by (simp add: fragmented_collector_def)
next
  case False
  have pow: "(2 :: nat) ^ (H - 1) \<le> 2 ^ 32" using assms(2) by (intro power_increasing) simp_all
  note fit = returned_fit [OF assms(3,4) False pow]
  obtain t where t: "store_ok H D s" "wf_zone (H - 1) t" "holds (node_ok H D s) (H - 1) 0 t" "avail (H - 1) 0 t = A" by (rule heap_freeE [OF assms(1)])
  have "live_cells xs \<inter> {0..<2 ^ (H - 1)} = live_cells xs" using assms(4) by blast
  then show ?thesis
    using zone_result_free [OF heap.dispatch_batch_unblock_ok [OF t(1,3,2) fit(1)] t(1)] that False t(4) fit(2) by (auto simp: fragmented_collector_def)
qed

section \<open>Seeking under the root\<close>

lemma child_seeks:
  assumes kids: "kids_ok H D k idx a b s" and wf: "wf_zone k a" "wf_zone k b" and level: "at_level H (Suc k) idx"
    and small: "first_cell H (Suc k) idx + 2 ^ Suc k \<le> 2 ^ 32"
  shows "\<exists>s'. max_seek H D k (left_node idx) s = (zone_run k (first_cell H (Suc k) idx) a, s') \<and> calm H D k idx a b s s'"
    and "\<exists>s'. max_seek H D k (right_node idx) s = (zone_run k (first_cell H (Suc k) idx + 2 ^ k) b, s') \<and> calm H D k idx a b s s'"
proof -
  note reads = child_reads [OF _ wf level] and cells = first_cell_children [OF level]
  show "\<exists>s'. max_seek H D k (left_node idx) s = (zone_run k (first_cell H (Suc k) idx) a, s') \<and> calm H D k idx a b s s'"
  proof -
    obtain v1 s1 where 1: "get_offset_at H D k (left_node idx) s = (v1, s1)" by fastforce
    note r1 = reads(7) [OF kids 1]
    obtain v2 s2 where 2: "get_center_at H D k (left_node idx) s1 = (v2, s2)" by fastforce
    note r2 = reads(5) [OF calm_kids [OF conjunct2 [OF r1]] 2]
    have "max_seek H D k (left_node idx) s = (zone_run k (first_cell H (Suc k) idx) a, s2)"
      by (rule max_seek_run [OF 1 _ _ wf(1)]) (use 2 r1 r2 cells small in simp_all)
    then show ?thesis using calm_trans r1 r2 by blast
  qed
  show "\<exists>s'. max_seek H D k (right_node idx) s = (zone_run k (first_cell H (Suc k) idx + 2 ^ k) b, s') \<and> calm H D k idx a b s s'"
  proof -
    obtain v1 s1 where 1: "get_offset_at H D k (right_node idx) s = (v1, s1)" by fastforce
    note r1 = reads(8) [OF kids 1]
    obtain v2 s2 where 2: "get_center_at H D k (right_node idx) s1 = (v2, s2)" by fastforce
    note r2 = reads(6) [OF calm_kids [OF conjunct2 [OF r1]] 2]
    have "max_seek H D k (right_node idx) s = (zone_run k (first_cell H (Suc k) idx + 2 ^ k) b, s2)"
      by (rule max_seek_run [OF 1 _ _ wf(2)]) (use 2 r1 r2 cells small in simp_all)
    then show ?thesis using calm_trans r1 r2 by blast
  qed
qed

text \<open>The seeker of the sale broker: free cells, and none only when none is free; no run inside one half is longer.\<close>

definition half_run :: "nat \<Rightarrow> nat set \<Rightarrow> nat \<Rightarrow> nat \<Rightarrow> bool" where
  "half_run H A first n \<longleftrightarrow> {first..<first + n} \<subseteq> A \<and> (first + n \<le> 2 ^ (H - 2) \<or> 2 ^ (H - 2) \<le> first)"

definition broker_answer :: "nat \<Rightarrow> nat set \<Rightarrow> interval option \<Rightarrow> bool" where
  "broker_answer H A r \<longleftrightarrow>
     (case r of None \<Rightarrow> A = {}
      | Some iv \<Rightarrow> fst iv \<le> snd iv \<and> {fst iv..snd iv} \<subseteq> A \<and> (\<forall>first n. half_run H A first n \<longrightarrow> n \<le> interval_span_size iv))"

lemma run_in_half:
  assumes "wf_zone k t" and "{first..<first + n} \<subseteq> avail k off t"
  shows "n \<le> cfree k t"
proof -
  have "\<forall>x. first \<le> x \<and> x < first + n \<longrightarrow> x \<in> avail k off t" using assms(2) by auto
  then show ?thesis using cfree_run [OF assms(1), of off] unfolding longest_run_def by blast
qed

lemma longer_half_ok:
  assumes wf: "wf_zone k a" "wf_zone k b" and H: "k = H - 2"
  shows "broker_answer H (avail k 0 a \<union> avail k (2 ^ k) b) (longer_half (zone_run k 0 a) (zone_run k (2 ^ k) b))"
proof -
  note A = avail_bounds [OF wf(1), of 0] and B = avail_bounds [OF wf(2), of "2 ^ k"]
  have le: "n \<le> max (cfree k a) (cfree k b)" if run: "half_run H (avail k 0 a \<union> avail k (2 ^ k) b) first n" for first n
  proof (cases "first + n \<le> 2 ^ k")
    case True
    then have "{first..<first + n} \<subseteq> avail k 0 a" using run B by (fastforce simp: half_run_def)
    from run_in_half [OF wf(1) this] show ?thesis by simp
  next
    case False
    then have "{first..<first + n} \<subseteq> avail k (2 ^ k) b" using run A H by (fastforce simp: half_run_def)
    from run_in_half [OF wf(2) this] show ?thesis by simp
  qed
  show ?thesis
  proof (cases "zone_run k 0 a")
    case None
    note a = this
    have "cfree k a = 0" using None by (simp add: zone_run_def split: if_splits)
    then show ?thesis
      using zone_run_ok [OF wf(2), of "2 ^ k"] zone_run_ok(2) [OF wf(1) None] le None
      by (cases "zone_run k (2 ^ k) b") (auto simp: longer_half_def broker_answer_def)
  next
    case (Some l)
    note l = zone_run_ok(1) [OF wf(1) Some]
    show ?thesis
    proof (cases "zone_run k (2 ^ k) b")
      case None
      then have "cfree k b = 0" by (simp add: zone_run_def split: if_splits)
      then show ?thesis using l le Some None by (auto simp: longer_half_def broker_answer_def)
    next
      case r': (Some r)
      note r = zone_run_ok(1) [OF wf(2) r']
      show ?thesis
      proof (cases "interval_span_size l > interval_span_size r")
        case True
        then have "n \<le> interval_span_size l" if "half_run H (avail k 0 a \<union> avail k (2 ^ k) b) first n" for first n using le [OF that] l r by simp
        then show ?thesis using True l Some r' by (auto simp: longer_half_def broker_answer_def)
      next
        case False
        then have "n \<le> interval_span_size r" if "half_run H (avail k 0 a \<union> avail k (2 ^ k) b) first n" for first n using le [OF that] l r by simp
        then show ?thesis using False r Some r' by (auto simp: longer_half_def broker_answer_def)
      qed
    qed
  qed
qed

lemma root_leftright_seek_ok:
  assumes "heap_free H D s A" and "H \<le> 32"
  obtains r s' where "root_leftright_seek H D s = (r, s')" "broker_answer H A r" "heap_free H D s' A"
proof -
  obtain t s1 where t: "wf_zone (H - 1) t" "avail (H - 1) 0 t = A" "holds (node_ok H D s1) (H - 1) 0 t" "store_ok H D s1"
    and run: "max_seek H D (H - 1) 0 s = (zone_run (H - 1) 0 t, s1)" by (rule max_seek_ok [OF assms])
  have free: "heap_free H D s1 A" using t by (auto simp: heap_free_def)
  show ?thesis
  proof (cases "zone_run (H - 1) 0 t")
    case None
    then have "A = {}" using zone_run_ok(2) [OF t(1) None] t(2) by simp
    then show ?thesis using that [of None s1] run None free by (simp add: root_leftright_seek_def broker_answer_def)
  next
    case (Some iv)
    obtain k where k: "H - 1 = Suc k" "k = H - 2" using t(4) by (metis Suc_diff_le diff_Suc_Suc numeral_2_eq_2 plus_1_eq_Suc One_nat_def diff_Suc_1 store_ok_def)
    note root = heap.root_zone [OF t(4), unfolded k(1)]
    have "t \<noteq> Busy" using Some by (auto simp: zone_run_def k(1))
    then obtain a b where ab: "t = Halves a b" using wf_halves(3) t(1) k(1) by metis
    have held: "node_ok H D s1 (Suc k) 0 t" and kids: "kids_ok H D k 0 a b s1" and wf: "wf_zone k a" "wf_zone k b"
      using t(1,3) [unfolded k(1) ab] by (simp_all add: ab kids_ok_def)
    have "(2 :: nat) ^ Suc k \<le> 2 ^ 32" using assms(2) k(1) by (intro power_increasing) simp_all
    then have small: "first_cell H (Suc k) 0 + 2 ^ Suc k \<le> 2 ^ 32" using root(2) by simp
    obtain s2 where s2: "max_seek H D k (left_node 0) s1 = (zone_run k 0 a, s2)" "calm H D k 0 a b s1 s2"
      using child_seeks(1) [OF kids wf root(1) small] root(2) by auto
    obtain s3 where s3: "max_seek H D k (right_node 0) s2 = (zone_run k (2 ^ k) b, s3)" "calm H D k 0 a b s2 s3"
      using child_seeks(2) [OF calm_kids [OF s2(2)] wf root(1) small] root(2) by auto
    have "calm H D k 0 a b s1 s3" by (rule calm_trans [OF s2(2) s3(2)])
    then obtain c where c: "s3 = s1\<lparr>cache_instance := c\<rparr>" "cache_frame (not_inner 0) (cache_instance s1) c" and kids3: "kids_ok H D k 0 a b s3"
      by (auto simp: calm_def)
    have "node_frame H (node_ok H D) (not_inner 0) s1 s3" by (rule cache_only_frame [OF c])
    then have "node_ok H D s3 (Suc k) 0 t" using held root(1) by (auto simp: node_frame_def)
    then have "holds (node_ok H D s3) (H - 1) 0 t" unfolding k(1) using kids3 by (simp add: ab kids_ok_def)
    moreover have "store_ok H D s3" using t(4) c(1) by (simp add: store_ok_def)
    ultimately have "heap_free H D s3 A" using t(1,2) by (auto simp: heap_free_def)
    moreover have "root_leftright_seek H D s = (longer_half (zone_run k 0 a) (zone_run k (2 ^ k) b), s3)"
      using run Some s2(1) s3(1) k(2) by (simp add: root_leftright_seek_def)
    moreover have "A = avail k 0 a \<union> avail k (2 ^ k) b" using t(2) [symmetric, unfolded k(1) ab] by simp
    ultimately show ?thesis using that longer_half_ok [OF wf k(2)] by simp
  qed
qed

section \<open>The invariant\<close>

text \<open>
  A cell of the heap is free in the tree, held for sale, out, or back and not yet returned. \<open>live\<close> are the intervals that are out, \<open>idle\<close>
  the ones the buy agent holds.
\<close>

definition product_cells :: "market_state \<Rightarrow> nat set" where
  "product_cells m = (case buyable_ins m of None \<Rightarrow> {} | Some product \<Rightarrow> interval_cells product)"

definition returned :: "market_state \<Rightarrow> interval list" where
  "returned m = (case sellable_ins m of None \<Rightarrow> [] | Some xs \<Rightarrow> xs)"

definition market_inv :: "nat \<Rightarrow> nat \<Rightarrow> market_state \<Rightarrow> interval list \<Rightarrow> interval list \<Rightarrow> bool" where
  "market_inv H D m live idle \<longleftrightarrow> returned m = map abs_interval idle \<and> disjoint_cells (live @ idle)
     \<and> live_cells (live @ idle) \<union> product_cells m \<subseteq> {0..<2 ^ (H - 1)} \<and> live_cells (live @ idle) \<inter> product_cells m = {}
     \<and> heap_free H D (market_heap m) ({0..<2 ^ (H - 1)} - live_cells (live @ idle) - product_cells m)"

lemma product_cells_simps [simp]:
  "product_cells (m\<lparr>buyable_ins := None\<rparr>) = {}" "product_cells (m\<lparr>buyable_ins := Some product\<rparr>) = interval_cells product"
  "product_cells (m\<lparr>sellable_ins := x\<rparr>) = product_cells m" "product_cells (m\<lparr>market_heap := s\<rparr>) = product_cells m"
  by (simp_all add: product_cells_def)

lemma returned_simps [simp]:
  "returned (m\<lparr>buyable_ins := x\<rparr>) = returned m" "returned (m\<lparr>market_heap := s\<rparr>) = returned m" "returned (m\<lparr>sellable_ins := None\<rparr>) = []"
  "returned (m\<lparr>sellable_ins := Some xs\<rparr>) = xs"
  by (simp_all add: returned_def)

lemma sale_buy_cells:
  assumes "sale_buy sz product = (r, product')"
  shows "r = None \<Longrightarrow> product' = product \<and> (interval_cells product = {} \<or> card (interval_cells product) < sz)"
    and "r = Some rs \<Longrightarrow> 0 < sz \<Longrightarrow> snd (interval_to_relative rs) + 1 = sz \<and> interval_cells product = cells_of (interval_to_relative rs) \<union> interval_cells product'
        \<and> cells_of (interval_to_relative rs) \<inter> interval_cells product' = {}"
  using assms by (auto simp: sale_buy_def is_valid_interval_def interval_span_size_def excl_relative_to_interval_def get_interval_excl_end_def
      interval_to_relative_def interval_cells_def cells_of_def Let_def split: if_splits)

lemma raw_alloc_ok:
  assumes "market_inv H D m live idle" and "0 < sz" and "fast_raw_alloc sz m = (r, m')"
  shows "r = None \<Longrightarrow> m' = m \<and> (product_cells m = {} \<or> card (product_cells m) < sz)"
    and "r = Some iv \<Longrightarrow> snd iv + 1 = sz \<and> market_inv H D m' (iv # live) idle"
proof -
  show "m' = m \<and> (product_cells m = {} \<or> card (product_cells m) < sz)" if "r = None"
    using assms(3) that sale_buy_cells(1) by (fastforce simp: fast_raw_alloc_def product_cells_def split: option.splits prod.splits)
  show "snd iv + 1 = sz \<and> market_inv H D m' (iv # live) idle" if some: "r = Some iv"
  proof -
    obtain product rs product' where p: "buyable_ins m = Some product" "sale_buy sz product = (Some rs, product')" "iv = interval_to_relative rs"
      "m' = m\<lparr>buyable_ins := Some product'\<rparr>"
      using assms(3) some by (auto simp: fast_raw_alloc_def split: option.splits prod.splits)
    note cells = sale_buy_cells(2) [OF p(2) refl assms(2), folded p(3)]
    have "product_cells m = cells_of iv \<union> interval_cells product'" using cells p(1) by (simp add: product_cells_def)
    moreover from this have "{0..<2 ^ (H - 1)} - live_cells (live @ idle) - product_cells m
        = {0..<2 ^ (H - 1)} - live_cells ((iv # live) @ idle) - interval_cells product'" by auto
    ultimately show ?thesis using assms(1) cells unfolding market_inv_def p(4) by auto
  qed
qed

text \<open>Dropping the agents gives back what they hold.\<close>

lemma sync_buyable_ok:
  assumes "market_inv H D m live idle"
  obtains m' where "sync_buyable H D m = Inr m'" "market_inv H D m' live idle" "buyable_ins m' = None"
proof (cases "buyable_ins m")
  case None
  then show ?thesis using that assms by (simp add: sync_buyable_def)
next
  case (Some product)
  let ?N = "{0..<2 ^ (H - 1)}" and ?out = "live_cells (live @ idle)"
  have inv: "heap_free H D (market_heap m) (?N - ?out - interval_cells product)" "?out \<inter> interval_cells product = {}" "interval_cells product \<subseteq> ?N"
    using assms Some by (auto simp: market_inv_def product_cells_def)
  obtain s where s: "contiguous_collector H D (sale_decomission product) (market_heap m) = Inr s" "heap_free H D s (?N - ?out)"
  proof (cases "is_valid_interval product")
    case True
    then have le: "fst product \<le> snd product" by (simp add: is_valid_interval_def)
    then have "snd product \<in> interval_cells product" by (simp add: interval_cells_def)
    then have "snd product < 2 ^ (H - 1)" using inv(3) by auto
    from unblock_free [OF inv(1) le this] obtain s where s: "contiguous_collector H D (sale_decomission product) (market_heap m) = Inr s"
      "heap_free H D s (?N - ?out - interval_cells product \<union> {fst product..snd product})"
      using True by (auto simp: contiguous_collector_def sale_decomission_def)
    have "?N - ?out - interval_cells product \<union> {fst product..snd product} = ?N - ?out" using inv(2,3) by (auto simp: interval_cells_def)
    then show ?thesis using that s by simp
  next
    case False
    then have "interval_cells product = {}" by (auto simp: is_valid_interval_def interval_cells_def)
    then show ?thesis using that [of "market_heap m"] False inv(1) by (simp add: contiguous_collector_def sale_decomission_def)
  qed
  have "market_inv H D (m\<lparr>market_heap := s, buyable_ins := None\<rparr>) live idle" using assms s(2) by (auto simp: market_inv_def)
  then show ?thesis using that Some s(1) by (simp add: sync_buyable_def drop_sale_agent_def)
qed

lemma spawn_buyable_ok:
  assumes "market_inv H D m live idle" and "buyable_ins m = None" and "H \<le> 32"
  obtains m' where "spawn_buyable H D m = Inr m'" "market_inv H D m' live idle"
    "\<And>first n. half_run H ({0..<2 ^ (H - 1)} - live_cells (live @ idle)) first n \<Longrightarrow> n \<le> card (product_cells m')"
proof -
  let ?N = "{0..<2 ^ (H - 1)}" and ?out = "live_cells (live @ idle)"
  have inv: "heap_free H D (market_heap m) (?N - ?out)" using assms(1,2) by (simp add: market_inv_def product_cells_def)
  obtain r s where r: "root_leftright_seek H D (market_heap m) = (r, s)" "broker_answer H (?N - ?out) r" "heap_free H D s (?N - ?out)"
    by (rule root_leftright_seek_ok [OF inv assms(3)])
  show ?thesis
  proof (cases r)
    case None
    have "market_inv H D (m\<lparr>market_heap := s, buyable_ins := None\<rparr>) live idle" using assms(1) r(3) by (auto simp: market_inv_def)
    moreover have "n = 0" if run: "half_run H (?N - ?out) first n" for first n
    proof -
      have "?N - ?out = {}" using r(2) unfolding broker_answer_def None option.case .
      then have "{first..<first + n} \<subseteq> {}" using run by (simp only: half_run_def)
      then show ?thesis by simp
    qed
    ultimately show ?thesis using that [of "m\<lparr>market_heap := s, buyable_ins := None\<rparr>"] r(1) None by (simp add: spawn_buyable_def)
  next
    case (Some intv)
    have iv: "fst intv \<le> snd intv" "{fst intv..snd intv} \<subseteq> ?N - ?out" "\<And>first n. half_run H (?N - ?out) first n \<Longrightarrow> n \<le> interval_span_size intv"
      using r(2) Some by (auto simp: broker_answer_def)
    obtain s' where s': "heap_dispatch_block H (heap_block H D) (heap_update H D) (fst intv, snd intv) s = Inr s'" "heap_free H D s' (?N - ?out - {fst intv..snd intv})"
      by (rule block_free [OF r(3) iv(1,2)])
    let ?m = "m\<lparr>market_heap := s', buyable_ins := Some intv\<rparr>"
    have cells: "product_cells ?m = {fst intv..snd intv}" by (simp add: product_cells_def interval_cells_def)
    have "card (product_cells ?m) = interval_span_size intv" unfolding cells by (simp add: interval_span_size_def Suc_diff_le [OF iv(1)])
    moreover have "market_inv H D ?m live idle" unfolding market_inv_def cells using assms(1) s'(2) iv(2) by (auto simp: market_inv_def)
    ultimately show ?thesis using that [of ?m] r(1) Some s'(1) iv(3) by (simp add: spawn_buyable_def get_sale_broker_def)
  qed
qed

definition still_out :: "interval option \<Rightarrow> interval list \<Rightarrow> interval list" where
  "still_out r live = (case r of None \<Rightarrow> live | Some iv \<Rightarrow> iv # live)"

text \<open>An allocation always returns; it is refused only when no half has that many cells in a row that are neither out nor waiting to be returned.\<close>

definition fast_answer :: "nat \<Rightarrow> nat set \<Rightarrow> nat \<Rightarrow> interval option \<Rightarrow> bool" where
  "fast_answer H A sz r \<longleftrightarrow>
     (case r of None \<Rightarrow> sz = 0 \<or> (\<forall>first. \<not> half_run H A first sz) | Some iv \<Rightarrow> snd iv + 1 = sz)"

lemma fast_alloc_ok:
  assumes "market_inv H D m live idle" and "H \<le> 32"
  obtains r m' where "fast_alloc H D sz m = Inr (r, m')" "market_inv H D m' (still_out r live) idle"
    "fast_answer H ({0..<2 ^ (H - 1)} - live_cells (live @ idle)) sz r"
proof (cases "sz = 0")
  case True
  then show ?thesis using that assms(1) by (simp add: fast_alloc_def still_out_def fast_answer_def)
next
  case False
  then have sz: "0 < sz" by simp
  obtain r1 m1 where 1: "fast_raw_alloc sz m = (r1, m1)" by fastforce
  note raw1 = raw_alloc_ok [OF assms(1) sz 1]
  show ?thesis
  proof (cases r1)
    case (Some iv)
    then show ?thesis using that [of "Some iv" m1] 1 sz raw1(2) by (simp add: fast_alloc_def still_out_def fast_answer_def)
  next
    case None
    have same: "m1 = m" using raw1(1) [OF None] by simp
    obtain m2 where m2: "sync_buyable H D m = Inr m2" "market_inv H D m2 live idle" "buyable_ins m2 = None" by (rule sync_buyable_ok [OF assms(1)]) (rule that)
    obtain m3 where m3: "spawn_buyable H D m2 = Inr m3" "market_inv H D m3 live idle"
      "\<And>first n. half_run H ({0..<2 ^ (H - 1)} - live_cells (live @ idle)) first n \<Longrightarrow> n \<le> card (product_cells m3)"
      by (rule spawn_buyable_ok [OF m2(2,3) assms(2)]) (rule that)
    obtain r4 m4 where 4: "fast_raw_alloc sz m3 = (r4, m4)" by fastforce
    note raw4 = raw_alloc_ok [OF m3(2) sz 4]
    have eval: "fast_alloc H D sz m = Inr (r4, m4)" using 1 None same m2(1) m3(1) 4 sz by (simp add: fast_alloc_def)
    show ?thesis
    proof (cases r4)
      case (Some iv)
      then show ?thesis using that [OF eval] raw4(2) by (simp add: still_out_def fast_answer_def)
    next
      case None
      have "\<not> half_run H ({0..<2 ^ (H - 1)} - live_cells (live @ idle)) first sz" for first
        using m3(3) [of first sz] raw4(1) [OF None] sz by auto
      then show ?thesis using that [OF eval] raw4(1) [OF None] m3(2) None by (simp add: still_out_def fast_answer_def)
    qed
  qed
qed

section \<open>Freeing\<close>

lemma raw_free_ok:
  assumes "market_inv H D m live idle" and "H \<le> 32" and "iv \<in> set live" and "fast_raw_free lim iv m = (sold, m')"
  shows "\<not> sold \<Longrightarrow> m' = m \<and> (sellable_ins m = None \<or> length idle = lim)"
    and "sold \<Longrightarrow> market_inv H D m' (remove1 iv live) (idle @ [iv])"
proof -
  have "fst iv + snd iv \<in> cells_of iv" by (simp add: cells_of_def)
  then have "fst iv + snd iv \<in> live_cells (live @ idle)" using assms(3) by (auto simp: live_cells_def)
  then have "fst iv + snd iv < 2 ^ (H - 1)" using assms(1) by (auto simp: market_inv_def)
  moreover have "(2 :: nat) ^ (H - 1) \<le> 2 ^ 32" using assms(2) by (intro power_increasing) simp_all
  ultimately have rel: "relative_to_interval iv = abs_interval iv" by (simp add: relative_to_interval_def abs_interval_def)
  have len: "length container = length idle" if "sellable_ins m = Some container" for container
    using assms(1) that by (simp add: market_inv_def returned_def)
  show "m' = m \<and> (sellable_ins m = None \<or> length idle = lim)" if "\<not> sold"
    using assms(4) that len by (auto simp: fast_raw_free_def buy_sell_def split: option.splits if_splits)
  show "market_inv H D m' (remove1 iv live) (idle @ [iv])" if sell: "sold"
  proof -
    obtain container where c: "sellable_ins m = Some container" "m' = m\<lparr>sellable_ins := Some (container @ [abs_interval iv])\<rparr>"
      using assms(4) sell rel by (auto simp: fast_raw_free_def buy_sell_def split: option.splits if_splits)
    have perm: "mset (remove1 iv live @ idle @ [iv]) = mset (live @ idle)" using assms(3) by simp
    note same = live_cells_mset [OF perm] disjoint_cells_mset [OF perm]
    have "container = map abs_interval idle" using assms(1) c(1) by (simp add: market_inv_def returned_def)
    then show ?thesis using assms(1) unfolding market_inv_def c(2) same by simp
  qed
qed

lemma sync_sellable_ok:
  assumes "market_inv H D m live idle" and "H \<le> 32"
  obtains m' where "sync_sellable H D m = Inr m'" "market_inv H D m' live []"
proof (cases "idle = []")
  case True
  show ?thesis
  proof (cases "sellable_ins m")
    case None
    then show ?thesis using that assms(1) True by (simp add: sync_sellable_def)
  next
    case (Some container)
    then have "container = []" using assms(1) True by (simp add: market_inv_def returned_def)
    then show ?thesis using that [of "m\<lparr>market_heap := market_heap m, sellable_ins := None\<rparr>"] assms(1) True Some
      by (simp add: sync_sellable_def drop_buy_agent_def fragmented_collector_def market_inv_def)
  qed
next
  case False
  let ?N = "{0..<2 ^ (H - 1)}" and ?A = "{0..<2 ^ (H - 1)} - live_cells (live @ idle) - product_cells m"
  have inv: "heap_free H D (market_heap m) ?A" "disjoint_cells (live @ idle)" "live_cells (live @ idle) \<subseteq> ?N" "live_cells (live @ idle) \<inter> product_cells m = {}"
    "returned m = map abs_interval idle" using assms(1) by (auto simp: market_inv_def)
  have container: "sellable_ins m = Some (map abs_interval idle)" using inv(5) False by (auto simp: returned_def split: option.splits)
  have part: "disjoint_cells idle" "live_cells idle \<subseteq> ?N" using disjoint_append_left [OF inv(2)] inv(3) by auto
  obtain s where s: "fragmented_collector H D (map abs_interval idle) (market_heap m) = Inr s" "heap_free H D s (?A \<union> live_cells idle)"
    by (rule batch_free [OF inv(1) assms(2) part])
  have "live_cells live \<inter> live_cells idle = {}" using inv(2) by (induction live) auto
  then have "?A \<union> live_cells idle = ?N - live_cells live - product_cells m" using part(2) inv(4) by auto
  moreover have "disjoint_cells (idle @ live)" using inv(2) disjoint_cells_mset [of "idle @ live" "live @ idle"] by simp
  ultimately have "market_inv H D (m\<lparr>market_heap := s, sellable_ins := None\<rparr>) live []"
    using assms(1) s(2) disjoint_append_left [of idle live] by (auto simp: market_inv_def)
  then show ?thesis using that container s(1) by (simp add: sync_sellable_def drop_buy_agent_def)
qed

lemma spawn_sellable_ok: "market_inv H D m live [] \<Longrightarrow> market_inv H D (spawn_sellable m) live []"
  by (simp add: market_inv_def spawn_sellable_def)

text \<open>A free never aborts; what comes back stays with the buy agent until it is full.\<close>

lemma fast_free_ok:
  assumes "market_inv H D m live idle" and "H \<le> 32" and "iv \<in> set live" and "0 < lim"
  obtains m' idle' where "fast_free H D lim iv m = Inr m'" "market_inv H D m' (remove1 iv live) idle'"
    "idle' = idle @ [iv] \<or> length idle = lim \<and> idle' = [iv]"
proof -
  obtain sold m1 where 1: "fast_raw_free lim iv m = (sold, m1)" by fastforce
  note raw1 = raw_free_ok [OF assms(1-3) 1]
  show ?thesis
  proof (cases sold)
    case True
    then show ?thesis using that 1 raw1(2) by (simp add: fast_free_def)
  next
    case False
    have same: "m1 = m" and why: "sellable_ins m = None \<or> length idle = lim" using raw1(1) [OF False] by simp_all
    obtain m2 where m2: "sync_sellable H D m = Inr m2" "market_inv H D m2 live []" by (rule sync_sellable_ok [OF assms(1,2)])
    obtain sold3 m3 where 3: "fast_raw_free lim iv (spawn_sellable m2) = (sold3, m3)" by fastforce
    note raw3 = raw_free_ok [OF spawn_sellable_ok [OF m2(2)] assms(2,3) 3]
    have sold3: "sold3" using raw3(1) assms(4) by (auto simp: spawn_sellable_def)
    have "idle = []" if "sellable_ins m = None" using assms(1) that by (simp add: market_inv_def returned_def)
    then have "[iv] = idle @ [iv] \<or> length idle = lim \<and> [iv] = [iv]" using why by auto
    moreover have "fast_free H D lim iv m = Inr m3" using 1 False same m2(1) 3 sold3 by (simp add: fast_free_def)
    ultimately show ?thesis using that [of m3 "[iv]"] raw3(2) [OF sold3] by simp
  qed
qed

section \<open>Runs\<close>

text \<open>The states of an allocator that begins with a heap of its own: the intervals that are out, and all that ever were.\<close>

definition fresh_market :: "heap_store \<Rightarrow> market_state" where
  "fresh_market s = \<lparr>market_heap = s, buyable_ins = None, sellable_ins = None\<rparr>"

inductive market_reach :: "nat \<Rightarrow> nat \<Rightarrow> nat \<Rightarrow> market_state \<Rightarrow> interval list \<Rightarrow> interval list \<Rightarrow> bool" for H D lim where
  made: "store_ok H D s0 \<Longrightarrow> defaultize_heap H D s0 = Inr s \<Longrightarrow> market_reach H D lim (fresh_market s) [] []"
| bought: "market_reach H D lim m live given \<Longrightarrow> fast_alloc H D sz m = Inr (Some iv, m') \<Longrightarrow> market_reach H D lim m' (iv # live) (iv # given)"
| refused: "market_reach H D lim m live given \<Longrightarrow> fast_alloc H D sz m = Inr (None, m') \<Longrightarrow> market_reach H D lim m' live given"
| freed: "market_reach H D lim m live given \<Longrightarrow> iv \<in> set live \<Longrightarrow> fast_free H D lim iv m = Inr m' \<Longrightarrow> market_reach H D lim m' (remove1 iv live) given"

lemma fresh_market_inv: "heap_free H D s {0..<2 ^ (H - 1)} \<Longrightarrow> market_inv H D (fresh_market s) [] []"
  by (simp add: market_inv_def fresh_market_def returned_def product_cells_def)

text \<open>With room for as many intervals as the heap has cells, nothing that came back is ever returned to the tree.\<close>

lemma market_reach_inv:
  assumes "market_reach H D lim m live given" and "H \<le> 32" and "0 < lim"
  shows "\<exists>idle. market_inv H D m live idle \<and> (2 ^ (H - 1) \<le> lim \<longrightarrow> mset given = mset (live @ idle))"
  using assms
proof (induction rule: market_reach.induct)
  case (made s0 s)
  then have "heap_free H D s {0..<2 ^ (H - 1)}" using defaultize_spec [OF made.hyps(1)] by auto
  then show ?case using fresh_market_inv by (intro exI [of _ "[]"]) simp
next
  case (bought m live given sz iv m')
  then obtain idle where idle: "market_inv H D m live idle" "2 ^ (H - 1) \<le> lim \<longrightarrow> mset given = mset (live @ idle)" by auto
  obtain r m1 where "fast_alloc H D sz m = Inr (r, m1)" "market_inv H D m1 (still_out r live) idle" by (rule fast_alloc_ok [OF idle(1) assms(2)])
  then show ?case using bought.hyps(2) idle(2) by (intro exI [of _ idle]) (auto simp: still_out_def)
next
  case (refused m live given sz m')
  then obtain idle where idle: "market_inv H D m live idle" "2 ^ (H - 1) \<le> lim \<longrightarrow> mset given = mset (live @ idle)" by auto
  obtain r m1 where "fast_alloc H D sz m = Inr (r, m1)" "market_inv H D m1 (still_out r live) idle" by (rule fast_alloc_ok [OF idle(1) assms(2)])
  then show ?case using refused.hyps(2) idle(2) by (intro exI [of _ idle]) (auto simp: still_out_def)
next
  case (freed m live given iv m')
  then obtain idle where idle: "market_inv H D m live idle" "2 ^ (H - 1) \<le> lim \<longrightarrow> mset given = mset (live @ idle)" by auto
  obtain m1 idle' where m1: "fast_free H D lim iv m = Inr m1" "market_inv H D m1 (remove1 iv live) idle'"
    "idle' = idle @ [iv] \<or> length idle = lim \<and> idle' = [iv]" by (rule fast_free_ok [OF idle(1) assms(2) freed.hyps(2) assms(3)])
  have "length idle < lim" if "2 ^ (H - 1) \<le> lim"
  proof -
    have "total_size (live @ idle) \<le> 2 ^ (H - 1)" by (rule disjoint_within) (use idle(1) in \<open>auto simp: market_inv_def\<close>)
    then have "length live + length idle \<le> 2 ^ (H - 1)" using length_total [of "live @ idle"] by simp
    moreover have "0 < length live" using freed.hyps(2) by (cases live) simp_all
    ultimately show ?thesis using that by linarith
  qed
  then have "mset given = mset (remove1 iv live @ idle')" if "2 ^ (H - 1) \<le> lim" using m1(3) idle(2) that freed.hyps(2) by auto
  then show ?case using m1 freed.hyps(3) by auto
qed

end
