(* ===== verification/Heap_Properties.thy ===== *)
theory Heap_Properties
  imports Heap_Market
begin

text \<open>
  What the heap of \<open>dg_heap/heap.h\<close> promises: the direct allocator over the set of free cells, the shrinker, the batch unblock and the caching allocator.
  The witnesses use the heights of the code: twelve levels (\<open>limits::MIN_HEAP_HEIGHT\<close>), the upper eight of them stored.
\<close>

section \<open>A heap to begin with\<close>

text \<open>A buffer of zeros of the right sizes.\<close>

definition blank_store :: "nat \<Rightarrow> nat \<Rightarrow> heap_store" where
  "blank_store H D = \<lparr>node_container = replicate (heap_node_count D) empty_node, traceback_store = replicate (bool_array_size H) 0,
     cache_instance = \<lparr>cache_entries = [], cache_capacity = 512\<rparr>\<rparr>"

lemma blank_ok: "store_ok 12 8 (blank_store 12 8)"
  by (simp add: store_ok_def blank_store_def)

lemma new_heap: "\<exists>s. defaultize_heap 12 8 (blank_store 12 8) = Inr s \<and> heap_free 12 8 s {0..<2048}"
  using defaultize_spec [OF blank_ok] by simp

lemma whole_run:
  assumes "longest_run {0..<n} first len" and "0 < n"
  shows "first = 0 \<and> len = n"
proof -
  have "n \<le> len" using assms(1) unfolding longest_run_def by (metis add_0 atLeastLessThan_iff)
  then have "first + len - 1 \<in> {0..<n}" using assms by (auto simp: longest_run_def)
  then show ?thesis using \<open>n \<le> len\<close> assms(2) by auto
qed

lemma first_answer: "alloc_answer {0..<2048} 1000 r \<Longrightarrow> r = Some (0, 999)"
  using whole_run [of 2048] by (fastforce simp: alloc_answer_def split: option.splits)

section \<open>The direct allocator\<close>

text \<open>
  C5: DirectAllocator::alloc implements the set of the free cells: on every heap it returns, gives out the first cells of a longest run of free cells
  when that is long enough and else nothing, and afterwards exactly the cells given out are no longer free.
\<close>

theorem heap_alloc_refines:
  assumes "heap_free H D s A" and "H \<le> 32"
  shows "\<exists>r s'. direct_alloc H D sz s = Inr (r, s') \<and> alloc_answer A sz r \<and> taken_cells r \<subseteq> A \<and> heap_free H D s' (A - taken_cells r)"
  by (rule direct_alloc_spec [OF assms])

theorem heap_alloc_refines_witness:
  "\<exists>s s'. heap_free 12 8 s {0..<2048} \<and> direct_alloc 12 8 1000 s = Inr (Some (0, 999), s') \<and> heap_free 12 8 s' ({0..<2048} - {0..999})"
proof -
  obtain s where s: "heap_free 12 8 s {0..<2048}" using new_heap by blast
  obtain r s' where r: "direct_alloc 12 8 1000 s = Inr (r, s')" "alloc_answer {0..<2048} 1000 r" "heap_free 12 8 s' ({0..<2048} - taken_cells r)"
    using heap_alloc_refines [OF s, of 1000] by auto
  have "r = Some (0, 999)" by (rule first_answer [OF r(2)])
  then show ?thesis using s r by (auto simp: taken_cells_def cells_of_def)
qed

text \<open>
  C9: DirectAllocator::free of any interval inside the heap returns and makes exactly its cells free, whether they were taken one by one, together
  or not at all.
\<close>

theorem heap_free_refines:
  assumes "heap_free H D s A" and "H \<le> 32" and "fst iv + snd iv < 2 ^ (H - 1)"
  shows "\<exists>s'. direct_free H D iv s = Inr s' \<and> heap_free H D s' (A \<union> cells_of iv)"
  by (rule direct_free_spec [OF assms])

theorem heap_free_refines_witness:
  "\<exists>s s'. heap_free 12 8 s {0..<2048} \<and> direct_free 12 8 (5, 10) s = Inr s' \<and> heap_free 12 8 s' ({0..<2048} \<union> cells_of (5, 10))"
proof -
  obtain s where s: "heap_free 12 8 s {0..<2048}" using new_heap by blast
  then show ?thesis using heap_free_refines [OF s, of "(5, 10)"] by auto
qed

text \<open>
  C6: In every run of allocations and frees the intervals that are out are disjoint and inside the heap, the free cells are exactly the others, and
  the allocator always returns: no call ends in an abort.
\<close>

theorem heap_runs_disjoint:
  assumes "heap_reach H D s live" and "H \<le> 32"
  shows "disjoint_cells live \<and> live_cells live \<subseteq> {0..<2 ^ (H - 1)} \<and> heap_free H D s ({0..<2 ^ (H - 1)} - live_cells live)
    \<and> (\<forall>sz. \<exists>r s'. direct_alloc H D sz s = Inr (r, s')) \<and> (\<forall>iv \<in> set live. \<exists>s'. direct_free H D iv s = Inr s')"
proof -
  note inv = heap_reach_inv [OF assms]
  have "\<exists>s'. direct_free H D iv s = Inr s'" if "iv \<in> set live" for iv
  proof -
    have "fst iv + snd iv \<in> cells_of iv" by (simp add: cells_of_def)
    then have "fst iv + snd iv < 2 ^ (H - 1)" using inv that by (fastforce simp: live_cells_def)
    then show ?thesis using direct_free_spec [of H D s _ iv] inv assms(2) by blast
  qed
  moreover have "\<exists>r s'. direct_alloc H D sz s = Inr (r, s')" for sz using direct_alloc_spec [of H D s _ sz] inv assms(2) by blast
  ultimately show ?thesis using inv by blast
qed

theorem heap_runs_disjoint_witness:
  "\<exists>s. heap_reach 12 8 s [(0, 999)] \<and> heap_free 12 8 s ({0..<2048} - {0..999}) \<and> (\<exists>s'. direct_free 12 8 (0, 999) s = Inr s')"
proof -
  obtain s where s: "defaultize_heap 12 8 (blank_store 12 8) = Inr s" "heap_free 12 8 s {0..<2048}" using new_heap by blast
  obtain r s' where r: "direct_alloc 12 8 1000 s = Inr (r, s')" "alloc_answer {0..<2048} 1000 r" using direct_alloc_spec [OF s(2), of 1000] by auto
  have "r = Some (0, 999)" by (rule first_answer [OF r(2)])
  then have reach: "heap_reach 12 8 s' [(0, 999)]" using heap_reach.allocated [OF heap_reach.made [OF blank_ok s(1)]] r(1) by simp
  from heap_runs_disjoint [OF reach] show ?thesis using reach by (auto simp: cells_of_def)
qed

text \<open>
  C15: What alloc returns depends on the free cells alone: two heaps with the same free cells answer alike, whatever their caches hold, however many
  of their levels are stored and however the taken cells came to be blocked.
\<close>

theorem heap_alloc_canonical:
  assumes "heap_free H D s A" and "heap_free H D' s' A" and "H \<le> 32"
  shows "\<exists>r t t'. direct_alloc H D sz s = Inr (r, t) \<and> direct_alloc H D' sz s' = Inr (r, t')
    \<and> heap_free H D t (A - taken_cells r) \<and> heap_free H D' t' (A - taken_cells r)"
proof -
  obtain z t where z: "wf_zone (H - 1) z" "avail (H - 1) 0 z = A" "direct_alloc H D sz s = Inr (zone_answer (H - 1) z sz, t)"
    "heap_free H D t (A - taken_cells (zone_answer (H - 1) z sz))" by (rule direct_alloc_eval [OF assms(1,3)])
  obtain z' t' where z': "wf_zone (H - 1) z'" "avail (H - 1) 0 z' = A" "direct_alloc H D' sz s' = Inr (zone_answer (H - 1) z' sz, t')"
    "heap_free H D' t' (A - taken_cells (zone_answer (H - 1) z' sz))" by (rule direct_alloc_eval [OF assms(2,3)])
  have same: "avail (H - 1) 0 z = avail (H - 1) 0 z'" using z(2) z'(2) by simp
  note span = zone_numbers(3) [OF z(1) z'(1) same] and offs = zone_offset [OF z(1) z'(1) same]
  have "zone_answer (H - 1) z sz = zone_answer (H - 1) z' sz" using span offs by (cases "cfree (H - 1) z = 0") (auto simp: zone_answer_def)
  then show ?thesis using z z' by auto
qed

theorem heap_alloc_canonical_witness:
  "\<exists>s s' r t t'. heap_free 12 8 s {0..<2048} \<and> heap_free 12 3 s' {0..<2048} \<and> direct_alloc 12 8 7 s = Inr (r, t) \<and> direct_alloc 12 3 7 s' = Inr (r, t')"
proof -
  obtain s where s: "heap_free 12 8 s {0..<2048}" using new_heap by blast
  have "store_ok 12 3 (blank_store 12 3)" by (simp add: store_ok_def blank_store_def)
  from defaultize_spec [OF this] obtain s' where s': "heap_free 12 3 s' {0..<2048}" by auto
  from heap_alloc_canonical [OF s s', of 7] show ?thesis using s s' by auto
qed

section \<open>Shrinking\<close>

text \<open>
  C21: StdShrinker::shrink takes exactly the free cells at the end of the heap away, as many as there are, and unshrink with the base it returned
  gives exactly these back.
\<close>

theorem heap_shrink_roundtrip:
  assumes "heap_free H D s A" and "H \<le> 32"
  shows "\<exists>vb s1 s2. shrink_heap H D s = Inr (vb, s1) \<and> vb \<le> 2 ^ (H - 1) \<and> {vb..<2 ^ (H - 1)} \<subseteq> A \<and> (0 < vb \<longrightarrow> vb - 1 \<notin> A)
    \<and> heap_free H D s1 (A \<inter> {..<vb}) \<and> unshrink_heap H D vb s1 = Inr s2 \<and> heap_free H D s2 A"
proof -
  obtain vb s0 where vb: "get_most_compact_virtual_base H D s = (vb, s0)" "heap_free H D s0 A" "vb \<le> 2 ^ (H - 1)" "{vb..<2 ^ (H - 1)} \<subseteq> A"
    "0 < vb \<Longrightarrow> vb - 1 \<notin> A" by (rule compact_base_ok [OF assms]) (rule that)
  obtain s1 where s1: "shrink_to H D vb s0 = Inr s1" "heap_free H D s1 (A \<inter> {..<vb})" using shrink_to_ok [OF vb(2-4)] by blast
  obtain s2 where s2: "unshrink_heap H D vb s1 = Inr s2" "heap_free H D s2 (A \<inter> {..<vb} \<union> {vb..<2 ^ (H - 1)})" using unshrink_ok [OF s1(2) vb(3)] by blast
  have "A \<inter> {..<vb} \<union> {vb..<2 ^ (H - 1)} = A" using vb(4) heap_free_bound [OF assms(1)] by auto
  then show ?thesis using vb s1 s2 by (auto simp: shrink_heap_def)
qed

theorem heap_shrink_roundtrip_witness:
  "\<exists>s s1. heap_free 12 8 s {0..<2048} \<and> shrink_heap 12 8 s = Inr (0, s1) \<and> heap_free 12 8 s1 {}"
proof -
  obtain s where s: "heap_free 12 8 s {0..<2048}" using new_heap by blast
  obtain vb s1 where vb: "shrink_heap 12 8 s = Inr (vb, s1)" "vb \<le> 2048" "0 < vb \<longrightarrow> vb - 1 \<notin> {0..<2048}" "heap_free 12 8 s1 ({0..<2048} \<inter> {..<vb})"
    using heap_shrink_roundtrip [OF s] by auto
  have "vb = 0" using vb(2,3) by auto
  then show ?thesis using s vb by auto
qed

section \<open>Returning many intervals at once\<close>

text \<open>One free after the other.\<close>

fun free_each :: "nat \<Rightarrow> nat \<Rightarrow> interval list \<Rightarrow> heap_store \<Rightarrow> heap_store result" where
  "free_each H D [] s = Inr s"
| "free_each H D (iv # ivs) s = bindR (direct_free H D iv s) (free_each H D ivs)"

lemma free_each_ok:
  assumes "heap_free H D s A" and "H \<le> 32" and "live_cells xs \<subseteq> {0..<2 ^ (H - 1)}"
  shows "\<exists>s'. free_each H D xs s = Inr s' \<and> heap_free H D s' (A \<union> live_cells xs)"
  using assms
proof (induction xs arbitrary: s A)
  case (Cons iv xs)
  have "fst iv + snd iv \<in> cells_of iv" by (simp add: cells_of_def)
  then have "fst iv + snd iv < 2 ^ (H - 1)" using Cons.prems(3) by auto
  then obtain s1 where s1: "direct_free H D iv s = Inr s1" "heap_free H D s1 (A \<union> cells_of iv)" using direct_free_spec [OF Cons.prems(1,2)] by blast
  from Cons.IH [OF s1(2) Cons.prems(2)] show ?case using Cons.prems(3) s1(1) by (auto simp: Un_assoc)
qed simp

text \<open>
  C10: PartialBatchUnblockDispatcher, which sorts the intervals, cuts them at every node by binary search and merges neighbours, frees the same cells
  in its one traversal as DirectAllocator::free does interval by interval.
\<close>

theorem batch_unblock_equiv:
  assumes "heap_free H D s A" and "H \<le> 32" and "disjoint_cells xs" and "live_cells xs \<subseteq> {0..<2 ^ (H - 1)}"
  shows "\<exists>s1 s2. fragmented_collector H D (map relative_to_interval xs) s = Inr s1 \<and> free_each H D xs s = Inr s2
    \<and> heap_free H D s1 (A \<union> live_cells xs) \<and> heap_free H D s2 (A \<union> live_cells xs)"
proof -
  have pow: "(2 :: nat) ^ (H - 1) \<le> 2 ^ 32" using assms(2) by (intro power_increasing) simp_all
  have "relative_to_interval iv = abs_interval iv" if "iv \<in> set xs" for iv
  proof -
    have "fst iv + snd iv \<in> cells_of iv" by (simp add: cells_of_def)
    then have "fst iv + snd iv < 2 ^ 32" using assms(4) that pow by (fastforce simp: live_cells_def)
    then show ?thesis by (simp add: relative_to_interval_def abs_interval_def)
  qed
  then have rel: "map relative_to_interval xs = map abs_interval xs" by simp
  obtain s1 where "fragmented_collector H D (map abs_interval xs) s = Inr s1" "heap_free H D s1 (A \<union> live_cells xs)" by (rule batch_free [OF assms])
  moreover obtain s2 where "free_each H D xs s = Inr s2" "heap_free H D s2 (A \<union> live_cells xs)" using free_each_ok [OF assms(1,2,4)] by blast
  ultimately show ?thesis unfolding rel by blast
qed

theorem batch_unblock_equiv_witness:
  "\<exists>s s1. heap_free 12 8 s {0..<2048} \<and> fragmented_collector 12 8 (map relative_to_interval [(9, 3), (2, 4), (7, 1)]) s = Inr s1
     \<and> heap_free 12 8 s1 ({0..<2048} \<union> live_cells [(9, 3), (2, 4), (7, 1)])"
proof -
  obtain s where s: "heap_free 12 8 s {0..<2048}" using new_heap by blast
  have "disjoint_cells [(9, 3), (2, 4), (7, 1)]" "live_cells [(9, 3), (2, 4), (7, 1)] \<subseteq> {0..<2 ^ (12 - 1)}"
    by (auto simp: cells_of_def)
  from batch_unblock_equiv [OF s _ this] s show ?thesis by auto
qed

section \<open>The caching allocator\<close>

text \<open>
  C13: In every run of FastAllocator, whatever the capacity of its buy agent, the intervals that are out are disjoint and inside the heap, alloc always
  returns, and free of an interval that is out never reaches the abort.
\<close>

theorem fast_allocator_safe:
  assumes "market_reach H D lim m live given" and "H \<le> 32" and "0 < lim"
  shows "disjoint_cells live \<and> live_cells live \<subseteq> {0..<2 ^ (H - 1)} \<and> (\<forall>sz. \<exists>r m'. fast_alloc H D sz m = Inr (r, m'))
    \<and> (\<forall>iv \<in> set live. \<exists>m'. fast_free H D lim iv m = Inr m')"
proof -
  obtain idle where inv: "market_inv H D m live idle" using market_reach_inv [OF assms] by blast
  have "disjoint_cells (idle @ live)" using inv disjoint_cells_mset [of "idle @ live" "live @ idle"] by (simp add: market_inv_def)
  then have "disjoint_cells live" by (rule disjoint_append_left)
  moreover have "\<exists>r m'. fast_alloc H D sz m = Inr (r, m')" for sz by (rule fast_alloc_ok [OF inv assms(2), of sz]) blast
  moreover have "\<exists>m'. fast_free H D lim iv m = Inr m'" if "iv \<in> set live" for iv by (rule fast_free_ok [OF inv assms(2) that assms(3)]) blast
  ultimately show ?thesis using inv by (auto simp: market_inv_def)
qed

lemma first_sale: "\<exists>m iv. market_reach 12 8 lim m [iv] [iv]"
proof -
  obtain s where s: "defaultize_heap 12 8 (blank_store 12 8) = Inr s" "heap_free 12 8 s {0..<2048}" using new_heap by blast
  have reach: "market_reach 12 8 lim (fresh_market s) [] []" by (rule market_reach.made [OF blank_ok s(1)])
  have inv: "market_inv 12 8 (fresh_market s) [] []" by (rule fresh_market_inv) (use s(2) in simp)
  obtain r m where r: "fast_alloc 12 8 1 (fresh_market s) = Inr (r, m)" "fast_answer 12 ({0..<2 ^ (12 - 1)} - live_cells ([] @ [])) 1 r"
    by (rule fast_alloc_ok [OF inv, of 1]) simp_all
  have "half_run 12 {0..<2048} 0 1" by (auto simp: half_run_def)
  then obtain iv where "r = Some iv" using r(2) by (cases r) (auto simp: fast_answer_def)
  then show ?thesis using market_reach.bought [OF reach] r(1) by blast
qed

theorem fast_allocator_safe_witness:
  "\<exists>m iv. market_reach 12 8 3 m [iv] [iv] \<and> live_cells [iv] \<subseteq> {0..<2048} \<and> (\<exists>m'. fast_free 12 8 3 iv m = Inr m')"
proof -
  obtain m iv where m: "market_reach 12 8 3 m [iv] [iv]" using first_sale by blast
  have "live_cells [iv] \<subseteq> {0..<2048}" "\<exists>m'. fast_free 12 8 3 iv m = Inr m'" using fast_allocator_safe [OF m] by simp_all
  then show ?thesis using m by blast
qed

text \<open>
  C36: With the capacity the code gives the buy agent (\<open>BUY_LIM\<close>, 32768) and a heap of at most that many cells, as all the heaps the code makes are,
  no cell is ever given out twice, freed or not; once as many cells have been given out as the heap has, every later alloc returns nothing.
\<close>

theorem fast_allocator_never_recycles:
  assumes "market_reach H D BUY_LIM m live given" and "H \<le> 16"
  shows "disjoint_cells given \<and> total_size given \<le> 2 ^ (H - 1)
    \<and> (total_size given = 2 ^ (H - 1) \<longrightarrow> (\<forall>sz. \<exists>m'. fast_alloc H D sz m = Inr (None, m')))"
proof -
  have lim: "0 < BUY_LIM" "2 ^ (H - 1) \<le> BUY_LIM" "H \<le> 32" using assms(2) power_increasing [of "H - 1" 15 "2 :: nat"] by (simp_all add: BUY_LIM_def)
  have given: "disjoint_cells given' \<and> total_size given' \<le> 2 ^ (H - 1)" if run: "market_reach H D BUY_LIM m' live' given'" for m' live' given'
  proof -
    obtain idle where inv: "market_inv H D m' live' idle" and perm: "mset given' = mset (live' @ idle)"
      using market_reach_inv [OF run lim(3,1)] lim(2) by blast
    have "disjoint_cells given'" "live_cells given' \<subseteq> {0..<2 ^ (H - 1)}"
      using inv disjoint_cells_mset [OF perm] live_cells_mset [OF perm] by (simp_all add: market_inv_def)
    then show ?thesis by (simp add: disjoint_within)
  qed
  have "\<exists>m'. fast_alloc H D sz m = Inr (None, m')" if full: "total_size given = 2 ^ (H - 1)" for sz
  proof -
    obtain idle where inv: "market_inv H D m live idle" using market_reach_inv [OF assms(1) lim(3,1)] by blast
    obtain r m' where r: "fast_alloc H D sz m = Inr (r, m')" by (rule fast_alloc_ok [OF inv lim(3), of sz]) blast
    have "r = None"
    proof (cases r)
      case (Some iv)
      then have "market_reach H D BUY_LIM m' (iv # live) (iv # given)" using market_reach.bought [OF assms(1)] r by simp
      then have "total_size (iv # given) \<le> 2 ^ (H - 1)" using given by blast
      then show ?thesis using full by (simp add: total_size_def)
    qed
    then show ?thesis using r by simp
  qed
  then show ?thesis using given [OF assms(1)] by blast
qed

theorem fast_allocator_never_recycles_witness:
  "\<exists>m iv. market_reach 12 8 BUY_LIM m [iv] [iv] \<and> disjoint_cells [iv] \<and> total_size [iv] \<le> 2048"
proof -
  obtain m iv where m: "market_reach 12 8 BUY_LIM m [iv] [iv]" using first_sale by blast
  have "disjoint_cells [iv]" "total_size [iv] \<le> 2048" using fast_allocator_never_recycles [OF m] by simp_all
  then show ?thesis using m by blast
qed

end
