(* ===== verification/Spec2Isabelle.thy ===== *)
theory Spec2Isabelle
  imports Serializer_Properties Generic_Encoder Trivial_Serializer Short_Heap Key_Heap Taint_Interval_Tree Bounded_Queue
    Huffman_Properties Compressed_Serializer Packet_Service Border_Control Ticket_Timeout
    Node_Map_Refinement Heap_Properties
begin

text \<open>
  A verification library for the core of this C++ repository: how it stores objects as bytes, how it sends packets, and the containers,
  queues and heaps this rests on. Every definition translates the function, class or member its theory names; \<open>PROJECT.json\<close> lists the lines. What
  throws, aborts or has no meaning in C++ is an \<open>Inl\<close> of type \<open>error\<close> (theory \<open>Prelude\<close>), a function of type \<open>std::expected\<close> gives a sum with its error code
  inside that result, and a loop that might not end is a \<open>partial_function (option)\<close> whose \<open>None\<close> is not returning; that it returns is then part of the theorems.

  \<^bold>\<open>Serialization\<close> (\<open>serializer/\<close>). \<open>Serial_Types\<close> and \<open>Safe_Cast\<close> hold what the overloads are selected by: static types, objects, arithmetic
  representations, conversions. \<open>Compact_Forward\<close>, \<open>Compact_Backward\<close> and \<open>Compact_Frames\<close> are \<open>compact_serializer.h\<close> (archives and the frames with a digest),
  \<open>Dgstd_Archive\<close>, \<open>Dgstd_Reading\<close> and \<open>Dgstd_Typing\<close> its self-describing archive, \<open>Trivial_Serializer\<close> is \<open>trivial_serializer.h\<close>. \<open>Archive_Interface\<close> states the
  contracts as locales, \<open>Serializer_Properties\<close> the results: every writer is undone by its reader, the checked readers stay inside their buffers on
  arbitrary bytes, a frame is accepted only with its digest. \<open>Huffman_Bits\<close>, \<open>Huffman_Tree\<close>, \<open>Huffman_Engine\<close>, \<open>Huffman_Stream\<close>, \<open>Huffman_Build\<close> and
  \<open>Huffman_Properties\<close> are \<open>huffman_encoder.h\<close>; \<open>Compressed_Serializer\<close> is \<open>compressed_serializer.h\<close> on top of both. A message shorter than 12586269025 bytes, the
  Fibonacci bound of \<open>Huffman_Build\<close>, has codes of at most 48 bits, what a \<open>bit_array\<close> needs. The loop of the decoder has no bound in the code: it ends inside its
  buffer exactly on the streams that spell a message up to the delimiter (\<open>huffman_decode_exact\<close>), and reads on otherwise, which is the error \<open>Out_of_bounds\<close> here. \<open>Hex_Encoder\<close> and \<open>Generic_Encoder\<close> are \<open>global_string_encoder/\<close>.

  \<^bold>\<open>Heaps and intervals.\<close> \<open>Heap_Order\<close> is the order both heaps share, \<open>Short_Heap\<close> is \<open>algorithm_extension/short_heap.h\<close> (sorting and selection included), \<open>Key_Heap\<close> is
  \<open>memory_management/key_heap.h\<close> with the aliasing between its nodes and its map as an explicit store, \<open>Taint_Interval_Tree\<close> is
  \<open>memory_sync/taint_interval_tree.h\<close>.

  \<^bold>\<open>The persistent heap\<close> (\<open>dg_heap/heap.h\<close>, \<open>crtpboolvector.h\<close>). The heap hands out intervals of the cells below \<open>2 ^ (H - 1)\<close> from a binary tree of \<open>H\<close> levels; the upper
  \<open>D\<close> levels store their numbers in nodes, the levels below only a few bits that say where the numbers come from, and a cache. \<open>Heap_Zone\<close> is what the tree means: zones of free
  and blocked cells and their longest runs. \<open>Heap_Bits\<close> is the bit vector and the traces, \<open>Heap_Storage\<close> intervals, nodes and the cache (\<open>TraceBackCacheOperator\<close>),
  \<open>Heap_Reading\<close> that every read returns the number of the zone whatever the cache holds. \<open>Heap_Interface\<close> has the traversals and dispatchers over the operations of a node and the
  locale \<open>heap_operatable\<close> of their laws, \<open>Heap_Batch\<close> the unblocking of many intervals at once inside it; \<open>Heap_Operator\<close> is \<open>StdHeapOperator\<close>, \<open>Heap_Update\<close> its laws
  and the interpretation. \<open>Heap_Allocator\<close> is \<open>DirectAllocator\<close> and \<open>StdShrinker\<close>, \<open>Heap_Market\<close> \<open>FastAllocator\<close> with its agents, \<open>Heap_Properties\<close> the results: the
  allocators implement the set of the free cells. They hold for \<open>2 <= H <= 32\<close> and every \<open>D < H\<close>; the code has \<open>H = 12\<close>.

  \<^bold>\<open>Queues and waiting.\<close> \<open>Bounded_Queue\<close> is \<open>concurrent_queue/bounded_queue.h\<close>: executions are interleavings of the critical sections, the automatic variables of
  waiting calls are part of the state. \<open>Ticket_Timeout\<close> is \<open>internal_rest/network_ticket_timeout_manager.h\<close>, a client of \<open>Expiry_Queue\<close>
  (\<open>network_ack_expiry_queue.h\<close>) and \<open>Cyclic_Queue\<close>: an update lets exactly the calls that can go on go on, as long as calls that have to wait carry new tickets. Both are step relations with invariants proved by rule
  induction; a lock makes a call one step.

  \<^bold>\<open>Containers of the network code\<close> (\<open>internal_rest/network_datastructure.h\<close>). \<open>Power_Of_Two\<close>: sizes and masks. \<open>Cyclic_Queue\<close>: both cyclic queues (64-bit offset, capacity
  \<open>2 ^ k\<close> with \<open>k < 64\<close>) as bounded double-ended queues. \<open>Address_Chain\<close> and \<open>Hash_Chains\<close>: buckets and links as paths. \<open>Cyclic_Node_Set\<close>: the hash set that
  forgets its oldest key; \<open>Temporal_Set\<close> on top of it. \<open>Node_Map\<close> and \<open>Node_Map_Refinement\<close>: the hash map as the list of its entries, and its equality. Capacities are at
  most \<open>2 ^ 50\<close>, what the constructors enforce, so sums of indices do not wrap around; where an argument is shifted before it is compared with that bound, a shift by 64 bits is the error \<open>Bad_shift\<close>.

  \<^bold>\<open>Packets\<close> (\<open>internal_rest/network_kernel_mailbox_impl1.h\<close>). \<open>Char_Objects\<close>, \<open>Network_Exception\<close>, \<open>Compact_Trivial_Serializer\<close>, \<open>Packet_Model\<close> and \<open>Packet_Service\<close>: packets to bytes and
  back, with the codes of \<open>common_exception/\<close>. \<open>Mailbox_Control\<close>: replay protection and retransmission. \<open>Border_Control\<close>: traffic limits and the controllers that learn
  peers, against the windows of addresses that were heard from and sent to. The clock, the hash functions and the order in which a hash set is iterated are arguments: a theorem holds for all of them.

  \<^bold>\<open>Lemmas.\<close> A component has an invariant, one lemma for every operation on every branch, a specification (a list, a map, a window of keys, a set of free cells) and a
  simulation lemma for runs of operations; its properties follow from the simulation. The locales \<open>archive\<close>, \<open>safe_archive\<close>, \<open>stream_codec\<close>,
  \<open>object_of\<close>, \<open>better_order\<close>, \<open>std_heap\<close>, \<open>keyed_store\<close>, \<open>cyclic_deque\<close>, \<open>recent_set\<close>, \<open>expiry_map\<close>, \<open>updatable_border\<close> and \<open>heap_operatable\<close> are what clients rely on; each is interpreted on the definitions of the provider.

  \<^bold>\<open>Bounds.\<close> \<open>size_t\<close> values are natural numbers where the code keeps them small (sizes of memory, capacities that factories limit to \<open>2 ^ 25\<close> or \<open>2 ^ 30\<close>), words or sums
  modulo \<open>2 ^ 64\<close> where they can wrap around (offsets of queues, ends of intervals from clients, the byte that counts retransmissions). There is no fuel.

  \<^bold>\<open>Not modelled.\<close> Failing allocations and constructors of elements that throw. The memory pools of \<open>allocation_base/\<close> and of the rest of \<open>memory_management/\<close>, which are about raw memory and threads; threads,
  schedulers and timers (\<open>concurrency_*\<close>, \<open>cron_subsystem/\<close>, \<open>coroutine_subsystem/\<close>); sockets, workers and REST frames of \<open>internal_rest/\<close>; the loaders, which call the
  libraries of cloud storages; of \<open>dg_heap/\<close> the memory reservoirs, the layout of the buffer and the batch agent that nothing calls; the numerical code (floating point, CUDA) and the optimizers built on it; vendored code. Of the modelled headers: copies, moves and swaps of whole
  containers, iterators, and variants nothing uses.
\<close>

end
